(* ===== verification/Kernel_Prelude.thy ===== *)
theory Kernel_Prelude
  imports Main "HOL-Library.Word"
begin

text \<open>
  What every component of the development shares: the widths of the C integers, the error
  numbers the kernel functions return, the allocator, and generic facts on lists, options and
  words.

  A kernel function that returns \<open>int\<close> and uses it as a status returns \<^emph>\<open>rc\<close> here: \<open>OK\<close> stands
  for 0 and \<open>Err e\<close> for the negative error number \<open>-e\<close>. Memory allocation may fail at any call,
  so a function that allocates takes the schedule \<open>mem\<close> of the outcomes of the allocations to
  come and returns what is left of it; an exhausted schedule stands for an allocator that does
  not fail any more.
\<close>

unbundle bit_operations_syntax

section \<open>Widths and error numbers\<close>

type_synonym u8 = "8 word"
type_synonym u16 = "16 word"
type_synonym u32 = "32 word"
type_synonym u64 = "64 word"

datatype errno =
    EPERM | ENOENT | EINTR | ENOMEM | EACCES | EEXIST | EXDEV | EINVAL | ERANGE | EOPNOTSUPP
  | ENOMSG | EBUSY | ESTALE | EOVERFLOW | E2BIG | EBADF | EBADFD | EFAULT | ENOSYS | EAGAIN | ENAMETOOLONG

type_synonym rc = "errno option"

abbreviation OK :: rc where "OK \<equiv> None"
abbreviation Err :: "errno \<Rightarrow> rc" where "Err e \<equiv> Some e"

section \<open>The allocator\<close>

type_synonym mem = "bool list"

fun kalloc :: "mem \<Rightarrow> bool \<times> mem" where
  "kalloc [] = (True, [])"
| "kalloc (b # bs) = (b, bs)"

text \<open>A schedule under which no allocation fails.\<close>

definition ample :: "mem \<Rightarrow> bool" where
  "ample m \<longleftrightarrow> False \<notin> set m"

named_theorems alloc_simps \<open>allocation under an ample schedule\<close>

lemma ample_Nil [simp, alloc_simps]: "ample []"
  by (simp add: ample_def)

lemma ample_kalloc: "ample m \<Longrightarrow> \<exists>m'. kalloc m = (True, m') \<and> ample m'"
  by (cases m) (auto simp: ample_def)

lemma kalloc_ampleE:
  assumes "ample m"
  obtains m' where "kalloc m = (True, m')" "ample m'"
  using ample_kalloc [OF assms] by blast

section \<open>Sequences of fallible steps\<close>

text \<open>The rest of a function runs when the step before it succeeded.\<close>

definition then_ok :: "rc \<times> 's \<times> mem \<Rightarrow> ('s \<Rightarrow> mem \<Rightarrow> rc \<times> 's \<times> mem) \<Rightarrow> rc \<times> 's \<times> mem" where
  "then_ok r f = (case r of (OK, s, m) \<Rightarrow> f s m | (Err e, s, m) \<Rightarrow> (Err e, s, m))"

lemma then_ok_simps [simp]:
  "then_ok (OK, s, m) f = f s m"
  "then_ok (Err e, s, m) f = (Err e, s, m)"
  by (simp_all add: then_ok_def)

lemma then_ok_OK_E:
  assumes "then_ok r f = (OK, s', m')"
  obtains s m where "r = (OK, s, m)" "f s m = (OK, s', m')"
  using assms by (auto simp: then_ok_def split: prod.splits option.splits)

section \<open>Words\<close>

text \<open>The sign of the difference of two small unsigned values, taken as \<open>int\<close>.\<close>

lemma sint_diff_u32:
  fixes a b :: u32
  assumes "a < 2 ^ 31" "b < 2 ^ 31"
  shows "sint (a - b) = uint a - uint b"
proof -
  have a: "0 \<le> uint a" "uint a < 2 ^ 31" and b: "0 \<le> uint b" "uint b < 2 ^ 31"
    using assms by (simp_all add: word_less_def)
  have "sint (a - b) = signed_take_bit 31 (uint (a - b))"
    by (simp add: sint_uint)
  also have "\<dots> = signed_take_bit 31 (uint a - uint b)"
    by (simp add: uint_word_ariths signed_take_bit_eq_iff_take_bit_eq take_bit_eq_mod)
  also have "\<dots> = uint a - uint b"
    using a b by (intro signed_take_bit_int_eq_self) linarith+
  finally show ?thesis .
qed

lemma unat_u32_of_nat: "k < 2 ^ 32 \<Longrightarrow> unat (of_nat k :: u32) = k"
  by (simp add: unat_of_nat)

lemma unat_u32_bound [simp]: "unat (w :: u32) < 4294967296"
  using unsigned_less [of w, where ?'a = nat] by simp

lemma unat_plus_one_u32:
  fixes w :: u32
  assumes "w \<noteq> 0xffffffff"
  shows "unat (w + 1) = unat w + 1"
proof -
  have "unat w \<noteq> 4294967295"
    using assms by (simp add: word_unat_eq_iff)
  then have "unat w + 1 < 4294967296"
    using unat_u32_bound [of w] by linarith
  then show ?thesis
    by (simp add: unat_word_ariths)
qed

text \<open>Sign extension of a non-negative \<open>int\<close> to 64 bits.\<close>

lemma sint_small:
  fixes b :: u32
  assumes "unat b < 2 ^ 31"
  shows "sint b = int (unat b)"
proof -
  have "uint b < 2 ^ 31" using assms by (metis of_nat_less_iff of_nat_numeral of_nat_power of_nat_unat)
  then have "signed_take_bit 31 (uint b) = uint b" by (intro signed_take_bit_int_eq_self) (auto intro: order_trans [of _ 0])
  then show ?thesis by (simp add: sint_uint)
qed

lemma unat_signed_small:
  fixes b :: u32
  assumes "unat b < 2 ^ 31"
  shows "unat (signed b :: u64) = unat b"
proof -
  have i: "uint b = int (unat b)" by simp
  have "int (unat b) < int (2 ^ 31)"
    using assms by (simp only: of_nat_less_iff)
  then have u: "uint b < 2 ^ 31"
    by (simp only: i of_nat_power of_nat_numeral)
  have "sint b = signed_take_bit 31 (uint b)"
    by (simp add: sint_uint)
  also have "\<dots> = uint b"
    using u by (intro signed_take_bit_int_eq_self) (auto intro: order_trans [of _ 0])
  finally have "sint b = uint b" .
  then have "(signed b :: u64) = of_nat (unat b)"
    by (simp add: scast_eq)
  moreover have "unat (of_nat (unat b) :: u64) = unat b"
    unfolding unat_of_nat using assms by (intro mod_less) simp
  ultimately show ?thesis by (simp only:)
qed

section \<open>Searching an interval\<close>

lemma find_upt_Some_iff:
  "find P [a..<b] = Some k \<longleftrightarrow> a \<le> k \<and> k < b \<and> P k \<and> (\<forall>j. a \<le> j \<longrightarrow> j < k \<longrightarrow> \<not> P j)"
proof
  assume "find P [a..<b] = Some k"
  then obtain i where i: "i < b - a" "P (a + i)" "k = a + i" "\<forall>j<i. \<not> P (a + j)"
    by (auto simp: find_Some_iff)
  have "\<not> P j" if "a \<le> j" "j < k" for j
    using i(4) [rule_format, of "j - a"] i(3) that by simp
  then show "a \<le> k \<and> k < b \<and> P k \<and> (\<forall>j. a \<le> j \<longrightarrow> j < k \<longrightarrow> \<not> P j)"
    using i by simp
next
  assume k: "a \<le> k \<and> k < b \<and> P k \<and> (\<forall>j. a \<le> j \<longrightarrow> j < k \<longrightarrow> \<not> P j)"
  then show "find P [a..<b] = Some k"
    by (auto simp: find_Some_iff intro!: exI [of _ "k - a"])
qed

lemma find_upt_None_iff: "find P [a..<b] = None \<longleftrightarrow> (\<forall>j. a \<le> j \<longrightarrow> j < b \<longrightarrow> \<not> P j)"
  by (auto simp: find_None_iff)

section \<open>Caches\<close>

text \<open>
  A cache may lose entries at any time. What it promises is that an entry it returns was put there for
  its key: \<open>put k v c c'\<close> says that \<open>c'\<close> results from \<open>c\<close> by the attempt to store \<open>v\<close> under \<open>k\<close>. So a
  property of all the values that are ever stored holds of all the values that are found.
\<close>

locale lossy_cache =
  fixes wf :: "'c \<Rightarrow> bool"
    and look :: "'c \<Rightarrow> 'k \<Rightarrow> 'v option"
    and put :: "'k \<Rightarrow> 'v \<Rightarrow> 'c \<Rightarrow> 'c \<Rightarrow> bool"
    and flush :: "'c \<Rightarrow> 'c"
  assumes flush_wf: "wf c \<Longrightarrow> wf (flush c)"
    and flush_look: "wf c \<Longrightarrow> look (flush c) k = None"
    and put_wf: "wf c \<Longrightarrow> put k v c c' \<Longrightarrow> wf c'"
    and put_look: "wf c \<Longrightarrow> put k v c c' \<Longrightarrow> look c' k' = Some w \<Longrightarrow> k' = k \<and> w = v \<or> look c k' = Some w"
begin

definition coherent :: "('k \<Rightarrow> 'v \<Rightarrow> bool) \<Rightarrow> 'c \<Rightarrow> bool" where
  "coherent R c \<longleftrightarrow> wf c \<and> (\<forall>k v. look c k = Some v \<longrightarrow> R k v)"

lemma coherent_wf: "coherent R c \<Longrightarrow> wf c"
  by (simp add: coherent_def)

lemma coherent_look: "coherent R c \<Longrightarrow> look c k = Some v \<Longrightarrow> R k v"
  by (simp add: coherent_def)

lemma coherent_flush: "wf c \<Longrightarrow> coherent R (flush c)"
  by (simp add: coherent_def flush_wf flush_look)

lemma coherent_put:
  assumes "coherent R c" "put k v c c'" "R k v"
  shows "coherent R c'"
  using assms put_wf put_look unfolding coherent_def by blast

lemma coherent_mono: "coherent R c \<Longrightarrow> (\<And>k v. R k v \<Longrightarrow> R' k v) \<Longrightarrow> coherent R' c"
  by (auto simp: coherent_def)

end

end
