(* ===== verification/Avtab.thy ===== *)
theory Avtab
  imports Kernel_Prelude "HOL-Library.Multiset"
begin

text \<open>
  The access vector table (\<open>ss/avtab.c\<close>, \<open>ss/avtab.h\<close>): the hash table of the type enforcement
  rules, each chain sorted by source type, target type and class.

  A chain is the list of its nodes and a pointer to a node is the rest of the chain from that node
  on, the empty list for \<open>NULL\<close>. Conditional rules refer to nodes of the table by their address;
  since a single node is never freed, the number of nodes the table had when the node was linked
  identifies it, and is its field \<open>an_addr\<close>.
\<close>

section \<open>Data\<close>

record avtab_key =
  source_type :: u16
  target_type :: u16
  target_class :: u16
  specified :: u16

abbreviation AVTAB_ALLOWED :: u16 where "AVTAB_ALLOWED \<equiv> 0x0001"
abbreviation AVTAB_AUDITALLOW :: u16 where "AVTAB_AUDITALLOW \<equiv> 0x0002"
abbreviation AVTAB_AUDITDENY :: u16 where "AVTAB_AUDITDENY \<equiv> 0x0004"
abbreviation AVTAB_AV :: u16 where "AVTAB_AV \<equiv> 0x0007"
abbreviation AVTAB_TRANSITION :: u16 where "AVTAB_TRANSITION \<equiv> 0x0010"
abbreviation AVTAB_MEMBER :: u16 where "AVTAB_MEMBER \<equiv> 0x0020"
abbreviation AVTAB_CHANGE :: u16 where "AVTAB_CHANGE \<equiv> 0x0040"
abbreviation AVTAB_TYPE :: u16 where "AVTAB_TYPE \<equiv> 0x0070"
abbreviation AVTAB_XPERMS_ALLOWED :: u16 where "AVTAB_XPERMS_ALLOWED \<equiv> 0x0100"
abbreviation AVTAB_XPERMS_AUDITALLOW :: u16 where "AVTAB_XPERMS_AUDITALLOW \<equiv> 0x0200"
abbreviation AVTAB_XPERMS_DONTAUDIT :: u16 where "AVTAB_XPERMS_DONTAUDIT \<equiv> 0x0400"
abbreviation AVTAB_XPERMS :: u16 where "AVTAB_XPERMS \<equiv> 0x0700"
abbreviation AVTAB_ENABLED :: u16 where "AVTAB_ENABLED \<equiv> 0x8000"

abbreviation AVTAB_XPERMS_IOCTLFUNCTION :: u8 where "AVTAB_XPERMS_IOCTLFUNCTION \<equiv> 0x01"
abbreviation AVTAB_XPERMS_IOCTLDRIVER :: u8 where "AVTAB_XPERMS_IOCTLDRIVER \<equiv> 0x02"

text \<open>The 256 bits of extended permissions are eight words.\<close>

record avtab_extended_perms =
  xp_specified :: u8
  xp_driver :: u8
  xp_perms :: "u32 list"

datatype avtab_datum = Data u32 | Xperms avtab_extended_perms

record avtab_node =
  an_key :: avtab_key
  an_datum :: avtab_datum
  an_addr :: nat

record avtab =
  av_htable :: "avtab_node list list"
  av_nel :: u32
  av_nslot :: u32
  av_mask :: u32

section \<open>Operations\<close>

definition rol :: "u32 \<Rightarrow> nat \<Rightarrow> u32" where
  "rol v r = push_bit r v OR drop_bit (32 - r) v"

definition avtab_mix :: "u32 \<Rightarrow> u32 \<Rightarrow> u32" where
  "avtab_mix input hash =
     (let v = rol (input * 0xcc9e2d51) 15 * 0x1b873593
      in rol (hash XOR v) 13 * 5 + 0xe6546b64)"

definition avtab_hash :: "avtab_key \<Rightarrow> u32 \<Rightarrow> u32" where
  "avtab_hash keyp msk =
     (let h0 = avtab_mix (ucast (source_type keyp))
                 (avtab_mix (ucast (target_type keyp)) (avtab_mix (ucast (target_class keyp)) 0));
          h1 = (h0 XOR drop_bit 16 h0) * 0x85ebca6b;
          h2 = (h1 XOR drop_bit 13 h1) * 0xc2b2ae35;
          h3 = h2 XOR drop_bit 16 h2
      in h3 AND msk)"

text \<open>The three tests of the walks that stop it, and the test for a node of the key.\<close>

definition avtab_key_lt :: "avtab_key \<Rightarrow> avtab_key \<Rightarrow> bool" where
  "avtab_key_lt key cur \<longleftrightarrow>
     source_type key < source_type cur \<or>
     source_type key = source_type cur \<and> target_type key < target_type cur \<or>
     source_type key = source_type cur \<and> target_type key = target_type cur \<and>
       target_class key < target_class cur"

definition same_triple :: "avtab_key \<Rightarrow> avtab_key \<Rightarrow> bool" where
  "same_triple key cur \<longleftrightarrow> source_type key = source_type cur \<and> target_type key = target_type cur \<and>
     target_class key = target_class cur"

definition avtab_match :: "avtab_key \<Rightarrow> u16 \<Rightarrow> avtab_node \<Rightarrow> bool" where
  "avtab_match key spec cur \<longleftrightarrow> same_triple key (an_key cur) \<and> spec AND specified (an_key cur) \<noteq> 0"

text \<open>The mask \<open>~(AVTAB_ENABLED|AVTAB_ENABLED_OLD)\<close> truncated to 16 bits.\<close>

definition spec_mask :: "u16 \<Rightarrow> u16" where
  "spec_mask s = s AND NOT AVTAB_ENABLED"

definition avtab_insert_node ::
  "nat \<Rightarrow> avtab_key \<Rightarrow> avtab_datum \<Rightarrow> mem \<Rightarrow> avtab_node option \<times> mem" where
  "avtab_insert_node addr key datum m =
     (case kalloc m of
        (False, m') \<Rightarrow> (None, m')
      | (True, m') \<Rightarrow>
          (let newnode = \<lparr>an_key = key, an_datum = datum, an_addr = addr\<rparr>
           in if specified key AND AVTAB_XPERMS \<noteq> 0
              then case kalloc m' of
                     (False, m'') \<Rightarrow> (None, m'')
                   | (True, m'') \<Rightarrow> (Some newnode, m'')
              else (Some newnode, m')))"

text \<open>
  The walk that looks for the place of a new node: the number of nodes before it, or none when the
  node the walk stops at forbids the insertion. The flag tells the unique insertion from the other.
\<close>

fun avtab_place :: "bool \<Rightarrow> avtab_key \<Rightarrow> u16 \<Rightarrow> avtab_node list \<Rightarrow> nat option" where
  "avtab_place unique key spec [] = Some 0"
| "avtab_place unique key spec (cur # rest) =
     (if avtab_match key spec cur
      then if unique \<and> spec AND AVTAB_XPERMS = 0 then None else Some 0
      else if avtab_key_lt key (an_key cur) then Some 0
      else map_option Suc (avtab_place unique key spec rest))"

definition avtab_link :: "avtab \<Rightarrow> nat \<Rightarrow> nat \<Rightarrow> avtab_node \<Rightarrow> avtab" where
  "avtab_link h hvalue pos newnode =
     (let chain = av_htable h ! hvalue
      in h\<lparr>av_htable := (av_htable h)[hvalue := take pos chain @ newnode # drop pos chain],
           av_nel := av_nel h + 1\<rparr>)"

definition avtab_insert :: "avtab \<Rightarrow> avtab_key \<Rightarrow> avtab_datum \<Rightarrow> mem \<Rightarrow> rc \<times> avtab \<times> mem" where
  "avtab_insert h key datum m =
     (if av_nslot h = 0 \<or> av_nel h = 0xffffffff then (Err EINVAL, h, m)
      else let spec = spec_mask (specified key); hvalue = unat (avtab_hash key (av_mask h))
           in case avtab_place True key spec (av_htable h ! hvalue) of
                None \<Rightarrow> (Err EEXIST, h, m)
              | Some pos \<Rightarrow>
                  (case avtab_insert_node (unat (av_nel h)) key datum m of
                     (None, m') \<Rightarrow> (Err ENOMEM, h, m')
                   | (Some newnode, m') \<Rightarrow> (OK, avtab_link h hvalue pos newnode, m')))"

text \<open>\<open>avtab_insert_nonunique\<close> returns the new node or \<open>NULL\<close>; the node is given by its address.\<close>

definition avtab_insert_nonunique ::
  "avtab \<Rightarrow> avtab_key \<Rightarrow> avtab_datum \<Rightarrow> mem \<Rightarrow> nat option \<times> avtab \<times> mem" where
  "avtab_insert_nonunique h key datum m =
     (if av_nslot h = 0 \<or> av_nel h = 0xffffffff then (None, h, m)
      else let spec = spec_mask (specified key); hvalue = unat (avtab_hash key (av_mask h))
           in case avtab_place False key spec (av_htable h ! hvalue) of
                None \<Rightarrow> (None, h, m)
              | Some pos \<Rightarrow>
                  (case avtab_insert_node (unat (av_nel h)) key datum m of
                     (None, m') \<Rightarrow> (None, h, m')
                   | (Some newnode, m') \<Rightarrow> (Some (an_addr newnode), avtab_link h hvalue pos newnode, m')))"

fun avtab_walk :: "avtab_key \<Rightarrow> u16 \<Rightarrow> avtab_node list \<Rightarrow> avtab_node list" where
  "avtab_walk key spec [] = []"
| "avtab_walk key spec (cur # rest) =
     (if avtab_match key spec cur then cur # rest
      else if avtab_key_lt key (an_key cur) then []
      else avtab_walk key spec rest)"

definition avtab_search_node :: "avtab \<Rightarrow> avtab_key \<Rightarrow> avtab_node list" where
  "avtab_search_node h key =
     (if av_nslot h = 0 then []
      else avtab_walk key (spec_mask (specified key)) (av_htable h ! unat (avtab_hash key (av_mask h))))"

fun avtab_search_node_next :: "avtab_node list \<Rightarrow> u16 \<Rightarrow> avtab_node list" where
  "avtab_search_node_next [] spec = []"
| "avtab_search_node_next (node # rest) spec = avtab_walk (an_key node) (spec_mask spec) rest"

text \<open>
  The loop \<open>for (node = avtab_search_node(h, key); node; node = avtab_search_node_next(node, key->specified))\<close>
  of the clients: the nodes it visits.
\<close>

lemma length_avtab_walk: "length (avtab_walk key spec ns) \<le> length ns"
  by (induction key spec ns rule: avtab_walk.induct) auto

function avtab_nodes_from :: "avtab_node list \<Rightarrow> u16 \<Rightarrow> avtab_node list" where
  "avtab_nodes_from [] spec = []"
| "avtab_nodes_from (node # rest) spec = node # avtab_nodes_from (avtab_search_node_next (node # rest) spec) spec"
  by pat_completeness auto
termination
  by (relation "measure (length \<circ> fst)") (simp_all add: length_avtab_walk less_Suc_eq_le)

definition avtab_for_each :: "avtab \<Rightarrow> avtab_key \<Rightarrow> avtab_node list" where
  "avtab_for_each h key = avtab_nodes_from (avtab_search_node h key) (specified key)"

definition avtab_init :: avtab where
  "avtab_init = \<lparr>av_htable = [], av_nel = 0, av_nslot = 0, av_mask = 0\<rparr>"

definition avtab_destroy :: "avtab \<Rightarrow> avtab" where
  "avtab_destroy h = \<lparr>av_htable = [], av_nel = 0, av_nslot = 0, av_mask = 0\<rparr>"

definition avtab_alloc_common :: "avtab \<Rightarrow> u32 \<Rightarrow> mem \<Rightarrow> rc \<times> avtab \<times> mem" where
  "avtab_alloc_common h nslot m =
     (if nslot = 0 then (OK, h, m)
      else case kalloc m of
             (False, m') \<Rightarrow> (Err ENOMEM, h\<lparr>av_htable := []\<rparr>, m')
           | (True, m') \<Rightarrow>
               (OK, h\<lparr>av_htable := replicate (unat nslot) [], av_nslot := nslot, av_mask := nslot - 1\<rparr>, m'))"

text \<open>The shift is one more than the number of bits of \<open>nrules >> 3\<close>.\<close>

function avtab_shift :: "u32 \<Rightarrow> nat \<Rightarrow> nat" where
  "avtab_shift work shift = (if work = 0 then shift else avtab_shift (drop_bit 1 work) (shift + 1))"
  by pat_completeness auto
termination
proof (relation "measure (unat \<circ> fst)")
  fix work :: u32
  assume "work \<noteq> 0"
  then have "0 < unat work" by (simp add: unat_gt_0)
  then show "\<And>shift. ((drop_bit 1 work, shift + 1), work, shift) \<in> measure (unat \<circ> fst)"
    by (simp add: drop_bit_eq_div unat_div)
qed simp

declare avtab_shift.simps [simp del]

abbreviation MAX_AVTAB_HASH_BUCKETS :: u32 where "MAX_AVTAB_HASH_BUCKETS \<equiv> 0x10000"

definition avtab_alloc :: "avtab \<Rightarrow> u32 \<Rightarrow> mem \<Rightarrow> rc \<times> avtab \<times> mem" where
  "avtab_alloc h nrules m =
     (if nrules = 0 then (OK, h, m)
      else let shift = avtab_shift (drop_bit 3 nrules) 1;
               nslot = min (push_bit shift 1) MAX_AVTAB_HASH_BUCKETS
           in avtab_alloc_common h nslot m)"

definition avtab_alloc_dup :: "avtab \<Rightarrow> avtab \<Rightarrow> mem \<Rightarrow> rc \<times> avtab \<times> mem" where
  "avtab_alloc_dup new orig m = avtab_alloc_common new (av_nslot orig) m"


section \<open>Well-formed tables\<close>

definition chain_sorted :: "avtab_node list \<Rightarrow> bool" where
  "chain_sorted = sorted_wrt (\<lambda>a b. \<not> avtab_key_lt (an_key b) (an_key a))"

text \<open>
  Every node is in the slot of its key, every chain is sorted, and the addresses of the nodes are
  those the table has given out.
\<close>

definition avtab_nodes :: "avtab \<Rightarrow> avtab_node list" where
  "avtab_nodes h = concat (av_htable h)"

definition avtab_wf :: "avtab \<Rightarrow> bool" where
  "avtab_wf h \<longleftrightarrow> length (av_htable h) = unat (av_nslot h) \<and> (av_nslot h \<noteq> 0 \<longrightarrow> av_mask h = av_nslot h - 1) \<and>
     (\<forall>i < length (av_htable h). chain_sorted (av_htable h ! i) \<and>
        (\<forall>n \<in> set (av_htable h ! i). unat (avtab_hash (an_key n) (av_mask h)) = i)) \<and>
     an_addr ` set (avtab_nodes h) = {0..<unat (av_nel h)} \<and> length (avtab_nodes h) = unat (av_nel h)"

lemma key_lt_irrefl [simp]: "\<not> avtab_key_lt k k"
  by (simp add: avtab_key_lt_def)

lemma key_lt_trans: "avtab_key_lt a b \<Longrightarrow> avtab_key_lt b c \<Longrightarrow> avtab_key_lt a c"
  by (auto simp: avtab_key_lt_def)

lemma key_lt_total: "same_triple a b \<or> avtab_key_lt a b \<or> avtab_key_lt b a"
  by (auto simp: avtab_key_lt_def same_triple_def)

lemma same_triple_lt:
  "same_triple a b \<Longrightarrow> avtab_key_lt a c = avtab_key_lt b c"
  "same_triple a b \<Longrightarrow> avtab_key_lt c a = avtab_key_lt c b"
  by (auto simp: avtab_key_lt_def same_triple_def)

lemma same_triple_refl [simp]: "same_triple a a"
  by (simp add: same_triple_def)

lemma same_triple_sym: "same_triple a b \<Longrightarrow> same_triple b a"
  by (simp add: same_triple_def)

lemma same_triple_trans: "same_triple a b \<Longrightarrow> same_triple b c \<Longrightarrow> same_triple a c"
  by (simp add: same_triple_def)

lemma key_le_lt_trans: "\<not> avtab_key_lt b a \<Longrightarrow> avtab_key_lt k a \<Longrightarrow> avtab_key_lt k b"
  using key_lt_total [of a b] key_lt_trans [of k a b] same_triple_lt(2) [of a b k] by blast

lemma key_lt_no_match: "avtab_key_lt key (an_key n) \<Longrightarrow> \<not> avtab_match key spec n"
  by (auto simp: avtab_match_def avtab_key_lt_def same_triple_def)

lemma chain_sorted_Cons:
  "chain_sorted (n # ns) \<longleftrightarrow> (\<forall>n' \<in> set ns. \<not> avtab_key_lt (an_key n') (an_key n)) \<and> chain_sorted ns"
  by (simp add: chain_sorted_def)

lemma chain_sorted_append:
  "chain_sorted (xs @ ys) \<longleftrightarrow> chain_sorted xs \<and> chain_sorted ys \<and>
     (\<forall>x \<in> set xs. \<forall>y \<in> set ys. \<not> avtab_key_lt (an_key y) (an_key x))"
  by (simp add: chain_sorted_def sorted_wrt_append)

lemma hash_same_triple: "same_triple a b \<Longrightarrow> avtab_hash a msk = avtab_hash b msk"
  by (simp add: same_triple_def avtab_hash_def)

lemma avtab_hash_le: "avtab_hash key msk \<le> msk"
  by (simp add: avtab_hash_def Let_def word_and_le1)

lemma avtab_slot:
  assumes "avtab_wf h" "av_nslot h \<noteq> 0"
  shows "unat (avtab_hash key (av_mask h)) < length (av_htable h)"
proof -
  have "avtab_hash key (av_mask h) \<le> av_nslot h - 1"
    using assms avtab_hash_le [of key] by (simp add: avtab_wf_def)
  also have "\<dots> < av_nslot h"
    using assms(2) by (simp add: word_less_nat_alt unat_minus_one unat_gt_0)
  finally show ?thesis
    using assms(1) by (simp add: avtab_wf_def word_less_nat_alt)
qed

section \<open>Searching\<close>

lemma walk_past: "chain_sorted (n # ns) \<Longrightarrow> avtab_key_lt key (an_key n) \<Longrightarrow> n' \<in> set (n # ns) \<Longrightarrow> \<not> avtab_match key spec n'"
proof (cases "n' = n")
  case False
  assume "chain_sorted (n # ns)" "avtab_key_lt key (an_key n)" "n' \<in> set (n # ns)"
  then have "avtab_key_lt key (an_key n')"
    using False by (auto simp: chain_sorted_Cons intro: key_le_lt_trans)
  then show ?thesis by (rule key_lt_no_match)
qed (simp add: key_lt_no_match)

lemma walk_sorted: "chain_sorted ns \<Longrightarrow> chain_sorted (avtab_walk key spec ns)"
  by (induction key spec ns rule: avtab_walk.induct) (auto simp: chain_sorted_Cons chain_sorted_def)

lemma walk_filter:
  "chain_sorted ns \<Longrightarrow> filter (avtab_match key spec) ns =
    (case avtab_walk key spec ns of [] \<Rightarrow> [] | n # rest \<Rightarrow> n # filter (avtab_match key spec) rest)"
proof (induction key spec ns rule: avtab_walk.induct)
  case (2 key spec cur rest)
  show ?case
  proof (cases "avtab_match key spec cur \<or> \<not> avtab_key_lt key (an_key cur)")
    case True
    then show ?thesis
      using 2 by (auto simp: chain_sorted_Cons)
  next
    case False
    then have "filter (avtab_match key spec) (cur # rest) = []"
      using walk_past [OF "2.prems", of key _ spec] by (simp only: filter_empty_conv) blast
    then show ?thesis
      using False by simp
  qed
qed simp

lemma walk_match: "avtab_walk key spec ns = n # rest \<Longrightarrow> avtab_match key spec n"
  by (induction key spec ns rule: avtab_walk.induct) (auto split: if_splits)

lemma match_same_triple: "same_triple k k' \<Longrightarrow> avtab_match k = avtab_match k'"
  by (auto simp: fun_eq_iff avtab_match_def same_triple_def)

lemma nodes_from_walk:
  "chain_sorted ns \<Longrightarrow> avtab_nodes_from (avtab_walk key (spec_mask s) ns) s = filter (avtab_match key (spec_mask s)) ns"
proof (induction "length ns" arbitrary: ns key rule: less_induct)
  case less
  note walk = walk_filter [OF less.prems, of key "spec_mask s"]
  show ?case
  proof (cases "avtab_walk key (spec_mask s) ns")
    case Nil
    then show ?thesis using walk by simp
  next
    case (Cons n rest)
    then have "avtab_match key (spec_mask s) n" by (rule walk_match)
    then have n: "avtab_match (an_key n) = avtab_match key"
      by (intro match_same_triple) (simp add: avtab_match_def same_triple_sym)
    have "chain_sorted rest" "length rest < length ns"
      using walk_sorted [OF less.prems, of key "spec_mask s"] length_avtab_walk [of key "spec_mask s" ns] Cons
      by (simp_all add: chain_sorted_Cons)
    with less.hyps [of rest "an_key n"] show ?thesis
      using Cons walk n by simp
  qed
qed

lemma filter_concat_slot:
  assumes "i < length xss" "\<And>j x. j < length xss \<Longrightarrow> x \<in> set (xss ! j) \<Longrightarrow> P x \<Longrightarrow> j = i"
  shows "filter P (concat xss) = filter P (xss ! i)"
  using assms
proof (induction xss arbitrary: i)
  case (Cons xs xss)
  show ?case
  proof (cases i)
    case 0
    have "\<not> P x" if "ys \<in> set xss" "x \<in> set ys" for ys x
      using that Cons.prems(2) [of "Suc k" x for k] 0 by (auto simp: in_set_conv_nth [of ys])
    then have "filter P (concat xss) = []"
      by (auto simp: filter_empty_conv)
    then show ?thesis using 0 by simp
  next
    case (Suc i')
    have "filter P xs = []"
      using Cons.prems(2) [of 0] Suc by (auto simp: filter_empty_conv)
    moreover have "j = i'" if "j < length xss" "x \<in> set (xss ! j)" "P x" for j x
      using Cons.prems(2) [of "Suc j" x] that Suc by simp
    then have "filter P (concat xss) = filter P (xss ! i')"
      using Cons.prems(1) Suc by (intro Cons.IH) simp_all
    ultimately show ?thesis using Suc by simp
  qed
qed simp

lemma filter_nodes_slot:
  assumes "avtab_wf h" "av_nslot h \<noteq> 0"
  shows "filter (avtab_match key spec) (avtab_nodes h) =
    filter (avtab_match key spec) (av_htable h ! unat (avtab_hash key (av_mask h)))"
  unfolding avtab_nodes_def
proof (rule filter_concat_slot [OF avtab_slot [OF assms]])
  fix j n
  assume "j < length (av_htable h)" "n \<in> set (av_htable h ! j)" "avtab_match key spec n"
  then show "j = unat (avtab_hash key (av_mask h))"
    using assms(1) hash_same_triple [of key "an_key n"] by (auto simp: avtab_wf_def avtab_match_def)
qed

lemma slot_sorted: "avtab_wf h \<Longrightarrow> av_nslot h \<noteq> 0 \<Longrightarrow> chain_sorted (av_htable h ! unat (avtab_hash key (av_mask h)))"
  using avtab_slot [of h key] unfolding avtab_wf_def by blast

lemma nodes_no_slot: "avtab_wf h \<Longrightarrow> av_nslot h = 0 \<Longrightarrow> avtab_nodes h = []"
  by (simp add: avtab_wf_def avtab_nodes_def)

lemma avtab_for_each_filter:
  assumes "avtab_wf h"
  shows "avtab_for_each h key = filter (avtab_match key (spec_mask (specified key))) (avtab_nodes h)"
proof (cases "av_nslot h = 0")
  case True
  then show ?thesis
    using assms by (simp add: avtab_for_each_def avtab_search_node_def nodes_no_slot)
next
  case False
  then show ?thesis
    by (simp add: avtab_for_each_def avtab_search_node_def nodes_from_walk slot_sorted filter_nodes_slot assms)
qed


section \<open>Insertion\<close>

lemma place_None:
  assumes "chain_sorted ns"
  shows "avtab_place u key spec ns = None \<longleftrightarrow>
    u \<and> spec AND AVTAB_XPERMS = 0 \<and> (\<exists>n \<in> set ns. avtab_match key spec n)"
  using assms
proof (induction u key spec ns rule: avtab_place.induct)
  case (2 u key spec cur rest)
  show ?case
  proof (cases "avtab_match key spec cur \<or> \<not> avtab_key_lt key (an_key cur)")
    case True
    then show ?thesis
      using 2 by (auto simp: chain_sorted_Cons)
  next
    case False
    then show ?thesis
      using walk_past [OF "2.prems", of key _ spec] by auto
  qed
qed simp

lemma place_Some:
  assumes "avtab_place u key spec ns = Some pos" "chain_sorted ns"
  shows "pos \<le> length ns \<and> (\<forall>n \<in> set (take pos ns). \<not> avtab_key_lt key (an_key n) \<and> \<not> avtab_match key spec n) \<and>
    (\<forall>n \<in> set (drop pos ns). \<not> avtab_key_lt (an_key n) key)"
  using assms
proof (induction u key spec ns arbitrary: pos rule: avtab_place.induct)
  case (2 u key spec cur rest)
  have le: "\<forall>n \<in> set rest. \<not> avtab_key_lt (an_key n) (an_key cur)" and sorted: "chain_sorted rest"
    using "2.prems"(2) by (simp_all add: chain_sorted_Cons)
  show ?case
  proof (cases "avtab_match key spec cur \<or> avtab_key_lt key (an_key cur)")
    case True
    then have "pos = 0"
      using "2.prems"(1) by (auto split: if_splits)
    moreover have "\<not> avtab_key_lt (an_key n) key" if "n \<in> set (cur # rest)" for n
    proof
      assume n: "avtab_key_lt (an_key n) key"
      have "avtab_key_lt (an_key n) (an_key cur)"
        using True n same_triple_lt(2) [of key "an_key cur"] key_lt_trans by (auto simp: avtab_match_def)
      then show False
        using le that by auto
    qed
    ultimately show ?thesis by simp
  next
    case False
    then obtain pos' where "pos = Suc pos'" "avtab_place u key spec rest = Some pos'"
      using "2.prems"(1) by auto
    then show ?thesis
      using "2.IH" False sorted by auto
  qed
qed simp

lemma insert_node_key:
  "avtab_insert_node addr key datum m = (Some n, m') \<Longrightarrow> n = \<lparr>an_key = key, an_datum = datum, an_addr = addr\<rparr>"
  by (auto simp: avtab_insert_node_def Let_def split: prod.splits bool.splits if_splits)

lemma insert_node_ample:
  assumes "ample m"
  shows "\<exists>m'. avtab_insert_node addr key datum m = (Some \<lparr>an_key = key, an_datum = datum, an_addr = addr\<rparr>, m') \<and> ample m'"
proof -
  obtain m1 where m1: "kalloc m = (True, m1)" "ample m1"
    using kalloc_ampleE [OF assms] by blast
  obtain m2 where "kalloc m1 = (True, m2)" "ample m2"
    using kalloc_ampleE [OF m1(2)] by blast
  with m1 show ?thesis by (simp add: avtab_insert_node_def Let_def)
qed

lemma mset_concat_update:
  assumes "i < length xss" "mset ys = add_mset y (mset (xss ! i))"
  shows "mset (concat (xss[i := ys])) = add_mset y (mset (concat xss))"
  using assms by (induction xss arbitrary: i) (auto split: nat.splits)

text \<open>
  Linking a node at the place the walk found: the table stays well formed and has one node more.
\<close>

lemma avtab_link_wf:
  assumes wf: "avtab_wf h" "av_nslot h \<noteq> 0" "av_nel h \<noteq> 0xffffffff"
    and place: "avtab_place u key spec (av_htable h ! unat (avtab_hash key (av_mask h))) = Some pos"
    and n: "an_key n = key" "an_addr n = unat (av_nel h)"
  defines "h' \<equiv> avtab_link h (unat (avtab_hash key (av_mask h))) pos n"
  shows "avtab_wf h'" "mset (avtab_nodes h') = add_mset n (mset (avtab_nodes h))"
proof -
  let ?i = "unat (avtab_hash key (av_mask h))"
  let ?c = "av_htable h ! ?i"
  let ?c' = "take pos ?c @ n # drop pos ?c"
  have i: "?i < length (av_htable h)"
    by (rule avtab_slot [OF wf(1,2)])
  note p = place_Some [OF place slot_sorted [OF wf(1,2)]]
  have h': "av_htable h' = (av_htable h)[?i := ?c']" "av_nel h' = av_nel h + 1"
    "av_nslot h' = av_nslot h" "av_mask h' = av_mask h"
    by (simp_all add: h'_def avtab_link_def Let_def)
  have nel: "unat (av_nel h + 1) = unat (av_nel h) + 1"
    using wf(3) by (simp add: unat_plus_one_u32)
  have "chain_sorted (take pos ?c @ drop pos ?c)"
    using slot_sorted [OF wf(1,2)] by simp
  then have sorted: "chain_sorted ?c'"
    using p n(1) by (auto simp only: chain_sorted_append chain_sorted_Cons list.set insert_iff)
  have set_c': "set ?c' = insert n (set ?c)"
    using set_append [of "take pos ?c" "drop pos ?c"] by simp
  show ms: "mset (avtab_nodes h') = add_mset n (mset (avtab_nodes h))"
    unfolding avtab_nodes_def h' using i by (rule mset_concat_update) (metis append_take_drop_id mset_append
        mset.simps(2) union_mset_add_mset_right)
  have "set (avtab_nodes h') = insert n (set (avtab_nodes h))"
    using ms by (metis set_mset_add_mset_insert set_mset_mset)
  moreover have "length (avtab_nodes h') = length (avtab_nodes h) + 1"
    using ms by (metis Suc_eq_plus1 size_add_mset size_mset)
  ultimately show "avtab_wf h'"
    using wf(1) i n nel sorted set_c' unfolding avtab_wf_def h'
    by (auto simp: nth_list_update atLeast0_lessThan_Suc)
qed


lemma alloc_common_wf:
  assumes "avtab_alloc_common avtab_init nslot m = (OK, h, m')"
  shows "avtab_wf h \<and> avtab_nodes h = [] \<and> av_nslot h = nslot"
  using assms
  by (auto simp: avtab_alloc_common_def avtab_init_def avtab_wf_def avtab_nodes_def chain_sorted_def
      split: if_splits prod.splits bool.splits)

lemma avtab_shift_le: "unat work < 2 ^ k \<Longrightarrow> avtab_shift work s \<le> s + k"
proof (induction k arbitrary: work s)
  case 0
  then show ?case by (simp add: avtab_shift.simps unat_eq_0)
next
  case (Suc k)
  have "unat (drop_bit 1 work) < 2 ^ k"
    using Suc.prems by (simp add: drop_bit_eq_div unat_div)
  then show ?case
    using Suc.IH [of "drop_bit 1 work" "s + 1"] by (subst avtab_shift.simps) simp
qed

lemma find_filter: "find P xs = (case filter P xs of [] \<Rightarrow> None | x # _ \<Rightarrow> Some x)"
  by (induction xs) auto

lemma search_node_filter:
  assumes "avtab_wf h"
  shows "(case avtab_search_node h key of [] \<Rightarrow> None | n # _ \<Rightarrow> Some n) =
    find (avtab_match key (spec_mask (specified key))) (avtab_nodes h)"
  using avtab_for_each_filter [OF assms, of key] unfolding find_filter avtab_for_each_def
  by (cases "avtab_search_node h key") (simp, metis avtab_nodes_from.simps(2) list.simps(5))

text \<open>The unique insertion, on every branch.\<close>

lemma avtab_insert_cases:
  fixes key :: avtab_key and datum :: avtab_datum and h :: avtab
  assumes "avtab_wf h" "av_nslot h \<noteq> 0" "av_nel h \<noteq> 0xffffffff"
  defines "spec \<equiv> spec_mask (specified key)"
    and "n \<equiv> \<lparr>an_key = key, an_datum = datum, an_addr = unat (av_nel h)\<rparr>"
  shows "(\<exists>x \<in> set (avtab_nodes h). avtab_match key spec x) \<and> spec AND AVTAB_XPERMS = 0 \<and>
      avtab_insert h key datum m = (Err EEXIST, h, m)
    \<or> \<not> ((\<exists>x \<in> set (avtab_nodes h). avtab_match key spec x) \<and> spec AND AVTAB_XPERMS = 0) \<and>
      ((\<exists>m'. avtab_insert h key datum m = (Err ENOMEM, h, m') \<and> \<not> ample m) \<or>
       (\<exists>h' m'. avtab_insert h key datum m = (OK, h', m') \<and> avtab_wf h' \<and>
          av_nslot h' = av_nslot h \<and> mset (avtab_nodes h') = add_mset n (mset (avtab_nodes h))))"
proof -
  let ?i = "unat (avtab_hash key (av_mask h))"
  let ?c = "av_htable h ! ?i"
  have ex: "(\<exists>x \<in> set (avtab_nodes h). avtab_match key spec x) \<longleftrightarrow> (\<exists>x \<in> set ?c. avtab_match key spec x)"
    using filter_nodes_slot [OF assms(1,2), of key spec] by (metis filter_empty_conv)
  note none = place_None [OF slot_sorted [OF assms(1,2)], of True key spec key]
  show ?thesis
  proof (cases "avtab_place True key spec ?c")
    case None
    then show ?thesis
      using none ex assms(2,3) by (simp add: avtab_insert_def Let_def spec_def)
  next
    case (Some pos)
    obtain r m' where r: "avtab_insert_node (unat (av_nel h)) key datum m = (r, m')" by fastforce
    have "\<not> ((\<exists>x \<in> set (avtab_nodes h). avtab_match key spec x) \<and> spec AND AVTAB_XPERMS = 0)"
      using none ex Some by auto
    moreover have "avtab_insert h key datum m = (case r of None \<Rightarrow> (Err ENOMEM, h, m')
      | Some x \<Rightarrow> (OK, avtab_link h ?i pos x, m'))"
      using Some r assms(2,3) by (simp add: avtab_insert_def Let_def spec_def split: option.split)
    moreover have "\<not> ample m" if "r = None"
      using insert_node_ample [of m "unat (av_nel h)" key datum] r that by auto
    moreover have "r = Some x \<Longrightarrow> x = n" for x
      using insert_node_key r by (simp add: n_def)
    moreover have "avtab_wf (avtab_link h ?i pos n)" "av_nslot (avtab_link h ?i pos n) = av_nslot h"
        "mset (avtab_nodes (avtab_link h ?i pos n)) = add_mset n (mset (avtab_nodes h))"
      using avtab_link_wf [OF assms(1-3) Some, of n] by (simp_all add: n_def) (simp add: avtab_link_def Let_def)
    ultimately show ?thesis by (cases r) auto
  qed
qed

section \<open>Properties\<close>

text \<open>
  C34. The loop over the rules of a key, \<open>avtab_search_node\<close> followed by \<open>avtab_search_node_next\<close>,
  visits exactly the nodes of the whole table with the types and class of the key and a kind of rule
  that the key asks for, whatever the hash function spreads over the slots.
\<close>

theorem avtab_for_each_complete:
  assumes "avtab_wf h"
  shows "avtab_for_each h key =
    filter (\<lambda>n. source_type key = source_type (an_key n) \<and> target_type key = target_type (an_key n) \<and>
       target_class key = target_class (an_key n) \<and>
       (specified key AND NOT AVTAB_ENABLED) AND specified (an_key n) \<noteq> 0) (avtab_nodes h)"
  unfolding avtab_for_each_filter [OF assms] avtab_match_def same_triple_def spec_mask_def by (simp only: conj_assoc)

definition sample_key :: "u16 \<Rightarrow> avtab_key" where
  "sample_key s = \<lparr>source_type = 1, target_type = 2, target_class = 3, specified = s\<rparr>"

definition sample_avtab :: avtab where
  "sample_avtab = \<lparr>av_htable = [[\<lparr>an_key = sample_key 1, an_datum = Data 5, an_addr = 0\<rparr>]],
     av_nel = 1, av_nslot = 1, av_mask = 0\<rparr>"

lemma sample_avtab_wf: "avtab_wf sample_avtab"
  by (simp add: avtab_wf_def sample_avtab_def avtab_nodes_def chain_sorted_def avtab_hash_def Let_def)

theorem avtab_for_each_complete_witness:
  "avtab_for_each sample_avtab (sample_key 3) =
    filter (\<lambda>n. source_type (sample_key 3) = source_type (an_key n) \<and> target_type (sample_key 3) = target_type (an_key n) \<and>
       target_class (sample_key 3) = target_class (an_key n) \<and>
       (specified (sample_key 3) AND NOT AVTAB_ENABLED) AND specified (an_key n) \<noteq> 0) (avtab_nodes sample_avtab)"
  by (rule avtab_for_each_complete [OF sample_avtab_wf])

text \<open>
  The unique insertion refuses a rule exactly when the table has a rule of the same types and
  class and of an overlapping kind, extended permissions apart; it reports a lack of memory without
  a change, and otherwise adds the one rule and keeps the table well formed.
\<close>

lemma avtab_insert_spec:
  assumes "avtab_wf h" "av_nslot h \<noteq> 0" "av_nel h \<noteq> 0xffffffff" "avtab_insert h key datum m = (rc, h', m')"
  shows "(rc = Err EEXIST \<longleftrightarrow> spec_mask (specified key) AND AVTAB_XPERMS = 0 \<and>
        find (avtab_match key (spec_mask (specified key))) (avtab_nodes h) \<noteq> None) \<and>
    (rc \<noteq> OK \<longrightarrow> h' = h \<and> (rc = Err EEXIST \<or> rc = Err ENOMEM \<and> \<not> ample m)) \<and>
    (rc = OK \<longrightarrow> avtab_wf h' \<and> mset (avtab_nodes h') =
        add_mset \<lparr>an_key = key, an_datum = datum, an_addr = unat (av_nel h)\<rparr> (mset (avtab_nodes h)))"
  using avtab_insert_cases [OF assms(1-3), of key datum m] assms(4) by (auto simp: find_None_iff)

end
