(* ===== verification/Ebitmap.thy ===== *)
theory Ebitmap
  imports Kernel_Prelude
begin

text \<open>
  The extensible bitmap of the security server (\<open>ss/ebitmap.h\<close>, \<open>ss/ebitmap.c\<close>), for a 64-bit
  kernel: a list of nodes, each with the 384 bits from its start bit on in six 64-bit units. The
  \<open>next\<close> pointers are the order of the list. Positions that C holds in an \<open>unsigned long\<close> are
  naturals, those it holds in a \<open>u32\<close> are 32-bit words.

  The theory shows that the operations refine the ones on finite sets of naturals
  (\<open>ebitmap_bits\<close>) as long as the bitmap is well formed, and that every operation keeps it so.
\<close>

section \<open>The data structure\<close>

abbreviation EBITMAP_UNIT_NUMS :: nat where "EBITMAP_UNIT_NUMS \<equiv> 6"
abbreviation EBITMAP_UNIT_SIZE :: nat where "EBITMAP_UNIT_SIZE \<equiv> 64"
abbreviation EBITMAP_SIZE :: nat where "EBITMAP_SIZE \<equiv> 384"

record ebitmap_node =
  en_maps :: "u64 list"
  en_startbit :: u32

record ebitmap =
  eb_node :: "ebitmap_node list"
  eb_highbit :: u32

abbreviation ebitmap_length :: "ebitmap \<Rightarrow> u32" where
  "ebitmap_length e \<equiv> eb_highbit e"

definition ebitmap_init :: ebitmap where
  "ebitmap_init = \<lparr>eb_node = [], eb_highbit = 0\<rparr>"

definition ebitmap_destroy :: "ebitmap \<Rightarrow> ebitmap" where
  "ebitmap_destroy e = e\<lparr>eb_highbit := 0, eb_node := []\<rparr>"

text \<open>
  The kernel's bit search over an array of longs: the first set position from \<open>ofs\<close> on, or
  \<open>size\<close> when there is none.
\<close>

definition map_bit :: "u64 list \<Rightarrow> nat \<Rightarrow> bool" where
  "map_bit ms k \<longleftrightarrow> k div 64 < length ms \<and> bit (ms ! (k div 64)) (k mod 64)"

definition find_next_bit :: "u64 list \<Rightarrow> nat \<Rightarrow> nat \<Rightarrow> nat" where
  "find_next_bit ms sz ofs =
     (case find (map_bit ms) [ofs..<sz] of None \<Rightarrow> sz | Some k \<Rightarrow> k)"

definition find_first_bit :: "u64 list \<Rightarrow> nat \<Rightarrow> nat" where
  "find_first_bit ms sz = find_next_bit ms sz 0"

section \<open>Bits of one node\<close>

text \<open>
  \<open>BUG_ON (index >= EBITMAP_UNIT_NUMS)\<close> is the result \<open>None\<close>. The callers below keep the node
  as it is in that case, and \<open>node_access_no_bug\<close> shows that they never reach it.
\<close>

definition EBITMAP_NODE_INDEX :: "ebitmap_node \<Rightarrow> u32 \<Rightarrow> nat" where
  "EBITMAP_NODE_INDEX n b = unat (b - en_startbit n) div EBITMAP_UNIT_SIZE"

definition EBITMAP_NODE_OFFSET :: "ebitmap_node \<Rightarrow> u32 \<Rightarrow> nat" where
  "EBITMAP_NODE_OFFSET n b = unat (b - en_startbit n) mod EBITMAP_UNIT_SIZE"

definition ebitmap_node_get_bit :: "ebitmap_node \<Rightarrow> u32 \<Rightarrow> bool option" where
  "ebitmap_node_get_bit n b =
     (let index = EBITMAP_NODE_INDEX n b; ofs = EBITMAP_NODE_OFFSET n b
      in if index \<ge> EBITMAP_UNIT_NUMS then None
         else Some ((en_maps n ! index) AND (push_bit ofs 1) \<noteq> 0))"

definition ebitmap_node_set_bit :: "ebitmap_node \<Rightarrow> u32 \<Rightarrow> ebitmap_node option" where
  "ebitmap_node_set_bit n b =
     (let index = EBITMAP_NODE_INDEX n b; ofs = EBITMAP_NODE_OFFSET n b
      in if index \<ge> EBITMAP_UNIT_NUMS then None
         else Some (n\<lparr>en_maps := (en_maps n)[index := (en_maps n ! index) OR (push_bit ofs 1)]\<rparr>))"

definition ebitmap_node_clr_bit :: "ebitmap_node \<Rightarrow> u32 \<Rightarrow> ebitmap_node option" where
  "ebitmap_node_clr_bit n b =
     (let index = EBITMAP_NODE_INDEX n b; ofs = EBITMAP_NODE_OFFSET n b
      in if index \<ge> EBITMAP_UNIT_NUMS then None
         else Some (n\<lparr>en_maps := (en_maps n)[index := (en_maps n ! index) AND NOT (push_bit ofs 1)]\<rparr>))"

definition node_or_bug :: "ebitmap_node \<Rightarrow> ebitmap_node option \<Rightarrow> ebitmap_node" where
  "node_or_bug n r = (case r of Some n' \<Rightarrow> n' | None \<Rightarrow> n)"

section \<open>Operations on a bitmap\<close>

fun ebitmap_get_bit_nodes :: "ebitmap_node list \<Rightarrow> nat \<Rightarrow> bool" where
  "ebitmap_get_bit_nodes [] b = False"
| "ebitmap_get_bit_nodes (n # ns) b =
     (if unat (en_startbit n) \<le> b
      then if unat (en_startbit n) + EBITMAP_SIZE > b
           then ebitmap_node_get_bit n (of_nat b) = Some True
           else ebitmap_get_bit_nodes ns b
      else False)"

definition ebitmap_get_bit :: "ebitmap \<Rightarrow> nat \<Rightarrow> bool" where
  "ebitmap_get_bit e b =
     (if unat (eb_highbit e) < b then False else ebitmap_get_bit_nodes (eb_node e) b)"

text \<open>
  The node that \<open>ebitmap_set_bit\<close> allocates, zeroed, with its start bit rounded down (and cut to
  32 bits) and the one bit set.
\<close>

definition ebitmap_new_node :: "nat \<Rightarrow> ebitmap_node" where
  "ebitmap_new_node b =
     (let new = \<lparr>en_maps = replicate EBITMAP_UNIT_NUMS 0, en_startbit = of_nat (b - b mod EBITMAP_SIZE)\<rparr>
      in node_or_bug new (ebitmap_node_set_bit new (of_nat b)))"

text \<open>
  The walk of \<open>ebitmap_set_bit\<close>: \<open>prev\<close> is the start bit of the node before, \<open>hb\<close> the high bit.
\<close>

fun ebitmap_set_bit_nodes ::
  "u32 option \<Rightarrow> ebitmap_node list \<Rightarrow> u32 \<Rightarrow> nat \<Rightarrow> bool \<Rightarrow> mem
     \<Rightarrow> rc \<times> ebitmap_node list \<times> u32 \<times> mem" where
  "ebitmap_set_bit_nodes prev [] hb b value m =
     (if \<not> value then (OK, [], hb, m)
      else case kalloc m of
             (False, m') \<Rightarrow> (Err ENOMEM, [], hb, m')
           | (True, m') \<Rightarrow>
               (let new = ebitmap_new_node b
                in (OK, [new], of_nat (unat (en_startbit new) + EBITMAP_SIZE), m')))"
| "ebitmap_set_bit_nodes prev (n # ns) hb b value m =
     (if unat (en_startbit n) \<le> b
      then if unat (en_startbit n) + EBITMAP_SIZE > b
           then if value
                then (OK, node_or_bug n (ebitmap_node_set_bit n (of_nat b)) # ns, hb, m)
                else let n' = node_or_bug n (ebitmap_node_clr_bit n (of_nat b))
                     in if find_first_bit (en_maps n') EBITMAP_SIZE < EBITMAP_SIZE
                        then (OK, n' # ns, hb, m)
                        else (OK, ns,
                              (if ns = []
                               then case prev of Some p \<Rightarrow> of_nat (unat p + EBITMAP_SIZE) | None \<Rightarrow> 0
                               else hb), m)
           else case ebitmap_set_bit_nodes (Some (en_startbit n)) ns hb b value m of
                  (rc, ns', hb', m') \<Rightarrow> (rc, n # ns', hb', m')
      else if \<not> value then (OK, n # ns, hb, m)
      else case kalloc m of
             (False, m') \<Rightarrow> (Err ENOMEM, n # ns, hb, m')
           | (True, m') \<Rightarrow> (OK, ebitmap_new_node b # n # ns, hb, m'))"

definition ebitmap_set_bit :: "ebitmap \<Rightarrow> nat \<Rightarrow> bool \<Rightarrow> mem \<Rightarrow> rc \<times> ebitmap \<times> mem" where
  "ebitmap_set_bit e b value m =
     (case ebitmap_set_bit_nodes None (eb_node e) (eb_highbit e) b value m of
        (rc, ns, hb, m') \<Rightarrow> (rc, \<lparr>eb_node = ns, eb_highbit = hb\<rparr>, m'))"

fun ebitmap_cmp_nodes :: "ebitmap_node list \<Rightarrow> ebitmap_node list \<Rightarrow> bool" where
  "ebitmap_cmp_nodes (n1 # ns1) (n2 # ns2) =
     (if en_startbit n1 = en_startbit n2 \<and> en_maps n1 = en_maps n2
      then ebitmap_cmp_nodes ns1 ns2 else False)"
| "ebitmap_cmp_nodes [] [] = True"
| "ebitmap_cmp_nodes _ _ = False"

definition ebitmap_cmp :: "ebitmap \<Rightarrow> ebitmap \<Rightarrow> bool" where
  "ebitmap_cmp e1 e2 =
     (if eb_highbit e1 \<noteq> eb_highbit e2 then False
      else ebitmap_cmp_nodes (eb_node e1) (eb_node e2))"

text \<open>
  \<open>ebitmap_cpy\<close> copies node by node, and destroys what it has copied when an allocation fails.
\<close>

fun ebitmap_cpy_nodes :: "ebitmap_node list \<Rightarrow> ebitmap_node list \<Rightarrow> mem \<Rightarrow> (errno + ebitmap_node list) \<times> mem" where
  "ebitmap_cpy_nodes acc [] m = (Inr acc, m)"
| "ebitmap_cpy_nodes acc (n # ns) m =
     (case kalloc m of
        (False, m') \<Rightarrow> (Inl ENOMEM, m')
      | (True, m') \<Rightarrow>
          ebitmap_cpy_nodes (acc @ [\<lparr>en_maps = en_maps n, en_startbit = en_startbit n\<rparr>]) ns m')"

definition ebitmap_cpy :: "ebitmap \<Rightarrow> mem \<Rightarrow> rc \<times> ebitmap \<times> mem" where
  "ebitmap_cpy src m =
     (case ebitmap_cpy_nodes [] (eb_node src) m of
        (Inl e, m') \<Rightarrow> (Err e, ebitmap_destroy ebitmap_init, m')
      | (Inr ns, m') \<Rightarrow> (OK, \<lparr>eb_node = ns, eb_highbit = eb_highbit src\<rparr>, m'))"

section \<open>Iterating over the set bits\<close>

text \<open>
  A cursor is the list of nodes from the current one on. \<open>ebitmap_start_positive\<close> and
  \<open>ebitmap_next_positive\<close> return the bit and the cursor they leave in \<open>*n\<close>.
\<close>

fun ebitmap_first_in :: "ebitmap_node list \<Rightarrow> u32 \<Rightarrow> u32 \<times> ebitmap_node list" where
  "ebitmap_first_in [] hb = (hb, [])"
| "ebitmap_first_in (n # ns) hb =
     (let ofs = find_first_bit (en_maps n) EBITMAP_SIZE
      in if ofs < EBITMAP_SIZE then (en_startbit n + of_nat ofs, n # ns)
         else ebitmap_first_in ns hb)"

definition ebitmap_start_positive :: "ebitmap \<Rightarrow> u32 \<times> ebitmap_node list" where
  "ebitmap_start_positive e = ebitmap_first_in (eb_node e) (ebitmap_length e)"

definition ebitmap_next_positive :: "ebitmap \<Rightarrow> ebitmap_node \<Rightarrow> ebitmap_node list \<Rightarrow> u32 \<Rightarrow> u32 \<times> ebitmap_node list" where
  "ebitmap_next_positive e n ns b =
     (let ofs = find_next_bit (en_maps n) EBITMAP_SIZE (unat (b - en_startbit n + 1))
      in if ofs < EBITMAP_SIZE then (of_nat ofs + en_startbit n, n # ns)
         else ebitmap_first_in ns (ebitmap_length e))"

text \<open>
  \<open>ebitmap_for_each_positive_bit\<close> as the list of the bits it visits, in order. The loop ends
  because each round either moves on in the node or drops the node from the cursor.
\<close>

lemma find_next_bit_ge: "ofs \<le> sz \<Longrightarrow> ofs \<le> find_next_bit ms sz ofs"
  by (auto simp: find_next_bit_def find_upt_Some_iff split: option.split)

lemma find_next_bit_ge': "find_next_bit ms sz ofs < sz \<Longrightarrow> ofs \<le> find_next_bit ms sz ofs"
  by (auto simp: find_next_bit_def find_upt_Some_iff split: option.splits)

lemma length_ebitmap_first_in: "length (snd (ebitmap_first_in ns hb)) \<le> length ns"
  by (induction ns) (auto simp: Let_def)

lemma unat_word_cancel_small:
  assumes "k < 2 ^ 32 - 1"
  shows "unat (of_nat k + s - s + 1 :: u32) = k + 1"
  using assms by (simp add: unat_word_ariths unat_of_nat)

function ebitmap_positive_from :: "ebitmap \<Rightarrow> ebitmap_node list \<Rightarrow> u32 \<Rightarrow> u32 list" where
  "ebitmap_positive_from e [] b = []"
| "ebitmap_positive_from e (n # ns) b =
     (if b < ebitmap_length e
      then b # (case ebitmap_next_positive e n ns b of (b', cur) \<Rightarrow> ebitmap_positive_from e cur b')
      else [])"
  by pat_completeness auto
termination
proof (relation "measures [\<lambda>(e, cur, b). length cur,
    \<lambda>(e, cur, b). EBITMAP_SIZE - unat (b - en_startbit (hd cur) + 1)]", goal_cases)
  case 1
  then show ?case by simp
next
  case (2 e n ns b b' cur)
  let ?p = "unat (b - en_startbit n + 1)"
  let ?ofs = "find_next_bit (en_maps n) EBITMAP_SIZE ?p"
  show ?case
  proof (cases "?ofs < EBITMAP_SIZE")
    case True
    then have eq: "(of_nat ?ofs + en_startbit n, n # ns) = (b', cur)"
      using 2 by (simp add: ebitmap_next_positive_def Let_def)
    have le: "?p \<le> ?ofs"
      using True by (rule find_next_bit_ge')
    have "unat (b' - en_startbit n + 1) = ?ofs + 1"
      using eq True unat_word_cancel_small [of ?ofs "en_startbit n"] by auto
    then show ?thesis
      using eq True le by auto
  next
    case False
    then have "(b', cur) = ebitmap_first_in ns (ebitmap_length e)"
      using 2 by (simp add: ebitmap_next_positive_def Let_def)
    then have "length cur \<le> length ns"
      using length_ebitmap_first_in [of ns "ebitmap_length e"] by (metis snd_conv)
    then show ?thesis by simp
  qed
qed

definition ebitmap_positive_bits :: "ebitmap \<Rightarrow> u32 list" where
  "ebitmap_positive_bits e =
     (case ebitmap_start_positive e of (b, cur) \<Rightarrow> ebitmap_positive_from e cur b)"


text \<open>
  \<open>ebitmap_and\<close> holds the position in an \<open>int\<close>, so that a position from $2^{31}$ on is extended
  with its sign where \<open>ebitmap_get_bit\<close> and \<open>ebitmap_set_bit\<close> take an \<open>unsigned long\<close>.
\<close>

definition ulong_of_int :: "u32 \<Rightarrow> nat" where
  "ulong_of_int b = unat (signed b :: u64)"

fun ebitmap_and_loop :: "u32 list \<Rightarrow> ebitmap \<Rightarrow> ebitmap \<Rightarrow> mem \<Rightarrow> rc \<times> ebitmap \<times> mem" where
  "ebitmap_and_loop [] e2 dst m = (OK, dst, m)"
| "ebitmap_and_loop (b # bs) e2 dst m =
     (if ebitmap_get_bit e2 (ulong_of_int b)
      then case ebitmap_set_bit dst (ulong_of_int b) True m of
             (Err e, dst', m') \<Rightarrow> (Err e, dst', m')
           | (OK, dst', m') \<Rightarrow> ebitmap_and_loop bs e2 dst' m'
      else ebitmap_and_loop bs e2 dst m)"

definition ebitmap_and :: "ebitmap \<Rightarrow> ebitmap \<Rightarrow> mem \<Rightarrow> rc \<times> ebitmap \<times> mem" where
  "ebitmap_and e1 e2 m = ebitmap_and_loop (ebitmap_positive_bits e1) e2 ebitmap_init m"

text \<open>
  \<open>ebitmap_contains\<close>: the counter \<open>i\<close> of the C code, which ends at -1, is \<open>k - 1\<close>.
\<close>

fun skip_null_units :: "u64 list \<Rightarrow> nat \<Rightarrow> nat" where
  "skip_null_units ms 0 = 0"
| "skip_null_units ms (Suc i) = (if ms ! i = 0 then skip_null_units ms i else Suc i)"

definition fls :: "u64 \<Rightarrow> nat" where
  "fls w = (case find (bit w) (rev [0..<64]) of Some k \<Rightarrow> k | None \<Rightarrow> 0)"

fun units_contain :: "u64 list \<Rightarrow> u64 list \<Rightarrow> nat \<Rightarrow> bool" where
  "units_contain ms1 ms2 0 = True"
| "units_contain ms1 ms2 (Suc i) =
     (if (ms1 ! i) AND (ms2 ! i) \<noteq> ms2 ! i then False else units_contain ms1 ms2 i)"

fun ebitmap_contains_nodes :: "ebitmap_node list \<Rightarrow> ebitmap_node list \<Rightarrow> u32 \<Rightarrow> bool" where
  "ebitmap_contains_nodes (n1 # ns1) (n2 # ns2) last_e2bit =
     (if en_startbit n1 \<le> en_startbit n2
      then if en_startbit n1 < en_startbit n2
           then ebitmap_contains_nodes ns1 (n2 # ns2) last_e2bit
           else let k = skip_null_units (en_maps n2) EBITMAP_UNIT_NUMS;
                    lastsetbit = en_startbit n2 + of_nat ((k - 1) * EBITMAP_UNIT_SIZE + fls (en_maps n2 ! (k - 1)))
                in if last_e2bit \<noteq> 0 \<and> k > 0 \<and> lastsetbit > last_e2bit then False
                   else if units_contain (en_maps n1) (en_maps n2) k
                   then ebitmap_contains_nodes ns1 ns2 last_e2bit
                   else False
      else False)"
| "ebitmap_contains_nodes ns1 [] last_e2bit = True"
| "ebitmap_contains_nodes [] (n2 # ns2) last_e2bit = False"

definition ebitmap_contains :: "ebitmap \<Rightarrow> ebitmap \<Rightarrow> u32 \<Rightarrow> bool" where
  "ebitmap_contains e1 e2 last_e2bit =
     (if eb_highbit e1 < eb_highbit e2 then False
      else ebitmap_contains_nodes (eb_node e1) (eb_node e2) last_e2bit)"

section \<open>Well-formed bitmaps and the set they stand for\<close>

definition node_lo :: "ebitmap_node \<Rightarrow> nat" where
  "node_lo n = unat (en_startbit n)"

definition node_wf :: "ebitmap_node \<Rightarrow> bool" where
  "node_wf n \<longleftrightarrow> length (en_maps n) = EBITMAP_UNIT_NUMS \<and> EBITMAP_SIZE dvd node_lo n
     \<and> node_lo n + EBITMAP_SIZE < 2 ^ 32"

definition node_bits :: "ebitmap_node \<Rightarrow> nat set" where
  "node_bits n = {b. node_lo n \<le> b \<and> b < node_lo n + EBITMAP_SIZE \<and> map_bit (en_maps n) (b - node_lo n)}"

definition nodes_bits :: "ebitmap_node list \<Rightarrow> nat set" where
  "nodes_bits ns = (\<Union>n \<in> set ns. node_bits n)"

definition ebitmap_bits :: "ebitmap \<Rightarrow> nat set" where
  "ebitmap_bits e = nodes_bits (eb_node e)"

definition nodes_wf :: "ebitmap_node list \<Rightarrow> bool" where
  "nodes_wf ns \<longleftrightarrow> (\<forall>n \<in> set ns. node_wf n) \<and> sorted_wrt (\<lambda>n n'. node_lo n < node_lo n') ns"

definition nodes_end :: "ebitmap_node list \<Rightarrow> nat" where
  "nodes_end ns = (if ns = [] then 0 else node_lo (last ns) + EBITMAP_SIZE)"

text \<open>
  \<open>ebitmap_wf\<close> is what the searches rely on. \<open>ebitmap_canon\<close> adds that no node is empty and that
  the high bit is tight, which \<open>ebitmap_cmp\<close> and \<open>ebitmap_contains\<close> rely on: a policy image can
  bring in bitmaps that break it.
\<close>

definition ebitmap_wf :: "ebitmap \<Rightarrow> bool" where
  "ebitmap_wf e \<longleftrightarrow> nodes_wf (eb_node e) \<and> nodes_end (eb_node e) \<le> unat (eb_highbit e)"

definition ebitmap_canon :: "ebitmap \<Rightarrow> bool" where
  "ebitmap_canon e \<longleftrightarrow> nodes_wf (eb_node e) \<and> unat (eb_highbit e) = nodes_end (eb_node e)
     \<and> (\<forall>n \<in> set (eb_node e). node_bits n \<noteq> {})"

lemma ebitmap_node_eta [simp]: "\<lparr>en_maps = en_maps n, en_startbit = en_startbit n\<rparr> = n"
  by simp

lemma ebitmap_canon_wf: "ebitmap_canon e \<Longrightarrow> ebitmap_wf e"
  by (simp add: ebitmap_canon_def ebitmap_wf_def)

lemma nodes_wf_Nil [simp]: "nodes_wf []"
  by (simp add: nodes_wf_def)

lemma nodes_wf_Cons:
  "nodes_wf (n # ns) \<longleftrightarrow> node_wf n \<and> (\<forall>n' \<in> set ns. node_lo n < node_lo n') \<and> nodes_wf ns"
  by (auto simp: nodes_wf_def)

lemma nodes_bits_Nil [simp]: "nodes_bits [] = {}"
  by (simp add: nodes_bits_def)

lemma nodes_bits_Cons [simp]: "nodes_bits (n # ns) = node_bits n \<union> nodes_bits ns"
  by (simp add: nodes_bits_def)

text \<open>Aligned nodes do not overlap.\<close>

lemma dvd_gap:
  assumes "(384::nat) dvd a" "384 dvd b" "a < b"
  shows "a + 384 \<le> b"
  using assms by (auto elim!: dvdE)

lemma node_wf_gap: "node_wf n \<Longrightarrow> node_wf n' \<Longrightarrow> node_lo n < node_lo n' \<Longrightarrow> node_lo n + EBITMAP_SIZE \<le> node_lo n'"
  by (simp add: node_wf_def dvd_gap)

lemma nodes_bits_above:
  assumes "nodes_wf (n # ns)" "b \<in> nodes_bits ns"
  shows "node_lo n + EBITMAP_SIZE \<le> b"
proof -
  from assms(2) obtain n' where n': "n' \<in> set ns" "b \<in> node_bits n'"
    by (auto simp: nodes_bits_def)
  with assms(1) have "node_lo n + EBITMAP_SIZE \<le> node_lo n'"
    by (auto simp: nodes_wf_Cons nodes_wf_def intro!: node_wf_gap)
  also have "node_lo n' \<le> b"
    using n' by (simp add: node_bits_def)
  finally show ?thesis .
qed

lemma nodes_end_bound: "nodes_wf ns \<Longrightarrow> b \<in> nodes_bits ns \<Longrightarrow> b < nodes_end ns"
proof (induction ns)
  case Nil
  then show ?case by simp
next
  case (Cons n ns)
  show ?case
  proof (cases "ns = []")
    case True
    with Cons.prems show ?thesis by (auto simp: nodes_end_def node_bits_def)
  next
    case False
    then have *: "nodes_end (n # ns) = nodes_end ns" "last ns \<in> set ns"
      by (simp_all add: nodes_end_def)
    show ?thesis
    proof (cases "b \<in> nodes_bits ns")
      case True
      with Cons * show ?thesis by (simp add: nodes_wf_Cons)
    next
      case b: False
      with Cons.prems have "b < node_lo n + EBITMAP_SIZE"
        by (auto simp: node_bits_def)
      also have "\<dots> \<le> node_lo (last ns)"
        using Cons.prems(1) * by (auto simp: nodes_wf_Cons nodes_wf_def intro!: node_wf_gap)
      finally show ?thesis
        using False by (simp add: nodes_end_def)
    qed
  qed
qed

lemma finite_nodes_bits [simp]: "finite (nodes_bits ns)"
proof -
  have "finite (node_bits n)" for n
    by (rule finite_subset [of _ "{..<node_lo n + EBITMAP_SIZE}"]) (auto simp: node_bits_def)
  then show ?thesis by (simp add: nodes_bits_def)
qed

section \<open>Access to one node\<close>

lemma unat_rel_pos:
  assumes "node_lo n \<le> b" "b < node_lo n + EBITMAP_SIZE"
  shows "unat (of_nat b - en_startbit n) = b - node_lo n"
proof -
  have "of_nat b - en_startbit n = (of_nat (b - node_lo n) :: u32)"
    using assms by (simp add: node_lo_def)
  moreover have "unat (of_nat (b - node_lo n) :: u32) = b - node_lo n"
    using assms by (intro unat_u32_of_nat) simp
  ultimately show ?thesis by (simp only:)
qed

theorem node_access_no_bug:
  assumes "node_lo n \<le> b" "b < node_lo n + EBITMAP_SIZE"
  shows "EBITMAP_NODE_INDEX n (of_nat b) < EBITMAP_UNIT_NUMS"
proof -
  have "b - node_lo n < 6 * 64"
    using assms by simp
  then have "(b - node_lo n) div 64 < 6"
    by (rule less_mult_imp_div_less)
  then show ?thesis
    by (simp only: EBITMAP_NODE_INDEX_def unat_rel_pos [OF assms])
qed

lemma mask_bit_nonzero:
  fixes w :: u64
  assumes "k < 64"
  shows "w AND 2 ^ k \<noteq> 0 \<longleftrightarrow> bit w k"
  using assms by (simp add: and_exp_eq_0_iff_not_bit)

lemma node_get_bit:
  assumes "node_wf n" "node_lo n \<le> b" "b < node_lo n + EBITMAP_SIZE"
  shows "ebitmap_node_get_bit n (of_nat b) = Some (b \<in> node_bits n)"
  using assms node_access_no_bug [OF assms(2,3)]
  by (simp add: ebitmap_node_get_bit_def EBITMAP_NODE_INDEX_def EBITMAP_NODE_OFFSET_def
      unat_rel_pos mask_bit_nonzero node_bits_def map_bit_def node_wf_def not_le)


lemma node_lo_new: "b < 2 ^ 32 \<Longrightarrow> node_lo \<lparr>en_maps = ms, en_startbit = of_nat (b - b mod EBITMAP_SIZE)\<rparr> = b - b mod EBITMAP_SIZE"
  unfolding node_lo_def ebitmap_node.simps by (rule unat_u32_of_nat) simp

lemma map_bit_set:
  assumes "length ms = 6" "k < 384" "j < 384"
  shows "map_bit (ms[k div 64 := (ms ! (k div 64)) OR 2 ^ (k mod 64)]) j \<longleftrightarrow> j = k \<or> map_bit ms j"
proof -
  have *: "k div 64 < 6" "j div 64 < 6"
    using assms by (simp_all add: less_mult_imp_div_less)
  have eq: "j = k \<longleftrightarrow> j div 64 = k div 64 \<and> j mod 64 = k mod 64"
    by (metis div_mult_mod_eq)
  show ?thesis
    using assms * by (auto simp: map_bit_def nth_list_update bit_or_iff bit_exp_iff eq)
qed

lemma map_bit_clr:
  assumes "length ms = 6" "k < 384" "j < 384"
  shows "map_bit (ms[k div 64 := (ms ! (k div 64)) AND NOT (2 ^ (k mod 64))]) j \<longleftrightarrow> j \<noteq> k \<and> map_bit ms j"
proof -
  have *: "k div 64 < 6" "j div 64 < 6"
    using assms by (simp_all add: less_mult_imp_div_less)
  have eq: "j = k \<longleftrightarrow> j div 64 = k div 64 \<and> j mod 64 = k mod 64"
    by (metis div_mult_mod_eq)
  show ?thesis
    using assms * by (auto simp: map_bit_def nth_list_update bit_and_iff bit_not_iff bit_exp_iff eq)
qed

lemma map_bit_replicate [simp]: "\<not> map_bit (replicate k 0) j"
  by (simp add: map_bit_def)

text \<open>Setting and clearing a bit of a node, as operations on its set.\<close>

lemma node_set_bit:
  assumes "node_wf n" "node_lo n \<le> b" "b < node_lo n + EBITMAP_SIZE"
  defines "n' \<equiv> node_or_bug n (ebitmap_node_set_bit n (of_nat b))"
  shows "node_bits n' = insert b (node_bits n)" "node_wf n'" "node_lo n' = node_lo n"
proof -
  have n': "n' = n\<lparr>en_maps := (en_maps n)[(b - node_lo n) div 64 :=
      (en_maps n ! ((b - node_lo n) div 64)) OR 2 ^ ((b - node_lo n) mod 64)]\<rparr>"
    using node_access_no_bug [OF assms(2,3)]
    by (simp add: n'_def node_or_bug_def ebitmap_node_set_bit_def EBITMAP_NODE_INDEX_def
        EBITMAP_NODE_OFFSET_def unat_rel_pos [OF assms(2,3)] not_le Let_def)
  show lo: "node_lo n' = node_lo n" and "node_wf n'"
    using assms(1) by (simp_all add: n' node_lo_def node_wf_def)
  have "map_bit (en_maps n') (j - node_lo n) \<longleftrightarrow> j = b \<or> map_bit (en_maps n) (j - node_lo n)"
    if "node_lo n \<le> j" "j < node_lo n + EBITMAP_SIZE" for j
    using map_bit_set [of "en_maps n" "b - node_lo n" "j - node_lo n"] assms(1-3) that
    by (auto simp: n' node_wf_def)
  then show "node_bits n' = insert b (node_bits n)"
    using assms(2,3) by (auto simp: node_bits_def lo)
qed

lemma node_clr_bit:
  assumes "node_wf n" "node_lo n \<le> b" "b < node_lo n + EBITMAP_SIZE"
  defines "n' \<equiv> node_or_bug n (ebitmap_node_clr_bit n (of_nat b))"
  shows "node_bits n' = node_bits n - {b}" "node_wf n'" "node_lo n' = node_lo n"
proof -
  have n': "n' = n\<lparr>en_maps := (en_maps n)[(b - node_lo n) div 64 :=
      (en_maps n ! ((b - node_lo n) div 64)) AND NOT (2 ^ ((b - node_lo n) mod 64))]\<rparr>"
    using node_access_no_bug [OF assms(2,3)]
    by (simp add: n'_def node_or_bug_def ebitmap_node_clr_bit_def EBITMAP_NODE_INDEX_def
        EBITMAP_NODE_OFFSET_def unat_rel_pos [OF assms(2,3)] not_le Let_def)
  show lo: "node_lo n' = node_lo n" and "node_wf n'"
    using assms(1) by (simp_all add: n' node_lo_def node_wf_def)
  have "map_bit (en_maps n') (j - node_lo n) \<longleftrightarrow> j \<noteq> b \<and> map_bit (en_maps n) (j - node_lo n)"
    if "node_lo n \<le> j" "j < node_lo n + EBITMAP_SIZE" for j
    using map_bit_clr [of "en_maps n" "b - node_lo n" "j - node_lo n"] assms(1-3) that
    by (auto simp: n' node_wf_def)
  then show "node_bits n' = node_bits n - {b}"
    using assms(2,3) by (auto simp: node_bits_def lo)
qed

text \<open>Positions a \<open>u32\<close> start bit and high bit can address: those below the last whole node.\<close>

definition ebitmap_pos :: "nat \<Rightarrow> bool" where
  "ebitmap_pos b \<longleftrightarrow> b - b mod EBITMAP_SIZE + EBITMAP_SIZE < 2 ^ 32"

lemma new_node:
  assumes "ebitmap_pos b"
  defines "n \<equiv> ebitmap_new_node b"
  shows "node_bits n = {b}" "node_wf n" "node_lo n = b - b mod EBITMAP_SIZE"
proof -
  let ?z = "\<lparr>en_maps = replicate EBITMAP_UNIT_NUMS 0, en_startbit = of_nat (b - b mod EBITMAP_SIZE)\<rparr> :: ebitmap_node"
  have m: "b mod EBITMAP_SIZE < EBITMAP_SIZE" "b mod EBITMAP_SIZE \<le> b"
    by simp_all
  then have b: "b < 2 ^ 32"
    using assms(1) unfolding ebitmap_pos_def by linarith
  have lo: "node_lo ?z = b - b mod EBITMAP_SIZE"
    using b by (rule node_lo_new)
  have dv: "EBITMAP_SIZE dvd b - b mod EBITMAP_SIZE"
    by (rule dvd_minus_mod)
  have wf: "node_wf ?z"
    using assms(1) dv unfolding node_wf_def lo ebitmap_pos_def by simp
  have in1: "node_lo ?z \<le> b" and in2: "b < node_lo ?z + EBITMAP_SIZE"
    using m unfolding lo by linarith+
  have "node_bits ?z = {}"
    by (simp add: node_bits_def)
  with node_set_bit [OF wf in1 in2] show "node_bits n = {b}" "node_wf n" "node_lo n = b - b mod EBITMAP_SIZE"
    unfolding n_def ebitmap_new_node_def Let_def lo by simp_all
qed


section \<open>Search, insertion and removal\<close>

lemma get_bit_nodes: "nodes_wf ns \<Longrightarrow> ebitmap_get_bit_nodes ns b \<longleftrightarrow> b \<in> nodes_bits ns"
proof (induction ns)
  case Nil
  then show ?case by simp
next
  case (Cons n ns)
  have wf: "node_wf n" "nodes_wf ns"
    using Cons.prems by (simp_all add: nodes_wf_Cons)
  have above: "b' \<in> nodes_bits ns \<Longrightarrow> node_lo n + EBITMAP_SIZE \<le> b'" for b'
    using Cons.prems by (rule nodes_bits_above)
  consider "b < node_lo n" | "node_lo n \<le> b" "b < node_lo n + EBITMAP_SIZE" | "node_lo n + EBITMAP_SIZE \<le> b"
    by linarith
  then show ?case
  proof cases
    case 1
    then show ?thesis
      using above [of b] by (auto simp: node_bits_def node_lo_def)
  next
    case 2
    then show ?thesis
      using above [of b] node_get_bit [OF wf(1) 2] by (auto simp: node_lo_def)
  next
    case 3
    then show ?thesis
      using Cons.IH [OF wf(2)] by (auto simp: node_bits_def node_lo_def)
  qed
qed

lemma ebitmap_get_bit_iff: "ebitmap_wf e \<Longrightarrow> ebitmap_get_bit e b \<longleftrightarrow> b \<in> ebitmap_bits e"
  using nodes_end_bound [of "eb_node e" b]
  by (auto simp: ebitmap_get_bit_def ebitmap_wf_def ebitmap_bits_def get_bit_nodes)

lemma find_next_bit_full: "find_next_bit ms sz ofs < sz \<longleftrightarrow> (\<exists>k. ofs \<le> k \<and> k < sz \<and> map_bit ms k)"
  by (auto simp: find_next_bit_def find_upt_None_iff find_upt_Some_iff split: option.split)

lemma find_first_bit_node: "find_first_bit (en_maps n) EBITMAP_SIZE < EBITMAP_SIZE \<longleftrightarrow> node_bits n \<noteq> {}"
proof -
  have "(\<exists>k. k < EBITMAP_SIZE \<and> map_bit (en_maps n) k) \<longleftrightarrow> node_bits n \<noteq> {}"
  proof
    assume "\<exists>k. k < EBITMAP_SIZE \<and> map_bit (en_maps n) k"
    then obtain k where "k < EBITMAP_SIZE" "map_bit (en_maps n) k" by blast
    then have "node_lo n + k \<in> node_bits n" by (simp add: node_bits_def)
    then show "node_bits n \<noteq> {}" by blast
  next
    assume "node_bits n \<noteq> {}"
    then obtain b where "b \<in> node_bits n" by blast
    then show "\<exists>k. k < EBITMAP_SIZE \<and> map_bit (en_maps n) k"
      by (auto simp: node_bits_def intro!: exI [of _ "b - node_lo n"])
  qed
  then show ?thesis by (simp add: find_first_bit_def find_next_bit_full)
qed

text \<open>
  What a call of \<open>ebitmap_set_bit\<close> does to the list of nodes, by cases: the allocation fails, the
  bit to clear is in no node, a new node is linked in, the node that covers the bit is changed, or
  it is dropped because its last bit is cleared.
\<close>

definition prev_end :: "u32 option \<Rightarrow> u32" where
  "prev_end prev = (case prev of Some p \<Rightarrow> of_nat (unat p + EBITMAP_SIZE) | None \<Rightarrow> 0)"

definition last_start :: "u32 option \<Rightarrow> ebitmap_node list \<Rightarrow> u32 option" where
  "last_start prev pre = (if pre = [] then prev else Some (en_startbit (last pre)))"

lemma last_start_simps [simp]:
  "last_start prev [] = prev" "last_start prev (n # pre) = last_start (Some (en_startbit n)) pre"
  by (simp_all add: last_start_def)

inductive set_bit_effect ::
  "u32 option \<Rightarrow> nat \<Rightarrow> bool \<Rightarrow> ebitmap_node list \<Rightarrow> u32 \<Rightarrow> rc \<Rightarrow> ebitmap_node list \<Rightarrow> u32 \<Rightarrow> bool" where
  no_memory: "set_bit_effect prev b True ns hb (Err ENOMEM) ns hb"
| absent: "b \<notin> nodes_bits ns \<Longrightarrow> set_bit_effect prev b False ns hb OK ns hb"
| linked: "\<forall>x \<in> set pre. node_lo x + EBITMAP_SIZE \<le> b \<Longrightarrow> \<forall>x \<in> set post. b < node_lo x \<Longrightarrow>
    new = ebitmap_new_node b \<Longrightarrow>
    hb' = (if post = [] then of_nat (node_lo new + EBITMAP_SIZE) else hb) \<Longrightarrow>
    set_bit_effect prev b True (pre @ post) hb OK (pre @ new # post) hb'"
| changed: "node_lo n \<le> b \<Longrightarrow> b < node_lo n + EBITMAP_SIZE \<Longrightarrow> node_wf n' \<Longrightarrow> node_lo n' = node_lo n \<Longrightarrow>
    node_bits n' = (if v then insert b (node_bits n) else node_bits n - {b}) \<Longrightarrow> node_bits n' \<noteq> {} \<Longrightarrow>
    set_bit_effect prev b v (pre @ n # post) hb OK (pre @ n' # post) hb"
| dropped: "node_lo n \<le> b \<Longrightarrow> b < node_lo n + EBITMAP_SIZE \<Longrightarrow> node_bits n - {b} = {} \<Longrightarrow>
    hb' = (if post = [] then prev_end (last_start prev pre) else hb) \<Longrightarrow>
    set_bit_effect prev b False (pre @ n # post) hb OK (pre @ post) hb'"

lemma set_bit_effect_Cons:
  assumes "set_bit_effect (Some (en_startbit n)) b v ns hb rc ns' hb'" "node_lo n + EBITMAP_SIZE \<le> b"
  shows "set_bit_effect prev b v (n # ns) hb rc (n # ns') hb'"
  using assms
proof cases
  case no_memory
  then show ?thesis by (auto intro: set_bit_effect.no_memory)
next
  case absent
  then show ?thesis using assms(2) by (auto simp: node_bits_def intro!: set_bit_effect.absent)
next
  case (linked pre post new)
  then show ?thesis
    using assms(2) set_bit_effect.linked [of "n # pre" b post new hb' hb prev] by simp
next
  case (changed x x' pre post)
  then show ?thesis using set_bit_effect.changed [of x b x' v prev "n # pre" post hb] by simp
next
  case (dropped x post pre)
  then show ?thesis using set_bit_effect.dropped [of x b hb' post prev "n # pre" hb]
    by (cases "post = []") simp_all
qed

lemma set_bit_nodes_effect:
  assumes "ebitmap_set_bit_nodes prev ns hb b v m = (rc, ns', hb', m')" "nodes_wf ns"
  shows "set_bit_effect prev b v ns hb rc ns' hb'"
  using assms
proof (induction prev ns hb b v m arbitrary: rc ns' hb' m' rule: ebitmap_set_bit_nodes.induct)
  case (1 prev hb b v m)
  then show ?case
    using set_bit_effect.linked [of "[]" b "[]" "ebitmap_new_node b" _ hb prev]
    by (auto simp: Let_def node_lo_def split: if_splits prod.splits bool.splits
        intro: set_bit_effect.no_memory set_bit_effect.absent)
next
  case (2 prev n ns hb b v m)
  have wf: "node_wf n" "nodes_wf ns"
    using "2.prems"(2) by (simp_all add: nodes_wf_Cons)
  consider (before) "b < node_lo n" | (inside) "node_lo n \<le> b" "b < node_lo n + EBITMAP_SIZE"
    | (after) "node_lo n + EBITMAP_SIZE \<le> b"
    by linarith
  then show ?case
  proof cases
    case before
    have "b \<notin> nodes_bits (n # ns)" "\<forall>x \<in> set (n # ns). b < node_lo x"
      using before "2.prems"(2) nodes_bits_above [OF "2.prems"(2), of b]
      by (auto simp: node_bits_def nodes_wf_Cons)
    then show ?thesis
      using before "2.prems"(1) set_bit_effect.linked [of "[]" b "n # ns" "ebitmap_new_node b" hb hb prev]
      by (auto simp: node_lo_def split: if_splits prod.splits bool.splits
          intro: set_bit_effect.no_memory set_bit_effect.absent)
  next
    case inside
    note set_bit_effect.changed [OF inside, of _ v prev "[]" ns hb, simplified]
      set_bit_effect.dropped [OF inside, of _ ns prev "[]" hb, simplified]
    then show ?thesis
      using inside "2.prems"(1) node_set_bit [OF wf(1) inside] node_clr_bit [OF wf(1) inside]
      by (auto simp: node_lo_def [symmetric] Let_def find_first_bit_node prev_end_def split: if_splits)
  next
    case after
    then show ?thesis
      using "2.prems"(1) "2.IH" wf(2) set_bit_effect_Cons
      by (auto simp: node_lo_def split: prod.splits)
  qed
qed


lemma nodes_wf_append:
  "nodes_wf (xs @ ys) \<longleftrightarrow> nodes_wf xs \<and> nodes_wf ys \<and> (\<forall>x \<in> set xs. \<forall>y \<in> set ys. node_lo x < node_lo y)"
  by (auto simp: nodes_wf_def sorted_wrt_append)

lemma nodes_bits_append [simp]: "nodes_bits (xs @ ys) = nodes_bits xs \<union> nodes_bits ys"
  by (auto simp: nodes_bits_def)

text \<open>No other node holds a bit of the range of a node.\<close>

lemma nodes_bits_others:
  assumes "nodes_wf (pre @ n # post)" "node_lo n \<le> b" "b < node_lo n + EBITMAP_SIZE"
  shows "b \<notin> nodes_bits pre" "b \<notin> nodes_bits post"
proof -
  have "node_lo x + EBITMAP_SIZE \<le> node_lo n" if "x \<in> set pre" for x
    using assms(1) that by (auto simp: nodes_wf_def sorted_wrt_append intro!: node_wf_gap)
  then show "b \<notin> nodes_bits pre"
    using assms(2) by (fastforce simp: nodes_bits_def node_bits_def)
  show "b \<notin> nodes_bits post"
    using assms nodes_bits_above [of n post b] by (auto simp: nodes_wf_append)
qed

lemma set_bit_effect_bits:
  assumes "set_bit_effect prev b v ns hb rc ns' hb'" "nodes_wf ns" "v \<longrightarrow> ebitmap_pos b" "rc = OK"
  shows "nodes_bits ns' = (if v then insert b (nodes_bits ns) else nodes_bits ns - {b})"
  using assms
proof cases
  case (changed n n' pre post)
  then show ?thesis
    using nodes_bits_others [of pre n post b] assms(2) by auto
next
  case (dropped n post pre)
  then show ?thesis
    using nodes_bits_others [of pre n post b] assms(2) by auto
qed (use assms(3,4) in \<open>auto simp: new_node\<close>)

lemma aligned_below:
  assumes "EBITMAP_SIZE dvd lo" "lo + EBITMAP_SIZE \<le> b"
  shows "lo < b - b mod EBITMAP_SIZE"
proof -
  have "b mod EBITMAP_SIZE < EBITMAP_SIZE" "b mod EBITMAP_SIZE \<le> b"
    by simp_all
  with assms(2) show ?thesis by linarith
qed

lemma set_bit_effect_wf:
  assumes "set_bit_effect prev b v ns hb rc ns' hb'" "nodes_wf ns" "v \<longrightarrow> ebitmap_pos b"
  shows "nodes_wf ns'"
  using assms
proof cases
  case (linked pre post new)
  have "node_lo x < node_lo new" if "x \<in> set pre" for x
    using linked that assms(2,3) aligned_below [of "node_lo x" b]
    by (auto simp: new_node nodes_wf_def node_wf_def)
  moreover have "node_lo new < node_lo x" if "x \<in> set post" for x
    using linked that assms(3) by (auto simp: new_node intro: le_less_trans [OF diff_le_self])
  ultimately show ?thesis
    using linked assms(2,3) by (auto simp: nodes_wf_append nodes_wf_Cons new_node)
qed (use assms in \<open>auto simp: nodes_wf_append nodes_wf_Cons\<close>)

lemma set_bit_effect_nonempty:
  assumes "set_bit_effect prev b v ns hb rc ns' hb'" "\<forall>n \<in> set ns. node_bits n \<noteq> {}" "v \<longrightarrow> ebitmap_pos b"
  shows "\<forall>n \<in> set ns'. node_bits n \<noteq> {}"
  using assms by cases (auto simp: new_node)

text \<open>The high bit after the call.\<close>

lemma nodes_end_append: "ys \<noteq> [] \<Longrightarrow> nodes_end (xs @ ys) = nodes_end ys"
  by (simp add: nodes_end_def)

lemma nodes_end_snoc: "nodes_end (xs @ [n]) = node_lo n + EBITMAP_SIZE"
  by (simp add: nodes_end_def)

lemma nodes_end_Cons_cong: "node_lo n' = node_lo n \<Longrightarrow> nodes_end (pre @ n' # post) = nodes_end (pre @ n # post)"
  by (auto simp: nodes_end_def)

lemma prev_end_pre:
  assumes "nodes_wf pre"
  shows "unat (prev_end (last_start None pre)) = nodes_end pre"
proof (cases "pre = []")
  case True
  then show ?thesis by (simp add: prev_end_def nodes_end_def)
next
  case False
  then have "node_wf (last pre)"
    using assms by (simp add: nodes_wf_def)
  then have "unat (of_nat (node_lo (last pre) + EBITMAP_SIZE) :: u32) = node_lo (last pre) + EBITMAP_SIZE"
    by (intro unat_u32_of_nat) (simp add: node_wf_def)
  then show ?thesis
    using False by (simp add: last_start_def prev_end_def nodes_end_def node_lo_def)
qed

lemma set_bit_effect_highbit:
  assumes "set_bit_effect None b v ns hb rc ns' hb'" "nodes_wf ns" "v \<longrightarrow> ebitmap_pos b"
  shows "hb' = hb \<and> nodes_end ns' = nodes_end ns \<or> unat hb' = nodes_end ns'"
  using assms(1)
proof cases
  case (linked pre post new)
  have "unat (of_nat (node_lo new + EBITMAP_SIZE) :: u32) = node_lo new + EBITMAP_SIZE"
    using linked assms(3) new_node(2) [of b] by (intro unat_u32_of_nat) (simp add: node_wf_def)
  then show ?thesis
    using linked by (cases "post = []") (simp_all add: nodes_end_append nodes_end_def)
next
  case (changed n n' pre post)
  then show ?thesis using nodes_end_Cons_cong [of n' n pre post] by simp
next
  case (dropped n post pre)
  then show ?thesis
    using prev_end_pre [of pre] assms(2) by (cases "post = []") (simp_all add: nodes_end_append nodes_wf_append nodes_end_def)
qed (use assms(2) in simp_all)


lemma ebitmap_set_bit_ok:
  assumes "ebitmap_set_bit e b v m = (OK, e', m')" "ebitmap_wf e" "v \<longrightarrow> ebitmap_pos b"
  shows "ebitmap_bits e' = (if v then insert b (ebitmap_bits e) else ebitmap_bits e - {b})"
    "ebitmap_wf e'" "ebitmap_canon e \<Longrightarrow> ebitmap_canon e'"
proof -
  have eff: "set_bit_effect None b v (eb_node e) (eb_highbit e) OK (eb_node e') (eb_highbit e')"
    using assms(1,2) set_bit_nodes_effect [of None "eb_node e" "eb_highbit e" b v m]
    by (auto simp: ebitmap_set_bit_def ebitmap_wf_def split: prod.splits)
  have wf: "nodes_wf (eb_node e)"
    using assms(2) by (simp add: ebitmap_wf_def)
  note hb = set_bit_effect_highbit [OF eff wf assms(3)]
    and wf' = set_bit_effect_wf [OF eff wf assms(3)]
  show "ebitmap_bits e' = (if v then insert b (ebitmap_bits e) else ebitmap_bits e - {b})"
    using set_bit_effect_bits [OF eff wf assms(3)] by (simp add: ebitmap_bits_def)
  show "ebitmap_wf e'"
    using hb wf' assms(2) by (auto simp: ebitmap_wf_def)
  show "ebitmap_canon e \<Longrightarrow> ebitmap_canon e'"
    using hb wf' set_bit_effect_nonempty [OF eff _ assms(3)] by (auto simp: ebitmap_canon_def)
qed

lemma ebitmap_set_bit_fail:
  assumes "ebitmap_set_bit e b v m = (Err x, e', m')" "ebitmap_wf e"
  shows "x = ENOMEM \<and> v \<and> e' = e"
proof -
  have "set_bit_effect None b v (eb_node e) (eb_highbit e) (Err x) (eb_node e') (eb_highbit e')"
    using assms set_bit_nodes_effect [of None "eb_node e" "eb_highbit e" b v m]
    by (auto simp: ebitmap_set_bit_def ebitmap_wf_def split: prod.splits)
  then show ?thesis by cases simp_all
qed

lemma set_bit_nodes_ENOMEM:
  "ebitmap_set_bit_nodes prev ns hb b v m = (Err x, ns', hb', m') \<Longrightarrow> x = ENOMEM"
  by (induction prev ns hb b v m arbitrary: ns' rule: ebitmap_set_bit_nodes.induct)
    (auto simp: Let_def split: if_splits prod.splits bool.splits)

lemma ebitmap_set_bit_ENOMEM: "ebitmap_set_bit e b v m = (Err x, e', m') \<Longrightarrow> x = ENOMEM"
  by (auto simp: ebitmap_set_bit_def split: prod.splits dest: set_bit_nodes_ENOMEM)

lemma set_bit_nodes_ample:
  assumes "ample m" "ebitmap_set_bit_nodes prev ns hb b v m = (rc, ns', hb', m')"
  shows "rc = OK \<and> ample m'"
proof -
  obtain m1 where "kalloc m = (True, m1)" "ample m1"
    using assms(1) by (rule kalloc_ampleE)
  with assms show ?thesis
    by (induction ns arbitrary: prev ns') (auto simp: Let_def split: if_splits prod.splits)
qed

lemma ebitmap_set_bit_ample:
  assumes "ample m"
  obtains e' m' where "ebitmap_set_bit e b v m = (OK, e', m')" "ample m'"
proof -
  obtain rc ns hb m' where r: "ebitmap_set_bit_nodes None (eb_node e) (eb_highbit e) b v m = (rc, ns, hb, m')"
    by (metis surj_pair)
  with set_bit_nodes_ample [OF assms r] that show ?thesis
    by (simp add: ebitmap_set_bit_def)
qed

lemma ebitmap_init_canon [simp]: "ebitmap_canon ebitmap_init" "ebitmap_wf ebitmap_init"
  "ebitmap_bits ebitmap_init = {}"
  by (simp_all add: ebitmap_canon_def ebitmap_wf_def ebitmap_init_def ebitmap_bits_def nodes_end_def)

section \<open>The iteration visits the set bits in increasing order\<close>

lemma find_next_bit_least:
  assumes "find_next_bit ms sz ofs < sz"
  shows "map_bit ms (find_next_bit ms sz ofs)"
    "ofs \<le> k \<Longrightarrow> k < find_next_bit ms sz ofs \<Longrightarrow> \<not> map_bit ms k"
proof -
  obtain j where j: "find (map_bit ms) [ofs..<sz] = Some j"
    using assms by (auto simp: find_next_bit_def split: option.splits)
  then have "find_next_bit ms sz ofs = j"
    by (simp add: find_next_bit_def)
  then show "map_bit ms (find_next_bit ms sz ofs)"
    "ofs \<le> k \<Longrightarrow> k < find_next_bit ms sz ofs \<Longrightarrow> \<not> map_bit ms k"
    using j by (auto simp: find_upt_Some_iff)
qed

lemma unat_node_pos:
  assumes "node_wf n" "k < EBITMAP_SIZE"
  shows "unat (en_startbit n + of_nat k) = node_lo n + k"
proof -
  have "en_startbit n + of_nat k = (of_nat (node_lo n + k) :: u32)"
    by (simp add: node_lo_def)
  moreover have "unat (of_nat (node_lo n + k) :: u32) = node_lo n + k"
    using assms by (intro unat_u32_of_nat) (simp add: node_wf_def)
  ultimately show ?thesis by (simp only:)
qed

text \<open>A cursor at position \<open>b\<close>: the first node holds \<open>b\<close>, or all nodes are used up.\<close>

definition cursor_at :: "ebitmap_node list \<Rightarrow> u32 \<Rightarrow> bool" where
  "cursor_at cur b \<longleftrightarrow> nodes_wf cur \<and> cur \<noteq> [] \<and> unat b \<in> node_bits (hd cur)"

lemma cursor_at_in: "cursor_at cur b \<Longrightarrow> unat b \<in> nodes_bits cur"
  by (cases cur) (auto simp: cursor_at_def)

lemma first_in_cursor:
  assumes "ebitmap_first_in ns hb = (b, cur)" "nodes_wf ns"
  shows "(cur = [] \<and> b = hb \<and> nodes_bits ns = {}) \<or>
    (cursor_at cur b \<and> nodes_bits cur = nodes_bits ns \<and> nodes_end cur = nodes_end ns \<and> (\<forall>x \<in> nodes_bits ns. unat b \<le> x))"
  using assms
proof (induction ns)
  case Nil
  then show ?case by simp
next
  case (Cons n ns)
  let ?ofs = "find_first_bit (en_maps n) EBITMAP_SIZE"
  have wf: "node_wf n" "nodes_wf ns"
    using Cons.prems(2) by (simp_all add: nodes_wf_Cons)
  show ?case
  proof (cases "?ofs < EBITMAP_SIZE")
    case True
    then have b: "b = en_startbit n + of_nat ?ofs" "cur = n # ns"
      using Cons.prems(1) by (auto simp: Let_def)
    have ub: "unat b = node_lo n + ?ofs"
      unfolding b(1) using wf(1) True by (rule unat_node_pos)
    have hit: "map_bit (en_maps n) ?ofs" "\<And>k. k < ?ofs \<Longrightarrow> \<not> map_bit (en_maps n) k"
      using find_next_bit_least [of "en_maps n" EBITMAP_SIZE 0] True by (auto simp: find_first_bit_def)
    have "unat b \<in> node_bits n"
      using hit True by (simp add: node_bits_def ub)
    moreover have "unat b \<le> x" if "x \<in> node_bits n" for x
      using that hit(2) [of "x - node_lo n"] by (force simp: node_bits_def ub)
    moreover have "unat b \<le> x" if "x \<in> nodes_bits ns" for x
      using nodes_bits_above [OF Cons.prems(2) that] True ub by simp
    ultimately show ?thesis
      using Cons.prems(2) by (auto simp: cursor_at_def b(2))
  next
    case False
    then have "node_bits n = {}" by (simp add: find_first_bit_node)
    moreover have "nodes_end (n # ns) = nodes_end ns" if "ns \<noteq> []"
      using that by (simp add: nodes_end_def)
    ultimately show ?thesis
      using False Cons wf(2) by (cases "ns = []") (auto simp: Let_def cursor_at_def)
  qed
qed

lemma next_positive_cursor:
  assumes "ebitmap_next_positive e n ns b = (b', cur)" "cursor_at (n # ns) b"
  defines "rest \<equiv> {x \<in> nodes_bits (n # ns). unat b < x}"
  shows "(cur = [] \<and> rest = {}) \<or>
    (cursor_at cur b' \<and> nodes_end cur = nodes_end (n # ns) \<and> rest = {x \<in> nodes_bits cur. unat b' \<le> x} \<and> unat b < unat b')"
proof -
  have wf: "node_wf n" "nodes_wf ns" "nodes_wf (n # ns)" and b: "unat b \<in> node_bits n"
    using assms(2) by (simp_all add: cursor_at_def nodes_wf_Cons)
  define k where "k = unat b - node_lo n"
  have k: "k < EBITMAP_SIZE" "unat b = node_lo n + k" "unat (b - en_startbit n + 1) = k + 1"
  proof -
    show k1: "k < EBITMAP_SIZE" and k2: "unat b = node_lo n + k"
      using b by (auto simp: node_bits_def k_def)
    have "b = of_nat (unat b)"
      by simp
    also have "\<dots> = of_nat k + en_startbit n"
      unfolding k2 by (simp add: node_lo_def)
    finally show "unat (b - en_startbit n + 1) = k + 1"
      using unat_word_cancel_small [of k "en_startbit n"] k1 by simp
  qed
  let ?ofs = "find_next_bit (en_maps n) EBITMAP_SIZE (k + 1)"
  have above: "x \<in> nodes_bits ns \<Longrightarrow> node_lo n + EBITMAP_SIZE \<le> x" for x
    using wf(3) by (rule nodes_bits_above)
  show ?thesis
  proof (cases "?ofs < EBITMAP_SIZE")
    case True
    then have b': "b' = en_startbit n + of_nat ?ofs" "cur = n # ns"
      using assms(1) by (auto simp: ebitmap_next_positive_def Let_def k(3))
    have ub: "unat b' = node_lo n + ?ofs"
      unfolding b'(1) using wf(1) True by (rule unat_node_pos)
    have lt: "k + 1 \<le> ?ofs"
      using True by (rule find_next_bit_ge')
    have hit: "map_bit (en_maps n) ?ofs" "\<And>j. k + 1 \<le> j \<Longrightarrow> j < ?ofs \<Longrightarrow> \<not> map_bit (en_maps n) j"
      using find_next_bit_least [OF True] by auto
    have "unat b' \<in> node_bits n"
      using hit True by (simp add: node_bits_def ub)
    moreover have "unat b < x \<longleftrightarrow> unat b' \<le> x" if "x \<in> nodes_bits (n # ns)" for x
      using that above [of x] True lt hit(2) [of "x - node_lo n"] unfolding ub k(2)
      by (force simp: node_bits_def)
    ultimately show ?thesis
      using wf(3) lt by (auto simp: cursor_at_def b'(2) rest_def ub k(2))
  next
    case False
    then have "ebitmap_first_in ns (ebitmap_length e) = (b', cur)"
      using assms(1) by (simp add: ebitmap_next_positive_def Let_def k(3))
    note cur = first_in_cursor [OF this wf(2)]
    have "\<not> map_bit (en_maps n) j" if "k < j" "j < EBITMAP_SIZE" for j
      using False that find_next_bit_full [of "en_maps n" EBITMAP_SIZE "k + 1"] by auto
    then have rest: "rest = nodes_bits ns"
      using above k(1) unfolding rest_def k(2) by (force simp: node_bits_def)
    have "unat b < x" if "x \<in> nodes_bits ns" for x
      using above [OF that] k(1,2) by simp
    moreover have "nodes_end (n # ns) = nodes_end ns" if "ns \<noteq> []"
      using that by (simp add: nodes_end_def)
    ultimately show ?thesis
      using cur cursor_at_in [of cur b'] unfolding rest by (cases "ns = []") auto
  qed
qed


lemma positive_from_correct:
  assumes "cursor_at cur b" "nodes_end cur \<le> unat (eb_highbit e)"
  shows "sorted_wrt (<) (map unat (ebitmap_positive_from e cur b)) \<and>
    unat ` set (ebitmap_positive_from e cur b) = {x \<in> nodes_bits cur. unat b \<le> x}"
  using assms
proof (induction e cur b rule: ebitmap_positive_from.induct)
  case (1 e b)
  then show ?case by (simp add: cursor_at_def)
next
  case (2 e n ns b)
  obtain b' cur' where nx: "ebitmap_next_positive e n ns b = (b', cur')"
    by fastforce
  have b: "unat b \<in> nodes_bits (n # ns)"
    using "2.prems"(1) by (rule cursor_at_in)
  have "unat b < nodes_end (n # ns)"
    using nodes_end_bound [OF _ b] "2.prems"(1) by (simp add: cursor_at_def)
  then have lt: "b < ebitmap_length e"
    using "2.prems"(2) by (simp add: word_less_nat_alt)
  have eq: "{x \<in> nodes_bits (n # ns). unat b \<le> x} = insert (unat b) {x \<in> nodes_bits (n # ns). unat b < x}"
    using b by auto
  from next_positive_cursor [OF nx "2.prems"(1)]
  consider (stop) "cur' = []" "{x \<in> nodes_bits (n # ns). unat b < x} = {}"
    | (step) "cursor_at cur' b'" "nodes_end cur' = nodes_end (n # ns)" "unat b < unat b'"
      "{x \<in> nodes_bits (n # ns). unat b < x} = {x \<in> nodes_bits cur'. unat b' \<le> x}"
    by blast
  then show ?case
  proof cases
    case stop
    then show ?thesis
      unfolding eq stop(2) by (simp add: lt nx)
  next
    case step
    note IH = "2.IH" [OF lt nx [symmetric] step(1)]
    have set': "unat ` set (ebitmap_positive_from e cur' b') = {x \<in> nodes_bits cur'. unat b' \<le> x}"
      and sorted': "sorted_wrt (<) (map unat (ebitmap_positive_from e cur' b'))"
      using IH "2.prems"(2) step(2) by simp_all
    have "unat b < unat x" if "x \<in> set (ebitmap_positive_from e cur' b')" for x
      using that set' step(3) by (metis (mono_tags, lifting) image_eqI less_le_trans mem_Collect_eq)
    then show ?thesis
      unfolding eq step(4) using set' sorted' step(3) by (auto simp: lt nx)
  qed
qed

lemma positive_bits_empty: "ebitmap_start_positive e = (b, []) \<Longrightarrow> ebitmap_positive_bits e = []"
  by (simp add: ebitmap_positive_bits_def)

theorem ebitmap_positive_bits_correct:
  assumes "ebitmap_wf e"
  shows "map unat (ebitmap_positive_bits e) = sorted_list_of_set (ebitmap_bits e)"
proof -
  obtain b cur where st: "ebitmap_first_in (eb_node e) (eb_highbit e) = (b, cur)"
    by fastforce
  have wf: "nodes_wf (eb_node e)"
    using assms by (simp add: ebitmap_wf_def)
  from first_in_cursor [OF st wf] have "sorted_wrt (<) (map unat (ebitmap_positive_bits e))
    \<and> set (map unat (ebitmap_positive_bits e)) = ebitmap_bits e"
  proof
    assume "cur = [] \<and> b = eb_highbit e \<and> nodes_bits (eb_node e) = {}"
    then show ?thesis
      by (simp add: ebitmap_positive_bits_def ebitmap_start_positive_def st ebitmap_bits_def)
  next
    assume c: "cursor_at cur b \<and> nodes_bits cur = nodes_bits (eb_node e)
      \<and> nodes_end cur = nodes_end (eb_node e) \<and> (\<forall>x \<in> nodes_bits (eb_node e). unat b \<le> x)"
    then have "{x \<in> nodes_bits cur. unat b \<le> x} = ebitmap_bits e"
      by (auto simp: ebitmap_bits_def)
    then show ?thesis
      using c positive_from_correct [of cur b e] assms
      by (simp add: ebitmap_positive_bits_def ebitmap_start_positive_def st ebitmap_wf_def)
  qed
  then show ?thesis
    by (metis strict_sorted_equal sorted_list_of_set.strict_sorted_key_list_of_set sorted_list_of_set.set_sorted_key_list_of_set
        finite_set)
qed


section \<open>Comparison, copy, intersection and containment\<close>

lemma map_bit_ext:
  assumes "length ms = 6" "length ms' = 6" "\<And>k. k < 384 \<Longrightarrow> map_bit ms k = map_bit ms' k"
  shows "ms = ms'"
proof (rule nth_equalityI)
  show "length ms = length ms'"
    using assms(1,2) by simp
next
  fix i
  assume i: "i < length ms"
  show "ms ! i = ms' ! i"
  proof (rule bit_word_eqI)
    fix j
    assume j: "j < LENGTH(64)"
    then have "i * 64 + j < 384" "(i * 64 + j) div 64 = i" "(i * 64 + j) mod 64 = j"
      using i assms(1) by simp_all
    then show "bit (ms ! i) j = bit (ms' ! i) j"
      using assms(3) [of "i * 64 + j"] i assms(1,2) by (simp add: map_bit_def)
  qed
qed

lemma node_bits_eqD:
  assumes "node_wf n" "node_wf n'" "node_lo n = node_lo n'" "node_bits n = node_bits n'"
  shows "n = n'"
proof -
  have "map_bit (en_maps n) k = map_bit (en_maps n') k" if "k < EBITMAP_SIZE" for k
  proof -
    have "node_lo n + k \<in> node_bits n \<longleftrightarrow> node_lo n + k \<in> node_bits n'"
      using assms(4) by simp
    then show ?thesis
      using that assms(3) by (simp add: node_bits_def)
  qed
  then have "en_maps n = en_maps n'"
    using assms(1,2) by (intro map_bit_ext) (simp_all add: node_wf_def)
  moreover have "en_startbit n = en_startbit n'"
    using assms(3) by (simp add: node_lo_def word_unat_eq_iff)
  ultimately show ?thesis by simp
qed

lemma nodes_bits_eq_hd:
  assumes "nodes_wf (n # ns)" "nodes_wf (n' # ns')" "node_bits n \<noteq> {}" "node_bits n' \<noteq> {}"
    "nodes_bits (n # ns) = nodes_bits (n' # ns')"
  shows "node_lo n = node_lo n'" "node_bits n = node_bits n'" "nodes_bits ns = nodes_bits ns'"
proof -
  have le: "node_lo x \<le> node_lo y"
    if "nodes_wf (x # xs)" "nodes_wf (y # ys)" "node_bits y \<noteq> {}"
      "nodes_bits (x # xs) = nodes_bits (y # ys)" for x xs y ys
  proof -
    from that(3) obtain c where c: "c \<in> node_bits y" by blast
    with that(4) have "c \<in> node_bits x \<or> c \<in> nodes_bits xs" by auto
    then have "node_lo x \<le> c"
      using nodes_bits_above [OF that(1), of c] by (auto simp: node_bits_def)
    moreover have "EBITMAP_SIZE dvd node_lo x" "EBITMAP_SIZE dvd node_lo y" "c < node_lo y + EBITMAP_SIZE"
      using that(1,2) c by (auto simp: nodes_wf_Cons node_wf_def node_bits_def)
    ultimately show ?thesis
      using dvd_gap [of "node_lo y" "node_lo x"] by linarith
  qed
  show lo: "node_lo n = node_lo n'"
    using le [OF assms(1,2,4,5)] le [OF assms(2,1,3) assms(5) [symmetric]] by simp
  have low: "x \<in> nodes_bits (n # ns) \<Longrightarrow> x < node_lo n + EBITMAP_SIZE \<longleftrightarrow> x \<in> node_bits n" for x
    using nodes_bits_above [OF assms(1), of x] by (auto simp: node_bits_def)
  have low': "x \<in> nodes_bits (n' # ns') \<Longrightarrow> x < node_lo n' + EBITMAP_SIZE \<longleftrightarrow> x \<in> node_bits n'" for x
    using nodes_bits_above [OF assms(2), of x] by (auto simp: node_bits_def)
  have mem: "x \<in> nodes_bits (n # ns) \<longleftrightarrow> x \<in> nodes_bits (n' # ns')" for x
    using assms(5) by simp
  show "node_bits n = node_bits n'"
    using low low' mem lo by (intro set_eqI) (metis UnI1 nodes_bits_Cons)
  show "nodes_bits ns = nodes_bits ns'"
    using nodes_bits_above [OF assms(1)] nodes_bits_above [OF assms(2)] low low' mem lo
    by (intro set_eqI) (metis UnE UnI2 leD nodes_bits_Cons)
qed

lemma nodes_bits_inject:
  assumes "nodes_wf ns" "nodes_wf ns'" "\<forall>n \<in> set ns. node_bits n \<noteq> {}" "\<forall>n \<in> set ns'. node_bits n \<noteq> {}"
    "nodes_bits ns = nodes_bits ns'"
  shows "ns = ns'"
  using assms
proof (induction ns arbitrary: ns')
  case Nil
  then show ?case by (cases ns') auto
next
  case (Cons n ns)
  then obtain n' ns'' where ns': "ns' = n' # ns''"
    by (cases ns') auto
  have ne: "node_bits n \<noteq> {}" "node_bits n' \<noteq> {}"
    using Cons.prems(3,4) ns' by auto
  note hd = nodes_bits_eq_hd [OF Cons.prems(1) Cons.prems(2) [unfolded ns'] ne Cons.prems(5) [unfolded ns']]
  have "n = n'"
    using hd(1,2) Cons.prems(1,2) ns' by (auto simp: nodes_wf_Cons intro: node_bits_eqD)
  moreover have "ns = ns''"
    using Cons hd(3) ns' by (auto simp: nodes_wf_Cons)
  ultimately show ?case by (simp add: ns')
qed

lemma ebitmap_cmp_nodes_eq: "ebitmap_cmp_nodes ns ns' \<longleftrightarrow> ns = ns'"
  by (induction ns ns' rule: ebitmap_cmp_nodes.induct) auto

lemma ebitmap_cmp_eq: "ebitmap_cmp e1 e2 \<longleftrightarrow> e1 = e2"
  by (auto simp: ebitmap_cmp_def ebitmap_cmp_nodes_eq)

lemma ebitmap_canon_inject:
  assumes "ebitmap_canon e1" "ebitmap_canon e2" "ebitmap_bits e1 = ebitmap_bits e2"
  shows "e1 = e2"
proof -
  have "eb_node e1 = eb_node e2"
    using assms by (intro nodes_bits_inject) (auto simp: ebitmap_canon_def ebitmap_bits_def)
  moreover have "eb_highbit e1 = eb_highbit e2"
    using assms calculation by (simp add: ebitmap_canon_def word_unat_eq_iff)
  ultimately show ?thesis by simp
qed

theorem ebitmap_cmp_correct:
  "ebitmap_canon e1 \<Longrightarrow> ebitmap_canon e2 \<Longrightarrow> ebitmap_cmp e1 e2 \<longleftrightarrow> ebitmap_bits e1 = ebitmap_bits e2"
  using ebitmap_canon_inject by (auto simp: ebitmap_cmp_eq)

lemma cpy_nodes_ok: "ebitmap_cpy_nodes acc ns m = (Inr ns', m') \<Longrightarrow> ns' = acc @ ns"
  by (induction acc ns m rule: ebitmap_cpy_nodes.induct) (auto split: prod.splits bool.splits)

lemma cpy_nodes_fail: "ebitmap_cpy_nodes acc ns m = (Inl x, m') \<Longrightarrow> x = ENOMEM"
  by (induction acc ns m rule: ebitmap_cpy_nodes.induct) (auto split: prod.splits bool.splits)

lemma cpy_nodes_ample: "ample m \<Longrightarrow> \<exists>m'. ebitmap_cpy_nodes acc ns m = (Inr (acc @ ns), m') \<and> ample m'"
proof (induction ns arbitrary: acc m)
  case Nil
  then show ?case by simp
next
  case (Cons n ns)
  obtain m1 where "kalloc m = (True, m1)" "ample m1"
    using Cons.prems by (rule kalloc_ampleE)
  with Cons.IH [of m1 "acc @ [n]"] show ?case by simp
qed

lemma ebitmap_cpy_ok: "ebitmap_cpy e m = (OK, e', m') \<Longrightarrow> e' = e"
  by (auto simp: ebitmap_cpy_def dest!: cpy_nodes_ok split: prod.splits sum.splits)

lemma ebitmap_cpy_fail: "ebitmap_cpy e m = (Err x, e', m') \<Longrightarrow> x = ENOMEM \<and> e' = ebitmap_init"
  by (auto simp: ebitmap_cpy_def ebitmap_destroy_def ebitmap_init_def dest!: cpy_nodes_fail
      split: prod.splits sum.splits)

lemma ebitmap_cpy_ample: "ample m \<Longrightarrow> \<exists>m'. ebitmap_cpy e m = (OK, e, m') \<and> ample m'"
  using cpy_nodes_ample [of m "[]" "eb_node e"] by (auto simp: ebitmap_cpy_def)


lemma ulong_of_int_small: "unat b < 2 ^ 31 \<Longrightarrow> ulong_of_int b = unat b"
  by (simp add: ulong_of_int_def unat_signed_small)

lemma ebitmap_pos_small: "b < 2 ^ 31 \<Longrightarrow> ebitmap_pos b"
  unfolding ebitmap_pos_def using mod_less_eq_dividend [of b EBITMAP_SIZE] by simp

lemma and_loop_ok:
  assumes "ebitmap_and_loop bs e2 dst m = (OK, dst', m')" "ebitmap_wf e2" "ebitmap_canon dst"
    "\<forall>b \<in> set bs. unat b < 2 ^ 31"
  shows "ebitmap_bits dst' = ebitmap_bits dst \<union> (unat ` set bs \<inter> ebitmap_bits e2)" "ebitmap_canon dst'"
proof -
  have "ebitmap_bits dst' = ebitmap_bits dst \<union> (unat ` set bs \<inter> ebitmap_bits e2) \<and> ebitmap_canon dst'"
    using assms
  proof (induction bs e2 dst m rule: ebitmap_and_loop.induct)
    case (1 e2 dst m)
    then show ?case by simp
  next
    case (2 b bs e2 dst m)
    have b: "ulong_of_int b = unat b" "ebitmap_pos (unat b)"
      using "2.prems"(4) ulong_of_int_small ebitmap_pos_small by auto
    have get: "ebitmap_get_bit e2 (unat b) \<longleftrightarrow> unat b \<in> ebitmap_bits e2"
      using "2.prems"(2) by (rule ebitmap_get_bit_iff)
    show ?case
    proof (cases "unat b \<in> ebitmap_bits e2")
      case True
      obtain rc d m1 where s: "ebitmap_set_bit dst (unat b) True m = (rc, d, m1)"
        by (metis surj_pair)
      have rc: "rc = OK"
        using "2.prems"(1) True by (auto simp: b get s split: option.splits)
      have d: "ebitmap_bits d = insert (unat b) (ebitmap_bits dst)" "ebitmap_canon d"
        using ebitmap_set_bit_ok [OF s [unfolded rc]] "2.prems"(3) b(2) by (auto dest: ebitmap_canon_wf)
      have "ebitmap_bits dst' = ebitmap_bits d \<union> (unat ` set bs \<inter> ebitmap_bits e2) \<and> ebitmap_canon dst'"
        using "2.IH"(1) "2.prems" True d(2) by (simp add: b get s rc)
      then show ?thesis
        using d(1) True by auto
    next
      case False
      then show ?thesis
        using "2.IH"(2) "2.prems" by (auto simp: b get)
    qed
  qed
  then show "ebitmap_bits dst' = ebitmap_bits dst \<union> (unat ` set bs \<inter> ebitmap_bits e2)" "ebitmap_canon dst'"
    by simp_all
qed

lemma and_loop_ENOMEM: "ebitmap_and_loop bs e2 dst m = (Err x, dst', m') \<Longrightarrow> x = ENOMEM"
  by (induction bs e2 dst m rule: ebitmap_and_loop.induct)
    (auto split: if_splits prod.splits option.splits dest: ebitmap_set_bit_ENOMEM)

lemma ebitmap_and_fail: "ebitmap_and e1 e2 m = (Err x, dst', m') \<Longrightarrow> x = ENOMEM"
  unfolding ebitmap_and_def by (rule and_loop_ENOMEM)

lemma positive_bits_set: "ebitmap_wf e \<Longrightarrow> unat ` set (ebitmap_positive_bits e) = ebitmap_bits e"
  using ebitmap_positive_bits_correct [of e]
  by (metis ebitmap_bits_def finite_nodes_bits list.set_map set_sorted_list_of_set)

lemma ebitmap_and_ok:
  assumes "ebitmap_and e1 e2 m = (OK, dst, m')" "ebitmap_wf e1" "ebitmap_wf e2" "eb_highbit e1 \<le> 2 ^ 31"
  shows "ebitmap_bits dst = ebitmap_bits e1 \<inter> ebitmap_bits e2" "ebitmap_canon dst"
proof -
  have "unat b < 2 ^ 31" if "b \<in> set (ebitmap_positive_bits e1)" for b
  proof -
    have "unat b \<in> ebitmap_bits e1"
      using that positive_bits_set [OF assms(2)] by blast
    then have "unat b < nodes_end (eb_node e1)"
      using assms(2) by (simp add: ebitmap_wf_def ebitmap_bits_def nodes_end_bound)
    also have "\<dots> \<le> unat (eb_highbit e1)"
      using assms(2) by (simp add: ebitmap_wf_def)
    also have "\<dots> \<le> 2 ^ 31"
      using assms(4) by (simp add: word_le_nat_alt)
    finally show ?thesis .
  qed
  then show "ebitmap_bits dst = ebitmap_bits e1 \<inter> ebitmap_bits e2" "ebitmap_canon dst"
    using and_loop_ok [OF assms(1) [unfolded ebitmap_and_def] assms(3)] positive_bits_set [OF assms(2)]
    by simp_all
qed


lemma units_contain_iff: "units_contain ms1 ms2 k \<longleftrightarrow> (\<forall>i<k. (ms1 ! i) AND (ms2 ! i) = ms2 ! i)"
  by (induction k) (auto simp: less_Suc_eq)

lemma skip_null_units_le: "skip_null_units ms k \<le> k"
  by (induction k) auto

lemma skip_null_units_zero: "skip_null_units ms k \<le> i \<Longrightarrow> i < k \<Longrightarrow> ms ! i = 0"
  by (induction k) (auto simp: less_Suc_eq split: if_splits)

lemma skip_null_units_last: "0 < skip_null_units ms k \<Longrightarrow> ms ! (skip_null_units ms k - 1) \<noteq> 0"
  by (induction k) auto

lemma find_rev_upt: "find P (rev [0..<n]) = Some k \<Longrightarrow> P k \<and> k < n \<and> (\<forall>j<n. P j \<longrightarrow> j \<le> k)"
  by (induction n) (auto split: if_splits simp: less_Suc_eq)

lemma u64_nonzero_bit:
  assumes "w \<noteq> 0"
  shows "\<exists>j<64. bit (w :: u64) j"
proof (rule ccontr)
  assume "\<not> (\<exists>j<64. bit w j)"
  then have "w = 0" by (intro bit_word_eqI) auto
  with assms show False by simp
qed

lemma fls_bit:
  assumes "w \<noteq> 0"
  shows "bit w (fls w)" "bit w k \<Longrightarrow> k \<le> fls w" "fls w < 64"
proof -
  obtain j where "fls w = j" "find (bit w) (rev [0..<64]) = Some j"
    using u64_nonzero_bit [OF assms]
    by (cases "find (bit w) (rev [0..<64])") (auto simp: fls_def find_None_iff)
  then show "bit w (fls w)" "bit w k \<Longrightarrow> k \<le> fls w" "fls w < 64"
    using find_rev_upt [of "bit w" 64 j] bit_imp_le_length [of w k] by auto
qed

lemma and_eq_iff_bits: "(v AND w = w) \<longleftrightarrow> (\<forall>j. bit w j \<longrightarrow> bit v j)" for v w :: u64
proof
  assume eq: "v AND w = w"
  have "bit (v AND w) j \<longrightarrow> bit v j" for j
    by (simp add: bit_and_iff)
  then show "\<forall>j. bit w j \<longrightarrow> bit v j"
    unfolding eq by blast
next
  assume "\<forall>j. bit w j \<longrightarrow> bit v j"
  then show "v AND w = w"
    by (intro bit_word_eqI) (auto simp: bit_and_iff)
qed

lemma units_subset:
  assumes "length ms1 = 6" "length ms2 = 6"
  shows "units_contain ms1 ms2 (skip_null_units ms2 6) \<longleftrightarrow> (\<forall>k<384. map_bit ms2 k \<longrightarrow> map_bit ms1 k)"
proof -
  have "units_contain ms1 ms2 (skip_null_units ms2 6) \<longleftrightarrow> (\<forall>i<6. (ms1 ! i) AND (ms2 ! i) = ms2 ! i)"
  proof -
    have "(ms1 ! i) AND (ms2 ! i) = ms2 ! i" if "skip_null_units ms2 6 \<le> i" "i < 6" for i
      using skip_null_units_zero [OF that] by simp
    moreover have "i < 6" if "i < skip_null_units ms2 6" for i
      using that skip_null_units_le [of ms2 6] by simp
    ultimately show ?thesis
      by (auto simp: units_contain_iff) (metis not_le)
  qed
  also have "\<dots> \<longleftrightarrow> (\<forall>i<6. \<forall>j. bit (ms2 ! i) j \<longrightarrow> bit (ms1 ! i) j)"
    by (simp add: and_eq_iff_bits)
  also have "\<dots> \<longleftrightarrow> (\<forall>k<384. map_bit ms2 k \<longrightarrow> map_bit ms1 k)" (is "?L \<longleftrightarrow> ?R")
  proof
    assume ?L
    then show ?R using assms by (simp add: map_bit_def)
  next
    assume R: ?R
    show ?L
    proof (intro allI impI)
      fix i j
      assume i: "i < (6::nat)" and b: "bit (ms2 ! i) j"
      have j: "j < 64" using bit_imp_le_length [OF b] by simp
      have ij: "i * 64 + j < 384" "(i * 64 + j) div 64 = i" "(i * 64 + j) mod 64 = j"
        using i j by simp_all
      from R [rule_format, OF ij(1)] show "bit (ms1 ! i) j"
        using i b assms ij by (simp add: map_bit_def)
    qed
  qed
  finally show ?thesis .
qed

lemma node_subset_iff:
  assumes "node_wf n1" "node_wf n2" "node_lo n1 = node_lo n2"
  shows "units_contain (en_maps n1) (en_maps n2) (skip_null_units (en_maps n2) EBITMAP_UNIT_NUMS)
    \<longleftrightarrow> node_bits n2 \<subseteq> node_bits n1"
proof -
  have "(\<forall>k<384. map_bit (en_maps n2) k \<longrightarrow> map_bit (en_maps n1) k) \<longleftrightarrow> node_bits n2 \<subseteq> node_bits n1" (is "?L \<longleftrightarrow> ?R")
  proof
    assume ?L
    then show ?R using assms(3) by (auto simp: node_bits_def)
  next
    assume R: ?R
    show ?L
    proof (intro allI impI)
      fix k
      assume k: "k < (384::nat)" "map_bit (en_maps n2) k"
      then have "node_lo n2 + k \<in> node_bits n2" by (simp add: node_bits_def)
      with R have "node_lo n2 + k \<in> node_bits n1" by blast
      then show "map_bit (en_maps n1) k" using assms(3) by (simp add: node_bits_def)
    qed
  qed
  then show ?thesis
    using assms(1,2) units_subset [of "en_maps n1" "en_maps n2"] by (simp add: node_wf_def)
qed

text \<open>The last set bit that \<open>ebitmap_contains\<close> computes is the greatest bit of the node.\<close>

lemma last_set_bit:
  assumes "node_wf n" "k = skip_null_units (en_maps n) EBITMAP_UNIT_NUMS" "0 < k"
  defines "l \<equiv> (k - 1) * EBITMAP_UNIT_SIZE + fls (en_maps n ! (k - 1))"
  shows "node_lo n + l \<in> node_bits n" "b \<in> node_bits n \<Longrightarrow> b \<le> node_lo n + l" "l < EBITMAP_SIZE"
proof -
  have k6: "k \<le> 6" and nz: "en_maps n ! (k - 1) \<noteq> 0"
    using assms(2,3) skip_null_units_le [of "en_maps n" 6] skip_null_units_last [of "en_maps n" 6] by auto
  have len: "length (en_maps n) = 6"
    using assms(1) by (simp add: node_wf_def)
  have f: "fls (en_maps n ! (k - 1)) < 64"
    using nz by (rule fls_bit)
  have ld: "l div 64 = k - 1" "l mod 64 = fls (en_maps n ! (k - 1))"
    using f by (simp_all add: l_def)
  show "l < EBITMAP_SIZE"
    using k6 f assms(3) by (simp add: l_def)
  then show "node_lo n + l \<in> node_bits n"
    using ld fls_bit(1) [OF nz] k6 len assms(3) by (simp add: node_bits_def map_bit_def)
  show "b \<le> node_lo n + l" if "b \<in> node_bits n"
  proof -
    define j where "j = b - node_lo n"
    have j: "j < 384" "map_bit (en_maps n) j" "b = node_lo n + j"
      using that by (auto simp: node_bits_def j_def)
    have d: "j div 64 \<le> k - 1"
    proof (rule ccontr)
      assume "\<not> j div 64 \<le> k - 1"
      then have "en_maps n ! (j div 64) = 0"
        using skip_null_units_zero [of "en_maps n" 6 "j div 64"] assms(2,3) j(1) by simp
      with j(2) show False by (simp add: map_bit_def)
    qed
    have "j \<le> l"
    proof (cases "j div 64 = k - 1")
      case True
      then have "j mod 64 \<le> l mod 64"
        using j(2) fls_bit(2) [OF nz] by (simp add: map_bit_def ld)
      then show ?thesis
        using True ld(1) by (metis div_mult_mod_eq add_left_mono)
    next
      case False
      then have "j div 64 < l div 64" using d ld(1) by simp
      then show ?thesis by (metis div_le_mono leD le_cases)
    qed
    then show ?thesis using j(3) by simp
  qed
qed


lemma node_bits_same_lo:
  assumes "node_wf n" "node_wf n'" "c \<in> node_bits n" "c \<in> node_bits n'"
  shows "node_lo n = node_lo n'"
  using assms node_wf_gap [of n n'] node_wf_gap [of n' n]
  by (cases "node_lo n" "node_lo n'" rule: linorder_cases) (auto simp: node_bits_def)

lemma node_lo_end: "nodes_wf ns \<Longrightarrow> n \<in> set ns \<Longrightarrow> node_lo n + EBITMAP_SIZE \<le> nodes_end ns"
proof (induction ns)
  case (Cons x xs)
  show ?case
  proof (cases "xs = []")
    case True
    with Cons.prems show ?thesis by (simp add: nodes_end_def)
  next
    case False
    then have "node_lo x + EBITMAP_SIZE \<le> node_lo (last xs)"
      using Cons.prems(1) by (auto simp: nodes_wf_Cons nodes_wf_def intro!: node_wf_gap)
    moreover have "nodes_end (x # xs) = nodes_end xs" "nodes_end xs = node_lo (last xs) + EBITMAP_SIZE"
      using False by (simp_all add: nodes_end_def)
    ultimately show ?thesis
      using Cons by (auto simp: nodes_wf_Cons)
  qed
qed simp

lemma contains_nodes_correct:
  assumes "nodes_wf ns1" "nodes_wf ns2" "\<forall>n \<in> set ns2. node_bits n \<noteq> {}"
  shows "ebitmap_contains_nodes ns1 ns2 l \<longleftrightarrow>
    nodes_bits ns2 \<subseteq> nodes_bits ns1 \<and> (l \<noteq> 0 \<longrightarrow> (\<forall>b \<in> nodes_bits ns2. b \<le> unat l))"
  using assms
proof (induction ns1 ns2 l rule: ebitmap_contains_nodes.induct)
  case (1 n1 ns1 n2 ns2 l)
  have wf: "node_wf n1" "nodes_wf ns1" "node_wf n2" "nodes_wf ns2"
    using "1.prems" by (simp_all add: nodes_wf_Cons)
  obtain c where c: "c \<in> node_bits n2"
    using "1.prems"(3) by auto
  note above1 = nodes_bits_above [OF "1.prems"(1)] and above2 = nodes_bits_above [OF "1.prems"(2)]
  consider (lt) "node_lo n1 < node_lo n2" | (eq) "node_lo n1 = node_lo n2" | (gt) "node_lo n2 < node_lo n1"
    by linarith
  then show ?case
  proof cases
    case lt
    then have "node_lo n1 + EBITMAP_SIZE \<le> node_lo n2"
      using wf by (intro node_wf_gap)
    then have "b \<notin> node_bits n1" if "b \<in> nodes_bits (n2 # ns2)" for b
      using that above2 [of b] by (auto simp: node_bits_def)
    then have "nodes_bits (n2 # ns2) \<subseteq> nodes_bits (n1 # ns1) \<longleftrightarrow> nodes_bits (n2 # ns2) \<subseteq> nodes_bits ns1"
      by auto
    then show ?thesis
      using "1.IH"(1) "1.prems" wf lt by (simp add: word_le_nat_alt word_less_nat_alt node_lo_def)
  next
    case gt
    then have "node_lo n2 + EBITMAP_SIZE \<le> node_lo n1"
      using wf by (intro node_wf_gap)
    then have "c \<notin> nodes_bits (n1 # ns1)"
      using c above1 [of c] by (auto simp: node_bits_def)
    then show ?thesis
      using c gt by (auto simp: word_le_nat_alt node_lo_def)
  next
    case eq
    then have sb: "en_startbit n1 = en_startbit n2"
      by (simp add: node_lo_def word_unat_eq_iff)
    define k where "k = skip_null_units (en_maps n2) EBITMAP_UNIT_NUMS"
    define last where "last = en_startbit n2 + of_nat ((k - 1) * EBITMAP_UNIT_SIZE + fls (en_maps n2 ! (k - 1)))"
    have bound: "(\<forall>b \<in> node_bits n2. b \<le> unat l) \<longleftrightarrow> \<not> (k > 0 \<and> last > l)"
    proof (cases "k = 0")
      case True
      then have "en_maps n2 ! i = 0" if "i < 6" for i
        using skip_null_units_zero [of "en_maps n2" 6 i] that by (simp add: k_def)
      then have "node_bits n2 = {}"
        by (auto simp: node_bits_def map_bit_def)
      with c show ?thesis by simp
    next
      case False
      then have "0 < k" by simp
      note ls = last_set_bit [OF wf(3) k_def this]
      have "unat last = node_lo n2 + ((k - 1) * EBITMAP_UNIT_SIZE + fls (en_maps n2 ! (k - 1)))"
        unfolding last_def using wf(3) ls(3) by (rule unat_node_pos)
      then show ?thesis
        using ls(1,2) \<open>0 < k\<close> by (force simp: word_less_nat_alt)
    qed
    have sub: "units_contain (en_maps n1) (en_maps n2) k \<longleftrightarrow> node_bits n2 \<subseteq> node_bits n1"
      using node_subset_iff [OF wf(1,3) eq] by (simp add: k_def)
    have "x \<notin> nodes_bits ns1" if "x \<in> node_bits n2" for x
      using above1 [of x] that eq by (auto simp: node_bits_def)
    moreover have "x \<notin> node_bits n1" if "x \<in> nodes_bits ns2" for x
      using above2 [of x] that eq by (auto simp: node_bits_def)
    ultimately have "nodes_bits (n2 # ns2) \<subseteq> nodes_bits (n1 # ns1)
      \<longleftrightarrow> node_bits n2 \<subseteq> node_bits n1 \<and> nodes_bits ns2 \<subseteq> nodes_bits ns1"
      by auto
    moreover have "ebitmap_contains_nodes (n1 # ns1) (n2 # ns2) l \<longleftrightarrow>
      \<not> (l \<noteq> 0 \<and> k > 0 \<and> last > l) \<and> node_bits n2 \<subseteq> node_bits n1 \<and> ebitmap_contains_nodes ns1 ns2 l"
      unfolding ebitmap_contains_nodes.simps Let_def k_def [symmetric] last_def [symmetric]
      by (simp add: sb sub)
    moreover have "ebitmap_contains_nodes ns1 ns2 l \<longleftrightarrow>
      nodes_bits ns2 \<subseteq> nodes_bits ns1 \<and> (l \<noteq> 0 \<longrightarrow> (\<forall>b \<in> nodes_bits ns2. b \<le> unat l))"
      if "\<not> (l \<noteq> 0 \<and> k > 0 \<and> last > l)" "node_bits n2 \<subseteq> node_bits n1"
      using "1.IH"(2) [OF _ _ k_def last_def] that "1.prems" wf sb sub by simp
    ultimately show ?thesis
      using bound by auto
  qed
next
  case (2 ns1 l)
  then show ?case by simp
next
  case (3 n2 ns2 l)
  then show ?case by auto
qed

theorem ebitmap_contains_correct:
  assumes "ebitmap_wf e1" "ebitmap_canon e2"
  shows "ebitmap_contains e1 e2 l \<longleftrightarrow>
    ebitmap_bits e2 \<subseteq> ebitmap_bits e1 \<and> (l \<noteq> 0 \<longrightarrow> (\<forall>b \<in> ebitmap_bits e2. b \<le> unat l))"
proof -
  have nodes: "ebitmap_contains_nodes (eb_node e1) (eb_node e2) l \<longleftrightarrow>
    ebitmap_bits e2 \<subseteq> ebitmap_bits e1 \<and> (l \<noteq> 0 \<longrightarrow> (\<forall>b \<in> ebitmap_bits e2. b \<le> unat l))"
    using assms contains_nodes_correct [of "eb_node e1" "eb_node e2" l]
    by (simp add: ebitmap_wf_def ebitmap_canon_def ebitmap_bits_def)
  have "\<not> eb_highbit e1 < eb_highbit e2" if sub: "ebitmap_bits e2 \<subseteq> ebitmap_bits e1"
  proof (cases "eb_node e2 = []")
    case True
    then have "unat (eb_highbit e2) = 0"
      using assms(2) by (simp add: ebitmap_canon_def nodes_end_def)
    then show ?thesis by (simp add: word_less_nat_alt)
  next
    case False
    let ?n = "last (eb_node e2)"
    have n: "?n \<in> set (eb_node e2)" "node_wf ?n"
      using False assms(2) by (simp_all add: ebitmap_canon_def nodes_wf_def)
    then obtain c where c: "c \<in> node_bits ?n"
      using assms(2) by (auto simp: ebitmap_canon_def)
    have "c \<in> ebitmap_bits e1"
      using sub c n(1) by (auto simp: ebitmap_bits_def nodes_bits_def)
    then obtain n1 where n1: "n1 \<in> set (eb_node e1)" "c \<in> node_bits n1" "node_wf n1"
      using assms(1) by (auto simp: ebitmap_bits_def nodes_bits_def ebitmap_wf_def nodes_wf_def)
    have "unat (eb_highbit e2) = node_lo ?n + EBITMAP_SIZE"
      using False assms(2) by (simp add: ebitmap_canon_def nodes_end_def)
    also have "node_lo ?n = node_lo n1"
      using n(2) n1(3) c n1(2) by (rule node_bits_same_lo)
    also have "node_lo n1 + EBITMAP_SIZE \<le> nodes_end (eb_node e1)"
      using assms(1) n1(1) by (simp add: ebitmap_wf_def node_lo_end)
    also have "\<dots> \<le> unat (eb_highbit e1)"
      using assms(1) by (simp add: ebitmap_wf_def)
    finally show ?thesis by (simp add: word_less_nat_alt)
  qed
  then show ?thesis
    using nodes by (auto simp: ebitmap_contains_def)
qed

section \<open>Properties\<close>

text \<open>The bitmap of one bit, as \<open>ebitmap_set_bit\<close> makes it.\<close>

definition ebitmap_single :: "nat \<Rightarrow> ebitmap" where
  "ebitmap_single b = fst (snd (ebitmap_set_bit ebitmap_init b True []))"

lemma set_bit_single: "ebitmap_set_bit ebitmap_init b True [] = (OK, ebitmap_single b, [])"
  by (simp add: ebitmap_single_def ebitmap_set_bit_def ebitmap_init_def Let_def)

lemma ebitmap_single:
  assumes "ebitmap_pos b"
  shows "ebitmap_canon (ebitmap_single b)" "ebitmap_wf (ebitmap_single b)" "ebitmap_bits (ebitmap_single b) = {b}"
  using ebitmap_set_bit_ok [OF set_bit_single [of b]] assms by simp_all

text \<open>
  C40. A bit that was set or cleared reads back as such, every other bit reads as before, and the
  bitmap stays canonical: sorted aligned nodes, none of them empty, the high bit at the end of the
  last node.
\<close>

theorem ebitmap_set_get:
  assumes "ebitmap_canon e" "ebitmap_pos b" "ebitmap_set_bit e b v m = (OK, e', m')"
  shows "ebitmap_canon e' \<and> (\<forall>c. ebitmap_get_bit e' c \<longleftrightarrow> (if c = b then v else ebitmap_get_bit e c))"
proof -
  have wf: "ebitmap_wf e" and v: "v \<longrightarrow> ebitmap_pos b"
    using assms by (simp_all add: ebitmap_canon_wf)
  note ok = ebitmap_set_bit_ok [OF assms(3) wf v]
  show ?thesis
    using ok(1) ok(3) [OF assms(1)] by (simp add: ebitmap_get_bit_iff wf ok(2))
qed

theorem ebitmap_set_get_witness:
  "ebitmap_canon (ebitmap_single 700) \<and>
   (\<forall>c. ebitmap_get_bit (ebitmap_single 700) c \<longleftrightarrow> (if c = 700 then True else ebitmap_get_bit ebitmap_init c))"
  by (rule ebitmap_set_get [OF _ _ set_bit_single]) (simp_all add: ebitmap_pos_def)

text \<open>
  Setting a bit fails only for lack of memory, and then the bitmap is the old one; with memory
  it succeeds.
\<close>

lemma ebitmap_set_bit_atomic:
  assumes "ebitmap_wf e"
  shows "case ebitmap_set_bit e b v m of
      (Err x, e', m') \<Rightarrow> x = ENOMEM \<and> v \<and> e' = e \<and> \<not> ample m
    | (OK, e', m') \<Rightarrow> True"
proof -
  obtain rc e' m' where r: "ebitmap_set_bit e b v m = (rc, e', m')"
    using prod_cases3 by blast
  have "\<not> ample m" if "rc \<noteq> OK"
    using that r ebitmap_set_bit_ample [of m e b v] by (metis prod.inject)
  then show ?thesis
    using r ebitmap_set_bit_fail [of e b v m _ e' m'] assms by (auto split: option.split)
qed

text \<open>
  The iteration over the set bits, \<open>ebitmap_for_each_positive_bit\<close>, visits exactly the positions
  that \<open>ebitmap_get_bit\<close> finds set, each once, in increasing order.
\<close>

lemma ebitmap_for_each_correct:
  assumes "ebitmap_wf e"
  shows "map unat (ebitmap_positive_bits e) = filter (ebitmap_get_bit e) [0..<unat (eb_highbit e)]"
proof -
  have "ebitmap_bits e \<subseteq> {0..<unat (eb_highbit e)}"
    using assms nodes_end_bound [of "eb_node e"] by (fastforce simp: ebitmap_wf_def ebitmap_bits_def)
  then have "ebitmap_bits e = set (filter (ebitmap_get_bit e) [0..<unat (eb_highbit e)])"
    using assms by (auto simp: ebitmap_get_bit_iff)
  then show ?thesis
    using ebitmap_positive_bits_correct [OF assms]
    by (simp only: sorted_list_of_set_sort_remdups) (simp add: distinct_remdups_id sorted_sort_id sorted_wrt_filter)
qed

text \<open>
  Containment: with no empty node in the second bitmap the answer is inclusion of the sets, and
  with a bound that no bit of the second exceeds it.
\<close>

lemma ebitmap_contains_spec:
  assumes "ebitmap_wf e1" "ebitmap_canon e2"
  shows "ebitmap_contains e1 e2 last_e2bit \<longleftrightarrow>
    (\<forall>b. ebitmap_get_bit e2 b \<longrightarrow> ebitmap_get_bit e1 b \<and> (last_e2bit \<noteq> 0 \<longrightarrow> b \<le> unat last_e2bit))"
  using assms ebitmap_contains_correct [OF assms, of last_e2bit]
  by (auto simp: ebitmap_get_bit_iff ebitmap_canon_wf)

end
