(* ===== verification/Hashtab.thy ===== *)
theory Hashtab
  imports Kernel_Prelude
begin

text \<open>
  The chained hash table of the security server (\<open>ss/hashtab.h\<close>, \<open>ss/hashtab.c\<close>) and the symbol
  table on top of it (\<open>ss/symtab.c\<close>). A chain is the list of its nodes; \<open>void *\<close> keys and data are
  type variables, and the \<open>hashtab_key_params\<close> are the arguments \<open>hash\<close> and \<open>cmp\<close>.

  The locale \<open>hashtab_keys\<close> states what the table relies on of the two callbacks, for the keys that
  satisfy \<open>ok\<close>: \<open>cmp\<close> is the sign of a strict linear order. Under it, insertion and search refine
  the update and the application of a finite map. The callbacks of the code are interpretations:
  the one of symbol tables here, those of the transition tables in \<open>Policydb\<close>.
\<close>

section \<open>The data structure and its operations\<close>

record ('k, 'd) hashtab =
  ht_htable :: "('k \<times> 'd) list list"
  ht_size :: u32
  ht_nel :: u32

record hashtab_info =
  slots_used :: u32
  max_chain_len :: u32

definition HASHTAB_MAX_NODES :: u32 where
  "HASHTAB_MAX_NODES = 0xffffffff"

text \<open>The kernel's \<open>roundup_pow_of_two\<close>, for arguments of 32 bits.\<close>

definition roundup_pow_of_two :: "nat \<Rightarrow> nat" where
  "roundup_pow_of_two n = (case find (\<lambda>k. n \<le> 2 ^ k) [0..<33] of Some k \<Rightarrow> 2 ^ k | None \<Rightarrow> 0)"

definition hashtab_compute_size :: "u32 \<Rightarrow> u32" where
  "hashtab_compute_size nel = (if nel = 0 then 0 else of_nat (roundup_pow_of_two (unat nel)))"

text \<open>
  \<open>get_order\<close> and \<open>MAX_ORDER\<close> belong to the page allocator; a pointer takes 8 bytes.
\<close>

definition is_order_out_of_range :: "(nat \<Rightarrow> nat) \<Rightarrow> nat \<Rightarrow> u32 \<Rightarrow> bool" where
  "is_order_out_of_range get_order MAX_ORDER sz =
     (if unat sz * 8 \<ge> 2 ^ 64 then True else get_order (unat sz * 8) > MAX_ORDER)"

definition hashtab_init :: "(nat \<Rightarrow> nat) \<Rightarrow> nat \<Rightarrow> u32 \<Rightarrow> mem \<Rightarrow> rc \<times> ('k, 'd) hashtab \<times> mem" where
  "hashtab_init get_order MAX_ORDER nel_hint m =
     (let sz = hashtab_compute_size nel_hint;
          h = \<lparr>ht_htable = [], ht_size = 0, ht_nel = 0\<rparr>
      in if sz \<noteq> 0
         then if is_order_out_of_range get_order MAX_ORDER sz then (Err ENOMEM, h, m)
              else case kalloc m of
                     (False, m') \<Rightarrow> (Err ENOMEM, h, m')
                   | (True, m') \<Rightarrow> (OK, h\<lparr>ht_htable := replicate (unat sz) [], ht_size := sz\<rparr>, m')
         else (OK, h, m))"

text \<open>
  \<open>__hashtab_insert\<close> allocates a node and links it in front of \<open>*dst\<close>, which is here the rest of
  the chain; the caller counts it.
\<close>

definition hashtab_link :: "('k \<times> 'd) list \<Rightarrow> 'k \<Rightarrow> 'd \<Rightarrow> mem \<Rightarrow> rc \<times> ('k \<times> 'd) list \<times> mem" where
  "hashtab_link dst key datum m =
     (case kalloc m of
        (False, m') \<Rightarrow> (Err ENOMEM, dst, m')
      | (True, m') \<Rightarrow> (OK, (key, datum) # dst, m'))"

fun hashtab_insert_chain ::
  "('k \<Rightarrow> 'k \<Rightarrow> int) \<Rightarrow> 'k \<Rightarrow> 'd \<Rightarrow> ('k \<times> 'd) list \<Rightarrow> mem \<Rightarrow> rc \<times> ('k \<times> 'd) list \<times> mem" where
  "hashtab_insert_chain cmp key datum [] m = hashtab_link [] key datum m"
| "hashtab_insert_chain cmp key datum (cur # rest) m =
     (let c = cmp key (fst cur)
      in if c = 0 then (Err EEXIST, cur # rest, m)
         else if c < 0 then hashtab_link (cur # rest) key datum m
         else case hashtab_insert_chain cmp key datum rest m of
                (rc, rest', m') \<Rightarrow> (rc, cur # rest', m'))"

definition hashtab_insert ::
  "('k \<Rightarrow> u32) \<Rightarrow> ('k \<Rightarrow> 'k \<Rightarrow> int) \<Rightarrow> ('k, 'd) hashtab \<Rightarrow> 'k \<Rightarrow> 'd \<Rightarrow> mem
     \<Rightarrow> rc \<times> ('k, 'd) hashtab \<times> mem" where
  "hashtab_insert hash cmp h key datum m =
     (if ht_size h = 0 \<or> ht_nel h = HASHTAB_MAX_NODES then (Err EINVAL, h, m)
      else let hvalue = unat (hash key AND (ht_size h - 1))
           in case hashtab_insert_chain cmp key datum (ht_htable h ! hvalue) m of
                (OK, chain, m') \<Rightarrow>
                  (OK, h\<lparr>ht_htable := (ht_htable h)[hvalue := chain], ht_nel := ht_nel h + 1\<rparr>, m')
              | (Err e, chain, m') \<Rightarrow> (Err e, h, m'))"

fun hashtab_search_chain :: "('k \<Rightarrow> 'k \<Rightarrow> int) \<Rightarrow> 'k \<Rightarrow> ('k \<times> 'd) list \<Rightarrow> 'd option" where
  "hashtab_search_chain cmp key [] = None"
| "hashtab_search_chain cmp key (cur # rest) =
     (let c = cmp key (fst cur)
      in if c = 0 then Some (snd cur)
         else if c < 0 then None
         else hashtab_search_chain cmp key rest)"

definition hashtab_search :: "('k \<Rightarrow> u32) \<Rightarrow> ('k \<Rightarrow> 'k \<Rightarrow> int) \<Rightarrow> ('k, 'd) hashtab \<Rightarrow> 'k \<Rightarrow> 'd option" where
  "hashtab_search hash cmp h key =
     (if ht_size h = 0 then None
      else hashtab_search_chain cmp key (ht_htable h ! unat (hash key AND (ht_size h - 1))))"

text \<open>The nodes in the order in which the loops over slots and chains reach them.\<close>

definition hashtab_nodes :: "('k, 'd) hashtab \<Rightarrow> ('k \<times> 'd) list" where
  "hashtab_nodes h = concat (map (\<lambda>i. ht_htable h ! i) [0..<unat (ht_size h)])"

text \<open>\<open>hashtab_map\<close>: the callback threads the state \<open>args\<close> points to and stops the walk when it fails.\<close>

fun hashtab_map_nodes :: "('k \<Rightarrow> 'd \<Rightarrow> 's \<Rightarrow> rc \<times> 's) \<Rightarrow> ('k \<times> 'd) list \<Rightarrow> 's \<Rightarrow> rc \<times> 's" where
  "hashtab_map_nodes apply_f [] args = (OK, args)"
| "hashtab_map_nodes apply_f (cur # rest) args =
     (case apply_f (fst cur) (snd cur) args of
        (Err e, args') \<Rightarrow> (Err e, args')
      | (OK, args') \<Rightarrow> hashtab_map_nodes apply_f rest args')"

definition hashtab_map :: "('k, 'd) hashtab \<Rightarrow> ('k \<Rightarrow> 'd \<Rightarrow> 's \<Rightarrow> rc \<times> 's) \<Rightarrow> 's \<Rightarrow> rc \<times> 's" where
  "hashtab_map h apply_f args = hashtab_map_nodes apply_f (hashtab_nodes h) args"

text \<open>\<open>hashtab_destroy\<close> frees the nodes and the array and leaves the number of slots as it is.\<close>

definition hashtab_destroy :: "('k, 'd) hashtab \<Rightarrow> ('k, 'd) hashtab" where
  "hashtab_destroy h = h\<lparr>ht_htable := []\<rparr>"

definition hashtab_stat :: "('k, 'd) hashtab \<Rightarrow> hashtab_info" where
  "hashtab_stat h =
     fold (\<lambda>i info.
         let chain = ht_htable h ! i; chain_len = of_nat (length chain)
         in if chain = [] then info
            else info\<lparr>slots_used := slots_used info + 1,
                      max_chain_len := (if chain_len > max_chain_len info then chain_len else max_chain_len info)\<rparr>)
       [0..<unat (ht_size h)] \<lparr>slots_used = 0, max_chain_len = 0\<rparr>"

text \<open>
  \<open>hashtab_duplicate\<close>: the callback copies one node, or fails. Every failure, of an allocation or
  of the callback, is reported as \<open>-ENOMEM\<close> with the new table destroyed.
\<close>

fun hashtab_dup_chain ::
  "('k \<times> 'd \<Rightarrow> mem \<Rightarrow> (errno + 'k \<times> 'd) \<times> mem) \<Rightarrow> ('k \<times> 'd) list \<Rightarrow> mem \<Rightarrow> ('k \<times> 'd) list option \<times> mem" where
  "hashtab_dup_chain copy [] m = (Some [], m)"
| "hashtab_dup_chain copy (cur # rest) m =
     (case kalloc m of
        (False, m') \<Rightarrow> (None, m')
      | (True, m') \<Rightarrow>
          (case copy cur m' of
             (Inl e, m'') \<Rightarrow> (None, m'')
           | (Inr tmp, m'') \<Rightarrow>
               (case hashtab_dup_chain copy rest m'' of
                  (None, m3) \<Rightarrow> (None, m3)
                | (Some chain, m3) \<Rightarrow> (Some (tmp # chain), m3))))"

fun hashtab_dup_slots ::
  "('k \<times> 'd \<Rightarrow> mem \<Rightarrow> (errno + 'k \<times> 'd) \<times> mem) \<Rightarrow> ('k \<times> 'd) list list \<Rightarrow> mem \<Rightarrow> ('k \<times> 'd) list list option \<times> mem" where
  "hashtab_dup_slots copy [] m = (Some [], m)"
| "hashtab_dup_slots copy (chain # slots) m =
     (case hashtab_dup_chain copy chain m of
        (None, m') \<Rightarrow> (None, m')
      | (Some chain', m') \<Rightarrow>
          (case hashtab_dup_slots copy slots m' of
             (None, m'') \<Rightarrow> (None, m'')
           | (Some slots', m'') \<Rightarrow> (Some (chain' # slots'), m'')))"

definition hashtab_duplicate ::
  "('k, 'd) hashtab \<Rightarrow> ('k \<times> 'd \<Rightarrow> mem \<Rightarrow> (errno + 'k \<times> 'd) \<times> mem) \<Rightarrow> mem \<Rightarrow> rc \<times> ('k, 'd) hashtab \<times> mem" where
  "hashtab_duplicate orig copy m =
     (let zero = \<lparr>ht_htable = [], ht_size = 0, ht_nel = 0\<rparr>
      in case kalloc m of
           (False, m') \<Rightarrow> (Err ENOMEM, zero, m')
         | (True, m') \<Rightarrow>
             (case hashtab_dup_slots copy (map (\<lambda>i. ht_htable orig ! i) [0..<unat (ht_size orig)]) m' of
                (None, m'') \<Rightarrow> (Err ENOMEM, zero, m'')
              | (Some slots, m'') \<Rightarrow>
                  (OK, \<lparr>ht_htable = slots, ht_size = ht_size orig, ht_nel = of_nat (length (concat slots))\<rparr>, m'')))"

section \<open>Correctness for keys with a linear order\<close>

locale hashtab_keys =
  fixes hash :: "'k \<Rightarrow> u32"
    and cmp :: "'k \<Rightarrow> 'k \<Rightarrow> int"
    and ok :: "'k \<Rightarrow> bool"
  assumes cmp_zero: "ok a \<Longrightarrow> ok b \<Longrightarrow> cmp a b = 0 \<longleftrightarrow> a = b"
    and cmp_flip: "ok a \<Longrightarrow> ok b \<Longrightarrow> cmp a b < 0 \<longleftrightarrow> cmp b a > 0"
    and cmp_trans: "ok a \<Longrightarrow> ok b \<Longrightarrow> ok c \<Longrightarrow> cmp a b < 0 \<Longrightarrow> cmp b c < 0 \<Longrightarrow> cmp a c < 0"
begin

definition chain_inv :: "('k \<times> 'd) list \<Rightarrow> bool" where
  "chain_inv chain \<longleftrightarrow> (\<forall>p \<in> set chain. ok (fst p)) \<and> sorted_wrt (\<lambda>p q. cmp (fst p) (fst q) < 0) chain"

definition inv :: "('k, 'd) hashtab \<Rightarrow> bool" where
  "inv h \<longleftrightarrow> length (ht_htable h) = unat (ht_size h) \<and>
     (\<forall>i < length (ht_htable h). chain_inv (ht_htable h ! i) \<and>
        (\<forall>p \<in> set (ht_htable h ! i). unat (hash (fst p) AND (ht_size h - 1)) = i)) \<and>
     unat (ht_nel h) = length (concat (ht_htable h))"

text \<open>The finite map a table stands for.\<close>

definition table :: "('k, 'd) hashtab \<Rightarrow> 'k \<Rightarrow> 'd option" where
  "table h key = (if ht_size h = 0 then None else map_of (ht_htable h ! unat (hash key AND (ht_size h - 1))) key)"

lemma chain_inv_Cons:
  "chain_inv (p # ps) \<longleftrightarrow> ok (fst p) \<and> (\<forall>q \<in> set ps. cmp (fst p) (fst q) < 0) \<and> chain_inv ps"
  by (auto simp: chain_inv_def)

lemma chain_inv_ok: "chain_inv ps \<Longrightarrow> p \<in> set ps \<Longrightarrow> ok (fst p)"
  by (simp add: chain_inv_def)

lemma search_chain: "chain_inv chain \<Longrightarrow> ok key \<Longrightarrow> hashtab_search_chain cmp key chain = map_of chain key"
proof (induction chain)
  case Nil
  then show ?case by simp
next
  case (Cons p ps)
  have okp: "ok (fst p)" and inv: "chain_inv ps" and lt: "\<forall>q \<in> set ps. cmp (fst p) (fst q) < 0"
    using Cons.prems(1) by (auto simp: chain_inv_Cons)
  have "map_of (p # ps) key = None" if "cmp key (fst p) < 0"
  proof -
    have "cmp key (fst q) < 0" if "q \<in> set ps" for q
      using cmp_trans [OF Cons.prems(2) okp chain_inv_ok [OF inv that]] lt that \<open>cmp key (fst p) < 0\<close> by blast
    then have "key \<notin> fst ` set (p # ps)"
      using that Cons.prems(2) okp inv cmp_zero [of key] chain_inv_ok by force
    then show ?thesis by (simp add: map_of_eq_None_iff)
  qed
  then show ?case
    using Cons.IH [OF inv Cons.prems(2)] cmp_zero [OF Cons.prems(2) okp] by (auto simp: Let_def)
qed

lemma insert_chain_exists:
  assumes "chain_inv chain" "ok key" "map_of chain key = Some d"
  shows "hashtab_insert_chain cmp key datum chain m = (Err EEXIST, chain, m)"
  using assms
proof (induction chain)
  case Nil
  then show ?case by simp
next
  case (Cons p ps)
  have "hashtab_search_chain cmp key (p # ps) = Some d"
    using search_chain [OF Cons.prems(1,2)] Cons.prems(3) by simp
  then show ?case
    using Cons cmp_zero [of key "fst p"] by (auto simp: chain_inv_Cons Let_def split: if_splits)
qed

lemma insert_chain_new:
  assumes "chain_inv chain" "ok key" "map_of chain key = None"
  shows "hashtab_insert_chain cmp key datum chain m =
    (case kalloc m of
       (False, m') \<Rightarrow> (Err ENOMEM, chain, m')
     | (True, m') \<Rightarrow>
        (OK, takeWhile (\<lambda>p. cmp key (fst p) > 0) chain @ (key, datum) # dropWhile (\<lambda>p. cmp key (fst p) > 0) chain, m'))"
  using assms
proof (induction chain)
  case Nil
  then show ?case by (simp add: hashtab_link_def split: prod.split bool.split)
next
  case (Cons p ps)
  then show ?case
    using cmp_zero [of key "fst p"]
    by (auto simp: hashtab_link_def chain_inv_Cons Let_def split: if_splits prod.splits bool.splits)
qed

lemma chain_inv_insert:
  assumes "chain_inv chain" "ok key" "map_of chain key = None"
  shows "chain_inv (takeWhile (\<lambda>p. cmp key (fst p) > 0) chain @ (key, datum) # dropWhile (\<lambda>p. cmp key (fst p) > 0) chain)"
  using assms
proof (induction chain)
  case Nil
  then show ?case by (simp add: chain_inv_def)
next
  case (Cons p ps)
  have okp: "ok (fst p)" and inv: "chain_inv ps" and lt: "\<And>q. q \<in> set ps \<Longrightarrow> cmp (fst p) (fst q) < 0"
    using Cons.prems(1) by (auto simp: chain_inv_Cons)
  have ne: "fst p \<noteq> key" and none: "map_of ps key = None"
    using Cons.prems(3) by (auto split: if_splits)
  show ?case
  proof (cases "cmp key (fst p) > 0")
    case True
    then have "cmp (fst p) key < 0"
      using cmp_flip [OF okp Cons.prems(2)] by simp
    moreover have "q \<in> set ps" if "q \<in> set (takeWhile P ps) \<or> q \<in> set (dropWhile P ps)" for q P
      using that set_takeWhileD set_dropWhileD by metis
    ultimately show ?thesis
      using True Cons.IH [OF inv Cons.prems(2) none] okp lt by (auto simp: chain_inv_Cons)
  next
    case False
    then have "cmp key (fst p) < 0"
      using cmp_zero [OF Cons.prems(2) okp] ne by force
    moreover have "cmp key (fst q) < 0" if "q \<in> set ps" for q
      using cmp_trans [OF Cons.prems(2) okp chain_inv_ok [OF inv that] calculation] lt that by blast
    ultimately show ?thesis
      using False Cons.prems okp lt inv by (auto simp: chain_inv_Cons)
  qed
qed

lemma map_of_insert_chain:
  assumes "map_of chain key = None"
  shows "map_of (takeWhile P chain @ (key, datum) # dropWhile P chain) = (map_of chain)(key \<mapsto> datum)"
proof -
  have "map_of chain = map_of (dropWhile P chain) ++ map_of (takeWhile P chain)"
    by (metis map_of_append takeWhile_dropWhile_id)
  moreover have "map_of (takeWhile P chain) key = None"
    using assms by (auto simp: map_of_eq_None_iff dest: set_takeWhileD)
  ultimately show ?thesis
    by (auto simp: fun_eq_iff map_add_def split: option.split)
qed

lemma slot_less:
  assumes "ht_size h \<noteq> 0"
  shows "unat (w AND (ht_size h - 1)) < unat (ht_size h)"
proof -
  have "w AND (ht_size h - 1) \<le> ht_size h - 1"
    by (rule word_and_le1)
  also have "\<dots> < ht_size h"
    using assms by (simp add: word_less_nat_alt unat_minus_one unat_gt_0)
  finally show ?thesis by (simp add: word_less_nat_alt)
qed

theorem search_table:
  assumes "inv h" "ok key"
  shows "hashtab_search hash cmp h key = table h key"
  using assms slot_less [of h "hash key"] by (auto simp: hashtab_search_def table_def inv_def search_chain)

lemma length_concat_update:
  assumes "i < length xss"
  shows "length (concat (xss[i := ys])) + length (xss ! i) = length (concat xss) + length ys"
  using assms by (induction xss arbitrary: i) (auto split: nat.split)

lemma insert_full:
  assumes "ht_size h = 0 \<or> ht_nel h = HASHTAB_MAX_NODES"
  shows "hashtab_insert hash cmp h key datum m = (Err EINVAL, h, m)"
  using assms by (simp add: hashtab_insert_def)

lemma insert_exists:
  assumes "inv h" "ok key" "table h key = Some d" "ht_nel h \<noteq> HASHTAB_MAX_NODES"
  shows "hashtab_insert hash cmp h key datum m = (Err EEXIST, h, m)"
proof -
  have sz: "ht_size h \<noteq> 0"
    using assms(3) by (auto simp: table_def)
  let ?i = "unat (hash key AND (ht_size h - 1))"
  have "hashtab_insert_chain cmp key datum (ht_htable h ! ?i) m = (Err EEXIST, ht_htable h ! ?i, m)"
    using assms slot_less [OF sz, of "hash key"] sz
    by (intro insert_chain_exists) (auto simp: inv_def table_def)
  then show ?thesis
    using sz assms(4) by (simp add: hashtab_insert_def Let_def)
qed

text \<open>
  Insertion of a key that is not there: it fails only for lack of memory, and then changes
  nothing; otherwise the table is the old one with the new binding, and well formed.
\<close>

lemma insert_new:
  assumes "inv h" "ok key" "table h key = None" "ht_size h \<noteq> 0" "ht_nel h \<noteq> HASHTAB_MAX_NODES"
    "hashtab_insert hash cmp h key datum m = (rc, h', m')"
  shows "rc = OK \<and> inv h' \<and> table h' = (table h)(key \<mapsto> datum) \<and> unat (ht_nel h') = unat (ht_nel h) + 1
      \<and> ht_size h' = ht_size h
    \<or> rc = Err ENOMEM \<and> h' = h \<and> fst (kalloc m) = False"
proof -
  let ?i = "unat (hash key AND (ht_size h - 1))" and ?P = "\<lambda>p. cmp key (fst p) > 0"
  let ?c = "ht_htable h ! ?i"
  define c' where "c' = takeWhile ?P ?c @ (key, datum) # dropWhile ?P ?c"
  have i: "?i < length (ht_htable h)"
    using assms(1) slot_less [OF assms(4), of "hash key"] by (simp add: inv_def)
  have c: "chain_inv ?c" "map_of ?c key = None"
    using assms(1,3,4) i by (auto simp: inv_def table_def)
  have chain: "hashtab_insert_chain cmp key datum ?c m =
    (case kalloc m of (False, m') \<Rightarrow> (Err ENOMEM, ?c, m') | (True, m') \<Rightarrow> (OK, c', m'))"
    unfolding c'_def by (rule insert_chain_new [OF c(1) assms(2) c(2)])
  obtain b m1 where m1: "kalloc m = (b, m1)" by fastforce
  show ?thesis
  proof (cases b)
    case False
    then show ?thesis
      using assms(4-6) chain m1 by (simp add: hashtab_insert_def Let_def)
  next
    case True
    then have h': "rc = OK" "h' = h\<lparr>ht_htable := (ht_htable h)[?i := c'], ht_nel := ht_nel h + 1\<rparr>"
      using assms(4-6) chain m1 by (auto simp: hashtab_insert_def Let_def)
    have nel: "unat (ht_nel h + 1) = unat (ht_nel h) + 1"
      using assms(5) by (simp add: HASHTAB_MAX_NODES_def unat_plus_one_u32)
    have set_c': "set c' = insert (key, datum) (set ?c)"
      using set_append [of "takeWhile ?P ?c" "dropWhile ?P ?c"] by (simp add: c'_def)
    have len: "length c' = length ?c + 1"
      using length_append [of "takeWhile ?P ?c" "dropWhile ?P ?c"] by (simp add: c'_def)
    have "chain_inv c'"
      unfolding c'_def by (rule chain_inv_insert [OF c(1) assms(2) c(2)])
    moreover have "length (concat ((ht_htable h)[?i := c'])) = unat (ht_nel h) + 1"
      using length_concat_update [OF i, of c'] len assms(1) by (simp add: inv_def)
    ultimately have "inv h'"
      using assms(1) i nel set_c' by (auto simp: inv_def h'(2) nth_list_update)
    moreover have "map_of c' = (map_of ?c)(key \<mapsto> datum)"
      unfolding c'_def by (rule map_of_insert_chain [OF c(2)])
    then have "table h' = (table h)(key \<mapsto> datum)"
      using i assms(4) by (auto simp: table_def h'(2) fun_eq_iff nth_list_update)
    ultimately show ?thesis
      using h' nel by simp
  qed
qed

end

section \<open>Symbol tables\<close>

text \<open>
  A C string is the list of its characters before the terminating null. The kernel is built with
  unsigned characters.
\<close>

record 'd symtab =
  st_table :: "(string, 'd) hashtab"
  st_nprim :: u32

definition symhash :: "string \<Rightarrow> u32" where
  "symhash key = foldl (\<lambda>val c. (push_bit 4 val OR drop_bit 28 val) XOR of_char c) 0 key"

fun strcmp :: "string \<Rightarrow> string \<Rightarrow> int" where
  "strcmp [] [] = 0"
| "strcmp [] (d # ds) = -1"
| "strcmp (c # cs) [] = 1"
| "strcmp (c # cs) (d # ds) =
     (if c \<noteq> d then if (of_char c :: nat) < of_char d then -1 else 1 else strcmp cs ds)"

definition symcmp :: "string \<Rightarrow> string \<Rightarrow> int" where
  "symcmp key1 key2 = strcmp key1 key2"

definition symtab_init :: "(nat \<Rightarrow> nat) \<Rightarrow> nat \<Rightarrow> u32 \<Rightarrow> mem \<Rightarrow> rc \<times> 'd symtab \<times> mem" where
  "symtab_init get_order MAX_ORDER sz m =
     (case hashtab_init get_order MAX_ORDER sz m of
        (rc, h, m') \<Rightarrow> (rc, \<lparr>st_table = h, st_nprim = 0\<rparr>, m'))"

definition symtab_insert :: "'d symtab \<Rightarrow> string \<Rightarrow> 'd \<Rightarrow> mem \<Rightarrow> rc \<times> 'd symtab \<times> mem" where
  "symtab_insert s name datum m =
     (case hashtab_insert symhash symcmp (st_table s) name datum m of
        (rc, h, m') \<Rightarrow> (rc, s\<lparr>st_table := h\<rparr>, m'))"

definition symtab_search :: "'d symtab \<Rightarrow> string \<Rightarrow> 'd option" where
  "symtab_search s name = hashtab_search symhash symcmp (st_table s) name"

lemma strcmp_zero: "strcmp a b = 0 \<longleftrightarrow> a = b"
  by (induction a b rule: strcmp.induct) auto

lemma of_char_nat_less: "c \<noteq> d \<Longrightarrow> \<not> (of_char c :: nat) < of_char d \<Longrightarrow> (of_char d :: nat) < of_char c"
  by (metis char_of_char linorder_neqE_nat)

lemma strcmp_flip: "strcmp a b < 0 \<longleftrightarrow> strcmp b a > 0"
  by (induction a b rule: strcmp.induct) (auto dest: of_char_nat_less)

lemma strcmp_trans: "strcmp a b < 0 \<Longrightarrow> strcmp b c < 0 \<Longrightarrow> strcmp a c < 0"
proof (induction a b arbitrary: c rule: strcmp.induct)
  case (2 d ds)
  then show ?case by (cases c) auto
next
  case (4 x xs y ys)
  then show ?case by (cases c) (auto split: if_splits)
qed auto

interpretation sym: hashtab_keys symhash symcmp "\<lambda>_. True"
  by (unfold_locales, unfold symcmp_def) (rule strcmp_zero strcmp_flip | erule (1) strcmp_trans)+

text \<open>
  The map from names to data of a symbol table.
\<close>

definition symtab_map :: "'d symtab \<Rightarrow> string \<Rightarrow> 'd option" where
  "symtab_map s = sym.table (st_table s)"

definition symtab_ok :: "'d symtab \<Rightarrow> bool" where
  "symtab_ok s \<longleftrightarrow> sym.inv (st_table s)"

lemma symtab_search_map: "symtab_ok s \<Longrightarrow> symtab_search s name = symtab_map s name"
  by (simp add: symtab_search_def symtab_map_def symtab_ok_def sym.search_table)

section \<open>Properties\<close>

text \<open>
  Symbol tables are finite maps: insertion of a new name into a table with room either binds it,
  leaves every other name as it was and keeps the table well formed, or reports the lack of memory
  and changes nothing.
\<close>

lemma symtab_insert_search:
  assumes "symtab_ok s" "symtab_search s name = None" "ht_size (st_table s) \<noteq> 0"
    "ht_nel (st_table s) \<noteq> HASHTAB_MAX_NODES" "symtab_insert s name datum m = (rc, s', m')"
  shows "rc = OK \<and> symtab_ok s' \<and> (\<forall>n. symtab_search s' n = (if n = name then Some datum else symtab_search s n))
    \<or> rc = Err ENOMEM \<and> s' = s \<and> \<not> ample m"
proof -
  obtain h' where h': "hashtab_insert symhash symcmp (st_table s) name datum m = (rc, h', m')" "s' = s\<lparr>st_table := h'\<rparr>"
    using assms(5) by (auto simp: symtab_insert_def split: prod.splits)
  have "sym.table (st_table s) name = None" and ok: "sym.inv (st_table s)"
    using assms(1,2) by (simp_all add: symtab_search_map symtab_map_def symtab_ok_def)
  then have "rc = OK \<and> sym.inv h' \<and> sym.table h' = (sym.table (st_table s))(name \<mapsto> datum)
      \<or> rc = Err ENOMEM \<and> h' = st_table s \<and> fst (kalloc m) = False"
    using sym.insert_new [OF ok _ _ assms(3,4) h'(1)] by auto
  then show ?thesis
    using assms(1) h'(2) ample_kalloc [of m] by (auto simp: symtab_search_map symtab_map_def symtab_ok_def)
qed

text \<open>Insertion of a name that is bound already is refused with \<open>EEXIST\<close> and changes nothing.\<close>

lemma symtab_insert_exists:
  assumes "symtab_ok s" "symtab_search s name = Some d" "ht_nel (st_table s) \<noteq> HASHTAB_MAX_NODES"
  shows "symtab_insert s name datum m = (Err EEXIST, s, m)"
proof -
  have "sym.inv (st_table s)" "sym.table (st_table s) name = Some d"
    using assms(1,2) by (simp_all add: symtab_search_map symtab_map_def symtab_ok_def)
  then show ?thesis
    using sym.insert_exists [OF _ _ _ assms(3)] by (simp add: symtab_insert_def)
qed

end
