(* ===== verification/Context.thy ===== *)
theory Context
  imports Ebitmap Hashtab
begin

text \<open>
  MLS levels and ranges (\<open>ss/mls_types.h\<close>) and security contexts (\<open>ss/context.h\<close>,
  \<open>ss/context.c\<close>, the hash functions of \<open>ss/ebitmap.c\<close> and \<open>ss/mls.h\<close>). The array \<open>level[2]\<close> of
  a range is the two fields \<open>level0\<close> (low) and \<open>level1\<close> (high).

  The locale \<open>mls_order\<close> is the interface between levels and category sets; its interpretation on
  the extensible bitmap makes \<open>mls_level_dom\<close> a partial order on the levels with canonical
  category sets.
\<close>

section \<open>Levels and ranges\<close>

record mls_level =
  lvl_sens :: u32
  lvl_cat :: ebitmap

record mls_range =
  level0 :: mls_level
  level1 :: mls_level

definition mls_level_eq :: "mls_level \<Rightarrow> mls_level \<Rightarrow> bool" where
  "mls_level_eq l1 l2 \<longleftrightarrow> lvl_sens l1 = lvl_sens l2 \<and> ebitmap_cmp (lvl_cat l1) (lvl_cat l2)"

definition mls_level_dom :: "mls_level \<Rightarrow> mls_level \<Rightarrow> bool" where
  "mls_level_dom l1 l2 \<longleftrightarrow> lvl_sens l1 \<ge> lvl_sens l2 \<and> ebitmap_contains (lvl_cat l1) (lvl_cat l2) 0"

definition mls_level_incomp :: "mls_level \<Rightarrow> mls_level \<Rightarrow> bool" where
  "mls_level_incomp l1 l2 \<longleftrightarrow> \<not> mls_level_dom l1 l2 \<and> \<not> mls_level_dom l2 l1"

definition mls_level_between :: "mls_level \<Rightarrow> mls_level \<Rightarrow> mls_level \<Rightarrow> bool" where
  "mls_level_between l1 l2 l3 \<longleftrightarrow> mls_level_dom l1 l2 \<and> mls_level_dom l3 l1"

definition mls_range_contains :: "mls_range \<Rightarrow> mls_range \<Rightarrow> bool" where
  "mls_range_contains r1 r2 \<longleftrightarrow>
     mls_level_dom (level0 r2) (level0 r1) \<and> mls_level_dom (level1 r1) (level1 r2)"

section \<open>Contexts\<close>

record "context" =
  ctx_user :: u32
  ctx_role :: u32
  ctx_type :: u32
  ctx_len :: u32
  ctx_range :: mls_range
  ctx_str :: "string option"

definition level_init :: mls_level where
  "level_init = \<lparr>lvl_sens = 0, lvl_cat = ebitmap_init\<rparr>"

definition mls_context_init :: "context \<Rightarrow> context" where
  "mls_context_init c = c\<lparr>ctx_range := \<lparr>level0 = level_init, level1 = level_init\<rparr>\<rparr>"

definition context_init :: "context" where
  "context_init = \<lparr>ctx_user = 0, ctx_role = 0, ctx_type = 0, ctx_len = 0,
     ctx_range = \<lparr>level0 = level_init, level1 = level_init\<rparr>, ctx_str = None\<rparr>"

text \<open>
  The three copies of the MLS fields differ in which levels of the source they read. The bitmap of
  the destination is overwritten: \<open>ebitmap_cpy\<close> returns it whether it succeeds or not.
\<close>

definition set_level0 :: "mls_level \<Rightarrow> context \<Rightarrow> context" where
  "set_level0 l c = c\<lparr>ctx_range := (ctx_range c)\<lparr>level0 := l\<rparr>\<rparr>"

definition set_level1 :: "mls_level \<Rightarrow> context \<Rightarrow> context" where
  "set_level1 l c = c\<lparr>ctx_range := (ctx_range c)\<lparr>level1 := l\<rparr>\<rparr>"

definition mls_levels_cpy :: "context \<Rightarrow> mls_level \<Rightarrow> mls_level \<Rightarrow> mem \<Rightarrow> rc \<times> context \<times> mem" where
  "mls_levels_cpy dst low high m =
     (case ebitmap_cpy (lvl_cat low) m of
        (Err e, cat0, m') \<Rightarrow> (Err e, set_level0 \<lparr>lvl_sens = lvl_sens low, lvl_cat = cat0\<rparr> dst, m')
      | (OK, cat0, m') \<Rightarrow>
          (case ebitmap_cpy (lvl_cat high) m' of
             (Err e, cat1, m'') \<Rightarrow>
               (Err e, set_level1 \<lparr>lvl_sens = lvl_sens high, lvl_cat = cat1\<rparr>
                         (set_level0 \<lparr>lvl_sens = lvl_sens low, lvl_cat = ebitmap_destroy cat0\<rparr> dst), m'')
           | (OK, cat1, m'') \<Rightarrow>
               (OK, set_level1 \<lparr>lvl_sens = lvl_sens high, lvl_cat = cat1\<rparr>
                      (set_level0 \<lparr>lvl_sens = lvl_sens low, lvl_cat = cat0\<rparr> dst), m'')))"

definition mls_context_cpy :: "context \<Rightarrow> context \<Rightarrow> mem \<Rightarrow> rc \<times> context \<times> mem" where
  "mls_context_cpy dst src m = mls_levels_cpy dst (level0 (ctx_range src)) (level1 (ctx_range src)) m"

definition mls_context_cpy_low :: "context \<Rightarrow> context \<Rightarrow> mem \<Rightarrow> rc \<times> context \<times> mem" where
  "mls_context_cpy_low dst src m = mls_levels_cpy dst (level0 (ctx_range src)) (level0 (ctx_range src)) m"

definition mls_context_cpy_high :: "context \<Rightarrow> context \<Rightarrow> mem \<Rightarrow> rc \<times> context \<times> mem" where
  "mls_context_cpy_high dst src m = mls_levels_cpy dst (level1 (ctx_range src)) (level1 (ctx_range src)) m"

definition mls_context_glblub :: "context \<Rightarrow> context \<Rightarrow> context \<Rightarrow> mem \<Rightarrow> rc \<times> context \<times> mem" where
  "mls_context_glblub dst c1 c2 m =
     (let r1 = ctx_range c1; r2 = ctx_range c2
      in if lvl_sens (level1 r1) < lvl_sens (level0 r2) \<or> lvl_sens (level1 r2) < lvl_sens (level0 r1)
         then (Err EINVAL, dst, m)
         else let low = max (lvl_sens (level0 r1)) (lvl_sens (level0 r2));
                  high = min (lvl_sens (level1 r1)) (lvl_sens (level1 r2))
              in case ebitmap_and (lvl_cat (level0 r1)) (lvl_cat (level0 r2)) m of
                   (Err e, cat0, m') \<Rightarrow>
                     (Err e, set_level1 ((level1 (ctx_range dst))\<lparr>lvl_sens := high\<rparr>)
                               (set_level0 \<lparr>lvl_sens = low, lvl_cat = cat0\<rparr> dst), m')
                 | (OK, cat0, m') \<Rightarrow>
                     (case ebitmap_and (lvl_cat (level1 r1)) (lvl_cat (level1 r2)) m' of
                        (rc, cat1, m'') \<Rightarrow>
                          (rc, set_level1 \<lparr>lvl_sens = high, lvl_cat = cat1\<rparr>
                                 (set_level0 \<lparr>lvl_sens = low, lvl_cat = cat0\<rparr> dst), m'')))"

definition mls_context_cmp :: "context \<Rightarrow> context \<Rightarrow> bool" where
  "mls_context_cmp c1 c2 \<longleftrightarrow>
     lvl_sens (level0 (ctx_range c1)) = lvl_sens (level0 (ctx_range c2)) \<and>
     ebitmap_cmp (lvl_cat (level0 (ctx_range c1))) (lvl_cat (level0 (ctx_range c2))) \<and>
     lvl_sens (level1 (ctx_range c1)) = lvl_sens (level1 (ctx_range c2)) \<and>
     ebitmap_cmp (lvl_cat (level1 (ctx_range c1))) (lvl_cat (level1 (ctx_range c2)))"

definition mls_context_destroy :: "context \<Rightarrow> context" where
  "mls_context_destroy c =
     mls_context_init
       (set_level1 ((level1 (ctx_range c))\<lparr>lvl_cat := ebitmap_destroy (lvl_cat (level1 (ctx_range c)))\<rparr>)
         (set_level0 ((level0 (ctx_range c))\<lparr>lvl_cat := ebitmap_destroy (lvl_cat (level0 (ctx_range c)))\<rparr>) c))"

text \<open>\<open>context_cpy\<close>: the duplicate of the string is one allocation.\<close>

definition context_cpy :: "context \<Rightarrow> context \<Rightarrow> mem \<Rightarrow> rc \<times> context \<times> mem" where
  "context_cpy dst src m =
     (let dst1 = dst\<lparr>ctx_user := ctx_user src, ctx_role := ctx_role src, ctx_type := ctx_type src\<rparr>;
          cpy_range = (\<lambda>d m. case mls_context_cpy d src m of
              (Err e, d', m') \<Rightarrow> (Err e, d'\<lparr>ctx_str := None, ctx_len := 0\<rparr>, m')
            | (OK, d', m') \<Rightarrow> (OK, d', m'))
      in case ctx_str src of
           Some str \<Rightarrow>
             (case kalloc m of
                (False, m') \<Rightarrow> (Err ENOMEM, dst1\<lparr>ctx_str := None\<rparr>, m')
              | (True, m') \<Rightarrow> cpy_range (dst1\<lparr>ctx_str := Some str, ctx_len := ctx_len src\<rparr>) m')
         | None \<Rightarrow> cpy_range (dst1\<lparr>ctx_str := None, ctx_len := 0\<rparr>) m)"

definition context_destroy :: "context \<Rightarrow> context" where
  "context_destroy c =
     mls_context_destroy (c\<lparr>ctx_user := 0, ctx_role := 0, ctx_type := 0, ctx_str := None, ctx_len := 0\<rparr>)"

text \<open>
  \<open>context_cmp\<close>: the strings of contexts with a length are compared. A context with a length and
  no string does not occur; \<open>strcmp\<close> would fault on it.
\<close>

definition context_cmp :: "context \<Rightarrow> context \<Rightarrow> bool" where
  "context_cmp c1 c2 =
     (if ctx_len c1 \<noteq> 0 \<and> ctx_len c2 \<noteq> 0
      then ctx_len c1 = ctx_len c2 \<and>
           (case (ctx_str c1, ctx_str c2) of (Some s1, Some s2) \<Rightarrow> strcmp s1 s2 = 0 | _ \<Rightarrow> False)
      else if ctx_len c1 \<noteq> 0 \<or> ctx_len c2 \<noteq> 0 then False
      else ctx_user c1 = ctx_user c2 \<and> ctx_role c1 = ctx_role c2 \<and> ctx_type c1 = ctx_type c2
           \<and> mls_context_cmp c1 c2)"

section \<open>Hashing of contexts\<close>

text \<open>The kernel's hash functions are parameters.\<close>

record hash_fns =
  jhash_1word :: "u32 \<Rightarrow> u32 \<Rightarrow> u32"
  jhash_2words :: "u32 \<Rightarrow> u32 \<Rightarrow> u32 \<Rightarrow> u32"
  jhash_3words :: "u32 \<Rightarrow> u32 \<Rightarrow> u32 \<Rightarrow> u32 \<Rightarrow> u32"
  jhash :: "u64 list \<Rightarrow> u32 \<Rightarrow> u32"
  full_name_hash :: "string \<Rightarrow> u32 \<Rightarrow> u32"

definition ebitmap_hash :: "hash_fns \<Rightarrow> ebitmap \<Rightarrow> u32 \<Rightarrow> u32" where
  "ebitmap_hash H e hash =
     fold (\<lambda>n h. jhash H (en_maps n) (jhash_1word H (en_startbit n) h)) (eb_node e)
       (jhash_1word H (eb_highbit e) hash)"

definition mls_range_hash :: "hash_fns \<Rightarrow> mls_range \<Rightarrow> u32 \<Rightarrow> u32" where
  "mls_range_hash H r hash =
     ebitmap_hash H (lvl_cat (level1 r))
       (ebitmap_hash H (lvl_cat (level0 r)) (jhash_2words H (lvl_sens (level0 r)) (lvl_sens (level1 r)) hash))"

definition context_compute_hash :: "hash_fns \<Rightarrow> context \<Rightarrow> u32" where
  "context_compute_hash H c =
     (if ctx_len c \<noteq> 0
      then full_name_hash H (case ctx_str c of Some s \<Rightarrow> s | None \<Rightarrow> []) (ctx_len c)
      else mls_range_hash H (ctx_range c) (jhash_3words H (ctx_user c) (ctx_role c) (ctx_type c) 0))"

section \<open>The order of levels\<close>

text \<open>
  What the order of levels relies on of category sets: containment and comparison decide inclusion
  and equality of the sets they stand for.
\<close>

locale mls_order =
  fixes cat_ok :: "'c \<Rightarrow> bool"
    and cat_bits :: "'c \<Rightarrow> nat set"
    and cat_contains :: "'c \<Rightarrow> 'c \<Rightarrow> bool"
    and cat_eq :: "'c \<Rightarrow> 'c \<Rightarrow> bool"
  assumes contains_iff: "cat_ok a \<Longrightarrow> cat_ok b \<Longrightarrow> cat_contains a b \<longleftrightarrow> cat_bits b \<subseteq> cat_bits a"
    and eq_iff: "cat_ok a \<Longrightarrow> cat_ok b \<Longrightarrow> cat_eq a b \<longleftrightarrow> cat_bits a = cat_bits b"
begin

definition dom :: "u32 \<Rightarrow> 'c \<Rightarrow> u32 \<Rightarrow> 'c \<Rightarrow> bool" where
  "dom s1 a s2 b \<longleftrightarrow> s2 \<le> s1 \<and> cat_contains a b"

lemma dom_refl: "cat_ok a \<Longrightarrow> dom s a s a"
  by (simp add: dom_def contains_iff)

lemma dom_trans:
  "cat_ok a \<Longrightarrow> cat_ok b \<Longrightarrow> cat_ok c \<Longrightarrow> dom s1 a s2 b \<Longrightarrow> dom s2 b s3 c \<Longrightarrow> dom s1 a s3 c"
  by (auto simp: dom_def contains_iff)

lemma dom_antisym:
  "cat_ok a \<Longrightarrow> cat_ok b \<Longrightarrow> dom s1 a s2 b \<and> dom s2 b s1 a \<longleftrightarrow> s1 = s2 \<and> cat_eq a b"
  by (auto simp: dom_def contains_iff eq_iff)

end

interpretation lvl: mls_order ebitmap_canon ebitmap_bits "\<lambda>a b. ebitmap_contains a b 0" ebitmap_cmp
  by unfold_locales (simp_all add: ebitmap_contains_correct ebitmap_canon_wf ebitmap_cmp_correct)

definition level_canon :: "mls_level \<Rightarrow> bool" where
  "level_canon l \<longleftrightarrow> ebitmap_canon (lvl_cat l)"

definition range_canon :: "mls_range \<Rightarrow> bool" where
  "range_canon r \<longleftrightarrow> level_canon (level0 r) \<and> level_canon (level1 r)"

definition cats :: "mls_level \<Rightarrow> nat set" where
  "cats l = ebitmap_bits (lvl_cat l)"

lemma mls_level_dom_lvl:
  "mls_level_dom l1 l2 \<longleftrightarrow> lvl.dom (lvl_sens l1) (lvl_cat l1) (lvl_sens l2) (lvl_cat l2)"
  by (simp add: mls_level_dom_def lvl.dom_def)

lemma mls_level_dom_iff:
  "level_canon l1 \<Longrightarrow> level_canon l2 \<Longrightarrow>
    mls_level_dom l1 l2 \<longleftrightarrow> lvl_sens l2 \<le> lvl_sens l1 \<and> cats l2 \<subseteq> cats l1"
  by (simp add: mls_level_dom_def level_canon_def cats_def lvl.contains_iff)

lemma mls_level_eq_iff: "mls_level_eq l1 l2 \<longleftrightarrow> l1 = l2"
  by (auto simp: mls_level_eq_def ebitmap_cmp_eq)

lemma mls_level_dom_refl: "level_canon l \<Longrightarrow> mls_level_dom l l"
  by (simp add: mls_level_dom_lvl level_canon_def lvl.dom_refl)

lemma mls_level_dom_trans:
  "level_canon l1 \<Longrightarrow> level_canon l2 \<Longrightarrow> level_canon l3 \<Longrightarrow>
    mls_level_dom l1 l2 \<Longrightarrow> mls_level_dom l2 l3 \<Longrightarrow> mls_level_dom l1 l3"
  unfolding mls_level_dom_lvl level_canon_def by (rule lvl.dom_trans)

lemma mls_level_dom_antisym:
  "level_canon l1 \<Longrightarrow> level_canon l2 \<Longrightarrow> mls_level_dom l1 l2 \<and> mls_level_dom l2 l1 \<longleftrightarrow> mls_level_eq l1 l2"
  using lvl.dom_antisym by (simp add: mls_level_dom_lvl level_canon_def mls_level_eq_def)

lemma mls_range_contains_trans:
  assumes "range_canon r1" "range_canon r2" "range_canon r3"
    "mls_range_contains r1 r2" "mls_range_contains r2 r3"
  shows "mls_range_contains r1 r3"
  using assms mls_level_dom_trans unfolding mls_range_contains_def range_canon_def by blast

section \<open>Copies, comparison and hash agree\<close>

lemma mls_level_eta [simp]: "\<lparr>lvl_sens = lvl_sens l, lvl_cat = lvl_cat l\<rparr> = l"
  by simp

lemma levels_cpy_ok:
  "mls_levels_cpy dst low high m = (OK, dst', m') \<Longrightarrow> dst' = set_level1 high (set_level0 low dst)"
  by (auto simp: mls_levels_cpy_def split: prod.splits option.splits dest!: ebitmap_cpy_ok)

lemma levels_cpy_fail: "mls_levels_cpy dst low high m = (Err e, dst', m') \<Longrightarrow> e = ENOMEM"
  by (auto simp: mls_levels_cpy_def split: prod.splits option.splits dest!: ebitmap_cpy_fail)

lemma levels_cpy_ample:
  assumes "ample m"
  shows "\<exists>m'. mls_levels_cpy dst low high m = (OK, set_level1 high (set_level0 low dst), m') \<and> ample m'"
proof -
  obtain m1 where m1: "ebitmap_cpy (lvl_cat low) m = (OK, lvl_cat low, m1)" "ample m1"
    using ebitmap_cpy_ample [OF assms] by blast
  obtain m2 where "ebitmap_cpy (lvl_cat high) m1 = (OK, lvl_cat high, m2)" "ample m2"
    using ebitmap_cpy_ample [OF m1(2)] by blast
  with m1 show ?thesis by (simp add: mls_levels_cpy_def)
qed

text \<open>A context carries a string exactly when it carries a length.\<close>

definition context_str_ok :: "context \<Rightarrow> bool" where
  "context_str_ok c \<longleftrightarrow> (ctx_len c \<noteq> 0 \<longleftrightarrow> ctx_str c \<noteq> None)"

lemma context_cpy_ok:
  assumes "context_cpy dst src m = (OK, dst', m')" "context_str_ok src"
  shows "dst' = src"
proof -
  have r: "set_level1 (level1 (ctx_range src)) (set_level0 (level0 (ctx_range src)) c) = c\<lparr>ctx_range := ctx_range src\<rparr>" for c
    by (simp add: set_level0_def set_level1_def)
  show ?thesis
    using assms
    by (auto simp: context_cpy_def mls_context_cpy_def context_str_ok_def Let_def r
        split: option.splits prod.splits bool.splits dest!: levels_cpy_ok)
qed

lemma context_cpy_fail: "context_cpy dst src m = (Err e, dst', m') \<Longrightarrow> e = ENOMEM"
  by (auto simp: context_cpy_def mls_context_cpy_def Let_def split: option.splits prod.splits bool.splits
      dest!: levels_cpy_fail)

lemma context_cmp_refl: "context_str_ok c \<Longrightarrow> context_cmp c c"
  by (auto simp: context_cmp_def context_str_ok_def mls_context_cmp_def ebitmap_cmp_eq strcmp_zero)

lemma context_cmp_sym: "context_cmp c1 c2 \<longleftrightarrow> context_cmp c2 c1"
  by (auto simp: context_cmp_def mls_context_cmp_def ebitmap_cmp_eq strcmp_zero split: option.splits)

lemma context_cmp_trans: "context_cmp c1 c2 \<Longrightarrow> context_cmp c2 c3 \<Longrightarrow> context_cmp c1 c3"
  by (auto simp: context_cmp_def mls_context_cmp_def ebitmap_cmp_eq strcmp_zero split: option.splits if_splits)

text \<open>
  Contexts that \<open>context_cmp\<close> takes for equal have the same hash, whatever the kernel's hash
  functions are.
\<close>

lemma context_hash_cong:
  "context_cmp c1 c2 \<Longrightarrow> context_compute_hash H c1 = context_compute_hash H c2"
  by (auto simp: context_cmp_def context_compute_hash_def mls_context_cmp_def ebitmap_cmp_eq strcmp_zero
      mls_range_hash_def split: option.splits if_splits)

section \<open>The combination of two ranges\<close>

lemma glblub_ok:
  assumes "mls_context_glblub dst c1 c2 m = (OK, d, m')"
    "range_canon (ctx_range c1)" "range_canon (ctx_range c2)"
    "eb_highbit (lvl_cat (level0 (ctx_range c1))) \<le> 2 ^ 31" "eb_highbit (lvl_cat (level1 (ctx_range c1))) \<le> 2 ^ 31"
  shows "range_canon (ctx_range d)"
    "lvl_sens (level0 (ctx_range d)) = max (lvl_sens (level0 (ctx_range c1))) (lvl_sens (level0 (ctx_range c2)))"
    "lvl_sens (level1 (ctx_range d)) = min (lvl_sens (level1 (ctx_range c1))) (lvl_sens (level1 (ctx_range c2)))"
    "cats (level0 (ctx_range d)) = cats (level0 (ctx_range c1)) \<inter> cats (level0 (ctx_range c2))"
    "cats (level1 (ctx_range d)) = cats (level1 (ctx_range c1)) \<inter> cats (level1 (ctx_range c2))"
proof -
  let ?r1 = "ctx_range c1" and ?r2 = "ctx_range c2"
  obtain cat0 m1 cat1 where a0: "ebitmap_and (lvl_cat (level0 ?r1)) (lvl_cat (level0 ?r2)) m = (OK, cat0, m1)"
    and a1: "ebitmap_and (lvl_cat (level1 ?r1)) (lvl_cat (level1 ?r2)) m1 = (OK, cat1, m')"
    and d: "ctx_range d = \<lparr>level0 = \<lparr>lvl_sens = max (lvl_sens (level0 ?r1)) (lvl_sens (level0 ?r2)), lvl_cat = cat0\<rparr>,
      level1 = \<lparr>lvl_sens = min (lvl_sens (level1 ?r1)) (lvl_sens (level1 ?r2)), lvl_cat = cat1\<rparr>\<rparr>"
    using assms(1)
    by (auto simp: mls_context_glblub_def Let_def set_level0_def set_level1_def split: if_splits prod.splits option.splits)
  have wf: "ebitmap_wf (lvl_cat (level0 ?r1))" "ebitmap_wf (lvl_cat (level0 ?r2))"
    "ebitmap_wf (lvl_cat (level1 ?r1))" "ebitmap_wf (lvl_cat (level1 ?r2))"
    using assms(2,3) by (simp_all add: range_canon_def level_canon_def ebitmap_canon_wf)
  note and0 = ebitmap_and_ok [OF a0 wf(1,2) assms(4)] and and1 = ebitmap_and_ok [OF a1 wf(3,4) assms(5)]
  show "range_canon (ctx_range d)"
    using and0 and1 by (simp add: d range_canon_def level_canon_def)
  show "lvl_sens (level0 (ctx_range d)) = max (lvl_sens (level0 ?r1)) (lvl_sens (level0 ?r2))"
    "lvl_sens (level1 (ctx_range d)) = min (lvl_sens (level1 ?r1)) (lvl_sens (level1 ?r2))"
    by (simp_all add: d)
  show "cats (level0 (ctx_range d)) = cats (level0 ?r1) \<inter> cats (level0 ?r2)"
    "cats (level1 (ctx_range d)) = cats (level1 ?r1) \<inter> cats (level1 ?r2)"
    using and0 and1 by (simp_all add: d cats_def)
qed

section \<open>Properties\<close>

text \<open>
  Dominance of levels is a partial order, its equality is \<open>mls_level_eq\<close>, and it is the order of
  the sensitivities together with inclusion of the category sets.
\<close>

lemma mls_level_dom_partial_order:
  assumes "level_canon l1" "level_canon l2" "level_canon l3"
  shows "mls_level_dom l1 l1 \<and>
    (mls_level_dom l1 l2 \<and> mls_level_dom l2 l3 \<longrightarrow> mls_level_dom l1 l3) \<and>
    (mls_level_dom l1 l2 \<and> mls_level_dom l2 l1 \<longleftrightarrow> mls_level_eq l1 l2) \<and>
    (mls_level_dom l1 l2 \<longleftrightarrow> lvl_sens l2 \<le> lvl_sens l1 \<and>
       (\<forall>c. ebitmap_get_bit (lvl_cat l2) c \<longrightarrow> ebitmap_get_bit (lvl_cat l1) c))"
proof (intro conjI)
  show "mls_level_dom l1 l2 \<and> mls_level_dom l2 l3 \<longrightarrow> mls_level_dom l1 l3"
    using mls_level_dom_trans [OF assms] by blast
  show "mls_level_dom l1 l2 \<longleftrightarrow> lvl_sens l2 \<le> lvl_sens l1 \<and>
       (\<forall>c. ebitmap_get_bit (lvl_cat l2) c \<longrightarrow> ebitmap_get_bit (lvl_cat l1) c)"
    using assms by (auto simp: mls_level_dom_iff cats_def level_canon_def ebitmap_get_bit_iff ebitmap_canon_wf)
qed (simp_all add: assms mls_level_dom_refl mls_level_dom_antisym)

definition sample_level :: "u32 \<Rightarrow> nat \<Rightarrow> mls_level" where
  "sample_level s c = \<lparr>lvl_sens = s, lvl_cat = ebitmap_single c\<rparr>"

lemma sample_level_canon: "c < 2 ^ 31 \<Longrightarrow> level_canon (sample_level s c)"
  by (simp add: sample_level_def level_canon_def ebitmap_single ebitmap_pos_small)

lemma sample_level_dom: "s2 \<le> s1 \<Longrightarrow> mls_level_dom (sample_level s1 5) (sample_level s2 5)"
  by (simp add: mls_level_dom_iff sample_level_canon) (simp add: sample_level_def cats_def)

text \<open>
  The combination of two ranges: when it succeeds on ranges whose high level dominates the low
  one, the high level of the result dominates its low level too, its low sensitivity is the greater
  of the two low ones and its high sensitivity the lesser of the two high ones; it refuses exactly
  the ranges whose sensitivities do not overlap.
\<close>

lemma glblub_range:
  assumes "mls_context_glblub dst c1 c2 m = (rc, d, m')"
    "range_canon (ctx_range c1)" "range_canon (ctx_range c2)"
    "eb_highbit (lvl_cat (level0 (ctx_range c1))) \<le> 2 ^ 31" "eb_highbit (lvl_cat (level1 (ctx_range c1))) \<le> 2 ^ 31"
    "mls_level_dom (level1 (ctx_range c1)) (level0 (ctx_range c1))"
    "mls_level_dom (level1 (ctx_range c2)) (level0 (ctx_range c2))"
  shows "(rc = OK \<longrightarrow> mls_level_dom (level1 (ctx_range d)) (level0 (ctx_range d)) \<and>
       lvl_sens (level0 (ctx_range d)) = max (lvl_sens (level0 (ctx_range c1))) (lvl_sens (level0 (ctx_range c2))) \<and>
       lvl_sens (level1 (ctx_range d)) = min (lvl_sens (level1 (ctx_range c1))) (lvl_sens (level1 (ctx_range c2)))) \<and>
    (rc = Err EINVAL \<longleftrightarrow>
       min (lvl_sens (level1 (ctx_range c1))) (lvl_sens (level1 (ctx_range c2)))
        < max (lvl_sens (level0 (ctx_range c1))) (lvl_sens (level0 (ctx_range c2))))"
proof -
  let ?r1 = "ctx_range c1" and ?r2 = "ctx_range c2"
  have dom: "lvl_sens (level0 ?r1) \<le> lvl_sens (level1 ?r1)" "cats (level0 ?r1) \<subseteq> cats (level1 ?r1)"
    "lvl_sens (level0 ?r2) \<le> lvl_sens (level1 ?r2)" "cats (level0 ?r2) \<subseteq> cats (level1 ?r2)"
    using assms(2,3,6,7) by (simp_all add: range_canon_def mls_level_dom_iff)
  have einval: "rc = Err EINVAL \<longleftrightarrow>
      lvl_sens (level1 ?r1) < lvl_sens (level0 ?r2) \<or> lvl_sens (level1 ?r2) < lvl_sens (level0 ?r1)"
    using assms(1)
    by (auto simp: mls_context_glblub_def Let_def split: if_splits prod.splits option.splits
        dest: ebitmap_and_fail)
  have "mls_level_dom (level1 (ctx_range d)) (level0 (ctx_range d)) \<and>
       lvl_sens (level0 (ctx_range d)) = max (lvl_sens (level0 ?r1)) (lvl_sens (level0 ?r2)) \<and>
       lvl_sens (level1 (ctx_range d)) = min (lvl_sens (level1 ?r1)) (lvl_sens (level1 ?r2))" if "rc = OK"
  proof -
    note ok = glblub_ok [OF assms(1) [unfolded that] assms(2-5)]
    have "level_canon (level0 (ctx_range d))" "level_canon (level1 (ctx_range d))"
      using ok(1) by (simp_all add: range_canon_def)
    moreover have "\<not> rc = Err EINVAL" using that by simp
    ultimately show ?thesis
      using ok(2-5) dom einval by (auto simp: mls_level_dom_iff)
  qed
  moreover have "rc = Err EINVAL \<longleftrightarrow>
       min (lvl_sens (level1 ?r1)) (lvl_sens (level1 ?r2)) < max (lvl_sens (level0 ?r1)) (lvl_sens (level0 ?r2))"
    using dom unfolding einval by (auto simp: min_less_iff_disj less_max_iff_disj)
  ultimately show ?thesis by blast
qed

definition sample_context :: "u32 \<Rightarrow> u32 \<Rightarrow> nat \<Rightarrow> context" where
  "sample_context low high c = context_init\<lparr>ctx_range := \<lparr>level0 = sample_level low c, level1 = sample_level high c\<rparr>\<rparr>"

lemma sample_context_ok:
  assumes "low \<le> high"
  shows "range_canon (ctx_range (sample_context low high 5))"
    "eb_highbit (lvl_cat (level0 (ctx_range (sample_context low high 5)))) \<le> 2 ^ 31"
    "eb_highbit (lvl_cat (level1 (ctx_range (sample_context low high 5)))) \<le> 2 ^ 31"
    "mls_level_dom (level1 (ctx_range (sample_context low high 5))) (level0 (ctx_range (sample_context low high 5)))"
proof -
  have "eb_highbit (ebitmap_single 5) \<le> 2 ^ 31"
    by (simp add: ebitmap_single_def ebitmap_set_bit_def ebitmap_init_def Let_def ebitmap_new_node_def
        node_or_bug_def ebitmap_node_set_bit_def EBITMAP_NODE_INDEX_def)
  then show "range_canon (ctx_range (sample_context low high 5))"
    "eb_highbit (lvl_cat (level0 (ctx_range (sample_context low high 5)))) \<le> 2 ^ 31"
    "eb_highbit (lvl_cat (level1 (ctx_range (sample_context low high 5)))) \<le> 2 ^ 31"
    "mls_level_dom (level1 (ctx_range (sample_context low high 5))) (level0 (ctx_range (sample_context low high 5)))"
    using assms by (simp_all add: sample_context_def range_canon_def sample_level_canon mls_level_dom_iff)
      (simp_all add: sample_level_def cats_def)
qed

text \<open>
  A successful copy of a context is a context that compares equal to the original and hashes
  like it, for any hash functions; a failed copy reports \<open>ENOMEM\<close>.
\<close>

lemma context_cpy_cmp_hash:
  assumes "context_cpy dst src m = (rc, dst', m')" "context_str_ok src"
  shows "rc = OK \<and> context_cmp dst' src \<and> context_compute_hash H dst' = context_compute_hash H src
    \<or> rc = Err ENOMEM"
proof (cases rc)
  case None
  then have "dst' = src"
    using context_cpy_ok assms by blast
  then show ?thesis
    using None assms(2) by (simp add: context_cmp_refl)
next
  case (Some e)
  then show ?thesis
    using context_cpy_fail assms(1) by blast
qed

definition sample_hash :: hash_fns where
  "sample_hash = \<lparr>jhash_1word = (\<lambda>a i. a + 31 * i), jhash_2words = (\<lambda>a b i. a + 31 * b + 961 * i),
     jhash_3words = (\<lambda>a b c i. a + 31 * b + 961 * c + i), jhash = (\<lambda>ws i. of_nat (length ws) + i),
     full_name_hash = (\<lambda>s n. n)\<rparr>"

end
