(* ===== verification/Policydb.thy ===== *)
theory Policydb
  imports Avtab Context
begin

text \<open>
  The policy database (\<open>ss/policydb.h\<close>, \<open>ss/constraint.h\<close>, \<open>ss/conditional.h\<close>) and the part of
  \<open>ss/policydb.c\<close> that does not read or write a policy image: the three rule tables keyed by
  structures, the index arrays, the checks of classes, roles and types, the checks of the bounds of
  users, roles and types, and the look-up of classes and permissions by name.

  An array indexed by value minus one is a list, with \<open>None\<close> for a null entry. The data of symbols
  are values, since they do not change after the load; the data of booleans do change and are
  shared between their symbol table and the array of booleans, so an entry of that array is the key
  of its table entry, which identifies the datum.
\<close>

section \<open>Data\<close>

record perm_datum =
  perm_value :: u32

record common_datum =
  com_value :: u32
  com_permissions :: "perm_datum symtab"

record type_set =
  ts_types :: ebitmap
  ts_negset :: ebitmap
  ts_flags :: u32

record constraint_expr =
  ce_expr_type :: u32
  ce_attr :: u32
  ce_op :: u32
  ce_names :: ebitmap
  ce_type_names :: "type_set option"

record constraint_node =
  cn_permissions :: u32
  cn_expr :: "constraint_expr list"

record class_datum =
  cla_value :: u32
  cla_comkey :: "string option"
  cla_comdatum :: "common_datum option"
  cla_permissions :: "perm_datum symtab"
  cla_constraints :: "constraint_node list"
  cla_validatetrans :: "constraint_node list"
  default_user :: nat
  default_role :: nat
  default_type :: nat
  default_range :: nat

abbreviation DEFAULT_SOURCE :: nat where "DEFAULT_SOURCE \<equiv> 1"
abbreviation DEFAULT_TARGET :: nat where "DEFAULT_TARGET \<equiv> 2"
abbreviation DEFAULT_SOURCE_LOW :: nat where "DEFAULT_SOURCE_LOW \<equiv> 1"
abbreviation DEFAULT_SOURCE_HIGH :: nat where "DEFAULT_SOURCE_HIGH \<equiv> 2"
abbreviation DEFAULT_SOURCE_LOW_HIGH :: nat where "DEFAULT_SOURCE_LOW_HIGH \<equiv> 3"
abbreviation DEFAULT_TARGET_LOW :: nat where "DEFAULT_TARGET_LOW \<equiv> 4"
abbreviation DEFAULT_TARGET_HIGH :: nat where "DEFAULT_TARGET_HIGH \<equiv> 5"
abbreviation DEFAULT_TARGET_LOW_HIGH :: nat where "DEFAULT_TARGET_LOW_HIGH \<equiv> 6"
abbreviation DEFAULT_GLBLUB :: nat where "DEFAULT_GLBLUB \<equiv> 7"

record role_datum =
  role_value :: u32
  role_bounds :: u32
  role_dominates :: ebitmap
  role_types :: ebitmap

record role_trans_key =
  rtk_role :: u32
  rtk_type :: u32
  rtk_tclass :: u32

record filename_trans_key =
  ftk_ttype :: u32
  ftk_tclass :: u16
  ftk_name :: string

record filename_trans_datum =
  ft_stypes :: ebitmap
  ft_otype :: u32

record role_allow =
  ra_role :: u32
  ra_new_role :: u32

record type_datum =
  type_value :: u32
  type_bounds :: u32
  type_primary :: bool
  type_attribute :: bool

record user_datum =
  user_value :: u32
  user_bounds :: u32
  user_roles :: ebitmap
  user_range :: mls_range
  user_dfltlevel :: mls_level

record level_datum =
  lev_level :: mls_level
  lev_isalias :: bool

record cat_datum =
  cat_value :: u32
  cat_isalias :: bool

record range_trans =
  rt_source_type :: u32
  rt_target_type :: u32
  rt_target_class :: u32

record cond_bool_datum =
  bool_value :: u32
  bool_state :: int

record cond_expr_node =
  cx_expr_type :: u32
  cx_boolean :: u32

text \<open>The lists of a conditional hold the addresses of nodes of the conditional table.\<close>

record cond_node =
  cur_state :: int
  cond_expr :: "cond_expr_node list"
  true_list :: "nat list"
  false_list :: "nat list"

datatype ocontext_u =
    OName string
  | OPort u8 u16 u16
  | ONode u32 u32
  | ONode6 "u32 list" "u32 list"
  | OIbpkey u64 u16 u16
  | OIbendport string u8

record ocontext =
  oc_u :: ocontext_u
  oc_v :: u32
  oc_context0 :: "context"
  oc_context1 :: "context"
  oc_sid0 :: u32
  oc_sid1 :: u32

record genfs =
  gf_fstype :: string
  gf_head :: "ocontext list"

datatype sym = SYM_COMMONS | SYM_CLASSES | SYM_ROLES | SYM_TYPES | SYM_USERS | SYM_BOOLS | SYM_LEVELS | SYM_CATS

datatype ocon = OCON_ISID | OCON_FS | OCON_PORT | OCON_NETIF | OCON_NODE | OCON_FSUSE | OCON_NODE6
  | OCON_IBPKEY | OCON_IBENDPORT

record policydb =
  mls_enabled :: bool
  p_commons :: "common_datum symtab"
  p_classes :: "class_datum symtab"
  p_roles :: "role_datum symtab"
  p_types :: "type_datum symtab"
  p_users :: "user_datum symtab"
  p_bools :: "cond_bool_datum symtab"
  p_levels :: "level_datum symtab"
  p_cats :: "cat_datum symtab"
  sym_val_to_name :: "sym \<Rightarrow> string option list"
  class_val_to_struct :: "class_datum option list"
  role_val_to_struct :: "role_datum option list"
  user_val_to_struct :: "user_datum option list"
  type_val_to_struct :: "type_datum option list"
  te_avtab :: avtab
  role_tr :: "(role_trans_key, u32) hashtab"
  filename_trans_ttypes :: ebitmap
  filename_trans :: "(filename_trans_key, filename_trans_datum list) hashtab"
  compat_filename_trans_count :: u32
  bool_val_to_struct :: "string option list"
  te_cond_avtab :: avtab
  cond_list :: "cond_node list"
  p_role_allow :: "role_allow list"
  ocontexts :: "ocon \<Rightarrow> ocontext list"
  p_genfs :: "genfs list"
  range_tr :: "(range_trans, mls_range) hashtab"
  type_attr_map_array :: "ebitmap list"
  policycaps :: ebitmap
  permissive_map :: ebitmap
  policyvers :: u32
  reject_unknown :: bool
  allow_unknown :: bool
  process_class :: u16
  process_trans_perms :: u32

abbreviation OBJECT_R_VAL :: u32 where "OBJECT_R_VAL \<equiv> 1"

text \<open>
  An entry of an index array, by a value counted from one: \<open>None\<close> stands both for a null entry and
  for an access outside the array.
\<close>

definition val_to_struct :: "'a option list \<Rightarrow> u32 \<Rightarrow> 'a option" where
  "val_to_struct xs v =
     (let i = unat (v - 1) in if i < length xs then xs ! i else None)"

definition set_val :: "'a option list \<Rightarrow> u32 \<Rightarrow> 'a \<Rightarrow> 'a option list" where
  "set_val xs v x = xs[unat (v - 1) := Some x]"

text \<open>\<open>sym_name\<close>: a name that is not there is empty.\<close>

definition sym_name :: "policydb \<Rightarrow> sym \<Rightarrow> u32 \<Rightarrow> string" where
  "sym_name p sym_num element_nr =
     (let names = sym_val_to_name p sym_num
      in if unat element_nr < length names then (case names ! unat element_nr of Some n \<Rightarrow> n | None \<Rightarrow> []) else [])"

section \<open>An empty database\<close>

definition symtab_zero :: "'d symtab" where
  "symtab_zero = \<lparr>st_table = \<lparr>ht_htable = [], ht_size = 0, ht_nel = 0\<rparr>, st_nprim = 0\<rparr>"

definition policydb_init :: policydb where
  "policydb_init =
     \<lparr>mls_enabled = False, p_commons = symtab_zero, p_classes = symtab_zero, p_roles = symtab_zero,
      p_types = symtab_zero, p_users = symtab_zero, p_bools = symtab_zero, p_levels = symtab_zero,
      p_cats = symtab_zero, sym_val_to_name = (\<lambda>_. []), class_val_to_struct = [], role_val_to_struct = [],
      user_val_to_struct = [], type_val_to_struct = [], te_avtab = avtab_init,
      role_tr = \<lparr>ht_htable = [], ht_size = 0, ht_nel = 0\<rparr>, filename_trans_ttypes = ebitmap_init,
      filename_trans = \<lparr>ht_htable = [], ht_size = 0, ht_nel = 0\<rparr>, compat_filename_trans_count = 0, bool_val_to_struct = [],
      te_cond_avtab = avtab_init, cond_list = [], p_role_allow = [], ocontexts = (\<lambda>_. []), p_genfs = [],
      range_tr = \<lparr>ht_htable = [], ht_size = 0, ht_nel = 0\<rparr>, type_attr_map_array = [],
      policycaps = ebitmap_init, permissive_map = ebitmap_init, policyvers = 0, reject_unknown = False,
      allow_unknown = False, process_class = 0, process_trans_perms = 0\<rparr>"

section \<open>Rule tables keyed by structures\<close>

text \<open>
  \<open>partial_name_hash\<close> is the kernel's hash of one character of a name.
\<close>

definition filenametr_hash :: "(u8 \<Rightarrow> u64 \<Rightarrow> u64) \<Rightarrow> filename_trans_key \<Rightarrow> u32" where
  "filenametr_hash partial_name_hash ft =
     ucast (foldl (\<lambda>hash c. partial_name_hash (of_char c) hash)
       (ucast (ftk_ttype ft XOR ucast (ftk_tclass ft))) (ftk_name ft))"

definition filenametr_cmp :: "filename_trans_key \<Rightarrow> filename_trans_key \<Rightarrow> int" where
  "filenametr_cmp ft1 ft2 =
     (let v = sint (ftk_ttype ft1 - ftk_ttype ft2)
      in if v \<noteq> 0 then v
         else let v = uint (ftk_tclass ft1) - uint (ftk_tclass ft2)
              in if v \<noteq> 0 then v else strcmp (ftk_name ft1) (ftk_name ft2))"

definition policydb_filenametr_search ::
  "(u8 \<Rightarrow> u64 \<Rightarrow> u64) \<Rightarrow> policydb \<Rightarrow> filename_trans_key \<Rightarrow> filename_trans_datum list option" where
  "policydb_filenametr_search partial_name_hash p key =
     hashtab_search (filenametr_hash partial_name_hash) filenametr_cmp (filename_trans p) key"

definition rangetr_hash :: "range_trans \<Rightarrow> u32" where
  "rangetr_hash key = rt_source_type key + push_bit 3 (rt_target_type key) + push_bit 5 (rt_target_class key)"

definition rangetr_cmp :: "range_trans \<Rightarrow> range_trans \<Rightarrow> int" where
  "rangetr_cmp key1 key2 =
     (let v = sint (rt_source_type key1 - rt_source_type key2)
      in if v \<noteq> 0 then v
         else let v = sint (rt_target_type key1 - rt_target_type key2)
              in if v \<noteq> 0 then v else sint (rt_target_class key1 - rt_target_class key2))"

definition policydb_rangetr_search :: "policydb \<Rightarrow> range_trans \<Rightarrow> mls_range option" where
  "policydb_rangetr_search p key = hashtab_search rangetr_hash rangetr_cmp (range_tr p) key"

definition role_trans_hash :: "role_trans_key \<Rightarrow> u32" where
  "role_trans_hash key = rtk_role key + push_bit 3 (rtk_type key) + push_bit 5 (rtk_tclass key)"

definition role_trans_cmp :: "role_trans_key \<Rightarrow> role_trans_key \<Rightarrow> int" where
  "role_trans_cmp key1 key2 =
     (let v = sint (rtk_role key1 - rtk_role key2)
      in if v \<noteq> 0 then v
         else let v = sint (rtk_type key1 - rtk_type key2)
              in if v \<noteq> 0 then v else sint (rtk_tclass key1 - rtk_tclass key2))"

definition policydb_roletr_search :: "policydb \<Rightarrow> role_trans_key \<Rightarrow> u32 option" where
  "policydb_roletr_search p key = hashtab_search role_trans_hash role_trans_cmp (role_tr p) key"

section \<open>Index arrays\<close>

definition set_name :: "sym \<Rightarrow> u32 \<Rightarrow> string \<Rightarrow> policydb \<Rightarrow> policydb" where
  "set_name s v key p =
     p\<lparr>sym_val_to_name := (sym_val_to_name p)(s := set_val (sym_val_to_name p s) v key)\<rparr>"

definition common_index :: "string \<Rightarrow> common_datum \<Rightarrow> policydb \<Rightarrow> rc \<times> policydb" where
  "common_index key d p =
     (if com_value d = 0 \<or> com_value d > st_nprim (p_commons p) then (Err EINVAL, p)
      else (OK, set_name SYM_COMMONS (com_value d) key p))"

definition class_index :: "string \<Rightarrow> class_datum \<Rightarrow> policydb \<Rightarrow> rc \<times> policydb" where
  "class_index key d p =
     (if cla_value d = 0 \<or> cla_value d > st_nprim (p_classes p) then (Err EINVAL, p)
      else (OK, (set_name SYM_CLASSES (cla_value d) key p)
             \<lparr>class_val_to_struct := set_val (class_val_to_struct p) (cla_value d) d\<rparr>))"

definition role_index :: "string \<Rightarrow> role_datum \<Rightarrow> policydb \<Rightarrow> rc \<times> policydb" where
  "role_index key d p =
     (if role_value d = 0 \<or> role_value d > st_nprim (p_roles p) \<or> role_bounds d > st_nprim (p_roles p)
      then (Err EINVAL, p)
      else (OK, (set_name SYM_ROLES (role_value d) key p)
             \<lparr>role_val_to_struct := set_val (role_val_to_struct p) (role_value d) d\<rparr>))"

definition type_index :: "string \<Rightarrow> type_datum \<Rightarrow> policydb \<Rightarrow> rc \<times> policydb" where
  "type_index key d p =
     (if type_primary d
      then if type_value d = 0 \<or> type_value d > st_nprim (p_types p) \<or> type_bounds d > st_nprim (p_types p)
           then (Err EINVAL, p)
           else (OK, (set_name SYM_TYPES (type_value d) key p)
                  \<lparr>type_val_to_struct := set_val (type_val_to_struct p) (type_value d) d\<rparr>)
      else (OK, p))"

definition user_index :: "string \<Rightarrow> user_datum \<Rightarrow> policydb \<Rightarrow> rc \<times> policydb" where
  "user_index key d p =
     (if user_value d = 0 \<or> user_value d > st_nprim (p_users p) \<or> user_bounds d > st_nprim (p_users p)
      then (Err EINVAL, p)
      else (OK, (set_name SYM_USERS (user_value d) key p)
             \<lparr>user_val_to_struct := set_val (user_val_to_struct p) (user_value d) d\<rparr>))"

definition sens_index :: "string \<Rightarrow> level_datum \<Rightarrow> policydb \<Rightarrow> rc \<times> policydb" where
  "sens_index key d p =
     (if \<not> lev_isalias d
      then if lvl_sens (lev_level d) = 0 \<or> lvl_sens (lev_level d) > st_nprim (p_levels p) then (Err EINVAL, p)
           else (OK, set_name SYM_LEVELS (lvl_sens (lev_level d)) key p)
      else (OK, p))"

definition cat_index :: "string \<Rightarrow> cat_datum \<Rightarrow> policydb \<Rightarrow> rc \<times> policydb" where
  "cat_index key d p =
     (if \<not> cat_isalias d
      then if cat_value d = 0 \<or> cat_value d > st_nprim (p_cats p) then (Err EINVAL, p)
           else (OK, set_name SYM_CATS (cat_value d) key p)
      else (OK, p))"

text \<open>The index function of booleans, \<open>cond_index_bool\<close>, and the array it fills.\<close>

definition cond_init_bool_indexes :: "policydb \<Rightarrow> mem \<Rightarrow> rc \<times> policydb \<times> mem" where
  "cond_init_bool_indexes p m =
     (case kalloc m of
        (False, m') \<Rightarrow> (Err ENOMEM, p\<lparr>bool_val_to_struct := []\<rparr>, m')
      | (True, m') \<Rightarrow> (OK, p\<lparr>bool_val_to_struct := replicate (unat (st_nprim (p_bools p))) None\<rparr>, m'))"

definition cond_index_bool :: "string \<Rightarrow> cond_bool_datum \<Rightarrow> policydb \<Rightarrow> rc \<times> policydb" where
  "cond_index_bool key d p =
     (if bool_value d = 0 \<or> bool_value d > st_nprim (p_bools p) then (Err EINVAL, p)
      else (OK, (set_name SYM_BOOLS (bool_value d) key p)
             \<lparr>bool_val_to_struct := set_val (bool_val_to_struct p) (bool_value d) key\<rparr>))"


definition alloc_array ::
  "('a option list \<Rightarrow> policydb \<Rightarrow> policydb) \<Rightarrow> u32 \<Rightarrow> policydb \<Rightarrow> mem \<Rightarrow> rc \<times> policydb \<times> mem" where
  "alloc_array upd n p m =
     (case kalloc m of
        (False, m') \<Rightarrow> (Err ENOMEM, upd [] p, m')
      | (True, m') \<Rightarrow> (OK, upd (replicate (unat n) None) p, m'))"

text \<open>One round of the loop over the symbol tables: the names, then the index function.\<close>

definition index_table ::
  "sym \<Rightarrow> (policydb \<Rightarrow> 'd symtab) \<Rightarrow> (string \<Rightarrow> 'd \<Rightarrow> policydb \<Rightarrow> rc \<times> policydb) \<Rightarrow> policydb \<Rightarrow> mem
    \<Rightarrow> rc \<times> policydb \<times> mem" where
  "index_table s tab index_f p m =
     then_ok (alloc_array (\<lambda>xs p. p\<lparr>sym_val_to_name := (sym_val_to_name p)(s := xs)\<rparr>) (st_nprim (tab p)) p m)
       (\<lambda>p m. case hashtab_map (st_table (tab p)) index_f p of (rc, p') \<Rightarrow> (rc, p', m))"

definition policydb_index :: "policydb \<Rightarrow> mem \<Rightarrow> rc \<times> policydb \<times> mem" where
  "policydb_index p m =
     then_ok (alloc_array (\<lambda>xs p. p\<lparr>class_val_to_struct := xs\<rparr>) (st_nprim (p_classes p)) p m) (\<lambda>p m.
     then_ok (alloc_array (\<lambda>xs p. p\<lparr>role_val_to_struct := xs\<rparr>) (st_nprim (p_roles p)) p m) (\<lambda>p m.
     then_ok (alloc_array (\<lambda>xs p. p\<lparr>user_val_to_struct := xs\<rparr>) (st_nprim (p_users p)) p m) (\<lambda>p m.
     then_ok (alloc_array (\<lambda>xs p. p\<lparr>type_val_to_struct := xs\<rparr>) (st_nprim (p_types p)) p m) (\<lambda>p m.
     then_ok (cond_init_bool_indexes p m) (\<lambda>p m.
     then_ok (index_table SYM_COMMONS p_commons common_index p m) (\<lambda>p m.
     then_ok (index_table SYM_CLASSES p_classes class_index p m) (\<lambda>p m.
     then_ok (index_table SYM_ROLES p_roles role_index p m) (\<lambda>p m.
     then_ok (index_table SYM_TYPES p_types type_index p m) (\<lambda>p m.
     then_ok (index_table SYM_USERS p_users user_index p m) (\<lambda>p m.
     then_ok (index_table SYM_BOOLS p_bools cond_index_bool p m) (\<lambda>p m.
     then_ok (index_table SYM_LEVELS p_levels sens_index p m) (\<lambda>p m.
     index_table SYM_CATS p_cats cat_index p m))))))))))))"

section \<open>Validity and bounds\<close>

definition policydb_class_isvalid :: "policydb \<Rightarrow> u32 \<Rightarrow> bool" where
  "policydb_class_isvalid p cls \<longleftrightarrow> \<not> (cls = 0 \<or> cls > st_nprim (p_classes p))"

definition policydb_role_isvalid :: "policydb \<Rightarrow> u32 \<Rightarrow> bool" where
  "policydb_role_isvalid p role \<longleftrightarrow> \<not> (role = 0 \<or> role > st_nprim (p_roles p))"

definition policydb_type_isvalid :: "policydb \<Rightarrow> u32 \<Rightarrow> bool" where
  "policydb_type_isvalid p type \<longleftrightarrow> \<not> (type = 0 \<or> type > st_nprim (p_types p))"

text \<open>
  The walks up the bounds. The last argument is the number of rounds left: \<open>++depth\<close> reaches
  \<open>POLICYDB_BOUNDS_MAXDEPTH\<close> when it would become zero. The flag that is threaded through the map over
  the table records that the walk followed a null entry, where the code dereferences a null pointer
  or reports a bug.
\<close>

abbreviation POLICYDB_BOUNDS_MAXDEPTH :: nat where "POLICYDB_BOUNDS_MAXDEPTH \<equiv> 4"
abbreviation POLICYDB_VERSION_BOUNDARY :: u32 where "POLICYDB_VERSION_BOUNDARY \<equiv> 24"

fun user_bounds_walk :: "policydb \<Rightarrow> user_datum \<Rightarrow> user_datum \<Rightarrow> nat \<Rightarrow> bool \<Rightarrow> rc \<times> bool" where
  "user_bounds_walk p user upper k fault =
     (if user_bounds upper = 0 then (OK, fault)
      else case k of
        0 \<Rightarrow> (Err EINVAL, fault)
      | Suc k' \<Rightarrow>
          if k' = 0 then (Err EINVAL, fault)
          else case val_to_struct (user_val_to_struct p) (user_bounds upper) of
                 None \<Rightarrow> (Err EINVAL, True)
               | Some upper' \<Rightarrow>
                   if list_all (\<lambda>bit. ebitmap_get_bit (user_roles upper') (unat bit)) (ebitmap_positive_bits (user_roles user))
                   then user_bounds_walk p user upper' k' fault else (Err EINVAL, fault))"

definition user_bounds_sanity_check :: "policydb \<Rightarrow> string \<Rightarrow> user_datum \<Rightarrow> bool \<Rightarrow> rc \<times> bool" where
  "user_bounds_sanity_check p key user fault = user_bounds_walk p user user POLICYDB_BOUNDS_MAXDEPTH fault"

fun role_bounds_walk :: "policydb \<Rightarrow> role_datum \<Rightarrow> role_datum \<Rightarrow> nat \<Rightarrow> bool \<Rightarrow> rc \<times> bool" where
  "role_bounds_walk p role upper k fault =
     (if role_bounds upper = 0 then (OK, fault)
      else case k of
        0 \<Rightarrow> (Err EINVAL, fault)
      | Suc k' \<Rightarrow>
          if k' = 0 then (Err EINVAL, fault)
          else case val_to_struct (role_val_to_struct p) (role_bounds upper) of
                 None \<Rightarrow> (Err EINVAL, True)
               | Some upper' \<Rightarrow>
                   if list_all (\<lambda>bit. ebitmap_get_bit (role_types upper') (unat bit)) (ebitmap_positive_bits (role_types role))
                   then role_bounds_walk p role upper' k' fault else (Err EINVAL, fault))"

definition role_bounds_sanity_check :: "policydb \<Rightarrow> string \<Rightarrow> role_datum \<Rightarrow> bool \<Rightarrow> rc \<times> bool" where
  "role_bounds_sanity_check p key role fault = role_bounds_walk p role role POLICYDB_BOUNDS_MAXDEPTH fault"

fun type_bounds_walk :: "policydb \<Rightarrow> type_datum \<Rightarrow> nat \<Rightarrow> bool \<Rightarrow> rc \<times> bool" where
  "type_bounds_walk p upper k fault =
     (if type_bounds upper = 0 then (OK, fault)
      else case k of
        0 \<Rightarrow> (Err EINVAL, fault)
      | Suc k' \<Rightarrow>
          if k' = 0 then (Err EINVAL, fault)
          else case val_to_struct (type_val_to_struct p) (type_bounds upper) of
                 None \<Rightarrow> (Err EINVAL, True)
               | Some upper' \<Rightarrow>
                   if type_attribute upper' then (Err EINVAL, fault)
                   else type_bounds_walk p upper' k' fault)"

definition type_bounds_sanity_check :: "policydb \<Rightarrow> string \<Rightarrow> type_datum \<Rightarrow> bool \<Rightarrow> rc \<times> bool" where
  "type_bounds_sanity_check p key type fault = type_bounds_walk p type POLICYDB_BOUNDS_MAXDEPTH fault"

declare user_bounds_walk.simps [simp del] role_bounds_walk.simps [simp del] type_bounds_walk.simps [simp del]

definition policydb_bounds_sanity_check :: "policydb \<Rightarrow> rc \<times> bool" where
  "policydb_bounds_sanity_check p =
     (if policyvers p < POLICYDB_VERSION_BOUNDARY then (OK, False)
      else case hashtab_map (st_table (p_users p)) (user_bounds_sanity_check p) False of
             (Err e, f) \<Rightarrow> (Err e, f)
           | (OK, f) \<Rightarrow>
               (case hashtab_map (st_table (p_roles p)) (role_bounds_sanity_check p) f of
                  (Err e, f') \<Rightarrow> (Err e, f')
                | (OK, f') \<Rightarrow> hashtab_map (st_table (p_types p)) (type_bounds_sanity_check p) f'))"

section \<open>Classes and permissions by name\<close>

definition string_to_security_class :: "policydb \<Rightarrow> string \<Rightarrow> u16" where
  "string_to_security_class p name =
     (case symtab_search (p_classes p) name of None \<Rightarrow> 0 | Some cladatum \<Rightarrow> ucast (cla_value cladatum))"

definition string_to_av_perm :: "policydb \<Rightarrow> u16 \<Rightarrow> string \<Rightarrow> u32" where
  "string_to_av_perm p tclass name =
     (if tclass = 0 \<or> ucast tclass > st_nprim (p_classes p) then 0
      else case val_to_struct (class_val_to_struct p) (ucast tclass) of
             None \<Rightarrow> 0
           | Some cladatum \<Rightarrow>
               (let perdatum = (case cla_comdatum cladatum of
                      Some comdatum \<Rightarrow> symtab_search (com_permissions comdatum) name | None \<Rightarrow> None);
                    perdatum = (case perdatum of
                      None \<Rightarrow> symtab_search (cla_permissions cladatum) name | Some d \<Rightarrow> Some d)
                in case perdatum of
                     None \<Rightarrow> 0
                   | Some d \<Rightarrow> push_bit (unat (perm_value d - 1)) 1))"

section \<open>The rule tables are finite maps\<close>

text \<open>
  The comparison of keys subtracts unsigned values and reads the difference as \<open>int\<close>; it is a
  linear order on the values below \<open>2 ^ 31\<close>.
\<close>

definition small :: "u32 \<Rightarrow> bool" where
  "small v \<longleftrightarrow> v < 2 ^ 31"

lemma sint_diff_small:
  assumes "small a" "small b"
  shows "sint (a - b) = 0 \<longleftrightarrow> a = b" "sint (a - b) < 0 \<longleftrightarrow> a < b" "0 < sint (a - b) \<longleftrightarrow> b < a"
  using sint_diff_u32 [of a b] assms by (auto simp: small_def word_less_def word_uint_eq_iff)

definition rangetr_ok :: "range_trans \<Rightarrow> bool" where
  "rangetr_ok k \<longleftrightarrow> small (rt_source_type k) \<and> small (rt_target_type k) \<and> small (rt_target_class k)"

definition role_trans_ok :: "role_trans_key \<Rightarrow> bool" where
  "role_trans_ok k \<longleftrightarrow> small (rtk_role k) \<and> small (rtk_type k) \<and> small (rtk_tclass k)"

definition filenametr_ok :: "filename_trans_key \<Rightarrow> bool" where
  "filenametr_ok k \<longleftrightarrow> small (ftk_ttype k)"

lemma rangetr_cmp_sign:
  assumes "rangetr_ok a" "rangetr_ok b"
  shows "rangetr_cmp a b = 0 \<longleftrightarrow> a = b"
    "rangetr_cmp a b < 0 \<longleftrightarrow> rt_source_type a < rt_source_type b \<or> rt_source_type a = rt_source_type b \<and>
      (rt_target_type a < rt_target_type b \<or> rt_target_type a = rt_target_type b \<and> rt_target_class a < rt_target_class b)"
    "0 < rangetr_cmp a b \<longleftrightarrow> rangetr_cmp b a < 0"
  using assms by (auto simp: rangetr_cmp_def rangetr_ok_def Let_def sint_diff_small)

interpretation rangetr: hashtab_keys rangetr_hash rangetr_cmp rangetr_ok
  by unfold_locales (auto simp: rangetr_cmp_sign)

lemma role_trans_cmp_sign:
  assumes "role_trans_ok a" "role_trans_ok b"
  shows "role_trans_cmp a b = 0 \<longleftrightarrow> a = b"
    "role_trans_cmp a b < 0 \<longleftrightarrow> rtk_role a < rtk_role b \<or> rtk_role a = rtk_role b \<and>
      (rtk_type a < rtk_type b \<or> rtk_type a = rtk_type b \<and> rtk_tclass a < rtk_tclass b)"
    "0 < role_trans_cmp a b \<longleftrightarrow> role_trans_cmp b a < 0"
  using assms by (auto simp: role_trans_cmp_def role_trans_ok_def Let_def sint_diff_small)

interpretation roletr: hashtab_keys role_trans_hash role_trans_cmp role_trans_ok
  by unfold_locales (auto simp: role_trans_cmp_sign)

lemma filenametr_cmp_sign:
  assumes "filenametr_ok a" "filenametr_ok b"
  shows "filenametr_cmp a b = 0 \<longleftrightarrow> a = b"
    "filenametr_cmp a b < 0 \<longleftrightarrow> ftk_ttype a < ftk_ttype b \<or> ftk_ttype a = ftk_ttype b \<and>
      (ftk_tclass a < ftk_tclass b \<or> ftk_tclass a = ftk_tclass b \<and> strcmp (ftk_name a) (ftk_name b) < 0)"
    "0 < filenametr_cmp a b \<longleftrightarrow> filenametr_cmp b a < 0"
  using assms strcmp_flip
  by (auto simp: filenametr_cmp_def filenametr_ok_def Let_def sint_diff_small strcmp_zero word_less_def word_uint_eq_iff)

interpretation filenametr: hashtab_keys "filenametr_hash partial_name_hash" filenametr_cmp filenametr_ok
  for partial_name_hash
  by unfold_locales (auto simp: filenametr_cmp_sign intro: strcmp_trans)


section \<open>Indexing\<close>

text \<open>
  An array is indexed by a value when it has the length of the table's highest value and every
  entry has the value of its place. A name at a place is the key of a table entry of that value.
\<close>

definition indexed :: "'a option list \<Rightarrow> u32 \<Rightarrow> ('a \<Rightarrow> u32) \<Rightarrow> ('a \<Rightarrow> bool) \<Rightarrow> bool" where
  "indexed xs n val P \<longleftrightarrow> length xs = unat n \<and>
     (\<forall>i < length xs. \<forall>d. xs ! i = Some d \<longrightarrow> unat (val d) = Suc i \<and> P d)"

definition named :: "string option list \<Rightarrow> 'd symtab \<Rightarrow> ('d \<Rightarrow> u32) \<Rightarrow> bool" where
  "named xs tab val \<longleftrightarrow> length xs = unat (st_nprim tab) \<and>
     (\<forall>i < length xs. \<forall>key. xs ! i = Some key \<longrightarrow>
        (\<exists>d. (key, d) \<in> set (hashtab_nodes (st_table tab)) \<and> unat (val d) = Suc i))"

fun names_ok :: "policydb \<Rightarrow> sym \<Rightarrow> bool" where
  "names_ok p SYM_COMMONS = named (sym_val_to_name p SYM_COMMONS) (p_commons p) com_value"
| "names_ok p SYM_CLASSES = named (sym_val_to_name p SYM_CLASSES) (p_classes p) cla_value"
| "names_ok p SYM_ROLES = named (sym_val_to_name p SYM_ROLES) (p_roles p) role_value"
| "names_ok p SYM_TYPES = named (sym_val_to_name p SYM_TYPES) (p_types p) type_value"
| "names_ok p SYM_USERS = named (sym_val_to_name p SYM_USERS) (p_users p) user_value"
| "names_ok p SYM_BOOLS = named (sym_val_to_name p SYM_BOOLS) (p_bools p) bool_value"
| "names_ok p SYM_LEVELS = named (sym_val_to_name p SYM_LEVELS) (p_levels p) (\<lambda>d. lvl_sens (lev_level d))"
| "names_ok p SYM_CATS = named (sym_val_to_name p SYM_CATS) (p_cats p) cat_value"

definition structs_ok :: "policydb \<Rightarrow> bool" where
  "structs_ok p \<longleftrightarrow>
     indexed (class_val_to_struct p) (st_nprim (p_classes p)) cla_value (\<lambda>_. True) \<and>
     indexed (role_val_to_struct p) (st_nprim (p_roles p)) role_value (\<lambda>d. role_bounds d \<le> st_nprim (p_roles p)) \<and>
     indexed (user_val_to_struct p) (st_nprim (p_users p)) user_value (\<lambda>d. user_bounds d \<le> st_nprim (p_users p)) \<and>
     indexed (type_val_to_struct p) (st_nprim (p_types p)) type_value
       (\<lambda>d. type_primary d \<and> type_bounds d \<le> st_nprim (p_types p))"

definition index_inv :: "policydb \<Rightarrow> sym set \<Rightarrow> policydb \<Rightarrow> bool" where
  "index_inv p0 S p \<longleftrightarrow> structs_ok p \<and> (\<forall>s \<in> S. names_ok p s) \<and>
     p_commons p = p_commons p0 \<and> p_classes p = p_classes p0 \<and> p_roles p = p_roles p0 \<and> p_types p = p_types p0 \<and>
     p_users p = p_users p0 \<and> p_bools p = p_bools p0 \<and> p_levels p = p_levels p0 \<and> p_cats p = p_cats p0"

lemma unat_pred: "v \<noteq> 0 \<Longrightarrow> unat (v - 1 :: u32) = unat v - 1"
  by (rule unat_minus_one)

lemma unat_pred_Suc: "(v :: u32) \<noteq> 0 \<Longrightarrow> unat v = Suc (unat (v - 1))"
  using unat_pred [of v] unat_gt_0 [of v] by simp

lemma nth_set_val: "i < length xs \<Longrightarrow> v \<noteq> 0 \<Longrightarrow> set_val xs v x ! i = (if unat v = Suc i then Some x else xs ! i)"
  by (auto simp: set_val_def nth_list_update unat_pred_Suc)

lemma length_set_val [simp]: "length (set_val xs v x) = length xs"
  by (simp add: set_val_def)

lemma indexed_set_val: "indexed xs n val P \<Longrightarrow> val d \<noteq> 0 \<Longrightarrow> P d \<Longrightarrow> indexed (set_val xs (val d) d) n val P"
  by (auto simp: indexed_def nth_set_val split: if_splits)

lemma named_set_val:
  "named xs tab val \<Longrightarrow> val d \<noteq> 0 \<Longrightarrow> (key, d) \<in> set (hashtab_nodes (st_table tab)) \<Longrightarrow>
    named (set_val xs (val d) key) tab val"
  by (auto simp: named_def nth_set_val split: if_splits)

lemma indexed_replicate [simp]: "indexed (replicate (unat n) None) n val P"
  by (simp add: indexed_def)

lemma named_replicate [simp]: "named (replicate (unat (st_nprim tab)) None) tab val"
  by (simp add: named_def)

lemma names_ok_update [simp]:
  "names_ok (p\<lparr>class_val_to_struct := a\<rparr>) s = names_ok p s"
  "names_ok (p\<lparr>role_val_to_struct := b\<rparr>) s = names_ok p s"
  "names_ok (p\<lparr>user_val_to_struct := c\<rparr>) s = names_ok p s"
  "names_ok (p\<lparr>type_val_to_struct := d\<rparr>) s = names_ok p s"
  "names_ok (p\<lparr>bool_val_to_struct := e\<rparr>) s = names_ok p s"
  by (cases s; simp)+

text \<open>The index functions keep the invariant.\<close>

named_theorems index_steps \<open>one call of an index function\<close>

definition index_fun_ok :: "(policydb \<Rightarrow> 'd symtab) \<Rightarrow> (string \<Rightarrow> 'd \<Rightarrow> policydb \<Rightarrow> rc \<times> policydb) \<Rightarrow> bool" where
  "index_fun_ok tab f \<longleftrightarrow> (\<forall>p0 S p p' key d. (key, d) \<in> set (hashtab_nodes (st_table (tab p))) \<longrightarrow>
     f key d p = (OK, p') \<longrightarrow> index_inv p0 S p \<longrightarrow> index_inv p0 S p')"

lemma index_fun_okI:
  assumes "\<And>p p' key d s. (key, d) \<in> set (hashtab_nodes (st_table (tab p))) \<Longrightarrow> f key d p = (OK, p') \<Longrightarrow>
      names_ok p s \<Longrightarrow> names_ok p' s"
    and "\<And>p p' key d. f key d p = (OK, p') \<Longrightarrow> structs_ok p \<Longrightarrow> structs_ok p' \<and>
      p_commons p' = p_commons p \<and> p_classes p' = p_classes p \<and> p_roles p' = p_roles p \<and> p_types p' = p_types p \<and>
      p_users p' = p_users p \<and> p_bools p' = p_bools p \<and> p_levels p' = p_levels p \<and> p_cats p' = p_cats p"
  shows "index_fun_ok tab f"
  unfolding index_fun_ok_def index_inv_def using assms by metis

lemma common_index_ok [index_steps]: "index_fun_ok p_commons common_index"
proof (rule index_fun_okI)
  show "names_ok p' s" if "(key, d) \<in> set (hashtab_nodes (st_table (p_commons p)))" "common_index key d p = (OK, p')" "names_ok p s" for p p' key d s
    using that by (cases s) (auto simp: common_index_def set_name_def named_set_val [where val = com_value] split: if_splits)
qed (auto simp: common_index_def set_name_def structs_ok_def indexed_set_val split: if_splits)

lemma class_index_ok [index_steps]: "index_fun_ok p_classes class_index"
proof (rule index_fun_okI)
  show "names_ok p' s" if "(key, d) \<in> set (hashtab_nodes (st_table (p_classes p)))" "class_index key d p = (OK, p')" "names_ok p s" for p p' key d s
    using that by (cases s) (auto simp: class_index_def set_name_def named_set_val [where val = cla_value] split: if_splits)
qed (auto simp: class_index_def set_name_def structs_ok_def indexed_set_val split: if_splits)

lemma role_index_ok [index_steps]: "index_fun_ok p_roles role_index"
proof (rule index_fun_okI)
  show "names_ok p' s" if "(key, d) \<in> set (hashtab_nodes (st_table (p_roles p)))" "role_index key d p = (OK, p')" "names_ok p s" for p p' key d s
    using that by (cases s) (auto simp: role_index_def set_name_def named_set_val [where val = role_value] split: if_splits)
qed (auto simp: role_index_def set_name_def structs_ok_def indexed_set_val split: if_splits)

lemma type_index_ok [index_steps]: "index_fun_ok p_types type_index"
proof (rule index_fun_okI)
  show "names_ok p' s" if "(key, d) \<in> set (hashtab_nodes (st_table (p_types p)))" "type_index key d p = (OK, p')" "names_ok p s" for p p' key d s
    using that by (cases s) (auto simp: type_index_def set_name_def named_set_val [where val = type_value] split: if_splits)
qed (auto simp: type_index_def set_name_def structs_ok_def indexed_set_val split: if_splits)

lemma user_index_ok [index_steps]: "index_fun_ok p_users user_index"
proof (rule index_fun_okI)
  show "names_ok p' s" if "(key, d) \<in> set (hashtab_nodes (st_table (p_users p)))" "user_index key d p = (OK, p')" "names_ok p s" for p p' key d s
    using that by (cases s) (auto simp: user_index_def set_name_def named_set_val [where val = user_value] split: if_splits)
qed (auto simp: user_index_def set_name_def structs_ok_def indexed_set_val split: if_splits)

lemma cond_index_bool_ok [index_steps]: "index_fun_ok p_bools cond_index_bool"
proof (rule index_fun_okI)
  show "names_ok p' s" if "(key, d) \<in> set (hashtab_nodes (st_table (p_bools p)))" "cond_index_bool key d p = (OK, p')" "names_ok p s" for p p' key d s
    using that by (cases s) (auto simp: cond_index_bool_def set_name_def named_set_val [where val = bool_value] split: if_splits)
qed (auto simp: cond_index_bool_def set_name_def structs_ok_def indexed_set_val split: if_splits)

lemma sens_index_ok [index_steps]: "index_fun_ok p_levels sens_index"
proof (rule index_fun_okI)
  show "names_ok p' s" if "(key, d) \<in> set (hashtab_nodes (st_table (p_levels p)))" "sens_index key d p = (OK, p')" "names_ok p s" for p p' key d s
    using that by (cases s) (auto simp: sens_index_def set_name_def named_set_val [where val = "\<lambda>d. lvl_sens (lev_level d)"] split: if_splits)
qed (auto simp: sens_index_def set_name_def structs_ok_def indexed_set_val split: if_splits)

lemma cat_index_ok [index_steps]: "index_fun_ok p_cats cat_index"
proof (rule index_fun_okI)
  show "names_ok p' s" if "(key, d) \<in> set (hashtab_nodes (st_table (p_cats p)))" "cat_index key d p = (OK, p')" "names_ok p s" for p p' key d s
    using that by (cases s) (auto simp: cat_index_def set_name_def named_set_val [where val = cat_value] split: if_splits)
qed (auto simp: cat_index_def set_name_def structs_ok_def indexed_set_val split: if_splits)

lemma hashtab_map_nodes_inv:
  assumes "hashtab_map_nodes f ns st = (OK, st')" "I st"
    "\<And>k d st st'. (k, d) \<in> set ns \<Longrightarrow> f k d st = (OK, st') \<Longrightarrow> I st \<Longrightarrow> I st'"
  shows "I st'"
  using assms
proof (induction ns arbitrary: st)
  case (Cons cur rest)
  from Cons.prems(1) obtain st1 where st1: "f (fst cur) (snd cur) st = (OK, st1)" "hashtab_map_nodes f rest st1 = (OK, st')"
    by (auto split: prod.splits option.splits)
  have "I st1"
    using Cons.prems(2) Cons.prems(3) [of "fst cur" "snd cur" st st1] st1(1) by simp
  then show ?case
    using Cons.IH [OF st1(2)] Cons.prems(3) by (meson list.set_intros(2))
qed simp

lemma alloc_array_OK: "alloc_array upd n p m = (OK, p', m') \<Longrightarrow> p' = upd (replicate (unat n) None) p"
  by (auto simp: alloc_array_def split: prod.splits bool.splits)

lemma index_table_inv:
  assumes "index_table s tab f p m = (OK, p', m')" "index_fun_ok tab f" "index_inv p0 S p"
    "\<And>p p'. index_inv p0 {} p \<Longrightarrow> index_inv p0 {} p' \<Longrightarrow> tab p = tab p'"
    "\<And>p. names_ok (p\<lparr>sym_val_to_name := (sym_val_to_name p)(s := replicate (unat (st_nprim (tab p))) None)\<rparr>) s"
  shows "index_inv p0 (insert s S) p'"
proof -
  define p1 where "p1 = p\<lparr>sym_val_to_name := (sym_val_to_name p)(s := replicate (unat (st_nprim (tab p))) None)\<rparr>"
  have map: "hashtab_map_nodes f (hashtab_nodes (st_table (tab p1))) p1 = (OK, p')"
    using assms(1)
    by (auto simp: index_table_def hashtab_map_def p1_def split: prod.splits elim!: then_ok_OK_E dest!: alloc_array_OK)
  have "names_ok p1 s' = names_ok p s'" if "s' \<noteq> s" for s'
    using that by (cases s') (simp_all add: p1_def)
  moreover have "names_ok p1 s"
    unfolding p1_def by (rule assms(5))
  moreover have "names_ok p s'" if "s' \<in> S" for s'
    using assms(3) that by (simp add: index_inv_def)
  ultimately have "\<forall>s' \<in> insert s S. names_ok p1 s'"
    by (metis insert_iff)
  then have "index_inv p0 (insert s S) p1"
    using assms(3) by (auto simp: index_inv_def structs_ok_def p1_def)
  with map show ?thesis
  proof (rule hashtab_map_nodes_inv)
    fix k d q q'
    assume a: "(k, d) \<in> set (hashtab_nodes (st_table (tab p1)))" "f k d q = (OK, q')" "index_inv p0 (insert s S) q"
    have "tab p1 = tab q"
      using \<open>index_inv p0 (insert s S) p1\<close> a(3) by (intro assms(4)) (simp_all add: index_inv_def)
    then show "index_inv p0 (insert s S) q'"
      using assms(2) a unfolding index_fun_ok_def by metis
  qed
qed

lemma index_tables_start:
  assumes "cond_init_bool_indexes
      (p\<lparr>class_val_to_struct := replicate (unat (st_nprim (p_classes p))) None,
         role_val_to_struct := replicate (unat (st_nprim (p_roles p))) None,
         user_val_to_struct := replicate (unat (st_nprim (p_users p))) None,
         type_val_to_struct := replicate (unat (st_nprim (p_types p))) None\<rparr>) m = (OK, p', m')"
  shows "index_inv p {} p'"
  using assms by (auto simp: cond_init_bool_indexes_def index_inv_def structs_ok_def split: prod.splits bool.splits)

lemma policydb_index_inv:
  assumes "policydb_index p m = (OK, p', m')"
  shows "index_inv p UNIV p'"
proof -
  have UNIV: "UNIV = {SYM_CATS, SYM_LEVELS, SYM_BOOLS, SYM_USERS, SYM_TYPES, SYM_ROLES, SYM_CLASSES, SYM_COMMONS}"
    using sym.exhaust by blast
  obtain q m0 q1 m1 q2 m2 q3 m3 q4 m4 q5 m5 q6 m6 q7 m7 where
      i1: "index_table SYM_COMMONS p_commons common_index q m0 = (OK, q1, m1)"
    and i2: "index_table SYM_CLASSES p_classes class_index q1 m1 = (OK, q2, m2)"
    and i3: "index_table SYM_ROLES p_roles role_index q2 m2 = (OK, q3, m3)"
    and i4: "index_table SYM_TYPES p_types type_index q3 m3 = (OK, q4, m4)"
    and i5: "index_table SYM_USERS p_users user_index q4 m4 = (OK, q5, m5)"
    and i6: "index_table SYM_BOOLS p_bools cond_index_bool q5 m5 = (OK, q6, m6)"
    and i7: "index_table SYM_LEVELS p_levels sens_index q6 m6 = (OK, q7, m7)"
    and i8: "index_table SYM_CATS p_cats cat_index q7 m7 = (OK, p', m')"
    and i0: "index_inv p {} q"
    using assms unfolding policydb_index_def
    by (auto elim!: then_ok_OK_E dest!: alloc_array_OK index_tables_start)
  from i0 have "index_inv p {SYM_COMMONS} q1"
    by (rule index_table_inv [OF i1 common_index_ok]) (simp_all add: index_inv_def)
  then have "index_inv p {SYM_CLASSES, SYM_COMMONS} q2"
    by (rule index_table_inv [OF i2 class_index_ok]) (simp_all add: index_inv_def)
  then have "index_inv p {SYM_ROLES, SYM_CLASSES, SYM_COMMONS} q3"
    by (rule index_table_inv [OF i3 role_index_ok]) (simp_all add: index_inv_def)
  then have "index_inv p {SYM_TYPES, SYM_ROLES, SYM_CLASSES, SYM_COMMONS} q4"
    by (rule index_table_inv [OF i4 type_index_ok]) (simp_all add: index_inv_def)
  then have "index_inv p {SYM_USERS, SYM_TYPES, SYM_ROLES, SYM_CLASSES, SYM_COMMONS} q5"
    by (rule index_table_inv [OF i5 user_index_ok]) (simp_all add: index_inv_def)
  then have "index_inv p {SYM_BOOLS, SYM_USERS, SYM_TYPES, SYM_ROLES, SYM_CLASSES, SYM_COMMONS} q6"
    by (rule index_table_inv [OF i6 cond_index_bool_ok]) (simp_all add: index_inv_def)
  then have "index_inv p {SYM_LEVELS, SYM_BOOLS, SYM_USERS, SYM_TYPES, SYM_ROLES, SYM_CLASSES, SYM_COMMONS} q7"
    by (rule index_table_inv [OF i7 sens_index_ok]) (simp_all add: index_inv_def)
  then have "index_inv p {SYM_CATS, SYM_LEVELS, SYM_BOOLS, SYM_USERS, SYM_TYPES, SYM_ROLES, SYM_CLASSES, SYM_COMMONS} p'"
    by (rule index_table_inv [OF i8 cat_index_ok]) (simp_all add: index_inv_def)
  then show ?thesis
    by (simp only: UNIV)
qed


section \<open>Chains of bounds\<close>

text \<open>
  A chain leads from a datum to the last of its bounds, each link the entry of the index array that
  the bounds of the datum before it name.
\<close>

fun type_chain :: "policydb \<Rightarrow> type_datum \<Rightarrow> type_datum list \<Rightarrow> bool" where
  "type_chain p t [] \<longleftrightarrow> type_bounds t = 0"
| "type_chain p t (u # us) \<longleftrightarrow> type_bounds t \<noteq> 0 \<and>
     val_to_struct (type_val_to_struct p) (type_bounds t) = Some u \<and> \<not> type_attribute u \<and> type_chain p u us"

fun user_chain :: "policydb \<Rightarrow> user_datum \<Rightarrow> user_datum \<Rightarrow> user_datum list \<Rightarrow> bool" where
  "user_chain p user t [] \<longleftrightarrow> user_bounds t = 0"
| "user_chain p user t (u # us) \<longleftrightarrow> user_bounds t \<noteq> 0 \<and>
     val_to_struct (user_val_to_struct p) (user_bounds t) = Some u \<and>
     (\<forall>b \<in> set (ebitmap_positive_bits (user_roles user)). ebitmap_get_bit (user_roles u) (unat b)) \<and>
     user_chain p user u us"

fun role_chain :: "policydb \<Rightarrow> role_datum \<Rightarrow> role_datum \<Rightarrow> role_datum list \<Rightarrow> bool" where
  "role_chain p role t [] \<longleftrightarrow> role_bounds t = 0"
| "role_chain p role t (u # us) \<longleftrightarrow> role_bounds t \<noteq> 0 \<and>
     val_to_struct (role_val_to_struct p) (role_bounds t) = Some u \<and>
     (\<forall>b \<in> set (ebitmap_positive_bits (role_types role)). ebitmap_get_bit (role_types u) (unat b)) \<and>
     role_chain p role u us"

lemma ex_list_less: "(\<exists>us. length us < Suc k \<and> P us) \<longleftrightarrow> P [] \<or> (\<exists>u us. length us < k \<and> P (u # us))"
proof
  assume "\<exists>us. length us < Suc k \<and> P us"
  then obtain us where "length us < Suc k" "P us" by blast
  then show "P [] \<or> (\<exists>u us. length us < k \<and> P (u # us))"
    by (cases us) auto
qed (force intro: exI [of _ "[]"])

lemma type_bounds_walk_iff:
  "type_bounds_walk p t (Suc k) f = (OK, f') \<longleftrightarrow> f' = f \<and> (\<exists>us. length us < Suc k \<and> type_chain p t us)"
proof (induction k arbitrary: t)
  case (Suc k)
  show ?case
    by (subst type_bounds_walk.simps, subst ex_list_less) (auto simp: Suc.IH split: option.split)
qed (subst type_bounds_walk.simps, auto)

lemma user_bounds_walk_iff:
  "user_bounds_walk p user t (Suc k) f = (OK, f') \<longleftrightarrow> f' = f \<and> (\<exists>us. length us < Suc k \<and> user_chain p user t us)"
proof (induction k arbitrary: t)
  case (Suc k)
  show ?case
    by (subst user_bounds_walk.simps, subst ex_list_less) (auto simp: Suc.IH list_all_iff split: option.split)
qed (subst user_bounds_walk.simps, auto)

lemma role_bounds_walk_iff:
  "role_bounds_walk p role t (Suc k) f = (OK, f') \<longleftrightarrow> f' = f \<and> (\<exists>us. length us < Suc k \<and> role_chain p role t us)"
proof (induction k arbitrary: t)
  case (Suc k)
  show ?case
    by (subst role_bounds_walk.simps, subst ex_list_less) (auto simp: Suc.IH list_all_iff split: option.split)
qed (subst role_bounds_walk.simps, auto)

lemma hashtab_map_nodes_check:
  assumes "\<And>k d st'. f k d st = (OK, st') \<longleftrightarrow> st' = st \<and> P d"
  shows "hashtab_map_nodes f ns st = (OK, st') \<longleftrightarrow> st' = st \<and> (\<forall>n \<in> set ns. P (snd n))"
proof (induction ns)
  case (Cons n ns)
  obtain rc st1 where r: "f (fst n) (snd n) st = (rc, st1)" by fastforce
  show ?case
  proof (cases rc)
    case None
    then have "st1 = st \<and> P (snd n)"
      using assms [of "fst n" "snd n" st1] r by simp
    then show ?thesis using r None Cons.IH by simp
  next
    case (Some e)
    then have "\<not> P (snd n)"
      using assms [of "fst n" "snd n" st] r by simp
    then show ?thesis using r Some by simp
  qed
qed auto

lemmas bounds_checks =
  type_bounds_walk_iff [where k = 3] user_bounds_walk_iff [where k = 3] role_bounds_walk_iff [where k = 3]

lemma type_bounds_check_iff:
  "type_bounds_sanity_check p key t f = (OK, f') \<longleftrightarrow> f' = f \<and> (\<exists>us. length us < POLICYDB_BOUNDS_MAXDEPTH \<and> type_chain p t us)"
  using bounds_checks(1) by (simp add: type_bounds_sanity_check_def numeral_eq_Suc)

lemma user_bounds_check_iff:
  "user_bounds_sanity_check p key t f = (OK, f') \<longleftrightarrow> f' = f \<and> (\<exists>us. length us < POLICYDB_BOUNDS_MAXDEPTH \<and> user_chain p t t us)"
  using bounds_checks(2) by (simp add: user_bounds_sanity_check_def numeral_eq_Suc)

lemma role_bounds_check_iff:
  "role_bounds_sanity_check p key t f = (OK, f') \<longleftrightarrow> f' = f \<and> (\<exists>us. length us < POLICYDB_BOUNDS_MAXDEPTH \<and> role_chain p t t us)"
  using bounds_checks(3) by (simp add: role_bounds_sanity_check_def numeral_eq_Suc)

lemma type_bounds_map:
  "hashtab_map_nodes (type_bounds_sanity_check p) ns f = (OK, f') \<longleftrightarrow>
    f' = f \<and> (\<forall>n \<in> set ns. \<exists>us. length us < POLICYDB_BOUNDS_MAXDEPTH \<and> type_chain p (snd n) us)"
  by (rule hashtab_map_nodes_check) (rule type_bounds_check_iff)

lemma user_bounds_map:
  "hashtab_map_nodes (user_bounds_sanity_check p) ns f = (OK, f') \<longleftrightarrow>
    f' = f \<and> (\<forall>n \<in> set ns. \<exists>us. length us < POLICYDB_BOUNDS_MAXDEPTH \<and> user_chain p (snd n) (snd n) us)"
  by (rule hashtab_map_nodes_check) (rule user_bounds_check_iff)

lemma role_bounds_map:
  "hashtab_map_nodes (role_bounds_sanity_check p) ns f = (OK, f') \<longleftrightarrow>
    f' = f \<and> (\<forall>n \<in> set ns. \<exists>us. length us < POLICYDB_BOUNDS_MAXDEPTH \<and> role_chain p (snd n) (snd n) us)"
  by (rule hashtab_map_nodes_check) (rule role_bounds_check_iff)

section \<open>Properties\<close>


definition sample_type :: "u32 \<Rightarrow> u32 \<Rightarrow> type_datum" where
  "sample_type v b = \<lparr>type_value = v, type_bounds = b, type_primary = True, type_attribute = False\<rparr>"

definition sample_policydb :: policydb where
  "sample_policydb = policydb_init\<lparr>p_types :=
     \<lparr>st_table = \<lparr>ht_htable = [[(''a_t'', sample_type 1 0), (''b_t'', sample_type 2 1)]], ht_size = 1, ht_nel = 2\<rparr>,
      st_nprim = 2\<rparr>, policyvers := 33\<rparr>"

lemmas sample_policydb_simps = sample_policydb_def policydb_init_def symtab_zero_def sample_type_def hashtab_map_def hashtab_nodes_def


lemma bounds_check_iff:
  assumes "\<not> policyvers p < POLICYDB_VERSION_BOUNDARY"
  shows "policydb_bounds_sanity_check p = (OK, fault) \<longleftrightarrow> \<not> fault \<and>
    (\<forall>n \<in> set (hashtab_nodes (st_table (p_users p))).
       \<exists>us. length us < POLICYDB_BOUNDS_MAXDEPTH \<and> user_chain p (snd n) (snd n) us) \<and>
    (\<forall>n \<in> set (hashtab_nodes (st_table (p_roles p))).
       \<exists>us. length us < POLICYDB_BOUNDS_MAXDEPTH \<and> role_chain p (snd n) (snd n) us) \<and>
    (\<forall>n \<in> set (hashtab_nodes (st_table (p_types p))).
       \<exists>us. length us < POLICYDB_BOUNDS_MAXDEPTH \<and> type_chain p (snd n) us)"
proof -
  let ?U = "hashtab_map (st_table (p_users p)) (user_bounds_sanity_check p)"
  let ?R = "hashtab_map (st_table (p_roles p)) (role_bounds_sanity_check p)"
  let ?T = "hashtab_map (st_table (p_types p)) (type_bounds_sanity_check p)"
  have "policydb_bounds_sanity_check p = (OK, fault) \<longleftrightarrow>
      (\<exists>f f'. ?U False = (OK, f) \<and> ?R f = (OK, f') \<and> ?T f' = (OK, fault))"
    using assms by (auto simp: policydb_bounds_sanity_check_def split: prod.splits option.splits)
  also have "\<dots> \<longleftrightarrow> ?U False = (OK, False) \<and> ?R False = (OK, False) \<and> ?T False = (OK, fault)"
    unfolding hashtab_map_def type_bounds_map user_bounds_map role_bounds_map by blast
  finally show ?thesis
    unfolding hashtab_map_def type_bounds_map user_bounds_map role_bounds_map by blast
qed

text \<open>
  C33. The sanity check of the bounds accepts exactly the policies in which every user, role and type
  leads through fewer than four bounds to one without bounds, no type being bounded by an attribute,
  and no user or role having a role or type that one of its bounds lacks. It then meets no null
  entry.
\<close>

theorem bounds_sanity_check_spec:
  assumes "\<not> policyvers p < POLICYDB_VERSION_BOUNDARY"
  shows "policydb_bounds_sanity_check p = (OK, fault) \<longleftrightarrow> \<not> fault \<and>
    (\<forall>n \<in> set (hashtab_nodes (st_table (p_users p))).
       \<exists>us. length us < POLICYDB_BOUNDS_MAXDEPTH \<and> user_chain p (snd n) (snd n) us) \<and>
    (\<forall>n \<in> set (hashtab_nodes (st_table (p_roles p))).
       \<exists>us. length us < POLICYDB_BOUNDS_MAXDEPTH \<and> role_chain p (snd n) (snd n) us) \<and>
    (\<forall>n \<in> set (hashtab_nodes (st_table (p_types p))).
       \<exists>us. length us < POLICYDB_BOUNDS_MAXDEPTH \<and> type_chain p (snd n) us)"
  by (rule bounds_check_iff [OF assms])

theorem bounds_sanity_check_spec_witness:
  "\<exists>p'. policydb_index sample_policydb [] = (OK, p', []) \<and> policydb_bounds_sanity_check p' = (OK, False)"
proof -
  obtain p' where p': "policydb_index sample_policydb [] = (OK, p', [])" "policyvers p' = 33"
      "type_val_to_struct p' = [Some (sample_type 1 0), Some (sample_type 2 1)]"
      "p_types p' = p_types sample_policydb" "p_users p' = symtab_zero" "p_roles p' = symtab_zero"
    by (simp add: policydb_index_def alloc_array_def cond_init_bool_indexes_def index_table_def
        type_index_def set_name_def set_val_def sample_policydb_simps) (simp add: numeral_2_eq_2)
  have "type_chain p' (sample_type 1 0) []" "type_chain p' (sample_type 2 1) [sample_type 1 0]"
    by (simp_all add: sample_type_def val_to_struct_def p'(3))
  then have "policydb_bounds_sanity_check p' = (OK, False)"
    using p'(2,4-6)
    by (subst bounds_sanity_check_spec) (auto simp: sample_policydb_simps intro: exI [of _ "[]"] exI [of _ "[sample_type 1 0]"])
  then show ?thesis using p'(1) by blast
qed

text \<open>
  A bound may name a value that no role has: the structure at this value is null, and the check follows
  it.
\<close>

definition unbound_policydb :: policydb where
  "unbound_policydb = policydb_init\<lparr>policyvers := 33, p_roles :=
     \<lparr>st_table = \<lparr>ht_htable = [[(''r'', \<lparr>role_value = 1, role_bounds = 2, role_dominates = ebitmap_init, role_types = ebitmap_init\<rparr>)]],
        ht_size = 1, ht_nel = 1\<rparr>, st_nprim = 2\<rparr>\<rparr>"

lemma bounds_of_missing_role:
  "\<exists>p'. policydb_index unbound_policydb [] = (OK, p', []) \<and> snd (policydb_bounds_sanity_check p')"
  by (simp add: policydb_index_def alloc_array_def cond_init_bool_indexes_def index_table_def hashtab_map_def hashtab_nodes_def role_index_def
      set_name_def set_val_def unbound_policydb_def policydb_init_def symtab_zero_def)
    (simp add: policydb_bounds_sanity_check_def hashtab_map_def hashtab_nodes_def role_bounds_sanity_check_def val_to_struct_def role_bounds_walk.simps)

end
