(* ===== verification/Av_Decision.thy ===== *)
theory Av_Decision
  imports Avtab
begin

text \<open>
  Access vector decisions and extended permissions (\<open>include/security.h\<close>), and the two functions of
  \<open>ss/services.c\<close> that add the extended permissions of one rule to a decision. They are shared by the
  conditional policy and the security server.
\<close>

section \<open>Decisions\<close>

record av_decision =
  allowed :: u32
  auditallow :: u32
  auditdeny :: u32
  seqno :: u32
  avd_flags :: u32

abbreviation AVD_FLAGS_PERMISSIVE :: u32 where "AVD_FLAGS_PERMISSIVE \<equiv> 0x0001"
abbreviation XPERMS_ALLOWED :: u8 where "XPERMS_ALLOWED \<equiv> 1"
abbreviation XPERMS_AUDITALLOW :: u8 where "XPERMS_AUDITALLOW \<equiv> 2"
abbreviation XPERMS_DONTAUDIT :: u8 where "XPERMS_DONTAUDIT \<equiv> 4"

text \<open>The 256 permission bits of \<open>extended_perms_data\<close>.\<close>

type_synonym xperms_data = "u32 list"

definition xperms_none :: xperms_data where
  "xperms_none = replicate 8 0"

definition xperms_all :: xperms_data where
  "xperms_all = replicate 8 0xffffffff"

definition security_xperm_set :: "xperms_data \<Rightarrow> u8 \<Rightarrow> xperms_data" where
  "security_xperm_set perms x =
     (let i = unat (drop_bit 5 x) in perms[i := (perms ! i) OR push_bit (unat (x AND 0x1f)) 1])"

definition security_xperm_test :: "xperms_data \<Rightarrow> u8 \<Rightarrow> bool" where
  "security_xperm_test perms x \<longleftrightarrow> bit (perms ! unat (drop_bit 5 x)) (unat (x AND 0x1f))"

definition xperms_or :: "xperms_data \<Rightarrow> xperms_data \<Rightarrow> xperms_data" where
  "xperms_or a b = map2 (\<lambda>v w. v OR w) a b"

record extended_perms_decision =
  xd_used :: u8
  xd_driver :: u8
  xd_allowed :: xperms_data
  xd_auditallow :: xperms_data
  xd_dontaudit :: xperms_data

record extended_perms =
  xp_len :: u16
  xp_drivers :: xperms_data

section \<open>Extended permissions of one rule\<close>

text \<open>
  A node with an extended permission in its key carries extended permissions; for another node
  nothing happens here.
\<close>

definition services_compute_xperms_drivers :: "extended_perms \<Rightarrow> avtab_node \<Rightarrow> extended_perms" where
  "services_compute_xperms_drivers xperms node =
     (case an_datum node of
        Data _ \<Rightarrow> xperms
      | Xperms x \<Rightarrow>
          (let xperms' =
             (if xp_specified x = AVTAB_XPERMS_IOCTLDRIVER
              then xperms\<lparr>xp_drivers := xperms_or (xp_drivers xperms) (xp_perms x)\<rparr>
              else if xp_specified x = AVTAB_XPERMS_IOCTLFUNCTION
              then xperms\<lparr>xp_drivers := security_xperm_set (xp_drivers xperms) (xp_driver x)\<rparr>
              else xperms)
           in xperms'\<lparr>xp_len := 1\<rparr>))"

text \<open>The permissions a rule contributes: all of a driver, or those it lists.\<close>

definition xperms_merge :: "avtab_extended_perms \<Rightarrow> xperms_data \<Rightarrow> xperms_data" where
  "xperms_merge x cur =
     (let cur1 = (if xp_specified x = AVTAB_XPERMS_IOCTLDRIVER then xperms_all else cur)
      in if xp_specified x = AVTAB_XPERMS_IOCTLFUNCTION then xperms_or cur1 (xp_perms x) else cur1)"

definition services_compute_xperms_decision :: "extended_perms_decision \<Rightarrow> avtab_node \<Rightarrow> extended_perms_decision" where
  "services_compute_xperms_decision xpermd node =
     (case an_datum node of
        Data _ \<Rightarrow> xpermd
      | Xperms x \<Rightarrow>
          if xp_specified x = AVTAB_XPERMS_IOCTLFUNCTION \<and> xd_driver xpermd \<noteq> xp_driver x then xpermd
          else if xp_specified x = AVTAB_XPERMS_IOCTLDRIVER \<and> \<not> security_xperm_test (xp_perms x) (xd_driver xpermd)
          then xpermd
          else if xp_specified x \<noteq> AVTAB_XPERMS_IOCTLFUNCTION \<and> xp_specified x \<noteq> AVTAB_XPERMS_IOCTLDRIVER then xpermd
          else if specified (an_key node) = AVTAB_XPERMS_ALLOWED
          then xpermd\<lparr>xd_used := xd_used xpermd OR XPERMS_ALLOWED, xd_allowed := xperms_merge x (xd_allowed xpermd)\<rparr>
          else if specified (an_key node) = AVTAB_XPERMS_AUDITALLOW
          then xpermd\<lparr>xd_used := xd_used xpermd OR XPERMS_AUDITALLOW, xd_auditallow := xperms_merge x (xd_auditallow xpermd)\<rparr>
          else if specified (an_key node) = AVTAB_XPERMS_DONTAUDIT
          then xpermd\<lparr>xd_used := xd_used xpermd OR XPERMS_DONTAUDIT, xd_dontaudit := xperms_merge x (xd_dontaudit xpermd)\<rparr>
          else xpermd)"

section \<open>Permission bits\<close>

definition xperms_bits :: "xperms_data \<Rightarrow> nat set" where
  "xperms_bits ps = {k. k < 256 \<and> bit (ps ! (k div 32)) (k mod 32)}"

lemma xperms_bits_none [simp]: "xperms_bits xperms_none = {}"
proof -
  have "replicate 8 (0 :: u32) ! (k div 32) = 0" if "k < 256" for k
    using that by (intro nth_replicate) auto
  then show ?thesis by (auto simp: xperms_bits_def xperms_none_def)
qed

lemma xperms_bits_all: "xperms_bits xperms_all = {0..<256}"
proof -
  have "bit (replicate 8 (0xffffffff :: u32) ! (k div 32)) (k mod 32)" if "k < 256" for k
  proof -
    have "replicate 8 (0xffffffff :: u32) ! (k div 32) = - 1"
      using that by (subst nth_replicate) auto
    then show ?thesis by simp
  qed
  then show ?thesis by (auto simp: xperms_bits_def xperms_all_def)
qed

lemma xperms_bits_or:
  assumes "length a = 8" "length b = 8"
  shows "xperms_bits (xperms_or a b) = xperms_bits a \<union> xperms_bits b"
proof -
  have "xperms_or a b ! (k div 32) = (a ! (k div 32)) OR (b ! (k div 32))" if "k < 256" for k
    using assms that by (simp add: xperms_or_def less_mult_imp_div_less)
  then show ?thesis by (auto simp: xperms_bits_def bit_or_iff)
qed

lemma unat_low5: "unat ((x :: u8) AND 0x1f) = unat x mod 32"
proof -
  have "(0x1f :: u8) = mask 5" by (simp add: mask_eq_exp_minus_1)
  then have "x AND 0x1f = take_bit 5 x" by (simp only: take_bit_eq_mask)
  then show ?thesis by (simp add: take_bit_eq_mod unat_mod)
qed

lemma unat_high3: "unat (drop_bit 5 (x :: u8)) = unat x div 32"
  by (simp add: drop_bit_eq_div unat_div)

lemma unat_u8_bound [simp]: "unat (x :: u8) < 256"
  using unsigned_less [of x, where ?'a = nat] by simp

lemma xperm_test_bits: "security_xperm_test ps x \<longleftrightarrow> unat x \<in> xperms_bits ps"
  by (simp add: security_xperm_test_def xperms_bits_def unat_low5 unat_high3)

lemma xperm_set_bits:
  assumes "length ps = 8"
  shows "xperms_bits (security_xperm_set ps x) = insert (unat x) (xperms_bits ps)"
proof -
  let ?i = "unat x div 32"
  have i: "?i < 8" using unat_u8_bound [of x] by linarith
  have "bit (security_xperm_set ps x ! (k div 32)) (k mod 32) \<longleftrightarrow> k = unat x \<or> bit (ps ! (k div 32)) (k mod 32)"
    if "k < 256" for k
  proof -
    have "k = unat x \<longleftrightarrow> k div 32 = ?i \<and> k mod 32 = unat x mod 32"
      by (metis div_mult_mod_eq)
    then show ?thesis
      using assms i that
      by (auto simp: security_xperm_set_def Let_def unat_low5 unat_high3 nth_list_update bit_or_iff bit_push_bit_iff bit_exp_iff)
  qed
  then show ?thesis by (auto simp: xperms_bits_def)
qed

lemma length_xperms [simp]:
  "length xperms_none = 8" "length xperms_all = 8" "length (security_xperm_set ps x) = length ps"
  by (simp_all add: xperms_none_def xperms_all_def security_xperm_set_def Let_def)

end
