(* ===== verification/Class_Map.thy ===== *)
theory Class_Map
  imports Policydb Av_Decision
begin

text \<open>
  The mapping between the classes and permissions the kernel is compiled with and those of the loaded
  policy (\<open>ss/services.c\<close>, \<open>ss/services.h\<close>): its construction by name, the translation of classes in
  both directions and of a decision into the permission numbers of the kernel.

  The table of the kernel is an argument: a list of class names with their permission names, where
  the source ends both with a null pointer. The messages about unknown names are not modelled.
\<close>

section \<open>The mapping\<close>

record selinux_mapping =
  map_value :: u16
  num_perms :: u16
  map_perms :: "u32 list"

record selinux_map =
  mapping :: "selinux_mapping list"
  map_size :: u16

type_synonym security_class_mapping = "string \<times> string list"

text \<open>An entry as \<open>kcalloc\<close> leaves it.\<close>

definition mapping_zero :: selinux_mapping where
  "mapping_zero = \<lparr>map_value = 0, num_perms = 0, map_perms = replicate 32 0\<rparr>"

text \<open>
  The inner loop: the values of the permissions from the index \<open>k\<close> on, or \<open>None\<close> when the policy
  rejects an unknown one. A permission that is skipped keeps the 0 of the allocation.
\<close>

fun set_mapping_perms :: "policydb \<Rightarrow> u16 \<Rightarrow> string list \<Rightarrow> nat \<Rightarrow> u32 list \<Rightarrow> u32 list option" where
  "set_mapping_perms pol value [] k perms = Some perms"
| "set_mapping_perms pol value (q # qs) k perms =
     (if q = [] then set_mapping_perms pol value qs (Suc k) perms
      else let v = string_to_av_perm pol value q
           in if v = 0 \<and> reject_unknown pol then None
              else set_mapping_perms pol value qs (Suc k) (perms[k := v]))"

definition set_mapping_class :: "policydb \<Rightarrow> security_class_mapping \<Rightarrow> selinux_mapping option" where
  "set_mapping_class pol p_in =
     (if fst p_in = [] then Some mapping_zero
      else let value = string_to_security_class pol (fst p_in)
           in if value = 0 then if reject_unknown pol then None else Some mapping_zero
              else case set_mapping_perms pol value (snd p_in) 0 (map_perms mapping_zero) of
                     None \<Rightarrow> None
                   | Some perms \<Rightarrow> Some \<lparr>map_value = value, num_perms = of_nat (length (snd p_in)), map_perms = perms\<rparr>)"

fun set_mapping_classes :: "policydb \<Rightarrow> security_class_mapping list \<Rightarrow> selinux_mapping list option" where
  "set_mapping_classes pol [] = Some []"
| "set_mapping_classes pol (p_in # rest) =
     (case set_mapping_class pol p_in of
        None \<Rightarrow> None
      | Some p_out \<Rightarrow> map_option ((#) p_out) (set_mapping_classes pol rest))"

definition selinux_set_mapping ::
  "policydb \<Rightarrow> security_class_mapping list option \<Rightarrow> selinux_map \<Rightarrow> mem \<Rightarrow> rc \<times> selinux_map \<times> mem" where
  "selinux_set_mapping pol kmap out_map m =
     (case kmap of
        None \<Rightarrow> (Err EINVAL, out_map, m)
      | Some classes \<Rightarrow>
          (case kalloc m of
             (False, m') \<Rightarrow> (Err ENOMEM, out_map\<lparr>mapping := []\<rparr>, m')
           | (True, m') \<Rightarrow>
               (case set_mapping_classes pol classes of
                  None \<Rightarrow> (Err EINVAL, out_map\<lparr>mapping := []\<rparr>, m')
                | Some entries \<Rightarrow>
                    (OK, \<lparr>mapping = mapping_zero # entries, map_size = of_nat (length classes + 1)\<rparr>, m'))))"

definition unmap_class :: "selinux_map \<Rightarrow> u16 \<Rightarrow> u16" where
  "unmap_class smap tclass =
     (if tclass < map_size smap then map_value (mapping smap ! unat tclass) else tclass)"

definition map_class :: "selinux_map \<Rightarrow> u16 \<Rightarrow> u16" where
  "map_class smap pol_value =
     (case find (\<lambda>i. map_value (mapping smap ! i) = pol_value) [1..<unat (map_size smap)] of
        Some i \<Rightarrow> of_nat i
      | None \<Rightarrow> 0)"

text \<open>The loops of \<open>map_decision\<close>: the bits below \<open>n\<close> whose permission satisfies the test.\<close>

fun map_bits :: "(u32 \<Rightarrow> bool) \<Rightarrow> u32 list \<Rightarrow> nat \<Rightarrow> u32" where
  "map_bits test perms 0 = 0"
| "map_bits test perms (Suc i) =
     (if test (perms ! i) then map_bits test perms i OR push_bit i 1 else map_bits test perms i)"

fun high_bits :: "nat \<Rightarrow> u32" where
  "high_bits 0 = 0"
| "high_bits (Suc k) = high_bits k OR push_bit (31 - k) 1"

definition map_decision :: "selinux_map \<Rightarrow> u16 \<Rightarrow> av_decision \<Rightarrow> bool \<Rightarrow> av_decision" where
  "map_decision smap tclass avd au =
     (if tclass < map_size smap
      then let mp = mapping smap ! unat tclass; n = unat (num_perms mp); perms = map_perms mp
           in avd\<lparr>allowed := map_bits (\<lambda>v. allowed avd AND v \<noteq> 0 \<or> au \<and> v = 0) perms n,
                auditallow := map_bits (\<lambda>v. auditallow avd AND v \<noteq> 0) perms n,
                auditdeny := map_bits (\<lambda>v. auditdeny avd AND v \<noteq> 0 \<or> \<not> au \<and> v = 0) perms n OR high_bits (32 - n)\<rparr>
      else avd)"

section \<open>What the construction gives\<close>

lemma set_mapping_perms_nth:
  assumes "set_mapping_perms pol value qs k perms = Some perms'" "k + length qs \<le> length perms"
  shows "length perms' = length perms \<and>
    (\<forall>i < k. perms' ! i = perms ! i) \<and>
    (\<forall>i < length qs. perms' ! (k + i) =
       (if qs ! i = [] then perms ! (k + i) else string_to_av_perm pol value (qs ! i)))"
  using assms
proof (induction qs arbitrary: k perms)
  case Nil
  then show ?case by simp
next
  case (Cons q qs)
  let ?perms = "if q = [] then perms else perms[k := string_to_av_perm pol value q]"
  have s: "set_mapping_perms pol value qs (Suc k) ?perms = Some perms'"
    using Cons.prems(1) by (auto simp: Let_def split: if_splits)
  have l: "Suc k + length qs \<le> length ?perms" using Cons.prems(2) by simp
  note ih = Cons.IH [OF s l]
  have "perms' ! i = perms ! i" if "i < k" for i
    using ih that by simp
  moreover have "perms' ! (k + i) = (if (q # qs) ! i = [] then perms ! (k + i) else string_to_av_perm pol value ((q # qs) ! i))"
    if "i < length (q # qs)" for i
  proof (cases i)
    case 0
    have "perms' ! k = ?perms ! k" using ih by blast
    then show ?thesis using 0 Cons.prems(2) by simp
  next
    case (Suc j)
    then have "j < length qs" using that by simp
    then have "perms' ! (Suc k + j) = (if qs ! j = [] then ?perms ! (Suc k + j) else string_to_av_perm pol value (qs ! j))"
      using ih by blast
    then show ?thesis using Suc by simp
  qed
  ultimately show ?case using ih by simp
qed

lemma set_mapping_classes_nth:
  "set_mapping_classes pol cs = Some es \<longleftrightarrow>
     length es = length cs \<and> (\<forall>i < length cs. set_mapping_class pol (cs ! i) = Some (es ! i))"
proof (induction cs arbitrary: es)
  case Nil
  then show ?case by auto
next
  case (Cons c cs)
  then show ?case
    by (cases es) (auto simp: nth_Cons less_Suc_eq_0_disj split: option.splits nat.splits)
qed

lemma set_mapping_OK:
  assumes "selinux_set_mapping pol (Some classes) out m = (OK, smap, m')"
  shows "map_size smap = of_nat (length classes + 1)" "length (mapping smap) = length classes + 1"
    "\<And>c. c < length classes \<Longrightarrow> set_mapping_class pol (classes ! c) = Some (mapping smap ! Suc c)"
  using assms
  by (auto simp: selinux_set_mapping_def set_mapping_classes_nth split: prod.splits bool.splits option.splits)

lemma bit_map_bits: "n \<le> 32 \<Longrightarrow> bit (map_bits test perms n) k \<longleftrightarrow> k < n \<and> test (perms ! k)"
proof (induction n)
  case (Suc n)
  then show ?case
    by (auto simp: bit_or_iff bit_push_bit_iff bit_exp_iff less_Suc_eq) 
qed simp

lemma bit_high_bits: "n \<le> 32 \<Longrightarrow> bit (high_bits n) k \<longleftrightarrow> 32 - n \<le> k \<and> k < 32"
proof (induction n)
  case (Suc n)
  have "bit (push_bit (31 - n) (1 :: u32)) k \<longleftrightarrow> k = 31 - n"
    using Suc.prems by (auto simp: bit_push_bit_iff bit_exp_iff)
  then show ?case using Suc by (auto simp: bit_or_iff)
qed auto

section \<open>Properties\<close>

text \<open>
  C27. After the mapping of the classes was built, a mapped decision speaks of the permissions of the
  kernel's own table: the bit of a permission is allowed exactly when the policy defines a permission
  of that name in the class of that name and the decision allows it, or when the policy does not
  define it and unknown permissions are allowed. A bit beyond the permissions of the class is never
  allowed and always audited when denied.
\<close>

theorem map_decision_correct:
  assumes "selinux_set_mapping pol (Some classes) out m = (OK, smap, m')"
    and "length classes < 65535" "c < length classes" "classes ! c = (name, perms)"
    and "name \<noteq> []" "string_to_security_class pol name \<noteq> 0" "length perms \<le> 32" "[] \<notin> set perms"
  shows "let d = map_decision smap (of_nat (c + 1)) avd au; cls = string_to_security_class pol name;
             val = (\<lambda>k. string_to_av_perm pol cls (perms ! k))
         in unmap_class smap (of_nat (c + 1)) = cls \<and>
            (\<forall>k. bit (allowed d) k \<longleftrightarrow> k < length perms \<and> (allowed avd AND val k \<noteq> 0 \<or> au \<and> val k = 0)) \<and>
            (\<forall>k. bit (auditallow d) k \<longleftrightarrow> k < length perms \<and> auditallow avd AND val k \<noteq> 0) \<and>
            (\<forall>k < 32. bit (auditdeny d) k \<longleftrightarrow>
               (k < length perms \<longrightarrow> auditdeny avd AND val k \<noteq> 0 \<or> \<not> au \<and> val k = 0))"
proof -
  let ?cls = "string_to_security_class pol name"
  let ?mp = "mapping smap ! Suc c"
  note ok = set_mapping_OK [OF assms(1)]
  have u: "unat (of_nat (Suc c) :: u16) = Suc c" and s: "unat (map_size smap) = Suc (length classes)"
    using assms(2,3) ok(1) by (simp_all add: unat_of_nat del: of_nat_Suc of_nat_add)
  have lt: "(of_nat (Suc c) :: u16) < map_size smap"
    unfolding word_less_nat_alt u s using assms(3) by simp
  obtain ps where ps: "set_mapping_perms pol ?cls perms 0 (replicate 32 0) = Some ps"
    and mp: "?mp = \<lparr>map_value = ?cls, num_perms = of_nat (length perms), map_perms = ps\<rparr>"
    using ok(3) [OF assms(3)] assms(4-6)
    by (auto simp: set_mapping_class_def mapping_zero_def Let_def split: option.splits)
  have val: "ps ! k = string_to_av_perm pol ?cls (perms ! k)" if "k < length perms" for k
  proof -
    have "perms ! k \<noteq> []" using assms(8) nth_mem [OF that] by metis
    then show ?thesis using set_mapping_perms_nth [OF ps] assms(7) that by simp
  qed
  have n: "unat (of_nat (length perms) :: u16) = length perms"
    using assms(7) by (simp add: unat_of_nat)
  have i: "mapping smap ! unat (of_nat (Suc c) :: u16) = ?mp"
    using u by simp
  show ?thesis
    using lt assms(7)
    by (auto simp: Let_def unmap_class_def map_decision_def i mp n bit_map_bits bit_high_bits val bit_or_iff
        simp del: of_nat_Suc)
qed

definition map_policydb :: policydb where
  "map_policydb =
     (let cls = \<lparr>cla_value = 1, cla_comkey = None, cla_comdatum = None,
          cla_permissions = \<lparr>st_table = \<lparr>ht_htable = [[(''read'', \<lparr>perm_value = 2\<rparr>)]], ht_size = 1, ht_nel = 1\<rparr>, st_nprim = 2\<rparr>,
          cla_constraints = [], cla_validatetrans = [], default_user = 0, default_role = 0, default_type = 0,
          default_range = 0\<rparr>
      in policydb_init\<lparr>p_classes := \<lparr>st_table = \<lparr>ht_htable = [[(''file'', cls)]], ht_size = 1, ht_nel = 1\<rparr>, st_nprim = 1\<rparr>,
           class_val_to_struct := [Some cls]\<rparr>)"

theorem map_decision_correct_witness:
  "\<exists>smap. selinux_set_mapping map_policydb (Some [(''file'', [''read'', ''write''])]) \<lparr>mapping = [], map_size = 0\<rparr> [] = (OK, smap, []) \<and>
     unmap_class smap 1 = 1 \<and>
     bit (allowed (map_decision smap 1 \<lparr>allowed = 2, auditallow = 0, auditdeny = 0, seqno = 0, avd_flags = 0\<rparr> False)) 0"
proof -
  have search: "string_to_security_class map_policydb ''file'' = 1"
    "string_to_av_perm map_policydb 1 ''read'' = 2" "string_to_av_perm map_policydb 1 ''write'' = 0"
    by (simp_all add: map_policydb_def Let_def string_to_security_class_def string_to_av_perm_def symtab_search_def
        hashtab_search_def symhash_def symcmp_def val_to_struct_def)
  then obtain smap where s: "selinux_set_mapping map_policydb (Some [(''file'', [''read'', ''write''])])
      \<lparr>mapping = [], map_size = 0\<rparr> [] = (OK, smap, [])"
    by (simp add: selinux_set_mapping_def set_mapping_class_def Let_def map_policydb_def policydb_init_def)
  from map_decision_correct [OF s, of 0 "''file''" "[''read'', ''write'']"
      "\<lparr>allowed = 2, auditallow = 0, auditdeny = 0, seqno = 0, avd_flags = 0\<rparr>" False]
  show ?thesis using s search by (simp add: Let_def)
qed

end
