(* ===== verification/Constraint.thy ===== *)
theory Constraint
  imports Policydb
begin

text \<open>
  Constraint expressions (\<open>constraint_expr_eval\<close> of \<open>ss/services.c\<close>) and the stack check that
  \<open>read_cons_helper\<close> of \<open>ss/policydb.c\<close> makes when it reads one from a policy image.

  The stack of the evaluation is a list with the top first, the stack pointer its length minus one.
  A \<open>BUG()\<close>, a failed \<open>BUG_ON()\<close> and the dereference of a null role are \<open>None\<close>.
\<close>

section \<open>Evaluation\<close>

abbreviation CEXPR_MAXDEPTH :: nat where "CEXPR_MAXDEPTH \<equiv> 5"
abbreviation CEXPR_NOT :: u32 where "CEXPR_NOT \<equiv> 1"
abbreviation CEXPR_AND :: u32 where "CEXPR_AND \<equiv> 2"
abbreviation CEXPR_OR :: u32 where "CEXPR_OR \<equiv> 3"
abbreviation CEXPR_ATTR :: u32 where "CEXPR_ATTR \<equiv> 4"
abbreviation CEXPR_NAMES :: u32 where "CEXPR_NAMES \<equiv> 5"
abbreviation CEXPR_USER :: u32 where "CEXPR_USER \<equiv> 1"
abbreviation CEXPR_ROLE :: u32 where "CEXPR_ROLE \<equiv> 2"
abbreviation CEXPR_TYPE :: u32 where "CEXPR_TYPE \<equiv> 4"
abbreviation CEXPR_TARGET :: u32 where "CEXPR_TARGET \<equiv> 8"
abbreviation CEXPR_XTARGET :: u32 where "CEXPR_XTARGET \<equiv> 16"
abbreviation CEXPR_L1L2 :: u32 where "CEXPR_L1L2 \<equiv> 32"
abbreviation CEXPR_L1H2 :: u32 where "CEXPR_L1H2 \<equiv> 64"
abbreviation CEXPR_H1L2 :: u32 where "CEXPR_H1L2 \<equiv> 128"
abbreviation CEXPR_H1H2 :: u32 where "CEXPR_H1H2 \<equiv> 256"
abbreviation CEXPR_L1H1 :: u32 where "CEXPR_L1H1 \<equiv> 512"
abbreviation CEXPR_L2H2 :: u32 where "CEXPR_L2H2 \<equiv> 1024"
abbreviation CEXPR_EQ :: u32 where "CEXPR_EQ \<equiv> 1"
abbreviation CEXPR_NEQ :: u32 where "CEXPR_NEQ \<equiv> 2"
abbreviation CEXPR_DOM :: u32 where "CEXPR_DOM \<equiv> 3"
abbreviation CEXPR_DOMBY :: u32 where "CEXPR_DOMBY \<equiv> 4"
abbreviation CEXPR_INCOMP :: u32 where "CEXPR_INCOMP \<equiv> 5"

text \<open>The label \<open>mls_ops\<close>.\<close>

definition cexpr_mls_ops :: "u32 \<Rightarrow> mls_level \<Rightarrow> mls_level \<Rightarrow> bool option" where
  "cexpr_mls_ops op l1 l2 =
     (if op = CEXPR_EQ then Some (mls_level_eq l1 l2)
      else if op = CEXPR_NEQ then Some (\<not> mls_level_eq l1 l2)
      else if op = CEXPR_DOM then Some (mls_level_dom l1 l2)
      else if op = CEXPR_DOMBY then Some (mls_level_dom l2 l1)
      else if op = CEXPR_INCOMP then Some (mls_level_incomp l2 l1)
      else None)"

text \<open>The comparison of two values after the inner switch.\<close>

definition cexpr_val_ops :: "u32 \<Rightarrow> u32 \<Rightarrow> u32 \<Rightarrow> bool option" where
  "cexpr_val_ops op val1 val2 =
     (if op = CEXPR_EQ then Some (val1 = val2)
      else if op = CEXPR_NEQ then Some (val1 \<noteq> val2)
      else None)"

definition role_dominates_bit :: "policydb \<Rightarrow> u32 \<Rightarrow> u32 \<Rightarrow> bool option" where
  "role_dominates_bit p r v =
     map_option (\<lambda>d. ebitmap_get_bit (role_dominates d) (unat (v - 1))) (val_to_struct (role_val_to_struct p) r)"

definition cexpr_role :: "policydb \<Rightarrow> u32 \<Rightarrow> u32 \<Rightarrow> u32 \<Rightarrow> bool option" where
  "cexpr_role p op val1 val2 =
     (if op = CEXPR_DOM then role_dominates_bit p val1 val2
      else if op = CEXPR_DOMBY then role_dominates_bit p val2 val1
      else if op = CEXPR_INCOMP
      then (case role_dominates_bit p val1 val2 of
              None \<Rightarrow> None
            | Some True \<Rightarrow> Some False
            | Some False \<Rightarrow> map_option Not (role_dominates_bit p val2 val1))
      else cexpr_val_ops op val1 val2)"

definition cexpr_attr :: "policydb \<Rightarrow> context \<Rightarrow> context \<Rightarrow> constraint_expr \<Rightarrow> bool option" where
  "cexpr_attr p scontext tcontext e =
     (let l1 = level0 (ctx_range scontext); h1 = level1 (ctx_range scontext);
          l2 = level0 (ctx_range tcontext); h2 = level1 (ctx_range tcontext)
      in if ce_attr e = CEXPR_USER then cexpr_val_ops (ce_op e) (ctx_user scontext) (ctx_user tcontext)
         else if ce_attr e = CEXPR_TYPE then cexpr_val_ops (ce_op e) (ctx_type scontext) (ctx_type tcontext)
         else if ce_attr e = CEXPR_ROLE then cexpr_role p (ce_op e) (ctx_role scontext) (ctx_role tcontext)
         else if ce_attr e = CEXPR_L1L2 then cexpr_mls_ops (ce_op e) l1 l2
         else if ce_attr e = CEXPR_L1H2 then cexpr_mls_ops (ce_op e) l1 h2
         else if ce_attr e = CEXPR_H1L2 then cexpr_mls_ops (ce_op e) h1 l2
         else if ce_attr e = CEXPR_H1H2 then cexpr_mls_ops (ce_op e) h1 h2
         else if ce_attr e = CEXPR_L1H1 then cexpr_mls_ops (ce_op e) l1 h1
         else if ce_attr e = CEXPR_L2H2 then cexpr_mls_ops (ce_op e) l2 h2
         else None)"

definition cexpr_names :: "context \<Rightarrow> context \<Rightarrow> context option \<Rightarrow> constraint_expr \<Rightarrow> bool option" where
  "cexpr_names scontext tcontext xcontext e =
     (case (if ce_attr e AND CEXPR_TARGET \<noteq> 0 then Some tcontext
            else if ce_attr e AND CEXPR_XTARGET \<noteq> 0 then xcontext
            else Some scontext) of
        None \<Rightarrow> None
      | Some c \<Rightarrow>
          (case (if ce_attr e AND CEXPR_USER \<noteq> 0 then Some (ctx_user c)
                 else if ce_attr e AND CEXPR_ROLE \<noteq> 0 then Some (ctx_role c)
                 else if ce_attr e AND CEXPR_TYPE \<noteq> 0 then Some (ctx_type c)
                 else None) of
             None \<Rightarrow> None
           | Some val1 \<Rightarrow>
               if ce_op e = CEXPR_EQ then Some (ebitmap_get_bit (ce_names e) (unat (val1 - 1)))
               else if ce_op e = CEXPR_NEQ then Some (\<not> ebitmap_get_bit (ce_names e) (unat (val1 - 1)))
               else None))"

definition cexpr_leaf :: "policydb \<Rightarrow> context \<Rightarrow> context \<Rightarrow> context option \<Rightarrow> constraint_expr \<Rightarrow> bool option" where
  "cexpr_leaf p scontext tcontext xcontext e =
     (if ce_expr_type e = CEXPR_ATTR then cexpr_attr p scontext tcontext e
      else if ce_expr_type e = CEXPR_NAMES then cexpr_names scontext tcontext xcontext e
      else None)"

text \<open>One turn of the loop: the next stack, an early return of 0, or a bug.\<close>

datatype cexpr_step = CNext "bool list" | CReturn | CBug

definition cexpr_eval_step ::
  "policydb \<Rightarrow> context \<Rightarrow> context \<Rightarrow> context option \<Rightarrow> constraint_expr \<Rightarrow> bool list \<Rightarrow> cexpr_step" where
  "cexpr_eval_step p scontext tcontext xcontext e s =
     (if ce_expr_type e = CEXPR_NOT then (case s of a # r \<Rightarrow> CNext ((\<not> a) # r) | _ \<Rightarrow> CBug)
      else if ce_expr_type e = CEXPR_AND then (case s of b # a # r \<Rightarrow> CNext ((a \<and> b) # r) | _ \<Rightarrow> CBug)
      else if ce_expr_type e = CEXPR_OR then (case s of b # a # r \<Rightarrow> CNext ((a \<or> b) # r) | _ \<Rightarrow> CBug)
      else if ce_expr_type e = CEXPR_ATTR \<or> ce_expr_type e = CEXPR_NAMES
      then if length s = CEXPR_MAXDEPTH then CReturn
           else (case cexpr_leaf p scontext tcontext xcontext e of None \<Rightarrow> CBug | Some v \<Rightarrow> CNext (v # s))
      else CBug)"

fun cexpr_run ::
  "policydb \<Rightarrow> context \<Rightarrow> context \<Rightarrow> context option \<Rightarrow> constraint_expr list \<Rightarrow> bool list \<Rightarrow> bool option" where
  "cexpr_run p scontext tcontext xcontext [] s = (case s of [v] \<Rightarrow> Some v | _ \<Rightarrow> None)"
| "cexpr_run p scontext tcontext xcontext (e # es) s =
     (case cexpr_eval_step p scontext tcontext xcontext e s of
        CNext s' \<Rightarrow> cexpr_run p scontext tcontext xcontext es s'
      | CReturn \<Rightarrow> Some False
      | CBug \<Rightarrow> None)"

definition constraint_expr_eval ::
  "policydb \<Rightarrow> context \<Rightarrow> context \<Rightarrow> context option \<Rightarrow> constraint_expr list \<Rightarrow> bool option" where
  "constraint_expr_eval p scontext tcontext xcontext cexpr = cexpr_run p scontext tcontext xcontext cexpr []"

section \<open>The check of the reader\<close>

text \<open>
  \<open>read_cons_helper\<close> counts the depth of the stack over the nodes it reads: \<open>depth\<close> here is the
  number of values on the stack, one more than the variable of the code.
\<close>

definition read_cons_node :: "bool \<Rightarrow> constraint_expr \<Rightarrow> nat \<Rightarrow> nat option" where
  "read_cons_node allowxtarget e depth =
     (if ce_expr_type e = CEXPR_NOT then if depth < 1 then None else Some depth
      else if ce_expr_type e = CEXPR_AND \<or> ce_expr_type e = CEXPR_OR
      then if depth < 2 then None else Some (depth - 1)
      else if ce_expr_type e = CEXPR_ATTR
      then if depth = CEXPR_MAXDEPTH then None else Some (depth + 1)
      else if ce_expr_type e = CEXPR_NAMES
      then if \<not> allowxtarget \<and> ce_attr e AND CEXPR_XTARGET \<noteq> 0 then None
           else if depth = CEXPR_MAXDEPTH then None else Some (depth + 1)
      else None)"

fun read_cons_depth :: "bool \<Rightarrow> constraint_expr list \<Rightarrow> nat \<Rightarrow> nat option" where
  "read_cons_depth allowxtarget [] depth = Some depth"
| "read_cons_depth allowxtarget (e # es) depth =
     (case read_cons_node allowxtarget e depth of
        None \<Rightarrow> None
      | Some d \<Rightarrow> read_cons_depth allowxtarget es d)"

definition read_cons_check :: "bool \<Rightarrow> constraint_expr list \<Rightarrow> rc" where
  "read_cons_check allowxtarget es = (if read_cons_depth allowxtarget es 0 = Some 1 then OK else Err EINVAL)"

section \<open>Expressions as trees\<close>

datatype ctree = CLeaf constraint_expr | CNot constraint_expr ctree | CBin constraint_expr ctree ctree

fun cpostfix :: "ctree \<Rightarrow> constraint_expr list" where
  "cpostfix (CLeaf e) = [e]"
| "cpostfix (CNot e t) = cpostfix t @ [e]"
| "cpostfix (CBin e a b) = cpostfix a @ cpostfix b @ [e]"

fun ctree_ok :: "ctree \<Rightarrow> bool" where
  "ctree_ok (CLeaf e) \<longleftrightarrow> ce_expr_type e = CEXPR_ATTR \<or> ce_expr_type e = CEXPR_NAMES"
| "ctree_ok (CNot e t) \<longleftrightarrow> ce_expr_type e = CEXPR_NOT \<and> ctree_ok t"
| "ctree_ok (CBin e a b) \<longleftrightarrow> (ce_expr_type e = CEXPR_AND \<or> ce_expr_type e = CEXPR_OR) \<and> ctree_ok a \<and> ctree_ok b"

text \<open>The meaning of a tree over the values of its leaves.\<close>

fun ctree_val :: "(constraint_expr \<Rightarrow> bool) \<Rightarrow> ctree \<Rightarrow> bool" where
  "ctree_val leaf (CLeaf e) = leaf e"
| "ctree_val leaf (CNot e t) = (\<not> ctree_val leaf t)"
| "ctree_val leaf (CBin e a b) =
     (if ce_expr_type e = CEXPR_AND then ctree_val leaf a \<and> ctree_val leaf b else ctree_val leaf a \<or> ctree_val leaf b)"

text \<open>The trees on the stack, top first, that a run builds.\<close>

definition ctree_step :: "constraint_expr \<Rightarrow> ctree list \<Rightarrow> ctree list" where
  "ctree_step e ts =
     (if ce_expr_type e = CEXPR_NOT then CNot e (hd ts) # tl ts
      else if ce_expr_type e = CEXPR_AND \<or> ce_expr_type e = CEXPR_OR then CBin e (hd (tl ts)) (hd ts) # tl (tl ts)
      else CLeaf e # ts)"

definition cexpr_leaves_ok :: "policydb \<Rightarrow> context \<Rightarrow> context \<Rightarrow> context option \<Rightarrow> constraint_expr list \<Rightarrow> bool" where
  "cexpr_leaves_ok p s t x es \<longleftrightarrow>
     (\<forall>e \<in> set es. ce_expr_type e = CEXPR_ATTR \<or> ce_expr_type e = CEXPR_NAMES \<longrightarrow> cexpr_leaf p s t x e \<noteq> None)"

definition cexpr_leaf_val :: "policydb \<Rightarrow> context \<Rightarrow> context \<Rightarrow> context option \<Rightarrow> constraint_expr \<Rightarrow> bool" where
  "cexpr_leaf_val p s t x e \<longleftrightarrow> cexpr_leaf p s t x e = Some True"

lemma ctree_step_postfix:
  assumes "read_cons_node ax e (length ts) = Some d"
  shows "concat (map cpostfix (rev (ctree_step e ts))) = concat (map cpostfix (rev ts)) @ [e]"
    "length (ctree_step e ts) = d"
    "\<forall>t \<in> set ts. ctree_ok t \<Longrightarrow> \<forall>t \<in> set (ctree_step e ts). ctree_ok t"
proof -
  consider (leaf) "ctree_step e ts = CLeaf e # ts" "ce_expr_type e = CEXPR_ATTR \<or> ce_expr_type e = CEXPR_NAMES"
      "d = Suc (length ts)"
    | (neg) t r where "ts = t # r" "ctree_step e ts = CNot e t # r" "ce_expr_type e = CEXPR_NOT" "d = length ts"
    | (bin) b a r where "ts = b # a # r" "ctree_step e ts = CBin e a b # r"
        "ce_expr_type e = CEXPR_AND \<or> ce_expr_type e = CEXPR_OR" "d = length ts - 1"
  proof (cases ts)
    case Nil
    then show thesis using assms leaf by (auto simp: read_cons_node_def ctree_step_def split: if_splits)
  next
    case (Cons t r)
    then show thesis
      using assms leaf neg bin by (cases r) (auto simp: read_cons_node_def ctree_step_def split: if_splits)
  qed
  note step_cases = this
  show "concat (map cpostfix (rev (ctree_step e ts))) = concat (map cpostfix (rev ts)) @ [e]"
    by (rule step_cases) auto
  show "length (ctree_step e ts) = d"
    by (rule step_cases) auto
  show "\<forall>t \<in> set ts. ctree_ok t \<Longrightarrow> \<forall>t \<in> set (ctree_step e ts). ctree_ok t"
    by (rule step_cases) auto
qed

lemma eval_step_tree:
  assumes "read_cons_node ax e (length ts) = Some d"
    "ce_expr_type e = CEXPR_ATTR \<or> ce_expr_type e = CEXPR_NAMES \<longrightarrow> cexpr_leaf p s t x e \<noteq> None"
  shows "cexpr_eval_step p s t x e (map (ctree_val (cexpr_leaf_val p s t x)) ts) =
    CNext (map (ctree_val (cexpr_leaf_val p s t x)) (ctree_step e ts))"
proof (cases ts)
  case Nil
  then show ?thesis
    using assms
    by (auto simp: read_cons_node_def ctree_step_def cexpr_eval_step_def cexpr_leaf_val_def split: if_splits)
next
  case (Cons t r)
  then show ?thesis
    using assms
    by (cases r)
      (auto simp: read_cons_node_def ctree_step_def cexpr_eval_step_def cexpr_leaf_val_def split: if_splits)
qed

lemma cexpr_run_tree:
  assumes "read_cons_depth ax es (length ts) = Some 1" "cexpr_leaves_ok p s t x es" "\<forall>t \<in> set ts. ctree_ok t"
  shows "\<exists>tr. cpostfix tr = concat (map cpostfix (rev ts)) @ es \<and> ctree_ok tr \<and>
    cexpr_run p s t x es (map (ctree_val (cexpr_leaf_val p s t x)) ts) = Some (ctree_val (cexpr_leaf_val p s t x) tr)"
  using assms
proof (induction es arbitrary: ts)
  case Nil
  then obtain tr where "ts = [tr]" by (auto simp: length_Suc_conv)
  then show ?case using Nil.prems by auto
next
  case (Cons e es)
  from Cons.prems(1) obtain d where d: "read_cons_node ax e (length ts) = Some d" "read_cons_depth ax es d = Some 1"
    by (auto split: option.splits)
  note st = ctree_step_postfix [OF d(1)]
  have "cexpr_leaves_ok p s t x es" using Cons.prems(2) by (simp add: cexpr_leaves_ok_def)
  from Cons.IH [OF _ this st(3) [OF Cons.prems(3)]] d(2) st(2)
  obtain tr where "cpostfix tr = concat (map cpostfix (rev (ctree_step e ts))) @ es" "ctree_ok tr"
    "cexpr_run p s t x es (map (ctree_val (cexpr_leaf_val p s t x)) (ctree_step e ts)) =
       Some (ctree_val (cexpr_leaf_val p s t x) tr)"
    by auto
  moreover have "ce_expr_type e = CEXPR_ATTR \<or> ce_expr_type e = CEXPR_NAMES \<longrightarrow> cexpr_leaf p s t x e \<noteq> None"
    using Cons.prems(2) by (simp add: cexpr_leaves_ok_def)
  note eval_step_tree [OF d(1) this]
  ultimately show ?case using st(1) by auto
qed

lemma constraint_eval_tree:
  assumes "read_cons_check ax es = OK" "cexpr_leaves_ok p s t x es"
  shows "\<exists>tr. cpostfix tr = es \<and> ctree_ok tr \<and>
    constraint_expr_eval p s t x es = Some (ctree_val (cexpr_leaf_val p s t x) tr)"
proof -
  have "read_cons_depth ax es (length ([] :: ctree list)) = Some 1"
    using assms(1) by (simp add: read_cons_check_def split: if_splits)
  from cexpr_run_tree [OF this assms(2)] show ?thesis
    unfolding constraint_expr_eval_def by simp
qed

lemma constraint_eval_total:
  "read_cons_check ax es = OK \<Longrightarrow> cexpr_leaves_ok p s t x es \<Longrightarrow> \<exists>v. constraint_expr_eval p s t x es = Some v"
  using constraint_eval_tree [of ax es p s t x] by blast

section \<open>Properties\<close>


definition sample_cexpr :: "u32 \<Rightarrow> u32 \<Rightarrow> u32 \<Rightarrow> constraint_expr" where
  "sample_cexpr ty attr op = \<lparr>ce_expr_type = ty, ce_attr = attr, ce_op = op, ce_names = ebitmap_init, ce_type_names = None\<rparr>"

definition sample_ctx :: "u32 \<Rightarrow> context" where
  "sample_ctx u = context_init\<lparr>ctx_user := u, ctx_role := 1, ctx_type := 1\<rparr>"

text \<open>The users are equal, or the types are not.\<close>

definition sample_expr :: "constraint_expr list" where
  "sample_expr = [sample_cexpr CEXPR_ATTR CEXPR_USER CEXPR_EQ, sample_cexpr CEXPR_ATTR CEXPR_TYPE CEXPR_EQ,
     sample_cexpr CEXPR_NOT 0 0, sample_cexpr CEXPR_OR 0 0]"


text \<open>
  The reader checks the depth of the stack but neither the attribute nor the operator of a leaf: it
  accepts an expression whose evaluation is a bug.
\<close>

lemma reader_accepts_bug:
  "read_cons_check False [sample_cexpr CEXPR_ATTR 0 CEXPR_EQ] = OK \<and>
   constraint_expr_eval p s t None [sample_cexpr CEXPR_ATTR 0 CEXPR_EQ] = None"
  by (simp add: sample_cexpr_def read_cons_check_def read_cons_node_def constraint_expr_eval_def cexpr_eval_step_def
      cexpr_leaf_def cexpr_attr_def Let_def)

end
