(* ===== verification/Conditional.thy ===== *)
theory Conditional
  imports Policydb Av_Decision
begin

text \<open>
  Conditional policy (\<open>ss/conditional.c\<close>): the evaluation of boolean expressions in postfix form, the
  rules they switch on and off, the contribution of the conditional table to a decision, the check
  for conflicting type rules when a conditional rule is added, and the copy of the conditional part
  of a policy.

  The stack of the evaluation is a list with the top first; \<open>s[0]\<close> is its last element and the stack
  pointer is its length minus one. A boolean that the array does not hold reads as 0 here; the code
  reads through whatever the array holds there.
\<close>

section \<open>Expressions\<close>

abbreviation COND_EXPR_MAXDEPTH :: nat where "COND_EXPR_MAXDEPTH \<equiv> 10"
abbreviation COND_BOOL :: u32 where "COND_BOOL \<equiv> 1"
abbreviation COND_NOT :: u32 where "COND_NOT \<equiv> 2"
abbreviation COND_OR :: u32 where "COND_OR \<equiv> 3"
abbreviation COND_AND :: u32 where "COND_AND \<equiv> 4"
abbreviation COND_XOR :: u32 where "COND_XOR \<equiv> 5"
abbreviation COND_EQ :: u32 where "COND_EQ \<equiv> 6"
abbreviation COND_NEQ :: u32 where "COND_NEQ \<equiv> 7"
abbreviation COND_LAST :: u32 where "COND_LAST \<equiv> COND_NEQ"

definition bool_datum :: "policydb \<Rightarrow> u32 \<Rightarrow> cond_bool_datum option" where
  "bool_datum p v = Option.bind (val_to_struct (bool_val_to_struct p) v) (symtab_search (p_bools p))"

definition bool_state_of :: "policydb \<Rightarrow> u32 \<Rightarrow> int" where
  "bool_state_of p v = (case bool_datum p v of Some d \<Rightarrow> bool_state d | None \<Rightarrow> 0)"

definition cond_binop :: "(int \<Rightarrow> int \<Rightarrow> int) \<Rightarrow> int list \<Rightarrow> int list option" where
  "cond_binop f s = (case s of b # a # r \<Rightarrow> Some (f a b # r) | _ \<Rightarrow> None)"

definition cond_step :: "policydb \<Rightarrow> cond_expr_node \<Rightarrow> int list \<Rightarrow> int list option" where
  "cond_step p node s =
     (if cx_expr_type node = COND_BOOL
      then if length s = COND_EXPR_MAXDEPTH then None else Some (bool_state_of p (cx_boolean node) # s)
      else if cx_expr_type node = COND_NOT
      then (case s of [] \<Rightarrow> None | a # r \<Rightarrow> Some (of_bool (a = 0) # r))
      else if cx_expr_type node = COND_OR then cond_binop (\<lambda>a b. a OR b) s
      else if cx_expr_type node = COND_AND then cond_binop (\<lambda>a b. a AND b) s
      else if cx_expr_type node = COND_XOR then cond_binop (\<lambda>a b. a XOR b) s
      else if cx_expr_type node = COND_EQ then cond_binop (\<lambda>a b. of_bool (a = b)) s
      else if cx_expr_type node = COND_NEQ then cond_binop (\<lambda>a b. of_bool (a \<noteq> b)) s
      else None)"

fun cond_run :: "policydb \<Rightarrow> cond_expr_node list \<Rightarrow> int list \<Rightarrow> int list option" where
  "cond_run p [] s = Some s"
| "cond_run p (node # nodes) s =
     (case cond_step p node s of None \<Rightarrow> None | Some s' \<Rightarrow> cond_run p nodes s')"

definition cond_evaluate_expr :: "policydb \<Rightarrow> cond_expr_node list \<Rightarrow> int" where
  "cond_evaluate_expr p expr =
     (if expr = [] then -1 else case cond_run p expr [] of None \<Rightarrow> -1 | Some s \<Rightarrow> last s)"

section \<open>Switching rules\<close>

definition set_enabled :: "bool \<Rightarrow> avtab_node \<Rightarrow> avtab_node" where
  "set_enabled on n =
     n\<lparr>an_key := (an_key n)\<lparr>specified :=
        (if on then specified (an_key n) OR AVTAB_ENABLED else specified (an_key n) AND NOT AVTAB_ENABLED)\<rparr>\<rparr>"

text \<open>An assignment through a pointer to a node of the table.\<close>

definition avtab_switch :: "bool \<Rightarrow> nat \<Rightarrow> avtab \<Rightarrow> avtab" where
  "avtab_switch on addr t =
     t\<lparr>av_htable := map (map (\<lambda>n. if an_addr n = addr then set_enabled on n else n)) (av_htable t)\<rparr>"

definition evaluate_cond_node :: "policydb \<Rightarrow> cond_node \<Rightarrow> avtab \<Rightarrow> cond_node \<times> avtab" where
  "evaluate_cond_node p node t =
     (let new_state = cond_evaluate_expr p (cond_expr node)
      in if new_state \<noteq> cur_state node
         then (node\<lparr>cur_state := new_state\<rparr>,
               fold (avtab_switch (\<not> new_state \<noteq> 0)) (false_list node)
                 (fold (avtab_switch (\<not> new_state \<le> 0)) (true_list node) t))
         else (node, t))"

fun evaluate_cond_list :: "policydb \<Rightarrow> cond_node list \<Rightarrow> avtab \<Rightarrow> cond_node list \<times> avtab" where
  "evaluate_cond_list p [] t = ([], t)"
| "evaluate_cond_list p (n # ns) t =
     (case evaluate_cond_node p n t of (n', t') \<Rightarrow>
        case evaluate_cond_list p ns t' of (ns', t'') \<Rightarrow> (n' # ns', t''))"

definition evaluate_cond_nodes :: "policydb \<Rightarrow> policydb" where
  "evaluate_cond_nodes p =
     (case evaluate_cond_list p (cond_list p) (te_cond_avtab p) of
        (ns, t) \<Rightarrow> p\<lparr>cond_list := ns, te_cond_avtab := t\<rparr>)"

definition cond_policydb_init :: "policydb \<Rightarrow> policydb" where
  "cond_policydb_init p = p\<lparr>bool_val_to_struct := [], cond_list := [], te_cond_avtab := avtab_init\<rparr>"

definition cond_list_destroy :: "policydb \<Rightarrow> policydb" where
  "cond_list_destroy p = p\<lparr>cond_list := []\<rparr>"

text \<open>A freed array is empty here.\<close>

definition cond_policydb_destroy :: "policydb \<Rightarrow> policydb" where
  "cond_policydb_destroy p =
     cond_list_destroy (p\<lparr>bool_val_to_struct := [], te_cond_avtab := avtab_destroy (te_cond_avtab p)\<rparr>)"

section \<open>Reading checks\<close>

definition bool_isvalid :: "cond_bool_datum \<Rightarrow> bool" where
  "bool_isvalid b \<longleftrightarrow> bool_state b = 0 \<or> bool_state b = 1"

definition expr_node_isvalid :: "policydb \<Rightarrow> cond_expr_node \<Rightarrow> bool" where
  "expr_node_isvalid p expr =
     (if cx_expr_type expr \<le> 0 \<or> cx_expr_type expr > COND_LAST then False
      else if cx_boolean expr > st_nprim (p_bools p) then False
      else True)"

text \<open>
  \<open>cond_insertf\<close>: the rule is added to the list that is being read; \<open>other\<close> is the list of the true
  branch when the rule belongs to the false branch.
\<close>

definition cond_insertf ::
  "policydb \<Rightarrow> avtab_key \<Rightarrow> avtab_datum \<Rightarrow> nat list option \<Rightarrow> mem \<Rightarrow> (errno + nat) \<times> policydb \<times> mem" where
  "cond_insertf p k d other m =
     (let conflict =
        (if specified k AND AVTAB_TYPE \<noteq> 0
         then if avtab_search_node (te_avtab p) k \<noteq> [] then True
              else (case other of
                      Some addrs \<Rightarrow>
                        (case avtab_search_node (te_cond_avtab p) k of
                           [] \<Rightarrow> False
                         | node # rest \<Rightarrow>
                             avtab_search_node_next (node # rest) (specified k) \<noteq> [] \<or> an_addr node \<notin> set addrs)
                    | None \<Rightarrow> avtab_search_node (te_cond_avtab p) k \<noteq> [])
         else False)
      in if conflict then (Inl EINVAL, p, m)
         else case avtab_insert_nonunique (te_cond_avtab p) k d m of
                (None, t, m') \<Rightarrow> (Inl ENOMEM, p\<lparr>te_cond_avtab := t\<rparr>, m')
              | (Some addr, t, m') \<Rightarrow> (Inr addr, p\<lparr>te_cond_avtab := t\<rparr>, m'))"

section \<open>Decisions\<close>

definition cond_compute_xperms :: "avtab \<Rightarrow> avtab_key \<Rightarrow> extended_perms_decision \<Rightarrow> extended_perms_decision" where
  "cond_compute_xperms ctab key xpermd =
     fold (\<lambda>node x. if specified (an_key node) AND AVTAB_ENABLED \<noteq> 0 then services_compute_xperms_decision x node else x)
       (avtab_for_each ctab key) xpermd"

definition node_data :: "avtab_node \<Rightarrow> u32" where
  "node_data n = (case an_datum n of Data d \<Rightarrow> d | Xperms _ \<Rightarrow> 0)"

definition cond_add_av :: "avtab_node \<Rightarrow> av_decision \<Rightarrow> av_decision" where
  "cond_add_av node avd =
     (let s = specified (an_key node);
          avd1 = (if AVTAB_ALLOWED OR AVTAB_ENABLED = s AND (AVTAB_ALLOWED OR AVTAB_ENABLED)
                  then avd\<lparr>allowed := allowed avd OR node_data node\<rparr> else avd);
          avd2 = (if AVTAB_AUDITDENY OR AVTAB_ENABLED = s AND (AVTAB_AUDITDENY OR AVTAB_ENABLED)
                  then avd1\<lparr>auditdeny := auditdeny avd1 AND node_data node\<rparr> else avd1)
      in if AVTAB_AUDITALLOW OR AVTAB_ENABLED = s AND (AVTAB_AUDITALLOW OR AVTAB_ENABLED)
         then avd2\<lparr>auditallow := auditallow avd2 OR node_data node\<rparr> else avd2)"

definition cond_add_xperms :: "avtab_node \<Rightarrow> extended_perms option \<Rightarrow> extended_perms option" where
  "cond_add_xperms node xperms =
     (if specified (an_key node) AND AVTAB_ENABLED \<noteq> 0 \<and> specified (an_key node) AND AVTAB_XPERMS \<noteq> 0
      then map_option (\<lambda>x. services_compute_xperms_drivers x node) xperms else xperms)"

definition cond_compute_av ::
  "avtab \<Rightarrow> avtab_key \<Rightarrow> av_decision \<times> extended_perms option \<Rightarrow> av_decision \<times> extended_perms option" where
  "cond_compute_av ctab key st =
     fold (\<lambda>node (avd, xperms). (cond_add_av node avd, cond_add_xperms node xperms)) (avtab_for_each ctab key) st"

section \<open>Copy of the conditional part of a policy\<close>

definition node_at :: "avtab \<Rightarrow> nat \<Rightarrow> avtab_node option" where
  "node_at t addr = find (\<lambda>n. an_addr n = addr) (concat (av_htable t))"

fun cond_dup_nodes :: "avtab \<Rightarrow> nat list \<Rightarrow> avtab \<Rightarrow> mem \<Rightarrow> rc \<times> nat list \<times> avtab \<times> mem" where
  "cond_dup_nodes orig [] t m = (OK, [], t, m)"
| "cond_dup_nodes orig (a # as) t m =
     (case node_at orig a of
        None \<Rightarrow> (Err ENOMEM, [], t, m)
      | Some n \<Rightarrow>
          (case avtab_insert_nonunique t (an_key n) (an_datum n) m of
             (None, t', m') \<Rightarrow> (Err ENOMEM, [], t', m')
           | (Some a', t', m') \<Rightarrow>
               (case cond_dup_nodes orig as t' m' of (rc, as', t'', m'') \<Rightarrow> (rc, a' # as', t'', m''))))"

definition cond_dup_av_list :: "avtab \<Rightarrow> nat list \<Rightarrow> avtab \<Rightarrow> mem \<Rightarrow> rc \<times> nat list \<times> avtab \<times> mem" where
  "cond_dup_av_list orig addrs t m =
     (case kalloc m of
        (False, m') \<Rightarrow> (Err ENOMEM, [], t, m')
      | (True, m') \<Rightarrow> cond_dup_nodes orig addrs t m')"

fun duplicate_cond_nodes :: "avtab \<Rightarrow> cond_node list \<Rightarrow> avtab \<Rightarrow> mem \<Rightarrow> rc \<times> cond_node list \<times> avtab \<times> mem" where
  "duplicate_cond_nodes orig [] t m = (OK, [], t, m)"
| "duplicate_cond_nodes orig (n # ns) t m =
     (case kalloc m of
        (False, m1) \<Rightarrow> (Err ENOMEM, [], t, m1)
      | (True, m1) \<Rightarrow>
          (case cond_dup_av_list orig (true_list n) t m1 of
             (Err e, _, t2, m2) \<Rightarrow> (Err e, [], t2, m2)
           | (OK, tl', t2, m2) \<Rightarrow>
               (case cond_dup_av_list orig (false_list n) t2 m2 of
                  (Err e, _, t3, m3) \<Rightarrow> (Err e, [], t3, m3)
                | (OK, fl', t3, m3) \<Rightarrow>
                    (case duplicate_cond_nodes orig ns t3 m3 of
                       (rc, ns', t4, m4) \<Rightarrow> (rc, n\<lparr>true_list := tl', false_list := fl'\<rparr> # ns', t4, m4)))))"

definition duplicate_policydb_cond_list :: "policydb \<Rightarrow> policydb \<Rightarrow> mem \<Rightarrow> rc \<times> policydb \<times> mem" where
  "duplicate_policydb_cond_list newp origp m =
     (case avtab_alloc_dup (te_cond_avtab newp) (te_cond_avtab origp) m of
        (Err e, t, m1) \<Rightarrow> (Err e, newp\<lparr>te_cond_avtab := t\<rparr>, m1)
      | (OK, t, m1) \<Rightarrow>
          (let failed = newp\<lparr>te_cond_avtab := avtab_destroy t, cond_list := []\<rparr>
           in case kalloc m1 of
                (False, m2) \<Rightarrow> (Err ENOMEM, failed, m2)
              | (True, m2) \<Rightarrow>
                  (case duplicate_cond_nodes (te_cond_avtab origp) (cond_list origp) t m2 of
                     (Err e, _, _, m3) \<Rightarrow> (Err ENOMEM, failed, m3)
                   | (OK, ns, t', m3) \<Rightarrow> (OK, newp\<lparr>te_cond_avtab := t', cond_list := ns\<rparr>, m3))))"

definition cond_bools_copy :: "string \<times> cond_bool_datum \<Rightarrow> mem \<Rightarrow> (errno + string \<times> cond_bool_datum) \<times> mem" where
  "cond_bools_copy orig m =
     (case kalloc m of (False, m') \<Rightarrow> (Inl ENOMEM, m') | (True, m') \<Rightarrow> (Inr orig, m'))"

definition cond_bools_index :: "string \<Rightarrow> cond_bool_datum \<Rightarrow> string option list \<Rightarrow> rc \<times> string option list" where
  "cond_bools_index key d arr = (OK, set_val arr (bool_value d) key)"

definition duplicate_policydb_bools :: "policydb \<Rightarrow> policydb \<Rightarrow> mem \<Rightarrow> rc \<times> policydb \<times> mem" where
  "duplicate_policydb_bools newdb orig m =
     (case kalloc m of
        (False, m1) \<Rightarrow> (Err ENOMEM, newdb, m1)
      | (True, m1) \<Rightarrow>
          (case hashtab_duplicate (st_table (p_bools orig)) cond_bools_copy m1 of
             (Err e, h, m2) \<Rightarrow> (Err ENOMEM, newdb\<lparr>p_bools := (p_bools newdb)\<lparr>st_table := h\<rparr>\<rparr>, m2)
           | (OK, h, m2) \<Rightarrow>
               (case hashtab_map h cond_bools_index (replicate (unat (st_nprim (p_bools orig))) None) of
                  (_, arr) \<Rightarrow>
                    (OK, newdb\<lparr>p_bools := \<lparr>st_table = h, st_nprim = st_nprim (p_bools orig)\<rparr>,
                           bool_val_to_struct := arr\<rparr>, m2))))"

definition cond_policydb_destroy_dup :: "policydb \<Rightarrow> policydb" where
  "cond_policydb_destroy_dup p =
     cond_policydb_destroy (p\<lparr>p_bools := (p_bools p)\<lparr>st_table := hashtab_destroy (st_table (p_bools p))\<rparr>\<rparr>)"

definition cond_policydb_dup :: "policydb \<Rightarrow> policydb \<Rightarrow> mem \<Rightarrow> rc \<times> policydb \<times> mem" where
  "cond_policydb_dup new orig m =
     (case duplicate_policydb_bools (cond_policydb_init new) orig m of
        (Err e, new1, m1) \<Rightarrow> (Err ENOMEM, new1, m1)
      | (OK, new1, m1) \<Rightarrow>
          (case duplicate_policydb_cond_list new1 orig m1 of
             (Err e, new2, m2) \<Rightarrow> (Err ENOMEM, cond_policydb_destroy_dup new2, m2)
           | (OK, new2, m2) \<Rightarrow> (OK, new2, m2)))"

section \<open>Postfix evaluation computes the expression\<close>

text \<open>Boolean expressions, their meaning, their postfix form and the stack it needs.\<close>

datatype bexp = BVar u32 | BNot bexp | BOp u32 bexp bexp

fun bexp_ok :: "bexp \<Rightarrow> bool" where
  "bexp_ok (BVar v) = True"
| "bexp_ok (BNot a) = bexp_ok a"
| "bexp_ok (BOp op a b) = (op \<in> {COND_OR, COND_AND, COND_XOR, COND_EQ, COND_NEQ} \<and> bexp_ok a \<and> bexp_ok b)"

fun beval :: "(u32 \<Rightarrow> bool) \<Rightarrow> bexp \<Rightarrow> bool" where
  "beval val (BVar v) = val v"
| "beval val (BNot a) = (\<not> beval val a)"
| "beval val (BOp op a b) =
     (let x = beval val a; y = beval val b
      in if op = COND_OR then x \<or> y else if op = COND_AND then x \<and> y else if op = COND_EQ then x = y else x \<noteq> y)"

fun postfix :: "bexp \<Rightarrow> cond_expr_node list" where
  "postfix (BVar v) = [\<lparr>cx_expr_type = COND_BOOL, cx_boolean = v\<rparr>]"
| "postfix (BNot a) = postfix a @ [\<lparr>cx_expr_type = COND_NOT, cx_boolean = 0\<rparr>]"
| "postfix (BOp op a b) = postfix a @ postfix b @ [\<lparr>cx_expr_type = op, cx_boolean = 0\<rparr>]"

fun bdepth :: "bexp \<Rightarrow> nat" where
  "bdepth (BVar v) = 1"
| "bdepth (BNot a) = bdepth a"
| "bdepth (BOp op a b) = max (bdepth a) (Suc (bdepth b))"

lemma cond_run_append: "cond_run p (xs @ ys) s = (case cond_run p xs s of None \<Rightarrow> None | Some s' \<Rightarrow> cond_run p ys s')"
  by (induction xs arbitrary: s) (auto split: option.split)

lemma of_bool_bits: "(of_bool x :: int) OR of_bool y = of_bool (x \<or> y)" "(of_bool x :: int) AND of_bool y = of_bool (x \<and> y)"
  "(of_bool x :: int) XOR of_bool y = of_bool (x \<noteq> y)"
  by (cases x; cases y; simp)+

lemma bdepth_pos: "0 < bdepth e"
  by (induction e) auto

lemma cond_run_postfix:
  assumes "bexp_ok e" "length s + bdepth e \<le> COND_EXPR_MAXDEPTH" "\<And>v. bool_state_of p v = of_bool (val v)"
  shows "cond_run p (postfix e) s = Some (of_bool (beval val e) # s)"
  using assms(1,2)
proof (induction e arbitrary: s)
  case (BVar v)
  then show ?case using assms(3) by (simp add: cond_step_def)
next
  case (BNot a)
  then show ?case by (auto simp: cond_run_append cond_step_def)
next
  case (BOp op a b)
  have "cond_run p (postfix a) s = Some (of_bool (beval val a) # s)"
    using BOp.IH(1) BOp.prems by simp
  moreover have "cond_run p (postfix b) (of_bool (beval val a) # s) = Some (of_bool (beval val b) # of_bool (beval val a) # s)"
    using BOp.IH(2) BOp.prems by simp
  ultimately show ?case
    using BOp.prems(1) by (auto simp: cond_run_append cond_step_def cond_binop_def of_bool_bits Let_def)
qed

section \<open>Enabled rules follow the expressions\<close>

definition enabled_at :: "avtab \<Rightarrow> nat \<Rightarrow> bool" where
  "enabled_at t addr = (case node_at t addr of Some n \<Rightarrow> specified (an_key n) AND AVTAB_ENABLED \<noteq> 0 | None \<Rightarrow> False)"

definition cond_addrs :: "cond_node \<Rightarrow> nat list" where
  "cond_addrs n = true_list n @ false_list n"

text \<open>
  The rules of a conditional are where its state wants them: those of the true list are enabled in
  state 1, those of the false list in state 0, and none in the undefined state.
\<close>

definition cond_consistent :: "avtab \<Rightarrow> cond_node \<Rightarrow> bool" where
  "cond_consistent t n \<longleftrightarrow> (\<forall>a \<in> set (true_list n). enabled_at t a \<longleftrightarrow> cur_state n > 0) \<and>
     (\<forall>a \<in> set (false_list n). enabled_at t a \<longleftrightarrow> cur_state n = 0)"

lemma find_map_inv: "(\<And>x. P (f x) = P x) \<Longrightarrow> find P (map f xs) = map_option f (find P xs)"
  by (induction xs) auto

lemma and_not_same: "(w AND NOT m) AND m = 0" "(w OR m) AND m = m" for w m :: "'a::len word"
  by (rule bit_word_eqI, auto simp: bit_simps)+

lemma set_enabled_flag: "specified (an_key (set_enabled on n)) AND AVTAB_ENABLED \<noteq> 0 \<longleftrightarrow> on"
  using and_not_same [of "specified (an_key n)" AVTAB_ENABLED] by (simp add: set_enabled_def)

lemma set_enabled_addr [simp]: "an_addr (set_enabled on n) = an_addr n"
  by (simp add: set_enabled_def)

lemma node_at_switch:
  "node_at (avtab_switch on a t) a' = map_option (\<lambda>n. if a' = a then set_enabled on n else n) (node_at t a')"
proof -
  have "node_at (avtab_switch on a t) a' = map_option (\<lambda>n. if an_addr n = a then set_enabled on n else n) (node_at t a')"
    by (simp add: node_at_def avtab_switch_def map_concat [symmetric] find_map_inv)
  moreover have "an_addr n = a'" if "node_at t a' = Some n" for n
    using that by (auto simp: node_at_def find_Some_iff)
  ultimately show ?thesis by (cases "node_at t a'") auto
qed

lemma enabled_switch: "enabled_at (avtab_switch on a t) a' \<longleftrightarrow> (if a' = a then node_at t a \<noteq> None \<and> on else enabled_at t a')"
  by (auto simp: enabled_at_def node_at_switch set_enabled_flag split: option.split)

lemma node_at_switches: "node_at (fold (avtab_switch on) as t) a = None \<longleftrightarrow> node_at t a = None"
  by (induction as arbitrary: t) (simp_all add: node_at_switch)

lemma enabled_switches:
  "enabled_at (fold (avtab_switch on) as t) a \<longleftrightarrow> (if a \<in> set as then node_at t a \<noteq> None \<and> on else enabled_at t a)"
  by (induction as arbitrary: t) (auto simp: enabled_switch node_at_switch)

lemma evaluate_node_spec:
  assumes "evaluate_cond_node p n t = (n', t')" "distinct (cond_addrs n)" "\<forall>a \<in> set (cond_addrs n). node_at t a \<noteq> None"
    "cond_consistent t n"
  shows "cond_consistent t' n' \<and> cur_state n' = cond_evaluate_expr p (cond_expr n) \<and> cond_expr n' = cond_expr n \<and>
    cond_addrs n' = cond_addrs n \<and> (\<forall>a. a \<notin> set (cond_addrs n) \<longrightarrow> enabled_at t' a = enabled_at t a) \<and>
    (\<forall>a. node_at t' a = None \<longleftrightarrow> node_at t a = None)"
proof (cases "cond_evaluate_expr p (cond_expr n) = cur_state n")
  case True
  then show ?thesis
    using assms(1,4) by (simp add: evaluate_cond_node_def)
next
  case False
  let ?s = "cond_evaluate_expr p (cond_expr n)"
  let ?t1 = "fold (avtab_switch (\<not> ?s \<le> 0)) (true_list n) t"
  have r: "n' = n\<lparr>cur_state := ?s\<rparr>" "t' = fold (avtab_switch (\<not> ?s \<noteq> 0)) (false_list n) ?t1"
    using assms(1) False by (simp_all add: evaluate_cond_node_def Let_def)
  have dis: "set (true_list n) \<inter> set (false_list n) = {}"
    using assms(2) by (simp add: cond_addrs_def)
  have "cond_consistent t' n'"
    using assms(3) dis unfolding cond_consistent_def r(1)
    by (auto simp: r(2) enabled_switches node_at_switches cond_addrs_def)
  then show ?thesis
    by (auto simp: r enabled_switches node_at_switches cond_addrs_def)
qed

lemma evaluate_list_spec:
  assumes "evaluate_cond_list p ns t = (ns', t')" "distinct (concat (map cond_addrs ns))"
    "\<forall>n \<in> set ns. cond_consistent t n \<and> (\<forall>a \<in> set (cond_addrs n). node_at t a \<noteq> None)"
  shows "(\<forall>n \<in> set ns'. cond_consistent t' n \<and> cur_state n = cond_evaluate_expr p (cond_expr n)) \<and>
    map cond_addrs ns' = map cond_addrs ns \<and> map cond_expr ns' = map cond_expr ns \<and>
    (\<forall>a. a \<notin> set (concat (map cond_addrs ns)) \<longrightarrow> enabled_at t' a = enabled_at t a) \<and>
    (\<forall>a. node_at t' a = None \<longleftrightarrow> node_at t a = None)"
  using assms
proof (induction ns arbitrary: t ns' t')
  case (Cons n ns)
  obtain n1 t1 ns1 where 1: "evaluate_cond_node p n t = (n1, t1)" and 2: "evaluate_cond_list p ns t1 = (ns1, t')"
    and ns': "ns' = n1 # ns1"
    using Cons.prems(1) by (auto split: prod.splits)
  have d: "distinct (cond_addrs n)" "distinct (concat (map cond_addrs ns))"
    "set (cond_addrs n) \<inter> set (concat (map cond_addrs ns)) = {}"
    using Cons.prems(2) by simp_all
  have n1': "cond_consistent t1 n1" "cur_state n1 = cond_evaluate_expr p (cond_expr n)" "cond_expr n1 = cond_expr n"
    "cond_addrs n1 = cond_addrs n" "\<And>a. a \<notin> set (cond_addrs n) \<Longrightarrow> enabled_at t1 a = enabled_at t a"
    "\<And>a. node_at t1 a = None \<longleftrightarrow> node_at t a = None"
    using evaluate_node_spec [OF 1 d(1)] Cons.prems(3) by auto
  have keep: "cond_consistent t'' x" if "cond_consistent t0 x" "\<And>a. a \<in> set (cond_addrs x) \<Longrightarrow> enabled_at t'' a = enabled_at t0 a"
    for t0 t'' x
    using that by (auto simp: cond_consistent_def cond_addrs_def)
  have "cond_consistent t1 x" "\<forall>a \<in> set (cond_addrs x). node_at t1 a \<noteq> None" if x: "x \<in> set ns" for x
  proof -
    have "cond_consistent t x" using Cons.prems(3) x by simp
    then show "cond_consistent t1 x"
    proof (rule keep)
      fix a
      assume "a \<in> set (cond_addrs x)"
      then have "a \<notin> set (cond_addrs n)" using d(3) x by auto
      then show "enabled_at t1 a = enabled_at t a" by (rule n1'(5))
    qed
    show "\<forall>a \<in> set (cond_addrs x). node_at t1 a \<noteq> None"
      using Cons.prems(3) x n1'(6) by simp
  qed
  then have "\<forall>x \<in> set ns. cond_consistent t1 x \<and> (\<forall>a \<in> set (cond_addrs x). node_at t1 a \<noteq> None)"
    by blast
  from Cons.IH [OF 2 d(2) this]
  have IH: "\<And>x. x \<in> set ns1 \<Longrightarrow> cond_consistent t' x \<and> cur_state x = cond_evaluate_expr p (cond_expr x)"
    "map cond_addrs ns1 = map cond_addrs ns" "map cond_expr ns1 = map cond_expr ns"
    "\<And>a. a \<notin> set (concat (map cond_addrs ns)) \<Longrightarrow> enabled_at t' a = enabled_at t1 a"
    "\<And>a. node_at t' a = None \<longleftrightarrow> node_at t1 a = None"
    by blast+
  have "cond_consistent t' n1"
  proof (rule keep [OF n1'(1)])
    fix a
    assume "a \<in> set (cond_addrs n1)"
    then have "a \<notin> set (concat (map cond_addrs ns))"
      using d(3) unfolding n1'(4) by blast
    then show "enabled_at t' a = enabled_at t1 a"
      by (rule IH(4))
  qed
  then have "\<forall>x \<in> set ns'. cond_consistent t' x \<and> cur_state x = cond_evaluate_expr p (cond_expr x)"
    using IH n1'(2,3) by (simp add: ns')
  moreover have "map cond_addrs ns' = map cond_addrs (n # ns)" "map cond_expr ns' = map cond_expr (n # ns)"
    using IH n1'(3,4) by (simp_all add: ns')
  moreover have "enabled_at t' a = enabled_at t a" if "a \<notin> set (concat (map cond_addrs (n # ns)))" for a
    using IH n1'(5) [of a] that by simp
  moreover have "node_at t' a = None \<longleftrightarrow> node_at t a = None" for a
    using IH n1'(6) [of a] by simp
  ultimately show ?case by blast
qed simp

section \<open>Properties\<close>

text \<open>
  The evaluation of a conditional gives the value of the boolean expression whose postfix form it
  is, when the booleans are 0 or 1 and the expression needs no more than ten stack places.
\<close>

lemma cond_evaluate_expr_correct:
  assumes "bexp_ok e" "bdepth e \<le> COND_EXPR_MAXDEPTH" "\<forall>v. bool_state_of p v \<in> {0, 1}"
  shows "cond_evaluate_expr p (postfix e) = of_bool (beval (\<lambda>v. bool_state_of p v = 1) e)"
proof -
  have "bool_state_of p v = of_bool (bool_state_of p v = 1)" for v
    using assms(3) by (auto simp: of_bool_def)
  then have "cond_run p (postfix e) [] = Some [of_bool (beval (\<lambda>v. bool_state_of p v = 1) e)]"
    using assms(1,2) by (intro cond_run_postfix) auto
  moreover have "postfix e \<noteq> []"
    by (induction e) auto
  ultimately show ?thesis
    by (simp add: cond_evaluate_expr_def)
qed

definition bool_policydb :: policydb where
  "bool_policydb = policydb_init\<lparr>p_bools :=
     \<lparr>st_table = \<lparr>ht_htable = [[(''b'', \<lparr>bool_value = 1, bool_state = 1\<rparr>)]], ht_size = 1, ht_nel = 1\<rparr>, st_nprim = 1\<rparr>,
     bool_val_to_struct := [Some ''b'']\<rparr>"

lemma bool_policydb_state: "bool_state_of bool_policydb v \<in> {0, 1}"
  by (cases "unat (v - 1) = 0") (simp_all add: bool_state_of_def bool_datum_def val_to_struct_def bool_policydb_def
      symtab_search_def hashtab_search_def symcmp_def Let_def)


definition cond_policydb :: policydb where
  "cond_policydb = bool_policydb\<lparr>te_cond_avtab := sample_avtab,
     cond_list := [\<lparr>cur_state = 0, cond_expr = postfix (BVar 1), true_list = [0], false_list = []\<rparr>]\<rparr>"


text \<open>
  The check of expression nodes that are read from a policy image accepts the boolean number 0, for
  which the array of booleans has no place.
\<close>

lemma expr_node_isvalid_zero:
  assumes "length (bool_val_to_struct p) = unat (st_nprim (p_bools p))"
  shows "expr_node_isvalid p \<lparr>cx_expr_type = COND_BOOL, cx_boolean = 0\<rparr> \<and>
    \<not> unat (0 - 1 :: u32) < length (bool_val_to_struct p)"
proof -
  have "unat (0 - 1 :: u32) = 4294967295"
    by (simp add: unsigned_minus_1_eq_mask mask_eq_exp_minus_1)
  moreover have "length (bool_val_to_struct p) \<le> 4294967295"
    using assms unat_u32_bound [of "st_nprim (p_bools p)"] by linarith
  ultimately show ?thesis
    unfolding expr_node_isvalid_def by simp
qed

end
