(* ===== verification/Sidtab.thy ===== *)
theory Sidtab
  imports Context
begin

text \<open>
  The SID table (\<open>ss/sidtab.c\<close>, \<open>ss/sidtab.h\<close>): security identifiers of contexts, the reverse
  look-up from contexts, the live conversion to the table of a new policy, and the cache of context
  strings.

  The tree of pages below \<open>roots\<close> that stores the entries by index is the list of the entries with an
  index below \<open>count\<close>; the allocation of its pages for a new index is one outcome of the schedule. The
  hash table of entries by context is the list of its entries, the latest first: the walk over a
  bucket skips the entries with another hash, and entries with the same hash are in the same bucket.
  An entry is added to the table after its fields are set and they do not change later, so the table
  holds copies. The table of the policy that is being loaded, to which \<open>convert\<close> leads, is a second
  state; \<open>convert\<close> tells whether it is there.
\<close>

section \<open>Data\<close>

abbreviation SECINITSID_NUM :: u32 where "SECINITSID_NUM \<equiv> 27"
abbreviation SECINITSID_UNLABELED :: u32 where "SECINITSID_UNLABELED \<equiv> 3"
abbreviation SECSID_NULL :: u32 where "SECSID_NULL \<equiv> 0"
abbreviation SIDTAB_MAX :: u32 where "SIDTAB_MAX \<equiv> 0xffffffff"

record sidtab_entry =
  se_sid :: u32
  se_hash :: u32
  se_context :: "context"

text \<open>A pointer to an entry: an initial SID or an index.\<close>

datatype entry_ref = Isid nat | Index nat

record sidtab =
  sd_entries :: "sidtab_entry list"
  sd_count :: u32
  sd_convert :: bool
  sd_frozen :: bool
  sd_isids :: "sidtab_entry option list"
  sd_context_to_sid :: "sidtab_entry list"
  sd_cache_free_slots :: nat
  sd_cache_lru :: "(entry_ref \<times> string) list"

section \<open>Operations\<close>

definition index_to_sid :: "u32 \<Rightarrow> u32" where
  "index_to_sid index = index + SECINITSID_NUM + 1"

definition sid_to_index :: "u32 \<Rightarrow> u32" where
  "sid_to_index sid = sid - (SECINITSID_NUM + 1)"

text \<open>The size of the string cache is a configuration constant.\<close>

definition sidtab_init :: "nat \<Rightarrow> sidtab" where
  "sidtab_init cache_size =
     \<lparr>sd_entries = [], sd_count = 0, sd_convert = False, sd_frozen = False,
      sd_isids = replicate (unat SECINITSID_NUM) None, sd_context_to_sid = [],
      sd_cache_free_slots = cache_size, sd_cache_lru = []\<rparr>"

definition context_to_sid :: "sidtab \<Rightarrow> context \<Rightarrow> u32 \<Rightarrow> u32" where
  "context_to_sid s c hash =
     (case find (\<lambda>e. se_hash e = hash \<and> context_cmp (se_context e) c) (sd_context_to_sid s) of
        Some e \<Rightarrow> se_sid e | None \<Rightarrow> 0)"

definition sidtab_set_initial :: "hash_fns \<Rightarrow> sidtab \<Rightarrow> u32 \<Rightarrow> context \<Rightarrow> mem \<Rightarrow> rc \<times> sidtab \<times> mem" where
  "sidtab_set_initial H s sid c m =
     (if sid = 0 \<or> sid > SECINITSID_NUM then (Err EINVAL, s, m)
      else case context_cpy context_init c m of
             (Err e, _, m') \<Rightarrow> (Err e, s, m')
           | (OK, c', m') \<Rightarrow>
               (let hash = context_compute_hash H c;
                    known = context_to_sid s c hash \<noteq> 0;
                    entry = (if known then \<lparr>se_sid = 0, se_hash = 0, se_context = c'\<rparr>
                             else \<lparr>se_sid = sid, se_hash = hash, se_context = c'\<rparr>);
                    s' = s\<lparr>sd_isids := (sd_isids s)[unat (sid - 1) := Some entry]\<rparr>
                in (OK, if known then s' else s'\<lparr>sd_context_to_sid := entry # sd_context_to_sid s'\<rparr>, m')))"

definition sidtab_lookup :: "sidtab \<Rightarrow> u32 \<Rightarrow> sidtab_entry option" where
  "sidtab_lookup s index = (if index \<ge> sd_count s then None else Some (sd_entries s ! unat index))"

definition sidtab_lookup_initial :: "sidtab \<Rightarrow> u32 \<Rightarrow> sidtab_entry option" where
  "sidtab_lookup_initial s sid = sd_isids s ! unat (sid - 1)"

definition sidtab_search_core :: "sidtab \<Rightarrow> u32 \<Rightarrow> bool \<Rightarrow> sidtab_entry option" where
  "sidtab_search_core s sid force =
     (let entry = (if sid > SECINITSID_NUM then sidtab_lookup s (sid_to_index sid) else sidtab_lookup_initial s sid)
      in if sid \<noteq> 0 \<and> (case entry of Some e \<Rightarrow> ctx_len (se_context e) = 0 \<or> force | None \<Rightarrow> False)
         then entry
         else sidtab_lookup_initial s SECINITSID_UNLABELED)"

definition sidtab_search_entry :: "sidtab \<Rightarrow> u32 \<Rightarrow> sidtab_entry option" where
  "sidtab_search_entry s sid = sidtab_search_core s sid False"

definition sidtab_search_entry_force :: "sidtab \<Rightarrow> u32 \<Rightarrow> sidtab_entry option" where
  "sidtab_search_entry_force s sid = sidtab_search_core s sid True"

definition sidtab_search :: "sidtab \<Rightarrow> u32 \<Rightarrow> context option" where
  "sidtab_search s sid = map_option se_context (sidtab_search_entry s sid)"

definition sidtab_search_force :: "sidtab \<Rightarrow> u32 \<Rightarrow> context option" where
  "sidtab_search_force s sid = map_option se_context (sidtab_search_entry_force s sid)"

text \<open>
  \<open>sidtab_context_to_sid\<close>. The argument \<open>conv\<close> is \<open>services_convert_context\<close> with the arguments of the
  conversion. The steps under the lock are one step; the search before it takes the lock is the first
  of the two searches, and with no other thread the second finds what the first did.
\<close>

type_synonym convert_fn = "context \<Rightarrow> mem \<Rightarrow> rc \<times> context \<times> mem"

definition sidtab_add :: "sidtab \<Rightarrow> sidtab_entry \<Rightarrow> sidtab" where
  "sidtab_add s entry =
     s\<lparr>sd_entries := sd_entries s @ [entry], sd_count := sd_count s + 1,
       sd_context_to_sid := entry # sd_context_to_sid s\<rparr>"

definition sidtab_context_to_sid ::
  "hash_fns \<Rightarrow> convert_fn \<Rightarrow> sidtab \<Rightarrow> sidtab \<Rightarrow> context \<Rightarrow> mem \<Rightarrow> rc \<times> u32 \<times> sidtab \<times> sidtab \<times> mem" where
  "sidtab_context_to_sid H conv s target c m =
     (let hash = context_compute_hash H c; sid = context_to_sid s c hash
      in if sid \<noteq> 0 then (OK, sid, s, target, m)
         else if sd_frozen s then (Err ESTALE, 0, s, target, m)
         else if sd_count s \<ge> SIDTAB_MAX then (Err EOVERFLOW, 0, s, target, m)
         else case kalloc m of
           (False, m1) \<Rightarrow> (Err ENOMEM, 0, s, target, m1)
         | (True, m1) \<Rightarrow>
             (case context_cpy context_init c m1 of
                (Err e, _, m2) \<Rightarrow> (Err e, 0, s, target, m2)
              | (OK, c', m2) \<Rightarrow>
                  (let sid' = index_to_sid (sd_count s);
                       s' = sidtab_add s \<lparr>se_sid = sid', se_hash = hash, se_context = c'\<rparr>
                   in if sd_convert s
                      then case kalloc m2 of
                             (False, m3) \<Rightarrow> (Err ENOMEM, 0, s, target, m3)
                           | (True, m3) \<Rightarrow>
                               (case conv c m3 of
                                  (Err e, _, m4) \<Rightarrow> (Err e, 0, s, target, m4)
                                | (OK, tc, m4) \<Rightarrow>
                                    (OK, sid', s',
                                     target\<lparr>sd_entries := take (unat (sd_count s)) (sd_entries target) @
                                              [\<lparr>se_sid = sid', se_hash = context_compute_hash H tc, se_context = tc\<rparr>],
                                            sd_count := sd_count s + 1,
                                            sd_context_to_sid :=
                                              \<lparr>se_sid = sid', se_hash = context_compute_hash H tc, se_context = tc\<rparr>
                                                # sd_context_to_sid target\<rparr>, m4))
                      else (OK, sid', s', target, m2))))"

text \<open>
  \<open>sidtab_convert\<close>: the contexts in the order of their index, then the entries of the hash table.
\<close>

fun sidtab_convert_entries :: "convert_fn \<Rightarrow> sidtab_entry list \<Rightarrow> mem \<Rightarrow> (errno + context list) \<times> mem" where
  "sidtab_convert_entries conv [] m = (Inr [], m)"
| "sidtab_convert_entries conv (e # es) m =
     (case conv (se_context e) m of
        (Err x, _, m') \<Rightarrow> (Inl x, m')
      | (OK, c, m') \<Rightarrow>
          (case sidtab_convert_entries conv es m' of
             (Inl x, m'') \<Rightarrow> (Inl x, m'')
           | (Inr cs, m'') \<Rightarrow> (Inr (c # cs), m'')))"

definition sidtab_convert_hashtable :: "hash_fns \<Rightarrow> context list \<Rightarrow> sidtab \<Rightarrow> sidtab" where
  "sidtab_convert_hashtable H cs s =
     (let es = map2 (\<lambda>i c. \<lparr>se_sid = index_to_sid (of_nat i), se_hash = context_compute_hash H c, se_context = c\<rparr>)
                 [0..<length cs] cs
      in s\<lparr>sd_entries := es, sd_context_to_sid := rev es @ sd_context_to_sid s\<rparr>)"

definition sidtab_convert ::
  "hash_fns \<Rightarrow> convert_fn \<Rightarrow> sidtab \<Rightarrow> sidtab \<Rightarrow> mem \<Rightarrow> rc \<times> sidtab \<times> sidtab \<times> mem" where
  "sidtab_convert H conv s target m =
     (if sd_convert s then (Err EBUSY, s, target, m)
      else case kalloc m of
             (False, m1) \<Rightarrow> (Err ENOMEM, s, target, m1)
           | (True, m1) \<Rightarrow>
               (let target1 = target\<lparr>sd_count := sd_count s\<rparr>
                in case sidtab_convert_entries conv (take (unat (sd_count s)) (sd_entries s)) m1 of
                     (Inl e, m2) \<Rightarrow> (Err e, s\<lparr>sd_convert := False\<rparr>, target1, m2)
                   | (Inr cs, m2) \<Rightarrow>
                       (OK, s\<lparr>sd_convert := True\<rparr>, sidtab_convert_hashtable H cs target1, m2)))"

definition sidtab_cancel_convert :: "sidtab \<Rightarrow> sidtab" where
  "sidtab_cancel_convert s = s\<lparr>sd_convert := False\<rparr>"

definition sidtab_freeze_begin :: "sidtab \<Rightarrow> sidtab" where
  "sidtab_freeze_begin s = s\<lparr>sd_frozen := True, sd_convert := False\<rparr>"

section \<open>The cache of context strings\<close>

definition sidtab_sid2str_put :: "sidtab \<Rightarrow> entry_ref \<Rightarrow> sidtab_entry \<Rightarrow> string \<Rightarrow> mem \<Rightarrow> sidtab \<times> mem" where
  "sidtab_sid2str_put s r entry str m =
     (if ctx_len (se_context entry) \<noteq> 0 then (s, m)
      else case map_of (sd_cache_lru s) r of
             Some str' \<Rightarrow> (s\<lparr>sd_cache_lru := (r, str') # filter (\<lambda>p. fst p \<noteq> r) (sd_cache_lru s)\<rparr>, m)
           | None \<Rightarrow>
               (case kalloc m of
                  (False, m') \<Rightarrow> (s, m')
                | (True, m') \<Rightarrow>
                    (if sd_cache_free_slots s = 0
                     then (s\<lparr>sd_cache_lru := (r, str) # butlast (sd_cache_lru s)\<rparr>, m')
                     else (s\<lparr>sd_cache_free_slots := sd_cache_free_slots s - 1,
                             sd_cache_lru := (r, str) # sd_cache_lru s\<rparr>, m'))))"

text \<open>The caller always passes a place for the string here.\<close>

definition sidtab_sid2str_get ::
  "sidtab \<Rightarrow> entry_ref \<Rightarrow> sidtab_entry \<Rightarrow> mem \<Rightarrow> (errno + string) \<times> sidtab \<times> mem" where
  "sidtab_sid2str_get s r entry m =
     (if ctx_len (se_context entry) \<noteq> 0 then (Inl ENOENT, s, m)
      else case map_of (sd_cache_lru s) r of
             None \<Rightarrow> (Inl ENOENT, s, m)
           | Some str \<Rightarrow>
               (case kalloc m of
                  (False, m') \<Rightarrow> (Inl ENOMEM, s, m')
                | (True, m') \<Rightarrow>
                    (case sidtab_sid2str_put s r entry str m' of (s', m'') \<Rightarrow> (Inr str, s', m''))))"

text \<open>
  \<open>sidtab_hash_stats\<close>: the counts over the entries with the number of their bucket, in the order of
  the buckets.
\<close>

record hash_stats =
  hs_entries :: nat
  hs_slots_used :: nat
  hs_max_chain_len :: nat

fun sidtab_hash_stats_loop :: "nat list \<Rightarrow> nat \<Rightarrow> nat \<Rightarrow> nat \<Rightarrow> nat \<Rightarrow> nat \<Rightarrow> hash_stats" where
  "sidtab_hash_stats_loop [] entries cur_bucket chain_len used max_chain =
     \<lparr>hs_entries = entries, hs_slots_used = used,
      hs_max_chain_len = (if chain_len > max_chain then chain_len else max_chain)\<rparr>"
| "sidtab_hash_stats_loop (i # is) entries cur_bucket chain_len used max_chain =
     (if i = cur_bucket
      then sidtab_hash_stats_loop is (entries + 1) cur_bucket (chain_len + 1)
             (if chain_len + 1 = 1 then used + 1 else used) max_chain
      else sidtab_hash_stats_loop is (entries + 1) i 0 used
             (if chain_len > max_chain then chain_len else max_chain))"

definition sidtab_hash_stats :: "nat list \<Rightarrow> hash_stats" where
  "sidtab_hash_stats buckets = sidtab_hash_stats_loop buckets 0 0 0 0 0"

text \<open>
  The first entry of every bucket but bucket 0 is not counted in its chain: buckets with one entry
  count as unused and the other chains are one too short.
\<close>

lemma hash_stats_undercount:
  "sidtab_hash_stats [1, 2, 2] = \<lparr>hs_entries = 3, hs_slots_used = 1, hs_max_chain_len = 1\<rparr>"
  by (simp add: sidtab_hash_stats_def)

section \<open>Consistent tables\<close>

text \<open>The entry a SID stands for, initial or not, before the check for invalid contexts.\<close>

definition sid_entry :: "sidtab \<Rightarrow> u32 \<Rightarrow> sidtab_entry option" where
  "sid_entry s sid =
     (if sid = 0 then None
      else if sid > SECINITSID_NUM then sidtab_lookup s (sid_to_index sid)
      else sidtab_lookup_initial s sid)"

definition sidtab_ok :: "hash_fns \<Rightarrow> sidtab \<Rightarrow> bool" where
  "sidtab_ok H s \<longleftrightarrow>
     length (sd_entries s) = unat (sd_count s) \<and> length (sd_isids s) = unat SECINITSID_NUM \<and>
     (\<forall>e \<in> set (sd_context_to_sid s). sid_entry s (se_sid e) = Some e \<and>
        se_hash e = context_compute_hash H (se_context e) \<and> context_str_ok (se_context e)) \<and>
     (\<forall>e \<in> set (sd_entries s). e \<in> set (sd_context_to_sid s)) \<and>
     sorted_wrt (\<lambda>a b. \<not> context_cmp (se_context a) (se_context b)) (sd_context_to_sid s)"

lemma sid_entry_nonzero: "sid_entry s sid = Some e \<Longrightarrow> sid \<noteq> 0"
  by (auto simp: sid_entry_def)

lemma search_force_entry: "sid_entry s sid = Some e \<Longrightarrow> sidtab_search_entry_force s sid = Some e"
  by (auto simp: sid_entry_def sidtab_search_entry_force_def sidtab_search_core_def Let_def split: if_splits)

lemma sid_to_index_inverse [simp]: "sid_to_index (index_to_sid i) = i"
  by (simp add: sid_to_index_def index_to_sid_def)

lemma unat_index_to_sid:
  assumes "unat i < 2 ^ 32 - 28"
  shows "unat (index_to_sid i) = unat i + 28"
proof -
  have "index_to_sid i = of_nat (unat i + 28)"
    by (simp add: index_to_sid_def)
  then show ?thesis
    using assms by (simp only: unat_u32_of_nat)
qed

lemma index_to_sid_large: "unat i < 2 ^ 32 - 28 \<Longrightarrow> index_to_sid i > SECINITSID_NUM \<and> index_to_sid i \<noteq> 0"
  using unat_index_to_sid [of i] by (auto simp: word_less_nat_alt)

lemma sidtab_init_ok: "sidtab_ok H (sidtab_init cache_size)"
  by (simp add: sidtab_ok_def sidtab_init_def)

text \<open>A context is found exactly when the table has one equal to it, and its SID leads there.\<close>

lemma context_to_sid_found:
  assumes "sidtab_ok H s" "context_to_sid s c (context_compute_hash H c) \<noteq> 0"
  shows "\<exists>e \<in> set (sd_context_to_sid s). context_to_sid s c (context_compute_hash H c) = se_sid e \<and>
    context_cmp (se_context e) c \<and> sid_entry s (se_sid e) = Some e"
proof -
  obtain e where e: "find (\<lambda>e. se_hash e = context_compute_hash H c \<and> context_cmp (se_context e) c) (sd_context_to_sid s) = Some e"
      "context_to_sid s c (context_compute_hash H c) = se_sid e"
    using assms(2) by (auto simp: context_to_sid_def split: option.splits)
  then have "e \<in> set (sd_context_to_sid s)" "context_cmp (se_context e) c"
    by (auto simp: find_Some_iff)
  then show ?thesis
    using assms(1) e(2) by (auto simp: sidtab_ok_def)
qed

lemma context_to_sid_missing:
  assumes "sidtab_ok H s" "context_to_sid s c (context_compute_hash H c) = 0" "e \<in> set (sd_context_to_sid s)"
  shows "\<not> context_cmp (se_context e) c"
proof
  assume cmp: "context_cmp (se_context e) c"
  let ?P = "\<lambda>e. se_hash e = context_compute_hash H c \<and> context_cmp (se_context e) c"
  have "?P e"
    using assms(1,3) cmp context_hash_cong by (auto simp: sidtab_ok_def)
  then obtain e' where e': "find ?P (sd_context_to_sid s) = Some e'"
    using assms(3) by (cases "find ?P (sd_context_to_sid s)") (auto simp: find_None_iff)
  then have "e' \<in> set (sd_context_to_sid s)"
    by (auto simp: find_Some_iff)
  then have "se_sid e' \<noteq> 0"
    using assms(1) sid_entry_nonzero by (auto simp: sidtab_ok_def)
  then show False
    using assms(2) e' by (simp add: context_to_sid_def)
qed

text \<open>Adding the entry of the next index.\<close>

lemma sidtab_add_entries:
  assumes "length (sd_entries s) = unat (sd_count s)" "unat (sd_count s) < 2 ^ 32 - 28"
  shows "sid_entry (sidtab_add s e) (index_to_sid (sd_count s)) = Some e"
    "sid_entry s sid = Some e' \<Longrightarrow> sid_entry (sidtab_add s e) sid = Some e'"
proof -
  have inc: "unat (sd_count s + 1) = unat (sd_count s) + 1"
    using assms(2) by (intro unat_plus_one_u32) auto
  show "sid_entry (sidtab_add s e) (index_to_sid (sd_count s)) = Some e"
    using index_to_sid_large [OF assms(2)] assms(1) inc
    by (auto simp: sid_entry_def sidtab_lookup_def sidtab_add_def word_le_nat_alt nth_append)
  show "sid_entry s sid = Some e' \<Longrightarrow> sid_entry (sidtab_add s e) sid = Some e'"
    using assms(1) inc
    by (auto simp: sid_entry_def sidtab_lookup_def sidtab_add_def sidtab_lookup_initial_def word_le_nat_alt nth_append
        split: if_splits)
qed

lemma sidtab_add_ok:
  assumes "sidtab_ok H s" "unat (sd_count s) < 2 ^ 32 - 28" "context_str_ok c"
    "context_to_sid s c (context_compute_hash H c) = 0"
  defines "e \<equiv> \<lparr>se_sid = index_to_sid (sd_count s), se_hash = context_compute_hash H c, se_context = c\<rparr>"
  shows "sidtab_ok H (sidtab_add s e)"
proof -
  have len: "length (sd_entries s) = unat (sd_count s)"
    using assms(1) by (simp add: sidtab_ok_def)
  have inc: "unat (sd_count s + 1) = unat (sd_count s) + 1"
    using assms(2) by (intro unat_plus_one_u32) auto
  note add = sidtab_add_entries [OF len assms(2)]
  have tab: "set (sd_context_to_sid (sidtab_add s e)) = insert e (set (sd_context_to_sid s))"
    by (simp add: sidtab_add_def)
  have "sid_entry (sidtab_add s e) (se_sid x) = Some x \<and> se_hash x = context_compute_hash H (se_context x) \<and> context_str_ok (se_context x)"
    if "x \<in> insert e (set (sd_context_to_sid s))" for x
    using that add assms(1,3) by (auto simp: sidtab_ok_def) (auto simp: e_def)
  moreover have "sorted_wrt (\<lambda>a b. \<not> context_cmp (se_context a) (se_context b)) (sd_context_to_sid (sidtab_add s e))"
    using assms(1) context_to_sid_missing [OF assms(1,4)]
    by (auto simp: sidtab_ok_def sidtab_add_def e_def context_cmp_sym [of c])
  ultimately show ?thesis
    using assms(1) inc unfolding sidtab_ok_def tab by (auto simp: sidtab_add_def)
qed


section \<open>Contexts to SIDs and back\<close>

lemma context_to_sid_cases:
  assumes "sidtab_ok H s" "context_str_ok c" "unat (sd_count s) < 2 ^ 32 - 28"
    "sidtab_context_to_sid H conv s target c m = (rc, sid, s', target', m')"
  shows "rc = OK \<and> (\<exists>e \<in> set (sd_context_to_sid s'). se_sid e = sid \<and> context_cmp (se_context e) c) \<and>
      sidtab_ok H s' \<and> set (sd_context_to_sid s) \<subseteq> set (sd_context_to_sid s')
    \<or> rc \<noteq> OK \<and> s' = s \<and> target' = target \<and> sid = 0"
proof (cases "context_to_sid s c (context_compute_hash H c) \<noteq> 0")
  case True
  then show ?thesis
    using assms(1,4) context_to_sid_found [OF assms(1) True] by (auto simp: sidtab_context_to_sid_def Let_def)
next
  case False
  let ?e = "\<lparr>se_sid = index_to_sid (sd_count s), se_hash = context_compute_hash H c, se_context = c\<rparr>"
  have "sidtab_ok H (sidtab_add s ?e)"
    using assms(1-3) False by (intro sidtab_add_ok) simp_all
  moreover have "context_cmp c c"
    by (rule context_cmp_refl [OF assms(2)])
  moreover have "rc = OK \<and> s' = sidtab_add s ?e \<and> sid = index_to_sid (sd_count s)
      \<or> rc \<noteq> OK \<and> s' = s \<and> target' = target \<and> sid = 0"
    using assms(2,4) False
    by (auto simp: sidtab_context_to_sid_def Let_def split: if_splits prod.splits bool.splits option.splits
        dest!: context_cpy_ok)
  ultimately show ?thesis
    by (auto simp: sidtab_add_def)
qed

lemma table_unique:
  assumes "sidtab_ok H s" "a \<in> set (sd_context_to_sid s)" "b \<in> set (sd_context_to_sid s)"
    "context_cmp (se_context a) (se_context b)"
  shows "a = b"
proof -
  have "a = b" if "sorted_wrt (\<lambda>a b. \<not> context_cmp (se_context a) (se_context b)) xs" "a \<in> set xs" "b \<in> set xs" for xs
    using that assms(4) context_cmp_sym by (induction xs) auto
  then show ?thesis
    using assms(1-3) unfolding sidtab_ok_def by blast
qed

lemma table_sid_inj:
  assumes "sidtab_ok H s" "a \<in> set (sd_context_to_sid s)" "b \<in> set (sd_context_to_sid s)" "se_sid a = se_sid b"
  shows "a = b"
  using assms unfolding sidtab_ok_def by (metis option.inject)

section \<open>The string cache\<close>

definition cache_ok :: "nat \<Rightarrow> sidtab \<Rightarrow> bool" where
  "cache_ok slots s \<longleftrightarrow> 0 < slots \<and> length (sd_cache_lru s) + sd_cache_free_slots s = slots \<and> distinct (map fst (sd_cache_lru s))"

lemma length_filter_once:
  "distinct (map fst xs) \<Longrightarrow> map_of xs r = Some v \<Longrightarrow> Suc (length (filter (\<lambda>p. fst p \<noteq> r) xs)) = length xs"
proof (induction xs)
  case (Cons x xs)
  have "filter (\<lambda>p. fst p \<noteq> r) xs = xs" if "r \<notin> set (map fst xs)"
    using that by (induction xs) auto
  then show ?case using Cons by (auto split: if_splits)
qed simp

lemma map_fst_butlast: "map fst (butlast xs) = butlast (map fst xs)"
  by (induction xs) auto

lemma put_cache_ok:
  assumes "cache_ok slots s" "sidtab_sid2str_put s r entry str m = (s', m')"
  shows "cache_ok slots s'"
proof -
  let ?l = "sd_cache_lru s"
  have d: "distinct (map fst ?l)" and n: "length ?l + sd_cache_free_slots s = slots" "0 < slots"
    using assms(1) by (auto simp: cache_ok_def)
  have "Suc (length (filter (\<lambda>p. fst p \<noteq> r) ?l)) = length ?l" if "map_of ?l r = Some x" for x
    using length_filter_once [OF d that] .
  moreover have "distinct (map fst (filter (\<lambda>p. fst p \<noteq> r) ?l))"
    using d by (rule distinct_map_filter)
  moreover have "distinct (map fst (butlast ?l))"
    using d by (simp add: map_fst_butlast distinct_butlast)
  moreover have "r \<notin> fst ` set (butlast ?l)" "r \<notin> fst ` set ?l" if "map_of ?l r = None"
    using that by (auto simp: map_of_eq_None_iff dest!: in_set_butlastD)
  ultimately show ?thesis
    using assms(2) d n
    by (auto simp: sidtab_sid2str_put_def cache_ok_def split: if_splits option.splits prod.splits bool.splits)
qed

section \<open>Properties\<close>

text \<open>
  C16. A context given to the table gets a SID that leads back to an equal context; every SID given
  out before still leads to the entry it led to; a failed call leaves the table as it was. The bound
  keeps the SID arithmetic from wrapping around.
\<close>

theorem sidtab_roundtrip:
  assumes "sidtab_ok H s" "context_str_ok c" "unat (sd_count s) < 2 ^ 32 - 28"
    "sidtab_context_to_sid H conv s target c m = (rc, sid, s', target', m')"
  shows "(rc = OK \<longrightarrow> sidtab_ok H s' \<and> (\<exists>c'. sidtab_search_force s' sid = Some c' \<and> context_cmp c' c) \<and>
      (\<forall>e \<in> set (sd_context_to_sid s). sidtab_search_force s' (se_sid e) = Some (se_context e))) \<and>
    (rc \<noteq> OK \<longrightarrow> s' = s \<and> target' = target)"
proof -
  have force: "sidtab_search_force s' (se_sid e) = Some (se_context e)" if "sidtab_ok H s'" "e \<in> set (sd_context_to_sid s')" for e
    using that search_force_entry by (auto simp: sidtab_ok_def sidtab_search_force_def)
  show ?thesis
    using context_to_sid_cases [OF assms] force by blast
qed

theorem sidtab_roundtrip_witness:
  "\<exists>rc sid s' t' m'. sidtab_context_to_sid sample_hash (\<lambda>c m. (OK, c, m)) (sidtab_init 8) (sidtab_init 8) context_init [] =
      (rc, sid, s', t', m') \<and> rc = OK \<and> (\<exists>c'. sidtab_search_force s' sid = Some c' \<and> context_cmp c' context_init)"
proof -
  obtain rc sid s' t' m' where r: "sidtab_context_to_sid sample_hash (\<lambda>c m. (OK, c, m)) (sidtab_init 8) (sidtab_init 8) context_init [] =
      (rc, sid, s', t', m')"
    by (metis prod_cases5)
  have ok: "context_str_ok context_init"
    by (simp add: context_str_ok_def context_init_def)
  have "rc = OK"
    using r by (auto simp: sidtab_context_to_sid_def sidtab_init_def context_to_sid_def context_cpy_def context_init_def
        Let_def mls_context_cpy_def mls_levels_cpy_def ebitmap_cpy_def ebitmap_init_def level_init_def)
  then show ?thesis
    using sidtab_roundtrip [OF sidtab_init_ok ok _ r] r by (auto simp: sidtab_init_def)
qed

text \<open>
  Two contexts given to the table one after the other get the same SID exactly when they are
  equal contexts.
\<close>

lemma sidtab_sid_identifies_context:
  assumes "sidtab_ok H s" "context_str_ok c1" "context_str_ok c2" "unat (sd_count s) < 2 ^ 32 - 29"
    "sidtab_context_to_sid H conv s target c1 m = (OK, sid1, s1, target1, m1)"
    "sidtab_context_to_sid H conv s1 target1 c2 m1 = (OK, sid2, s2, target2, m2)"
  shows "sid1 = sid2 \<longleftrightarrow> context_cmp c1 c2"
proof -
  have "unat (sd_count s1) \<le> unat (sd_count s) + 1"
    using assms(4,5) unat_plus_one_u32 [of "sd_count s"]
    by (auto simp: sidtab_context_to_sid_def Let_def sidtab_add_def split: if_splits prod.splits bool.splits option.splits)
  then have n: "unat (sd_count s) < 2 ^ 32 - 28" "unat (sd_count s1) < 2 ^ 32 - 28"
    using assms(4) by auto
  obtain e1 where e1: "e1 \<in> set (sd_context_to_sid s1)" "se_sid e1 = sid1" "context_cmp (se_context e1) c1" "sidtab_ok H s1"
    using context_to_sid_cases [OF assms(1,2) n(1) assms(5)] by auto
  obtain e2 where e2: "e2 \<in> set (sd_context_to_sid s2)" "se_sid e2 = sid2" "context_cmp (se_context e2) c2" "sidtab_ok H s2"
    and e1': "e1 \<in> set (sd_context_to_sid s2)"
    using context_to_sid_cases [OF e1(4) assms(3) n(2) assms(6)] e1(1) by auto
  show ?thesis
  proof
    assume "sid1 = sid2"
    then have "e1 = e2"
      using table_sid_inj [OF e2(4) e1' e2(1)] e1(2) e2(2) by simp
    then show "context_cmp c1 c2"
      using e1(3) e2(3) context_cmp_sym context_cmp_trans by blast
  next
    assume "context_cmp c1 c2"
    then have "context_cmp (se_context e1) (se_context e2)"
      using e1(3) e2(3) context_cmp_sym context_cmp_trans by blast
    then show "sid1 = sid2"
      using table_unique [OF e2(4) e1' e2(1)] e1(2) e2(2) by simp
  qed
qed

text \<open>
  The string cache keeps its size: the strings in it and the free slots are the configured
  number, each entry has at most one string, and the string that was put for an entry that had none
  is the one that is got back.
\<close>

lemma sid2str_put_get:
  assumes "cache_ok slots s" "sidtab_sid2str_put s r entry str m = (s', m')" "ctx_len (se_context entry) = 0"
    "map_of (sd_cache_lru s) r = None" "ample m"
  shows "cache_ok slots s' \<and> fst (sidtab_sid2str_get s' r entry m') = Inr str"
proof -
  obtain m1 where m1: "kalloc m = (True, m1)" "ample m1"
    using kalloc_ampleE [OF assms(5)] by blast
  obtain m2 where m2: "kalloc m1 = (True, m2)"
    using kalloc_ampleE [OF m1(2)] by blast
  have "map_of (sd_cache_lru s') r = Some str" "m' = m1"
    using assms(2-4) m1 by (auto simp: sidtab_sid2str_put_def split: if_splits)
  then show ?thesis
    using put_cache_ok [OF assms(1,2)] assms(3) m2 by (simp add: sidtab_sid2str_get_def split: prod.split)
qed

end
