(* ===== verification/Services.thy ===== *)
theory Services
  imports Class_Map Constraint Conditional Sidtab
begin

text \<open>
  Access decisions of the security server (\<open>ss/services.c\<close>): the computation of an access vector from
  the type enforcement rules, the constraints, the role allow rules and the bounds of types, its
  entry points for the kernel and for user space, the extended permissions of a driver, and the
  validation of transitions.

  A \<open>BUG_ON()\<close>, the dereference of a null structure and an access outside an index array are \<open>None\<close>.
  The computation of an access vector calls itself for the bounds of the types; the fuel bounds the
  depth of these calls, and \<open>None\<close> is returned when it is used up. The audit records are not modelled.
\<close>

section \<open>State\<close>

record selinux_policy =
  pol_sidtab :: sidtab
  pol_policydb :: policydb
  pol_map :: selinux_map
  latest_granting :: u32

record selinux_state =
  enforcing :: bool
  initialized :: bool
  policycap :: "bool list"
  state_policy :: "selinux_policy option"

section \<open>Access vectors\<close>

definition avd_start :: "av_decision \<Rightarrow> av_decision" where
  "avd_start avd = avd\<lparr>allowed := 0, auditallow := 0, auditdeny := 0xffffffff\<rparr>"

text \<open>The contribution of one rule of the unconditional table.\<close>

definition te_add_node ::
  "avtab_node \<Rightarrow> av_decision \<times> extended_perms option \<Rightarrow> av_decision \<times> extended_perms option" where
  "te_add_node node st =
     (case st of (avd, xperms) \<Rightarrow>
        if specified (an_key node) = AVTAB_ALLOWED then (avd\<lparr>allowed := allowed avd OR node_data node\<rparr>, xperms)
        else if specified (an_key node) = AVTAB_AUDITALLOW
        then (avd\<lparr>auditallow := auditallow avd OR node_data node\<rparr>, xperms)
        else if specified (an_key node) = AVTAB_AUDITDENY
        then (avd\<lparr>auditdeny := auditdeny avd AND node_data node\<rparr>, xperms)
        else if specified (an_key node) AND AVTAB_XPERMS \<noteq> 0
        then (avd, map_option (\<lambda>x. services_compute_xperms_drivers x node) xperms)
        else (avd, xperms))"

definition te_key :: "u16 \<Rightarrow> u16 \<Rightarrow> u32 \<Rightarrow> u32 \<Rightarrow> avtab_key" where
  "te_key tclass spec i j =
     \<lparr>source_type = ucast (i + 1), target_type = ucast (j + 1), target_class = tclass, specified = spec\<rparr>"

definition te_add_pair ::
  "policydb \<Rightarrow> u16 \<Rightarrow> u32 \<Rightarrow> u32 \<Rightarrow> av_decision \<times> extended_perms option \<Rightarrow> av_decision \<times> extended_perms option" where
  "te_add_pair p tclass i j st =
     (let avkey = te_key tclass (AVTAB_AV OR AVTAB_XPERMS) i j
      in cond_compute_av (te_cond_avtab p) avkey (fold te_add_node (avtab_for_each (te_avtab p) avkey) st))"

definition te_compute ::
  "policydb \<Rightarrow> u16 \<Rightarrow> ebitmap \<Rightarrow> ebitmap \<Rightarrow> av_decision \<times> extended_perms option \<Rightarrow> av_decision \<times> extended_perms option" where
  "te_compute p tclass sattr tattr st =
     fold (\<lambda>i. fold (\<lambda>j. te_add_pair p tclass i j) (ebitmap_positive_bits tattr)) (ebitmap_positive_bits sattr) st"

fun constrain_av :: "policydb \<Rightarrow> context \<Rightarrow> context \<Rightarrow> constraint_node list \<Rightarrow> av_decision \<Rightarrow> av_decision option" where
  "constrain_av p scontext tcontext [] avd = Some avd"
| "constrain_av p scontext tcontext (c # cs) avd =
     (if cn_permissions c AND allowed avd \<noteq> 0
      then case constraint_expr_eval p scontext tcontext None (cn_expr c) of
             None \<Rightarrow> None
           | Some True \<Rightarrow> constrain_av p scontext tcontext cs avd
           | Some False \<Rightarrow> constrain_av p scontext tcontext cs (avd\<lparr>allowed := allowed avd AND NOT (cn_permissions c)\<rparr>)
      else constrain_av p scontext tcontext cs avd)"

definition role_allow_av :: "policydb \<Rightarrow> context \<Rightarrow> context \<Rightarrow> u16 \<Rightarrow> av_decision \<Rightarrow> av_decision" where
  "role_allow_av p scontext tcontext tclass avd =
     (if tclass = process_class p \<and> allowed avd AND process_trans_perms p \<noteq> 0 \<and> ctx_role scontext \<noteq> ctx_role tcontext
      then if find (\<lambda>ra. ctx_role scontext = ra_role ra \<and> ctx_role tcontext = ra_new_role ra) (p_role_allow p) = None
           then avd\<lparr>allowed := allowed avd AND NOT (process_trans_perms p)\<rparr> else avd
      else avd)"

definition avd_zero :: av_decision where
  "avd_zero = \<lparr>allowed = 0, auditallow = 0, auditdeny = 0, seqno = 0, avd_flags = 0\<rparr>"

text \<open>The contexts with the types replaced by their bounds.\<close>

definition bounded_source :: "context \<Rightarrow> type_datum \<Rightarrow> context" where
  "bounded_source scontext source = scontext\<lparr>ctx_type := type_bounds source\<rparr>"

definition bounded_target :: "context \<Rightarrow> type_datum \<Rightarrow> context" where
  "bounded_target tcontext target =
     (if type_bounds target \<noteq> 0 then tcontext\<lparr>ctx_type := type_bounds target\<rparr> else tcontext)"

text \<open>\<open>type_attribute_bounds_av\<close>; \<open>compute_av\<close> is \<open>context_struct_compute_av\<close>, called for the bounds.\<close>

definition type_attribute_bounds_av ::
  "(context \<Rightarrow> context \<Rightarrow> av_decision \<Rightarrow> (av_decision \<times> extended_perms option) option) \<Rightarrow>
   policydb \<Rightarrow> context \<Rightarrow> context \<Rightarrow> av_decision \<Rightarrow> av_decision option" where
  "type_attribute_bounds_av compute_av p scontext tcontext avd =
     (case val_to_struct (type_val_to_struct p) (ctx_type scontext) of
        None \<Rightarrow> None
      | Some source \<Rightarrow>
          if type_bounds source = 0 then Some avd
          else case val_to_struct (type_val_to_struct p) (ctx_type tcontext) of
                 None \<Rightarrow> None
               | Some target \<Rightarrow>
                   (case compute_av (bounded_source scontext source) (bounded_target tcontext target) avd_zero of
                      None \<Rightarrow> None
                    | Some (lo_avd, _) \<Rightarrow>
                        (let masked = NOT (allowed lo_avd) AND allowed avd
                         in if masked = 0 then Some avd
                            else Some (avd\<lparr>allowed := allowed avd AND NOT masked\<rparr>))))"

definition type_attrs :: "policydb \<Rightarrow> u32 \<Rightarrow> ebitmap option" where
  "type_attrs p v =
     (let i = unat (v - 1) in if i < length (type_attr_map_array p) then Some (type_attr_map_array p ! i) else None)"

fun context_struct_compute_av ::
  "nat \<Rightarrow> policydb \<Rightarrow> u16 \<Rightarrow> context \<Rightarrow> context \<Rightarrow> av_decision \<Rightarrow> extended_perms option \<Rightarrow>
   (av_decision \<times> extended_perms option) option" where
  "context_struct_compute_av 0 p tclass scontext tcontext avd xperms = None"
| "context_struct_compute_av (Suc fuel) p tclass scontext tcontext avd xperms =
     (let avd0 = avd_start avd; xperms0 = map_option (\<lambda>x. \<lparr>xp_len = 0, xp_drivers = xperms_none\<rparr>) xperms
      in if tclass = 0 \<or> ucast tclass > st_nprim (p_classes p) then Some (avd0, xperms0)
         else case (val_to_struct (class_val_to_struct p) (ucast tclass), type_attrs p (ctx_type scontext),
                    type_attrs p (ctx_type tcontext)) of
                (Some tclass_datum, Some sattr, Some tattr) \<Rightarrow>
                  (case te_compute p tclass sattr tattr (avd0, xperms0) of
                     (avd1, xperms1) \<Rightarrow>
                       (case constrain_av p scontext tcontext (cla_constraints tclass_datum) avd1 of
                          None \<Rightarrow> None
                        | Some avd2 \<Rightarrow>
                            (case type_attribute_bounds_av
                                    (\<lambda>s t a. context_struct_compute_av fuel p tclass s t a None)
                                    p scontext tcontext (role_allow_av p scontext tcontext tclass avd2) of
                               None \<Rightarrow> None
                             | Some avd3 \<Rightarrow> Some (avd3, xperms1))))
              | _ \<Rightarrow> None)"

text \<open>The bounds are fewer than four deep, so four nested calls are enough.\<close>

abbreviation compute_av_fuel :: nat where "compute_av_fuel \<equiv> POLICYDB_BOUNDS_MAXDEPTH"

definition avd_init :: "selinux_policy option \<Rightarrow> av_decision" where
  "avd_init policy =
     \<lparr>allowed = 0, auditallow = 0, auditdeny = 0xffffffff,
      seqno = (case policy of Some pol \<Rightarrow> latest_granting pol | None \<Rightarrow> 0), avd_flags = 0\<rparr>"

definition avd_allow_all :: "av_decision \<Rightarrow> av_decision" where
  "avd_allow_all avd = avd\<lparr>allowed := 0xffffffff\<rparr>"

definition permissive_flag :: "policydb \<Rightarrow> context \<Rightarrow> av_decision \<Rightarrow> av_decision" where
  "permissive_flag p scontext avd =
     (if ebitmap_get_bit (permissive_map p) (unat (ctx_type scontext))
      then avd\<lparr>avd_flags := avd_flags avd OR AVD_FLAGS_PERMISSIVE\<rparr> else avd)"

definition security_compute_av ::
  "selinux_state \<Rightarrow> u32 \<Rightarrow> u32 \<Rightarrow> u16 \<Rightarrow> extended_perms \<Rightarrow> (av_decision \<times> extended_perms) option" where
  "security_compute_av st ssid tsid orig_tclass xperms =
     (let avd = avd_init (state_policy st); xperms = xperms\<lparr>xp_len := 0\<rparr>
      in if \<not> initialized st then Some (avd_allow_all avd, xperms)
         else case state_policy st of
                None \<Rightarrow> None
              | Some policy \<Rightarrow>
                  (case sidtab_search (pol_sidtab policy) ssid of
                     None \<Rightarrow> Some (avd, xperms)
                   | Some scontext \<Rightarrow>
                       (let avd = permissive_flag (pol_policydb policy) scontext avd
                        in case sidtab_search (pol_sidtab policy) tsid of
                             None \<Rightarrow> Some (avd, xperms)
                           | Some tcontext \<Rightarrow>
                               (let tclass = unmap_class (pol_map policy) orig_tclass
                                in if orig_tclass \<noteq> 0 \<and> tclass = 0
                                   then if allow_unknown (pol_policydb policy) then Some (avd_allow_all avd, xperms)
                                        else Some (avd, xperms)
                                   else case context_struct_compute_av compute_av_fuel (pol_policydb policy) tclass
                                               scontext tcontext avd (Some xperms) of
                                          Some (avd', Some xperms') \<Rightarrow>
                                            Some (map_decision (pol_map policy) orig_tclass avd'
                                                    (allow_unknown (pol_policydb policy)), xperms')
                                        | _ \<Rightarrow> None))))"

definition security_compute_av_user :: "selinux_state \<Rightarrow> u32 \<Rightarrow> u32 \<Rightarrow> u16 \<Rightarrow> av_decision option" where
  "security_compute_av_user st ssid tsid tclass =
     (let avd = avd_init (state_policy st)
      in if \<not> initialized st then Some (avd_allow_all avd)
         else case state_policy st of
                None \<Rightarrow> None
              | Some policy \<Rightarrow>
                  (case sidtab_search (pol_sidtab policy) ssid of
                     None \<Rightarrow> Some avd
                   | Some scontext \<Rightarrow>
                       (let avd = permissive_flag (pol_policydb policy) scontext avd
                        in case sidtab_search (pol_sidtab policy) tsid of
                             None \<Rightarrow> Some avd
                           | Some tcontext \<Rightarrow>
                               if tclass = 0
                               then if allow_unknown (pol_policydb policy) then Some (avd_allow_all avd) else Some avd
                               else map_option fst
                                      (context_struct_compute_av compute_av_fuel (pol_policydb policy) tclass
                                         scontext tcontext avd None))))"

section \<open>Extended permissions of a driver\<close>

definition xperms_add_pair :: "policydb \<Rightarrow> u16 \<Rightarrow> u32 \<Rightarrow> u32 \<Rightarrow> extended_perms_decision \<Rightarrow> extended_perms_decision" where
  "xperms_add_pair p tclass i j xpermd =
     (let avkey = te_key tclass AVTAB_XPERMS i j
      in cond_compute_xperms (te_cond_avtab p) avkey
           (fold (\<lambda>node x. services_compute_xperms_decision x node) (avtab_for_each (te_avtab p) avkey) xpermd))"

definition xperms_compute ::
  "policydb \<Rightarrow> u16 \<Rightarrow> ebitmap \<Rightarrow> ebitmap \<Rightarrow> extended_perms_decision \<Rightarrow> extended_perms_decision" where
  "xperms_compute p tclass sattr tattr xpermd =
     fold (\<lambda>i. fold (\<lambda>j. xperms_add_pair p tclass i j) (ebitmap_positive_bits tattr)) (ebitmap_positive_bits sattr) xpermd"

definition security_compute_xperms_decision ::
  "selinux_state \<Rightarrow> u32 \<Rightarrow> u32 \<Rightarrow> u16 \<Rightarrow> u8 \<Rightarrow> extended_perms_decision option" where
  "security_compute_xperms_decision st ssid tsid orig_tclass driver =
     (let xpermd = \<lparr>xd_used = 0, xd_driver = driver, xd_allowed = xperms_none, xd_auditallow = xperms_none,
                     xd_dontaudit = xperms_none\<rparr>;
          all = xpermd\<lparr>xd_allowed := xperms_all\<rparr>
      in if \<not> initialized st then Some all
         else case state_policy st of
                None \<Rightarrow> None
              | Some policy \<Rightarrow>
                  (case (sidtab_search (pol_sidtab policy) ssid, sidtab_search (pol_sidtab policy) tsid) of
                     (Some scontext, Some tcontext) \<Rightarrow>
                       (let p = pol_policydb policy; tclass = unmap_class (pol_map policy) orig_tclass
                        in if orig_tclass \<noteq> 0 \<and> tclass = 0
                           then if allow_unknown p then Some all else Some xpermd
                           else if tclass = 0 \<or> ucast tclass > st_nprim (p_classes p) then Some xpermd
                           else case (type_attrs p (ctx_type scontext), type_attrs p (ctx_type tcontext)) of
                                  (Some sattr, Some tattr) \<Rightarrow> Some (xperms_compute p tclass sattr tattr xpermd)
                                | _ \<Rightarrow> None)
                   | _ \<Rightarrow> Some xpermd))"

section \<open>Transitions\<close>

text \<open>The outcome of the functions below: a status, or \<open>None\<close> for a bug.\<close>

text \<open>\<open>security_validtrans_handle_fail\<close> without its audit record.\<close>

definition security_validtrans_handle_fail :: "selinux_state \<Rightarrow> rc" where
  "security_validtrans_handle_fail st = (if \<not> enforcing st then OK else Err EPERM)"

fun validatetrans_loop ::
  "selinux_state \<Rightarrow> policydb \<Rightarrow> context \<Rightarrow> context \<Rightarrow> context \<Rightarrow> bool \<Rightarrow> constraint_node list \<Rightarrow> rc option" where
  "validatetrans_loop st p ocontext ncontext tcontext user [] = Some OK"
| "validatetrans_loop st p ocontext ncontext tcontext user (c # cs) =
     (case constraint_expr_eval p ocontext ncontext (Some tcontext) (cn_expr c) of
        None \<Rightarrow> None
      | Some True \<Rightarrow> validatetrans_loop st p ocontext ncontext tcontext user cs
      | Some False \<Rightarrow> Some (if user then Err EPERM else security_validtrans_handle_fail st))"

definition security_compute_validatetrans :: "selinux_state \<Rightarrow> u32 \<Rightarrow> u32 \<Rightarrow> u32 \<Rightarrow> u16 \<Rightarrow> bool \<Rightarrow> rc option" where
  "security_compute_validatetrans st oldsid newsid tasksid orig_tclass user =
     (if \<not> initialized st then Some OK
      else case state_policy st of
             None \<Rightarrow> None
           | Some policy \<Rightarrow>
               (let p = pol_policydb policy;
                    tclass = (if \<not> user then unmap_class (pol_map policy) orig_tclass else orig_tclass)
                in if tclass = 0 \<or> ucast tclass > st_nprim (p_classes p) then Some (Err EINVAL)
                   else case (sidtab_search (pol_sidtab policy) oldsid, sidtab_search (pol_sidtab policy) newsid,
                              sidtab_search (pol_sidtab policy) tasksid) of
                          (Some ocontext, Some ncontext, Some tcontext) \<Rightarrow>
                            (case val_to_struct (class_val_to_struct p) (ucast tclass) of
                               None \<Rightarrow> None
                             | Some tclass_datum \<Rightarrow>
                                 validatetrans_loop st p ocontext ncontext tcontext user (cla_validatetrans tclass_datum))
                        | _ \<Rightarrow> Some (Err EINVAL)))"

definition security_validate_transition_user :: "selinux_state \<Rightarrow> u32 \<Rightarrow> u32 \<Rightarrow> u32 \<Rightarrow> u16 \<Rightarrow> rc option" where
  "security_validate_transition_user st oldsid newsid tasksid tclass =
     security_compute_validatetrans st oldsid newsid tasksid tclass True"

definition security_validate_transition :: "selinux_state \<Rightarrow> u32 \<Rightarrow> u32 \<Rightarrow> u32 \<Rightarrow> u16 \<Rightarrow> rc option" where
  "security_validate_transition st oldsid newsid tasksid orig_tclass =
     security_compute_validatetrans st oldsid newsid tasksid orig_tclass False"

text \<open>
  The loop of \<open>security_bounded_transition\<close> has no bound in the code: \<open>None\<close> is both the bug of a
  missing type and not returning.
\<close>

partial_function (option) bounded_walk :: "policydb \<Rightarrow> u32 \<Rightarrow> u32 \<Rightarrow> rc option" where
  "bounded_walk p old_type index =
     (case val_to_struct (type_val_to_struct p) index of
        None \<Rightarrow> None
      | Some type \<Rightarrow>
          if type_bounds type = 0 then Some (Err EPERM)
          else if type_bounds type = old_type then Some OK
          else bounded_walk p old_type (type_bounds type))"

definition security_bounded_transition :: "selinux_state \<Rightarrow> u32 \<Rightarrow> u32 \<Rightarrow> rc option" where
  "security_bounded_transition st old_sid new_sid =
     (if \<not> initialized st then Some OK
      else case state_policy st of
             None \<Rightarrow> None
           | Some policy \<Rightarrow>
               (case (sidtab_search (pol_sidtab policy) old_sid, sidtab_search (pol_sidtab policy) new_sid) of
                  (Some old_context, Some new_context) \<Rightarrow>
                    if ctx_type old_context = ctx_type new_context then Some OK
                    else bounded_walk (pol_policydb policy) (ctx_type old_context) (ctx_type new_context)
                | _ \<Rightarrow> Some (Err EINVAL)))"

section \<open>Rules\<close>

text \<open>A rule of the unconditional or an enabled rule of the conditional table allows a permission.\<close>

definition te_node_allows :: "avtab_node \<Rightarrow> nat \<Rightarrow> bool" where
  "te_node_allows n k \<longleftrightarrow> specified (an_key n) = AVTAB_ALLOWED \<and> bit (node_data n) k"

definition cond_node_allows :: "avtab_node \<Rightarrow> nat \<Rightarrow> bool" where
  "cond_node_allows n k \<longleftrightarrow>
     specified (an_key n) AND AVTAB_ALLOWED \<noteq> 0 \<and> specified (an_key n) AND AVTAB_ENABLED \<noteq> 0 \<and> bit (node_data n) k"

definition node_types :: "avtab_node \<Rightarrow> u16 \<Rightarrow> u16 \<Rightarrow> u16 \<Rightarrow> bool" where
  "node_types n s t c \<longleftrightarrow>
     source_type (an_key n) = s \<and> target_type (an_key n) = t \<and> target_class (an_key n) = c"

definition te_allows :: "policydb \<Rightarrow> u16 \<Rightarrow> u32 \<Rightarrow> u32 \<Rightarrow> nat \<Rightarrow> bool" where
  "te_allows p tclass stype ttype k \<longleftrightarrow>
     (\<exists>sattr tattr i j. type_attrs p stype = Some sattr \<and> type_attrs p ttype = Some tattr \<and>
        ebitmap_get_bit sattr i \<and> ebitmap_get_bit tattr j \<and>
        ((\<exists>n \<in> set (avtab_nodes (te_avtab p)). node_types n (of_nat (i + 1)) (of_nat (j + 1)) tclass \<and> te_node_allows n k) \<or>
         (\<exists>n \<in> set (avtab_nodes (te_cond_avtab p)). node_types n (of_nat (i + 1)) (of_nat (j + 1)) tclass \<and> cond_node_allows n k)))"

lemma fold_disj:
  assumes "\<And>x st. Q (f x st) \<longleftrightarrow> Q st \<or> P x"
  shows "Q (fold f xs st) \<longleftrightarrow> Q st \<or> (\<exists>x \<in> set xs. P x)"
  by (induction xs arbitrary: st) (auto simp: assms)

lemma bit_test_single: "(w AND push_bit n 1 \<noteq> (0 :: 'a :: len word)) \<longleftrightarrow> bit w n"
  by (simp add: and_exp_eq_0_iff_not_bit push_bit_eq_mult)

lemma u16_flags:
  "(w AND 0x8000 \<noteq> (0 :: u16)) \<longleftrightarrow> bit w 15" "(w AND 1 \<noteq> (0 :: u16)) \<longleftrightarrow> bit w 0"
  using bit_test_single [of w 15] bit_test_single [of w 0] by (simp_all add: push_bit_eq_mult)

lemma allowed_enabled_iff:
  "AVTAB_ALLOWED OR AVTAB_ENABLED = s AND (AVTAB_ALLOWED OR AVTAB_ENABLED) \<longleftrightarrow>
     s AND AVTAB_ALLOWED \<noteq> 0 \<and> s AND AVTAB_ENABLED \<noteq> 0"
proof -
  have "bit (push_bit 0 1 OR push_bit 15 1 :: u16) n \<longleftrightarrow> n = 0 \<or> n = 15" for n
    by (simp only: bit_or_iff bit_push_bit_iff bit_1_iff) auto
  then have m: "bit (AVTAB_ALLOWED OR AVTAB_ENABLED) n \<longleftrightarrow> n = 0 \<or> n = 15" for n
    by (simp add: push_bit_eq_mult)
  have "AVTAB_ALLOWED OR AVTAB_ENABLED = s AND (AVTAB_ALLOWED OR AVTAB_ENABLED) \<longleftrightarrow> bit s 0 \<and> bit s 15"
  proof
    assume "AVTAB_ALLOWED OR AVTAB_ENABLED = s AND (AVTAB_ALLOWED OR AVTAB_ENABLED)"
    then have "bit (AVTAB_ALLOWED OR AVTAB_ENABLED) n = bit (s AND (AVTAB_ALLOWED OR AVTAB_ENABLED)) n" for n
      by (rule arg_cong)
    from this [of 0] this [of 15] show "bit s 0 \<and> bit s 15"
      unfolding bit_and_iff m by blast
  next
    assume "bit s 0 \<and> bit s 15"
    then show "AVTAB_ALLOWED OR AVTAB_ENABLED = s AND (AVTAB_ALLOWED OR AVTAB_ENABLED)"
      by (intro bit_eqI) (unfold bit_and_iff m, blast)
  qed
  then show ?thesis by (simp only: u16_flags)
qed

lemma te_add_node_allowed:
  "bit (allowed (fst (te_add_node n st))) k \<longleftrightarrow> bit (allowed (fst st)) k \<or> te_node_allows n k"
  by (cases st) (auto simp: te_add_node_def te_node_allows_def bit_or_iff)

lemma cond_add_allowed:
  "bit (allowed (cond_add_av n avd)) k \<longleftrightarrow> bit (allowed avd) k \<or> cond_node_allows n k"
proof -
  have "allowed (cond_add_av n avd) =
     (if specified (an_key n) AND AVTAB_ALLOWED \<noteq> 0 \<and> specified (an_key n) AND AVTAB_ENABLED \<noteq> 0
      then allowed avd OR node_data n else allowed avd)"
    unfolding cond_add_av_def Let_def allowed_enabled_iff by simp
  then show ?thesis by (auto simp: cond_node_allows_def bit_or_iff)
qed

lemma cond_compute_allowed:
  "bit (allowed (fst (cond_compute_av t key st))) k \<longleftrightarrow>
     bit (allowed (fst st)) k \<or> (\<exists>n \<in> set (avtab_for_each t key). cond_node_allows n k)"
  unfolding cond_compute_av_def by (rule fold_disj) (auto simp: cond_add_allowed split: prod.splits)

lemma ucast_succ: "(ucast (x + 1 :: u32) :: u16) = of_nat (unat x + 1)"
proof -
  have "x + 1 = of_nat (unat x + 1)" by simp
  then have "(ucast (x + 1) :: u16) = of_nat (take_bit 32 (unat x + 1))"
    by (simp only: unsigned_of_nat) simp
  then show ?thesis by (simp only: word_of_nat_eq_iff) (simp add: take_bit_take_bit)
qed

lemma for_each_te_key:
  assumes "avtab_wf t"
  shows "set (avtab_for_each t (te_key c spec i j)) =
    {n \<in> set (avtab_nodes t). node_types n (of_nat (unat i + 1)) (of_nat (unat j + 1)) c \<and>
       spec_mask spec AND specified (an_key n) \<noteq> 0}"
  unfolding avtab_for_each_filter [OF assms] te_key_def ucast_succ
  by (auto simp: avtab_match_def same_triple_def node_types_def simp del: of_nat_Suc of_nat_add)

lemma mask_sees_allowed:
  assumes "s AND AVTAB_ALLOWED \<noteq> 0"
  shows "spec_mask (AVTAB_AV OR AVTAB_XPERMS) AND s \<noteq> 0"
proof -
  have "bit (spec_mask (AVTAB_AV OR AVTAB_XPERMS)) 0" by (simp add: spec_mask_def bit_0)
  moreover have "bit s 0" using assms u16_flags(2) by blast
  ultimately have "bit (spec_mask (AVTAB_AV OR AVTAB_XPERMS) AND s) 0" by (simp only: bit_and_iff)
  then show ?thesis by (metis zero_word_def bit_0_eq bot_apply bot_bool_def)
qed

lemma finite_ebitmap_bits:
  assumes "ebitmap_wf e"
  shows "finite (ebitmap_bits e)"
proof (rule finite_subset)
  show "ebitmap_bits e \<subseteq> {0..<unat (eb_highbit e)}"
    using assms nodes_end_bound [of "eb_node e"] by (fastforce simp: ebitmap_wf_def ebitmap_bits_def)
qed simp

lemma positive_bits_get:
  assumes "ebitmap_wf e"
  shows "(\<exists>x \<in> set (ebitmap_positive_bits e). P (unat x)) \<longleftrightarrow> (\<exists>i. ebitmap_get_bit e i \<and> P i)"
proof -
  have "unat ` set (ebitmap_positive_bits e) = {i. ebitmap_get_bit e i}"
    using ebitmap_positive_bits_correct [OF assms] finite_ebitmap_bits [OF assms] ebitmap_get_bit_iff [OF assms]
    by (metis Collect_cong Collect_mem_eq list.set_map set_sorted_list_of_set)
  then have "(\<exists>i \<in> unat ` set (ebitmap_positive_bits e). P i) \<longleftrightarrow> (\<exists>i. ebitmap_get_bit e i \<and> P i)"
    by (simp only: Bex_def mem_Collect_eq)
  then show ?thesis by (simp only: bex_simps)
qed

definition attrs_wf :: "policydb \<Rightarrow> bool" where
  "attrs_wf p \<longleftrightarrow> list_all ebitmap_wf (type_attr_map_array p) \<and> avtab_wf (te_avtab p) \<and> avtab_wf (te_cond_avtab p)"

lemma type_attrs_wf: "attrs_wf p \<Longrightarrow> type_attrs p v = Some e \<Longrightarrow> ebitmap_wf e"
  by (auto simp: attrs_wf_def type_attrs_def Let_def list_all_length split: if_splits)

definition pair_allows :: "policydb \<Rightarrow> u16 \<Rightarrow> nat \<Rightarrow> nat \<Rightarrow> nat \<Rightarrow> bool" where
  "pair_allows p c i j k \<longleftrightarrow>
     (\<exists>n \<in> set (avtab_nodes (te_avtab p)). node_types n (of_nat (i + 1)) (of_nat (j + 1)) c \<and> te_node_allows n k) \<or>
     (\<exists>n \<in> set (avtab_nodes (te_cond_avtab p)). node_types n (of_nat (i + 1)) (of_nat (j + 1)) c \<and> cond_node_allows n k)"

lemma te_add_pair_allowed:
  assumes "attrs_wf p"
  shows "bit (allowed (fst (te_add_pair p c i j st))) k \<longleftrightarrow> bit (allowed (fst st)) k \<or> pair_allows p c (unat i) (unat j) k"
proof -
  have wf: "avtab_wf (te_avtab p)" "avtab_wf (te_cond_avtab p)" using assms by (simp_all add: attrs_wf_def)
  have te: "spec_mask (AVTAB_AV OR AVTAB_XPERMS) AND specified (an_key n) \<noteq> 0" if "te_node_allows n k" for n
    using that by (intro mask_sees_allowed) (simp add: te_node_allows_def)
  have co: "spec_mask (AVTAB_AV OR AVTAB_XPERMS) AND specified (an_key n) \<noteq> 0" if "cond_node_allows n k" for n
    using that unfolding cond_node_allows_def by (intro mask_sees_allowed) (rule conjunct1)
  have fd: "bit (allowed (fst (fold te_add_node ns st))) k \<longleftrightarrow> bit (allowed (fst st)) k \<or> (\<exists>n \<in> set ns. te_node_allows n k)" for ns st
    by (rule fold_disj) (rule te_add_node_allowed)
  show ?thesis
    unfolding te_add_pair_def Let_def cond_compute_allowed fd pair_allows_def for_each_te_key [OF wf(1)] for_each_te_key [OF wf(2)]
    using te co by blast
qed

lemma te_compute_allowed:
  assumes "attrs_wf p" "type_attrs p s = Some sattr" "type_attrs p t = Some tattr"
  shows "bit (allowed (fst (te_compute p c sattr tattr st))) k \<longleftrightarrow> bit (allowed (fst st)) k \<or> te_allows p c s t k"
proof -
  note wf = type_attrs_wf [OF assms(1,2)] type_attrs_wf [OF assms(1,3)]
  have inner: "bit (allowed (fst (fold (\<lambda>j. te_add_pair p c i j) js st))) k \<longleftrightarrow>
      bit (allowed (fst st)) k \<or> (\<exists>j \<in> set js. pair_allows p c (unat i) (unat j) k)" for i js st
    by (rule fold_disj) (rule te_add_pair_allowed [OF assms(1)])
  have "bit (allowed (fst (te_compute p c sattr tattr st))) k \<longleftrightarrow> bit (allowed (fst st)) k \<or>
      (\<exists>i \<in> set (ebitmap_positive_bits sattr). \<exists>j \<in> set (ebitmap_positive_bits tattr). pair_allows p c (unat i) (unat j) k)"
    unfolding te_compute_def by (rule fold_disj) (rule inner)
  also have "\<dots> \<longleftrightarrow> bit (allowed (fst st)) k \<or>
      (\<exists>i. ebitmap_get_bit sattr i \<and> (\<exists>j. ebitmap_get_bit tattr j \<and> pair_allows p c i j k))"
    unfolding positive_bits_get [OF wf(2), of "\<lambda>j. pair_allows p c _ j k"]
    by (simp only: positive_bits_get [OF wf(1), of "\<lambda>i. \<exists>j. ebitmap_get_bit tattr j \<and> pair_allows p c i j k"])
  finally show ?thesis
    using assms(2,3) unfolding te_allows_def pair_allows_def by auto
qed

section \<open>Constraints, roles and bounds\<close>

definition constraints_ok :: "policydb \<Rightarrow> u16 \<Rightarrow> context \<Rightarrow> context \<Rightarrow> nat \<Rightarrow> bool" where
  "constraints_ok p c s t k \<longleftrightarrow>
     (\<exists>cd. val_to_struct (class_val_to_struct p) (ucast c) = Some cd \<and>
        (\<forall>cn \<in> set (cla_constraints cd). bit (cn_permissions cn) k \<longrightarrow>
           constraint_expr_eval p s t None (cn_expr cn) = Some True))"

definition roles_ok :: "policydb \<Rightarrow> u16 \<Rightarrow> context \<Rightarrow> context \<Rightarrow> nat \<Rightarrow> bool" where
  "roles_ok p c s t k \<longleftrightarrow>
     (c = process_class p \<and> bit (process_trans_perms p) k \<and> ctx_role s \<noteq> ctx_role t \<longrightarrow>
        (\<exists>ra \<in> set (p_role_allow p). ra_role ra = ctx_role s \<and> ra_new_role ra = ctx_role t))"

text \<open>
  What a policy grants: a rule allows the permission, no constraint or role change forbids it, and when
  the source type is bounded its bounds have the permission too.
\<close>

inductive granted :: "policydb \<Rightarrow> u16 \<Rightarrow> context \<Rightarrow> context \<Rightarrow> nat \<Rightarrow> bool" where
  granted_unbounded:
    "te_allows p c (ctx_type s) (ctx_type t) k \<Longrightarrow> constraints_ok p c s t k \<Longrightarrow> roles_ok p c s t k \<Longrightarrow>
     val_to_struct (type_val_to_struct p) (ctx_type s) = Some sd \<Longrightarrow> type_bounds sd = 0 \<Longrightarrow> granted p c s t k"
| granted_bounded:
    "te_allows p c (ctx_type s) (ctx_type t) k \<Longrightarrow> constraints_ok p c s t k \<Longrightarrow> roles_ok p c s t k \<Longrightarrow>
     val_to_struct (type_val_to_struct p) (ctx_type s) = Some sd \<Longrightarrow> type_bounds sd \<noteq> 0 \<Longrightarrow>
     val_to_struct (type_val_to_struct p) (ctx_type t) = Some td \<Longrightarrow>
     granted p c (bounded_source s sd) (bounded_target t td) k \<Longrightarrow> granted p c s t k"

inductive_simps granted_iff: "granted p c s t k"

lemma and_bit_nonzero: "bit (a :: u32) k \<Longrightarrow> bit b k \<Longrightarrow> a AND b \<noteq> 0"
  by (metis bit_0_eq bit_and_iff bot_apply bot_bool_def)

lemma bit_and_not: "bit (a AND NOT b :: u32) k \<longleftrightarrow> bit a k \<and> \<not> bit b k"
  using bit_imp_le_length [of a k] by (auto simp: bit_and_iff bit_not_iff)

lemma constrain_av_allowed:
  "constrain_av p s t cs avd = Some avd' \<Longrightarrow>
     bit (allowed avd') k \<longleftrightarrow> bit (allowed avd) k \<and>
       (\<forall>cn \<in> set cs. bit (cn_permissions cn) k \<longrightarrow> constraint_expr_eval p s t None (cn_expr cn) = Some True)"
proof (induction cs arbitrary: avd)
  case Nil
  then show ?case by simp
next
  case (Cons cn cs)
  show ?case
  proof (cases "cn_permissions cn AND allowed avd \<noteq> 0")
    case False
    then have "\<not> (bit (cn_permissions cn) k \<and> bit (allowed avd) k)" using and_bit_nonzero by blast
    then show ?thesis using Cons False by auto
  next
    case True
    with Cons show ?thesis
      by (auto split: option.splits bool.splits simp: bit_and_not)
  qed
qed

lemma role_allow_allowed:
  "bit (allowed (role_allow_av p s t c avd)) k \<longleftrightarrow> bit (allowed avd) k \<and> roles_ok p c s t k"
proof -
  have "bit (allowed avd) k \<Longrightarrow> bit (process_trans_perms p) k \<Longrightarrow> allowed avd AND process_trans_perms p \<noteq> 0"
    by (rule and_bit_nonzero)
  then show ?thesis
    by (auto simp: role_allow_av_def roles_ok_def find_None_iff bit_and_not dest: sym)
qed

lemma mask_bits:
  "bit (a AND NOT (NOT l AND a) :: u32) k \<longleftrightarrow> bit a k \<and> bit l k"
  "bit (a AND (l OR NOT a) :: u32) k \<longleftrightarrow> bit a k \<and> bit l k"
  using bit_imp_le_length [of a k] by (auto simp: bit_and_iff bit_not_iff bit_or_iff)

lemma bounds_av_allowed:
  assumes "type_attribute_bounds_av f p s t avd = Some avd'"
    "val_to_struct (type_val_to_struct p) (ctx_type s) = Some sd"
    "val_to_struct (type_val_to_struct p) (ctx_type t) = Some td"
  shows "bit (allowed avd') k \<longleftrightarrow> bit (allowed avd) k \<and>
    (type_bounds sd \<noteq> 0 \<longrightarrow>
       (\<exists>lo x. f (bounded_source s sd) (bounded_target t td) avd_zero = Some (lo, x) \<and> bit (allowed lo) k))"
proof -
  have "NOT l AND a = 0 \<Longrightarrow> bit a k \<Longrightarrow> bit l k" for l a :: u32
    using mask_bits(2) [of a l k] by (metis and.commute bit.conj_disj_distrib bit.conj_cancel_right bit_0_eq bit_and_not bot_apply bot_bool_def)
  then show ?thesis
    using assms by (auto simp: type_attribute_bounds_av_def Let_def mask_bits split: if_splits option.splits)
qed

section \<open>The computation returns\<close>

text \<open>Only the types of the contexts change on the way to the bounds.\<close>

definition same_but_type :: "context \<Rightarrow> context \<Rightarrow> bool" where
  "same_but_type c c' \<longleftrightarrow> c'\<lparr>ctx_type := ctx_type c\<rparr> = c"

lemma same_but_type_simps [simp]:
  "same_but_type c c" "same_but_type c (bounded_source c d)" "same_but_type c (bounded_target c d)"
  by (simp_all add: same_but_type_def bounded_source_def bounded_target_def)

lemma cexpr_leaf_type:
  assumes "same_but_type s s'" "same_but_type t t'"
  shows "cexpr_leaf p s' t' None e = None \<longleftrightarrow> cexpr_leaf p s t None e = None"
proof -
  obtain a b where "s = s'\<lparr>ctx_type := a\<rparr>" "t = t'\<lparr>ctx_type := b\<rparr>"
    using assms unfolding same_but_type_def by metis
  then show ?thesis
    by (auto simp: cexpr_leaf_def cexpr_attr_def cexpr_names_def cexpr_val_ops_def Let_def split: option.splits)
qed

text \<open>The class is one of the policy and its constraints are well formed for the contexts.\<close>

definition class_ready :: "policydb \<Rightarrow> u16 \<Rightarrow> context \<Rightarrow> context \<Rightarrow> bool" where
  "class_ready p c s t \<longleftrightarrow> c \<noteq> 0 \<and> ucast c \<le> st_nprim (p_classes p) \<and>
     (\<exists>cd. val_to_struct (class_val_to_struct p) (ucast c) = Some cd \<and>
        (\<forall>cn \<in> set (cla_constraints cd). read_cons_check False (cn_expr cn) = OK \<and> cexpr_leaves_ok p s t None (cn_expr cn)))"

lemma class_ready_type:
  assumes "class_ready p c s t" "same_but_type s s'" "same_but_type t t'"
  shows "class_ready p c s' t'"
  using assms(1) unfolding class_ready_def cexpr_leaves_ok_def cexpr_leaf_type [OF assms(2,3)] .

lemma constrain_av_total:
  assumes "\<forall>cn \<in> set cs. read_cons_check False (cn_expr cn) = OK \<and> cexpr_leaves_ok p s t None (cn_expr cn)"
  shows "\<exists>avd'. constrain_av p s t cs avd = Some avd'"
  using assms
proof (induction cs arbitrary: avd)
  case Nil
  then show ?case by simp
next
  case (Cons cn cs)
  obtain v where "constraint_expr_eval p s t None (cn_expr cn) = Some v"
    using constraint_eval_total Cons.prems by (meson list.set_intros(1))
  then show ?case using Cons by (auto split: bool.splits)
qed

lemma type_attrs_total:
  "length (type_attr_map_array p) = length (type_val_to_struct p) \<Longrightarrow> val_to_struct (type_val_to_struct p) v = Some d \<Longrightarrow>
   \<exists>e. type_attrs p v = Some e"
  by (auto simp: type_attrs_def val_to_struct_def Let_def split: if_splits)

lemma compute_av_step:
  assumes "attrs_wf p" "class_ready p c s t"
    and types: "type_attrs p (ctx_type s) = Some sattr" "type_attrs p (ctx_type t) = Some tattr"
  shows "\<exists>avd2 x. (\<forall>k. bit (allowed avd2) k \<longleftrightarrow>
      te_allows p c (ctx_type s) (ctx_type t) k \<and> constraints_ok p c s t k \<and> roles_ok p c s t k) \<and>
    context_struct_compute_av (Suc fuel) p c s t avd xp =
      map_option (\<lambda>a. (a, x)) (type_attribute_bounds_av
        (\<lambda>s t a. context_struct_compute_av fuel p c s t a None) p s t avd2)"
proof -
  obtain cd where c: "c \<noteq> 0" "\<not> ucast c > st_nprim (p_classes p)" "val_to_struct (class_val_to_struct p) (ucast c) = Some cd"
    "\<forall>cn \<in> set (cla_constraints cd). read_cons_check False (cn_expr cn) = OK \<and> cexpr_leaves_ok p s t None (cn_expr cn)"
    using assms(2) by (auto simp: class_ready_def linorder_not_less)
  obtain avd1 x where te: "te_compute p c sattr tattr
      (avd_start avd, map_option (\<lambda>x. \<lparr>xp_len = 0, xp_drivers = xperms_none\<rparr>) xp) = (avd1, x)" by fastforce
  obtain avd2 where co: "constrain_av p s t (cla_constraints cd) avd1 = Some avd2"
    using constrain_av_total [OF c(4)] by blast
  let ?avd2 = "role_allow_av p s t c avd2"
  have "bit (allowed avd1) k \<longleftrightarrow> te_allows p c (ctx_type s) (ctx_type t) k" for k
    using te_compute_allowed [OF assms(1) types, of c "(avd_start avd, map_option (\<lambda>x. \<lparr>xp_len = 0, xp_drivers = xperms_none\<rparr>) xp)" k]
    unfolding te by (simp add: avd_start_def)
  then have "bit (allowed ?avd2) k \<longleftrightarrow>
      te_allows p c (ctx_type s) (ctx_type t) k \<and> constraints_ok p c s t k \<and> roles_ok p c s t k" for k
    unfolding role_allow_allowed constrain_av_allowed [OF co] constraints_ok_def using c(3) by auto
  moreover have "context_struct_compute_av (Suc fuel) p c s t avd xp =
      map_option (\<lambda>a. (a, x)) (type_attribute_bounds_av
        (\<lambda>s t a. context_struct_compute_av fuel p c s t a None) p s t ?avd2)"
    using c types te co by (simp add: Let_def option.case_eq_if map_option_case)
  ultimately show ?thesis by blast
qed

lemma compute_av_granted_aux:
  assumes "attrs_wf p" "length (type_attr_map_array p) = length (type_val_to_struct p)"
    "class_ready p c s t" "length us < fuel"
    "val_to_struct (type_val_to_struct p) (ctx_type s) = Some sd" "type_chain p sd us"
    "val_to_struct (type_val_to_struct p) (ctx_type t) = Some td" "type_chain p td vs"
  shows "\<exists>d x. context_struct_compute_av fuel p c s t avd xp = Some (d, x) \<and> (\<forall>k. bit (allowed d) k \<longleftrightarrow> granted p c s t k)"
  using assms(3-8)
proof (induction us arbitrary: fuel s t sd td vs avd xp)
  case Nil
  obtain f where f: "fuel = Suc f" using Nil(2) by (cases fuel) auto
  obtain sattr tattr where types: "type_attrs p (ctx_type s) = Some sattr" "type_attrs p (ctx_type t) = Some tattr"
    using type_attrs_total [OF assms(2)] Nil by blast
  from compute_av_step [OF assms(1) Nil(1) types, of f avd xp] obtain avd2 x where
    "\<forall>k. bit (allowed avd2) k \<longleftrightarrow> te_allows p c (ctx_type s) (ctx_type t) k \<and> constraints_ok p c s t k \<and> roles_ok p c s t k"
    "context_struct_compute_av fuel p c s t avd xp =
      map_option (\<lambda>a. (a, x)) (type_attribute_bounds_av (\<lambda>s t a. context_struct_compute_av f p c s t a None) p s t avd2)"
    unfolding f by blast
  moreover have "granted p c s t k \<longleftrightarrow>
      te_allows p c (ctx_type s) (ctx_type t) k \<and> constraints_ok p c s t k \<and> roles_ok p c s t k" for k
    using Nil by (subst granted_iff) auto
  ultimately show ?case using Nil by (simp add: type_attribute_bounds_av_def)
next
  case (Cons u us)
  obtain f where f: "fuel = Suc f" using Cons(3) by (cases fuel) auto
  obtain sattr tattr where types: "type_attrs p (ctx_type s) = Some sattr" "type_attrs p (ctx_type t) = Some tattr"
    using type_attrs_total [OF assms(2)] Cons.prems by blast
  from compute_av_step [OF assms(1) Cons(2) types, of f avd xp] obtain avd2 x where
    base: "\<forall>k. bit (allowed avd2) k \<longleftrightarrow> te_allows p c (ctx_type s) (ctx_type t) k \<and> constraints_ok p c s t k \<and> roles_ok p c s t k"
    and comp: "context_struct_compute_av fuel p c s t avd xp =
      map_option (\<lambda>a. (a, x)) (type_attribute_bounds_av (\<lambda>s t a. context_struct_compute_av f p c s t a None) p s t avd2)"
    unfolding f by blast
  let ?s = "bounded_source s sd" and ?t = "bounded_target t td"
  have u: "type_bounds sd \<noteq> 0" "val_to_struct (type_val_to_struct p) (ctx_type ?s) = Some u" "type_chain p u us"
    using Cons.prems(4) by (simp_all add: bounded_source_def)
  have "\<exists>td' vs'. val_to_struct (type_val_to_struct p) (ctx_type ?t) = Some td' \<and> type_chain p td' vs'"
    using Cons.prems(5,6) by (cases vs) (auto simp: bounded_target_def intro: exI [of _ "[]"])
  then obtain td' vs' where t: "val_to_struct (type_val_to_struct p) (ctx_type ?t) = Some td'" "type_chain p td' vs'"
    by blast
  have "class_ready p c ?s ?t" using Cons.prems(1) by (rule class_ready_type) simp_all
  from Cons.IH [OF this _ u(2,3) t, of f avd_zero None] Cons.prems(2)
  obtain lo y where lo: "context_struct_compute_av f p c ?s ?t avd_zero None = Some (lo, y)"
    "\<forall>k. bit (allowed lo) k \<longleftrightarrow> granted p c ?s ?t k"
    unfolding f by auto
  have "\<exists>d. type_attribute_bounds_av (\<lambda>s t a. context_struct_compute_av f p c s t a None) p s t avd2 = Some d"
    using Cons.prems(3,5) lo(1) by (simp add: type_attribute_bounds_av_def Let_def)
  then obtain d where d: "type_attribute_bounds_av (\<lambda>s t a. context_struct_compute_av f p c s t a None) p s t avd2 = Some d"
    by blast
  have "bit (allowed d) k \<longleftrightarrow> granted p c s t k" for k
    using bounds_av_allowed [OF d Cons.prems(3,5), of k] base lo u(1) Cons.prems(3,5)
    by (subst granted_iff) simp
  then show ?case using comp d by simp
qed

section \<open>Bounded transitions\<close>

text \<open>The bounds of a type are above it.\<close>

definition bounds_above :: "policydb \<Rightarrow> (u32 \<times> u32) set" where
  "bounds_above p =
     {(v, b). \<exists>d. val_to_struct (type_val_to_struct p) v = Some d \<and> type_bounds d = b \<and> b \<noteq> 0}"

lemma bounded_walk_chain:
  assumes "val_to_struct (type_val_to_struct p) v = Some d" "type_chain p d us"
  shows "bounded_walk p old v = (if (v, old) \<in> (bounds_above p)\<^sup>+ then Some OK else Some (Err EPERM))"
  using assms
proof (induction us arbitrary: v d)
  case Nil
  then have "\<not> (\<exists>b. (v, b) \<in> bounds_above p)" by (auto simp: bounds_above_def)
  then have "(v, old) \<notin> (bounds_above p)\<^sup>+" by (metis tranclD)
  then show ?case using Nil by (subst bounded_walk.simps) simp
next
  case (Cons u us)
  have b: "type_bounds d \<noteq> 0" "val_to_struct (type_val_to_struct p) (type_bounds d) = Some u" "type_chain p u us"
    using Cons.prems(2) by simp_all
  have one: "(v, b) \<in> bounds_above p \<longleftrightarrow> b = type_bounds d" for b
    using Cons.prems(1) b(1) by (auto simp: bounds_above_def)
  have "(v, old) \<in> (bounds_above p)\<^sup>+ \<longleftrightarrow> old = type_bounds d \<or> (type_bounds d, old) \<in> (bounds_above p)\<^sup>+"
  proof
    assume "(v, old) \<in> (bounds_above p)\<^sup>+"
    then show "old = type_bounds d \<or> (type_bounds d, old) \<in> (bounds_above p)\<^sup>+"
      by (metis one converse_tranclE)
  next
    assume "old = type_bounds d \<or> (type_bounds d, old) \<in> (bounds_above p)\<^sup>+"
    then show "(v, old) \<in> (bounds_above p)\<^sup>+"
      using one [of "type_bounds d"] by (auto intro: r_into_trancl trancl_into_trancl2)
  qed
  then show ?case
    using Cons.IH [OF b(2,3)] Cons.prems(1) b(1) by (subst bounded_walk.simps) auto
qed

section \<open>A small policy\<close>

text \<open>
  A small policy: the type 2 is bounded by the type 1, both may access the type 1 in the class 1, and a
  constraint of the class lets the permission 2 only between equal users.
\<close>

definition sample_rule :: "u16 \<Rightarrow> u32 \<Rightarrow> nat \<Rightarrow> avtab_node" where
  "sample_rule src perms addr =
     \<lparr>an_key = \<lparr>source_type = src, target_type = 1, target_class = 1, specified = AVTAB_ALLOWED\<rparr>, an_datum = Data perms, an_addr = addr\<rparr>"

definition sample_class :: class_datum where
  "sample_class =
     \<lparr>cla_value = 1, cla_comkey = None, cla_comdatum = None, cla_permissions = symtab_zero,
      cla_constraints = [\<lparr>cn_permissions = 4, cn_expr = sample_expr\<rparr>],
      cla_validatetrans = [\<lparr>cn_permissions = 0, cn_expr = sample_expr\<rparr>],
      default_user = 0, default_role = 0, default_type = 0, default_range = 0\<rparr>"

definition server_policydb :: policydb where
  "server_policydb = policydb_init\<lparr>
     p_classes := symtab_zero\<lparr>st_nprim := 1\<rparr>, class_val_to_struct := [Some sample_class],
     type_val_to_struct := [Some (sample_type 1 0), Some (sample_type 2 1)],
     type_attr_map_array := [ebitmap_single 0, ebitmap_single 1],
     te_avtab := \<lparr>av_htable = [[sample_rule 1 6 0, sample_rule 2 7 1]], av_nel = 2, av_nslot = 1, av_mask = 0\<rparr>\<rparr>"

definition server_ctx :: "u32 \<Rightarrow> context" where
  "server_ctx v = context_init\<lparr>ctx_user := 1, ctx_role := 1, ctx_type := v\<rparr>"

definition server_sidtab :: sidtab where
  "server_sidtab = (sidtab_init 0)\<lparr>sd_isids := (replicate (unat SECINITSID_NUM) None)
     [0 := Some \<lparr>se_sid = 1, se_hash = 0, se_context = server_ctx 1\<rparr>,
      1 := Some \<lparr>se_sid = 2, se_hash = 0, se_context = server_ctx 2\<rparr>]\<rparr>"

definition server_state :: selinux_state where
  "server_state = \<lparr>enforcing = True, initialized = True, policycap = [],
     state_policy = Some \<lparr>pol_sidtab = server_sidtab, pol_policydb = server_policydb,
       pol_map = \<lparr>mapping = [], map_size = 0\<rparr>, latest_granting = 7\<rparr>\<rparr>"

lemma server_lookup:
  "sidtab_search server_sidtab 1 = Some (server_ctx 1)" "sidtab_search server_sidtab 2 = Some (server_ctx 2)"
  "sidtab_search server_sidtab 3 = None"
  by (simp_all add: sidtab_search_def sidtab_search_entry_def sidtab_search_core_def sidtab_lookup_initial_def
      server_sidtab_def server_ctx_def context_init_def Let_def)

lemma server_types:
  "val_to_struct (type_val_to_struct server_policydb) 1 = Some (sample_type 1 0)"
  "val_to_struct (type_val_to_struct server_policydb) 2 = Some (sample_type 2 1)"
  "type_chain server_policydb (sample_type 1 0) []"
  "type_chain server_policydb (sample_type 2 1) [sample_type 1 0]"
  "val_to_struct (class_val_to_struct server_policydb) 1 = Some sample_class"
  by (simp_all add: server_policydb_def val_to_struct_def sample_type_def)

lemma server_wf: "attrs_wf server_policydb"
  by (auto simp: attrs_wf_def server_policydb_def ebitmap_single ebitmap_pos_def avtab_wf_def avtab_nodes_def chain_sorted_def
      avtab_hash_def Let_def sample_rule_def policydb_init_def avtab_init_def avtab_key_lt_def)

lemma sample_expr_ready: "read_cons_check ax sample_expr = OK" "cexpr_leaves_ok p s t x sample_expr"
  by (simp_all add: sample_expr_def sample_cexpr_def read_cons_check_def read_cons_node_def cexpr_leaves_ok_def cexpr_leaf_def
      cexpr_attr_def Let_def cexpr_val_ops_def)

lemma server_class_ready: "class_ready server_policydb 1 s t"
  by (simp add: class_ready_def server_types sample_expr_ready sample_class_def) (simp add: server_policydb_def)

section \<open>Properties\<close>





text \<open>
  C29. The test of bounded transitions ends on every policy whose bounds passed the sanity check. It
  accepts a change of domain exactly when the type does not change or the old type is one of the
  bounds above the new one.
\<close>

theorem bounded_transition_spec:
  assumes "initialized st" "state_policy st = Some pol"
    and "sidtab_search (pol_sidtab pol) old_sid = Some oc" "sidtab_search (pol_sidtab pol) new_sid = Some nc"
    and "val_to_struct (type_val_to_struct (pol_policydb pol)) (ctx_type nc) = Some d" "type_chain (pol_policydb pol) d us"
  shows "security_bounded_transition st old_sid new_sid =
    (if (ctx_type nc, ctx_type oc) \<in> (bounds_above (pol_policydb pol))\<^sup>* then Some OK else Some (Err EPERM))"
  using assms(1-4) bounded_walk_chain [OF assms(5,6), of "ctx_type oc"]
  by (auto simp: security_bounded_transition_def rtrancl_eq_or_trancl)

theorem bounded_transition_spec_witness:
  "security_bounded_transition server_state 1 2 = Some OK"
proof -
  obtain pol where pol: "state_policy server_state = Some pol" "initialized server_state"
      "pol_sidtab pol = server_sidtab" "pol_policydb pol = server_policydb"
    by (simp add: server_state_def)
  have "(2, 1) \<in> (bounds_above server_policydb)\<^sup>*"
    by (rule r_into_rtrancl) (simp add: bounds_above_def server_types sample_type_def)
  then show ?thesis
    using bounded_transition_spec [OF pol(2,1), of 1 "server_ctx 1" 2 "server_ctx 2" "sample_type 2 1" "[sample_type 1 0]"]
    by (simp add: pol server_lookup server_types server_ctx_def del: type_chain.simps)
qed



text \<open>
  C30. A transition of a kernel object is validated by every \<open>validatetrans\<close> rule of its class. For user
  space the answer is \<open>EPERM\<close> when one of them does not hold; for the kernel it is \<open>EPERM\<close> only in
  enforcing mode.
\<close>

theorem validatetrans_spec:
  assumes "initialized st" "state_policy st = Some pol"
    and "tclass = (if user then orig else unmap_class (pol_map pol) orig)"
    and "tclass \<noteq> 0" "ucast tclass \<le> st_nprim (p_classes (pol_policydb pol))"
    and "val_to_struct (class_val_to_struct (pol_policydb pol)) (ucast tclass) = Some cd"
    and "sidtab_search (pol_sidtab pol) oldsid = Some oc" "sidtab_search (pol_sidtab pol) newsid = Some nc"
      "sidtab_search (pol_sidtab pol) tasksid = Some tc"
    and "\<forall>cn \<in> set (cla_validatetrans cd). read_cons_check True (cn_expr cn) = OK \<and>
      cexpr_leaves_ok (pol_policydb pol) oc nc (Some tc) (cn_expr cn)"
  shows "security_compute_validatetrans st oldsid newsid tasksid orig user =
    Some (if (\<forall>cn \<in> set (cla_validatetrans cd).
              constraint_expr_eval (pol_policydb pol) oc nc (Some tc) (cn_expr cn) = Some True) \<or> \<not> user \<and> \<not> enforcing st
          then OK else Err EPERM)"
proof -
  let ?p = "pol_policydb pol"
  have "validatetrans_loop st ?p oc nc tc user cs =
      Some (if (\<forall>cn \<in> set cs. constraint_expr_eval ?p oc nc (Some tc) (cn_expr cn) = Some True) \<or> \<not> user \<and> \<not> enforcing st
            then OK else Err EPERM)"
    if "\<forall>cn \<in> set cs. read_cons_check True (cn_expr cn) = OK \<and> cexpr_leaves_ok ?p oc nc (Some tc) (cn_expr cn)" for cs
    using that
  proof (induction cs)
    case (Cons cn cs)
    obtain v where v: "constraint_expr_eval ?p oc nc (Some tc) (cn_expr cn) = Some v"
      using constraint_eval_total Cons.prems by (meson list.set_intros(1))
    then show ?case
      using Cons by (cases v) (auto simp: security_validtrans_handle_fail_def)
  qed simp
  note loop = this [OF assms(10)]
  have "\<not> ucast tclass > st_nprim (p_classes ?p)" using assms(5) by simp
  moreover have "(if \<not> user then unmap_class (pol_map pol) orig else orig) = tclass" using assms(3) by simp
  ultimately show ?thesis
    unfolding security_compute_validatetrans_def Let_def
    using assms(1,2,4,6-9) loop by simp
qed

theorem validatetrans_spec_witness:
  "security_compute_validatetrans server_state 1 2 1 1 True =
    Some (if (\<forall>cn \<in> set (cla_validatetrans sample_class).
              constraint_expr_eval server_policydb (server_ctx 1) (server_ctx 2) (Some (server_ctx 1)) (cn_expr cn) = Some True) \<or>
             \<not> True \<and> \<not> enforcing server_state
          then OK else Err EPERM)"
proof -
  obtain pol where pol: "state_policy server_state = Some pol" "initialized server_state"
      "pol_sidtab pol = server_sidtab" "pol_policydb pol = server_policydb"
    by (simp add: server_state_def)
  have "ucast (1 :: u16) \<le> st_nprim (p_classes (pol_policydb pol))"
    by (simp add: pol server_policydb_def)
  then show ?thesis
    using validatetrans_spec [OF pol(2,1), of 1 True 1 sample_class 1 "server_ctx 1" 2 "server_ctx 2" 1 "server_ctx 1"]
    by (simp only: pol server_lookup server_types unsigned_1 sample_expr_ready)
      (simp add: sample_class_def sample_expr_ready)
qed

end
