(* ===== verification/Mls.thy ===== *)
theory Mls
  imports Policydb Sidtab
begin

text \<open>
  The multi-level security part of contexts (\<open>ss/mls.c\<close>) and the validity of contexts
  (\<open>policydb_context_isvalid\<close> of \<open>ss/policydb.c\<close>): printing and parsing of ranges, the checks of
  levels, ranges and contexts against a policy, the range of a new object, the range of a user, and
  the conversion of a range to another policy.

  The parser of the C code overwrites separators of its buffer by null characters; here the string
  is split. A string pointer that may be null is an option.
\<close>

section \<open>Printing\<close>

text \<open>
  The loop over the categories keeps the first and the last category of the run it is in, as \<open>int\<close>
  with -2 for none.
\<close>

definition cat_name :: "policydb \<Rightarrow> int \<Rightarrow> string" where
  "cat_name p i = sym_name p SYM_CATS (word_of_int i)"

definition mls_len_step :: "policydb \<Rightarrow> u32 \<Rightarrow> int \<times> int \<times> nat \<Rightarrow> int \<times> int \<times> nat" where
  "mls_len_step p b st =
     (case st of (head, prev, len) \<Rightarrow>
        let i = sint b
        in if i - prev > 1
           then (i, i, (if head \<noteq> prev then len + (length (cat_name p prev) + 1) else len) + (length (cat_name p i) + 1))
           else (head, i, len))"

definition mls_len_cats :: "policydb \<Rightarrow> ebitmap \<Rightarrow> nat \<Rightarrow> nat" where
  "mls_len_cats p e len =
     (case fold (mls_len_step p) (ebitmap_positive_bits e) (-2, -2, len) of
        (head, prev, len) \<Rightarrow> if prev \<noteq> head then len + (length (cat_name p prev) + 1) else len)"

definition mls_len_level :: "policydb \<Rightarrow> mls_level \<Rightarrow> nat \<Rightarrow> nat" where
  "mls_len_level p l len = mls_len_cats p (lvl_cat l) (len + length (sym_name p SYM_LEVELS (lvl_sens l - 1)))"

definition mls_compute_context_len :: "policydb \<Rightarrow> context \<Rightarrow> nat" where
  "mls_compute_context_len p c =
     (if \<not> mls_enabled p then 0
      else let low = level0 (ctx_range c); high = level1 (ctx_range c); len = mls_len_level p low 1
           in if mls_level_eq low high then len else mls_len_level p high (len + 1))"

definition mls_print_step :: "policydb \<Rightarrow> u32 \<Rightarrow> int \<times> int \<times> string \<Rightarrow> int \<times> int \<times> string" where
  "mls_print_step p b st =
     (case st of (head, prev, out) \<Rightarrow>
        let i = sint b
        in if i - prev > 1
           then let out1 = (if prev \<noteq> head then out @ (if prev - head > 1 then ''.'' else '','') @ cat_name p prev else out);
                    out2 = out1 @ (if prev < 0 then '':'' else '','') @ cat_name p i
                in (i, i, out2)
           else (head, i, out))"

definition mls_print_cats :: "policydb \<Rightarrow> ebitmap \<Rightarrow> string \<Rightarrow> string" where
  "mls_print_cats p e out =
     (case fold (mls_print_step p) (ebitmap_positive_bits e) (-2, -2, out) of
        (head, prev, out) \<Rightarrow>
          if prev \<noteq> head then out @ (if prev - head > 1 then ''.'' else '','') @ cat_name p prev else out)"

definition mls_print_level :: "policydb \<Rightarrow> mls_level \<Rightarrow> string \<Rightarrow> string" where
  "mls_print_level p l out = mls_print_cats p (lvl_cat l) (out @ sym_name p SYM_LEVELS (lvl_sens l - 1))"

definition mls_sid_to_context :: "policydb \<Rightarrow> context \<Rightarrow> string \<Rightarrow> string" where
  "mls_sid_to_context p c scontext =
     (if \<not> mls_enabled p then scontext
      else let low = level0 (ctx_range c); high = level1 (ctx_range c);
               out = mls_print_level p low (scontext @ '':'')
           in if mls_level_eq low high then out else mls_print_level p high (out @ ''-''))"

section \<open>Validity\<close>

definition mls_level_isvalid :: "policydb \<Rightarrow> mls_level \<Rightarrow> bool" where
  "mls_level_isvalid p l =
     (if lvl_sens l = 0 \<or> lvl_sens l > st_nprim (p_levels p) then False
      else case symtab_search (p_levels p) (sym_name p SYM_LEVELS (lvl_sens l - 1)) of
             None \<Rightarrow> False
           | Some levdatum \<Rightarrow> ebitmap_contains (lvl_cat (lev_level levdatum)) (lvl_cat l) (st_nprim (p_cats p)))"

definition mls_range_isvalid :: "policydb \<Rightarrow> mls_range \<Rightarrow> bool" where
  "mls_range_isvalid p r \<longleftrightarrow>
     mls_level_isvalid p (level0 r) \<and> mls_level_isvalid p (level1 r) \<and> mls_level_dom (level1 r) (level0 r)"

definition mls_context_isvalid :: "policydb \<Rightarrow> context \<Rightarrow> bool" where
  "mls_context_isvalid p c =
     (if \<not> mls_enabled p then True
      else if \<not> mls_range_isvalid p (ctx_range c) then False
      else if ctx_role c = OBJECT_R_VAL then True
      else if ctx_user c = 0 \<or> ctx_user c > st_nprim (p_users p) then False
      else case val_to_struct (user_val_to_struct p) (ctx_user c) of
             None \<Rightarrow> False
           | Some usrdatum \<Rightarrow> mls_range_contains (user_range usrdatum) (ctx_range c))"

definition policydb_context_isvalid :: "policydb \<Rightarrow> context \<Rightarrow> bool" where
  "policydb_context_isvalid p c =
     (if ctx_role c = 0 \<or> ctx_role c > st_nprim (p_roles p) then False
      else if ctx_user c = 0 \<or> ctx_user c > st_nprim (p_users p) then False
      else if ctx_type c = 0 \<or> ctx_type c > st_nprim (p_types p) then False
      else if ctx_role c \<noteq> OBJECT_R_VAL \<and>
              \<not> (case val_to_struct (role_val_to_struct p) (ctx_role c) of
                   None \<Rightarrow> False
                 | Some role \<Rightarrow> ebitmap_get_bit (role_types role) (unat (ctx_type c - 1))) then False
      else if ctx_role c \<noteq> OBJECT_R_VAL \<and>
              \<not> (case val_to_struct (user_val_to_struct p) (ctx_user c) of
                   None \<Rightarrow> False
                 | Some usrdatum \<Rightarrow> ebitmap_get_bit (user_roles usrdatum) (unat (ctx_role c - 1))) then False
      else mls_context_isvalid p c)"

section \<open>Parsing\<close>

text \<open>The string before the first separator and, when there is one, the string behind it.\<close>

definition split_at :: "char \<Rightarrow> string \<Rightarrow> string \<times> string option" where
  "split_at c s =
     (if c \<in> set s then (takeWhile (\<lambda>x. x \<noteq> c) s, Some (tl (dropWhile (\<lambda>x. x \<noteq> c) s))) else (s, None))"

lemma split_at_shorter: "split_at c s = (a, Some b) \<Longrightarrow> length b < length s"
proof -
  assume "split_at c s = (a, Some b)"
  then have "b = tl (dropWhile (\<lambda>x. x \<noteq> c) s)" "dropWhile (\<lambda>x. x \<noteq> c) s \<noteq> []"
    by (auto simp: split_at_def dropWhile_eq_Nil_conv split: if_splits)
  then show "length b < length s"
    using length_dropWhile_le [of "\<lambda>x. x \<noteq> c" s] by (cases "dropWhile (\<lambda>x. x \<noteq> c) s") auto
qed

fun mls_set_cats :: "u32 list \<Rightarrow> ebitmap \<Rightarrow> mem \<Rightarrow> rc \<times> ebitmap \<times> mem" where
  "mls_set_cats [] cat m = (OK, cat, m)"
| "mls_set_cats (i # is) cat m =
     (case ebitmap_set_bit cat (unat i) True m of
        (Err e, cat', m') \<Rightarrow> (Err e, cat', m')
      | (OK, cat', m') \<Rightarrow> mls_set_cats is cat' m')"

text \<open>One item of the category list: a category or a range of categories.\<close>

definition mls_parse_cat :: "policydb \<Rightarrow> string \<Rightarrow> ebitmap \<Rightarrow> mem \<Rightarrow> rc \<times> ebitmap \<times> mem" where
  "mls_parse_cat pol item cat m =
     (case split_at (CHR ''.'') item of (cur_cat, rngptr) \<Rightarrow>
      case symtab_search (p_cats pol) cur_cat of
        None \<Rightarrow> (Err EINVAL, cat, m)
      | Some catdatum \<Rightarrow>
          then_ok (ebitmap_set_bit cat (unat (cat_value catdatum - 1)) True m) (\<lambda>cat m.
            case rngptr of
              None \<Rightarrow> (OK, cat, m)
            | Some rng \<Rightarrow>
                (case symtab_search (p_cats pol) rng of
                   None \<Rightarrow> (Err EINVAL, cat, m)
                 | Some rngdatum \<Rightarrow>
                     if cat_value catdatum \<ge> cat_value rngdatum then (Err EINVAL, cat, m)
                     else mls_set_cats (map of_nat [unat (cat_value catdatum)..<unat (cat_value rngdatum)]) cat m)))"

function mls_parse_cats :: "policydb \<Rightarrow> string option \<Rightarrow> ebitmap \<Rightarrow> mem \<Rightarrow> rc \<times> ebitmap \<times> mem" where
  "mls_parse_cats pol None cat m = (OK, cat, m)"
| "mls_parse_cats pol (Some s) cat m =
     (case split_at (CHR '','') s of (item, next_cat) \<Rightarrow>
        then_ok (mls_parse_cat pol item cat m) (\<lambda>cat m. mls_parse_cats pol next_cat cat m))"
  by pat_completeness auto
termination
  by (relation "measure (\<lambda>(pol, s, cat, m). case s of None \<Rightarrow> 0 | Some s \<Rightarrow> Suc (length s))")
    (auto split: option.splits dest!: sym [of _ "split_at _ _"] split_at_shorter)

definition mls_parse_level :: "policydb \<Rightarrow> string \<Rightarrow> mls_level \<Rightarrow> mem \<Rightarrow> rc \<times> mls_level \<times> mem" where
  "mls_parse_level pol s l m =
     (case split_at (CHR '':'') s of (sensitivity, next_cat) \<Rightarrow>
      case symtab_search (p_levels pol) sensitivity of
        None \<Rightarrow> (Err EINVAL, l, m)
      | Some levdatum \<Rightarrow>
          (case mls_parse_cats pol next_cat (lvl_cat l) m of
             (rc, cat, m') \<Rightarrow> (rc, \<lparr>lvl_sens = lvl_sens (lev_level levdatum), lvl_cat = cat\<rparr>, m')))"

text \<open>
  \<open>mls_context_to_sid\<close>: \<open>oldc\<close> tells whether the character that ended the type was a separator. The
  SID table may be absent; then there is a separator.
\<close>

definition mls_context_to_sid ::
  "policydb \<Rightarrow> bool \<Rightarrow> string \<Rightarrow> context \<Rightarrow> sidtab option \<Rightarrow> u32 \<Rightarrow> mem \<Rightarrow> rc \<times> context \<times> mem" where
  "mls_context_to_sid pol oldc scontext c s def_sid m =
     (if \<not> mls_enabled pol
      then if oldc \<and> def_sid = SECSID_NULL then (Err EINVAL, c, m) else (OK, c, m)
      else if \<not> oldc
      then if def_sid = SECSID_NULL then (Err EINVAL, c, m)
           else (case Option.bind s (\<lambda>s. sidtab_search s def_sid) of
                   None \<Rightarrow> (Err EINVAL, c, m)
                 | Some defcon \<Rightarrow> mls_context_cpy c defcon m)
      else case split_at (CHR ''-'') scontext of (rangep0, rangep1) \<Rightarrow>
        (case mls_parse_level pol rangep0 (level0 (ctx_range c)) m of
           (Err e, l0, m') \<Rightarrow> (Err e, set_level0 l0 c, m')
         | (OK, l0, m') \<Rightarrow>
             (let c0 = set_level0 l0 c
              in case rangep1 of
                   Some s1 \<Rightarrow>
                     (case mls_parse_level pol s1 (level1 (ctx_range c0)) m' of
                        (rc, l1, m'') \<Rightarrow> (rc, set_level1 l1 c0, m''))
                 | None \<Rightarrow>
                     (case ebitmap_cpy (lvl_cat l0) m' of
                        (rc, cat1, m'') \<Rightarrow> (rc, set_level1 \<lparr>lvl_sens = lvl_sens l0, lvl_cat = cat1\<rparr> c0, m'')))))"

definition mls_from_string :: "policydb \<Rightarrow> string \<Rightarrow> context \<Rightarrow> mem \<Rightarrow> rc \<times> context \<times> mem" where
  "mls_from_string p str c m =
     (if \<not> mls_enabled p then (Err EINVAL, c, m)
      else case kalloc m of
             (False, m') \<Rightarrow> (Err ENOMEM, c, m')
           | (True, m') \<Rightarrow> mls_context_to_sid p True str c None SECSID_NULL m')"

section \<open>Ranges of users and new objects\<close>

definition mls_range_set :: "context \<Rightarrow> mls_range \<Rightarrow> mem \<Rightarrow> rc \<times> context \<times> mem" where
  "mls_range_set c r m =
     (case ebitmap_cpy (lvl_cat (level0 r)) m of
        (Err e, cat0, m') \<Rightarrow> (Err e, set_level0 \<lparr>lvl_sens = lvl_sens (level0 r), lvl_cat = cat0\<rparr> c, m')
      | (OK, cat0, m') \<Rightarrow>
          (case ebitmap_cpy (lvl_cat (level1 r)) m' of
             (rc, cat1, m'') \<Rightarrow>
               (rc, set_level1 \<lparr>lvl_sens = lvl_sens (level1 r), lvl_cat = cat1\<rparr>
                      (set_level0 \<lparr>lvl_sens = lvl_sens (level0 r), lvl_cat = cat0\<rparr> c), m'')))"

definition mls_setup_user_range :: "policydb \<Rightarrow> context \<Rightarrow> user_datum \<Rightarrow> context \<Rightarrow> rc \<times> context" where
  "mls_setup_user_range p fromcon user usercon =
     (if \<not> mls_enabled p then (OK, usercon)
      else let fromcon_sen = level0 (ctx_range fromcon); fromcon_clr = level1 (ctx_range fromcon);
               user_low = level0 (user_range user); user_clr = level1 (user_range user);
               user_def = user_dfltlevel user;
               sen = (if mls_level_between user_def fromcon_sen fromcon_clr then Some user_def
                      else if mls_level_between fromcon_sen user_def user_clr then Some fromcon_sen
                      else if mls_level_between fromcon_clr user_low user_def then Some user_low
                      else None)
           in case sen of
                None \<Rightarrow> (Err EINVAL, usercon)
              | Some l \<Rightarrow>
                  (let usercon1 = set_level0 l usercon
                   in if mls_level_dom user_clr fromcon_clr then (OK, set_level1 fromcon_clr usercon1)
                      else if mls_level_dom fromcon_clr user_clr then (OK, set_level1 user_clr usercon1)
                      else (Err EINVAL, usercon1)))"

fun mls_convert_cats :: "policydb \<Rightarrow> policydb \<Rightarrow> u32 list \<Rightarrow> ebitmap \<Rightarrow> mem \<Rightarrow> rc \<times> ebitmap \<times> mem" where
  "mls_convert_cats oldp newp [] cat m = (OK, cat, m)"
| "mls_convert_cats oldp newp (i # is) cat m =
     (case symtab_search (p_cats newp) (sym_name oldp SYM_CATS i) of
        None \<Rightarrow> (Err EINVAL, cat, m)
      | Some catdatum \<Rightarrow>
          then_ok (ebitmap_set_bit cat (unat (cat_value catdatum - 1)) True m)
            (\<lambda>cat m. mls_convert_cats oldp newp is cat m))"

definition mls_convert_level :: "policydb \<Rightarrow> policydb \<Rightarrow> mls_level \<Rightarrow> mls_level \<Rightarrow> mem \<Rightarrow> rc \<times> mls_level \<times> mem" where
  "mls_convert_level oldp newp oldl newl m =
     (case symtab_search (p_levels newp) (sym_name oldp SYM_LEVELS (lvl_sens oldl - 1)) of
        None \<Rightarrow> (Err EINVAL, newl, m)
      | Some levdatum \<Rightarrow>
          (case mls_convert_cats oldp newp (ebitmap_positive_bits (lvl_cat oldl)) (lvl_cat newl) m of
             (rc, cat, m') \<Rightarrow> (rc, \<lparr>lvl_sens = lvl_sens (lev_level levdatum), lvl_cat = cat\<rparr>, m')))"

definition mls_convert_context ::
  "policydb \<Rightarrow> policydb \<Rightarrow> context \<Rightarrow> context \<Rightarrow> mem \<Rightarrow> rc \<times> context \<times> mem" where
  "mls_convert_context oldp newp oldc newc m =
     (if \<not> mls_enabled oldp \<or> \<not> mls_enabled newp then (OK, newc, m)
      else case mls_convert_level oldp newp (level0 (ctx_range oldc)) (level0 (ctx_range newc)) m of
             (Err e, l0, m') \<Rightarrow> (Err e, set_level0 l0 newc, m')
           | (OK, l0, m') \<Rightarrow>
               (case mls_convert_level oldp newp (level1 (ctx_range oldc)) (level1 (ctx_range newc)) m' of
                  (rc, l1, m'') \<Rightarrow> (rc, set_level1 l1 (set_level0 l0 newc), m'')))"

definition mls_compute_sid ::
  "policydb \<Rightarrow> context \<Rightarrow> context \<Rightarrow> u16 \<Rightarrow> u32 \<Rightarrow> context \<Rightarrow> bool \<Rightarrow> mem \<Rightarrow> rc \<times> context \<times> mem" where
  "mls_compute_sid p scontext tcontext tclass spec newcontext sock m =
     (let change = (if tclass = process_class p \<or> sock then mls_context_cpy newcontext scontext m
                    else mls_context_cpy_low newcontext scontext m)
      in if \<not> mls_enabled p then (OK, newcontext, m)
         else if spec = ucast AVTAB_TRANSITION
         then case policydb_rangetr_search p \<lparr>rt_source_type = ctx_type scontext, rt_target_type = ctx_type tcontext,
                     rt_target_class = ucast tclass\<rparr> of
                Some r \<Rightarrow> mls_range_set newcontext r m
              | None \<Rightarrow>
                  (let dr = (if tclass \<noteq> 0 \<and> ucast tclass \<le> st_nprim (p_classes p)
                             then case val_to_struct (class_val_to_struct p) (ucast tclass) of
                                    Some cladatum \<Rightarrow> default_range cladatum | None \<Rightarrow> 0
                             else 0)
                   in if dr = DEFAULT_SOURCE_LOW then mls_context_cpy_low newcontext scontext m
                      else if dr = DEFAULT_SOURCE_HIGH then mls_context_cpy_high newcontext scontext m
                      else if dr = DEFAULT_SOURCE_LOW_HIGH then mls_context_cpy newcontext scontext m
                      else if dr = DEFAULT_TARGET_LOW then mls_context_cpy_low newcontext tcontext m
                      else if dr = DEFAULT_TARGET_HIGH then mls_context_cpy_high newcontext tcontext m
                      else if dr = DEFAULT_TARGET_LOW_HIGH then mls_context_cpy newcontext tcontext m
                      else if dr = DEFAULT_GLBLUB then mls_context_glblub newcontext scontext tcontext m
                      else change)
         else if spec = ucast AVTAB_CHANGE then change
         else if spec = ucast AVTAB_MEMBER then mls_context_cpy_low newcontext scontext m
         else (Err EINVAL, newcontext, m))"

section \<open>Exchange with NetLabel\<close>

text \<open>
  The fields of the NetLabel security attributes that the sensitivity uses; the flag that marks it as
  present is a constant of NetLabel.
\<close>

record netlbl_secattr =
  nl_flags :: u32
  nl_mls_lvl :: u32

definition mls_export_netlbl_lvl :: "u32 \<Rightarrow> policydb \<Rightarrow> context \<Rightarrow> netlbl_secattr \<Rightarrow> netlbl_secattr" where
  "mls_export_netlbl_lvl NETLBL_SECATTR_MLS_LVL p c secattr =
     (if \<not> mls_enabled p then secattr
      else secattr\<lparr>nl_mls_lvl := lvl_sens (level0 (ctx_range c)) - 1,
             nl_flags := nl_flags secattr OR NETLBL_SECATTR_MLS_LVL\<rparr>)"

definition mls_import_netlbl_lvl :: "policydb \<Rightarrow> context \<Rightarrow> netlbl_secattr \<Rightarrow> context" where
  "mls_import_netlbl_lvl p c secattr =
     (if \<not> mls_enabled p then c
      else let sens = nl_mls_lvl secattr + 1
           in set_level1 ((level1 (ctx_range c))\<lparr>lvl_sens := sens\<rparr>)
                (set_level0 ((level0 (ctx_range c))\<lparr>lvl_sens := sens\<rparr>) c))"

section \<open>Length of the printed range\<close>

lemma len_print_step:
  "mls_len_step p b (head, prev, length out) =
    (case mls_print_step p b (head, prev, out) of (head', prev', out') \<Rightarrow> (head', prev', length out'))"
  by (simp add: mls_len_step_def mls_print_step_def Let_def)

lemma len_print_fold:
  "fold (mls_len_step p) bs (head, prev, length out) =
    (case fold (mls_print_step p) bs (head, prev, out) of (head', prev', out') \<Rightarrow> (head', prev', length out'))"
proof (induction bs arbitrary: head prev out)
  case (Cons b bs)
  obtain head' prev' out' where "mls_print_step p b (head, prev, out) = (head', prev', out')"
    by (metis prod_cases3)
  then show ?case
    using Cons.IH [of head' prev' out'] by (simp add: len_print_step)
qed simp

lemma len_print_level: "mls_len_level p l (length out) = length (mls_print_level p l out)"
proof -
  have "mls_len_cats p e (length out) = length (mls_print_cats p e out)" for e out
    by (simp add: mls_len_cats_def mls_print_cats_def len_print_fold split: prod.split)
  then show ?thesis
    by (simp add: mls_len_level_def mls_print_level_def flip: length_append)
qed

text \<open>Printing appends to what is there.\<close>

lemma print_step_append:
  "mls_print_step p b (h, q, xs @ zs) = (case mls_print_step p b (h, q, zs) of (h', q', o') \<Rightarrow> (h', q', xs @ o'))"
  by (simp add: mls_print_step_def Let_def)

lemma print_fold_append:
  "fold (mls_print_step p) bs (h, q, xs @ zs) =
    (case fold (mls_print_step p) bs (h, q, zs) of (h', q', o') \<Rightarrow> (h', q', xs @ o'))"
proof (induction bs arbitrary: h q zs)
  case (Cons b bs)
  obtain h' q' o' where "mls_print_step p b (h, q, zs) = (h', q', o')"
    by (metis prod_cases3)
  then show ?case
    using Cons.IH [of h' q' o'] by (simp add: print_step_append)
qed simp

lemma print_cats_append: "mls_print_cats p e (xs @ ys) = xs @ mls_print_cats p e ys"
  unfolding mls_print_cats_def print_fold_append [of p _ _ _ xs ys] by (simp split: prod.split)

lemma print_level_append: "mls_print_level p l (xs @ ys) = xs @ mls_print_level p l ys"
  by (simp add: mls_print_level_def print_cats_append)

lemma mls_sid_to_context_append: "mls_sid_to_context p c (xs @ ys) = xs @ mls_sid_to_context p c ys"
  by (simp add: mls_sid_to_context_def Let_def print_level_append)

lemma mls_len_print: "length (mls_sid_to_context p c []) = mls_compute_context_len p c"
proof -
  have "mls_len_level p l 1 = length (mls_print_level p l '':'')" for l
    using len_print_level [of p l "'':''"] by simp
  then show ?thesis
    using len_print_level [of p "level1 (ctx_range c)" "mls_print_level p (level0 (ctx_range c)) '':'' @ ''-''"]
    by (simp add: mls_sid_to_context_def mls_compute_context_len_def Let_def)
qed

section \<open>Levels within a user's range\<close>

text \<open>
  The range set up for a user: the default level lies in the user's range, and the context it is
  computed from has a high level that dominates its low one.
\<close>

lemma setup_user_range:
  assumes "mls_setup_user_range p fromcon user usercon = (OK, c)" "mls_enabled p"
    and canon: "range_canon (ctx_range fromcon)" "range_canon (user_range user)" "level_canon (user_dfltlevel user)"
    and dom: "mls_level_dom (level1 (ctx_range fromcon)) (level0 (ctx_range fromcon))"
      "mls_level_dom (user_dfltlevel user) (level0 (user_range user))"
      "mls_level_dom (level1 (user_range user)) (user_dfltlevel user)"
  shows "mls_level_dom (level1 (ctx_range c)) (level0 (ctx_range c))"
    "mls_range_contains (user_range user) (ctx_range c)"
    "mls_level_dom (level1 (ctx_range fromcon)) (level1 (ctx_range c))"
proof -
  let ?fs = "level0 (ctx_range fromcon)" and ?fc = "level1 (ctx_range fromcon)"
    and ?ul = "level0 (user_range user)" and ?uc = "level1 (user_range user)" and ?ud = "user_dfltlevel user"
  have k: "level_canon ?fs" "level_canon ?fc" "level_canon ?ul" "level_canon ?uc" "level_canon ?ud"
    using canon by (simp_all add: range_canon_def)
  note d = dom [unfolded mls_level_dom_iff [OF k(2,1)] mls_level_dom_iff [OF k(5,3)] mls_level_dom_iff [OF k(4,5)]]
  obtain l0 l1 where c: "level0 (ctx_range c) = l0" "level1 (ctx_range c) = l1"
    and l0: "l0 = ?ud \<and> mls_level_between ?ud ?fs ?fc \<or> l0 = ?fs \<and> mls_level_between ?fs ?ud ?uc \<or>
      l0 = ?ul \<and> mls_level_between ?fc ?ul ?ud"
    and l1: "l1 = ?fc \<and> mls_level_dom ?uc ?fc \<or> l1 = ?uc \<and> mls_level_dom ?fc ?uc"
    using assms(1,2)
    by (auto simp: mls_setup_user_range_def Let_def set_level0_def set_level1_def split: if_splits)
  have dom_iff: "mls_level_dom x y \<longleftrightarrow> lvl_sens y \<le> lvl_sens x \<and> cats y \<subseteq> cats x"
    if "x \<in> {?fs, ?fc, ?ul, ?uc, ?ud}" "y \<in> {?fs, ?fc, ?ul, ?uc, ?ud}" for x y
    using that k by (intro mls_level_dom_iff) auto
  have "lvl_sens l0 \<le> lvl_sens l1 \<and> cats l0 \<subseteq> cats l1 \<and> lvl_sens ?ul \<le> lvl_sens l0 \<and> cats ?ul \<subseteq> cats l0 \<and>
      lvl_sens l1 \<le> lvl_sens ?uc \<and> cats l1 \<subseteq> cats ?uc \<and> lvl_sens l1 \<le> lvl_sens ?fc \<and> cats l1 \<subseteq> cats ?fc"
    using l0 l1 d by (auto simp: mls_level_between_def dom_iff intro: order_trans)
  moreover have "l0 \<in> {?fs, ?fc, ?ul, ?uc, ?ud}" "l1 \<in> {?fs, ?fc, ?ul, ?uc, ?ud}"
    using l0 l1 by auto
  ultimately show "mls_level_dom (level1 (ctx_range c)) (level0 (ctx_range c))"
    "mls_range_contains (user_range user) (ctx_range c)" "mls_level_dom ?fc (level1 (ctx_range c))"
    by (auto simp: c mls_range_contains_def dom_iff)
qed

section \<open>Valid contexts\<close>

lemma level_isvalid_cats:
  assumes "mls_level_isvalid p l" "level_canon l"
    "\<And>name d. symtab_search (p_levels p) name = Some d \<Longrightarrow> ebitmap_wf (lvl_cat (lev_level d))"
  shows "lvl_sens l \<noteq> 0 \<and> lvl_sens l \<le> st_nprim (p_levels p) \<and>
    (st_nprim (p_cats p) \<noteq> 0 \<longrightarrow> (\<forall>b \<in> cats l. b \<le> unat (st_nprim (p_cats p)))) \<and>
    (\<exists>d. symtab_search (p_levels p) (sym_name p SYM_LEVELS (lvl_sens l - 1)) = Some d \<and> cats l \<subseteq> cats (lev_level d))"
proof -
  obtain d where d: "symtab_search (p_levels p) (sym_name p SYM_LEVELS (lvl_sens l - 1)) = Some d"
    and c: "ebitmap_contains (lvl_cat (lev_level d)) (lvl_cat l) (st_nprim (p_cats p))"
    and s: "lvl_sens l \<noteq> 0" "\<not> lvl_sens l > st_nprim (p_levels p)"
    using assms(1) by (auto simp: mls_level_isvalid_def split: if_splits option.splits)
  have "ebitmap_bits (lvl_cat l) \<subseteq> ebitmap_bits (lvl_cat (lev_level d)) \<and>
      (st_nprim (p_cats p) \<noteq> 0 \<longrightarrow> (\<forall>b \<in> ebitmap_bits (lvl_cat l). b \<le> unat (st_nprim (p_cats p))))"
    using c ebitmap_contains_correct [OF assms(3) [OF d]] assms(2) by (simp add: level_canon_def)
  then show ?thesis
    using d s by (auto simp: cats_def)
qed

lemma valid_value_in_range:
  assumes "v \<noteq> 0" "\<not> v > st_nprim tab" "named xs tab val"
  shows "unat (v - 1) < length xs"
proof -
  have "unat (v - 1) < unat v" "unat v \<le> unat (st_nprim tab)"
    using assms(1,2) by (auto simp: unat_pred unat_gt_0 word_le_nat_alt not_less)
  then show ?thesis
    using assms(3) by (simp add: named_def)
qed

lemma indexed_val: "val_to_struct xs v = Some d \<Longrightarrow> indexed xs n val P \<Longrightarrow> v \<noteq> 0 \<Longrightarrow> val d = v"
  using unat_pred_Suc [of v]
  by (auto simp: val_to_struct_def indexed_def Let_def word_unat_eq_iff split: if_splits)

lemma context_isvalid_fields:
  assumes "policydb_context_isvalid p c"
  shows "ctx_role c \<noteq> 0 \<and> \<not> ctx_role c > st_nprim (p_roles p)" "ctx_user c \<noteq> 0 \<and> \<not> ctx_user c > st_nprim (p_users p)"
    "ctx_type c \<noteq> 0 \<and> \<not> ctx_type c > st_nprim (p_types p)" "mls_context_isvalid p c"
    "ctx_role c \<noteq> OBJECT_R_VAL \<Longrightarrow> \<exists>role user. val_to_struct (role_val_to_struct p) (ctx_role c) = Some role \<and>
       val_to_struct (user_val_to_struct p) (ctx_user c) = Some user \<and>
       ebitmap_get_bit (role_types role) (unat (ctx_type c - 1)) \<and> ebitmap_get_bit (user_roles user) (unat (ctx_role c - 1))"
  using assms by (auto simp: policydb_context_isvalid_def split: if_splits option.splits)

section \<open>Properties\<close>

text \<open>
  The length computed for the MLS fields of a context is the number of characters that printing
  them writes, so a buffer of that size is filled and not overrun.
\<close>

lemma mls_context_len_exact:
  "mls_sid_to_context p c scontext = scontext @ mls_sid_to_context p c [] \<and>
   length (mls_sid_to_context p c []) = mls_compute_context_len p c"
  using mls_sid_to_context_append [of p c scontext "[]"] mls_len_print by simp

text \<open>
  C18. The range a user gets from a context he logs in from: its high level dominates its low level, it
  lies in the range the policy authorizes for the user, and it does not exceed the clearance of the
  context it was computed from.
\<close>

theorem user_range_authorized:
  assumes "mls_setup_user_range p fromcon user usercon = (OK, c)" "mls_enabled p"
    "range_canon (ctx_range fromcon)" "range_canon (user_range user)" "level_canon (user_dfltlevel user)"
    "mls_level_dom (level1 (ctx_range fromcon)) (level0 (ctx_range fromcon))"
    "mls_level_dom (user_dfltlevel user) (level0 (user_range user))"
    "mls_level_dom (level1 (user_range user)) (user_dfltlevel user)"
  shows "mls_level_dom (level1 (ctx_range c)) (level0 (ctx_range c)) \<and>
    mls_range_contains (user_range user) (ctx_range c) \<and>
    mls_level_dom (level1 (ctx_range fromcon)) (level1 (ctx_range c))"
  using setup_user_range [OF assms] by blast

definition sample_user :: user_datum where
  "sample_user = \<lparr>user_value = 1, user_bounds = 0, user_roles = ebitmap_single 0,
     user_range = \<lparr>level0 = sample_level 1 5, level1 = sample_level 9 5\<rparr>, user_dfltlevel = sample_level 2 5\<rparr>"

theorem user_range_authorized_witness:
  "\<exists>c. mls_setup_user_range (policydb_init\<lparr>mls_enabled := True\<rparr>) (sample_context 3 6 5) sample_user context_init = (OK, c) \<and>
    mls_range_contains (user_range sample_user) (ctx_range c)"
proof -
  let ?p = "policydb_init\<lparr>mls_enabled := True\<rparr>" and ?f = "sample_context 3 6 5"
  have dom: "mls_level_dom (sample_level a 5) (sample_level b 5) \<longleftrightarrow> b \<le> a" for a b
    by (simp add: mls_level_dom_iff sample_level_canon) (simp add: sample_level_def cats_def)
  have "\<exists>c. mls_setup_user_range ?p ?f sample_user context_init = (OK, c)"
    by (simp add: mls_setup_user_range_def Let_def sample_context_def sample_user_def mls_level_between_def dom
        policydb_init_def)
  then obtain c where c: "mls_setup_user_range ?p ?f sample_user context_init = (OK, c)" by blast
  have "mls_enabled ?p" "range_canon (ctx_range ?f)" "range_canon (user_range sample_user)"
    "level_canon (user_dfltlevel sample_user)" "mls_level_dom (level1 (ctx_range ?f)) (level0 (ctx_range ?f))"
    "mls_level_dom (user_dfltlevel sample_user) (level0 (user_range sample_user))"
    "mls_level_dom (level1 (user_range sample_user)) (user_dfltlevel sample_user)"
    by (simp_all add: range_canon_def sample_level_canon sample_context_def sample_user_def dom)
  from user_range_authorized [OF c this] c show ?thesis by blast
qed

text \<open>
  C31. A context that a policy with sound indexes accepts: its user, role, type and sensitivities have
  places in the arrays of names; unless it is an object's, the role is authorized for the type and
  the user for the role; and with MLS the high level dominates the low one, the categories are
  among those of the sensitivity, and the user is authorized for the range.
\<close>

theorem context_isvalid_sound:
  assumes "policydb_context_isvalid p c" "structs_ok p" "\<forall>s. names_ok p s" "range_canon (ctx_range c)"
    "\<forall>name d. symtab_search (p_levels p) name = Some d \<longrightarrow> ebitmap_wf (lvl_cat (lev_level d))"
  shows "unat (ctx_user c - 1) < length (sym_val_to_name p SYM_USERS) \<and>
    unat (ctx_role c - 1) < length (sym_val_to_name p SYM_ROLES) \<and>
    unat (ctx_type c - 1) < length (sym_val_to_name p SYM_TYPES) \<and>
    (ctx_role c \<noteq> OBJECT_R_VAL \<longrightarrow>
      (\<exists>role user. val_to_struct (role_val_to_struct p) (ctx_role c) = Some role \<and> role_value role = ctx_role c \<and>
        val_to_struct (user_val_to_struct p) (ctx_user c) = Some user \<and> user_value user = ctx_user c \<and>
        ebitmap_get_bit (role_types role) (unat (ctx_type c - 1)) \<and>
        ebitmap_get_bit (user_roles user) (unat (ctx_role c - 1)) \<and>
        (mls_enabled p \<longrightarrow> mls_range_contains (user_range user) (ctx_range c)))) \<and>
    (mls_enabled p \<longrightarrow> mls_level_dom (level1 (ctx_range c)) (level0 (ctx_range c)) \<and>
      (\<forall>l \<in> {level0 (ctx_range c), level1 (ctx_range c)}. unat (lvl_sens l - 1) < length (sym_val_to_name p SYM_LEVELS) \<and>
        (\<exists>d. symtab_search (p_levels p) (sym_name p SYM_LEVELS (lvl_sens l - 1)) = Some d \<and> cats l \<subseteq> cats (lev_level d))))"
proof -
  note f = context_isvalid_fields [OF assms(1)]
  have names: "named (sym_val_to_name p SYM_USERS) (p_users p) user_value"
      "named (sym_val_to_name p SYM_ROLES) (p_roles p) role_value"
      "named (sym_val_to_name p SYM_TYPES) (p_types p) type_value"
      "named (sym_val_to_name p SYM_LEVELS) (p_levels p) (\<lambda>d. lvl_sens (lev_level d))"
    using assms(3) by (metis names_ok.simps)+
  have range: "mls_range_isvalid p (ctx_range c)" if "mls_enabled p"
    using f(4) that by (auto simp: mls_context_isvalid_def split: if_splits)
  have user: "mls_range_contains (user_range user) (ctx_range c)"
    if "mls_enabled p" "ctx_role c \<noteq> OBJECT_R_VAL" "val_to_struct (user_val_to_struct p) (ctx_user c) = Some user" for user
    using f(4) that by (auto simp: mls_context_isvalid_def split: if_splits)
  have lev: "unat (lvl_sens l - 1) < length (sym_val_to_name p SYM_LEVELS) \<and>
        (\<exists>d. symtab_search (p_levels p) (sym_name p SYM_LEVELS (lvl_sens l - 1)) = Some d \<and> cats l \<subseteq> cats (lev_level d))"
    if "mls_level_isvalid p l" "level_canon l" for l
    using level_isvalid_cats [OF that] assms(5) valid_value_in_range [OF _ _ names(4), of "lvl_sens l"] by (auto simp: not_less)
  have "unat (ctx_user c - 1) < length (sym_val_to_name p SYM_USERS)" "unat (ctx_role c - 1) < length (sym_val_to_name p SYM_ROLES)"
    "unat (ctx_type c - 1) < length (sym_val_to_name p SYM_TYPES)"
    using f(1-3) valid_value_in_range names by blast+
  moreover have "\<exists>role user. val_to_struct (role_val_to_struct p) (ctx_role c) = Some role \<and> role_value role = ctx_role c \<and>
        val_to_struct (user_val_to_struct p) (ctx_user c) = Some user \<and> user_value user = ctx_user c \<and>
        ebitmap_get_bit (role_types role) (unat (ctx_type c - 1)) \<and>
        ebitmap_get_bit (user_roles user) (unat (ctx_role c - 1)) \<and>
        (mls_enabled p \<longrightarrow> mls_range_contains (user_range user) (ctx_range c))" if r: "ctx_role c \<noteq> OBJECT_R_VAL"
  proof -
    obtain role user where ru: "val_to_struct (role_val_to_struct p) (ctx_role c) = Some role"
        "val_to_struct (user_val_to_struct p) (ctx_user c) = Some user"
        "ebitmap_get_bit (role_types role) (unat (ctx_type c - 1))" "ebitmap_get_bit (user_roles user) (unat (ctx_role c - 1))"
      using f(5) [OF r] by blast
    have "role_value role = ctx_role c" "user_value user = ctx_user c"
      using indexed_val [OF ru(1)] indexed_val [OF ru(2)] f(1,2) assms(2) unfolding structs_ok_def by blast+
    then show ?thesis
      using ru user [OF _ r ru(2)] by blast
  qed
  moreover have "mls_level_dom (level1 (ctx_range c)) (level0 (ctx_range c)) \<and>
      (\<forall>l \<in> {level0 (ctx_range c), level1 (ctx_range c)}. unat (lvl_sens l - 1) < length (sym_val_to_name p SYM_LEVELS) \<and>
        (\<exists>d. symtab_search (p_levels p) (sym_name p SYM_LEVELS (lvl_sens l - 1)) = Some d \<and> cats l \<subseteq> cats (lev_level d)))"
    if "mls_enabled p"
    using range [OF that] lev assms(4) by (auto simp: mls_range_isvalid_def range_canon_def)
  ultimately show ?thesis by blast
qed

definition object_policydb :: policydb where
  "object_policydb = policydb_init\<lparr>p_roles := symtab_zero\<lparr>st_nprim := 1\<rparr>, p_users := symtab_zero\<lparr>st_nprim := 1\<rparr>,
     p_types := symtab_zero\<lparr>st_nprim := 1\<rparr>, role_val_to_struct := [None], user_val_to_struct := [None],
     type_val_to_struct := [None],
     sym_val_to_name := (\<lambda>s. if s \<in> {SYM_ROLES, SYM_USERS, SYM_TYPES} then [None] else [])\<rparr>"

definition object_context :: "context" where
  "object_context = context_init\<lparr>ctx_user := 1, ctx_role := 1, ctx_type := 1\<rparr>"

theorem context_isvalid_sound_witness:
  "policydb_context_isvalid object_policydb object_context \<and>
   unat (ctx_type object_context - 1) < length (sym_val_to_name object_policydb SYM_TYPES)"
proof -
  have v: "policydb_context_isvalid object_policydb object_context"
    by (simp add: policydb_context_isvalid_def mls_context_isvalid_def object_policydb_def object_context_def
        context_init_def policydb_init_def symtab_zero_def)
  have "structs_ok object_policydb"
    by (simp add: structs_ok_def indexed_def object_policydb_def policydb_init_def symtab_zero_def)
  moreover have "names_ok object_policydb s" for s
    by (cases s) (simp_all add: named_def object_policydb_def policydb_init_def symtab_zero_def)
  moreover have "range_canon (ctx_range object_context)"
    by (simp add: object_context_def context_init_def level_init_def range_canon_def level_canon_def)
  ultimately show ?thesis
    using context_isvalid_sound [OF v] v
    by (simp add: object_policydb_def policydb_init_def symtab_zero_def symtab_search_def hashtab_search_def)
qed

text \<open>
  C19. Without a range transition rule and without a default for the class, the range of a new object
  lies within the range of the subject that creates it; and so does it for a member or a relabelled
  object.
\<close>

theorem mls_compute_sid_bounded:
  assumes "mls_compute_sid p scontext tcontext tclass spec newcontext sock m = (OK, c, m')" "mls_enabled p"
    "range_canon (ctx_range scontext)" "mls_level_dom (level1 (ctx_range scontext)) (level0 (ctx_range scontext))"
    "spec = ucast AVTAB_TRANSITION \<longrightarrow>
       policydb_rangetr_search p \<lparr>rt_source_type = ctx_type scontext, rt_target_type = ctx_type tcontext,
         rt_target_class = ucast tclass\<rparr> = None \<and>
       (\<forall>d. val_to_struct (class_val_to_struct p) (ucast tclass) = Some d \<longrightarrow> default_range d = 0)"
  shows "mls_range_contains (ctx_range scontext) (ctx_range c) \<and> mls_level_dom (level1 (ctx_range c)) (level0 (ctx_range c))"
proof -
  have "mls_compute_sid p scontext tcontext tclass spec newcontext sock m \<in>
      {mls_context_cpy newcontext scontext m, mls_context_cpy_low newcontext scontext m, (Err EINVAL, newcontext, m)}"
    using assms(2,5) by (auto simp: mls_compute_sid_def Let_def split: option.splits)
  then have "ctx_range c = ctx_range scontext \<or>
      level0 (ctx_range c) = level0 (ctx_range scontext) \<and> level1 (ctx_range c) = level0 (ctx_range scontext)"
    using assms(1) levels_cpy_ok [of newcontext _ _ m c m']
    by (auto simp: mls_context_cpy_def mls_context_cpy_low_def set_level0_def set_level1_def)
  then show ?thesis
    using assms(3,4) mls_level_dom_refl by (auto simp: mls_range_contains_def range_canon_def)
qed

theorem mls_compute_sid_bounded_witness:
  "\<exists>c m'. mls_compute_sid (policydb_init\<lparr>mls_enabled := True\<rparr>) (sample_context 3 6 5) context_init 7 (ucast AVTAB_MEMBER)
      context_init False [] = (OK, c, m') \<and> mls_range_contains (ctx_range (sample_context 3 6 5)) (ctx_range c)"
proof -
  let ?p = "policydb_init\<lparr>mls_enabled := True\<rparr>" and ?s = "sample_context 3 6 5"
  obtain m' where "mls_levels_cpy context_init (level0 (ctx_range ?s)) (level0 (ctx_range ?s)) [] =
      (OK, set_level1 (level0 (ctx_range ?s)) (set_level0 (level0 (ctx_range ?s)) context_init), m')"
    using levels_cpy_ample [of "[]"] by fastforce
  then obtain c where c: "mls_compute_sid ?p ?s context_init 7 (ucast AVTAB_MEMBER) context_init False [] = (OK, c, m')"
    by (simp add: mls_compute_sid_def mls_context_cpy_low_def Let_def)
  have "(3 :: u32) \<le> 6" by simp
  note s = sample_context_ok [OF this]
  show ?thesis
    using mls_compute_sid_bounded [OF c _ s(1,4)] c by auto
qed

end
