(* ===== verification/Mls_Roundtrip.thy ===== *)
theory Mls_Roundtrip
  imports Mls
begin

text \<open>
  Parsing undoes printing: the MLS fields that \<open>mls_sid_to_context\<close> writes are read back by
  \<open>mls_context_to_sid\<close> as the same range. The printed categories are runs of consecutive
  categories; a run of three or more is written as a range, which the parser expands again.
\<close>

section \<open>Strings that set categories\<close>

declare of_nat_unat [simp del]

text \<open>Names contain no character that the syntax of contexts uses.\<close>

definition clean :: "string \<Rightarrow> bool" where
  "clean s \<longleftrightarrow> set s \<inter> {CHR '','', CHR ''.'', CHR '':'', CHR ''-''} = {}"

definition cat_ok :: "policydb \<Rightarrow> nat \<Rightarrow> bool" where
  "cat_ok p c \<longleftrightarrow> c < 2 ^ 31 - 1 \<and> clean (cat_name p (int c)) \<and>
     (\<exists>d. symtab_search (p_cats p) (cat_name p (int c)) = Some d \<and> unat (cat_value d) = c + 1)"

definition sens_ok :: "policydb \<Rightarrow> u32 \<Rightarrow> bool" where
  "sens_ok p s \<longleftrightarrow> clean (sym_name p SYM_LEVELS (s - 1)) \<and>
     (\<exists>d. symtab_search (p_levels p) (sym_name p SYM_LEVELS (s - 1)) = Some d \<and> lvl_sens (lev_level d) = s)"

definition adds :: "(ebitmap \<Rightarrow> mem \<Rightarrow> rc \<times> ebitmap \<times> mem) \<Rightarrow> nat set \<Rightarrow> bool" where
  "adds f S \<longleftrightarrow> (\<forall>cat m. ebitmap_canon cat \<longrightarrow> ample m \<longrightarrow>
     (\<exists>cat' m'. f cat m = (OK, cat', m') \<and> ebitmap_canon cat' \<and> ebitmap_bits cat' = ebitmap_bits cat \<union> S \<and> ample m'))"

lemma addsE:
  assumes "adds f S" "ebitmap_canon cat" "ample m"
  obtains cat' m' where "f cat m = (OK, cat', m')" "ebitmap_canon cat'" "ebitmap_bits cat' = ebitmap_bits cat \<union> S" "ample m'"
  using assms unfolding adds_def by blast

lemma adds_then:
  assumes "adds f S" "adds g T"
  shows "adds (\<lambda>cat m. then_ok (f cat m) g) (S \<union> T)"
  unfolding adds_def
proof (intro allI impI)
  fix cat m
  assume "ebitmap_canon cat" "ample m"
  then obtain cat1 m1 where 1: "f cat m = (OK, cat1, m1)" "ebitmap_canon cat1" "ebitmap_bits cat1 = ebitmap_bits cat \<union> S" "ample m1"
    using addsE [OF assms(1)] by blast
  then obtain cat2 m2 where "g cat1 m1 = (OK, cat2, m2)" "ebitmap_canon cat2" "ebitmap_bits cat2 = ebitmap_bits cat1 \<union> T" "ample m2"
    using addsE [OF assms(2)] by blast
  with 1 show "\<exists>cat' m'. then_ok (f cat m) g = (OK, cat', m') \<and> ebitmap_canon cat' \<and>
      ebitmap_bits cat' = ebitmap_bits cat \<union> (S \<union> T) \<and> ample m'"
    by auto
qed

lemma adds_none: "adds (\<lambda>cat m. (OK, cat, m)) {}"
  by (simp add: adds_def)

lemma adds_set_bit: "c < 2 ^ 31 \<Longrightarrow> adds (\<lambda>cat m. ebitmap_set_bit cat c True m) {c}"
  unfolding adds_def
proof (intro allI impI)
  fix cat m
  assume c: "c < 2 ^ 31" and "ebitmap_canon cat" "ample m"
  then obtain cat' m' where r: "ebitmap_set_bit cat c True m = (OK, cat', m')" "ample m'"
    using ebitmap_set_bit_ample by blast
  then show "\<exists>cat' m'. ebitmap_set_bit cat c True m = (OK, cat', m') \<and> ebitmap_canon cat' \<and>
      ebitmap_bits cat' = ebitmap_bits cat \<union> {c} \<and> ample m'"
    using ebitmap_set_bit_ok [OF r(1)] \<open>ebitmap_canon cat\<close> ebitmap_pos_small [OF c] by (simp add: ebitmap_canon_wf)
qed

lemma adds_set_cats: "\<forall>i \<in> set is. unat i < 2 ^ 31 \<Longrightarrow> adds (mls_set_cats is) (unat ` set is)"
proof (induction "is")
  case Nil
  then show ?case using adds_none by (simp add: adds_def)
next
  case (Cons i "is")
  have "mls_set_cats (i # is) = (\<lambda>cat m. then_ok (ebitmap_set_bit cat (unat i) True m) (mls_set_cats is))"
    by (auto simp: fun_eq_iff then_ok_def split: prod.split option.split)
  then show ?case
    using adds_then [OF adds_set_bit Cons.IH, of "unat i"] Cons.prems by simp
qed

section \<open>Items\<close>

lemma split_at_absent: "c \<notin> set s \<Longrightarrow> split_at c s = (s, None)"
  by (simp add: split_at_def)

lemma split_at_append: "c \<notin> set a \<Longrightarrow> split_at c (a @ c # b) = (a, Some b)"
  by (simp add: split_at_def takeWhile_append dropWhile_append)

lemma split_at_append': "split_at c a = (x, Some y) \<Longrightarrow> split_at c (a @ b) = (x, Some (y @ b))"
  by (auto simp: split_at_def takeWhile_append dropWhile_append split: if_splits)

lemma cat_okE:
  assumes "cat_ok p c"
  obtains d where "symtab_search (p_cats p) (cat_name p (int c)) = Some d" "unat (cat_value d) = c + 1"
    "unat (cat_value d - 1) = c" "c < 2 ^ 31 - 1" "clean (cat_name p (int c))"
proof -
  obtain d where d: "symtab_search (p_cats p) (cat_name p (int c)) = Some d" "unat (cat_value d) = c + 1"
    "c < 2 ^ 31 - 1" "clean (cat_name p (int c))"
    using assms by (auto simp: cat_ok_def)
  moreover have "cat_value d \<noteq> 0"
    using d(2) by auto
  then have "unat (cat_value d - 1) = c"
    using d(2) unat_pred [of "cat_value d"] by simp
  ultimately show ?thesis using that by blast
qed

lemma adds_single:
  assumes "cat_ok p c"
  shows "adds (mls_parse_cat p (cat_name p (int c))) {c}"
proof -
  obtain d where d: "symtab_search (p_cats p) (cat_name p (int c)) = Some d" "unat (cat_value d - 1) = c"
      "c < 2 ^ 31 - 1" "clean (cat_name p (int c))"
    using cat_okE [OF assms] by blast
  have "mls_parse_cat p (cat_name p (int c)) = (\<lambda>cat m. then_ok (ebitmap_set_bit cat c True m) (\<lambda>cat m. (OK, cat, m)))"
    using d by (simp add: fun_eq_iff mls_parse_cat_def clean_def split_at_absent)
  then show ?thesis
    using adds_then [OF adds_set_bit adds_none, of c] d(3) by simp
qed

lemma adds_range:
  assumes "cat_ok p a" "cat_ok p b" "a < b"
  shows "adds (mls_parse_cat p (cat_name p (int a) @ ''.'' @ cat_name p (int b))) {a..b}"
proof -
  obtain d where d: "symtab_search (p_cats p) (cat_name p (int a)) = Some d" "unat (cat_value d) = a + 1"
      "unat (cat_value d - 1) = a" "a < 2 ^ 31 - 1" "clean (cat_name p (int a))"
    using cat_okE [OF assms(1)] by blast
  obtain e where e: "symtab_search (p_cats p) (cat_name p (int b)) = Some e" "unat (cat_value e) = b + 1" "b < 2 ^ 31 - 1"
    using cat_okE [OF assms(2)] by blast
  let ?is = "map of_nat [unat (cat_value d)..<unat (cat_value e)] :: u32 list"
  have lt: "\<not> cat_value d \<ge> cat_value e"
    using d(2) e(2) assms(3) by (simp add: word_le_nat_alt)
  have unat: "unat (of_nat k :: u32) = k" if "k \<in> {a + 1..b}" for k
    using that e(3) by (intro unat_u32_of_nat) auto
  have "unat ` set ?is = {a + 1..b}"
    using unat unfolding d(2) e(2) by (force simp: image_image)
  moreover have "\<forall>i \<in> set ?is. unat i < 2 ^ 31"
    using unat e(3) unfolding d(2) e(2) by auto
  ultimately have "adds (mls_set_cats ?is) {a + 1..b}"
    using adds_set_cats by metis
  moreover have "mls_parse_cat p (cat_name p (int a) @ ''.'' @ cat_name p (int b)) =
      (\<lambda>cat m. then_ok (ebitmap_set_bit cat a True m) (mls_set_cats ?is))"
    using d(1,3,5) e(1) lt by (simp add: fun_eq_iff mls_parse_cat_def clean_def split_at_append)
  moreover have "{a} \<union> {a + 1..b} = {a..b}"
    using assms(3) by auto
  ultimately show ?thesis
    using adds_then [OF adds_set_bit, of a "mls_set_cats ?is" "{a + 1..b}"] d(4) by simp
qed

section \<open>Lists of items\<close>

text \<open>A list of items that sets the categories of a set and contains no character of the level above.\<close>

definition lists :: "policydb \<Rightarrow> string \<Rightarrow> nat set \<Rightarrow> bool" where
  "lists p s S \<longleftrightarrow> adds (mls_parse_cats p (Some s)) S \<and> CHR ''-'' \<notin> set s"

declare mls_parse_cats.simps [simp del]

lemma then_ok_assoc: "then_ok (then_ok r f) g = then_ok r (\<lambda>s m. then_ok (f s m) g)"
  by (auto simp: then_ok_def split: prod.split option.split)

lemma parse_cats_None: "mls_parse_cats p None = (\<lambda>cat m. (OK, cat, m))"
  by (simp add: fun_eq_iff mls_parse_cats.simps)

lemma parse_cats_Some:
  "split_at (CHR '','') s = (item, rest) \<Longrightarrow>
    mls_parse_cats p (Some s) = (\<lambda>cat m. then_ok (mls_parse_cat p item cat m) (mls_parse_cats p rest))"
  by (simp add: fun_eq_iff mls_parse_cats.simps)

lemma parse_cats_append:
  "mls_parse_cats p (Some (a @ '','' @ b)) =
    (\<lambda>cat m. then_ok (mls_parse_cats p (Some a) cat m) (mls_parse_cats p (Some b)))"
proof (induction "length a" arbitrary: a rule: less_induct)
  case less
  show ?case
  proof (cases "CHR '','' \<in> set a")
    case False
    then show ?thesis
      using parse_cats_Some [OF split_at_append [OF False], of p b] parse_cats_Some [OF split_at_absent [OF False], of p]
      by (simp add: parse_cats_None then_ok_assoc)
  next
    case True
    then obtain x y where xy: "split_at (CHR '','') a = (x, Some y)"
      by (auto simp: split_at_def)
    show ?thesis
      using parse_cats_Some [OF split_at_append' [OF xy, of "'','' @ b"], of p] parse_cats_Some [OF xy, of p]
        less [OF split_at_shorter [OF xy]] by (simp add: then_ok_assoc)
  qed
qed

lemma lists_item:
  assumes "adds (mls_parse_cat p item) S" "CHR '','' \<notin> set item" "CHR ''-'' \<notin> set item"
  shows "lists p item S"
  using adds_then [OF assms(1) adds_none] assms(3) parse_cats_Some [OF split_at_absent [OF assms(2)], of p]
  by (simp add: lists_def parse_cats_None)

lemma lists_append: "lists p a S \<Longrightarrow> lists p b T \<Longrightarrow> lists p (a @ '','' @ b) (S \<union> T)"
  using adds_then [of "mls_parse_cats p (Some a)" S "mls_parse_cats p (Some b)" T]
  by (simp add: lists_def parse_cats_append [simplified])

lemma lists_single: "cat_ok p c \<Longrightarrow> lists p (cat_name p (int c)) {c}"
  by (intro lists_item adds_single) (auto simp: cat_ok_def clean_def)

lemma lists_range: "cat_ok p a \<Longrightarrow> cat_ok p b \<Longrightarrow> a < b \<Longrightarrow> lists p (cat_name p (int a) @ ''.'' @ cat_name p (int b)) {a..b}"
  by (intro lists_item adds_range) (auto simp: cat_ok_def clean_def)

section \<open>Printing a category set\<close>

text \<open>
  The state of the printing loop after the categories of \<open>S\<close>: the run from \<open>head\<close> to \<open>prev\<close> is
  open, and what comes before it in the output sets the others.
\<close>

definition printed :: "policydb \<Rightarrow> nat \<Rightarrow> nat \<Rightarrow> string \<Rightarrow> nat set \<Rightarrow> bool" where
  "printed p head prev out S \<longleftrightarrow> head \<le> prev \<and> cat_ok p head \<and> cat_ok p prev \<and>
     (out = '':'' @ cat_name p (int head) \<and> S = {head..prev} \<or>
      (\<exists>q T. out = '':'' @ q @ '','' @ cat_name p (int head) \<and> lists p q T \<and> S = T \<union> {head..prev}))"

definition close_run :: "policydb \<Rightarrow> int \<Rightarrow> int \<Rightarrow> string \<Rightarrow> string" where
  "close_run p head prev out =
     (if prev \<noteq> head then out @ (if prev - head > 1 then ''.'' else '','') @ cat_name p prev else out)"

lemma printed_close:
  assumes "printed p head prev out S"
  shows "\<exists>q. close_run p (int head) (int prev) out = '':'' @ q \<and> lists p q S"
proof -
  have run: "\<exists>r. close_run p (int head) (int prev) (pre @ cat_name p (int head)) = pre @ r \<and> lists p r {head..prev}" for pre
  proof (cases "prev = head")
    case True
    then show ?thesis
      using assms lists_single by (auto simp: printed_def close_run_def)
  next
    case False
    then have lt: "head < prev" using assms by (simp add: printed_def)
    show ?thesis
    proof (cases "prev = Suc head")
      case True
      have "lists p (cat_name p (int head) @ '','' @ cat_name p (int prev)) ({head} \<union> {prev})"
        using assms by (intro lists_append lists_single) (simp_all add: printed_def)
      moreover have "{head} \<union> {prev} = {head..prev}"
        using True by auto
      ultimately show ?thesis
        using True by (auto simp: close_run_def)
    next
      case False
      then show ?thesis
        using lt assms lists_range by (auto simp: close_run_def printed_def)
    qed
  qed
  have "out = '':'' @ cat_name p (int head) \<and> S = {head..prev} \<or>
      (\<exists>q T. out = '':'' @ q @ '','' @ cat_name p (int head) \<and> lists p q T \<and> S = T \<union> {head..prev})"
    using assms by (simp add: printed_def)
  then show ?thesis
  proof (elim disjE exE conjE)
    assume "out = '':'' @ cat_name p (int head)" "S = {head..prev}"
    then show ?thesis using run [of "'':''"] by auto
  next
    fix q T
    assume q: "out = '':'' @ q @ '','' @ cat_name p (int head)" "lists p q T" "S = T \<union> {head..prev}"
    obtain r where "close_run p (int head) (int prev) (('':'' @ q @ '','') @ cat_name p (int head)) = ('':'' @ q @ '','') @ r"
        "lists p r {head..prev}"
      using run [of "'':'' @ q @ '',''"] by blast
    then have "close_run p (int head) (int prev) out = '':'' @ (q @ '','' @ r)" "lists p (q @ '','' @ r) S"
      using q lists_append by simp_all
    then show ?thesis by blast
  qed
qed

lemma print_step_run:
  "mls_print_step p b (head, prev, out) =
    (let i = sint b
     in if i - prev > 1 then (i, i, close_run p head prev out @ (if prev < 0 then '':'' else '','') @ cat_name p i)
        else (head, i, out))"
  by (simp add: mls_print_step_def close_run_def Let_def)

lemma printed_step:
  assumes "printed p head prev out S" "cat_ok p (unat b)" "prev < unat b"
  shows "\<exists>head' out'. mls_print_step p b (int head, int prev, out) = (int head', int (unat b), out') \<and>
    printed p head' (unat b) out' (insert (unat b) S)"
proof -
  have i: "sint b = int (unat b)"
    using assms(2) by (intro sint_small) (simp add: cat_ok_def)
  show ?thesis
  proof (cases "unat b = Suc prev")
    case True
    have "insert (unat b) {head..prev} = {head..unat b}"
      using True assms(1) by (auto simp: printed_def)
    then have "printed p head (unat b) out (insert (unat b) S)"
      using assms(1,2) True by (auto simp: printed_def)
    then show ?thesis
      using True by (auto simp: print_step_run i)
  next
    case False
    obtain q where q: "close_run p (int head) (int prev) out = '':'' @ q" "lists p q S"
      using printed_close [OF assms(1)] by blast
    then have "printed p (unat b) (unat b) ('':'' @ q @ '','' @ cat_name p (int (unat b))) (insert (unat b) S)"
      using assms(2) by (auto simp: printed_def)
    then show ?thesis
      using False assms(3) q(1) by (auto simp: print_step_run i Let_def)
  qed
qed

lemma printed_fold:
  assumes "printed p head prev out S" "\<forall>b \<in> set bs. cat_ok p (unat b)" "sorted_wrt (<) (prev # map unat bs)"
  shows "\<exists>head' prev' out'. fold (mls_print_step p) bs (int head, int prev, out) = (int head', int prev', out') \<and>
    printed p head' prev' out' (S \<union> unat ` set bs)"
  using assms
proof (induction bs arbitrary: head prev out S)
  case (Cons b bs)
  obtain head' out' where st: "mls_print_step p b (int head, int prev, out) = (int head', int (unat b), out')"
      "printed p head' (unat b) out' (insert (unat b) S)"
    using printed_step [OF Cons.prems(1), of b] Cons.prems(2,3) by auto
  then show ?case
    using Cons.IH [OF st(2)] Cons.prems(2,3) by (simp add: st(1))
qed auto

lemma print_cats_lists:
  assumes "ebitmap_wf e" "\<forall>c \<in> ebitmap_bits e. cat_ok p c"
  shows "ebitmap_bits e = {} \<and> mls_print_cats p e out = out \<or>
    (\<exists>q. mls_print_cats p e out = out @ '':'' @ q \<and> lists p q (ebitmap_bits e))"
proof (cases "ebitmap_positive_bits e")
  case Nil
  then show ?thesis
    using positive_bits_set [OF assms(1)] by (simp add: mls_print_cats_def)
next
  case (Cons b bs)
  have sorted: "sorted_wrt (<) (map unat (b # bs))"
    using ebitmap_positive_bits_correct [OF assms(1)] Cons strict_sorted_list_of_set by metis
  have set: "unat ` set (b # bs) = ebitmap_bits e"
    using positive_bits_set [OF assms(1)] Cons by simp
  then have ok: "\<forall>c \<in> set (b # bs). cat_ok p (unat c)"
    using assms(2) by auto
  have i: "sint b = int (unat b)"
    using ok by (intro sint_small) (simp add: cat_ok_def)
  have start: "mls_print_step p b (-2, -2, []) = (int (unat b), int (unat b), '':'' @ cat_name p (int (unat b)))"
    by (simp add: print_step_run i close_run_def Let_def)
  have "printed p (unat b) (unat b) ('':'' @ cat_name p (int (unat b))) {unat b}"
    using ok by (simp add: printed_def)
  then obtain head' prev' out' where f: "fold (mls_print_step p) (b # bs) (-2, -2, []) = (int head', int prev', out')"
      "printed p head' prev' out' (ebitmap_bits e)"
    using printed_fold [of p "unat b" "unat b" "'':'' @ cat_name p (int (unat b))" "{unat b}" bs] ok sorted set
    by (auto simp: start)
  then have "mls_print_cats p e [] = close_run p (int head') (int prev') out'"
    by (simp add: mls_print_cats_def Cons close_run_def)
  then show ?thesis
    using printed_close [OF f(2)] print_cats_append [of p e out "[]"] by auto
qed

section \<open>Levels and ranges\<close>

definition level_ok :: "policydb \<Rightarrow> mls_level \<Rightarrow> bool" where
  "level_ok p l \<longleftrightarrow> level_canon l \<and> sens_ok p (lvl_sens l) \<and> (\<forall>c \<in> cats l. cat_ok p c)"

lemma parse_print_level:
  assumes "level_ok p l" "ample m"
  shows "\<exists>m'. mls_parse_level p (mls_print_level p l []) level_init m = (OK, l, m') \<and> ample m'"
    "CHR ''-'' \<notin> set (mls_print_level p l [])"
proof -
  let ?nm = "sym_name p SYM_LEVELS (lvl_sens l - 1)"
  obtain d where d: "symtab_search (p_levels p) ?nm = Some d" "lvl_sens (lev_level d) = lvl_sens l" and cl: "clean ?nm"
    using assms(1) by (auto simp: level_ok_def sens_ok_def)
  have wf: "ebitmap_wf (lvl_cat l)" "ebitmap_canon (lvl_cat l)"
    using assms(1) by (simp_all add: level_ok_def level_canon_def ebitmap_canon_wf)
  have cats: "ebitmap_bits (lvl_cat l) = {} \<and> mls_print_level p l [] = ?nm \<or>
      (\<exists>q. mls_print_level p l [] = ?nm @ '':'' @ q \<and> lists p q (ebitmap_bits (lvl_cat l)))"
    using print_cats_lists [OF wf(1), of p ?nm] assms(1) by (simp add: mls_print_level_def level_ok_def cats_def)
  then show "CHR ''-'' \<notin> set (mls_print_level p l [])"
    using cl by (auto simp: clean_def lists_def)
  obtain nx where sp: "split_at (CHR '':'') (mls_print_level p l []) = (?nm, nx)"
    and add: "adds (mls_parse_cats p nx) (ebitmap_bits (lvl_cat l))"
    using cats cl adds_none by (auto simp: clean_def lists_def split_at_absent split_at_append parse_cats_None)
  obtain cat' m' where "mls_parse_cats p nx ebitmap_init m = (OK, cat', m')" "ebitmap_canon cat'"
      "ebitmap_bits cat' = ebitmap_bits (lvl_cat l)" "ample m'"
    using addsE [OF add ebitmap_init_canon(1) assms(2)] by auto
  moreover have "cat' = lvl_cat l"
    using calculation wf(2) by (intro ebitmap_canon_inject)
  ultimately show "\<exists>m'. mls_parse_level p (mls_print_level p l []) level_init m = (OK, l, m') \<and> ample m'"
    using d sp by (simp add: mls_parse_level_def level_init_def)
qed

lemma print_parse_range:
  assumes "mls_enabled p" "level_ok p (level0 (ctx_range c))" "level_ok p (level1 (ctx_range c))" "ample m"
    "ctx_range c0 = \<lparr>level0 = level_init, level1 = level_init\<rparr>"
  shows "\<exists>s m'. mls_sid_to_context p c [] = '':'' @ s \<and>
    mls_context_to_sid p True s c0 sidtab def_sid m = (OK, c0\<lparr>ctx_range := ctx_range c\<rparr>, m')"
proof -
  let ?l0 = "level0 (ctx_range c)" and ?l1 = "level1 (ctx_range c)"
  obtain m1 where p0: "mls_parse_level p (mls_print_level p ?l0 []) level_init m = (OK, ?l0, m1)" "ample m1"
    using parse_print_level(1) [OF assms(2,4)] by blast
  obtain m2 where p1: "mls_parse_level p (mls_print_level p ?l1 []) level_init m1 = (OK, ?l1, m2)"
    using parse_print_level(1) [OF assms(3) p0(2)] by blast
  obtain m3 where cpy: "ebitmap_cpy (lvl_cat ?l0) m1 = (OK, lvl_cat ?l0, m3)"
    using ebitmap_cpy_ample [OF p0(2)] by blast
  have nodash: "CHR ''-'' \<notin> set (mls_print_level p ?l0 [])"
    by (rule parse_print_level(2) [OF assms(2,4)])
  show ?thesis
  proof (cases "?l0 = ?l1")
    case True
    have "mls_sid_to_context p c [] = '':'' @ mls_print_level p ?l0 []"
      using assms(1) True print_level_append [of p ?l0 "'':''" "[]"]
      by (simp add: mls_sid_to_context_def Let_def mls_level_eq_iff)
    moreover have "mls_context_to_sid p True (mls_print_level p ?l0 []) c0 sidtab def_sid m = (OK, c0\<lparr>ctx_range := ctx_range c\<rparr>, m3)"
      using assms(1,5) p0(1) cpy split_at_absent [OF nodash] True
      by (simp add: mls_context_to_sid_def Let_def set_level0_def set_level1_def)
    ultimately show ?thesis by blast
  next
    case False
    have "mls_sid_to_context p c [] = '':'' @ mls_print_level p ?l0 [] @ ''-'' @ mls_print_level p ?l1 []"
      using assms(1) False print_level_append [of p ?l0 "'':''" "[]"]
        print_level_append [of p ?l1 "'':'' @ mls_print_level p ?l0 [] @ ''-''" "[]"]
      by (simp add: mls_sid_to_context_def Let_def mls_level_eq_iff)
    moreover have "mls_context_to_sid p True (mls_print_level p ?l0 [] @ ''-'' @ mls_print_level p ?l1 []) c0 sidtab def_sid m =
        (OK, c0\<lparr>ctx_range := ctx_range c\<rparr>, m2)"
      using assms(1,5) p0(1) p1 split_at_append [OF nodash]
      by (simp add: mls_context_to_sid_def Let_def set_level0_def set_level1_def)
    ultimately show ?thesis by blast
  qed
qed

section \<open>Properties\<close>

text \<open>
  The MLS fields of a context survive printing and parsing: with memory, parsing what was printed
  behind the colon into a fresh context succeeds and gives the same range. The names of
  the sensitivities and categories lead back to their values and contain no character of the syntax.
\<close>

lemma mls_print_parse:
  assumes "mls_enabled p" "level_ok p (level0 (ctx_range c))" "level_ok p (level1 (ctx_range c))" "ample m"
    "ctx_range c0 = \<lparr>level0 = level_init, level1 = level_init\<rparr>"
  shows "\<exists>s m'. mls_sid_to_context p c [] = '':'' @ s \<and>
    mls_context_to_sid p True s c0 sidtab def_sid m = (OK, c0\<lparr>ctx_range := ctx_range c\<rparr>, m')"
  using print_parse_range [OF assms] .

definition mls_policydb :: policydb where
  "mls_policydb = policydb_init\<lparr>mls_enabled := True,
     p_levels := \<lparr>st_table = \<lparr>ht_htable = [[(''s0'', \<lparr>lev_level = sample_level 1 5, lev_isalias = False\<rparr>)]],
       ht_size = 1, ht_nel = 1\<rparr>, st_nprim = 1\<rparr>,
     p_cats := \<lparr>st_table = \<lparr>ht_htable = [[(''c0'', \<lparr>cat_value = 1, cat_isalias = False\<rparr>)]], ht_size = 1, ht_nel = 1\<rparr>,
       st_nprim = 1\<rparr>,
     sym_val_to_name := (\<lambda>s. if s = SYM_LEVELS then [Some ''s0''] else if s = SYM_CATS then [Some ''c0''] else [])\<rparr>"

lemma mls_policydb_level_ok: "level_ok mls_policydb (sample_level 1 0)"
proof -
  have "sens_ok mls_policydb 1" "cat_ok mls_policydb 0"
    by (simp_all add: sens_ok_def cat_ok_def cat_name_def mls_policydb_def sym_name_def symtab_search_def
        hashtab_search_def symcmp_def clean_def sample_level_def)
  then show ?thesis
    by (simp add: level_ok_def sample_level_canon) (simp add: sample_level_def cats_def ebitmap_single ebitmap_pos_small)
qed

end
