(* ===== verification/Context_Strings.thy ===== *)
theory Context_Strings
  imports Services Mls_Roundtrip
begin

text \<open>
  Contexts as strings (\<open>ss/services.c\<close>): printing and parsing of contexts, the SIDs of context strings
  and the strings of SIDs, and the conversion of a context to a new policy.

  The functions that give a SID to a context start again when the table of SIDs was frozen by a policy
  load in the meantime. The policies that the attempts find, with the running conversion and the table
  it fills, are a list, and \<open>None\<close> is not having returned when the list ends.
\<close>

section \<open>Printing\<close>

text \<open>
  \<open>context_struct_to_string\<close>: the string, when there is a place for it (\<open>want\<close>), and the length with
  the terminating null character.
\<close>

definition context_names :: "policydb \<Rightarrow> context \<Rightarrow> string" where
  "context_names p c =
     sym_name p SYM_USERS (ctx_user c - 1) @ '':'' @ sym_name p SYM_ROLES (ctx_role c - 1) @ '':'' @
     sym_name p SYM_TYPES (ctx_type c - 1)"

definition context_struct_to_string :: "policydb \<Rightarrow> context \<Rightarrow> bool \<Rightarrow> mem \<Rightarrow> rc \<times> string option \<times> u32 \<times> mem" where
  "context_struct_to_string p c want m =
     (if ctx_len c \<noteq> 0
      then if want
           then (case kalloc m of
                   (False, m') \<Rightarrow> (Err ENOMEM, None, ctx_len c, m')
                 | (True, m') \<Rightarrow> (OK, ctx_str c, ctx_len c, m'))
           else (OK, None, ctx_len c, m)
      else let scontext_len = of_nat (length (sym_name p SYM_USERS (ctx_user c - 1)) + 1) +
                 of_nat (length (sym_name p SYM_ROLES (ctx_role c - 1)) + 1) +
                 of_nat (length (sym_name p SYM_TYPES (ctx_type c - 1)) + 1) + of_nat (mls_compute_context_len p c)
           in if \<not> want then (OK, None, scontext_len, m)
              else case kalloc m of
                     (False, m') \<Rightarrow> (Err ENOMEM, None, scontext_len, m')
                   | (True, m') \<Rightarrow> (OK, Some (mls_sid_to_context p c (context_names p c)), scontext_len, m'))"

definition entry_ref_of :: "u32 \<Rightarrow> entry_ref" where
  "entry_ref_of sid = (if sid > SECINITSID_NUM then Index (unat (sid_to_index sid)) else Isid (unat (sid - 1)))"

text \<open>The callers below want the string.\<close>

definition sidtab_entry_to_string ::
  "policydb \<Rightarrow> sidtab \<Rightarrow> entry_ref \<Rightarrow> sidtab_entry \<Rightarrow> mem \<Rightarrow> rc \<times> string option \<times> u32 \<times> sidtab \<times> mem" where
  "sidtab_entry_to_string p s r entry m =
     (case sidtab_sid2str_get s r entry m of
        (Inr str, s', m') \<Rightarrow> (OK, Some str, of_nat (length str + 1), s', m')
      | (Inl e, s', m') \<Rightarrow>
          if e \<noteq> ENOENT then (Err e, None, 0, s', m')
          else case context_struct_to_string p (se_context entry) True m' of
                 (OK, Some str, len, m'') \<Rightarrow>
                   (case sidtab_sid2str_put s' r entry str m'' of (s'', m3) \<Rightarrow> (OK, Some str, len, s'', m3))
               | (rc, str, len, m'') \<Rightarrow> (rc, str, len, s', m''))"

text \<open>The names of the initial SIDs (\<open>include/initial_sid_to_string.h\<close>).\<close>

definition initial_sid_to_string :: "string option list" where
  "initial_sid_to_string =
     [None, Some ''kernel'', Some ''security'', Some ''unlabeled'', None, Some ''file'', None, None, Some ''any_socket'',
      Some ''port'', Some ''netif'', Some ''netmsg'', Some ''node''] @ replicate 14 None @ [Some ''devnull'']"

definition security_get_initial_sid_context :: "u32 \<Rightarrow> string option" where
  "security_get_initial_sid_context sid =
     (if sid > SECINITSID_NUM then None else initial_sid_to_string ! unat sid)"

definition security_sid_to_context_core ::
  "selinux_state \<Rightarrow> u32 \<Rightarrow> bool \<Rightarrow> bool \<Rightarrow> mem \<Rightarrow> (rc \<times> string option \<times> u32 \<times> selinux_state \<times> mem) option" where
  "security_sid_to_context_core st sid force only_invalid m =
     (if \<not> initialized st
      then if sid \<le> SECINITSID_NUM
           then case initial_sid_to_string ! unat sid of
                  None \<Rightarrow> Some (Err EINVAL, None, 0, st, m)
                | Some str \<Rightarrow>
                    (case kalloc m of
                       (False, m') \<Rightarrow> Some (Err ENOMEM, None, of_nat (length str + 1), st, m')
                     | (True, m') \<Rightarrow> Some (OK, Some str, of_nat (length str + 1), st, m'))
           else Some (Err EINVAL, None, 0, st, m)
      else case state_policy st of
             None \<Rightarrow> None
           | Some policy \<Rightarrow>
               (case (if force then sidtab_search_entry_force (pol_sidtab policy) sid
                      else sidtab_search_entry (pol_sidtab policy) sid) of
                  None \<Rightarrow> Some (Err EINVAL, None, 0, st, m)
                | Some entry \<Rightarrow>
                    if only_invalid \<and> ctx_len (se_context entry) = 0 then Some (OK, None, 0, st, m)
                    else (case sidtab_entry_to_string (pol_policydb policy) (pol_sidtab policy) (entry_ref_of sid) entry m of
                            (rc, str, len, s', m') \<Rightarrow>
                              Some (rc, str, len, st\<lparr>state_policy := Some (policy\<lparr>pol_sidtab := s'\<rparr>)\<rparr>, m'))))"

definition security_sid_to_context ::
  "selinux_state \<Rightarrow> u32 \<Rightarrow> mem \<Rightarrow> (rc \<times> string option \<times> u32 \<times> selinux_state \<times> mem) option" where
  "security_sid_to_context st sid m = security_sid_to_context_core st sid False False m"

definition security_sid_to_context_force ::
  "selinux_state \<Rightarrow> u32 \<Rightarrow> mem \<Rightarrow> (rc \<times> string option \<times> u32 \<times> selinux_state \<times> mem) option" where
  "security_sid_to_context_force st sid m = security_sid_to_context_core st sid True False m"

definition security_sid_to_context_inval ::
  "selinux_state \<Rightarrow> u32 \<Rightarrow> mem \<Rightarrow> (rc \<times> string option \<times> u32 \<times> selinux_state \<times> mem) option" where
  "security_sid_to_context_inval st sid m = security_sid_to_context_core st sid True True m"

section \<open>Parsing\<close>

text \<open>
  \<open>string_to_context_struct\<close>. The code ends the fields in place with null characters; what a reader of
  the string finds afterwards is \<open>scontext_garbled\<close>: the string up to the first colon.
\<close>

definition scontext_garbled :: "string \<Rightarrow> string" where
  "scontext_garbled scontext = fst (split_at (CHR '':'') scontext)"

definition parse_context :: "policydb \<Rightarrow> sidtab option \<Rightarrow> string \<Rightarrow> u32 \<Rightarrow> mem \<Rightarrow> rc \<times> context \<times> mem" where
  "parse_context pol s scontext def_sid m =
     (case split_at (CHR '':'') scontext of
        (_, None) \<Rightarrow> (Err EINVAL, context_init, m)
      | (usr, Some rest1) \<Rightarrow>
          (case symtab_search (p_users pol) usr of
             None \<Rightarrow> (Err EINVAL, context_init, m)
           | Some usrdatum \<Rightarrow>
               (let c1 = context_init\<lparr>ctx_user := user_value usrdatum\<rparr>
                in case split_at (CHR '':'') rest1 of
                     (_, None) \<Rightarrow> (Err EINVAL, c1, m)
                   | (rl, Some rest2) \<Rightarrow>
                       (case symtab_search (p_roles pol) rl of
                          None \<Rightarrow> (Err EINVAL, c1, m)
                        | Some role \<Rightarrow>
                            (let c2 = c1\<lparr>ctx_role := role_value role\<rparr>
                             in case split_at (CHR '':'') rest2 of
                                  (ty, rest3) \<Rightarrow>
                                    (case symtab_search (p_types pol) ty of
                                       None \<Rightarrow> (Err EINVAL, c2, m)
                                     | Some typdatum \<Rightarrow>
                                         if type_attribute typdatum then (Err EINVAL, c2, m)
                                         else case mls_context_to_sid pol (rest3 \<noteq> None)
                                                     (case rest3 of None \<Rightarrow> [] | Some r \<Rightarrow> r)
                                                     (c2\<lparr>ctx_type := type_value typdatum\<rparr>) s def_sid m of
                                                (Err e, c3, m') \<Rightarrow> (Err e, c3, m')
                                              | (OK, c3, m') \<Rightarrow>
                                                  if policydb_context_isvalid pol c3 then (OK, c3, m')
                                                  else (Err EINVAL, c3, m')))))))"

definition string_to_context_struct ::
  "policydb \<Rightarrow> sidtab option \<Rightarrow> string \<Rightarrow> u32 \<Rightarrow> mem \<Rightarrow> rc \<times> context \<times> mem" where
  "string_to_context_struct pol s scontext def_sid m =
     (case parse_context pol s scontext def_sid m of
        (OK, c, m') \<Rightarrow> (OK, c, m')
      | (Err e, c, m') \<Rightarrow> (Err e, context_destroy c, m'))"

text \<open>An attempt: the policy, the conversion that runs and the table it fills.\<close>

type_synonym attempt = "selinux_policy \<times> convert_fn \<times> sidtab"

text \<open>
  The part of \<open>security_context_to_sid_core\<close> from \<open>retry\<close> on: \<open>str\<close> is the copy of the string that is
  kept when \<open>force\<close> is set. The result has the status, the SID and the last attempt as it is left.
\<close>

fun context_to_sid_retry ::
  "hash_fns \<Rightarrow> attempt list \<Rightarrow> string \<Rightarrow> string option \<Rightarrow> u32 \<Rightarrow> mem \<Rightarrow> (rc \<times> u32 \<times> attempt \<times> mem) option" where
  "context_to_sid_retry H [] scontext2 str def_sid m = None"
| "context_to_sid_retry H ((policy, conv, target) # rest) scontext2 str def_sid m =
     (case string_to_context_struct (pol_policydb policy) (Some (pol_sidtab policy)) scontext2 def_sid m of
        (rc, c, m1) \<Rightarrow>
          (let forced = (case str of Some s \<Rightarrow> rc = Err EINVAL | None \<Rightarrow> False);
               c1 = (case str of Some s \<Rightarrow> if forced then c\<lparr>ctx_str := Some s, ctx_len := of_nat (length s + 1)\<rparr> else c | None \<Rightarrow> c)
           in if rc \<noteq> OK \<and> \<not> forced then Some (rc, SECSID_NULL, (policy, conv, target), m1)
              else case sidtab_context_to_sid H conv (pol_sidtab policy) target c1 m1 of
                     (rc', sid, s', target', m2) \<Rightarrow>
                       if rc' = Err ESTALE
                       then context_to_sid_retry H rest (scontext_garbled scontext2) str def_sid m2
                       else Some (rc', sid, (policy\<lparr>pol_sidtab := s'\<rparr>, conv, target'), m2)))"

text \<open>Before a policy is loaded the loop runs over the initial SIDs below the last one.\<close>

definition initial_context_to_sid :: "string \<Rightarrow> u32" where
  "initial_context_to_sid scontext =
     (case find (\<lambda>i. initial_sid_to_string ! i = Some scontext) [1..<unat SECINITSID_NUM] of
        Some i \<Rightarrow> of_nat i
      | None \<Rightarrow> 1)"

text \<open>
  \<open>security_context_to_sid_core\<close>: \<open>scontext\<close> are the first \<open>scontext_len\<close> characters of the argument up
  to a null character. Without a policy no attempt is made.
\<close>

definition security_context_to_sid_core ::
  "hash_fns \<Rightarrow> bool \<Rightarrow> attempt list \<Rightarrow> string \<Rightarrow> u32 \<Rightarrow> bool \<Rightarrow> mem \<Rightarrow> (rc \<times> u32 \<times> attempt option \<times> mem) option" where
  "security_context_to_sid_core H init attempts scontext def_sid force m =
     (if scontext = [] then Some (Err EINVAL, SECSID_NULL, None, m)
      else case kalloc m of
             (False, m1) \<Rightarrow> Some (Err ENOMEM, SECSID_NULL, None, m1)
           | (True, m1) \<Rightarrow>
               if \<not> init then Some (OK, initial_context_to_sid scontext, None, m1)
               else if force
               then (case kalloc m1 of
                       (False, m2) \<Rightarrow> Some (Err ENOMEM, SECSID_NULL, None, m2)
                     | (True, m2) \<Rightarrow>
                         map_option (\<lambda>(rc, sid, a, m'). (rc, sid, Some a, m'))
                           (context_to_sid_retry H attempts scontext (Some scontext) def_sid m2))
               else map_option (\<lambda>(rc, sid, a, m'). (rc, sid, Some a, m'))
                      (context_to_sid_retry H attempts scontext None def_sid m1))"

definition security_context_to_sid ::
  "hash_fns \<Rightarrow> bool \<Rightarrow> attempt list \<Rightarrow> string \<Rightarrow> mem \<Rightarrow> (rc \<times> u32 \<times> attempt option \<times> mem) option" where
  "security_context_to_sid H init attempts scontext m =
     security_context_to_sid_core H init attempts scontext SECSID_NULL False m"

definition security_context_to_sid_default ::
  "hash_fns \<Rightarrow> bool \<Rightarrow> attempt list \<Rightarrow> string \<Rightarrow> u32 \<Rightarrow> mem \<Rightarrow> (rc \<times> u32 \<times> attempt option \<times> mem) option" where
  "security_context_to_sid_default H init attempts scontext def_sid m =
     security_context_to_sid_core H init attempts scontext def_sid True m"

definition security_context_to_sid_force ::
  "hash_fns \<Rightarrow> bool \<Rightarrow> attempt list \<Rightarrow> string \<Rightarrow> mem \<Rightarrow> (rc \<times> u32 \<times> attempt option \<times> mem) option" where
  "security_context_to_sid_force H init attempts scontext m =
     security_context_to_sid_core H init attempts scontext SECSID_NULL True m"

section \<open>Conversion to a new policy\<close>

definition convert_context_handle_invalid_context :: "bool \<Rightarrow> rc" where
  "convert_context_handle_invalid_context enf = (if enf then Err EINVAL else OK)"

text \<open>The label \<open>bad\<close>: the context is kept as the string it has in the old policy.\<close>

definition convert_bad :: "policydb \<Rightarrow> context \<Rightarrow> context \<Rightarrow> mem \<Rightarrow> rc \<times> context \<times> mem" where
  "convert_bad oldp oldc newc m =
     (case context_struct_to_string oldp oldc True m of
        (Err e, _, _, m') \<Rightarrow> (Err e, newc, m')
      | (OK, s, len, m') \<Rightarrow> (OK, (context_destroy newc)\<lparr>ctx_str := s, ctx_len := len\<rparr>, m'))"

definition convert_mls :: "policydb \<Rightarrow> policydb \<Rightarrow> context \<Rightarrow> context \<Rightarrow> mem \<Rightarrow> rc \<times> context \<times> mem" where
  "convert_mls oldp newp oldc newc m =
     (if mls_enabled oldp \<and> mls_enabled newp then mls_convert_context oldp newp oldc newc m
      else if \<not> mls_enabled oldp \<and> mls_enabled newp
      then (case find (\<lambda>oc. oc_sid0 oc = SECINITSID_UNLABELED) (ocontexts newp OCON_ISID) of
              None \<Rightarrow> (Err EINVAL, newc, m)
            | Some oc \<Rightarrow> mls_range_set newc (ctx_range (oc_context0 oc)) m)
      else (OK, newc, m))"

definition services_convert_context :: "bool \<Rightarrow> policydb \<Rightarrow> policydb \<Rightarrow> context \<Rightarrow> mem \<Rightarrow> rc \<times> context \<times> mem" where
  "services_convert_context enf oldp newp oldc m =
     (case ctx_str oldc of
        Some str \<Rightarrow>
          (case kalloc m of
             (False, m1) \<Rightarrow> (Err ENOMEM, context_init, m1)
           | (True, m1) \<Rightarrow>
               (case string_to_context_struct newp None str SECSID_NULL m1 of
                  (Err EINVAL, _, m2) \<Rightarrow> (OK, context_init\<lparr>ctx_str := Some str, ctx_len := ctx_len oldc\<rparr>, m2)
                | (rc, newc, m2) \<Rightarrow> (rc, newc, m2)))
      | None \<Rightarrow>
          (case symtab_search (p_users newp) (sym_name oldp SYM_USERS (ctx_user oldc - 1)) of
             None \<Rightarrow> convert_bad oldp oldc context_init m
           | Some usrdatum \<Rightarrow>
               (case symtab_search (p_roles newp) (sym_name oldp SYM_ROLES (ctx_role oldc - 1)) of
                  None \<Rightarrow> convert_bad oldp oldc (context_init\<lparr>ctx_user := user_value usrdatum\<rparr>) m
                | Some role \<Rightarrow>
                    (case symtab_search (p_types newp) (sym_name oldp SYM_TYPES (ctx_type oldc - 1)) of
                       None \<Rightarrow>
                         convert_bad oldp oldc (context_init\<lparr>ctx_user := user_value usrdatum, ctx_role := role_value role\<rparr>) m
                     | Some typdatum \<Rightarrow>
                         (case convert_mls oldp newp oldc
                                 (context_init\<lparr>ctx_user := user_value usrdatum, ctx_role := role_value role,
                                    ctx_type := type_value typdatum\<rparr>) m of
                            (Err e, newc, m1) \<Rightarrow> convert_bad oldp oldc newc m1
                          | (OK, newc, m1) \<Rightarrow>
                              if \<not> policydb_context_isvalid newp newc \<and>
                                 convert_context_handle_invalid_context enf \<noteq> OK
                              then convert_bad oldp oldc newc m1
                              else (OK, newc, m1))))))"

section \<open>Parsing undoes printing\<close>

text \<open>The names of the user, role and type lead back to the values, and hold no colon.\<close>

definition names_ok :: "policydb \<Rightarrow> context \<Rightarrow> bool" where
  "names_ok p c \<longleftrightarrow>
     (let u = sym_name p SYM_USERS (ctx_user c - 1); r = sym_name p SYM_ROLES (ctx_role c - 1);
          t = sym_name p SYM_TYPES (ctx_type c - 1)
      in CHR '':'' \<notin> set u \<and> CHR '':'' \<notin> set r \<and> CHR '':'' \<notin> set t \<and>
         (\<exists>d. symtab_search (p_users p) u = Some d \<and> user_value d = ctx_user c) \<and>
         (\<exists>d. symtab_search (p_roles p) r = Some d \<and> role_value d = ctx_role c) \<and>
         (\<exists>d. symtab_search (p_types p) t = Some d \<and> type_value d = ctx_type c \<and> \<not> type_attribute d))"

definition range_ok :: "policydb \<Rightarrow> context \<Rightarrow> bool" where
  "range_ok p c \<longleftrightarrow>
     (if mls_enabled p then level_ok p (level0 (ctx_range c)) \<and> level_ok p (level1 (ctx_range c))
      else ctx_range c = \<lparr>level0 = level_init, level1 = level_init\<rparr>)"

lemma parse_names:
  assumes "names_ok p c" "rest = [] \<or> (\<exists>r. rest = '':'' @ r)"
    "mls_context_to_sid p (rest \<noteq> []) (tl rest)
       (context_init\<lparr>ctx_user := ctx_user c, ctx_role := ctx_role c, ctx_type := ctx_type c\<rparr>) s def_sid m = (OK, c', m')"
    "policydb_context_isvalid p c'"
  shows "parse_context p s (context_names p c @ rest) def_sid m = (OK, c', m')"
proof -
  let ?u = "sym_name p SYM_USERS (ctx_user c - 1)" and ?r = "sym_name p SYM_ROLES (ctx_role c - 1)"
    and ?t = "sym_name p SYM_TYPES (ctx_type c - 1)"
  have n: "CHR '':'' \<notin> set ?u" "CHR '':'' \<notin> set ?r" "CHR '':'' \<notin> set ?t"
    using assms(1) by (simp_all add: names_ok_def Let_def)
  obtain du dr dt where d: "symtab_search (p_users p) ?u = Some du" "user_value du = ctx_user c"
      "symtab_search (p_roles p) ?r = Some dr" "role_value dr = ctx_role c"
      "symtab_search (p_types p) ?t = Some dt" "type_value dt = ctx_type c" "\<not> type_attribute dt"
    using assms(1) by (auto simp: names_ok_def Let_def)
  have s1: "split_at (CHR '':'') (context_names p c @ rest) = (?u, Some (?r @ CHR '':'' # ?t @ rest))"
    using split_at_append [OF n(1), of "?r @ '':'' @ ?t @ rest"] by (simp add: context_names_def)
  have s2: "split_at (CHR '':'') (?r @ CHR '':'' # ?t @ rest) = (?r, Some (?t @ rest))"
    using split_at_append [OF n(2), of "?t @ rest"] by simp
  have s3: "split_at (CHR '':'') (?t @ rest) = (?t, if rest = [] then None else Some (tl rest))"
    using assms(2) split_at_absent [OF n(3)] split_at_append [OF n(3)] by auto
  show ?thesis
    using assms(3,4) s1 s2 s3 by (cases "rest = []") (simp_all add: parse_context_def d Let_def)
qed

lemma string_roundtrip:
  assumes "names_ok p c" "range_ok p c" "policydb_context_isvalid p c" "ctx_len c = 0" "ctx_str c = None" "ample m"
  shows "\<exists>m'. string_to_context_struct p s (mls_sid_to_context p c (context_names p c)) SECSID_NULL m = (OK, c, m')"
proof -
  let ?c0 = "context_init\<lparr>ctx_user := ctx_user c, ctx_role := ctx_role c, ctx_type := ctx_type c\<rparr>"
  have c: "?c0\<lparr>ctx_range := ctx_range c\<rparr> = c"
    using assms(4,5) by (cases c) (simp add: context_init_def)
  have pr: "mls_sid_to_context p c (context_names p c) = context_names p c @ mls_sid_to_context p c []"
    using mls_sid_to_context_append [of p c "context_names p c" "[]"] by simp
  have "\<exists>m'. parse_context p s (context_names p c @ mls_sid_to_context p c []) SECSID_NULL m = (OK, c, m')"
  proof (cases "mls_enabled p")
    case True
    then obtain r m' where "mls_sid_to_context p c [] = '':'' @ r"
        "mls_context_to_sid p True r ?c0 s SECSID_NULL m = (OK, ?c0\<lparr>ctx_range := ctx_range c\<rparr>, m')"
      using print_parse_range [of p c m ?c0 s SECSID_NULL] assms(2,6) by (auto simp: range_ok_def context_init_def)
    then show ?thesis
      using parse_names [OF assms(1), of "'':'' @ r" s SECSID_NULL m c m'] assms(3) c by auto
  next
    case False
    then have "mls_sid_to_context p c [] = []" "?c0 = c"
      using assms(2) c by (simp_all add: mls_sid_to_context_def range_ok_def context_init_def)
    then show ?thesis
      using parse_names [OF assms(1), of "[]" s SECSID_NULL m c m] assms(3) False
      by (simp add: mls_context_to_sid_def)
  qed
  then show ?thesis
    by (auto simp: string_to_context_struct_def pr)
qed

lemma context_to_sid_of_entry:
  assumes "sidtab_ok H s" "e \<in> set (sd_context_to_sid s)"
  shows "context_to_sid s (se_context e) (context_compute_hash H (se_context e)) = se_sid e"
proof -
  have refl: "context_cmp (se_context e) (se_context e)"
    using assms by (intro context_cmp_refl) (auto simp: sidtab_ok_def)
  then have "context_to_sid s (se_context e) (context_compute_hash H (se_context e)) \<noteq> 0"
    using context_to_sid_missing [OF assms(1) _ assms(2)] by blast
  from context_to_sid_found [OF assms(1) this] table_unique [OF assms(1) _ assms(2)] show ?thesis
    by blast
qed

section \<open>Properties\<close>

text \<open>
  C15. A valid context survives printing and parsing: with memory its string, whose announced length is
  exactly that of the string with its null character, parses under the same policy to the same
  context.
\<close>

theorem context_string_roundtrip:
  assumes "names_ok p c" "range_ok p c" "policydb_context_isvalid p c" "ctx_len c = 0" "ctx_str c = None" "ample m"
  shows "\<exists>str len m1 m2. context_struct_to_string p c True m = (OK, Some str, len, m1) \<and> len = of_nat (length str + 1) \<and>
    string_to_context_struct p s str SECSID_NULL m1 = (OK, c, m2)"
proof -
  obtain m1 where m: "kalloc m = (True, m1)" "ample m1"
    using kalloc_ampleE [OF assms(6)] by blast
  have "length (mls_sid_to_context p c (context_names p c)) = length (context_names p c) + mls_compute_context_len p c"
    using mls_sid_to_context_append [of p c "context_names p c" "[]"] mls_len_print by simp
  then show ?thesis
    using string_roundtrip [OF assms(1-5) m(2), of s] assms(4) m(1)
    by (auto simp: context_struct_to_string_def Let_def context_names_def)
qed

text \<open>A policy with one user, the role of objects and one type.\<close>

definition label_policydb :: policydb where
  "label_policydb = policydb_init\<lparr>
     p_users := \<lparr>st_table = \<lparr>ht_htable = [[(''u'', \<lparr>user_value = 1, user_bounds = 0, user_roles = ebitmap_init,
       user_range = \<lparr>level0 = level_init, level1 = level_init\<rparr>, user_dfltlevel = level_init\<rparr>)]], ht_size = 1, ht_nel = 1\<rparr>, st_nprim = 1\<rparr>,
     p_roles := \<lparr>st_table = \<lparr>ht_htable = [[(''object_r'', \<lparr>role_value = 1, role_bounds = 0, role_dominates = ebitmap_init,
       role_types = ebitmap_init\<rparr>)]], ht_size = 1, ht_nel = 1\<rparr>, st_nprim = 1\<rparr>,
     p_types := \<lparr>st_table = \<lparr>ht_htable = [[(''t'', sample_type 1 0)]], ht_size = 1, ht_nel = 1\<rparr>, st_nprim = 1\<rparr>,
     sym_val_to_name := (\<lambda>s. if s = SYM_USERS then [Some ''u''] else if s = SYM_ROLES then [Some ''object_r'']
       else if s = SYM_TYPES then [Some ''t''] else [])\<rparr>"

lemma label_ok:
  "names_ok label_policydb (server_ctx 1)" "range_ok label_policydb (server_ctx 1)"
  "policydb_context_isvalid label_policydb (server_ctx 1)" "ctx_len (server_ctx 1) = 0" "ctx_str (server_ctx 1) = None"
  by (simp_all add: names_ok_def range_ok_def policydb_context_isvalid_def mls_context_isvalid_def label_policydb_def server_ctx_def
      context_init_def sym_name_def symtab_search_def hashtab_search_def symcmp_def sample_type_def Let_def policydb_init_def)

theorem context_string_roundtrip_witness:
  "\<exists>str len m1 m2. context_struct_to_string label_policydb (server_ctx 1) True [] = (OK, Some str, len, m1) \<and>
     len = of_nat (length str + 1) \<and> string_to_context_struct label_policydb None str SECSID_NULL m1 = (OK, server_ctx 1, m2)"
  by (rule context_string_roundtrip [OF label_ok]) simp



text \<open>
  The function starts again when the table was frozen, but with the string that the first attempt
  ended at its first colon: whatever the new policy is, the second attempt fails.
\<close>

lemma retry_parses_garbled_string:
  assumes "string_to_context_struct (pol_policydb pol) (Some (pol_sidtab pol)) scontext def_sid m = (OK, c, m1)"
    "sidtab_context_to_sid H conv (pol_sidtab pol) target c m1 = (Err ESTALE, sid, s', target', m2)"
  shows "\<exists>m3. context_to_sid_retry H ((pol, conv, target) # (pol2, conv2, target2) # rest) scontext None def_sid m =
    Some (Err EINVAL, SECSID_NULL, (pol2, conv2, target2), m3)"
proof -
  have "CHR '':'' \<notin> set (scontext_garbled scontext)"
    by (auto simp: scontext_garbled_def split_at_def dest: set_takeWhileD split: if_splits)
  then have "split_at (CHR '':'') (scontext_garbled scontext) = (scontext_garbled scontext, None)"
    by (rule split_at_absent)
  then have "string_to_context_struct p s (scontext_garbled scontext) def_sid m = (Err EINVAL, context_destroy context_init, m)" for p s m
    by (simp add: string_to_context_struct_def parse_context_def)
  then show ?thesis
    using assms by simp
qed

text \<open>
  Before a policy is loaded the string of the last initial SID does not lead back to it: the loop over
  the initial SIDs stops before the last one, and the answer is the SID of the kernel.
\<close>

lemma initial_sid_devnull:
  "security_get_initial_sid_context SECINITSID_NUM = Some ''devnull'' \<and> initial_context_to_sid ''devnull'' = 1"
proof -
  have "find (\<lambda>i. initial_sid_to_string ! i = Some ''devnull'') [1..<27] = None"
    by (auto simp: find_upt_None_iff initial_sid_to_string_def nth_append nth_Cons' split: if_splits)
  then show ?thesis
    by (simp add: initial_context_to_sid_def security_get_initial_sid_context_def) (simp add: initial_sid_to_string_def nth_append)
qed

end
