(* ===== verification/Compute_Sid.thy ===== *)
theory Compute_Sid
  imports Context_Strings
begin

text \<open>
  Labels of new and relabelled objects (\<open>security_compute_sid\<close> of \<open>ss/services.c\<close> and its entry points),
  the copy of the MLS fields of a context, the resolution of the labels of a network peer, and the
  SIDs a user can be given at login.

  \<open>is_socket\<close> is \<open>security_is_socket_class\<close>, which the build generates, and \<open>kernel_process\<close> the value
  that the build gives to \<open>SECCLASS_PROCESS\<close>. The attempts are those of \<open>Context_Strings\<close>. The audit
  records are not modelled.
\<close>

section \<open>The context of a new object\<close>

definition compute_sid_handle_invalid_context :: "bool \<Rightarrow> rc" where
  "compute_sid_handle_invalid_context enf = (if \<not> enf then OK else Err EACCES)"

definition filename_compute_type ::
  "(u8 \<Rightarrow> u64 \<Rightarrow> u64) \<Rightarrow> policydb \<Rightarrow> u32 \<Rightarrow> u32 \<Rightarrow> u32 \<Rightarrow> u16 \<Rightarrow> string \<Rightarrow> u32" where
  "filename_compute_type pnh p newtype stype ttype tclass objname =
     (if \<not> ebitmap_get_bit (filename_trans_ttypes p) (unat ttype) then newtype
      else case policydb_filenametr_search pnh p \<lparr>ftk_ttype = ttype, ftk_tclass = tclass, ftk_name = objname\<rparr> of
             None \<Rightarrow> newtype
           | Some data \<Rightarrow>
               (case find (\<lambda>datum. ebitmap_get_bit (ft_stypes datum) (unat (stype - 1))) data of
                  None \<Rightarrow> newtype
                | Some datum \<Rightarrow> ft_otype datum))"

text \<open>The class, when the policy has it; a null structure counts as no class here as in the code.\<close>

definition new_class :: "policydb \<Rightarrow> u16 \<Rightarrow> class_datum option" where
  "new_class p tclass =
     (if tclass \<noteq> 0 \<and> ucast tclass \<le> st_nprim (p_classes p) then val_to_struct (class_val_to_struct p) (ucast tclass) else None)"

definition new_user :: "class_datum option \<Rightarrow> u16 \<Rightarrow> context \<Rightarrow> context \<Rightarrow> u32" where
  "new_user cladatum spec scontext tcontext =
     (if spec = AVTAB_TRANSITION \<or> spec = AVTAB_CHANGE
      then case cladatum of
             Some d \<Rightarrow> if default_user d = DEFAULT_TARGET then ctx_user tcontext else ctx_user scontext
           | None \<Rightarrow> ctx_user scontext
      else if spec = AVTAB_MEMBER then ctx_user tcontext
      else 0)"

text \<open>The defaults of the role and of the type; \<open>proc\<close> says that the object is a process or a socket.\<close>

definition new_role :: "class_datum option \<Rightarrow> bool \<Rightarrow> context \<Rightarrow> context \<Rightarrow> u32" where
  "new_role cladatum proc scontext tcontext =
     (let other = (if proc then ctx_role scontext else OBJECT_R_VAL)
      in case cladatum of
           Some d \<Rightarrow> if default_role d = DEFAULT_SOURCE then ctx_role scontext
                     else if default_role d = DEFAULT_TARGET then ctx_role tcontext else other
         | None \<Rightarrow> other)"

definition new_type :: "class_datum option \<Rightarrow> bool \<Rightarrow> context \<Rightarrow> context \<Rightarrow> u32" where
  "new_type cladatum proc scontext tcontext =
     (let other = (if proc then ctx_type scontext else ctx_type tcontext)
      in case cladatum of
           Some d \<Rightarrow> if default_type d = DEFAULT_SOURCE then ctx_type scontext
                     else if default_type d = DEFAULT_TARGET then ctx_type tcontext else other
         | None \<Rightarrow> other)"

text \<open>The rule that gives the type: the first of the unconditional table, or the first enabled one.\<close>

definition type_rule :: "policydb \<Rightarrow> u16 \<Rightarrow> context \<Rightarrow> context \<Rightarrow> u16 \<Rightarrow> avtab_node option" where
  "type_rule p spec scontext tcontext tclass =
     (let avkey = \<lparr>source_type = ucast (ctx_type scontext), target_type = ucast (ctx_type tcontext), target_class = tclass,
                    specified = spec\<rparr>
      in case avtab_search_node (te_avtab p) avkey of
           node # _ \<Rightarrow> Some node
         | [] \<Rightarrow> find (\<lambda>node. specified (an_key node) AND AVTAB_ENABLED \<noteq> 0) (avtab_for_each (te_cond_avtab p) avkey))"

definition compute_new_context ::
  "(u8 \<Rightarrow> u64 \<Rightarrow> u64) \<Rightarrow> policydb \<Rightarrow> context \<Rightarrow> context \<Rightarrow> u16 \<Rightarrow> u16 \<Rightarrow> string option \<Rightarrow> bool \<Rightarrow> mem \<Rightarrow> rc \<times> context \<times> mem" where
  "compute_new_context pnh p scontext tcontext tclass spec objname sock m =
     (let cladatum = new_class p tclass;
          proc = (tclass = process_class p \<or> sock);
          type0 = new_type cladatum proc scontext tcontext;
          type1 = (case type_rule p spec scontext tcontext tclass of Some node \<Rightarrow> node_data node | None \<Rightarrow> type0);
          type2 = (case objname of
                     Some name \<Rightarrow> filename_compute_type pnh p type1 (ctx_type scontext) (ctx_type tcontext) tclass name
                   | None \<Rightarrow> type1);
          role0 = new_role cladatum proc scontext tcontext;
          role1 = (if spec AND AVTAB_TRANSITION \<noteq> 0
                   then case policydb_roletr_search p \<lparr>rtk_role = ctx_role scontext, rtk_type = ctx_type tcontext,
                               rtk_tclass = ucast tclass\<rparr> of
                          Some r \<Rightarrow> r
                        | None \<Rightarrow> role0
                   else role0)
      in mls_compute_sid p scontext tcontext tclass (ucast spec)
           (context_init\<lparr>ctx_user := new_user cladatum spec scontext tcontext, ctx_role := role1, ctx_type := type2\<rparr>) sock m)"

fun compute_sid_retry ::
  "hash_fns \<Rightarrow> (u8 \<Rightarrow> u64 \<Rightarrow> u64) \<Rightarrow> (u16 \<Rightarrow> bool) \<Rightarrow> bool \<Rightarrow> attempt list \<Rightarrow> u32 \<Rightarrow> u32 \<Rightarrow> u16 \<Rightarrow> u16 \<Rightarrow> string option \<Rightarrow> bool \<Rightarrow>
   mem \<Rightarrow> (rc \<times> u32 \<times> attempt \<times> mem) option" where
  "compute_sid_retry H pnh is_socket enf [] ssid tsid orig_tclass spec objname kern m = None"
| "compute_sid_retry H pnh is_socket enf ((policy, conv, target) # rest) ssid tsid orig_tclass spec objname kern m =
     (let tclass = (if kern then unmap_class (pol_map policy) orig_tclass else orig_tclass);
          sock = is_socket (if kern then orig_tclass else map_class (pol_map policy) tclass);
          p = pol_policydb policy; s = pol_sidtab policy; a = (policy, conv, target)
      in case (sidtab_search s ssid, sidtab_search s tsid) of
           (Some scontext, Some tcontext) \<Rightarrow>
             (case compute_new_context pnh p scontext tcontext tclass spec objname sock m of
                (Err e, _, m1) \<Rightarrow> Some (Err e, 0, a, m1)
              | (OK, newcontext, m1) \<Rightarrow>
                  (let rc = (if policydb_context_isvalid p newcontext then OK else compute_sid_handle_invalid_context enf)
                   in if rc \<noteq> OK then Some (rc, 0, a, m1)
                      else case sidtab_context_to_sid H conv s target newcontext m1 of
                             (rc', sid, s', target', m2) \<Rightarrow>
                               if rc' = Err ESTALE
                               then compute_sid_retry H pnh is_socket enf rest ssid tsid orig_tclass spec objname kern m2
                               else Some (rc', sid, (policy\<lparr>pol_sidtab := s'\<rparr>, conv, target'), m2)))
         | _ \<Rightarrow> Some (Err EINVAL, 0, a, m))"

definition security_compute_sid ::
  "hash_fns \<Rightarrow> (u8 \<Rightarrow> u64 \<Rightarrow> u64) \<Rightarrow> (u16 \<Rightarrow> bool) \<Rightarrow> u16 \<Rightarrow> selinux_state \<Rightarrow> attempt list \<Rightarrow> u32 \<Rightarrow> u32 \<Rightarrow> u16 \<Rightarrow> u16 \<Rightarrow>
   string option \<Rightarrow> bool \<Rightarrow> mem \<Rightarrow> (rc \<times> u32 \<times> attempt option \<times> mem) option" where
  "security_compute_sid H pnh is_socket kernel_process st attempts ssid tsid orig_tclass spec objname kern m =
     (if \<not> initialized st
      then Some (OK, if orig_tclass = kernel_process then ssid else tsid, None, m)
      else map_option (\<lambda>(rc, sid, a, m'). (rc, sid, Some a, m'))
             (compute_sid_retry H pnh is_socket (enforcing st) attempts ssid tsid orig_tclass spec objname kern m))"

definition security_transition_sid where
  "security_transition_sid H pnh is_socket kp st attempts ssid tsid tclass qstr m =
     security_compute_sid H pnh is_socket kp st attempts ssid tsid tclass AVTAB_TRANSITION qstr True m"

definition security_transition_sid_user where
  "security_transition_sid_user H pnh is_socket kp st attempts ssid tsid tclass objname m =
     security_compute_sid H pnh is_socket kp st attempts ssid tsid tclass AVTAB_TRANSITION objname False m"

definition security_member_sid where
  "security_member_sid H pnh is_socket kp st attempts ssid tsid tclass m =
     security_compute_sid H pnh is_socket kp st attempts ssid tsid tclass AVTAB_MEMBER None False m"

definition security_change_sid where
  "security_change_sid H pnh is_socket kp st attempts ssid tsid tclass m =
     security_compute_sid H pnh is_socket kp st attempts ssid tsid tclass AVTAB_CHANGE None False m"

section \<open>Copies of MLS fields\<close>

fun sid_mls_copy_retry ::
  "hash_fns \<Rightarrow> bool \<Rightarrow> attempt list \<Rightarrow> u32 \<Rightarrow> u32 \<Rightarrow> mem \<Rightarrow> (rc \<times> u32 \<times> attempt \<times> mem) option" where
  "sid_mls_copy_retry H enf [] sid mls_sid m = None"
| "sid_mls_copy_retry H enf ((policy, conv, target) # rest) sid mls_sid m =
     (let p = pol_policydb policy; s = pol_sidtab policy; a = (policy, conv, target)
      in if \<not> mls_enabled p then Some (OK, sid, a, m)
         else case (sidtab_search s sid, sidtab_search s mls_sid) of
                (Some context1, Some context2) \<Rightarrow>
                  (case mls_context_cpy (context_init\<lparr>ctx_user := ctx_user context1, ctx_role := ctx_role context1,
                          ctx_type := ctx_type context1\<rparr>) context2 m of
                     (Err e, _, m1) \<Rightarrow> Some (Err e, 0, a, m1)
                   | (OK, newcon, m1) \<Rightarrow>
                       (let rc = (if policydb_context_isvalid p newcon then OK else convert_context_handle_invalid_context enf)
                        in if rc \<noteq> OK then Some (rc, 0, a, m1)
                           else case sidtab_context_to_sid H conv s target newcon m1 of
                                  (rc', sid', s', target', m2) \<Rightarrow>
                                    if rc' = Err ESTALE then sid_mls_copy_retry H enf rest sid mls_sid m2
                                    else Some (rc', sid', (policy\<lparr>pol_sidtab := s'\<rparr>, conv, target'), m2)))
              | _ \<Rightarrow> Some (Err EINVAL, 0, a, m))"

definition security_sid_mls_copy ::
  "hash_fns \<Rightarrow> selinux_state \<Rightarrow> attempt list \<Rightarrow> u32 \<Rightarrow> u32 \<Rightarrow> mem \<Rightarrow> (rc \<times> u32 \<times> attempt option \<times> mem) option" where
  "security_sid_mls_copy H st attempts sid mls_sid m =
     (if \<not> initialized st then Some (OK, sid, None, m)
      else map_option (\<lambda>(rc, sid', a, m'). (rc, sid', Some a, m'))
             (sid_mls_copy_retry H (enforcing st) attempts sid mls_sid m))"

section \<open>Peer labels\<close>

text \<open>\<open>mls_context_cmp\<close> compares the ranges; \<open>unlabeled\<close> says that the NetLabel type is the fallback.\<close>

definition security_net_peersid_resolve :: "selinux_state \<Rightarrow> u32 \<Rightarrow> bool \<Rightarrow> u32 \<Rightarrow> (rc \<times> u32) option" where
  "security_net_peersid_resolve st nlbl_sid unlabeled xfrm_sid =
     (if xfrm_sid = SECSID_NULL then Some (OK, nlbl_sid)
      else if nlbl_sid = SECSID_NULL \<or> unlabeled then Some (OK, xfrm_sid)
      else if \<not> initialized st then Some (OK, SECSID_NULL)
      else case state_policy st of
             None \<Rightarrow> None
           | Some policy \<Rightarrow>
               if \<not> mls_enabled (pol_policydb policy) then Some (OK, SECSID_NULL)
               else case (sidtab_search (pol_sidtab policy) nlbl_sid, sidtab_search (pol_sidtab policy) xfrm_sid) of
                      (Some nlbl_ctx, Some xfrm_ctx) \<Rightarrow>
                        if mls_context_cmp nlbl_ctx xfrm_ctx then Some (OK, xfrm_sid) else Some (Err EACCES, SECSID_NULL)
                    | _ \<Rightarrow> Some (Err EINVAL, SECSID_NULL))"

section \<open>SIDs of a user\<close>

abbreviation SIDS_NEL :: nat where "SIDS_NEL \<equiv> 25"

text \<open>
  The body of the loops: \<open>Inl\<close> of a status leaves them, with \<open>ESTALE\<close> for a new attempt. The array of
  SIDs grows by \<open>SIDS_NEL\<close> places when it is full, with an allocation that may fail.
\<close>

definition user_sid_step ::
  "hash_fns \<Rightarrow> policydb \<Rightarrow> convert_fn \<Rightarrow> context \<Rightarrow> user_datum \<Rightarrow> context \<Rightarrow>
   u32 list \<times> nat \<times> sidtab \<times> sidtab \<times> mem \<Rightarrow> (errno \<times> nat \<times> sidtab \<times> sidtab \<times> mem) + (u32 list \<times> nat \<times> sidtab \<times> sidtab \<times> mem)" where
  "user_sid_step H p conv fromcon user usercon st =
     (case st of (mysids, maxnel, s, target, m) \<Rightarrow>
        (case mls_setup_user_range p fromcon user usercon of
           (Err _, _) \<Rightarrow> Inr st
         | (OK, usercon') \<Rightarrow>
             (case sidtab_context_to_sid H conv s target usercon' m of
                (Err e, _, s', target', m1) \<Rightarrow> Inl (e, maxnel, s', target', m1)
              | (OK, sid, s', target', m1) \<Rightarrow>
                  if length mysids < maxnel then Inr (mysids @ [sid], maxnel, s', target', m1)
                  else case kalloc m1 of
                         (False, m2) \<Rightarrow> Inl (ENOMEM, maxnel + SIDS_NEL, s', target', m2)
                       | (True, m2) \<Rightarrow> Inr (mysids @ [sid], maxnel + SIDS_NEL, s', target', m2))))"

text \<open>The contexts of the loops, in order; a role without a structure is a bug.\<close>

definition user_contexts :: "policydb \<Rightarrow> user_datum \<Rightarrow> context list option" where
  "user_contexts p user =
     (if list_all (\<lambda>i. val_to_struct (role_val_to_struct p) (i + 1) \<noteq> None) (ebitmap_positive_bits (user_roles user))
      then Some (concat (map (\<lambda>i. map (\<lambda>j. context_init\<lparr>ctx_user := user_value user, ctx_role := i + 1, ctx_type := j + 1\<rparr>)
             (ebitmap_positive_bits (role_types (the (val_to_struct (role_val_to_struct p) (i + 1))))))
           (ebitmap_positive_bits (user_roles user))))
      else None)"

fun user_sid_loop ::
  "hash_fns \<Rightarrow> policydb \<Rightarrow> convert_fn \<Rightarrow> context \<Rightarrow> user_datum \<Rightarrow> context list \<Rightarrow>
   u32 list \<times> nat \<times> sidtab \<times> sidtab \<times> mem \<Rightarrow> (errno \<times> nat \<times> sidtab \<times> sidtab \<times> mem) + (u32 list \<times> nat \<times> sidtab \<times> sidtab \<times> mem)" where
  "user_sid_loop H p conv fromcon user [] st = Inr st"
| "user_sid_loop H p conv fromcon user (c # cs) st =
     (case user_sid_step H p conv fromcon user c st of
        Inl e \<Rightarrow> Inl e
      | Inr st' \<Rightarrow> user_sid_loop H p conv fromcon user cs st')"

text \<open>The outer loop over the attempts: the status with the SIDs before they are filtered.\<close>

fun user_sids_retry ::
  "hash_fns \<Rightarrow> attempt list \<Rightarrow> u32 \<Rightarrow> string \<Rightarrow> nat \<Rightarrow> mem \<Rightarrow> (rc \<times> u32 list \<times> attempt \<times> mem) option" where
  "user_sids_retry H [] fromsid username maxnel m = None"
| "user_sids_retry H ((policy, conv, target) # rest) fromsid username maxnel m =
     (let p = pol_policydb policy; a = (policy, conv, target)
      in case (sidtab_search (pol_sidtab policy) fromsid, symtab_search (p_users p) username) of
           (Some fromcon, Some user) \<Rightarrow>
             (case user_contexts p user of
                None \<Rightarrow> None
              | Some cs \<Rightarrow>
                  (case user_sid_loop H p conv fromcon user cs ([], maxnel, pol_sidtab policy, target, m) of
                     Inl (e, maxnel', s', target', m') \<Rightarrow>
                       if e = ESTALE then user_sids_retry H rest fromsid username maxnel' m'
                       else Some (Err e, [], (policy\<lparr>pol_sidtab := s'\<rparr>, conv, target'), m')
                   | Inr (mysids, _, s', target', m') \<Rightarrow>
                       Some (OK, mysids, (policy\<lparr>pol_sidtab := s'\<rparr>, conv, target'), m')))
         | _ \<Rightarrow> Some (Err EINVAL, [], a, m))"

text \<open>
  \<open>security_get_user_sids\<close>; \<open>may_transition\<close> is the question to the access vector cache whether the
  process may make the transition.
\<close>

definition security_get_user_sids ::
  "hash_fns \<Rightarrow> (u32 \<Rightarrow> u32 \<Rightarrow> bool) \<Rightarrow> selinux_state \<Rightarrow> attempt list \<Rightarrow> u32 \<Rightarrow> string \<Rightarrow> mem \<Rightarrow> (rc \<times> u32 list \<times> mem) option" where
  "security_get_user_sids H may_transition st attempts fromsid username m =
     (if \<not> initialized st then Some (OK, [], m)
      else case kalloc m of
             (False, m1) \<Rightarrow> Some (Err ENOMEM, [], m1)
           | (True, m1) \<Rightarrow>
               (case user_sids_retry H attempts fromsid username SIDS_NEL m1 of
                  None \<Rightarrow> None
                | Some (rc, mysids, _, m2) \<Rightarrow>
                    if rc \<noteq> OK \<or> mysids = [] then Some (rc, [], m2)
                    else case kalloc m2 of
                           (False, m3) \<Rightarrow> Some (Err ENOMEM, [], m3)
                         | (True, m3) \<Rightarrow> Some (OK, filter (may_transition fromsid) mysids, m3)))"

section \<open>What the MLS step leaves alone\<close>

definition same_labels :: "context \<Rightarrow> context \<Rightarrow> bool" where
  "same_labels c c' \<longleftrightarrow> ctx_user c' = ctx_user c \<and> ctx_role c' = ctx_role c \<and> ctx_type c' = ctx_type c \<and>
     ctx_len c' = ctx_len c \<and> ctx_str c' = ctx_str c"

lemma same_labels_simps [simp]:
  "same_labels c c" "same_labels c (set_level0 l c') \<longleftrightarrow> same_labels c c'" "same_labels c (set_level1 l c') \<longleftrightarrow> same_labels c c'"
  by (simp_all add: same_labels_def set_level0_def set_level1_def)

lemma levels_cpy_labels: "same_labels dst (fst (snd (mls_levels_cpy dst low high m)))"
  by (simp add: mls_levels_cpy_def split: prod.split option.split)

lemma glblub_labels: "same_labels dst (fst (snd (mls_context_glblub dst c1 c2 m)))"
  by (simp add: mls_context_glblub_def Let_def split: prod.split option.split)

lemma range_set_labels: "same_labels c (fst (snd (mls_range_set c r m)))"
  by (simp add: mls_range_set_def split: prod.split option.split)

lemma compute_sid_labels: "same_labels c (fst (snd (mls_compute_sid p s t tclass spec c sock m)))"
proof -
  have cpy: "same_labels dst (fst (snd (mls_context_cpy dst src m)))" "same_labels dst (fst (snd (mls_context_cpy_low dst src m)))"
      "same_labels dst (fst (snd (mls_context_cpy_high dst src m)))" for dst src m
    by (simp_all add: mls_context_cpy_def mls_context_cpy_low_def mls_context_cpy_high_def levels_cpy_labels)
  have change: "same_labels c (fst (snd (if q then mls_context_cpy c s m else mls_context_cpy_low c s m)))" for q
    by (simp add: cpy)
  have default: "same_labels c (fst (snd (if dr = DEFAULT_SOURCE_LOW then mls_context_cpy_low c s m
      else if dr = DEFAULT_SOURCE_HIGH then mls_context_cpy_high c s m
      else if dr = DEFAULT_SOURCE_LOW_HIGH then mls_context_cpy c s m
      else if dr = DEFAULT_TARGET_LOW then mls_context_cpy_low c t m
      else if dr = DEFAULT_TARGET_HIGH then mls_context_cpy_high c t m
      else if dr = DEFAULT_TARGET_LOW_HIGH then mls_context_cpy c t m
      else if dr = DEFAULT_GLBLUB then mls_context_glblub c s t m
      else if q then mls_context_cpy c s m else mls_context_cpy_low c s m)))" for dr :: nat and q
    by (simp add: cpy glblub_labels)
  show ?thesis
  proof (cases "mls_enabled p \<and> spec = ucast AVTAB_TRANSITION")
    case True
    then show ?thesis
      using default range_set_labels by (cases "policydb_rangetr_search p \<lparr>rt_source_type = ctx_type s, rt_target_type = ctx_type t,
          rt_target_class = ucast tclass\<rparr>") (simp_all only: mls_compute_sid_def Let_def refl simp_thms if_True if_False option.case)
  next
    case False
    then show ?thesis
      using change cpy by (auto simp: mls_compute_sid_def Let_def)
  qed
qed

lemma new_context_labels:
  assumes "compute_new_context pnh p s t tclass spec objname sock m = (OK, c, m')"
  shows "ctx_len c = 0" "ctx_str c = None" "ctx_user c = new_user (new_class p tclass) spec s t"
proof -
  obtain c0 where c0: "mls_compute_sid p s t tclass (ucast spec) c0 sock m = (OK, c, m')" "ctx_len c0 = 0" "ctx_str c0 = None"
      "ctx_user c0 = new_user (new_class p tclass) spec s t"
    using assms unfolding compute_new_context_def Let_def by (rule that) (simp_all add: context_init_def)
  have "same_labels c0 c"
    using compute_sid_labels [of c0 p s t tclass "ucast spec" sock m] c0(1) by simp
  then show "ctx_len c = 0" "ctx_str c = None" "ctx_user c = new_user (new_class p tclass) spec s t"
    using c0(2-4) by (simp_all add: same_labels_def)
qed

section \<open>Properties\<close>

text \<open>
  C5. In enforcing mode every label that is given to a new object is valid in the policy that computed
  it: when \<open>security_compute_sid\<close> succeeds after any number of attempts, the SID leads, in the table of
  the last attempt, to a context equal to the one the rules give, and that context is valid.
\<close>

theorem compute_sid_valid:
  assumes "compute_sid_retry H pnh is_socket True attempts ssid tsid orig spec objname kern m = Some (OK, sid, (pol', conv, target'), m')"
    and "\<forall>a \<in> set attempts. sidtab_ok H (pol_sidtab (fst a)) \<and> unat (sd_count (pol_sidtab (fst a))) < 2 ^ 32 - 28"
  shows "\<exists>pol target sc tc c m1 m2. (pol, conv, target) \<in> set attempts \<and> pol_policydb pol' = pol_policydb pol \<and>
    sidtab_search (pol_sidtab pol) ssid = Some sc \<and> sidtab_search (pol_sidtab pol) tsid = Some tc \<and>
    compute_new_context pnh (pol_policydb pol) sc tc (if kern then unmap_class (pol_map pol) orig else orig) spec objname
      (is_socket (if kern then orig else map_class (pol_map pol) orig)) m1 = (OK, c, m2) \<and>
    policydb_context_isvalid (pol_policydb pol) c \<and>
    (\<exists>c'. sidtab_search_force (pol_sidtab pol') sid = Some c' \<and> context_cmp c' c)"
  using assms
proof (induction attempts arbitrary: m)
  case Nil
  then show ?case by simp
next
  case (Cons a attempts)
  obtain pol cv target where a: "a = (pol, cv, target)" by (cases a)
  let ?p = "pol_policydb pol" and ?tclass = "if kern then unmap_class (pol_map pol) orig else orig"
    and ?sock = "is_socket (if kern then orig else map_class (pol_map pol) orig)"
  obtain sc tc where st: "sidtab_search (pol_sidtab pol) ssid = Some sc" "sidtab_search (pol_sidtab pol) tsid = Some tc"
    using Cons.prems(1) by (auto simp: a Let_def split: option.splits)
  obtain c m1 where c: "compute_new_context pnh ?p sc tc ?tclass spec objname ?sock m = (OK, c, m1)" "policydb_context_isvalid ?p c"
    using Cons.prems(1) st
    by (auto simp: a Let_def compute_sid_handle_invalid_context_def split: prod.splits option.splits if_splits)
  obtain rc sid' s' t' m2 where r: "sidtab_context_to_sid H cv (pol_sidtab pol) target c m1 = (rc, sid', s', t', m2)"
    by (metis prod_cases5)
  show ?case
  proof (cases "rc = Err ESTALE")
    case True
    then have "compute_sid_retry H pnh is_socket True attempts ssid tsid orig spec objname kern m2 =
        Some (OK, sid, (pol', conv, target'), m')"
      using Cons.prems(1) st c r by (cases kern) (simp_all add: a Let_def)
    from Cons.IH [OF this] Cons.prems(2) show ?thesis
      by (meson list.set_intros(2))
  next
    case False
    then have res: "rc = OK" "sid' = sid" "pol' = pol\<lparr>pol_sidtab := s'\<rparr>" "conv = cv" "target' = t'"
      using Cons.prems(1) st c r by (cases kern; simp add: a Let_def)+
    have "context_str_ok c"
      using new_context_labels [OF c(1)] by (simp add: context_str_ok_def)
    then obtain e where "e \<in> set (sd_context_to_sid s')" "se_sid e = sid" "context_cmp (se_context e) c" "sidtab_ok H s'"
      using context_to_sid_cases [OF _ _ _ r] Cons.prems(2) res by (auto simp: a)
    then have "sidtab_search_force (pol_sidtab pol') sid = Some (se_context e)" "context_cmp (se_context e) c"
      using search_force_entry by (auto simp: sidtab_ok_def sidtab_search_force_def res)
    moreover have "(pol, conv, target) \<in> set (a # attempts)" "pol_policydb pol' = ?p"
      using res by (simp_all add: a)
    ultimately show ?thesis
      using st c by blast
  qed
qed

definition label_policy :: selinux_policy where
  "label_policy =
     \<lparr>pol_sidtab = server_sidtab, pol_policydb = label_policydb, pol_map = \<lparr>mapping = [], map_size = 0\<rparr>, latest_granting = 0\<rparr>"

lemma server_gives_sid:
  "\<exists>sid s' t' m'. sidtab_context_to_sid sample_hash (\<lambda>c m. (OK, c, m)) (pol_sidtab label_policy) (sidtab_init 0)
     (server_ctx 1) [] = (OK, sid, s', t', m')"
  by (simp add: sidtab_context_to_sid_def label_policy_def server_sidtab_def sidtab_init_def context_to_sid_def context_cpy_def
      server_ctx_def context_init_def Let_def mls_context_cpy_def mls_levels_cpy_def ebitmap_cpy_def ebitmap_init_def level_init_def)

lemma label_policy_ok: "sidtab_ok sample_hash (pol_sidtab label_policy)" "sd_count (pol_sidtab label_policy) = 0"
  by (simp_all add: sidtab_ok_def label_policy_def server_sidtab_def sidtab_init_def)

theorem compute_sid_valid_witness:
  "\<exists>sid pol' target' m'. compute_sid_retry sample_hash (\<lambda>c h. h) (\<lambda>c. False) True [(label_policy, \<lambda>c m. (OK, c, m), sidtab_init 0)]
      1 1 2 AVTAB_CHANGE None False [] = Some (OK, sid, (pol', \<lambda>c m. (OK, c, m), target'), m') \<and>
    (\<exists>c'. sidtab_search_force (pol_sidtab pol') sid = Some c')"
proof -
  have type: "type_rule label_policydb AVTAB_CHANGE (server_ctx 1) (server_ctx 1) 2 = None"
    by (simp add: type_rule_def Let_def label_policydb_def policydb_init_def avtab_init_def avtab_search_node_def avtab_for_each_def)
  have new: "compute_new_context (\<lambda>c h. h) label_policydb (server_ctx 1) (server_ctx 1) 2 AVTAB_CHANGE None False [] =
      (OK, server_ctx 1, [])"
    unfolding compute_new_context_def Let_def type
    by (simp add: new_class_def new_user_def new_role_def new_type_def mls_compute_sid_def label_policydb_def policydb_init_def
        symtab_zero_def server_ctx_def context_init_def)
  have s: "sidtab_search (pol_sidtab label_policy) 1 = Some (server_ctx 1)" "pol_policydb label_policy = label_policydb"
    by (simp_all add: label_policy_def server_lookup)
  obtain sid s' t' m' where "sidtab_context_to_sid sample_hash (\<lambda>c m. (OK, c, m)) (pol_sidtab label_policy) (sidtab_init 0)
      (server_ctx 1) [] = (OK, sid, s', t', m')"
    using server_gives_sid by blast
  then have r: "compute_sid_retry sample_hash (\<lambda>c h. h) (\<lambda>c. False) True [(label_policy, \<lambda>c m. (OK, c, m), sidtab_init 0)]
      1 1 2 AVTAB_CHANGE None False [] = Some (OK, sid, (label_policy\<lparr>pol_sidtab := s'\<rparr>, \<lambda>c m. (OK, c, m), t'), m')"
    using new s label_ok(3) by simp
  from compute_sid_valid [OF r] label_policy_ok r show ?thesis
    by auto
qed

end
