(* ===== verification/Object_Contexts.thy ===== *)
theory Object_Contexts
  imports Compute_Sid "HOL-Library.Sublist"
begin

text \<open>
  Labels of objects that the policy lists (\<open>ss/services.c\<close>): ports, network interfaces, nodes,
  Infiniband keys and ports, file systems and the paths of generic file systems. The SID of a listed
  context is computed on demand and kept in its entry.

  The addresses of nodes are given as words, as the code reads them. The attempts are those of
  \<open>Context_Strings\<close>.
\<close>

section \<open>Contexts on demand\<close>

abbreviation SECINITSID_PORT :: u32 where "SECINITSID_PORT \<equiv> 9"
abbreviation SECINITSID_NETIF :: u32 where "SECINITSID_NETIF \<equiv> 10"
abbreviation SECINITSID_NODE :: u32 where "SECINITSID_NODE \<equiv> 12"

text \<open>All callers ask for the first of the two contexts.\<close>

definition ocontext_to_sid ::
  "hash_fns \<Rightarrow> convert_fn \<Rightarrow> sidtab \<Rightarrow> sidtab \<Rightarrow> ocontext \<Rightarrow> mem \<Rightarrow> rc \<times> u32 \<times> ocontext \<times> sidtab \<times> sidtab \<times> mem" where
  "ocontext_to_sid H conv s target c m =
     (if oc_sid0 c = 0
      then case sidtab_context_to_sid H conv s target (oc_context0 c) m of
             (Err e, _, s', target', m') \<Rightarrow> (Err e, 0, c, s', target', m')
           | (OK, sid, s', target', m') \<Rightarrow> (OK, sid, c\<lparr>oc_sid0 := sid\<rparr>, s', target', m')
      else (OK, oc_sid0 c, c, s, target, m))"

text \<open>The walk over a list to the first entry that matches, with the entries before and behind it.\<close>

fun split_first :: "('a \<Rightarrow> bool) \<Rightarrow> 'a list \<Rightarrow> ('a list \<times> 'a \<times> 'a list) option" where
  "split_first P [] = None"
| "split_first P (x # xs) =
     (if P x then Some ([], x, xs)
      else case split_first P xs of None \<Rightarrow> None | Some (as, y, bs) \<Rightarrow> Some (x # as, y, bs))"

definition set_ocontexts :: "ocon \<Rightarrow> ocontext list \<Rightarrow> selinux_policy \<Rightarrow> selinux_policy" where
  "set_ocontexts k cs policy =
     policy\<lparr>pol_policydb := (pol_policydb policy)\<lparr>ocontexts := (ocontexts (pol_policydb policy))(k := cs)\<rparr>\<rparr>"

text \<open>The part from \<open>retry\<close> on that the functions below share: the first entry of the list \<open>k\<close> that matches, or a default.\<close>

fun ocon_sid ::
  "hash_fns \<Rightarrow> ocon \<Rightarrow> (ocontext \<Rightarrow> bool) \<Rightarrow> u32 \<Rightarrow> attempt list \<Rightarrow> mem \<Rightarrow> (rc \<times> u32 \<times> attempt \<times> mem) option" where
  "ocon_sid H k P dflt [] m = None"
| "ocon_sid H k P dflt ((policy, conv, target) # rest) m =
     (case split_first P (ocontexts (pol_policydb policy) k) of
        None \<Rightarrow> Some (OK, dflt, (policy, conv, target), m)
      | Some (as, c, bs) \<Rightarrow>
          (case ocontext_to_sid H conv (pol_sidtab policy) target c m of
             (rc, sid, c', s', target', m') \<Rightarrow>
               if rc = Err ESTALE then ocon_sid H k P dflt rest m'
               else Some (rc, sid, (set_ocontexts k (as @ c' # bs) (policy\<lparr>pol_sidtab := s'\<rparr>), conv, target'), m')))"

definition keep_attempt :: "(rc \<times> u32 \<times> attempt \<times> mem) option \<Rightarrow> (rc \<times> u32 \<times> attempt option \<times> mem) option" where
  "keep_attempt = map_option (\<lambda>(rc, sid, a, m). (rc, sid, Some a, m))"

definition port_match :: "u8 \<Rightarrow> u16 \<Rightarrow> ocontext \<Rightarrow> bool" where
  "port_match protocol port c \<longleftrightarrow>
     (case oc_u c of OPort pr low high \<Rightarrow> pr = protocol \<and> low \<le> port \<and> high \<ge> port | _ \<Rightarrow> False)"

definition security_port_sid ::
  "hash_fns \<Rightarrow> bool \<Rightarrow> attempt list \<Rightarrow> u8 \<Rightarrow> u16 \<Rightarrow> mem \<Rightarrow> (rc \<times> u32 \<times> attempt option \<times> mem) option" where
  "security_port_sid H init attempts protocol port m =
     (if \<not> init then Some (OK, SECINITSID_PORT, None, m)
      else keep_attempt (ocon_sid H OCON_PORT (port_match protocol port) SECINITSID_PORT attempts m))"

definition ibpkey_match :: "u64 \<Rightarrow> u16 \<Rightarrow> ocontext \<Rightarrow> bool" where
  "ibpkey_match subnet_prefix pkey_num c \<longleftrightarrow>
     (case oc_u c of OIbpkey pre low high \<Rightarrow> low \<le> pkey_num \<and> high \<ge> pkey_num \<and> pre = subnet_prefix | _ \<Rightarrow> False)"

definition security_ib_pkey_sid ::
  "hash_fns \<Rightarrow> bool \<Rightarrow> attempt list \<Rightarrow> u64 \<Rightarrow> u16 \<Rightarrow> mem \<Rightarrow> (rc \<times> u32 \<times> attempt option \<times> mem) option" where
  "security_ib_pkey_sid H init attempts subnet_prefix pkey_num m =
     (if \<not> init then Some (OK, SECINITSID_UNLABELED, None, m)
      else keep_attempt (ocon_sid H OCON_IBPKEY (ibpkey_match subnet_prefix pkey_num) SECINITSID_UNLABELED attempts m))"

abbreviation IB_DEVICE_NAME_MAX :: nat where "IB_DEVICE_NAME_MAX \<equiv> 64"

definition ibendport_match :: "string \<Rightarrow> u8 \<Rightarrow> ocontext \<Rightarrow> bool" where
  "ibendport_match dev_name port_num c \<longleftrightarrow>
     (case oc_u c of
        OIbendport name port \<Rightarrow> port = port_num \<and> take IB_DEVICE_NAME_MAX name = take IB_DEVICE_NAME_MAX dev_name
      | _ \<Rightarrow> False)"

definition security_ib_endport_sid ::
  "hash_fns \<Rightarrow> bool \<Rightarrow> attempt list \<Rightarrow> string \<Rightarrow> u8 \<Rightarrow> mem \<Rightarrow> (rc \<times> u32 \<times> attempt option \<times> mem) option" where
  "security_ib_endport_sid H init attempts dev_name port_num m =
     (if \<not> init then Some (OK, SECINITSID_UNLABELED, None, m)
      else keep_attempt (ocon_sid H OCON_IBENDPORT (ibendport_match dev_name port_num) SECINITSID_UNLABELED attempts m))"

definition name_match :: "string \<Rightarrow> ocontext \<Rightarrow> bool" where
  "name_match name c \<longleftrightarrow> (case oc_u c of OName n \<Rightarrow> name = n | _ \<Rightarrow> False)"

definition security_netif_sid ::
  "hash_fns \<Rightarrow> bool \<Rightarrow> attempt list \<Rightarrow> string \<Rightarrow> mem \<Rightarrow> (rc \<times> u32 \<times> attempt option \<times> mem) option" where
  "security_netif_sid H init attempts name m =
     (if \<not> init then Some (OK, SECINITSID_NETIF, None, m)
      else keep_attempt (ocon_sid H OCON_NETIF (name_match name) SECINITSID_NETIF attempts m))"

text \<open>Three lists of four words.\<close>

definition match_ipv6_addrmask :: "u32 list \<Rightarrow> u32 list \<Rightarrow> u32 list \<Rightarrow> bool" where
  "match_ipv6_addrmask input addr msk = list_all (\<lambda>i. addr ! i = input ! i AND msk ! i) [0..<4]"

abbreviation AF_INET :: u16 where "AF_INET \<equiv> 2"
abbreviation AF_INET6 :: u16 where "AF_INET6 \<equiv> 10"

definition node_match :: "u32 list \<Rightarrow> ocontext \<Rightarrow> bool" where
  "node_match addr c \<longleftrightarrow> (case oc_u c of ONode a msk \<Rightarrow> a = addr ! 0 AND msk | _ \<Rightarrow> False)"

definition node6_match :: "u32 list \<Rightarrow> ocontext \<Rightarrow> bool" where
  "node6_match addr c \<longleftrightarrow> (case oc_u c of ONode6 a msk \<Rightarrow> match_ipv6_addrmask addr a msk | _ \<Rightarrow> False)"

text \<open>Without an attempt to look at the code has no policy; the wrong address length fails in the first.\<close>

definition security_node_sid ::
  "hash_fns \<Rightarrow> bool \<Rightarrow> attempt list \<Rightarrow> u16 \<Rightarrow> u32 list \<Rightarrow> u32 \<Rightarrow> mem \<Rightarrow> (rc \<times> u32 \<times> attempt option \<times> mem) option" where
  "security_node_sid H init attempts domain addr addrlen m =
     (if \<not> init then Some (OK, SECINITSID_NODE, None, m)
      else if domain = AF_INET
      then if addrlen \<noteq> 4 then Some (Err EINVAL, 0, None, m)
           else keep_attempt (ocon_sid H OCON_NODE (node_match addr) SECINITSID_NODE attempts m)
      else if domain = AF_INET6
      then if addrlen \<noteq> 16 then Some (Err EINVAL, 0, None, m)
           else keep_attempt (ocon_sid H OCON_NODE6 (node6_match addr) SECINITSID_NODE attempts m)
      else Some (OK, SECINITSID_NODE, None, m))"

section \<open>Paths of file systems\<close>

fun skip_slashes :: "string \<Rightarrow> string" where
  "skip_slashes (a # b # path) = (if a = CHR ''/'' \<and> b = CHR ''/'' then skip_slashes (b # path) else a # b # path)"
| "skip_slashes path = path"

definition genfs_match :: "u16 \<Rightarrow> string \<Rightarrow> ocontext \<Rightarrow> bool" where
  "genfs_match sclass path c \<longleftrightarrow>
     (case oc_u c of OName name \<Rightarrow> (oc_v c = 0 \<or> ucast sclass = oc_v c) \<and> prefix name path | _ \<Rightarrow> False)"

text \<open>The list of file systems is searched up to the first name that is not smaller.\<close>

definition genfs_find :: "policydb \<Rightarrow> string \<Rightarrow> (genfs list \<times> genfs \<times> genfs list) option" where
  "genfs_find p fstype =
     (case split_first (\<lambda>g. strcmp fstype (gf_fstype g) \<le> 0) (p_genfs p) of
        Some (as, g, bs) \<Rightarrow> if strcmp fstype (gf_fstype g) \<noteq> 0 then None else Some (as, g, bs)
      | None \<Rightarrow> None)"

definition security_genfs_sid_core ::
  "hash_fns \<Rightarrow> attempt \<Rightarrow> string \<Rightarrow> string \<Rightarrow> u16 \<Rightarrow> mem \<Rightarrow> rc \<times> u32 \<times> attempt \<times> mem" where
  "security_genfs_sid_core H a fstype path orig_sclass m =
     (case a of (policy, conv, target) \<Rightarrow>
        (let p = pol_policydb policy; path = skip_slashes path; sclass = unmap_class (pol_map policy) orig_sclass
         in case genfs_find p fstype of
              None \<Rightarrow> (Err ENOENT, SECINITSID_UNLABELED, a, m)
            | Some (gs, g, gs') \<Rightarrow>
                (case split_first (genfs_match sclass path) (gf_head g) of
                   None \<Rightarrow> (Err ENOENT, SECINITSID_UNLABELED, a, m)
                 | Some (as, c, bs) \<Rightarrow>
                     (case ocontext_to_sid H conv (pol_sidtab policy) target c m of
                        (rc, sid, c', s', target', m') \<Rightarrow>
                          (rc, if rc = OK then sid else SECINITSID_UNLABELED,
                           (policy\<lparr>pol_sidtab := s',
                              pol_policydb := p\<lparr>p_genfs := gs @ g\<lparr>gf_head := as @ c' # bs\<rparr> # gs'\<rparr>\<rparr>, conv, target'), m')))))"

fun genfs_sid_retry ::
  "hash_fns \<Rightarrow> attempt list \<Rightarrow> string \<Rightarrow> string \<Rightarrow> u16 \<Rightarrow> mem \<Rightarrow> (rc \<times> u32 \<times> attempt \<times> mem) option" where
  "genfs_sid_retry H [] fstype path orig_sclass m = None"
| "genfs_sid_retry H (a # rest) fstype path orig_sclass m =
     (case security_genfs_sid_core H a fstype path orig_sclass m of
        (rc, sid, a', m') \<Rightarrow>
          if rc = Err ESTALE then genfs_sid_retry H rest fstype path orig_sclass m' else Some (rc, sid, a', m'))"

definition security_genfs_sid ::
  "hash_fns \<Rightarrow> bool \<Rightarrow> attempt list \<Rightarrow> string \<Rightarrow> string \<Rightarrow> u16 \<Rightarrow> mem \<Rightarrow> (rc \<times> u32 \<times> attempt option \<times> mem) option" where
  "security_genfs_sid H init attempts fstype path orig_sclass m =
     (if \<not> init then Some (OK, SECINITSID_UNLABELED, None, m)
      else keep_attempt (genfs_sid_retry H attempts fstype path orig_sclass m))"

text \<open>The label of a file system: its behaviour and SID. \<open>dir\<close> is the kernel's value of \<open>SECCLASS_DIR\<close>.\<close>

abbreviation SECURITY_FS_USE_GENFS :: u32 where "SECURITY_FS_USE_GENFS \<equiv> 4"
abbreviation SECURITY_FS_USE_NONE :: u32 where "SECURITY_FS_USE_NONE \<equiv> 5"

fun fs_use_retry ::
  "hash_fns \<Rightarrow> u16 \<Rightarrow> attempt list \<Rightarrow> string \<Rightarrow> u32 \<times> u32 \<Rightarrow> mem \<Rightarrow> (rc \<times> (u32 \<times> u32) \<times> attempt \<times> mem) option" where
  "fs_use_retry H dir [] fstype sbsec m = None"
| "fs_use_retry H dir ((policy, conv, target) # rest) fstype sbsec m =
     (case split_first (name_match fstype) (ocontexts (pol_policydb policy) OCON_FSUSE) of
        Some (as, c, bs) \<Rightarrow>
          (case ocontext_to_sid H conv (pol_sidtab policy) target c m of
             (rc, sid, c', s', target', m') \<Rightarrow>
               if rc = Err ESTALE then fs_use_retry H dir rest fstype (oc_v c, snd sbsec) m'
               else Some (rc, (oc_v c, if rc = OK then sid else snd sbsec),
                          (set_ocontexts OCON_FSUSE (as @ c' # bs) (policy\<lparr>pol_sidtab := s'\<rparr>), conv, target'), m'))
      | None \<Rightarrow>
          (case security_genfs_sid_core H (policy, conv, target) fstype ''/'' dir m of
             (rc, sid, a', m') \<Rightarrow>
               if rc = Err ESTALE then fs_use_retry H dir rest fstype (fst sbsec, sid) m'
               else Some (OK, (if rc = OK then SECURITY_FS_USE_GENFS else SECURITY_FS_USE_NONE, sid), a', m')))"

definition security_fs_use ::
  "hash_fns \<Rightarrow> u16 \<Rightarrow> bool \<Rightarrow> attempt list \<Rightarrow> string \<Rightarrow> u32 \<times> u32 \<Rightarrow> mem \<Rightarrow> (rc \<times> (u32 \<times> u32) \<times> attempt option \<times> mem) option" where
  "security_fs_use H dir init attempts fstype sbsec m =
     (if \<not> init then Some (OK, (SECURITY_FS_USE_NONE, SECINITSID_UNLABELED), None, m)
      else map_option (\<lambda>(rc, sb, a, m'). (rc, sb, Some a, m')) (fs_use_retry H dir attempts fstype sbsec m))"

section \<open>The first match\<close>

lemma split_first_Some:
  "split_first P xs = Some (as, x, bs) \<longleftrightarrow> xs = as @ x # bs \<and> P x \<and> (\<forall>a \<in> set as. \<not> P a)"
proof (induction xs arbitrary: as)
  case Nil
  then show ?case by simp
next
  case (Cons y ys)
  show ?case
  proof (cases as)
    case Nil
    then show ?thesis using Cons by (auto split: option.splits)
  next
    case (Cons a as')
    then show ?thesis using Cons.IH [of as'] by (auto split: option.splits)
  qed
qed

lemma split_first_None: "split_first P xs = None \<longleftrightarrow> (\<forall>x \<in> set xs. \<not> P x)"
  by (induction xs) (auto split: option.splits)

text \<open>The SIDs kept in the entries of a list are those of their contexts.\<close>

definition ocon_ok :: "selinux_policy \<Rightarrow> ocon \<Rightarrow> bool" where
  "ocon_ok policy k \<longleftrightarrow> (\<forall>c \<in> set (ocontexts (pol_policydb policy) k). context_str_ok (oc_context0 c) \<and>
     (oc_sid0 c \<noteq> 0 \<longrightarrow> (\<exists>e \<in> set (sd_context_to_sid (pol_sidtab policy)).
        se_sid e = oc_sid0 c \<and> context_cmp (se_context e) (oc_context0 c))))"

lemma ocontext_to_sid_OK:
  assumes "ocontext_to_sid H conv s target c m = (OK, sid, c', s', target', m')"
    and "sidtab_ok H s" "unat (sd_count s) < 2 ^ 32 - 28" "context_str_ok (oc_context0 c)"
    and "oc_sid0 c \<noteq> 0 \<longrightarrow> (\<exists>e \<in> set (sd_context_to_sid s). se_sid e = oc_sid0 c \<and> context_cmp (se_context e) (oc_context0 c))"
  shows "sidtab_ok H s' \<and> set (sd_context_to_sid s) \<subseteq> set (sd_context_to_sid s') \<and> c' = c\<lparr>oc_sid0 := sid\<rparr> \<and> sid \<noteq> 0 \<and>
    (\<exists>e \<in> set (sd_context_to_sid s'). se_sid e = sid \<and> context_cmp (se_context e) (oc_context0 c))"
proof (cases "oc_sid0 c = 0")
  case True
  then have r: "sidtab_context_to_sid H conv s target (oc_context0 c) m = (OK, sid, s', target', m')" "c' = c\<lparr>oc_sid0 := sid\<rparr>"
    using assms(1) by (auto simp: ocontext_to_sid_def split: prod.splits option.splits)
  from context_to_sid_cases [OF assms(2,4,3) r(1)] obtain e where e: "e \<in> set (sd_context_to_sid s')" "se_sid e = sid"
      "context_cmp (se_context e) (oc_context0 c)" "sidtab_ok H s'" "set (sd_context_to_sid s) \<subseteq> set (sd_context_to_sid s')"
    by auto
  then have "sid \<noteq> 0" using sid_entry_nonzero by (auto simp: sidtab_ok_def)
  then show ?thesis using e r by blast
next
  case False
  then have "sid = oc_sid0 c" "c' = c" "s' = s" using assms(1) by (auto simp: ocontext_to_sid_def)
  then show ?thesis using False assms(2,5) by auto
qed

text \<open>
  A label that was found stays: the list keeps its contexts, the SID leads to the context of the first
  match, and the same question on the result gives the same answer without a change.
\<close>

lemma ocon_sid_found:
  assumes "ocon_sid H k P dflt [(policy, conv, target)] m = Some (OK, sid, (policy', conv', target'), m')"
    and "sidtab_ok H (pol_sidtab policy)" "unat (sd_count (pol_sidtab policy)) < 2 ^ 32 - 28" "ocon_ok policy k"
    and "split_first P (ocontexts (pol_policydb policy) k) = Some (as, c, bs)" "\<And>x v. P (x\<lparr>oc_sid0 := v\<rparr>) \<longleftrightarrow> P x"
  shows "(\<exists>c'. sidtab_search_force (pol_sidtab policy') sid = Some c' \<and> context_cmp c' (oc_context0 c)) \<and>
    ocon_ok policy' k \<and> ocon_sid H k P dflt [(policy', conv', target')] m2 = Some (OK, sid, (policy', conv', target'), m2)"
proof -
  let ?cs = "ocontexts (pol_policydb policy) k"
  have cs: "?cs = as @ c # bs" "P c" "\<forall>a \<in> set as. \<not> P a"
    using assms(5) by (simp_all add: split_first_Some)
  obtain c' s' where r: "ocontext_to_sid H conv (pol_sidtab policy) target c m = (OK, sid, c', s', target', m')"
    and p': "policy' = set_ocontexts k (as @ c' # bs) (policy\<lparr>pol_sidtab := s'\<rparr>)" "conv' = conv"
    using assms(1,5) by (auto split: prod.splits if_splits)
  have c: "context_str_ok (oc_context0 c)" "oc_sid0 c \<noteq> 0 \<longrightarrow> (\<exists>e \<in> set (sd_context_to_sid (pol_sidtab policy)).
      se_sid e = oc_sid0 c \<and> context_cmp (se_context e) (oc_context0 c))"
    using assms(4) cs(1) by (auto simp: ocon_ok_def)
  note ok = ocontext_to_sid_OK [OF r assms(2,3) c]
  then obtain e where e: "e \<in> set (sd_context_to_sid s')" "se_sid e = sid" "context_cmp (se_context e) (oc_context0 c)" "sidtab_ok H s'"
    by blast
  have force: "sidtab_search_force s' sid = Some (se_context e)"
    using e search_force_entry by (auto simp: sidtab_ok_def sidtab_search_force_def)
  have cs': "ocontexts (pol_policydb policy') k = as @ c' # bs" "pol_sidtab policy' = s'"
    by (simp_all add: p' set_ocontexts_def)
  have "split_first P (as @ c' # bs) = Some (as, c', bs)"
    using cs assms(6) ok by (simp add: split_first_Some)
  moreover have "ocontext_to_sid H conv s' target' c' m2 = (OK, sid, c', s', target', m2)"
    using ok by (simp add: ocontext_to_sid_def)
  moreover have "set_ocontexts k (as @ c' # bs) (policy'\<lparr>pol_sidtab := s'\<rparr>) = policy'"
    by (simp add: p' set_ocontexts_def)
  ultimately have "ocon_sid H k P dflt [(policy', conv', target')] m2 = Some (OK, sid, (policy', conv', target'), m2)"
    by (simp add: cs' p'(2))
  moreover have "ocon_ok policy' k"
    using assms(4) cs(1) ok e unfolding ocon_ok_def cs' by (auto 0 3)
  ultimately show ?thesis using force e(3) cs' by auto
qed

section \<open>Properties\<close>

text \<open>
  The label of a port is that of the first entry of the policy with its protocol and a range that
  holds it: the SID leads to an equal context. It is stable: asked again, the answer is the same
  SID, and nothing changes.
\<close>

lemma port_sid_first_match:
  assumes "security_port_sid H True [(policy, conv, target)] protocol port m = Some (OK, sid, Some (policy', conv', target'), m')"
    and "sidtab_ok H (pol_sidtab policy)" "unat (sd_count (pol_sidtab policy)) < 2 ^ 32 - 28" "ocon_ok policy OCON_PORT"
    and "ocontexts (pol_policydb policy) OCON_PORT = as @ c # bs" "port_match protocol port c"
      "\<forall>a \<in> set as. \<not> port_match protocol port a"
  shows "(\<exists>c'. sidtab_search_force (pol_sidtab policy') sid = Some c' \<and> context_cmp c' (oc_context0 c)) \<and>
    ocon_ok policy' OCON_PORT \<and>
    security_port_sid H True [(policy', conv', target')] protocol port m2 = Some (OK, sid, Some (policy', conv', target'), m2)"
proof -
  have "ocon_sid H OCON_PORT (port_match protocol port) SECINITSID_PORT [(policy, conv, target)] m =
      Some (OK, sid, (policy', conv', target'), m')"
    using assms(1) by (auto simp: security_port_sid_def keep_attempt_def simp del: ocon_sid.simps)
  moreover have "split_first (port_match protocol port) (ocontexts (pol_policydb policy) OCON_PORT) = Some (as, c, bs)"
    using assms(5-7) by (simp add: split_first_Some)
  moreover have "port_match protocol port (x\<lparr>oc_sid0 := v\<rparr>) \<longleftrightarrow> port_match protocol port x" for x v
    by (simp add: port_match_def)
  ultimately show ?thesis
    using ocon_sid_found [OF _ assms(2-4), of _ SECINITSID_PORT conv target m sid policy' conv' target' m' as c bs m2]
    by (simp add: security_port_sid_def keep_attempt_def del: ocon_sid.simps)
qed

definition sample_ocontext :: "ocontext_u \<Rightarrow> ocontext" where
  "sample_ocontext u =
     \<lparr>oc_u = u, oc_v = 0, oc_context0 = server_ctx 1, oc_context1 = context_init, oc_sid0 = 0, oc_sid1 = 0\<rparr>"

definition port_policy :: selinux_policy where
  "port_policy = set_ocontexts OCON_PORT [sample_ocontext (OPort 6 20 25)] label_policy"

text \<open>The reader of policies keeps the entries of a file system by the length of their path.\<close>

definition genfs_sorted :: "genfs \<Rightarrow> bool" where
  "genfs_sorted g \<longleftrightarrow> sorted_wrt (\<lambda>a b. \<forall>n n'. oc_u a = OName n \<longrightarrow> oc_u b = OName n' \<longrightarrow> length n \<ge> length n') (gf_head g)"


definition proc_genfs :: genfs where
  "proc_genfs = \<lparr>gf_fstype = ''proc'', gf_head = [sample_ocontext (OName ''/sys''), sample_ocontext (OName ''/'')]\<rparr>"

definition genfs_policy :: selinux_policy where
  "genfs_policy = label_policy\<lparr>pol_policydb := label_policydb\<lparr>p_genfs := [proc_genfs]\<rparr>\<rparr>"


end
