(* ===== verification/Avc.thy ===== *)
theory Avc
  imports Object_Contexts
begin

text \<open>
  The access vector cache (\<open>avc.c\<close>, \<open>include/avc.h\<close>): decisions of the security server by source,
  target and class, with the extended permission decisions added to them, the reclaim of nodes, the
  handling of denials in permissive mode, auditing, and the flush at a policy change.

  A call that may fail takes its outcome from the schedule \<open>mem\<close>: allocations, and the try-locks of
  the reclaim. A null dereference is \<open>None\<close>. Stack variables that the code reads before it sets
  them are arguments named \<open>junk\<close>. Nodes that left the cache are freed after a grace period, which
  no reader can observe.
\<close>

section \<open>Data\<close>

text \<open>A cached extended permission decision owns its bit sets; an absent one is a null pointer.\<close>

record avc_xpd =
  cx_used :: u8
  cx_driver :: u8
  cx_allowed :: "xperms_data option"
  cx_auditallow :: "xperms_data option"
  cx_dontaudit :: "xperms_data option"

record avc_xperms_node =
  xn_xp :: extended_perms
  xn_xpds :: "avc_xpd list"

record avc_node =
  ae_ssid :: u32
  ae_tsid :: u32
  ae_tclass :: u16
  ae_avd :: av_decision
  ae_xp_node :: "avc_xperms_node option"

record selinux_avc =
  avc_cache_threshold :: u32
  slots :: "avc_node list list"
  lru_hint :: u32
  active_nodes :: u32
  latest_notif :: u32

abbreviation AVC_CACHE_SLOTS :: nat where "AVC_CACHE_SLOTS \<equiv> 512"
abbreviation AVC_DEF_CACHE_THRESHOLD :: u32 where "AVC_DEF_CACHE_THRESHOLD \<equiv> 512"
abbreviation AVC_CACHE_RECLAIM :: nat where "AVC_CACHE_RECLAIM \<equiv> 16"

abbreviation AVC_STRICT :: u32 where "AVC_STRICT \<equiv> 1"
abbreviation AVC_EXTENDED_PERMS :: u32 where "AVC_EXTENDED_PERMS \<equiv> 2"

abbreviation AVC_CALLBACK_GRANT :: u32 where "AVC_CALLBACK_GRANT \<equiv> 1"
abbreviation AVC_CALLBACK_TRY_REVOKE :: u32 where "AVC_CALLBACK_TRY_REVOKE \<equiv> 2"
abbreviation AVC_CALLBACK_REVOKE :: u32 where "AVC_CALLBACK_REVOKE \<equiv> 4"
abbreviation AVC_CALLBACK_RESET :: u32 where "AVC_CALLBACK_RESET \<equiv> 8"
abbreviation AVC_CALLBACK_AUDITALLOW_ENABLE :: u32 where "AVC_CALLBACK_AUDITALLOW_ENABLE \<equiv> 16"
abbreviation AVC_CALLBACK_AUDITALLOW_DISABLE :: u32 where "AVC_CALLBACK_AUDITALLOW_DISABLE \<equiv> 32"
abbreviation AVC_CALLBACK_AUDITDENY_ENABLE :: u32 where "AVC_CALLBACK_AUDITDENY_ENABLE \<equiv> 64"
abbreviation AVC_CALLBACK_AUDITDENY_DISABLE :: u32 where "AVC_CALLBACK_AUDITDENY_DISABLE \<equiv> 128"
abbreviation AVC_CALLBACK_ADD_XPERMS :: u32 where "AVC_CALLBACK_ADD_XPERMS \<equiv> 256"

text \<open>The variable \<open>selinux_avc\<close> is static, so its other members start as zero.\<close>

definition avc_static :: selinux_avc where
  "avc_static = \<lparr>avc_cache_threshold = 0, slots = [], lru_hint = 0, active_nodes = 0, latest_notif = 0\<rparr>"

definition selinux_avc_init :: "selinux_avc \<Rightarrow> selinux_avc" where
  "selinux_avc_init a = a\<lparr>avc_cache_threshold := AVC_DEF_CACHE_THRESHOLD, slots := replicate AVC_CACHE_SLOTS [],
     active_nodes := 0, lru_hint := 0\<rparr>"

definition avc_get_cache_threshold :: "selinux_avc \<Rightarrow> u32" where
  "avc_get_cache_threshold a = avc_cache_threshold a"

definition avc_set_cache_threshold :: "selinux_avc \<Rightarrow> u32 \<Rightarrow> selinux_avc" where
  "avc_set_cache_threshold a t = a\<lparr>avc_cache_threshold := t\<rparr>"

definition avc_hash :: "u32 \<Rightarrow> u32 \<Rightarrow> u16 \<Rightarrow> nat" where
  "avc_hash ssid tsid tclass = unat ((ssid XOR push_bit 2 tsid XOR push_bit 4 (ucast tclass)) AND 511)"

text \<open>The numbers of \<open>avc_get_hash_stats\<close>: entries, used buckets and the longest chain.\<close>

definition avc_get_hash_stats :: "selinux_avc \<Rightarrow> u32 \<times> nat \<times> nat" where
  "avc_get_hash_stats a = (active_nodes a, length (filter (\<lambda>l. l \<noteq> []) (slots a)), foldl (\<lambda>n l. max n (length l)) 0 (slots a))"

section \<open>Extended permissions\<close>

definition avc_xperms_decision_lookup :: "u8 \<Rightarrow> avc_xperms_node \<Rightarrow> avc_xpd option" where
  "avc_xperms_decision_lookup driver xn = find (\<lambda>x. cx_driver x = driver) (xn_xpds xn)"

definition avc_xperms_has_perm :: "extended_perms_decision \<Rightarrow> u8 \<Rightarrow> u8 \<Rightarrow> bool" where
  "avc_xperms_has_perm xpd perm which =
     (if which = XPERMS_ALLOWED \<and> xd_used xpd AND XPERMS_ALLOWED \<noteq> 0 then security_xperm_test (xd_allowed xpd) perm
      else if which = XPERMS_AUDITALLOW \<and> xd_used xpd AND XPERMS_AUDITALLOW \<noteq> 0 then security_xperm_test (xd_auditallow xpd) perm
      else if which = XPERMS_DONTAUDIT \<and> xd_used xpd AND XPERMS_DONTAUDIT \<noteq> 0 then security_xperm_test (xd_dontaudit xpd) perm
      else False)"

text \<open>The update of the first decision of a driver.\<close>

fun update_xpd :: "u8 \<Rightarrow> (avc_xpd \<Rightarrow> avc_xpd) \<Rightarrow> avc_xpd list \<Rightarrow> avc_xpd list" where
  "update_xpd driver f [] = []"
| "update_xpd driver f (x # xs) = (if cx_driver x = driver then f x # xs else x # update_xpd driver f xs)"

definition avc_xperms_allow_perm :: "avc_xperms_node \<Rightarrow> u8 \<Rightarrow> u8 \<Rightarrow> avc_xperms_node" where
  "avc_xperms_allow_perm xn driver perm =
     xn\<lparr>xn_xp := (xn_xp xn)\<lparr>xp_drivers := security_xperm_set (xp_drivers (xn_xp xn)) driver\<rparr>,
        xn_xpds := update_xpd driver (\<lambda>x. x\<lparr>cx_allowed := map_option (\<lambda>p. security_xperm_set p perm) (cx_allowed x)\<rparr>) (xn_xpds xn)\<rparr>"

text \<open>A decision with the pointers of its bit sets, for the copy into a node.\<close>

definition xpd_of :: "extended_perms_decision \<Rightarrow> avc_xpd" where
  "xpd_of x = \<lparr>cx_used = xd_used x, cx_driver = xd_driver x, cx_allowed = Some (xd_allowed x),
     cx_auditallow = Some (xd_auditallow x), cx_dontaudit = Some (xd_dontaudit x)\<rparr>"

definition avc_copy_xperms_decision :: "avc_xpd \<Rightarrow> avc_xpd \<Rightarrow> avc_xpd" where
  "avc_copy_xperms_decision dest src =
     dest\<lparr>cx_driver := cx_driver src, cx_used := cx_used src,
       cx_allowed := if cx_used src AND XPERMS_ALLOWED \<noteq> 0 then cx_allowed src else cx_allowed dest,
       cx_auditallow := if cx_used src AND XPERMS_AUDITALLOW \<noteq> 0 then cx_auditallow src else cx_auditallow dest,
       cx_dontaudit := if cx_used src AND XPERMS_DONTAUDIT \<noteq> 0 then cx_dontaudit src else cx_dontaudit dest\<rparr>"

text \<open>Only the word that holds the bit of \<open>perm\<close> is copied.\<close>

definition quick_copy_word :: "u8 \<Rightarrow> bool \<Rightarrow> xperms_data \<Rightarrow> xperms_data option \<Rightarrow> xperms_data" where
  "quick_copy_word perm used dest src =
     (let i = unat (drop_bit 5 perm) in if used then dest[i := the src ! i] else dest)"

definition avc_quick_copy_xperms_decision ::
  "u8 \<Rightarrow> extended_perms_decision \<Rightarrow> avc_xpd \<Rightarrow> extended_perms_decision" where
  "avc_quick_copy_xperms_decision perm dest src =
     dest\<lparr>xd_used := cx_used src,
       xd_allowed := quick_copy_word perm (cx_used src AND XPERMS_ALLOWED \<noteq> 0) (xd_allowed dest) (cx_allowed src),
       xd_auditallow := quick_copy_word perm (cx_used src AND XPERMS_AUDITALLOW \<noteq> 0) (xd_auditallow dest) (cx_auditallow src),
       xd_dontaudit := quick_copy_word perm (cx_used src AND XPERMS_DONTAUDIT \<noteq> 0) (xd_dontaudit dest) (cx_dontaudit src)\<rparr>"

text \<open>One bit set, allocated when it is wanted.\<close>

definition xperms_data_alloc :: "bool \<Rightarrow> mem \<Rightarrow> bool \<times> xperms_data option \<times> mem" where
  "xperms_data_alloc wanted m =
     (if wanted then case kalloc m of (ok, m') \<Rightarrow> (ok, if ok then Some xperms_none else None, m') else (True, None, m))"

definition avc_xperms_decision_alloc :: "u8 \<Rightarrow> mem \<Rightarrow> avc_xpd option \<times> mem" where
  "avc_xperms_decision_alloc which m =
     (case kalloc m of
        (False, m) \<Rightarrow> (None, m)
      | (True, m) \<Rightarrow>
          (case xperms_data_alloc (which AND XPERMS_ALLOWED \<noteq> 0) m of
             (False, _, m) \<Rightarrow> (None, m)
           | (True, al, m) \<Rightarrow>
               (case xperms_data_alloc (which AND XPERMS_AUDITALLOW \<noteq> 0) m of
                  (False, _, m) \<Rightarrow> (None, m)
                | (True, au, m) \<Rightarrow>
                    (case xperms_data_alloc (which AND XPERMS_DONTAUDIT \<noteq> 0) m of
                       (False, _, m) \<Rightarrow> (None, m)
                     | (True, da, m) \<Rightarrow>
                         (Some \<lparr>cx_used = 0, cx_driver = 0, cx_allowed = al, cx_auditallow = au, cx_dontaudit = da\<rparr>, m)))))"

text \<open>The allocation of a copy of a decision.\<close>

definition xpd_copy_alloc :: "avc_xpd \<Rightarrow> mem \<Rightarrow> avc_xpd option \<times> mem" where
  "xpd_copy_alloc src m =
     (case avc_xperms_decision_alloc (cx_used src) m of
        (None, m) \<Rightarrow> (None, m)
      | (Some dest, m) \<Rightarrow> (Some (avc_copy_xperms_decision dest src), m))"

text \<open>Without a node of extended permissions the code dereferences a null pointer.\<close>

definition avc_add_xperms_decision :: "avc_node \<Rightarrow> extended_perms_decision \<Rightarrow> mem \<Rightarrow> (rc \<times> avc_node \<times> mem) option" where
  "avc_add_xperms_decision node src m =
     (case xpd_copy_alloc (xpd_of src) m of
        (None, m) \<Rightarrow> Some (Err ENOMEM, node, m)
      | (Some x, m) \<Rightarrow>
          (case ae_xp_node node of
             None \<Rightarrow> None
           | Some xn \<Rightarrow>
               Some (OK, node\<lparr>ae_xp_node := Some (xn\<lparr>xn_xpds := x # xn_xpds xn,
                        xn_xp := (xn_xp xn)\<lparr>xp_len := xp_len (xn_xp xn) + 1\<rparr>\<rparr>)\<rparr>, m)))"

fun copy_xpds :: "avc_xpd list \<Rightarrow> avc_xpd list \<Rightarrow> mem \<Rightarrow> avc_xpd list option \<times> mem" where
  "copy_xpds [] done m = (Some done, m)"
| "copy_xpds (x # xs) done m =
     (case xpd_copy_alloc x m of
        (None, m) \<Rightarrow> (None, m)
      | (Some y, m) \<Rightarrow> copy_xpds xs (y # done) m)"

definition avc_xperms_populate :: "avc_node \<Rightarrow> avc_xperms_node \<Rightarrow> mem \<Rightarrow> rc \<times> avc_node \<times> mem" where
  "avc_xperms_populate node src m =
     (if xp_len (xn_xp src) = 0 then (OK, node, m)
      else case kalloc m of
             (False, m) \<Rightarrow> (Err ENOMEM, node, m)
           | (True, m) \<Rightarrow>
               (case copy_xpds (xn_xpds src) [] m of
                  (None, m) \<Rightarrow> (Err ENOMEM, node, m)
                | (Some xs, m) \<Rightarrow>
                    (OK, node\<lparr>ae_xp_node := Some \<lparr>xn_xp = xn_xp src, xn_xpds = xs\<rparr>\<rparr>, m)))"

section \<open>Nodes\<close>

text \<open>The removal of a node, by reclaim, flush, replacement or a failed insertion, counts it down.\<close>

definition avc_node_kill :: "selinux_avc \<Rightarrow> selinux_avc" where
  "avc_node_kill a = a\<lparr>active_nodes := active_nodes a - 1\<rparr>"

definition key_matches :: "u32 \<Rightarrow> u32 \<Rightarrow> u16 \<Rightarrow> avc_node \<Rightarrow> bool" where
  "key_matches ssid tsid tclass n \<longleftrightarrow> ae_ssid n = ssid \<and> ae_tsid n = tsid \<and> ae_tclass n = tclass"

fun replace_first :: "('a \<Rightarrow> bool) \<Rightarrow> 'a \<Rightarrow> 'a list \<Rightarrow> 'a list" where
  "replace_first P y [] = []"
| "replace_first P y (x # xs) = (if P x then y # xs else x # replace_first P y xs)"

definition avc_node_replace :: "nat \<Rightarrow> (avc_node \<Rightarrow> bool) \<Rightarrow> avc_node \<Rightarrow> selinux_avc \<Rightarrow> selinux_avc" where
  "avc_node_replace h P new a =
     a\<lparr>slots := (slots a)[h := replace_first P new (slots a ! h)], active_nodes := active_nodes a - 1\<rparr>"

text \<open>The first \<open>k\<close> nodes of a slot are deleted.\<close>

definition avc_delete_nodes :: "nat \<Rightarrow> nat \<Rightarrow> selinux_avc \<Rightarrow> selinux_avc" where
  "avc_delete_nodes h k a = a\<lparr>slots := (slots a)[h := drop k (slots a ! h)], active_nodes := active_nodes a - of_nat k\<rparr>"

text \<open>The loop over the slots: the tries left and the nodes reclaimed so far.\<close>

fun reclaim_loop :: "nat \<Rightarrow> nat \<Rightarrow> selinux_avc \<Rightarrow> mem \<Rightarrow> nat \<times> selinux_avc \<times> mem" where
  "reclaim_loop 0 ecx a m = (ecx, a, m)"
| "reclaim_loop (Suc t) ecx a m =
     (let hint = lru_hint a + 1; h = unat (hint AND 511); a = a\<lparr>lru_hint := hint\<rparr>
      in case kalloc m of
           (False, m) \<Rightarrow> reclaim_loop t ecx a m
         | (True, m) \<Rightarrow>
             (let k = min (AVC_CACHE_RECLAIM - ecx) (length (slots a ! h)); a = avc_delete_nodes h k a; ecx = ecx + k
              in if ecx \<ge> AVC_CACHE_RECLAIM then (ecx, a, m) else reclaim_loop t ecx a m))"

definition avc_reclaim_node :: "selinux_avc \<Rightarrow> mem \<Rightarrow> nat \<times> selinux_avc \<times> mem" where
  "avc_reclaim_node a m = reclaim_loop AVC_CACHE_SLOTS 0 a m"

definition avc_alloc_node :: "selinux_avc \<Rightarrow> mem \<Rightarrow> bool \<times> selinux_avc \<times> mem" where
  "avc_alloc_node a m =
     (case kalloc m of
        (False, m) \<Rightarrow> (False, a, m)
      | (True, m) \<Rightarrow>
          (let n = active_nodes a + 1; a = a\<lparr>active_nodes := n\<rparr>
           in if n > avc_cache_threshold a then case avc_reclaim_node a m of (_, a, m) \<Rightarrow> (True, a, m)
              else (True, a, m)))"

definition avc_node_populate :: "u32 \<Rightarrow> u32 \<Rightarrow> u16 \<Rightarrow> av_decision \<Rightarrow> avc_node" where
  "avc_node_populate ssid tsid tclass avd =
     \<lparr>ae_ssid = ssid, ae_tsid = tsid, ae_tclass = tclass, ae_avd = avd, ae_xp_node = None\<rparr>"

definition avc_search_node :: "selinux_avc \<Rightarrow> u32 \<Rightarrow> u32 \<Rightarrow> u16 \<Rightarrow> avc_node option" where
  "avc_search_node a ssid tsid tclass = find (key_matches ssid tsid tclass) (slots a ! avc_hash ssid tsid tclass)"

definition avc_lookup :: "selinux_avc \<Rightarrow> u32 \<Rightarrow> u32 \<Rightarrow> u16 \<Rightarrow> avc_node option" where
  "avc_lookup a ssid tsid tclass = avc_search_node a ssid tsid tclass"

definition avc_latest_notif_update :: "u32 \<Rightarrow> bool \<Rightarrow> selinux_avc \<Rightarrow> rc \<times> selinux_avc" where
  "avc_latest_notif_update seqn is_insert a =
     (if is_insert then if seqn < latest_notif a then (Err EAGAIN, a) else (OK, a)
      else if seqn > latest_notif a then (OK, a\<lparr>latest_notif := seqn\<rparr>) else (OK, a))"

text \<open>A node of the key is replaced; without one the new node becomes the first of its slot.\<close>

definition avc_link_node :: "avc_node \<Rightarrow> selinux_avc \<Rightarrow> selinux_avc" where
  "avc_link_node node a =
     (let P = key_matches (ae_ssid node) (ae_tsid node) (ae_tclass node);
          h = avc_hash (ae_ssid node) (ae_tsid node) (ae_tclass node)
      in if find P (slots a ! h) \<noteq> None then avc_node_replace h P node a
         else a\<lparr>slots := (slots a)[h := node # slots a ! h]\<rparr>)"

definition avc_insert ::
  "u32 \<Rightarrow> u32 \<Rightarrow> u16 \<Rightarrow> av_decision \<Rightarrow> avc_xperms_node \<Rightarrow> selinux_avc \<Rightarrow> mem \<Rightarrow> selinux_avc \<times> mem" where
  "avc_insert ssid tsid tclass avd xp_node a m =
     (if fst (avc_latest_notif_update (seqno avd) True a) \<noteq> OK then (a, m)
      else case avc_alloc_node a m of
             (False, a, m) \<Rightarrow> (a, m)
           | (True, a, m) \<Rightarrow>
               (case avc_xperms_populate (avc_node_populate ssid tsid tclass avd) xp_node m of
                  (Err e, _, m) \<Rightarrow> (avc_node_kill a, m)
                | (OK, node, m) \<Rightarrow> (avc_link_node node a, m)))"

text \<open>The change of the copied node by the event; an unknown event changes nothing.\<close>

definition update_event ::
  "u32 \<Rightarrow> u32 \<Rightarrow> u8 \<Rightarrow> u8 \<Rightarrow> extended_perms_decision option \<Rightarrow> u32 \<Rightarrow> avc_node \<Rightarrow> mem \<Rightarrow> (rc \<times> avc_node \<times> mem) option" where
  "update_event event perms driver xperm xpd flags node m =
     (let avd = ae_avd node; set_avd = (\<lambda>d. Some (OK, node\<lparr>ae_avd := d\<rparr>, m))
      in if event = AVC_CALLBACK_GRANT
         then Some (OK, node\<lparr>ae_avd := avd\<lparr>allowed := allowed avd OR perms\<rparr>,
                       ae_xp_node := if flags AND AVC_EXTENDED_PERMS \<noteq> 0
                                     then map_option (\<lambda>xn. avc_xperms_allow_perm xn driver xperm) (ae_xp_node node)
                                     else ae_xp_node node\<rparr>, m)
         else if event = AVC_CALLBACK_TRY_REVOKE \<or> event = AVC_CALLBACK_REVOKE
         then set_avd (avd\<lparr>allowed := allowed avd AND NOT perms\<rparr>)
         else if event = AVC_CALLBACK_AUDITALLOW_ENABLE then set_avd (avd\<lparr>auditallow := auditallow avd OR perms\<rparr>)
         else if event = AVC_CALLBACK_AUDITALLOW_DISABLE then set_avd (avd\<lparr>auditallow := auditallow avd AND NOT perms\<rparr>)
         else if event = AVC_CALLBACK_AUDITDENY_ENABLE then set_avd (avd\<lparr>auditdeny := auditdeny avd OR perms\<rparr>)
         else if event = AVC_CALLBACK_AUDITDENY_DISABLE then set_avd (avd\<lparr>auditdeny := auditdeny avd AND NOT perms\<rparr>)
         else if event = AVC_CALLBACK_ADD_XPERMS
         then case xpd of None \<Rightarrow> None | Some x \<Rightarrow> avc_add_xperms_decision node x m
         else Some (OK, node, m))"

definition avc_update_node ::
  "u32 \<Rightarrow> u32 \<Rightarrow> u8 \<Rightarrow> u8 \<Rightarrow> u32 \<Rightarrow> u32 \<Rightarrow> u16 \<Rightarrow> u32 \<Rightarrow> extended_perms_decision option \<Rightarrow> u32 \<Rightarrow>
   selinux_avc \<Rightarrow> mem \<Rightarrow> (rc \<times> selinux_avc \<times> mem) option" where
  "avc_update_node event perms driver xperm ssid tsid tclass seqn xpd flags a m =
     (case avc_alloc_node a m of
        (False, a, m) \<Rightarrow> Some (Err ENOMEM, a, m)
      | (True, a, m) \<Rightarrow>
          (let h = avc_hash ssid tsid tclass;
               P = (\<lambda>n. key_matches ssid tsid tclass n \<and> seqno (ae_avd n) = seqn)
           in case find P (slots a ! h) of
                None \<Rightarrow> Some (Err ENOENT, avc_node_kill a, m)
              | Some orig \<Rightarrow>
                  (let node = avc_node_populate ssid tsid tclass (ae_avd orig)
                   in case (case ae_xp_node orig of None \<Rightarrow> (OK, node, m) | Some xn \<Rightarrow> avc_xperms_populate node xn m) of
                        (Err e, _, m) \<Rightarrow> Some (Err e, avc_node_kill a, m)
                      | (OK, node, m) \<Rightarrow>
                          (case update_event event perms driver xperm xpd flags node m of
                             None \<Rightarrow> None
                           | Some (Err e, _, m) \<Rightarrow> Some (Err e, avc_node_kill a, m)
                           | Some (OK, node, m) \<Rightarrow> Some (OK, avc_node_replace h P node a, m)))))"

definition avc_flush :: "selinux_avc \<Rightarrow> selinux_avc" where
  "avc_flush a = a\<lparr>slots := map (\<lambda>_. []) (slots a), active_nodes := active_nodes a - of_nat (sum_list (map length (slots a)))\<rparr>"

section \<open>Callbacks\<close>

text \<open>A callback is the function with the events it is called for; its own effects are outside the cache.\<close>

type_synonym avc_callbacks = "((u32 \<Rightarrow> rc) \<times> u32) list"

definition avc_add_callback :: "(u32 \<Rightarrow> rc) \<Rightarrow> u32 \<Rightarrow> avc_callbacks \<Rightarrow> mem \<Rightarrow> rc \<times> avc_callbacks \<times> mem" where
  "avc_add_callback f events cs m =
     (case kalloc m of (False, m) \<Rightarrow> (Err ENOMEM, cs, m) | (True, m) \<Rightarrow> (OK, (f, events) # cs, m))"

text \<open>All callbacks run; the first error is kept.\<close>

fun run_callbacks :: "u32 \<Rightarrow> avc_callbacks \<Rightarrow> rc \<Rightarrow> rc" where
  "run_callbacks event [] rc = rc"
| "run_callbacks event ((f, events) # cs) rc =
     (if events AND event \<noteq> 0 then run_callbacks event cs (if rc = OK then f event else rc) else run_callbacks event cs rc)"

definition avc_ss_reset :: "avc_callbacks \<Rightarrow> u32 \<Rightarrow> selinux_avc \<Rightarrow> rc \<times> selinux_avc" where
  "avc_ss_reset cs seqn a =
     (let a = avc_flush a; rc = run_callbacks AVC_CALLBACK_RESET cs OK
      in (rc, snd (avc_latest_notif_update seqn False a)))"

definition avc_policy_seqno :: "selinux_avc \<Rightarrow> u32" where
  "avc_policy_seqno a = latest_notif a"

section \<open>Permission checks\<close>

definition avc_compute_av ::
  "selinux_state \<Rightarrow> u32 \<Rightarrow> u32 \<Rightarrow> u16 \<Rightarrow> extended_perms \<Rightarrow> selinux_avc \<Rightarrow> mem \<Rightarrow>
   (av_decision \<times> avc_xperms_node \<times> selinux_avc \<times> mem) option" where
  "avc_compute_av st ssid tsid tclass junk a m =
     (case security_compute_av st ssid tsid tclass junk of
        None \<Rightarrow> None
      | Some (avd, xp) \<Rightarrow>
          (let xn = \<lparr>xn_xp = xp, xn_xpds = []\<rparr>
           in case avc_insert ssid tsid tclass avd xn a m of (a, m) \<Rightarrow> Some (avd, xn, a, m)))"

definition avc_denied ::
  "bool \<Rightarrow> u32 \<Rightarrow> u32 \<Rightarrow> u16 \<Rightarrow> u32 \<Rightarrow> u8 \<Rightarrow> u8 \<Rightarrow> u32 \<Rightarrow> av_decision \<Rightarrow> selinux_avc \<Rightarrow> mem \<Rightarrow>
   (rc \<times> selinux_avc \<times> mem) option" where
  "avc_denied enf ssid tsid tclass requested driver xperm flags avd a m =
     (if flags AND AVC_STRICT \<noteq> 0 then Some (Err EACCES, a, m)
      else if enf \<and> avd_flags avd AND AVD_FLAGS_PERMISSIVE = 0 then Some (Err EACCES, a, m)
      else case avc_update_node AVC_CALLBACK_GRANT requested driver xperm ssid tsid tclass (seqno avd) None flags a m of
             None \<Rightarrow> None
           | Some (_, a, m) \<Rightarrow> Some (OK, a, m))"

definition avc_perm_nonode ::
  "selinux_state \<Rightarrow> u32 \<Rightarrow> u32 \<Rightarrow> u16 \<Rightarrow> u32 \<Rightarrow> u32 \<Rightarrow> extended_perms \<Rightarrow> selinux_avc \<Rightarrow> mem \<Rightarrow>
   (rc \<times> av_decision \<times> selinux_avc \<times> mem) option" where
  "avc_perm_nonode st ssid tsid tclass requested flags junk a m =
     (case avc_compute_av st ssid tsid tclass junk a m of
        None \<Rightarrow> None
      | Some (avd, _, a, m) \<Rightarrow>
          if requested AND NOT (allowed avd) \<noteq> 0
          then case avc_denied (enforcing st) ssid tsid tclass requested 0 0 flags avd a m of
                 None \<Rightarrow> None | Some (rc, a, m) \<Rightarrow> Some (rc, avd, a, m)
          else Some (OK, avd, a, m))"

text \<open>With no permission requested the decision of the caller stays as it is, here \<open>avd0\<close>.\<close>

definition avc_has_perm_noaudit ::
  "selinux_state \<Rightarrow> u32 \<Rightarrow> u32 \<Rightarrow> u16 \<Rightarrow> u32 \<Rightarrow> u32 \<Rightarrow> av_decision \<Rightarrow> extended_perms \<Rightarrow> selinux_avc \<Rightarrow> mem \<Rightarrow>
   (rc \<times> av_decision \<times> selinux_avc \<times> mem) option" where
  "avc_has_perm_noaudit st ssid tsid tclass requested flags avd0 junk a m =
     (if requested = 0 then Some (Err EACCES, avd0, a, m)
      else case avc_lookup a ssid tsid tclass of
             None \<Rightarrow> avc_perm_nonode st ssid tsid tclass requested flags junk a m
           | Some node \<Rightarrow>
               if requested AND NOT (allowed (ae_avd node)) \<noteq> 0
               then case avc_denied (enforcing st) ssid tsid tclass requested 0 0 flags (ae_avd node) a m of
                      None \<Rightarrow> None | Some (rc, a, m) \<Rightarrow> Some (rc, ae_avd node, a, m)
               else Some (OK, ae_avd node, a, m))"

section \<open>Auditing\<close>

text \<open>The permissions to audit and those denied.\<close>

definition avc_audit_required :: "u32 \<Rightarrow> av_decision \<Rightarrow> rc \<Rightarrow> u32 \<Rightarrow> u32 \<times> u32" where
  "avc_audit_required requested avd result auditdny =
     (let denied = requested AND NOT (allowed avd)
      in if denied \<noteq> 0
         then (if auditdny \<noteq> 0 \<and> auditdny AND auditdeny avd = 0 then 0 else denied AND auditdeny avd, denied)
         else if result \<noteq> OK then (requested, requested)
         else (requested AND auditallow avd, denied))"

definition avc_xperms_audit_required ::
  "u32 \<Rightarrow> av_decision \<Rightarrow> extended_perms_decision option \<Rightarrow> u8 \<Rightarrow> rc \<Rightarrow> u32 \<times> u32" where
  "avc_xperms_audit_required requested avd xpd perm result =
     (let denied = requested AND NOT (allowed avd)
      in if denied \<noteq> 0
         then (let audited = denied AND auditdeny avd
               in (case xpd of
                     Some x \<Rightarrow> if audited \<noteq> 0 \<and> avc_xperms_has_perm x perm XPERMS_DONTAUDIT then audited AND NOT requested else audited
                   | None \<Rightarrow> audited, denied))
         else if result \<noteq> OK then (requested, requested)
         else (let audited = requested AND auditallow avd
               in (case xpd of
                     Some x \<Rightarrow> if audited \<noteq> 0 \<and> \<not> avc_xperms_has_perm x perm XPERMS_AUDITALLOW then audited AND NOT requested else audited
                   | None \<Rightarrow> audited, denied)))"

record selinux_audit_data =
  sad_ssid :: u32
  sad_tsid :: u32
  sad_tclass :: u16
  sad_requested :: u32
  sad_audited :: u32
  sad_denied :: u32
  sad_result :: rc

text \<open>
  The record handed to the audit system. \<open>nclasses\<close> is the length of \<open>secclass_map\<close>, with its last,
  empty entry.
\<close>

definition slow_avc_audit ::
  "nat \<Rightarrow> u32 \<Rightarrow> u32 \<Rightarrow> u16 \<Rightarrow> u32 \<Rightarrow> u32 \<Rightarrow> u32 \<Rightarrow> rc \<Rightarrow> rc \<times> selinux_audit_data option" where
  "slow_avc_audit nclasses ssid tsid tclass requested audited denied result =
     (if tclass = 0 \<or> unat tclass \<ge> nclasses then (Err EINVAL, None)
      else (OK, Some \<lparr>sad_ssid = ssid, sad_tsid = tsid, sad_tclass = tclass, sad_requested = requested,
                       sad_audited = audited, sad_denied = denied, sad_result = result\<rparr>))"

definition avc_audit :: "nat \<Rightarrow> u32 \<Rightarrow> u32 \<Rightarrow> u16 \<Rightarrow> u32 \<Rightarrow> av_decision \<Rightarrow> rc \<Rightarrow> rc \<times> selinux_audit_data option" where
  "avc_audit nclasses ssid tsid tclass requested avd result =
     (case avc_audit_required requested avd result 0 of
        (audited, denied) \<Rightarrow>
          if audited = 0 then (OK, None) else slow_avc_audit nclasses ssid tsid tclass requested audited denied result)"

definition avc_xperms_audit ::
  "nat \<Rightarrow> u32 \<Rightarrow> u32 \<Rightarrow> u16 \<Rightarrow> u32 \<Rightarrow> av_decision \<Rightarrow> extended_perms_decision option \<Rightarrow> u8 \<Rightarrow> rc \<Rightarrow>
   rc \<times> selinux_audit_data option" where
  "avc_xperms_audit nclasses ssid tsid tclass requested avd xpd perm result =
     (case avc_xperms_audit_required requested avd xpd perm result of
        (audited, denied) \<Rightarrow>
          if audited = 0 then (OK, None) else slow_avc_audit nclasses ssid tsid tclass requested audited denied result)"

definition avc_has_perm ::
  "nat \<Rightarrow> selinux_state \<Rightarrow> u32 \<Rightarrow> u32 \<Rightarrow> u16 \<Rightarrow> u32 \<Rightarrow> av_decision \<Rightarrow> extended_perms \<Rightarrow> selinux_avc \<Rightarrow> mem \<Rightarrow>
   (rc \<times> selinux_audit_data option \<times> selinux_avc \<times> mem) option" where
  "avc_has_perm nclasses st ssid tsid tclass requested avd0 junk a m =
     (case avc_has_perm_noaudit st ssid tsid tclass requested 0 avd0 junk a m of
        None \<Rightarrow> None
      | Some (rc, avd, a, m) \<Rightarrow>
          (case avc_audit nclasses ssid tsid tclass requested avd rc of
             (rc2, rec) \<Rightarrow> Some (if rc2 \<noteq> OK then rc2 else rc, rec, a, m)))"

text \<open>
  The line of the record in front of the object's data: the verdict and the names of the audited
  permissions; bits without a name are printed as a number. \<open>perms\<close> are the names of the class.
\<close>

fun hex_digits :: "nat \<Rightarrow> string" where
  "hex_digits n = (if n < 16 then [''0123456789abcdef'' ! n] else hex_digits (n div 16) @ [''0123456789abcdef'' ! (n mod 16)])"

definition audited_perms :: "string option list \<Rightarrow> u32 \<Rightarrow> string list \<times> u32" where
  "audited_perms perms av =
     foldl (\<lambda>(names, av) i. case perms ! i of
              Some n \<Rightarrow> if bit av i then (names @ [n], av AND NOT (push_bit i 1)) else (names, av)
            | None \<Rightarrow> (names, av)) ([], av) [0..<32]"

definition avc_audit_pre_callback :: "(nat \<Rightarrow> string option list) \<Rightarrow> selinux_audit_data \<Rightarrow> string" where
  "avc_audit_pre_callback perms sad =
     ''avc:  '' @ (if sad_denied sad \<noteq> 0 then ''denied'' else ''granted'') @ '' '' @
     (if sad_audited sad = 0 then '' null''
      else case audited_perms (perms (unat (sad_tclass sad - 1))) (sad_audited sad) of
             (names, av) \<Rightarrow> '' {'' @ concat (map (\<lambda>n. '' '' @ n) names) @
               (if av \<noteq> 0 then '' 0x'' @ hex_digits (unat av) else '''') @ '' } for '')"

section \<open>Extended permission checks\<close>

text \<open>The decision for a driver: from the node, or computed and added to the node.\<close>

definition xperms_decide ::
  "selinux_state \<Rightarrow> u32 \<Rightarrow> u32 \<Rightarrow> u16 \<Rightarrow> u32 \<Rightarrow> u8 \<Rightarrow> u8 \<Rightarrow> extended_perms_decision \<Rightarrow> av_decision \<Rightarrow> avc_xperms_node \<Rightarrow>
   selinux_avc \<Rightarrow> mem \<Rightarrow> (av_decision \<times> extended_perms_decision option \<times> selinux_avc \<times> mem) option" where
  "xperms_decide st ssid tsid tclass requested driver xperm junk avd xn a m =
     (let check = (\<lambda>x a m. Some (if avc_xperms_has_perm x xperm XPERMS_ALLOWED then avd
                                  else avd\<lparr>allowed := allowed avd AND NOT requested\<rparr>, Some x, a, m))
      in case avc_xperms_decision_lookup driver xn of
           Some x \<Rightarrow> check (avc_quick_copy_xperms_decision xperm junk x) a m
         | None \<Rightarrow>
             if \<not> security_xperm_test (xp_drivers (xn_xp xn)) driver
             then Some (avd\<lparr>allowed := allowed avd AND NOT requested\<rparr>, None, a, m)
             else case security_compute_xperms_decision st ssid tsid tclass driver of
                    None \<Rightarrow> None
                  | Some x \<Rightarrow>
                      (case avc_update_node AVC_CALLBACK_ADD_XPERMS requested driver xperm ssid tsid tclass (seqno avd)
                              (Some x) 0 a m of
                         None \<Rightarrow> None
                       | Some (_, a, m) \<Rightarrow> check x a m))"

definition avc_has_extended_perms ::
  "nat \<Rightarrow> selinux_state \<Rightarrow> u32 \<Rightarrow> u32 \<Rightarrow> u16 \<Rightarrow> u32 \<Rightarrow> u8 \<Rightarrow> u8 \<Rightarrow> extended_perms \<Rightarrow> extended_perms_decision \<Rightarrow>
   selinux_avc \<Rightarrow> mem \<Rightarrow> (rc \<times> selinux_audit_data option \<times> selinux_avc \<times> mem) option" where
  "avc_has_extended_perms nclasses st ssid tsid tclass requested driver xperm junk junkd a m =
     (if requested = 0 then Some (Err EACCES, None, a, m)
      else case (case avc_lookup a ssid tsid tclass of
                   None \<Rightarrow> map_option (\<lambda>(avd, xn, a, m). (avd, Some xn, a, m)) (avc_compute_av st ssid tsid tclass junk a m)
                 | Some node \<Rightarrow> Some (ae_avd node, ae_xp_node node, a, m)) of
             None \<Rightarrow> None
           | Some (avd, xp_node, a, m) \<Rightarrow>
               (case (case xp_node of
                        None \<Rightarrow> Some (avd, None, a, m)
                      | Some xn \<Rightarrow>
                          if xp_len (xn_xp xn) = 0 then Some (avd, None, a, m)
                          else xperms_decide st ssid tsid tclass requested driver xperm junkd avd xn a m) of
                  None \<Rightarrow> None
                | Some (avd, xpd, a, m) \<Rightarrow>
                    (case (if requested AND NOT (allowed avd) \<noteq> 0
                           then avc_denied (enforcing st) ssid tsid tclass requested driver xperm AVC_EXTENDED_PERMS avd a m
                           else Some (OK, a, m)) of
                       None \<Rightarrow> None
                     | Some (rc, a, m) \<Rightarrow>
                         (case avc_xperms_audit nclasses ssid tsid tclass requested avd xpd xperm rc of
                            (rc2, rec) \<Rightarrow> Some (if rc2 \<noteq> OK then rc2 else rc, rec, a, m)))))"

section \<open>Well-formed caches\<close>

definition avc_key :: "avc_node \<Rightarrow> u32 \<times> u32 \<times> u16" where
  "avc_key n = (ae_ssid n, ae_tsid n, ae_tclass n)"

definition key_hash :: "u32 \<times> u32 \<times> u16 \<Rightarrow> nat" where
  "key_hash k = (case k of (s, t, c) \<Rightarrow> avc_hash s t c)"

definition avc_total :: "selinux_avc \<Rightarrow> nat" where
  "avc_total a = sum_list (map length (slots a))"

definition slot_ok :: "nat \<Rightarrow> avc_node list \<Rightarrow> bool" where
  "slot_ok h l \<longleftrightarrow> distinct (map avc_key l) \<and> (\<forall>n \<in> set l. key_hash (avc_key n) = h)"

text \<open>Every node is in the slot of its key, no key occurs twice, and \<open>j\<close> nodes are counted but not linked.\<close>

definition avc_wf_but :: "nat \<Rightarrow> selinux_avc \<Rightarrow> bool" where
  "avc_wf_but j a \<longleftrightarrow> length (slots a) = AVC_CACHE_SLOTS \<and> (\<forall>h < AVC_CACHE_SLOTS. slot_ok h (slots a ! h)) \<and>
     active_nodes a = of_nat (avc_total a + j)"

abbreviation avc_wf :: "selinux_avc \<Rightarrow> bool" where "avc_wf \<equiv> avc_wf_but 0"

lemma key_matches_iff: "key_matches s t c n \<longleftrightarrow> avc_key n = (s, t, c)"
  by (auto simp: key_matches_def avc_key_def)

lemma and_511_less: "unat ((w :: u32) AND 511) < 512"
proof -
  have "w AND 511 = take_bit 9 w"
    by (simp add: take_bit_eq_mask mask_eq_exp_minus_1)
  moreover have "take_bit 9 (unat w) < 2 ^ 9" by (rule take_bit_nat_less_exp)
  moreover have "(2 :: nat) ^ 9 = 512" by simp
  ultimately show ?thesis
    by (simp only: unsigned_take_bit_eq)
qed

lemma avc_hash_less [simp]: "avc_hash s t c < 512"
  unfolding avc_hash_def by (rule and_511_less)

lemma avc_wf_init: "avc_wf (selinux_avc_init a)"
  by (simp add: avc_wf_but_def selinux_avc_init_def slot_ok_def avc_total_def map_replicate sum_list_replicate)

lemma find_distinct_key:
  assumes "distinct (map f l)"
  shows "find (\<lambda>x. f x = k) l = Some n \<longleftrightarrow> n \<in> set l \<and> f n = k"
  using assms by (induction l) auto

lemma avc_lookup_iff:
  assumes "avc_wf_but j a"
  shows "avc_lookup a s t c = Some n \<longleftrightarrow> n \<in> set (slots a ! avc_hash s t c) \<and> avc_key n = (s, t, c)"
proof -
  have "distinct (map avc_key (slots a ! avc_hash s t c))"
    using assms by (simp add: avc_wf_but_def slot_ok_def)
  then show ?thesis
    unfolding avc_lookup_def avc_search_node_def key_matches_iff by (rule find_distinct_key)
qed

text \<open>The change of one slot.\<close>

lemma sum_list_slot_update:
  assumes "h < length ls"
  shows "sum_list (map length (ls[h := l])) + length (ls ! h) = sum_list (map length ls) + length l"
  using assms by (induction ls arbitrary: h) (auto simp: nth_Cons split: nat.splits)

lemma slot_update_wf:
  assumes "avc_wf_but j a" "h < 512" "slot_ok h l" "n = of_nat (avc_total (a\<lparr>slots := (slots a)[h := l]\<rparr>) + j')"
  shows "avc_wf_but j' (a\<lparr>slots := (slots a)[h := l], active_nodes := n\<rparr>)"
  using assms by (auto simp: avc_wf_but_def avc_total_def nth_list_update)

lemma slot_ok_keys: "slot_ok h l \<longleftrightarrow> distinct (map avc_key l) \<and> (\<forall>k \<in> set (map avc_key l). key_hash k = h)"
  by (simp add: slot_ok_def)

lemma slot_ok_drop: "slot_ok h l \<Longrightarrow> slot_ok h (drop k l)"
  by (auto simp: slot_ok_def drop_map [symmetric] dest: in_set_dropD)

lemma avc_total_delete:
  assumes "avc_wf_but j a" "h < 512" "k \<le> length (slots a ! h)"
  shows "avc_total (avc_delete_nodes h k a) + k = avc_total a"
  using sum_list_slot_update [of h "slots a" "drop k (slots a ! h)"] assms
  by (simp add: avc_wf_but_def avc_total_def avc_delete_nodes_def)

lemma avc_delete_wf:
  assumes "avc_wf_but j a" "h < 512" "k \<le> length (slots a ! h)"
  shows "avc_wf_but j (avc_delete_nodes h k a)"
proof -
  let ?n = "avc_total (a\<lparr>slots := (slots a)[h := drop k (slots a ! h)]\<rparr>)"
  have "avc_total a = ?n + k"
    using avc_total_delete [OF assms] by (simp add: avc_total_def avc_delete_nodes_def)
  then have "active_nodes a = of_nat ?n + of_nat k + of_nat j"
    using assms(1) by (simp only: avc_wf_but_def of_nat_add)
  then have "active_nodes a - of_nat k = of_nat (?n + j)"
    by simp
  then show ?thesis
    unfolding avc_delete_nodes_def
    using assms by (intro slot_update_wf [of j] slot_ok_drop) (auto simp: avc_wf_but_def)
qed

text \<open>What an operation leaves of a cache: the settings, and some of the nodes.\<close>

definition avc_shrinks :: "selinux_avc \<Rightarrow> selinux_avc \<Rightarrow> bool" where
  "avc_shrinks a a' \<longleftrightarrow> (\<forall>h < 512. set (slots a' ! h) \<subseteq> set (slots a ! h)) \<and> latest_notif a' = latest_notif a \<and>
     avc_cache_threshold a' = avc_cache_threshold a"

lemma avc_shrinks_refl: "avc_shrinks a a"
  by (simp add: avc_shrinks_def)

lemma avc_shrinks_trans: "avc_shrinks a b \<Longrightarrow> avc_shrinks b c \<Longrightarrow> avc_shrinks a c"
  by (force simp: avc_shrinks_def)

lemma avc_shrinks_delete: "avc_wf_but j a \<Longrightarrow> h < 512 \<Longrightarrow> avc_shrinks a (avc_delete_nodes h k a)"
  by (auto simp: avc_shrinks_def avc_delete_nodes_def avc_wf_but_def nth_list_update dest: in_set_dropD)

text \<open>One turn of the loop.\<close>

lemma reclaim_stepE:
  assumes "avc_wf_but j a" "ecx \<le> 16"
  obtains b h k d where "h = unat ((lru_hint a + 1) AND 511)" "h < 512" "k = min (16 - ecx) (length (slots a ! h))"
    and "avc_wf_but j b" "avc_shrinks a b" "avc_total b = avc_total a"
    and "avc_wf_but j d" "avc_shrinks a d" "avc_total d + k = avc_total a" "lru_hint d = lru_hint a + 1"
      "slots d ! h = drop k (slots a ! h)"
    and "\<And>t m. reclaim_loop (Suc t) ecx a m =
      (if \<not> fst (kalloc m) then reclaim_loop t ecx b (snd (kalloc m))
       else if ecx + k \<ge> 16 then (ecx + k, d, snd (kalloc m)) else reclaim_loop t (ecx + k) d (snd (kalloc m)))"
proof -
  define b where "b = a\<lparr>lru_hint := lru_hint a + 1\<rparr>"
  define h where "h = unat ((lru_hint a + 1) AND 511)"
  define k where "k = min (16 - ecx) (length (slots a ! h))"
  define d where "d = avc_delete_nodes h k b"
  have b: "avc_wf_but j b" "avc_shrinks a b" "avc_total b = avc_total a" "slots b = slots a" and h: "h < 512"
    using assms(1) by (simp_all add: b_def h_def avc_wf_but_def avc_total_def avc_shrinks_def and_511_less)
  have k: "k \<le> length (slots b ! h)" using b(4) by (auto simp: k_def)
  have d: "avc_wf_but j d" "avc_shrinks a d" "avc_total d + k = avc_total a"
    using avc_delete_wf [OF b(1) h k] avc_shrinks_trans [OF b(2) avc_shrinks_delete [OF b(1) h, of k]]
      avc_total_delete [OF b(1) h k] b(3)
    by (simp_all add: d_def)
  have e: "lru_hint d = lru_hint a + 1" "slots d ! h = drop k (slots a ! h)"
    using b(1,4) h by (simp_all add: d_def b_def avc_delete_nodes_def avc_wf_but_def)
  have eq: "reclaim_loop (Suc t) ecx a m =
      (if \<not> fst (kalloc m) then reclaim_loop t ecx b (snd (kalloc m))
       else if ecx + k \<ge> 16 then (ecx + k, d, snd (kalloc m)) else reclaim_loop t (ecx + k) d (snd (kalloc m)))" for t m
    using b(4)
    by (simp add: Let_def b_def [symmetric] h_def [symmetric] k_def [symmetric] d_def [symmetric] split: prod.splits bool.splits)
  show thesis
    by (rule that [OF h_def h k_def b(1-3) d e eq])
qed

lemma reclaim_loop_keeps:
  assumes "reclaim_loop t ecx a m = (n, a', m')" "avc_wf_but j a" "ecx \<le> 16"
  shows "avc_wf_but j a' \<and> avc_shrinks a a' \<and> n \<le> 16 \<and> avc_total a' + n = avc_total a + ecx"
  using assms
proof (induction t arbitrary: ecx a m)
  case 0
  then show ?case by (simp add: avc_shrinks_refl)
next
  case (Suc t)
  obtain b h k d where h: "k = min (16 - ecx) (length (slots a ! h))"
    and b: "avc_wf_but j b" "avc_shrinks a b" "avc_total b = avc_total a"
    and d: "avc_wf_but j d" "avc_shrinks a d" "avc_total d + k = avc_total a"
    and eq: "\<And>t m. reclaim_loop (Suc t) ecx a m =
      (if \<not> fst (kalloc m) then reclaim_loop t ecx b (snd (kalloc m))
       else if ecx + k \<ge> 16 then (ecx + k, d, snd (kalloc m)) else reclaim_loop t (ecx + k) d (snd (kalloc m)))"
    by (rule reclaim_stepE [OF Suc(3,4)]) (rule that; assumption)
  have k: "ecx + k \<le> 16" using h Suc(4) by simp
  consider "reclaim_loop t ecx b (snd (kalloc m)) = (n, a', m')" | "n = ecx + k" "a' = d"
    | "reclaim_loop t (ecx + k) d (snd (kalloc m)) = (n, a', m')"
    using eq Suc(2) by (auto split: if_splits)
  then show ?case
  proof cases
    case 1
    then show ?thesis using Suc(1) [OF 1 b(1) Suc(4)] avc_shrinks_trans [OF b(2)] b(3) by simp
  next
    case 2
    then show ?thesis using d k by simp
  next
    case 3
    then show ?thesis using Suc(1) [OF 3 d(1) k] avc_shrinks_trans [OF d(2)] d(3) by auto
  qed
qed

text \<open>A new node is counted first; nodes may be reclaimed for it.\<close>

lemma avc_alloc_node_keeps:
  assumes "avc_alloc_node a m = (ok, a', m')" "avc_wf a"
  shows "avc_wf_but (if ok then 1 else 0) a' \<and> avc_shrinks a a'"
proof -
  define b where "b = a\<lparr>active_nodes := active_nodes a + 1\<rparr>"
  have b: "avc_wf_but 1 b" "avc_shrinks a b"
    using assms(2) by (simp_all add: b_def avc_wf_but_def avc_shrinks_def avc_total_def add.commute)
  obtain n c m1 where r: "avc_reclaim_node b (snd (kalloc m)) = (n, c, m1)" by (metis prod_cases3)
  then have "avc_wf_but 1 c \<and> avc_shrinks b c"
    using reclaim_loop_keeps [OF _ b(1)] by (simp add: avc_reclaim_node_def)
  then show ?thesis
    using assms b r avc_shrinks_trans [OF b(2)]
    by (cases "kalloc m") (auto simp: avc_alloc_node_def Let_def b_def avc_shrinks_refl split: bool.splits if_splits)
qed

lemma avc_kill_wf: "avc_wf_but 1 a \<Longrightarrow> avc_wf (avc_node_kill a)"
  by (simp add: avc_wf_but_def avc_node_kill_def avc_total_def)

lemma avc_kill_slots [simp]: "slots (avc_node_kill a) = slots a" "latest_notif (avc_node_kill a) = latest_notif a"
    "avc_cache_threshold (avc_node_kill a) = avc_cache_threshold a"
  by (simp_all add: avc_node_kill_def)

lemma length_replace_first [simp]: "length (replace_first P y l) = length l"
  by (induction l) auto

lemma keys_replace_first:
  "(\<And>x. x \<in> set l \<Longrightarrow> P x \<Longrightarrow> f x = f y) \<Longrightarrow> map f (replace_first P y l) = map f l"
  by (induction l) auto

lemma set_replace_first:
  assumes "distinct (map f l)" "\<And>x. x \<in> set l \<Longrightarrow> P x \<Longrightarrow> f x = f y" "x \<in> set l" "P x"
  shows "set (replace_first P y l) = insert y {z \<in> set l. f z \<noteq> f y}"
  using assms
proof (induction l)
  case (Cons w l)
  show ?case
  proof (cases "P w")
    case True
    then have "f w = f y" using Cons.prems(2) by simp
    then show ?thesis using Cons.prems(1) True by (auto simp: image_iff)
  next
    case False
    then have "x \<in> set l" using Cons.prems(3,4) by auto
    moreover have "f w \<noteq> f y"
      using Cons.prems(1,2,4) \<open>x \<in> set l\<close> by (auto simp: image_iff)
    ultimately show ?thesis
      using Cons.IH [OF _ Cons.prems(2)] Cons.prems(1,4) False by auto
  qed
qed simp

lemma avc_replace_wf:
  assumes "avc_wf_but 1 a" "h < 512" "\<And>x. x \<in> set (slots a ! h) \<Longrightarrow> P x \<Longrightarrow> avc_key x = avc_key node" "x \<in> set (slots a ! h)" "P x"
  shows "avc_wf (avc_node_replace h P node a)"
proof -
  have so: "slot_ok h (slots a ! h)" using assms(1,2) by (simp add: avc_wf_but_def)
  have ks: "map avc_key (replace_first P node (slots a ! h)) = map avc_key (slots a ! h)"
    by (rule keys_replace_first) (rule assms(3))
  have "slot_ok h (replace_first P node (slots a ! h))"
    using so unfolding slot_ok_keys ks .
  moreover have "avc_total (a\<lparr>slots := (slots a)[h := replace_first P node (slots a ! h)]\<rparr>) = avc_total a"
    using sum_list_slot_update [of h "slots a" "replace_first P node (slots a ! h)"] assms(1,2)
    by (simp add: avc_wf_but_def avc_total_def)
  ultimately show ?thesis
    unfolding avc_node_replace_def using assms(1,2)
    by (intro slot_update_wf [of 1]) (simp_all add: avc_wf_but_def)
qed

lemma avc_link_eq:
  "avc_key node = (s, t, c) \<Longrightarrow> avc_link_node node a =
     (if find (key_matches s t c) (slots a ! avc_hash s t c) \<noteq> None
      then avc_node_replace (avc_hash s t c) (key_matches s t c) node a
      else a\<lparr>slots := (slots a)[avc_hash s t c := node # slots a ! avc_hash s t c]\<rparr>)"
  by (auto simp: avc_link_node_def avc_key_def Let_def)

lemma avc_link_wf:
  assumes "avc_wf_but 1 a"
  shows "avc_wf (avc_link_node node a)"
proof -
  obtain s t c where k: "avc_key node = (s, t, c)" by (cases "avc_key node")
  let ?h = "avc_hash s t c"
  let ?P = "key_matches s t c"
  note eq = avc_link_eq [OF k, of a]
  have so: "slot_ok ?h (slots a ! ?h)" using assms by (simp add: avc_wf_but_def)
  show ?thesis
  proof (cases "find ?P (slots a ! ?h)")
    case None
    have "slot_ok ?h (node # slots a ! ?h)"
      using so None k by (auto simp: slot_ok_def find_None_iff key_matches_iff key_hash_def image_iff)
    moreover have "avc_total (a\<lparr>slots := (slots a)[?h := node # slots a ! ?h]\<rparr>) = avc_total a + 1"
      using sum_list_slot_update [of ?h "slots a" "node # slots a ! ?h"] assms by (simp add: avc_wf_but_def avc_total_def)
    then have "active_nodes a = of_nat (avc_total (a\<lparr>slots := (slots a)[?h := node # slots a ! ?h]\<rparr>) + 0)"
      using assms by (simp add: avc_wf_but_def)
    ultimately have "avc_wf (a\<lparr>slots := (slots a)[?h := node # slots a ! ?h], active_nodes := active_nodes a\<rparr>)"
      by (intro slot_update_wf [OF assms]) simp_all
    then show ?thesis using eq None by simp
  next
    case (Some x)
    then have "x \<in> set (slots a ! ?h)" "?P x" by (auto simp: find_Some_iff)
    then show ?thesis
      using eq Some avc_replace_wf [OF assms, of ?h ?P node] k by (simp add: key_matches_iff)
  qed
qed

text \<open>The slots after a node was linked or replaced its predecessor.\<close>

lemma avc_replace_slots:
  assumes "avc_wf_but j a" "h < 512" "\<And>x. x \<in> set (slots a ! h) \<Longrightarrow> P x \<Longrightarrow> avc_key x = avc_key node" "x \<in> set (slots a ! h)" "P x"
    and "g < 512"
  shows "set (slots (avc_node_replace h P node a) ! g) =
    (if g = h then insert node {z \<in> set (slots a ! h). avc_key z \<noteq> avc_key node} else set (slots a ! g))"
proof -
  have "distinct (map avc_key (slots a ! h))" "length (slots a) = 512"
    using assms(1,2) by (simp_all add: avc_wf_but_def slot_ok_def)
  then show ?thesis
    using set_replace_first [of avc_key "slots a ! h" P node x] assms by (auto simp: avc_node_replace_def nth_list_update)
qed

lemma avc_link_slots:
  assumes "avc_wf_but j a" "g < 512"
  shows "set (slots (avc_link_node node a) ! g) =
    (if g = key_hash (avc_key node) then insert node {z \<in> set (slots a ! g). avc_key z \<noteq> avc_key node} else set (slots a ! g))"
proof -
  obtain s t c where k: "avc_key node = (s, t, c)" by (cases "avc_key node")
  let ?h = "avc_hash s t c"
  let ?P = "key_matches s t c"
  note eq = avc_link_eq [OF k, of a]
  show ?thesis
  proof (cases "find ?P (slots a ! ?h)")
    case None
    then show ?thesis
      using eq assms k by (auto simp: find_None_iff key_matches_iff key_hash_def avc_wf_but_def nth_list_update)
  next
    case (Some x)
    then have "x \<in> set (slots a ! ?h)" "?P x" by (auto simp: find_Some_iff)
    then show ?thesis
      using eq Some avc_replace_slots [OF assms(1), of ?h ?P node x g] assms(2) k by (simp add: key_matches_iff key_hash_def)
  qed
qed

section \<open>The cache as a lossy map\<close>

text \<open>The attempt to store a node: refused, out of memory, given up, or linked.\<close>

definition avc_put :: "u32 \<times> u32 \<times> u16 \<Rightarrow> avc_node \<Rightarrow> selinux_avc \<Rightarrow> selinux_avc \<Rightarrow> bool" where
  "avc_put k node a a' \<longleftrightarrow> avc_key node = k \<and>
     (a' = a \<or> (\<exists>m ok b m'. avc_alloc_node a m = (ok, b, m') \<and>
        (if ok then a' = avc_node_kill b \<or> a' = avc_link_node node b else a' = b)))"

lemma avc_put_same: "avc_key node = k \<Longrightarrow> avc_put k node a a"
  by (simp add: avc_put_def)

lemma avc_put_failed: "avc_key node = k \<Longrightarrow> avc_alloc_node a m = (False, b, m') \<Longrightarrow> avc_put k node a b"
  unfolding avc_put_def by (metis (full_types))

lemma avc_put_killed: "avc_key node = k \<Longrightarrow> avc_alloc_node a m = (True, b, m') \<Longrightarrow> avc_put k node a (avc_node_kill b)"
  unfolding avc_put_def by (metis (full_types))

lemma avc_put_linked: "avc_key node = k \<Longrightarrow> avc_alloc_node a m = (True, b, m') \<Longrightarrow> avc_put k node a (avc_link_node node b)"
  unfolding avc_put_def by (metis (full_types))

lemmas avc_put_intros = avc_put_same avc_put_failed avc_put_killed avc_put_linked

lemma avc_put_cases:
  assumes "avc_put k node a a'"
  obtains (same) "a' = a"
  | (failed) m m' where "avc_alloc_node a m = (False, a', m')"
  | (killed) m b m' where "avc_alloc_node a m = (True, b, m')" "a' = avc_node_kill b"
  | (linked) m b m' where "avc_alloc_node a m = (True, b, m')" "a' = avc_link_node node b"
  using assms by (auto simp: avc_put_def split: if_splits)

definition avc_look :: "selinux_avc \<Rightarrow> u32 \<times> u32 \<times> u16 \<Rightarrow> avc_node option" where
  "avc_look a k = (case k of (s, t, c) \<Rightarrow> avc_lookup a s t c)"

lemma avc_look_iff:
  "avc_wf_but j a \<Longrightarrow> avc_look a k = Some n \<longleftrightarrow> n \<in> set (slots a ! key_hash k) \<and> avc_key n = k"
  by (cases k) (simp add: avc_look_def key_hash_def avc_lookup_iff)

lemma key_hash_less [simp]: "key_hash k < 512"
  by (simp add: key_hash_def split: prod.splits)

lemma avc_shrinks_look:
  assumes "avc_wf_but j a" "avc_wf_but j' a'" "avc_shrinks a a'" "avc_look a' k = Some n"
  shows "avc_look a k = Some n"
proof -
  have "set (slots a' ! key_hash k) \<subseteq> set (slots a ! key_hash k)"
    using assms(3) key_hash_less [of k] unfolding avc_shrinks_def by blast
  then show ?thesis
    using assms(4) unfolding avc_look_iff [OF assms(1)] avc_look_iff [OF assms(2)] by blast
qed

lemma avc_link_look:
  assumes "avc_wf_but 1 a"
  shows "avc_look (avc_link_node node a) k = (if k = avc_key node then Some node else avc_look a k)"
proof -
  have "avc_look (avc_link_node node a) k = Some n \<longleftrightarrow> (if k = avc_key node then n = node else avc_look a k = Some n)" for n
    unfolding avc_look_iff [OF avc_link_wf [OF assms]] avc_look_iff [OF assms] avc_link_slots [OF assms key_hash_less] by auto
  then show ?thesis by (metis (full_types) not_Some_eq)
qed

lemma avc_flush_wf: "avc_wf a \<Longrightarrow> avc_wf (avc_flush a)"
  by (simp add: avc_wf_but_def avc_flush_def avc_total_def slot_ok_def comp_def)

lemma avc_put_wf:
  assumes "avc_wf a" "avc_put k node a a'"
  shows "avc_wf a'"
  using assms(2)
proof (cases rule: avc_put_cases)
  case (failed m m')
  then show ?thesis using avc_alloc_node_keeps [OF failed assms(1)] by simp
next
  case (killed m b m')
  then show ?thesis using avc_alloc_node_keeps [OF killed(1) assms(1)] avc_kill_wf by simp
next
  case (linked m b m')
  then show ?thesis using avc_alloc_node_keeps [OF linked(1) assms(1)] avc_link_wf by simp
qed (use assms(1) in simp)

lemma avc_put_look:
  assumes "avc_wf a" "avc_put k node a a'" "avc_look a' k' = Some w"
  shows "k' = k \<and> w = node \<or> avc_look a k' = Some w"
proof -
  have *: "avc_look a k' = Some w" if "avc_wf_but j b" "avc_shrinks a b" "avc_look b k' = Some w" for b j
    using avc_shrinks_look [OF assms(1) that] .
  from assms(2) show ?thesis
  proof (cases rule: avc_put_cases)
    case same
    then show ?thesis using assms(3) by simp
  next
    case (failed m m')
    then show ?thesis
      using avc_alloc_node_keeps [OF failed assms(1)] * [of 0 a'] assms(3) by simp
  next
    case (killed m b m')
    have "avc_look b k' = Some w" using assms(3) killed(2) by (simp add: avc_look_def avc_lookup_def avc_search_node_def)
    then show ?thesis using avc_alloc_node_keeps [OF killed(1) assms(1)] * [of 1 b] by simp
  next
    case (linked m b m')
    have k: "avc_wf_but 1 b" "avc_shrinks a b" using avc_alloc_node_keeps [OF linked(1) assms(1)] by simp_all
    then show ?thesis
      using assms(2,3) linked(2) * [of 1 b] by (auto simp: avc_link_look avc_put_def split: if_splits)
  qed
qed

interpretation avc: lossy_cache avc_wf avc_look avc_put avc_flush
proof
  show "avc_look (avc_flush a) k = None" if "avc_wf a" for a k
    using avc_look_iff [OF avc_flush_wf [OF that]] that key_hash_less [of k]
    by (cases "avc_look (avc_flush a) k") (auto simp: avc_flush_def avc_wf_but_def)
qed (rule avc_flush_wf avc_put_wf avc_put_look; assumption)+

text \<open>Insertion and update are such attempts.\<close>

lemma avc_populate_key:
  "avc_xperms_populate n xn m = (rc, n', m') \<Longrightarrow> avc_key n' = avc_key n \<and> ae_avd n' = ae_avd n"
  by (auto simp: avc_xperms_populate_def avc_key_def split: prod.splits option.splits bool.splits if_splits)

lemma avc_populate_xp:
  "avc_xperms_populate n xn m = (OK, n', m') \<Longrightarrow> ae_xp_node n = None \<Longrightarrow>
   map_option (xp_len \<circ> xn_xp) (ae_xp_node n') = (if xp_len (xn_xp xn) = 0 then None else Some (xp_len (xn_xp xn)))"
  by (auto simp: avc_xperms_populate_def split: prod.splits option.splits bool.splits if_splits)

lemma avc_node_populate_simps [simp]:
  "avc_key (avc_node_populate s t c d) = (s, t, c)" "ae_avd (avc_node_populate s t c d) = d" "ae_xp_node (avc_node_populate s t c d) = None"
  by (simp_all add: avc_node_populate_def avc_key_def)

text \<open>A node for a decision with extended permissions of \<open>len\<close> entries.\<close>

definition node_of :: "av_decision \<Rightarrow> bool \<Rightarrow> avc_node \<Rightarrow> bool" where
  "node_of avd xp n \<longleftrightarrow> ae_avd n = avd \<and> (ae_xp_node n \<noteq> None \<longleftrightarrow> xp)"

lemma avc_insert_put:
  assumes "avc_insert s t c avd xn a m = (a', m')"
  shows "\<exists>node. avc_put (s, t, c) node a a' \<and> node_of avd (xp_len (xn_xp xn) \<noteq> 0) node"
proof -
  have ex: "\<exists>node. avc_key node = (s, t, c) \<and> node_of avd (xp_len (xn_xp xn) \<noteq> 0) node"
    by (intro exI [of _ "(avc_node_populate s t c avd)\<lparr>ae_xp_node := if xp_len (xn_xp xn) = 0 then None else Some xn\<rparr>"])
      (auto simp: node_of_def avc_node_populate_def avc_key_def)
  obtain ok b m1 where al: "avc_alloc_node a m = (ok, b, m1)" by (metis prod_cases3)
  obtain rc node m2 where po: "avc_xperms_populate (avc_node_populate s t c avd) xn m1 = (rc, node, m2)" by (metis prod_cases3)
  consider "a' = a" | "\<not> ok" "a' = b" | "ok" "a' = avc_node_kill b" | "ok" "rc = OK" "a' = avc_link_node node b"
    using assms al po by (auto simp: avc_insert_def split: if_splits bool.splits option.splits)
  then show ?thesis
  proof cases
    case 4
    have "avc_key node = (s, t, c) \<and> node_of avd (xp_len (xn_xp xn) \<noteq> 0) node"
      using avc_populate_key [OF po] avc_populate_xp [OF po [unfolded 4(2)]] by (auto simp: node_of_def split: if_splits)
    then show ?thesis using 4 al avc_put_linked by metis
  qed (use ex al avc_put_intros in \<open>metis (full_types)\<close>)+
qed

lemma replace_first_key:
  assumes "distinct (map f l)" "\<And>x. P x \<Longrightarrow> f x = k" "x \<in> set l" "P x"
  shows "replace_first P y l = replace_first (\<lambda>x. f x = k) y l"
  using assms(1,3,4)
proof (induction l)
  case (Cons w l)
  show ?case
  proof (cases "P w")
    case True
    then show ?thesis using assms(2) by simp
  next
    case False
    then have x: "x \<in> set l" using Cons.prems(2,3) by auto
    have "f x = k" using assms(2) Cons.prems(3) .
    then have "f w \<noteq> k" using Cons.prems(1) x by force
    then show ?thesis using Cons x False by simp
  qed
qed simp

lemma avc_replace_is_link:
  assumes "avc_wf_but j a" "avc_key node = (s, t, c)" "find P (slots a ! avc_hash s t c) = Some orig"
    and "\<And>n. P n \<Longrightarrow> avc_key n = (s, t, c)"
  shows "avc_node_replace (avc_hash s t c) P node a = avc_link_node node a"
proof -
  let ?l = "slots a ! avc_hash s t c"
  have o: "orig \<in> set ?l" "P orig" using assms(3) by (auto simp: find_Some_iff)
  have "distinct (map avc_key ?l)" using assms(1) by (simp add: avc_wf_but_def slot_ok_def)
  then have "replace_first P node ?l = replace_first (key_matches s t c) node ?l"
    using replace_first_key [of avc_key ?l P "(s, t, c)" orig] o assms(4) by (simp add: key_matches_iff [abs_def])
  moreover have "find (key_matches s t c) ?l \<noteq> None"
    using o(1) assms(4) [OF o(2)] unfolding find_None_iff key_matches_iff by blast
  ultimately show ?thesis
    by (simp add: avc_link_eq [OF assms(2)] avc_node_replace_def)
qed

text \<open>An update either only drops nodes or stores a changed copy of the node it found.\<close>

definition copy_of :: "avc_node \<Rightarrow> avc_node \<Rightarrow> bool" where
  "copy_of orig n \<longleftrightarrow> avc_key n = avc_key orig \<and> ae_avd n = ae_avd orig \<and>
     map_option (xp_len \<circ> xn_xp) (ae_xp_node n) =
       (case ae_xp_node orig of None \<Rightarrow> None | Some xn \<Rightarrow> if xp_len (xn_xp xn) = 0 then None else Some (xp_len (xn_xp xn)))"

lemma update_event_key:
  "update_event ev perms driver xperm xpd flags n m = Some (rc, n', m') \<Longrightarrow> avc_key n' = avc_key n"
  by (auto simp: update_event_def Let_def avc_add_xperms_decision_def avc_key_def
      split: if_splits option.splits prod.splits)

lemma avc_update_cases:
  assumes "avc_update_node ev perms driver xperm s t c seqn xpd flags a m = r" "avc_wf a"
  obtains (dropped) e a' m' where "r = Some (Err e, a', m')" "avc_wf a'" "avc_shrinks a a'"
  | (bug) orig n m1 where "r = None" "avc_look a (s, t, c) = Some orig" "seqno (ae_avd orig) = seqn" "copy_of orig n"
      "update_event ev perms driver xperm xpd flags n m1 = None"
  | (updated) orig n m1 node a' m' where "r = Some (OK, a', m')" "avc_look a (s, t, c) = Some orig" "seqno (ae_avd orig) = seqn"
      "copy_of orig n" "update_event ev perms driver xperm xpd flags n m1 = Some (OK, node, m')" "avc_put (s, t, c) node a a'"
proof -
  let ?P = "\<lambda>n. key_matches s t c n \<and> seqno (ae_avd n) = seqn"
  obtain ok b m1 where al: "avc_alloc_node a m = (ok, b, m1)" by (metis prod_cases3)
  have keep: "avc_wf_but (if ok then 1 else 0) b" "avc_shrinks a b" using avc_alloc_node_keeps [OF al assms(2)] by simp_all
  have kill: "avc_wf (avc_node_kill b)" "avc_shrinks a (avc_node_kill b)" if ok
    using keep that avc_kill_wf [of b] by (simp_all add: avc_shrinks_def)
  consider (fail) "\<not> ok" | (none) "ok" "find ?P (slots b ! avc_hash s t c) = None"
    | (some) orig where "ok" "find ?P (slots b ! avc_hash s t c) = Some orig"
    by (cases "find ?P (slots b ! avc_hash s t c)") auto
  then show thesis
  proof cases
    case fail
    then show ?thesis using assms(1) al keep by (intro dropped) (auto simp: avc_update_node_def)
  next
    case none
    then show ?thesis using assms(1) al kill by (intro dropped) (auto simp: avc_update_node_def Let_def)
  next
    case some
    have o: "orig \<in> set (slots b ! avc_hash s t c)" "avc_key orig = (s, t, c)" "seqno (ae_avd orig) = seqn"
      using some(2) by (auto simp: find_Some_iff key_matches_iff)
    have look: "avc_look a (s, t, c) = Some orig"
      using o(1,2) by (intro avc_shrinks_look [OF assms(2) keep]) (simp add: avc_look_iff [OF keep(1)] key_hash_def)
    let ?n0 = "avc_node_populate s t c (ae_avd orig)"
    obtain rc n m2 where po: "(case ae_xp_node orig of None \<Rightarrow> (OK, ?n0, m1) | Some xn \<Rightarrow> avc_xperms_populate ?n0 xn m1) = (rc, n, m2)"
      by (metis prod_cases3)
    have cp: "copy_of orig n" if "rc = OK"
    proof (cases "ae_xp_node orig")
      case None
      then show ?thesis using po that o(2) by (auto simp: copy_of_def)
    next
      case (Some xn)
      then have p: "avc_xperms_populate ?n0 xn m1 = (OK, n, m2)" using po that by simp
      show ?thesis
        using avc_populate_key [OF p] avc_populate_xp [OF p] Some o(2) by (simp add: copy_of_def)
    qed
    let ?u = "update_event ev perms driver xperm xpd flags n m2"
    have eq: "r = (case rc of Err e \<Rightarrow> Some (Err e, avc_node_kill b, m2) | OK \<Rightarrow>
        (case ?u of None \<Rightarrow> None | Some (Err e, _, m) \<Rightarrow> Some (Err e, avc_node_kill b, m)
         | Some (OK, node, m) \<Rightarrow> Some (OK, avc_node_replace (avc_hash s t c) ?P node b, m)))"
      using assms(1) al some po by (simp add: avc_update_node_def Let_def split: option.splits prod.splits)
    show ?thesis
    proof (cases rc)
      case (Some e)
      then show ?thesis using eq kill some(1) by (intro dropped) auto
    next
      case None
      show ?thesis
      proof (cases ?u)
        case None
        then show ?thesis using eq \<open>rc = None\<close> look o(3) cp by (intro bug [of orig n m2]) auto
      next
        case (Some u)
        obtain rc' node m3 where u: "u = (rc', node, m3)" by (cases u)
        show ?thesis
        proof (cases rc')
          case (Some e)
          then show ?thesis using eq \<open>rc = None\<close> \<open>?u = Some u\<close> u kill some(1) by (intro dropped) auto
        next
          case None
          have key: "avc_key node = (s, t, c)"
            using update_event_key [of ev perms driver xperm xpd flags n m2] \<open>?u = Some u\<close> u cp [OF \<open>rc = None\<close>] o(2)
            by (simp add: copy_of_def)
          have "avc_node_replace (avc_hash s t c) ?P node b = avc_link_node node b"
            by (rule avc_replace_is_link [OF keep(1) key some(2)]) (simp add: key_matches_iff)
          moreover have "avc_put (s, t, c) node a (avc_link_node node b)"
            using avc_put_linked [OF key] al some(1) by simp
          ultimately show ?thesis
            using eq \<open>rc = None\<close> \<open>?u = Some u\<close> u None look o(3) cp by (intro updated [of _ m3 orig n m2 node]) auto
        qed
      qed
    qed
  qed
qed

section \<open>Coherence with the policy\<close>

lemma compute_av_junk:
  "map_option (\<lambda>(d, x). (d, xp_len x)) (security_compute_av st s t c junk) =
   map_option (\<lambda>(d, x). (d, xp_len x)) (security_compute_av st s t c junk')"
proof -
  have "context_struct_compute_av compute_av_fuel p cl sc tc avd (Some x) = context_struct_compute_av compute_av_fuel p cl sc tc avd (Some x')"
    for p cl sc tc avd x x'
    by (simp add: numeral_eq_Suc)
  from this [of _ _ _ _ _ "junk\<lparr>xp_len := 0\<rparr>" "junk'\<lparr>xp_len := 0\<rparr>"] show ?thesis
    by (simp add: security_compute_av_def Let_def split: option.splits)
qed

text \<open>Whether denials of a decision are enforced.\<close>

definition enforced :: "selinux_state \<Rightarrow> av_decision \<Rightarrow> bool" where
  "enforced st d \<longleftrightarrow> enforcing st \<and> avd_flags d AND AVD_FLAGS_PERMISSIVE = 0"

text \<open>
  A node for a key holds the decision of the security server. Only where denials are not enforced may
  it allow more.
\<close>

definition av_for :: "selinux_state \<Rightarrow> u32 \<times> u32 \<times> u16 \<Rightarrow> avc_node \<Rightarrow> bool" where
  "av_for st k n \<longleftrightarrow> (case k of (s, t, c) \<Rightarrow>
     case security_compute_av st s t c \<lparr>xp_len = 0, xp_drivers = xperms_none\<rparr> of
       None \<Rightarrow> False
     | Some (d, x) \<Rightarrow>
         ae_avd n = d\<lparr>allowed := allowed (ae_avd n)\<rparr> \<and>
         (\<exists>extra. allowed (ae_avd n) = allowed d OR extra \<and> (enforced st d \<longrightarrow> extra = 0)))"

definition avc_coherent :: "selinux_state \<Rightarrow> selinux_avc \<Rightarrow> bool" where
  "avc_coherent st a \<longleftrightarrow> avc_wf a \<and> (\<forall>k n. avc_look a k = Some n \<longrightarrow> av_for st k n)"

lemma avc_coherent_locale: "avc_coherent st a = avc.coherent (av_for st) a"
  by (simp add: avc_coherent_def avc.coherent_def)

lemmas avc_coherent_put = avc.coherent_put [of "av_for st" for st, folded avc_coherent_locale]

lemma avc_coherent_drop:
  "avc_coherent st a \<Longrightarrow> avc_wf a' \<Longrightarrow> avc_shrinks a a' \<Longrightarrow> avc_coherent st a'"
  using avc_shrinks_look by (fastforce simp: avc_coherent_def)

lemma av_for_computed:
  assumes "security_compute_av st s t c junk = Some (d, x)"
  shows "av_for st (s, t, c) n \<longleftrightarrow> ae_avd n = d\<lparr>allowed := allowed (ae_avd n)\<rparr> \<and>
     (\<exists>extra. allowed (ae_avd n) = allowed d OR extra \<and> (enforced st d \<longrightarrow> extra = 0))"
proof -
  obtain x' where "security_compute_av st s t c \<lparr>xp_len = 0, xp_drivers = xperms_none\<rparr> = Some (d, x')"
    using compute_av_junk [of st s t c junk "\<lparr>xp_len = 0, xp_drivers = xperms_none\<rparr>"] assms
    by (cases "security_compute_av st s t c \<lparr>xp_len = 0, xp_drivers = xperms_none\<rparr>") auto
  then show ?thesis by (simp add: av_for_def)
qed

lemma avc_insert_coherent:
  assumes "avc_coherent st a" "security_compute_av st s t c junk = Some (d, x)" "avc_insert s t c d xn a m = (a', m')"
  shows "avc_coherent st a'"
proof -
  obtain node where n: "avc_put (s, t, c) node a a'" "ae_avd node = d"
    using avc_insert_put [OF assms(3)] by (auto simp: node_of_def)
  have "av_for st (s, t, c) node"
    unfolding av_for_computed [OF assms(2)] using n(2) by (auto intro: exI [of _ 0])
  then show ?thesis using avc_coherent_put [OF assms(1) n(1)] by simp
qed

text \<open>A grant never dereferences a null pointer, and it happens only where denials are not enforced.\<close>

lemma avc_denied_result:
  assumes "avc_coherent st a" "security_compute_av st s t c junk = Some (d, x)" "avd_flags avd = avd_flags d"
  shows "\<exists>rc a' m'. avc_denied (enforcing st) s t c requested driver xperm flags avd a m = Some (rc, a', m') \<and> avc_coherent st a' \<and>
    rc = (if flags AND AVC_STRICT \<noteq> 0 \<or> enforced st d then Err EACCES else OK)"
proof (cases "flags AND AVC_STRICT \<noteq> 0 \<or> enforced st d")
  case True
  then show ?thesis using assms(1,3) by (auto simp: avc_denied_def enforced_def)
next
  case False
  define r where "r = avc_update_node AVC_CALLBACK_GRANT requested driver xperm s t c (seqno avd) None flags a m"
  have eq: "avc_denied (enforcing st) s t c requested driver xperm flags avd a m = map_option (\<lambda>(_, a, m). (OK, a, m)) r"
    using False assms(3) by (auto simp: avc_denied_def enforced_def r_def split: option.splits)
  have wf: "avc_wf a" using assms(1) by (simp add: avc_coherent_def)
  have "\<exists>rc a' m'. r = Some (rc, a', m') \<and> avc_coherent st a'"
  proof (cases rule: avc_update_cases [OF r_def [symmetric] wf, case_names dropped bug updated])
    case (dropped e a' m')
    then show ?thesis using avc_coherent_drop [OF assms(1)] by blast
  next
    case bug
    then show ?thesis by (simp add: update_event_def Let_def)
  next
    case (updated orig n m1 node a' m')
    have "av_for st (s, t, c) orig" using assms(1) updated(2) by (simp add: avc_coherent_def)
    then obtain extra where o: "ae_avd orig = d\<lparr>allowed := allowed (ae_avd orig)\<rparr>" "allowed (ae_avd orig) = allowed d OR extra"
      unfolding av_for_computed [OF assms(2)] by blast
    have "ae_avd node = (ae_avd orig)\<lparr>allowed := allowed (ae_avd orig) OR requested\<rparr>"
      using updated(4,5) by (auto simp: update_event_def Let_def copy_of_def)
    then have "ae_avd node = d\<lparr>allowed := allowed (ae_avd node)\<rparr>" "allowed (ae_avd node) = allowed d OR (extra OR requested)"
      using o by (cases "ae_avd orig"; simp add: or.assoc)+
    then have "av_for st (s, t, c) node"
      unfolding av_for_computed [OF assms(2)] using False by blast
    then show ?thesis using avc_coherent_put [OF assms(1) updated(6)] updated(1) by blast
  qed
  then show ?thesis using eq False by auto
qed

section \<open>Reclaim\<close>

lemma ample_tl: "ample m \<Longrightarrow> kalloc m = (ok, m') \<Longrightarrow> ok \<and> ample m'"
  by (cases m) (auto simp: ample_def)

text \<open>A loop that stops short has emptied the slots it came to.\<close>

lemma avc_shrinks_empty: "avc_shrinks a b \<Longrightarrow> h < 512 \<Longrightarrow> slots a ! h = [] \<Longrightarrow> slots b ! h = []"
  by (force simp: avc_shrinks_def)

lemma reclaim_visits:
  assumes "reclaim_loop t ecx a m = (n, a', m')" "avc_wf_but j a" "ample m" "n < 16" "ecx \<le> 16" "1 \<le> i" "i \<le> t"
  shows "slots a' ! unat ((lru_hint a + of_nat i) AND 511) = []"
  using assms
proof (induction t arbitrary: ecx a m i)
  case (Suc t)
  obtain b h k d where h: "h = unat ((lru_hint a + 1) AND 511)" "h < 512" "k = min (16 - ecx) (length (slots a ! h))"
    and d: "avc_wf_but j d" "lru_hint d = lru_hint a + 1" "slots d ! h = drop k (slots a ! h)"
    and eq: "\<And>t m. reclaim_loop (Suc t) ecx a m =
      (if \<not> fst (kalloc m) then reclaim_loop t ecx b (snd (kalloc m))
       else if ecx + k \<ge> 16 then (ecx + k, d, snd (kalloc m)) else reclaim_loop t (ecx + k) d (snd (kalloc m)))"
    by (rule reclaim_stepE [OF Suc(3,6)]) (rule that; assumption)
  have k: "ecx + k \<le> 16" using h(3) Suc(6) by simp
  have m: "fst (kalloc m)" "ample (snd (kalloc m))" using ample_tl [OF Suc(4)] by (metis prod.collapse)+
  have "(if 16 \<le> ecx + k then (ecx + k, d, snd (kalloc m)) else reclaim_loop t (ecx + k) d (snd (kalloc m))) = (n, a', m')"
    using Suc(2) unfolding eq using m(1) by argo
  then have short: "ecx + k < 16" and r: "reclaim_loop t (ecx + k) d (snd (kalloc m)) = (n, a', m')"
    using Suc(5) by (cases "16 \<le> ecx + k"; simp)+
  have "k = length (slots a ! h)" using short h(3) by (auto simp: min_def split: if_splits)
  then have "slots d ! h = []" using d(3) by simp
  then have first: "slots a' ! h = []"
    using reclaim_loop_keeps [OF r d(1) k] avc_shrinks_empty h(2) by blast
  show ?case
  proof (cases "i = 1")
    case True
    then show ?thesis using first by (simp add: h(1))
  next
    case False
    then have "slots a' ! unat ((lru_hint d + of_nat (i - 1)) AND 511) = []"
      using Suc(1) [OF r d(1) m(2) Suc(5) k, of "i - 1"] Suc(7,8) by simp
    moreover have "lru_hint d + of_nat (i - 1) = lru_hint a + of_nat i"
      using Suc(7) by (simp add: d(2) of_nat_diff)
    ultimately show ?thesis by simp
  qed
qed simp

lemma unat_and_511: "unat ((of_nat n :: u32) AND 511) = n mod 512"
proof -
  have "(of_nat n :: u32) AND 511 = take_bit 9 (of_nat n)"
    by (simp add: take_bit_eq_mask mask_eq_exp_minus_1)
  also have "\<dots> = of_nat (n mod 512)"
    by (simp only: take_bit_of_nat) (simp add: take_bit_eq_mod)
  finally have "unat ((of_nat n :: u32) AND 511) = unat (of_nat (n mod 512) :: u32)"
    by (rule arg_cong)
  also have "\<dots> = n mod 512"
    by (rule unat_u32_of_nat) (rule order_less_trans [of _ 512]; simp)
  finally show ?thesis .
qed

lemma hint_covers:
  assumes "h < 512"
  obtains i where "1 \<le> i" "i \<le> 512" "unat (((w :: u32) + of_nat i) AND 511) = h"
proof -
  have w: "unat ((w + of_nat i) AND 511) = (unat w + i) mod 512" for i
    using unat_and_511 [of "unat w + i"] by simp
  define u where "u = unat w mod 512"
  have u: "u < 512" "(unat w + i) mod 512 = (u + i) mod 512" for i
    by (simp_all add: u_def mod_add_left_eq)
  define i where "i = (if u < h then h - u else 512 + h - u)"
  have "1 \<le> i" "i \<le> 512" "(u + i) mod 512 = h"
    using assms u(1) by (auto simp: i_def)
  then show thesis
    using that [of i] by (simp only: w u(2))
qed

text \<open>With every lock free the reclaim frees sixteen nodes, or all of them.\<close>

lemma avc_reclaim_frees:
  assumes "avc_reclaim_node a m = (n, a', m')" "avc_wf_but j a" "ample m"
  shows "n = min 16 (avc_total a) \<and> avc_total a' + n = avc_total a"
proof -
  have r: "reclaim_loop 512 0 a m = (n, a', m')" using assms(1) by (simp add: avc_reclaim_node_def)
  have k: "avc_wf_but j a'" "n \<le> 16" "avc_total a' + n = avc_total a"
    using reclaim_loop_keeps [OF r assms(2)] by simp_all
  have "avc_total a' = 0" if "n < 16"
  proof -
    have "slots a' ! h = []" if "h < 512" for h
      using hint_covers [OF that, of "lru_hint a"] reclaim_visits [OF r assms(2,3) \<open>n < 16\<close>] by (metis zero_le)
    moreover have "length (slots a') = 512" using k(1) by (simp add: avc_wf_but_def)
    ultimately have "\<forall>l \<in> set (slots a'). length l = 0" by (metis in_set_conv_nth list.size(3))
    then show ?thesis unfolding avc_total_def by (simp add: sum_list_eq_0_iff)
  qed
  then show ?thesis using k(2,3) by (cases "n < 16") auto
qed

lemma reclaim_ample: "reclaim_loop t ecx a m = (n, a', m') \<Longrightarrow> ample m \<Longrightarrow> ample m'"
proof (induction t arbitrary: ecx a m)
  case (Suc t)
  obtain m1 where m: "kalloc m = (True, m1)" "ample m1" using kalloc_ampleE [OF Suc(3)] by blast
  then show ?case
    using Suc(1,2) by (auto simp: Let_def split: if_splits)
qed simp

lemma avc_alloc_ample:
  assumes "ample m"
  obtains a' m' where "avc_alloc_node a m = (True, a', m')" "ample m'"
proof -
  obtain m1 where m: "kalloc m = (True, m1)" "ample m1" using kalloc_ampleE [OF assms] by blast
  let ?b = "a\<lparr>active_nodes := active_nodes a + 1\<rparr>"
  obtain n b m2 where r: "avc_reclaim_node ?b m1 = (n, b, m2)" by (metis prod_cases3)
  have "ample m2" using reclaim_ample [OF r [unfolded avc_reclaim_node_def] m(2)] .
  then show thesis
    using that m r by (cases "avc_cache_threshold a < active_nodes a + 1") (auto simp: avc_alloc_node_def Let_def)
qed

text \<open>With memory a copy succeeds.\<close>

lemma xperms_data_alloc_ample:
  assumes "ample m"
  obtains x m' where "xperms_data_alloc w m = (True, x, m')" "ample m'"
proof -
  obtain m1 where "kalloc m = (True, m1)" "ample m1" using kalloc_ampleE [OF assms] .
  then show thesis using assms that by (cases w) (auto simp: xperms_data_alloc_def)
qed

lemma xpd_copy_ample:
  assumes "ample m"
  obtains y m' where "xpd_copy_alloc x m = (Some y, m')" "ample m'"
proof -
  obtain m1 where 1: "kalloc m = (True, m1)" "ample m1" using kalloc_ampleE [OF assms] by blast
  obtain al m2 where 2: "xperms_data_alloc (cx_used x AND XPERMS_ALLOWED \<noteq> 0) m1 = (True, al, m2)" "ample m2"
    using xperms_data_alloc_ample [OF 1(2)] by blast
  obtain au m3 where 3: "xperms_data_alloc (cx_used x AND XPERMS_AUDITALLOW \<noteq> 0) m2 = (True, au, m3)" "ample m3"
    using xperms_data_alloc_ample [OF 2(2)] by blast
  obtain da m4 where 4: "xperms_data_alloc (cx_used x AND XPERMS_DONTAUDIT \<noteq> 0) m3 = (True, da, m4)" "ample m4"
    using xperms_data_alloc_ample [OF 3(2)] by blast
  show thesis
    using that 1 2 3 4 by (simp add: xpd_copy_alloc_def avc_xperms_decision_alloc_def)
qed

lemma copy_xpds_ample:
  assumes "ample m"
  shows "\<exists>ys m'. copy_xpds xs done m = (Some ys, m') \<and> ample m'"
  using assms
proof (induction xs arbitrary: "done" m)
  case (Cons x xs)
  obtain y m' where "xpd_copy_alloc x m = (Some y, m')" "ample m'" using xpd_copy_ample [OF Cons.prems] .
  then show ?case using Cons.IH by simp
qed simp

lemma avc_populate_ample:
  assumes "ample m"
  obtains n' m' where "avc_xperms_populate n xn m = (OK, n', m')" "ample m'"
proof -
  obtain m1 where 1: "kalloc m = (True, m1)" "ample m1" using kalloc_ampleE [OF assms] by blast
  obtain ys m2 where 2: "copy_xpds (xn_xpds xn) [] m1 = (Some ys, m2)" "ample m2"
    using copy_xpds_ample [OF 1(2), of "xn_xpds xn" "[]"] by blast
  show thesis
    using that assms 1 2 by (cases "xp_len (xn_xp xn) = 0") (auto simp: avc_xperms_populate_def)
qed

lemma avc_total_link_le:
  assumes "avc_wf_but 1 a"
  shows "avc_total (avc_link_node node a) \<le> avc_total a + 1"
proof -
  have len: "length (slots a) = 512" using assms by (simp add: avc_wf_but_def)
  obtain s t c where k: "avc_key node = (s, t, c)" by (cases "avc_key node")
  let ?h = "avc_hash s t c"
  have "avc_total (a\<lparr>slots := (slots a)[?h := l]\<rparr>) \<le> avc_total a + 1" if "length l \<le> length (slots a ! ?h) + 1" for l
    using sum_list_slot_update [of ?h "slots a" l] that len by (simp add: avc_total_def)
  then show ?thesis
    unfolding avc_link_eq [OF k] avc_node_replace_def by (simp add: avc_total_def)
qed

text \<open>A cache just set up, and a decision of number 0.\<close>

abbreviation avc_fresh :: selinux_avc where "avc_fresh \<equiv> selinux_avc_init avc_static"

definition sample_avd :: av_decision where
  "sample_avd = \<lparr>allowed = 1, auditallow = 0, auditdeny = 0xffffffff, seqno = 0, avd_flags = 0\<rparr>"

lemma avc_fresh_look: "avc_look (selinux_avc_init a) k = None"
  by (cases k) (simp add: avc_look_def avc_lookup_def avc_search_node_def selinux_avc_init_def)

lemma avc_fresh_coherent: "avc_coherent st (selinux_avc_init a)"
  by (simp add: avc_coherent_def avc_wf_init avc_fresh_look)

lemma avc_fresh_alloc: "avc_alloc_node avc_fresh [] = (True, avc_fresh\<lparr>active_nodes := 1\<rparr>, [])"
  by (simp add: avc_alloc_node_def selinux_avc_init_def avc_static_def Let_def)

text \<open>The node of an insertion into a fresh cache.\<close>

lemma avc_fresh_insert:
  assumes "seqno d = 0"
  shows "avc_insert s t c d \<lparr>xn_xp = \<lparr>xp_len = 0, xp_drivers = xs\<rparr>, xn_xpds = []\<rparr> avc_fresh [] =
    (avc_link_node (avc_node_populate s t c d) (avc_fresh\<lparr>active_nodes := 1\<rparr>), [])"
proof -
  have "latest_notif avc_fresh = 0" by (simp add: selinux_avc_init_def avc_static_def)
  then show ?thesis
    using assms by (simp add: avc_insert_def avc_latest_notif_update_def avc_fresh_alloc avc_xperms_populate_def)
qed

lemma sample_insert:
  "avc_insert 1 2 3 sample_avd \<lparr>xn_xp = \<lparr>xp_len = 0, xp_drivers = xperms_none\<rparr>, xn_xpds = []\<rparr> avc_fresh [] =
    (avc_link_node (avc_node_populate 1 2 3 sample_avd) (avc_fresh\<lparr>active_nodes := 1\<rparr>), [])"
  by (rule avc_fresh_insert) (simp add: sample_avd_def)

lemma avc_fresh_linked: "avc_wf_but 1 (avc_fresh\<lparr>active_nodes := 1\<rparr>)"
  using avc_alloc_node_keeps [OF avc_fresh_alloc avc_wf_init] by simp

section \<open>Decisions in flight at a policy change\<close>

text \<open>
  A check on one CPU computes a decision and inserts it later; meanwhile another CPU may activate a new
  policy, flush the cache and announce the number of the policy, in the order of \<open>selinux_policy_commit\<close>
  and \<open>avc_ss_reset\<close>. The policy mutex admits one change at a time. With \<open>calm\<close> no insertion comes
  between the flush and the announcement.
\<close>

datatype reset_phase = Idle | Committed | Flushed

record avc_sys =
  sys_avc :: selinux_avc
  sys_seq :: u32
  sys_phase :: reset_phase
  sys_flight :: "(u32 \<times> u32 \<times> u16 \<times> av_decision) list"

inductive avc_step :: "bool \<Rightarrow> avc_sys \<Rightarrow> avc_sys \<Rightarrow> bool" for calm where
  compute: "seqno d = sys_seq y \<Longrightarrow> avc_step calm y (y\<lparr>sys_flight := (s, t, c, d) # sys_flight y\<rparr>)"
| insert: "sys_flight y = xs @ (s, t, c, d) # ys \<Longrightarrow> (calm \<Longrightarrow> sys_phase y \<noteq> Flushed) \<Longrightarrow>
    avc_insert s t c d xn (sys_avc y) m = (a', m') \<Longrightarrow> avc_step calm y (y\<lparr>sys_flight := xs @ ys, sys_avc := a'\<rparr>)"
| commit: "sys_phase y = Idle \<Longrightarrow> sys_seq y \<noteq> 0xffffffff \<Longrightarrow>
    avc_step calm y (y\<lparr>sys_seq := sys_seq y + 1, sys_phase := Committed\<rparr>)"
| flush: "sys_phase y = Committed \<Longrightarrow> avc_step calm y (y\<lparr>sys_avc := avc_flush (sys_avc y), sys_phase := Flushed\<rparr>)"
| notify: "sys_phase y = Flushed \<Longrightarrow>
    avc_step calm y (y\<lparr>sys_avc := snd (avc_latest_notif_update (sys_seq y) False (sys_avc y)), sys_phase := Idle\<rparr>)"

inductive avc_reach :: "bool \<Rightarrow> avc_sys \<Rightarrow> bool" for calm where
  start: "avc_reach calm \<lparr>sys_avc = selinux_avc_init avc_static,
    sys_seq = 0, sys_phase = Idle, sys_flight = []\<rparr>"
| step: "avc_reach calm y \<Longrightarrow> avc_step calm y y' \<Longrightarrow> avc_reach calm y'"

lemma avc_insert_notif: "avc_wf a \<Longrightarrow> avc_insert s t c d xn a m = (a', m') \<Longrightarrow> latest_notif a' = latest_notif a"
proof -
  assume a: "avc_wf a" "avc_insert s t c d xn a m = (a', m')"
  obtain node where "avc_put (s, t, c) node a a'" using avc_insert_put [OF a(2)] by blast
  then show ?thesis
    using avc_alloc_node_keeps [OF _ a(1)]
    by (cases rule: avc_put_cases)
      (auto simp: avc_shrinks_def avc_link_node_def avc_node_replace_def Let_def)
qed

lemma avc_insert_kept:
  assumes "avc_wf a" "avc_insert s t c d xn a m = (a', m')" "avc_look a' k = Some n"
  shows "avc_look a k = Some n \<or> ae_avd n = d \<and> latest_notif a \<le> seqno d"
proof (cases "seqno d < latest_notif a")
  case True
  then have "a' = a" using assms(2) by (simp add: avc_insert_def avc_latest_notif_update_def)
  then show ?thesis using assms(3) by simp
next
  case False
  obtain node where p: "avc_put (s, t, c) node a a'" "ae_avd node = d"
    using avc_insert_put [OF assms(2)] by (auto simp: node_of_def)
  then show ?thesis using avc_put_look [OF assms(1) p(1) assms(3)] False by auto
qed

definition sys_inv :: "bool \<Rightarrow> avc_sys \<Rightarrow> bool" where
  "sys_inv calm y \<longleftrightarrow> avc_wf (sys_avc y) \<and> latest_notif (sys_avc y) \<le> sys_seq y \<and>
     (\<forall>(s, t, c, d) \<in> set (sys_flight y). seqno d \<le> sys_seq y) \<and>
     (\<forall>k n. avc_look (sys_avc y) k = Some n \<longrightarrow> seqno (ae_avd n) \<le> sys_seq y \<and>
        (calm \<longrightarrow> latest_notif (sys_avc y) \<le> seqno (ae_avd n))) \<and>
     (calm \<longrightarrow> sys_phase y = Flushed \<longrightarrow> (\<forall>k. avc_look (sys_avc y) k = None))"

lemma avc_look_notif [simp]: "avc_look (a\<lparr>latest_notif := v\<rparr>) k = avc_look a k"
  by (simp add: avc_look_def avc_lookup_def avc_search_node_def)

lemma avc_wf_notif [simp]: "avc_wf_but j (a\<lparr>latest_notif := v\<rparr>) = avc_wf_but j a"
  by (simp add: avc_wf_but_def avc_total_def)

lemma seq_next_le: "x \<le> q \<Longrightarrow> q \<noteq> 0xffffffff \<Longrightarrow> x \<le> q + (1 :: u32)"
  using unat_plus_one_u32 [of q] by (simp add: word_le_nat_alt)

lemma sys_inv_step:
  assumes "avc_step calm y y'" "sys_inv calm y"
  shows "sys_inv calm y'"
  using assms
proof (cases rule: avc_step.cases)
  case (insert xs s t c d ys xn m a' m')
  have wf: "avc_wf (sys_avc y)" using assms(2) by (simp add: sys_inv_def)
  obtain node where "avc_put (s, t, c) node (sys_avc y) a'" using avc_insert_put [OF insert(4)] by blast
  then have "avc_wf a'" by (rule avc_put_wf [OF wf])
  moreover note avc_insert_notif [OF wf insert(4)] avc_insert_kept [OF wf insert(4)]
  ultimately show ?thesis
    using assms(2) insert(1-3) unfolding sys_inv_def by (fastforce simp: insert(1))
next
  case commit
  then show ?thesis using assms(2) seq_next_le by (fastforce simp: sys_inv_def)
next
  case flush
  have wf: "avc_wf (sys_avc y)" using assms(2) by (simp add: sys_inv_def)
  show ?thesis
    using assms(2) flush avc.flush_look [OF wf] avc_flush_wf [OF wf] by (auto simp: sys_inv_def avc_flush_def)
qed (auto simp: sys_inv_def avc_latest_notif_update_def)

lemma sys_inv_reach: "avc_reach calm y \<Longrightarrow> sys_inv calm y"
proof (induction rule: avc_reach.induct)
  case start
  show ?case by (simp add: sys_inv_def avc_wf_init avc_fresh_look) (simp add: selinux_avc_init_def avc_static_def)
next
  case (step y y')
  then show ?case using sys_inv_step by blast
qed

text \<open>The runs that compute a decision, and insert it at once or after the flush of a policy change.\<close>

lemma sample_run_computed:
  "avc_reach calm \<lparr>sys_avc = avc_fresh, sys_seq = 0, sys_phase = Idle, sys_flight = [(1, 2, 3, sample_avd)]\<rparr>"
  using avc_reach.step [OF avc_reach.start avc_step.compute [of sample_avd _ _ 1 2 3]] by (simp add: sample_avd_def)

lemma sample_run_inserted:
  "\<exists>y. avc_reach calm y \<and> sys_avc y = avc_link_node (avc_node_populate 1 2 3 sample_avd) (avc_fresh\<lparr>active_nodes := 1\<rparr>)"
proof -
  have "avc_step calm \<lparr>sys_avc = avc_fresh, sys_seq = 0, sys_phase = Idle, sys_flight = [] @ (1, 2, 3, sample_avd) # []\<rparr>
      (\<lparr>sys_avc = avc_fresh, sys_seq = 0, sys_phase = Idle, sys_flight = [] @ (1, 2, 3, sample_avd) # []\<rparr>
       \<lparr>sys_flight := [] @ [], sys_avc := avc_link_node (avc_node_populate 1 2 3 sample_avd) (avc_fresh\<lparr>active_nodes := 1\<rparr>)\<rparr>)"
    by (rule avc_step.insert [where s = 1 and t = 2 and c = 3 and d = sample_avd and xn = "\<lparr>xn_xp = \<lparr>xp_len = 0, xp_drivers = xperms_none\<rparr>, xn_xpds = []\<rparr>" and m = "[]" and m' = "[]"])
      (simp, simp, simp only: avc_sys.simps, rule sample_insert)
  then show ?thesis using avc_reach.step [OF sample_run_computed] by fastforce
qed

text \<open>
  With an insertion between the flush and the announcement the cache keeps a decision of the old
  policy after the change is complete.
\<close>

lemma avc_stale_reachable:
  "\<exists>y n. avc_reach False y \<and> sys_phase y = Idle \<and> avc_lookup (sys_avc y) 1 2 3 = Some n \<and>
     seqno (ae_avd n) < latest_notif (sys_avc y)"
proof -
  let ?y = "\<lambda>p a f. \<lparr>sys_avc = a, sys_seq = 1, sys_phase = p, sys_flight = f\<rparr>"
  let ?f = "[(1, 2, 3, sample_avd)]"
  let ?a = "avc_link_node (avc_node_populate 1 2 3 sample_avd) (avc_fresh\<lparr>active_nodes := 1\<rparr>)"
  have fl: "avc_flush avc_fresh = avc_fresh"
    by (simp add: avc_flush_def selinux_avc_init_def map_replicate sum_list_replicate)
  have z: "seqno sample_avd = 0" by (simp add: sample_avd_def)
  have 1: "avc_reach False (?y Committed avc_fresh ?f)"
    using avc_reach.step [OF sample_run_computed avc_step.commit] by simp
  have 2: "avc_reach False (?y Flushed avc_fresh ?f)"
    using avc_reach.step [OF 1 avc_step.flush] by (simp add: fl)
  have 3: "avc_reach False (?y Flushed ?a [])"
  proof -
    have "avc_step False (?y Flushed avc_fresh ([] @ ?f)) ((?y Flushed avc_fresh ([] @ ?f))\<lparr>sys_flight := [] @ [], sys_avc := ?a\<rparr>)"
      by (rule avc_step.insert [where s = 1 and t = 2 and c = 3 and d = sample_avd and xn = "\<lparr>xn_xp = \<lparr>xp_len = 0, xp_drivers = xperms_none\<rparr>, xn_xpds = []\<rparr>" and m = "[]" and m' = "[]"])
      (simp, simp, simp only: avc_sys.simps, rule sample_insert)
    then show ?thesis using avc_reach.step [OF 2] by simp
  qed
  have 4: "avc_reach False (?y Idle (?a\<lparr>latest_notif := 1\<rparr>) [])"
    using avc_reach.step [OF 3 avc_step.notify] avc_insert_notif [OF avc_wf_init avc_fresh_insert [OF z, of 1 2 3 xperms_none]]
    by (simp add: avc_latest_notif_update_def selinux_avc_init_def avc_static_def)
  have "avc_look (?a\<lparr>latest_notif := 1\<rparr>) (1, 2, 3) = Some (avc_node_populate 1 2 3 sample_avd)"
    using avc_link_look [OF avc_fresh_linked, of "avc_node_populate 1 2 3 sample_avd" "(1, 2, 3)"] by simp
  then have "avc_lookup (?a\<lparr>latest_notif := 1\<rparr>) 1 2 3 = Some (avc_node_populate 1 2 3 sample_avd)"
    by (simp add: avc_look_def)
  then show ?thesis
    using 4 z by (intro exI conjI) (assumption | simp)+
qed

text \<open>
  A strict check is to ignore permissive mode. Yet a permission that an earlier check in permissive mode
  has granted is granted to a strict check as well.
\<close>

lemma strict_sees_grants:
  assumes "avc_coherent st a" "security_compute_av st s t c junk = Some (d, x)" "\<not> enforced st d"
    and "avc_lookup a s t c = Some n" "requested AND NOT (allowed (ae_avd n)) = 0" "requested \<noteq> 0"
  shows "avc_has_perm_noaudit st s t c requested AVC_STRICT avd0 junk a m = Some (OK, ae_avd n, a, m)"
  using assms by (simp add: avc_has_perm_noaudit_def)

text \<open>The copy of one word is enough for the test of a permission, whatever the other words hold.\<close>

lemma quick_copy_enough:
  assumes "length (xd_allowed junk) = 8" "length (xd_auditallow junk) = 8" "length (xd_dontaudit junk) = 8"
  shows "avc_xperms_has_perm (avc_quick_copy_xperms_decision perm junk x) perm which \<longleftrightarrow>
    (which = XPERMS_ALLOWED \<and> cx_used x AND XPERMS_ALLOWED \<noteq> 0 \<and> security_xperm_test (the (cx_allowed x)) perm) \<or>
    (which = XPERMS_AUDITALLOW \<and> cx_used x AND XPERMS_AUDITALLOW \<noteq> 0 \<and> security_xperm_test (the (cx_auditallow x)) perm) \<or>
    (which = XPERMS_DONTAUDIT \<and> cx_used x AND XPERMS_DONTAUDIT \<noteq> 0 \<and> security_xperm_test (the (cx_dontaudit x)) perm)"
proof -
  have "unat (drop_bit 5 perm) < 8"
    using unat_u8_bound [of perm] unfolding unat_high3 by linarith
  then show ?thesis
    using assms by (auto simp: avc_xperms_has_perm_def avc_quick_copy_xperms_decision_def quick_copy_word_def security_xperm_test_def Let_def)
qed

section \<open>Properties\<close>

text \<open>
  C4. The cache never changes the answer of the security server. With a cache that is coherent with the
  policy, a permission check returns, stays coherent, and where denials are enforced it grants
  exactly the requests that the policy's decision allows; a request that the policy allows is granted
  in every case, and the only refusal is \<open>EACCES\<close>.
\<close>

theorem avc_decides:
  assumes "avc_coherent st a" "security_compute_av st s t c junk = Some (d, x)" "requested \<noteq> 0"
  shows "\<exists>rc avd a' m'. avc_has_perm_noaudit st s t c requested flags avd0 junk a m = Some (rc, avd, a', m') \<and> avc_coherent st a' \<and>
    (requested AND NOT (allowed d) = 0 \<longrightarrow> rc = OK) \<and>
    (requested AND NOT (allowed d) \<noteq> 0 \<longrightarrow> enforced st d \<longrightarrow> rc = Err EACCES) \<and>
    (\<not> enforced st d \<longrightarrow> flags AND AVC_STRICT = 0 \<longrightarrow> rc = OK) \<and>
    (rc = OK \<or> rc = Err EACCES)"
proof (cases "avc_look a (s, t, c)")
  case None
  obtain b m1 where ins: "avc_insert s t c d \<lparr>xn_xp = x, xn_xpds = []\<rparr> a m = (b, m1)" by (cases "avc_insert s t c d \<lparr>xn_xp = x, xn_xpds = []\<rparr> a m")
  have b: "avc_coherent st b" by (rule avc_insert_coherent [OF assms(1,2) ins])
  obtain rc a' m' where den: "avc_denied (enforcing st) s t c requested 0 0 flags d b m1 = Some (rc, a', m')" "avc_coherent st a'"
      "rc = (if flags AND AVC_STRICT \<noteq> 0 \<or> enforced st d then Err EACCES else OK)"
    using avc_denied_result [OF b assms(2) refl] by blast
  then show ?thesis
    using None b ins assms(2,3)
    by (simp add: avc_has_perm_noaudit_def avc_look_def avc_perm_nonode_def avc_compute_av_def)
next
  case (Some n)
  have n: "ae_avd n = d\<lparr>allowed := allowed (ae_avd n)\<rparr>" "\<exists>extra. allowed (ae_avd n) = allowed d OR extra \<and> (enforced st d \<longrightarrow> extra = 0)"
    using assms(1) Some av_for_computed [OF assms(2), of n] by (simp_all add: avc_coherent_def)
  have fl: "avd_flags (ae_avd n) = avd_flags d" by (subst n(1)) simp
  have more: "requested AND NOT (allowed d) = 0 \<Longrightarrow> requested AND NOT (allowed (ae_avd n)) = 0"
    and same: "enforced st d \<Longrightarrow> allowed (ae_avd n) = allowed d"
    using n(2) by (auto simp: bit_eq_iff bit_simps)
  obtain rc a' m' where den: "avc_denied (enforcing st) s t c requested 0 0 flags (ae_avd n) a m = Some (rc, a', m')" "avc_coherent st a'"
      "rc = (if flags AND AVC_STRICT \<noteq> 0 \<or> enforced st d then Err EACCES else OK)"
    using avc_denied_result [OF assms(1,2) fl] by blast
  then show ?thesis
    using Some assms(1,3) more same by (auto simp: avc_has_perm_noaudit_def avc_look_def)
qed

theorem avc_decides_witness:
  "\<exists>rc avd a' m'. avc_has_perm_noaudit server_state 1 3 1 2 0 sample_avd \<lparr>xp_len = 0, xp_drivers = xperms_none\<rparr> avc_fresh [] =
     Some (rc, avd, a', m') \<and> avc_coherent server_state a' \<and> rc = Err EACCES"
proof -
  obtain d x where d: "security_compute_av server_state 1 3 1 \<lparr>xp_len = 0, xp_drivers = xperms_none\<rparr> = Some (d, x)"
      "allowed d = 0" "avd_flags d = 0"
    by (auto simp: security_compute_av_def server_state_def server_lookup Let_def avd_init_def permissive_flag_def
        server_policydb_def policydb_init_def ebitmap_get_bit_def ebitmap_init_def)
  then have "enforced server_state d" by (simp add: enforced_def server_state_def)
  then show ?thesis
    using avc_decides [OF avc_fresh_coherent d(1), of 2 0 sample_avd avc_static "[]"] d(2) by auto
qed

text \<open>
  C24. An insertion is a lossy map update. A decision older than the last notification is refused and
  nothing changes; else, with memory, the decision is found under its key; whatever is found
  afterwards under any key was there before or is the new decision; and every node stays in the slot
  of its key, once per key, and counted.
\<close>

theorem avc_insert_spec:
  assumes "avc_wf a" "avc_insert s t c d xn a m = (a', m')"
  shows "avc_wf a' \<and> (seqno d < latest_notif a \<longrightarrow> a' = a) \<and>
    (ample m \<longrightarrow> seqno d \<ge> latest_notif a \<longrightarrow> (\<exists>n. avc_lookup a' s t c = Some n \<and> ae_avd n = d)) \<and>
    (\<forall>s' t' c' n. avc_lookup a' s' t' c' = Some n \<longrightarrow> (s', t', c') = (s, t, c) \<and> ae_avd n = d \<or> avc_lookup a s' t' c' = Some n)"
proof -
  obtain node where p: "avc_put (s, t, c) node a a'" "ae_avd node = d"
    using avc_insert_put [OF assms(2)] by (auto simp: node_of_def)
  have "avc_wf a'" by (rule avc_put_wf [OF assms(1) p(1)])
  moreover have "a' = a" if "seqno d < latest_notif a"
    using assms(2) that by (simp add: avc_insert_def avc_latest_notif_update_def)
  moreover have "\<exists>n. avc_lookup a' s t c = Some n \<and> ae_avd n = d" if fresh: "ample m" "seqno d \<ge> latest_notif a"
  proof -
    obtain b m1 where al: "avc_alloc_node a m = (True, b, m1)" "ample m1" using avc_alloc_ample [OF fresh(1)] .
    obtain n m2 where po: "avc_xperms_populate (avc_node_populate s t c d) xn m1 = (OK, n, m2)" using avc_populate_ample [OF al(2)] .
    have "a' = avc_link_node n b"
      using assms(2) al(1) po leD [OF fresh(2)] by (simp add: avc_insert_def avc_latest_notif_update_def)
    moreover have "avc_key n = (s, t, c)" "ae_avd n = d" using avc_populate_key [OF po] by simp_all
    moreover have "avc_wf_but 1 b" using avc_alloc_node_keeps [OF al(1) assms(1)] by simp
    ultimately show ?thesis using avc_link_look [of b n "(s, t, c)"] by (simp add: avc_look_def)
  qed
  moreover have "(s', t', c') = (s, t, c) \<and> ae_avd n = d \<or> avc_lookup a s' t' c' = Some n" if "avc_lookup a' s' t' c' = Some n" for s' t' c' n
    using avc_put_look [OF assms(1) p(1), of "(s', t', c')" n] that p(2) by (auto simp: avc_look_def)
  ultimately show ?thesis by blast
qed

theorem avc_insert_spec_witness:
  "\<exists>a'. avc_insert 1 2 3 sample_avd \<lparr>xn_xp = \<lparr>xp_len = 0, xp_drivers = xperms_none\<rparr>, xn_xpds = []\<rparr> avc_fresh [] = (a', []) \<and>
     avc_wf a' \<and> (\<exists>n. avc_lookup a' 1 2 3 = Some n \<and> ae_avd n = sample_avd)"
  using avc_insert_spec [OF avc_wf_init avc_fresh_insert [of sample_avd 1 2 3 xperms_none]]
    avc_fresh_insert [of sample_avd 1 2 3 xperms_none]
  by (simp add: sample_avd_def selinux_avc_init_def avc_static_def)

text \<open>
  C36. The cache stays within its threshold: with every lock of a slot free, an insertion into a cache of
  at most the threshold leaves at most the threshold, because the reclaim frees nodes whenever the
  new node would exceed it.
\<close>

theorem avc_bounded:
  assumes "avc_wf a" "ample m" "1 \<le> unat (avc_cache_threshold a)" "avc_total a \<le> unat (avc_cache_threshold a)"
    and "unat (avc_cache_threshold a) < 2 ^ 32 - 1"
    and "avc_insert s t c d xn a m = (a', m')"
  shows "avc_total a' \<le> unat (avc_cache_threshold a') \<and> avc_cache_threshold a' = avc_cache_threshold a"
proof -
  obtain b m1 where al: "avc_alloc_node a m = (True, b, m1)" "ample m1" using avc_alloc_ample [OF assms(2)] .
  have b: "avc_wf_but 1 b" "avc_cache_threshold b = avc_cache_threshold a"
    using avc_alloc_node_keeps [OF al(1) assms(1)] by (simp_all add: avc_shrinks_def)
  have room: "avc_total b + 1 \<le> unat (avc_cache_threshold a)"
  proof -
    let ?c = "a\<lparr>active_nodes := active_nodes a + 1\<rparr>"
    have tot: "avc_total ?c = avc_total a" and wfc: "avc_wf_but 1 ?c"
      using assms(1) by (simp_all add: avc_wf_but_def avc_total_def add.commute)
    have "active_nodes a + 1 = of_nat (avc_total a + 1)" using assms(1) by (simp add: avc_wf_but_def add.commute)
    then have cnt: "unat (active_nodes a + 1) = avc_total a + 1"
      using assms(4,5) by (simp only: unat_u32_of_nat)
    obtain m0 where m0: "kalloc m = (True, m0)" "ample m0" using kalloc_ampleE [OF assms(2)] .
    show ?thesis
    proof (cases "active_nodes a + 1 > avc_cache_threshold a")
      case True
      obtain n where r: "avc_reclaim_node ?c m0 = (n, b, m1)"
        using al(1) m0(1) True by (auto simp: avc_alloc_node_def Let_def split: prod.splits)
      have "n = min 16 (avc_total a)" "avc_total b + n = avc_total a"
        using avc_reclaim_frees [OF r wfc m0(2)] tot by simp_all
      then show ?thesis using assms(3,4) by auto
    next
      case False
      then have "avc_total b = avc_total a" "avc_total a + 1 \<le> unat (avc_cache_threshold a)"
        using al(1) m0(1) cnt tot by (auto simp: avc_alloc_node_def Let_def word_less_nat_alt)
      then show ?thesis by simp
    qed
  qed
  obtain n m2 where po: "avc_xperms_populate (avc_node_populate s t c d) xn m1 = (OK, n, m2)" using avc_populate_ample [OF al(2)] .
  have "a' = a \<or> a' = avc_link_node n b"
    using assms(6) al(1) po by (auto simp: avc_insert_def split: if_splits)
  moreover have "avc_cache_threshold (avc_link_node n b) = avc_cache_threshold b"
    by (simp add: avc_link_node_def avc_node_replace_def Let_def)
  ultimately show ?thesis
    using avc_total_link_le [OF b(1), of n] room b(2) assms(4) by auto
qed


theorem avc_bounded_witness:
  "\<exists>a'. avc_insert 1 2 3 sample_avd \<lparr>xn_xp = \<lparr>xp_len = 0, xp_drivers = xperms_none\<rparr>, xn_xpds = []\<rparr> avc_fresh [] = (a', []) \<and>
     avc_total a' \<le> unat (avc_cache_threshold a')"
proof -
  have z: "seqno sample_avd = 0" by (simp add: sample_avd_def)
  have "avc_total avc_fresh = 0" "avc_cache_threshold avc_fresh = 512"
    by (simp_all add: selinux_avc_init_def avc_total_def map_replicate sum_list_replicate)
  then show ?thesis
    using avc_bounded [OF avc_wf_init ample_Nil _ _ _ avc_fresh_insert [OF z, of 1 2 3 xperms_none]]
      avc_fresh_insert [OF z, of 1 2 3 xperms_none]
    by (intro exI conjI) auto
qed



end
