(* ===== verification/Policy_Load.thy ===== *)
theory Policy_Load
  imports Avc
begin

text \<open>
  Changes of the policy (\<open>ss/services.c\<close>, \<open>policydb_load_isids\<close> of \<open>ss/policydb.c\<close>): loading a policy and
  making it the active one, setting booleans, and the queries of selinuxfs on the active policy.

  A policy is changed under the policy mutex, so one change at a time. What a change tells user space,
  NetLabel, XFRM and IMA is not modelled; what it does to the access vector cache is. A null boolean in
  the index array is \<open>None\<close>.
\<close>

section \<open>Booleans\<close>

text \<open>The booleans of the index array, where the pointers are; an assignment goes through the name.\<close>

definition symtab_modify :: "string \<Rightarrow> ('d \<Rightarrow> 'd) \<Rightarrow> 'd symtab \<Rightarrow> 'd symtab" where
  "symtab_modify key f t =
     t\<lparr>st_table := (st_table t)\<lparr>ht_htable := map (map (\<lambda>(k, d). (k, if k = key then f d else d))) (ht_htable (st_table t))\<rparr>\<rparr>"

definition set_bool_state :: "string \<Rightarrow> int \<Rightarrow> policydb \<Rightarrow> policydb" where
  "set_bool_state name v p = p\<lparr>p_bools := symtab_modify name (\<lambda>d. d\<lparr>bool_state := v\<rparr>) (p_bools p)\<rparr>"

fun get_bools_loop :: "policydb \<Rightarrow> nat list \<Rightarrow> mem \<Rightarrow> (rc \<times> (string \<times> int) list \<times> mem) option" where
  "get_bools_loop p [] m = Some (OK, [], m)"
| "get_bools_loop p (i # is) m =
     (case bool_datum p (of_nat i + 1) of
        None \<Rightarrow> None
      | Some d \<Rightarrow>
          (case kalloc m of
             (False, m) \<Rightarrow> Some (Err ENOMEM, [], m)
           | (True, m) \<Rightarrow>
               (case get_bools_loop p is m of
                  None \<Rightarrow> None
                | Some (Err e, _, m) \<Rightarrow> Some (Err e, [], m)
                | Some (OK, bs, m) \<Rightarrow> Some (OK, (sym_name p SYM_BOOLS (of_nat i), bool_state d) # bs, m))))"

definition security_get_bools :: "policydb \<Rightarrow> mem \<Rightarrow> (rc \<times> (string \<times> int) list \<times> mem) option" where
  "security_get_bools p m =
     (let len = unat (st_nprim (p_bools p))
      in if len = 0 then Some (OK, [], m)
         else case kalloc m of
                (False, m) \<Rightarrow> Some (Err ENOMEM, [], m)
              | (True, m) \<Rightarrow>
                  (case kalloc m of
                     (False, m) \<Rightarrow> Some (Err ENOMEM, [], m)
                   | (True, m) \<Rightarrow> get_bools_loop p [0..<len] m))"

definition security_preserve_bools :: "policydb \<Rightarrow> policydb \<Rightarrow> mem \<Rightarrow> (rc \<times> policydb \<times> mem) option" where
  "security_preserve_bools oldp newp m =
     (case security_get_bools oldp m of
        None \<Rightarrow> None
      | Some (Err e, _, m) \<Rightarrow> Some (Err e, newp, m)
      | Some (OK, bs, m) \<Rightarrow>
          Some (OK, evaluate_cond_nodes
                      (fold (\<lambda>(name, v) p. if symtab_search (p_bools p) name \<noteq> None then set_bool_state name v p else p) bs newp), m))"

text \<open>The update of one boolean of the copy; the audit record of the change is left out.\<close>

definition update_bool :: "nat \<Rightarrow> int \<Rightarrow> policydb \<Rightarrow> policydb option" where
  "update_bool i v p =
     (case val_to_struct (bool_val_to_struct p) (of_nat i + 1) of
        None \<Rightarrow> None
      | Some name \<Rightarrow>
          (let new_state = (if v \<noteq> 0 then 1 else 0)
           in if new_state \<noteq> bool_state_of p (of_nat i + 1) then Some (set_bool_state name new_state p) else Some p))"

fun update_bools :: "nat \<Rightarrow> int list \<Rightarrow> policydb \<Rightarrow> policydb option" where
  "update_bools i [] p = Some p"
| "update_bools i (v # vs) p = (case update_bool i v p of None \<Rightarrow> None | Some p \<Rightarrow> update_bools (i + 1) vs p)"

text \<open>The change is announced to the access vector cache.\<close>

definition selinux_notify_policy_change :: "avc_callbacks \<Rightarrow> u32 \<Rightarrow> selinux_avc \<Rightarrow> selinux_avc" where
  "selinux_notify_policy_change cs seqn a = snd (avc_ss_reset cs seqn a)"

definition security_set_bools ::
  "avc_callbacks \<Rightarrow> int list \<Rightarrow> selinux_state \<Rightarrow> selinux_avc \<Rightarrow> mem \<Rightarrow> (rc \<times> selinux_state \<times> selinux_avc \<times> mem) option" where
  "security_set_bools cs values st a m =
     (if \<not> initialized st then Some (Err EINVAL, st, a, m)
      else case state_policy st of
             None \<Rightarrow> None
           | Some old \<Rightarrow>
               if length values \<noteq> unat (st_nprim (p_bools (pol_policydb old))) then Some (Err EINVAL, st, a, m)
               else case kalloc m of
                      (False, m) \<Rightarrow> Some (Err ENOMEM, st, a, m)
                    | (True, m) \<Rightarrow>
                        (case cond_policydb_dup (pol_policydb old) (pol_policydb old) m of
                           (Err e, _, m) \<Rightarrow> Some (Err ENOMEM, st, a, m)
                         | (OK, p, m) \<Rightarrow>
                             (case update_bools 0 values p of
                                None \<Rightarrow> None
                              | Some p \<Rightarrow>
                                  (let seqn = latest_granting old + 1;
                                       new = old\<lparr>pol_policydb := evaluate_cond_nodes p, latest_granting := seqn\<rparr>
                                   in Some (OK, st\<lparr>state_policy := Some new\<rparr>, selinux_notify_policy_change cs seqn a, m)))))"

text \<open>Returns the state of the boolean, or the negative error number in place of it.\<close>

definition security_get_bool_value :: "selinux_state \<Rightarrow> u32 \<Rightarrow> (errno + int) option" where
  "security_get_bool_value st index =
     (if \<not> initialized st then Some (Inr 0)
      else case state_policy st of
             None \<Rightarrow> None
           | Some pol \<Rightarrow>
               if index \<ge> st_nprim (p_bools (pol_policydb pol)) then Some (Inl EFAULT)
               else map_option (\<lambda>d. Inr (bool_state d)) (bool_datum (pol_policydb pol) (index + 1)))"

section \<open>Queries\<close>

definition security_get_reject_unknown :: "selinux_state \<Rightarrow> bool" where
  "security_get_reject_unknown st =
     (initialized st \<and> (case state_policy st of Some pol \<Rightarrow> reject_unknown (pol_policydb pol) | None \<Rightarrow> False))"

definition security_get_allow_unknown :: "selinux_state \<Rightarrow> bool" where
  "security_get_allow_unknown st =
     (initialized st \<and> (case state_policy st of Some pol \<Rightarrow> allow_unknown (pol_policydb pol) | None \<Rightarrow> False))"

definition security_policycap_supported :: "selinux_state \<Rightarrow> nat \<Rightarrow> bool" where
  "security_policycap_supported st req_cap =
     (initialized st \<and> (case state_policy st of Some pol \<Rightarrow> ebitmap_get_bit (policycaps (pol_policydb pol)) req_cap | None \<Rightarrow> False))"

definition get_classes_callback :: "string \<Rightarrow> class_datum \<Rightarrow> string option list \<times> mem \<Rightarrow> rc \<times> string option list \<times> mem" where
  "get_classes_callback name d args =
     (case args of (classes, m) \<Rightarrow>
        case kalloc m of
          (False, m) \<Rightarrow> (Err ENOMEM, classes, m)
        | (True, m) \<Rightarrow> (OK, set_val classes (cla_value d) name, m))"

definition security_get_classes :: "policydb \<Rightarrow> mem \<Rightarrow> rc \<times> string option list \<times> mem" where
  "security_get_classes p m =
     (case kalloc m of
        (False, m) \<Rightarrow> (Err ENOMEM, [], m)
      | (True, m) \<Rightarrow>
          (case hashtab_map (st_table (p_classes p)) get_classes_callback (replicate (unat (st_nprim (p_classes p))) None, m) of
             (Err e, _, m) \<Rightarrow> (Err e, [], m)
           | (OK, classes, m) \<Rightarrow> (OK, classes, m)))"

definition get_permissions_callback :: "string \<Rightarrow> perm_datum \<Rightarrow> string option list \<times> mem \<Rightarrow> rc \<times> string option list \<times> mem" where
  "get_permissions_callback name d args =
     (case args of (perms, m) \<Rightarrow>
        case kalloc m of
          (False, m) \<Rightarrow> (Err ENOMEM, perms, m)
        | (True, m) \<Rightarrow> (OK, set_val perms (perm_value d) name, m))"

definition security_get_permissions :: "policydb \<Rightarrow> string \<Rightarrow> mem \<Rightarrow> rc \<times> string option list \<times> mem" where
  "security_get_permissions p cls m =
     (case symtab_search (p_classes p) cls of
        None \<Rightarrow> (Err EINVAL, [], m)
      | Some match \<Rightarrow>
          (case kalloc m of
             (False, m) \<Rightarrow> (Err ENOMEM, [], m)
           | (True, m) \<Rightarrow>
               (case (case cla_comdatum match of
                        Some com \<Rightarrow> hashtab_map (st_table (com_permissions com)) get_permissions_callback
                                      (replicate (unat (st_nprim (cla_permissions match))) None, m)
                      | None \<Rightarrow> (OK, replicate (unat (st_nprim (cla_permissions match))) None, m)) of
                  (Err e, _, m) \<Rightarrow> (Err e, [], m)
                | (OK, perms, m) \<Rightarrow>
                    (case hashtab_map (st_table (cla_permissions match)) get_permissions_callback (perms, m) of
                       (Err e, _, m) \<Rightarrow> (Err e, [], m)
                     | (OK, perms, m) \<Rightarrow> (OK, perms, m)))))"

section \<open>Loading\<close>

fun load_isids_loop :: "hash_fns \<Rightarrow> ocontext list \<Rightarrow> sidtab \<Rightarrow> mem \<Rightarrow> rc \<times> sidtab \<times> mem" where
  "load_isids_loop H [] s m = (OK, s, m)"
| "load_isids_loop H (c # cs) s m =
     (let sid = oc_sid0 c
      in if sid = SECSID_NULL then (Err EINVAL, s, m)
         else if security_get_initial_sid_context sid = None then load_isids_loop H cs s m
         else then_ok (sidtab_set_initial H s sid (oc_context0 c) m) (load_isids_loop H cs))"

definition policydb_load_isids :: "hash_fns \<Rightarrow> nat \<Rightarrow> policydb \<Rightarrow> mem \<Rightarrow> rc \<times> sidtab \<times> mem" where
  "policydb_load_isids H cache_size p m = load_isids_loop H (ocontexts p OCON_ISID) (sidtab_init cache_size) m"

definition security_load_policycaps :: "selinux_policy \<Rightarrow> selinux_state \<Rightarrow> selinux_state" where
  "security_load_policycaps policy st =
     st\<lparr>policycap := map (\<lambda>i. ebitmap_get_bit (policycaps (pol_policydb policy)) i) [0..<length (policycap st)]\<rparr>"

text \<open>
  A policy that was read and is not active yet. \<open>read\<close> is the result of \<open>policydb_read\<close> on the image,
  \<open>kmap\<close> the table \<open>secclass_map\<close>.
\<close>

definition load_new_policy ::
  "hash_fns \<Rightarrow> nat \<Rightarrow> security_class_mapping list \<Rightarrow> (mem \<Rightarrow> rc \<times> policydb \<times> mem) \<Rightarrow> mem \<Rightarrow> rc \<times> selinux_policy option \<times> mem" where
  "load_new_policy H cache_size kmap read m =
     (case kalloc m of
        (False, m) \<Rightarrow> (Err ENOMEM, None, m)
      | (True, m) \<Rightarrow>
          (case kalloc m of
             (False, m) \<Rightarrow> (Err ENOMEM, None, m)
           | (True, m) \<Rightarrow>
               (case read m of
                  (Err e, _, m) \<Rightarrow> (Err e, None, m)
                | (OK, p, m) \<Rightarrow>
                    (case selinux_set_mapping p (Some kmap) \<lparr>mapping = [], map_size = 0\<rparr> m of
                       (Err e, _, m) \<Rightarrow> (Err e, None, m)
                     | (OK, mp, m) \<Rightarrow>
                         (case policydb_load_isids H cache_size p m of
                            (Err e, _, m) \<Rightarrow> (Err e, None, m)
                          | (OK, s, m) \<Rightarrow>
                              (OK, Some \<lparr>pol_sidtab = s, pol_policydb = p, pol_map = mp, latest_granting = 0\<rparr>, m))))))"

text \<open>On success the state holds the old policy with its running conversion, and the new policy is returned.\<close>

definition security_load_policy ::
  "hash_fns \<Rightarrow> nat \<Rightarrow> security_class_mapping list \<Rightarrow> (mem \<Rightarrow> rc \<times> policydb \<times> mem) \<Rightarrow> selinux_state \<Rightarrow> mem \<Rightarrow>
   (rc \<times> selinux_policy option \<times> selinux_state \<times> mem) option" where
  "security_load_policy H cache_size kmap read st m =
     (case load_new_policy H cache_size kmap read m of
        (Err e, _, m) \<Rightarrow> Some (Err e, None, st, m)
      | (OK, None, m) \<Rightarrow> None
      | (OK, Some new, m) \<Rightarrow>
          if \<not> initialized st then Some (OK, Some new, st, m)
          else case state_policy st of
                 None \<Rightarrow> None
               | Some old \<Rightarrow>
                   (case security_preserve_bools (pol_policydb old) (pol_policydb new) m of
                      None \<Rightarrow> None
                    | Some (Err e, _, m) \<Rightarrow> Some (Err e, None, st, m)
                    | Some (OK, p, m) \<Rightarrow>
                        (case kalloc m of
                           (False, m) \<Rightarrow> Some (Err ENOMEM, None, st, m)
                         | (True, m) \<Rightarrow>
                             (case sidtab_convert H (services_convert_context (enforcing st) (pol_policydb old) p)
                                     (pol_sidtab old) (pol_sidtab new) m of
                                (rc, s, target, m) \<Rightarrow>
                                  (let st = st\<lparr>state_policy := Some (old\<lparr>pol_sidtab := s\<rparr>)\<rparr>
                                   in if rc \<noteq> OK then Some (rc, None, st, m)
                                      else Some (OK, Some (new\<lparr>pol_policydb := p, pol_sidtab := target\<rparr>), st, m))))))"

definition selinux_policy_cancel :: "selinux_state \<Rightarrow> selinux_state" where
  "selinux_policy_cancel st =
     st\<lparr>state_policy := map_option (\<lambda>old. old\<lparr>pol_sidtab := sidtab_cancel_convert (pol_sidtab old)\<rparr>) (state_policy st)\<rparr>"

text \<open>
  The old policy is returned as the threads see it that still use it; \<open>selinux_complete_init\<close>, which
  labels what was created before the first policy, belongs to the hooks.
\<close>

definition selinux_policy_commit ::
  "avc_callbacks \<Rightarrow> selinux_policy \<Rightarrow> selinux_state \<Rightarrow> selinux_avc \<Rightarrow> selinux_policy option \<times> selinux_state \<times> selinux_avc" where
  "selinux_policy_commit cs new st a =
     (let old = state_policy st;
          seqn = (case old of Some o' \<Rightarrow> latest_granting o' + 1 | None \<Rightarrow> 1);
          new = new\<lparr>latest_granting := seqn\<rparr>;
          old = map_option (\<lambda>o'. o'\<lparr>pol_sidtab := sidtab_freeze_begin (pol_sidtab o')\<rparr>) old;
          st = security_load_policycaps new (st\<lparr>state_policy := Some new\<rparr>);
          st = st\<lparr>initialized := True\<rparr>
      in (old, st, selinux_notify_policy_change cs seqn a))"

section \<open>Copies of the booleans\<close>

text \<open>A copy that succeeds is the table itself.\<close>

lemma dup_chain_same: "hashtab_dup_chain cond_bools_copy l m = (Some l', m') \<Longrightarrow> l' = l"
  by (induction l arbitrary: m l') (auto simp: cond_bools_copy_def split: prod.splits bool.splits option.splits sum.splits)

lemma dup_slots_same: "hashtab_dup_slots cond_bools_copy ls m = (Some ls', m') \<Longrightarrow> ls' = ls"
  by (induction ls arbitrary: m ls') (auto dest: dup_chain_same split: prod.splits option.splits)

lemma map_nth_upt: "length xs = n \<Longrightarrow> map ((!) xs) [0..<n] = xs"
  using map_nth by blast

lemma hashtab_duplicate_same:
  assumes "hashtab_duplicate h cond_bools_copy m = (OK, h', m')" "sym.inv h"
  shows "h' = h"
proof -
  have len: "length (ht_htable h) = unat (ht_size h)" and nel: "unat (ht_nel h) = length (concat (ht_htable h))"
    using assms(2) by (simp_all add: sym.inv_def)
  have "ht_nel h = of_nat (length (concat (ht_htable h)))"
    unfolding nel [symmetric] by simp
  then show ?thesis
    using assms(1) map_nth_upt [OF len] by (auto simp: hashtab_duplicate_def Let_def dest!: dup_slots_same split: prod.splits bool.splits option.splits)
qed

text \<open>The index array of the copy.\<close>

lemma bools_index_fold:
  "hashtab_map_nodes cond_bools_index ns arr = (OK, fold (\<lambda>(k, d) arr. set_val arr (bool_value d) k) ns arr)"
  by (induction ns arbitrary: arr) (auto simp: cond_bools_index_def)

lemma fold_set_val:
  assumes "i < length arr" "\<forall>(k, d) \<in> set ns. bool_value d \<noteq> 0"
  shows "fold (\<lambda>(k, d) arr. set_val arr (bool_value d) k) ns arr ! i = arr ! i \<and> (\<forall>(k, d) \<in> set ns. unat (bool_value d) \<noteq> Suc i) \<or>
    (\<exists>(k, d) \<in> set ns. unat (bool_value d) = Suc i \<and> fold (\<lambda>(k, d) arr. set_val arr (bool_value d) k) ns arr ! i = Some k)"
  using assms
proof (induction ns arbitrary: arr)
  case (Cons x ns)
  obtain k d where x: "x = (k, d)" by (cases x)
  have "i < length (set_val arr (bool_value d) k)" "\<forall>(k, d) \<in> set ns. bool_value d \<noteq> 0" "bool_value d \<noteq> 0"
    using Cons.prems by (simp_all add: x)
  from Cons.IH [OF this(1,2)] show ?case
    using nth_set_val [OF Cons.prems(1) \<open>bool_value d \<noteq> 0\<close>, of k] by (auto simp: x split: if_splits)
qed simp

lemma length_fold_set_val [simp]: "length (fold (\<lambda>(k, d) arr. set_val arr (bool_value d) k) ns arr) = length arr"
  by (induction ns arbitrary: arr) auto

text \<open>The table of booleans: every value from 1 on has a boolean.\<close>

definition bools_ok :: "policydb \<Rightarrow> bool" where
  "bools_ok p \<longleftrightarrow> symtab_ok (p_bools p) \<and>
     (\<forall>(k, d) \<in> set (hashtab_nodes (st_table (p_bools p))). bool_value d \<noteq> 0 \<and> symtab_search (p_bools p) k = Some d) \<and>
     (\<forall>i < unat (st_nprim (p_bools p)). \<exists>(k, d) \<in> set (hashtab_nodes (st_table (p_bools p))). unat (bool_value d) = Suc i)"

text \<open>The index array holds the name of the boolean with each value.\<close>

definition bool_at :: "policydb \<Rightarrow> nat \<Rightarrow> string \<Rightarrow> cond_bool_datum \<Rightarrow> bool" where
  "bool_at p i k d \<longleftrightarrow> i < length (bool_val_to_struct p) \<and> bool_val_to_struct p ! i = Some k \<and>
     symtab_search (p_bools p) k = Some d \<and> unat (bool_value d) = Suc i"

definition bools_indexed :: "policydb \<Rightarrow> bool" where
  "bools_indexed p \<longleftrightarrow> symtab_ok (p_bools p) \<and> length (bool_val_to_struct p) = unat (st_nprim (p_bools p)) \<and>
     (\<forall>i < unat (st_nprim (p_bools p)). \<exists>k d. bool_at p i k d)"

lemma dup_bools_indexed:
  assumes "duplicate_policydb_bools newdb orig m = (OK, p, m')" "bools_ok orig"
  shows "bools_indexed p \<and> p_bools p = p_bools orig"
proof -
  have inv: "sym.inv (st_table (p_bools orig))" using assms(2) by (simp add: bools_ok_def symtab_ok_def)
  let ?ns = "hashtab_nodes (st_table (p_bools orig))"
  let ?arr = "fold (\<lambda>(k, d) arr. set_val arr (bool_value d) k) ?ns (replicate (unat (st_nprim (p_bools orig))) None)"
  have p: "p_bools p = p_bools orig" "bool_val_to_struct p = ?arr"
    using assms(1)
    by (auto simp: duplicate_policydb_bools_def hashtab_map_def bools_index_fold split: prod.splits bool.splits option.splits
        dest!: hashtab_duplicate_same [OF _ inv])
  have "\<exists>k d. bool_at p i k d" if lt: "i < unat (st_nprim (p_bools orig))" for i
  proof -
    have "\<forall>(k, d) \<in> set ?ns. bool_value d \<noteq> 0" "\<exists>(k, d) \<in> set ?ns. unat (bool_value d) = Suc i"
      using assms(2) lt by (auto simp: bools_ok_def)
    then obtain k d where "(k, d) \<in> set ?ns" "unat (bool_value d) = Suc i" "?arr ! i = Some k"
      using fold_set_val [of i "replicate (unat (st_nprim (p_bools orig))) None" "?ns"] lt by fastforce
    then show ?thesis
      using lt assms(2) by (auto simp: bool_at_def p bools_ok_def)
  qed
  then show ?thesis
    using assms(2) p by (simp add: bools_indexed_def bools_ok_def)
qed

section \<open>Setting booleans\<close>

lemma map_of_modify:
  "map_of (map (\<lambda>(k, d). (k, if k = key then f d else d)) l) k = map_option (if k = key then f else id) (map_of l k)"
  by (induction l) auto

lemma chain_inv_modify:
  "sym.chain_inv (map (\<lambda>(k, d). (k, if k = key then f d else d)) l) = sym.chain_inv l"
  by (induction l) (auto simp: sym.chain_inv_Cons sym.chain_inv_def)

lemma symtab_modify_ok:
  assumes "symtab_ok t"
  shows "symtab_ok (symtab_modify key f t)"
    and "symtab_search (symtab_modify key f t) k = map_option (if k = key then f else id) (symtab_search t k)"
proof -
  have inv: "sym.inv (st_table t)" using assms by (simp add: symtab_ok_def)
  have len: "length (concat (map (map g) ls)) = length (concat ls)" for g :: "string \<times> 'a \<Rightarrow> string \<times> 'a" and ls
    by (induction ls) auto
  show ok: "symtab_ok (symtab_modify key f t)"
    using inv by (fastforce simp: symtab_ok_def sym.inv_def symtab_modify_def chain_inv_modify len)
  have "unat (symhash k AND (ht_size (st_table t) - 1)) < length (ht_htable (st_table t))" if "ht_size (st_table t) \<noteq> 0"
    using inv sym.slot_less [OF that] by (simp add: sym.inv_def)
  then show "symtab_search (symtab_modify key f t) k = map_option (if k = key then f else id) (symtab_search t k)"
    unfolding symtab_search_map [OF ok] symtab_search_map [OF assms]
    by (simp add: symtab_map_def sym.table_def symtab_modify_def map_of_modify)
qed

lemma bool_at_val: "bool_at p i k d \<Longrightarrow> val_to_struct (bool_val_to_struct p) (of_nat i + 1) = Some k"
proof -
  assume a: "bool_at p i k d"
  then have "i < 2 ^ 32" using unat_u32_bound [of "bool_value d"] by (simp add: bool_at_def)
  then have "unat (of_nat i + 1 - 1 :: u32) = i" by (simp add: unat_u32_of_nat)
  then show ?thesis using a by (simp add: val_to_struct_def bool_at_def Let_def)
qed

lemma bool_at_state: "bool_at p i k d \<Longrightarrow> bool_state_of p (of_nat i + 1) = bool_state d"
  using bool_at_val [of p i k d] by (simp add: bool_state_of_def bool_datum_def bool_at_def)

text \<open>One boolean is set; the others and everything but the table of booleans stay.\<close>

lemma update_bool_spec:
  assumes "bools_indexed p" "i < unat (st_nprim (p_bools p))"
  shows "\<exists>p'. update_bool i v p = Some p' \<and> bools_indexed p' \<and> st_nprim (p_bools p') = st_nprim (p_bools p) \<and>
    cond_list p' = cond_list p \<and>
    (\<forall>j < unat (st_nprim (p_bools p)). bool_state_of p' (of_nat j + 1) =
       (if j = i then of_bool (v \<noteq> 0) else bool_state_of p (of_nat j + 1)))"
proof -
  obtain k d where kd: "bool_at p i k d" using assms by (auto simp: bools_indexed_def)
  define nv where "nv = (if v \<noteq> 0 then 1 else 0 :: int)"
  show ?thesis
  proof (cases "nv = bool_state d")
    case True
    then have "update_bool i v p = Some p"
      using bool_at_val [OF kd] bool_at_state [OF kd] by (simp add: update_bool_def nv_def [symmetric] Let_def)
    then show ?thesis using assms bool_at_state [OF kd] True by (auto simp: nv_def split: if_splits)
  next
    case False
    let ?p = "set_bool_state k nv p"
    have up: "update_bool i v p = Some ?p"
      using bool_at_val [OF kd] bool_at_state [OF kd] False by (simp add: update_bool_def nv_def [symmetric] Let_def)
    have ok: "symtab_ok (p_bools p)" using assms(1) by (simp add: bools_indexed_def)
    note mod = symtab_modify_ok [OF ok, of k "\<lambda>d. d\<lparr>bool_state := nv\<rparr>"]
    have at: "bool_at ?p j k' (if j = i then d'\<lparr>bool_state := nv\<rparr> else d')" if "bool_at p j k' d'" for j k' d'
      using that kd mod(2) by (auto simp: bool_at_def set_bool_state_def)
    have "bools_indexed ?p"
      using assms(1) mod(1) at unfolding bools_indexed_def
      by (auto simp: set_bool_state_def symtab_modify_def) blast
    moreover have "bool_state_of ?p (of_nat j + 1) = (if j = i then of_bool (v \<noteq> 0) else bool_state_of p (of_nat j + 1))"
      if lt: "j < unat (st_nprim (p_bools p))" for j
    proof -
      obtain k' d' where "bool_at p j k' d'" using assms(1) lt by (auto simp: bools_indexed_def)
      then show ?thesis
        using bool_at_state [OF at] bool_at_state [of p j k' d'] by (auto simp: nv_def)
    qed
    ultimately show ?thesis using up by (auto simp: set_bool_state_def symtab_modify_def)
  qed
qed

lemma update_bools_spec:
  assumes "bools_indexed p" "i + length vs \<le> unat (st_nprim (p_bools p))"
  shows "\<exists>p'. update_bools i vs p = Some p' \<and> bools_indexed p' \<and> cond_list p' = cond_list p \<and>
    (\<forall>j < unat (st_nprim (p_bools p)). bool_state_of p' (of_nat j + 1) =
       (if i \<le> j \<and> j < i + length vs then of_bool (vs ! (j - i) \<noteq> 0) else bool_state_of p (of_nat j + 1)))"
  using assms
proof (induction vs arbitrary: i p)
  case (Cons v vs)
  obtain p1 where p1: "update_bool i v p = Some p1" "bools_indexed p1" "st_nprim (p_bools p1) = st_nprim (p_bools p)"
      "cond_list p1 = cond_list p"
      "\<forall>j < unat (st_nprim (p_bools p)). bool_state_of p1 (of_nat j + 1) = (if j = i then of_bool (v \<noteq> 0) else bool_state_of p (of_nat j + 1))"
    using update_bool_spec [OF Cons.prems(1), of i v] Cons.prems(2) by auto
  obtain p2 where p2: "update_bools (i + 1) vs p1 = Some p2" "bools_indexed p2" "cond_list p2 = cond_list p1"
      "\<forall>j < unat (st_nprim (p_bools p)). bool_state_of p2 (of_nat j + 1) =
         (if i + 1 \<le> j \<and> j < i + 1 + length vs then of_bool (vs ! (j - (i + 1)) \<noteq> 0) else bool_state_of p1 (of_nat j + 1))"
    using Cons.IH [OF p1(2), of "i + 1"] Cons.prems(2) p1(3) by auto
  have "bool_state_of p2 (of_nat j + 1) =
      (if i \<le> j \<and> j < i + length (v # vs) then of_bool ((v # vs) ! (j - i) \<noteq> 0) else bool_state_of p (of_nat j + 1))"
    if "j < unat (st_nprim (p_bools p))" for j
    using p2(4) p1(5) that by (cases "j = i") (auto simp: nth_Cons')
  then show ?case using p1(1,4) p2 by simp
qed simp

text \<open>The evaluation of the conditionals leaves the booleans alone.\<close>

lemma evaluate_keeps [simp]:
  "p_bools (evaluate_cond_nodes p) = p_bools p" "bool_val_to_struct (evaluate_cond_nodes p) = bool_val_to_struct p"
  by (simp_all add: evaluate_cond_nodes_def split: prod.splits)

lemma cond_evaluate_cong:
  assumes "p_bools p = p_bools q" "bool_val_to_struct p = bool_val_to_struct q"
  shows "cond_evaluate_expr p e = cond_evaluate_expr q e"
proof -
  have s: "cond_step p = cond_step q"
    using assms by (intro ext) (simp add: cond_step_def bool_state_of_def bool_datum_def)
  have "cond_run p ns st = cond_run q ns st" for ns st
    by (induction ns arbitrary: st) (auto simp: s split: option.splits)
  then show ?thesis by (simp add: cond_evaluate_expr_def)
qed

lemma evaluate_cond_list_states:
  "evaluate_cond_list p ns t = (ns', t') \<Longrightarrow>
   map cond_expr ns' = map cond_expr ns \<and> (\<forall>n \<in> set ns'. cur_state n = cond_evaluate_expr p (cond_expr n))"
  by (induction ns arbitrary: t ns' t') (auto simp: evaluate_cond_node_def Let_def split: prod.splits if_splits)

lemma evaluate_cond_nodes_states:
  "map cond_expr (cond_list (evaluate_cond_nodes p)) = map cond_expr (cond_list p) \<and>
   (\<forall>n \<in> set (cond_list (evaluate_cond_nodes p)). cur_state n = cond_evaluate_expr (evaluate_cond_nodes p) (cond_expr n))"
proof -
  obtain ns t where r: "evaluate_cond_list p (cond_list p) (te_cond_avtab p) = (ns, t)" by fastforce
  have e: "cond_evaluate_expr (evaluate_cond_nodes p) e = cond_evaluate_expr p e" for e
    by (rule cond_evaluate_cong) simp_all
  show ?thesis unfolding e using evaluate_cond_list_states [OF r] by (simp add: evaluate_cond_nodes_def r)
qed

lemma duplicate_cond_nodes_exprs:
  "duplicate_cond_nodes orig ns t m = (OK, ns', t', m') \<Longrightarrow> map cond_expr ns' = map cond_expr ns"
  by (induction ns arbitrary: t m ns' t' m') (auto split: prod.splits bool.splits option.splits)

lemma cond_policydb_dup_spec:
  assumes "cond_policydb_dup new orig m = (OK, p, m')" "bools_ok orig"
  shows "bools_indexed p \<and> p_bools p = p_bools orig \<and> map cond_expr (cond_list p) = map cond_expr (cond_list orig)"
proof -
  obtain p1 m1 where d: "duplicate_policydb_bools (cond_policydb_init new) orig m = (OK, p1, m1)"
      "duplicate_policydb_cond_list p1 orig m1 = (OK, p, m')"
    using assms(1) by (auto simp: cond_policydb_dup_def split: prod.splits option.splits)
  have "p_bools p = p_bools p1" "bool_val_to_struct p = bool_val_to_struct p1" "map cond_expr (cond_list p) = map cond_expr (cond_list orig)"
    using d(2) by (auto simp: duplicate_policydb_cond_list_def Let_def dest: duplicate_cond_nodes_exprs split: prod.splits option.splits bool.splits)
  then show ?thesis
    using dup_bools_indexed [OF d(1) assms(2)] by (auto simp: bools_indexed_def bool_at_def)
qed

lemma cond_policydb_dup_ENOMEM: "cond_policydb_dup new orig m = (rc, p, m') \<Longrightarrow> rc = OK \<or> rc = Err ENOMEM"
  by (auto simp: cond_policydb_dup_def split: prod.splits option.splits)

section \<open>Conversion of the SID table\<close>

lemma convert_entries_spec:
  "sidtab_convert_entries conv es m = (Inr cs, m') \<Longrightarrow>
   length cs = length es \<and> (\<forall>i < length es. \<exists>m0 m1. conv (se_context (es ! i)) m0 = (OK, cs ! i, m1))"
proof (induction es arbitrary: m cs)
  case (Cons e es)
  obtain c m1 cs' where c: "conv (se_context e) m = (OK, c, m1)" "sidtab_convert_entries conv es m1 = (Inr cs', m')" "cs = c # cs'"
    using Cons.prems by (auto split: prod.splits option.splits sum.splits)
  have "\<exists>m0 m1. conv (se_context ((e # es) ! i)) m0 = (OK, cs ! i, m1)" if "i < length (e # es)" for i
    using Cons.IH [OF c(2)] c(1,3) that by (cases i) auto
  then show ?case using Cons.IH [OF c(2)] c(3) by simp
qed simp

text \<open>A conversion keeps the number of every context.\<close>

lemma sidtab_convert_spec:
  assumes "sidtab_convert H conv s target m = (OK, s', t', m')" "length (sd_entries s) = unat (sd_count s)"
  shows "sd_count t' = sd_count s \<and> length (sd_entries t') = unat (sd_count s) \<and>
    (\<forall>i < unat (sd_count s). se_sid (sd_entries t' ! i) = index_to_sid (of_nat i) \<and>
       (\<exists>m0 m1. conv (se_context (sd_entries s ! i)) m0 = (OK, se_context (sd_entries t' ! i), m1)))"
proof -
  obtain cs m1 m2 where cs: "sidtab_convert_entries conv (sd_entries s) m1 = (Inr cs, m2)"
      "t' = sidtab_convert_hashtable H cs (target\<lparr>sd_count := sd_count s\<rparr>)"
    using assms by (auto simp: sidtab_convert_def Let_def split: if_splits prod.splits bool.splits sum.splits)
  show ?thesis
    using convert_entries_spec [OF cs(1)] cs(2) assms(2) by (simp add: sidtab_convert_hashtable_def Let_def)
qed

section \<open>Properties\<close>

text \<open>
  C22. Setting the booleans of the active policy fails exactly when memory for the copy of the conditional
  part of the policy runs out, and then changes nothing; otherwise it installs a policy
  with the next sequence number in which every boolean has the requested value, every conditional is
  in the state of its expression, and from which the access vector cache starts empty, so that no
  decision of the old policy is used again.
\<close>

theorem set_bools_effect:
  assumes "initialized st" "state_policy st = Some old" "bools_ok (pol_policydb old)"
    and "length values = unat (st_nprim (p_bools (pol_policydb old)))" "avc_wf a"
  shows "\<exists>rc st' a' m'. security_set_bools cs values st a m = Some (rc, st', a', m') \<and>
    rc = (if fst (kalloc m) then fst (cond_policydb_dup (pol_policydb old) (pol_policydb old) (snd (kalloc m))) else Err ENOMEM) \<and>
    (if rc \<noteq> OK then st' = st \<and> a' = a
     else \<exists>new. state_policy st' = Some new \<and> latest_granting new = latest_granting old + 1 \<and>
       (\<forall>i < length values. bool_state_of (pol_policydb new) (of_nat i + 1) = of_bool (values ! i \<noteq> 0)) \<and>
       map cond_expr (cond_list (pol_policydb new)) = map cond_expr (cond_list (pol_policydb old)) \<and>
       (\<forall>n \<in> set (cond_list (pol_policydb new)). cur_state n = cond_evaluate_expr (pol_policydb new) (cond_expr n)) \<and>
       (\<forall>s t c. avc_lookup a' s t c = None) \<and> latest_granting new \<le> latest_notif a')"
proof -
  obtain ok m1 where m1: "kalloc m = (ok, m1)" by (cases "kalloc m")
  obtain rc p m2 where dup: "cond_policydb_dup (pol_policydb old) (pol_policydb old) m1 = (rc, p, m2)" by (metis prod_cases3)
  show ?thesis
  proof (cases "ok \<and> rc = OK")
    case False
    then show ?thesis
      using assms(1,2,4) m1 dup cond_policydb_dup_ENOMEM [OF dup] by (cases ok; cases rc) (auto simp: security_set_bools_def)
  next
    case True
    have p: "bools_indexed p" "p_bools p = p_bools (pol_policydb old)"
        "map cond_expr (cond_list p) = map cond_expr (cond_list (pol_policydb old))"
      using cond_policydb_dup_spec [of _ "pol_policydb old" m1 p m2] dup True assms(3) by auto
    obtain q where q: "update_bools 0 values p = Some q" "cond_list q = cond_list p"
        "\<forall>j < length values. bool_state_of q (of_nat j + 1) = of_bool (values ! j \<noteq> 0)"
      using update_bools_spec [OF p(1), of 0 "values"] p(2) assms(4) by auto
    let ?seq = "latest_granting old + 1"
    let ?a = "selinux_notify_policy_change cs ?seq a"
    have r: "security_set_bools cs values st a m =
        Some (OK, st\<lparr>state_policy := Some (old\<lparr>pol_policydb := evaluate_cond_nodes q, latest_granting := ?seq\<rparr>)\<rparr>, ?a, m2)"
      using assms(1,2,4) m1 dup True q(1) by (simp add: security_set_bools_def Let_def)
    have "bool_state_of (evaluate_cond_nodes q) v = bool_state_of q v" for v
      by (simp add: bool_state_of_def bool_datum_def)
    moreover have "avc_lookup ?a s t c = None" "?seq \<le> latest_notif ?a" for s t c
      using avc.flush_look [OF assms(5), of "(s, t, c)"] avc_look_notif [of _ "avc_flush a" "(s, t, c)"]
      by (auto simp: selinux_notify_policy_change_def avc_ss_reset_def avc_latest_notif_update_def avc_look_def Let_def)
    ultimately show ?thesis
      using r q(2,3) p(3) evaluate_cond_nodes_states [of q] m1 dup True by auto
  qed
qed

definition bool_state_sample :: selinux_state where
  "bool_state_sample = server_state\<lparr>state_policy := Some \<lparr>pol_sidtab = server_sidtab, pol_policydb = bool_policydb,
     pol_map = \<lparr>mapping = [], map_size = 0\<rparr>, latest_granting = 7\<rparr>\<rparr>"

lemma bool_policydb_ok: "bools_ok bool_policydb"
proof -
  have "symtab_ok (p_bools bool_policydb)"
    by (simp add: bool_policydb_def symtab_ok_def sym.inv_def sym.chain_inv_def)
  moreover have "hashtab_nodes (st_table (p_bools bool_policydb)) = [(''b'', \<lparr>bool_value = 1, bool_state = 1\<rparr>)]"
    by (simp add: bool_policydb_def hashtab_nodes_def)
  moreover have "symtab_search (p_bools bool_policydb) ''b'' = Some \<lparr>bool_value = 1, bool_state = 1\<rparr>" "st_nprim (p_bools bool_policydb) = 1"
    by (simp_all add: bool_policydb_def symtab_search_def hashtab_search_def symcmp_def)
  ultimately show ?thesis by (simp add: bools_ok_def)
qed

lemma bool_policydb_dup: "fst (cond_policydb_dup bool_policydb bool_policydb []) = OK"
  by (simp add: bool_policydb_def cond_policydb_dup_def duplicate_policydb_bools_def hashtab_duplicate_def cond_bools_copy_def
      hashtab_map_def hashtab_nodes_def cond_bools_index_def duplicate_policydb_cond_list_def cond_policydb_init_def
      avtab_alloc_dup_def avtab_alloc_common_def avtab_init_def policydb_init_def)

theorem set_bools_effect_witness:
  "\<exists>st' a' m' new. security_set_bools [] [0] bool_state_sample avc_fresh [] = Some (OK, st', a', m') \<and>
     state_policy st' = Some new \<and> latest_granting new = 8 \<and> bool_state_of (pol_policydb new) 1 = 0 \<and>
     (\<forall>s t c. avc_lookup a' s t c = None) \<and> 8 \<le> latest_notif a'"
proof -
  let ?old = "\<lparr>pol_sidtab = server_sidtab, pol_policydb = bool_policydb, pol_map = \<lparr>mapping = [], map_size = 0\<rparr>, latest_granting = 7\<rparr>"
  have st: "initialized bool_state_sample" "state_policy bool_state_sample = Some ?old"
    by (simp_all add: bool_state_sample_def server_state_def)
  have len: "length [0 :: int] = unat (st_nprim (p_bools (pol_policydb ?old)))" "bools_ok (pol_policydb ?old)"
    using bool_policydb_ok by (simp_all add: bool_policydb_def)
  obtain rc st' a' m' where r: "security_set_bools [] [0] bool_state_sample avc_fresh [] = Some (rc, st', a', m')"
      "rc = (if fst (kalloc []) then fst (cond_policydb_dup (pol_policydb ?old) (pol_policydb ?old) (snd (kalloc []))) else Err ENOMEM)"
    and e: "if rc \<noteq> OK then st' = bool_state_sample \<and> a' = avc_fresh
     else \<exists>new. state_policy st' = Some new \<and> latest_granting new = latest_granting ?old + 1 \<and>
       (\<forall>i < length [0 :: int]. bool_state_of (pol_policydb new) (of_nat i + 1) = of_bool ([0 :: int] ! i \<noteq> 0)) \<and>
       map cond_expr (cond_list (pol_policydb new)) = map cond_expr (cond_list (pol_policydb ?old)) \<and>
       (\<forall>n \<in> set (cond_list (pol_policydb new)). cur_state n = cond_evaluate_expr (pol_policydb new) (cond_expr n)) \<and>
       (\<forall>s t c. avc_lookup a' s t c = None) \<and> latest_granting new \<le> latest_notif a'"
    using set_bools_effect [OF st len(2) len(1) avc_wf_init] by blast
  have rc: "rc = OK" using r(2) bool_policydb_dup by simp
  then show ?thesis using r(1) e by auto
qed



end
