(* ===== verification/Landlock_Object.thy ===== *)
theory Landlock_Object
  imports Kernel_Prelude "HOL-Library.Multiset" "HOL-Library.Monad_Syntax"
begin

text \<open>
  Landlock objects (\<open>object.c\<close>, the object management of \<open>fs.c\<close>): an object ties the rules on a file to
  its inode. Rules hold counted references to objects, an inode points to its object, the object points
  back to the inode and holds a reference to it.

  The heap maps addresses to the structures that are allocated. Following a pointer to a structure that
  is not allocated, or dropping a reference that is not held, gives no result (\<open>None\<close>). The outcome of
  each allocation, an address or a failure, is taken from the list \<open>lh_allocs\<close>; an exhausted list fails.
  A reference counter is a natural number: the saturation of \<open>refcount_t\<close>, which only keeps memory
  allocated, is left out. A release is atomic, and so the temporary reference that makes an unmount wait
  for one in progress (\<open>inode_refs\<close>) is not kept. Other threads run between the steps of
  \<open>get_inode_object\<close>, as a list of functions on the heap.
\<close>

section \<open>The heap\<close>

type_synonym inode = nat

record landlock_object =
  usage :: nat
  underobj :: "inode option"

record landlock_hierarchy =
  h_parent :: "u64 option"
  h_usage :: nat

record landlock_heap =
  lh_objects :: "u64 \<Rightarrow> landlock_object option"
  lh_inode_object :: "inode \<Rightarrow> u64 option"
  lh_i_count :: "inode \<Rightarrow> int"
  lh_hierarchies :: "u64 \<Rightarrow> landlock_hierarchy option"
  lh_allocs :: "u64 option list"

definition kzalloc :: "landlock_heap \<Rightarrow> u64 option \<times> landlock_heap" where
  "kzalloc h = (case lh_allocs h of [] \<Rightarrow> (None, h) | a # as \<Rightarrow> (a, h\<lparr>lh_allocs := as\<rparr>))"

definition set_object :: "u64 \<Rightarrow> landlock_object option \<Rightarrow> landlock_heap \<Rightarrow> landlock_heap" where
  "set_object a ob h = h\<lparr>lh_objects := (lh_objects h)(a := ob)\<rparr>"

definition ihold :: "inode \<Rightarrow> landlock_heap \<Rightarrow> landlock_heap" where
  "ihold i h = h\<lparr>lh_i_count := (lh_i_count h)(i := lh_i_count h i + 1)\<rparr>"

definition iput :: "inode \<Rightarrow> landlock_heap \<Rightarrow> landlock_heap" where
  "iput i h = h\<lparr>lh_i_count := (lh_i_count h)(i := lh_i_count h i - 1)\<rparr>"

definition set_inode_object :: "inode \<Rightarrow> u64 option \<Rightarrow> landlock_heap \<Rightarrow> landlock_heap" where
  "set_inode_object i p h = h\<lparr>lh_inode_object := (lh_inode_object h)(i := p)\<rparr>"

section \<open>Objects\<close>

definition landlock_create_object :: "inode option \<Rightarrow> landlock_heap \<Rightarrow> (errno + u64) \<times> landlock_heap" where
  "landlock_create_object underob h =
     (case underob of
        None \<Rightarrow> (Inl ENOENT, h)
      | Some i \<Rightarrow>
          (case kzalloc h of
             (None, h) \<Rightarrow> (Inl ENOMEM, h)
           | (Some a, h) \<Rightarrow> (Inr a, set_object a (Some \<lparr>usage = 1, underobj = Some i\<rparr>) h)))"

definition landlock_get_object :: "u64 option \<Rightarrow> landlock_heap \<Rightarrow> landlock_heap option" where
  "landlock_get_object p h =
     (case p of
        None \<Rightarrow> Some h
      | Some a \<Rightarrow> do { ob \<leftarrow> lh_objects h a; Some (set_object a (Some (ob\<lparr>usage := usage ob + 1\<rparr>)) h) })"

definition release_inode :: "u64 \<Rightarrow> landlock_heap \<Rightarrow> landlock_heap option" where
  "release_inode a h = do {
     ob \<leftarrow> lh_objects h a;
     (case underobj ob of
        None \<Rightarrow> Some h
      | Some i \<Rightarrow> Some (iput i (set_inode_object i None (set_object a (Some (ob\<lparr>underobj := None\<rparr>)) h))))
   }"

definition landlock_put_object :: "u64 option \<Rightarrow> landlock_heap \<Rightarrow> landlock_heap option" where
  "landlock_put_object p h =
     (case p of
        None \<Rightarrow> Some h
      | Some a \<Rightarrow> do {
          ob \<leftarrow> lh_objects h a;
          (if usage ob = 0 then None
           else if usage ob = 1 then
             do { h \<leftarrow> release_inode a (set_object a (Some (ob\<lparr>usage := 0\<rparr>)) h); Some (set_object a None h) }
           else Some (set_object a (Some (ob\<lparr>usage := usage ob - 1\<rparr>)) h))
        })"

text \<open>
  The object of an inode, with a new reference. An object that is on its way out makes the caller wait
  and look again; an object that someone else created in the meantime makes it drop its own.
\<close>

fun get_inode_object ::
  "inode \<Rightarrow> (landlock_heap \<Rightarrow> landlock_heap) list \<Rightarrow> landlock_heap \<Rightarrow> ((errno + u64) \<times> landlock_heap) option" where
  "get_inode_object i envs h =
     (case lh_inode_object h i of
        Some a \<Rightarrow>
          do {
            ob \<leftarrow> lh_objects h a;
            (if usage ob \<noteq> 0 then do { h \<leftarrow> landlock_get_object (Some a) h; Some (Inr a, h) }
             else case envs of [] \<Rightarrow> None | e # envs \<Rightarrow> get_inode_object i envs (e h))
          }
      | None \<Rightarrow>
          (case landlock_create_object (Some i) h of
             (Inl err, h) \<Rightarrow> Some (Inl err, h)
           | (Inr a, h) \<Rightarrow>
               (case envs of
                  [] \<Rightarrow> Some (Inr a, set_inode_object i (Some a) (ihold i h))
                | e # envs \<Rightarrow>
                    if lh_inode_object (e h) i \<noteq> None then get_inode_object i envs (set_object a None (e h))
                    else Some (Inr a, set_inode_object i (Some a) (ihold i (e h))))))"

declare get_inode_object.simps [simp del]

text \<open>The hook warns when an inode is freed that still has an object.\<close>

definition hook_inode_free_security :: "inode \<Rightarrow> landlock_heap \<Rightarrow> bool" where
  "hook_inode_free_security i h = (lh_inode_object h i \<noteq> None)"

text \<open>
  The inodes of a superblock that is shut down, each with the flag that it is new or being freed. The
  reference that the loop takes on an inode is dropped one inode later.
\<close>

definition put_prev :: "inode option \<Rightarrow> landlock_heap \<Rightarrow> landlock_heap" where
  "put_prev prev h = (case prev of None \<Rightarrow> h | Some p \<Rightarrow> iput p h)"

fun sb_delete_loop :: "(inode \<times> bool) list \<Rightarrow> inode option \<Rightarrow> landlock_heap \<Rightarrow> landlock_heap option" where
  "sb_delete_loop [] prev h = Some (put_prev prev h)"
| "sb_delete_loop ((i, gone) # is) prev h =
     (if lh_i_count h i = 0 then sb_delete_loop is prev h
      else if gone then sb_delete_loop is prev h
      else case lh_inode_object h i of
             None \<Rightarrow> sb_delete_loop is prev h
           | Some a \<Rightarrow> do {
               h \<leftarrow> Some (ihold i h);
               ob \<leftarrow> lh_objects h a;
               h \<leftarrow> Some (if underobj ob = Some i
                          then iput i (set_inode_object i None (set_object a (Some (ob\<lparr>underobj := None\<rparr>)) h))
                          else h);
               sb_delete_loop is (Some i) (put_prev prev h)
             })"

definition hook_sb_delete :: "bool \<Rightarrow> (inode \<times> bool) list \<Rightarrow> landlock_heap \<Rightarrow> landlock_heap option" where
  "hook_sb_delete landlock_initialized is h = (if \<not> landlock_initialized then Some h else sb_delete_loop is None h)"

section \<open>Counted references\<close>

text \<open>A store in which every counter is the number of references that the multiset holds.\<close>

definition counted :: "('v \<Rightarrow> nat) \<Rightarrow> (u64 \<Rightarrow> 'v option) \<Rightarrow> u64 multiset \<Rightarrow> bool" where
  "counted cnt R M \<longleftrightarrow> (\<forall>a. case R a of None \<Rightarrow> count M a = 0 | Some v \<Rightarrow> cnt v = count M a \<and> cnt v > 0)"

lemma countedD:
  assumes "counted cnt R M" "R a = Some v"
  shows "cnt v = count M a \<and> cnt v > 0"
  using counted_def [THEN iffD1, OF assms(1), rule_format, of a] unfolding assms(2) option.case .

lemma counted_mem:
  assumes "counted cnt R M"
  shows "R a \<noteq> None \<longleftrightarrow> a \<in># M"
proof (cases "R a")
  case None
  then show ?thesis using counted_def [THEN iffD1, OF assms, rule_format, of a] by (simp add: not_in_iff)
next
  case (Some v)
  then show ?thesis using countedD [OF assms Some] not_in_iff [of a M] by auto
qed

lemma counted_update:
  assumes "counted cnt R M" "\<And>x. x \<noteq> a \<Longrightarrow> count M' x = count M x"
    and "case p of None \<Rightarrow> count M' a = 0 | Some v \<Rightarrow> cnt v = count M' a \<and> cnt v > 0"
  shows "counted cnt (R(a := p)) M'"
  unfolding counted_def
proof
  fix x
  show "case (R(a := p)) x of None \<Rightarrow> count M' x = 0 | Some v \<Rightarrow> cnt v = count M' x \<and> cnt v > 0"
    using assms(2,3) counted_def [THEN iffD1, OF assms(1), rule_format, of x] by (cases "x = a") (auto split: option.splits)
qed

text \<open>The contract of a reference counter, whatever it is a field of.\<close>

locale refcount =
  fixes cnt :: "'v \<Rightarrow> nat" and set_cnt :: "nat \<Rightarrow> 'v \<Rightarrow> 'v"
  assumes cnt_set: "cnt (set_cnt n v) = n"
begin

lemma counted_get:
  assumes "counted cnt R M" "R a = Some v"
  shows "counted cnt (R(a \<mapsto> set_cnt (cnt v + 1) v)) (add_mset a M)"
  using countedD [OF assms] by (intro counted_update [OF assms(1)]) (auto simp: cnt_set)

lemma counted_new:
  assumes "counted cnt R M" "R a = None" "cnt v = 1"
  shows "counted cnt (R(a \<mapsto> v)) (add_mset a M)"
proof -
  have "count M a = 0" using assms(1,2) counted_mem [OF assms(1), of a] by (simp add: not_in_iff)
  then show ?thesis using assms(3) by (intro counted_update [OF assms(1)]) auto
qed

lemma counted_same:
  assumes "counted cnt R M" "R a = Some v" "cnt v' = cnt v"
  shows "counted cnt (R(a \<mapsto> v')) M"
  using countedD [OF assms(1,2)] assms(3) by (intro counted_update [OF assms(1)]) auto

lemma counted_put:
  assumes "counted cnt R (add_mset a M)"
  obtains v where "R a = Some v" "cnt v = count M a + 1" "cnt v \<noteq> 0"
    "cnt v = 1 \<longrightarrow> counted cnt (R(a := None)) M" "cnt v \<noteq> 1 \<longrightarrow> counted cnt (R(a \<mapsto> set_cnt (cnt v - 1) v)) M"
proof -
  obtain v where v: "R a = Some v" using counted_mem [OF assms, of a] by auto
  then have c: "cnt v = count M a + 1" using countedD [OF assms v] by simp
  have "counted cnt (R(a := None)) M" if "cnt v = 1"
    using c that by (intro counted_update [OF assms]) auto
  moreover have "counted cnt (R(a \<mapsto> set_cnt (cnt v - 1) v)) M" if "cnt v \<noteq> 1"
    using c that by (intro counted_update [OF assms]) (auto simp: cnt_set)
  ultimately show thesis using that [OF v c] c by simp
qed

end

interpretation object_count: refcount usage "\<lambda>n ob. ob\<lparr>usage := n\<rparr>"
  by unfold_locales simp

text \<open>
  The invariant of the heap under a multiset of references held by rules and running code: every counter
  is the number of references, objects and inodes point to each other, an inode that has an object is
  referenced, and no counter of an inode is negative.
\<close>

definition refs_ok :: "landlock_heap \<Rightarrow> u64 multiset \<Rightarrow> bool" where
  "refs_ok h M \<longleftrightarrow> counted usage (lh_objects h) M"

definition ties_ok :: "landlock_heap \<Rightarrow> bool" where
  "ties_ok h \<longleftrightarrow>
     (\<forall>i a. lh_inode_object h i = Some a \<longrightarrow> (\<exists>ob. lh_objects h a = Some ob \<and> underobj ob = Some i) \<and> lh_i_count h i \<ge> 1) \<and>
     (\<forall>i a ob. lh_objects h a = Some ob \<longrightarrow> underobj ob = Some i \<longrightarrow> lh_inode_object h i = Some a) \<and>
     (\<forall>i. lh_i_count h i \<ge> 0)"

definition heap_ok :: "landlock_heap \<Rightarrow> u64 multiset \<Rightarrow> bool" where
  "heap_ok h M \<longleftrightarrow> refs_ok h M \<and> ties_ok h"

text \<open>The addresses to come are not in use.\<close>

definition allocs_ok :: "landlock_heap \<Rightarrow> bool" where
  "allocs_ok h \<longleftrightarrow> distinct (filter (\<lambda>x. x \<noteq> None) (lh_allocs h)) \<and>
     (\<forall>a. Some a \<in> set (lh_allocs h) \<longrightarrow> lh_objects h a = None \<and> lh_hierarchies h a = None)"

lemmas heap_simps = set_object_def ihold_def iput_def set_inode_object_def

lemma refs_okD: "refs_ok h M \<Longrightarrow> a \<in># M \<Longrightarrow> \<exists>ob. lh_objects h a = Some ob \<and> usage ob = count M a"
  using counted_mem [of usage "lh_objects h" M a] countedD by (fastforce simp: refs_ok_def)

lemma refs_ok_object: "refs_ok h M \<Longrightarrow> lh_objects h a = Some ob \<Longrightarrow> a \<in># M \<and> usage ob = count M a"
  using counted_mem [of usage "lh_objects h" M a] countedD by (fastforce simp: refs_ok_def)

lemma ties_okE:
  assumes "ties_ok h" "lh_inode_object h i = Some a"
  obtains ob where "lh_objects h a = Some ob" "underobj ob = Some i" "lh_i_count h i \<ge> 1"
  using assms unfolding ties_ok_def by blast

lemma kzalloc_ok:
  assumes "kzalloc h = (p, h')" "allocs_ok h"
  shows "allocs_ok h' \<and> h' = h\<lparr>lh_allocs := lh_allocs h'\<rparr> \<and>
    (case p of None \<Rightarrow> True | Some a \<Rightarrow> lh_objects h a = None \<and> lh_hierarchies h a = None \<and> Some a \<notin> set (lh_allocs h'))"
  using assms by (auto simp: kzalloc_def allocs_ok_def split: list.splits option.splits if_splits)

lemma allocs_ok_mono:
  assumes "allocs_ok h" "lh_allocs h' = lh_allocs h" "dom (lh_objects h') \<subseteq> dom (lh_objects h)"
    "dom (lh_hierarchies h') \<subseteq> dom (lh_hierarchies h)"
  shows "allocs_ok h'"
proof -
  have "lh_objects h' a = None \<and> lh_hierarchies h' a = None" if "Some a \<in> set (lh_allocs h)" for a
    using assms(1,3,4) that by (auto simp: allocs_ok_def domIff)
  then show ?thesis using assms(1,2) by (simp add: allocs_ok_def)
qed

lemma kzalloc_heap_ok: "kzalloc h = (p, h') \<Longrightarrow> heap_ok h' M = heap_ok h M"
  by (auto simp: kzalloc_def heap_ok_def refs_ok_def ties_ok_def split: list.splits)

text \<open>A new reference to an object in use.\<close>

lemma landlock_get_object_ok:
  assumes "heap_ok h M" "a \<in># M"
  obtains h' where "landlock_get_object (Some a) h = Some h'" "heap_ok h' (add_mset a M)" "lh_allocs h' = lh_allocs h"
    "lh_hierarchies h' = lh_hierarchies h" "lh_inode_object h' = lh_inode_object h" "dom (lh_objects h') = dom (lh_objects h)"
proof -
  obtain ob where ob: "lh_objects h a = Some ob" "usage ob = count M a"
    using assms by (auto simp: heap_ok_def dest: refs_okD)
  let ?h = "set_object a (Some (ob\<lparr>usage := usage ob + 1\<rparr>)) h"
  have "refs_ok ?h (add_mset a M)"
    using object_count.counted_get [of "lh_objects h" M a ob] assms(1) ob(1) by (simp add: heap_ok_def refs_ok_def set_object_def)
  moreover have "ties_ok ?h"
    using assms(1) ob by (fastforce simp: heap_ok_def ties_ok_def heap_simps)
  ultimately show thesis
    using that [of ?h] ob insert_absorb [of a "dom (lh_objects h)"]
    by (simp add: landlock_get_object_def heap_ok_def set_object_def domI)
qed

lemma ties_ok_free:
  assumes "ties_ok h" "lh_objects h a = Some ob"
  shows "ties_ok (case underobj ob of None \<Rightarrow> set_object a None h | Some i \<Rightarrow> iput i (set_inode_object i None (set_object a None h)))"
proof (cases "underobj ob")
  case None
  have "lh_inode_object h i \<noteq> Some a" for i using assms None by (force simp: ties_ok_def)
  then show ?thesis using assms(1) None by (auto simp: ties_ok_def heap_simps)
next
  case (Some i)
  have i: "lh_inode_object h j = Some a \<longleftrightarrow> j = i" for j
    using assms Some unfolding ties_ok_def by (metis option.inject)
  have "lh_inode_object h j \<noteq> Some b" if "lh_objects h b = Some ob'" "underobj ob' = Some k" "j \<noteq> k" for j k b ob'
    using assms(1) that unfolding ties_ok_def by (metis option.inject)
  moreover have "b = a" if "lh_objects h b = Some ob'" "underobj ob' = Some i" for b ob'
    using assms(1) that i unfolding ties_ok_def by (metis option.inject)
  moreover have "lh_i_count h i \<ge> 1" using assms(1) i by (auto simp: ties_ok_def)
  ultimately show ?thesis using assms(1) Some i unfolding ties_ok_def by (auto simp: heap_simps split: if_splits)
qed

text \<open>A reference is dropped; the last one takes the object with it and unties its inode.\<close>

lemma landlock_put_object_ok:
  assumes "heap_ok h (add_mset a M)"
  obtains h' where "landlock_put_object (Some a) h = Some h'" "heap_ok h' M" "lh_allocs h' = lh_allocs h"
    "lh_hierarchies h' = lh_hierarchies h" "a \<in># M \<Longrightarrow> lh_inode_object h' = lh_inode_object h \<and> lh_i_count h' = lh_i_count h"
    "dom (lh_objects h') \<subseteq> dom (lh_objects h)"
proof -
  obtain ob where ob: "lh_objects h a = Some ob" "usage ob = count M a + 1" "usage ob \<noteq> 0"
      "usage ob = 1 \<longrightarrow> counted usage ((lh_objects h)(a := None)) M"
      "usage ob \<noteq> 1 \<longrightarrow> counted usage ((lh_objects h)(a \<mapsto> ob\<lparr>usage := usage ob - 1\<rparr>)) M"
    by (rule object_count.counted_put [OF heap_ok_def [THEN iffD1, OF assms, THEN conjunct1, unfolded refs_ok_def]])
  show thesis
  proof (cases "a \<in># M")
    case True
    let ?h = "set_object a (Some (ob\<lparr>usage := usage ob - 1\<rparr>)) h"
    have "refs_ok ?h M"
      using ob True by (auto simp: refs_ok_def set_object_def)
    moreover have "ties_ok ?h"
      using assms(1) ob(1) by (fastforce simp: heap_ok_def ties_ok_def heap_simps)
    ultimately show thesis
      using that [of ?h] ob(1-3) count_greater_zero_iff [THEN iffD2, OF True]
      by (simp add: landlock_put_object_def heap_ok_def set_object_def domI subset_insertI)
  next
    case False
    then have one: "usage ob = 1" using ob(2) by (simp add: not_in_iff)
    obtain h' where h': "landlock_put_object (Some a) h = Some h'"
      "h' = (case underobj ob of None \<Rightarrow> set_object a None h | Some i \<Rightarrow> iput i (set_inode_object i None (set_object a None h)))"
      using ob(1) one by (cases "underobj ob") (auto simp: landlock_put_object_def release_inode_def heap_simps)
    have "refs_ok h' M"
      using ob(4) one by (simp add: h'(2) refs_ok_def heap_simps split: option.splits)
    moreover have "ties_ok h'"
      using assms ties_ok_free [OF _ ob(1)] by (simp add: heap_ok_def h'(2))
    ultimately show thesis
      using that [OF h'(1)] False by (auto simp: h'(2) heap_ok_def heap_simps split: option.splits)
  qed
qed

text \<open>The object of an inode: the one it has, or a new one that is tied to it.\<close>

lemma ties_ok_tie:
  assumes "ties_ok h" "lh_objects h a = None" "lh_inode_object h i = None" "underobj ob = Some i"
  shows "ties_ok (set_inode_object i (Some a) (ihold i (set_object a (Some ob) h)))"
proof -
  have "lh_inode_object h j \<noteq> Some a" for j using assms(1,2) by (force simp: ties_ok_def)
  then show ?thesis using assms unfolding ties_ok_def by (auto simp: heap_simps intro: add_nonneg_nonneg)
qed

lemma get_inode_object_ok:
  assumes "heap_ok h M" "allocs_ok h"
  shows "\<exists>r h'. get_inode_object i [] h = Some (r, h') \<and> allocs_ok h' \<and> lh_hierarchies h' = lh_hierarchies h \<and>
    set (lh_allocs h') \<subseteq> set (lh_allocs h) \<and>
    (\<forall>j. j \<noteq> i \<longrightarrow> lh_inode_object h' j = lh_inode_object h j) \<and>
    (case r of Inl e \<Rightarrow> e = ENOMEM \<and> heap_ok h' M \<and> lh_inode_object h' i = None
     | Inr a \<Rightarrow> heap_ok h' (add_mset a M) \<and> lh_inode_object h' i = Some a \<and> (lh_inode_object h i = None \<or> lh_inode_object h i = Some a))"
proof (cases "lh_inode_object h i")
  case (Some a)
  then obtain ob where ob: "lh_objects h a = Some ob" using assms(1) ties_okE [of h i a] by (auto simp: heap_ok_def)
  then have a: "a \<in># M" "usage ob \<noteq> 0" using assms(1) refs_ok_object [of h M a ob] by (auto simp: heap_ok_def)
  obtain h' where h': "landlock_get_object (Some a) h = Some h'" "heap_ok h' (add_mset a M)" "lh_allocs h' = lh_allocs h"
      "lh_hierarchies h' = lh_hierarchies h" "lh_inode_object h' = lh_inode_object h" "dom (lh_objects h') = dom (lh_objects h)"
    by (rule landlock_get_object_ok [OF assms(1) a(1)])
  have "allocs_ok h'" using allocs_ok_mono [OF assms(2)] h'(3,4,6) by simp
  then show ?thesis using Some ob a(2) h' by (subst get_inode_object.simps) simp
next
  case None
  obtain p h1 where k: "kzalloc h = (p, h1)" by fastforce
  note k_ok = kzalloc_ok [OF k assms(2)]
  then have h1: "allocs_ok h1" "h1 = h\<lparr>lh_allocs := lh_allocs h1\<rparr>" by simp_all
  have fields: "lh_inode_object h1 = lh_inode_object h" "lh_hierarchies h1 = lh_hierarchies h" "lh_objects h1 = lh_objects h"
      "lh_i_count h1 = lh_i_count h" "set (lh_allocs h1) \<subseteq> set (lh_allocs h)"
    using k by (auto simp: kzalloc_def split: list.splits)
  have ok1: "heap_ok h1 M" using assms(1) kzalloc_heap_ok [OF k] by simp
  show ?thesis
  proof (cases p)
    case None
    then show ?thesis
      using k \<open>lh_inode_object h i = None\<close> h1(1) ok1 fields
      by (subst get_inode_object.simps) (simp add: landlock_create_object_def)
  next
    case (Some a)
    let ?ob = "\<lparr>usage = 1, underobj = Some i\<rparr>"
    let ?h = "set_inode_object i (Some a) (ihold i (set_object a (Some ?ob) h1))"
    have a: "lh_objects h1 a = None" "Some a \<notin> set (lh_allocs h1)" using k_ok Some fields by simp_all
    then have "refs_ok ?h (add_mset a M)"
      using ok1 object_count.counted_new [of "lh_objects h1" M a ?ob] by (simp add: heap_ok_def refs_ok_def heap_simps)
    moreover have "ties_ok ?h"
      using ok1 a(1) None by (intro ties_ok_tie) (simp_all add: heap_ok_def fields)
    moreover have "allocs_ok ?h" using h1(1) a(2) by (auto simp: allocs_ok_def heap_simps)
    moreover have "get_inode_object i [] h = Some (Inr a, ?h)"
      using k Some None by (subst get_inode_object.simps) (simp add: landlock_create_object_def)
    moreover have "lh_inode_object ?h = (lh_inode_object h)(i \<mapsto> a)" "lh_hierarchies ?h = lh_hierarchies h" "lh_allocs ?h = lh_allocs h1"
      using fields by (simp_all add: heap_simps)
    ultimately show ?thesis using None fields(5) by (simp add: heap_ok_def)
  qed
qed

text \<open>An unmount unties the inodes of the superblock, and gives up the references that their objects held.\<close>

lemma ties_ok_untie:
  assumes "ties_ok h" "lh_inode_object h i = Some a" "lh_objects h a = Some ob"
  shows "ties_ok (set_inode_object i None (set_object a (Some (ob\<lparr>underobj := None\<rparr>)) h))"
proof -
  have 1: "lh_inode_object h j \<noteq> Some a" if "j \<noteq> i" for j
    using assms that unfolding ties_ok_def by (metis option.inject)
  have 2: "underobj ob' \<noteq> Some i" if "lh_objects h b = Some ob'" "b \<noteq> a" for b ob'
    using assms(1,2) that unfolding ties_ok_def by (metis option.inject)
  show ?thesis
    unfolding ties_ok_def
  proof (intro conjI allI impI)
    fix j b
    assume "lh_inode_object (set_inode_object i None (set_object a (Some (ob\<lparr>underobj := None\<rparr>)) h)) j = Some b"
    then have "j \<noteq> i" "lh_inode_object h j = Some b" by (auto simp: heap_simps split: if_splits)
    moreover from this have "b \<noteq> a" using 1 by auto
    ultimately show "\<exists>ob'. lh_objects (set_inode_object i None (set_object a (Some (ob\<lparr>underobj := None\<rparr>)) h)) b = Some ob' \<and> underobj ob' = Some j"
      "1 \<le> lh_i_count (set_inode_object i None (set_object a (Some (ob\<lparr>underobj := None\<rparr>)) h)) j"
      using ties_okE [OF assms(1), of j b] by (auto simp: heap_simps)
  next
    fix j b ob'
    assume "lh_objects (set_inode_object i None (set_object a (Some (ob\<lparr>underobj := None\<rparr>)) h)) b = Some ob'" "underobj ob' = Some j"
    then have "b \<noteq> a" "lh_objects h b = Some ob'" by (auto simp: heap_simps split: if_splits)
    then show "lh_inode_object (set_inode_object i None (set_object a (Some (ob\<lparr>underobj := None\<rparr>)) h)) j = Some b"
      using assms(1) 2 [of b ob'] \<open>underobj ob' = Some j\<close> by (auto simp: ties_ok_def heap_simps)
  next
    fix j
    show "0 \<le> lh_i_count (set_inode_object i None (set_object a (Some (ob\<lparr>underobj := None\<rparr>)) h)) j"
      using assms(1) by (simp add: ties_ok_def heap_simps)
  qed
qed

lemma ties_ok_count: "ties_ok h \<Longrightarrow> lh_inode_object h i = None \<Longrightarrow> n \<ge> 0 \<Longrightarrow> ties_ok (h\<lparr>lh_i_count := (lh_i_count h)(i := n)\<rparr>)"
  by (auto simp: ties_ok_def)

lemma sb_delete_loop_ok:
  assumes "heap_ok (put_prev prev h) M" "distinct (map fst is)" "\<And>p. prev = Some p \<Longrightarrow> lh_inode_object h p = None"
  shows "\<exists>h'. sb_delete_loop is prev h = Some h' \<and> heap_ok h' M \<and> lh_allocs h' = lh_allocs h \<and> lh_hierarchies h' = lh_hierarchies h \<and>
    (\<forall>i. lh_inode_object h' i = (if (i, False) \<in> set is then None else lh_inode_object h i)) \<and>
    (\<forall>i. lh_i_count h' i = lh_i_count (put_prev prev h) i - of_bool ((i, False) \<in> set is \<and> lh_inode_object h i \<noteq> None))"
  using assms
proof (induction "is" arbitrary: prev h)
  case (Cons x xs)
  obtain i gone where x: "x = (i, gone)" by (cases x)
  have ok: "ties_ok (put_prev prev h)" "refs_ok (put_prev prev h) M" using Cons.prems(1) by (simp_all add: heap_ok_def)
  have same: "lh_inode_object (put_prev prev h) = lh_inode_object h" "lh_objects (put_prev prev h) = lh_objects h"
      "lh_allocs (put_prev prev h) = lh_allocs h" "lh_hierarchies (put_prev prev h) = lh_hierarchies h"
    by (simp_all add: put_prev_def heap_simps split: option.splits)
  show ?case
  proof (cases "gone \<or> lh_inode_object h i = None")
    case True
    then have "sb_delete_loop (x # xs) prev h = sb_delete_loop xs prev h" by (auto simp: x)
    moreover have "(i, False) \<notin> set xs" using Cons.prems(2) by (force simp: x)
    ultimately show ?thesis
      using Cons.IH [OF Cons.prems(1) _ Cons.prems(3)] Cons.prems(2) True by (auto simp: x)
  next
    case False
    then obtain a where a: "lh_inode_object h i = Some a" "\<not> gone" by auto
    obtain ob where ob: "lh_objects h a = Some ob" "underobj ob = Some i" "lh_i_count (put_prev prev h) i \<ge> 1"
      using ties_okE [OF ok(1), of i a] a(1) same by metis
    have "prev \<noteq> Some i" using Cons.prems(3) a(1) by auto
    then have cnt: "lh_i_count h i \<noteq> 0" using ob(3) by (auto simp: put_prev_def heap_simps split: option.splits)
    define h1 where "h1 = put_prev prev (set_inode_object i None (set_object a (Some (ob\<lparr>underobj := None\<rparr>)) h))"
    have h1: "h1 = set_inode_object i None (set_object a (Some (ob\<lparr>underobj := None\<rparr>)) (put_prev prev h))"
      by (simp add: h1_def put_prev_def heap_simps split: option.splits)
    have step: "sb_delete_loop (x # xs) prev h = sb_delete_loop xs (Some i) h1"
      using a ob cnt by (simp add: x h1_def put_prev_def heap_simps split: option.splits)
    have "ties_ok h1" unfolding h1 using ties_ok_untie [OF ok(1)] a ob same by simp
    moreover have "refs_ok h1 M"
      using object_count.counted_same [of "lh_objects h" M a ob "ob\<lparr>underobj := None\<rparr>"] ok(2) ob(1) same by (simp add: h1 refs_ok_def heap_simps)
    moreover have "lh_inode_object h1 i = None" "lh_i_count h1 i = lh_i_count (put_prev prev h) i" by (simp_all add: h1 heap_simps)
    ultimately have "heap_ok (put_prev (Some i) h1) M"
      using ties_ok_count [of h1 i] ob(3) by (simp add: put_prev_def heap_ok_def iput_def refs_ok_def)
    then obtain h' where h': "sb_delete_loop xs (Some i) h1 = Some h'" "heap_ok h' M" "lh_allocs h' = lh_allocs h1" "lh_hierarchies h' = lh_hierarchies h1"
        "\<forall>j. lh_inode_object h' j = (if (j, False) \<in> set xs then None else lh_inode_object h1 j)"
        "\<forall>j. lh_i_count h' j = lh_i_count (put_prev (Some i) h1) j - of_bool ((j, False) \<in> set xs \<and> lh_inode_object h1 j \<noteq> None)"
      using Cons.IH [of "Some i" h1] Cons.prems(2) \<open>lh_inode_object h1 i = None\<close> by auto
    moreover have "lh_inode_object h1 = (lh_inode_object h)(i := None)" "lh_allocs h1 = lh_allocs h" "lh_hierarchies h1 = lh_hierarchies h"
        "lh_i_count h1 = lh_i_count (put_prev prev h)" "lh_i_count (put_prev (Some i) h1) = (lh_i_count h1)(i := lh_i_count h1 i - 1)"
      by (simp_all add: h1 same heap_simps put_prev_def split: option.splits)
    moreover have "(i, False) \<notin> set xs" using Cons.prems(2) by (force simp: x)
    ultimately show ?thesis
      unfolding step using a by (intro exI [of _ h']) (auto simp: x)
  qed
qed (simp add: put_prev_def heap_simps split: option.splits)

section \<open>Properties\<close>

text \<open>
  C14. The shutdown of a superblock makes progress past Landlock: the loop over its inodes ends, and then no
  inode of it that is live has an object, so that none is warned about when it is freed, and every inode
  that had one is given up by exactly the one reference its object held. The counters of all objects stay
  exact and nothing changes for the inodes of other file systems.
\<close>

theorem hook_sb_delete_releases:
  assumes "heap_ok h M" "distinct (map fst is)"
  shows "\<exists>h'. hook_sb_delete True is h = Some h' \<and> heap_ok h' M \<and>
    (\<forall>i. (i, False) \<in> set is \<longrightarrow> \<not> hook_inode_free_security i h') \<and>
    (\<forall>i. lh_i_count h' i = lh_i_count h i - of_bool ((i, False) \<in> set is \<and> lh_inode_object h i \<noteq> None)) \<and>
    (\<forall>i. (i, False) \<notin> set is \<longrightarrow> lh_inode_object h' i = lh_inode_object h i)"
  using sb_delete_loop_ok [of None h M "is"] assms
  by (auto simp: hook_sb_delete_def hook_inode_free_security_def put_prev_def)

theorem hook_sb_delete_releases_witness:
  "\<exists>h'. hook_sb_delete True [(3, False), (4, True)]
       \<lparr>lh_objects = [100 \<mapsto> \<lparr>usage = 1, underobj = Some 3\<rparr>], lh_inode_object = [3 \<mapsto> 100], lh_i_count = (\<lambda>_. 2),
         lh_hierarchies = Map.empty, lh_allocs = []\<rparr> = Some h' \<and>
     \<not> hook_inode_free_security 3 h' \<and> lh_i_count h' 3 = 1 \<and> lh_i_count h' 4 = 2"
proof -
  let ?h = "\<lparr>lh_objects = [100 \<mapsto> \<lparr>usage = 1, underobj = Some 3\<rparr>], lh_inode_object = [3 \<mapsto> 100], lh_i_count = (\<lambda>_. 2),
         lh_hierarchies = Map.empty, lh_allocs = []\<rparr>"
  have "heap_ok ?h {#100#}" by (auto simp: heap_ok_def refs_ok_def counted_def ties_ok_def split: if_splits)
  from hook_sb_delete_releases [OF this, of "[(3, False), (4, True)]"] show ?thesis by auto
qed

end
