(* ===== verification/Landlock_Ruleset.thy ===== *)
theory Landlock_Ruleset
  imports Landlock_Object "HOL-Library.Tree"
begin

text \<open>
  Landlock rulesets and domains (\<open>ruleset.c\<close>, \<open>ruleset.h\<close>, \<open>limits.h\<close>). A ruleset holds the rules a process
  writes, one layer of level 0 for each object; a domain is a stack of up to 16 rulesets, in which the
  layers of a rule say which of the stacked rulesets allow what on its object.

  The rules are in a tree ordered by the address of their object. The rebalancing of the kernel's
  red-black trees is a parameter, \<open>rebal\<close>, which is relied on to keep the order of the nodes. A rule's
  array of layers is a list, its length the field \<open>num_layers\<close>. Locks are left out: a ruleset is changed
  under its lock, a domain only while its creator is the one owner. Results are \<open>None\<close> where a pointer
  to nothing is followed.
\<close>

section \<open>Structures\<close>

definition LANDLOCK_MAX_NUM_LAYERS :: nat where "LANDLOCK_MAX_NUM_LAYERS = 16"

definition LANDLOCK_MAX_NUM_RULES :: u32 where "LANDLOCK_MAX_NUM_RULES = 0xffffffff"

record landlock_layer =
  ll_level :: u16
  ll_access :: u16

record landlock_rule =
  lr_object :: u64
  lr_layers :: "landlock_layer list"

record landlock_ruleset =
  rs_addr :: u64
  rs_root :: "landlock_rule tree"
  rs_hierarchy :: "u64 option"
  rs_usage :: nat
  rs_num_rules :: u32
  rs_num_layers :: u32
  fs_access_masks :: "u16 list"

type_synonym rebalance = "landlock_rule tree \<Rightarrow> landlock_rule tree"

section \<open>Rules\<close>

definition create_ruleset :: "u32 \<Rightarrow> landlock_heap \<Rightarrow> (errno + landlock_ruleset) \<times> landlock_heap" where
  "create_ruleset num_layers h =
     (case kzalloc h of
        (None, h) \<Rightarrow> (Inl ENOMEM, h)
      | (Some a, h) \<Rightarrow>
          (Inr \<lparr>rs_addr = a, rs_root = Leaf, rs_hierarchy = None, rs_usage = 1, rs_num_rules = 0,
                rs_num_layers = num_layers, fs_access_masks = replicate (unat num_layers) 0\<rparr>, h))"

definition landlock_create_ruleset :: "u16 \<Rightarrow> landlock_heap \<Rightarrow> (errno + landlock_ruleset) \<times> landlock_heap" where
  "landlock_create_ruleset fs_access_mask h =
     (if fs_access_mask = 0 then (Inl ENOMSG, h)
      else case create_ruleset 1 h of
             (Inl e, h) \<Rightarrow> (Inl e, h)
           | (Inr rs, h) \<Rightarrow> (Inr (rs\<lparr>fs_access_masks := (fs_access_masks rs)[0 := fs_access_mask]\<rparr>), h))"

definition create_rule ::
  "u64 \<Rightarrow> landlock_layer list \<Rightarrow> landlock_layer option \<Rightarrow> landlock_heap \<Rightarrow> ((errno + landlock_rule) \<times> landlock_heap) option" where
  "create_rule ob layers new_layer h =
     (if new_layer \<noteq> None \<and> length layers \<ge> LANDLOCK_MAX_NUM_LAYERS then Some (Inl E2BIG, h)
      else case kzalloc h of
             (None, h) \<Rightarrow> Some (Inl ENOMEM, h)
           | (Some _, h) \<Rightarrow>
               do {
                 h \<leftarrow> landlock_get_object (Some ob) h;
                 Some (Inr \<lparr>lr_object = ob, lr_layers = layers @ (case new_layer of None \<Rightarrow> [] | Some l \<Rightarrow> [l])\<rparr>, h)
               })"

definition free_rule :: "landlock_rule \<Rightarrow> landlock_heap \<Rightarrow> landlock_heap option" where
  "free_rule rule h = landlock_put_object (Some (lr_object rule)) h"

text \<open>The walk down the tree, the replacement of the node it ends at, and the link of a new leaf where it ends.\<close>

fun walk_rule :: "u64 \<Rightarrow> landlock_rule tree \<Rightarrow> landlock_rule option" where
  "walk_rule ob Leaf = None"
| "walk_rule ob (Node l this r) =
     (if lr_object this \<noteq> ob
      then (if lr_object this < ob then walk_rule ob r else walk_rule ob l)
      else Some this)"

fun rb_replace_node :: "u64 \<Rightarrow> landlock_rule \<Rightarrow> landlock_rule tree \<Rightarrow> landlock_rule tree" where
  "rb_replace_node ob new Leaf = Leaf"
| "rb_replace_node ob new (Node l this r) =
     (if lr_object this \<noteq> ob
      then (if lr_object this < ob then Node l this (rb_replace_node ob new r) else Node (rb_replace_node ob new l) this r)
      else Node l new r)"

fun rb_link_node :: "landlock_rule \<Rightarrow> landlock_rule tree \<Rightarrow> landlock_rule tree" where
  "rb_link_node new Leaf = Node Leaf new Leaf"
| "rb_link_node new (Node l this r) =
     (if lr_object this < lr_object new then Node l this (rb_link_node new r) else Node (rb_link_node new l) this r)"

text \<open>The rule of an object that has one already: extended in a ruleset, stacked upon in a domain.\<close>

definition update_rule ::
  "landlock_ruleset \<Rightarrow> u64 \<Rightarrow> landlock_rule \<Rightarrow> landlock_layer list \<Rightarrow> landlock_heap \<Rightarrow> (rc \<times> landlock_ruleset \<times> landlock_heap) option" where
  "update_rule rs ob this layers h =
     (case layers of
        [layer] \<Rightarrow>
          if ll_level layer = 0
          then (case lr_layers this of
                  [l0] \<Rightarrow>
                    if ll_level l0 \<noteq> 0 then Some (Err EINVAL, rs, h)
                    else Some (OK, rs\<lparr>rs_root := rb_replace_node ob
                                 (this\<lparr>lr_layers := [l0\<lparr>ll_access := ll_access l0 OR ll_access layer\<rparr>]\<rparr>) (rs_root rs)\<rparr>, h)
                | _ \<Rightarrow> Some (Err EINVAL, rs, h))
          else (case lr_layers this of
                  [] \<Rightarrow> None
                | l0 # _ \<Rightarrow>
                    if ll_level l0 = 0 then Some (Err EINVAL, rs, h)
                    else do {
                      (new_rule, h) \<leftarrow> create_rule ob (lr_layers this) (Some layer) h;
                      (case new_rule of
                         Inl e \<Rightarrow> Some (Err e, rs, h)
                       | Inr rule \<Rightarrow> do {
                           h \<leftarrow> free_rule this h;
                           Some (OK, rs\<lparr>rs_root := rb_replace_node ob rule (rs_root rs)\<rparr>, h)
                         })
                    })
      | _ \<Rightarrow> Some (Err EINVAL, rs, h))"

definition insert_rule ::
  "rebalance \<Rightarrow> landlock_ruleset \<Rightarrow> u64 option \<Rightarrow> landlock_layer list \<Rightarrow> landlock_heap \<Rightarrow> (rc \<times> landlock_ruleset \<times> landlock_heap) option" where
  "insert_rule rebal rs p layers h =
     (case p of
        None \<Rightarrow> Some (Err ENOENT, rs, h)
      | Some ob \<Rightarrow>
          (case walk_rule ob (rs_root rs) of
             Some this \<Rightarrow> update_rule rs ob this layers h
           | None \<Rightarrow>
               if rs_num_rules rs \<ge> LANDLOCK_MAX_NUM_RULES then Some (Err E2BIG, rs, h)
               else do {
                 (new_rule, h) \<leftarrow> create_rule ob layers None h;
                 (case new_rule of
                    Inl e \<Rightarrow> Some (Err e, rs, h)
                  | Inr rule \<Rightarrow>
                      Some (OK, rs\<lparr>rs_root := rebal (rb_link_node rule (rs_root rs)), rs_num_rules := rs_num_rules rs + 1\<rparr>, h))
               }))"

definition landlock_insert_rule ::
  "rebalance \<Rightarrow> landlock_ruleset \<Rightarrow> u64 option \<Rightarrow> u16 \<Rightarrow> landlock_heap \<Rightarrow> (rc \<times> landlock_ruleset \<times> landlock_heap) option" where
  "landlock_insert_rule rebal rs p acc h = insert_rule rebal rs p [\<lparr>ll_level = 0, ll_access = acc\<rparr>] h"

section \<open>Hierarchies\<close>

definition set_hierarchy :: "u64 \<Rightarrow> landlock_hierarchy option \<Rightarrow> landlock_heap \<Rightarrow> landlock_heap" where
  "set_hierarchy a n h = h\<lparr>lh_hierarchies := (lh_hierarchies h)(a := n)\<rparr>"

definition get_hierarchy :: "u64 option \<Rightarrow> landlock_heap \<Rightarrow> landlock_heap option" where
  "get_hierarchy p h =
     (case p of
        None \<Rightarrow> Some h
      | Some a \<Rightarrow> do { n \<leftarrow> lh_hierarchies h a; Some (set_hierarchy a (Some (n\<lparr>h_usage := h_usage n + 1\<rparr>)) h) })"

partial_function (option) put_hierarchy :: "u64 option \<Rightarrow> landlock_heap \<Rightarrow> landlock_heap option" where
  "put_hierarchy p h =
     (case p of
        None \<Rightarrow> Some h
      | Some a \<Rightarrow> do {
          n \<leftarrow> lh_hierarchies h a;
          (if h_usage n = 0 then None
           else if h_usage n = 1 then put_hierarchy (h_parent n) (set_hierarchy a None h)
           else Some (set_hierarchy a (Some (n\<lparr>h_usage := h_usage n - 1\<rparr>)) h))
        })"

section \<open>Merging\<close>

fun merge_rules ::
  "rebalance \<Rightarrow> landlock_ruleset \<Rightarrow> landlock_rule list \<Rightarrow> landlock_heap \<Rightarrow> (rc \<times> landlock_ruleset \<times> landlock_heap) option" where
  "merge_rules rebal dst [] h = Some (OK, dst, h)"
| "merge_rules rebal dst (walker_rule # rules) h =
     (case lr_layers walker_rule of
        [l0] \<Rightarrow>
          if ll_level l0 \<noteq> 0 then Some (Err EINVAL, dst, h)
          else do {
            (err, dst, h) \<leftarrow> insert_rule rebal dst (Some (lr_object walker_rule))
                               [\<lparr>ll_level = ucast (rs_num_layers dst), ll_access = ll_access l0\<rparr>] h;
            (if err \<noteq> OK then Some (err, dst, h) else merge_rules rebal dst rules h)
          }
      | _ \<Rightarrow> Some (Err EINVAL, dst, h))"

definition merge_ruleset ::
  "rebalance \<Rightarrow> landlock_ruleset \<Rightarrow> landlock_ruleset \<Rightarrow> landlock_heap \<Rightarrow> (rc \<times> landlock_ruleset \<times> landlock_heap) option" where
  "merge_ruleset rebal dst src h =
     (if rs_hierarchy dst = None then Some (Err EINVAL, dst, h)
      else if rs_num_layers src \<noteq> 1 \<or> rs_num_layers dst < 1 then Some (Err EINVAL, dst, h)
      else merge_rules rebal
             (dst\<lparr>fs_access_masks := (fs_access_masks dst)[unat (rs_num_layers dst - 1) := fs_access_masks src ! 0]\<rparr>)
             (postorder (rs_root src)) h)"

fun inherit_rules ::
  "rebalance \<Rightarrow> landlock_ruleset \<Rightarrow> landlock_rule list \<Rightarrow> landlock_heap \<Rightarrow> (rc \<times> landlock_ruleset \<times> landlock_heap) option" where
  "inherit_rules rebal child [] h = Some (OK, child, h)"
| "inherit_rules rebal child (walker_rule # rules) h =
     do {
       (err, child, h) \<leftarrow> insert_rule rebal child (Some (lr_object walker_rule)) (lr_layers walker_rule) h;
       (if err \<noteq> OK then Some (err, child, h) else inherit_rules rebal child rules h)
     }"

definition inherit_ruleset ::
  "rebalance \<Rightarrow> landlock_ruleset option \<Rightarrow> landlock_ruleset \<Rightarrow> landlock_heap \<Rightarrow> (rc \<times> landlock_ruleset \<times> landlock_heap) option" where
  "inherit_ruleset rebal p child h =
     (case p of
        None \<Rightarrow> Some (OK, child, h)
      | Some parent \<Rightarrow>
          do {
            (err, child, h) \<leftarrow> inherit_rules rebal child (postorder (rs_root parent)) h;
            (if err \<noteq> OK then Some (err, child, h)
             else if rs_num_layers child \<le> rs_num_layers parent then Some (Err EINVAL, child, h)
             else
               (let n = unat (rs_num_layers parent);
                    child = child\<lparr>fs_access_masks := take n (fs_access_masks parent) @ drop n (fs_access_masks child)\<rparr>
                in case rs_hierarchy parent of
                     None \<Rightarrow> Some (Err EINVAL, child, h)
                   | Some ph \<Rightarrow>
                       do {
                         h \<leftarrow> get_hierarchy (Some ph) h;
                         ch \<leftarrow> rs_hierarchy child;
                         node \<leftarrow> lh_hierarchies h ch;
                         Some (OK, child, set_hierarchy ch (Some (node\<lparr>h_parent := Some ph\<rparr>)) h)
                       }))
          })"

section \<open>Release and creation of domains\<close>

fun free_rules :: "landlock_rule list \<Rightarrow> landlock_heap \<Rightarrow> landlock_heap option" where
  "free_rules [] h = Some h"
| "free_rules (freeme # rules) h = do { h \<leftarrow> free_rule freeme h; free_rules rules h }"

definition free_ruleset :: "landlock_ruleset \<Rightarrow> landlock_heap \<Rightarrow> landlock_heap option" where
  "free_ruleset rs h = do { h \<leftarrow> free_rules (postorder (rs_root rs)) h; put_hierarchy (rs_hierarchy rs) h }"

definition landlock_get_ruleset :: "landlock_ruleset option \<Rightarrow> landlock_ruleset option" where
  "landlock_get_ruleset p = map_option (\<lambda>rs. rs\<lparr>rs_usage := rs_usage rs + 1\<rparr>) p"

text \<open>
  The ruleset that remains, or none when the last reference was dropped. The deferred variant frees the
  ruleset from a work queue.
\<close>

definition landlock_put_ruleset :: "landlock_ruleset option \<Rightarrow> landlock_heap \<Rightarrow> (landlock_ruleset option \<times> landlock_heap) option" where
  "landlock_put_ruleset p h =
     (case p of
        None \<Rightarrow> Some (None, h)
      | Some rs \<Rightarrow>
          if rs_usage rs = 0 then None
          else if rs_usage rs = 1 then do { h \<leftarrow> free_ruleset rs h; Some (None, h) }
          else Some (Some (rs\<lparr>rs_usage := rs_usage rs - 1\<rparr>), h))"

definition landlock_put_ruleset_deferred :: "landlock_ruleset option \<Rightarrow> landlock_heap \<Rightarrow> (landlock_ruleset option \<times> landlock_heap) option" where
  "landlock_put_ruleset_deferred p h = landlock_put_ruleset p h"

definition landlock_merge_ruleset ::
  "rebalance \<Rightarrow> landlock_ruleset option \<Rightarrow> landlock_ruleset option \<Rightarrow> landlock_heap \<Rightarrow> ((errno + landlock_ruleset) \<times> landlock_heap) option" where
  "landlock_merge_ruleset rebal parent ruleset h =
     (case ruleset of
        None \<Rightarrow> Some (Inl EINVAL, h)
      | Some src \<Rightarrow>
          if (case parent of None \<Rightarrow> False | Some p \<Rightarrow> rs_addr p = rs_addr src) then Some (Inl EINVAL, h)
          else if (case parent of None \<Rightarrow> False | Some p \<Rightarrow> rs_num_layers p \<ge> of_nat LANDLOCK_MAX_NUM_LAYERS) then Some (Inl E2BIG, h)
          else
            (let num_layers = (case parent of None \<Rightarrow> 1 | Some p \<Rightarrow> rs_num_layers p + 1)
             in case create_ruleset num_layers h of
                  (Inl e, h) \<Rightarrow> Some (Inl e, h)
                | (Inr new_dom, h) \<Rightarrow>
                    (case kzalloc h of
                       (None, h) \<Rightarrow> do { (_, h) \<leftarrow> landlock_put_ruleset (Some new_dom) h; Some (Inl ENOMEM, h) }
                     | (Some a, h) \<Rightarrow>
                         do {
                           (err, new_dom, h) \<leftarrow> inherit_ruleset rebal parent (new_dom\<lparr>rs_hierarchy := Some a\<rparr>)
                                                  (set_hierarchy a (Some \<lparr>h_parent = None, h_usage = 1\<rparr>) h);
                           (case err of
                              Err e \<Rightarrow> do { (_, h) \<leftarrow> landlock_put_ruleset (Some new_dom) h; Some (Inl e, h) }
                            | OK \<Rightarrow>
                                do {
                                  (err, new_dom, h) \<leftarrow> merge_ruleset rebal new_dom src h;
                                  (case err of
                                     Err e \<Rightarrow> do { (_, h) \<leftarrow> landlock_put_ruleset (Some new_dom) h; Some (Inl e, h) }
                                   | OK \<Rightarrow> Some (Inr new_dom, h))
                                })
                         })))"

definition landlock_find_rule :: "landlock_ruleset \<Rightarrow> u64 option \<Rightarrow> landlock_rule option" where
  "landlock_find_rule rs p = (case p of None \<Rightarrow> None | Some ob \<Rightarrow> walk_rule ob (rs_root rs))"

interpretation ruleset_count: refcount rs_usage "\<lambda>n rs. rs\<lparr>rs_usage := n\<rparr>"
  by unfold_locales simp

interpretation node_count: refcount h_usage "\<lambda>n x. x\<lparr>h_usage := n\<rparr>"
  by unfold_locales simp

section \<open>Ordered trees\<close>

definition tree_ok :: "landlock_rule tree \<Rightarrow> bool" where
  "tree_ok t \<longleftrightarrow> sorted_wrt (<) (map lr_object (inorder t))"

text \<open>What the rebalancing keeps.\<close>

definition rebal_ok :: "rebalance \<Rightarrow> bool" where
  "rebal_ok rebal \<longleftrightarrow> (\<forall>t. inorder (rebal t) = inorder t)"

lemma tree_ok_Leaf [simp]: "tree_ok Leaf"
  by (simp add: tree_ok_def)

lemma tree_ok_Node:
  "tree_ok (Node l x r) \<longleftrightarrow> tree_ok l \<and> tree_ok r \<and> (\<forall>y \<in> set_tree l. lr_object y < lr_object x) \<and>
     (\<forall>y \<in> set_tree r. lr_object x < lr_object y) \<and> (\<forall>y \<in> set_tree l. \<forall>z \<in> set_tree r. lr_object y < lr_object z)"
  by (auto simp: tree_ok_def sorted_wrt_append)

lemma walk_rule_iff: "tree_ok t \<Longrightarrow> walk_rule ob t = Some r \<longleftrightarrow> r \<in> set_tree t \<and> lr_object r = ob"
proof (induction t)
  case (Node l x r')
  have no: "r \<in> set_tree l \<Longrightarrow> lr_object r < lr_object x" "r \<in> set_tree r' \<Longrightarrow> lr_object x < lr_object r"
    using Node.prems by (simp_all add: tree_ok_Node)
  have l: "walk_rule ob l = Some r \<longleftrightarrow> r \<in> set_tree l \<and> lr_object r = ob" and r: "walk_rule ob r' = Some r \<longleftrightarrow> r \<in> set_tree r' \<and> lr_object r = ob"
    using Node by (simp_all add: tree_ok_Node)
  consider "lr_object x = ob" | "lr_object x < ob" | "ob < lr_object x" by fastforce
  then show ?case using no by cases (auto simp: l r)
qed simp

lemma walk_rule_None: "tree_ok t \<Longrightarrow> walk_rule ob t = None \<longleftrightarrow> (\<forall>r \<in> set_tree t. lr_object r \<noteq> ob)"
  using walk_rule_iff by (metis not_None_eq)

text \<open>The walk depends only on the rules in the tree.\<close>

lemma walk_rule_eqI:
  assumes "tree_ok t" "tree_ok t'" "\<And>r. lr_object r = ob \<Longrightarrow> r \<in> set_tree t' \<longleftrightarrow> r \<in> set_tree t"
  shows "walk_rule ob t' = walk_rule ob t"
proof (cases "walk_rule ob t")
  case None
  then have "\<forall>r \<in> set_tree t. lr_object r \<noteq> ob" using walk_rule_None [OF assms(1)] by blast
  then have "walk_rule ob t' = None" using walk_rule_None [OF assms(2)] assms(3) by blast
  then show ?thesis using None by simp
next
  case (Some r)
  then have "r \<in> set_tree t" "lr_object r = ob" using walk_rule_iff [OF assms(1)] by blast+
  then have "walk_rule ob t' = Some r" using walk_rule_iff [OF assms(2)] assms(3) by blast
  then show ?thesis using Some by simp
qed

lemma mset_link: "mset (inorder (rb_link_node new t)) = add_mset new (mset (inorder t))"
  by (induction t) auto

lemma set_link [simp]: "set_tree (rb_link_node new t) = insert new (set_tree t)"
  by (induction t) auto

lemma tree_ok_link: "tree_ok t \<Longrightarrow> walk_rule (lr_object new) t = None \<Longrightarrow> tree_ok (rb_link_node new t)"
proof (induction t)
  case (Node l x r)
  have "lr_object x \<noteq> lr_object new" using Node.prems by (auto split: if_splits)
  then show ?case using Node by (auto simp: tree_ok_Node dest: order.strict_trans split: if_splits)
qed (simp add: tree_ok_def)

lemma inorder_replace:
  "tree_ok t \<Longrightarrow> inorder (rb_replace_node ob new t) = map (\<lambda>r. if lr_object r = ob then new else r) (inorder t)"
proof (induction t)
  case (Node l x r)
  have l: "map (\<lambda>r. if lr_object r = ob then new else r) (inorder l) = inorder l" if "\<not> ob < lr_object x"
    using Node.prems that by (intro map_idI) (auto simp: tree_ok_Node)
  have r: "map (\<lambda>r. if lr_object r = ob then new else r) (inorder r) = inorder r" if "\<not> lr_object x < ob"
    using Node.prems that by (intro map_idI) (auto simp: tree_ok_Node)
  consider "lr_object x = ob" | "lr_object x < ob" | "ob < lr_object x" by fastforce
  then show ?case using Node l r by cases (auto simp: tree_ok_Node)
qed simp

lemma tree_ok_replace:
  assumes "tree_ok t" "lr_object new = ob"
  shows "tree_ok (rb_replace_node ob new t)"
proof -
  have "map lr_object (inorder (rb_replace_node ob new t)) = map lr_object (inorder t)"
    using assms by (simp add: inorder_replace)
  then show ?thesis using assms(1) by (simp add: tree_ok_def)
qed

lemma walk_replace:
  assumes "tree_ok t" "lr_object new = ob" "walk_rule ob t = Some old"
  shows "walk_rule ob' (rb_replace_node ob new t) = (if ob' = ob then Some new else walk_rule ob' t)"
proof -
  have set: "set_tree (rb_replace_node ob new t) = (\<lambda>r. if lr_object r = ob then new else r) ` set_tree t"
    using arg_cong [OF inorder_replace [OF assms(1)], of set] by simp
  show ?thesis
  proof (cases "ob' = ob")
    case True
    then show ?thesis
      using assms set by (auto simp: walk_rule_iff tree_ok_replace)
  next
    case False
    then show ?thesis
      using assms set by (auto intro!: walk_rule_eqI simp: tree_ok_replace split: if_splits)
  qed
qed

lemma walk_link:
  assumes "tree_ok t" "walk_rule (lr_object new) t = None" "rebal_ok rebal"
  shows "tree_ok (rebal (rb_link_node new t)) \<and>
    walk_rule ob (rebal (rb_link_node new t)) = (if ob = lr_object new then Some new else walk_rule ob t)"
proof -
  have in_eq: "inorder (rebal (rb_link_node new t)) = inorder (rb_link_node new t)" using assms(3) by (simp add: rebal_ok_def)
  have ok: "tree_ok (rebal (rb_link_node new t))" using tree_ok_link [OF assms(1,2)] by (simp add: tree_ok_def in_eq)
  have set: "set_tree (rebal (rb_link_node new t)) = insert new (set_tree t)"
    using arg_cong [OF in_eq, of set] by simp
  then show ?thesis
    using ok assms(1,2) by (auto simp: walk_rule_iff intro!: walk_rule_eqI)
qed

section \<open>References and insertions\<close>

definition rule_refs :: "landlock_ruleset \<Rightarrow> u64 multiset" where
  "rule_refs rs = image_mset lr_object (mset (inorder (rs_root rs)))"

text \<open>The layers of an object: none without a rule.\<close>

definition layers_of :: "landlock_ruleset \<Rightarrow> u64 \<Rightarrow> landlock_layer list" where
  "layers_of rs ob = (case walk_rule ob (rs_root rs) of None \<Rightarrow> [] | Some r \<Rightarrow> lr_layers r)"

definition rules_ok :: "landlock_ruleset \<Rightarrow> bool" where
  "rules_ok rs \<longleftrightarrow> tree_ok (rs_root rs) \<and> (\<forall>r \<in> set_tree (rs_root rs). lr_layers r \<noteq> []) \<and>
     size (rs_root rs) = unat (rs_num_rules rs)"

lemma layers_of_rule: "rules_ok rs \<Longrightarrow> r \<in> set_tree (rs_root rs) \<Longrightarrow> layers_of rs (lr_object r) = lr_layers r"
  using walk_rule_iff [of "rs_root rs" "lr_object r" r] by (simp add: layers_of_def rules_ok_def)

lemma layers_of_None: "rules_ok rs \<Longrightarrow> layers_of rs ob = [] \<longleftrightarrow> walk_rule ob (rs_root rs) = None"
  by (auto simp: layers_of_def rules_ok_def walk_rule_iff split: option.splits)

definition same_ties :: "landlock_heap \<Rightarrow> landlock_heap \<Rightarrow> bool" where
  "same_ties h h' \<longleftrightarrow> lh_hierarchies h' = lh_hierarchies h \<and> lh_inode_object h' = lh_inode_object h \<and> lh_i_count h' = lh_i_count h \<and>
     set (lh_allocs h') \<subseteq> set (lh_allocs h)"

lemma same_ties_refl [simp]: "same_ties h h"
  by (simp add: same_ties_def)

lemma create_rule_ok:
  assumes "heap_ok h M" "allocs_ok h" "ob \<in># M"
  obtains (fail) e h' where "create_rule ob layers nl h = Some (Inl e, h')" "allocs_ok h'" "same_ties h h'" "heap_ok h' M"
      "e = ENOMEM \<or> e = E2BIG \<and> nl \<noteq> None \<and> length layers \<ge> LANDLOCK_MAX_NUM_LAYERS"
    | (ok) h' where "create_rule ob layers nl h =
        Some (Inr \<lparr>lr_object = ob, lr_layers = layers @ (case nl of None \<Rightarrow> [] | Some l \<Rightarrow> [l])\<rparr>, h')"
      "allocs_ok h'" "same_ties h h'" "heap_ok h' (add_mset ob M)"
proof (cases "nl \<noteq> None \<and> length layers \<ge> LANDLOCK_MAX_NUM_LAYERS")
  case True
  then show thesis using assms by (intro fail [of E2BIG h]) (auto simp: create_rule_def)
next
  case False
  obtain p h1 where k: "kzalloc h = (p, h1)" by fastforce
  then have h1: "allocs_ok h1" "h1 = h\<lparr>lh_allocs := lh_allocs h1\<rparr>" "heap_ok h1 M"
    using kzalloc_ok [OF k assms(2)] kzalloc_heap_ok [OF k] assms(1) by auto
  have f: "lh_hierarchies h1 = lh_hierarchies h" "lh_inode_object h1 = lh_inode_object h" "lh_i_count h1 = lh_i_count h"
      "set (lh_allocs h1) \<subseteq> set (lh_allocs h)"
    using k by (auto simp: kzalloc_def split: list.splits)
  obtain h2 where h2: "landlock_get_object (Some ob) h1 = Some h2" "heap_ok h2 (add_mset ob M)" "lh_allocs h2 = lh_allocs h1"
      "lh_hierarchies h2 = lh_hierarchies h1" "lh_inode_object h2 = lh_inode_object h1" "dom (lh_objects h2) = dom (lh_objects h1)"
    by (rule landlock_get_object_ok [OF h1(3) assms(3)])
  have "lh_i_count h2 = lh_i_count h1" using h2(1) by (auto simp: landlock_get_object_def heap_simps split: Option.bind_splits)
  then have h2': "allocs_ok h2" "same_ties h h2"
    using allocs_ok_mono [OF h1(1)] h2(3-6) f by (simp_all add: same_ties_def)
  show thesis
  proof (cases p)
    case None
    then show thesis using k False h1 f by (intro fail [of ENOMEM h1]) (simp_all add: create_rule_def same_ties_def)
  next
    case (Some a)
    then show thesis using k False h2(1,2) h2' by (intro ok [of h2]) (simp_all add: create_rule_def)
  qed
qed

text \<open>What an insertion makes of the layers of its object.\<close>

definition combine_layers :: "landlock_layer list \<Rightarrow> landlock_layer list \<Rightarrow> landlock_layer list" where
  "combine_layers old new =
     (if old = [] then new
      else if ll_level (hd new) = 0 then [hd old\<lparr>ll_access := ll_access (hd old) OR ll_access (hd new)\<rparr>]
      else old @ new)"

definition layers_fit :: "landlock_layer list \<Rightarrow> landlock_layer list \<Rightarrow> bool" where
  "layers_fit old new \<longleftrightarrow> new \<noteq> [] \<and>
     (old = [] \<or> length new = 1 \<and>
        (if ll_level (hd new) = 0 then length old = 1 \<and> ll_level (hd old) = 0 else ll_level (hd old) \<noteq> 0))"

definition same_header :: "landlock_ruleset \<Rightarrow> landlock_ruleset \<Rightarrow> bool" where
  "same_header rs rs' \<longleftrightarrow> rs' = rs\<lparr>rs_root := rs_root rs', rs_num_rules := rs_num_rules rs'\<rparr>"

definition inserted ::
  "landlock_ruleset \<Rightarrow> u64 \<Rightarrow> landlock_layer list \<Rightarrow> landlock_heap \<Rightarrow> u64 multiset \<Rightarrow> rc \<Rightarrow> landlock_ruleset \<Rightarrow> landlock_heap \<Rightarrow> bool" where
  "inserted rs ob layers h M rc rs' h' \<longleftrightarrow>
     rules_ok rs' \<and> heap_ok h' (M + rule_refs rs') \<and> allocs_ok h' \<and> same_header rs rs' \<and> same_ties h h' \<and>
     (if rc = OK then layers_of rs' = (layers_of rs)(ob := combine_layers (layers_of rs ob) layers)
      else rs' = rs \<and> (rc = Err ENOMEM \<or> rc = Err E2BIG \<and>
        (rs_num_rules rs = LANDLOCK_MAX_NUM_RULES \<or> length (layers_of rs ob) \<ge> LANDLOCK_MAX_NUM_LAYERS)))"

lemma same_header_refl [simp]: "same_header rs rs"
  by (simp add: same_header_def)

lemma same_header_root [simp]: "same_header rs (rs\<lparr>rs_root := t\<rparr>)" "same_header rs (rs\<lparr>rs_root := t, rs_num_rules := n\<rparr>)"
  by (simp_all add: same_header_def)

lemma rule_refs_replace:
  assumes "tree_ok (rs_root rs)" "lr_object new = ob"
  shows "rule_refs (rs\<lparr>rs_root := rb_replace_node ob new (rs_root rs)\<rparr>) = rule_refs rs"
proof -
  have "map lr_object (inorder (rb_replace_node ob new (rs_root rs))) = map lr_object (inorder (rs_root rs))"
    using assms by (simp add: inorder_replace)
  from arg_cong [OF this, of mset] show ?thesis by (simp add: rule_refs_def)
qed

lemma rules_ok_replace:
  assumes "rules_ok rs" "walk_rule ob (rs_root rs) = Some this" "lr_object new = ob" "lr_layers new \<noteq> []"
  defines "rs' \<equiv> rs\<lparr>rs_root := rb_replace_node ob new (rs_root rs)\<rparr>"
  shows "rules_ok rs' \<and> layers_of rs' = (layers_of rs)(ob := lr_layers new) \<and> rule_refs rs' = rule_refs rs"
proof -
  have ok: "tree_ok (rs_root rs)" using assms(1) by (simp add: rules_ok_def)
  have set: "set_tree (rb_replace_node ob new (rs_root rs)) = (\<lambda>r. if lr_object r = ob then new else r) ` set_tree (rs_root rs)"
      and len: "size (rb_replace_node ob new (rs_root rs)) = size (rs_root rs)"
    using arg_cong [OF inorder_replace [OF ok], of set] arg_cong [OF inorder_replace [OF ok], of length] by simp_all
  show ?thesis
    using assms(1,4) len set tree_ok_replace [OF ok assms(3)] rule_refs_replace [OF ok assms(3)]
    by (auto simp: rules_ok_def rs'_def layers_of_def fun_eq_iff walk_replace [OF ok assms(3,2)])
qed

lemma rules_ok_link:
  assumes "rules_ok rs" "walk_rule (lr_object new) (rs_root rs) = None" "lr_layers new \<noteq> []" "rebal_ok rebal"
    "rs_num_rules rs < LANDLOCK_MAX_NUM_RULES"
  defines "rs' \<equiv> rs\<lparr>rs_root := rebal (rb_link_node new (rs_root rs)), rs_num_rules := rs_num_rules rs + 1\<rparr>"
  shows "rules_ok rs' \<and> layers_of rs' = (layers_of rs)(lr_object new := lr_layers new) \<and>
    rule_refs rs' = add_mset (lr_object new) (rule_refs rs)"
proof -
  have ok: "tree_ok (rs_root rs)" using assms(1) by (simp add: rules_ok_def)
  have in_eq: "inorder (rebal (rb_link_node new (rs_root rs))) = inorder (rb_link_node new (rs_root rs))"
    using assms(4) by (simp add: rebal_ok_def)
  have set: "set_tree (rebal (rb_link_node new (rs_root rs))) = insert new (set_tree (rs_root rs))"
    using arg_cong [OF in_eq, of set] by simp
  have m: "mset (inorder (rebal (rb_link_node new (rs_root rs)))) = add_mset new (mset (inorder (rs_root rs)))"
    by (simp only: in_eq mset_link)
  have len: "size (rebal (rb_link_node new (rs_root rs))) = Suc (size (rs_root rs))"
    using arg_cong [OF m, of size] by simp
  have "unat (rs_num_rules rs + 1) = Suc (unat (rs_num_rules rs))"
    using assms(5) unat_word_ariths(1) [of "rs_num_rules rs" 1] by (simp add: LANDLOCK_MAX_NUM_RULES_def word_less_nat_alt)
  then show ?thesis
    using assms(1,3) len set m walk_link [OF ok assms(2,4)]
    by (simp add: rules_ok_def rs'_def layers_of_def fun_eq_iff rule_refs_def)
qed

text \<open>The rule of an object, whatever was there before.\<close>

lemma update_rule_ok:
  assumes "rules_ok rs" "heap_ok h (M + rule_refs rs)" "allocs_ok h" "ob \<in># M" "walk_rule ob (rs_root rs) = Some this"
    and "layers_fit (layers_of rs ob) layers"
  shows "\<exists>rc rs' h'. update_rule rs ob this layers h = Some (rc, rs', h') \<and> inserted rs ob layers h M rc rs' h'"
proof -
  have old: "layers_of rs ob = lr_layers this" "lr_object this = ob" "lr_layers this \<noteq> []"
    using assms(1,5) walk_rule_iff [of "rs_root rs" ob this] by (auto simp: layers_of_def rules_ok_def)
  then obtain layer where l: "layers = [layer]"
    using assms(6) by (cases layers) (auto simp: layers_fit_def)
  show ?thesis
  proof (cases "ll_level layer = 0")
    case True
    then obtain l0 where l0: "lr_layers this = [l0]" "ll_level l0 = 0"
      using assms(6) old by (cases "lr_layers this") (auto simp: layers_fit_def l)
    let ?new = "this\<lparr>lr_layers := [l0\<lparr>ll_access := ll_access l0 OR ll_access layer\<rparr>]\<rparr>"
    have "update_rule rs ob this layers h = Some (OK, rs\<lparr>rs_root := rb_replace_node ob ?new (rs_root rs)\<rparr>, h)"
      using True l0 by (simp add: update_rule_def l)
    then show ?thesis
      using rules_ok_replace [OF assms(1,5), of ?new] assms(2,3) old l0 True
      by (simp add: inserted_def combine_layers_def l)
  next
    case False
    then obtain l0 ls where l0: "lr_layers this = l0 # ls" "ll_level l0 \<noteq> 0"
      using assms(6) old by (cases "lr_layers this") (auto simp: layers_fit_def l)
    have mem: "ob \<in># M + rule_refs rs" using assms(4) by simp
    show ?thesis
    proof (rule create_rule_ok [OF assms(2,3) mem, of "lr_layers this" "Some layer"])
      fix e h1
      assume "create_rule ob (lr_layers this) (Some layer) h = Some (Inl e, h1)" "allocs_ok h1" "same_ties h h1"
        "heap_ok h1 (M + rule_refs rs)" "e = ENOMEM \<or> e = E2BIG \<and> Some layer \<noteq> None \<and> LANDLOCK_MAX_NUM_LAYERS \<le> length (lr_layers this)"
      then show ?thesis using l0 False assms(1) old by (auto simp: update_rule_def l inserted_def)
    next
      fix h1
      let ?rule = "\<lparr>lr_object = ob, lr_layers = lr_layers this @ [layer]\<rparr>"
      assume c: "create_rule ob (lr_layers this) (Some layer) h =
          Some (Inr \<lparr>lr_object = ob, lr_layers = lr_layers this @ (case Some layer of None \<Rightarrow> [] | Some l \<Rightarrow> [l])\<rparr>, h1)"
        "allocs_ok h1" "same_ties h h1" and h1: "heap_ok h1 (add_mset ob (M + rule_refs rs))"
      obtain h2 where h2: "landlock_put_object (Some ob) h1 = Some h2" "heap_ok h2 (M + rule_refs rs)" "lh_allocs h2 = lh_allocs h1"
          "lh_hierarchies h2 = lh_hierarchies h1" "lh_inode_object h2 = lh_inode_object h1 \<and> lh_i_count h2 = lh_i_count h1"
          "dom (lh_objects h2) \<subseteq> dom (lh_objects h1)"
        using landlock_put_object_ok [OF h1] mem by metis
      have "update_rule rs ob this layers h = Some (OK, rs\<lparr>rs_root := rb_replace_node ob ?rule (rs_root rs)\<rparr>, h2)"
        using c(1) l0 False h2(1) old(2) by (simp add: update_rule_def l free_rule_def)
      moreover have "allocs_ok h2" using allocs_ok_mono [OF c(2)] h2(3,4,6) by simp
      moreover have "same_ties h h2" using c(3) h2(3-5) by (simp add: same_ties_def)
      ultimately show ?thesis
        using rules_ok_replace [OF assms(1,5), of ?rule] h2(2) old False
        by (simp add: inserted_def combine_layers_def l)
    qed
  qed
qed

lemma insert_rule_ok:
  assumes "rebal_ok rebal" "rules_ok rs" "heap_ok h (M + rule_refs rs)" "allocs_ok h" "ob \<in># M"
    and "layers_fit (layers_of rs ob) layers"
  shows "\<exists>rc rs' h'. insert_rule rebal rs (Some ob) layers h = Some (rc, rs', h') \<and> inserted rs ob layers h M rc rs' h'"
proof (cases "walk_rule ob (rs_root rs)")
  case (Some this)
  then show ?thesis
    using update_rule_ok [OF assms(2-5) Some assms(6)] by (simp add: insert_rule_def)
next
  case None
  then have none: "layers_of rs ob = []" by (simp add: layers_of_def)
  have mem: "ob \<in># M + rule_refs rs" using assms(5) by simp
  show ?thesis
  proof (cases "rs_num_rules rs \<ge> LANDLOCK_MAX_NUM_RULES")
    case True
    moreover have "rs_num_rules rs \<le> LANDLOCK_MAX_NUM_RULES"
      using unat_u32_bound [of "rs_num_rules rs"] by (simp add: LANDLOCK_MAX_NUM_RULES_def word_le_nat_alt del: unat_u32_bound)
    ultimately have "rs_num_rules rs = LANDLOCK_MAX_NUM_RULES" by simp
    then show ?thesis using None True assms(2-4) by (simp add: insert_rule_def inserted_def)
  next
    case False
    have ne: "layers \<noteq> []" using assms(6) by (simp add: layers_fit_def)
    show ?thesis
    proof (rule create_rule_ok [OF assms(3,4) mem, of layers None])
      fix e h1
      assume "create_rule ob layers None h = Some (Inl e, h1)" "allocs_ok h1" "same_ties h h1" "heap_ok h1 (M + rule_refs rs)"
        "e = ENOMEM \<or> e = E2BIG \<and> None \<noteq> None \<and> LANDLOCK_MAX_NUM_LAYERS \<le> length layers"
      then show ?thesis using None False assms(2) by (simp add: insert_rule_def inserted_def)
    next
      fix h1
      assume "create_rule ob layers None h =
          Some (Inr \<lparr>lr_object = ob, lr_layers = layers @ (case None of None \<Rightarrow> [] | Some l \<Rightarrow> [l])\<rparr>, h1)"
        "allocs_ok h1" "same_ties h h1" "heap_ok h1 (add_mset ob (M + rule_refs rs))"
      then show ?thesis
        using rules_ok_link [OF assms(2) _ _ assms(1), of "\<lparr>lr_object = ob, lr_layers = layers\<rparr>"] None False ne
        by (simp add: insert_rule_def inserted_def combine_layers_def none)
    qed
  qed
qed

section \<open>Well-formed rulesets and domains\<close>

definition ruleset_ok :: "landlock_ruleset \<Rightarrow> bool" where
  "ruleset_ok rs \<longleftrightarrow> rules_ok rs \<and> rs_num_layers rs = 1 \<and> length (fs_access_masks rs) = 1 \<and>
     (\<forall>r \<in> set_tree (rs_root rs). \<exists>l. lr_layers r = [l] \<and> ll_level l = 0)"

text \<open>The layers of a rule of a domain: increasing levels, between 1 and the number of layers of the domain.\<close>

definition layers_ok :: "nat \<Rightarrow> landlock_layer list \<Rightarrow> bool" where
  "layers_ok n ls \<longleftrightarrow> sorted_wrt (<) (map (\<lambda>l. unat (ll_level l)) ls) \<and> (\<forall>l \<in> set ls. 1 \<le> unat (ll_level l) \<and> unat (ll_level l) \<le> n)"

definition domain_ok :: "landlock_ruleset \<Rightarrow> bool" where
  "domain_ok d \<longleftrightarrow> rules_ok d \<and> 1 \<le> unat (rs_num_layers d) \<and> unat (rs_num_layers d) \<le> LANDLOCK_MAX_NUM_LAYERS \<and>
     length (fs_access_masks d) = unat (rs_num_layers d) \<and> rs_hierarchy d \<noteq> None \<and>
     (\<forall>ob. layers_ok (unat (rs_num_layers d)) (layers_of d ob))"

text \<open>Both loops over the rules of another ruleset insert a list of layers for each of a list of objects.\<close>

fun insert_all ::
  "rebalance \<Rightarrow> landlock_ruleset \<Rightarrow> (u64 \<times> landlock_layer list) list \<Rightarrow> landlock_heap \<Rightarrow> (rc \<times> landlock_ruleset \<times> landlock_heap) option" where
  "insert_all rebal rs [] h = Some (OK, rs, h)"
| "insert_all rebal rs ((ob, layers) # xs) h =
     do {
       (err, rs, h) \<leftarrow> insert_rule rebal rs (Some ob) layers h;
       (if err \<noteq> OK then Some (err, rs, h) else insert_all rebal rs xs h)
     }"

lemma inherit_rules_all: "inherit_rules rebal rs rules h = insert_all rebal rs (map (\<lambda>r. (lr_object r, lr_layers r)) rules) h"
proof (induction rules arbitrary: rs h)
  case (Cons r rules)
  then show ?case by (cases "insert_rule rebal rs (Some (lr_object r)) (lr_layers r) h") auto
qed simp

lemma insert_rule_header: "insert_rule rebal rs p ls h = Some (rc, rs', h') \<Longrightarrow> rs_num_layers rs' = rs_num_layers rs"
  by (auto simp: insert_rule_def update_rule_def split: option.splits if_splits list.splits Option.bind_splits sum.splits)

lemma merge_rules_all:
  assumes "\<forall>r \<in> set rules. \<exists>l. lr_layers r = [l] \<and> ll_level l = 0"
  shows "merge_rules rebal rs rules h =
    insert_all rebal rs (map (\<lambda>r. (lr_object r, [\<lparr>ll_level = ucast (rs_num_layers rs), ll_access = ll_access (hd (lr_layers r))\<rparr>])) rules) h"
  using assms
proof (induction rules arbitrary: rs h)
  case (Cons r rules)
  then obtain l where l: "lr_layers r = [l]" "ll_level l = 0" by auto
  show ?case
    using Cons.IH Cons.prems l by (auto simp: insert_rule_header split: Option.bind_splits)
qed simp

lemma same_headerD:
  "same_header rs rs' \<Longrightarrow> rs_hierarchy rs' = rs_hierarchy rs \<and> rs_num_layers rs' = rs_num_layers rs \<and> rs_usage rs' = rs_usage rs \<and>
     fs_access_masks rs' = fs_access_masks rs \<and> rs_addr rs' = rs_addr rs"
  by (cases rs; cases rs') (simp add: same_header_def)

lemma same_header_trans: "same_header a b \<Longrightarrow> same_header b c \<Longrightarrow> same_header a c"
  by (cases a; cases b; cases c) (simp add: same_header_def)

lemma same_ties_trans: "same_ties a b \<Longrightarrow> same_ties b c \<Longrightarrow> same_ties a c"
  by (auto simp: same_ties_def)

lemma insert_all_ok:
  assumes "rebal_ok rebal" "rules_ok rs" "heap_ok h (M + rule_refs rs)" "allocs_ok h" "distinct (map fst xs)"
    and "\<forall>(ob, ls) \<in> set xs. ob \<in># M \<and> layers_fit (layers_of rs ob) ls"
  shows "\<exists>rc rs' h'. insert_all rebal rs xs h = Some (rc, rs', h') \<and> rules_ok rs' \<and> heap_ok h' (M + rule_refs rs') \<and> allocs_ok h' \<and>
    same_header rs rs' \<and> same_ties h h' \<and>
    (if rc = OK then layers_of rs' = (\<lambda>ob. case map_of xs ob of None \<Rightarrow> layers_of rs ob | Some ls \<Rightarrow> combine_layers (layers_of rs ob) ls)
     else rc = Err ENOMEM \<or> rc = Err E2BIG)"
  using assms(2-)
proof (induction xs arbitrary: rs h)
  case (Cons x xs)
  obtain ob ls where x: "x = (ob, ls)" by (cases x)
  obtain rc rs1 h1 where i: "insert_rule rebal rs (Some ob) ls h = Some (rc, rs1, h1)" "inserted rs ob ls h M rc rs1 h1"
    using insert_rule_ok [OF assms(1) Cons.prems(1-3), of ob ls] Cons.prems(5) by (auto simp: x)
  then have ok1: "rules_ok rs1" "heap_ok h1 (M + rule_refs rs1)" "allocs_ok h1" "same_header rs rs1" "same_ties h h1"
    by (simp_all add: inserted_def)
  show ?case
  proof (cases rc)
    case (Some e)
    then show ?thesis using i ok1 by (auto simp: x inserted_def)
  next
    case None
    then have l1: "layers_of rs1 = (layers_of rs)(ob := combine_layers (layers_of rs ob) ls)"
      using i(2) by (simp add: inserted_def)
    have notin: "ob \<notin> fst ` set xs" and dist: "distinct (map fst xs)" using Cons.prems(4) by (simp_all add: x)
    have "\<forall>(ob, ls) \<in> set xs. ob \<in># M \<and> layers_fit (layers_of rs1 ob) ls"
      using Cons.prems(5) notin by (force simp: l1)
    from Cons.IH [OF ok1(1-3) dist this] obtain rc' rs' h' where
      "insert_all rebal rs1 xs h1 = Some (rc', rs', h')" "rules_ok rs'" "heap_ok h' (M + rule_refs rs')" "allocs_ok h'"
      "same_header rs1 rs'" "same_ties h1 h'"
      "if rc' = OK then layers_of rs' = (\<lambda>ob. case map_of xs ob of None \<Rightarrow> layers_of rs1 ob | Some ls \<Rightarrow> combine_layers (layers_of rs1 ob) ls)
       else rc' = Err ENOMEM \<or> rc' = Err E2BIG"
      by blast
    moreover have "map_of xs ob = None" using notin by (simp add: map_of_eq_None_iff)
    ultimately show ?thesis
      using i(1) None same_header_trans [OF ok1(4)] same_ties_trans [OF ok1(5)]
      by (auto simp: x l1 fun_eq_iff split: if_splits option.splits)
  qed
qed simp

section \<open>Merged domains\<close>

lemma postorder_mset: "mset (postorder t) = mset (inorder t)"
  by (induction t) auto

lemma postorder_facts:
  assumes "tree_ok t"
  shows "set (postorder t) = set_tree t" "distinct (map lr_object (postorder t))"
proof -
  show "set (postorder t) = set_tree t"
    using mset_eq_setD [OF postorder_mset [of t]] by simp
  have "distinct (map lr_object (inorder t))" using assms strict_sorted_iff by (auto simp: tree_ok_def)
  then show "distinct (map lr_object (postorder t))"
    using mset_eq_imp_distinct_iff [of "map lr_object (postorder t)" "map lr_object (inorder t)"] by (simp add: postorder_mset)
qed

lemma map_of_rules:
  assumes "tree_ok t"
  shows "map_of (map (\<lambda>r. (lr_object r, f r)) (postorder t)) ob = map_option f (walk_rule ob t)"
proof (cases "walk_rule ob t")
  case None
  then have "\<forall>r \<in> set_tree t. lr_object r \<noteq> ob" using walk_rule_None [OF assms] by blast
  then show ?thesis using None postorder_facts(1) [OF assms] by (auto simp: map_of_eq_None_iff)
next
  case (Some r)
  then have "r \<in> set (postorder t)" "lr_object r = ob" using walk_rule_iff [OF assms] postorder_facts(1) [OF assms] by auto
  then show ?thesis
    using Some postorder_facts(2) [OF assms] map_of_eq_Some_iff [of "map (\<lambda>r. (lr_object r, f r)) (postorder t)" ob "f r"]
    by (auto simp: comp_def image_iff)
qed

lemma rule_refs_mem: "tree_ok (rs_root rs) \<Longrightarrow> r \<in> set_tree (rs_root rs) \<Longrightarrow> lr_object r \<in># rule_refs rs"
  by (auto simp: rule_refs_def)

text \<open>The layers of the parent of a new domain, and the layer that a ruleset adds.\<close>

definition parent_layers :: "landlock_ruleset option \<Rightarrow> u64 \<Rightarrow> landlock_layer list" where
  "parent_layers p ob = (case p of None \<Rightarrow> [] | Some d \<Rightarrow> layers_of d ob)"

definition parent_masks :: "landlock_ruleset option \<Rightarrow> u16 list" where
  "parent_masks p = (case p of None \<Rightarrow> [] | Some d \<Rightarrow> fs_access_masks d)"

definition new_layer :: "landlock_ruleset \<Rightarrow> nat \<Rightarrow> u64 \<Rightarrow> landlock_layer list" where
  "new_layer rs n ob = map (\<lambda>l. \<lparr>ll_level = of_nat n, ll_access = ll_access l\<rparr>) (layers_of rs ob)"

lemma merge_ruleset_ok:
  assumes "rebal_ok rebal" "ruleset_ok src" "rules_ok dst" "heap_ok h (M + rule_refs dst)" "allocs_ok h"
    and "set_mset (rule_refs src) \<subseteq> set_mset M" "rs_hierarchy dst \<noteq> None"
    and n: "unat (rs_num_layers dst) = Suc n" "n < LANDLOCK_MAX_NUM_LAYERS" "length (fs_access_masks dst) = Suc n"
    and "\<forall>ob. layers_ok n (layers_of dst ob)"
  shows "\<exists>rc dst' h'. merge_ruleset rebal dst src h = Some (rc, dst', h') \<and> rules_ok dst' \<and> heap_ok h' (M + rule_refs dst') \<and>
    allocs_ok h' \<and> same_ties h h' \<and> rs_hierarchy dst' = rs_hierarchy dst \<and> rs_num_layers dst' = rs_num_layers dst \<and> rs_usage dst' = rs_usage dst \<and>
    rs_addr dst' = rs_addr dst \<and> fs_access_masks dst' = take n (fs_access_masks dst) @ fs_access_masks src \<and>
    (if rc = OK then \<forall>ob. layers_of dst' ob = layers_of dst ob @ new_layer src (Suc n) ob else rc = Err ENOMEM \<or> rc = Err E2BIG)"
proof -
  obtain m where m: "fs_access_masks src = [m]" using assms(2) by (cases "fs_access_masks src") (auto simp: ruleset_ok_def)
  define d where "d = dst\<lparr>fs_access_masks := (fs_access_masks dst)[n := m]\<rparr>"
  let ?f = "\<lambda>r. [\<lparr>ll_level = ucast (rs_num_layers d), ll_access = ll_access (hd (lr_layers r))\<rparr>]"
  let ?xs = "map (\<lambda>r. (lr_object r, ?f r)) (postorder (rs_root src))"
  have same: "layers_of d = layers_of dst" "rule_refs d = rule_refs dst" "rules_ok d" "rs_num_layers d = rs_num_layers dst"
    using assms(3) by (simp_all add: d_def layers_of_def rule_refs_def rules_ok_def fun_eq_iff)
  have level: "ucast (rs_num_layers d) = (of_nat (Suc n) :: u16)"
    using n(1) by (metis of_nat_unat same(4))
  have pos: "unat (of_nat (Suc n) :: u16) = Suc n" using n(2) by (simp add: LANDLOCK_MAX_NUM_LAYERS_def take_bit_nat_eq_self unat_of_nat del: of_nat_Suc)
  have nz: "ucast (rs_num_layers dst) \<noteq> (0 :: u16)" using level pos unfolding same(4) by (metis nat.distinct(1) unat_0)
  have tree: "tree_ok (rs_root src)" and single: "\<forall>r \<in> set_tree (rs_root src). \<exists>l. lr_layers r = [l] \<and> ll_level l = 0"
    using assms(2) by (simp_all add: ruleset_ok_def rules_ok_def)
  have "layers_fit (layers_of d ob) (?f r)" for ob r
  proof -
    have "ll_level (hd (layers_of dst ob)) \<noteq> 0" if "layers_of dst ob \<noteq> []"
      using assms(11) that hd_in_set by (fastforce simp: layers_ok_def)
    then show ?thesis using nz by (auto simp: layers_fit_def same)
  qed
  then have fit: "\<forall>(ob, ls) \<in> set ?xs. ob \<in># M \<and> layers_fit (layers_of d ob) ls"
    using assms(6) rule_refs_mem [OF tree] postorder_facts(1) [OF tree] by auto
  obtain rc d' h' where i: "insert_all rebal d ?xs h = Some (rc, d', h')" "rules_ok d'" "heap_ok h' (M + rule_refs d')" "allocs_ok h'"
      "same_header d d'" "same_ties h h'"
      "if rc = OK then layers_of d' = (\<lambda>ob. case map_of ?xs ob of None \<Rightarrow> layers_of d ob | Some ls \<Rightarrow> combine_layers (layers_of d ob) ls)
       else rc = Err ENOMEM \<or> rc = Err E2BIG"
    using insert_all_ok [OF assms(1) same(3), of h M ?xs] assms(4,5) postorder_facts(2) [OF tree] fit same by (auto simp: comp_def)
  have idx: "unat (rs_num_layers dst - 1) = n" "rs_num_layers dst \<noteq> 0" "\<not> rs_num_layers dst < 1"
    using n(1) by (auto simp: unat_sub_if_size word_less_nat_alt)
  have run: "merge_ruleset rebal dst src h = Some (rc, d', h')"
    using assms(2,7) merge_rules_all [of "postorder (rs_root src)" rebal d h] i(1) single postorder_facts(1) [OF tree]
    by (auto simp: merge_ruleset_def m idx ruleset_ok_def d_def [symmetric])
  have "layers_of d' ob = layers_of dst ob @ new_layer src (Suc n) ob" if "rc = OK" for ob
  proof (cases "walk_rule ob (rs_root src)")
    case None
    then show ?thesis using i(7) that by (simp add: map_of_rules [OF tree] same new_layer_def layers_of_def)
  next
    case (Some r)
    then obtain l where "lr_layers r = [l]" using single walk_rule_iff [OF tree] by auto
    then show ?thesis
      using i(7) that Some pos unfolding level by (auto simp: map_of_rules [OF tree] same new_layer_def layers_of_def [of src] combine_layers_def)
  qed
  moreover have "(fs_access_masks dst)[n := m] = take n (fs_access_masks dst) @ [m]"
    using n(3) by (simp add: upd_conv_take_nth_drop)
  moreover have "rs_hierarchy d' = rs_hierarchy dst" "rs_num_layers d' = rs_num_layers dst" "rs_usage d' = rs_usage dst" "rs_addr d' = rs_addr dst"
      "fs_access_masks d' = (fs_access_masks dst)[n := m]"
    using same_headerD [OF i(5)] by (simp_all add: d_def)
  ultimately show ?thesis using run i(2-4,6,7) by (auto simp: m)
qed

lemma free_rules_ok:
  assumes "heap_ok h (M + image_mset lr_object (mset rules))"
  shows "\<exists>h'. free_rules rules h = Some h' \<and> heap_ok h' M \<and> lh_allocs h' = lh_allocs h \<and> lh_hierarchies h' = lh_hierarchies h \<and>
    (allocs_ok h \<longrightarrow> allocs_ok h')"
  using assms
proof (induction rules arbitrary: h)
  case (Cons r rules)
  have "heap_ok h (add_mset (lr_object r) (M + image_mset lr_object (mset rules)))" using Cons.prems by simp
  then obtain h1 where h1: "landlock_put_object (Some (lr_object r)) h = Some h1" "heap_ok h1 (M + image_mset lr_object (mset rules))"
      "lh_allocs h1 = lh_allocs h" "lh_hierarchies h1 = lh_hierarchies h" "dom (lh_objects h1) \<subseteq> dom (lh_objects h)"
    using landlock_put_object_ok by metis
  then have "allocs_ok h \<longrightarrow> allocs_ok h1" using allocs_ok_mono [of h h1] by simp
  then show ?case using Cons.IH [of h1] h1 by (auto simp: free_rule_def)
qed simp

lemma free_ruleset_ok:
  assumes "heap_ok h (M + rule_refs rs)"
  shows "\<exists>h1. free_ruleset rs h = put_hierarchy (rs_hierarchy rs) h1 \<and> heap_ok h1 M \<and> lh_hierarchies h1 = lh_hierarchies h \<and>
    lh_allocs h1 = lh_allocs h \<and> (allocs_ok h \<longrightarrow> allocs_ok h1)"
  using free_rules_ok [of h M "postorder (rs_root rs)"] assms by (auto simp: free_ruleset_def rule_refs_def postorder_mset)

lemma heap_ok_hierarchy [simp]: "heap_ok (set_hierarchy a n h) M = heap_ok h M"
  by (simp add: heap_ok_def refs_ok_def ties_ok_def set_hierarchy_def)

lemma lh_set_hierarchy: "lh_allocs (set_hierarchy a n h) = lh_allocs h" "lh_objects (set_hierarchy a n h) = lh_objects h"
  by (simp_all add: set_hierarchy_def)

lemma lh_hierarchies_set [simp]: "lh_hierarchies (set_hierarchy a n h) = (lh_hierarchies h)(a := n)"
  by (simp add: set_hierarchy_def)

section \<open>Inheritance\<close>

text \<open>The hierarchy after a domain with node \<open>a\<close> became a child of \<open>p\<close>.\<close>

definition link_hierarchy :: "landlock_ruleset option \<Rightarrow> u64 \<Rightarrow> (u64 \<Rightarrow> landlock_hierarchy option) \<Rightarrow> u64 \<Rightarrow> landlock_hierarchy option" where
  "link_hierarchy p a H =
     (case p of
        None \<Rightarrow> H
      | Some d \<Rightarrow>
          (let ph = the (rs_hierarchy d)
           in H(ph \<mapsto> (the (H ph))\<lparr>h_usage := h_usage (the (H ph)) + 1\<rparr>, a \<mapsto> (the (H a))\<lparr>h_parent := Some ph\<rparr>)))"

definition parent_ok :: "landlock_heap \<Rightarrow> u64 multiset \<Rightarrow> landlock_ruleset option \<Rightarrow> bool" where
  "parent_ok h M p \<longleftrightarrow>
     (case p of
        None \<Rightarrow> True
      | Some d \<Rightarrow> domain_ok d \<and> set_mset (rule_refs d) \<subseteq> set_mset M \<and>
          (\<exists>n. lh_hierarchies h (the (rs_hierarchy d)) = Some n \<and> h_usage n > 0))"

definition parent_num :: "landlock_ruleset option \<Rightarrow> nat" where
  "parent_num p = (case p of None \<Rightarrow> 0 | Some d \<Rightarrow> unat (rs_num_layers d))"

lemma inherit_ruleset_ok:
  assumes "rebal_ok rebal" "parent_ok h M p" "heap_ok h M" "allocs_ok h" "rs_root child = Leaf" "rs_num_rules child = 0"
    and "rs_hierarchy child = Some a" "lh_hierarchies h a = Some na" "\<And>d. p = Some d \<Longrightarrow> rs_hierarchy d \<noteq> Some a"
    and "unat (rs_num_layers child) = Suc (parent_num p)" "length (fs_access_masks child) = Suc (parent_num p)"
  shows "\<exists>rc c h'. inherit_ruleset rebal p child h = Some (rc, c, h') \<and> rules_ok c \<and> heap_ok h' (M + rule_refs c) \<and> allocs_ok h' \<and>
    rs_hierarchy c = rs_hierarchy child \<and> rs_num_layers c = rs_num_layers child \<and> rs_usage c = rs_usage child \<and>
    rs_addr c = rs_addr child \<and> set (lh_allocs h') \<subseteq> set (lh_allocs h) \<and>
    (if rc = OK
     then take (parent_num p) (fs_access_masks c) = parent_masks p \<and> length (fs_access_masks c) = Suc (parent_num p) \<and>
       layers_of c = parent_layers p \<and> lh_hierarchies h' = link_hierarchy p a (lh_hierarchies h)
     else (rc = Err ENOMEM \<or> rc = Err E2BIG) \<and> lh_hierarchies h' = lh_hierarchies h)"
proof -
  have child: "rules_ok child" "layers_of child = (\<lambda>_. [])" "rule_refs child = {#}"
    using assms(5,6) by (simp_all add: rules_ok_def layers_of_def rule_refs_def fun_eq_iff)
  show ?thesis
  proof (cases p)
    case None
    then show ?thesis
      using child assms by (simp add: inherit_ruleset_def parent_num_def parent_masks_def parent_layers_def link_hierarchy_def fun_eq_iff)
  next
    case (Some d)
    then have d: "domain_ok d" "set_mset (rule_refs d) \<subseteq> set_mset M" using assms(2) by (simp_all add: parent_ok_def)
    then obtain ph n where ph: "rs_hierarchy d = Some ph" "lh_hierarchies h ph = Some n"
      using assms(2) Some by (auto simp: parent_ok_def domain_ok_def)
    have tree: "tree_ok (rs_root d)" and ne: "\<forall>r \<in> set_tree (rs_root d). lr_layers r \<noteq> []"
      using d(1) by (simp_all add: domain_ok_def rules_ok_def)
    let ?xs = "map (\<lambda>r. (lr_object r, lr_layers r)) (postorder (rs_root d))"
    have fit: "\<forall>(ob, ls) \<in> set ?xs. ob \<in># M \<and> layers_fit (layers_of child ob) ls"
      using d(2) rule_refs_mem [OF tree] postorder_facts(1) [OF tree] ne by (auto simp: child layers_fit_def)
    obtain rc c h1 where i: "insert_all rebal child ?xs h = Some (rc, c, h1)" "rules_ok c" "heap_ok h1 (M + rule_refs c)" "allocs_ok h1"
        "same_header child c" "same_ties h h1"
        "if rc = OK then layers_of c = (\<lambda>ob. case map_of ?xs ob of None \<Rightarrow> layers_of child ob | Some ls \<Rightarrow> combine_layers (layers_of child ob) ls)
         else rc = Err ENOMEM \<or> rc = Err E2BIG"
      using insert_all_ok [OF assms(1) child(1), of h M ?xs] assms(3,4) postorder_facts(2) [OF tree] fit child by (auto simp: comp_def)
    note hd = same_headerD [OF i(5)]
    have ties: "lh_hierarchies h1 = lh_hierarchies h" and sub: "set (lh_allocs h1) \<subseteq> set (lh_allocs h)"
      using i(6) by (simp_all add: same_ties_def)
    show ?thesis
    proof (cases rc)
      case (Some e)
      then show ?thesis
        using i hd ties sub \<open>p = Some d\<close> by (auto simp: inherit_ruleset_def inherit_rules_all)
    next
      case None
      let ?c = "c\<lparr>fs_access_masks := take (unat (rs_num_layers d)) (fs_access_masks d) @ drop (unat (rs_num_layers d)) (fs_access_masks c)\<rparr>"
      let ?h = "set_hierarchy a (Some (na\<lparr>h_parent := Some ph\<rparr>)) (set_hierarchy ph (Some (n\<lparr>h_usage := h_usage n + 1\<rparr>)) h1)"
      have num: "parent_num p = unat (rs_num_layers d)" "length (fs_access_masks d) = unat (rs_num_layers d)"
        using Some d(1) by (simp_all add: parent_num_def domain_ok_def)
      have gt: "\<not> rs_num_layers c \<le> rs_num_layers d" using assms(10) hd num by (simp add: word_le_nat_alt)
      have neq: "a \<noteq> ph" using assms(9) [OF Some] ph(1) by auto
      have run: "inherit_ruleset rebal p child h = Some (OK, ?c, ?h)"
        using i(1) None gt ph ties assms(7,8) hd neq
        by (simp add: inherit_ruleset_def inherit_rules_all Some get_hierarchy_def Let_def)
      have "layers_of c = layers_of d"
        using i(7) None by (auto simp: map_of_rules [OF tree] child combine_layers_def layers_of_def [of d] fun_eq_iff split: option.splits)
      then have "layers_of ?c = parent_layers p" "rules_ok ?c" "rule_refs ?c = rule_refs c"
        using i(2) Some by (simp_all add: layers_of_def parent_layers_def rules_ok_def rule_refs_def fun_eq_iff)
      moreover have "allocs_ok ?h"
        using ties ph(2) assms(8) by (intro allocs_ok_mono [OF i(4)]) (auto simp: set_hierarchy_def)
      moreover have "lh_hierarchies ?h = link_hierarchy p a (lh_hierarchies h)"
        using ties ph assms(8) neq by (simp add: link_hierarchy_def Some Let_def)
      ultimately show ?thesis
        using run None i(3) hd assms(11) num Some sub by (simp add: parent_masks_def lh_set_hierarchy)
    qed
  qed
qed

section \<open>Creation of domains\<close>

lemma put_hierarchy_root:
  "lh_hierarchies h a = Some \<lparr>h_parent = None, h_usage = 1\<rparr> \<Longrightarrow> put_hierarchy (Some a) h = Some (set_hierarchy a None h)"
  by (simp add: put_hierarchy.simps)

text \<open>The node of a domain that is given up is freed and its parent loses the reference it got.\<close>

lemma put_hierarchy_link:
  assumes "lh_hierarchies h = link_hierarchy p a (H(a \<mapsto> \<lparr>h_parent = None, h_usage = 1\<rparr>))" "H a = None"
    and "\<And>d. p = Some d \<Longrightarrow> \<exists>ph n. rs_hierarchy d = Some ph \<and> H ph = Some n \<and> h_usage n > 0"
  shows "\<exists>h'. put_hierarchy (Some a) h = Some h' \<and> lh_hierarchies h' = H \<and> (\<forall>M. heap_ok h' M = heap_ok h M) \<and>
    lh_allocs h' = lh_allocs h \<and> lh_objects h' = lh_objects h"
proof (cases p)
  case None
  then show ?thesis
    using assms(1,2) put_hierarchy_root [of h a] by (auto simp: link_hierarchy_def fun_upd_idem lh_set_hierarchy)
next
  case (Some d)
  then obtain ph n where ph: "rs_hierarchy d = Some ph" "H ph = Some n" "h_usage n > 0" using assms(3) by blast
  then have neq: "ph \<noteq> a" using assms(2) by auto
  let ?h = "set_hierarchy ph (Some n) (set_hierarchy a None h)"
  have "lh_hierarchies h a = Some \<lparr>h_parent = Some ph, h_usage = 1\<rparr>" "lh_hierarchies h ph = Some (n\<lparr>h_usage := h_usage n + 1\<rparr>)"
    using assms(1) ph neq by (simp_all add: Some link_hierarchy_def Let_def)
  then have "put_hierarchy (Some a) h = Some ?h"
    using ph(3) neq by (simp add: put_hierarchy.simps [of "Some a"] put_hierarchy.simps [of "Some ph"])
  moreover have "lh_hierarchies ?h = H"
    using assms(1,2) ph neq by (auto simp: Some link_hierarchy_def Let_def fun_eq_iff)
  ultimately show ?thesis by (auto simp: lh_set_hierarchy)
qed

lemma put_new_domain:
  assumes "heap_ok h (M + rule_refs d)" "allocs_ok h" "rs_usage d = 1" "rs_hierarchy d = Some a"
    and "lh_hierarchies h = link_hierarchy p a (H(a \<mapsto> \<lparr>h_parent = None, h_usage = 1\<rparr>))" "H a = None"
    and "\<And>d. p = Some d \<Longrightarrow> \<exists>ph n. rs_hierarchy d = Some ph \<and> H ph = Some n \<and> h_usage n > 0"
  shows "\<exists>h'. landlock_put_ruleset (Some d) h = Some (None, h') \<and> heap_ok h' M \<and> lh_hierarchies h' = H \<and>
    allocs_ok h' \<and> lh_allocs h' = lh_allocs h"
proof -
  obtain h1 where h1: "free_ruleset d h = put_hierarchy (Some a) h1" "heap_ok h1 M" "lh_hierarchies h1 = lh_hierarchies h"
      "lh_allocs h1 = lh_allocs h" "allocs_ok h1"
    using free_ruleset_ok [OF assms(1)] assms(2,4) by auto
  obtain h' where h': "put_hierarchy (Some a) h1 = Some h'" "lh_hierarchies h' = H" "\<forall>M. heap_ok h' M = heap_ok h1 M"
      "lh_allocs h' = lh_allocs h1" "lh_objects h' = lh_objects h1"
    using put_hierarchy_link [of h1 p a H] h1(3) assms(5-7) by auto
  have "dom H \<subseteq> dom (lh_hierarchies h1)"
    unfolding h1(3) assms(5) link_hierarchy_def Let_def by (cases p) auto
  then have "allocs_ok h'" using h' by (auto intro: allocs_ok_mono [OF h1(5)])
  then show ?thesis
    using h1 h' assms(3) by (auto simp: landlock_put_ruleset_def)
qed

text \<open>What a merge promises.\<close>

definition merged ::
  "landlock_ruleset option \<Rightarrow> landlock_ruleset \<Rightarrow> landlock_heap \<Rightarrow> u64 multiset \<Rightarrow> errno + landlock_ruleset \<Rightarrow> landlock_heap \<Rightarrow> bool" where
  "merged p src h M r h' \<longleftrightarrow> allocs_ok h' \<and> set (lh_allocs h') \<subseteq> set (lh_allocs h) \<and>
     (case r of
        Inl e \<Rightarrow> (e = ENOMEM \<or> e = E2BIG) \<and> heap_ok h' M \<and> lh_hierarchies h' = lh_hierarchies h
      | Inr d \<Rightarrow> rs_usage d = 1 \<and> domain_ok d \<and> heap_ok h' (M + rule_refs d) \<and> fs_access_masks d = parent_masks p @ fs_access_masks src \<and>
          (\<forall>ob. layers_of d ob = parent_layers p ob @ new_layer src (length (fs_access_masks d)) ob) \<and>
          (\<exists>a. rs_hierarchy d = Some a \<and> lh_hierarchies h a = None \<and>
             lh_hierarchies h' = link_hierarchy p a ((lh_hierarchies h)(a \<mapsto> \<lparr>h_parent = None, h_usage = 1\<rparr>))))"

lemma layers_ok_append:
  "layers_ok n ls \<Longrightarrow> n < LANDLOCK_MAX_NUM_LAYERS \<Longrightarrow> length xs \<le> 1 \<Longrightarrow>
   layers_ok (Suc n) (ls @ map (\<lambda>l. \<lparr>ll_level = of_nat (Suc n), ll_access = ll_access l\<rparr>) xs)"
proof -
  assume a: "layers_ok n ls" "n < LANDLOCK_MAX_NUM_LAYERS" "length xs \<le> 1"
  have "unat (of_nat (Suc n) :: u16) = Suc n"
    using a(2) by (simp add: LANDLOCK_MAX_NUM_LAYERS_def take_bit_nat_eq_self unat_of_nat del: of_nat_Suc)
  then show ?thesis using a by (cases xs) (auto simp: layers_ok_def sorted_wrt_append simp del: of_nat_Suc)
qed

lemma new_layer_length: "ruleset_ok src \<Longrightarrow> length (layers_of src ob) \<le> 1"
  using walk_rule_iff [of "rs_root src" ob] by (fastforce simp: layers_of_def ruleset_ok_def rules_ok_def split: option.splits)

lemma merge_children_ok:
  assumes "rebal_ok rebal" "ruleset_ok src" "set_mset (rule_refs src) \<subseteq> set_mset M" "parent_num p < LANDLOCK_MAX_NUM_LAYERS"
    and "rules_ok c" "heap_ok h (M + rule_refs c)" "allocs_ok h" "rs_hierarchy c = Some a" "rs_usage c = 1"
    and "unat (rs_num_layers c) = Suc (parent_num p)" "take (parent_num p) (fs_access_masks c) = parent_masks p"
    and "length (fs_access_masks c) = Suc (parent_num p)" "layers_of c = parent_layers p" "\<forall>ob. layers_ok (parent_num p) (parent_layers p ob)"
  shows "\<exists>rc d h'. merge_ruleset rebal c src h = Some (rc, d, h') \<and> heap_ok h' (M + rule_refs d) \<and> lh_hierarchies h' = lh_hierarchies h \<and>
    rs_hierarchy d = Some a \<and> rs_usage d = 1 \<and> rs_addr d = rs_addr c \<and> allocs_ok h' \<and> set (lh_allocs h') \<subseteq> set (lh_allocs h) \<and>
    (if rc = OK then domain_ok d \<and> fs_access_masks d = parent_masks p @ fs_access_masks src \<and>
       (\<forall>ob. layers_of d ob = parent_layers p ob @ new_layer src (length (fs_access_masks d)) ob)
     else rc = Err ENOMEM \<or> rc = Err E2BIG)"
proof -
  have h: "rs_hierarchy c \<noteq> None" "\<forall>ob. layers_ok (parent_num p) (layers_of c ob)" using assms(8,13,14) by simp_all
  obtain rc d h' where m: "merge_ruleset rebal c src h = Some (rc, d, h')" "rules_ok d" "heap_ok h' (M + rule_refs d)" "same_ties h h'"
      "rs_hierarchy d = rs_hierarchy c" "rs_num_layers d = rs_num_layers c" "rs_usage d = rs_usage c"
      "fs_access_masks d = take (parent_num p) (fs_access_masks c) @ fs_access_masks src"
      "if rc = OK then \<forall>ob. layers_of d ob = layers_of c ob @ new_layer src (Suc (parent_num p)) ob else rc = Err ENOMEM \<or> rc = Err E2BIG"
      "allocs_ok h'" "rs_addr d = rs_addr c"
    using merge_ruleset_ok [OF assms(1,2,5,6,7,3) h(1) assms(10,4,12) h(2)] by blast
  have len: "length (fs_access_masks d) = Suc (parent_num p)"
    using m(8) assms(2,12) by (simp add: ruleset_ok_def)
  have layers: "layers_of d ob = parent_layers p ob @ new_layer src (Suc (parent_num p)) ob" if "rc = OK" for ob
    using m(9) that assms(13) by simp
  moreover have "layers_ok (Suc (parent_num p)) (layers_of d ob)" if "rc = OK" for ob
    using layers_ok_append [OF assms(14) [rule_format, of ob] assms(4) new_layer_length [OF assms(2), of ob]]
    by (simp only: layers [OF that] new_layer_def)
  ultimately show ?thesis
    using m assms(4,8-11) len by (auto simp: domain_ok_def same_ties_def)
qed

lemma kzalloc_same:
  "kzalloc h = (p, h') \<Longrightarrow> lh_hierarchies h' = lh_hierarchies h \<and> lh_inode_object h' = lh_inode_object h \<and> lh_i_count h' = lh_i_count h \<and>
     set (lh_allocs h') \<subseteq> set (lh_allocs h)"
  by (auto simp: kzalloc_def split: list.splits)

lemma put_fresh_ruleset:
  "rs_root d = Leaf \<Longrightarrow> rs_hierarchy d = None \<Longrightarrow> rs_usage d = 1 \<Longrightarrow> landlock_put_ruleset (Some d) h = Some (None, h)"
  by (simp add: landlock_put_ruleset_def free_ruleset_def put_hierarchy.simps)

lemma parent_ok_mono:
  "parent_ok h M p \<Longrightarrow> (\<And>a n. lh_hierarchies h a = Some n \<Longrightarrow> lh_hierarchies h' a = Some n) \<Longrightarrow> parent_ok h' M p"
  by (auto simp: parent_ok_def split: option.splits)

lemma parent_hierarchy:
  "parent_ok h M p \<Longrightarrow> p = Some d \<Longrightarrow> \<exists>ph n. rs_hierarchy d = Some ph \<and> lh_hierarchies h ph = Some n \<and> h_usage n > 0"
  by (auto simp: parent_ok_def domain_ok_def)

text \<open>The new domain, from its first node in the hierarchy on.\<close>

lemma merge_new_domain_ok:
  assumes "rebal_ok rebal" "ruleset_ok src" "set_mset (rule_refs src) \<subseteq> set_mset M" "parent_num p < LANDLOCK_MAX_NUM_LAYERS"
    and "parent_ok h M p" "heap_ok h M" "allocs_ok h" "lh_hierarchies h a = None" "Some a \<notin> set (lh_allocs h)"
    and "rs_root c = Leaf" "rs_num_rules c = 0" "rs_hierarchy c = Some a" "rs_usage c = 1"
    and "unat (rs_num_layers c) = Suc (parent_num p)" "length (fs_access_masks c) = Suc (parent_num p)"
  shows "\<exists>r h'. do {
       (err, new_dom, h) \<leftarrow> inherit_ruleset rebal p c (set_hierarchy a (Some \<lparr>h_parent = None, h_usage = 1\<rparr>) h);
       (case err of
          Err e \<Rightarrow> do { (_, h) \<leftarrow> landlock_put_ruleset (Some new_dom) h; Some (Inl e, h) }
        | OK \<Rightarrow>
            do {
              (err, new_dom, h) \<leftarrow> merge_ruleset rebal new_dom src h;
              (case err of
                 Err e \<Rightarrow> do { (_, h) \<leftarrow> landlock_put_ruleset (Some new_dom) h; Some (Inl e, h) }
               | OK \<Rightarrow> Some (Inr new_dom, h))
            })
     } = Some (r, h') \<and> merged p src h M r h' \<and> (\<forall>d. r = Inr d \<longrightarrow> rs_addr d = rs_addr c)"
proof -
  let ?H = "lh_hierarchies h"
  let ?h = "set_hierarchy a (Some \<lparr>h_parent = None, h_usage = 1\<rparr>) h"
  note par = parent_hierarchy [OF assms(5)]
  have fresh: "rs_hierarchy d \<noteq> Some a" if "p = Some d" for d using par [OF that] assms(8) by auto
  have "parent_ok ?h M p" using assms(8) by (intro parent_ok_mono [OF assms(5)]) auto
  moreover have "allocs_ok ?h" using assms(7,9) by (auto simp: allocs_ok_def set_hierarchy_def)
  ultimately have h0: "parent_ok ?h M p" "heap_ok ?h M" "allocs_ok ?h" "lh_hierarchies ?h a = Some \<lparr>h_parent = None, h_usage = 1\<rparr>"
    using assms(6) by simp_all
  obtain rc d h1 where i: "inherit_ruleset rebal p c ?h = Some (rc, d, h1)" "rules_ok d" "heap_ok h1 (M + rule_refs d)" "allocs_ok h1"
      "rs_hierarchy d = rs_hierarchy c" "rs_num_layers d = rs_num_layers c" "rs_usage d = rs_usage c"
      "rs_addr d = rs_addr c" "set (lh_allocs h1) \<subseteq> set (lh_allocs ?h)"
      "if rc = OK
       then take (parent_num p) (fs_access_masks d) = parent_masks p \<and> length (fs_access_masks d) = Suc (parent_num p) \<and>
         layers_of d = parent_layers p \<and> lh_hierarchies h1 = link_hierarchy p a (lh_hierarchies ?h)
       else (rc = Err ENOMEM \<or> rc = Err E2BIG) \<and> lh_hierarchies h1 = lh_hierarchies ?h"
    using inherit_ruleset_ok [OF assms(1) h0(1-3) assms(10-12) h0(4) fresh assms(14,15)] by blast
  show ?thesis
  proof (cases rc)
    case (Some e)
    have "link_hierarchy None a (?H(a \<mapsto> \<lparr>h_parent = None, h_usage = 1\<rparr>)) = lh_hierarchies h1"
      using i(10) Some by (simp add: link_hierarchy_def)
    then obtain h2 where "landlock_put_ruleset (Some d) h1 = Some (None, h2)" "heap_ok h2 M" "lh_hierarchies h2 = ?H"
        "allocs_ok h2" "lh_allocs h2 = lh_allocs h1"
      using put_new_domain [OF i(3,4), of a None ?H] i(5,7) assms(8,12,13) by auto
    then show ?thesis using i(1,9,10) Some by (simp add: merged_def lh_set_hierarchy)
  next
    case None
    then have i': "take (parent_num p) (fs_access_masks d) = parent_masks p" "length (fs_access_masks d) = Suc (parent_num p)"
        "layers_of d = parent_layers p" "lh_hierarchies h1 = link_hierarchy p a (?H(a \<mapsto> \<lparr>h_parent = None, h_usage = 1\<rparr>))"
      using i(10) by simp_all
    have lay: "\<forall>ob. layers_ok (parent_num p) (parent_layers p ob)"
      using assms(5) by (auto simp: parent_ok_def parent_num_def parent_layers_def domain_ok_def layers_ok_def split: option.splits)
    have hd: "rs_hierarchy d = Some a" "rs_usage d = 1" "unat (rs_num_layers d) = Suc (parent_num p)"
      using i(5-7) assms(12-14) by simp_all
    obtain rc' d' h2 where m: "merge_ruleset rebal d src h1 = Some (rc', d', h2)" "heap_ok h2 (M + rule_refs d')" "lh_hierarchies h2 = lh_hierarchies h1"
        "rs_hierarchy d' = Some a" "rs_usage d' = 1" "rs_addr d' = rs_addr d" "allocs_ok h2" "set (lh_allocs h2) \<subseteq> set (lh_allocs h1)"
        "if rc' = OK then domain_ok d' \<and> fs_access_masks d' = parent_masks p @ fs_access_masks src \<and>
           (\<forall>ob. layers_of d' ob = parent_layers p ob @ new_layer src (length (fs_access_masks d')) ob)
         else rc' = Err ENOMEM \<or> rc' = Err E2BIG"
      using merge_children_ok [OF assms(1-4) i(2-4) hd i'(1-3) lay] by blast
    show ?thesis
    proof (cases rc')
      case (Some e)
      obtain h3 where "landlock_put_ruleset (Some d') h2 = Some (None, h3)" "heap_ok h3 M" "lh_hierarchies h3 = ?H"
          "allocs_ok h3" "lh_allocs h3 = lh_allocs h2"
        using put_new_domain [OF m(2,7,5,4), of p ?H] m(3) i'(4) assms(8) par by auto
      then show ?thesis using i(1,9) None m(1,8,9) Some by (auto simp: merged_def lh_set_hierarchy)
    next
      case None
      then show ?thesis using i(1,8,9) \<open>rc = OK\<close> m i'(4) assms(8) by (auto simp: merged_def lh_set_hierarchy)
    qed
  qed
qed

lemma landlock_merge_ruleset_ok:
  assumes "rebal_ok rebal" "ruleset_ok src" "set_mset (rule_refs src) \<subseteq> set_mset M" "parent_ok h M p" "heap_ok h M" "allocs_ok h"
    and "\<And>d. p = Some d \<Longrightarrow> rs_addr d \<noteq> rs_addr src"
  shows "\<exists>r h'. landlock_merge_ruleset rebal p (Some src) h = Some (r, h') \<and> merged p src h M r h' \<and>
    (parent_num p \<ge> LANDLOCK_MAX_NUM_LAYERS \<longrightarrow> r = Inl E2BIG) \<and>
    (\<forall>d. r = Inr d \<longrightarrow> Some (rs_addr d) \<in> set (lh_allocs h) - set (lh_allocs h'))"
proof -
  have addr: "\<not> (case p of None \<Rightarrow> False | Some d \<Rightarrow> rs_addr d = rs_addr src)" using assms(7) by (simp split: option.splits)
  have limit: "(case p of None \<Rightarrow> False | Some d \<Rightarrow> rs_num_layers d \<ge> of_nat LANDLOCK_MAX_NUM_LAYERS) \<longleftrightarrow> parent_num p \<ge> LANDLOCK_MAX_NUM_LAYERS"
    by (simp add: parent_num_def LANDLOCK_MAX_NUM_LAYERS_def word_le_nat_alt split: option.splits)
  show ?thesis
  proof (cases "parent_num p \<ge> LANDLOCK_MAX_NUM_LAYERS")
    case True
    then show ?thesis using addr limit assms(5,6) by (simp add: landlock_merge_ruleset_def merged_def)
  next
    case False
    let ?n = "case p of None \<Rightarrow> 1 | Some d \<Rightarrow> rs_num_layers d + 1"
    have n: "unat ?n = Suc (parent_num p)"
      using False by (auto simp: parent_num_def LANDLOCK_MAX_NUM_LAYERS_def unat_word_ariths split: option.splits)
    obtain q h1 where k1: "kzalloc h = (q, h1)" by fastforce
    have h1: "lh_hierarchies h1 = lh_hierarchies h" "allocs_ok h1" "heap_ok h1 M" "set (lh_allocs h1) \<subseteq> set (lh_allocs h)"
      using kzalloc_same [OF k1] kzalloc_ok [OF k1 assms(6)] kzalloc_heap_ok [OF k1, of M] assms(5) by auto
    show ?thesis
    proof (cases q)
      case None
      then show ?thesis
        using k1 addr limit False h1 by (simp add: landlock_merge_ruleset_def create_ruleset_def merged_def)
    next
      case (Some a0)
      let ?d = "\<lparr>rs_addr = a0, rs_root = Leaf, rs_hierarchy = None, rs_usage = 1, rs_num_rules = 0,
                rs_num_layers = ?n, fs_access_masks = replicate (unat ?n) 0\<rparr>"
      obtain q' h2 where k2: "kzalloc h1 = (q', h2)" by fastforce
      have a0: "Some a0 \<in> set (lh_allocs h)" "Some a0 \<notin> set (lh_allocs h1)"
        using k1 Some kzalloc_ok [OF k1 assms(6)] by (auto simp: kzalloc_def split: list.splits)
      have h2: "lh_hierarchies h2 = lh_hierarchies h" "allocs_ok h2" "heap_ok h2 M" "set (lh_allocs h2) \<subseteq> set (lh_allocs h1)"
        using kzalloc_same [OF k2] kzalloc_ok [OF k2 h1(2)] kzalloc_heap_ok [OF k2, of M] h1 by auto
      have create: "create_ruleset ?n h = (Inr ?d, h1)" using k1 Some by (simp add: create_ruleset_def)
      show ?thesis
      proof (cases q')
        case None
        have "landlock_put_ruleset (Some ?d) h2 = Some (None, h2)" by (rule put_fresh_ruleset) simp_all
        then show ?thesis
          using addr limit False create k2 None h1(4) h2 by (auto simp: landlock_merge_ruleset_def merged_def)
      next
        case (Some a)
        have a: "lh_hierarchies h2 a = None" "Some a \<notin> set (lh_allocs h2)"
          using kzalloc_ok [OF k2 h1(2)] Some h1(1) h2(1) by auto
        have par: "parent_ok h2 M p" using parent_ok_mono [OF assms(4)] h2(1) by simp
        obtain r h' where r: "landlock_merge_ruleset rebal p (Some src) h = Some (r, h')" "merged p src h2 M r h'"
            "\<forall>d. r = Inr d \<longrightarrow> rs_addr d = a0"
          using merge_new_domain_ok [OF assms(1-3) _ par h2(3,2) a, of "?d\<lparr>rs_hierarchy := Some a\<rparr>"] addr limit False create k2 Some n
          by (auto simp: landlock_merge_ruleset_def Let_def)
        then have "merged p src h M r h'" "set (lh_allocs h') \<subseteq> set (lh_allocs h1)"
          using h1(4) h2(4) unfolding merged_def h2(1) by auto
        then show ?thesis using r(1,3) a0 False by auto
      qed
    qed
  qed
qed

section \<open>Samples\<close>

text \<open>A domain that allows reading below an object.\<close>

definition sample_domain :: landlock_ruleset where
  "sample_domain = \<lparr>rs_addr = 50, rs_root = Node Leaf \<lparr>lr_object = 100, lr_layers = [\<lparr>ll_level = 1, ll_access = 4\<rparr>]\<rparr> Leaf, rs_hierarchy = Some 7,
     rs_usage = 1, rs_num_rules = 1, rs_num_layers = 1, fs_access_masks = [6]\<rparr>"

lemma sample_domain_ok: "domain_ok sample_domain"
  by (auto simp: sample_domain_def domain_ok_def rules_ok_def tree_ok_def layers_ok_def layers_of_def LANDLOCK_MAX_NUM_LAYERS_def)

text \<open>A ruleset that is merged: it handles reading and writing and allows writing below the directory.\<close>

definition sample_ruleset :: landlock_ruleset where
  "sample_ruleset = \<lparr>rs_addr = 60, rs_root = Node Leaf \<lparr>lr_object = 100, lr_layers = [\<lparr>ll_level = 0, ll_access = 2\<rparr>]\<rparr> Leaf, rs_hierarchy = None,
     rs_usage = 1, rs_num_rules = 1, rs_num_layers = 1, fs_access_masks = [6]\<rparr>"

definition merge_heap :: landlock_heap where
  "merge_heap = \<lparr>lh_objects = [100 \<mapsto> \<lparr>usage = 2, underobj = Some 1\<rparr>], lh_inode_object = [1 \<mapsto> 100], lh_i_count = (\<lambda>_. 1),
     lh_hierarchies = [7 \<mapsto> \<lparr>h_parent = None, h_usage = 1\<rparr>], lh_allocs = [Some 70, Some 71, Some 72, Some 73]\<rparr>"

definition merge_result :: landlock_ruleset where
  "merge_result = \<lparr>rs_addr = 70,
     rs_root = Node Leaf \<lparr>lr_object = 100, lr_layers = [\<lparr>ll_level = 1, ll_access = 4\<rparr>, \<lparr>ll_level = 2, ll_access = 2\<rparr>]\<rparr> Leaf,
     rs_hierarchy = Some 71, rs_usage = 1, rs_num_rules = 1, rs_num_layers = 2, fs_access_masks = [6, 6]\<rparr>"

lemma replicate_two: "replicate 2 x = [x, x]"
  by (simp add: numeral_2_eq_2)

lemma merge_sample:
  "\<exists>h'. landlock_merge_ruleset (\<lambda>t. t) (Some sample_domain) (Some sample_ruleset) merge_heap = Some (Inr merge_result, h')"
  by (simp add: landlock_merge_ruleset_def sample_domain_def sample_ruleset_def merge_heap_def LANDLOCK_MAX_NUM_LAYERS_def create_ruleset_def kzalloc_def
      inherit_ruleset_def insert_rule_def create_rule_def landlock_get_object_def set_object_def set_hierarchy_def get_hierarchy_def
      merge_ruleset_def update_rule_def free_rule_def landlock_put_object_def LANDLOCK_MAX_NUM_RULES_def merge_result_def
      word_le_nat_alt replicate_two)

lemma merge_sample_ok:
  "rebal_ok (\<lambda>t. t)" "ruleset_ok sample_ruleset" "set_mset (rule_refs sample_ruleset) \<subseteq> set_mset {#100, 100#}"
  "parent_ok merge_heap {#100, 100#} (Some sample_domain)" "heap_ok merge_heap {#100, 100#}" "allocs_ok merge_heap"
  "rs_addr sample_domain \<noteq> rs_addr sample_ruleset"
  using sample_domain_ok
  by (auto simp: rebal_ok_def ruleset_ok_def rules_ok_def tree_ok_def sample_ruleset_def rule_refs_def parent_ok_def merge_heap_def
      sample_domain_def heap_ok_def refs_ok_def counted_def ties_ok_def allocs_ok_def split: if_splits)

section \<open>Properties\<close>

text \<open>The access that the rule of an object allows in a ruleset.\<close>

definition access_of :: "landlock_ruleset \<Rightarrow> u64 \<Rightarrow> u16" where
  "access_of rs ob = (case layers_of rs ob of [] \<Rightarrow> 0 | l # _ \<Rightarrow> ll_access l)"

lemma ruleset_layers: "ruleset_ok rs \<Longrightarrow> layers_of rs ob = [] \<or> (\<exists>l. layers_of rs ob = [l] \<and> ll_level l = 0)"
  using walk_rule_iff [of "rs_root rs" ob] by (fastforce simp: layers_of_def ruleset_ok_def rules_ok_def split: option.splits)

lemma ruleset_okI:
  assumes "rules_ok rs'" "ruleset_ok rs" "same_header rs rs'" "\<And>ob. layers_of rs' ob = [] \<or> (\<exists>l. layers_of rs' ob = [l] \<and> ll_level l = 0)"
  shows "ruleset_ok rs'"
proof -
  have "\<exists>l. lr_layers r = [l] \<and> ll_level l = 0" if "r \<in> set_tree (rs_root rs')" for r
    using assms(1) assms(4) [of "lr_object r"] layers_of_rule [OF assms(1) that] that by (auto simp: rules_ok_def)
  then show ?thesis using assms(1,2) same_headerD [OF assms(3)] by (simp add: ruleset_ok_def)
qed

lemma landlock_insert_rule_ok:
  assumes "rebal_ok rebal" "ruleset_ok rs" "heap_ok h (M + rule_refs rs)" "allocs_ok h" "ob \<in># M"
  shows "\<exists>rc rs' h'. landlock_insert_rule rebal rs (Some ob) acc h = Some (rc, rs', h') \<and>
    ruleset_ok rs' \<and> heap_ok h' (M + rule_refs rs') \<and> allocs_ok h' \<and> same_header rs rs' \<and> same_ties h h' \<and>
    (if rc = OK then access_of rs' = (access_of rs)(ob := access_of rs ob OR acc) \<and> ob \<in># rule_refs rs'
     else rs' = rs \<and> (rc = Err ENOMEM \<or> rc = Err E2BIG \<and> rs_num_rules rs = 0xffffffff))"
proof -
  let ?ls = "[\<lparr>ll_level = 0, ll_access = acc\<rparr>]"
  have rules: "rules_ok rs" using assms(2) by (simp add: ruleset_ok_def)
  have fit: "layers_fit (layers_of rs ob) ?ls" using ruleset_layers [OF assms(2), of ob] by (auto simp: layers_fit_def)
  obtain rc rs' h' where i: "landlock_insert_rule rebal rs (Some ob) acc h = Some (rc, rs', h')" "inserted rs ob ?ls h M rc rs' h'"
    using insert_rule_ok [OF assms(1) rules assms(3-5) fit] by (auto simp: landlock_insert_rule_def)
  have ok: "rules_ok rs'" "heap_ok h' (M + rule_refs rs')" "same_header rs rs'" "allocs_ok h'" "same_ties h h'" using i(2) by (simp_all add: inserted_def)
  show ?thesis
  proof (cases rc)
    case None
    then have l: "layers_of rs' = (layers_of rs)(ob := combine_layers (layers_of rs ob) ?ls)" using i(2) by (simp add: inserted_def)
    have "layers_of rs' o' = [] \<or> (\<exists>l. layers_of rs' o' = [l] \<and> ll_level l = 0)" for o'
      using ruleset_layers [OF assms(2), of o'] by (auto simp: l combine_layers_def)
    then have "ruleset_ok rs'" by (rule ruleset_okI [OF ok(1) assms(2) ok(3)])
    moreover have "access_of rs' = (access_of rs)(ob := access_of rs ob OR acc)"
      using ruleset_layers [OF assms(2), of ob] by (auto simp: access_of_def l combine_layers_def fun_eq_iff)
    moreover have "ob \<in># rule_refs rs'"
    proof -
      have tree: "tree_ok (rs_root rs')" using ok(1) by (simp add: rules_ok_def)
      have "layers_of rs' ob \<noteq> []" using ruleset_layers [OF assms(2), of ob] by (auto simp: l combine_layers_def)
      then obtain r where "walk_rule ob (rs_root rs') = Some r" using layers_of_None [OF ok(1)] by blast
      then show ?thesis using walk_rule_iff [OF tree] rule_refs_mem [OF tree] by auto
    qed
    ultimately show ?thesis using i(1) ok None by auto
  next
    case (Some e)
    then have "rs' = rs" "rc = Err ENOMEM \<or> rc = Err E2BIG \<and> rs_num_rules rs = 0xffffffff"
      using i(2) new_layer_length [OF assms(2), of ob] by (auto simp: inserted_def LANDLOCK_MAX_NUM_LAYERS_def LANDLOCK_MAX_NUM_RULES_def)
    then show ?thesis using i(1) ok Some assms(2) by auto
  qed
qed

text \<open>
  C23. Adding a rule to a ruleset ends, keeps the ruleset well formed with one layer for each object, in a
  search tree and with the right number of rules, and keeps every reference counter exact. It adds the
  access to what the object was allowed and changes nothing else; it fails only without memory or at the
  largest number of rules, and then changes nothing.
\<close>

theorem landlock_insert_rule_spec:
  assumes "rebal_ok rebal" "ruleset_ok rs" "heap_ok h (M + rule_refs rs)" "allocs_ok h" "ob \<in># M"
  shows "\<exists>rc rs' h'. landlock_insert_rule rebal rs (Some ob) acc h = Some (rc, rs', h') \<and>
    ruleset_ok rs' \<and> heap_ok h' (M + rule_refs rs') \<and> fs_access_masks rs' = fs_access_masks rs \<and>
    (if rc = OK then access_of rs' = (access_of rs)(ob := access_of rs ob OR acc)
     else rs' = rs \<and> (rc = Err ENOMEM \<or> rc = Err E2BIG \<and> rs_num_rules rs = 0xffffffff))"
proof -
  obtain rc rs' h' where "landlock_insert_rule rebal rs (Some ob) acc h = Some (rc, rs', h')" "ruleset_ok rs'" "heap_ok h' (M + rule_refs rs')"
      "same_header rs rs'"
      "if rc = OK then access_of rs' = (access_of rs)(ob := access_of rs ob OR acc)
       else rs' = rs \<and> (rc = Err ENOMEM \<or> rc = Err E2BIG \<and> rs_num_rules rs = 0xffffffff)"
    using landlock_insert_rule_ok [OF assms, of acc] by (fastforce split: if_splits)
  moreover from this have "fs_access_masks rs' = fs_access_masks rs" using same_headerD by blast
  ultimately show ?thesis by blast
qed

theorem landlock_insert_rule_spec_witness:
  "\<exists>rc rs' h'. landlock_insert_rule (\<lambda>t. t) sample_ruleset (Some 100) 4 merge_heap = Some (rc, rs', h') \<and>
    ruleset_ok rs' \<and> heap_ok h' ({#100#} + rule_refs rs') \<and> fs_access_masks rs' = fs_access_masks sample_ruleset \<and>
    (if rc = OK then access_of rs' = (access_of sample_ruleset)(100 := access_of sample_ruleset 100 OR 4)
     else rs' = sample_ruleset \<and> (rc = Err ENOMEM \<or> rc = Err E2BIG \<and> rs_num_rules sample_ruleset = 0xffffffff))"
proof -
  have "heap_ok merge_heap ({#100#} + rule_refs sample_ruleset)"
    using merge_sample_ok(5) by (simp add: rule_refs_def sample_ruleset_def)
  from landlock_insert_rule_spec [OF merge_sample_ok(1,2) this merge_sample_ok(6), of 100 4]
  show ?thesis by simp
qed

text \<open>
  C13. Merging a ruleset into a domain ends and gives a well-formed domain of at most sixteen layers: the
  layers of the parent on every object, with the access of the ruleset as the last layer, and a node of
  its own below the parent in the hierarchy of domains. All reference counters are exact. Sixteen layers
  cannot be exceeded, and a failure leaves no reference and no node behind.
\<close>

theorem landlock_merge_ruleset_spec:
  assumes "rebal_ok rebal" "ruleset_ok src" "set_mset (rule_refs src) \<subseteq> set_mset M" "parent_ok h M (Some p)" "heap_ok h M" "allocs_ok h"
    and "rs_addr p \<noteq> rs_addr src"
  shows "\<exists>r h'. landlock_merge_ruleset rebal (Some p) (Some src) h = Some (r, h') \<and>
    (unat (rs_num_layers p) = 16 \<longrightarrow> r = Inl E2BIG) \<and>
    (case r of
       Inl e \<Rightarrow> (e = ENOMEM \<or> e = E2BIG) \<and> heap_ok h' M \<and> lh_hierarchies h' = lh_hierarchies h
     | Inr d \<Rightarrow> domain_ok d \<and> heap_ok h' (M + rule_refs d) \<and> fs_access_masks d = fs_access_masks p @ fs_access_masks src \<and>
         (\<forall>ob. layers_of d ob = layers_of p ob @
            map (\<lambda>l. \<lparr>ll_level = of_nat (length (fs_access_masks d)), ll_access = ll_access l\<rparr>) (layers_of src ob)) \<and>
         (\<exists>a. rs_hierarchy d = Some a \<and> lh_hierarchies h a = None \<and>
            lh_hierarchies h' a = Some \<lparr>h_parent = rs_hierarchy p, h_usage = 1\<rparr>))"
proof -
  obtain r h' where r: "landlock_merge_ruleset rebal (Some p) (Some src) h = Some (r, h')" "merged (Some p) src h M r h'"
      "parent_num (Some p) \<ge> LANDLOCK_MAX_NUM_LAYERS \<longrightarrow> r = Inl E2BIG"
    using landlock_merge_ruleset_ok [OF assms(1-6)] assms(7) by auto
  obtain ph n where ph: "rs_hierarchy p = Some ph" "lh_hierarchies h ph = Some n"
    using parent_hierarchy [OF assms(4)] by blast
  have "case r of
       Inl e \<Rightarrow> (e = ENOMEM \<or> e = E2BIG) \<and> heap_ok h' M \<and> lh_hierarchies h' = lh_hierarchies h
     | Inr d \<Rightarrow> domain_ok d \<and> heap_ok h' (M + rule_refs d) \<and> fs_access_masks d = fs_access_masks p @ fs_access_masks src \<and>
         (\<forall>ob. layers_of d ob = layers_of p ob @
            map (\<lambda>l. \<lparr>ll_level = of_nat (length (fs_access_masks d)), ll_access = ll_access l\<rparr>) (layers_of src ob)) \<and>
         (\<exists>a. rs_hierarchy d = Some a \<and> lh_hierarchies h a = None \<and>
            lh_hierarchies h' a = Some \<lparr>h_parent = rs_hierarchy p, h_usage = 1\<rparr>)"
    using r(2) ph by (cases r) (auto simp: merged_def parent_masks_def parent_layers_def new_layer_def link_hierarchy_def)
  then show ?thesis using r(1,3) by (auto simp: parent_num_def LANDLOCK_MAX_NUM_LAYERS_def)
qed

theorem landlock_merge_ruleset_spec_witness:
  "\<exists>h'. landlock_merge_ruleset (\<lambda>t. t) (Some sample_domain) (Some sample_ruleset) merge_heap = Some (Inr merge_result, h') \<and>
    domain_ok merge_result \<and> heap_ok h' ({#100, 100#} + rule_refs merge_result)"
proof -
  obtain h' where m: "landlock_merge_ruleset (\<lambda>t. t) (Some sample_domain) (Some sample_ruleset) merge_heap = Some (Inr merge_result, h')"
    using merge_sample by blast
  show ?thesis
    using landlock_merge_ruleset_spec [OF merge_sample_ok] m by auto
qed

end
