(* ===== verification/Landlock_Fs.thy ===== *)
theory Landlock_Fs
  imports Landlock_Ruleset
begin

text \<open>
  File access under Landlock (\<open>fs.c\<close>): rules on inodes, the walk over a path towards the root that collects
  what the rules on the way grant in each layer of a domain, the checks for links and renames, and the
  hooks.

  The file system is a parameter, the record \<open>vfs\<close>: the dentries with their parents and inodes, and the
  mounts with their roots and the place each is mounted on (\<open>follow_up\<close>). A walk over it need not end, and
  then there is no result (\<open>None\<close>); that file systems are trees is a hypothesis of the theorems. The values
  of the access rights belong to the user interface and are a parameter too, the record \<open>fs_rights\<close>; what
  is relied on is that \<open>LANDLOCK_ACCESS_FS_TRUNCATE\<close> is one bit, the last.

  An array of layer masks is a list with one mask for each access right; a null pointer to one is \<open>None\<close>.
\<close>

section \<open>Access rights\<close>

record fs_rights =
  LANDLOCK_ACCESS_FS_EXECUTE :: u16
  LANDLOCK_ACCESS_FS_WRITE_FILE :: u16
  LANDLOCK_ACCESS_FS_READ_FILE :: u16
  LANDLOCK_ACCESS_FS_READ_DIR :: u16
  LANDLOCK_ACCESS_FS_REMOVE_DIR :: u16
  LANDLOCK_ACCESS_FS_REMOVE_FILE :: u16
  LANDLOCK_ACCESS_FS_MAKE_CHAR :: u16
  LANDLOCK_ACCESS_FS_MAKE_DIR :: u16
  LANDLOCK_ACCESS_FS_MAKE_REG :: u16
  LANDLOCK_ACCESS_FS_MAKE_SOCK :: u16
  LANDLOCK_ACCESS_FS_MAKE_FIFO :: u16
  LANDLOCK_ACCESS_FS_MAKE_BLOCK :: u16
  LANDLOCK_ACCESS_FS_MAKE_SYM :: u16
  LANDLOCK_ACCESS_FS_REFER :: u16
  LANDLOCK_ACCESS_FS_TRUNCATE :: u16

definition LANDLOCK_MASK_ACCESS_FS :: "fs_rights \<Rightarrow> u16" where
  "LANDLOCK_MASK_ACCESS_FS U = push_bit 1 (LANDLOCK_ACCESS_FS_TRUNCATE U) - 1"

definition LANDLOCK_NUM_ACCESS_FS :: "fs_rights \<Rightarrow> nat" where
  "LANDLOCK_NUM_ACCESS_FS U = length (filter (bit (LANDLOCK_MASK_ACCESS_FS U)) [0..<16])"

definition ACCESS_FILE :: "fs_rights \<Rightarrow> u16" where
  "ACCESS_FILE U = LANDLOCK_ACCESS_FS_EXECUTE U OR LANDLOCK_ACCESS_FS_WRITE_FILE U OR
     LANDLOCK_ACCESS_FS_READ_FILE U OR LANDLOCK_ACCESS_FS_TRUNCATE U"

definition ACCESS_INITIALLY_DENIED :: "fs_rights \<Rightarrow> u16" where
  "ACCESS_INITIALLY_DENIED U = LANDLOCK_ACCESS_FS_REFER U"

section \<open>The file system\<close>

type_synonym dentry = nat
type_synonym mount = nat

record vfs =
  d_parent :: "dentry \<Rightarrow> dentry"
  d_backing_inode :: "dentry \<Rightarrow> inode option"
  d_is_dir :: "dentry \<Rightarrow> bool"
  sb_nouser :: "dentry \<Rightarrow> bool"
  i_mode :: "inode \<Rightarrow> u16"
  is_private :: "inode \<Rightarrow> bool"
  mnt_root :: "mount \<Rightarrow> dentry"
  mnt_internal :: "mount \<Rightarrow> bool"
  follow_up :: "mount \<Rightarrow> (mount \<times> dentry) option"

record vpath =
  p_mnt :: mount
  p_dentry :: dentry

section \<open>Rules of a ruleset\<close>

definition landlock_append_fs_rule ::
  "fs_rights \<Rightarrow> vfs \<Rightarrow> rebalance \<Rightarrow> (landlock_heap \<Rightarrow> landlock_heap) list \<Rightarrow> landlock_ruleset \<Rightarrow> vpath \<Rightarrow> u16 \<Rightarrow> landlock_heap \<Rightarrow>
   (rc \<times> landlock_ruleset \<times> landlock_heap) option" where
  "landlock_append_fs_rule U V rebal envs rs path access_rights h =
     (if \<not> d_is_dir V (p_dentry path) \<and> access_rights OR ACCESS_FILE U \<noteq> ACCESS_FILE U then Some (Err EINVAL, rs, h)
      else if rs_num_layers rs \<noteq> 1 then Some (Err EINVAL, rs, h)
      else do {
        i \<leftarrow> d_backing_inode V (p_dentry path);
        (ob, h) \<leftarrow> get_inode_object i envs h;
        (case ob of
           Inl e \<Rightarrow> Some (Err e, rs, h)
         | Inr a \<Rightarrow> do {
             (err, rs, h) \<leftarrow> landlock_insert_rule rebal rs (Some a)
               (access_rights OR (LANDLOCK_MASK_ACCESS_FS U AND NOT (fs_access_masks rs ! 0 OR ACCESS_INITIALLY_DENIED U))) h;
             h \<leftarrow> landlock_put_object (Some a) h;
             Some (err, rs, h)
           })
      })"

section \<open>Layer masks\<close>

definition find_rule :: "vfs \<Rightarrow> landlock_heap \<Rightarrow> landlock_ruleset \<Rightarrow> dentry \<Rightarrow> landlock_rule option" where
  "find_rule V h domain d =
     (case d_backing_inode V d of
        None \<Rightarrow> None
      | Some i \<Rightarrow> landlock_find_rule domain (lh_inode_object h i))"

text \<open>The bits of a request, in the order of \<open>for_each_set_bit\<close>.\<close>

definition set_bits :: "fs_rights \<Rightarrow> u16 \<Rightarrow> nat list" where
  "set_bits U req = filter (bit req) [0..<LANDLOCK_NUM_ACCESS_FS U]"

definition unmask_bit :: "landlock_layer \<Rightarrow> nat \<Rightarrow> bool \<times> u16 list \<Rightarrow> bool \<times> u16 list" where
  "unmask_bit layer b st =
     (case st of (is_empty, masks) \<Rightarrow>
        let layer_bit = push_bit (unat (ll_level layer) - 1) 1;
            masks = (if bit (ll_access layer) b then masks[b := masks ! b AND NOT layer_bit] else masks)
        in (is_empty \<and> masks ! b = 0, masks))"

fun unmask_loop :: "nat list \<Rightarrow> landlock_layer list \<Rightarrow> u16 list \<Rightarrow> bool \<times> u16 list" where
  "unmask_loop bits [] masks = (False, masks)"
| "unmask_loop bits (layer # layers) masks =
     (case fold (unmask_bit layer) bits (True, masks) of
        (True, masks) \<Rightarrow> (True, masks)
      | (False, masks) \<Rightarrow> unmask_loop bits layers masks)"

text \<open>The shift by the level of a layer is defined in a domain, whose levels start at 1.\<close>

definition unmask_layers :: "fs_rights \<Rightarrow> landlock_rule option \<Rightarrow> u16 \<Rightarrow> u16 list option \<Rightarrow> bool \<times> u16 list option" where
  "unmask_layers U rule access_request layer_masks =
     (if access_request = 0 then (True, layer_masks)
      else case layer_masks of
             None \<Rightarrow> (True, None)
           | Some masks \<Rightarrow>
               (case rule of
                  None \<Rightarrow> (False, Some masks)
                | Some r \<Rightarrow>
                    (case unmask_loop (set_bits U access_request) (lr_layers r) masks of
                       (allowed, masks) \<Rightarrow> (allowed, Some masks))))"

definition is_nouser_or_private :: "vfs \<Rightarrow> dentry \<Rightarrow> bool" where
  "is_nouser_or_private V d =
     (sb_nouser V d \<or> (case d_backing_inode V d of None \<Rightarrow> False | Some i \<Rightarrow> is_private V i))"

definition get_handled_accesses :: "fs_rights \<Rightarrow> landlock_ruleset \<Rightarrow> u16" where
  "get_handled_accesses U domain =
     fold (\<lambda>layer_level acc. acc OR fs_access_masks domain ! layer_level) [0..<unat (rs_num_layers domain)]
       (ACCESS_INITIALLY_DENIED U) AND LANDLOCK_MASK_ACCESS_FS U"

definition init_bit :: "fs_rights \<Rightarrow> landlock_ruleset \<Rightarrow> nat \<Rightarrow> nat \<Rightarrow> u16 \<times> u16 list \<Rightarrow> u16 \<times> u16 list" where
  "init_bit U domain layer_level b st =
     (case st of (handled, masks) \<Rightarrow>
        if bit (fs_access_masks domain ! layer_level OR ACCESS_INITIALLY_DENIED U) b
        then (handled OR push_bit b 1, masks[b := masks ! b OR push_bit layer_level 1])
        else (handled, masks))"

definition init_layer_masks :: "fs_rights \<Rightarrow> landlock_ruleset \<Rightarrow> u16 \<Rightarrow> u16 \<times> u16 list" where
  "init_layer_masks U domain access_request =
     (let masks = replicate (LANDLOCK_NUM_ACCESS_FS U) 0
      in if access_request = 0 then (0, masks)
         else fold (\<lambda>layer_level st. fold (init_bit U domain layer_level) (set_bits U access_request) st)
                [0..<unat (rs_num_layers domain)] (0, masks))"

definition no_more_access :: "fs_rights \<Rightarrow> u16 list \<Rightarrow> u16 list \<Rightarrow> bool \<Rightarrow> u16 list \<Rightarrow> u16 list option \<Rightarrow> bool \<Rightarrow> bool" where
  "no_more_access U parent1 child1 child1_is_directory parent2 child2 child2_is_directory =
     list_all (\<lambda>b.
       let is_file_access = bit (ACCESS_FILE U) b
       in (child1_is_directory \<or> is_file_access \<longrightarrow> (parent1 ! b AND child1 ! b) OR parent2 ! b = parent2 ! b) \<and>
          (case child2 of
             None \<Rightarrow> True
           | Some c2 \<Rightarrow>
               (child2_is_directory \<or> is_file_access \<longrightarrow> (parent2 ! b AND c2 ! b) OR parent1 ! b = parent1 ! b)))
       [0..<LANDLOCK_NUM_ACCESS_FS U]"

definition scope_to_request :: "fs_rights \<Rightarrow> u16 \<Rightarrow> u16 list \<Rightarrow> bool \<times> u16 list" where
  "scope_to_request U access_request masks =
     (let masks = map (\<lambda>b. if bit access_request b then masks ! b else 0) [0..<LANDLOCK_NUM_ACCESS_FS U]
      in (list_all (\<lambda>m. m = 0) masks, masks))"

definition is_eacces :: "fs_rights \<Rightarrow> u16 list option \<Rightarrow> u16 \<Rightarrow> bool" where
  "is_eacces U layer_masks access_request =
     (case layer_masks of
        None \<Rightarrow> False
      | Some masks \<Rightarrow>
          list_ex (\<lambda>b. masks ! b \<noteq> 0) (set_bits U (access_request AND NOT (LANDLOCK_ACCESS_FS_REFER U))))"

section \<open>Walks\<close>

text \<open>Where a walk goes from a dentry: to its parent, past the mount points on the way, or to an end.\<close>

datatype walk_next = At mount dentry | Real_Root | Disconnected mount

partial_function (option) jump_up :: "vfs \<Rightarrow> mount \<Rightarrow> dentry \<Rightarrow> walk_next option" where
  "jump_up V m d =
     (if d = mnt_root V m
      then (case follow_up V m of Some (m', d') \<Rightarrow> jump_up V m' d' | None \<Rightarrow> Some Real_Root)
      else if d_parent V d = d then Some (Disconnected m)
      else Some (At m (d_parent V d)))"

text \<open>
  What a walk for one or two requests carries along: the masks of both, whether the check is still on
  the handled accesses of the domain, and the accesses that are looked at.
\<close>

record path_walk =
  layer_masks_parent1 :: "u16 list"
  layer_masks_parent2 :: "u16 list option"
  is_dom_check :: bool
  access_masked_parent1 :: u16
  access_masked_parent2 :: u16

text \<open>The requests, and the masks and kinds of the children that are moved.\<close>

record path_request =
  access_request_parent1 :: u16
  access_request_parent2 :: u16
  layer_masks_child1 :: "u16 list option"
  child1_is_directory :: bool
  layer_masks_child2 :: "u16 list option"
  child2_is_directory :: bool

text \<open>
  One turn of the loop up to the step to the parent: the answers for both requests, whether the loop
  ends, and the new state. The masks compared on a domain check are there when such a check is made.
\<close>

definition compare_domains :: "fs_rights \<Rightarrow> path_request \<Rightarrow> path_walk \<Rightarrow> bool \<times> path_walk" where
  "compare_domains U q w =
     (case (layer_masks_parent2 w, layer_masks_child1 q) of
        (Some parent2, Some child1) \<Rightarrow>
          if is_dom_check w \<and>
             no_more_access U (layer_masks_parent1 w) child1 (child1_is_directory q) parent2 (layer_masks_child2 q) (child2_is_directory q)
          then
            (let (allowed1, masks1) = scope_to_request U (access_request_parent1 q) (layer_masks_parent1 w);
                 (allowed2, masks2) = scope_to_request U (access_request_parent2 q) parent2;
                 w = w\<lparr>layer_masks_parent1 := masks1, layer_masks_parent2 := Some masks2\<rparr>
             in if allowed1 \<and> allowed2 then (True, w)
                else (False, w\<lparr>is_dom_check := False, access_masked_parent1 := access_request_parent1 q,
                               access_masked_parent2 := access_request_parent2 q\<rparr>))
          else (False, w)
      | _ \<Rightarrow> (False, w))"

definition visit_dentry ::
  "fs_rights \<Rightarrow> vfs \<Rightarrow> landlock_heap \<Rightarrow> landlock_ruleset \<Rightarrow> path_request \<Rightarrow> dentry \<Rightarrow> path_walk \<Rightarrow> bool \<times> bool \<times> path_walk" where
  "visit_dentry U V h domain q d w =
     (case compare_domains U q w of
        (True, w) \<Rightarrow> (True, True, w)
      | (False, w) \<Rightarrow>
          (let rule = find_rule V h domain d;
               (allowed1, masks1) = unmask_layers U rule (access_masked_parent1 w) (Some (layer_masks_parent1 w));
               (allowed2, masks2) = unmask_layers U rule (access_masked_parent2 w) (layer_masks_parent2 w)
           in (allowed1, allowed2, w\<lparr>layer_masks_parent1 := the masks1, layer_masks_parent2 := masks2\<rparr>)))"

partial_function (option) walk_paths ::
  "fs_rights \<Rightarrow> vfs \<Rightarrow> landlock_heap \<Rightarrow> landlock_ruleset \<Rightarrow> path_request \<Rightarrow> mount \<Rightarrow> dentry \<Rightarrow> path_walk \<Rightarrow> (bool \<times> path_walk) option" where
  "walk_paths U V h domain q m d w =
     (case visit_dentry U V h domain q d w of
        (allowed1, allowed2, w) \<Rightarrow>
          if allowed1 \<and> allowed2 then Some (True, w)
          else (case jump_up V m d of
                  None \<Rightarrow> None
                | Some Real_Root \<Rightarrow> Some (False, w)
                | Some (Disconnected m) \<Rightarrow> Some (mnt_internal V m, w)
                | Some (At m d) \<Rightarrow> walk_paths U V h domain q m d w))"

definition child_masks :: "fs_rights \<Rightarrow> vfs \<Rightarrow> landlock_heap \<Rightarrow> landlock_ruleset \<Rightarrow> dentry option \<Rightarrow> u16 list option" where
  "child_masks U V h domain p =
     (case p of
        None \<Rightarrow> None
      | Some d \<Rightarrow>
          (case init_layer_masks U domain (LANDLOCK_MASK_ACCESS_FS U) of
             (handled, masks) \<Rightarrow> snd (unmask_layers U (find_rule V h domain d) handled (Some masks))))"

text \<open>Returns the decision with both arrays of masks, as they are left.\<close>

definition is_access_to_paths_allowed ::
  "fs_rights \<Rightarrow> vfs \<Rightarrow> landlock_heap \<Rightarrow> landlock_ruleset \<Rightarrow> vpath \<Rightarrow> u16 \<Rightarrow> u16 list \<Rightarrow> dentry option \<Rightarrow>
   u16 \<Rightarrow> u16 list option \<Rightarrow> dentry option \<Rightarrow> (bool \<times> u16 list \<times> u16 list option) option" where
  "is_access_to_paths_allowed U V h domain path req1 masks1 child1 req2 masks2 child2 =
     (if req1 = 0 \<and> req2 = 0 then Some (True, masks1, masks2)
      else if is_nouser_or_private V (p_dentry path) then Some (True, masks1, masks2)
      else if rs_num_layers domain < 1 then Some (False, masks1, masks2)
      else if masks2 \<noteq> None \<and> child1 = None then Some (False, masks1, masks2)
      else if masks2 = None \<and> (child1 \<noteq> None \<or> child2 \<noteq> None) then Some (False, masks1, masks2)
      else
        (let double = (masks2 \<noteq> None);
             q = \<lparr>access_request_parent1 = req1, access_request_parent2 = req2,
                  layer_masks_child1 = child_masks U V h domain child1,
                  child1_is_directory = (case child1 of None \<Rightarrow> True | Some d \<Rightarrow> d_is_dir V d),
                  layer_masks_child2 = child_masks U V h domain child2,
                  child2_is_directory = (case child2 of None \<Rightarrow> True | Some d \<Rightarrow> d_is_dir V d)\<rparr>;
             w = \<lparr>layer_masks_parent1 = masks1, layer_masks_parent2 = masks2, is_dom_check = double,
                  access_masked_parent1 = (if double then get_handled_accesses U domain else req1),
                  access_masked_parent2 = (if double then get_handled_accesses U domain else req2)\<rparr>
         in case walk_paths U V h domain q (p_mnt path) (p_dentry path) w of
              None \<Rightarrow> None
            | Some (allowed, w) \<Rightarrow> Some (allowed, layer_masks_parent1 w, layer_masks_parent2 w)))"

section \<open>Checks of one path\<close>

definition check_access_path :: "fs_rights \<Rightarrow> vfs \<Rightarrow> landlock_heap \<Rightarrow> landlock_ruleset \<Rightarrow> vpath \<Rightarrow> u16 \<Rightarrow> rc option" where
  "check_access_path U V h domain path access_request =
     (case init_layer_masks U domain access_request of
        (handled, masks) \<Rightarrow>
          (case is_access_to_paths_allowed U V h domain path handled masks None 0 None None of
             None \<Rightarrow> None
           | Some (allowed, _) \<Rightarrow> Some (if allowed then OK else Err EACCES)))"

definition current_check_access_path :: "fs_rights \<Rightarrow> vfs \<Rightarrow> landlock_heap \<Rightarrow> landlock_ruleset option \<Rightarrow> vpath \<Rightarrow> u16 \<Rightarrow> rc option" where
  "current_check_access_path U V h cur path access_request =
     (case cur of None \<Rightarrow> Some OK | Some domain \<Rightarrow> check_access_path U V h domain path access_request)"

definition S_IFMT :: u16 where "S_IFMT = 0xf000"
definition S_IFDIR :: u16 where "S_IFDIR = 0x4000"

definition get_mode_access :: "fs_rights \<Rightarrow> u16 \<Rightarrow> u16" where
  "get_mode_access U mode =
     (let fmt = mode AND S_IFMT
      in if fmt = 0xa000 then LANDLOCK_ACCESS_FS_MAKE_SYM U
         else if fmt = S_IFDIR then LANDLOCK_ACCESS_FS_MAKE_DIR U
         else if fmt = 0x2000 then LANDLOCK_ACCESS_FS_MAKE_CHAR U
         else if fmt = 0x6000 then LANDLOCK_ACCESS_FS_MAKE_BLOCK U
         else if fmt = 0x1000 then LANDLOCK_ACCESS_FS_MAKE_FIFO U
         else if fmt = 0xc000 then LANDLOCK_ACCESS_FS_MAKE_SOCK U
         else LANDLOCK_ACCESS_FS_MAKE_REG U)"

definition maybe_remove :: "fs_rights \<Rightarrow> vfs \<Rightarrow> dentry \<Rightarrow> u16" where
  "maybe_remove U V d =
     (if d_backing_inode V d = None then 0
      else if d_is_dir V d then LANDLOCK_ACCESS_FS_REMOVE_DIR U
      else LANDLOCK_ACCESS_FS_REMOVE_FILE U)"

section \<open>Links and renames\<close>

partial_function (option) collect_walk ::
  "fs_rights \<Rightarrow> vfs \<Rightarrow> landlock_heap \<Rightarrow> landlock_ruleset \<Rightarrow> dentry \<Rightarrow> u16 \<Rightarrow> dentry \<Rightarrow> u16 list \<Rightarrow> (bool \<times> u16 list) option" where
  "collect_walk U V h domain root access_dom dir masks =
     (case unmask_layers U (find_rule V h domain dir) access_dom (Some masks) of
        (allowed, masks) \<Rightarrow>
          if allowed then Some (True, the masks)
          else if dir = root \<or> d_parent V dir = dir then Some (False, the masks)
          else collect_walk U V h domain root access_dom (d_parent V dir) (the masks))"

definition collect_domain_accesses ::
  "fs_rights \<Rightarrow> vfs \<Rightarrow> landlock_heap \<Rightarrow> landlock_ruleset \<Rightarrow> dentry \<Rightarrow> dentry \<Rightarrow> u16 list \<Rightarrow> (bool \<times> u16 list) option" where
  "collect_domain_accesses U V h domain root dir masks =
     (if is_nouser_or_private V dir then Some (True, masks)
      else case init_layer_masks U domain (LANDLOCK_MASK_ACCESS_FS U) of
             (access_dom, masks) \<Rightarrow> collect_walk U V h domain root access_dom dir masks)"

definition current_check_refer_path ::
  "fs_rights \<Rightarrow> vfs \<Rightarrow> landlock_heap \<Rightarrow> landlock_ruleset option \<Rightarrow> dentry \<Rightarrow> vpath \<Rightarrow> dentry \<Rightarrow> bool \<Rightarrow> bool \<Rightarrow> rc option" where
  "current_check_refer_path U V h cur old_dentry new_dir new_dentry removable exchange =
     (case cur of
        None \<Rightarrow> Some OK
      | Some domain \<Rightarrow>
          if rs_num_layers domain < 1 then Some (Err EACCES)
          else
            (case (d_backing_inode V old_dentry, if exchange then d_backing_inode V new_dentry else Some 0) of
               (Some old_inode, Some new_inode) \<Rightarrow>
                 (let req1 = (if exchange then get_mode_access U (i_mode V new_inode) else 0);
                      req2 = get_mode_access U (i_mode V old_inode);
                      req1 = (if removable then req1 OR maybe_remove U V old_dentry else req1);
                      req2 = (if removable then req2 OR maybe_remove U V new_dentry else req2);
                      zeros = replicate (LANDLOCK_NUM_ACCESS_FS U) 0
                  in if d_parent V old_dentry = p_dentry new_dir
                     then check_access_path U V h domain new_dir (req1 OR req2)
                     else
                       (let req1 = req1 OR LANDLOCK_ACCESS_FS_REFER U;
                            req2 = req2 OR LANDLOCK_ACCESS_FS_REFER U;
                            mnt_dir = \<lparr>p_mnt = p_mnt new_dir, p_dentry = mnt_root V (p_mnt new_dir)\<rparr>;
                            old_parent = (if old_dentry = p_dentry mnt_dir then old_dentry else d_parent V old_dentry)
                        in case (collect_domain_accesses U V h domain (p_dentry mnt_dir) old_parent zeros,
                                 collect_domain_accesses U V h domain (p_dentry mnt_dir) (p_dentry new_dir) zeros) of
                             (Some (allow_parent1, masks1), Some (allow_parent2, masks2)) \<Rightarrow>
                               if allow_parent1 \<and> allow_parent2 then Some OK
                               else
                                 (case is_access_to_paths_allowed U V h domain mnt_dir req1 masks1 (Some old_dentry)
                                         req2 (Some masks2) (if exchange then Some new_dentry else None) of
                                    None \<Rightarrow> None
                                  | Some (allowed, masks1, masks2) \<Rightarrow>
                                      if allowed then Some OK
                                      else if is_eacces U (Some masks1) req1 \<or> is_eacces U masks2 req2 then Some (Err EACCES)
                                      else Some (Err EXDEV))
                           | _ \<Rightarrow> None))
             | _ \<Rightarrow> Some (Err ENOENT)))"

section \<open>Hooks\<close>

definition deny_topology :: "landlock_ruleset option \<Rightarrow> rc" where
  "deny_topology cur = (if cur = None then OK else Err EPERM)"

definition hook_sb_mount :: "landlock_ruleset option \<Rightarrow> rc" where "hook_sb_mount cur = deny_topology cur"
definition hook_move_mount :: "landlock_ruleset option \<Rightarrow> rc" where "hook_move_mount cur = deny_topology cur"
definition hook_sb_umount :: "landlock_ruleset option \<Rightarrow> rc" where "hook_sb_umount cur = deny_topology cur"
definition hook_sb_remount :: "landlock_ruleset option \<Rightarrow> rc" where "hook_sb_remount cur = deny_topology cur"
definition hook_sb_pivotroot :: "landlock_ruleset option \<Rightarrow> rc" where "hook_sb_pivotroot cur = deny_topology cur"

definition hook_path_link :: "fs_rights \<Rightarrow> vfs \<Rightarrow> landlock_heap \<Rightarrow> landlock_ruleset option \<Rightarrow> dentry \<Rightarrow> vpath \<Rightarrow> dentry \<Rightarrow> rc option" where
  "hook_path_link U V h cur old_dentry new_dir new_dentry = current_check_refer_path U V h cur old_dentry new_dir new_dentry False False"

text \<open>The last argument tells whether the flags have \<open>RENAME_EXCHANGE\<close>.\<close>

definition hook_path_rename :: "fs_rights \<Rightarrow> vfs \<Rightarrow> landlock_heap \<Rightarrow> landlock_ruleset option \<Rightarrow> dentry \<Rightarrow> vpath \<Rightarrow> dentry \<Rightarrow> bool \<Rightarrow> rc option" where
  "hook_path_rename U V h cur old_dentry new_dir new_dentry exchange =
     current_check_refer_path U V h cur old_dentry new_dir new_dentry True exchange"

definition hook_path_mkdir :: "fs_rights \<Rightarrow> vfs \<Rightarrow> landlock_heap \<Rightarrow> landlock_ruleset option \<Rightarrow> vpath \<Rightarrow> rc option" where
  "hook_path_mkdir U V h cur dir = current_check_access_path U V h cur dir (LANDLOCK_ACCESS_FS_MAKE_DIR U)"

definition hook_path_mknod :: "fs_rights \<Rightarrow> vfs \<Rightarrow> landlock_heap \<Rightarrow> landlock_ruleset option \<Rightarrow> vpath \<Rightarrow> u16 \<Rightarrow> rc option" where
  "hook_path_mknod U V h cur dir mode =
     (case cur of None \<Rightarrow> Some OK | Some domain \<Rightarrow> check_access_path U V h domain dir (get_mode_access U mode))"

definition hook_path_symlink :: "fs_rights \<Rightarrow> vfs \<Rightarrow> landlock_heap \<Rightarrow> landlock_ruleset option \<Rightarrow> vpath \<Rightarrow> rc option" where
  "hook_path_symlink U V h cur dir = current_check_access_path U V h cur dir (LANDLOCK_ACCESS_FS_MAKE_SYM U)"

definition hook_path_unlink :: "fs_rights \<Rightarrow> vfs \<Rightarrow> landlock_heap \<Rightarrow> landlock_ruleset option \<Rightarrow> vpath \<Rightarrow> rc option" where
  "hook_path_unlink U V h cur dir = current_check_access_path U V h cur dir (LANDLOCK_ACCESS_FS_REMOVE_FILE U)"

definition hook_path_rmdir :: "fs_rights \<Rightarrow> vfs \<Rightarrow> landlock_heap \<Rightarrow> landlock_ruleset option \<Rightarrow> vpath \<Rightarrow> rc option" where
  "hook_path_rmdir U V h cur dir = current_check_access_path U V h cur dir (LANDLOCK_ACCESS_FS_REMOVE_DIR U)"

definition hook_path_truncate :: "fs_rights \<Rightarrow> vfs \<Rightarrow> landlock_heap \<Rightarrow> landlock_ruleset option \<Rightarrow> vpath \<Rightarrow> rc option" where
  "hook_path_truncate U V h cur path = current_check_access_path U V h cur path (LANDLOCK_ACCESS_FS_TRUNCATE U)"

text \<open>An open file: its path, the modes it is opened with and the accesses recorded for it.\<close>

record open_file =
  f_path :: vpath
  f_read :: bool
  f_write :: bool
  f_exec :: bool
  allowed_access :: u16

definition get_required_file_open_access :: "fs_rights \<Rightarrow> vfs \<Rightarrow> open_file \<Rightarrow> u16 option" where
  "get_required_file_open_access U V f = do {
     i \<leftarrow> d_backing_inode V (p_dentry (f_path f));
     Some (if f_read f \<and> i_mode V i AND S_IFMT = S_IFDIR then LANDLOCK_ACCESS_FS_READ_DIR U
           else (if f_read f then LANDLOCK_ACCESS_FS_READ_FILE U else 0) OR
                (if f_write f then LANDLOCK_ACCESS_FS_WRITE_FILE U else 0) OR
                (if f_exec f then LANDLOCK_ACCESS_FS_EXECUTE U else 0))
   }"

definition hook_file_alloc_security :: "fs_rights \<Rightarrow> open_file \<Rightarrow> rc \<times> open_file" where
  "hook_file_alloc_security U f = (OK, f\<lparr>allowed_access := LANDLOCK_MASK_ACCESS_FS U\<rparr>)"

definition hook_file_open :: "fs_rights \<Rightarrow> vfs \<Rightarrow> landlock_heap \<Rightarrow> landlock_ruleset option \<Rightarrow> open_file \<Rightarrow> (rc \<times> open_file) option" where
  "hook_file_open U V h cur f =
     (case cur of
        None \<Rightarrow> Some (OK, f)
      | Some domain \<Rightarrow> do {
          open_access_request \<leftarrow> get_required_file_open_access U V f;
          (let full_access_request = open_access_request OR LANDLOCK_ACCESS_FS_TRUNCATE U;
               (handled, masks) = init_layer_masks U domain full_access_request
           in case is_access_to_paths_allowed U V h domain (f_path f) handled masks None 0 None None of
                None \<Rightarrow> None
              | Some (allowed, masks, _) \<Rightarrow>
                  (let acc = (if allowed then full_access_request
                              else fold (\<lambda>b acc. if masks ! b = 0 then acc OR push_bit b 1 else acc) (set_bits U full_access_request) 0);
                       f = f\<lparr>allowed_access := acc\<rparr>
                   in Some (if open_access_request AND acc = open_access_request then OK else Err EACCES, f)))
        })"

definition hook_file_truncate :: "fs_rights \<Rightarrow> open_file \<Rightarrow> rc" where
  "hook_file_truncate U f = (if allowed_access f AND LANDLOCK_ACCESS_FS_TRUNCATE U \<noteq> 0 then OK else Err EACCES)"

section \<open>What masks say\<close>

text \<open>A layer denies an access right as long as its bit is set in the mask of the right.\<close>

definition denied :: "u16 list \<Rightarrow> nat \<Rightarrow> nat \<Rightarrow> bool" where
  "denied masks b l \<longleftrightarrow> b < length masks \<and> bit (masks ! b) l"

text \<open>The rule of a layer grants an access right.\<close>

definition layers_grant :: "landlock_layer list \<Rightarrow> nat \<Rightarrow> nat \<Rightarrow> bool" where
  "layers_grant ls b l \<longleftrightarrow> (\<exists>layer \<in> set ls. unat (ll_level layer) = Suc l \<and> bit (ll_access layer) b)"

definition handles :: "fs_rights \<Rightarrow> landlock_ruleset \<Rightarrow> nat \<Rightarrow> nat \<Rightarrow> bool" where
  "handles U domain b l \<longleftrightarrow> l < length (fs_access_masks domain) \<and> bit (fs_access_masks domain ! l OR ACCESS_INITIALLY_DENIED U) b"

lemma bit_clear: "bit (w AND NOT (2 ^ k)) l \<longleftrightarrow> bit w l \<and> l \<noteq> k" for w :: u16
  by (auto simp: bit_simps dest: bit_imp_le_length)

lemma bit_set: "k < 16 \<Longrightarrow> bit (w OR 2 ^ k) l \<longleftrightarrow> bit w l \<or> l = k" for w :: u16
  by (auto simp: bit_simps)

lemma mask_zero_iff: "w = 0 \<longleftrightarrow> (\<forall>l. \<not> bit w l)" for w :: u16
  by (metis bit_0_eq bit_eqI bot_apply bot_bool_def)

lemma set_set_bits: "b \<in> set (set_bits U req) \<longleftrightarrow> b < LANDLOCK_NUM_ACCESS_FS U \<and> bit req b"
  by (auto simp: set_bits_def)

lemma distinct_set_bits [simp]: "distinct (set_bits U req)"
  by (simp add: set_bits_def)

lemma num_le_16: "LANDLOCK_NUM_ACCESS_FS U \<le> 16"
  using length_filter_le [of "bit (LANDLOCK_MASK_ACCESS_FS U)" "[0..<16]"] by (simp add: LANDLOCK_NUM_ACCESS_FS_def)

text \<open>One layer clears its bit in the masks of the requested rights that it grants.\<close>

lemma unmask_bits:
  assumes "distinct bits" "\<forall>b \<in> set bits. b < length masks"
  shows "\<exists>masks'. fold (unmask_bit layer) bits (e, masks) = (e \<and> (\<forall>b \<in> set bits. masks' ! b = 0), masks') \<and> length masks' = length masks \<and>
    (\<forall>b < length masks. masks' ! b =
       (if b \<in> set bits \<and> bit (ll_access layer) b then masks ! b AND NOT (push_bit (unat (ll_level layer) - 1) 1) else masks ! b))"
  using assms
proof (induction bits arbitrary: e masks)
  case (Cons b bits)
  define m where "m = (if bit (ll_access layer) b then masks[b := masks ! b AND NOT (push_bit (unat (ll_level layer) - 1) 1)] else masks)"
  have step: "unmask_bit layer b (e, masks) = (e \<and> m ! b = 0, m)" by (simp add: unmask_bit_def m_def Let_def)
  have len: "length m = length masks" by (simp add: m_def)
  obtain m' where m': "fold (unmask_bit layer) bits (e \<and> m ! b = 0, m) = ((e \<and> m ! b = 0) \<and> (\<forall>b \<in> set bits. m' ! b = 0), m')"
      "length m' = length m" "\<forall>c < length m. m' ! c =
       (if c \<in> set bits \<and> bit (ll_access layer) c then m ! c AND NOT (push_bit (unat (ll_level layer) - 1) 1) else m ! c)"
    using Cons.IH [of m "e \<and> m ! b = 0"] Cons.prems len by auto
  have b: "b < length masks" "b \<notin> set bits" using Cons.prems by simp_all
  then have "m' ! b = m ! b" using m'(3) len by simp
  then show ?case
    using m' len b step by (intro exI [of _ m']) (auto simp: m_def nth_list_update)
qed simp

lemma unmask_loop_ok:
  assumes "distinct bits" "\<forall>b \<in> set bits. b < length masks" "\<forall>l \<in> set layers. 1 \<le> unat (ll_level l)"
  shows "\<exists>masks'. unmask_loop bits layers masks = (layers \<noteq> [] \<and> (\<forall>b \<in> set bits. masks' ! b = 0), masks') \<and> length masks' = length masks \<and>
    (\<forall>b l. denied masks' b l \<longleftrightarrow> denied masks b l \<and> \<not> (b \<in> set bits \<and> layers_grant layers b l))"
  using assms(2,3)
proof (induction layers arbitrary: masks)
  case (Cons layer layers)
  obtain m where m: "fold (unmask_bit layer) bits (True, masks) = (\<forall>b \<in> set bits. m ! b = 0, m)" "length m = length masks"
      "\<forall>b < length masks. m ! b =
       (if b \<in> set bits \<and> bit (ll_access layer) b then masks ! b AND NOT (push_bit (unat (ll_level layer) - 1) 1) else masks ! b)"
    using unmask_bits [OF assms(1) Cons.prems(1), of layer True] by auto
  have lev: "1 \<le> unat (ll_level layer)" using Cons.prems(2) by simp
  have den: "denied m b l \<longleftrightarrow> denied masks b l \<and> \<not> (b \<in> set bits \<and> unat (ll_level layer) = Suc l \<and> bit (ll_access layer) b)" for b l
    using m(2) m(3) [rule_format, of b] lev by (cases "b < length masks") (auto simp: denied_def bit_clear split: if_splits)
  show ?case
  proof (cases "\<forall>b \<in> set bits. m ! b = 0")
    case True
    then have "\<not> denied m b l" if "b \<in> set bits" for b l using that by (simp add: denied_def)
    then have "denied m b l \<longleftrightarrow> denied masks b l \<and> \<not> (b \<in> set bits \<and> layers_grant (layer # layers) b l)" for b l
      using den [of b l] by (auto simp: layers_grant_def)
    then show ?thesis using m(1,2) True by auto
  next
    case False
    obtain m' where "unmask_loop bits layers m = (layers \<noteq> [] \<and> (\<forall>b \<in> set bits. m' ! b = 0), m')" "length m' = length m"
        "\<forall>b l. denied m' b l \<longleftrightarrow> denied m b l \<and> \<not> (b \<in> set bits \<and> layers_grant layers b l)"
      using Cons.IH [of m] Cons.prems m(2) by auto
    moreover have "layers \<noteq> [] \<or> m' = m" using \<open>unmask_loop bits layers m = _\<close> by (cases layers) auto
    ultimately show ?thesis
      using m(1,2) False den by (intro exI [of _ m']) (auto simp: layers_grant_def)
  qed
qed (auto simp: layers_grant_def)

text \<open>The initial masks: every requested right is denied by the layers that handle it.\<close>

lemma init_bits:
  assumes "distinct bits" "\<forall>b \<in> set bits. b < length masks \<and> b < 16" "k < 16" "k < length (fs_access_masks domain)"
  shows "\<exists>handled' masks'. fold (init_bit U domain k) bits (handled, masks) = (handled', masks') \<and> length masks' = length masks \<and>
    (\<forall>b. bit handled' b \<longleftrightarrow> bit handled b \<or> b \<in> set bits \<and> handles U domain b k) \<and>
    (\<forall>b l. denied masks' b l \<longleftrightarrow> denied masks b l \<or> b \<in> set bits \<and> l = k \<and> handles U domain b k)"
  using assms(1,2)
proof (induction bits arbitrary: handled masks)
  case (Cons b bits)
  obtain hd1 m1 where 1: "init_bit U domain k b (handled, masks) = (hd1, m1)" by fastforce
  have b: "b < length masks" "b < 16" "b \<notin> set bits" using Cons.prems by simp_all
  have m1: "length m1 = length masks" "\<And>c. bit hd1 c \<longleftrightarrow> bit handled c \<or> c = b \<and> handles U domain b k"
      "\<And>c l. denied m1 c l \<longleftrightarrow> denied masks c l \<or> c = b \<and> l = k \<and> handles U domain b k"
    using 1 b assms(3,4) by (auto simp: init_bit_def handles_def denied_def bit_set nth_list_update split: if_splits)
  obtain hd2 m2 where "fold (init_bit U domain k) bits (hd1, m1) = (hd2, m2)" "length m2 = length m1"
      "\<forall>c. bit hd2 c \<longleftrightarrow> bit hd1 c \<or> c \<in> set bits \<and> handles U domain c k"
      "\<forall>c l. denied m2 c l \<longleftrightarrow> denied m1 c l \<or> c \<in> set bits \<and> l = k \<and> handles U domain c k"
    using Cons.IH [of m1 hd1] Cons.prems m1(1) by auto
  then show ?case using 1 m1 by auto
qed simp

lemma init_levels:
  assumes "\<forall>b \<in> set bits. b < length masks \<and> b < 16" "distinct bits" "n \<le> 16" "n \<le> length (fs_access_masks domain)"
  shows "\<exists>handled' masks'. fold (\<lambda>k st. fold (init_bit U domain k) bits st) [0..<n] (handled, masks) = (handled', masks') \<and> length masks' = length masks \<and>
    (\<forall>b. bit handled' b \<longleftrightarrow> bit handled b \<or> b \<in> set bits \<and> (\<exists>l < n. handles U domain b l)) \<and>
    (\<forall>b l. denied masks' b l \<longleftrightarrow> denied masks b l \<or> b \<in> set bits \<and> l < n \<and> handles U domain b l)"
  using assms(3,4)
proof (induction n)
  case (Suc n)
  then obtain hd1 m1 where 1: "fold (\<lambda>k st. fold (init_bit U domain k) bits st) [0..<n] (handled, masks) = (hd1, m1)" "length m1 = length masks"
      "\<forall>b. bit hd1 b \<longleftrightarrow> bit handled b \<or> b \<in> set bits \<and> (\<exists>l < n. handles U domain b l)"
      "\<forall>b l. denied m1 b l \<longleftrightarrow> denied masks b l \<or> b \<in> set bits \<and> l < n \<and> handles U domain b l"
    by auto
  obtain hd2 m2 where "fold (init_bit U domain n) bits (hd1, m1) = (hd2, m2)" "length m2 = length m1"
      "\<forall>c. bit hd2 c \<longleftrightarrow> bit hd1 c \<or> c \<in> set bits \<and> handles U domain c n"
      "\<forall>c l. denied m2 c l \<longleftrightarrow> denied m1 c l \<or> c \<in> set bits \<and> l = n \<and> handles U domain c n"
    using init_bits [OF assms(2), of m1 n domain U hd1] assms(1) 1(2) Suc.prems by auto
  then show ?case using 1 by (auto simp: less_Suc_eq)
qed simp

lemma init_layer_masks_ok:
  assumes "domain_ok domain"
  shows "\<exists>handled masks. init_layer_masks U domain req = (handled, masks) \<and> length masks = LANDLOCK_NUM_ACCESS_FS U \<and>
    (\<forall>b. bit handled b \<longleftrightarrow> b < LANDLOCK_NUM_ACCESS_FS U \<and> bit req b \<and> (\<exists>l. handles U domain b l)) \<and>
    (\<forall>b l. denied masks b l \<longleftrightarrow> b < LANDLOCK_NUM_ACCESS_FS U \<and> bit req b \<and> handles U domain b l)"
proof (cases "req = 0")
  case True
  then show ?thesis by (simp add: init_layer_masks_def denied_def)
next
  case False
  have n: "unat (rs_num_layers domain) = length (fs_access_masks domain)" "length (fs_access_masks domain) \<le> 16"
    using assms by (simp_all add: domain_ok_def LANDLOCK_MAX_NUM_LAYERS_def)
  let ?z = "replicate (LANDLOCK_NUM_ACCESS_FS U) (0 :: u16)"
  have bits: "\<forall>b \<in> set (set_bits U req). b < length ?z \<and> b < 16"
    using num_le_16 [of U] by (auto simp: set_set_bits)
  obtain hd m where 1: "fold (\<lambda>k st. fold (init_bit U domain k) (set_bits U req) st) [0..<unat (rs_num_layers domain)] (0, ?z) = (hd, m)"
      "length m = length ?z"
      "\<forall>b. bit hd b \<longleftrightarrow> bit (0 :: u16) b \<or> b \<in> set (set_bits U req) \<and> (\<exists>l < unat (rs_num_layers domain). handles U domain b l)"
      "\<forall>b l. denied m b l \<longleftrightarrow> denied ?z b l \<or> b \<in> set (set_bits U req) \<and> l < unat (rs_num_layers domain) \<and> handles U domain b l"
    using init_levels [OF bits distinct_set_bits, of "unat (rs_num_layers domain)" domain U 0] n by auto
  have "\<not> denied ?z b l" for b l by (simp add: denied_def)
  moreover have "handles U domain b l \<Longrightarrow> l < unat (rs_num_layers domain)" for b l using n(1) by (simp add: handles_def)
  ultimately have "(\<exists>l < unat (rs_num_layers domain). handles U domain b l) \<longleftrightarrow> (\<exists>l. handles U domain b l)"
      "\<not> denied ?z b l" "l < unat (rs_num_layers domain) \<and> handles U domain b l \<longleftrightarrow> handles U domain b l" for b l
    by blast+
  then show ?thesis
    using 1 False by (simp add: init_layer_masks_def set_set_bits)
qed

lemma init_layer_masksE:
  assumes "domain_ok domain"
  obtains handled masks where "init_layer_masks U domain req = (handled, masks)" "length masks = LANDLOCK_NUM_ACCESS_FS U"
    "\<forall>b. bit handled b \<longleftrightarrow> b < LANDLOCK_NUM_ACCESS_FS U \<and> bit req b \<and> (\<exists>l. handles U domain b l)"
    "\<forall>b l. denied masks b l \<longleftrightarrow> b < LANDLOCK_NUM_ACCESS_FS U \<and> bit req b \<and> handles U domain b l"
proof -
  obtain hd m where "init_layer_masks U domain req = (hd, m)" by fastforce
  then show thesis using init_layer_masks_ok [OF assms, of U req] by (intro that [of hd m]) simp_all
qed

section \<open>What rules on a path grant\<close>

definition dentry_layers :: "vfs \<Rightarrow> landlock_heap \<Rightarrow> landlock_ruleset \<Rightarrow> dentry \<Rightarrow> landlock_layer list" where
  "dentry_layers V h domain d =
     (case d_backing_inode V d of
        None \<Rightarrow> []
      | Some i \<Rightarrow> (case lh_inode_object h i of None \<Rightarrow> [] | Some ob \<Rightarrow> layers_of domain ob))"

definition grants :: "vfs \<Rightarrow> landlock_heap \<Rightarrow> landlock_ruleset \<Rightarrow> dentry \<Rightarrow> nat \<Rightarrow> nat \<Rightarrow> bool" where
  "grants V h domain d b l \<longleftrightarrow> layers_grant (dentry_layers V h domain d) b l"

lemma find_rule_layers:
  assumes "domain_ok domain"
  shows "(case find_rule V h domain d of None \<Rightarrow> [] | Some r \<Rightarrow> lr_layers r) = dentry_layers V h domain d"
    and "find_rule V h domain d = Some r \<Longrightarrow> lr_layers r \<noteq> [] \<and> (\<forall>l \<in> set (lr_layers r). 1 \<le> unat (ll_level l))"
proof -
  show "(case find_rule V h domain d of None \<Rightarrow> [] | Some r \<Rightarrow> lr_layers r) = dentry_layers V h domain d"
    by (simp add: find_rule_def dentry_layers_def landlock_find_rule_def layers_of_def split: option.splits)
  assume "find_rule V h domain d = Some r"
  then have r: "r \<in> set_tree (rs_root domain)"
    using assms walk_rule_iff by (auto simp: find_rule_def landlock_find_rule_def domain_ok_def rules_ok_def split: option.splits)
  have "rules_ok domain" "layers_ok (unat (rs_num_layers domain)) (layers_of domain (lr_object r))"
    using assms by (auto simp: domain_ok_def)
  then show "lr_layers r \<noteq> [] \<and> (\<forall>l \<in> set (lr_layers r). 1 \<le> unat (ll_level l))"
    using layers_of_rule [of domain r] r by (auto simp: rules_ok_def layers_ok_def)
qed

lemma unmask_layers_ok:
  assumes "domain_ok domain" "req \<noteq> 0" "length masks = LANDLOCK_NUM_ACCESS_FS U"
  shows "\<exists>masks'. unmask_layers U (find_rule V h domain d) req (Some masks) =
      (find_rule V h domain d \<noteq> None \<and> (\<forall>b \<in> set (set_bits U req). masks' ! b = 0), Some masks') \<and>
    length masks' = LANDLOCK_NUM_ACCESS_FS U \<and> (find_rule V h domain d = None \<longrightarrow> masks' = masks) \<and>
    (\<forall>b l. denied masks' b l \<longleftrightarrow> denied masks b l \<and> \<not> (bit req b \<and> grants V h domain d b l))"
proof (cases "find_rule V h domain d")
  case None
  then have "\<not> grants V h domain d b l" for b l
    using find_rule_layers(1) [OF assms(1), of V h d] by (auto simp: grants_def layers_grant_def)
  then show ?thesis using assms None by (simp add: unmask_layers_def)
next
  case (Some r)
  have gr: "grants V h domain d b l = layers_grant (lr_layers r) b l" for b l
    using find_rule_layers(1) [OF assms(1), of V h d] Some by (simp add: grants_def)
  have "\<forall>b \<in> set (set_bits U req). b < length masks" using assms(3) by (simp add: set_set_bits)
  then obtain m where m: "unmask_loop (set_bits U req) (lr_layers r) masks = (lr_layers r \<noteq> [] \<and> (\<forall>b \<in> set (set_bits U req). m ! b = 0), m)"
      "length m = length masks"
      "\<forall>b l. denied m b l \<longleftrightarrow> denied masks b l \<and> \<not> (b \<in> set (set_bits U req) \<and> layers_grant (lr_layers r) b l)"
    using unmask_loop_ok [of "set_bits U req" masks "lr_layers r"] find_rule_layers(2) [OF assms(1) Some] by auto
  then have "denied m b l \<longleftrightarrow> denied masks b l \<and> \<not> (bit req b \<and> grants V h domain d b l)" for b l
    using assms(3) by (auto simp: gr set_set_bits denied_def)
  then show ?thesis
    using Some m(1,2) assms(2,3) find_rule_layers(2) [OF assms(1) Some] by (auto simp: unmask_layers_def)
qed

lemma unmask_layersE:
  assumes "domain_ok domain" "req \<noteq> 0" "length masks = LANDLOCK_NUM_ACCESS_FS U"
  obtains masks' where "unmask_layers U (find_rule V h domain d) req (Some masks) =
      (find_rule V h domain d \<noteq> None \<and> (\<forall>b \<in> set (set_bits U req). masks' ! b = 0), Some masks')"
    "length masks' = LANDLOCK_NUM_ACCESS_FS U" "find_rule V h domain d = None \<longrightarrow> masks' = masks"
    "\<forall>b l. denied masks' b l \<longleftrightarrow> denied masks b l \<and> \<not> (bit req b \<and> grants V h domain d b l)"
proof -
  obtain m where "unmask_layers U (find_rule V h domain d) req (Some masks) =
      (find_rule V h domain d \<noteq> None \<and> (\<forall>b \<in> set (set_bits U req). m ! b = 0), Some m) \<and>
    length m = LANDLOCK_NUM_ACCESS_FS U \<and> (find_rule V h domain d = None \<longrightarrow> m = masks) \<and>
    (\<forall>b l. denied m b l \<longleftrightarrow> denied masks b l \<and> \<not> (bit req b \<and> grants V h domain d b l))"
    using unmask_layers_ok [OF assms, of V h d] ..
  then show thesis by (intro that [of m]) simp_all
qed

section \<open>Hierarchies of dentries\<close>

text \<open>File systems are trees: parents and mount points lead to a root.\<close>

definition vfs_ok :: "vfs \<Rightarrow> bool" where
  "vfs_ok V \<longleftrightarrow> (\<exists>dr mr. (\<forall>d. d_parent V d \<noteq> d \<longrightarrow> dr (d_parent V d) < (dr d :: nat)) \<and>
     (\<forall>m m' d. follow_up V m = Some (m', d) \<longrightarrow> mr m' < (mr m :: nat)))"

text \<open>The dentries a full walk visits, and where it ends.\<close>

inductive climbs :: "vfs \<Rightarrow> mount \<Rightarrow> dentry \<Rightarrow> dentry list \<Rightarrow> walk_next \<Rightarrow> bool" for V where
  root: "jump_up V m d = Some Real_Root \<Longrightarrow> climbs V m d [d] Real_Root"
| disconnected: "jump_up V m d = Some (Disconnected m') \<Longrightarrow> climbs V m d [d] (Disconnected m')"
| step: "jump_up V m d = Some (At m' d') \<Longrightarrow> climbs V m' d' ds e \<Longrightarrow> climbs V m d (d # ds) e"

lemma jump_up_total:
  assumes "\<forall>m m' d. follow_up V m = Some (m', d) \<longrightarrow> mr m' < (mr m :: nat)"
  shows "\<exists>n. jump_up V m d = Some n \<and>
    (\<forall>m' d'. n = At m' d' \<longrightarrow> mr m' < mr m \<or> m' = m \<and> d' = d_parent V d \<and> d_parent V d \<noteq> d)"
proof (induction "mr m" arbitrary: m d rule: less_induct)
  case less
  show ?case
  proof (cases "d = mnt_root V m \<and> follow_up V m \<noteq> None")
    case True
    then obtain m1 d1 where f: "follow_up V m = Some (m1, d1)" by auto
    then have lt: "mr m1 < mr m" using assms by blast
    obtain n where "jump_up V m1 d1 = Some n"
        "\<forall>m' d'. n = At m' d' \<longrightarrow> mr m' < mr m1 \<or> m' = m1 \<and> d' = d_parent V d1 \<and> d_parent V d1 \<noteq> d1"
      using less [OF lt] by blast
    then show ?thesis using True f lt by (subst jump_up.simps) fastforce
  next
    case False
    then show ?thesis by (subst jump_up.simps) (auto split: option.splits)
  qed
qed

lemma climbs_total:
  assumes "vfs_ok V"
  shows "\<exists>ds e. climbs V m d ds e"
proof -
  obtain dr mr where dr: "\<forall>d. d_parent V d \<noteq> d \<longrightarrow> dr (d_parent V d) < (dr d :: nat)"
      and mr: "\<forall>m m' d. follow_up V m = Some (m', d) \<longrightarrow> mr m' < (mr m :: nat)"
    using assms by (auto simp: vfs_ok_def)
  show ?thesis
  proof (induction "(mr m, dr d)" arbitrary: m d rule: wf_induct_rule [OF wf_lex_prod [OF wf_less_than wf_less_than]])
    case 1
    obtain n where n: "jump_up V m d = Some n"
        "\<forall>m' d'. n = At m' d' \<longrightarrow> mr m' < mr m \<or> m' = m \<and> d' = d_parent V d \<and> d_parent V d \<noteq> d"
      using jump_up_total [OF mr] by blast
    show ?case
    proof (cases n)
      case (At m' d')
      then have "((mr m', dr d'), (mr m, dr d)) \<in> less_than <*lex*> less_than" using n(2) dr by auto
      then show ?thesis using 1 n(1) At climbs.step by blast
    qed (use n(1) climbs.root climbs.disconnected in blast)+
  qed
qed

lemma climbs_head: "climbs V m d ds e \<Longrightarrow> d \<in> set ds"
  by (cases rule: climbs.cases) auto

definition internal_end :: "vfs \<Rightarrow> walk_next \<Rightarrow> bool" where
  "internal_end V e \<longleftrightarrow> (\<exists>m. e = Disconnected m \<and> mnt_internal V m)"

section \<open>One request\<close>

lemma visit_simple:
  assumes "layer_masks_parent2 w = None" "access_masked_parent2 w = 0"
  shows "visit_dentry U V h domain q d w =
    (case unmask_layers U (find_rule V h domain d) (access_masked_parent1 w) (Some (layer_masks_parent1 w)) of
       (al, masks) \<Rightarrow> (al, True, w\<lparr>layer_masks_parent1 := the masks\<rparr>))"
  using assms by (simp add: visit_dentry_def compare_domains_def unmask_layers_def split: prod.splits)

text \<open>All requested rights are granted in every layer that still denies them.\<close>

definition all_granted :: "fs_rights \<Rightarrow> vfs \<Rightarrow> landlock_heap \<Rightarrow> landlock_ruleset \<Rightarrow> u16 \<Rightarrow> u16 list \<Rightarrow> dentry list \<Rightarrow> bool" where
  "all_granted U V h domain req masks ds \<longleftrightarrow>
     (\<forall>b \<in> set (set_bits U req). \<forall>l. denied masks b l \<longrightarrow> (\<exists>d \<in> set ds. grants V h domain d b l))"

lemma denied_nonzero: "b < length masks \<Longrightarrow> masks ! b \<noteq> 0 \<Longrightarrow> \<exists>l. denied masks b l"
  using mask_zero_iff by (auto simp: denied_def)

lemma not_all_granted:
  assumes "\<forall>b l. denied masks' b l \<longleftrightarrow> denied masks b l \<and> \<not> (bit req b \<and> grants V h domain d b l)"
    and "\<exists>b \<in> set (set_bits U req). masks' ! b \<noteq> 0" "length masks' = LANDLOCK_NUM_ACCESS_FS U"
  shows "\<not> all_granted U V h domain req masks [d]"
proof -
  obtain b where b: "b \<in> set (set_bits U req)" "masks' ! b \<noteq> 0" using assms(2) by blast
  then obtain l where "denied masks' b l" using denied_nonzero [of b masks'] assms(3) by (auto simp: set_set_bits)
  then show ?thesis using b(1) assms(1) by (auto simp: all_granted_def set_set_bits)
qed

lemma all_granted_step:
  assumes "\<forall>b l. denied masks' b l \<longleftrightarrow> denied masks b l \<and> \<not> (bit req b \<and> grants V h domain d b l)"
  shows "all_granted U V h domain req masks (d # ds) \<longleftrightarrow> all_granted U V h domain req masks' ds"
  using assms by (auto simp: all_granted_def set_set_bits)

definition simple_walk :: "fs_rights \<Rightarrow> u16 \<Rightarrow> path_walk \<Rightarrow> bool" where
  "simple_walk U req w \<longleftrightarrow> length (layer_masks_parent1 w) = LANDLOCK_NUM_ACCESS_FS U \<and> layer_masks_parent2 w = None \<and>
     access_masked_parent1 w = req \<and> access_masked_parent2 w = 0 \<and> (\<exists>b \<in> set (set_bits U req). layer_masks_parent1 w ! b \<noteq> 0)"

lemma visit_simple_ok:
  assumes "simple_walk U req w" "domain_ok domain" "req \<noteq> 0"
  obtains al masks where "visit_dentry U V h domain q d w = (al, True, w\<lparr>layer_masks_parent1 := masks\<rparr>)"
    "\<forall>b l. denied masks b l \<longleftrightarrow> denied (layer_masks_parent1 w) b l \<and> \<not> (bit req b \<and> grants V h domain d b l)"
    "length masks = LANDLOCK_NUM_ACCESS_FS U" "al \<Longrightarrow> all_granted U V h domain req (layer_masks_parent1 w) [d]"
    "\<not> al \<Longrightarrow> simple_walk U req (w\<lparr>layer_masks_parent1 := masks\<rparr>)"
proof -
  have w: "length (layer_masks_parent1 w) = LANDLOCK_NUM_ACCESS_FS U" "layer_masks_parent2 w = None" "access_masked_parent2 w = 0"
      "access_masked_parent1 w = req" "\<exists>b \<in> set (set_bits U req). layer_masks_parent1 w ! b \<noteq> 0"
    using assms(1) by (simp_all add: simple_walk_def)
  obtain m where m: "unmask_layers U (find_rule V h domain d) req (Some (layer_masks_parent1 w)) =
      (find_rule V h domain d \<noteq> None \<and> (\<forall>b \<in> set (set_bits U req). m ! b = 0), Some m)"
      "length m = LANDLOCK_NUM_ACCESS_FS U" "find_rule V h domain d = None \<longrightarrow> m = layer_masks_parent1 w"
      "\<forall>b l. denied m b l \<longleftrightarrow> denied (layer_masks_parent1 w) b l \<and> \<not> (bit req b \<and> grants V h domain d b l)"
    by (rule unmask_layersE [OF assms(2,3) w(1)])
  let ?al = "find_rule V h domain d \<noteq> None \<and> (\<forall>b \<in> set (set_bits U req). m ! b = 0)"
  have "all_granted U V h domain req (layer_masks_parent1 w) [d]" if "?al"
  proof -
    have "\<not> denied m b l" if "b \<in> set (set_bits U req)" for b l using \<open>?al\<close> that by (simp add: denied_def)
    then show ?thesis using m(4) by (auto simp: all_granted_def set_set_bits)
  qed
  moreover have "simple_walk U req (w\<lparr>layer_masks_parent1 := m\<rparr>)" if "\<not> ?al"
    using m(2,3) w that by (auto simp: simple_walk_def)
  ultimately show thesis
    using that [of ?al m] m visit_simple [OF w(2,3)] w(4) by simp
qed

lemma walk_simple:
  assumes "climbs V m d ds e" "domain_ok domain" "req \<noteq> 0" "simple_walk U req w"
  shows "\<exists>al w'. walk_paths U V h domain q m d w = Some (al, w') \<and> length (layer_masks_parent1 w') = LANDLOCK_NUM_ACCESS_FS U \<and>
    (al \<longleftrightarrow> internal_end V e \<or> all_granted U V h domain req (layer_masks_parent1 w) ds) \<and>
    (\<not> al \<longrightarrow> (\<forall>b l. denied (layer_masks_parent1 w') b l \<longleftrightarrow>
       denied (layer_masks_parent1 w) b l \<and> \<not> (bit req b \<and> (\<exists>d \<in> set ds. grants V h domain d b l))))"
  using assms(1,4)
proof (induction arbitrary: w rule: climbs.induct)
  case (root m d)
  show ?case
  proof (rule visit_simple_ok [OF root(2) assms(2,3), of V h q d])
    fix al masks
    assume v: "visit_dentry U V h domain q d w = (al, True, w\<lparr>layer_masks_parent1 := masks\<rparr>)"
      "\<forall>b l. denied masks b l \<longleftrightarrow> denied (layer_masks_parent1 w) b l \<and> \<not> (bit req b \<and> grants V h domain d b l)"
      "length masks = LANDLOCK_NUM_ACCESS_FS U" "al \<Longrightarrow> all_granted U V h domain req (layer_masks_parent1 w) [d]"
      "\<not> al \<Longrightarrow> simple_walk U req (w\<lparr>layer_masks_parent1 := masks\<rparr>)"
    show ?thesis
      using v root(1) not_all_granted [OF v(2) _ v(3)]
      by (cases al) (auto simp: walk_paths.simps [of U V h domain q m d] internal_end_def simple_walk_def)
  qed
next
  case (disconnected m d m')
  show ?case
  proof (rule visit_simple_ok [OF disconnected(2) assms(2,3), of V h q d])
    fix al masks
    assume v: "visit_dentry U V h domain q d w = (al, True, w\<lparr>layer_masks_parent1 := masks\<rparr>)"
      "\<forall>b l. denied masks b l \<longleftrightarrow> denied (layer_masks_parent1 w) b l \<and> \<not> (bit req b \<and> grants V h domain d b l)"
      "length masks = LANDLOCK_NUM_ACCESS_FS U" "al \<Longrightarrow> all_granted U V h domain req (layer_masks_parent1 w) [d]"
      "\<not> al \<Longrightarrow> simple_walk U req (w\<lparr>layer_masks_parent1 := masks\<rparr>)"
    show ?thesis
      using v disconnected(1) not_all_granted [OF v(2) _ v(3)]
      by (cases al) (auto simp: walk_paths.simps [of U V h domain q m d] internal_end_def simple_walk_def)
  qed
next
  case (step m d m' d' ds e)
  show ?case
  proof (rule visit_simple_ok [OF step.prems assms(2,3), of V h q d])
    fix al masks
    assume v: "visit_dentry U V h domain q d w = (al, True, w\<lparr>layer_masks_parent1 := masks\<rparr>)"
      "\<forall>b l. denied masks b l \<longleftrightarrow> denied (layer_masks_parent1 w) b l \<and> \<not> (bit req b \<and> grants V h domain d b l)"
      "length masks = LANDLOCK_NUM_ACCESS_FS U" "al \<Longrightarrow> all_granted U V h domain req (layer_masks_parent1 w) [d]"
      "\<not> al \<Longrightarrow> simple_walk U req (w\<lparr>layer_masks_parent1 := masks\<rparr>)"
    show ?thesis
    proof (cases al)
      case True
      then show ?thesis
        using v by (auto simp: walk_paths.simps [of U V h domain q m d] all_granted_def)
    next
      case False
      have "walk_paths U V h domain q m d w = walk_paths U V h domain q m' d' (w\<lparr>layer_masks_parent1 := masks\<rparr>)"
        using v(1) False step(1) by (simp add: walk_paths.simps [of U V h domain q m d])
      then show ?thesis
        using step.IH [OF v(5) [OF False]] v(2) by (auto simp: all_granted_step [OF v(2)])
    qed
  qed
qed

text \<open>
  The meaning of a domain on a path: a right is granted when each layer that handles it has a rule on the
  way to the root that grants it. Some file systems are exempt from all checks.
\<close>

definition right_granted :: "fs_rights \<Rightarrow> vfs \<Rightarrow> landlock_heap \<Rightarrow> landlock_ruleset \<Rightarrow> dentry list \<Rightarrow> nat \<Rightarrow> bool" where
  "right_granted U V h domain ds b \<longleftrightarrow> (\<forall>l. handles U domain b l \<longrightarrow> (\<exists>d \<in> set ds. grants V h domain d b l))"

definition request_granted :: "fs_rights \<Rightarrow> vfs \<Rightarrow> landlock_heap \<Rightarrow> landlock_ruleset \<Rightarrow> dentry list \<Rightarrow> u16 \<Rightarrow> bool" where
  "request_granted U V h domain ds req \<longleftrightarrow> (\<forall>b \<in> set (set_bits U req). right_granted U V h domain ds b)"

definition exempt :: "vfs \<Rightarrow> vpath \<Rightarrow> walk_next \<Rightarrow> bool" where
  "exempt V path e \<longleftrightarrow> is_nouser_or_private V (p_dentry path) \<or> internal_end V e"

lemma simple_request:
  assumes "domain_ok domain" "climbs V (p_mnt path) (p_dentry path) ds e"
  obtains handled masks al masks' m2 where "init_layer_masks U domain req = (handled, masks)"
    "is_access_to_paths_allowed U V h domain path handled masks None 0 None None = Some (al, masks', m2)"
    "al \<longleftrightarrow> exempt V path e \<or> request_granted U V h domain ds req"
    "\<not> al \<Longrightarrow> \<forall>b \<in> set (set_bits U req). masks' ! b = 0 \<longleftrightarrow> right_granted U V h domain ds b"
proof -
  obtain handled masks where i: "init_layer_masks U domain req = (handled, masks)" "length masks = LANDLOCK_NUM_ACCESS_FS U"
      "\<forall>b. bit handled b \<longleftrightarrow> b < LANDLOCK_NUM_ACCESS_FS U \<and> bit req b \<and> (\<exists>l. handles U domain b l)"
      "\<forall>b l. denied masks b l \<longleftrightarrow> b < LANDLOCK_NUM_ACCESS_FS U \<and> bit req b \<and> handles U domain b l"
    by (rule init_layer_masksE [OF assms(1)])
  have num: "\<not> rs_num_layers domain < 1" using assms(1) by (auto simp: domain_ok_def word_less_nat_alt)
  have granted: "all_granted U V h domain handled masks ds \<longleftrightarrow> request_granted U V h domain ds req"
    using i(3,4) by (auto simp: all_granted_def request_granted_def right_granted_def set_set_bits)
  show thesis
  proof (cases "handled = 0 \<or> is_nouser_or_private V (p_dentry path)")
    case True
    have "request_granted U V h domain ds req" if "handled = 0"
      using i(3) that by (auto simp: request_granted_def right_granted_def set_set_bits)
    then show thesis
      using True by (intro that [OF i(1), of True masks None]) (auto simp: is_access_to_paths_allowed_def exempt_def)
  next
    case False
    then obtain b where b: "bit handled b" using mask_zero_iff by blast
    then obtain l where "denied masks b l" using i(3,4) by blast
    then have "masks ! b \<noteq> 0" by (auto simp: denied_def)
    moreover have "b \<in> set (set_bits U handled)" using b i(3) by (simp add: set_set_bits)
    ultimately have nz: "\<exists>b \<in> set (set_bits U handled). masks ! b \<noteq> 0" by blast
    let ?q = "\<lparr>access_request_parent1 = handled, access_request_parent2 = 0, layer_masks_child1 = None, child1_is_directory = True,
      layer_masks_child2 = None, child2_is_directory = True\<rparr>"
    let ?w = "\<lparr>layer_masks_parent1 = masks, layer_masks_parent2 = None, is_dom_check = False,
      access_masked_parent1 = handled, access_masked_parent2 = 0\<rparr>"
    have "simple_walk U handled ?w" using i(2) nz by (simp add: simple_walk_def)
    then obtain al w' where w: "walk_paths U V h domain ?q (p_mnt path) (p_dentry path) ?w = Some (al, w')"
        "length (layer_masks_parent1 w') = LANDLOCK_NUM_ACCESS_FS U"
        "al \<longleftrightarrow> internal_end V e \<or> all_granted U V h domain handled masks ds"
        "\<not> al \<longrightarrow> (\<forall>b l. denied (layer_masks_parent1 w') b l \<longleftrightarrow> denied masks b l \<and> \<not> (bit handled b \<and> (\<exists>d \<in> set ds. grants V h domain d b l)))"
      using walk_simple [OF assms(2,1) _ \<open>simple_walk U handled ?w\<close>, of h ?q] False by auto
    have masks': "layer_masks_parent1 w' ! b = 0 \<longleftrightarrow> right_granted U V h domain ds b" if "\<not> al" "b \<in> set (set_bits U req)" for b
    proof -
      have "layer_masks_parent1 w' ! b = 0 \<longleftrightarrow> (\<forall>l. \<not> denied (layer_masks_parent1 w') b l)"
        using w(2) that(2) by (auto simp: denied_def set_set_bits mask_zero_iff)
      then show ?thesis using w(4) i(3,4) that by (auto simp: right_granted_def set_set_bits)
    qed
    have "is_access_to_paths_allowed U V h domain path handled masks None 0 None None = Some (al, layer_masks_parent1 w', layer_masks_parent2 w')"
      using False num w(1) by (simp add: is_access_to_paths_allowed_def child_masks_def Let_def)
    then show thesis
      using w(3) masks' False granted by (intro that [OF i(1), of al "layer_masks_parent1 w'"]) (auto simp: exempt_def)
  qed
qed

lemma check_access_path_ok:
  assumes "domain_ok domain" "climbs V (p_mnt path) (p_dentry path) ds e"
  shows "check_access_path U V h domain path req =
    Some (if exempt V path e \<or> request_granted U V h domain ds req then OK else Err EACCES)"
  by (rule simple_request [OF assms, of U req h]) (simp add: check_access_path_def)

section \<open>Stacked domains\<close>

text \<open>A ruleset by itself, as it restricts when it is the last layer.\<close>

definition ruleset_grants :: "fs_rights \<Rightarrow> vfs \<Rightarrow> landlock_heap \<Rightarrow> landlock_ruleset \<Rightarrow> dentry list \<Rightarrow> u16 \<Rightarrow> bool" where
  "ruleset_grants U V h rs ds req \<longleftrightarrow>
     (\<forall>b \<in> set (set_bits U req). bit (fs_access_masks rs ! 0 OR ACCESS_INITIALLY_DENIED U) b \<longrightarrow>
        (\<exists>d \<in> set ds. \<exists>layer \<in> set (dentry_layers V h rs d). bit (ll_access layer) b))"

lemma layers_grant_append: "layers_grant (xs @ ys) b l \<longleftrightarrow> layers_grant xs b l \<or> layers_grant ys b l"
  by (auto simp: layers_grant_def)

lemma layers_grant_new:
  assumes "n < LANDLOCK_MAX_NUM_LAYERS"
  shows "layers_grant (new_layer rs (Suc n) ob) b l \<longleftrightarrow> l = n \<and> (\<exists>layer \<in> set (layers_of rs ob). bit (ll_access layer) b)"
proof -
  have "unat (of_nat (Suc n) :: u16) = Suc n"
    using assms by (simp add: LANDLOCK_MAX_NUM_LAYERS_def take_bit_nat_eq_self unat_of_nat del: of_nat_Suc)
  then show ?thesis by (auto simp: layers_grant_def new_layer_def simp del: of_nat_Suc)
qed

lemma layers_grant_bound: "layers_ok n ls \<Longrightarrow> layers_grant ls b l \<Longrightarrow> l < n"
  by (auto simp: layers_ok_def layers_grant_def)

lemma merged_handles:
  assumes "fs_access_masks d = parent_masks p @ fs_access_masks src" "length (fs_access_masks src) = 1"
  shows "handles U d b l \<longleftrightarrow>
    (l < length (parent_masks p) \<and> bit (parent_masks p ! l OR ACCESS_INITIALLY_DENIED U) b) \<or>
    (l = length (parent_masks p) \<and> bit (fs_access_masks src ! 0 OR ACCESS_INITIALLY_DENIED U) b)"
  using assms by (auto simp: handles_def nth_append less_Suc_eq)

lemma dentry_layers_cases:
  obtains (none) "\<And>dm. dentry_layers V h dm de = []" | (some) a where "\<And>dm. dentry_layers V h dm de = layers_of dm a"
proof (cases "d_backing_inode V de")
  case None
  then show thesis by (intro none) (simp add: dentry_layers_def)
next
  case (Some i)
  then show thesis using none some by (cases "lh_inode_object h i") (simp_all add: dentry_layers_def)
qed

lemma merged_grants:
  assumes "\<forall>ob. layers_of d ob = parent_layers p ob @ new_layer src (Suc n) ob" "n < LANDLOCK_MAX_NUM_LAYERS"
    and "\<forall>ob. layers_ok n (parent_layers p ob)"
  shows "layers_grant (dentry_layers V h d de) b l \<longleftrightarrow>
    (if l < n then \<exists>q. p = Some q \<and> layers_grant (dentry_layers V h q de) b l
     else l = n \<and> (\<exists>layer \<in> set (dentry_layers V h src de). bit (ll_access layer) b))"
proof -
  have ob: "layers_grant (layers_of d ob) b l \<longleftrightarrow>
    (if l < n then layers_grant (parent_layers p ob) b l else l = n \<and> (\<exists>layer \<in> set (layers_of src ob). bit (ll_access layer) b))" for ob
    using assms layers_grant_bound [of n "parent_layers p ob" b l]
    by (auto simp: layers_grant_append layers_grant_new)
  show ?thesis
  proof (cases rule: dentry_layers_cases [of V h de])
    case none
    then show ?thesis by (simp add: layers_grant_def)
  next
    case (some a)
    then show ?thesis using ob [of a] by (auto simp: parent_layers_def layers_grant_def split: option.splits)
  qed
qed

lemma all_levels: "(\<forall>l. if l < n then Q l else l = n \<longrightarrow> S) \<longleftrightarrow> (\<forall>l < n. Q l) \<and> S" for n :: nat
  by (metis less_irrefl)

lemma merged_request:
  assumes "merged p src h M (Inr d) h'" "ruleset_ok src" "\<And>q. p = Some q \<Longrightarrow> domain_ok q"
  shows "request_granted U V k d ds req \<longleftrightarrow>
    (case p of None \<Rightarrow> True | Some q \<Rightarrow> request_granted U V k q ds req) \<and> ruleset_grants U V k src ds req"
proof -
  let ?n = "length (parent_masks p)"
  have m: "fs_access_masks d = parent_masks p @ fs_access_masks src" "domain_ok d"
      "\<forall>ob. layers_of d ob = parent_layers p ob @ new_layer src (length (fs_access_masks d)) ob"
    using assms(1) by (simp_all add: merged_def)
  have one: "length (fs_access_masks src) = 1" using assms(2) by (simp add: ruleset_ok_def)
  have n: "length (fs_access_masks d) = Suc ?n" "?n < LANDLOCK_MAX_NUM_LAYERS" using m(1,2) one by (simp_all add: domain_ok_def)
  have lay: "\<forall>ob. layers_ok ?n (parent_layers p ob)"
    using assms(3) by (auto simp: parent_layers_def parent_masks_def domain_ok_def layers_ok_def split: option.splits)
  note gr = merged_grants [OF m(3) [unfolded n(1)] n(2) lay]
  have "right_granted U V k d ds b \<longleftrightarrow>
      (case p of None \<Rightarrow> True | Some q \<Rightarrow> right_granted U V k q ds b) \<and>
      (bit (fs_access_masks src ! 0 OR ACCESS_INITIALLY_DENIED U) b \<longrightarrow>
        (\<exists>de \<in> set ds. \<exists>layer \<in> set (dentry_layers V k src de). bit (ll_access layer) b))" for b
  proof (cases p)
    case None
    then show ?thesis
      unfolding right_granted_def grants_def gr merged_handles [OF m(1) one] by (auto simp: parent_masks_def)
  next
    case (Some q)
    then have pm: "parent_masks p = fs_access_masks q" by (simp add: parent_masks_def)
    let ?s = "bit (fs_access_masks src ! 0 OR ACCESS_INITIALLY_DENIED U) b"
    let ?g = "\<exists>de \<in> set ds. \<exists>layer \<in> set (dentry_layers V k src de). bit (ll_access layer) b"
    have "(handles U d b l \<longrightarrow> (\<exists>de \<in> set ds. grants V k d de b l)) \<longleftrightarrow>
        (if l < length (fs_access_masks q) then handles U q b l \<longrightarrow> (\<exists>de \<in> set ds. grants V k q de b l)
         else l = length (fs_access_masks q) \<longrightarrow> ?s \<longrightarrow> ?g)" for l
      unfolding grants_def gr merged_handles [OF m(1) one] pm by (auto simp: handles_def Some)
    then have "right_granted U V k d ds b \<longleftrightarrow>
        (\<forall>l < length (fs_access_masks q). handles U q b l \<longrightarrow> (\<exists>de \<in> set ds. grants V k q de b l)) \<and> (?s \<longrightarrow> ?g)"
      unfolding right_granted_def by (simp only: all_levels)
    moreover have "(\<forall>l < length (fs_access_masks q). handles U q b l \<longrightarrow> G l) \<longleftrightarrow> (\<forall>l. handles U q b l \<longrightarrow> G l)" for G
      by (auto simp: handles_def)
    ultimately show ?thesis by (simp add: Some right_granted_def)
  qed
  then show ?thesis
    by (auto simp: request_granted_def ruleset_grants_def split: option.splits)
qed

section \<open>Two requests\<close>

lemma walk_total: "climbs V m d ds e \<Longrightarrow> \<exists>r. walk_paths U V h domain q m d w = Some r"
proof (induction arbitrary: w rule: climbs.induct)
  case (step m d m' d' ds e)
  obtain a1 a2 w' where v: "visit_dentry U V h domain q d w = (a1, a2, w')" by (metis prod_cases3)
  show ?case using step.IH [of w'] step(1) v by (auto simp: walk_paths.simps [of U V h domain q m d])
next
  case (root m d)
  then show ?case by (subst walk_paths.simps) (auto split: prod.splits)
next
  case (disconnected m d m')
  then show ?case by (subst walk_paths.simps) (auto split: prod.splits)
qed

lemma get_handled_accesses_bits:
  assumes "domain_ok domain"
  shows "bit (get_handled_accesses U domain) b \<longleftrightarrow> bit (LANDLOCK_MASK_ACCESS_FS U) b \<and> (\<exists>l. handles U domain b l)"
proof -
  have n: "unat (rs_num_layers domain) = length (fs_access_masks domain)" "0 < length (fs_access_masks domain)"
    using assms by (auto simp: domain_ok_def)
  have "bit (fold (\<lambda>k acc. acc OR fs_access_masks domain ! k) [0..<n] a) b \<longleftrightarrow> bit a b \<or> (\<exists>l < n. bit (fs_access_masks domain ! l) b)" for n and a :: u16
    by (induction n) (auto simp: bit_or_iff less_Suc_eq)
  then show ?thesis
    using n by (auto simp: get_handled_accesses_def handles_def bit_and_iff bit_or_iff)
qed

text \<open>
  What a comparison of two hierarchies settles: a right that the first parent and the child deny, and no
  rule further up grants, is denied by the second parent.
\<close>

definition covered :: "fs_rights \<Rightarrow> vfs \<Rightarrow> landlock_heap \<Rightarrow> landlock_ruleset \<Rightarrow> u16 list \<Rightarrow> u16 list \<Rightarrow> bool \<Rightarrow> u16 list \<Rightarrow> dentry list \<Rightarrow> bool" where
  "covered U V h domain m1 c isdir m2 ds \<longleftrightarrow>
     (\<forall>b l. b < LANDLOCK_NUM_ACCESS_FS U \<longrightarrow> isdir \<or> bit (ACCESS_FILE U) b \<longrightarrow> denied m1 b l \<longrightarrow> denied c b l \<longrightarrow>
        \<not> (\<exists>d \<in> set ds. grants V h domain d b l) \<longrightarrow> denied m2 b l)"

lemma mask_subset: "x OR y = y \<longleftrightarrow> (\<forall>l. bit x l \<longrightarrow> bit y l)" for x y :: u16
proof
  assume a: "x OR y = y"
  have "bit y l" if "bit x l" for l using arg_cong [OF a, of "\<lambda>w. bit w l"] that by (simp add: bit_or_iff)
  then show "\<forall>l. bit x l \<longrightarrow> bit y l" by blast
next
  assume "\<forall>l. bit x l \<longrightarrow> bit y l"
  then show "x OR y = y" by (intro bit_eqI) (auto simp: bit_or_iff)
qed

lemma no_more_access_covered:
  assumes "no_more_access U m1 c1 dir1 m2 c2 dir2" "length m1 = LANDLOCK_NUM_ACCESS_FS U" "length m2 = LANDLOCK_NUM_ACCESS_FS U"
  shows "covered U V h domain m1 c1 dir1 m2 ds" "c2 = Some c \<Longrightarrow> covered U V h domain m2 c dir2 m1 ds"
  using assms by (auto simp: no_more_access_def covered_def list_all_iff denied_def mask_subset bit_and_iff Let_def split: option.splits)

lemma covered_step:
  assumes "covered U V h domain m1' c isdir m2' ds"
    and "\<forall>b l. denied m1' b l \<longleftrightarrow> denied m1 b l \<and> \<not> (bit req b \<and> grants V h domain d b l)"
    and "\<forall>b l. denied m2' b l \<longleftrightarrow> denied m2 b l \<and> \<not> (bit req b \<and> grants V h domain d b l)"
  shows "covered U V h domain m1 c isdir m2 (d # ds)"
  unfolding covered_def
proof (intro allI impI)
  fix b l
  assume a: "b < LANDLOCK_NUM_ACCESS_FS U" "isdir \<or> bit (ACCESS_FILE U) b" "denied m1 b l" "denied c b l"
    "\<not> (\<exists>d' \<in> set (d # ds). grants V h domain d' b l)"
  then have "denied m1' b l" using assms(2) by simp
  then have "denied m2' b l" using assms(1) a unfolding covered_def by (metis list.set_intros(2))
  then show "denied m2 b l" using assms(3) by simp
qed

text \<open>The walk while the domains are compared.\<close>

definition double_walk :: "fs_rights \<Rightarrow> u16 \<Rightarrow> path_walk \<Rightarrow> u16 list \<Rightarrow> bool" where
  "double_walk U handled w m2 \<longleftrightarrow> length (layer_masks_parent1 w) = LANDLOCK_NUM_ACCESS_FS U \<and>
     layer_masks_parent2 w = Some m2 \<and> length m2 = LANDLOCK_NUM_ACCESS_FS U \<and> is_dom_check w \<and>
     access_masked_parent1 w = handled \<and> access_masked_parent2 w = handled \<and>
     (\<forall>b l. denied (layer_masks_parent1 w) b l \<longrightarrow> bit handled b) \<and> (\<forall>b l. denied m2 b l \<longrightarrow> bit handled b)"

definition both_covered :: "fs_rights \<Rightarrow> vfs \<Rightarrow> landlock_heap \<Rightarrow> landlock_ruleset \<Rightarrow> path_request \<Rightarrow> u16 list \<Rightarrow> u16 list \<Rightarrow> dentry list \<Rightarrow> bool" where
  "both_covered U V h domain q m1 m2 ds \<longleftrightarrow>
     (\<forall>c. layer_masks_child1 q = Some c \<longrightarrow> covered U V h domain m1 c (child1_is_directory q) m2 ds) \<and>
     (\<forall>c. layer_masks_child2 q = Some c \<longrightarrow> covered U V h domain m2 c (child2_is_directory q) m1 ds)"

lemma visit_double:
  assumes "double_walk U handled w m2" "domain_ok domain" "handled \<noteq> 0" "layer_masks_child1 q = Some c1"
    and "visit_dentry U V h domain q d w = (a1, a2, w')"
  shows "(\<forall>ds. both_covered U V h domain q (layer_masks_parent1 w) m2 ds) \<or>
    (a1 \<and> a2 \<longrightarrow> both_covered U V h domain q (layer_masks_parent1 w) m2 [d]) \<and>
    (\<exists>m2'. double_walk U handled w' m2' \<and>
      (\<forall>b l. denied (layer_masks_parent1 w') b l \<longleftrightarrow> denied (layer_masks_parent1 w) b l \<and> \<not> (bit handled b \<and> grants V h domain d b l)) \<and>
      (\<forall>b l. denied m2' b l \<longleftrightarrow> denied m2 b l \<and> \<not> (bit handled b \<and> grants V h domain d b l)))"
proof (cases "no_more_access U (layer_masks_parent1 w) c1 (child1_is_directory q) m2 (layer_masks_child2 q) (child2_is_directory q)")
  case True
  then show ?thesis
    using no_more_access_covered [OF True] assms(1,4) by (auto simp: both_covered_def double_walk_def)
next
  case False
  have w: "length (layer_masks_parent1 w) = LANDLOCK_NUM_ACCESS_FS U" "layer_masks_parent2 w = Some m2" "length m2 = LANDLOCK_NUM_ACCESS_FS U"
      "access_masked_parent1 w = handled" "access_masked_parent2 w = handled"
    using assms(1) by (simp_all add: double_walk_def)
  obtain n1 where n1: "unmask_layers U (find_rule V h domain d) handled (Some (layer_masks_parent1 w)) =
      (find_rule V h domain d \<noteq> None \<and> (\<forall>b \<in> set (set_bits U handled). n1 ! b = 0), Some n1)"
    "length n1 = LANDLOCK_NUM_ACCESS_FS U"
    "\<forall>b l. denied n1 b l \<longleftrightarrow> denied (layer_masks_parent1 w) b l \<and> \<not> (bit handled b \<and> grants V h domain d b l)"
    by (rule unmask_layersE [OF assms(2,3) w(1)])
  obtain n2 where n2: "unmask_layers U (find_rule V h domain d) handled (Some m2) =
      (find_rule V h domain d \<noteq> None \<and> (\<forall>b \<in> set (set_bits U handled). n2 ! b = 0), Some n2)"
    "length n2 = LANDLOCK_NUM_ACCESS_FS U"
    "\<forall>b l. denied n2 b l \<longleftrightarrow> denied m2 b l \<and> \<not> (bit handled b \<and> grants V h domain d b l)"
    by (rule unmask_layersE [OF assms(2,3) w(3)])
  have "compare_domains U q w = (False, w)" using False w(2) assms(4) by (simp add: compare_domains_def)
  then have v: "w' = w\<lparr>layer_masks_parent1 := n1, layer_masks_parent2 := Some n2\<rparr>"
      "a1 \<longleftrightarrow> find_rule V h domain d \<noteq> None \<and> (\<forall>b \<in> set (set_bits U handled). n1 ! b = 0)"
      "a2 \<longleftrightarrow> find_rule V h domain d \<noteq> None \<and> (\<forall>b \<in> set (set_bits U handled). n2 ! b = 0)"
    using assms(5) n1(1) n2(1) w by (auto simp: visit_dentry_def Let_def)
  have "double_walk U handled w' n2"
    using assms(1) n1(2,3) n2(2,3) by (auto simp: double_walk_def v(1))
  moreover have "both_covered U V h domain q (layer_masks_parent1 w) m2 [d]" if "a1 \<and> a2"
  proof -
    have "grants V h domain d b l" if "denied (layer_masks_parent1 w) b l \<or> denied m2 b l" "b < LANDLOCK_NUM_ACCESS_FS U" for b l
    proof -
      have b: "bit handled b" using assms(1) that(1) unfolding double_walk_def by blast
      then have "n1 ! b = 0" "n2 ! b = 0" using v(2,3) \<open>a1 \<and> a2\<close> that(2) by (auto simp: set_set_bits)
      then have "\<not> denied n1 b l" "\<not> denied n2 b l" by (simp_all add: denied_def)
      then show ?thesis using n1(3) n2(3) b that(1) by blast
    qed
    then show ?thesis by (auto simp: both_covered_def covered_def)
  qed
  ultimately show ?thesis using n1(3) n2(3) by (auto simp: v(1))
qed

lemma walk_double:
  assumes "climbs V m d ds e" "domain_ok domain" "handled \<noteq> 0" "layer_masks_child1 q = Some c1"
    and "double_walk U handled w m2" "walk_paths U V h domain q m d w = Some (True, w')" "\<not> internal_end V e"
  shows "both_covered U V h domain q (layer_masks_parent1 w) m2 ds"
  using assms(1,5-7)
proof (induction arbitrary: w m2 rule: climbs.induct)
  case (root m d)
  obtain a1 a2 w1 where v: "visit_dentry U V h domain q d w = (a1, a2, w1)" by (metis prod_cases3)
  then have "a1 \<and> a2" using root by (auto simp: walk_paths.simps [of U V h domain q m d] split: if_splits)
  then show ?case using visit_double [OF root(2) assms(2-4) v] by auto
next
  case (disconnected m d m')
  obtain a1 a2 w1 where v: "visit_dentry U V h domain q d w = (a1, a2, w1)" by (metis prod_cases3)
  then have "a1 \<and> a2"
    using disconnected by (auto simp: walk_paths.simps [of U V h domain q m d] internal_end_def split: if_splits)
  then show ?case using visit_double [OF disconnected(2) assms(2-4) v] by auto
next
  case (step m d m' d' ds e)
  obtain a1 a2 w1 where v: "visit_dentry U V h domain q d w = (a1, a2, w1)" by (metis prod_cases3)
  consider (settled) "\<forall>ds. both_covered U V h domain q (layer_masks_parent1 w) m2 ds"
    | (go) m2' where "a1 \<and> a2 \<longrightarrow> both_covered U V h domain q (layer_masks_parent1 w) m2 [d]" "double_walk U handled w1 m2'"
      "\<forall>b l. denied (layer_masks_parent1 w1) b l \<longleftrightarrow> denied (layer_masks_parent1 w) b l \<and> \<not> (bit handled b \<and> grants V h domain d b l)"
      "\<forall>b l. denied m2' b l \<longleftrightarrow> denied m2 b l \<and> \<not> (bit handled b \<and> grants V h domain d b l)"
    using visit_double [OF step.prems(1) assms(2-4) v] by blast
  then show ?case
  proof cases
    case go
    show ?thesis
    proof (cases "a1 \<and> a2")
      case True
      then show ?thesis using go(1) by (auto simp: both_covered_def covered_def)
    next
      case False
      then have "walk_paths U V h domain q m' d' w1 = Some (True, w')"
        using step.prems(2) v step(1) by (auto simp: walk_paths.simps [of U V h domain q m d])
      then have "both_covered U V h domain q (layer_masks_parent1 w1) m2' ds" using step.IH [OF go(2)] step.prems(3) by blast
      then show ?thesis using covered_step [OF _ go(3,4)] covered_step [OF _ go(4,3)] by (simp add: both_covered_def)
    qed
  qed auto
qed

section \<open>Links and renames do not add rights\<close>

text \<open>The dentries from a directory to the root of its mount.\<close>

inductive collects :: "vfs \<Rightarrow> dentry \<Rightarrow> dentry \<Rightarrow> dentry list \<Rightarrow> bool" for V root where
  stop: "dir = root \<or> d_parent V dir = dir \<Longrightarrow> collects V root dir [dir]"
| step: "dir \<noteq> root \<Longrightarrow> d_parent V dir \<noteq> dir \<Longrightarrow> collects V root (d_parent V dir) ds \<Longrightarrow> collects V root dir (dir # ds)"

lemma collects_total:
  assumes "vfs_ok V"
  shows "\<exists>ds. collects V root dir ds"
proof -
  obtain dr where dr: "\<forall>d. d_parent V d \<noteq> d \<longrightarrow> dr (d_parent V d) < (dr d :: nat)" using assms by (auto simp: vfs_ok_def)
  show ?thesis
  proof (induction "dr dir" arbitrary: dir rule: less_induct)
    case less
    then show ?case
      using dr collects.stop [of dir root V] collects.step [of dir root V] by (cases "dir = root \<or> d_parent V dir = dir") blast+
  qed
qed

lemma no_bit_denied:
  assumes "\<forall>b \<in> set (set_bits U handled). n ! b = 0" "length n = LANDLOCK_NUM_ACCESS_FS U" "\<forall>b l. denied n b l \<longrightarrow> bit handled b"
  shows "\<not> denied n b l"
proof
  assume a: "denied n b l"
  then have "b \<in> set (set_bits U handled)" using assms(2,3) by (auto simp: set_set_bits denied_def)
  then show False using a assms(1) by (simp add: denied_def)
qed

lemma collect_walk_ok:
  assumes "collects V root dir ds" "domain_ok domain" "handled \<noteq> 0"
    and "length masks = LANDLOCK_NUM_ACCESS_FS U" "\<forall>b l. denied masks b l \<longrightarrow> bit handled b"
  shows "\<exists>al masks'. collect_walk U V h domain root handled dir masks = Some (al, masks') \<and> length masks' = LANDLOCK_NUM_ACCESS_FS U \<and>
    (\<forall>b l. denied masks' b l \<longleftrightarrow> denied masks b l \<and> \<not> (\<exists>d \<in> set ds. grants V h domain d b l)) \<and> (al \<longrightarrow> (\<forall>b l. \<not> denied masks' b l))"
  using assms(1,4,5)
proof (induction arbitrary: masks rule: collects.induct)
  case (stop dir)
  obtain n where n: "unmask_layers U (find_rule V h domain dir) handled (Some masks) =
      (find_rule V h domain dir \<noteq> None \<and> (\<forall>b \<in> set (set_bits U handled). n ! b = 0), Some n)"
    "length n = LANDLOCK_NUM_ACCESS_FS U"
    "\<forall>b l. denied n b l \<longleftrightarrow> denied masks b l \<and> \<not> (bit handled b \<and> grants V h domain dir b l)"
    by (rule unmask_layersE [OF assms(2,3) stop(2)])
  have hn: "\<forall>b l. denied n b l \<longrightarrow> bit handled b" using n(3) stop(3) by blast
  have run: "collect_walk U V h domain root handled dir masks = Some (find_rule V h domain dir \<noteq> None \<and> (\<forall>b \<in> set (set_bits U handled). n ! b = 0), n)"
    using n(1) stop(1) by (subst collect_walk.simps) auto
  have "denied n b l \<longleftrightarrow> denied masks b l \<and> \<not> (\<exists>d \<in> set [dir]. grants V h domain d b l)" for b l using n(3) stop(3) by auto
  then show ?case using run n(2) no_bit_denied [OF _ n(2) hn] by blast
next
  case (step dir ds)
  obtain n where n: "unmask_layers U (find_rule V h domain dir) handled (Some masks) =
      (find_rule V h domain dir \<noteq> None \<and> (\<forall>b \<in> set (set_bits U handled). n ! b = 0), Some n)"
    "length n = LANDLOCK_NUM_ACCESS_FS U"
    "\<forall>b l. denied n b l \<longleftrightarrow> denied masks b l \<and> \<not> (bit handled b \<and> grants V h domain dir b l)"
    by (rule unmask_layersE [OF assms(2,3) step.prems(1)])
  have hn: "\<forall>b l. denied n b l \<longrightarrow> bit handled b" using n(3) step.prems(2) by blast
  show ?case
  proof (cases "find_rule V h domain dir \<noteq> None \<and> (\<forall>b \<in> set (set_bits U handled). n ! b = 0)")
    case True
    then have run: "collect_walk U V h domain root handled dir masks = Some (True, n)" using n(1) by (subst collect_walk.simps) simp
    have none: "\<not> denied n b l" for b l using no_bit_denied [OF _ n(2) hn] True by blast
    then have "denied n b l \<longleftrightarrow> denied masks b l \<and> \<not> (\<exists>d \<in> set (dir # ds). grants V h domain d b l)" for b l using n(3) by auto
    then show ?thesis using run n(2) none by blast
  next
    case False
    then have "collect_walk U V h domain root handled dir masks = collect_walk U V h domain root handled (d_parent V dir) n"
      using n(1) step(1,2) by (subst collect_walk.simps) auto
    moreover have "denied n b l \<and> \<not> (\<exists>d \<in> set ds. grants V h domain d b l) \<longleftrightarrow>
        denied masks b l \<and> \<not> (\<exists>d \<in> set (dir # ds). grants V h domain d b l)" for b l
      using n(3) step.prems(2) by auto
    ultimately show ?thesis using step.IH [OF n(2) hn] by simp
  qed
qed

lemma collect_domain_accesses_ok:
  assumes "collects V root dir ds" "domain_ok domain" "\<not> is_nouser_or_private V dir"
  shows "\<exists>al masks'. collect_domain_accesses U V h domain root dir zeros = Some (al, masks') \<and> length masks' = LANDLOCK_NUM_ACCESS_FS U \<and>
    (\<forall>b l. denied masks' b l \<longleftrightarrow> b \<in> set (set_bits U (LANDLOCK_MASK_ACCESS_FS U)) \<and> handles U domain b l \<and> \<not> (\<exists>d \<in> set ds. grants V h domain d b l)) \<and>
    (al \<longrightarrow> (\<forall>b l. \<not> denied masks' b l))"
proof -
  obtain handled masks where i: "init_layer_masks U domain (LANDLOCK_MASK_ACCESS_FS U) = (handled, masks)" "length masks = LANDLOCK_NUM_ACCESS_FS U"
      "\<forall>b. bit handled b \<longleftrightarrow> b < LANDLOCK_NUM_ACCESS_FS U \<and> bit (LANDLOCK_MASK_ACCESS_FS U) b \<and> (\<exists>l. handles U domain b l)"
      "\<forall>b l. denied masks b l \<longleftrightarrow> b < LANDLOCK_NUM_ACCESS_FS U \<and> bit (LANDLOCK_MASK_ACCESS_FS U) b \<and> handles U domain b l"
    by (rule init_layer_masksE [OF assms(2)])
  show ?thesis
  proof (cases "handled = 0")
    case True
    then have "\<not> denied masks b l" for b l using i(3,4) by (metis bit_0_eq bot_apply bot_bool_def)
    then show ?thesis
      using True i assms(3) by (auto simp: collect_domain_accesses_def collect_walk.simps unmask_layers_def set_set_bits)
  next
    case False
    have "\<forall>b l. denied masks b l \<longrightarrow> bit handled b" using i(3,4) by blast
    from collect_walk_ok [OF assms(1,2) False i(2) this, of h]
    show ?thesis using i(1,4) assms(3) by (auto simp: collect_domain_accesses_def set_set_bits)
  qed
qed

text \<open>A child that is moved: what its own rule leaves denied.\<close>

lemma child_masks_ok:
  assumes "domain_ok domain"
  shows "\<exists>c. child_masks U V h domain (Some d) = Some c \<and>
    (\<forall>b l. denied c b l \<longleftrightarrow> b \<in> set (set_bits U (LANDLOCK_MASK_ACCESS_FS U)) \<and> handles U domain b l \<and> \<not> grants V h domain d b l)"
proof -
  obtain handled masks where i: "init_layer_masks U domain (LANDLOCK_MASK_ACCESS_FS U) = (handled, masks)" "length masks = LANDLOCK_NUM_ACCESS_FS U"
      "\<forall>b. bit handled b \<longleftrightarrow> b < LANDLOCK_NUM_ACCESS_FS U \<and> bit (LANDLOCK_MASK_ACCESS_FS U) b \<and> (\<exists>l. handles U domain b l)"
      "\<forall>b l. denied masks b l \<longleftrightarrow> b < LANDLOCK_NUM_ACCESS_FS U \<and> bit (LANDLOCK_MASK_ACCESS_FS U) b \<and> handles U domain b l"
    by (rule init_layer_masksE [OF assms])
  show ?thesis
  proof (cases "handled = 0")
    case True
    then have "\<not> denied masks b l" for b l using i(3,4) by (metis bit_0_eq bot_apply bot_bool_def)
    then show ?thesis using True i by (auto simp: child_masks_def unmask_layers_def set_set_bits)
  next
    case False
    obtain c where "unmask_layers U (find_rule V h domain d) handled (Some masks) =
        (find_rule V h domain d \<noteq> None \<and> (\<forall>b \<in> set (set_bits U handled). c ! b = 0), Some c)"
      "\<forall>b l. denied c b l \<longleftrightarrow> denied masks b l \<and> \<not> (bit handled b \<and> grants V h domain d b l)"
      by (rule unmask_layersE [OF assms False i(2)])
    moreover from this(2) have "denied c b l \<longleftrightarrow> b \<in> set (set_bits U (LANDLOCK_MASK_ACCESS_FS U)) \<and> handles U domain b l \<and> \<not> grants V h domain d b l" for b l
      using i(3,4) by (auto simp: set_set_bits)
    ultimately show ?thesis using i(1) by (simp add: child_masks_def)
  qed
qed

text \<open>
  A file that moves from the directories \<open>src\<close> to the directories \<open>dst\<close> gains nothing: a right that a
  layer grants it at the new place, the layer granted it at the old one. Files only have the rights that
  make sense for files.
\<close>

definition no_gain :: "fs_rights \<Rightarrow> vfs \<Rightarrow> landlock_heap \<Rightarrow> landlock_ruleset \<Rightarrow> dentry \<Rightarrow> dentry list \<Rightarrow> dentry list \<Rightarrow> bool" where
  "no_gain U V h domain f src dst \<longleftrightarrow>
     (\<forall>b l. b \<in> set (set_bits U (LANDLOCK_MASK_ACCESS_FS U)) \<longrightarrow> d_is_dir V f \<or> bit (ACCESS_FILE U) b \<longrightarrow> handles U domain b l \<longrightarrow>
        (\<exists>d \<in> set (f # dst). grants V h domain d b l) \<longrightarrow> (\<exists>d \<in> set (f # src). grants V h domain d b l))"

lemma covered_no_gain:
  assumes "covered U V h domain m1 c (d_is_dir V f) m2 ds"
    and "\<forall>b l. denied m1 b l \<longleftrightarrow> b \<in> set (set_bits U (LANDLOCK_MASK_ACCESS_FS U)) \<and> handles U domain b l \<and> \<not> (\<exists>d \<in> set s1. grants V h domain d b l)"
    and "\<forall>b l. denied m2 b l \<longleftrightarrow> b \<in> set (set_bits U (LANDLOCK_MASK_ACCESS_FS U)) \<and> handles U domain b l \<and> \<not> (\<exists>d \<in> set s2. grants V h domain d b l)"
    and "\<forall>b l. denied c b l \<longleftrightarrow> b \<in> set (set_bits U (LANDLOCK_MASK_ACCESS_FS U)) \<and> handles U domain b l \<and> \<not> grants V h domain f b l"
  shows "no_gain U V h domain f (s1 @ ds) (s2 @ ds)"
  unfolding no_gain_def
proof (intro allI impI)
  fix b l
  assume a: "b \<in> set (set_bits U (LANDLOCK_MASK_ACCESS_FS U))" "d_is_dir V f \<or> bit (ACCESS_FILE U) b" "handles U domain b l"
    "\<exists>d \<in> set (f # s2 @ ds). grants V h domain d b l"
  show "\<exists>d \<in> set (f # s1 @ ds). grants V h domain d b l"
  proof (rule ccontr)
    assume "\<not> ?thesis"
    then have n: "\<not> grants V h domain f b l" "\<not> (\<exists>d \<in> set s1. grants V h domain d b l)" "\<not> (\<exists>d \<in> set ds. grants V h domain d b l)" by auto
    then have "denied m1 b l" "denied c b l" using a(1,3) assms(2,4) by blast+
    then have "denied m2 b l" using assms(1) n(3) a(1,2) by (auto simp: covered_def set_set_bits)
    then show False using assms(3) a(4) n by auto
  qed
qed

lemma refer_double:
  assumes "domain_ok domain" "climbs V m (mnt_root V m) ds e" "\<not> is_nouser_or_private V (mnt_root V m)"
    and "length m1 = LANDLOCK_NUM_ACCESS_FS U" "length m2 = LANDLOCK_NUM_ACCESS_FS U" "req1 \<noteq> 0 \<or> req2 \<noteq> 0"
    and m1: "\<forall>b l. denied m1 b l \<longleftrightarrow> b \<in> set (set_bits U (LANDLOCK_MASK_ACCESS_FS U)) \<and> handles U domain b l \<and> \<not> (\<exists>d \<in> set s1. grants V h domain d b l)"
    and m2: "\<forall>b l. denied m2 b l \<longleftrightarrow> b \<in> set (set_bits U (LANDLOCK_MASK_ACCESS_FS U)) \<and> handles U domain b l \<and> \<not> (\<exists>d \<in> set s2. grants V h domain d b l)"
  shows "\<exists>al n1 n2. is_access_to_paths_allowed U V h domain \<lparr>p_mnt = m, p_dentry = mnt_root V m\<rparr> req1 m1 (Some f) req2 (Some m2) g = Some (al, n1, n2) \<and>
    (al \<and> \<not> internal_end V e \<longrightarrow> no_gain U V h domain f (s1 @ ds) (s2 @ ds) \<and> (\<forall>f'. g = Some f' \<longrightarrow> no_gain U V h domain f' (s2 @ ds) (s1 @ ds)))"
proof -
  let ?handled = "get_handled_accesses U domain"
  obtain c1 where c1: "child_masks U V h domain (Some f) = Some c1"
      "\<forall>b l. denied c1 b l \<longleftrightarrow> b \<in> set (set_bits U (LANDLOCK_MASK_ACCESS_FS U)) \<and> handles U domain b l \<and> \<not> grants V h domain f b l"
    using child_masks_ok [OF assms(1), of U V h f] by (elim exE conjE)
  define q where "q = \<lparr>access_request_parent1 = req1, access_request_parent2 = req2,
      layer_masks_child1 = child_masks U V h domain (Some f), child1_is_directory = d_is_dir V f,
      layer_masks_child2 = child_masks U V h domain g, child2_is_directory = (case g of None \<Rightarrow> True | Some d \<Rightarrow> d_is_dir V d)\<rparr>"
  define w where "w = \<lparr>layer_masks_parent1 = m1, layer_masks_parent2 = Some m2, is_dom_check = True,
      access_masked_parent1 = ?handled, access_masked_parent2 = ?handled\<rparr>"
  obtain al w' where walk: "walk_paths U V h domain q m (mnt_root V m) w = Some (al, w')"
    using walk_total [OF assms(2)] by (metis surj_pair)
  have num: "\<not> rs_num_layers domain < 1" using assms(1) by (auto simp: domain_ok_def word_less_nat_alt)
  have run: "is_access_to_paths_allowed U V h domain \<lparr>p_mnt = m, p_dentry = mnt_root V m\<rparr> req1 m1 (Some f) req2 (Some m2) g =
      Some (al, layer_masks_parent1 w', layer_masks_parent2 w')"
    using walk assms(3,6) num by (auto simp: is_access_to_paths_allowed_def Let_def q_def w_def)
  have hb: "bit ?handled b \<longleftrightarrow> bit (LANDLOCK_MASK_ACCESS_FS U) b \<and> (\<exists>l. handles U domain b l)" for b
    by (rule get_handled_accesses_bits [OF assms(1)])
  have both: "both_covered U V h domain q m1 m2 ds" if "al \<and> \<not> internal_end V e"
  proof (cases "?handled = 0")
    case True
    then have "\<not> denied m1 b l" "\<not> denied m2 b l" for b l
      using hb m1 m2 by (metis bit_0_eq bot_apply bot_bool_def set_set_bits)+
    then show ?thesis by (simp add: both_covered_def covered_def)
  next
    case False
    have "double_walk U ?handled w m2"
      using assms(4,5) m1 m2 hb by (auto simp: double_walk_def w_def set_set_bits)
    then show ?thesis
      using walk_double [OF assms(2,1) False, of q c1 U w m2 h w'] walk that c1(1) by (simp add: q_def w_def)
  qed
  have "no_gain U V h domain f (s1 @ ds) (s2 @ ds)" if "al \<and> \<not> internal_end V e"
    using both [OF that] c1 covered_no_gain [OF _ m1 m2 c1(2)] by (simp add: both_covered_def q_def)
  moreover have "no_gain U V h domain f' (s2 @ ds) (s1 @ ds)" if "al \<and> \<not> internal_end V e" "g = Some f'" for f'
  proof -
    obtain c2 where c2: "child_masks U V h domain (Some f') = Some c2"
        "\<forall>b l. denied c2 b l \<longleftrightarrow> b \<in> set (set_bits U (LANDLOCK_MASK_ACCESS_FS U)) \<and> handles U domain b l \<and> \<not> grants V h domain f' b l"
      using child_masks_ok [OF assms(1), of U V h f'] by (elim exE conjE)
    then show ?thesis using both [OF that(1)] that(2) covered_no_gain [OF _ m2 m1 c2(2)] by (simp add: both_covered_def q_def)
  qed
  ultimately show ?thesis using run by blast
qed

section \<open>Open files\<close>

text \<open>What is relied on of the rights: the last one is one bit and the rights of files lie in the mask.\<close>

definition rights_ok :: "fs_rights \<Rightarrow> bool" where
  "rights_ok U \<longleftrightarrow> (\<exists>k < 16. LANDLOCK_ACCESS_FS_TRUNCATE U = 2 ^ k) \<and> LANDLOCK_ACCESS_FS_REFER U \<noteq> 0 \<and>
     (\<forall>r \<in> {LANDLOCK_ACCESS_FS_EXECUTE U, LANDLOCK_ACCESS_FS_WRITE_FILE U, LANDLOCK_ACCESS_FS_READ_FILE U, LANDLOCK_ACCESS_FS_READ_DIR U}.
        r AND LANDLOCK_MASK_ACCESS_FS U = r)"

lemma access_mask_bits:
  assumes "k < 16" "LANDLOCK_ACCESS_FS_TRUNCATE U = 2 ^ k"
  shows "LANDLOCK_NUM_ACCESS_FS U = Suc k" "bit (LANDLOCK_MASK_ACCESS_FS U) b \<longleftrightarrow> b \<le> k"
proof -
  have "LANDLOCK_MASK_ACCESS_FS U = mask (Suc k)"
    using assms(2) by (simp add: LANDLOCK_MASK_ACCESS_FS_def mask_eq_exp_minus_1 push_bit_eq_mult)
  then have b: "bit (LANDLOCK_MASK_ACCESS_FS U) c \<longleftrightarrow> c \<le> k" for c
    using assms(1) by (auto simp: bit_mask_iff)
  show "bit (LANDLOCK_MASK_ACCESS_FS U) b \<longleftrightarrow> b \<le> k" by (rule b)
  have f: "filter (bit (LANDLOCK_MASK_ACCESS_FS U)) [0..<16] = [0..<Suc k]"
  proof -
    have "[0..<16] = [0..<Suc k] @ [Suc k..<16]" using assms(1) upt_add_eq_append [of 0 "Suc k" "15 - k"] by simp
    then show ?thesis by (simp add: filter_empty_conv b filter_id_conv)
  qed
  show "LANDLOCK_NUM_ACCESS_FS U = Suc k" by (simp add: LANDLOCK_NUM_ACCESS_FS_def f)
qed

lemma bit_collect:
  fixes a :: u16
  assumes "\<forall>b \<in> set bits. b < 16"
  shows "bit (fold (\<lambda>b acc. if P b then acc OR push_bit b 1 else acc) bits a) c \<longleftrightarrow> bit a c \<or> c \<in> set bits \<and> P c"
  using assms by (induction bits arbitrary: a) (auto simp: bit_set)

lemma required_in_mask:
  assumes "rights_ok U" "get_required_file_open_access U V f = Some req" "bit req b"
  shows "b < LANDLOCK_NUM_ACCESS_FS U"
proof -
  obtain k where k: "k < 16" "LANDLOCK_ACCESS_FS_TRUNCATE U = 2 ^ k" using assms(1) by (auto simp: rights_ok_def)
  have "bit r b \<Longrightarrow> b \<le> k" if "r AND LANDLOCK_MASK_ACCESS_FS U = r" for r
    using access_mask_bits(2) [OF k] arg_cong [OF that, of "\<lambda>w. bit w b"] by (auto simp: bit_and_iff)
  then have "b \<le> k"
    using assms by (auto simp: get_required_file_open_access_def rights_ok_def bit_or_iff split: Option.bind_splits if_splits)
  then show ?thesis by (simp add: access_mask_bits(1) [OF k])
qed

lemma hook_file_open_ok:
  fixes h
  assumes "domain_ok domain" "climbs V (p_mnt (f_path f)) (p_dentry (f_path f)) ds e" "rights_ok U"
    and "get_required_file_open_access U V f = Some req"
  defines "granted \<equiv> \<lambda>r. exempt V (f_path f) e \<or> request_granted U V h domain ds r"
  shows "\<exists>f'. hook_file_open U V h (Some domain) f = Some (if granted req then OK else Err EACCES, f') \<and>
    (allowed_access f' AND LANDLOCK_ACCESS_FS_TRUNCATE U \<noteq> 0 \<longleftrightarrow> granted (LANDLOCK_ACCESS_FS_TRUNCATE U))"
proof -
  obtain k where k: "k < 16" "LANDLOCK_ACCESS_FS_TRUNCATE U = 2 ^ k" using assms(3) by (auto simp: rights_ok_def)
  let ?full = "req OR LANDLOCK_ACCESS_FS_TRUNCATE U"
  have kb: "bit (LANDLOCK_ACCESS_FS_TRUNCATE U) b \<longleftrightarrow> b = k" for b using k by (auto simp: bit_exp_iff)
  have trunc: "w AND LANDLOCK_ACCESS_FS_TRUNCATE U \<noteq> 0 \<longleftrightarrow> bit w k" for w
    by (auto simp: mask_zero_iff bit_and_iff kb)
  have bits: "b \<in> set (set_bits U ?full) \<longleftrightarrow> bit req b \<or> b = k" for b
    using required_in_mask [OF assms(3,4), of b] access_mask_bits(1) [OF k] by (auto simp: set_set_bits bit_or_iff kb)
  have tb: "set (set_bits U (LANDLOCK_ACCESS_FS_TRUNCATE U)) = {k}" "set (set_bits U req) = {b. bit req b}"
    using required_in_mask [OF assms(3,4)] access_mask_bits(1) [OF k] by (auto simp: set_set_bits kb)
  have full: "request_granted U V h domain ds ?full \<longleftrightarrow>
      request_granted U V h domain ds req \<and> request_granted U V h domain ds (LANDLOCK_ACCESS_FS_TRUNCATE U)"
    unfolding request_granted_def tb by (auto simp: bits)
  obtain handled masks al masks' m2 where i: "init_layer_masks U domain ?full = (handled, masks)"
    "is_access_to_paths_allowed U V h domain (f_path f) handled masks None 0 None None = Some (al, masks', m2)"
    "al \<longleftrightarrow> exempt V (f_path f) e \<or> request_granted U V h domain ds ?full"
    "\<not> al \<Longrightarrow> \<forall>b \<in> set (set_bits U ?full). masks' ! b = 0 \<longleftrightarrow> right_granted U V h domain ds b"
    by (rule simple_request [OF assms(1,2)]) blast
  define acc where "acc = (if al then ?full
      else fold (\<lambda>b acc. if masks' ! b = 0 then acc OR push_bit b 1 else acc) (set_bits U ?full) 0)"
  have run: "hook_file_open U V h (Some domain) f = Some (if req AND acc = req then OK else Err EACCES, f\<lparr>allowed_access := acc\<rparr>)"
    using i(1,2) assms(4) by (simp add: hook_file_open_def Let_def acc_def)
  have sub: "req AND acc = req \<longleftrightarrow> (\<forall>b. bit req b \<longrightarrow> bit acc b)"
  proof
    assume "req AND acc = req"
    then show "\<forall>b. bit req b \<longrightarrow> bit acc b" by (metis bit_and_iff)
  qed (auto intro!: bit_eqI simp: bit_and_iff)
  have "(req AND acc = req \<longleftrightarrow> granted req) \<and> (bit acc k \<longleftrightarrow> granted (LANDLOCK_ACCESS_FS_TRUNCATE U))"
  proof (cases al)
    case True
    then show ?thesis using i(3) full by (auto simp: sub acc_def granted_def bit_or_iff kb)
  next
    case False
    have "\<forall>b \<in> set (set_bits U ?full). b < 16" using num_le_16 [of U] by (auto simp: set_set_bits)
    then have acc: "bit acc b \<longleftrightarrow> (bit req b \<or> b = k) \<and> right_granted U V h domain ds b" for b
      using bit_collect [of "set_bits U ?full" "\<lambda>b. masks' ! b = 0" 0 b] False i(4) [OF False] by (auto simp: acc_def bits)
    show ?thesis
      using False i(3) unfolding granted_def sub request_granted_def tb by (auto simp: acc)
  qed
  then show ?thesis using run trunc by simp
qed

section \<open>Properties\<close>

text \<open>
  C9. The check of an access to a path ends, and it grants the access exactly when every layer of the domain
  that handles one of the requested rights has rules on the path, from the file up to the real root and
  across mount points, that grant it; pseudo file systems and disconnected internal ones are exempt.
\<close>

theorem check_access_path_spec:
  assumes "domain_ok domain" "vfs_ok V"
  shows "\<exists>ds e. climbs V (p_mnt path) (p_dentry path) ds e \<and>
    check_access_path U V h domain path req =
      Some (if is_nouser_or_private V (p_dentry path) \<or> (\<exists>m. e = Disconnected m \<and> mnt_internal V m) \<or>
               (\<forall>b < LANDLOCK_NUM_ACCESS_FS U. \<forall>l < length (fs_access_masks domain).
                  bit req b \<longrightarrow> bit (fs_access_masks domain ! l OR LANDLOCK_ACCESS_FS_REFER U) b \<longrightarrow>
                  (\<exists>d \<in> set ds. \<exists>layer \<in> set (dentry_layers V h domain d). unat (ll_level layer) = Suc l \<and> bit (ll_access layer) b))
            then OK else Err EACCES)"
proof -
  obtain ds e where c: "climbs V (p_mnt path) (p_dentry path) ds e" using climbs_total [OF assms(2)] by blast
  have "request_granted U V h domain ds req \<longleftrightarrow>
      (\<forall>b < LANDLOCK_NUM_ACCESS_FS U. \<forall>l < length (fs_access_masks domain).
         bit req b \<longrightarrow> bit (fs_access_masks domain ! l OR LANDLOCK_ACCESS_FS_REFER U) b \<longrightarrow>
         (\<exists>d \<in> set ds. \<exists>layer \<in> set (dentry_layers V h domain d). unat (ll_level layer) = Suc l \<and> bit (ll_access layer) b))"
    by (auto simp: request_granted_def right_granted_def set_set_bits handles_def grants_def layers_grant_def ACCESS_INITIALLY_DENIED_def)
  from check_access_path_ok [OF assms(1) c, of U h req, unfolded exempt_def internal_end_def this disj_assoc] c
  show ?thesis by blast
qed

text \<open>A file in a directory of a mount, and a domain that lets the directory be read.\<close>

definition sample_rights :: fs_rights where
  "sample_rights = \<lparr>LANDLOCK_ACCESS_FS_EXECUTE = 1, LANDLOCK_ACCESS_FS_WRITE_FILE = 2, LANDLOCK_ACCESS_FS_READ_FILE = 4,
     LANDLOCK_ACCESS_FS_READ_DIR = 8, LANDLOCK_ACCESS_FS_REMOVE_DIR = 16, LANDLOCK_ACCESS_FS_REMOVE_FILE = 32,
     LANDLOCK_ACCESS_FS_MAKE_CHAR = 64, LANDLOCK_ACCESS_FS_MAKE_DIR = 128, LANDLOCK_ACCESS_FS_MAKE_REG = 256,
     LANDLOCK_ACCESS_FS_MAKE_SOCK = 512, LANDLOCK_ACCESS_FS_MAKE_FIFO = 1024, LANDLOCK_ACCESS_FS_MAKE_BLOCK = 2048,
     LANDLOCK_ACCESS_FS_MAKE_SYM = 4096, LANDLOCK_ACCESS_FS_REFER = 8192, LANDLOCK_ACCESS_FS_TRUNCATE = 16384\<rparr>"

definition sample_vfs :: vfs where
  "sample_vfs = \<lparr>d_parent = (\<lambda>d. d - 1), d_backing_inode = Some, d_is_dir = (\<lambda>d. d < 2), sb_nouser = (\<lambda>_. False),
     i_mode = (\<lambda>i. if i < 2 then 0x41ed else 0x81a4), is_private = (\<lambda>_. False), mnt_root = (\<lambda>_. 0), mnt_internal = (\<lambda>_. False),
     follow_up = (\<lambda>_. None)\<rparr>"

definition sample_heap :: landlock_heap where
  "sample_heap = \<lparr>lh_objects = [100 \<mapsto> \<lparr>usage = 1, underobj = Some 1\<rparr>], lh_inode_object = [1 \<mapsto> 100], lh_i_count = (\<lambda>_. 1),
     lh_hierarchies = [7 \<mapsto> \<lparr>h_parent = None, h_usage = 1\<rparr>], lh_allocs = []\<rparr>"

lemma sample_vfs_ok: "vfs_ok sample_vfs"
  unfolding vfs_ok_def by (intro exI [of _ "\<lambda>d. d"] exI [of _ "\<lambda>_. 0"]) (simp add: sample_vfs_def)

lemma sample_climbs: "climbs sample_vfs 0 2 ds e \<longleftrightarrow> ds = [2, 1, 0] \<and> e = Real_Root"
proof -
  have j: "jump_up sample_vfs 0 2 = Some (At 0 1)" "jump_up sample_vfs 0 1 = Some (At 0 0)" "jump_up sample_vfs 0 0 = Some Real_Root"
    by (simp_all add: jump_up.simps sample_vfs_def)
  have 0: "climbs sample_vfs 0 0 ds e \<longleftrightarrow> ds = [0] \<and> e = Real_Root" for ds e
    using j by (auto elim: climbs.cases intro: climbs.root)
  have 1: "climbs sample_vfs 0 1 ds e \<longleftrightarrow> ds = [1, 0] \<and> e = Real_Root" for ds e
    using j climbs.step [OF j(2)] by (auto elim: climbs.cases simp: 0)
  show ?thesis
    using j climbs.step [OF j(1)] by (auto elim: climbs.cases simp: 1 [simplified])
qed

lemma sample_num: "LANDLOCK_NUM_ACCESS_FS sample_rights = 15"
  using access_mask_bits(1) [of 14 sample_rights] by (simp add: sample_rights_def)

lemma sample_layers: "dentry_layers sample_vfs sample_heap sample_domain d = (if d = 1 then [\<lparr>ll_level = 1, ll_access = 4\<rparr>] else [])"
  by (simp add: dentry_layers_def sample_vfs_def sample_heap_def layers_of_def sample_domain_def)

theorem check_access_path_spec_witness:
  "check_access_path sample_rights sample_vfs sample_heap sample_domain \<lparr>p_mnt = 0, p_dentry = 2\<rparr> 4 = Some OK \<and>
   check_access_path sample_rights sample_vfs sample_heap sample_domain \<lparr>p_mnt = 0, p_dentry = 2\<rparr> 2 = Some (Err EACCES)"
proof -
  have n: "\<not> is_nouser_or_private sample_vfs 2" by (simp add: is_nouser_or_private_def sample_vfs_def)
  have b: "bit (4 :: u16) b \<longleftrightarrow> b = 2" "bit (2 :: u16) b \<longleftrightarrow> b = 1" for b
    using bit_exp_iff [where 'a = "16 word", of 2 b] bit_exp_iff [where 'a = "16 word", of 1 b] by auto
  show ?thesis
    using check_access_path_spec [OF sample_domain_ok sample_vfs_ok, of "\<lparr>p_mnt = 0, p_dentry = 2\<rparr>" sample_rights sample_heap 4]
      check_access_path_spec [OF sample_domain_ok sample_vfs_ok, of "\<lparr>p_mnt = 0, p_dentry = 2\<rparr>" sample_rights sample_heap 2]
    by (simp add: sample_climbs n sample_num sample_layers b) (simp add: sample_domain_def sample_rights_def bit_simps)
qed

text \<open>
  A process can only restrict itself further: the domain that merges a ruleset into a domain grants an
  access exactly when the parent domain grants it and the rules of the ruleset on the path grant every
  requested right that the ruleset handles, on any file system and whatever objects the inodes have.
\<close>

lemma merge_only_restricts:
  assumes "landlock_merge_ruleset rebal (Some p) (Some src) h = Some (Inr d, h')"
    and "rebal_ok rebal" "ruleset_ok src" "set_mset (rule_refs src) \<subseteq> set_mset M" "parent_ok h M (Some p)" "heap_ok h M" "allocs_ok h"
    and "rs_addr p \<noteq> rs_addr src" "vfs_ok V"
  shows "\<exists>ds e. climbs V (p_mnt path) (p_dentry path) ds e \<and>
    (check_access_path U V k d path req = Some OK \<longleftrightarrow>
     check_access_path U V k p path req = Some OK \<and>
     (is_nouser_or_private V (p_dentry path) \<or> (\<exists>m. e = Disconnected m \<and> mnt_internal V m) \<or> ruleset_grants U V k src ds req))"
proof -
  have m: "merged (Some p) src h M (Inr d) h'"
    using landlock_merge_ruleset_ok [OF assms(2-7)] assms(1,8) by auto
  have ok: "domain_ok p" "domain_ok d" using assms(5) m by (simp_all add: parent_ok_def merged_def)
  obtain ds e where c: "climbs V (p_mnt path) (p_dentry path) ds e" using climbs_total [OF assms(9)] by blast
  have "request_granted U V k d ds req \<longleftrightarrow> request_granted U V k p ds req \<and> ruleset_grants U V k src ds req"
    using merged_request [OF m assms(3), of U V k ds req] ok(1) by simp
  then have "check_access_path U V k d path req = Some OK \<longleftrightarrow>
     check_access_path U V k p path req = Some OK \<and> (exempt V path e \<or> ruleset_grants U V k src ds req)"
    using check_access_path_ok [OF ok(2) c, of U k req] check_access_path_ok [OF ok(1) c, of U k req] by auto
  then show ?thesis using c unfolding exempt_def internal_end_def disj_assoc by blast
qed

text \<open>A move to another directory, once both parents are collected.\<close>

lemma refer_cross_directory:
  assumes "rs_num_layers domain \<ge> 1" "rights_ok U" "d_backing_inode V old_dentry \<noteq> None" "exchange \<Longrightarrow> d_backing_inode V new_dentry \<noteq> None"
    and "d_parent V old_dentry \<noteq> p_dentry new_dir" "old_dentry \<noteq> mnt_root V (p_mnt new_dir)"
    and "collect_domain_accesses U V h domain (mnt_root V (p_mnt new_dir)) (d_parent V old_dentry) (replicate (LANDLOCK_NUM_ACCESS_FS U) 0) = Some (a1, m1)"
    and "collect_domain_accesses U V h domain (mnt_root V (p_mnt new_dir)) (p_dentry new_dir) (replicate (LANDLOCK_NUM_ACCESS_FS U) 0) = Some (a2, m2)"
  obtains req1 req2 where "req1 \<noteq> 0"
    "current_check_refer_path U V h (Some domain) old_dentry new_dir new_dentry removable exchange =
      (if a1 \<and> a2 then Some OK
       else case is_access_to_paths_allowed U V h domain \<lparr>p_mnt = p_mnt new_dir, p_dentry = mnt_root V (p_mnt new_dir)\<rparr> req1 m1 (Some old_dentry)
                   req2 (Some m2) (if exchange then Some new_dentry else None) of
              None \<Rightarrow> None
            | Some (allowed, masks1, masks2) \<Rightarrow>
                if allowed then Some OK
                else if is_eacces U (Some masks1) req1 \<or> is_eacces U masks2 req2 then Some (Err EACCES)
                else Some (Err EXDEV))"
proof -
  obtain i where i: "d_backing_inode V old_dentry = Some i" using assms(3) by blast
  obtain i' where i': "(if exchange then d_backing_inode V new_dentry else Some 0) = Some i'" using assms(4) by (cases exchange) auto
  have num: "\<not> rs_num_layers domain < 1" using assms(1) by (simp only: linorder_not_less)
  define req1 where "req1 = (if removable then (if exchange then get_mode_access U (i_mode V i') else 0) OR maybe_remove U V old_dentry
      else if exchange then get_mode_access U (i_mode V i') else 0) OR LANDLOCK_ACCESS_FS_REFER U"
  define req2 where "req2 = (if removable then get_mode_access U (i_mode V i) OR maybe_remove U V new_dentry
      else get_mode_access U (i_mode V i)) OR LANDLOCK_ACCESS_FS_REFER U"
  show thesis
  proof (rule that [of req1 req2])
    show "req1 \<noteq> 0" using assms(2) by (auto simp: req1_def rights_ok_def mask_zero_iff bit_or_iff)
  qed (use num assms(5-8) i i' in \<open>unfold req1_def req2_def, cases exchange; cases removable;
        auto simp: current_check_refer_path_def Let_def split: option.splits\<close>)
qed

lemma no_gain_granted:
  assumes "\<And>b l. b \<in> set (set_bits U (LANDLOCK_MASK_ACCESS_FS U)) \<Longrightarrow> handles U domain b l \<Longrightarrow> \<exists>d \<in> set src. grants V h domain d b l"
  shows "no_gain U V h domain f (src @ ds) dst"
  unfolding no_gain_def by (metis assms Un_iff list.set_intros(2) set_append)

text \<open>
  C10. Links and renames to another directory do not add rights. The check of such a move ends, and when it
  allows the move, every right that a layer would grant the file at its new place, by a rule on the file
  or on a directory above it, the layer grants it at its old place; for an exchange the same holds of the
  other file.
\<close>

theorem refer_no_gain:
  assumes "domain_ok domain" "vfs_ok V" "rights_ok U" "d_backing_inode V old_dentry \<noteq> None" "exchange \<Longrightarrow> d_backing_inode V new_dentry \<noteq> None"
    and "d_parent V old_dentry \<noteq> p_dentry new_dir" "old_dentry \<noteq> mnt_root V (p_mnt new_dir)"
    and "\<not> is_nouser_or_private V (d_parent V old_dentry)" "\<not> is_nouser_or_private V (p_dentry new_dir)"
    and "\<not> is_nouser_or_private V (mnt_root V (p_mnt new_dir))"
  shows "\<exists>rc src dst ds e.
    current_check_refer_path U V h (Some domain) old_dentry new_dir new_dentry removable exchange = Some rc \<and>
    collects V (mnt_root V (p_mnt new_dir)) (d_parent V old_dentry) src \<and> collects V (mnt_root V (p_mnt new_dir)) (p_dentry new_dir) dst \<and>
    climbs V (p_mnt new_dir) (mnt_root V (p_mnt new_dir)) ds e \<and>
    (rc = OK \<and> \<not> (\<exists>m. e = Disconnected m \<and> mnt_internal V m) \<longrightarrow>
       no_gain U V h domain old_dentry (src @ ds) (dst @ ds) \<and> (exchange \<longrightarrow> no_gain U V h domain new_dentry (dst @ ds) (src @ ds)))"
proof -
  let ?root = "mnt_root V (p_mnt new_dir)" and ?all = "set (set_bits U (LANDLOCK_MASK_ACCESS_FS U))"
  let ?zeros = "replicate (LANDLOCK_NUM_ACCESS_FS U) (0 :: u16)" and ?new = "if exchange then Some new_dentry else None"
  let ?run = "current_check_refer_path U V h (Some domain) old_dentry new_dir new_dentry removable exchange"
  obtain src where src: "collects V ?root (d_parent V old_dentry) src" using collects_total [OF assms(2)] by blast
  obtain dst where dst: "collects V ?root (p_dentry new_dir) dst" using collects_total [OF assms(2)] by blast
  obtain ds e where ds: "climbs V (p_mnt new_dir) ?root ds e" using climbs_total [OF assms(2)] by blast
  obtain a1 m1 where m1: "collect_domain_accesses U V h domain ?root (d_parent V old_dentry) ?zeros = Some (a1, m1)" "length m1 = LANDLOCK_NUM_ACCESS_FS U"
      "\<forall>b l. denied m1 b l \<longleftrightarrow> b \<in> ?all \<and> handles U domain b l \<and> \<not> (\<exists>d \<in> set src. grants V h domain d b l)" "a1 \<longrightarrow> (\<forall>b l. \<not> denied m1 b l)"
    using collect_domain_accesses_ok [OF src assms(1,8), of U h ?zeros] by (elim exE conjE)
  obtain a2 m2 where m2: "collect_domain_accesses U V h domain ?root (p_dentry new_dir) ?zeros = Some (a2, m2)" "length m2 = LANDLOCK_NUM_ACCESS_FS U"
      "\<forall>b l. denied m2 b l \<longleftrightarrow> b \<in> ?all \<and> handles U domain b l \<and> \<not> (\<exists>d \<in> set dst. grants V h domain d b l)" "a2 \<longrightarrow> (\<forall>b l. \<not> denied m2 b l)"
    using collect_domain_accesses_ok [OF dst assms(1,9), of U h ?zeros] by (elim exE conjE)
  have "rs_num_layers domain \<ge> 1" using assms(1) by (auto simp: domain_ok_def word_le_nat_alt)
  then obtain req1 req2 where req: "req1 \<noteq> 0" and run: "?run =
      (if a1 \<and> a2 then Some OK
       else case is_access_to_paths_allowed U V h domain \<lparr>p_mnt = p_mnt new_dir, p_dentry = ?root\<rparr> req1 m1 (Some old_dentry) req2 (Some m2) ?new of
              None \<Rightarrow> None
            | Some (allowed, masks1, masks2) \<Rightarrow>
                if allowed then Some OK
                else if is_eacces U (Some masks1) req1 \<or> is_eacces U masks2 req2 then Some (Err EACCES)
                else Some (Err EXDEV))"
    by (rule refer_cross_directory [OF _ assms(3-7) m1(1) m2(1)])
  show ?thesis
  proof (cases "a1 \<and> a2")
    case True
    then have "no_gain U V h domain f (src @ ds) (dst @ ds)" "no_gain U V h domain f (dst @ ds) (src @ ds)" for f
      using m1(3,4) m2(3,4) by (intro no_gain_granted; blast)+
    moreover have "?run = Some OK" using run True by simp
    ultimately show ?thesis using src dst ds by blast
  next
    case False
    have nz: "req1 \<noteq> 0 \<or> req2 \<noteq> 0" using req ..
    obtain al n1 n2 where r:
        "is_access_to_paths_allowed U V h domain \<lparr>p_mnt = p_mnt new_dir, p_dentry = ?root\<rparr> req1 m1 (Some old_dentry) req2 (Some m2) ?new = Some (al, n1, n2)"
        "al \<and> \<not> internal_end V e \<longrightarrow> no_gain U V h domain old_dentry (src @ ds) (dst @ ds) \<and>
          (\<forall>f'. ?new = Some f' \<longrightarrow> no_gain U V h domain f' (dst @ ds) (src @ ds))"
      using refer_double [OF assms(1) ds assms(10) m1(2) m2(2) nz m1(3) m2(3), of old_dentry ?new] by (elim exE conjE)
    then obtain rc where "?run = Some rc" "rc = OK \<longrightarrow> al" using run False by (auto split: if_splits)
    moreover have "no_gain U V h domain old_dentry (src @ ds) (dst @ ds) \<and> (exchange \<longrightarrow> no_gain U V h domain new_dentry (dst @ ds) (src @ ds))"
      if "al" "\<not> internal_end V e"
      using r(2) that by (cases exchange) auto
    ultimately show ?thesis using src dst ds unfolding internal_end_def by blast
  qed
qed

lemma sample_rights_ok: "rights_ok sample_rights"
proof -
  have "LANDLOCK_MASK_ACCESS_FS sample_rights = 32767"
    by (simp add: LANDLOCK_MASK_ACCESS_FS_def sample_rights_def push_bit_eq_mult)
  moreover have "\<exists>k < 16. LANDLOCK_ACCESS_FS_TRUNCATE sample_rights = 2 ^ k"
    by (rule exI [of _ 14]) (simp add: sample_rights_def)
  ultimately show ?thesis by (simp add: rights_ok_def) (simp add: sample_rights_def)
qed

theorem refer_no_gain_witness:
  "\<exists>rc src dst ds e.
    current_check_refer_path sample_rights sample_vfs sample_heap (Some sample_domain) 2 \<lparr>p_mnt = 0, p_dentry = 0\<rparr> 3 True False = Some rc \<and>
    collects sample_vfs 0 1 src \<and> collects sample_vfs 0 0 dst \<and> climbs sample_vfs 0 0 ds e \<and>
    (rc = OK \<and> \<not> (\<exists>m. e = Disconnected m \<and> mnt_internal sample_vfs m) \<longrightarrow>
       no_gain sample_rights sample_vfs sample_heap sample_domain 2 (src @ ds) (dst @ ds))"
  using refer_no_gain [OF sample_domain_ok sample_vfs_ok sample_rights_ok,
      of 2 False 3 "\<lparr>p_mnt = 0, p_dentry = 0\<rparr>" sample_heap True]
  by (simp add: sample_vfs_def is_nouser_or_private_def)

text \<open>
  Opening a file and truncating it later: opening is allowed exactly when the path check grants the
  accesses of the open mode, and the right recorded with the file lets a later \<open>ftruncate\<close> pass exactly when
  a \<open>truncate\<close> of the path passed at the time of the opening, whether the opening asked for it or not.
\<close>

lemma open_then_truncate:
  assumes "domain_ok domain" "vfs_ok V" "rights_ok U" "d_backing_inode V (p_dentry (f_path f)) \<noteq> None"
  shows "\<exists>req f'. get_required_file_open_access U V f = Some req \<and>
    hook_file_open U V h (Some domain) f =
      Some (if check_access_path U V h domain (f_path f) req = Some OK then OK else Err EACCES, f') \<and>
    (hook_file_truncate U f' = OK \<longleftrightarrow> hook_path_truncate U V h (Some domain) (f_path f) = Some OK)"
proof -
  obtain ds e where c: "climbs V (p_mnt (f_path f)) (p_dentry (f_path f)) ds e" using climbs_total [OF assms(2)] by blast
  obtain req where req: "get_required_file_open_access U V f = Some req"
    using assms(4) by (auto simp: get_required_file_open_access_def)
  show ?thesis
    using hook_file_open_ok [OF assms(1) c assms(3) req, of h] check_access_path_ok [OF assms(1) c, of U h] req
    by (auto simp: hook_file_truncate_def hook_path_truncate_def current_check_access_path_def)
qed

end
