(* ===== verification/Landlock_Syscalls.thy ===== *)
theory Landlock_Syscalls
  imports Landlock_Fs
begin

text \<open>
  The interface of Landlock to processes: the system calls (\<open>syscalls.c\<close>), the domains of credentials
  (\<open>cred.c\<close>, \<open>cred.h\<close>), the restriction of ptrace (\<open>ptrace.c\<close>) and the set-up (\<open>setup.c\<close>).

  The state of the system adds to the heap of objects and hierarchies the rulesets and domains by
  address, the open files, the credentials and the tasks. A ruleset is shared by the files that refer to
  it, a domain by the credentials that have it. Parameters stand for what the core kernel does: the copies
  from user memory and the constants of the user interface (\<open>user_api\<close>), the functions on credentials
  (\<open>cred_api\<close>), the table of file descriptors of the caller, and the outcome of the installation of a new
  descriptor. A system call runs without interruption. The credentials of a task are one structure:
  temporary overrides are left out.
\<close>

section \<open>State\<close>

text \<open>An open file: the ruleset it refers to when its operations are \<open>ruleset_fops\<close>, its modes and its path.\<close>

record kfile =
  ff_ruleset :: "u64 option"
  ff_can_read :: bool
  ff_can_write :: bool
  ff_o_path :: bool
  ff_path :: vpath

record landlock_cred_security =
  cred_domain :: "u64 option"

type_synonym cred = nat
type_synonym task = nat
type_synonym fd_table = "int \<Rightarrow> nat option"

record landlock_system =
  sys_heap :: landlock_heap
  sys_rulesets :: "u64 \<Rightarrow> landlock_ruleset option"
  sys_files :: "nat \<Rightarrow> kfile option"
  sys_creds :: "cred \<Rightarrow> landlock_cred_security option"
  sys_tasks :: "task \<Rightarrow> cred option"

definition set_ruleset :: "u64 \<Rightarrow> landlock_ruleset option \<Rightarrow> landlock_system \<Rightarrow> landlock_system" where
  "set_ruleset a p s = s\<lparr>sys_rulesets := (sys_rulesets s)(a := p)\<rparr>"

definition set_file :: "nat \<Rightarrow> kfile option \<Rightarrow> landlock_system \<Rightarrow> landlock_system" where
  "set_file f p s = s\<lparr>sys_files := (sys_files s)(f := p)\<rparr>"

definition set_cred :: "cred \<Rightarrow> landlock_cred_security option \<Rightarrow> landlock_system \<Rightarrow> landlock_system" where
  "set_cred c p s = s\<lparr>sys_creds := (sys_creds s)(c := p)\<rparr>"

definition set_task :: "task \<Rightarrow> cred option \<Rightarrow> landlock_system \<Rightarrow> landlock_system" where
  "set_task t p s = s\<lparr>sys_tasks := (sys_tasks s)(t := p)\<rparr>"

text \<open>References to a ruleset by its address.\<close>

definition get_ruleset_at :: "u64 \<Rightarrow> landlock_system \<Rightarrow> landlock_system option" where
  "get_ruleset_at a s = do {
     rs \<leftarrow> sys_rulesets s a;
     Some (set_ruleset a (landlock_get_ruleset (Some rs)) s)
   }"

definition put_ruleset_at :: "u64 option \<Rightarrow> landlock_system \<Rightarrow> landlock_system option" where
  "put_ruleset_at p s =
     (case p of
        None \<Rightarrow> Some s
      | Some a \<Rightarrow> do {
          rs \<leftarrow> sys_rulesets s a;
          (rest, h) \<leftarrow> landlock_put_ruleset (Some rs) (sys_heap s);
          Some (set_ruleset a rest (s\<lparr>sys_heap := h\<rparr>))
        })"

section \<open>Credentials\<close>

definition hook_cred_transfer :: "cred \<Rightarrow> cred \<Rightarrow> landlock_system \<Rightarrow> landlock_system option" where
  "hook_cred_transfer new old s = do {
     old_sec \<leftarrow> sys_creds s old;
     (case cred_domain old_sec of
        None \<Rightarrow> Some s
      | Some old_dom \<Rightarrow> do {
          s \<leftarrow> get_ruleset_at old_dom s;
          new_sec \<leftarrow> sys_creds s new;
          Some (set_cred new (Some (new_sec\<lparr>cred_domain := Some old_dom\<rparr>)) s)
        })
   }"

definition hook_cred_prepare :: "cred \<Rightarrow> cred \<Rightarrow> landlock_system \<Rightarrow> (rc \<times> landlock_system) option" where
  "hook_cred_prepare new old s = do { s \<leftarrow> hook_cred_transfer new old s; Some (OK, s) }"

definition hook_cred_free :: "cred \<Rightarrow> landlock_system \<Rightarrow> landlock_system option" where
  "hook_cred_free c s = do { sec \<leftarrow> sys_creds s c; put_ruleset_at (cred_domain sec) s }"

definition landlock_get_task_domain :: "task \<Rightarrow> landlock_system \<Rightarrow> landlock_ruleset option option" where
  "landlock_get_task_domain t s = do {
     c \<leftarrow> sys_tasks s t;
     sec \<leftarrow> sys_creds s c;
     (case cred_domain sec of None \<Rightarrow> Some None | Some a \<Rightarrow> do { d \<leftarrow> sys_rulesets s a; Some (Some d) })
   }"

definition landlocked :: "task \<Rightarrow> landlock_system \<Rightarrow> bool option" where
  "landlocked t s = do { d \<leftarrow> landlock_get_task_domain t s; Some (d \<noteq> None) }"

text \<open>The functions on credentials of the core kernel, by task, and what is relied on: they call the hooks.\<close>

record cred_api =
  prepare_creds :: "task \<Rightarrow> landlock_system \<Rightarrow> (cred option \<times> landlock_system) option"
  commit_creds :: "task \<Rightarrow> cred \<Rightarrow> landlock_system \<Rightarrow> (rc \<times> landlock_system) option"
  abort_creds :: "cred \<Rightarrow> landlock_system \<Rightarrow> landlock_system option"

definition prepares_creds :: "cred_api \<Rightarrow> bool" where
  "prepares_creds A \<longleftrightarrow>
     (\<forall>t c s. sys_tasks s t = Some c \<longrightarrow>
        prepare_creds A t s = Some (None, s) \<or>
        (\<exists>n. sys_creds s n = None \<and>
           prepare_creds A t s = do { (_, s) \<leftarrow> hook_cred_prepare n c (set_cred n (Some \<lparr>cred_domain = None\<rparr>) s); Some (Some n, s) }))"

definition commits_creds :: "cred_api \<Rightarrow> bool" where
  "commits_creds A \<longleftrightarrow> (\<forall>t n s. commit_creds A t n s = Some (OK, set_task t (Some n) s))"

definition aborts_creds :: "cred_api \<Rightarrow> bool" where
  "aborts_creds A \<longleftrightarrow> (\<forall>n s. abort_creds A n s = do { s \<leftarrow> hook_cred_free n s; Some (set_cred n None s) })"

section \<open>Set-up\<close>

text \<open>The errata of a build, as pairs of an interface version and a number that ends the table when it is 0.\<close>

definition LANDLOCK_ABI_VERSION :: int where "LANDLOCK_ABI_VERSION = 3"

fun compute_errata :: "(int \<times> u8) list \<Rightarrow> u32 \<Rightarrow> u32" where
  "compute_errata [] errata = errata"
| "compute_errata ((abi, number) # rest) errata =
     (if number = 0 then errata
      else if abi > LANDLOCK_ABI_VERSION then compute_errata rest errata
      else compute_errata rest (errata OR push_bit (unat number - 1) 1))"

text \<open>What the system calls take from user space and from the build.\<close>

record user_api =
  landlock_initialized :: bool
  landlock_errata :: u32
  PAGE_SIZE :: u64
  LANDLOCK_CREATE_RULESET_VERSION :: u32
  LANDLOCK_CREATE_RULESET_ERRATA :: u32
  LANDLOCK_RULE_PATH_BENEATH :: u32
  copy_struct_from_user :: "nat \<Rightarrow> u64 \<Rightarrow> u64 \<Rightarrow> errno + u64"
  copy_from_user :: "u64 \<Rightarrow> (u64 \<times> int) option"

definition copy_min_struct_from_user :: "user_api \<Rightarrow> nat \<Rightarrow> nat \<Rightarrow> u64 \<Rightarrow> u64 \<Rightarrow> errno + u64" where
  "copy_min_struct_from_user E ksize ksize_min src usize =
     (if src = 0 then Inl EFAULT
      else if unat usize < ksize_min then Inl EINVAL
      else if usize > PAGE_SIZE E then Inl E2BIG
      else copy_struct_from_user E ksize src usize)"

section \<open>Ruleset descriptors\<close>

definition fop_ruleset_release :: "kfile \<Rightarrow> landlock_system \<Rightarrow> (rc \<times> landlock_system) option" where
  "fop_ruleset_release filp s = do { s \<leftarrow> put_ruleset_at (ff_ruleset filp) s; Some (OK, s) }"

definition fop_dummy_read :: rc where "fop_dummy_read = Err EINVAL"

definition fop_dummy_write :: rc where "fop_dummy_write = Err EINVAL"

text \<open>The outcome of the installation of a descriptor is an error, or the descriptor and the new file.\<close>

definition sys_landlock_create_ruleset ::
  "fs_rights \<Rightarrow> user_api \<Rightarrow> u64 \<Rightarrow> u64 \<Rightarrow> u32 \<Rightarrow> errno + int \<times> nat \<Rightarrow> landlock_system \<Rightarrow> ((errno + int) \<times> landlock_system) option" where
  "sys_landlock_create_ruleset U E attr sz flags getfd s =
     (if \<not> landlock_initialized E then Some (Inl EOPNOTSUPP, s)
      else if flags \<noteq> 0 then
        (if attr \<noteq> 0 \<or> sz \<noteq> 0 then Some (Inl EINVAL, s)
         else if flags = LANDLOCK_CREATE_RULESET_VERSION E then Some (Inr LANDLOCK_ABI_VERSION, s)
         else if flags = LANDLOCK_CREATE_RULESET_ERRATA E then Some (Inr (sint (landlock_errata E)), s)
         else Some (Inl EINVAL, s))
      else
        (case copy_min_struct_from_user E 8 8 attr sz of
           Inl e \<Rightarrow> Some (Inl e, s)
         | Inr handled_access_fs \<Rightarrow>
             if handled_access_fs OR ucast (LANDLOCK_MASK_ACCESS_FS U) \<noteq> ucast (LANDLOCK_MASK_ACCESS_FS U) then Some (Inl EINVAL, s)
             else
               (case landlock_create_ruleset (ucast handled_access_fs) (sys_heap s) of
                  (Inl e, h) \<Rightarrow> Some (Inl e, s\<lparr>sys_heap := h\<rparr>)
                | (Inr ruleset, h) \<Rightarrow>
                    (let s = set_ruleset (rs_addr ruleset) (Some ruleset) (s\<lparr>sys_heap := h\<rparr>)
                     in case getfd of
                          Inl e \<Rightarrow> do { s \<leftarrow> put_ruleset_at (Some (rs_addr ruleset)) s; Some (Inl e, s) }
                        | Inr (fd, f) \<Rightarrow>
                            Some (Inr fd, set_file f (Some \<lparr>ff_ruleset = Some (rs_addr ruleset), ff_can_read = True, ff_can_write = True,
                                                          ff_o_path = False, ff_path = \<lparr>p_mnt = 0, p_dentry = 0\<rparr>\<rparr>) s)))))"

text \<open>A descriptor that was opened with \<open>O_PATH\<close> gives no file to \<open>fdget\<close>, only to \<open>fdget_raw\<close>.\<close>

definition fdget_raw :: "fd_table \<Rightarrow> int \<Rightarrow> landlock_system \<Rightarrow> kfile option" where
  "fdget_raw fdt fd s = do { f \<leftarrow> fdt fd; sys_files s f }"

definition fdget :: "fd_table \<Rightarrow> int \<Rightarrow> landlock_system \<Rightarrow> kfile option" where
  "fdget fdt fd s = do { f \<leftarrow> fdget_raw fdt fd s; (if ff_o_path f then None else Some f) }"

definition get_ruleset_from_fd ::
  "fd_table \<Rightarrow> int \<Rightarrow> (kfile \<Rightarrow> bool) \<Rightarrow> landlock_system \<Rightarrow> ((errno + u64) \<times> landlock_system) option" where
  "get_ruleset_from_fd fdt fd mode s =
     (case fdget fdt fd s of
        None \<Rightarrow> Some (Inl EBADF, s)
      | Some f \<Rightarrow>
          (case ff_ruleset f of
             None \<Rightarrow> Some (Inl EBADFD, s)
           | Some a \<Rightarrow>
               if \<not> mode f then Some (Inl EPERM, s)
               else do {
                 ruleset \<leftarrow> sys_rulesets s a;
                 (if rs_num_layers ruleset \<noteq> 1 then Some (Inl EINVAL, s)
                  else do { s \<leftarrow> get_ruleset_at a s; Some (Inr a, s) })
               }))"

definition get_path_from_fd :: "vfs \<Rightarrow> fd_table \<Rightarrow> int \<Rightarrow> landlock_system \<Rightarrow> errno + vpath" where
  "get_path_from_fd V fdt fd s =
     (case fdget_raw fdt fd s of
        None \<Rightarrow> Inl EBADF
      | Some f \<Rightarrow>
          if ff_ruleset f \<noteq> None \<or> mnt_internal V (p_mnt (ff_path f)) \<or> sb_nouser V (p_dentry (ff_path f)) \<or>
             (case d_backing_inode V (p_dentry (ff_path f)) of None \<Rightarrow> True | Some i \<Rightarrow> is_private V i)
          then Inl EBADFD
          else Inr (ff_path f))"

section \<open>Adding rules\<close>

text \<open>What follows once the ruleset is held; the reference is dropped at the end on every path.\<close>

definition add_path_rule ::
  "fs_rights \<Rightarrow> vfs \<Rightarrow> rebalance \<Rightarrow> (landlock_heap \<Rightarrow> landlock_heap) list \<Rightarrow> user_api \<Rightarrow> fd_table \<Rightarrow> u64 \<Rightarrow> u32 \<Rightarrow> u64 \<Rightarrow> landlock_system \<Rightarrow>
   (rc \<times> landlock_system) option" where
  "add_path_rule U V rebal envs E fdt a rule_type rule_attr s =
     (if rule_type \<noteq> LANDLOCK_RULE_PATH_BENEATH E then Some (Err EINVAL, s)
      else
        (case copy_from_user E rule_attr of
           None \<Rightarrow> Some (Err EFAULT, s)
         | Some (allowed, parent_fd) \<Rightarrow>
             if allowed = 0 then Some (Err ENOMSG, s)
             else do {
               ruleset \<leftarrow> sys_rulesets s a;
               (if allowed OR ucast (fs_access_masks ruleset ! 0) \<noteq> ucast (fs_access_masks ruleset ! 0) then Some (Err EINVAL, s)
                else
                  (case get_path_from_fd V fdt parent_fd s of
                     Inl e \<Rightarrow> Some (Err e, s)
                   | Inr path \<Rightarrow> do {
                       (err, ruleset, h) \<leftarrow> landlock_append_fs_rule U V rebal envs ruleset path (ucast allowed) (sys_heap s);
                       Some (err, set_ruleset a (Some ruleset) (s\<lparr>sys_heap := h\<rparr>))
                     }))
             }))"

definition sys_landlock_add_rule ::
  "fs_rights \<Rightarrow> vfs \<Rightarrow> rebalance \<Rightarrow> (landlock_heap \<Rightarrow> landlock_heap) list \<Rightarrow> user_api \<Rightarrow> fd_table \<Rightarrow> int \<Rightarrow> u32 \<Rightarrow> u64 \<Rightarrow> u32 \<Rightarrow>
   landlock_system \<Rightarrow> (rc \<times> landlock_system) option" where
  "sys_landlock_add_rule U V rebal envs E fdt ruleset_fd rule_type rule_attr flags s =
     (if \<not> landlock_initialized E then Some (Err EOPNOTSUPP, s)
      else if flags \<noteq> 0 then Some (Err EINVAL, s)
      else do {
        (r, s) \<leftarrow> get_ruleset_from_fd fdt ruleset_fd ff_can_write s;
        (case r of
           Inl e \<Rightarrow> Some (Err e, s)
         | Inr a \<Rightarrow> do {
             (err, s) \<leftarrow> add_path_rule U V rebal envs E fdt a rule_type rule_attr s;
             s \<leftarrow> put_ruleset_at (Some a) s;
             Some (err, s)
           })
      })"

section \<open>Enforcement\<close>

text \<open>The domain of the prepared credentials is replaced by its merge with the ruleset.\<close>

definition replace_domain :: "rebalance \<Rightarrow> cred \<Rightarrow> u64 \<Rightarrow> landlock_system \<Rightarrow> (rc \<times> landlock_system) option" where
  "replace_domain rebal new a s = do {
     new_llcred \<leftarrow> sys_creds s new;
     ruleset \<leftarrow> sys_rulesets s a;
     parent \<leftarrow> (case cred_domain new_llcred of None \<Rightarrow> Some None | Some p \<Rightarrow> do { d \<leftarrow> sys_rulesets s p; Some (Some d) });
     (new_dom, h) \<leftarrow> landlock_merge_ruleset rebal parent (Some ruleset) (sys_heap s);
     (case new_dom of
        Inl e \<Rightarrow> Some (Err e, s\<lparr>sys_heap := h\<rparr>)
      | Inr d \<Rightarrow> do {
          s \<leftarrow> put_ruleset_at (cred_domain new_llcred) (set_ruleset (rs_addr d) (Some d) (s\<lparr>sys_heap := h\<rparr>));
          Some (OK, set_cred new (Some (new_llcred\<lparr>cred_domain := Some (rs_addr d)\<rparr>)) s)
        })
   }"

definition sys_landlock_restrict_self ::
  "rebalance \<Rightarrow> cred_api \<Rightarrow> user_api \<Rightarrow> fd_table \<Rightarrow> task \<Rightarrow> bool \<Rightarrow> bool \<Rightarrow> int \<Rightarrow> u32 \<Rightarrow> landlock_system \<Rightarrow> (rc \<times> landlock_system) option" where
  "sys_landlock_restrict_self rebal A E fdt t no_new_privs cap_sys_admin ruleset_fd flags s =
     (if \<not> landlock_initialized E then Some (Err EOPNOTSUPP, s)
      else if \<not> no_new_privs \<and> \<not> cap_sys_admin then Some (Err EPERM, s)
      else if flags \<noteq> 0 then Some (Err EINVAL, s)
      else do {
        (r, s) \<leftarrow> get_ruleset_from_fd fdt ruleset_fd ff_can_read s;
        (case r of
           Inl e \<Rightarrow> Some (Err e, s)
         | Inr a \<Rightarrow> do {
             (new_cred, s) \<leftarrow> prepare_creds A t s;
             (case new_cred of
                None \<Rightarrow> do { s \<leftarrow> put_ruleset_at (Some a) s; Some (Err ENOMEM, s) }
              | Some new \<Rightarrow> do {
                  (err, s) \<leftarrow> replace_domain rebal new a s;
                  (case err of
                     OK \<Rightarrow> do { s \<leftarrow> put_ruleset_at (Some a) s; commit_creds A t new s }
                   | Err e \<Rightarrow> do { s \<leftarrow> abort_creds A new s; s \<leftarrow> put_ruleset_at (Some a) s; Some (Err e, s) })
                })
           })
      })"

section \<open>Ptrace\<close>

partial_function (option) scope_walk :: "landlock_heap \<Rightarrow> u64 option \<Rightarrow> u64 option \<Rightarrow> bool option" where
  "scope_walk h target walker =
     (case walker of
        None \<Rightarrow> Some False
      | Some w \<Rightarrow>
          if target = Some w then Some True
          else do { n \<leftarrow> lh_hierarchies h w; scope_walk h target (h_parent n) })"

definition domain_scope_le :: "landlock_heap \<Rightarrow> landlock_ruleset option \<Rightarrow> landlock_ruleset option \<Rightarrow> bool option" where
  "domain_scope_le h parent child =
     (case parent of
        None \<Rightarrow> Some True
      | Some p \<Rightarrow> (case child of None \<Rightarrow> Some False | Some c \<Rightarrow> scope_walk h (rs_hierarchy p) (rs_hierarchy c)))"

definition task_is_scoped :: "task \<Rightarrow> task \<Rightarrow> landlock_system \<Rightarrow> bool option" where
  "task_is_scoped parent child s = do {
     dom_parent \<leftarrow> landlock_get_task_domain parent s;
     dom_child \<leftarrow> landlock_get_task_domain child s;
     domain_scope_le (sys_heap s) dom_parent dom_child
   }"

definition task_ptrace :: "task \<Rightarrow> task \<Rightarrow> landlock_system \<Rightarrow> rc option" where
  "task_ptrace parent child s = do {
     locked \<leftarrow> landlocked parent s;
     (if \<not> locked then Some OK
      else do { scoped \<leftarrow> task_is_scoped parent child s; Some (if scoped then OK else Err EPERM) })
   }"

definition hook_ptrace_access_check :: "task \<Rightarrow> task \<Rightarrow> landlock_system \<Rightarrow> rc option" where
  "hook_ptrace_access_check cur child s = task_ptrace cur child s"

definition hook_ptrace_traceme :: "task \<Rightarrow> task \<Rightarrow> landlock_system \<Rightarrow> rc option" where
  "hook_ptrace_traceme cur parent s = task_ptrace parent cur s"

end
