(* ===== verification/Landlock_System.thy ===== *)
theory Landlock_System
  imports Landlock_Syscalls
begin

text \<open>
  The whole of Landlock as a transition system: system calls, forks, exits, closed files and unmounted
  file systems in any order. The invariant says that every reference counter is the number of references,
  from files and credentials to rulesets and domains, from domains and nodes to nodes of the hierarchy, and
  from rules to objects. From it follow that no operation follows a pointer to freed memory, and what a
  domain means for file accesses and for ptrace after a process restricted itself.
\<close>

section \<open>Stores with counted references\<close>

definition store_sum :: "('v \<Rightarrow> 'a) \<Rightarrow> ('k \<Rightarrow> 'v option) \<Rightarrow> 'a :: comm_monoid_add" where
  "store_sum g R = (\<Sum>k \<in> dom R. g (the (R k)))"

definition refs_to :: "('v \<Rightarrow> u64 option) \<Rightarrow> 'v \<Rightarrow> u64 multiset" where
  "refs_to p v = (case p v of None \<Rightarrow> {#} | Some a \<Rightarrow> {#a#})"

lemma store_sum_split:
  assumes "finite (dom R)"
  shows "store_sum g R = (case R k of None \<Rightarrow> 0 | Some v \<Rightarrow> g v) + store_sum g (R(k := None))"
proof (cases "R k")
  case None
  then show ?thesis by (simp add: fun_upd_idem)
next
  case (Some v)
  have "store_sum g R = g (the (R k)) + (\<Sum>j \<in> dom R - {k}. g (the (R j)))"
    unfolding store_sum_def using sum.remove [OF assms domI [where m = R, OF Some]] .
  moreover have "store_sum g (R(k := None)) = (\<Sum>j \<in> dom R - {k}. g (the (R j)))"
    unfolding store_sum_def by (rule sum.cong) auto
  ultimately show ?thesis unfolding Some by simp
qed

lemma store_sum_update:
  assumes "finite (dom R)"
  shows "store_sum g (R(k \<mapsto> v)) = g v + store_sum g (R(k := None))"
  using store_sum_split [of "R(k \<mapsto> v)" g k] assms by simp

lemma store_sum_new: "finite (dom R) \<Longrightarrow> R k = None \<Longrightarrow> store_sum g (R(k \<mapsto> v)) = g v + store_sum g R"
  by (simp add: store_sum_update fun_upd_idem)

lemma store_sum_old: "finite (dom R) \<Longrightarrow> R k = Some v \<Longrightarrow> store_sum g R = g v + store_sum g (R(k := None))"
  using store_sum_split [of R g k] by simp

lemma store_sum_same: "finite (dom R) \<Longrightarrow> R k = Some v \<Longrightarrow> g v' = g v \<Longrightarrow> store_sum g (R(k \<mapsto> v')) = store_sum g R"
  by (simp add: store_sum_update store_sum_old)

lemma store_sum_mem:
  assumes "finite (dom R)" "R k = Some v" "x \<in># g v"
  shows "x \<in># store_sum g R"
  using store_sum_old [OF assms(1,2), of g] assms(3) by simp

lemma store_sum_memE:
  fixes R :: "'b \<Rightarrow> 'v option"
  assumes "x \<in># store_sum g R" "finite (dom R)"
  obtains k v where "R k = Some v" "x \<in># g v"
proof -
  have "set_mset (sum f (S :: 'b set)) \<subseteq> (\<Union>k \<in> S. set_mset (f k))" if "finite S" for f S
    using that by (induction S rule: finite_induct) auto
  from this [OF assms(2), of "\<lambda>k. g (the (R k))"] obtain k where "k \<in> dom R" "x \<in># g (the (R k))"
    using assms(1) unfolding store_sum_def by blast
  then show thesis using that by auto
qed

lemma refs_to_simps [simp]: "p v = None \<Longrightarrow> refs_to p v = {#}" "p v = Some a \<Longrightarrow> refs_to p v = {#a#}"
  by (simp_all add: refs_to_def)

lemma refs_to_mem [simp]: "a \<in># refs_to p v \<longleftrightarrow> p v = Some a"
  by (auto simp: refs_to_def split: option.splits)

section \<open>The hierarchy of domains\<close>

text \<open>Following parents from a node ends at a root.\<close>

inductive rooted :: "(u64 \<Rightarrow> landlock_hierarchy option) \<Rightarrow> u64 \<Rightarrow> bool" for H where
  root: "H a = Some n \<Longrightarrow> h_parent n = None \<Longrightarrow> rooted H a"
| child: "H a = Some n \<Longrightarrow> h_parent n = Some p \<Longrightarrow> rooted H p \<Longrightarrow> rooted H a"

text \<open>Every node is counted by the domains that have it, the multiset, and by the nodes below it.\<close>

definition nodes_ok :: "(u64 \<Rightarrow> landlock_hierarchy option) \<Rightarrow> u64 multiset \<Rightarrow> bool" where
  "nodes_ok H D \<longleftrightarrow> finite (dom H) \<and> counted h_usage H (D + store_sum (refs_to h_parent) H) \<and> (\<forall>a \<in> dom H. rooted H a)"

text \<open>The nodes that remain keep their parents.\<close>

definition keeps_nodes :: "(u64 \<Rightarrow> landlock_hierarchy option) \<Rightarrow> (u64 \<Rightarrow> landlock_hierarchy option) \<Rightarrow> bool" where
  "keeps_nodes H H' \<longleftrightarrow> (\<forall>a n'. H' a = Some n' \<longrightarrow> (\<exists>n. H a = Some n \<and> h_parent n' = h_parent n))"

lemma keeps_nodes_refl [simp]: "keeps_nodes H H"
  by (simp add: keeps_nodes_def)

lemma keeps_nodes_trans: "keeps_nodes H H' \<Longrightarrow> keeps_nodes H' H'' \<Longrightarrow> keeps_nodes H H''"
  unfolding keeps_nodes_def by metis

lemma rooted_mono:
  assumes "rooted H a" "P a" "\<And>b n. P b \<Longrightarrow> H b = Some n \<Longrightarrow> \<exists>n'. H' b = Some n' \<and> h_parent n' = h_parent n"
    and "\<And>b n p. P b \<Longrightarrow> H b = Some n \<Longrightarrow> h_parent n = Some p \<Longrightarrow> P p"
  shows "rooted H' a"
  using assms(1,2)
proof (induction rule: rooted.induct)
  case (root a n)
  then show ?case using assms(3) [of a n] by (auto intro: rooted.root)
next
  case (child a n p)
  then show ?case using assms(3) [of a n] assms(4) [of a n p] by (auto intro: rooted.child)
qed

lemma nodes_okD:
  assumes "nodes_ok H D"
  shows "finite (dom H)" "counted h_usage H (D + store_sum (refs_to h_parent) H)" "\<And>a n. H a = Some n \<Longrightarrow> rooted H a"
  using assms by (auto simp: nodes_ok_def)

lemma nodes_ok_parent:
  assumes "nodes_ok H D" "H a = Some n" "h_parent n = Some p"
  shows "H p \<noteq> None"
  using counted_mem [OF nodes_okD(2) [OF assms(1)], of p] store_sum_mem [OF nodes_okD(1) [OF assms(1)] assms(2), of p "refs_to h_parent"] assms(3)
  by simp

lemma nodes_ok_mem: "nodes_ok H D \<Longrightarrow> a \<in># D \<Longrightarrow> H a \<noteq> None"
  using counted_mem [OF nodes_okD(2), of H D a] by simp

text \<open>A node that nothing refers to any more is freed, and gives up its parent.\<close>

lemma nodes_ok_free:
  assumes "nodes_ok H (add_mset a D)" "H a = Some n" "h_usage n = 1"
  shows "nodes_ok (H(a := None)) (D + refs_to h_parent n)" "keeps_nodes H (H(a := None))"
proof -
  note ok = nodes_okD [OF assms(1)]
  let ?M = "D + store_sum (refs_to h_parent) H"
  have "counted h_usage H (add_mset a ?M)" using ok(2) by simp
  then obtain v where "H a = Some v" "h_usage v = count ?M a + 1" "h_usage v \<noteq> 0"
      and c: "h_usage v = 1 \<longrightarrow> counted h_usage (H(a := None)) ?M"
      "h_usage v \<noteq> 1 \<longrightarrow> counted h_usage (H(a \<mapsto> v\<lparr>h_usage := h_usage v - 1\<rparr>)) ?M"
    by (rule node_count.counted_put)
  then have v: "v = n" "a \<notin># ?M" using assms(2,3) by (auto simp: not_in_iff)
  have sum: "store_sum (refs_to h_parent) H = refs_to h_parent n + store_sum (refs_to h_parent) (H(a := None))"
    by (rule store_sum_old [OF ok(1) assms(2)])
  have "rooted (H(a := None)) b" if "H b = Some m" "b \<noteq> a" for b m
  proof (rule rooted_mono [OF ok(3) [OF that(1)]])
    show "\<exists>n'. (H(a := None)) b = Some n' \<and> h_parent n' = h_parent n" if "b \<noteq> a" "H b = Some n" for b n using that by simp
    show "p \<noteq> a" if "b \<noteq> a" "H b = Some n" "h_parent n = Some p" for b n p
      using v(2) store_sum_mem [OF ok(1) that(2), of p "refs_to h_parent"] that(3) by auto
  qed (use that in simp)
  then show "nodes_ok (H(a := None)) (D + refs_to h_parent n)"
    using c(1) v(1) assms(3) sum ok(1) by (auto simp: nodes_ok_def ac_simps split: if_splits)
  show "keeps_nodes H (H(a := None))" by (auto simp: keeps_nodes_def)
qed

lemma nodes_ok_update:
  assumes "nodes_ok H D" "H a = Some n" "h_parent n' = h_parent n"
    and "counted h_usage (H(a \<mapsto> n')) (D' + store_sum (refs_to h_parent) H)"
  shows "nodes_ok (H(a \<mapsto> n')) D'"
proof -
  note ok = nodes_okD [OF assms(1)]
  have "store_sum (refs_to h_parent) (H(a \<mapsto> n')) = store_sum (refs_to h_parent) H"
    by (rule store_sum_same [OF ok(1) assms(2)]) (simp add: refs_to_def assms(3))
  moreover have "rooted (H(a \<mapsto> n')) b" if "H b = Some m" for b m
    by (rule rooted_mono [OF ok(3) [OF that], where P = "\<lambda>_. True"]) (use assms(2,3) in auto)
  ultimately show ?thesis using ok(1) assms(2,4) by (auto simp: nodes_ok_def split: if_splits)
qed

lemma put_hierarchy_ok:
  assumes "nodes_ok (lh_hierarchies h) (add_mset a D)"
  shows "\<exists>H'. put_hierarchy (Some a) h = Some (h\<lparr>lh_hierarchies := H'\<rparr>) \<and> nodes_ok H' D \<and> keeps_nodes (lh_hierarchies h) H'"
  using assms
proof (induction "card (dom (lh_hierarchies h))" arbitrary: h a rule: less_induct)
  case less
  let ?H = "lh_hierarchies h"
  note ok = nodes_okD [OF less.prems]
  obtain n where n: "?H a = Some n" using nodes_ok_mem [OF less.prems, of a] by auto
  show ?case
  proof (cases "h_usage n = 1")
    case True
    note free = nodes_ok_free [OF less.prems n True]
    have "card (dom (?H(a := None))) < card (dom ?H)" using ok(1) n by (auto intro!: psubset_card_mono)
    then have IH: "\<exists>H'. put_hierarchy (Some p) (set_hierarchy a None h) = Some (h\<lparr>lh_hierarchies := H'\<rparr>) \<and> nodes_ok H' D \<and> keeps_nodes (?H(a := None)) H'"
      if "h_parent n = Some p" for p
      using less.hyps [of "set_hierarchy a None h" p] free(1) that by (simp add: set_hierarchy_def)
    show ?thesis
    proof (cases "h_parent n")
      case None
      then have "put_hierarchy (Some a) h = Some (h\<lparr>lh_hierarchies := ?H(a := None)\<rparr>)"
        using n True by (simp add: put_hierarchy.simps [of "Some a"] put_hierarchy.simps [of None] set_hierarchy_def)
      then show ?thesis using free None by (intro exI [of _ "?H(a := None)"]) simp
    next
      case (Some p)
      then show ?thesis
        using IH [OF Some] n True keeps_nodes_trans [OF free(2)] by (auto simp: put_hierarchy.simps [of "Some a"])
    qed
  next
    case False
    let ?n = "n\<lparr>h_usage := h_usage n - 1\<rparr>"
    have "counted h_usage ?H (add_mset a (D + store_sum (refs_to h_parent) ?H))" using ok(2) by simp
    then have "counted h_usage (?H(a \<mapsto> ?n)) (D + store_sum (refs_to h_parent) ?H)" "h_usage n \<noteq> 0"
      using n False by (auto elim: node_count.counted_put)
    then have "nodes_ok (?H(a \<mapsto> ?n)) D" "h_usage n \<noteq> 0" using nodes_ok_update [OF less.prems n] by simp_all
    moreover have "keeps_nodes ?H (?H(a \<mapsto> ?n))" using n by (simp add: keeps_nodes_def)
    ultimately show ?thesis
      using n False by (intro exI [of _ "?H(a \<mapsto> ?n)"]) (simp add: put_hierarchy.simps [of "Some a"] set_hierarchy_def)
  qed
qed

text \<open>The node of a new domain, below the node of its parent.\<close>

lemma nodes_ok_link:
  assumes "nodes_ok H D" "H a = None" "\<And>d. p = Some d \<Longrightarrow> \<exists>ph. rs_hierarchy d = Some ph \<and> H ph \<noteq> None"
  shows "nodes_ok (link_hierarchy p a (H(a \<mapsto> \<lparr>h_parent = None, h_usage = 1\<rparr>))) (add_mset a D)"
proof -
  note ok = nodes_okD [OF assms(1)]
  let ?S = "store_sum (refs_to h_parent) H"
  have other: "rooted H' b" if "H b = Some m" "\<And>b n. H b = Some n \<Longrightarrow> \<exists>n'. H' b = Some n' \<and> h_parent n' = h_parent n" for H' b m
    by (rule rooted_mono [OF ok(3) [OF that(1)], where P = "\<lambda>_. True"]) (use that(2) in auto)
  show ?thesis
  proof (cases p)
    case None
    let ?H = "H(a \<mapsto> \<lparr>h_parent = None, h_usage = 1\<rparr>)"
    have "store_sum (refs_to h_parent) ?H = ?S" using store_sum_new [OF ok(1) assms(2), of "refs_to h_parent"] by simp
    moreover have "counted h_usage ?H (add_mset a (D + ?S))" by (rule node_count.counted_new [OF ok(2) assms(2)]) simp
    moreover have "rooted ?H b" if b: "b \<in> dom ?H" for b
    proof (cases "b = a")
      case False
      then obtain m where "H b = Some m" using b by auto
      then show ?thesis by (rule other) (use assms(2) in auto)
    qed (auto intro: rooted.root)
    ultimately show ?thesis using None ok(1) by (auto simp: nodes_ok_def link_hierarchy_def)
  next
    case (Some d)
    then obtain ph n where ph: "rs_hierarchy d = Some ph" "H ph = Some n" using assms(3) by auto
    then have neq: "ph \<noteq> a" using assms(2) by auto
    let ?H1 = "H(ph \<mapsto> n\<lparr>h_usage := h_usage n + 1\<rparr>)"
    let ?H = "?H1(a \<mapsto> \<lparr>h_parent = Some ph, h_usage = 1\<rparr>)"
    have link: "link_hierarchy p a (H(a \<mapsto> \<lparr>h_parent = None, h_usage = 1\<rparr>)) = ?H"
      using ph neq by (simp add: Some link_hierarchy_def Let_def fun_upd_twist)
    have "store_sum (refs_to h_parent) ?H1 = ?S" by (rule store_sum_same [OF ok(1) ph(2)]) (simp add: refs_to_def)
    then have sum: "store_sum (refs_to h_parent) ?H = add_mset ph ?S"
      using store_sum_new [of ?H1 a "refs_to h_parent"] ok(1) assms(2) neq by simp
    have "counted h_usage ?H1 (add_mset ph (D + ?S))" using node_count.counted_get [OF ok(2) ph(2)] by simp
    then have "counted h_usage ?H (add_mset a (add_mset ph (D + ?S)))"
      using assms(2) neq by (intro node_count.counted_new [where R = ?H1]) simp_all
    moreover have keep: "\<exists>n'. ?H b = Some n' \<and> h_parent n' = h_parent m" if "H b = Some m" for b m
      using that assms(2) ph(2) by auto
    moreover have "rooted ?H b" if b: "b \<in> dom ?H" for b
    proof (cases "b = a")
      case True
      have "rooted ?H ph" by (rule other [OF ph(2)]) (use keep in blast)
      then show ?thesis using True by (auto intro: rooted.child)
    next
      case False
      then obtain m where "H b = Some m" using b ph(2) by (auto split: if_splits)
      then show ?thesis by (rule other) (use keep in blast)
    qed
    ultimately show ?thesis using ok(1) unfolding link nodes_ok_def sum by (simp add: add_mset_commute)
  qed
qed

section \<open>The invariant\<close>

text \<open>
  The references to rulesets come from files, from credentials and from running code, the multiset \<open>X\<close>.
  A file refers to a ruleset, credentials to a domain.
\<close>

definition ruleset_refs :: "landlock_system \<Rightarrow> u64 multiset" where
  "ruleset_refs s = store_sum (refs_to ff_ruleset) (sys_files s) + store_sum (refs_to cred_domain) (sys_creds s)"

definition rulesets_ok :: "landlock_system \<Rightarrow> bool" where
  "rulesets_ok s \<longleftrightarrow> finite (dom (sys_rulesets s)) \<and>
     (\<forall>a rs. sys_rulesets s a = Some rs \<longrightarrow> rs_addr rs = a \<and> (if rs_hierarchy rs = None then ruleset_ok rs else domain_ok rs))"

definition users_ok :: "landlock_system \<Rightarrow> bool" where
  "users_ok s \<longleftrightarrow> finite (dom (sys_files s)) \<and> finite (dom (sys_creds s)) \<and>
     (\<forall>f x a. sys_files s f = Some x \<longrightarrow> ff_ruleset x = Some a \<longrightarrow> (\<exists>rs. sys_rulesets s a = Some rs \<and> rs_hierarchy rs = None)) \<and>
     (\<forall>c x a. sys_creds s c = Some x \<longrightarrow> cred_domain x = Some a \<longrightarrow> (\<exists>d. sys_rulesets s a = Some d \<and> rs_hierarchy d \<noteq> None)) \<and>
     (\<forall>t c. sys_tasks s t = Some c \<longrightarrow> sys_creds s c \<noteq> None)"

definition memory_ok :: "landlock_system \<Rightarrow> bool" where
  "memory_ok s \<longleftrightarrow> heap_ok (sys_heap s) (store_sum rule_refs (sys_rulesets s)) \<and>
     nodes_ok (lh_hierarchies (sys_heap s)) (store_sum (refs_to rs_hierarchy) (sys_rulesets s)) \<and>
     allocs_ok (sys_heap s) \<and> (\<forall>a. Some a \<in> set (lh_allocs (sys_heap s)) \<longrightarrow> sys_rulesets s a = None)"

definition sys_ok :: "u64 multiset \<Rightarrow> landlock_system \<Rightarrow> bool" where
  "sys_ok X s \<longleftrightarrow> rulesets_ok s \<and> users_ok s \<and> memory_ok s \<and> counted rs_usage (sys_rulesets s) (X + ruleset_refs s)"

lemmas sys_ok_parts = sys_ok_def rulesets_ok_def users_ok_def memory_ok_def

lemmas sys_setters = set_ruleset_def set_file_def set_cred_def set_task_def

lemma usage_irrelevant [simp]:
  "rule_refs (rs\<lparr>rs_usage := n\<rparr>) = rule_refs rs" "ruleset_ok (rs\<lparr>rs_usage := n\<rparr>) = ruleset_ok rs" "domain_ok (rs\<lparr>rs_usage := n\<rparr>) = domain_ok rs"
  by (simp_all add: rule_refs_def ruleset_ok_def rules_ok_def domain_ok_def layers_of_def)

lemma sys_okD:
  assumes "sys_ok X s" "sys_rulesets s a = Some rs"
  shows "rs_addr rs = a" "rs_hierarchy rs = None \<Longrightarrow> ruleset_ok rs" "rs_hierarchy rs \<noteq> None \<Longrightarrow> domain_ok rs"
    "set_mset (rule_refs rs) \<subseteq> set_mset (store_sum rule_refs (sys_rulesets s))"
    "\<And>n. rs_hierarchy rs = Some n \<Longrightarrow> lh_hierarchies (sys_heap s) n \<noteq> None"
proof -
  have ok: "rulesets_ok s" "memory_ok s" "finite (dom (sys_rulesets s))" using assms(1) by (simp_all add: sys_ok_def rulesets_ok_def)
  show "rs_addr rs = a" "rs_hierarchy rs = None \<Longrightarrow> ruleset_ok rs" "rs_hierarchy rs \<noteq> None \<Longrightarrow> domain_ok rs"
    using ok(1) assms(2) unfolding rulesets_ok_def by metis+
  show "set_mset (rule_refs rs) \<subseteq> set_mset (store_sum rule_refs (sys_rulesets s))"
    using store_sum_mem [of "sys_rulesets s", OF ok(3) assms(2)] by auto
  show "lh_hierarchies (sys_heap s) n \<noteq> None" if "rs_hierarchy rs = Some n" for n
    using ok(2) store_sum_mem [of "sys_rulesets s", OF ok(3) assms(2), of n "refs_to rs_hierarchy"] that nodes_ok_mem by (auto simp: memory_ok_def)
qed

lemma sys_ok_held: "sys_ok X s \<Longrightarrow> a \<in># X + ruleset_refs s \<Longrightarrow> \<exists>rs. sys_rulesets s a = Some rs"
  using counted_mem [of rs_usage "sys_rulesets s" "X + ruleset_refs s" a] by (auto simp: sys_ok_def)

lemma sys_ok_usage:
  assumes "sys_ok X s" "sys_rulesets s a = Some rs"
    and "counted rs_usage ((sys_rulesets s)(a \<mapsto> rs\<lparr>rs_usage := n\<rparr>)) (X' + ruleset_refs s)"
  shows "sys_ok X' (set_ruleset a (Some (rs\<lparr>rs_usage := n\<rparr>)) s)"
proof -
  let ?s = "set_ruleset a (Some (rs\<lparr>rs_usage := n\<rparr>)) s"
  have fin: "finite (dom (sys_rulesets s))" using assms(1) by (simp add: sys_ok_def rulesets_ok_def)
  have "rulesets_ok ?s" using assms(1,2) by (auto simp: sys_ok_def rulesets_ok_def set_ruleset_def)
  moreover have "users_ok ?s" using assms(1,2) unfolding sys_ok_def users_ok_def set_ruleset_def by fastforce
  moreover have "store_sum rule_refs (sys_rulesets ?s) = store_sum rule_refs (sys_rulesets s)"
      "store_sum (refs_to rs_hierarchy) (sys_rulesets ?s) = store_sum (refs_to rs_hierarchy) (sys_rulesets s)"
    unfolding set_ruleset_def by (simp_all add: store_sum_same [of "sys_rulesets s", OF fin assms(2)] refs_to_def)
  then have "memory_ok ?s" using assms(1,2) by (auto simp: sys_ok_def memory_ok_def set_ruleset_def)
  ultimately show ?thesis using assms(3) by (simp add: sys_ok_def set_ruleset_def ruleset_refs_def)
qed

text \<open>What remains of a system when references are dropped: rulesets up to their counters, nodes up to theirs.\<close>

definition keeps_rulesets :: "(u64 \<Rightarrow> landlock_ruleset option) \<Rightarrow> (u64 \<Rightarrow> landlock_ruleset option) \<Rightarrow> bool" where
  "keeps_rulesets R R' \<longleftrightarrow> (\<forall>a rs'. R' a = Some rs' \<longrightarrow> (\<exists>rs. R a = Some rs \<and> rs' = rs\<lparr>rs_usage := rs_usage rs'\<rparr>))"

lemma keeps_rulesets_refl [simp]: "keeps_rulesets R R"
  by (simp add: keeps_rulesets_def)

lemma keeps_rulesets_update: "keeps_rulesets R R' \<Longrightarrow> keeps_rulesets (R(a \<mapsto> d)) (R'(a \<mapsto> d))"
  by (simp add: keeps_rulesets_def)

lemma keeps_rulesets_usage: "R a = Some rs \<Longrightarrow> keeps_rulesets R (R(a \<mapsto> rs\<lparr>rs_usage := n\<rparr>))"
  by (simp add: keeps_rulesets_def)

lemma keeps_rulesets_free: "keeps_rulesets R (R(a := None))"
  by (simp add: keeps_rulesets_def)

lemma keeps_rulesets_trans:
  assumes "keeps_rulesets R R'" "keeps_rulesets R' R''"
  shows "keeps_rulesets R R''"
  unfolding keeps_rulesets_def
proof (intro allI impI)
  fix a rs2
  assume "R'' a = Some rs2"
  then obtain rs1 where r1: "R' a = Some rs1" "rs2 = rs1\<lparr>rs_usage := rs_usage rs2\<rparr>" using assms(2) unfolding keeps_rulesets_def by blast
  then obtain rs where "R a = Some rs" "rs1 = rs\<lparr>rs_usage := rs_usage rs1\<rparr>" using assms(1) unfolding keeps_rulesets_def by blast
  then show "\<exists>rs. R a = Some rs \<and> rs2 = rs\<lparr>rs_usage := rs_usage rs2\<rparr>" using r1(2) by (cases rs1; cases rs2; cases rs) simp
qed

definition keeps :: "landlock_system \<Rightarrow> landlock_system \<Rightarrow> bool" where
  "keeps s s' \<longleftrightarrow> keeps_rulesets (sys_rulesets s) (sys_rulesets s') \<and>
     keeps_nodes (lh_hierarchies (sys_heap s)) (lh_hierarchies (sys_heap s')) \<and>
     sys_files s' = sys_files s \<and> sys_creds s' = sys_creds s \<and> sys_tasks s' = sys_tasks s"

lemma keeps_refl [simp]: "keeps s s"
  by (simp add: keeps_def)

lemma keeps_rulesetD: "keeps s s' \<Longrightarrow> sys_rulesets s' a = Some rs' \<Longrightarrow> sys_rulesets s a = Some rs \<Longrightarrow> rs' = rs\<lparr>rs_usage := rs_usage rs'\<rparr>"
  unfolding keeps_def keeps_rulesets_def by (metis option.inject)

lemma get_ruleset_at_ok:
  assumes "sys_ok X s" "sys_rulesets s a = Some rs"
  shows "\<exists>s'. get_ruleset_at a s = Some s' \<and> sys_ok (add_mset a X) s' \<and> keeps s s' \<and>
    s' = set_ruleset a (Some (rs\<lparr>rs_usage := rs_usage rs + 1\<rparr>)) s"
proof -
  have "counted rs_usage ((sys_rulesets s)(a \<mapsto> rs\<lparr>rs_usage := rs_usage rs + 1\<rparr>)) (add_mset a X + ruleset_refs s)"
    using ruleset_count.counted_get [of "sys_rulesets s" "X + ruleset_refs s" a rs] assms by (simp add: sys_ok_def)
  then show ?thesis
    using sys_ok_usage [OF assms, of "rs_usage rs + 1" "add_mset a X"] assms(2)
    by (auto simp: get_ruleset_at_def landlock_get_ruleset_def keeps_def set_ruleset_def intro: keeps_rulesets_usage)
qed

lemma allocs_ok_keeps:
  assumes "allocs_ok h" "lh_allocs h' = lh_allocs h" "dom (lh_objects h') \<subseteq> dom (lh_objects h)" "keeps_nodes (lh_hierarchies h) (lh_hierarchies h')"
  shows "allocs_ok h'"
  using assms(4) by (intro allocs_ok_mono [OF assms(1-3)]) (fastforce simp: keeps_nodes_def)

text \<open>The release of the last reference to a ruleset or domain.\<close>

lemma free_ruleset_sys:
  assumes "sys_ok (add_mset a X) s" "sys_rulesets s a = Some rs" "rs_usage rs = 1"
  shows "\<exists>h'. free_ruleset rs (sys_heap s) = Some h' \<and> memory_ok (set_ruleset a None (s\<lparr>sys_heap := h'\<rparr>)) \<and>
    keeps_nodes (lh_hierarchies (sys_heap s)) (lh_hierarchies h')"
proof -
  let ?R = "sys_rulesets s" and ?h = "sys_heap s"
  let ?M = "store_sum rule_refs (?R(a := None))" and ?D = "store_sum (refs_to rs_hierarchy) (?R(a := None))"
  have fin: "finite (dom ?R)" and mem: "memory_ok s" using assms(1) by (simp_all add: sys_ok_def rulesets_ok_def)
  have sums: "store_sum rule_refs ?R = rule_refs rs + ?M" "store_sum (refs_to rs_hierarchy) ?R = refs_to rs_hierarchy rs + ?D"
    by (rule store_sum_old [OF fin assms(2)])+
  have "heap_ok ?h (?M + rule_refs rs)" using mem by (simp add: memory_ok_def sums ac_simps)
  from free_ruleset_ok [OF this] obtain h1 where h1: "free_ruleset rs ?h = put_hierarchy (rs_hierarchy rs) h1" "heap_ok h1 ?M"
      "lh_hierarchies h1 = lh_hierarchies ?h" "lh_allocs h1 = lh_allocs ?h" "allocs_ok ?h \<longrightarrow> allocs_ok h1"
    by blast
  have nodes: "nodes_ok (lh_hierarchies h1) (refs_to rs_hierarchy rs + ?D)" and al: "allocs_ok h1"
    using mem h1(3,5) by (simp_all add: memory_ok_def sums)
  obtain H' where H': "put_hierarchy (rs_hierarchy rs) h1 = Some (h1\<lparr>lh_hierarchies := H'\<rparr>)" "nodes_ok H' ?D" "keeps_nodes (lh_hierarchies h1) H'"
  proof (cases "rs_hierarchy rs")
    case None
    then show ?thesis using nodes by (intro that [of "lh_hierarchies h1"]) (simp_all add: put_hierarchy.simps [of None])
  next
    case (Some n)
    then show ?thesis using put_hierarchy_ok [of h1 n ?D] nodes that by auto
  qed
  have "allocs_ok (h1\<lparr>lh_hierarchies := H'\<rparr>)" using H'(3) by (intro allocs_ok_keeps [OF al]) simp_all
  moreover have "heap_ok (h1\<lparr>lh_hierarchies := H'\<rparr>) ?M" using h1(2) by (simp add: heap_ok_def refs_ok_def ties_ok_def)
  ultimately have "memory_ok (set_ruleset a None (s\<lparr>sys_heap := h1\<lparr>lh_hierarchies := H'\<rparr>\<rparr>))"
    using mem H'(2) h1(4) by (simp add: memory_ok_def set_ruleset_def)
  then show ?thesis using h1(1,3) H'(1,3) by simp
qed

lemma put_ruleset_at_ok:
  assumes "sys_ok (add_mset a X) s"
  shows "\<exists>s'. put_ruleset_at (Some a) s = Some s' \<and> sys_ok X s' \<and> keeps s s'"
proof -
  let ?R = "sys_rulesets s"
  have "counted rs_usage ?R (add_mset a (X + ruleset_refs s))" using assms by (simp add: sys_ok_def)
  then obtain rs where rs: "?R a = Some rs" "rs_usage rs = count (X + ruleset_refs s) a + 1" "rs_usage rs \<noteq> 0"
      "rs_usage rs = 1 \<longrightarrow> counted rs_usage (?R(a := None)) (X + ruleset_refs s)"
      "rs_usage rs \<noteq> 1 \<longrightarrow> counted rs_usage (?R(a \<mapsto> rs\<lparr>rs_usage := rs_usage rs - 1\<rparr>)) (X + ruleset_refs s)"
    by (rule ruleset_count.counted_put)
  show ?thesis
  proof (cases "rs_usage rs = 1")
    case False
    let ?s = "set_ruleset a (Some (rs\<lparr>rs_usage := rs_usage rs - 1\<rparr>)) s"
    have "sys_ok X ?s" using sys_ok_usage [OF assms rs(1)] rs(5) False by blast
    moreover have "keeps s ?s" using rs(1) by (simp add: keeps_def set_ruleset_def keeps_rulesets_usage)
    ultimately show ?thesis
      using rs(1,3) False by (auto simp: put_ruleset_at_def landlock_put_ruleset_def set_ruleset_def)
  next
    case True
    then obtain h' where h': "free_ruleset rs (sys_heap s) = Some h'" "memory_ok (set_ruleset a None (s\<lparr>sys_heap := h'\<rparr>))"
        "keeps_nodes (lh_hierarchies (sys_heap s)) (lh_hierarchies h')"
      using free_ruleset_sys [OF assms rs(1)] by blast
    let ?s = "set_ruleset a None (s\<lparr>sys_heap := h'\<rparr>)"
    have fin: "finite (dom (sys_files s))" "finite (dom (sys_creds s))" using assms by (simp_all add: sys_ok_def users_ok_def)
    have "a \<notin># ruleset_refs s" using rs(2) True by (simp add: not_in_iff)
    then have "ff_ruleset x \<noteq> Some a" if "sys_files s f = Some x" for f x
      using store_sum_mem [of "sys_files s" f, OF fin(1) that, of a "refs_to ff_ruleset"] by (auto simp: ruleset_refs_def)
    moreover have "cred_domain x \<noteq> Some a" if "sys_creds s c = Some x" for c x
      using \<open>a \<notin># ruleset_refs s\<close> store_sum_mem [of "sys_creds s" c, OF fin(2) that, of a "refs_to cred_domain"] by (auto simp: ruleset_refs_def)
    ultimately have "users_ok ?s" using assms unfolding sys_ok_def users_ok_def set_ruleset_def by fastforce
    moreover have "rulesets_ok ?s" using assms by (auto simp: sys_ok_def rulesets_ok_def set_ruleset_def)
    ultimately have "sys_ok X ?s" using h'(2) rs(4) True by (simp add: sys_ok_def set_ruleset_def ruleset_refs_def)
    moreover have "keeps s ?s" using h'(3) by (simp add: keeps_def set_ruleset_def keeps_rulesets_free)
    ultimately show ?thesis
      using rs(1,3) True h'(1) by (auto simp: put_ruleset_at_def landlock_put_ruleset_def)
  qed
qed

section \<open>Files, credentials and new rulesets\<close>

definition held_by :: "('v \<Rightarrow> u64 option) \<Rightarrow> 'v option \<Rightarrow> u64 multiset" where
  "held_by g p = (case p of None \<Rightarrow> {#} | Some x \<Rightarrow> refs_to g x)"

lemma held_by_simps [simp]: "held_by g None = {#}" "held_by g (Some x) = refs_to g x"
  by (simp_all add: held_by_def)

lemma store_sum_held:
  assumes "finite (dom R)" "X' + held_by g p = X + held_by g (R k)"
  shows "X' + store_sum (refs_to g) (R(k := p)) = X + store_sum (refs_to g) R"
proof -
  have "store_sum (refs_to g) (R(k := p)) = held_by g p + store_sum (refs_to g) (R(k := None))"
    using store_sum_split [of "R(k := p)" "refs_to g" k] assms(1) by (cases p) simp_all
  moreover have "store_sum (refs_to g) R = held_by g (R k) + store_sum (refs_to g) (R(k := None))"
    using store_sum_split [of R "refs_to g" k] assms(1) by (cases "R k") simp_all
  ultimately show ?thesis using assms(2) by (simp add: add.assoc [symmetric])
qed

text \<open>A change of credentials or of a file exchanges references of running code for references they hold.\<close>

lemma sys_ok_cred:
  assumes "sys_ok X s" "X' + held_by cred_domain p = X + held_by cred_domain (sys_creds s c)"
    and "\<And>x a. p = Some x \<Longrightarrow> cred_domain x = Some a \<Longrightarrow> \<exists>d. sys_rulesets s a = Some d \<and> rs_hierarchy d \<noteq> None"
    and "p = None \<Longrightarrow> \<forall>t. sys_tasks s t \<noteq> Some c"
  shows "sys_ok X' (set_cred c p s)"
proof -
  have fin: "finite (dom (sys_creds s))" using assms(1) by (simp add: sys_ok_def users_ok_def)
  have "X' + ruleset_refs (set_cred c p s) = X + ruleset_refs s"
    using store_sum_held [of "sys_creds s", OF fin assms(2)] by (simp add: ruleset_refs_def set_cred_def ac_simps)
  moreover have "users_ok (set_cred c p s)"
    using assms(1,3,4) fin unfolding sys_ok_def users_ok_def set_cred_def by (auto split: if_splits)
  ultimately show ?thesis using assms(1) by (simp add: sys_ok_def rulesets_ok_def memory_ok_def set_cred_def)
qed

lemma sys_ok_file:
  assumes "sys_ok X s" "X' + held_by ff_ruleset p = X + held_by ff_ruleset (sys_files s f)"
    and "\<And>x a. p = Some x \<Longrightarrow> ff_ruleset x = Some a \<Longrightarrow> \<exists>rs. sys_rulesets s a = Some rs \<and> rs_hierarchy rs = None"
  shows "sys_ok X' (set_file f p s)"
proof -
  have fin: "finite (dom (sys_files s))" using assms(1) by (simp add: sys_ok_def users_ok_def)
  have "X' + ruleset_refs (set_file f p s) = X + ruleset_refs s"
    using store_sum_held [of "sys_files s", OF fin assms(2)] by (simp add: ruleset_refs_def set_file_def ac_simps)
  moreover have "users_ok (set_file f p s)"
    using assms(1,3) fin unfolding sys_ok_def users_ok_def set_file_def by (auto split: if_splits)
  ultimately show ?thesis using assms(1) by (simp add: sys_ok_def rulesets_ok_def memory_ok_def set_file_def)
qed

lemma sys_ok_task:
  assumes "sys_ok X s" "\<And>c. p = Some c \<Longrightarrow> sys_creds s c \<noteq> None"
  shows "sys_ok X (set_task t p s)"
  using assms unfolding sys_ok_parts set_task_def ruleset_refs_def by auto

text \<open>The ruleset of an address that was free until now, with the reference of its creator.\<close>

lemma sys_ok_new:
  assumes "sys_ok X s" "sys_rulesets s a = None" "rs_addr rs = a" "rs_usage rs = 1"
    and "if rs_hierarchy rs = None then ruleset_ok rs else domain_ok rs"
    and "heap_ok h (store_sum rule_refs (sys_rulesets s) + rule_refs rs)"
    and "nodes_ok (lh_hierarchies h) (refs_to rs_hierarchy rs + store_sum (refs_to rs_hierarchy) (sys_rulesets s))"
    and "allocs_ok h" "set (lh_allocs h) \<subseteq> set (lh_allocs (sys_heap s))" "Some a \<notin> set (lh_allocs h)"
  shows "sys_ok (add_mset a X) (set_ruleset a (Some rs) (s\<lparr>sys_heap := h\<rparr>))"
proof -
  let ?s = "set_ruleset a (Some rs) (s\<lparr>sys_heap := h\<rparr>)"
  have fin: "finite (dom (sys_rulesets s))" using assms(1) by (simp add: sys_ok_def rulesets_ok_def)
  have "rulesets_ok ?s" using assms(1,3,5) by (auto simp: sys_ok_def rulesets_ok_def set_ruleset_def)
  moreover have "users_ok ?s" using assms(1,2) unfolding sys_ok_def users_ok_def set_ruleset_def by fastforce
  moreover have "memory_ok ?s"
    using assms(1,6-10) by (auto simp: sys_ok_def memory_ok_def set_ruleset_def store_sum_new [of "sys_rulesets s", OF fin assms(2)] ac_simps)
  moreover have "counted rs_usage ((sys_rulesets s)(a \<mapsto> rs)) (add_mset a (X + ruleset_refs s))"
    using assms(1,2,4) by (intro ruleset_count.counted_new [where R = "sys_rulesets s"]) (simp_all add: sys_ok_def)
  ultimately show ?thesis by (simp add: sys_ok_def set_ruleset_def ruleset_refs_def)
qed

text \<open>New rules for a ruleset.\<close>

lemma sys_ok_rules:
  assumes "sys_ok X s" "sys_rulesets s a = Some rs" "rs_hierarchy rs = None" "same_header rs rs'" "ruleset_ok rs'"
    and "heap_ok h (store_sum rule_refs ((sys_rulesets s)(a := None)) + rule_refs rs')"
    and "allocs_ok h" "lh_hierarchies h = lh_hierarchies (sys_heap s)" "set (lh_allocs h) \<subseteq> set (lh_allocs (sys_heap s))"
  shows "sys_ok X (set_ruleset a (Some rs') (s\<lparr>sys_heap := h\<rparr>))"
proof -
  let ?s = "set_ruleset a (Some rs') (s\<lparr>sys_heap := h\<rparr>)"
  note hd = same_headerD [OF assms(4)]
  have fin: "finite (dom (sys_rulesets s))" using assms(1) by (simp add: sys_ok_def rulesets_ok_def)
  have "rulesets_ok ?s" using assms(1-3,5) hd by (auto simp: sys_ok_def rulesets_ok_def set_ruleset_def)
  moreover have "users_ok ?s" using assms(1,2) hd unfolding sys_ok_def users_ok_def set_ruleset_def by fastforce
  moreover have "store_sum (refs_to rs_hierarchy) ((sys_rulesets s)(a \<mapsto> rs')) = store_sum (refs_to rs_hierarchy) (sys_rulesets s)"
    using hd by (simp add: store_sum_same [of "sys_rulesets s", OF fin assms(2)] refs_to_def)
  then have "memory_ok ?s"
    using assms(1,2,6-9) by (auto simp: sys_ok_def memory_ok_def set_ruleset_def store_sum_update [of "sys_rulesets s", OF fin] ac_simps)
  moreover have "counted rs_usage ((sys_rulesets s)(a \<mapsto> rs')) (X + ruleset_refs s)"
    using assms(1) hd by (intro ruleset_count.counted_same [where R = "sys_rulesets s", OF _ assms(2)]) (simp_all add: sys_ok_def)
  ultimately show ?thesis by (simp add: sys_ok_def set_ruleset_def ruleset_refs_def)
qed

text \<open>A heap in which only addresses were used up.\<close>

lemma sys_ok_heap:
  assumes "sys_ok X s" "heap_ok h (store_sum rule_refs (sys_rulesets s))" "allocs_ok h"
    and "lh_hierarchies h = lh_hierarchies (sys_heap s)" "set (lh_allocs h) \<subseteq> set (lh_allocs (sys_heap s))"
  shows "sys_ok X (s\<lparr>sys_heap := h\<rparr>)"
  using assms by (auto simp: sys_ok_parts ruleset_refs_def)

lemma put_ruleset_at_commute:
  "put_ruleset_at p (set_cred c v s) = map_option (set_cred c v) (put_ruleset_at p s)"
  "put_ruleset_at p (set_file f w s) = map_option (set_file f w) (put_ruleset_at p s)"
  by (auto simp: put_ruleset_at_def sys_setters split: option.splits Option.bind_splits)

lemma keeps_trans: "keeps s s' \<Longrightarrow> keeps s' s'' \<Longrightarrow> keeps s s''"
  using keeps_rulesets_trans keeps_nodes_trans by (simp add: keeps_def) blast

lemma keeps_set_cred: "keeps (set_cred c v s) (set_cred c v s') \<Longrightarrow> sys_creds s' = sys_creds s \<Longrightarrow> keeps s s'"
  by (simp add: keeps_def set_cred_def)

text \<open>A reference that may be null.\<close>

lemma put_ruleset_at_opt:
  assumes "sys_ok (X + refs_to g x) s"
  shows "\<exists>s'. put_ruleset_at (g x) s = Some s' \<and> sys_ok X s' \<and> keeps s s'"
proof (cases "g x")
  case None
  then show ?thesis using assms by (simp add: put_ruleset_at_def)
next
  case (Some a)
  then show ?thesis using put_ruleset_at_ok [of a X s] assms by simp
qed

lemma put_ruleset_at_creds: "put_ruleset_at p s = Some s' \<Longrightarrow> sys_creds s' = sys_creds s \<and> sys_files s' = sys_files s"
  by (auto simp: put_ruleset_at_def set_ruleset_def split: option.splits Option.bind_splits)

lemma hook_cred_free_ok:
  assumes "sys_ok X s" "sys_creds s c = Some x" "\<forall>t. sys_tasks s t \<noteq> Some c"
  shows "\<exists>s'. hook_cred_free c s = Some s' \<and> sys_ok X (set_cred c None s') \<and> keeps s s'"
proof -
  have "sys_ok (X + refs_to cred_domain x) (set_cred c None s)" using assms by (intro sys_ok_cred [OF assms(1)]) simp_all
  from put_ruleset_at_opt [OF this] obtain s' where s': "put_ruleset_at (cred_domain x) s = Some s'" "sys_ok X (set_cred c None s')"
      "keeps (set_cred c None s) (set_cred c None s')"
    by (auto simp: put_ruleset_at_commute)
  have "keeps s s'" using keeps_set_cred [OF s'(3)] put_ruleset_at_creds [OF s'(1)] by simp
  then show ?thesis using s' assms(2) by (simp add: hook_cred_free_def)
qed

lemma fop_ruleset_release_ok:
  assumes "sys_ok X s" "sys_files s f = Some x"
  shows "\<exists>s'. fop_ruleset_release x s = Some (OK, s') \<and> sys_ok X (set_file f None s')"
proof -
  have "sys_ok (X + refs_to ff_ruleset x) (set_file f None s)" using assms by (intro sys_ok_file [OF assms(1)]) simp_all
  from put_ruleset_at_opt [OF this] show ?thesis
    by (auto simp: put_ruleset_at_commute fop_ruleset_release_def)
qed

lemma cred_domainD:
  assumes "sys_ok X s" "sys_creds s c = Some x" "cred_domain x = Some a"
  obtains d where "sys_rulesets s a = Some d" "rs_hierarchy d \<noteq> None" "domain_ok d"
  using assms sys_okD(3) [OF assms(1)] unfolding sys_ok_def users_ok_def by metis

lemma hook_cred_prepare_ok:
  assumes "sys_ok X s" "sys_creds s new = None" "sys_creds s old = Some x"
  shows "\<exists>s'. hook_cred_prepare new old (set_cred new (Some \<lparr>cred_domain = None\<rparr>) s) =
      Some (OK, set_cred new (Some \<lparr>cred_domain = cred_domain x\<rparr>) s') \<and>
    sys_ok X (set_cred new (Some \<lparr>cred_domain = cred_domain x\<rparr>) s') \<and> keeps s s' \<and> sys_heap s' = sys_heap s \<and>
    dom (sys_rulesets s') = dom (sys_rulesets s)"
proof -
  let ?s = "set_cred new (Some \<lparr>cred_domain = None\<rparr>) s"
  have ok: "sys_ok X ?s" using assms(2) by (intro sys_ok_cred [OF assms(1)]) auto
  have neq: "old \<noteq> new" using assms(2,3) by auto
  then have old: "sys_creds ?s old = Some x" using assms(3) by (simp add: set_cred_def)
  show ?thesis
  proof (cases "cred_domain x")
    case None
    then show ?thesis
      using ok old by (intro exI [of _ s]) (simp add: hook_cred_prepare_def hook_cred_transfer_def)
  next
    case (Some a)
    obtain d where d: "sys_rulesets s a = Some d" "rs_hierarchy d \<noteq> None" by (rule cred_domainD [OF assms(1,3) Some])
    then have "sys_rulesets ?s a = Some d" by (simp add: set_cred_def)
    from get_ruleset_at_ok [OF ok this] obtain s1 where s1: "get_ruleset_at a ?s = Some s1" "sys_ok (add_mset a X) s1"
        "s1 = set_ruleset a (Some (d\<lparr>rs_usage := rs_usage d + 1\<rparr>)) ?s"
      by blast
    let ?s' = "set_ruleset a (Some (d\<lparr>rs_usage := rs_usage d + 1\<rparr>)) s"
    have s': "set_cred new (Some \<lparr>cred_domain = Some a\<rparr>) s1 = set_cred new (Some \<lparr>cred_domain = Some a\<rparr>) ?s'"
      by (simp add: s1(3) sys_setters)
    have "sys_ok X (set_cred new (Some \<lparr>cred_domain = Some a\<rparr>) s1)"
      using d by (intro sys_ok_cred [OF s1(2)]) (auto simp: s1(3) sys_setters)
    moreover have "keeps s ?s'" using d(1) by (simp add: keeps_def set_ruleset_def keeps_rulesets_usage)
    moreover have "dom (sys_rulesets ?s') = dom (sys_rulesets s)" using d(1) by (auto simp: set_ruleset_def)
    ultimately show ?thesis
      using old Some s1(1) s' d
      by (intro exI [of _ ?s']) (simp add: hook_cred_prepare_def hook_cred_transfer_def s1(3) sys_setters)
  qed
qed

section \<open>Rulesets behind descriptors\<close>

text \<open>What is wrong with a descriptor, or the ruleset behind it, held once more than before.\<close>

definition fd_error :: "fd_table \<Rightarrow> int \<Rightarrow> (kfile \<Rightarrow> bool) \<Rightarrow> landlock_system \<Rightarrow> errno option" where
  "fd_error fdt fd mode s =
     (case fdget fdt fd s of
        None \<Rightarrow> Some EBADF
      | Some f \<Rightarrow> if ff_ruleset f = None then Some EBADFD else if \<not> mode f then Some EPERM else None)"

lemma get_ruleset_from_fd_cases:
  assumes "sys_ok X s"
  obtains (fail) e where "get_ruleset_from_fd fdt fd mode s = Some (Inl e, s)" "fd_error fdt fd mode s = Some e"
    | (held) f a rs s1 where "get_ruleset_from_fd fdt fd mode s = Some (Inr a, s1)" "fd_error fdt fd mode s = None"
      "fdget fdt fd s = Some f" "ff_ruleset f = Some a" "mode f" "sys_rulesets s a = Some rs" "rs_hierarchy rs = None" "ruleset_ok rs"
      "s1 = set_ruleset a (Some (rs\<lparr>rs_usage := rs_usage rs + 1\<rparr>)) s" "sys_ok (add_mset a X) s1" "keeps s s1"
proof (cases "\<exists>f a. fdget fdt fd s = Some f \<and> ff_ruleset f = Some a \<and> mode f")
  case False
  then show thesis
    by (intro fail [of "the (fd_error fdt fd mode s)"]) (auto simp: fd_error_def get_ruleset_from_fd_def split: option.splits)
next
  case True
  then obtain f a where f: "fdget fdt fd s = Some f" "ff_ruleset f = Some a" "mode f" by blast
  then obtain g where "sys_files s g = Some f" by (auto simp: fdget_def fdget_raw_def split: Option.bind_splits if_splits)
  then obtain rs where rs: "sys_rulesets s a = Some rs" "rs_hierarchy rs = None"
    using assms f(2) unfolding sys_ok_def users_ok_def by metis
  have ok: "ruleset_ok rs" by (rule sys_okD(2) [OF assms rs])
  then have "rs_num_layers rs = 1" by (simp add: ruleset_ok_def)
  then show thesis
    using get_ruleset_at_ok [OF assms rs(1)] f rs ok
    by (intro held [of a "set_ruleset a (Some (rs\<lparr>rs_usage := rs_usage rs + 1\<rparr>)) s"]) (auto simp: get_ruleset_from_fd_def set_ruleset_def fd_error_def)
qed

section \<open>Rules for paths\<close>

text \<open>The rights a rule allows: the given ones, and those that the ruleset does not handle.\<close>

definition absolute_access :: "fs_rights \<Rightarrow> landlock_ruleset \<Rightarrow> u16 \<Rightarrow> u16" where
  "absolute_access U rs acc = acc OR (LANDLOCK_MASK_ACCESS_FS U AND NOT (fs_access_masks rs ! 0 OR ACCESS_INITIALLY_DENIED U))"

definition file_rights_only :: "fs_rights \<Rightarrow> u16 \<Rightarrow> bool" where
  "file_rights_only U acc \<longleftrightarrow> acc OR ACCESS_FILE U = ACCESS_FILE U"

definition appended ::
  "fs_rights \<Rightarrow> vfs \<Rightarrow> vpath \<Rightarrow> u16 \<Rightarrow> landlock_ruleset \<Rightarrow> rc \<Rightarrow> landlock_ruleset \<Rightarrow> landlock_heap \<Rightarrow> bool" where
  "appended U V path acc rs rc rs' h' \<longleftrightarrow>
     (if rc = OK
      then \<exists>i a. d_backing_inode V (p_dentry path) = Some i \<and> lh_inode_object h' i = Some a \<and>
        access_of rs' = (access_of rs)(a := access_of rs a OR absolute_access U rs acc)
      else rs' = rs \<and>
        (rc = Err EINVAL \<and> \<not> d_is_dir V (p_dentry path) \<and> \<not> file_rights_only U acc \<or>
         rc = Err ENOMEM \<or> rc = Err E2BIG \<and> rs_num_rules rs = 0xffffffff))"

lemma landlock_append_fs_rule_ok:
  assumes "rebal_ok rebal" "ruleset_ok rs" "heap_ok h (M + rule_refs rs)" "allocs_ok h" "d_backing_inode V (p_dentry path) = Some i"
  shows "\<exists>rc rs' h'. landlock_append_fs_rule U V rebal [] rs path acc h = Some (rc, rs', h') \<and>
    ruleset_ok rs' \<and> heap_ok h' (M + rule_refs rs') \<and> allocs_ok h' \<and> same_header rs rs' \<and>
    lh_hierarchies h' = lh_hierarchies h \<and> set (lh_allocs h') \<subseteq> set (lh_allocs h) \<and> appended U V path acc rs rc rs' h' \<and>
    (\<not> d_is_dir V (p_dentry path) \<and> \<not> file_rights_only U acc \<longrightarrow> rc = Err EINVAL)"
proof (cases "\<not> d_is_dir V (p_dentry path) \<and> \<not> file_rights_only U acc")
  case True
  then show ?thesis
    using assms by (intro exI [of _ "Err EINVAL"] exI [of _ rs] exI [of _ h]) (simp add: landlock_append_fs_rule_def file_rights_only_def appended_def)
next
  case False
  obtain r h1 where g: "get_inode_object i [] h = Some (r, h1)" "allocs_ok h1" "lh_hierarchies h1 = lh_hierarchies h" "set (lh_allocs h1) \<subseteq> set (lh_allocs h)"
      "case r of Inl e \<Rightarrow> e = ENOMEM \<and> heap_ok h1 (M + rule_refs rs) \<and> lh_inode_object h1 i = None
       | Inr a \<Rightarrow> heap_ok h1 (add_mset a (M + rule_refs rs)) \<and> lh_inode_object h1 i = Some a \<and> (lh_inode_object h i = None \<or> lh_inode_object h i = Some a)"
    using get_inode_object_ok [OF assms(3,4), of i] by blast
  have start: "landlock_append_fs_rule U V rebal [] rs path acc h =
      (case r of
         Inl e \<Rightarrow> Some (Err e, rs, h1)
       | Inr a \<Rightarrow> do {
           (err, rs, h) \<leftarrow> landlock_insert_rule rebal rs (Some a) (absolute_access U rs acc) h1;
           h \<leftarrow> landlock_put_object (Some a) h;
           Some (err, rs, h)
         })"
    using False assms(2,5) g(1) unfolding absolute_access_def by (auto simp: landlock_append_fs_rule_def ruleset_ok_def file_rights_only_def)
  show ?thesis
  proof (cases r)
    case (Inl e)
    then show ?thesis using start g assms(2) False by (auto simp: appended_def)
  next
    case (Inr a)
    then have h1: "heap_ok h1 (add_mset a M + rule_refs rs)" "lh_inode_object h1 i = Some a" using g(5) by simp_all
    have "a \<in># add_mset a M" by simp
    then obtain rc rs' h2 where ins: "landlock_insert_rule rebal rs (Some a) (absolute_access U rs acc) h1 = Some (rc, rs', h2)" "ruleset_ok rs'"
        "heap_ok h2 (add_mset a M + rule_refs rs')" "allocs_ok h2" "same_header rs rs'" "same_ties h1 h2"
        "if rc = OK then access_of rs' = (access_of rs)(a := access_of rs a OR absolute_access U rs acc) \<and> a \<in># rule_refs rs'
         else rs' = rs \<and> (rc = Err ENOMEM \<or> rc = Err E2BIG \<and> rs_num_rules rs = 0xffffffff)"
      using landlock_insert_rule_ok [OF assms(1,2) h1(1) g(2)] by blast
    have "heap_ok h2 (add_mset a (M + rule_refs rs'))" using ins(3) by simp
    then obtain h3 where p: "landlock_put_object (Some a) h2 = Some h3" "heap_ok h3 (M + rule_refs rs')" "lh_allocs h3 = lh_allocs h2"
        "lh_hierarchies h3 = lh_hierarchies h2" "dom (lh_objects h3) \<subseteq> dom (lh_objects h2)"
        "a \<in># M + rule_refs rs' \<longrightarrow> lh_inode_object h3 = lh_inode_object h2"
      using landlock_put_object_ok by metis
    have "allocs_ok h3" using allocs_ok_mono [OF ins(4)] p(3-5) by simp
    moreover have "lh_hierarchies h3 = lh_hierarchies h" "set (lh_allocs h3) \<subseteq> set (lh_allocs h)"
      using p(3,4) ins(6) g(3,4) by (auto simp: same_ties_def)
    moreover have "appended U V path acc rs rc rs' h3"
      using ins(6,7) p(6) h1(2) assms(5) by (auto simp: appended_def same_ties_def split: if_splits)
    ultimately show ?thesis using start Inr ins(1,2,5) p(1,2) False by auto
  qed
qed

text \<open>The checks of a path rule in their order, once the ruleset is held, and its effect.\<close>

definition rule_error :: "vfs \<Rightarrow> user_api \<Rightarrow> fd_table \<Rightarrow> landlock_ruleset \<Rightarrow> u32 \<Rightarrow> u64 \<Rightarrow> landlock_system \<Rightarrow> errno option" where
  "rule_error V E fdt rs rule_type rule_attr s =
     (if rule_type \<noteq> LANDLOCK_RULE_PATH_BENEATH E then Some EINVAL
      else case copy_from_user E rule_attr of
             None \<Rightarrow> Some EFAULT
           | Some (allowed, parent_fd) \<Rightarrow>
               if allowed = 0 then Some ENOMSG
               else if allowed OR ucast (fs_access_masks rs ! 0) \<noteq> ucast (fs_access_masks rs ! 0) then Some EINVAL
               else case get_path_from_fd V fdt parent_fd s of Inl e \<Rightarrow> Some e | Inr _ \<Rightarrow> None)"

lemma add_path_rule_ok:
  assumes "rebal_ok rebal" "sys_ok X s" "sys_rulesets s a = Some rs" "rs_hierarchy rs = None"
  shows "\<exists>rc s'. add_path_rule U V rebal [] E fdt a rule_type rule_attr s = Some (rc, s') \<and> sys_ok X s' \<and>
    (case rule_error V E fdt rs rule_type rule_attr s of
       Some e \<Rightarrow> rc = Err e \<and> s' = s
     | None \<Rightarrow>
         (\<exists>allowed parent_fd path rs' h'. copy_from_user E rule_attr = Some (allowed, parent_fd) \<and> get_path_from_fd V fdt parent_fd s = Inr path \<and>
            s' = set_ruleset a (Some rs') (s\<lparr>sys_heap := h'\<rparr>) \<and> appended U V path (ucast allowed) rs rc rs' h' \<and> same_header rs rs' \<and> ruleset_ok rs' \<and>
            lh_hierarchies h' = lh_hierarchies (sys_heap s)))"
proof (cases "rule_error V E fdt rs rule_type rule_attr s")
  case (Some e)
  then show ?thesis
    using assms(2,3) by (auto simp: rule_error_def add_path_rule_def split: option.splits if_splits sum.splits)
next
  case None
  then obtain allowed parent_fd path where c: "copy_from_user E rule_attr = Some (allowed, parent_fd)" "get_path_from_fd V fdt parent_fd s = Inr path"
      "rule_type = LANDLOCK_RULE_PATH_BENEATH E" "allowed \<noteq> 0" "allowed OR ucast (fs_access_masks rs ! 0) = ucast (fs_access_masks rs ! 0)"
    by (auto simp: rule_error_def split: option.splits if_splits sum.splits)
  obtain i where i: "d_backing_inode V (p_dentry path) = Some i"
    using c(2) by (auto simp: get_path_from_fd_def split: option.splits if_splits)
  have ok: "ruleset_ok rs" by (rule sys_okD(2) [OF assms(2-4)])
  let ?M = "store_sum rule_refs ((sys_rulesets s)(a := None))"
  have fin: "finite (dom (sys_rulesets s))" and mem: "memory_ok s" using assms(2) by (simp_all add: sys_ok_def rulesets_ok_def)
  have "heap_ok (sys_heap s) (?M + rule_refs rs)" "allocs_ok (sys_heap s)"
    using mem store_sum_old [of "sys_rulesets s", OF fin assms(3), of rule_refs] by (simp_all add: memory_ok_def ac_simps)
  then obtain rc rs' h' where ap: "landlock_append_fs_rule U V rebal [] rs path (ucast allowed) (sys_heap s) = Some (rc, rs', h')"
      "ruleset_ok rs'" "heap_ok h' (?M + rule_refs rs')" "allocs_ok h'" "same_header rs rs'"
      "lh_hierarchies h' = lh_hierarchies (sys_heap s)" "set (lh_allocs h') \<subseteq> set (lh_allocs (sys_heap s))"
      "appended U V path (ucast allowed) rs rc rs' h'"
    using landlock_append_fs_rule_ok [OF assms(1) ok _ _ i, of "sys_heap s" ?M U "ucast allowed"] by blast
  have "sys_ok X (set_ruleset a (Some rs') (s\<lparr>sys_heap := h'\<rparr>))"
    by (rule sys_ok_rules [OF assms(2-4) ap(5,2,3,4,6,7)])
  then show ?thesis
    using None c ap assms(3) by (auto simp: add_path_rule_def)
qed

section \<open>New domains\<close>

text \<open>Domains up to their counter.\<close>

definition same_domain :: "landlock_ruleset option \<Rightarrow> landlock_ruleset option \<Rightarrow> bool" where
  "same_domain q q' \<longleftrightarrow> map_option (\<lambda>d. d\<lparr>rs_usage := 0\<rparr>) q' = map_option (\<lambda>d. d\<lparr>rs_usage := 0\<rparr>) q"

lemma same_domain_refl [simp]: "same_domain q q"
  by (simp add: same_domain_def)

lemma same_domain_None [simp]: "same_domain q None \<longleftrightarrow> q = None" "same_domain None q \<longleftrightarrow> q = None"
  by (auto simp: same_domain_def)

lemma same_domainD:
  assumes "same_domain q q'" "q = Some d"
  obtains d' where "q' = Some d'" "d' = d\<lparr>rs_usage := rs_usage d'\<rparr>"
proof -
  obtain d' where d': "q' = Some d'" "d'\<lparr>rs_usage := 0\<rparr> = d\<lparr>rs_usage := 0\<rparr>" using assms by (auto simp: same_domain_def)
  then have "d' = d\<lparr>rs_usage := rs_usage d'\<rparr>" by (cases d; cases d') simp
  with d'(1) show thesis by (rule that)
qed

lemma same_domain_hierarchy: "same_domain (Some d) (Some d') \<Longrightarrow> rs_hierarchy d' = rs_hierarchy d"
  by (cases d; cases d') (simp add: same_domain_def)

lemma same_domain_Some: "same_domain (Some d) q \<longleftrightarrow> (\<exists>d'. q = Some d' \<and> same_domain (Some d) (Some d'))"
  by (cases q) (simp_all add: same_domain_def)

lemma same_domainI: "d' = d\<lparr>rs_usage := n\<rparr> \<Longrightarrow> same_domain (Some d) (Some d')"
  by (simp add: same_domain_def)

lemma layers_of_usage [simp]: "layers_of (d\<lparr>rs_usage := n\<rparr>) = layers_of d"
  by (simp add: layers_of_def fun_eq_iff)

lemma merged_usage:
  assumes "same_domain p p'"
  shows "merged p' (rs\<lparr>rs_usage := n\<rparr>) h M r h' = merged p rs h M r h'"
proof -
  obtain k where k: "p' = map_option (\<lambda>d. d\<lparr>rs_usage := k\<rparr>) p"
  proof (cases p)
    case (Some d)
    obtain d' where "p' = Some d'" "d' = d\<lparr>rs_usage := rs_usage d'\<rparr>" by (rule same_domainD [OF assms Some])
    then show ?thesis using Some by (intro that [of "rs_usage d'"]) simp
  qed (use assms in \<open>auto simp: same_domain_def\<close>)
  have "parent_masks p' = parent_masks p" "parent_layers p' = parent_layers p" "link_hierarchy p' = link_hierarchy p"
      "new_layer (rs\<lparr>rs_usage := n\<rparr>) = new_layer rs"
    by (cases p; simp add: k parent_masks_def parent_layers_def link_hierarchy_def new_layer_def fun_eq_iff)+
  then show ?thesis by (cases r) (simp_all add: merged_def)
qed

text \<open>The domain of credentials, and what a replacement leaves of the other rulesets.\<close>

definition domain_at :: "landlock_system \<Rightarrow> u64 option \<Rightarrow> landlock_ruleset option \<Rightarrow> bool" where
  "domain_at s x p \<longleftrightarrow> (case x of None \<Rightarrow> p = None | Some a \<Rightarrow> p \<noteq> None \<and> p = sys_rulesets s a)"

lemma domain_at_set_cred [simp]: "domain_at (set_cred c v s) x q = domain_at s x q"
  by (cases x) (simp_all add: domain_at_def set_cred_def)

lemma domain_at_keeps:
  assumes "keeps s s'" "domain_at s x p" "domain_at s' x q"
  shows "same_domain p q"
  using assms(2,3) by (auto simp: domain_at_def split: option.splits intro: same_domainI [OF keeps_rulesetD [OF assms(1)]])

lemma domain_at_total:
  assumes "sys_ok X s" "sys_creds s c = Some sec"
  obtains p where "domain_at s (cred_domain sec) p"
proof (cases "cred_domain sec")
  case None
  then show ?thesis using that [of None] by (simp add: domain_at_def)
next
  case (Some a)
  obtain d where "sys_rulesets s a = Some d" by (rule cred_domainD [OF assms Some])
  then show ?thesis using that [of "Some d"] Some by (simp add: domain_at_def)
qed

lemma parent_ok_domain_at:
  assumes "sys_ok X s" "sys_creds s c = Some sec" "domain_at s (cred_domain sec) p"
  shows "parent_ok (sys_heap s) (store_sum rule_refs (sys_rulesets s)) p"
    "\<And>d. p = Some d \<Longrightarrow> \<exists>ph. rs_hierarchy d = Some ph \<and> lh_hierarchies (sys_heap s) ph \<noteq> None"
proof -
  have dom: "domain_ok d \<and> set_mset (rule_refs d) \<subseteq> set_mset (store_sum rule_refs (sys_rulesets s)) \<and>
      (\<exists>ph n. rs_hierarchy d = Some ph \<and> lh_hierarchies (sys_heap s) ph = Some n \<and> h_usage n > 0)" if "p = Some d" for d
  proof -
    obtain a where a: "cred_domain sec = Some a" "sys_rulesets s a = Some d"
      using assms(3) \<open>p = Some d\<close> by (cases "cred_domain sec") (auto simp: domain_at_def)
    obtain d' where "sys_rulesets s a = Some d'" "rs_hierarchy d' \<noteq> None" by (rule cred_domainD [OF assms(1,2) a(1)])
    then obtain ph where ph: "rs_hierarchy d = Some ph" using a(2) by auto
    obtain n where "lh_hierarchies (sys_heap s) ph = Some n" using sys_okD(5) [OF assms(1) a(2) ph] by auto
    moreover have "nodes_ok (lh_hierarchies (sys_heap s)) (store_sum (refs_to rs_hierarchy) (sys_rulesets s))"
      using assms(1) by (simp add: sys_ok_def memory_ok_def)
    ultimately show ?thesis
      using sys_okD(3,4) [OF assms(1) a(2)] ph countedD [OF nodes_okD(2)] by blast
  qed
  show "parent_ok (sys_heap s) (store_sum rule_refs (sys_rulesets s)) p"
    using dom by (auto simp: parent_ok_def split: option.splits)
  show "\<exists>ph. rs_hierarchy d = Some ph \<and> lh_hierarchies (sys_heap s) ph \<noteq> None" if "p = Some d" for d
    using dom [OF that] by auto
qed

text \<open>The merge of a ruleset into the domain of credentials gives the system a new domain.\<close>

lemma merge_sys:
  assumes "rebal_ok rebal" "sys_ok X s" "sys_creds s c = Some sec" "domain_at s (cred_domain sec) p"
    and "sys_rulesets s a = Some rs" "rs_hierarchy rs = None"
  shows "\<exists>r h. landlock_merge_ruleset rebal p (Some rs) (sys_heap s) = Some (r, h) \<and>
    merged p rs (sys_heap s) (store_sum rule_refs (sys_rulesets s)) r h \<and>
    (parent_num p \<ge> LANDLOCK_MAX_NUM_LAYERS \<longrightarrow> r = Inl E2BIG) \<and>
    (case r of
       Inl e \<Rightarrow> sys_ok X (s\<lparr>sys_heap := h\<rparr>)
     | Inr d \<Rightarrow> sys_rulesets s (rs_addr d) = None \<and> sys_ok (add_mset (rs_addr d) X) (set_ruleset (rs_addr d) (Some d) (s\<lparr>sys_heap := h\<rparr>)))"
proof -
  let ?M = "store_sum rule_refs (sys_rulesets s)" and ?h = "sys_heap s"
  have mem: "heap_ok ?h ?M" "allocs_ok ?h" "\<And>a. Some a \<in> set (lh_allocs ?h) \<Longrightarrow> sys_rulesets s a = None"
      "nodes_ok (lh_hierarchies ?h) (store_sum (refs_to rs_hierarchy) (sys_rulesets s))"
    using assms(2) by (simp_all add: sys_ok_def memory_ok_def)
  note par = parent_ok_domain_at [OF assms(2-4)]
  have "rs_addr d \<noteq> rs_addr rs" if "p = Some d" for d
    using that par(2) [OF that] assms(4-6) sys_okD(1) [OF assms(2)] by (auto simp: domain_at_def split: option.splits)
  then obtain r h where m: "landlock_merge_ruleset rebal p (Some rs) ?h = Some (r, h)" "merged p rs ?h ?M r h"
      "parent_num p \<ge> LANDLOCK_MAX_NUM_LAYERS \<longrightarrow> r = Inl E2BIG" "\<forall>d. r = Inr d \<longrightarrow> Some (rs_addr d) \<in> set (lh_allocs ?h) - set (lh_allocs h)"
    using landlock_merge_ruleset_ok [OF assms(1) sys_okD(2) [OF assms(2,5,6)] sys_okD(4) [OF assms(2,5)] par(1) mem(1,2)] by blast
  have al: "allocs_ok h" "set (lh_allocs h) \<subseteq> set (lh_allocs ?h)" using m(2) by (simp_all add: merged_def)
  have "case r of
       Inl e \<Rightarrow> sys_ok X (s\<lparr>sys_heap := h\<rparr>)
     | Inr d \<Rightarrow> sys_rulesets s (rs_addr d) = None \<and> sys_ok (add_mset (rs_addr d) X) (set_ruleset (rs_addr d) (Some d) (s\<lparr>sys_heap := h\<rparr>))"
  proof (cases r)
    case (Inl e)
    then show ?thesis using sys_ok_heap [OF assms(2) _ al(1) _ al(2)] m(2) by (simp add: merged_def)
  next
    case (Inr d)
    then obtain n where n: "rs_hierarchy d = Some n" "lh_hierarchies ?h n = None"
        "lh_hierarchies h = link_hierarchy p n ((lh_hierarchies ?h)(n \<mapsto> \<lparr>h_parent = None, h_usage = 1\<rparr>))"
      and d: "rs_usage d = 1" "domain_ok d" "heap_ok h (?M + rule_refs d)"
      using m(2) by (auto simp: merged_def)
    have addr: "Some (rs_addr d) \<in> set (lh_allocs ?h)" "Some (rs_addr d) \<notin> set (lh_allocs h)" using m(4) Inr by auto
    have "nodes_ok (lh_hierarchies h) (add_mset n (store_sum (refs_to rs_hierarchy) (sys_rulesets s)))"
      unfolding n(3) by (rule nodes_ok_link [OF mem(4) n(2) par(2)])
    then have "sys_ok (add_mset (rs_addr d) X) (set_ruleset (rs_addr d) (Some d) (s\<lparr>sys_heap := h\<rparr>))"
      using sys_ok_new [OF assms(2) mem(3) [OF addr(1)] refl d(1) _ d(3) _ al addr(2)] d(2) n(1) by simp
    then show ?thesis using Inr mem(3) [OF addr(1)] by simp
  qed
  then show ?thesis using m(1-3) by blast
qed

lemma replace_domain_ok:
  assumes "rebal_ok rebal" "sys_ok X s" "sys_creds s new = Some sec" "domain_at s (cred_domain sec) p"
    and "sys_rulesets s a = Some rs" "rs_hierarchy rs = None"
  shows "\<exists>rc s'. replace_domain rebal new a s = Some (rc, s') \<and> sys_ok X s' \<and>
    (case rc of
       Err e \<Rightarrow> (e = ENOMEM \<or> e = E2BIG) \<and> keeps s s'
     | OK \<Rightarrow> (\<exists>d h s2. merged p rs (sys_heap s) (store_sum rule_refs (sys_rulesets s)) (Inr d) h \<and> sys_rulesets s (rs_addr d) = None \<and>
         keeps (set_ruleset (rs_addr d) (Some d) (s\<lparr>sys_heap := h\<rparr>)) s2 \<and> s' = set_cred new (Some \<lparr>cred_domain = Some (rs_addr d)\<rparr>) s2))"
proof -
  obtain r h where m: "landlock_merge_ruleset rebal p (Some rs) (sys_heap s) = Some (r, h)"
      "merged p rs (sys_heap s) (store_sum rule_refs (sys_rulesets s)) r h"
      "case r of
         Inl e \<Rightarrow> sys_ok X (s\<lparr>sys_heap := h\<rparr>)
       | Inr d \<Rightarrow> sys_rulesets s (rs_addr d) = None \<and> sys_ok (add_mset (rs_addr d) X) (set_ruleset (rs_addr d) (Some d) (s\<lparr>sys_heap := h\<rparr>))"
    using merge_sys [OF assms] by blast
  have parent: "(case cred_domain sec of None \<Rightarrow> Some None | Some q \<Rightarrow> do { d \<leftarrow> sys_rulesets s q; Some (Some d) }) = Some p"
    using assms(4) by (auto simp: domain_at_def split: option.splits)
  show ?thesis
  proof (cases r)
    case (Inl e)
    then have "keeps s (s\<lparr>sys_heap := h\<rparr>)" using m(2) by (simp add: keeps_def merged_def)
    then show ?thesis
      using m Inl parent assms(3,5) by (auto simp: replace_domain_def merged_def)
  next
    case (Inr d)
    let ?s = "set_ruleset (rs_addr d) (Some d) (s\<lparr>sys_heap := h\<rparr>)" and ?sec = "\<lparr>cred_domain = Some (rs_addr d)\<rparr>"
    have d: "sys_rulesets s (rs_addr d) = None" "sys_ok (add_mset (rs_addr d) X) ?s" using m(3) Inr by simp_all
    have "rs_hierarchy d \<noteq> None" using m(2) Inr by (auto simp: merged_def)
    then have "sys_ok (X + refs_to cred_domain sec) (set_cred new (Some ?sec) ?s)"
      using assms(3) by (intro sys_ok_cred [OF d(2)]) (auto simp: set_ruleset_def)
    from put_ruleset_at_opt [OF this] obtain s2 where s2: "put_ruleset_at (cred_domain sec) ?s = Some s2"
        "sys_ok X (set_cred new (Some ?sec) s2)" "keeps (set_cred new (Some ?sec) ?s) (set_cred new (Some ?sec) s2)"
      by (auto simp: put_ruleset_at_commute)
    have "keeps ?s s2" using keeps_set_cred [OF s2(3)] put_ruleset_at_creds [OF s2(1)] by simp
    moreover have sec: "sec\<lparr>cred_domain := Some (rs_addr d)\<rparr> = ?sec" by (cases sec) simp
    have "replace_domain rebal new a s = Some (OK, set_cred new (Some ?sec) s2)"
      using m(1) Inr parent assms(3,5) s2(1) unfolding sec [symmetric] by (simp add: replace_domain_def)
    ultimately show ?thesis using m(2) d(1) Inr s2(2) by auto
  qed
qed

section \<open>The system calls\<close>

lemma task_domain_ok:
  assumes "sys_ok X s" "sys_tasks s t = Some c"
  obtains sec p where "sys_creds s c = Some sec" "domain_at s (cred_domain sec) p" "landlock_get_task_domain t s = Some p"
    "\<And>d. p = Some d \<Longrightarrow> domain_ok d"
proof -
  obtain sec where sec: "sys_creds s c = Some sec" using assms unfolding sys_ok_def users_ok_def by blast
  obtain p where p: "domain_at s (cred_domain sec) p" by (rule domain_at_total [OF assms(1) sec])
  have "landlock_get_task_domain t s = Some p"
    using assms(2) sec p by (auto simp: landlock_get_task_domain_def domain_at_def split: option.splits)
  moreover have "domain_ok d" if "p = Some d" for d
    using parent_ok_domain_at(1) [OF assms(1) sec p] that by (simp add: parent_ok_def)
  ultimately show thesis using that sec p by blast
qed

text \<open>A task whose credentials and rulesets are kept has the domain it had.\<close>

lemma task_domain_keeps:
  assumes "sys_ok X s" "sys_ok X' s'" "sys_tasks s t = Some c" "sys_tasks s' t = Some c" "sys_creds s' c = sys_creds s c"
    and "\<And>a rs rs'. sys_rulesets s a = Some rs \<Longrightarrow> sys_rulesets s' a = Some rs' \<Longrightarrow> rs' = rs\<lparr>rs_usage := rs_usage rs'\<rparr>"
  obtains q q' where "landlock_get_task_domain t s = Some q" "landlock_get_task_domain t s' = Some q'" "same_domain q q'"
proof -
  obtain sec q where q: "sys_creds s c = Some sec" "domain_at s (cred_domain sec) q" "landlock_get_task_domain t s = Some q"
    by (rule task_domain_ok [OF assms(1,3)])
  obtain sec' q' where q': "sys_creds s' c = Some sec'" "domain_at s' (cred_domain sec') q'" "landlock_get_task_domain t s' = Some q'"
    by (rule task_domain_ok [OF assms(2,4)])
  have "same_domain q q'"
    using q q' assms(5) by (auto simp: domain_at_def split: option.splits intro: same_domainI [OF assms(6)])
  then show thesis using that q(3) q'(3) by blast
qed

definition cred_api_ok :: "cred_api \<Rightarrow> bool" where
  "cred_api_ok A \<longleftrightarrow> prepares_creds A \<and> commits_creds A \<and> aborts_creds A"

text \<open>
  Where a call that succeeds gets to: the new domain is there with the rulesets of before, the new
  credentials have it and the task has the credentials.
\<close>

definition committed ::
  "task \<Rightarrow> landlock_ruleset option \<Rightarrow> landlock_ruleset \<Rightarrow> cred \<Rightarrow> landlock_system \<Rightarrow> landlock_system \<Rightarrow> bool" where
  "committed t p rs new s s' \<longleftrightarrow>
     (\<exists>d M h. merged p rs (sys_heap s) M (Inr d) h \<and> sys_rulesets s (rs_addr d) = None \<and>
        keeps_rulesets ((sys_rulesets s)(rs_addr d \<mapsto> d)) (sys_rulesets s') \<and>
        keeps_nodes (lh_hierarchies h) (lh_hierarchies (sys_heap s')) \<and>
        sys_creds s' = (sys_creds s)(new \<mapsto> \<lparr>cred_domain = Some (rs_addr d)\<rparr>) \<and> sys_tasks s' = (sys_tasks s)(t \<mapsto> new))"

lemma commit_replaced:
  assumes "cred_api_ok A" "sys_ok (add_mset a X) s2" "merged p rs (sys_heap s) M (Inr d) h" "sys_rulesets s (rs_addr d) = None"
    and "keeps s s1" "keeps (set_ruleset (rs_addr d) (Some d) (set_cred new x s1\<lparr>sys_heap := h\<rparr>)) s3"
    and "s2 = set_cred new (Some \<lparr>cred_domain = Some (rs_addr d)\<rparr>) s3"
  shows "\<exists>s'. do { s \<leftarrow> put_ruleset_at (Some a) s2; commit_creds A t new s } = Some (OK, s') \<and> sys_ok X s' \<and> committed t p rs new s s'"
proof -
  obtain s4 where s4: "put_ruleset_at (Some a) s2 = Some s4" "sys_ok X s4" "keeps s2 s4"
    using put_ruleset_at_ok [OF assms(2)] by blast
  have creds: "sys_creds s4 = (sys_creds s)(new \<mapsto> \<lparr>cred_domain = Some (rs_addr d)\<rparr>)" and tasks: "sys_tasks s4 = sys_tasks s"
    using s4(3) assms(5-7) by (simp_all add: keeps_def sys_setters)
  have nodes: "keeps_nodes (lh_hierarchies h) (lh_hierarchies (sys_heap s4))"
    using s4(3) assms(6,7) keeps_nodes_trans by (auto simp: keeps_def sys_setters)
  have "keeps_rulesets ((sys_rulesets s)(rs_addr d \<mapsto> d)) ((sys_rulesets s1)(rs_addr d \<mapsto> d))"
    using assms(5) by (simp add: keeps_def keeps_rulesets_update)
  moreover have "keeps_rulesets ((sys_rulesets s1)(rs_addr d \<mapsto> d)) (sys_rulesets s3)" "keeps_rulesets (sys_rulesets s3) (sys_rulesets s4)"
    using s4(3) assms(6,7) by (simp_all add: keeps_def sys_setters)
  ultimately have rules: "keeps_rulesets ((sys_rulesets s)(rs_addr d \<mapsto> d)) (sys_rulesets s4)" using keeps_rulesets_trans by blast
  let ?s = "set_task t (Some new) s4"
  have "sys_ok X ?s" using creds by (intro sys_ok_task [OF s4(2)]) simp
  moreover have "committed t p rs new s ?s"
    unfolding committed_def using assms(3,4) creds tasks nodes rules by (intro exI [of _ d] exI [of _ M] exI [of _ h]) (simp add: set_task_def)
  moreover have "commit_creds A t new s4 = Some (OK, ?s)" using assms(1) by (simp add: cred_api_ok_def commits_creds_def)
  ultimately show ?thesis using s4(1) by simp
qed

lemma abort_replaced:
  assumes "cred_api_ok A" "sys_ok (add_mset a X) s2" "keeps s s1" "keeps (set_cred new (Some x) s1) s2" "sys_creds s new = None"
    and "\<forall>t. sys_tasks s t \<noteq> Some new"
  shows "\<exists>s'. do { s \<leftarrow> abort_creds A new s2; s \<leftarrow> put_ruleset_at (Some a) s; Some (Err e, s) } = Some (Err e, s') \<and> sys_ok X s' \<and> keeps s s'"
proof -
  have c: "sys_creds s2 new = Some x" "sys_tasks s2 = sys_tasks s" using assms(3,4) by (simp_all add: keeps_def set_cred_def)
  then obtain s3 where s3: "hook_cred_free new s2 = Some s3" "sys_ok (add_mset a X) (set_cred new None s3)" "keeps s2 s3"
    using hook_cred_free_ok [OF assms(2) c(1)] assms(6) by auto
  obtain s4 where s4: "put_ruleset_at (Some a) (set_cred new None s3) = Some s4" "sys_ok X s4" "keeps (set_cred new None s3) s4"
    using put_ruleset_at_ok [OF s3(2)] by blast
  have "keeps (set_cred new (Some x) s1) s3" by (rule keeps_trans [OF assms(4) s3(3)])
  then have "keeps s1 (set_cred new None s3)" using assms(3,5) by (simp add: keeps_def set_cred_def fun_upd_idem)
  then have "keeps s s4" using keeps_trans [OF assms(3)] keeps_trans s4(3) by blast
  then show ?thesis using assms(1) s3(1) s4(1,2) by (simp add: cred_api_ok_def aborts_creds_def)
qed

text \<open>The part of the call that runs with the ruleset held and new credentials prepared.\<close>

lemma replace_and_commit:
  assumes "rebal_ok rebal" "cred_api_ok A" "sys_ok (add_mset a X) s" "sys_creds s c = Some sec"
    and "sys_rulesets s a = Some rs" "rs_hierarchy rs = None" "sys_creds s new = None" "domain_at s (cred_domain sec) p"
  shows "\<exists>rc s'. do {
       (_, s) \<leftarrow> hook_cred_prepare new c (set_cred new (Some \<lparr>cred_domain = None\<rparr>) s);
       (err, s) \<leftarrow> replace_domain rebal new a s;
       (case err of
          OK \<Rightarrow> do { s \<leftarrow> put_ruleset_at (Some a) s; commit_creds A t new s }
        | Err e \<Rightarrow> do { s \<leftarrow> abort_creds A new s; s \<leftarrow> put_ruleset_at (Some a) s; Some (Err e, s) })
     } = Some (rc, s') \<and> sys_ok X s' \<and>
    (case rc of Err e \<Rightarrow> (e = ENOMEM \<or> e = E2BIG) \<and> keeps s s' | OK \<Rightarrow> committed t p rs new s s')"
proof -
  let ?sec = "\<lparr>cred_domain = cred_domain sec\<rparr>"
  obtain s1 where s1: "hook_cred_prepare new c (set_cred new (Some \<lparr>cred_domain = None\<rparr>) s) = Some (OK, set_cred new (Some ?sec) s1)"
      "sys_ok (add_mset a X) (set_cred new (Some ?sec) s1)" "keeps s s1" "sys_heap s1 = sys_heap s" "dom (sys_rulesets s1) = dom (sys_rulesets s)"
    using hook_cred_prepare_ok [OF assms(3,7,4)] by blast
  let ?s1 = "set_cred new (Some ?sec) s1"
  have c1: "sys_creds ?s1 new = Some ?sec" "sys_rulesets ?s1 = sys_rulesets s1" "sys_heap ?s1 = sys_heap s"
    using s1(4) by (simp_all add: set_cred_def)
  obtain rs1 where rs1: "sys_rulesets ?s1 a = Some rs1" using assms(5) s1(5) unfolding c1(2) by auto
  have rs1': "rs1 = rs\<lparr>rs_usage := rs_usage rs1\<rparr>" using keeps_rulesetD [OF s1(3) _ assms(5)] rs1 unfolding c1(2) by blast
  obtain q where q: "domain_at ?s1 (cred_domain ?sec) q" by (rule domain_at_total [OF s1(2) c1(1)])
  then have pq: "same_domain p q" using domain_at_keeps [OF s1(3) assms(8)] by simp
  have "rs_hierarchy rs1 = None" using assms(6) by (subst rs1') simp
  from replace_domain_ok [OF assms(1) s1(2) c1(1) q rs1 this]
  obtain err s2 where r: "replace_domain rebal new a ?s1 = Some (err, s2)" "sys_ok (add_mset a X) s2"
      "case err of
         Err e \<Rightarrow> (e = ENOMEM \<or> e = E2BIG) \<and> keeps ?s1 s2
       | OK \<Rightarrow> (\<exists>d h s3. merged q rs1 (sys_heap ?s1) (store_sum rule_refs (sys_rulesets ?s1)) (Inr d) h \<and> sys_rulesets ?s1 (rs_addr d) = None \<and>
           keeps (set_ruleset (rs_addr d) (Some d) (?s1\<lparr>sys_heap := h\<rparr>)) s3 \<and> s2 = set_cred new (Some \<lparr>cred_domain = Some (rs_addr d)\<rparr>) s3)"
    by blast
  show ?thesis
  proof (cases err)
    case (Some e)
    then have k: "keeps ?s1 s2" "e = ENOMEM \<or> e = E2BIG" using r(3) by simp_all
    have "\<forall>u. sys_tasks s u \<noteq> Some new" using assms(3,7) unfolding sys_ok_def users_ok_def by blast
    from abort_replaced [OF assms(2) r(2) s1(3) k(1) assms(7) this, of e] show ?thesis
      using s1(1) r(1) Some k(2) by auto
  next
    case None
    then obtain d h s3 where d: "merged q rs1 (sys_heap ?s1) (store_sum rule_refs (sys_rulesets ?s1)) (Inr d) h" "sys_rulesets ?s1 (rs_addr d) = None"
        "keeps (set_ruleset (rs_addr d) (Some d) (?s1\<lparr>sys_heap := h\<rparr>)) s3" "s2 = set_cred new (Some \<lparr>cred_domain = Some (rs_addr d)\<rparr>) s3"
      using r(3) by auto
    have m: "merged p rs (sys_heap s) (store_sum rule_refs (sys_rulesets ?s1)) (Inr d) h"
      using d(1) merged_usage [OF pq, of "rs_usage rs1" rs] rs1' unfolding c1(3) by simp
    have "sys_rulesets s (rs_addr d) = None" using d(2) s1(5) unfolding c1(2) by (metis domIff)
    from commit_replaced [OF assms(2) r(2) m this s1(3) d(3,4), of t] show ?thesis
      using s1(1) r(1) None by auto
  qed
qed

lemma committed_keeps:
  assumes "committed t q (rs\<lparr>rs_usage := n\<rparr>) new s1 s'" "keeps s s1" "sys_heap s1 = sys_heap s" "dom (sys_rulesets s1) = dom (sys_rulesets s)"
    and "same_domain p q"
  shows "committed t p rs new s s'"
proof -
  obtain d M h where c: "merged q (rs\<lparr>rs_usage := n\<rparr>) (sys_heap s1) M (Inr d) h" "sys_rulesets s1 (rs_addr d) = None"
      "keeps_rulesets ((sys_rulesets s1)(rs_addr d \<mapsto> d)) (sys_rulesets s')" "keeps_nodes (lh_hierarchies h) (lh_hierarchies (sys_heap s'))"
      "sys_creds s' = (sys_creds s1)(new \<mapsto> \<lparr>cred_domain = Some (rs_addr d)\<rparr>)" "sys_tasks s' = (sys_tasks s1)(t \<mapsto> new)"
    using assms(1) unfolding committed_def by blast
  have "merged p rs (sys_heap s) M (Inr d) h" using c(1) merged_usage [OF assms(5)] by (simp add: assms(3))
  moreover have "sys_rulesets s (rs_addr d) = None" using c(2) assms(4) by (metis domIff)
  moreover have "keeps_rulesets ((sys_rulesets s)(rs_addr d \<mapsto> d)) (sys_rulesets s')"
    using keeps_rulesets_trans [OF keeps_rulesets_update c(3)] assms(2) by (simp add: keeps_def)
  ultimately show ?thesis
    using c(4-6) assms(2) unfolding committed_def by (intro exI [of _ d] exI [of _ M] exI [of _ h]) (simp add: keeps_def)
qed

text \<open>The errors of the call that do not depend on memory.\<close>

definition restrict_error :: "user_api \<Rightarrow> fd_table \<Rightarrow> bool \<Rightarrow> int \<Rightarrow> u32 \<Rightarrow> landlock_system \<Rightarrow> errno option" where
  "restrict_error E fdt privileged fd flags s =
     (if \<not> landlock_initialized E then Some EOPNOTSUPP
      else if \<not> privileged then Some EPERM
      else if flags \<noteq> 0 then Some EINVAL
      else fd_error fdt fd ff_can_read s)"

text \<open>The rest of the call, with the ruleset held.\<close>

lemma restrict_held:
  assumes "rebal_ok rebal" "cred_api_ok A" "sys_ok X s" "sys_tasks s t = Some c" "sys_rulesets s a = Some rs" "rs_hierarchy rs = None"
    and s1: "s1 = set_ruleset a (Some (rs\<lparr>rs_usage := rs_usage rs + 1\<rparr>)) s" and "sys_ok (add_mset a X) s1" "keeps s s1"
  shows "\<exists>rc s'. do {
       (new_cred, s) \<leftarrow> prepare_creds A t s1;
       (case new_cred of
          None \<Rightarrow> do { s \<leftarrow> put_ruleset_at (Some a) s; Some (Err ENOMEM, s) }
        | Some new \<Rightarrow> do {
            (err, s) \<leftarrow> replace_domain rebal new a s;
            (case err of
               OK \<Rightarrow> do { s \<leftarrow> put_ruleset_at (Some a) s; commit_creds A t new s }
             | Err e \<Rightarrow> do { s \<leftarrow> abort_creds A new s; s \<leftarrow> put_ruleset_at (Some a) s; Some (Err e, s) })
          })
     } = Some (rc, s') \<and> sys_ok X s' \<and>
    (case rc of
       Err e \<Rightarrow> (e = ENOMEM \<or> e = E2BIG) \<and> keeps s s'
     | OK \<Rightarrow> (\<exists>sec p new. sys_creds s c = Some sec \<and> domain_at s (cred_domain sec) p \<and> sys_creds s new = None \<and> committed t p rs new s s'))"
proof (cases "prepare_creds A t s1 = Some (None, s1)")
  case True
  obtain s2 where "put_ruleset_at (Some a) s1 = Some s2" "sys_ok X s2" "keeps s1 s2" using put_ruleset_at_ok [OF assms(8)] by blast
  then show ?thesis using True keeps_trans [OF assms(9)] by auto
next
  case False
  obtain sec p where sec: "sys_creds s c = Some sec" "domain_at s (cred_domain sec) p" by (rule task_domain_ok [OF assms(3,4)])
  have k: "sys_creds s1 = sys_creds s" "sys_tasks s1 t = Some c" using assms(4,9) by (simp_all add: keeps_def)
  let ?rs = "rs\<lparr>rs_usage := rs_usage rs + 1\<rparr>"
  have rs1: "sys_rulesets s1 a = Some ?rs" "rs_hierarchy ?rs = None" "sys_heap s1 = sys_heap s" "dom (sys_rulesets s1) = dom (sys_rulesets s)"
    using assms(5,6) by (auto simp: s1 set_ruleset_def)
  obtain new where new: "sys_creds s1 new = None"
      "prepare_creds A t s1 = do { (_, s) \<leftarrow> hook_cred_prepare new c (set_cred new (Some \<lparr>cred_domain = None\<rparr>) s1); Some (Some new, s) }"
    using assms(2) k(2) False unfolding cred_api_ok_def prepares_creds_def by blast
  obtain q where q: "domain_at s1 (cred_domain sec) q" by (rule domain_at_total [OF assms(8)]) (use k(1) sec(1) in simp)
  have pq: "same_domain p q" by (rule domain_at_keeps [OF assms(9) sec(2) q])
  have "sys_creds s1 c = Some sec" using k(1) sec(1) by simp
  from replace_and_commit [OF assms(1,2,8) this rs1(1,2) new(1) q, of t]
  obtain rc s' where r: "do {
       (_, s) \<leftarrow> hook_cred_prepare new c (set_cred new (Some \<lparr>cred_domain = None\<rparr>) s1);
       (err, s) \<leftarrow> replace_domain rebal new a s;
       (case err of
          OK \<Rightarrow> do { s \<leftarrow> put_ruleset_at (Some a) s; commit_creds A t new s }
        | Err e \<Rightarrow> do { s \<leftarrow> abort_creds A new s; s \<leftarrow> put_ruleset_at (Some a) s; Some (Err e, s) })
     } = Some (rc, s')" "sys_ok X s'" "case rc of Err e \<Rightarrow> (e = ENOMEM \<or> e = E2BIG) \<and> keeps s1 s' | OK \<Rightarrow> committed t q ?rs new s1 s'"
    by blast
  have "committed t p rs new s s'" if "rc = OK" using committed_keeps [OF _ assms(9) rs1(3,4) pq] r(3) that by simp
  then have "case rc of
       Err e \<Rightarrow> (e = ENOMEM \<or> e = E2BIG) \<and> keeps s s'
     | OK \<Rightarrow> (\<exists>sec p new. sys_creds s c = Some sec \<and> domain_at s (cred_domain sec) p \<and> sys_creds s new = None \<and> committed t p rs new s s')"
    using r(3) sec new(1) k(1) keeps_trans [OF assms(9)] by (cases rc) auto
  then show ?thesis
    using r(1,2) new(2) by (cases "hook_cred_prepare new c (set_cred new (Some \<lparr>cred_domain = None\<rparr>) s1)") auto
qed

lemma restrict_self_ok:
  assumes "rebal_ok rebal" "cred_api_ok A" "sys_ok X s" "sys_tasks s t = Some c"
  shows "\<exists>rc s'. sys_landlock_restrict_self rebal A E fdt t nnp cap fd flags s = Some (rc, s') \<and> sys_ok X s' \<and>
    (case restrict_error E fdt (nnp \<or> cap) fd flags s of
       Some e \<Rightarrow> rc = Err e \<and> s' = s
     | None \<Rightarrow>
         (case rc of
            Err e \<Rightarrow> (e = ENOMEM \<or> e = E2BIG) \<and> keeps s s'
          | OK \<Rightarrow> (\<exists>f a rs sec p new. fdget fdt fd s = Some f \<and> ff_ruleset f = Some a \<and> ff_can_read f \<and> sys_rulesets s a = Some rs \<and> ruleset_ok rs \<and>
              sys_creds s c = Some sec \<and> domain_at s (cred_domain sec) p \<and> sys_creds s new = None \<and> committed t p rs new s s')))"
proof (cases "\<not> landlock_initialized E \<or> \<not> (nnp \<or> cap) \<or> flags \<noteq> 0")
  case True
  then show ?thesis using assms(3) by (auto simp: sys_landlock_restrict_self_def restrict_error_def)
next
  case False
  then have err: "restrict_error E fdt (nnp \<or> cap) fd flags s = fd_error fdt fd ff_can_read s" by (simp add: restrict_error_def)
  show ?thesis
  proof (cases rule: get_ruleset_from_fd_cases [OF assms(3), of fdt fd ff_can_read])
    case (1 e)
    then show ?thesis using err False assms(3) by (auto simp: sys_landlock_restrict_self_def)
  next
    case (2 f a rs s1)
    obtain rc s' where r: "sys_landlock_restrict_self rebal A E fdt t nnp cap fd flags s = Some (rc, s')" "sys_ok X s'"
        "case rc of
           Err e \<Rightarrow> (e = ENOMEM \<or> e = E2BIG) \<and> keeps s s'
         | OK \<Rightarrow> (\<exists>sec p new. sys_creds s c = Some sec \<and> domain_at s (cred_domain sec) p \<and> sys_creds s new = None \<and> committed t p rs new s s')"
      using restrict_held [OF assms 2(6,7,9-11)] False 2(1) by (auto simp: sys_landlock_restrict_self_def)
    then show ?thesis using 2(2-6,8) err by (cases rc) auto
  qed
qed

section \<open>Scopes\<close>

text \<open>A node is in the scope of another when that one is an ancestor of it, or itself.\<close>

inductive in_scope :: "(u64 \<Rightarrow> landlock_hierarchy option) \<Rightarrow> u64 \<Rightarrow> u64 \<Rightarrow> bool" for H p where
  self: "in_scope H p p"
| up: "H c = Some n \<Longrightarrow> h_parent n = Some q \<Longrightarrow> in_scope H p q \<Longrightarrow> in_scope H p c"

inductive_simps in_scope_iff: "in_scope H p c"

lemma scope_walk_ok:
  "rooted (lh_hierarchies h) c \<Longrightarrow> scope_walk h (Some p) (Some c) = Some (in_scope (lh_hierarchies h) p c)"
proof (induction rule: rooted.induct)
  case (root a n)
  then show ?case by (auto simp: scope_walk.simps [of h "Some p" "Some a"] scope_walk.simps [of h "Some p" None] in_scope_iff [of _ p a])
next
  case (child a n q)
  then show ?case by (auto simp: scope_walk.simps [of h "Some p" "Some a"] in_scope_iff [of _ p a])
qed

text \<open>Nodes that are kept have the ancestors they had.\<close>

lemma in_scope_keeps:
  assumes "keeps_nodes H H'" "rooted H' c"
  shows "in_scope H' p c \<longleftrightarrow> in_scope H p c"
  using assms(2)
proof (induction rule: rooted.induct)
  case (root a n)
  then obtain m where "H a = Some m" "h_parent m = None" using assms(1) unfolding keeps_nodes_def by metis
  then show ?case using root by (simp add: in_scope_iff [of _ p a])
next
  case (child a n q)
  then obtain m where "H a = Some m" "h_parent m = Some q" using assms(1) unfolding keeps_nodes_def by metis
  then show ?case using child by (simp add: in_scope_iff [of _ p a])
qed

lemma in_scope_allocated:
  assumes "nodes_ok H D" "in_scope H p c" "H c \<noteq> None"
  shows "H p \<noteq> None"
  using assms(2,3)
proof (induction rule: in_scope.induct)
  case (up c n q)
  then show ?case using nodes_ok_parent [OF assms(1)] by blast
qed simp

definition scoped :: "(u64 \<Rightarrow> landlock_hierarchy option) \<Rightarrow> landlock_ruleset option \<Rightarrow> landlock_ruleset option \<Rightarrow> bool" where
  "scoped H q r \<longleftrightarrow>
     (case q of
        None \<Rightarrow> True
      | Some d \<Rightarrow> (case r of None \<Rightarrow> False | Some e \<Rightarrow> in_scope H (the (rs_hierarchy d)) (the (rs_hierarchy e))))"

lemma scoped_same: "same_domain q q' \<Longrightarrow> same_domain r r' \<Longrightarrow> scoped H q' r' = scoped H q r"
  by (cases q; cases r) (auto simp: scoped_def same_domain_Some [of _ q'] same_domain_Some [of _ r'] dest!: same_domain_hierarchy)

text \<open>The node of the domain of a task is allocated, and the check of ptrace decides its scope.\<close>

lemma task_node:
  assumes "sys_ok X s" "sys_tasks s t = Some c" "landlock_get_task_domain t s = Some (Some d)"
  obtains n where "rs_hierarchy d = Some n" "lh_hierarchies (sys_heap s) n \<noteq> None" "rooted (lh_hierarchies (sys_heap s)) n"
proof -
  obtain sec p where p: "sys_creds s c = Some sec" "domain_at s (cred_domain sec) p" "landlock_get_task_domain t s = Some p"
    by (rule task_domain_ok [OF assms(1,2)])
  then obtain n where n: "rs_hierarchy d = Some n" "lh_hierarchies (sys_heap s) n \<noteq> None"
    using parent_ok_domain_at(2) [OF assms(1) p(1,2), of d] assms(3) by auto
  have "nodes_ok (lh_hierarchies (sys_heap s)) (store_sum (refs_to rs_hierarchy) (sys_rulesets s))"
    using assms(1) by (simp add: sys_ok_def memory_ok_def)
  then show thesis using that n nodes_okD(3) by blast
qed

lemma task_ptrace_ok:
  assumes "sys_ok X s" "sys_tasks s u = Some cu" "sys_tasks s v = Some cv"
    and "landlock_get_task_domain u s = Some q" "landlock_get_task_domain v s = Some r"
  shows "task_ptrace u v s = Some (if scoped (lh_hierarchies (sys_heap s)) q r then OK else Err EPERM)"
proof (cases q)
  case None
  then show ?thesis using assms(4) by (simp add: task_ptrace_def landlocked_def scoped_def)
next
  case (Some d)
  obtain m where m: "rs_hierarchy d = Some m" by (rule task_node [OF assms(1,2) assms(4) [unfolded Some]])
  show ?thesis
  proof (cases r)
    case None
    then show ?thesis using assms(4,5) Some by (simp add: task_ptrace_def landlocked_def task_is_scoped_def domain_scope_le_def scoped_def)
  next
    case (Some e)
    obtain n where "rs_hierarchy e = Some n" "rooted (lh_hierarchies (sys_heap s)) n"
      by (rule task_node [OF assms(1,3) assms(5) [unfolded Some]])
    then show ?thesis
      using assms(4,5) \<open>q = Some d\<close> Some m scope_walk_ok [of "sys_heap s" n m]
      by (simp add: task_ptrace_def landlocked_def task_is_scoped_def domain_scope_le_def scoped_def)
  qed
qed

section \<open>What a restriction does\<close>

text \<open>The domains of all tasks after a call that succeeded.\<close>

lemma committed_domains:
  assumes "committed t p rs new s s'" "sys_ok X s" "sys_ok X s'" "sys_creds s new = None" "sys_tasks s t = Some c"
    and "sys_creds s c = Some sec" "domain_at s (cred_domain sec) p"
  obtains d M h where "merged p rs (sys_heap s) M (Inr d) h" "keeps_nodes (lh_hierarchies h) (lh_hierarchies (sys_heap s'))"
    "landlock_get_task_domain t s = Some p" "sys_tasks s' t = Some new"
    "\<exists>d'. landlock_get_task_domain t s' = Some (Some d') \<and> same_domain (Some d) (Some d')"
    "\<forall>u cu. u \<noteq> t \<longrightarrow> sys_tasks s u = Some cu \<longrightarrow> sys_tasks s' u = Some cu \<and>
       (\<exists>q q'. landlock_get_task_domain u s = Some q \<and> landlock_get_task_domain u s' = Some q' \<and> same_domain q q')"
proof -
  obtain d M h where c: "merged p rs (sys_heap s) M (Inr d) h" "sys_rulesets s (rs_addr d) = None"
      "keeps_rulesets ((sys_rulesets s)(rs_addr d \<mapsto> d)) (sys_rulesets s')" "keeps_nodes (lh_hierarchies h) (lh_hierarchies (sys_heap s'))"
      "sys_creds s' = (sys_creds s)(new \<mapsto> \<lparr>cred_domain = Some (rs_addr d)\<rparr>)" "sys_tasks s' = (sys_tasks s)(t \<mapsto> new)"
    using assms(1) unfolding committed_def by blast
  have "landlock_get_task_domain t s = Some p"
    using assms(5-7) by (auto simp: landlock_get_task_domain_def domain_at_def split: option.splits)
  moreover have "\<exists>d'. landlock_get_task_domain t s' = Some (Some d') \<and> same_domain (Some d) (Some d')"
  proof -
    obtain d' where d': "sys_rulesets s' (rs_addr d) = Some d'"
      by (rule cred_domainD [OF assms(3), of new "\<lparr>cred_domain = Some (rs_addr d)\<rparr>" "rs_addr d"]) (simp_all add: c(5))
    then have "d' = d\<lparr>rs_usage := rs_usage d'\<rparr>" using c(3) unfolding keeps_rulesets_def by fastforce
    then show ?thesis using d' c(5,6) by (auto simp: landlock_get_task_domain_def intro: same_domainI)
  qed
  moreover have "sys_tasks s' u = Some cu \<and>
       (\<exists>q q'. landlock_get_task_domain u s = Some q \<and> landlock_get_task_domain u s' = Some q' \<and> same_domain q q')"
    if u: "u \<noteq> t" "sys_tasks s u = Some cu" for u cu
  proof -
    have t: "sys_tasks s' u = Some cu" using u c(6) by simp
    have "sys_creds s cu \<noteq> None" using assms(2) u(2) unfolding sys_ok_def users_ok_def by blast
    then have cr: "sys_creds s' cu = sys_creds s cu" using assms(4) c(5) by auto
    have "rs' = r\<lparr>rs_usage := rs_usage rs'\<rparr>" if "sys_rulesets s a = Some r" "sys_rulesets s' a = Some rs'" for a r rs'
    proof -
      have "a \<noteq> rs_addr d" using that(1) c(2) by auto
      then show ?thesis using c(3) that unfolding keeps_rulesets_def by fastforce
    qed
    then obtain q q' where "landlock_get_task_domain u s = Some q" "landlock_get_task_domain u s' = Some q'" "same_domain q q'"
      by (rule task_domain_keeps [OF assms(2,3) u(2) t cr])
    then show ?thesis using t by blast
  qed
  ultimately show thesis using that [OF c(1,4)] c(6) by simp
qed

lemma keeps_nodes_link:
  assumes "H a = None" "\<And>d. p = Some d \<Longrightarrow> \<exists>ph. rs_hierarchy d = Some ph \<and> H ph \<noteq> None"
  shows "keeps_nodes (link_hierarchy p a (H(a \<mapsto> \<lparr>h_parent = None, h_usage = 1\<rparr>))) H"
proof (cases p)
  case None
  then show ?thesis using assms(1) by (auto simp: keeps_nodes_def link_hierarchy_def)
next
  case (Some d)
  then obtain ph n where "rs_hierarchy d = Some ph" "H ph = Some n" using assms(2) by auto
  then show ?thesis using assms(1) Some by (auto simp: keeps_nodes_def link_hierarchy_def Let_def)
qed

lemma sys_ok_nodes: "sys_ok X s \<Longrightarrow> nodes_ok (lh_hierarchies (sys_heap s)) (store_sum (refs_to rs_hierarchy) (sys_rulesets s))"
  by (simp add: sys_ok_def memory_ok_def)

text \<open>Scopes before and after: the new node is below its parent, and nothing else is below the new node.\<close>

lemma merged_scopes:
  assumes "merged p rs (sys_heap s) M (Inr d) h" "keeps_nodes (lh_hierarchies h) H'" "nodes_ok H' D'" "sys_ok X s"
    and "\<And>e. p = Some e \<Longrightarrow> \<exists>ph. rs_hierarchy e = Some ph \<and> lh_hierarchies (sys_heap s) ph \<noteq> None"
    and "rs_hierarchy d = Some n" "H' n \<noteq> None"
  shows "\<And>m x. lh_hierarchies (sys_heap s) m \<noteq> None \<Longrightarrow> H' m \<noteq> None \<Longrightarrow> in_scope H' x m \<longleftrightarrow> in_scope (lh_hierarchies (sys_heap s)) x m"
    "\<And>m. lh_hierarchies (sys_heap s) m \<noteq> None \<Longrightarrow> H' m \<noteq> None \<Longrightarrow> \<not> in_scope H' n m"
    "\<And>e ph x. p = Some e \<Longrightarrow> rs_hierarchy e = Some ph \<Longrightarrow> in_scope (lh_hierarchies (sys_heap s)) x ph \<Longrightarrow> in_scope H' x n"
proof -
  let ?H = "lh_hierarchies (sys_heap s)" and ?H1 = "lh_hierarchies h"
  have n: "?H n = None" "?H1 = link_hierarchy p n (?H(n \<mapsto> \<lparr>h_parent = None, h_usage = 1\<rparr>))"
    using assms(1,6) by (auto simp: merged_def)
  have k: "keeps_nodes ?H1 ?H" unfolding n(2) by (rule keeps_nodes_link [OF n(1) assms(5)])
  note ok = sys_ok_nodes [OF assms(4)]
  have root: "rooted ?H m" if "?H m \<noteq> None" for m using nodes_okD(3) [OF ok] that by blast
  have root': "rooted H' m" if "H' m \<noteq> None" for m using nodes_okD(3) [OF assms(3)] that by blast
  show same: "in_scope H' x m \<longleftrightarrow> in_scope ?H x m" if "?H m \<noteq> None" "H' m \<noteq> None" for m x
    using in_scope_keeps [OF assms(2) root' [OF that(2)]] in_scope_keeps [OF k root [OF that(1)]] by simp
  show "\<not> in_scope H' n m" if "?H m \<noteq> None" "H' m \<noteq> None" for m
    using same [OF that] in_scope_allocated [OF ok _ that(1)] n(1) by blast
  show "in_scope H' x n" if "p = Some e" "rs_hierarchy e = Some ph" "in_scope ?H x ph" for e ph x
  proof -
    have ph: "?H ph \<noteq> None" using assms(5) [OF that(1)] that(2) by auto
    then have neq: "ph \<noteq> n" using n(1) by auto
    have "\<exists>node. ?H1 n = Some node \<and> h_parent node = Some ph" unfolding n(2) that(1) using that(2) neq by (simp add: link_hierarchy_def Let_def)
    moreover have "in_scope ?H1 x ph" using in_scope_keeps [OF k root [OF ph]] that(3) by simp
    ultimately have "in_scope ?H1 x n" by (auto intro: in_scope.up)
    then show ?thesis using in_scope_keeps [OF assms(2) root' [OF assms(7)]] by simp
  qed
qed

text \<open>The domain of a task that keeps its domain has the same node before and after.\<close>

lemma task_node_kept:
  assumes "sys_ok X s" "sys_ok X' s'" "sys_tasks s u = Some cu" "sys_tasks s' u = Some cu'"
    and "landlock_get_task_domain u s = Some (Some e)" "landlock_get_task_domain u s' = Some q'" "same_domain (Some e) q'"
  obtains e' m where "q' = Some e'" "rs_hierarchy e = Some m" "rs_hierarchy e' = Some m"
    "lh_hierarchies (sys_heap s) m \<noteq> None" "lh_hierarchies (sys_heap s') m \<noteq> None"
proof -
  obtain e' where e': "q' = Some e'" "same_domain (Some e) (Some e')" using assms(7) same_domain_Some by blast
  obtain m where m: "rs_hierarchy e = Some m" "lh_hierarchies (sys_heap s) m \<noteq> None" by (rule task_node [OF assms(1,3,5)])
  obtain m' where "rs_hierarchy e' = Some m'" "lh_hierarchies (sys_heap s') m' \<noteq> None"
    by (rule task_node [OF assms(2,4) assms(6) [unfolded e'(1)]])
  then show thesis using that e' m same_domain_hierarchy [OF e'(2)] by auto
qed

lemma committed_scoped:
  assumes "committed t p rs new s s'" "sys_ok X s" "sys_ok X s'" "sys_creds s new = None" "sys_tasks s t = Some c"
    and "sys_creds s c = Some sec" "domain_at s (cred_domain sec) p"
  shows "\<exists>d'. landlock_get_task_domain t s = Some p \<and> landlock_get_task_domain t s' = Some (Some d') \<and> sys_tasks s' t = Some new \<and>
    (\<forall>u cu. u \<noteq> t \<longrightarrow> sys_tasks s u = Some cu \<longrightarrow> sys_tasks s' u = Some cu \<and>
       (\<exists>q q'. landlock_get_task_domain u s = Some q \<and> landlock_get_task_domain u s' = Some q' \<and>
          \<not> scoped (lh_hierarchies (sys_heap s')) (Some d') q' \<and>
          (scoped (lh_hierarchies (sys_heap s)) q p \<longrightarrow> scoped (lh_hierarchies (sys_heap s')) q' (Some d')) \<and>
          (\<forall>v cv r r'. v \<noteq> t \<longrightarrow> sys_tasks s v = Some cv \<longrightarrow> landlock_get_task_domain v s = Some r \<longrightarrow> landlock_get_task_domain v s' = Some r' \<longrightarrow>
             scoped (lh_hierarchies (sys_heap s')) q' r' = scoped (lh_hierarchies (sys_heap s)) q r)))"
proof -
  let ?H = "lh_hierarchies (sys_heap s)" and ?H' = "lh_hierarchies (sys_heap s')"
  obtain d M h where m: "merged p rs (sys_heap s) M (Inr d) h" "keeps_nodes (lh_hierarchies h) ?H'"
      and dt: "landlock_get_task_domain t s = Some p" "sys_tasks s' t = Some new"
        "\<exists>d'. landlock_get_task_domain t s' = Some (Some d') \<and> same_domain (Some d) (Some d')"
      and others: "\<forall>u cu. u \<noteq> t \<longrightarrow> sys_tasks s u = Some cu \<longrightarrow> sys_tasks s' u = Some cu \<and>
        (\<exists>q q'. landlock_get_task_domain u s = Some q \<and> landlock_get_task_domain u s' = Some q' \<and> same_domain q q')"
    by (rule committed_domains [OF assms])
  obtain d' where d': "landlock_get_task_domain t s' = Some (Some d')" "same_domain (Some d) (Some d')" using dt(3) by blast
  obtain n where n: "rs_hierarchy d' = Some n" "?H' n \<noteq> None" by (rule task_node [OF assms(3) dt(2) d'(1)])
  then have "rs_hierarchy d = Some n" using same_domain_hierarchy [OF d'(2)] by simp
  from merged_scopes [OF m sys_ok_nodes [OF assms(3)] assms(2) parent_ok_domain_at(2) [OF assms(2,6,7)] this n(2)]
  have sc: "\<And>m x. ?H m \<noteq> None \<Longrightarrow> ?H' m \<noteq> None \<Longrightarrow> in_scope ?H' x m \<longleftrightarrow> in_scope ?H x m"
      "\<And>m. ?H m \<noteq> None \<Longrightarrow> ?H' m \<noteq> None \<Longrightarrow> \<not> in_scope ?H' n m"
      "\<And>e ph x. p = Some e \<Longrightarrow> rs_hierarchy e = Some ph \<Longrightarrow> in_scope ?H x ph \<Longrightarrow> in_scope ?H' x n"
    by blast+
  have u: "sys_tasks s' u = Some cu \<and>
       (\<exists>q q'. landlock_get_task_domain u s = Some q \<and> landlock_get_task_domain u s' = Some q' \<and> \<not> scoped ?H' (Some d') q' \<and>
          (scoped ?H q p \<longrightarrow> scoped ?H' q' (Some d')) \<and>
          (\<forall>v cv r r'. v \<noteq> t \<longrightarrow> sys_tasks s v = Some cv \<longrightarrow> landlock_get_task_domain v s = Some r \<longrightarrow> landlock_get_task_domain v s' = Some r' \<longrightarrow>
             scoped ?H' q' r' = scoped ?H q r))" if ut: "u \<noteq> t" "sys_tasks s u = Some cu" for u cu
  proof -
    obtain q q' where q: "sys_tasks s' u = Some cu" "landlock_get_task_domain u s = Some q" "landlock_get_task_domain u s' = Some q'" "same_domain q q'"
      using others ut by blast
    have 1: "\<not> scoped ?H' (Some d') q'"
    proof (cases q)
      case None
      then show ?thesis using q(4) by (simp add: scoped_def)
    next
      case (Some e)
      obtain e' k where "q' = Some e'" "rs_hierarchy e = Some k" "rs_hierarchy e' = Some k" "?H k \<noteq> None" "?H' k \<noteq> None"
        by (rule task_node_kept [OF assms(2,3) ut(2) q(1,2) [unfolded Some] q(3) q(4) [unfolded Some]])
      then show ?thesis using sc(2) n(1) by (simp add: scoped_def)
    qed
    have 2: "scoped ?H' q' (Some d')" if sp: "scoped ?H q p"
    proof (cases q)
      case None
      then show ?thesis using q(4) by (simp add: scoped_def)
    next
      case (Some e)
      obtain e' k where e': "q' = Some e'" "rs_hierarchy e = Some k" "rs_hierarchy e' = Some k" "?H k \<noteq> None" "?H' k \<noteq> None"
        by (rule task_node_kept [OF assms(2,3) ut(2) q(1,2) [unfolded Some] q(3) q(4) [unfolded Some]])
      obtain g where g: "p = Some g" using sp Some by (cases p) (auto simp: scoped_def)
      obtain ph where "rs_hierarchy g = Some ph" by (rule task_node [OF assms(2,5) dt(1) [unfolded g]])
      then show ?thesis using sc(3) [OF g] sp Some e' n(1) g by (simp add: scoped_def)
    qed
    have 3: "scoped ?H' q' r' = scoped ?H q r"
      if v: "v \<noteq> t" "sys_tasks s v = Some cv" "landlock_get_task_domain v s = Some r" "landlock_get_task_domain v s' = Some r'" for v cv r r'
    proof (cases r)
      case None
      then have "r' = None" using others [rule_format, OF v(1,2)] v(3,4) by auto
      then show ?thesis using None q(4) by (cases q; cases q') (auto simp: scoped_def)
    next
      case (Some e)
      have v': "sys_tasks s' v = Some cv" "same_domain (Some e) r'" using others [rule_format, OF v(1,2)] v(3,4) Some by auto
      obtain e' k where e': "r' = Some e'" "rs_hierarchy e = Some k" "rs_hierarchy e' = Some k" "?H k \<noteq> None" "?H' k \<noteq> None"
        by (rule task_node_kept [OF assms(2,3) v(2) v'(1) v(3) [unfolded Some] v(4) v'(2)])
      have "scoped ?H' q' r' = scoped ?H' q r" using scoped_same [OF q(4), of r r'] v'(2) Some by simp
      also have "\<dots> = scoped ?H q r" using sc(1) [OF e'(4,5)] e'(1-3) Some by (cases q) (simp_all add: scoped_def)
      finally show ?thesis .
    qed
    show ?thesis using q 1 2 3 by blast
  qed
  then show ?thesis using dt(1,2) d'(1) by blast
qed

lemma restrict_self_success:
  assumes "rebal_ok rebal" "cred_api_ok A" "sys_ok X s" "sys_tasks s t = Some c"
    and "sys_landlock_restrict_self rebal A E fdt t nnp cap fd flags s = Some (OK, s')"
  obtains f a rs sec p new where "sys_ok X s'" "restrict_error E fdt (nnp \<or> cap) fd flags s = None"
    "fdget fdt fd s = Some f" "ff_ruleset f = Some a" "sys_rulesets s a = Some rs" "ruleset_ok rs"
    "sys_creds s c = Some sec" "domain_at s (cred_domain sec) p" "sys_creds s new = None" "committed t p rs new s s'"
  using restrict_self_ok [OF assms(1-4), of E fdt nnp cap fd flags] assms(5) that by (auto split: option.splits)

text \<open>What a domain grants does not depend on its counter.\<close>

lemma dentry_layers_usage [simp]: "dentry_layers V k (d\<lparr>rs_usage := n\<rparr>) de = dentry_layers V k d de"
  by (simp add: dentry_layers_def split: option.splits)

lemma request_granted_usage: "request_granted U V k (d\<lparr>rs_usage := n\<rparr>) ds req = request_granted U V k d ds req"
  by (simp add: request_granted_def right_granted_def handles_def grants_def)

lemma same_domain_request:
  assumes "same_domain (Some d) (Some d')"
  shows "request_granted U V k d' ds req = request_granted U V k d ds req" "domain_ok d' = domain_ok d"
proof -
  have "d' = d\<lparr>rs_usage := rs_usage d'\<rparr>" using same_domainD [OF assms] by blast
  then show "request_granted U V k d' ds req = request_granted U V k d ds req" using request_granted_usage by metis
  show "domain_ok d' = domain_ok d" using \<open>d' = _\<close> usage_irrelevant by metis
qed

lemma current_check_ok:
  assumes "p \<noteq> None \<Longrightarrow> domain_ok (the p)" "climbs V (p_mnt path) (p_dentry path) ds e"
  shows "current_check_access_path U V k p path req = Some OK \<longleftrightarrow>
    exempt V path e \<or> (case p of None \<Rightarrow> True | Some d \<Rightarrow> request_granted U V k d ds req)"
  using assms by (cases p) (auto simp: current_check_access_path_def check_access_path_ok)

text \<open>A call that holds a shared ruleset for a while leaves its counter as it was.\<close>

lemma put_shared:
  "sys_rulesets s a = Some rs \<Longrightarrow> rs_usage rs = Suc n \<Longrightarrow> 0 < n \<Longrightarrow> put_ruleset_at (Some a) s = Some (set_ruleset a (Some (rs\<lparr>rs_usage := n\<rparr>)) s)"
  by (simp add: put_ruleset_at_def landlock_put_ruleset_def set_ruleset_def)

definition add_error :: "vfs \<Rightarrow> user_api \<Rightarrow> fd_table \<Rightarrow> int \<Rightarrow> u32 \<Rightarrow> u64 \<Rightarrow> u32 \<Rightarrow> landlock_system \<Rightarrow> errno option" where
  "add_error V E fdt fd rule_type rule_attr flags s =
     (if \<not> landlock_initialized E then Some EOPNOTSUPP
      else if flags \<noteq> 0 then Some EINVAL
      else case fdget fdt fd s of
             None \<Rightarrow> Some EBADF
           | Some f \<Rightarrow>
               (case ff_ruleset f of
                  None \<Rightarrow> Some EBADFD
                | Some a \<Rightarrow> if \<not> ff_can_write f then Some EPERM else rule_error V E fdt (the (sys_rulesets s a)) rule_type rule_attr s))"

lemma get_path_from_fd_ruleset [simp]: "get_path_from_fd V fdt fd (set_ruleset a r s) = get_path_from_fd V fdt fd s"
proof -
  have "fdget_raw fdt fd (set_ruleset a r s) = fdget_raw fdt fd s" by (cases "fdt fd") (simp_all add: fdget_raw_def set_ruleset_def)
  then show ?thesis by (simp add: get_path_from_fd_def)
qed

lemma rule_error_usage: "rule_error V E fdt (rs\<lparr>rs_usage := n\<rparr>) rule_type rule_attr (set_ruleset a r s) = rule_error V E fdt rs rule_type rule_attr s"
  by (simp add: rule_error_def split: option.splits prod.splits)

lemma access_of_usage [simp]: "access_of (rs\<lparr>rs_usage := n\<rparr>) = access_of rs"
  by (simp add: access_of_def fun_eq_iff)

lemma appended_usage:
  "appended U V path acc (rs\<lparr>rs_usage := n\<rparr>) rc rs' h' \<Longrightarrow> same_header (rs\<lparr>rs_usage := n\<rparr>) rs' \<Longrightarrow>
   appended U V path acc rs rc (rs'\<lparr>rs_usage := rs_usage rs\<rparr>) h'"
  by (auto simp: appended_def absolute_access_def split: if_splits)

text \<open>The rest of the call, with the ruleset held: its counter is the same before and after.\<close>

lemma add_held:
  assumes "rebal_ok rebal" "sys_ok X s" "sys_rulesets s a = Some rs" "rs_hierarchy rs = None"
    and s1: "s1 = set_ruleset a (Some (rs\<lparr>rs_usage := rs_usage rs + 1\<rparr>)) s" and "sys_ok (add_mset a X) s1"
  shows "\<exists>rc s'. do {
       (err, s) \<leftarrow> add_path_rule U V rebal [] E fdt a rule_type rule_attr s1;
       s \<leftarrow> put_ruleset_at (Some a) s;
       Some (err, s)
     } = Some (rc, s') \<and> sys_ok X s' \<and>
    (case rule_error V E fdt rs rule_type rule_attr s of
       Some e \<Rightarrow> rc = Err e \<and> s' = s
     | None \<Rightarrow>
         (\<exists>allowed parent_fd path rs' h'. copy_from_user E rule_attr = Some (allowed, parent_fd) \<and> get_path_from_fd V fdt parent_fd s = Inr path \<and>
            appended U V path (ucast allowed) rs rc rs' h' \<and> fs_access_masks rs' = fs_access_masks rs \<and>
            lh_hierarchies h' = lh_hierarchies (sys_heap s) \<and> s' = set_ruleset a (Some rs') (s\<lparr>sys_heap := h'\<rparr>)))"
proof -
  let ?rs = "rs\<lparr>rs_usage := rs_usage rs + 1\<rparr>"
  have rs1: "sys_rulesets s1 a = Some ?rs" "rs_hierarchy ?rs = None" "sys_heap s1 = sys_heap s" using assms(4) by (simp_all add: s1 set_ruleset_def)
  have pos: "0 < rs_usage rs" using countedD [of rs_usage "sys_rulesets s" _ a rs] assms(2,3) by (auto simp: sys_ok_def)
  have err: "rule_error V E fdt ?rs rule_type rule_attr s1 = rule_error V E fdt rs rule_type rule_attr s" unfolding s1 by (rule rule_error_usage)
  obtain rc s2 where p: "add_path_rule U V rebal [] E fdt a rule_type rule_attr s1 = Some (rc, s2)" "sys_ok (add_mset a X) s2"
      "case rule_error V E fdt rs rule_type rule_attr s of
         Some e \<Rightarrow> rc = Err e \<and> s2 = s1
       | None \<Rightarrow>
           (\<exists>allowed parent_fd path rs' h'. copy_from_user E rule_attr = Some (allowed, parent_fd) \<and> get_path_from_fd V fdt parent_fd s1 = Inr path \<and>
              s2 = set_ruleset a (Some rs') (s1\<lparr>sys_heap := h'\<rparr>) \<and> appended U V path (ucast allowed) ?rs rc rs' h' \<and> same_header ?rs rs' \<and>
              ruleset_ok rs' \<and> lh_hierarchies h' = lh_hierarchies (sys_heap s1))"
    using add_path_rule_ok [OF assms(1,6) rs1(1,2), of U V E fdt rule_type rule_attr] unfolding err by blast
  obtain s3 where s3: "put_ruleset_at (Some a) s2 = Some s3" "sys_ok X s3" using put_ruleset_at_ok [OF p(2)] by blast
  show ?thesis
  proof (cases "rule_error V E fdt rs rule_type rule_attr s")
    case (Some e)
    then have "s2 = s1" "rc = Err e" using p(3) by simp_all
    moreover then have "s3 = s" using s3(1) put_shared [OF rs1(1), of "rs_usage rs"] pos assms(3) by (simp add: s1 set_ruleset_def fun_upd_idem)
    ultimately show ?thesis using p(1) s3 Some by simp
  next
    case None
    then obtain allowed parent_fd path rs' h' where e: "copy_from_user E rule_attr = Some (allowed, parent_fd)" "get_path_from_fd V fdt parent_fd s1 = Inr path"
        "s2 = set_ruleset a (Some rs') (s1\<lparr>sys_heap := h'\<rparr>)" "appended U V path (ucast allowed) ?rs rc rs' h'" "same_header ?rs rs'"
        "lh_hierarchies h' = lh_hierarchies (sys_heap s)"
      using p(3) rs1(3) by auto
    note hd = same_headerD [OF e(5)]
    let ?rs' = "rs'\<lparr>rs_usage := rs_usage rs\<rparr>"
    have "s3 = set_ruleset a (Some ?rs') (s\<lparr>sys_heap := h'\<rparr>)"
      using s3(1) put_shared [of s2 a rs' "rs_usage rs"] pos hd by (simp add: e(3) s1 set_ruleset_def)
    moreover have "get_path_from_fd V fdt parent_fd s = Inr path" using e(2) by (simp add: s1)
    moreover have "fs_access_masks ?rs' = fs_access_masks rs" using hd by simp
    ultimately have "\<exists>allowed parent_fd path rs' h'. copy_from_user E rule_attr = Some (allowed, parent_fd) \<and> get_path_from_fd V fdt parent_fd s = Inr path \<and>
        appended U V path (ucast allowed) rs rc rs' h' \<and> fs_access_masks rs' = fs_access_masks rs \<and>
        lh_hierarchies h' = lh_hierarchies (sys_heap s) \<and> s3 = set_ruleset a (Some rs') (s\<lparr>sys_heap := h'\<rparr>)"
      using e(1,6) appended_usage [OF e(4,5)] by blast
    then show ?thesis using p(1) s3 None by simp
  qed
qed

lemma add_rule_ok:
  assumes "rebal_ok rebal" "sys_ok X s"
  shows "\<exists>rc s'. sys_landlock_add_rule U V rebal [] E fdt fd rule_type rule_attr flags s = Some (rc, s') \<and> sys_ok X s' \<and>
    (case add_error V E fdt fd rule_type rule_attr flags s of
       Some e \<Rightarrow> rc = Err e \<and> s' = s
     | None \<Rightarrow>
         (\<exists>f a rs allowed parent_fd path rs' h'. fdget fdt fd s = Some f \<and> ff_ruleset f = Some a \<and> sys_rulesets s a = Some rs \<and>
            copy_from_user E rule_attr = Some (allowed, parent_fd) \<and> get_path_from_fd V fdt parent_fd s = Inr path \<and>
            appended U V path (ucast allowed) rs rc rs' h' \<and> fs_access_masks rs' = fs_access_masks rs \<and>
            lh_hierarchies h' = lh_hierarchies (sys_heap s) \<and> s' = set_ruleset a (Some rs') (s\<lparr>sys_heap := h'\<rparr>)))"
proof (cases "\<not> landlock_initialized E \<or> flags \<noteq> 0")
  case True
  then show ?thesis using assms(2) by (auto simp: sys_landlock_add_rule_def add_error_def)
next
  case False
  show ?thesis
  proof (cases rule: get_ruleset_from_fd_cases [OF assms(2), of fdt fd ff_can_write])
    case (1 e)
    then have "add_error V E fdt fd rule_type rule_attr flags s = Some e"
      using False by (auto simp: add_error_def fd_error_def split: option.splits if_splits)
    then show ?thesis using 1(1) False assms(2) by (simp add: sys_landlock_add_rule_def)
  next
    case (2 f a rs s1)
    then have err: "add_error V E fdt fd rule_type rule_attr flags s = rule_error V E fdt rs rule_type rule_attr s" using False by (simp add: add_error_def)
    have run: "sys_landlock_add_rule U V rebal [] E fdt fd rule_type rule_attr flags s = do {
         (err, s) \<leftarrow> add_path_rule U V rebal [] E fdt a rule_type rule_attr s1;
         s \<leftarrow> put_ruleset_at (Some a) s;
         Some (err, s)
       }"
      using False 2(1) by (simp add: sys_landlock_add_rule_def)
    show ?thesis
      using add_held [OF assms 2(6,7,9,10), of U V E fdt rule_type rule_attr] 2(3,4,6) unfolding err run by (fastforce split: option.splits)
  qed
qed

text \<open>A new ruleset has no rules yet.\<close>

lemma landlock_create_ruleset_ok:
  assumes "allocs_ok h"
  obtains (fail) e h' where "landlock_create_ruleset m h = (Inl e, h')" "allocs_ok h'" "set (lh_allocs h') \<subseteq> set (lh_allocs h)" "h' = h\<lparr>lh_allocs := lh_allocs h'\<rparr>"
    | (ok) rs h' where "landlock_create_ruleset m h = (Inr rs, h')" "allocs_ok h'" "set (lh_allocs h') \<subseteq> set (lh_allocs h)" "h' = h\<lparr>lh_allocs := lh_allocs h'\<rparr>"
      "Some (rs_addr rs) \<in> set (lh_allocs h)" "Some (rs_addr rs) \<notin> set (lh_allocs h')"
      "ruleset_ok rs" "rs_hierarchy rs = None" "rule_refs rs = {#}" "rs_usage rs = 1" "fs_access_masks rs = [m]"
proof -
  obtain q h1 where k: "kzalloc h = (q, h1)" by fastforce
  note k_ok = kzalloc_ok [OF k assms]
  have sub: "set (lh_allocs h1) \<subseteq> set (lh_allocs h)" "q \<noteq> None \<Longrightarrow> q \<in> set (lh_allocs h)"
    using k by (auto simp: kzalloc_def split: list.splits)
  show thesis
  proof (cases "m = 0 \<or> q = None")
    case True
    show thesis
    proof (cases "m = 0")
      case True
      then show thesis using assms by (intro fail [of ENOMSG h]) (simp_all add: landlock_create_ruleset_def)
    next
      case False
      then show thesis using True k k_ok sub by (intro fail [of ENOMEM h1]) (auto simp: landlock_create_ruleset_def create_ruleset_def)
    qed
  next
    case False
    then obtain a where a: "q = Some a" by auto
    let ?rs = "\<lparr>rs_addr = a, rs_root = Leaf, rs_hierarchy = None, rs_usage = 1, rs_num_rules = 0, rs_num_layers = 1, fs_access_masks = [m]\<rparr>"
    have "landlock_create_ruleset m h = (Inr ?rs, h1)" using False k a by (simp add: landlock_create_ruleset_def create_ruleset_def)
    moreover have "ruleset_ok ?rs" "rule_refs ?rs = {#}" by (simp_all add: ruleset_ok_def rules_ok_def rule_refs_def)
    ultimately show thesis using k_ok sub a by (intro ok [of ?rs h1]) simp_all
  qed
qed

lemma sys_ok_allocs:
  assumes "sys_ok X s" "h = (sys_heap s)\<lparr>lh_allocs := lh_allocs h\<rparr>" "allocs_ok h" "\<And>a. Some a \<in> set (lh_allocs h) \<Longrightarrow> sys_rulesets s a = None"
  shows "sys_ok X (s\<lparr>sys_heap := h\<rparr>)"
proof -
  have "lh_hierarchies h = lh_hierarchies (sys_heap s)" "heap_ok h M = heap_ok (sys_heap s) M" for M
    by (subst assms(2), simp add: heap_ok_def refs_ok_def ties_ok_def)+
  then show ?thesis using assms(1,3,4) by (auto simp: sys_ok_parts ruleset_refs_def)
qed

text \<open>The last part of the call: the ruleset is handed to a new file, or dropped.\<close>

lemma install_ruleset_ok:
  assumes "sys_ok (add_mset a X) s" "\<And>fd f. getfd = Inr (fd, f) \<Longrightarrow> sys_files s f = None" "sys_rulesets s a = Some rs" "rs_hierarchy rs = None"
  shows "\<exists>r s'. (case getfd of
       Inl e \<Rightarrow> do { s \<leftarrow> put_ruleset_at (Some a) s; Some (Inl e, s) }
     | Inr (fd, f) \<Rightarrow>
         Some (Inr fd, set_file f (Some \<lparr>ff_ruleset = Some a, ff_can_read = True, ff_can_write = True,
                                       ff_o_path = False, ff_path = \<lparr>p_mnt = 0, p_dentry = 0\<rparr>\<rparr>) s)) = Some (r, s') \<and> sys_ok X s'"
proof (cases getfd)
  case (Inl e)
  then show ?thesis using put_ruleset_at_ok [OF assms(1)] by auto
next
  case (Inr x)
  obtain fd f where x: "x = (fd, f)" by (cases x)
  have "sys_files s f = None" using assms(2) Inr x by simp
  then have "sys_ok X (set_file f (Some \<lparr>ff_ruleset = Some a, ff_can_read = True, ff_can_write = True,
      ff_o_path = False, ff_path = \<lparr>p_mnt = 0, p_dentry = 0\<rparr>\<rparr>) s)"
    using assms(3,4) by (intro sys_ok_file [OF assms(1)]) auto
  then show ?thesis using Inr x by simp
qed

lemma create_ruleset_ok:
  assumes "sys_ok X s" "\<And>fd f. getfd = Inr (fd, f) \<Longrightarrow> sys_files s f = None"
  shows "\<exists>r s'. sys_landlock_create_ruleset U E attr sz flags getfd s = Some (r, s') \<and> sys_ok X s'"
proof (cases "landlock_initialized E \<and> flags = 0 \<and>
    (\<exists>m. copy_min_struct_from_user E 8 8 attr sz = Inr m \<and> m OR ucast (LANDLOCK_MASK_ACCESS_FS U) = ucast (LANDLOCK_MASK_ACCESS_FS U))")
  case False
  then show ?thesis using assms(1) by (auto simp: sys_landlock_create_ruleset_def split: sum.splits)
next
  case True
  then obtain m where m: "landlock_initialized E" "flags = 0" "copy_min_struct_from_user E 8 8 attr sz = Inr m"
      "m OR ucast (LANDLOCK_MASK_ACCESS_FS U) = ucast (LANDLOCK_MASK_ACCESS_FS U)" by blast
  have mem: "heap_ok (sys_heap s) (store_sum rule_refs (sys_rulesets s))" "allocs_ok (sys_heap s)"
      "\<And>a. Some a \<in> set (lh_allocs (sys_heap s)) \<Longrightarrow> sys_rulesets s a = None"
    using assms(1) by (simp_all add: sys_ok_def memory_ok_def)
  show ?thesis
  proof (cases rule: landlock_create_ruleset_ok [OF mem(2), of "ucast m"])
    case (1 e h)
    then have "sys_ok X (s\<lparr>sys_heap := h\<rparr>)" using mem(3) by (intro sys_ok_allocs [OF assms(1)]) auto
    then show ?thesis using m 1(1) by (simp add: sys_landlock_create_ruleset_def)
  next
    case (2 rs h)
    have h: "lh_hierarchies h = lh_hierarchies (sys_heap s)" "heap_ok h M = heap_ok (sys_heap s) M" for M
      by (subst 2(4), simp add: heap_ok_def refs_ok_def ties_ok_def)+
    let ?s = "set_ruleset (rs_addr rs) (Some rs) (s\<lparr>sys_heap := h\<rparr>)"
    have "sys_ok (add_mset (rs_addr rs) X) ?s"
      using 2 h mem(1) sys_ok_nodes [OF assms(1)] by (intro sys_ok_new [OF assms(1) mem(3) [OF 2(5)]]) simp_all
    from install_ruleset_ok [OF this, of getfd rs] show ?thesis
      using m 2(1,8) assms(2) by (simp add: sys_landlock_create_ruleset_def Let_def) (simp add: set_ruleset_def)
  qed
qed

end
