(* ===== verification/Landlock_Run.thy ===== *)
theory Landlock_Run
  imports Landlock_System
begin

text \<open>
  Landlock in operation: a transition system with the system calls, forks, exits, closed files, freed
  credentials and unmounted file systems in any order, and the properties of its reachable states and of
  the calls made in them.
\<close>

section \<open>Steps\<close>

text \<open>
  Between the calls the environment provides new free addresses to the allocator and changes the
  reference counters of inodes; a file without a ruleset may be opened at any time. A task forks with
  shared credentials or with a copy, or replaces its own by a copy.
\<close>

inductive landlock_step ::
  "rebalance \<Rightarrow> cred_api \<Rightarrow> fs_rights \<Rightarrow> vfs \<Rightarrow> user_api \<Rightarrow> landlock_system \<Rightarrow> landlock_system \<Rightarrow> bool" for rebal A U V E where
  create: "sys_landlock_create_ruleset U E attr sz flags getfd s = Some (r, s') \<Longrightarrow> (\<And>fd f. getfd = Inr (fd, f) \<Longrightarrow> sys_files s f = None) \<Longrightarrow>
     landlock_step rebal A U V E s s'"
| add: "sys_landlock_add_rule U V rebal [] E fdt fd rule_type rule_attr flags s = Some (rc, s') \<Longrightarrow> landlock_step rebal A U V E s s'"
| restrict: "sys_tasks s t = Some c \<Longrightarrow> sys_landlock_restrict_self rebal A E fdt t nnp cap fd flags s = Some (rc, s') \<Longrightarrow>
     landlock_step rebal A U V E s s'"
| opened: "sys_files s f = None \<Longrightarrow> ff_ruleset x = None \<Longrightarrow> landlock_step rebal A U V E s (set_file f (Some x) s)"
| closed: "sys_files s f = Some x \<Longrightarrow> fop_ruleset_release x s = Some (rc, s') \<Longrightarrow> landlock_step rebal A U V E s (set_file f None s')"
| fork: "sys_tasks s t = Some c \<Longrightarrow> sys_tasks s t' = None \<Longrightarrow> landlock_step rebal A U V E s (set_task t' (Some c) s)"
| copy: "sys_tasks s t = Some c \<Longrightarrow> sys_tasks s t' = None \<or> t' = t \<Longrightarrow> sys_creds s n = None \<Longrightarrow>
     hook_cred_prepare n c (set_cred n (Some \<lparr>cred_domain = None\<rparr>) s) = Some (rc, s') \<Longrightarrow>
     landlock_step rebal A U V E s (set_task t' (Some n) s')"
| exited: "landlock_step rebal A U V E s (set_task t None s)"
| cred_freed: "sys_creds s c = Some x \<Longrightarrow> \<forall>t. sys_tasks s t \<noteq> Some c \<Longrightarrow> hook_cred_free c s = Some s' \<Longrightarrow>
     landlock_step rebal A U V E s (set_cred c None s')"
| unmounted: "hook_sb_delete True is (sys_heap s) = Some h \<Longrightarrow> distinct (map fst is) \<Longrightarrow> landlock_step rebal A U V E s (s\<lparr>sys_heap := h\<rparr>)"
| addresses: "h = (sys_heap s)\<lparr>lh_allocs := lh_allocs h\<rparr> \<Longrightarrow> allocs_ok h \<Longrightarrow> (\<And>a. Some a \<in> set (lh_allocs h) \<Longrightarrow> sys_rulesets s a = None) \<Longrightarrow>
     landlock_step rebal A U V E s (s\<lparr>sys_heap := h\<rparr>)"
| inodes: "h = (sys_heap s)\<lparr>lh_i_count := lh_i_count h\<rparr> \<Longrightarrow> ties_ok h \<Longrightarrow> landlock_step rebal A U V E s (s\<lparr>sys_heap := h\<rparr>)"

text \<open>The system when it starts: one task with credentials that have no domain.\<close>

definition sys_init :: landlock_system where
  "sys_init =
     \<lparr>sys_heap = \<lparr>lh_objects = Map.empty, lh_inode_object = Map.empty, lh_i_count = (\<lambda>_. 0), lh_hierarchies = Map.empty, lh_allocs = []\<rparr>,
      sys_rulesets = Map.empty, sys_files = Map.empty, sys_creds = [0 \<mapsto> \<lparr>cred_domain = None\<rparr>], sys_tasks = [0 \<mapsto> 0]\<rparr>"

lemma sys_init_ok: "sys_ok {#} sys_init"
proof -
  have "store_sum g (Map.empty :: 'b \<Rightarrow> 'v option) = 0" for g :: "'v \<Rightarrow> 'c :: comm_monoid_add" by (simp add: store_sum_def)
  then show ?thesis
    by (simp add: sys_ok_parts sys_init_def ruleset_refs_def counted_def nodes_ok_def heap_ok_def refs_ok_def ties_ok_def allocs_ok_def
        store_sum_def)
qed

lemma sys_ok_unmount:
  assumes "sys_ok X s" "distinct (map fst is)"
  shows "\<exists>h. hook_sb_delete True is (sys_heap s) = Some h \<and> sys_ok X (s\<lparr>sys_heap := h\<rparr>)"
proof -
  have mem: "heap_ok (sys_heap s) (store_sum rule_refs (sys_rulesets s))" "allocs_ok (sys_heap s)" using assms(1) by (simp_all add: sys_ok_def memory_ok_def)
  obtain h where h: "sb_delete_loop is None (sys_heap s) = Some h" "heap_ok h (store_sum rule_refs (sys_rulesets s))"
      "lh_allocs h = lh_allocs (sys_heap s)" "lh_hierarchies h = lh_hierarchies (sys_heap s)"
    using sb_delete_loop_ok [of None "sys_heap s" "store_sum rule_refs (sys_rulesets s)" "is"] mem(1) assms(2) by (auto simp: put_prev_def)
  have "lh_objects h a = None" if "lh_objects (sys_heap s) a = None" for a
    using that mem(1) h(2) counted_mem [of usage "lh_objects (sys_heap s)" "store_sum rule_refs (sys_rulesets s)" a]
      counted_mem [of usage "lh_objects h" "store_sum rule_refs (sys_rulesets s)" a]
    by (auto simp: heap_ok_def refs_ok_def)
  then have "allocs_ok h" using mem(2) h(3,4) by (auto simp: allocs_ok_def)
  then show ?thesis using sys_ok_heap [OF assms(1) h(2)] h by (simp add: hook_sb_delete_def)
qed

lemma landlock_step_ok:
  assumes "landlock_step rebal A U V E s s'" "rebal_ok rebal" "cred_api_ok A" "sys_ok {#} s"
  shows "sys_ok {#} s'"
  using assms(1,4)
proof (cases rule: landlock_step.cases)
  case (create attr sz flags getfd r)
  then show ?thesis using create_ruleset_ok [OF assms(4), of getfd U E attr sz flags] by auto
next
  case (add fdt fd rule_type rule_attr flags rc)
  then show ?thesis using add_rule_ok [OF assms(2,4), of U V E fdt fd rule_type rule_attr flags] by auto
next
  case (restrict t c fdt nnp cap fd flags rc)
  then show ?thesis using restrict_self_ok [OF assms(2,3,4), of t c E fdt nnp cap fd flags] by auto
next
  case (opened f x)
  have "sys_ok {#} (set_file f (Some x) s)" using opened by (intro sys_ok_file [OF assms(4)]) auto
  then show ?thesis using opened(1) by simp
next
  case (closed f x rc s1)
  then show ?thesis using fop_ruleset_release_ok [OF assms(4) closed(2)] by auto
next
  case (fork t c t')
  moreover have "sys_creds s c \<noteq> None" using assms(4) fork(2) unfolding sys_ok_def users_ok_def by blast
  ultimately show ?thesis by (auto intro: sys_ok_task [OF assms(4)])
next
  case (copy t c t' n rc s1)
  obtain x where "sys_creds s c = Some x" using assms(4) copy(2) unfolding sys_ok_def users_ok_def by blast
  from hook_cred_prepare_ok [OF assms(4) copy(4) this] have "sys_ok {#} s1" "sys_creds s1 n \<noteq> None"
    using copy(5) by (auto simp: set_cred_def)
  then show ?thesis using copy(1) by (auto intro: sys_ok_task)
next
  case (exited t)
  then show ?thesis by (auto intro: sys_ok_task [OF assms(4)])
next
  case (cred_freed c x s1)
  then show ?thesis using hook_cred_free_ok [OF assms(4) cred_freed(2,3)] by auto
next
  case (unmounted "is" h)
  then show ?thesis using sys_ok_unmount [OF assms(4), of "is"] by auto
next
  case (addresses h)
  then show ?thesis using sys_ok_allocs [OF assms(4)] by blast
next
  case (inodes h)
  have h: "lh_objects h = lh_objects (sys_heap s)" "lh_hierarchies h = lh_hierarchies (sys_heap s)" "lh_allocs h = lh_allocs (sys_heap s)"
    by (subst inodes(2), simp)+
  then have "heap_ok h (store_sum rule_refs (sys_rulesets s))" "allocs_ok h"
    using inodes(3) assms(4) by (simp_all add: sys_ok_def memory_ok_def heap_ok_def refs_ok_def allocs_ok_def)
  then show ?thesis using inodes(1) sys_ok_heap [OF assms(4)] h by simp
qed

lemma reachable_ok:
  assumes "(landlock_step rebal A U V E)\<^sup>*\<^sup>* sys_init s" "rebal_ok rebal" "cred_api_ok A"
  shows "sys_ok {#} s"
  using assms(1) by (induction rule: rtranclp_induct) (auto simp: sys_init_ok intro: landlock_step_ok [OF _ assms(2,3)])

section \<open>A sample system\<close>

text \<open>
  Two tasks with the same credentials, and a file that refers to a ruleset for reading. The new
  credentials are always the seventh.
\<close>

definition sample_creds :: cred_api where
  "sample_creds =
     \<lparr>prepare_creds = (\<lambda>t s.
        (case sys_tasks s t of
           None \<Rightarrow> None
         | Some c \<Rightarrow>
             if sys_creds s 7 = None
             then do { (_, s) \<leftarrow> hook_cred_prepare 7 c (set_cred 7 (Some \<lparr>cred_domain = None\<rparr>) s); Some (Some 7, s) }
             else Some (None, s))),
      commit_creds = (\<lambda>t n s. Some (OK, set_task t (Some n) s)),
      abort_creds = (\<lambda>n s. do { s \<leftarrow> hook_cred_free n s; Some (set_cred n None s) })\<rparr>"

lemma sample_creds_ok: "cred_api_ok sample_creds"
  unfolding cred_api_ok_def prepares_creds_def commits_creds_def aborts_creds_def
  by (auto simp: sample_creds_def intro!: exI [of _ 7])

definition sample_user :: user_api where
  "sample_user =
     \<lparr>landlock_initialized = True, landlock_errata = 0, PAGE_SIZE = 4096, LANDLOCK_CREATE_RULESET_VERSION = 1, LANDLOCK_CREATE_RULESET_ERRATA = 2,
      LANDLOCK_RULE_PATH_BENEATH = 1, copy_struct_from_user = (\<lambda>_ _ _. Inr 4), copy_from_user = (\<lambda>_. Some (4, 8))\<rparr>"

definition plain_file :: kfile where
  "plain_file = \<lparr>ff_ruleset = None, ff_can_read = True, ff_can_write = True, ff_o_path = False, ff_path = \<lparr>p_mnt = 0, p_dentry = 1\<rparr>\<rparr>"

definition ruleset_file :: kfile where
  "ruleset_file = plain_file\<lparr>ff_ruleset := Some 300\<rparr>"

definition empty_ruleset :: landlock_ruleset where
  "empty_ruleset = \<lparr>rs_addr = 300, rs_root = Leaf, rs_hierarchy = None, rs_usage = 1, rs_num_rules = 0, rs_num_layers = 1, fs_access_masks = [4]\<rparr>"

definition sample_system :: landlock_system where
  "sample_system =
     \<lparr>sys_heap = \<lparr>lh_objects = Map.empty, lh_inode_object = Map.empty, lh_i_count = (\<lambda>_. 1), lh_hierarchies = Map.empty,
                  lh_allocs = [Some 400, Some 500]\<rparr>,
      sys_rulesets = [300 \<mapsto> empty_ruleset], sys_files = [3 \<mapsto> ruleset_file, 4 \<mapsto> plain_file], sys_creds = [0 \<mapsto> \<lparr>cred_domain = None\<rparr>],
      sys_tasks = [0 \<mapsto> 0, 1 \<mapsto> 0]\<rparr>"

definition sample_fds :: fd_table where
  "sample_fds = [5 \<mapsto> 3, 8 \<mapsto> 4]"

lemma empty_ruleset_ok: "ruleset_ok empty_ruleset" "rule_refs empty_ruleset = {#}"
  by (simp_all add: empty_ruleset_def ruleset_ok_def rules_ok_def rule_refs_def)

lemma sample_system_ok: "sys_ok {#} sample_system"
proof -
  have "store_sum (refs_to ff_ruleset) [3 :: nat \<mapsto> ruleset_file, 4 \<mapsto> plain_file] = {#300#}"
    by (simp add: store_sum_new store_sum_def [of _ Map.empty] ruleset_file_def plain_file_def refs_to_def)
  moreover have "store_sum (refs_to cred_domain) [0 :: nat \<mapsto> \<lparr>cred_domain = None\<rparr>] = {#}"
    by (simp add: store_sum_new store_sum_def [of _ Map.empty] refs_to_def)
  moreover have "store_sum rule_refs [300 :: u64 \<mapsto> empty_ruleset] = {#}" "store_sum (refs_to rs_hierarchy) [300 :: u64 \<mapsto> empty_ruleset] = {#}"
    using empty_ruleset_ok(2) by (simp_all add: store_sum_new store_sum_def [of _ Map.empty] refs_to_def empty_ruleset_def)
  moreover have "store_sum (refs_to h_parent) (\<lambda>_ :: u64. None :: landlock_hierarchy option) = {#}" by (simp add: store_sum_def)
  ultimately show ?thesis
    using empty_ruleset_ok(1)
    by (simp add: sys_ok_parts sample_system_def ruleset_refs_def counted_def nodes_ok_def heap_ok_def refs_ok_def ties_ok_def allocs_ok_def
        empty_ruleset_def ruleset_file_def plain_file_def)
qed

lemma identity_rebal: "rebal_ok (\<lambda>t. t)"
  by (simp add: rebal_ok_def)

definition restricted_system :: landlock_system where
  "restricted_system =
     snd (the (sys_landlock_restrict_self (\<lambda>t. t) sample_creds sample_user sample_fds 0 True False 5 0 sample_system))"

lemma sample_restrict:
  "sys_landlock_restrict_self (\<lambda>t. t) sample_creds sample_user sample_fds 0 True False 5 0 sample_system = Some (OK, restricted_system)"
  unfolding restricted_system_def
  by (simp add: sys_landlock_restrict_self_def sample_user_def get_ruleset_from_fd_def fdget_def fdget_raw_def sample_fds_def sample_system_def
      ruleset_file_def plain_file_def empty_ruleset_def get_ruleset_at_def landlock_get_ruleset_def sample_creds_def hook_cred_prepare_def
      hook_cred_transfer_def replace_domain_def landlock_merge_ruleset_def create_ruleset_def kzalloc_def inherit_ruleset_def
      merge_ruleset_def set_hierarchy_def put_ruleset_at_def landlock_put_ruleset_def sys_setters)

section \<open>Properties\<close>

text \<open>
  C8. In every reachable state all reference counters are exact, and no operation of Landlock fails for a
  dangling pointer, a counter that is too small or an endless walk: the three system calls, the hooks on
  credentials, the release of a file, the shutdown of a superblock and the checks of ptrace all return.
  Every domain in use is well formed and has at most sixteen layers.
\<close>

theorem landlock_memory_safe:
  assumes "(landlock_step rebal A U V E)\<^sup>*\<^sup>* sys_init s" "rebal_ok rebal" "cred_api_ok A"
  shows "sys_ok {#} s \<and>
    (\<forall>attr sz flags getfd. (\<forall>fd f. getfd = Inr (fd, f) \<longrightarrow> sys_files s f = None) \<longrightarrow> sys_landlock_create_ruleset U E attr sz flags getfd s \<noteq> None) \<and>
    (\<forall>fdt fd rule_type rule_attr flags. sys_landlock_add_rule U V rebal [] E fdt fd rule_type rule_attr flags s \<noteq> None) \<and>
    (\<forall>fdt t c nnp cap fd flags. sys_tasks s t = Some c \<longrightarrow> sys_landlock_restrict_self rebal A E fdt t nnp cap fd flags s \<noteq> None) \<and>
    (\<forall>f x. sys_files s f = Some x \<longrightarrow> fop_ruleset_release x s \<noteq> None) \<and>
    (\<forall>c x n. sys_creds s c = Some x \<longrightarrow> sys_creds s n = None \<longrightarrow> hook_cred_prepare n c (set_cred n (Some \<lparr>cred_domain = None\<rparr>) s) \<noteq> None) \<and>
    (\<forall>c x. sys_creds s c = Some x \<longrightarrow> (\<forall>t. sys_tasks s t \<noteq> Some c) \<longrightarrow> hook_cred_free c s \<noteq> None) \<and>
    (\<forall>is. distinct (map fst is) \<longrightarrow> hook_sb_delete True is (sys_heap s) \<noteq> None) \<and>
    (\<forall>t u ct cu. sys_tasks s t = Some ct \<longrightarrow> sys_tasks s u = Some cu \<longrightarrow> hook_ptrace_access_check t u s \<noteq> None) \<and>
    (\<forall>t c d. sys_tasks s t = Some c \<longrightarrow> landlock_get_task_domain t s = Some (Some d) \<longrightarrow> domain_ok d \<and> unat (rs_num_layers d) \<le> 16)"
proof -
  have ok: "sys_ok {#} s" by (rule reachable_ok [OF assms])
  show ?thesis
  proof (intro conjI allI impI)
    show "sys_landlock_create_ruleset U E attr sz flags getfd s \<noteq> None" if "\<forall>fd f. getfd = Inr (fd, f) \<longrightarrow> sys_files s f = None" for attr sz flags getfd
      using create_ruleset_ok [OF ok, of getfd U E attr sz flags] that by auto
    show "sys_landlock_add_rule U V rebal [] E fdt fd rule_type rule_attr flags s \<noteq> None" for fdt fd rule_type rule_attr flags
      using add_rule_ok [OF assms(2) ok, of U V E fdt fd rule_type rule_attr flags] by auto
    show "sys_landlock_restrict_self rebal A E fdt t nnp cap fd flags s \<noteq> None" if "sys_tasks s t = Some c" for fdt t c nnp cap fd flags
      using restrict_self_ok [OF assms(2,3) ok that, of E fdt nnp cap fd flags] by auto
    show "fop_ruleset_release x s \<noteq> None" if "sys_files s f = Some x" for f x using fop_ruleset_release_ok [OF ok that] by auto
    show "hook_cred_prepare n c (set_cred n (Some \<lparr>cred_domain = None\<rparr>) s) \<noteq> None" if "sys_creds s c = Some x" "sys_creds s n = None" for c x n
      using hook_cred_prepare_ok [OF ok that(2,1)] by auto
    show "hook_cred_free c s \<noteq> None" if "sys_creds s c = Some x" "\<forall>t. sys_tasks s t \<noteq> Some c" for c x using hook_cred_free_ok [OF ok that] by auto
    show "hook_sb_delete True is (sys_heap s) \<noteq> None" if "distinct (map fst is)" for "is" using sys_ok_unmount [OF ok that] by auto
    show "hook_ptrace_access_check t u s \<noteq> None" if "sys_tasks s t = Some ct" "sys_tasks s u = Some cu" for t u ct cu
      using task_domain_ok [OF ok that(1)] task_domain_ok [OF ok that(2)] task_ptrace_ok [OF ok that]
      unfolding hook_ptrace_access_check_def by (metis option.distinct(1))
    show "domain_ok d" "unat (rs_num_layers d) \<le> 16" if "sys_tasks s t = Some c" "landlock_get_task_domain t s = Some (Some d)" for t c d
      using task_domain_ok [OF ok that(1)] that(2) by (fastforce simp: domain_ok_def LANDLOCK_MAX_NUM_LAYERS_def)+
  qed (rule ok)
qed

theorem landlock_memory_safe_witness:
  "sys_ok {#} sys_init \<and> hook_ptrace_access_check 0 0 sys_init = Some OK \<and>
   sys_landlock_restrict_self (\<lambda>t. t) sample_creds sample_user sample_fds 0 True False 5 0 sys_init \<noteq> None"
  using landlock_memory_safe [where U = sample_rights and V = sample_vfs and E = sample_user, OF rtranclp.rtrancl_refl identity_rebal sample_creds_ok]
  by (simp add: hook_ptrace_access_check_def task_ptrace_def landlock_get_task_domain_def landlocked_def) (simp add: sys_init_def)

text \<open>
  C11. A task that restricts itself can no longer trace any other task, not even those of the domain it
  leaves, while every task that could trace it before still can. Between the other tasks nothing changes.
\<close>

theorem restrict_self_scopes:
  assumes "rebal_ok rebal" "cred_api_ok A" "sys_ok {#} s" "sys_tasks s t = Some c"
    and "sys_landlock_restrict_self rebal A E fdt t nnp cap fd flags s = Some (OK, s')"
    and "sys_tasks s u = Some cu" "u \<noteq> t" "sys_tasks s v = Some cv" "v \<noteq> t"
  shows "hook_ptrace_access_check t u s' = Some (Err EPERM) \<and>
    (hook_ptrace_traceme t u s = Some OK \<longrightarrow> hook_ptrace_traceme t u s' = Some OK) \<and>
    hook_ptrace_access_check u v s' = hook_ptrace_access_check u v s"
proof -
  obtain f a rs sec p new where r: "sys_ok {#} s'" "restrict_error E fdt (nnp \<or> cap) fd flags s = None"
      "fdget fdt fd s = Some f" "ff_ruleset f = Some a" "sys_rulesets s a = Some rs" "ruleset_ok rs"
      "sys_creds s c = Some sec" "domain_at s (cred_domain sec) p" "sys_creds s new = None" "committed t p rs new s s'"
    by (rule restrict_self_success [OF assms(1-5)])
  let ?H = "lh_hierarchies (sys_heap s)" and ?H' = "lh_hierarchies (sys_heap s')"
  obtain d' where t: "landlock_get_task_domain t s = Some p" "landlock_get_task_domain t s' = Some (Some d')" "sys_tasks s' t = Some new"
      and all: "\<And>u cu. u \<noteq> t \<Longrightarrow> sys_tasks s u = Some cu \<Longrightarrow> sys_tasks s' u = Some cu \<and>
        (\<exists>q q'. landlock_get_task_domain u s = Some q \<and> landlock_get_task_domain u s' = Some q' \<and> \<not> scoped ?H' (Some d') q' \<and>
          (scoped ?H q p \<longrightarrow> scoped ?H' q' (Some d')) \<and>
          (\<forall>v cv r r'. v \<noteq> t \<longrightarrow> sys_tasks s v = Some cv \<longrightarrow> landlock_get_task_domain v s = Some r \<longrightarrow> landlock_get_task_domain v s' = Some r' \<longrightarrow>
             scoped ?H' q' r' = scoped ?H q r))"
    using committed_scoped [OF r(10) assms(3) r(1,9) assms(4) r(7,8)] by blast
  obtain q q' where u: "sys_tasks s' u = Some cu" "landlock_get_task_domain u s = Some q" "landlock_get_task_domain u s' = Some q'"
      "\<not> scoped ?H' (Some d') q'" "scoped ?H q p \<longrightarrow> scoped ?H' q' (Some d')"
      "\<forall>v cv r r'. v \<noteq> t \<longrightarrow> sys_tasks s v = Some cv \<longrightarrow> landlock_get_task_domain v s = Some r \<longrightarrow> landlock_get_task_domain v s' = Some r' \<longrightarrow>
         scoped ?H' q' r' = scoped ?H q r"
    using all [OF assms(7,6)] by blast
  obtain x x' where v: "sys_tasks s' v = Some cv" "landlock_get_task_domain v s = Some x" "landlock_get_task_domain v s' = Some x'"
    using all [OF assms(9,8)] by blast
  have "task_ptrace t u s' = Some (Err EPERM)" using task_ptrace_ok [OF r(1) t(3) u(1) t(2) u(3)] u(4) by simp
  moreover have "task_ptrace u t s' = Some OK" if "task_ptrace u t s = Some OK"
    using task_ptrace_ok [OF r(1) u(1) t(3) u(3) t(2)] task_ptrace_ok [OF assms(3,6,4) u(2) t(1)] u(5) that by (simp split: if_splits)
  moreover have "scoped ?H' q' x' = scoped ?H q x" using u(6) assms(8,9) v(2,3) by blast
  then have "task_ptrace u v s' = task_ptrace u v s"
    using task_ptrace_ok [OF r(1) u(1) v(1) u(3) v(3)] task_ptrace_ok [OF assms(3,6,8) u(2) v(2)] by simp
  ultimately show ?thesis by (simp add: hook_ptrace_access_check_def hook_ptrace_traceme_def)
qed

theorem restrict_self_scopes_witness:
  "hook_ptrace_access_check 0 1 restricted_system = Some (Err EPERM) \<and> hook_ptrace_traceme 0 1 restricted_system = Some OK"
proof -
  have t: "sys_tasks sample_system 0 = Some 0" "sys_tasks sample_system 1 = Some 0" by (simp_all add: sample_system_def)
  have "hook_ptrace_traceme 0 1 sample_system = Some OK"
    by (simp add: hook_ptrace_traceme_def task_ptrace_def landlock_get_task_domain_def landlocked_def sample_system_def)
  then show ?thesis
    using restrict_self_scopes [OF identity_rebal sample_creds_ok sample_system_ok t(1) sample_restrict t(2) _ t(2)] by simp
qed

text \<open>
  C7. What a task that restricts itself may still do: after a successful call it has a domain, and every
  access it asks for is granted exactly when it was granted before the call and the rules of the ruleset
  behind the descriptor grant every requested right that this ruleset handles. The files it had no
  restriction on are not exempt; only objects that no user sees are.
\<close>

theorem restrict_self_restricts:
  assumes "rebal_ok rebal" "cred_api_ok A" "sys_ok {#} s" "sys_tasks s t = Some c" "vfs_ok V"
    and "sys_landlock_restrict_self rebal A E fdt t nnp cap fd flags s = Some (OK, s')"
  shows "\<exists>f a rs p d. fdget fdt fd s = Some f \<and> ff_ruleset f = Some a \<and> ff_can_read f \<and> sys_rulesets s a = Some rs \<and>
    landlock_get_task_domain t s = Some p \<and> landlock_get_task_domain t s' = Some (Some d) \<and>
    (\<forall>U k path req. \<exists>ds e. climbs V (p_mnt path) (p_dentry path) ds e \<and>
       (current_check_access_path U V k (Some d) path req = Some OK \<longleftrightarrow>
        current_check_access_path U V k p path req = Some OK \<and>
        (is_nouser_or_private V (p_dentry path) \<or> (\<exists>m. e = Disconnected m \<and> mnt_internal V m) \<or> ruleset_grants U V k rs ds req)))"
proof -
  obtain f a rs sec p new where r: "sys_ok {#} s'" "restrict_error E fdt (nnp \<or> cap) fd flags s = None"
      "fdget fdt fd s = Some f" "ff_ruleset f = Some a" "sys_rulesets s a = Some rs" "ruleset_ok rs"
      "sys_creds s c = Some sec" "domain_at s (cred_domain sec) p" "sys_creds s new = None" "committed t p rs new s s'"
    by (rule restrict_self_success [OF assms(1-4,6)])
  obtain d0 M h where m: "merged p rs (sys_heap s) M (Inr d0) h" "landlock_get_task_domain t s = Some p"
      "\<exists>d. landlock_get_task_domain t s' = Some (Some d) \<and> same_domain (Some d0) (Some d)"
    by (rule committed_domains [OF r(10) assms(3) r(1,9) assms(4) r(7,8)])
  then obtain d where d: "landlock_get_task_domain t s' = Some (Some d)" "same_domain (Some d0) (Some d)" by blast
  have ok: "domain_ok d0" "\<And>q. p = Some q \<Longrightarrow> domain_ok q"
    using m(1) parent_ok_domain_at(1) [OF assms(3) r(7,8)] by (auto simp: merged_def parent_ok_def)
  have checks: "\<exists>ds e. climbs V (p_mnt path) (p_dentry path) ds e \<and>
       (current_check_access_path U V k (Some d) path req = Some OK \<longleftrightarrow>
        current_check_access_path U V k p path req = Some OK \<and> (exempt V path e \<or> ruleset_grants U V k rs ds req))" for U k path req
  proof -
    obtain ds e where c: "climbs V (p_mnt path) (p_dentry path) ds e" using climbs_total [OF assms(5)] by blast
    have "request_granted U V k d ds req \<longleftrightarrow> (case p of None \<Rightarrow> True | Some q \<Rightarrow> request_granted U V k q ds req) \<and> ruleset_grants U V k rs ds req"
      using merged_request [OF m(1) r(6) ok(2), of U V k ds req] same_domain_request(1) [OF d(2)] by simp
    then show ?thesis
      using c current_check_ok [OF _ c, of "Some d" U k req] current_check_ok [OF _ c, of p U k req] ok same_domain_request(2) [OF d(2)] by auto
  qed
  have "ff_can_read f" using r(2-4) by (auto simp: restrict_error_def fd_error_def split: if_splits)
  then show ?thesis using r(3-5) m(2) d(1) checks unfolding exempt_def internal_end_def disj_assoc by blast
qed

theorem restrict_self_restricts_witness:
  "\<exists>d. landlock_get_task_domain 0 restricted_system = Some (Some d) \<and>
     current_check_access_path sample_rights sample_vfs sample_heap (Some d) \<lparr>p_mnt = 0, p_dentry = 2\<rparr> 4 \<noteq> Some OK"
proof -
  have t: "sys_tasks sample_system 0 = Some 0" by (simp add: sample_system_def)
  obtain f a rs p d where f: "fdget sample_fds 5 sample_system = Some f" "ff_ruleset f = Some a" "sys_rulesets sample_system a = Some rs"
      "landlock_get_task_domain 0 restricted_system = Some (Some d)"
      "\<forall>U k path req. \<exists>ds e. climbs sample_vfs (p_mnt path) (p_dentry path) ds e \<and>
         (current_check_access_path U sample_vfs k (Some d) path req = Some OK \<longleftrightarrow>
          current_check_access_path U sample_vfs k p path req = Some OK \<and>
          (is_nouser_or_private sample_vfs (p_dentry path) \<or> (\<exists>m. e = Disconnected m \<and> mnt_internal sample_vfs m) \<or>
           ruleset_grants U sample_vfs k rs ds req))"
    using restrict_self_restricts [OF identity_rebal sample_creds_ok sample_system_ok t sample_vfs_ok sample_restrict] by metis
  have "rs = empty_ruleset" using f(1-3) by (auto simp: fdget_def fdget_raw_def sample_fds_def sample_system_def ruleset_file_def plain_file_def)
  moreover have "dentry_layers sample_vfs sample_heap empty_ruleset de = []" for de
    by (simp add: dentry_layers_def layers_of_def empty_ruleset_def split: option.splits)
  moreover have "bit (4 :: u16) 2" using bit_exp_iff [where 'a = "16 word", of 2 2] by simp
  ultimately have "\<not> ruleset_grants sample_rights sample_vfs sample_heap rs [2, 1, 0] 4"
    by (auto simp: ruleset_grants_def set_set_bits sample_num bit_or_iff empty_ruleset_def intro!: exI [of _ 2])
  moreover have "\<not> is_nouser_or_private sample_vfs 2" by (simp add: is_nouser_or_private_def sample_vfs_def)
  ultimately show ?thesis
    using f(4) f(5) [rule_format, of "\<lparr>p_mnt = 0, p_dentry = 2\<rparr>" sample_rights sample_heap 4] by (auto simp: sample_climbs)
qed



end
