(* ===== verification/Policy_File.thy ===== *)
theory Policy_File
  imports Kernel_Prelude
begin

text \<open>
  The binary policy as the readers and writers see it (\<open>struct policy_file\<close>, \<open>next_entry\<close> and
  \<open>put_entry\<close> of \<open>ss/policydb.h\<close>, \<open>str_read\<close> of \<open>ss/policydb.c\<close>), with the byte orders of its numbers.

  A reader takes the bytes that are left and the schedule of the allocator, and gives an error or a value
  with the bytes and the schedule that are left. What a reader built up before an error is destroyed by
  the code and is not represented. A writer appends to the bytes written so far while there is room.
\<close>

section \<open>Numbers\<close>

definition le_bytes :: "nat \<Rightarrow> 'a :: len word \<Rightarrow> u8 list" where
  "le_bytes n w = map (\<lambda>i. ucast (drop_bit (8 * i) w)) [0..<n]"

fun le_word :: "u8 list \<Rightarrow> 'a :: len word" where
  "le_word [] = 0"
| "le_word (b # bs) = ucast b OR push_bit 8 (le_word bs)"

definition be_word :: "u8 list \<Rightarrow> 'a :: len word" where
  "be_word bs = le_word (rev bs)"

lemma length_le_bytes [simp]: "length (le_bytes n w) = n"
  by (simp add: le_bytes_def)

lemma bit_le_word:
  "bit (le_word bs :: 'a :: len word) k \<longleftrightarrow> k < LENGTH('a) \<and> k div 8 < length bs \<and> bit (bs ! (k div 8)) (k mod 8)"
proof (induction bs arbitrary: k)
  case (Cons b bs)
  show ?case
  proof (cases "k < 8")
    case True
    then show ?thesis by (auto simp: bit_simps)
  next
    case False
    then have "k div 8 = Suc ((k - 8) div 8)" "k mod 8 = (k - 8) mod 8" by (simp_all add: le_div_geq le_mod_geq)
    then show ?thesis using False Cons.IH [of "k - 8"] by (auto simp: bit_simps dest: bit_imp_le_length)
  qed
qed simp

lemma le_word_le_bytes [simp]: "LENGTH('a) \<le> 8 * n \<Longrightarrow> le_word (le_bytes n (w :: 'a :: len word)) = w"
proof (rule bit_word_eqI)
  fix k assume k: "LENGTH('a) \<le> 8 * n" "k < LENGTH('a)"
  then have "k div 8 < n" by auto
  then show "bit (le_word (le_bytes n w) :: 'a word) k \<longleftrightarrow> bit w k"
    using k by (simp add: bit_le_word) (simp add: le_bytes_def bit_simps)
qed

section \<open>Readers\<close>

type_synonym 'a reader = "u8 list \<times> mem \<Rightarrow> errno + 'a \<times> (u8 list \<times> mem)"

definition rd_return :: "'a \<Rightarrow> 'a reader" where
  "rd_return x s = Inr (x, s)"

definition rd_fail :: "errno \<Rightarrow> 'a reader" where
  "rd_fail e s = Inl e"

definition rd_bind :: "'a reader \<Rightarrow> ('a \<Rightarrow> 'b reader) \<Rightarrow> 'b reader" where
  "rd_bind r f s = (case r s of Inl e \<Rightarrow> Inl e | Inr (x, s) \<Rightarrow> f x s)"

text \<open>The rest runs when a condition holds, and an allocation or another step that may fail.\<close>

definition rd_check :: "bool \<Rightarrow> errno \<Rightarrow> unit reader" where
  "rd_check b e = (if b then rd_return () else rd_fail e)"

definition rd_step :: "(mem \<Rightarrow> rc \<times> 'a \<times> mem) \<Rightarrow> 'a reader" where
  "rd_step f = (\<lambda>(bs, m). case f m of (OK, x, m) \<Rightarrow> Inr (x, bs, m) | (Err e, _, _) \<Rightarrow> Inl e)"

definition rd_alloc :: "unit reader" where
  "rd_alloc = rd_step (\<lambda>m. case kalloc m of (b, m) \<Rightarrow> (if b then OK else Err ENOMEM, (), m))"

text \<open>How many bytes are left.\<close>

definition rd_left :: "nat reader" where
  "rd_left s = Inr (length (fst s), s)"

text \<open>A loop that runs a given number of times.\<close>

fun rd_times :: "nat \<Rightarrow> ('a \<Rightarrow> 'a reader) \<Rightarrow> 'a \<Rightarrow> 'a reader" where
  "rd_times 0 f x = rd_return x"
| "rd_times (Suc n) f x = rd_bind (f x) (rd_times n f)"

definition next_entry :: "nat \<Rightarrow> u8 list reader" where
  "next_entry n = (\<lambda>(bs, m). if n > length bs then Inl EINVAL else Inr (take n bs, drop n bs, m))"

definition next_u8 :: "u8 reader" where
  "next_u8 = rd_bind (next_entry 1) (\<lambda>bs. rd_return (le_word bs))"

definition next_le32 :: "u32 reader" where
  "next_le32 = rd_bind (next_entry 4) (\<lambda>bs. rd_return (le_word bs))"

definition next_le64 :: "u64 reader" where
  "next_le64 = rd_bind (next_entry 8) (\<lambda>bs. rd_return (le_word bs))"

text \<open>The numbers of a buffer that is read at once.\<close>

fun split_bytes :: "nat \<Rightarrow> nat \<Rightarrow> u8 list \<Rightarrow> u8 list list" where
  "split_bytes w 0 bs = []"
| "split_bytes w (Suc n) bs = take w bs # split_bytes w n (drop w bs)"

definition next_le16s :: "nat \<Rightarrow> u16 list reader" where
  "next_le16s n = rd_bind (next_entry (2 * n)) (\<lambda>bs. rd_return (map le_word (split_bytes 2 n bs)))"

definition next_le32s :: "nat \<Rightarrow> u32 list reader" where
  "next_le32s n = rd_bind (next_entry (4 * n)) (\<lambda>bs. rd_return (map le_word (split_bytes 4 n bs)))"

text \<open>
  A string of a given length: it ends for every later use at its first zero byte. The length of all ones
  is refused because the buffer would be one byte longer.
\<close>

definition c_string :: "u8 list \<Rightarrow> string" where
  "c_string bs = map (\<lambda>b. char_of (unat b)) (takeWhile (\<lambda>b. b \<noteq> 0) bs)"

definition str_read :: "u32 \<Rightarrow> string reader" where
  "str_read len =
     (if len = 0 \<or> len = 0xffffffff then rd_fail EINVAL
      else rd_bind rd_alloc (\<lambda>_. rd_bind (next_entry (unat len)) (\<lambda>bs. rd_return (c_string bs))))"

section \<open>Writers\<close>

text \<open>The bytes written so far, and the room that is left.\<close>

type_synonym writer = "u8 list \<times> nat \<Rightarrow> rc \<times> (u8 list \<times> nat)"

definition put_entry :: "u8 list \<Rightarrow> writer" where
  "put_entry bs = (\<lambda>(out, len). if length bs > len then (Err EINVAL, out, len) else (OK, out @ bs, len - length bs))"

definition wr_seq :: "writer \<Rightarrow> writer \<Rightarrow> writer" where
  "wr_seq w v s = (case w s of (OK, s) \<Rightarrow> v s | (Err e, s) \<Rightarrow> (Err e, s))"

definition wr_skip :: writer where
  "wr_skip s = (OK, s)"

fun wr_each :: "('a \<Rightarrow> writer) \<Rightarrow> 'a list \<Rightarrow> writer" where
  "wr_each w [] = wr_skip"
| "wr_each w (x # xs) = wr_seq (w x) (wr_each w xs)"

definition put_le16s :: "u16 list \<Rightarrow> writer" where
  "put_le16s ws = put_entry (concat (map (le_bytes 2) ws))"

definition put_le32s :: "u32 list \<Rightarrow> writer" where
  "put_le32s ws = put_entry (concat (map (le_bytes 4) ws))"

definition put_le64 :: "u64 \<Rightarrow> writer" where
  "put_le64 w = put_entry (le_bytes 8 w)"

section \<open>What a reader delivers\<close>

text \<open>Every value that a reader delivers has a property: the rules follow the structure of the reader.\<close>

definition delivers :: "'a reader \<Rightarrow> ('a \<Rightarrow> bool) \<Rightarrow> bool" where
  "delivers r P \<longleftrightarrow> (\<forall>s x s'. r s = Inr (x, s') \<longrightarrow> P x)"

named_theorems delivers_intros \<open>introduction rules for what readers deliver\<close>

lemma deliversD: "delivers r P \<Longrightarrow> r s = Inr (x, s') \<Longrightarrow> P x"
  unfolding delivers_def by blast

lemma delivers_mono: "delivers r P \<Longrightarrow> (\<And>x. P x \<Longrightarrow> Q x) \<Longrightarrow> delivers r Q"
  unfolding delivers_def by blast

lemma delivers_True: "delivers r (\<lambda>_. True)"
  by (simp add: delivers_def)

lemma delivers_return [delivers_intros]: "P x \<Longrightarrow> delivers (rd_return x) P"
  by (simp add: delivers_def rd_return_def)

lemma delivers_fail [delivers_intros]: "delivers (rd_fail e) P"
  by (simp add: delivers_def rd_fail_def)

lemma rd_bindE:
  assumes "rd_bind r f s = Inr (y, s'')"
  obtains x s' where "r s = Inr (x, s')" "f x s' = Inr (y, s'')"
  using assms by (auto simp: rd_bind_def split: sum.splits prod.splits)

lemma delivers_bind: "delivers r P \<Longrightarrow> (\<And>x. P x \<Longrightarrow> delivers (f x) Q) \<Longrightarrow> delivers (rd_bind r f) Q"
  unfolding delivers_def by (metis rd_bindE)

lemma delivers_any [delivers_intros]: "(\<And>x. delivers (f x) Q) \<Longrightarrow> delivers (rd_bind r f) Q"
  by (rule delivers_bind [OF delivers_True])

lemma delivers_check: "(b \<Longrightarrow> delivers (f ()) Q) \<Longrightarrow> delivers (rd_bind (rd_check b e) f) Q"
  by (auto simp: delivers_def rd_bind_def rd_check_def rd_return_def rd_fail_def)

lemma delivers_step: "(\<And>m x m'. f m = (OK, x, m') \<Longrightarrow> P x) \<Longrightarrow> delivers (rd_step f) P"
  unfolding delivers_def rd_step_def by (auto split: prod.splits option.splits)

lemma delivers_if [delivers_intros]: "(b \<Longrightarrow> delivers r P) \<Longrightarrow> (\<not> b \<Longrightarrow> delivers q P) \<Longrightarrow> delivers (if b then r else q) P"
  by simp

lemma delivers_times: "P x \<Longrightarrow> (\<And>x. P x \<Longrightarrow> delivers (f x) P) \<Longrightarrow> delivers (rd_times n f x) P"
  by (induction n arbitrary: x) (auto intro: delivers_return delivers_bind)

lemma length_split_bytes [simp]: "length (split_bytes w n bs) = n"
  by (induction w n bs rule: split_bytes.induct) simp_all

lemma delivers_le32s: "delivers (next_le32s n) (\<lambda>ws. length ws = n)"
  unfolding next_le32s_def by (intro delivers_intros) simp

section \<open>What a reader makes of bytes\<close>

text \<open>
  A reader accepts given bytes with a value: it consumes exactly these bytes, whatever follows, when no
  allocation fails. Such bytes are put together as readers are.
\<close>

definition accepts :: "'a reader \<Rightarrow> u8 list \<Rightarrow> 'a \<Rightarrow> bool" where
  "accepts r bs x \<longleftrightarrow> (\<forall>rest m. ample m \<longrightarrow> (\<exists>m'. ample m' \<and> r (bs @ rest, m) = Inr (x, rest, m')))"

lemma acceptsD: "accepts r bs x \<Longrightarrow> ample m \<Longrightarrow> \<exists>m'. ample m' \<and> r (bs @ rest, m) = Inr (x, rest, m')"
  by (simp add: accepts_def)

lemma accepts_return: "accepts (rd_return x) [] x"
  by (auto simp: accepts_def rd_return_def)

lemma accepts_bind: "accepts r bs x \<Longrightarrow> accepts (f x) cs y \<Longrightarrow> accepts (rd_bind r f) (bs @ cs) y"
  unfolding accepts_def rd_bind_def by (metis (no_types, lifting) append_assoc old.prod.case old.sum.simps(6))

lemma accepts_tail: "accepts r bs x \<Longrightarrow> accepts (f x) [] y \<Longrightarrow> accepts (rd_bind r f) bs y"
  using accepts_bind [of r bs x f "[]" y] by simp

lemma accepts_map: "accepts r bs x \<Longrightarrow> f x = y \<Longrightarrow> accepts (rd_bind r (\<lambda>x. rd_return (f x))) bs y"
  using accepts_tail [of r bs x "\<lambda>x. rd_return (f x)" y] accepts_return [of y] by simp

lemma accepts_check: "b \<Longrightarrow> accepts (f ()) bs y \<Longrightarrow> accepts (rd_bind (rd_check b e) f) bs y"
  by (simp add: accepts_def rd_bind_def rd_check_def rd_return_def)

lemma accepts_alloc: "accepts (f ()) bs y \<Longrightarrow> accepts (rd_bind rd_alloc f) bs y"
  using accepts_bind [of rd_alloc "[]" "()" f bs y] ample_kalloc by (fastforce simp: accepts_def rd_alloc_def rd_step_def)

lemma accepts_if: "accepts (if b then r else q) (if b then bs else cs) x" if "b \<Longrightarrow> accepts r bs x" "\<not> b \<Longrightarrow> accepts q cs x"
  using that by simp

lemma accepts_entry: "accepts (next_entry (length bs)) bs bs"
  by (auto simp: accepts_def next_entry_def)

lemma accepts_le64: "accepts next_le64 (le_bytes 8 w) w"
  using accepts_bind [OF accepts_entry [of "le_bytes 8 w"] accepts_return, of "le_word :: u8 list \<Rightarrow> u64"] by (simp add: next_le64_def)

lemma accepts_le32: "accepts next_le32 (le_bytes 4 w) w"
  using accepts_bind [OF accepts_entry [of "le_bytes 4 w"] accepts_return, of "le_word :: u8 list \<Rightarrow> u32"] by (simp add: next_le32_def)

lemma split_bytes_concat: "map le_word (split_bytes 4 (length ws) (concat (map (le_bytes 4) ws))) = (ws :: u32 list)"
  by (induction ws) simp_all

lemma accepts_le32s: "accepts (next_le32s (length ws)) (concat (map (le_bytes 4) ws)) ws"
proof -
  have "length (concat (map (le_bytes 4) ws)) = 4 * length ws" by (induction ws) simp_all
  then show ?thesis
    using accepts_bind [OF accepts_entry [of "concat (map (le_bytes 4) ws)"] accepts_return, of "\<lambda>bs. map le_word (split_bytes 4 (length ws) bs) :: u32 list"]
    by (simp add: next_le32s_def split_bytes_concat)
qed

lemma split_bytes_concat16: "map le_word (split_bytes 2 (length ws) (concat (map (le_bytes 2) ws))) = (ws :: u16 list)"
  by (induction ws) simp_all

lemma accepts_le16s: "accepts (next_le16s (length ws)) (concat (map (le_bytes 2) ws)) ws"
proof -
  have "length (concat (map (le_bytes 2) ws)) = 2 * length ws" by (induction ws) simp_all
  then show ?thesis
    using accepts_bind [OF accepts_entry [of "concat (map (le_bytes 2) ws)"] accepts_return, of "\<lambda>bs. map le_word (split_bytes 2 (length ws) bs) :: u16 list"]
    by (simp add: next_le16s_def split_bytes_concat16)
qed

definition le16s_bytes :: "u16 list \<Rightarrow> u8 list" where
  "le16s_bytes ws = concat (map (le_bytes 2) ws)"

definition le32s_bytes :: "u32 list \<Rightarrow> u8 list" where
  "le32s_bytes ws = concat (map (le_bytes 4) ws)"

lemma accepts_16s: "length ws = n \<Longrightarrow> accepts (next_le16s n) (le16s_bytes ws) ws"
  using accepts_le16s by (auto simp: le16s_bytes_def)

lemma accepts_32s: "length ws = n \<Longrightarrow> accepts (next_le32s n) (le32s_bytes ws) ws"
  using accepts_le32s by (auto simp: le32s_bytes_def)

lemma accepts_u8: "accepts next_u8 [b] b"
  using accepts_bind [OF accepts_entry [of "[b]"] accepts_return, of "le_word :: u8 list \<Rightarrow> u8"] by (simp add: next_u8_def)

lemma accepts_step:
  assumes "\<And>m. ample m \<Longrightarrow> \<exists>m'. ample m' \<and> f m = (OK, x, m')"
  shows "accepts (rd_step f) [] x"
  using assms unfolding accepts_def rd_step_def by fastforce

text \<open>A loop over items that are accepted one after the other.\<close>

lemma accepts_times:
  assumes "\<And>k. k < length bss \<Longrightarrow> accepts (f (xs k)) (bss ! k) (xs (Suc k))"
  shows "accepts (rd_times (length bss) f (xs 0)) (concat bss) (xs (length bss))"
  using assms
proof (induction bss arbitrary: xs)
  case Nil
  then show ?case by (simp add: accepts_return)
next
  case (Cons bs bss)
  have "accepts (rd_times (length bss) f (xs 1)) (concat bss) (xs (Suc (length bss)))"
    using Cons.IH [of "\<lambda>k. xs (Suc k)"] Cons.prems by fastforce
  then show ?case using Cons.prems [of 0] accepts_bind by simp
qed

section \<open>What a writer writes\<close>

definition writes :: "writer \<Rightarrow> u8 list \<Rightarrow> bool" where
  "writes w bs \<longleftrightarrow> (\<forall>out len. length bs \<le> len \<longrightarrow> w (out, len) = (OK, out @ bs, len - length bs))"

lemma writesD: "writes w bs \<Longrightarrow> length bs \<le> len \<Longrightarrow> w (out, len) = (OK, out @ bs, len - length bs)"
  by (simp add: writes_def)

lemma writes_put: "writes (put_entry bs) bs"
  by (simp add: writes_def put_entry_def)

lemma writes_skip: "writes wr_skip []"
  by (simp add: writes_def wr_skip_def)

lemma writes_seq: "writes w bs \<Longrightarrow> writes v cs \<Longrightarrow> writes (wr_seq w v) (bs @ cs)"
  by (simp add: writes_def wr_seq_def)

lemma writes_if: "writes (if b then w else v) (if b then bs else cs)" if "b \<Longrightarrow> writes w bs" "\<not> b \<Longrightarrow> writes v cs"
  using that by simp

lemma writes_each: "(\<And>x. x \<in> set xs \<Longrightarrow> writes (w x) (f x)) \<Longrightarrow> writes (wr_each w xs) (concat (map f xs))"
  by (induction xs) (simp_all add: writes_skip writes_seq)

lemma writes_16s: "writes (put_le16s ws) (le16s_bytes ws)"
  by (simp add: put_le16s_def le16s_bytes_def writes_put)

lemma writes_32s: "writes (put_le32s ws) (le32s_bytes ws)"
  by (simp add: put_le32s_def le32s_bytes_def writes_put)

lemma writes_le32s: "writes (put_le32s ws) (concat (map (le_bytes 4) ws))"
  by (simp add: put_le32s_def writes_put)

lemma writes_le64: "writes (put_le64 w) (le_bytes 8 w)"
  by (simp add: put_le64_def writes_put)

end
