(* ===== verification/Avtab_Image.thy ===== *)
theory Avtab_Image
  imports Policydb Policy_File
begin

text \<open>
  The access vector table in the binary policy (\<open>avtab_read_item\<close>, \<open>avtab_read\<close>, \<open>avtab_write_item\<close> and
  \<open>avtab_write\<close> of \<open>ss/avtab.c\<close>). A rule that was read goes to an insertion function with a state of its
  own: the table of the unconditional rules, or the branch of a conditional that is being read.

  The reader of the oldest format uses a buffer of eight words on the stack of which an entry may fill
  only a part; \<open>stack\<close> gives what the buffer holds, by the number of bytes left in the image.
\<close>

section \<open>Reading\<close>

abbreviation POLICYDB_VERSION_AVTAB :: u32 where "POLICYDB_VERSION_AVTAB \<equiv> 20"
abbreviation POLICYDB_VERSION_XPERMS_IOCTL :: u32 where "POLICYDB_VERSION_XPERMS_IOCTL \<equiv> 30"
abbreviation AVTAB_ENABLED_OLD :: u32 where "AVTAB_ENABLED_OLD \<equiv> 0x80000000"

type_synonym 's insertf = "'s \<Rightarrow> avtab_key \<Rightarrow> avtab_datum \<Rightarrow> mem \<Rightarrow> rc \<times> 's \<times> mem"

definition spec_order :: "u16 list" where
  "spec_order = [AVTAB_ALLOWED, AVTAB_AUDITDENY, AVTAB_AUDITALLOW, AVTAB_TRANSITION, AVTAB_CHANGE, AVTAB_MEMBER,
     AVTAB_XPERMS_ALLOWED, AVTAB_XPERMS_AUDITALLOW, AVTAB_XPERMS_DONTAUDIT]"

text \<open>The old format: one entry holds a word for each kind of rule that its mask names.\<close>

fun avtab_read_specs :: "'s insertf \<Rightarrow> avtab_key \<Rightarrow> u16 \<Rightarrow> u32 \<Rightarrow> u32 list \<Rightarrow> u16 list \<Rightarrow> nat \<Rightarrow> 's \<Rightarrow> (nat \<times> 's) reader" where
  "avtab_read_specs insertf key enabled val buf [] items s = rd_return (items, s)"
| "avtab_read_specs insertf key enabled val buf (spec # specs) items s =
     (if val AND ucast spec \<noteq> 0
      then rd_bind (rd_step (insertf s (key\<lparr>specified := spec OR enabled\<rparr>) (Data (buf ! items))))
             (avtab_read_specs insertf key enabled val buf specs (items + 1))
      else avtab_read_specs insertf key enabled val buf specs items s)"

definition fits16 :: "u32 \<Rightarrow> bool" where
  "fits16 val \<longleftrightarrow> ucast (ucast val :: u16) = val"

definition avtab_read_item_old :: "(nat \<Rightarrow> u32 list) \<Rightarrow> 's insertf \<Rightarrow> 's \<Rightarrow> 's reader" where
  "avtab_read_item_old stack insertf s =
     rd_bind next_le32 (\<lambda>items2.
     rd_bind (rd_check (\<not> items2 > 8) EINVAL) (\<lambda>_.
     rd_bind (next_le32s (unat items2)) (\<lambda>ws.
     rd_bind rd_left (\<lambda>left.
     let buf = ws @ drop (length ws) (stack left); val = buf ! 3 in
     rd_bind (rd_check (fits16 (buf ! 0)) EINVAL) (\<lambda>_.
     rd_bind (rd_check (fits16 (buf ! 1)) EINVAL) (\<lambda>_.
     rd_bind (rd_check (fits16 (buf ! 2)) EINVAL) (\<lambda>_.
     let key = \<lparr>source_type = ucast (buf ! 0), target_type = ucast (buf ! 1), target_class = ucast (buf ! 2), specified = 0\<rparr>;
         enabled = (if val AND AVTAB_ENABLED_OLD \<noteq> 0 then AVTAB_ENABLED else 0) in
     rd_bind (rd_check (val AND ucast (AVTAB_AV OR AVTAB_TYPE) \<noteq> 0) EINVAL) (\<lambda>_.
     rd_bind (rd_check (\<not> (val AND ucast AVTAB_AV \<noteq> 0 \<and> val AND ucast AVTAB_TYPE \<noteq> 0)) EINVAL) (\<lambda>_.
     rd_bind (rd_check (val AND ucast AVTAB_XPERMS = 0) EINVAL) (\<lambda>_.
     rd_bind (avtab_read_specs insertf key enabled val buf spec_order 4 s) (\<lambda>(items, s).
     rd_bind (rd_check (items = unat items2) EINVAL) (\<lambda>_. rd_return s))))))))))))"

definition avtab_read_xperms :: "avtab_datum reader" where
  "avtab_read_xperms =
     rd_bind next_u8 (\<lambda>spec. rd_bind next_u8 (\<lambda>driver. rd_bind (next_le32s 8) (\<lambda>perms.
     rd_return (Xperms \<lparr>xp_specified = spec, xp_driver = driver, xp_perms = perms\<rparr>))))"

fun datum_data :: "avtab_datum \<Rightarrow> u32" where
  "datum_data (Data w) = w"
| "datum_data (Xperms _) = 0"

definition avtab_read_item :: "(nat \<Rightarrow> u32 list) \<Rightarrow> policydb \<Rightarrow> 's insertf \<Rightarrow> 's \<Rightarrow> 's reader" where
  "avtab_read_item stack pol insertf s =
     (if policyvers pol < POLICYDB_VERSION_AVTAB then avtab_read_item_old stack insertf s
      else
        rd_bind (next_le16s 4) (\<lambda>buf.
        let key = \<lparr>source_type = buf ! 0, target_type = buf ! 1, target_class = buf ! 2, specified = buf ! 3\<rparr>;
            set = length (filter (\<lambda>spec. specified key AND spec \<noteq> 0) spec_order) in
        rd_bind (rd_check (policydb_type_isvalid pol (ucast (source_type key)) \<and>
          policydb_type_isvalid pol (ucast (target_type key)) \<and> policydb_class_isvalid pol (ucast (target_class key))) EINVAL) (\<lambda>_.
        rd_bind (rd_check (\<not> (set = 0 \<or> set > 1)) EINVAL) (\<lambda>_.
        rd_bind
          (if policyvers pol < POLICYDB_VERSION_XPERMS_IOCTL \<and> specified key AND AVTAB_XPERMS \<noteq> 0 then rd_fail EINVAL
           else if specified key AND AVTAB_XPERMS \<noteq> 0 then avtab_read_xperms
           else rd_bind next_le32 (\<lambda>w. rd_return (Data w))) (\<lambda>datum.
        rd_bind (rd_check (\<not> (specified key AND AVTAB_TYPE \<noteq> 0 \<and> \<not> policydb_type_isvalid pol (datum_data datum))) EINVAL) (\<lambda>_.
        rd_step (insertf s key datum)))))))"

definition avtab_insertf :: "avtab insertf" where
  "avtab_insertf a k d = avtab_insert a k d"

definition avtab_read :: "(nat \<Rightarrow> u32 list) \<Rightarrow> policydb \<Rightarrow> avtab \<Rightarrow> avtab reader" where
  "avtab_read stack pol a =
     rd_bind next_le32 (\<lambda>nel.
     rd_bind (rd_check (nel \<noteq> 0) EINVAL) (\<lambda>_.
     rd_bind (rd_step (avtab_alloc a nel)) (\<lambda>a.
     rd_times (unat nel) (avtab_read_item stack pol avtab_insertf) a)))"

section \<open>Writing\<close>

fun datum_xperms :: "avtab_datum \<Rightarrow> avtab_extended_perms" where
  "datum_xperms (Xperms x) = x"
| "datum_xperms (Data _) = \<lparr>xp_specified = 0, xp_driver = 0, xp_perms = replicate 8 0\<rparr>"

definition avtab_write_item :: "avtab_node \<Rightarrow> writer" where
  "avtab_write_item cur =
     (let k = an_key cur; x = datum_xperms (an_datum cur) in
      wr_seq (put_le16s [source_type k, target_type k, target_class k, specified k])
        (if specified k AND AVTAB_XPERMS \<noteq> 0
         then wr_seq (put_entry [xp_specified x]) (wr_seq (put_entry [xp_driver x]) (put_le32s (xp_perms x)))
         else put_le32s [datum_data (an_datum cur)]))"

definition avtab_write :: "avtab \<Rightarrow> writer" where
  "avtab_write a =
     wr_seq (put_le32s [av_nel a]) (wr_each (\<lambda>i. wr_each avtab_write_item (av_htable a ! i)) [0..<unat (av_nslot a)])"

section \<open>Rules\<close>

type_synonym rule = "avtab_key \<times> avtab_datum"

definition node_rule :: "avtab_node \<Rightarrow> rule" where
  "node_rule n = (an_key n, an_datum n)"

definition avtab_rules :: "avtab \<Rightarrow> rule multiset" where
  "avtab_rules h = image_mset node_rule (mset (avtab_nodes h))"

definition is_xperms :: "avtab_key \<Rightarrow> bool" where
  "is_xperms k \<longleftrightarrow> specified k AND AVTAB_XPERMS \<noteq> 0"

text \<open>What the reader of the current format demands of a rule.\<close>

definition rule_ok :: "policydb \<Rightarrow> rule \<Rightarrow> bool" where
  "rule_ok pol r \<longleftrightarrow> (case r of (k, d) \<Rightarrow>
     policydb_type_isvalid pol (ucast (source_type k)) \<and> policydb_type_isvalid pol (ucast (target_type k)) \<and>
     policydb_class_isvalid pol (ucast (target_class k)) \<and>
     length (filter (\<lambda>spec. specified k AND spec \<noteq> 0) spec_order) = 1 \<and>
     (is_xperms k \<longrightarrow> POLICYDB_VERSION_XPERMS_IOCTL \<le> policyvers pol \<and> (\<exists>x. d = Xperms x \<and> length (xp_perms x) = 8)) \<and>
     (\<not> is_xperms k \<longrightarrow> (\<exists>w. d = Data w)) \<and>
     (specified k AND AVTAB_TYPE \<noteq> 0 \<longrightarrow> policydb_type_isvalid pol (datum_data d)))"

text \<open>
  Two rules that exclude each other in one table. The insertion looks at the kind of the new rule only;
  rules whose masks name no other bits than the kinds and the flag of enabled rules overlap only when
  both are of the same kind.
\<close>

definition rules_clash :: "rule \<Rightarrow> rule \<Rightarrow> bool" where
  "rules_clash r r' \<longleftrightarrow> \<not> is_xperms (fst r) \<and> \<not> is_xperms (fst r') \<and> same_triple (fst r) (fst r') \<and>
     spec_mask (specified (fst r)) AND specified (fst r') \<noteq> 0"

definition spec_known :: "avtab_key \<Rightarrow> bool" where
  "spec_known k \<longleftrightarrow> specified k AND NOT (AVTAB_AV OR AVTAB_TYPE OR AVTAB_XPERMS OR AVTAB_ENABLED) = 0"

definition rules_unique :: "rule multiset \<Rightarrow> bool" where
  "rules_unique R \<longleftrightarrow> (\<forall>r R'. R = add_mset r R' \<longrightarrow> (\<forall>r' \<in># R'. \<not> rules_clash r r'))"

lemma rules_unique_empty [simp]: "rules_unique {#}"
  by (simp add: rules_unique_def)

lemma rules_unique_add: "rules_unique (add_mset r R) \<Longrightarrow> r' \<in># R \<Longrightarrow> \<not> rules_clash r r'"
  unfolding rules_unique_def by blast

lemma rules_of_insert:
  "mset (avtab_nodes h') = add_mset \<lparr>an_key = k, an_datum = d, an_addr = a\<rparr> (mset (avtab_nodes h)) \<Longrightarrow>
    avtab_rules h' = add_mset (k, d) (avtab_rules h)"
  by (simp add: avtab_rules_def node_rule_def)

lemma all16: "(\<forall>n < 16. P n) \<longleftrightarrow> P 0 \<and> P 1 \<and> P 2 \<and> P 3 \<and> P 4 \<and> P 5 \<and> P 6 \<and> P 7 \<and> P 8 \<and> P 9 \<and> P 10 \<and> P 11 \<and> P 12 \<and> P 13 \<and> P 14 \<and> P (15 :: nat)"
  by (simp add: numeral_eq_Suc All_less_Suc) blast

lemma u16_eq_iff: "(v :: u16) = w \<longleftrightarrow> (\<forall>n < 16. bit v n = bit w n)"
  by (auto intro: bit_word_eqI)

lemmas u16_bits = u16_eq_iff all16 bit_and_iff

lemma same_kind:
  assumes "rule_ok pol (k', d')" "spec_known k" "\<not> is_xperms k" "spec_mask (specified k) AND specified k' \<noteq> 0"
  shows "\<not> is_xperms k'"
proof
  assume x: "is_xperms k'"
  have one: "length (filter (\<lambda>spec. specified k' AND spec \<noteq> 0) spec_order) = 1" using assms(1) by (simp add: rule_ok_def)
  have "\<not> bit (specified k') 0 \<and> \<not> bit (specified k') 1 \<and> \<not> bit (specified k') 2 \<and> \<not> bit (specified k') 4 \<and> \<not> bit (specified k') 5 \<and> \<not> bit (specified k') 6"
    using x one by (auto simp: is_xperms_def spec_order_def u16_bits split: if_splits)
  moreover have "\<not> bit (specified k) 3 \<and> \<not> bit (specified k) 7 \<and> \<not> bit (specified k) 11 \<and> \<not> bit (specified k) 12 \<and> \<not> bit (specified k) 13 \<and> \<not> bit (specified k) 14"
    using assms(2) by (simp add: spec_known_def u16_bits)
  moreover have "\<not> bit (specified k) 8 \<and> \<not> bit (specified k) 9 \<and> \<not> bit (specified k) 10"
    using assms(3) by (simp add: is_xperms_def u16_bits)
  ultimately show False using assms(4) by (simp add: spec_mask_def u16_bits)
qed

lemma spec_mask_xperms: "spec_mask (specified k) AND AVTAB_XPERMS = 0 \<longleftrightarrow> \<not> is_xperms k"
  by (simp add: spec_mask_def is_xperms_def u16_bits)

lemma rules_clash_sym: "rules_clash r r' \<Longrightarrow> rules_clash r' r"
  by (auto simp: rules_clash_def same_triple_def spec_mask_def ac_simps)

lemma avtab_insert_ample:
  assumes "avtab_wf h" "av_nslot h \<noteq> 0" "unat (av_nel h) < 2 ^ 32 - 1" "\<forall>r \<in># avtab_rules h. rule_ok pol r \<and> \<not> rules_clash (k, d) r" "spec_known k"
  shows "\<exists>h'. (\<forall>m. ample m \<longrightarrow> (\<exists>m'. ample m' \<and> avtab_insert h k d m = (OK, h', m'))) \<and> avtab_wf h' \<and> av_nslot h' = av_nslot h \<and>
    unat (av_nel h') = unat (av_nel h) + 1 \<and> avtab_rules h' = add_mset (k, d) (avtab_rules h)"
proof -
  let ?i = "unat (avtab_hash k (av_mask h))" and ?n = "\<lparr>an_key = k, an_datum = d, an_addr = unat (av_nel h)\<rparr>"
  have nel: "av_nel h \<noteq> 0xffffffff" using assms(3) by auto
  have ex: "(\<exists>x \<in> set (av_htable h ! ?i). avtab_match k (spec_mask (specified k)) x) \<longleftrightarrow> (\<exists>x \<in> set (avtab_nodes h). avtab_match k (spec_mask (specified k)) x)"
    using filter_nodes_slot [OF assms(1,2), of k "spec_mask (specified k)"] by (metis filter_empty_conv)
  have "\<not> (\<exists>x \<in> set (av_htable h ! ?i). avtab_match k (spec_mask (specified k)) x) \<or> spec_mask (specified k) AND AVTAB_XPERMS \<noteq> 0"
    unfolding ex spec_mask_xperms using assms(4) same_kind [OF _ assms(5)]
    by (fastforce simp: avtab_rules_def node_rule_def avtab_match_def rules_clash_def)
  then obtain pos where pos: "avtab_place True k (spec_mask (specified k)) (av_htable h ! ?i) = Some pos"
    using place_None [OF slot_sorted [OF assms(1,2)], of True k "spec_mask (specified k)" k] by (metis option.exhaust)
  note link = avtab_link_wf [OF assms(1,2) nel pos, of ?n]
  have "\<exists>m'. ample m' \<and> avtab_insert h k d m = (OK, avtab_link h ?i pos ?n, m')" if m: "ample m" for m
    using insert_node_ample [OF m, of "unat (av_nel h)" k d] assms(2) nel pos by (auto simp: avtab_insert_def Let_def)
  moreover have "unat (av_nel (avtab_link h ?i pos ?n)) = unat (av_nel h) + 1"
    using unat_plus_one_u32 [OF nel] by (simp add: avtab_link_def Let_def)
  moreover have "av_nslot (avtab_link h ?i pos ?n) = av_nslot h" by (simp add: avtab_link_def Let_def)
  ultimately show ?thesis using link rules_of_insert [of "avtab_link h ?i pos ?n"] by (intro exI [of _ "avtab_link h ?i pos ?n"]) simp
qed

section \<open>Round trip\<close>

definition item_bytes :: "rule \<Rightarrow> u8 list" where
  "item_bytes r = (case r of (k, d) \<Rightarrow>
     le16s_bytes [source_type k, target_type k, target_class k, specified k] @
     (if is_xperms k then [xp_specified (datum_xperms d)] @ [xp_driver (datum_xperms d)] @ le32s_bytes (xp_perms (datum_xperms d))
      else le32s_bytes [datum_data d]))"

lemma writes_item: "writes (avtab_write_item n) (item_bytes (node_rule n))"
  unfolding avtab_write_item_def Let_def item_bytes_def node_rule_def prod.case is_xperms_def
  by (intro writes_seq writes_if writes_16s writes_32s writes_put)

lemma accepts_xperms:
  assumes "d = Xperms x" "length (xp_perms x) = 8"
  shows "accepts avtab_read_xperms ([xp_specified x] @ [xp_driver x] @ le32s_bytes (xp_perms x)) d"
proof -
  have "accepts (rd_bind (next_le32s 8) (\<lambda>perms. rd_return (Xperms \<lparr>xp_specified = xp_specified x, xp_driver = xp_driver x, xp_perms = perms\<rparr>)))
      (le32s_bytes (xp_perms x)) d"
    by (rule accepts_map [OF accepts_32s [OF assms(2)]]) (simp add: assms(1))
  then show ?thesis
    unfolding avtab_read_xperms_def by (intro accepts_bind [OF accepts_u8 accepts_bind [OF accepts_u8]])
qed

lemma accepts_item:
  assumes "rule_ok pol (k, d)" "\<not> policyvers pol < POLICYDB_VERSION_AVTAB"
    and "\<And>m. ample m \<Longrightarrow> \<exists>m'. ample m' \<and> insertf s k d m = (OK, s', m')"
  shows "accepts (avtab_read_item stack pol insertf s) (item_bytes (k, d)) s'"
proof -
  let ?buf = "[source_type k, target_type k, target_class k, specified k]"
  let ?read = "if policyvers pol < POLICYDB_VERSION_XPERMS_IOCTL \<and> specified k AND AVTAB_XPERMS \<noteq> 0 then rd_fail EINVAL
     else if specified k AND AVTAB_XPERMS \<noteq> 0 then avtab_read_xperms else rd_bind next_le32 (\<lambda>w. rd_return (Data w))"
  have k: "\<lparr>source_type = source_type k, target_type = target_type k, target_class = target_class k, specified = specified k\<rparr> = k"
    and nth: "?buf ! 0 = source_type k" "?buf ! 1 = target_type k" "?buf ! 2 = target_class k" "?buf ! 3 = specified k" by simp_all
  have word: "accepts (rd_bind next_le32 (\<lambda>w. rd_return (Data w))) (le32s_bytes [w]) (Data w)" for w
    using accepts_map [OF accepts_le32] by (fastforce simp: le32s_bytes_def)
  have datum: "accepts ?read (if is_xperms k then [xp_specified (datum_xperms d)] @ [xp_driver (datum_xperms d)] @ le32s_bytes (xp_perms (datum_xperms d))
       else le32s_bytes [datum_data d]) d"
    using assms(1) accepts_xperms word by (auto simp: rule_ok_def is_xperms_def)
  have ok: "\<not> (specified k AND AVTAB_TYPE \<noteq> 0 \<and> \<not> policydb_type_isvalid pol (datum_data d))"
    using assms(1) by (auto simp: rule_ok_def)
  have rest: "accepts (rd_bind ?read (\<lambda>datum.
      rd_bind (rd_check (\<not> (specified k AND AVTAB_TYPE \<noteq> 0 \<and> \<not> policydb_type_isvalid pol (datum_data datum))) EINVAL) (\<lambda>_.
      rd_step (insertf s k datum)))) (if is_xperms k then [xp_specified (datum_xperms d)] @ [xp_driver (datum_xperms d)] @ le32s_bytes (xp_perms (datum_xperms d))
       else le32s_bytes [datum_data d]) s'"
    by (rule accepts_tail [OF datum]) (rule accepts_check [OF ok accepts_step [OF assms(3)]])
  show ?thesis
    unfolding avtab_read_item_def if_not_P [OF assms(2)] item_bytes_def prod.case Let_def
    by (rule accepts_bind [OF accepts_16s], simp, unfold nth k)
      (insert assms(1), intro accepts_check rest, simp_all add: rule_ok_def)
qed

text \<open>The loop of \<open>avtab_read\<close> over items whose rules do not clash.\<close>

lemma accepts_items:
  assumes "\<not> policyvers pol < POLICYDB_VERSION_AVTAB" "avtab_wf h" "av_nslot h \<noteq> 0" "unat (av_nel h) + length rs < 2 ^ 32"
    and "\<forall>r \<in># mset rs + avtab_rules h. rule_ok pol r" "\<forall>r \<in> set rs. spec_known (fst r)" "rules_unique (mset rs + avtab_rules h)"
  shows "\<exists>h'. accepts (rd_times (length rs) (avtab_read_item stack pol avtab_insertf) h) (concat (map item_bytes rs)) h' \<and>
    avtab_wf h' \<and> avtab_rules h' = mset rs + avtab_rules h"
  using assms(2-)
proof (induction rs arbitrary: h)
  case Nil
  then show ?case using accepts_return [of h] by auto
next
  case (Cons r rs)
  obtain k d where r: "r = (k, d)" by fastforce
  have "\<forall>r' \<in># avtab_rules h. rule_ok pol r' \<and> \<not> rules_clash (k, d) r'"
    using rules_unique_add [of r "mset rs + avtab_rules h"] Cons.prems(4,6) r by simp
  then obtain h1 where h1: "\<forall>m. ample m \<longrightarrow> (\<exists>m'. ample m' \<and> avtab_insert h k d m = (OK, h1, m'))" "avtab_wf h1" "av_nslot h1 \<noteq> 0"
      "unat (av_nel h1) = unat (av_nel h) + 1" "avtab_rules h1 = add_mset r (avtab_rules h)"
    using avtab_insert_ample [OF Cons.prems(1,2), of pol k d] Cons.prems(2,3,5) r by auto
  have item: "accepts (avtab_read_item stack pol avtab_insertf h) (item_bytes r) h1"
    unfolding r by (rule accepts_item [OF _ assms(1)]) (use Cons.prems(4) r h1(1) in \<open>auto simp: avtab_insertf_def\<close>)
  obtain h' where "accepts (rd_times (length rs) (avtab_read_item stack pol avtab_insertf) h1) (concat (map item_bytes rs)) h'"
      "avtab_wf h'" "avtab_rules h' = mset rs + avtab_rules h1"
    using Cons.IH [OF h1(2,3)] Cons.prems(3-6) h1(4,5) by auto
  then show ?case using accepts_bind [OF item, of "rd_times (length rs) (avtab_read_item stack pol avtab_insertf)"] h1(5) by (intro exI [of _ h']) simp
qed

lemma accepts_alloc_table:
  assumes "nel \<noteq> 0"
  shows "\<exists>h. accepts (rd_step (avtab_alloc avtab_init nel)) [] h \<and> avtab_wf h \<and> av_nslot h \<noteq> 0 \<and> av_nel h = 0 \<and> avtab_nodes h = []"
proof -
  let ?shift = "avtab_shift (drop_bit 3 nel) 1"
  let ?nslot = "min (push_bit ?shift 1) MAX_AVTAB_HASH_BUCKETS"
  let ?h = "avtab_init\<lparr>av_htable := replicate (unat ?nslot) [], av_nslot := ?nslot, av_mask := ?nslot - 1\<rparr>"
  have "unat (drop_bit 3 nel) < 2 ^ 29" using less_mult_imp_div_less [of "unat nel" "2 ^ 29" 8] unat_u32_bound [of nel] by (simp add: drop_bit_eq_div unat_div)
  then have "?shift \<le> 30" using avtab_shift_le [of "drop_bit 3 nel" 29 1] by simp
  then have "push_bit ?shift 1 \<noteq> (0 :: u32)" by (simp add: push_bit_eq_mult)
  then have nslot: "?nslot \<noteq> 0" by (simp add: min_def)
  have "\<exists>m'. ample m' \<and> avtab_alloc avtab_init nel m = (OK, ?h, m')" if "ample m" for m
    using ample_kalloc [OF that] assms nslot by (auto simp: avtab_alloc_def avtab_alloc_common_def Let_def)
  moreover have "avtab_alloc_common avtab_init ?nslot [] = (OK, ?h, [])"
    using nslot by (simp add: avtab_alloc_common_def)
  ultimately show ?thesis
    using alloc_common_wf [of ?nslot "[]" ?h "[]"] nslot accepts_step [of "avtab_alloc avtab_init nel" ?h]
    by (intro exI [of _ ?h]) (simp add: avtab_init_def)
qed

lemma accepts_avtab:
  assumes "\<not> policyvers pol < POLICYDB_VERSION_AVTAB" "\<forall>r \<in> set rs. rule_ok pol r \<and> spec_known (fst r)" "rules_unique (mset rs)" "rs \<noteq> []" "length rs < 2 ^ 32"
  shows "\<exists>h. accepts (avtab_read stack pol avtab_init) (le32s_bytes [of_nat (length rs)] @ concat (map item_bytes rs)) h \<and>
    avtab_wf h \<and> avtab_rules h = mset rs"
proof -
  have n: "unat (of_nat (length rs) :: u32) = length rs" using assms(5) by (simp add: unat_of_nat)
  then have ne: "of_nat (length rs) \<noteq> (0 :: u32)" using assms(4) by (metis length_0_conv unat_0)
  obtain h0 where h0: "accepts (rd_step (avtab_alloc avtab_init (of_nat (length rs)))) [] h0" "avtab_wf h0" "av_nslot h0 \<noteq> 0" "av_nel h0 = 0" "avtab_nodes h0 = []"
    using accepts_alloc_table [OF ne] by blast
  obtain h where h: "accepts (rd_times (length rs) (avtab_read_item stack pol avtab_insertf) h0) (concat (map item_bytes rs)) h"
      "avtab_wf h" "avtab_rules h = mset rs"
    using accepts_items [OF assms(1) h0(2,3), of rs stack] assms(2,3,5) h0(4,5) by (auto simp: avtab_rules_def)
  have "accepts next_le32 (le32s_bytes [of_nat (length rs)]) (of_nat (length rs))" by (simp add: le32s_bytes_def accepts_le32)
  then have "accepts (avtab_read stack pol avtab_init) (le32s_bytes [of_nat (length rs)] @ [] @ concat (map item_bytes rs)) h"
    unfolding avtab_read_def by (rule accepts_bind) (intro accepts_check ne accepts_bind [OF h0(1)], simp only: n h(1))
  then show ?thesis using h(2,3) by auto
qed

lemma writes_avtab:
  assumes "avtab_wf a"
  shows "writes (avtab_write a) (le32s_bytes [of_nat (length (avtab_nodes a))] @ concat (map (\<lambda>n. item_bytes (node_rule n)) (avtab_nodes a)))"
proof -
  have len: "length (av_htable a) = unat (av_nslot a)" "of_nat (length (avtab_nodes a)) = av_nel a" using assms by (simp_all add: avtab_wf_def)
  have "map (\<lambda>i. concat (map (\<lambda>n. item_bytes (node_rule n)) (av_htable a ! i))) [0..<unat (av_nslot a)] =
      map (\<lambda>c. concat (map (\<lambda>n. item_bytes (node_rule n)) c)) (av_htable a)"
    using len(1) by (intro nth_equalityI) simp_all
  moreover have "concat (map (\<lambda>c. concat (map (\<lambda>n. item_bytes (node_rule n)) c)) cs) = concat (map (\<lambda>n. item_bytes (node_rule n)) (concat cs))" for cs
    by (induction cs) simp_all
  moreover have "writes (wr_each (\<lambda>i. wr_each avtab_write_item (av_htable a ! i)) [0..<unat (av_nslot a)])
      (concat (map (\<lambda>i. concat (map (\<lambda>n. item_bytes (node_rule n)) (av_htable a ! i))) [0..<unat (av_nslot a)]))"
    by (intro writes_each) (simp add: writes_item)
  ultimately show ?thesis unfolding avtab_write_def len(2) unfolding avtab_nodes_def using writes_seq [OF writes_32s] by simp
qed

section \<open>What the reader accepts\<close>

lemma rules_unique_extend:
  assumes "rules_unique R" "\<forall>r' \<in># R. \<not> rules_clash r r'"
  shows "rules_unique (add_mset r R)"
  unfolding rules_unique_def
proof (intro allI impI ballI)
  fix q Q r'
  assume q: "add_mset r R = add_mset q Q" "r' \<in># Q"
  show "\<not> rules_clash q r'"
  proof (cases "q = r")
    case True
    then show ?thesis using q assms(2) by simp
  next
    case False
    then obtain P where P: "R = add_mset q P" "Q = add_mset r P" using q(1) by (metis add_eq_conv_ex)
    then show ?thesis using q(2) assms by (metis insert_iff rules_clash_sym rules_unique_add set_mset_add_mset_insert)
  qed
qed

text \<open>
  The rule that reaches the insertion function has been checked, so an invariant that every insertion of
  a checked rule keeps holds of all that is read.
\<close>

lemma delivers_specs:
  assumes "\<And>s k d m s' m'. I s \<Longrightarrow> insertf s k d m = (OK, s', m') \<Longrightarrow> I s'" "I s"
  shows "delivers (avtab_read_specs insertf key enabled val buf specs items s) (\<lambda>(_, s). I s)"
  using assms(2)
proof (induction specs arbitrary: items s)
  case (Cons spec specs)
  then show ?case using assms(1) by (auto intro!: delivers_bind [OF delivers_step [where P = I]])
qed (simp add: delivers_return)

lemma rule_ok_read:
  assumes "policydb_type_isvalid pol (ucast (source_type k)) \<and> policydb_type_isvalid pol (ucast (target_type k)) \<and> policydb_class_isvalid pol (ucast (target_class k))"
    and "\<not> (length (filter (\<lambda>spec. specified k AND spec \<noteq> 0) spec_order) = 0 \<or> 1 < length (filter (\<lambda>spec. specified k AND spec \<noteq> 0) spec_order))"
  shows "delivers (if policyvers pol < POLICYDB_VERSION_XPERMS_IOCTL \<and> specified k AND AVTAB_XPERMS \<noteq> 0 then rd_fail EINVAL
       else if specified k AND AVTAB_XPERMS \<noteq> 0 then avtab_read_xperms else rd_bind next_le32 (\<lambda>w. rd_return (Data w)))
     (\<lambda>d. (specified k AND AVTAB_TYPE \<noteq> 0 \<longrightarrow> policydb_type_isvalid pol (datum_data d)) \<longrightarrow> rule_ok pol (k, d))"
proof -
  have one: "length (filter (\<lambda>spec. specified k AND spec \<noteq> 0) spec_order) = 1" using assms(2) by linarith
  have "delivers avtab_read_xperms (\<lambda>d. \<exists>x. d = Xperms x \<and> length (xp_perms x) = 8)"
    unfolding avtab_read_xperms_def by (intro delivers_any delivers_bind [OF delivers_le32s] delivers_return) simp
  moreover have "delivers (rd_bind next_le32 (\<lambda>w. rd_return (Data w))) (\<lambda>d. \<exists>w. d = Data w)"
    by (intro delivers_any delivers_return) simp
  ultimately show ?thesis
    using assms(1) one by (intro delivers_if delivers_fail; elim delivers_mono) (auto simp: rule_ok_def is_xperms_def)
qed

lemma delivers_item:
  assumes step: "\<And>s k d m s' m'. I s \<Longrightarrow> (\<not> policyvers pol < POLICYDB_VERSION_AVTAB \<Longrightarrow> rule_ok pol (k, d)) \<Longrightarrow>
      insertf s k d m = (OK, s', m') \<Longrightarrow> I s'" and "I s"
  shows "delivers (avtab_read_item stack pol insertf s) I"
proof (cases "policyvers pol < POLICYDB_VERSION_AVTAB")
  case True
  have "delivers (avtab_read_specs insertf key enabled val buf specs items s) (\<lambda>(_, s). I s)" for key enabled val buf specs items
    by (rule delivers_specs) (use True assms in auto)
  note specs = delivers_bind [OF this]
  have "delivers (avtab_read_item_old stack insertf s) I"
    unfolding avtab_read_item_old_def Let_def by (intro specs delivers_any) (auto intro: delivers_any delivers_return)
  then show ?thesis using True by (simp add: avtab_read_item_def)
next
  case False
  show ?thesis
    unfolding avtab_read_item_def if_not_P [OF False] Let_def
    by (intro delivers_any [of _ _ "next_le16s 4"] delivers_check delivers_bind [OF rule_ok_read], assumption+)
      (intro delivers_check delivers_step step [OF assms(2)], auto)
qed

definition avtab_sound :: "policydb \<Rightarrow> avtab \<Rightarrow> bool" where
  "avtab_sound pol h \<longleftrightarrow> avtab_wf h \<and> av_nslot h \<noteq> 0 \<and> rules_unique (avtab_rules h) \<and>
     (POLICYDB_VERSION_AVTAB \<le> policyvers pol \<longrightarrow> (\<forall>r \<in># avtab_rules h. rule_ok pol r))"

lemma avtab_insert_sound:
  assumes "avtab_sound pol h" "\<not> policyvers pol < POLICYDB_VERSION_AVTAB \<Longrightarrow> rule_ok pol (k, d)" "avtab_insertf h k d m = (OK, h', m')"
  shows "avtab_sound pol h'"
proof -
  have nel: "av_nel h \<noteq> 0xffffffff" using assms(3) by (auto simp: avtab_insertf_def avtab_insert_def split: if_splits)
  have h': "avtab_wf h'" "av_nslot h' = av_nslot h" "avtab_rules h' = add_mset (k, d) (avtab_rules h)"
      "\<not> ((\<exists>x \<in> set (avtab_nodes h). avtab_match k (spec_mask (specified k)) x) \<and> spec_mask (specified k) AND AVTAB_XPERMS = 0)"
    using avtab_insert_cases [OF _ _ nel, of k d m] assms(1,3) rules_of_insert [of h' k d] by (auto simp: avtab_sound_def avtab_insertf_def)
  have "\<forall>r \<in># avtab_rules h. \<not> rules_clash (k, d) r"
    using h'(4) unfolding spec_mask_xperms by (auto simp: avtab_rules_def rules_clash_def node_rule_def avtab_match_def)
  then show ?thesis using assms(1,2) h'(1-3) rules_unique_extend by (auto simp: avtab_sound_def)
qed

lemma avtab_read_sound: "delivers (avtab_read stack pol avtab_init) (avtab_sound pol)"
proof -
  have "avtab_sound pol h" if al: "avtab_alloc avtab_init nel m = (OK, h, m')" "nel \<noteq> 0" for nel m h m'
  proof -
    obtain h0 where h0: "accepts (rd_step (avtab_alloc avtab_init nel)) [] h0" "avtab_wf h0" "av_nslot h0 \<noteq> 0" "avtab_nodes h0 = []"
      using accepts_alloc_table [OF al(2)] by blast
    have "h = h0"
      using acceptsD [OF h0(1), of "[]"] al by (auto simp: rd_step_def avtab_alloc_def avtab_alloc_common_def Let_def split: if_splits prod.splits bool.splits)
    then show ?thesis using h0 by (simp add: avtab_sound_def avtab_rules_def)
  qed
  then show ?thesis
    unfolding avtab_read_def by (intro delivers_any [of _ _ next_le32] delivers_check delivers_bind [OF delivers_step [where P = "avtab_sound pol"] delivers_times])
      (auto intro: delivers_item avtab_insert_sound)
qed

section \<open>Properties\<close>

text \<open>
  C39. A table with at least one rule, and no bits in the masks of its rules that the code does not know, is
  written to a policy image and read back with the same rules: the keys and data of all the nodes, each
  as often as it was there. The bytes that were written are all consumed, and the
  hash table that is built may have another number of slots.
\<close>

theorem avtab_write_read:
  assumes "avtab_sound pol a" "avtab_nodes a \<noteq> []" "\<forall>n \<in> set (avtab_nodes a). spec_known (an_key n)"
    and "POLICYDB_VERSION_AVTAB \<le> policyvers pol"
  shows "\<exists>bs a'. (\<forall>out len. length bs \<le> len \<longrightarrow> avtab_write a (out, len) = (OK, out @ bs, len - length bs)) \<and>
    (\<forall>rest m. ample m \<longrightarrow> (\<exists>m'. avtab_read stack pol avtab_init (bs @ rest, m) = Inr (a', rest, m'))) \<and>
    avtab_sound pol a' \<and> avtab_rules a' = avtab_rules a"
proof -
  let ?rs = "map node_rule (avtab_nodes a)"
  let ?bs = "le32s_bytes [of_nat (length ?rs)] @ concat (map item_bytes ?rs)"
  have R: "avtab_rules a = mset ?rs" by (simp add: avtab_rules_def)
  have "length (avtab_nodes a) < 2 ^ 32" using assms(1) by (simp add: avtab_sound_def avtab_wf_def)
  then obtain h where h: "accepts (avtab_read stack pol avtab_init) ?bs h" "avtab_rules h = mset ?rs"
    using accepts_avtab [of pol ?rs stack] assms R by (auto simp: avtab_sound_def node_rule_def not_less)
  have "writes (avtab_write a) ?bs" using writes_avtab assms(1) by (simp add: avtab_sound_def comp_def)
  moreover have "avtab_sound pol h" using acceptsD [OF h(1), of "[]"] avtab_read_sound by (auto dest!: deliversD)
  ultimately show ?thesis using h R unfolding writes_def accepts_def by metis
qed

definition sample_rules_policydb :: policydb where
  "sample_rules_policydb = policydb_init\<lparr>p_types := symtab_zero\<lparr>st_nprim := 5\<rparr>, p_classes := symtab_zero\<lparr>st_nprim := 5\<rparr>, policyvers := 30\<rparr>"

lemma sample_avtab_sound: "avtab_sound sample_rules_policydb sample_avtab"
  using sample_avtab_wf by (auto simp: avtab_sound_def sample_avtab_def avtab_rules_def avtab_nodes_def node_rule_def rule_ok_def is_xperms_def
      sample_key_def sample_rules_policydb_def policydb_type_isvalid_def policydb_class_isvalid_def spec_order_def rules_unique_def)

theorem avtab_write_read_witness:
  "\<exists>bs a'. avtab_write sample_avtab ([], length bs) = (OK, bs, 0) \<and>
    (\<exists>m'. avtab_read (\<lambda>_. []) sample_rules_policydb avtab_init (bs, []) = Inr (a', [], m')) \<and> avtab_rules a' = {#(sample_key 1, Data 5)#}"
proof -
  have "avtab_nodes sample_avtab \<noteq> []" "\<forall>n \<in> set (avtab_nodes sample_avtab). spec_known (an_key n)"
      "POLICYDB_VERSION_AVTAB \<le> policyvers sample_rules_policydb" "avtab_rules sample_avtab = {#(sample_key 1, Data 5)#}"
    by (simp_all add: avtab_nodes_def sample_avtab_def spec_known_def sample_key_def sample_rules_policydb_def avtab_rules_def node_rule_def)
  then show ?thesis using avtab_write_read [OF sample_avtab_sound, of "\<lambda>_. []"]
    by (metis (no_types, lifting) ample_Nil append_Nil append_Nil2 diff_self_eq_0 le_refl)
qed

end
