(* ===== verification/Cond_Image.thy ===== *)
theory Cond_Image
  imports Conditional Avtab_Image
begin

text \<open>
  Booleans and conditionals in the binary policy (the readers and writers of \<open>ss/conditional.c\<close>). The
  rules of a conditional are read into the conditional table, and its two lists get the addresses of
  their nodes.
\<close>

section \<open>Reading\<close>

definition cond_read_bool :: "cond_bool_datum symtab \<Rightarrow> cond_bool_datum symtab reader" where
  "cond_read_bool s =
     rd_bind rd_alloc (\<lambda>_.
     rd_bind (next_le32s 3) (\<lambda>buf.
     let booldatum = \<lparr>bool_value = buf ! 0, bool_state = sint (buf ! 1)\<rparr>; len = buf ! 2 in
     rd_bind (rd_check (bool_isvalid booldatum) EINVAL) (\<lambda>_.
     rd_bind (rd_check (\<not> (len = 0 \<or> len = 0xffffffff)) EINVAL) (\<lambda>_.
     rd_bind rd_alloc (\<lambda>_.
     rd_bind (next_entry (unat len)) (\<lambda>key.
     rd_step (symtab_insert s (c_string key) booldatum)))))))"

text \<open>The state of the insertion: the policy, and the list of the branch so far.\<close>

definition cond_insert_rule :: "nat list option \<Rightarrow> (policydb \<times> nat list) insertf" where
  "cond_insert_rule other = (\<lambda>(p, nodes) k d m.
     case cond_insertf p k d other m of
       (Inl e, p', m') \<Rightarrow> (Err e, (p', nodes), m')
     | (Inr addr, p', m') \<Rightarrow> (OK, (p', nodes @ [addr]), m'))"

definition cond_read_av_list :: "(nat \<Rightarrow> u32 list) \<Rightarrow> policydb \<Rightarrow> nat list option \<Rightarrow> (policydb \<times> nat list) reader" where
  "cond_read_av_list stack p other =
     rd_bind next_le32 (\<lambda>len.
     if len = 0 then rd_return (p, [])
     else rd_bind rd_alloc (\<lambda>_.
          rd_times (unat len) (\<lambda>s. avtab_read_item stack (fst s) (cond_insert_rule other) s) (p, [])))"

definition cond_read_expr :: "policydb \<Rightarrow> cond_expr_node list \<Rightarrow> cond_expr_node list reader" where
  "cond_read_expr p nodes =
     rd_bind (next_le32s 2) (\<lambda>buf.
     let expr = \<lparr>cx_expr_type = buf ! 0, cx_boolean = buf ! 1\<rparr> in
     rd_bind (rd_check (expr_node_isvalid p expr) EINVAL) (\<lambda>_. rd_return (nodes @ [expr])))"

definition cond_read_node :: "(nat \<Rightarrow> u32 list) \<Rightarrow> policydb \<Rightarrow> (policydb \<times> cond_node) reader" where
  "cond_read_node stack p =
     rd_bind (next_le32s 2) (\<lambda>buf.
     rd_bind rd_alloc (\<lambda>_.
     rd_bind (rd_times (unat (buf ! 1)) (cond_read_expr p) []) (\<lambda>expr.
     rd_bind (cond_read_av_list stack p None) (\<lambda>(p, t).
     rd_bind (cond_read_av_list stack p (Some t)) (\<lambda>(p, f).
     rd_return (p, \<lparr>cur_state = sint (buf ! 0), cond_expr = expr, true_list = t, false_list = f\<rparr>))))))"

definition cond_read_list :: "(nat \<Rightarrow> u32 list) \<Rightarrow> policydb \<Rightarrow> policydb reader" where
  "cond_read_list stack p =
     rd_bind next_le32 (\<lambda>len.
     rd_bind rd_alloc (\<lambda>_.
     rd_bind (rd_step (avtab_alloc (te_cond_avtab p) (av_nel (te_avtab p)))) (\<lambda>t.
     rd_times (unat len) (\<lambda>p.
       rd_bind (cond_read_node stack p) (\<lambda>(p, node). rd_return (p\<lparr>cond_list := cond_list p @ [node]\<rparr>)))
       (p\<lparr>te_cond_avtab := t, cond_list := []\<rparr>))))"

section \<open>Writing\<close>

definition put_string :: "string \<Rightarrow> writer" where
  "put_string s = put_entry (map of_char s)"

definition cond_write_bool :: "string \<Rightarrow> cond_bool_datum \<Rightarrow> writer" where
  "cond_write_bool key booldatum =
     wr_seq (put_le32s [bool_value booldatum, word_of_int (bool_state booldatum), of_nat (length key)]) (put_string key)"

text \<open>An address that is not in the table is not written; the lists hold none.\<close>

definition cond_write_av_list :: "policydb \<Rightarrow> nat list \<Rightarrow> writer" where
  "cond_write_av_list p nodes =
     wr_seq (put_le32s [of_nat (length nodes)])
       (wr_each (\<lambda>a. case node_at (te_cond_avtab p) a of Some n \<Rightarrow> avtab_write_item n | None \<Rightarrow> wr_skip) nodes)"

definition cond_write_node :: "policydb \<Rightarrow> cond_node \<Rightarrow> writer" where
  "cond_write_node p node =
     wr_seq (put_le32s [word_of_int (cur_state node)])
     (wr_seq (put_le32s [of_nat (length (cond_expr node))])
     (wr_seq (wr_each (\<lambda>expr. put_le32s [cx_expr_type expr, cx_boolean expr]) (cond_expr node))
     (wr_seq (cond_write_av_list p (true_list node)) (cond_write_av_list p (false_list node)))))"

definition cond_write_list :: "policydb \<Rightarrow> writer" where
  "cond_write_list p =
     wr_seq (put_le32s [of_nat (length (cond_list p))]) (wr_each (cond_write_node p) (cond_list p))"

section \<open>Images give well-formed conditionals\<close>

text \<open>
  The addresses in the lists are different, in all the conditionals and in the branch that is being read,
  and each is an address that the conditional table gave out.
\<close>

definition cond_list_addrs :: "policydb \<Rightarrow> nat list" where
  "cond_list_addrs p = concat (map cond_addrs (cond_list p))"

definition cond_wf :: "policydb \<Rightarrow> nat list \<Rightarrow> bool" where
  "cond_wf p pending \<longleftrightarrow> avtab_wf (te_cond_avtab p) \<and>
     (POLICYDB_VERSION_AVTAB \<le> policyvers p \<longrightarrow> (\<forall>r \<in># avtab_rules (te_cond_avtab p). rule_ok p r)) \<and>
     distinct (cond_list_addrs p @ pending) \<and> (\<forall>a \<in> set (cond_list_addrs p @ pending). a < unat (av_nel (te_cond_avtab p))) \<and>
     (\<forall>n \<in> set (cond_list p). \<forall>e \<in> set (cond_expr n). expr_node_isvalid p e)"

text \<open>Reading conditionals changes the conditional table and the list only.\<close>

definition cond_frame :: "policydb \<Rightarrow> policydb \<Rightarrow> bool" where
  "cond_frame p p' \<longleftrightarrow> p'\<lparr>te_cond_avtab := te_cond_avtab p, cond_list := cond_list p\<rparr> = p"

lemma cond_frame_simps [simp]:
  "cond_frame p p" "cond_frame p (q\<lparr>te_cond_avtab := t\<rparr>) = cond_frame p q" "cond_frame p (q\<lparr>cond_list := l\<rparr>) = cond_frame p q"
  by (simp_all add: cond_frame_def)

lemma cond_frame_fields:
  assumes "cond_frame p q"
  shows "policyvers q = policyvers p" "p_types q = p_types p" "p_classes q = p_classes p" "p_bools q = p_bools p"
  using arg_cong [OF assms [unfolded cond_frame_def], of policyvers] arg_cong [OF assms [unfolded cond_frame_def], of p_types]
    arg_cong [OF assms [unfolded cond_frame_def], of p_classes] arg_cong [OF assms [unfolded cond_frame_def], of p_bools] by simp_all

lemma cond_frame_checks:
  assumes "cond_frame p q"
  shows "rule_ok q = rule_ok p" "expr_node_isvalid q = expr_node_isvalid p"
  unfolding rule_ok_def [abs_def] expr_node_isvalid_def [abs_def] policydb_type_isvalid_def policydb_class_isvalid_def
    cond_frame_fields [OF assms] by simp_all

lemma cond_frame_trans: "cond_frame p q \<Longrightarrow> cond_frame q r \<Longrightarrow> cond_frame p r"
  unfolding cond_frame_def by (metis cond_frame_def cond_frame_simps(2,3))

lemma insert_nonunique_ok:
  assumes "avtab_insert_nonunique h k d m = (Some addr, h', m')" "avtab_wf h"
  shows "avtab_wf h' \<and> addr = unat (av_nel h) \<and> unat (av_nel h') = unat (av_nel h) + 1 \<and> avtab_rules h' = add_mset (k, d) (avtab_rules h)"
proof -
  let ?n = "\<lparr>an_key = k, an_datum = d, an_addr = unat (av_nel h)\<rparr>" and ?i = "unat (avtab_hash k (av_mask h))"
  have ne: "av_nslot h \<noteq> 0" "av_nel h \<noteq> 0xffffffff" using assms(1) by (auto simp: avtab_insert_nonunique_def split: if_splits)
  obtain pos m1 where pos: "avtab_place False k (spec_mask (specified k)) (av_htable h ! ?i) = Some pos"
      "avtab_insert_node (unat (av_nel h)) k d m = (Some ?n, m1)" "h' = avtab_link h ?i pos ?n" "addr = unat (av_nel h)"
    using assms(1) ne by (fastforce simp: avtab_insert_nonunique_def Let_def dest: insert_node_key split: option.splits prod.splits)
  then show ?thesis
    using avtab_link_wf [OF assms(2) ne pos(1), of ?n] rules_of_insert [of h' k d] unat_plus_one_u32 [OF ne(2)]
    by (simp add: avtab_link_def Let_def)
qed

lemma cond_insert_rule_ok:
  assumes "cond_insert_rule other (p, nodes) k d m = (OK, (p', nodes'), m')" "cond_wf p (pend @ nodes)"
    and "\<not> policyvers p < POLICYDB_VERSION_AVTAB \<Longrightarrow> rule_ok p (k, d)"
  shows "cond_wf p' (pend @ nodes')" "cond_frame p p'" "cond_list p' = cond_list p"
proof -
  obtain addr t where t: "avtab_insert_nonunique (te_cond_avtab p) k d m = (Some addr, t, m')" "p' = p\<lparr>te_cond_avtab := t\<rparr>" "nodes' = nodes @ [addr]"
    using assms(1) by (auto simp: cond_insert_rule_def cond_insertf_def Let_def split: sum.splits prod.splits if_splits option.splits)
  show fr: "cond_frame p p'" "cond_list p' = cond_list p" using t(2) by simp_all
  have wf: "avtab_wf (te_cond_avtab p)" using assms(2) by (simp add: cond_wf_def)
  note ins = insert_nonunique_ok [OF t(1) wf]
  have "\<forall>r \<in># avtab_rules t. rule_ok p r" if "POLICYDB_VERSION_AVTAB \<le> policyvers p"
    using assms(2,3) ins that by (simp add: cond_wf_def not_less)
  moreover have "cond_list_addrs p' = cond_list_addrs p" by (simp add: cond_list_addrs_def fr(2))
  moreover have "te_cond_avtab p' = t" using t(2) by simp
  ultimately show "cond_wf p' (pend @ nodes')"
    using assms(2) ins t(3) unfolding cond_wf_def cond_frame_checks [OF fr(1)] cond_frame_fields [OF fr(1)] fr(2) by (auto simp: less_Suc_eq)
qed

definition av_list_ok :: "policydb \<Rightarrow> nat list \<Rightarrow> policydb \<times> nat list \<Rightarrow> bool" where
  "av_list_ok p pend s \<longleftrightarrow> cond_wf (fst s) (pend @ snd s) \<and> cond_frame p (fst s) \<and> cond_list (fst s) = cond_list p"

lemma cond_read_av_list_ok:
  assumes "cond_wf p pend"
  shows "delivers (cond_read_av_list stack p other) (av_list_ok p pend)"
proof -
  have start: "av_list_ok p pend (p, [])" using assms by (simp add: av_list_ok_def)
  have "delivers (avtab_read_item stack (fst s) (cond_insert_rule other) s) (av_list_ok p pend)" if s: "av_list_ok p pend s" for s
  proof (rule delivers_item [where I = "av_list_ok p pend", OF _ s])
    fix r k d m r' m'
    assume step: "av_list_ok p pend r" "\<not> policyvers (fst s) < POLICYDB_VERSION_AVTAB \<Longrightarrow> rule_ok (fst s) (k, d)" "cond_insert_rule other r k d m = (OK, r', m')"
    have fr: "cond_frame p (fst s)" "cond_frame p (fst r)" using s step(1) by (simp_all add: av_list_ok_def)
    have "cond_insert_rule other (fst r, snd r) k d m = (OK, (fst r', snd r'), m')" using step(3) by simp
    note ok = cond_insert_rule_ok [OF this, of pend]
    show "av_list_ok p pend r'"
      using ok step(1,2) cond_frame_trans [OF fr(2)] unfolding av_list_ok_def cond_frame_checks [OF fr(1)] cond_frame_checks [OF fr(2)] 
        cond_frame_fields [OF fr(1)] cond_frame_fields [OF fr(2)] by metis
  qed
  then show ?thesis
    unfolding cond_read_av_list_def using start
    by (intro delivers_any [of _ _ next_le32] delivers_if delivers_return delivers_any [of _ _ rd_alloc] delivers_times)
qed

lemma cond_read_node_ok:
  assumes "cond_wf p []"
  shows "delivers (cond_read_node stack p) (\<lambda>(p', node). cond_wf (p'\<lparr>cond_list := cond_list p' @ [node]\<rparr>) [] \<and> cond_frame p p')"
proof -
  have expr: "delivers (rd_times n (cond_read_expr p) []) (\<lambda>es. \<forall>e \<in> set es. expr_node_isvalid p e)" for n
    unfolding cond_read_expr_def Let_def by (intro delivers_times delivers_any [of _ _ "next_le32s 2"] delivers_check delivers_return) auto
  have node: "cond_wf (p2\<lparr>cond_list := cond_list p2 @ [\<lparr>cur_state = c, cond_expr = es, true_list = t, false_list = f\<rparr>]\<rparr>) [] \<and> cond_frame p p2"
    if es: "\<forall>e \<in> set es. expr_node_isvalid p e" and l: "av_list_ok p [] (p1, t)" "av_list_ok p1 t (p2, f)" for es p1 t p2 f c
  proof -
    have fr: "cond_frame p p2" using l by (auto simp: av_list_ok_def intro: cond_frame_trans)
    let ?q = "p2\<lparr>cond_list := cond_list p2 @ [\<lparr>cur_state = c, cond_expr = es, true_list = t, false_list = f\<rparr>]\<rparr>"
    have "cond_frame p2 ?q" by simp
    note q = cond_frame_checks [OF this] cond_frame_fields [OF this]
    have "cond_list_addrs ?q = cond_list_addrs p2 @ t @ f" by (simp add: cond_list_addrs_def cond_addrs_def)
    moreover have "\<forall>e \<in> set es. expr_node_isvalid p2 e" using es by (simp add: cond_frame_checks [OF fr])
    ultimately show ?thesis using l(2) fr unfolding av_list_ok_def cond_wf_def q by simp
  qed
  have false_branch: "delivers (rd_bind (cond_read_av_list stack p1 (Some t)) (\<lambda>(p, f). rd_return (p, \<lparr>cur_state = c, cond_expr = es, true_list = t, false_list = f\<rparr>)))
      (\<lambda>(p', node). cond_wf (p'\<lparr>cond_list := cond_list p' @ [node]\<rparr>) [] \<and> cond_frame p p')"
    if es: "\<forall>e \<in> set es. expr_node_isvalid p e" and l: "av_list_ok p [] (p1, t)" for es p1 t c
  proof (rule delivers_bind [OF cond_read_av_list_ok])
    show "cond_wf p1 t" using l by (simp add: av_list_ok_def)
  qed (use node [OF es l] in \<open>auto intro!: delivers_return\<close>)
  show ?thesis
    unfolding cond_read_node_def
    by (intro delivers_any [of _ _ "next_le32s 2"] delivers_any [of _ _ rd_alloc] delivers_bind [OF expr] delivers_bind [OF cond_read_av_list_ok [OF assms]])
      (use false_branch in auto)
qed

text \<open>A list of conditionals is read into an empty table.\<close>

definition cond_sound :: "policydb \<Rightarrow> policydb \<Rightarrow> bool" where
  "cond_sound p p' \<longleftrightarrow> cond_wf p' [] \<and> cond_frame p p'"

lemma cond_read_list_ok:
  assumes "te_cond_avtab p = avtab_init"
  shows "delivers (cond_read_list stack p) (cond_sound p)"
proof -
  have start: "cond_sound p (p\<lparr>te_cond_avtab := t, cond_list := []\<rparr>)" if al: "avtab_alloc (te_cond_avtab p) nel m = (OK, t, m')" for t nel m m'
  proof -
    have "avtab_wf t \<and> avtab_nodes t = []"
      using al alloc_common_wf alloc_common_wf [of 0 m avtab_init m] assms
      by (auto simp: avtab_alloc_def Let_def avtab_alloc_common_def split: if_splits)
    then show ?thesis by (simp add: cond_sound_def cond_wf_def cond_list_addrs_def avtab_rules_def)
  qed
  have step: "delivers (rd_bind (cond_read_node stack q) (\<lambda>(p, node). rd_return (p\<lparr>cond_list := cond_list p @ [node]\<rparr>))) (cond_sound p)"
    if q: "cond_sound p q" for q
  proof (rule delivers_bind [OF cond_read_node_ok])
    show "cond_wf q []" using q by (simp add: cond_sound_def)
  qed (use q in \<open>auto simp: cond_sound_def intro!: delivers_return intro: cond_frame_trans\<close>)
  show ?thesis
    unfolding cond_read_list_def
    by (intro delivers_any [of _ _ next_le32] delivers_any [of _ _ rd_alloc] delivers_bind [OF delivers_step delivers_times [OF _ step]])
      (auto intro: start)
qed

lemma cond_wf_node_at:
  assumes "cond_wf p pend" "a \<in> set (cond_list_addrs p @ pend)"
  shows "node_at (te_cond_avtab p) a \<noteq> None"
proof -
  have "a \<in> an_addr ` set (avtab_nodes (te_cond_avtab p))"
    using assms by (auto simp: cond_wf_def avtab_wf_def)
  then show ?thesis by (auto simp: node_at_def find_None_iff avtab_nodes_def)
qed

end
