(* ===== verification/Ebitmap_Image.thy ===== *)
theory Ebitmap_Image
  imports Ebitmap Policy_File
begin

text \<open>
  Bitmaps in the binary policy (\<open>ebitmap_read\<close> and \<open>ebitmap_write\<close> of \<open>ss/ebitmap.c\<close>): a header with
  the size of a unit, the high bit and the number of units, and then every unit of 64 bits that is not
  empty with the position of its first bit.
\<close>

section \<open>Reading\<close>

text \<open>
  One round of the loop. The sum of a start bit and the size of a node is taken in 64 bits. The units
  before the last one of a node stay as they are when the new one is empty.
\<close>

definition ebitmap_read_unit :: "u32 \<Rightarrow> ebitmap_node list \<Rightarrow> ebitmap_node list reader" where
  "ebitmap_read_unit highbit ns =
     rd_bind next_le32 (\<lambda>startbit.
     rd_bind (rd_check (startbit AND (64 - 1) = 0) EINVAL) (\<lambda>_.
     rd_bind (rd_check (\<not> startbit > highbit - 64) EINVAL) (\<lambda>_.
     rd_bind
       (if ns = [] \<or> unat startbit \<ge> unat (en_startbit (last ns)) + EBITMAP_SIZE
        then rd_bind rd_alloc (\<lambda>_. rd_return (ns @ [\<lparr>en_maps = replicate EBITMAP_UNIT_NUMS 0, en_startbit = startbit - startbit mod 384\<rparr>]))
        else if startbit \<le> en_startbit (last ns) then rd_fail EINVAL
        else rd_return ns) (\<lambda>ns.
     rd_bind next_le64 (\<lambda>mapbits.
     rd_return
       (let n = last ns; index = unat (startbit - en_startbit n) div EBITMAP_UNIT_SIZE
        in if mapbits = 0 then ns else butlast ns @ [n\<lparr>en_maps := (en_maps n)[index := mapbits]\<rparr>]))))))"

definition ebitmap_read :: "ebitmap reader" where
  "ebitmap_read =
     rd_bind (next_le32s 3) (\<lambda>buf.
     let mapunit = buf ! 0; highbit = buf ! 1; count = buf ! 2
     in rd_bind (rd_check (mapunit = 64) EINVAL) (\<lambda>_.
        let highbit = highbit + 383; highbit = highbit - highbit mod 384
        in if highbit = 0 then rd_return \<lparr>eb_node = [], eb_highbit = 0\<rparr>
           else rd_bind (rd_check (count \<noteq> 0) EINVAL) (\<lambda>_.
                rd_bind (rd_times (unat count) (ebitmap_read_unit highbit) []) (\<lambda>ns.
                rd_return \<lparr>eb_node = ns, eb_highbit = highbit\<rparr>))))"

section \<open>Writing\<close>

text \<open>
  The bits come from the loop over the positive bits, as \<open>int\<close>. The two macros round a number down in
  \<open>int\<close> and in \<open>size_t\<close>, which differ on negative numbers, and up in \<open>size_t\<close>.
\<close>

definition rounddown_int :: "int \<Rightarrow> int" where
  "rounddown_int x = x - sgn x * (\<bar>x\<bar> mod 64)"

definition rounddown_size :: "int \<Rightarrow> int" where
  "rounddown_size x = x - x mod 64"

definition roundup_size :: "int \<Rightarrow> int" where
  "roundup_size x = (x + 63) div 64 * 64"

fun ebitmap_count_units :: "int list \<Rightarrow> u32 \<Rightarrow> int \<Rightarrow> int \<Rightarrow> u32 \<times> int" where
  "ebitmap_count_units [] count last_bit last_startbit = (count, last_bit)"
| "ebitmap_count_units (b # bits) count last_bit last_startbit =
     (if rounddown_int b > last_startbit
      then ebitmap_count_units bits (count + 1) (roundup_size (b + 1)) (rounddown_size b)
      else ebitmap_count_units bits count (roundup_size (b + 1)) last_startbit)"

definition put_unit :: "int \<Rightarrow> u64 \<Rightarrow> writer" where
  "put_unit startbit mapbits = wr_seq (put_le32s [word_of_int startbit]) (put_le64 mapbits)"

fun ebitmap_write_units :: "int list \<Rightarrow> u64 \<Rightarrow> int \<Rightarrow> writer" where
  "ebitmap_write_units [] mapbits last_startbit = (if mapbits \<noteq> 0 then put_unit last_startbit mapbits else wr_skip)"
| "ebitmap_write_units (b # bits) mapbits last_startbit =
     (if rounddown_int b > last_startbit
      then if mapbits = 0 then ebitmap_write_units bits (push_bit (nat (b - rounddown_size b)) 1) (rounddown_size b)
           else wr_seq (put_unit last_startbit mapbits)
                  (ebitmap_write_units bits (0 OR push_bit (nat (b - rounddown_size b)) 1) (rounddown_size b))
      else ebitmap_write_units bits (mapbits OR push_bit (nat (b - last_startbit)) 1) last_startbit)"

definition ebitmap_write :: "ebitmap \<Rightarrow> writer" where
  "ebitmap_write e =
     (let bits = map sint (ebitmap_positive_bits e)
      in case ebitmap_count_units bits 0 0 (-1) of
           (count, last_bit) \<Rightarrow>
             wr_seq (put_le32s [64, word_of_int last_bit, count]) (ebitmap_write_units bits 0 (- (2 ^ 31))))"

section \<open>Images give well-formed bitmaps\<close>

text \<open>Nodes that the loop has built so far lie below the high bit.\<close>

definition units_ok :: "u32 \<Rightarrow> ebitmap_node list \<Rightarrow> bool" where
  "units_ok hb ns \<longleftrightarrow> nodes_wf ns \<and> nodes_end ns \<le> unat hb"

lemma unat_u32_mod: "unat (w mod 384 :: u32) = unat w mod 384"
  by (simp add: unat_mod)

lemma unat_round384: "unat (w - w mod 384 :: u32) = unat w - unat w mod 384"
proof -
  have "w mod 384 \<le> w" by (simp add: word_le_nat_alt unat_u32_mod)
  then show ?thesis by (simp add: unat_sub unat_u32_mod)
qed

lemma round384_dvd: "384 dvd unat (w - w mod 384 :: u32)"
  unfolding unat_round384 by (simp add: minus_mod_eq_mult_div)

lemma start_below:
  assumes "384 dvd unat hb" "hb \<noteq> 0" "\<not> st > hb - (64 :: u32)"
  shows "unat st - unat st mod 384 + 384 \<le> unat hb"
proof -
  have "unat hb \<noteq> 0" using assms(2) by (simp add: unat_eq_0)
  then have h: "384 \<le> unat hb" using assms(1) by (auto elim!: dvdE)
  then have "unat (hb - 64) = unat hb - 64" by (simp add: unat_sub word_le_nat_alt)
  then have "unat st < unat hb" using assms(3) h by (simp add: word_less_nat_alt not_less)
  moreover obtain q where q: "unat hb = 384 * q" using assms(1) by (auto elim!: dvdE)
  ultimately have "unat st div 384 < q" by (simp add: div_less_iff_less_mult mult.commute)
  then show ?thesis unfolding minus_mod_eq_mult_div q by simp
qed

lemma new_node_ok:
  assumes "units_ok hb ns" "384 dvd unat hb" "hb \<noteq> 0" "\<not> st > hb - (64 :: u32)"
    and "ns = [] \<or> unat st \<ge> unat (en_startbit (last ns)) + 384"
  shows "units_ok hb (ns @ [\<lparr>en_maps = replicate 6 0, en_startbit = st - st mod 384\<rparr>])"
proof -
  let ?n = "\<lparr>en_maps = replicate 6 0, en_startbit = st - st mod 384\<rparr>"
  have lo: "node_lo ?n = unat st - unat st mod 384" by (simp add: node_lo_def unat_round384)
  have e: "node_lo ?n + 384 \<le> unat hb" using start_below [OF assms(2-4)] lo by simp
  have wf: "node_wf ?n"
    using le_less_trans [OF e unat_u32_bound] round384_dvd [of st] by (simp add: node_wf_def node_lo_def)
  have "node_lo n' < node_lo ?n" if n': "n' \<in> set ns" for n'
  proof -
    have ne: "ns \<noteq> []" using n' by auto
    have w: "nodes_wf ns" "node_wf (last ns)" using assms(1) ne by (auto simp: units_ok_def nodes_wf_def)
    have "node_lo n' \<le> node_lo (last ns)"
      using w(1) n' ne by (cases ns rule: rev_cases) (auto simp: nodes_wf_def sorted_wrt_append intro: less_imp_le)
    moreover have "384 dvd node_lo (last ns)" "node_lo (last ns) + 384 \<le> unat st"
      using w(2) assms(5) ne by (simp_all add: node_wf_def node_lo_def)
    then have "node_lo (last ns) < unat st - unat st mod 384"
      by (metis aligned_below add_leD1 le_add_diff_inverse less_add_same_cancel1)
    ultimately show ?thesis using lo by simp
  qed
  then show ?thesis
    using assms(1) wf e by (auto simp: units_ok_def nodes_wf_def sorted_wrt_append nodes_end_snoc)
qed

lemma last_unit_ok:
  assumes "units_ok hb ns" "ns \<noteq> []"
  shows "units_ok hb (butlast ns @ [(last ns)\<lparr>en_maps := (en_maps (last ns))[i := w]\<rparr>])"
  using assms
  by (cases ns rule: rev_cases) (auto simp: units_ok_def nodes_wf_def node_wf_def node_lo_def nodes_end_def sorted_wrt_append)

lemma read_unit_ok:
  assumes "units_ok hb ns" "384 dvd unat hb" "hb \<noteq> 0"
  shows "delivers (ebitmap_read_unit hb ns) (units_ok hb)"
  unfolding ebitmap_read_unit_def
proof (rule delivers_any, (rule delivers_check)+, rule delivers_bind)
  fix st assume st: "\<not> st > hb - 64"
  show "delivers
      (if ns = [] \<or> unat st \<ge> unat (en_startbit (last ns)) + 384
       then rd_bind rd_alloc (\<lambda>_. rd_return (ns @ [\<lparr>en_maps = replicate 6 0, en_startbit = st - st mod 384\<rparr>]))
       else if st \<le> en_startbit (last ns) then rd_fail EINVAL
       else rd_return ns) (\<lambda>ns. units_ok hb ns \<and> ns \<noteq> [])"
    using assms(1) new_node_ok [OF assms st] by (intro delivers_intros) auto
qed (auto intro!: delivers_intros last_unit_ok simp: Let_def)

lemma ebitmap_read_wf [delivers_intros]: "delivers ebitmap_read ebitmap_wf"
proof -
  have units: "delivers (rd_times n (ebitmap_read_unit (w - w mod 384)) []) (units_ok (w - w mod 384))" if "w - w mod 384 \<noteq> 0" for n w
    by (intro delivers_times read_unit_ok round384_dvd that) (simp add: units_ok_def nodes_end_def)
  have body: "delivers (if hb = 0 then rd_return \<lparr>eb_node = [], eb_highbit = 0\<rparr>
      else rd_bind (rd_check (count \<noteq> 0) EINVAL) (\<lambda>_. rd_bind (rd_times (unat count) (ebitmap_read_unit hb) []) (\<lambda>ns.
             rd_return \<lparr>eb_node = ns, eb_highbit = hb\<rparr>))) ebitmap_wf" if "hb = w - w mod 384" for w hb :: u32 and count :: u32
    using units [of w] that
    by (auto intro!: delivers_return delivers_check delivers_bind [where P = "units_ok hb"] simp: units_ok_def ebitmap_wf_def nodes_end_def)
  show ?thesis unfolding ebitmap_read_def Let_def by (intro delivers_any) (rule body, rule refl)
qed

section \<open>The units of a list of bits\<close>

text \<open>What the writing loop makes of bits in order: the unit it collects, and the units still to come.\<close>

fun collect_units :: "nat \<Rightarrow> u64 \<Rightarrow> nat list \<Rightarrow> (nat \<times> u64) list" where
  "collect_units q w [] = [(q, w)]"
| "collect_units q w (b # bits) =
     (if b div 64 > q then (q, w) # collect_units (b div 64) (push_bit (b mod 64) 1) bits
      else collect_units q (w OR push_bit (b mod 64) 1) bits)"

definition unit_bits :: "nat \<times> u64 \<Rightarrow> nat set" where
  "unit_bits u = {64 * fst u + j | j. bit (snd u) j}"

lemma bit_unit: "bit (2 ^ k :: u64) j \<longleftrightarrow> k = j \<and> j < 64"
  by (auto simp: bit_exp_iff)

lemma unit_bits_or: "unit_bits (q, w OR push_bit (b mod 64) 1) = insert (64 * q + b mod 64) (unit_bits (q, w))"
  by (auto simp: unit_bits_def bit_or_iff bit_unit)

lemma unit_bits_single: "unit_bits (b div 64, push_bit (b mod 64) 1) = {b}"
  by (auto simp: unit_bits_def bit_unit)

lemma unit_nonzero [simp]: "w OR (2 ^ (b mod 64) :: u64) \<noteq> 0" "(2 ^ (b mod 64) :: u64) \<noteq> 0"
proof -
  have "bit (w OR (2 ^ (b mod 64) :: u64)) (b mod 64)" "bit (2 ^ (b mod 64) :: u64) (b mod 64)" by (simp_all add: bit_or_iff bit_unit)
  then show "w OR (2 ^ (b mod 64) :: u64) \<noteq> 0" "(2 ^ (b mod 64) :: u64) \<noteq> 0" by auto
qed

text \<open>Units in order, none of them empty.\<close>

definition units_sorted :: "nat \<Rightarrow> (nat \<times> u64) list \<Rightarrow> bool" where
  "units_sorted q us \<longleftrightarrow> sorted_wrt (\<lambda>u v. fst u < fst v) us \<and> (\<forall>u \<in> set us. snd u \<noteq> 0 \<and> q \<le> fst u)"

lemma collect_units_ok:
  assumes "sorted bits" "\<forall>b \<in> set bits. q \<le> b div 64" "w \<noteq> 0"
  shows "units_sorted q (collect_units q w bits) \<and> \<Union> (unit_bits ` set (collect_units q w bits)) = unit_bits (q, w) \<union> set bits"
  using assms
proof (induction q w bits rule: collect_units.induct)
  case (1 q w)
  then show ?case by (simp add: units_sorted_def)
next
  case (2 q w b bits)
  have le: "\<forall>c \<in> set bits. b div 64 \<le> c div 64" using 2(3) by (simp add: div_le_mono)
  show ?case
  proof (cases "b div 64 > q")
    case True
    then have "units_sorted (b div 64) (collect_units (b div 64) (push_bit (b mod 64) 1) bits)"
        "\<Union> (unit_bits ` set (collect_units (b div 64) (push_bit (b mod 64) 1) bits)) = insert b (set bits)"
      using 2(1) 2(3) le unit_bits_single [of b] by simp_all
    then show ?thesis using True 2(5) by (force simp: units_sorted_def)
  next
    case False
    then have q: "b div 64 = q" using 2(4) by simp
    then have "64 * q + b mod 64 = b" by auto
    then show ?thesis using 2(2) 2(3) le False q unit_bits_or [of q w b] by simp
  qed
qed

lemma collect_units_ne [simp]: "collect_units q w bits \<noteq> []"
  by (induction q w bits rule: collect_units.induct) simp_all

lemma last_collect_units: "sorted bits \<Longrightarrow> \<forall>b \<in> set bits. q \<le> b div 64 \<Longrightarrow>
    fst (last (collect_units q w bits)) = (if bits = [] then q else last bits div 64)"
proof (induction q w bits rule: collect_units.induct)
  case (2 q w b bits)
  have le: "\<forall>c \<in> set bits. b div 64 \<le> c div 64" using 2(3) by (simp add: div_le_mono)
  show ?case using 2 le by (auto simp: not_less)
qed simp

section \<open>The writer\<close>

definition unit_bytes :: "nat \<times> u64 \<Rightarrow> u8 list" where
  "unit_bytes u = le_bytes 4 (of_nat (64 * fst u) :: u32) @ le_bytes 8 (snd u)"

lemma round_nat:
  "rounddown_int (int b) = int (64 * (b div 64))" "rounddown_size (int b) = int (64 * (b div 64))"
  "roundup_size (int b + 1) = int (64 * (b div 64) + 64)"
proof -
  have d: "int b - int b mod 64 = int (64 * (b div 64))" by (simp add: minus_mod_eq_mult_div zdiv_int)
  then show "rounddown_size (int b) = int (64 * (b div 64))" by (simp add: rounddown_size_def)
  show "rounddown_int (int b) = int (64 * (b div 64))" using d by (cases "b = 0") (simp_all add: rounddown_int_def)
  have "(int b + 64) div 64 = int (b div 64) + 1" by (simp add: zdiv_int)
  then show "roundup_size (int b + 1) = int (64 * (b div 64) + 64)" by (simp add: roundup_size_def add.commute)
qed

lemma shift_nat: "nat (int b - 64 * int (b div 64)) = b mod 64"
  by (simp add: zdiv_int minus_mult_div_eq_mod nat_mod_distrib)

lemma writes_unit: "writes (put_unit (64 * int q) w) (unit_bytes (q, w))"
  using writes_seq [OF writes_le32s [of "[word_of_int (64 * int q)]"] writes_le64] by (simp add: put_unit_def unit_bytes_def)

lemma writes_units:
  assumes "w \<noteq> 0" "sorted bits" "\<forall>b \<in> set bits. q \<le> b div 64"
  shows "writes (ebitmap_write_units (map int bits) w (int (64 * q))) (concat (map unit_bytes (collect_units q w bits)))"
  using assms
proof (induction q w bits rule: collect_units.induct)
  case (1 q w)
  then show ?case by (simp add: writes_unit)
next
  case (2 q w b bits)
  have le: "\<forall>c \<in> set bits. b div 64 \<le> c div 64" using 2(4) by (simp add: div_le_mono)
  show ?case
  proof (cases "b div 64 > q")
    case True
    have "writes (ebitmap_write_units (map int bits) (push_bit (b mod 64) 1) (int (64 * (b div 64))))
        (concat (map unit_bytes (collect_units (b div 64) (push_bit (b mod 64) 1) bits)))"
      using 2(1) [OF True] 2(4) le by simp
    from writes_seq [OF writes_unit [of q w] this] show ?thesis
      using True 2(3) by (simp add: round_nat shift_nat)
  next
    case False
    then have q: "b div 64 = q" using 2(5) by simp
    then have "nat (int b - 64 * int q) = b mod 64" using shift_nat [of b] by simp
    then show ?thesis using 2(2) 2(4) le False q by (simp add: round_nat)
  qed
qed

lemma of_nat_pred: "0 < k \<Longrightarrow> 1 + of_nat (k - Suc 0) = (of_nat k :: u32)"
  by (cases k) simp_all

lemma count_units:
  assumes "sorted bits" "\<forall>b \<in> set bits. q \<le> b div 64"
  shows "ebitmap_count_units (map int bits) c lb (64 * int q) =
    (c + of_nat (length (collect_units q w bits) - 1), if bits = [] then lb else int (64 * (last bits div 64) + 64))"
  using assms
proof (induction q w bits arbitrary: c lb rule: collect_units.induct)
  case (2 q w b bits)
  have le: "\<forall>c \<in> set bits. b div 64 \<le> c div 64" using 2(3) by (simp add: div_le_mono)
  have pos: "0 < length (collect_units q' w' bits)" for q' w' by simp
  show ?case
  proof (cases "b div 64 > q")
    case True
    then show ?thesis
      using 2(1) [OF True, of "c + 1" "int (64 * (b div 64) + 64)"] 2(3) le pos [of "b div 64" "2 ^ (b mod 64)"]
      by (auto simp: round_nat of_nat_diff)
  next
    case False
    then have "b div 64 = q" using 2(4) by simp
    then show ?thesis using 2(2) [of c "int (64 * (b div 64) + 64)"] 2(3) le by (auto simp: round_nat)
  qed
qed simp

definition header_bytes :: "nat \<Rightarrow> nat \<Rightarrow> u8 list" where
  "header_bytes last_bit count = concat (map (le_bytes 4) [64 :: u32, of_nat last_bit, of_nat count])"

lemma positive_bits_int:
  assumes "ebitmap_wf e" "nodes_end (eb_node e) \<le> 2 ^ 31"
  shows "map sint (ebitmap_positive_bits e) = map int (sorted_list_of_set (ebitmap_bits e))"
proof -
  have "sint b = int (unat b)" if "b \<in> set (ebitmap_positive_bits e)" for b
  proof -
    have "unat b \<in> ebitmap_bits e" using positive_bits_set [OF assms(1)] that by blast
    then have "unat b < 2 ^ 31" using nodes_end_bound [of "eb_node e"] assms by (fastforce simp: ebitmap_bits_def ebitmap_wf_def)
    then show ?thesis by (rule sint_small)
  qed
  then show ?thesis unfolding ebitmap_positive_bits_correct [OF assms(1), symmetric] by simp
qed

lemma ebitmap_write_bytes:
  assumes "ebitmap_wf e" "nodes_end (eb_node e) \<le> 2 ^ 31"
  shows "writes (ebitmap_write e)
    (case sorted_list_of_set (ebitmap_bits e) of
       [] \<Rightarrow> header_bytes 0 0
     | b # bits \<Rightarrow>
         (let us = collect_units (b div 64) (push_bit (b mod 64) 1) bits
          in header_bytes (64 * (last (b # bits) div 64) + 64) (length us) @ concat (map unit_bytes us)))"
proof (cases "sorted_list_of_set (ebitmap_bits e)")
  case Nil
  then show ?thesis
    using positive_bits_int [OF assms] writes_seq [OF writes_le32s [of "[64, 0, 0]"] writes_skip] by (simp add: ebitmap_write_def header_bytes_def)
next
  case (Cons b bits)
  let ?us = "collect_units (b div 64) (push_bit (b mod 64) 1) bits"
  have srt: "sorted bits" "\<forall>c \<in> set bits. b div 64 \<le> c div 64"
    using sorted_sorted_list_of_set [of "ebitmap_bits e"] Cons by (auto simp: div_le_mono)
  have "ebitmap_count_units (map int (b # bits)) 0 0 (-1) = (of_nat (length ?us), int (64 * (last (b # bits) div 64) + 64))"
    using count_units [OF srt, of 1 "int (64 * (b div 64) + 64)" "push_bit (b mod 64) 1"] of_nat_pred [of "length ?us"]
    by (auto simp: round_nat)
  moreover have "ebitmap_write_units (map int (b # bits)) 0 (- (2 ^ 31)) = ebitmap_write_units (map int bits) (push_bit (b mod 64) 1) (int (64 * (b div 64)))"
    by (simp add: round_nat shift_nat)
  ultimately show ?thesis
    using writes_seq [OF writes_le32s [of "[64, of_nat (64 * (last (b # bits) div 64) + 64), of_nat (length ?us)]"] writes_units [OF _ srt, of "push_bit (b mod 64) 1"]]
    by (simp add: ebitmap_write_def positive_bits_int [OF assms] Cons header_bytes_def Let_def)
qed

section \<open>The reader on units\<close>

text \<open>
  What the loop has built from the units read so far: the bits of these units, all of them in units before
  the next one.
\<close>

definition built :: "u32 \<Rightarrow> ebitmap_node list \<Rightarrow> nat \<Rightarrow> nat set \<Rightarrow> bool" where
  "built hb ns q B \<longleftrightarrow> units_ok hb ns \<and> nodes_bits ns = B \<and> (\<forall>n \<in> set ns. node_bits n \<noteq> {}) \<and> (\<forall>b \<in> B. b div 64 < q)"

lemma node_set_unit:
  assumes "node_wf n" "i < 6" "\<forall>b \<in> node_bits n. b < node_lo n + 64 * i"
  shows "node_bits (n\<lparr>en_maps := (en_maps n)[i := w]\<rparr>) = node_bits n \<union> {node_lo n + 64 * i + j | j. bit w j}"
proof -
  let ?n = "n\<lparr>en_maps := (en_maps n)[i := w]\<rparr>"
  have len: "length (en_maps n) = 6" using assms(1) by (simp add: node_wf_def)
  have lo: "node_lo ?n = node_lo n" by (simp add: node_lo_def)
  have mb: "map_bit (en_maps ?n) k \<longleftrightarrow> (if k div 64 = i then bit w (k mod 64) else map_bit (en_maps n) k)" for k
    using len assms(2) by (auto simp: map_bit_def)
  have old: "map_bit (en_maps n) k \<Longrightarrow> k < 384 \<Longrightarrow> k < 64 * i" for k
    using assms(3) [rule_format, of "node_lo n + k"] by (simp add: node_bits_def)
  have new: "bit w j \<Longrightarrow> j < 64" for j using bit_imp_le_length [of w j] by simp
  show ?thesis
  proof (intro set_eqI iffI)
    fix b assume "b \<in> node_bits ?n"
    then have b: "node_lo n \<le> b" "b < node_lo n + 384" "map_bit (en_maps ?n) (b - node_lo n)" by (simp_all add: node_bits_def lo)
    show "b \<in> node_bits n \<union> {node_lo n + 64 * i + j | j. bit w j}"
    proof (cases "(b - node_lo n) div 64 = i")
      case True
      have "b = node_lo n + 64 * i + (b - node_lo n) mod 64" using b(1) True by auto
      moreover have "bit w ((b - node_lo n) mod 64)" using b(3) True mb by simp
      ultimately show ?thesis by blast
    next
      case False
      then show ?thesis using b mb by (simp add: node_bits_def)
    qed
  next
    fix b assume "b \<in> node_bits n \<union> {node_lo n + 64 * i + j | j. bit w j}"
    then show "b \<in> node_bits ?n"
    proof
      assume b: "b \<in> node_bits n"
      then have "map_bit (en_maps n) (b - node_lo n)" "b - node_lo n < 384" by (auto simp: node_bits_def)
      then have "b - node_lo n < 64 * i" by (rule old)
      then have "(b - node_lo n) div 64 \<noteq> i" by (metis div_mult_self1_is_m less_mult_imp_div_less mult.commute order_less_irrefl)
      then show ?thesis using b mb by (simp add: node_bits_def lo)
    next
      assume "b \<in> {node_lo n + 64 * i + j | j. bit w j}"
      then obtain j where j: "b = node_lo n + 64 * i + j" "bit w j" by blast
      then show ?thesis using new [OF j(2)] assms(2) mb by (simp add: node_bits_def lo)
    qed
  qed
qed

text \<open>The node a unit goes to, and what becomes of the nodes.\<close>

lemma last_node_bits:
  assumes "nodes_wf ns" "ns \<noteq> []"
  shows "nodes_bits ns = nodes_bits (butlast ns) \<union> node_bits (last ns)" "\<forall>b \<in> nodes_bits (butlast ns). b < node_lo (last ns)"
proof -
  obtain xs n where ns: "ns = xs @ [n]" using assms(2) by (cases ns rule: rev_cases) auto
  show "nodes_bits ns = nodes_bits (butlast ns) \<union> node_bits (last ns)" by (simp add: ns)
  have "\<forall>x \<in> set xs. node_lo x + 384 \<le> node_lo n"
    using assms(1) by (auto simp: ns nodes_wf_def sorted_wrt_append intro!: node_wf_gap)
  then show "\<forall>b \<in> nodes_bits (butlast ns). b < node_lo (last ns)" by (fastforce simp: ns nodes_bits_def node_bits_def)
qed

lemma set_unit_built:
  assumes "units_ok hb ns" "ns \<noteq> []" "nodes_bits ns = B" "\<forall>n \<in> set (butlast ns). node_bits n \<noteq> {}" "\<forall>b \<in> B. b div 64 < q"
    and "node_lo (last ns) \<le> 64 * q" "64 * q < node_lo (last ns) + 384" "w \<noteq> 0"
  shows "built hb (butlast ns @ [(last ns)\<lparr>en_maps := (en_maps (last ns))[(64 * q - node_lo (last ns)) div 64 := w]\<rparr>]) (Suc q) (B \<union> unit_bits (q, w))"
proof -
  let ?n = "last ns" and ?i = "(64 * q - node_lo (last ns)) div 64"
  have wf: "nodes_wf ns" "node_wf ?n" using assms(1,2) by (auto simp: units_ok_def nodes_wf_def)
  then obtain a where a: "node_lo ?n = 64 * (6 * a)" by (auto simp: node_wf_def elim!: dvdE)
  then have i: "node_lo ?n + 64 * ?i = 64 * q" "?i < 6" using assms(6,7) by auto
  have "\<forall>b \<in> node_bits ?n. b < node_lo ?n + 64 * ?i"
    using assms(3,5) last_node_bits(1) [OF wf(1) assms(2)] i(1) by (auto simp: div_less_iff_less_mult mult.commute)
  from node_set_unit [OF wf(2) i(2) this] have nb: "node_bits (?n\<lparr>en_maps := (en_maps ?n)[?i := w]\<rparr>) = node_bits ?n \<union> unit_bits (q, w)"
    using i(1) by (simp add: unit_bits_def)
  have "unit_bits (q, w) \<noteq> {}" using u64_nonzero_bit [OF assms(8)] by (auto simp: unit_bits_def)
  moreover have "b div 64 = q" if "b \<in> unit_bits (q, w)" for b using that bit_imp_le_length [of w] by (auto simp: unit_bits_def)
  ultimately show ?thesis
    using nb last_node_bits(1) [OF wf(1) assms(2)] assms(3-5) last_unit_ok [OF assms(1,2)]
    by (auto simp: built_def less_Suc_eq)
qed

lemma unit_words:
  assumes "384 dvd unat hb" "hb \<noteq> 0" "64 * q + 64 \<le> unat hb"
  shows "unat (of_nat (64 * q) :: u32) = 64 * q" "(of_nat (64 * q) :: u32) AND (64 - 1) = 0" "\<not> (of_nat (64 * q) :: u32) > hb - 64"
proof -
  have "64 * q < 4294967296" using assms(3) unat_u32_bound [of hb] by linarith
  then show u: "unat (of_nat (64 * q) :: u32) = 64 * q" by (intro unat_u32_of_nat) simp
  have "unat (hb - 64) = unat hb - 64" using assms(3) by (simp add: unat_sub word_le_nat_alt)
  then show "\<not> (of_nat (64 * q) :: u32) > hb - 64" unfolding word_less_nat_alt u using assms(3) by simp
  have "(of_nat (64 * q) :: u32) = push_bit 6 (of_nat q)" "(64 - 1 :: u32) = mask 6" by (simp_all add: push_bit_eq_mult mask_eq_exp_minus_1)
  then show "(of_nat (64 * q) :: u32) AND (64 - 1) = 0"
    by (simp only: take_bit_eq_mask [symmetric] take_bit_push_bit) (simp add: take_bit_0)
qed

lemma accepts_unit:
  assumes "built hb ns q0 B" "q0 \<le> q" "384 dvd unat hb" "hb \<noteq> 0" "64 * q + 64 \<le> unat hb" "w \<noteq> 0"
  shows "\<exists>ns'. accepts (ebitmap_read_unit hb ns) (unit_bytes (q, w)) ns' \<and> built hb ns' (Suc q) (B \<union> unit_bits (q, w))"
proof -
  let ?st = "of_nat (64 * q) :: u32"
  note st = unit_words [OF assms(3-5)]
  have b: "units_ok hb ns" "nodes_bits ns = B" "\<forall>n \<in> set ns. node_bits n \<noteq> {}" "\<forall>b \<in> B. b div 64 < q"
    using assms(1,2) by (auto simp: built_def)
  define ns1 where "ns1 = (if ns = [] \<or> unat ?st \<ge> unat (en_startbit (last ns)) + 384
    then ns @ [\<lparr>en_maps = replicate 6 0, en_startbit = ?st - ?st mod 384\<rparr>] else ns)"
  have later: "node_lo (last ns) < 64 * q" if ne: "ns \<noteq> []"
  proof -
    obtain c where c: "c \<in> node_bits (last ns)" using b(3) last_in_set [OF ne] by auto
    then have "c div 64 < q" using b(2,4) last_in_set [OF ne] by (auto simp: nodes_bits_def)
    then have "c < 64 * q" by (simp add: div_less_iff_less_mult mult.commute)
    moreover have "node_lo (last ns) \<le> c" using c by (simp add: node_bits_def)
    ultimately show ?thesis by simp
  qed
  have lo: "node_lo \<lparr>en_maps = replicate 6 0, en_startbit = ?st - ?st mod 384\<rparr> = 64 * q - 64 * q mod 384"
    unfolding node_lo_def by (simp only: ebitmap_node.simps unat_round384 st(1))
  have "node_bits \<lparr>en_maps = replicate 6 0, en_startbit = ?st - ?st mod 384\<rparr> = {}" by (simp add: node_bits_def)
  then have one: "units_ok hb ns1" "ns1 \<noteq> []" "nodes_bits ns1 = B" "\<forall>n \<in> set (butlast ns1). node_bits n \<noteq> {}"
      "node_lo (last ns1) \<le> 64 * q" "64 * q < node_lo (last ns1) + 384"
    using b(1-3) new_node_ok [OF b(1) assms(3,4) st(3)] lo later in_set_butlastD [of _ ns]
    by (auto simp: ns1_def node_lo_def st(1) not_le less_imp_le simp del: of_nat_mult split: if_splits)
  let ?ns = "butlast ns1 @ [(last ns1)\<lparr>en_maps := (en_maps (last ns1))[(64 * q - node_lo (last ns1)) div 64 := w]\<rparr>]"
  have "unat (?st - en_startbit (last ns1)) = 64 * q - node_lo (last ns1)"
    using one(5) st(1) by (simp add: unat_sub node_lo_def word_le_nat_alt del: of_nat_mult)
  moreover have "accepts (if ns = [] \<or> unat ?st \<ge> unat (en_startbit (last ns)) + 384
       then rd_bind rd_alloc (\<lambda>_. rd_return (ns @ [\<lparr>en_maps = replicate 6 0, en_startbit = ?st - ?st mod 384\<rparr>]))
       else if ?st \<le> en_startbit (last ns) then rd_fail EINVAL else rd_return ns) [] ns1"
    using later st(1) by (auto simp: ns1_def word_le_nat_alt node_lo_def intro!: accepts_alloc accepts_return simp del: of_nat_mult)
  ultimately have "accepts (ebitmap_read_unit hb ns) (le_bytes 4 ?st @ [] @ le_bytes 8 w @ []) ?ns"
    unfolding ebitmap_read_unit_def using assms(6) st(2,3)
    by (intro accepts_bind [OF accepts_le32] accepts_check accepts_bind [OF _ accepts_bind [OF accepts_le64]]) (auto simp: Let_def accepts_return simp del: of_nat_mult)
  moreover have "built hb ?ns (Suc q) (B \<union> unit_bits (q, w))" by (rule set_unit_built [OF one(1-4) b(4) one(5,6) assms(6)])
  ultimately show ?thesis by (auto simp: unit_bytes_def)
qed

lemma accepts_units:
  assumes "units_sorted q us" "built hb ns q B" "384 dvd unat hb" "hb \<noteq> 0" "\<forall>u \<in> set us. 64 * fst u + 64 \<le> unat hb"
  shows "\<exists>ns' q'. accepts (rd_times (length us) (ebitmap_read_unit hb) ns) (concat (map unit_bytes us)) ns' \<and>
    built hb ns' q' (B \<union> \<Union> (unit_bits ` set us))"
  using assms(1,2,5)
proof (induction us arbitrary: q ns B)
  case Nil
  then show ?case by (auto intro: accepts_return)
next
  case (Cons u us)
  obtain k w where u: "u = (k, w)" by (cases u)
  have k: "q \<le> k" "w \<noteq> 0" "64 * k + 64 \<le> unat hb" "units_sorted (Suc k) us" using Cons.prems by (auto simp: units_sorted_def u)
  obtain ns1 where 1: "accepts (ebitmap_read_unit hb ns) (unit_bytes u) ns1" "built hb ns1 (Suc k) (B \<union> unit_bits u)"
    using accepts_unit [OF Cons.prems(2) k(1) assms(3,4) k(3,2)] unfolding u by blast
  obtain ns' q' where 2: "accepts (rd_times (length us) (ebitmap_read_unit hb) ns1) (concat (map unit_bytes us)) ns'"
      "built hb ns' q' (B \<union> unit_bits u \<union> \<Union> (unit_bits ` set us))"
    using Cons.IH [OF k(4) 1(2)] Cons.prems(3) by auto
  have "accepts (rd_times (length (u # us)) (ebitmap_read_unit hb) ns) (concat (map unit_bytes (u # us))) ns'"
    using accepts_bind [OF 1(1), of "rd_times (length us) (ebitmap_read_unit hb)"] 2(1) by simp
  then show ?case using 2(2) by (auto simp: Un_assoc)
qed

section \<open>A bitmap is read back\<close>

text \<open>The high bit that the reader rounds up is the end of the last node.\<close>

lemma nodes_end_round:
  assumes "nodes_wf ns" "ns \<noteq> []" "node_bits (last ns) \<noteq> {}" "m \<in> nodes_bits ns" "\<forall>b \<in> nodes_bits ns. b \<le> m"
  shows "(64 * (m div 64) + 64 + 383) - (64 * (m div 64) + 64 + 383) mod 384 = nodes_end ns"
proof -
  obtain b where b: "b \<in> node_bits (last ns)" using assms(3) by blast
  have "384 dvd node_lo (last ns)" using assms(1,2) by (auto simp: nodes_wf_def node_wf_def)
  then obtain a where a: "node_lo (last ns) = 384 * a" by (auto elim!: dvdE)
  have "b \<in> nodes_bits ns" using b assms(2) by (auto simp: nodes_bits_def)
  then have "384 * a \<le> m" using b assms(5) a by (fastforce simp: node_bits_def)
  moreover have "m < 384 * a + 384" using nodes_end_bound [OF assms(1,4)] assms(2) a by (simp add: nodes_end_def)
  ultimately have "6 * a \<le> m div 64" "m div 64 < 6 * a + 6" by auto
  then have "(64 * (m div 64) + 64 + 383) div 384 = a + 1" by (intro div_nat_eqI) simp_all
  then show ?thesis using assms(2) a by (simp add: minus_mod_eq_mult_div nodes_end_def)
qed

lemma roundup_ge: "n \<le> n + 383 - (n + 383) mod 384" for n :: nat
  using mod_less_divisor [of 384 "n + 383"] by linarith

lemma roundup384:
  fixes n :: nat
  assumes "n + 383 < 2 ^ 32"
  shows "unat ((of_nat n + 383) - (of_nat n + 383) mod 384 :: u32) = n + 383 - (n + 383) mod 384"
proof -
  have "unat (of_nat n + 383 :: u32) = n + 383" using unat_u32_of_nat [OF assms] by simp
  then show ?thesis by (simp only: unat_round384)
qed

lemma accepts_header:
  "accepts (next_le32s 3) (header_bytes lb n) [64, of_nat lb, of_nat n]"
  using accepts_le32s [of "[64, of_nat lb, of_nat n]"] by (simp add: header_bytes_def numeral_3_eq_3)

lemma accepts_ebitmap:
  assumes "units_sorted 0 us" "us \<noteq> []" "hb = (of_nat lb + 383) - (of_nat lb + 383) mod 384" "hb \<noteq> 0"
    and "\<forall>u \<in> set us. 64 * fst u + 64 \<le> unat hb" "length us < 2 ^ 32"
  shows "\<exists>ns q. accepts ebitmap_read (header_bytes lb (length us) @ concat (map unit_bytes us)) \<lparr>eb_node = ns, eb_highbit = hb\<rparr> \<and>
    built hb ns q (\<Union> (unit_bits ` set us))"
proof -
  have dvd: "384 dvd unat hb" unfolding assms(3) by (rule round384_dvd)
  have "built hb [] 0 {}" by (simp add: built_def units_ok_def nodes_end_def)
  then obtain ns q where ns: "accepts (rd_times (length us) (ebitmap_read_unit hb) []) (concat (map unit_bytes us)) ns"
      "built hb ns q (\<Union> (unit_bits ` set us))"
    using accepts_units [OF assms(1) _ dvd assms(4,5)] by (metis Un_empty_left)
  have len: "unat (of_nat (length us) :: u32) = length us" by (rule unat_u32_of_nat [OF assms(6)])
  then have "(of_nat (length us) :: u32) \<noteq> 0" using assms(2) by (metis length_0_conv unat_0)
  moreover have hb: "of_nat lb + 383 - (of_nat lb + 383) mod 384 = hb" using assms(3) by simp
  moreover have "accepts (rd_bind (rd_times (length us) (ebitmap_read_unit hb) []) (\<lambda>ns. rd_return \<lparr>eb_node = ns, eb_highbit = hb\<rparr>))
      (concat (map unit_bytes us)) \<lparr>eb_node = ns, eb_highbit = hb\<rparr>"
    using accepts_bind [OF ns(1) accepts_return, of "\<lambda>ns. \<lparr>eb_node = ns, eb_highbit = hb\<rparr>"] by simp
  ultimately have "accepts ebitmap_read (header_bytes lb (length us) @ concat (map unit_bytes us)) \<lparr>eb_node = ns, eb_highbit = hb\<rparr>"
    unfolding ebitmap_read_def Let_def using assms(4) len
    by (intro accepts_bind [OF accepts_header]) (simp add: numeral_2_eq_2 accepts_check)
  then show ?thesis using ns(2) by auto
qed

lemma sorted_le_last: "sorted xs \<Longrightarrow> c \<in> set xs \<Longrightarrow> c \<le> last xs"
  by (cases xs rule: rev_cases) (auto simp: sorted_append)

lemma units_below:
  assumes "units_sorted q us" "us \<noteq> []" "u \<in> set us"
  shows "fst u \<le> fst (last us)" "length us \<le> Suc (fst (last us))"
proof -
  obtain xs x where us: "us = xs @ [x]" using assms(2) by (cases us rule: rev_cases) auto
  have le: "fst v \<le> fst (last us)" if "v \<in> set us" for v
    using assms(1) that by (auto simp: us units_sorted_def sorted_wrt_append intro: less_imp_le)
  then show "fst u \<le> fst (last us)" using assms(3) by blast
  have "sorted_wrt (<) (map fst us)" using assms(1) by (simp add: units_sorted_def sorted_wrt_map)
  then have "distinct (map fst us)" by (simp add: strict_sorted_iff)
  then have "length us = card (fst ` set us)" by (metis distinct_card length_map list.set_map)
  also have "\<dots> \<le> card {..fst (last us)}" using le by (intro card_mono) auto
  finally show "length us \<le> Suc (fst (last us))" by simp
qed

lemma nonempty_bits_read:
  assumes "nodes_wf (eb_node e)" "nodes_end (eb_node e) \<le> 2 ^ 31" "unat (eb_highbit e) = nodes_end (eb_node e)"
    and "\<forall>n \<in> set (eb_node e). node_bits n \<noteq> {}" "sorted_list_of_set (ebitmap_bits e) = b # bits"
  defines "us \<equiv> collect_units (b div 64) (push_bit (b mod 64) 1) bits" and "m \<equiv> last (b # bits)"
  shows "accepts ebitmap_read (header_bytes (64 * (m div 64) + 64) (length us) @ concat (map unit_bytes us)) e"
proof -
  let ?hb = "(of_nat (64 * (m div 64) + 64) + 383) - (of_nat (64 * (m div 64) + 64) + 383) mod 384 :: u32"
  have B: "set (b # bits) = nodes_bits (eb_node e)" "sorted (b # bits)"
    using assms(5) sorted_list_of_set [of "ebitmap_bits e"] by (auto simp: ebitmap_bits_def)
  have m: "m \<in> nodes_bits (eb_node e)" "\<forall>c \<in> nodes_bits (eb_node e). c \<le> m"
    using last_in_set [of "b # bits"] sorted_le_last [OF B(2)] unfolding m_def by (simp_all add: B(1) [symmetric])
  have le: "\<forall>c \<in> set bits. b div 64 \<le> c div 64" using B(2) by (simp add: div_le_mono)
  have us: "units_sorted 0 us" "\<Union> (unit_bits ` set us) = nodes_bits (eb_node e)" "fst (last us) = m div 64" "us \<noteq> []"
    using collect_units_ok [OF _ le, of "push_bit (b mod 64) 1"] last_collect_units [OF _ le, of "push_bit (b mod 64) 1"] B unit_bits_single [of b]
    unfolding us_def m_def by (auto simp: units_sorted_def)
  have ne: "eb_node e \<noteq> []" using m(1) by auto
  have rnd: "(64 * (m div 64) + 64 + 383) - (64 * (m div 64) + 64 + 383) mod 384 = nodes_end (eb_node e)"
    by (rule nodes_end_round [OF assms(1) ne _ m]) (use assms(4) ne in simp)
  have bound: "64 * (m div 64) + 64 \<le> nodes_end (eb_node e)" unfolding rnd [symmetric] by (rule roundup_ge)
  have room: "64 * (m div 64) + 64 + 383 < 2 ^ 32" using order_trans [OF bound assms(2)] by simp
  have hb: "?hb = eb_highbit e" using roundup384 [OF room] assms(3) rnd by (simp only: word_unat_eq_iff)
  have "unat (eb_highbit e) \<noteq> 0" using assms(3) ne by (simp add: nodes_end_def)
  then have "eb_highbit e \<noteq> 0" by auto
  moreover have "64 * fst u + 64 \<le> unat (eb_highbit e)" if "u \<in> set us" for u
    using units_below(1) [OF us(1,4) that] us(3) bound assms(3) by linarith
  moreover have "length us \<le> Suc (m div 64)" using units_below(2) [OF us(1,4) last_in_set [OF us(4)]] us(3) by simp
  then have "length us < 2 ^ 32" using room by simp
  ultimately obtain ns q where ns: "built (eb_highbit e) ns q (nodes_bits (eb_node e))"
      "accepts ebitmap_read (header_bytes (64 * (m div 64) + 64) (length us) @ concat (map unit_bytes us)) \<lparr>eb_node = ns, eb_highbit = eb_highbit e\<rparr>"
    using accepts_ebitmap [OF us(1,4) hb [symmetric]] us(2) by auto
  then have "ns = eb_node e" using assms(1,4) by (intro nodes_bits_inject) (auto simp: built_def units_ok_def)
  then have "\<lparr>eb_node = ns, eb_highbit = eb_highbit e\<rparr> = e" by (cases e) simp
  then show ?thesis using ns(2) by (simp only:)
qed

lemma accepts_ebitmap_write:
  assumes "ebitmap_canon e" "unat (eb_highbit e) \<le> 2 ^ 31"
  shows "\<exists>bs. writes (ebitmap_write e) bs \<and> accepts ebitmap_read bs e"
proof -
  have wf: "ebitmap_wf e" "nodes_wf (eb_node e)" "nodes_end (eb_node e) \<le> 2 ^ 31" "unat (eb_highbit e) = nodes_end (eb_node e)"
      "\<forall>n \<in> set (eb_node e). node_bits n \<noteq> {}"
    using assms ebitmap_canon_wf by (auto simp: ebitmap_canon_def)
  show ?thesis
  proof (cases "sorted_list_of_set (ebitmap_bits e)")
    case Nil
    then have "nodes_bits (eb_node e) = {}" using sorted_list_of_set_eq_Nil_iff by (auto simp: ebitmap_bits_def)
    then have "eb_node e = []" using wf(5) by (cases "eb_node e") (auto simp: nodes_bits_def)
    then have e: "e = ebitmap_init" using wf(4) by (cases e) (simp add: ebitmap_init_def nodes_end_def unat_eq_0)
    have "accepts ebitmap_read (header_bytes 0 0 @ []) e"
      unfolding ebitmap_read_def Let_def by (rule accepts_bind [OF accepts_header]) (auto simp: e ebitmap_init_def intro!: accepts_check accepts_return)
    then show ?thesis using ebitmap_write_bytes [OF wf(1,3)] Nil by auto
  next
    case (Cons b bits)
    show ?thesis using ebitmap_write_bytes [OF wf(1,3)] nonempty_bits_read [OF wf(2-5) Cons] unfolding Cons Let_def list.case by blast
  qed
qed

section \<open>Properties\<close>

text \<open>
  A bitmap that is written to a policy image is read back as it was, bit by bit and node by node, from
  exactly the bytes that were written, whatever follows them.
\<close>

lemma ebitmap_write_read:
  assumes "ebitmap_canon e" "unat (eb_highbit e) \<le> 2 ^ 31"
  shows "\<exists>bs. (\<forall>out len. length bs \<le> len \<longrightarrow> ebitmap_write e (out, len) = (OK, out @ bs, len - length bs)) \<and>
    (\<forall>rest m. ample m \<longrightarrow> (\<exists>m'. ebitmap_read (bs @ rest, m) = Inr (e, rest, m')))"
  using accepts_ebitmap_write [OF assms] unfolding writes_def accepts_def by blast

end
