(* ===== verification/Policy_Read.thy ===== *)
theory Policy_Read
  imports Cond_Image Ebitmap_Image Constraint Mls
begin

text \<open>
  The reader of a binary policy (\<open>policydb_read\<close> of \<open>ss/policydb.c\<close> and the functions it calls): symbols,
  rules, labels of objects, and the checks that an image has to pass before it becomes a policy.

  What comes from elsewhere is in \<open>image_env\<close>: the allocator's \<open>get_order\<close> and its limit, the hash of one
  character of a file name, the magic number of the file system (\<open>SELINUX_MAGIC\<close>), and what the stack
  holds where the oldest format leaves a buffer unset. A null pointer that the code would dereference is
  \<open>None\<close> as the result of \<open>policydb_read\<close>.
\<close>

record image_env =
  env_stack :: "nat \<Rightarrow> u32 list"
  env_get_order :: "nat \<Rightarrow> nat"
  env_MAX_ORDER :: nat
  env_partial_name_hash :: "u8 \<Rightarrow> u64 \<Rightarrow> u64"
  env_MAGIC :: u32

abbreviation POLICYDB_VERSION_BASE :: u32 where "POLICYDB_VERSION_BASE \<equiv> 15"
abbreviation POLICYDB_VERSION_BOOL :: u32 where "POLICYDB_VERSION_BOOL \<equiv> 16"
abbreviation POLICYDB_VERSION_IPV6 :: u32 where "POLICYDB_VERSION_IPV6 \<equiv> 17"
abbreviation POLICYDB_VERSION_VALIDATETRANS :: u32 where "POLICYDB_VERSION_VALIDATETRANS \<equiv> 19"
abbreviation POLICYDB_VERSION_MLS :: u32 where "POLICYDB_VERSION_MLS \<equiv> 19"
abbreviation POLICYDB_VERSION_RANGETRANS :: u32 where "POLICYDB_VERSION_RANGETRANS \<equiv> 21"
abbreviation POLICYDB_VERSION_POLCAP :: u32 where "POLICYDB_VERSION_POLCAP \<equiv> 22"
abbreviation POLICYDB_VERSION_PERMISSIVE :: u32 where "POLICYDB_VERSION_PERMISSIVE \<equiv> 23"
abbreviation POLICYDB_VERSION_FILENAME_TRANS :: u32 where "POLICYDB_VERSION_FILENAME_TRANS \<equiv> 25"
abbreviation POLICYDB_VERSION_ROLETRANS :: u32 where "POLICYDB_VERSION_ROLETRANS \<equiv> 26"
abbreviation POLICYDB_VERSION_NEW_OBJECT_DEFAULTS :: u32 where "POLICYDB_VERSION_NEW_OBJECT_DEFAULTS \<equiv> 27"
abbreviation POLICYDB_VERSION_DEFAULT_TYPE :: u32 where "POLICYDB_VERSION_DEFAULT_TYPE \<equiv> 28"
abbreviation POLICYDB_VERSION_CONSTRAINT_NAMES :: u32 where "POLICYDB_VERSION_CONSTRAINT_NAMES \<equiv> 29"
abbreviation POLICYDB_VERSION_INFINIBAND :: u32 where "POLICYDB_VERSION_INFINIBAND \<equiv> 31"
abbreviation POLICYDB_VERSION_COMP_FTRANS :: u32 where "POLICYDB_VERSION_COMP_FTRANS \<equiv> 33"

section \<open>Levels and contexts\<close>

text \<open>
  When the image announces no item, the buffer still holds this number, zero, and the low sensitivity
  is zero.
\<close>

definition mls_read_range_helper :: "mls_range reader" where
  "mls_read_range_helper =
     rd_bind next_le32 (\<lambda>items.
     rd_bind (rd_check (\<not> items > 2) EINVAL) (\<lambda>_.
     rd_bind (next_le32s (unat items)) (\<lambda>ws.
     let buf = ws @ drop (length ws) [items, 0]; sens0 = buf ! 0; sens1 = (if items > 1 then buf ! 1 else sens0) in
     rd_bind ebitmap_read (\<lambda>cat0.
     rd_bind (if items > 1 then ebitmap_read else rd_step (ebitmap_cpy cat0)) (\<lambda>cat1.
     rd_return \<lparr>level0 = \<lparr>lvl_sens = sens0, lvl_cat = cat0\<rparr>, level1 = \<lparr>lvl_sens = sens1, lvl_cat = cat1\<rparr>\<rparr>)))))"

definition context_read_and_validate :: "policydb \<Rightarrow> context reader" where
  "context_read_and_validate p =
     rd_bind (next_le32s 3) (\<lambda>buf.
     rd_bind (if policyvers p \<ge> POLICYDB_VERSION_MLS then mls_read_range_helper else rd_return (ctx_range context_init)) (\<lambda>r.
     let c = context_init\<lparr>ctx_user := buf ! 0, ctx_role := buf ! 1, ctx_type := buf ! 2, ctx_range := r\<rparr> in
     rd_bind (rd_check (policydb_context_isvalid p c) EINVAL) (\<lambda>_. rd_return c)))"

definition mls_read_level :: "mls_level reader" where
  "mls_read_level =
     rd_bind next_le32 (\<lambda>sens. rd_bind ebitmap_read (\<lambda>cat. rd_return \<lparr>lvl_sens = sens, lvl_cat = cat\<rparr>))"

section \<open>Symbols\<close>

definition new_symtab :: "image_env \<Rightarrow> u32 \<Rightarrow> 'd symtab reader" where
  "new_symtab env nel = rd_step (symtab_init (env_get_order env) (env_MAX_ORDER env) nel)"

definition perm_read :: "perm_datum symtab \<Rightarrow> perm_datum symtab reader" where
  "perm_read s =
     rd_bind rd_alloc (\<lambda>_.
     rd_bind (next_le32s 2) (\<lambda>buf.
     rd_bind (str_read (buf ! 0)) (\<lambda>key.
     rd_step (symtab_insert s key \<lparr>perm_value = buf ! 1\<rparr>))))"

definition common_read :: "image_env \<Rightarrow> common_datum symtab \<Rightarrow> common_datum symtab reader" where
  "common_read env s =
     rd_bind rd_alloc (\<lambda>_.
     rd_bind (next_le32s 4) (\<lambda>buf.
     rd_bind (new_symtab env (buf ! 3)) (\<lambda>perms.
     rd_bind (str_read (buf ! 0)) (\<lambda>key.
     rd_bind (rd_times (unat (buf ! 3)) perm_read (perms\<lparr>st_nprim := buf ! 2\<rparr>)) (\<lambda>perms.
     rd_step (symtab_insert s key \<lparr>com_value = buf ! 1, com_permissions = perms\<rparr>))))))"

text \<open>Every error in a set of type names becomes \<open>EINVAL\<close>. The sets serve the writer only.\<close>

definition rd_einval :: "'a reader \<Rightarrow> 'a reader" where
  "rd_einval r s = (case r s of Inl _ \<Rightarrow> Inl EINVAL | Inr y \<Rightarrow> Inr y)"

definition type_set_read :: "type_set reader" where
  "type_set_read =
     rd_bind (rd_einval ebitmap_read) (\<lambda>types.
     rd_bind (rd_einval ebitmap_read) (\<lambda>negset.
     rd_bind (rd_einval next_le32) (\<lambda>flags. rd_return \<lparr>ts_types = types, ts_negset = negset, ts_flags = flags\<rparr>)))"

definition read_cons_expr :: "policydb \<Rightarrow> bool \<Rightarrow> constraint_expr list \<times> nat \<Rightarrow> (constraint_expr list \<times> nat) reader" where
  "read_cons_expr p allowxtarget = (\<lambda>(es, depth).
     rd_bind rd_alloc (\<lambda>_.
     rd_bind (next_le32s 3) (\<lambda>buf.
     let e = \<lparr>ce_expr_type = buf ! 0, ce_attr = buf ! 1, ce_op = buf ! 2, ce_names = ebitmap_init, ce_type_names = None\<rparr> in
     case read_cons_node allowxtarget e depth of
       None \<Rightarrow> rd_fail EINVAL
     | Some depth \<Rightarrow>
         if ce_expr_type e = CEXPR_NAMES
         then rd_bind ebitmap_read (\<lambda>names.
              rd_bind
                (if policyvers p \<ge> POLICYDB_VERSION_CONSTRAINT_NAMES
                 then rd_bind rd_alloc (\<lambda>_. rd_bind type_set_read (\<lambda>t. rd_return (Some t))) else rd_return None) (\<lambda>type_names.
              rd_return (es @ [e\<lparr>ce_names := names, ce_type_names := type_names\<rparr>], depth)))
         else rd_return (es @ [e], depth))))"

definition read_cons_helper :: "policydb \<Rightarrow> u32 \<Rightarrow> bool \<Rightarrow> constraint_node list reader" where
  "read_cons_helper p ncons allowxtarget =
     rd_times (unat ncons) (\<lambda>cs.
       rd_bind rd_alloc (\<lambda>_.
       rd_bind (next_le32s 2) (\<lambda>buf.
       rd_bind (rd_times (unat (buf ! 1)) (read_cons_expr p allowxtarget) ([], 0)) (\<lambda>(es, depth).
       rd_bind (rd_check (depth = 1) EINVAL) (\<lambda>_.
       rd_return (cs @ [\<lparr>cn_permissions = buf ! 0, cn_expr = es\<rparr>])))))) []"

text \<open>The defaults of a class are of type \<open>char\<close>; they are compared with small constants only.\<close>

definition default_char :: "u32 \<Rightarrow> nat" where
  "default_char w = unat (ucast w :: u8)"

definition class_read :: "image_env \<Rightarrow> policydb \<Rightarrow> class_datum symtab \<Rightarrow> class_datum symtab reader" where
  "class_read env p s =
     rd_bind rd_alloc (\<lambda>_.
     rd_bind (next_le32s 6) (\<lambda>buf.
     rd_bind (new_symtab env (buf ! 4)) (\<lambda>perms.
     rd_bind (str_read (buf ! 0)) (\<lambda>key.
     rd_bind
       (if buf ! 1 \<noteq> 0
        then rd_bind (str_read (buf ! 1)) (\<lambda>comkey.
             case symtab_search (p_commons p) comkey of
               None \<Rightarrow> rd_fail EINVAL
             | Some comdatum \<Rightarrow> rd_return (Some comkey, Some comdatum))
        else rd_return (None, None)) (\<lambda>(comkey, comdatum).
     rd_bind (rd_times (unat (buf ! 4)) perm_read (perms\<lparr>st_nprim := buf ! 3\<rparr>)) (\<lambda>perms.
     rd_bind (read_cons_helper p (buf ! 5) False) (\<lambda>constraints.
     rd_bind
       (if policyvers p \<ge> POLICYDB_VERSION_VALIDATETRANS
        then rd_bind next_le32 (\<lambda>ncons. read_cons_helper p ncons True) else rd_return []) (\<lambda>validatetrans.
     rd_bind (if policyvers p \<ge> POLICYDB_VERSION_NEW_OBJECT_DEFAULTS then next_le32s 3 else rd_return [0, 0, 0]) (\<lambda>defaults.
     rd_bind (if policyvers p \<ge> POLICYDB_VERSION_DEFAULT_TYPE then next_le32 else rd_return 0) (\<lambda>deftype.
     rd_step (symtab_insert s key
       \<lparr>cla_value = buf ! 2, cla_comkey = comkey, cla_comdatum = comdatum, cla_permissions = perms,
        cla_constraints = constraints, cla_validatetrans = validatetrans, default_user = default_char (defaults ! 0),
        default_role = default_char (defaults ! 1), default_type = default_char deftype,
        default_range = default_char (defaults ! 2)\<rparr>)))))))))))"

abbreviation OBJECT_R :: string where "OBJECT_R \<equiv> ''object_r''"

definition role_read :: "policydb \<Rightarrow> role_datum symtab \<Rightarrow> role_datum symtab reader" where
  "role_read p s =
     rd_bind rd_alloc (\<lambda>_.
     rd_bind (next_le32s (if policyvers p \<ge> POLICYDB_VERSION_BOUNDARY then 3 else 2)) (\<lambda>buf.
     rd_bind (str_read (buf ! 0)) (\<lambda>key.
     rd_bind ebitmap_read (\<lambda>dominates.
     rd_bind ebitmap_read (\<lambda>types.
     let bounds = (if policyvers p \<ge> POLICYDB_VERSION_BOUNDARY then buf ! 2 else 0);
         role = \<lparr>role_value = buf ! 1, role_bounds = bounds, role_dominates = dominates, role_types = types\<rparr> in
     if strcmp key OBJECT_R = 0 then rd_bind (rd_check (role_value role = OBJECT_R_VAL) EINVAL) (\<lambda>_. rd_return s)
     else rd_step (symtab_insert s key role))))))"

abbreviation TYPEDATUM_PROPERTY_PRIMARY :: u32 where "TYPEDATUM_PROPERTY_PRIMARY \<equiv> 1"
abbreviation TYPEDATUM_PROPERTY_ATTRIBUTE :: u32 where "TYPEDATUM_PROPERTY_ATTRIBUTE \<equiv> 2"

definition type_read :: "policydb \<Rightarrow> type_datum symtab \<Rightarrow> type_datum symtab reader" where
  "type_read p s =
     (let boundary = policyvers p \<ge> POLICYDB_VERSION_BOUNDARY in
      rd_bind rd_alloc (\<lambda>_.
      rd_bind (next_le32s (if boundary then 4 else 3)) (\<lambda>buf.
      let primary = (if boundary then buf ! 2 AND TYPEDATUM_PROPERTY_PRIMARY \<noteq> 0 else (ucast (buf ! 2) :: u8) \<noteq> 0);
          attribute = (boundary \<and> buf ! 2 AND TYPEDATUM_PROPERTY_ATTRIBUTE \<noteq> 0) in
      rd_bind (str_read (buf ! 0)) (\<lambda>key.
      rd_step (symtab_insert s key
        \<lparr>type_value = buf ! 1, type_bounds = (if boundary then buf ! 3 else 0), type_primary = primary,
         type_attribute = attribute\<rparr>)))))"

definition user_read :: "policydb \<Rightarrow> user_datum symtab \<Rightarrow> user_datum symtab reader" where
  "user_read p s =
     rd_bind rd_alloc (\<lambda>_.
     rd_bind (next_le32s (if policyvers p \<ge> POLICYDB_VERSION_BOUNDARY then 3 else 2)) (\<lambda>buf.
     rd_bind (str_read (buf ! 0)) (\<lambda>key.
     rd_bind ebitmap_read (\<lambda>roles.
     rd_bind
       (if policyvers p \<ge> POLICYDB_VERSION_MLS
        then rd_bind mls_read_range_helper (\<lambda>r. rd_bind mls_read_level (\<lambda>l. rd_return (r, l)))
        else rd_return (ctx_range context_init, level_init)) (\<lambda>(r, l).
     rd_step (symtab_insert s key
       \<lparr>user_value = buf ! 1, user_bounds = (if policyvers p \<ge> POLICYDB_VERSION_BOUNDARY then buf ! 2 else 0),
        user_roles = roles, user_range = r, user_dfltlevel = l\<rparr>))))))"

definition sens_read :: "level_datum symtab \<Rightarrow> level_datum symtab reader" where
  "sens_read s =
     rd_bind rd_alloc (\<lambda>_.
     rd_bind (next_le32s 2) (\<lambda>buf.
     rd_bind (str_read (buf ! 0)) (\<lambda>key.
     rd_bind rd_alloc (\<lambda>_.
     rd_bind mls_read_level (\<lambda>l.
     rd_step (symtab_insert s key \<lparr>lev_level = l, lev_isalias = (ucast (buf ! 1) :: u8) \<noteq> 0\<rparr>))))))"

definition cat_read :: "cat_datum symtab \<Rightarrow> cat_datum symtab reader" where
  "cat_read s =
     rd_bind rd_alloc (\<lambda>_.
     rd_bind (next_le32s 3) (\<lambda>buf.
     rd_bind (str_read (buf ! 0)) (\<lambda>key.
     rd_step (symtab_insert s key \<lparr>cat_value = buf ! 1, cat_isalias = (ucast (buf ! 2) :: u8) \<noteq> 0\<rparr>))))"

section \<open>Rules\<close>

definition range_read_item :: "policydb \<Rightarrow> policydb reader" where
  "range_read_item p =
     rd_bind rd_alloc (\<lambda>_.
     rd_bind (next_le32s 2) (\<lambda>buf.
     rd_bind (if policyvers p \<ge> POLICYDB_VERSION_RANGETRANS then next_le32 else rd_return (ucast (process_class p))) (\<lambda>tclass.
     let rt = \<lparr>rt_source_type = buf ! 0, rt_target_type = buf ! 1, rt_target_class = tclass\<rparr> in
     rd_bind (rd_check (policydb_type_isvalid p (rt_source_type rt) \<and> policydb_type_isvalid p (rt_target_type rt) \<and>
       policydb_class_isvalid p (rt_target_class rt)) EINVAL) (\<lambda>_.
     rd_bind rd_alloc (\<lambda>_.
     rd_bind mls_read_range_helper (\<lambda>r.
     rd_bind (rd_check (mls_range_isvalid p r) EINVAL) (\<lambda>_.
     rd_bind (rd_step (hashtab_insert rangetr_hash rangetr_cmp (range_tr p) rt r)) (\<lambda>t.
     rd_return (p\<lparr>range_tr := t\<rparr>)))))))))"

definition range_read :: "image_env \<Rightarrow> policydb \<Rightarrow> policydb reader" where
  "range_read env p =
     (if policyvers p < POLICYDB_VERSION_MLS then rd_return p
      else rd_bind next_le32 (\<lambda>nel.
           rd_bind (rd_step (hashtab_init (env_get_order env) (env_MAX_ORDER env) nel)) (\<lambda>t.
           rd_times (unat nel) range_read_item (p\<lparr>range_tr := t\<rparr>))))"

text \<open>
  The format with one rule per source type. The walk over the data of a key ends at one that has the
  source type already, at one with the same result, or at the end.
\<close>

datatype ftrans_walk = FDuplicate | FFound nat | FNew

fun filenametr_walk :: "u32 \<Rightarrow> u32 \<Rightarrow> filename_trans_datum list \<Rightarrow> nat \<Rightarrow> ftrans_walk" where
  "filenametr_walk stype otype [] i = FNew"
| "filenametr_walk stype otype (d # ds) i =
     (if ebitmap_get_bit (ft_stypes d) (unat (stype - 1)) then FDuplicate
      else if ft_otype d = otype then FFound i
      else filenametr_walk stype otype ds (i + 1))"

text \<open>An assignment through a pointer to the data of a key.\<close>

definition filenametr_assign ::
  "image_env \<Rightarrow> filename_trans_key \<Rightarrow> filename_trans_datum list \<Rightarrow> policydb \<Rightarrow> policydb" where
  "filenametr_assign env key ds p =
     p\<lparr>filename_trans := (filename_trans p)\<lparr>ht_htable :=
       map (map (\<lambda>(k, d). if filenametr_cmp key k = 0 then (k, ds) else (k, d))) (ht_htable (filename_trans p))\<rparr>\<rparr>"

definition filenametr_set_stype ::
  "image_env \<Rightarrow> filename_trans_key \<Rightarrow> u32 \<Rightarrow> filename_trans_datum list \<Rightarrow> nat \<Rightarrow> policydb \<Rightarrow> policydb reader" where
  "filenametr_set_stype env key stype ds i p =
     rd_bind (rd_step (ebitmap_set_bit (ft_stypes (ds ! i)) (unat (stype - 1)) True)) (\<lambda>stypes.
     rd_return (filenametr_assign env key (ds[i := (ds ! i)\<lparr>ft_stypes := stypes\<rparr>]) p))"

definition filename_trans_read_helper_compat :: "image_env \<Rightarrow> policydb \<Rightarrow> policydb reader" where
  "filename_trans_read_helper_compat env p =
     rd_bind next_le32 (\<lambda>len.
     rd_bind (str_read len) (\<lambda>name.
     rd_bind (next_le32s 4) (\<lambda>buf.
     let stype = buf ! 0; key = \<lparr>ftk_ttype = buf ! 1, ftk_tclass = ucast (buf ! 2), ftk_name = name\<rparr>; otype = buf ! 3;
         found = policydb_filenametr_search (env_partial_name_hash env) p key;
         ds = (case found of Some ds \<Rightarrow> ds | None \<Rightarrow> []); new = \<lparr>ft_stypes = ebitmap_init, ft_otype = otype\<rparr> in
     case filenametr_walk stype otype ds 0 of
       FDuplicate \<Rightarrow> rd_return p
     | FFound i \<Rightarrow> filenametr_set_stype env key stype ds i p
     | FNew \<Rightarrow>
         rd_bind rd_alloc (\<lambda>_.
         if ds \<noteq> [] then filenametr_set_stype env key stype (ds @ [new]) (length ds) p
         else rd_bind rd_alloc (\<lambda>_.
              rd_bind (rd_step (hashtab_insert (filenametr_hash (env_partial_name_hash env)) filenametr_cmp (filename_trans p) key [new])) (\<lambda>t.
              rd_bind (rd_step (ebitmap_set_bit (filename_trans_ttypes p) (unat (ftk_ttype key)) True)) (\<lambda>ttypes.
              filenametr_set_stype env key stype [new] 0 (p\<lparr>filename_trans := t, filename_trans_ttypes := ttypes\<rparr>))))))))"

definition filename_trans_read_helper :: "image_env \<Rightarrow> policydb \<Rightarrow> policydb reader" where
  "filename_trans_read_helper env p =
     rd_bind next_le32 (\<lambda>len.
     rd_bind (str_read len) (\<lambda>name.
     rd_bind (next_le32s 3) (\<lambda>buf.
     let ttype = buf ! 0; tclass = buf ! 1; ndatum = buf ! 2 in
     rd_bind (rd_check (ndatum \<noteq> 0) ENOENT) (\<lambda>_.
     rd_bind (rd_times (unat ndatum) (\<lambda>ds.
         rd_bind rd_alloc (\<lambda>_. rd_bind ebitmap_read (\<lambda>stypes. rd_bind next_le32 (\<lambda>otype.
         rd_return (ds @ [\<lparr>ft_stypes = stypes, ft_otype = otype\<rparr>]))))) []) (\<lambda>ds.
     rd_bind rd_alloc (\<lambda>_.
     rd_bind (rd_step (hashtab_insert (filenametr_hash (env_partial_name_hash env)) filenametr_cmp (filename_trans p)
         \<lparr>ftk_ttype = ttype, ftk_tclass = ucast tclass, ftk_name = name\<rparr> ds)) (\<lambda>t.
     rd_bind (rd_step (ebitmap_set_bit (filename_trans_ttypes p) (unat ttype) True)) (\<lambda>ttypes.
     rd_return (p\<lparr>filename_trans := t, filename_trans_ttypes := ttypes\<rparr>)))))))))"

definition filename_trans_read :: "image_env \<Rightarrow> policydb \<Rightarrow> policydb reader" where
  "filename_trans_read env p =
     (if policyvers p < POLICYDB_VERSION_FILENAME_TRANS then rd_return p
      else rd_bind next_le32 (\<lambda>nel.
           if policyvers p < POLICYDB_VERSION_COMP_FTRANS
           then rd_bind (rd_step (hashtab_init (env_get_order env) (env_MAX_ORDER env) (push_bit 11 1))) (\<lambda>t.
                rd_times (unat nel) (filename_trans_read_helper_compat env) (p\<lparr>compat_filename_trans_count := nel, filename_trans := t\<rparr>))
           else rd_bind (rd_step (hashtab_init (env_get_order env) (env_MAX_ORDER env) nel)) (\<lambda>t.
                rd_times (unat nel) (filename_trans_read_helper env) (p\<lparr>filename_trans := t\<rparr>))))"

text \<open>The two loops of \<open>policydb_read\<close> over the rules about roles.\<close>

definition role_trans_read_item :: "policydb \<Rightarrow> policydb reader" where
  "role_trans_read_item p =
     rd_bind rd_alloc (\<lambda>_.
     rd_bind rd_alloc (\<lambda>_.
     rd_bind (next_le32s 3) (\<lambda>buf.
     rd_bind (if policyvers p \<ge> POLICYDB_VERSION_ROLETRANS then next_le32 else rd_return (ucast (process_class p))) (\<lambda>tclass.
     let rtk = \<lparr>rtk_role = buf ! 0, rtk_type = buf ! 1, rtk_tclass = tclass\<rparr>; new_role = buf ! 2 in
     rd_bind (rd_check (policydb_role_isvalid p (rtk_role rtk) \<and> policydb_type_isvalid p (rtk_type rtk) \<and>
       policydb_class_isvalid p (rtk_tclass rtk) \<and> policydb_role_isvalid p new_role) EINVAL) (\<lambda>_.
     rd_bind (rd_step (hashtab_insert role_trans_hash role_trans_cmp (role_tr p) rtk new_role)) (\<lambda>t.
     rd_return (p\<lparr>role_tr := t\<rparr>)))))))"

definition role_allow_read_item :: "policydb \<Rightarrow> policydb reader" where
  "role_allow_read_item p =
     rd_bind rd_alloc (\<lambda>_.
     rd_bind (next_le32s 2) (\<lambda>buf.
     let ra = \<lparr>ra_role = buf ! 0, ra_new_role = buf ! 1\<rparr> in
     rd_bind (rd_check (policydb_role_isvalid p (ra_role ra) \<and> policydb_role_isvalid p (ra_new_role ra)) EINVAL) (\<lambda>_.
     rd_return (p\<lparr>p_role_allow := p_role_allow p @ [ra]\<rparr>))))"

section \<open>Labels of objects\<close>

text \<open>
  The place of a new file system type and of a new path in the sorted lists: the number of entries
  before it, or none when the entry is there already.
\<close>

fun genfs_place :: "string \<Rightarrow> genfs list \<Rightarrow> nat option" where
  "genfs_place fstype [] = Some 0"
| "genfs_place fstype (g # gs) =
     (if strcmp fstype (gf_fstype g) = 0 then None
      else if strcmp fstype (gf_fstype g) < 0 then Some 0
      else map_option Suc (genfs_place fstype gs))"

fun oc_name :: "ocontext \<Rightarrow> string" where
  "oc_name c = (case oc_u c of OName n \<Rightarrow> n | _ \<Rightarrow> [])"

fun genfs_entry_place :: "string \<Rightarrow> u32 \<Rightarrow> ocontext list \<Rightarrow> nat option" where
  "genfs_entry_place name sclass [] = Some 0"
| "genfs_entry_place name sclass (c # cs) =
     (if strcmp name (oc_name c) = 0 \<and> (oc_v c = 0 \<or> sclass = 0 \<or> sclass = oc_v c) then None
      else if length name > length (oc_name c) then Some 0
      else map_option Suc (genfs_entry_place name sclass cs))"

definition list_link :: "nat \<Rightarrow> 'a \<Rightarrow> 'a list \<Rightarrow> 'a list" where
  "list_link i x xs = take i xs @ x # drop i xs"

text \<open>A structure from \<open>kzalloc\<close>.\<close>

definition ocontext_zero :: ocontext where
  "ocontext_zero = \<lparr>oc_u = OName [], oc_v = 0, oc_context0 = context_init, oc_context1 = context_init, oc_sid0 = 0, oc_sid1 = 0\<rparr>"

definition genfs_read_entry :: "policydb \<Rightarrow> ocontext list \<Rightarrow> ocontext list reader" where
  "genfs_read_entry p head =
     rd_bind next_le32 (\<lambda>len.
     rd_bind rd_alloc (\<lambda>_.
     rd_bind (str_read len) (\<lambda>name.
     rd_bind next_le32 (\<lambda>sclass.
     rd_bind (context_read_and_validate p) (\<lambda>c.
     case genfs_entry_place name sclass head of
       None \<Rightarrow> rd_fail EINVAL
     | Some i \<Rightarrow> rd_return (list_link i (ocontext_zero\<lparr>oc_u := OName name, oc_v := sclass, oc_context0 := c\<rparr>) head))))))"

definition genfs_read_item :: "policydb \<Rightarrow> policydb reader" where
  "genfs_read_item p =
     rd_bind next_le32 (\<lambda>len.
     rd_bind rd_alloc (\<lambda>_.
     rd_bind (str_read len) (\<lambda>fstype.
     case genfs_place fstype (p_genfs p) of
       None \<Rightarrow> rd_fail EINVAL
     | Some i \<Rightarrow>
         rd_bind next_le32 (\<lambda>nel2.
         rd_bind (rd_times (unat nel2) (genfs_read_entry p) []) (\<lambda>head.
         rd_return (p\<lparr>p_genfs := list_link i \<lparr>gf_fstype = fstype, gf_head = head\<rparr> (p_genfs p)\<rparr>))))))"

definition genfs_read :: "policydb \<Rightarrow> policydb reader" where
  "genfs_read p = rd_bind next_le32 (\<lambda>nel. rd_times (unat nel) genfs_read_item p)"

abbreviation SECURITY_FS_USE_MNTPOINT :: u32 where "SECURITY_FS_USE_MNTPOINT \<equiv> 6"
abbreviation SECURITY_FS_USE_MAX :: u32 where "SECURITY_FS_USE_MAX \<equiv> 7"

text \<open>One object context. Addresses stay in network order: they are words as the memory of a little-endian machine holds them.\<close>

definition ocontext_read_named :: "policydb \<Rightarrow> ocontext reader" where
  "ocontext_read_named p =
     rd_bind next_le32 (\<lambda>len.
     rd_bind (str_read len) (\<lambda>name.
     rd_bind (context_read_and_validate p) (\<lambda>c0.
     rd_bind (context_read_and_validate p) (\<lambda>c1. rd_return (ocontext_zero\<lparr>oc_u := OName name, oc_context0 := c0, oc_context1 := c1\<rparr>)))))"

fun ocontext_read_item :: "policydb \<Rightarrow> ocon \<Rightarrow> ocontext reader" where
  "ocontext_read_item p OCON_ISID =
     rd_bind next_le32 (\<lambda>sid.
     rd_bind (context_read_and_validate p) (\<lambda>c. rd_return (ocontext_zero\<lparr>oc_sid0 := sid, oc_context0 := c\<rparr>)))"
| "ocontext_read_item p OCON_FS = ocontext_read_named p"
| "ocontext_read_item p OCON_NETIF = ocontext_read_named p"
| "ocontext_read_item p OCON_PORT =
     rd_bind (next_le32s 3) (\<lambda>buf.
     rd_bind (context_read_and_validate p) (\<lambda>c.
     rd_return (ocontext_zero\<lparr>oc_u := OPort (ucast (buf ! 0)) (ucast (buf ! 1)) (ucast (buf ! 2)), oc_context0 := c\<rparr>)))"
| "ocontext_read_item p OCON_NODE =
     rd_bind (next_le32s 2) (\<lambda>nodebuf.
     rd_bind (context_read_and_validate p) (\<lambda>c.
     rd_return (ocontext_zero\<lparr>oc_u := ONode (nodebuf ! 0) (nodebuf ! 1), oc_context0 := c\<rparr>)))"
| "ocontext_read_item p OCON_FSUSE =
     rd_bind (next_le32s 2) (\<lambda>buf.
     rd_bind (rd_check (buf ! 0 \<noteq> SECURITY_FS_USE_MNTPOINT) EINVAL) (\<lambda>_.
     rd_bind (rd_check (\<not> buf ! 0 > SECURITY_FS_USE_MAX) EINVAL) (\<lambda>_.
     rd_bind (str_read (buf ! 1)) (\<lambda>name.
     rd_bind (context_read_and_validate p) (\<lambda>c.
     rd_return (ocontext_zero\<lparr>oc_u := OName name, oc_v := buf ! 0, oc_context0 := c\<rparr>))))))"
| "ocontext_read_item p OCON_NODE6 =
     rd_bind (next_le32s 8) (\<lambda>nodebuf.
     rd_bind (context_read_and_validate p) (\<lambda>c.
     rd_return (ocontext_zero\<lparr>oc_u := ONode6 (take 4 nodebuf) (drop 4 nodebuf), oc_context0 := c\<rparr>)))"
| "ocontext_read_item p OCON_IBPKEY =
     rd_bind (next_entry 8) (\<lambda>prefixbuf.
     rd_bind (next_le32s 2) (\<lambda>buf.
     rd_bind (rd_check (\<not> (buf ! 0 > 0xffff \<or> buf ! 1 > 0xffff)) EINVAL) (\<lambda>_.
     rd_bind (context_read_and_validate p) (\<lambda>c.
     rd_return (ocontext_zero\<lparr>oc_u := OIbpkey (be_word prefixbuf) (ucast (buf ! 0)) (ucast (buf ! 1)), oc_context0 := c\<rparr>)))))"
| "ocontext_read_item p OCON_IBENDPORT =
     rd_bind (next_le32s 2) (\<lambda>buf.
     rd_bind (str_read (buf ! 0)) (\<lambda>name.
     rd_bind (rd_check (\<not> (buf ! 1 > 0xff \<or> buf ! 1 = 0)) EINVAL) (\<lambda>_.
     rd_bind (context_read_and_validate p) (\<lambda>c.
     rd_return (ocontext_zero\<lparr>oc_u := OIbendport name (ucast (buf ! 1)), oc_context0 := c\<rparr>)))))"

definition ocon_order :: "ocon list" where
  "ocon_order = [OCON_ISID, OCON_FS, OCON_PORT, OCON_NETIF, OCON_NODE, OCON_FSUSE, OCON_NODE6, OCON_IBPKEY, OCON_IBENDPORT]"

fun ocontext_read_kinds :: "ocon list \<Rightarrow> policydb \<Rightarrow> policydb reader" where
  "ocontext_read_kinds [] p = rd_return p"
| "ocontext_read_kinds (i # kinds) p =
     rd_bind next_le32 (\<lambda>nel.
     rd_bind (rd_times (unat nel) (\<lambda>cs. rd_bind rd_alloc (\<lambda>_. rd_bind (ocontext_read_item p i) (\<lambda>c. rd_return (cs @ [c])))) []) (\<lambda>cs.
     ocontext_read_kinds kinds (p\<lparr>ocontexts := (ocontexts p)(i := cs)\<rparr>)))"

definition ocontext_read :: "nat \<Rightarrow> policydb \<Rightarrow> policydb reader" where
  "ocontext_read ocon_num p = ocontext_read_kinds (take ocon_num ocon_order) p"

section \<open>The whole image\<close>

text \<open>The table \<open>policydb_compat\<close>: the numbers of symbol tables and of object contexts of each version.\<close>

definition policydb_compat :: "(u32 \<times> nat \<times> nat) list" where
  "policydb_compat =
     [(15, 5, 6), (16, 6, 6), (17, 6, 7), (18, 6, 7), (19, 8, 7), (20, 8, 7), (21, 8, 7), (22, 8, 7), (23, 8, 7), (24, 8, 7),
      (25, 8, 7), (26, 8, 7), (27, 8, 7), (28, 8, 7), (29, 8, 7), (30, 8, 7), (31, 8, 9), (32, 8, 9), (33, 8, 9)]"

definition policydb_lookup_compat :: "u32 \<Rightarrow> (nat \<times> nat) option" where
  "policydb_lookup_compat version = map_option snd (find (\<lambda>i. fst i = version) policydb_compat)"

definition roles_init :: "role_datum symtab \<Rightarrow> role_datum symtab reader" where
  "roles_init s =
     rd_bind rd_alloc (\<lambda>_.
     let s = s\<lparr>st_nprim := st_nprim s + 1\<rparr>;
         role = \<lparr>role_value = st_nprim s, role_bounds = 0, role_dominates = ebitmap_init, role_types = ebitmap_init\<rparr> in
     rd_bind (rd_check (role_value role = OBJECT_R_VAL) EINVAL) (\<lambda>_.
     rd_bind rd_alloc (\<lambda>_.
     rd_step (symtab_insert s OBJECT_R role))))"

text \<open>One round of the loop over the symbol tables.\<close>

definition read_table ::
  "image_env \<Rightarrow> ('d symtab \<Rightarrow> 'd symtab reader) \<Rightarrow> ('d symtab \<Rightarrow> 'd symtab reader) \<Rightarrow> 'd symtab reader" where
  "read_table env setup read_f =
     rd_bind (next_le32s 2) (\<lambda>buf.
     rd_bind (new_symtab env (buf ! 1)) (\<lambda>s.
     rd_bind (setup s) (\<lambda>s.
     rd_bind (rd_times (unat (buf ! 1)) read_f s) (\<lambda>s.
     rd_return (s\<lparr>st_nprim := buf ! 0\<rparr>)))))"

fun read_symtab :: "image_env \<Rightarrow> policydb \<Rightarrow> sym \<Rightarrow> policydb reader" where
  "read_symtab env p SYM_COMMONS = rd_bind (read_table env rd_return (common_read env)) (\<lambda>s. rd_return (p\<lparr>p_commons := s\<rparr>))"
| "read_symtab env p SYM_CLASSES = rd_bind (read_table env rd_return (class_read env p)) (\<lambda>s. rd_return (p\<lparr>p_classes := s\<rparr>))"
| "read_symtab env p SYM_ROLES = rd_bind (read_table env roles_init (role_read p)) (\<lambda>s. rd_return (p\<lparr>p_roles := s\<rparr>))"
| "read_symtab env p SYM_TYPES = rd_bind (read_table env rd_return (type_read p)) (\<lambda>s. rd_return (p\<lparr>p_types := s\<rparr>))"
| "read_symtab env p SYM_USERS = rd_bind (read_table env rd_return (user_read p)) (\<lambda>s. rd_return (p\<lparr>p_users := s\<rparr>))"
| "read_symtab env p SYM_BOOLS = rd_bind (read_table env rd_return cond_read_bool) (\<lambda>s. rd_return (p\<lparr>p_bools := s\<rparr>))"
| "read_symtab env p SYM_LEVELS = rd_bind (read_table env rd_return sens_read) (\<lambda>s. rd_return (p\<lparr>p_levels := s\<rparr>))"
| "read_symtab env p SYM_CATS = rd_bind (read_table env rd_return cat_read) (\<lambda>s. rd_return (p\<lparr>p_cats := s\<rparr>))"

fun read_symtabs :: "image_env \<Rightarrow> sym list \<Rightarrow> policydb \<Rightarrow> policydb reader" where
  "read_symtabs env [] p = rd_return p"
| "read_symtabs env (i # is) p = rd_bind (read_symtab env p i) (read_symtabs env is)"

definition sym_order :: "sym list" where
  "sym_order = [SYM_COMMONS, SYM_CLASSES, SYM_ROLES, SYM_TYPES, SYM_USERS, SYM_BOOLS, SYM_LEVELS, SYM_CATS]"

abbreviation POLICYDB_STRING :: string where "POLICYDB_STRING \<equiv> ''SE Linux''"
abbreviation POLICYDB_CONFIG_MLS :: u32 where "POLICYDB_CONFIG_MLS \<equiv> 1"
abbreviation REJECT_UNKNOWN :: u32 where "REJECT_UNKNOWN \<equiv> 2"
abbreviation ALLOW_UNKNOWN :: u32 where "ALLOW_UNKNOWN \<equiv> 4"

text \<open>From the magic number to the table sizes; the result is the policy so far with the numbers of tables.\<close>

definition policydb_read_header :: "image_env \<Rightarrow> (policydb \<times> nat \<times> nat) reader" where
  "policydb_read_header env =
     rd_bind (next_le32s 2) (\<lambda>buf.
     rd_bind (rd_check (buf ! 0 = env_MAGIC env) EINVAL) (\<lambda>_.
     rd_bind (rd_check (unat (buf ! 1) = length POLICYDB_STRING) EINVAL) (\<lambda>_.
     rd_bind rd_alloc (\<lambda>_.
     rd_bind (next_entry (unat (buf ! 1))) (\<lambda>str.
     rd_bind (rd_check (strcmp (c_string str) POLICYDB_STRING = 0) EINVAL) (\<lambda>_.
     rd_bind (next_le32s 4) (\<lambda>buf.
     let vers = buf ! 0; config = buf ! 1 in
     rd_bind (rd_check (\<not> (vers < POLICYDB_VERSION_BASE \<or> vers > POLICYDB_VERSION_COMP_FTRANS)) EINVAL) (\<lambda>_.
     rd_bind (rd_check (\<not> (config AND POLICYDB_CONFIG_MLS \<noteq> 0 \<and> vers < POLICYDB_VERSION_MLS)) EINVAL) (\<lambda>_.
     rd_bind (if vers \<ge> POLICYDB_VERSION_POLCAP then ebitmap_read else rd_return ebitmap_init) (\<lambda>caps.
     rd_bind (if vers \<ge> POLICYDB_VERSION_PERMISSIVE then ebitmap_read else rd_return ebitmap_init) (\<lambda>permissive.
     let p = policydb_init\<lparr>policyvers := vers, mls_enabled := config AND POLICYDB_CONFIG_MLS \<noteq> 0,
               reject_unknown := config AND REJECT_UNKNOWN \<noteq> 0, allow_unknown := config AND ALLOW_UNKNOWN \<noteq> 0,
               policycaps := caps, permissive_map := permissive\<rparr> in
     case policydb_lookup_compat vers of
       None \<Rightarrow> rd_fail EINVAL
     | Some (sym_num, ocon_num) \<Rightarrow>
         rd_bind (rd_check (\<not> (unat (buf ! 2) \<noteq> sym_num \<or> unat (buf ! 3) \<noteq> ocon_num)) EINVAL) (\<lambda>_.
         rd_return (p, sym_num, ocon_num)))))))))))))"

text \<open>From the symbols to the index arrays.\<close>

definition policydb_read_rules :: "image_env \<Rightarrow> nat \<Rightarrow> policydb \<Rightarrow> policydb reader" where
  "policydb_read_rules env sym_num p =
     rd_bind (read_symtabs env (take sym_num sym_order) p) (\<lambda>p.
     let process = string_to_security_class p ''process'' in
     rd_bind (rd_check (process \<noteq> 0) EINVAL) (\<lambda>_.
     let p = p\<lparr>process_class := process\<rparr> in
     rd_bind (avtab_read (env_stack env) p (te_avtab p)) (\<lambda>t.
     let p = p\<lparr>te_avtab := t\<rparr> in
     rd_bind (if policyvers p \<ge> POLICYDB_VERSION_BOOL then cond_read_list (env_stack env) p else rd_return p) (\<lambda>p.
     rd_bind next_le32 (\<lambda>nel.
     rd_bind (rd_step (hashtab_init (env_get_order env) (env_MAX_ORDER env) nel)) (\<lambda>t.
     rd_bind (rd_times (unat nel) role_trans_read_item (p\<lparr>role_tr := t\<rparr>)) (\<lambda>p.
     rd_bind next_le32 (\<lambda>nel.
     rd_bind (rd_times (unat nel) role_allow_read_item p) (\<lambda>p.
     rd_bind (filename_trans_read env p) (\<lambda>p.
     rd_step (policydb_index p)))))))))))"

text \<open>One round of the loop over the types: the attributes of a type, and the type itself.\<close>

definition type_attr_read_item :: "policydb \<Rightarrow> ebitmap list \<Rightarrow> ebitmap list reader" where
  "type_attr_read_item p es =
     rd_bind (if policyvers p \<ge> POLICYDB_VERSION_AVTAB then ebitmap_read else rd_return ebitmap_init) (\<lambda>e.
     rd_bind (rd_step (ebitmap_set_bit e (length es) True)) (\<lambda>e.
     rd_return (es @ [e])))"

text \<open>From the permissions of the process class to the attributes of types.\<close>

definition policydb_read_objects :: "image_env \<Rightarrow> nat \<Rightarrow> policydb \<Rightarrow> policydb reader" where
  "policydb_read_objects env ocon_num p =
     (let perm1 = string_to_av_perm p (process_class p) ''transition''; perm2 = string_to_av_perm p (process_class p) ''dyntransition'' in
     rd_bind (rd_check (perm1 \<noteq> 0) EINVAL) (\<lambda>_.
     rd_bind (rd_check (perm2 \<noteq> 0) EINVAL) (\<lambda>_.
     let p = p\<lparr>process_trans_perms := perm1 OR perm2\<rparr> in
     rd_bind (ocontext_read ocon_num p) (\<lambda>p.
     rd_bind (genfs_read p) (\<lambda>p.
     rd_bind (range_read env p) (\<lambda>p.
     rd_bind rd_alloc (\<lambda>_.
     rd_bind (rd_times (unat (st_nprim (p_types p))) (type_attr_read_item p) []) (\<lambda>es.
     rd_return (p\<lparr>type_attr_map_array := es\<rparr>)))))))))"

text \<open>
  The class of processes may have no structure at its value when the value does not fit 16 bits, and a
  bound may name a value that no structure has.
\<close>

definition policydb_read :: "image_env \<Rightarrow> u8 list \<times> mem \<Rightarrow> (errno + policydb \<times> (u8 list \<times> mem)) option" where
  "policydb_read env s =
     (case rd_bind (policydb_read_header env) (\<lambda>(p, sym_num, ocon_num).
             rd_bind (policydb_read_rules env sym_num p) (\<lambda>p. rd_return (p, ocon_num))) s of
        Inl e \<Rightarrow> Some (Inl e)
      | Inr ((p, ocon_num), s) \<Rightarrow>
          if ucast (process_class p) \<le> st_nprim (p_classes p) \<and> val_to_struct (class_val_to_struct p) (ucast (process_class p)) = None then None
          else case policydb_read_objects env ocon_num p s of
                 Inl e \<Rightarrow> Some (Inl e)
               | Inr (p, s) \<Rightarrow>
                   (case policydb_bounds_sanity_check p of
                      (_, True) \<Rightarrow> None
                    | (Err e, False) \<Rightarrow> Some (Inl e)
                    | (OK, False) \<Rightarrow> Some (Inr (p, s))))"

end
