(* ===== verification/Policy_Accepted.thy ===== *)
theory Policy_Accepted
  imports Policy_Read Services
begin

text \<open>
  What holds of every policy that \<open>policydb_read\<close> accepts: the rules, labels and index arrays refer to
  each other as the decisions rely on it.
\<close>

section \<open>Tables\<close>

lemma insert_chain_set:
  "hashtab_insert_chain cmp key datum chain m = (OK, chain', m') \<Longrightarrow> set chain' \<subseteq> insert (key, datum) (set chain)"
proof (induction cmp key datum chain m arbitrary: chain' m' rule: hashtab_insert_chain.induct)
  case (1 cmp key datum m)
  then show ?case by (auto simp: hashtab_link_def split: prod.splits bool.splits)
next
  case (2 cmp key datum cur rest m)
  then show ?case by (fastforce simp: hashtab_link_def Let_def split: prod.splits bool.splits if_splits)
qed

lemma hashtab_insert_nodes:
  assumes "hashtab_insert hash cmp h key datum m = (OK, h', m')"
  shows "set (hashtab_nodes h') \<subseteq> insert (key, datum) (set (hashtab_nodes h))"
proof -
  let ?i = "unat (hash key AND (ht_size h - 1))"
  obtain chain where c: "hashtab_insert_chain cmp key datum (ht_htable h ! ?i) m = (OK, chain, m')" "ht_size h' = ht_size h"
      "ht_htable h' = (ht_htable h)[?i := chain]"
    using assms by (auto simp: hashtab_insert_def Let_def split: if_splits prod.splits option.splits)
  have "set (ht_htable h' ! j) \<subseteq> insert (key, datum) (set (ht_htable h ! j))" for j
    using insert_chain_set [OF c(1)] c(3) by (cases "j = ?i \<and> j < length (ht_htable h)") (auto simp: list_update_beyond not_less)
  then show ?thesis unfolding hashtab_nodes_def c(2) by fastforce
qed

lemma hashtab_init_nodes: "hashtab_init get_order MAX_ORDER nel m = (OK, h, m') \<Longrightarrow> hashtab_nodes h = []"
  by (auto simp: hashtab_init_def hashtab_nodes_def Let_def split: if_splits prod.splits bool.splits)

lemma delivers_times_nat:
  assumes "P 0 x" "\<And>k x. k < n \<Longrightarrow> P k x \<Longrightarrow> delivers (f x) (P (Suc k))"
  shows "delivers (rd_times n f x) (P n)"
  using assms
proof (induction n arbitrary: P x)
  case 0
  then show ?case by (simp add: delivers_return)
next
  case (Suc n)
  have "delivers (rd_times n f y) (P (Suc n))" if "P (Suc 0) y" for y
    using Suc.IH [of "\<lambda>k. P (Suc k)" y] that Suc.prems(2) by simp
  then show ?case using Suc.prems by (auto intro!: delivers_bind [of "f x" "P (Suc 0)"])
qed

section \<open>The parts of an accepted policy\<close>

definition role_rules_ok :: "policydb \<Rightarrow> bool" where
  "role_rules_ok p \<longleftrightarrow>
     (\<forall>(k, new_role) \<in> set (hashtab_nodes (role_tr p)). policydb_role_isvalid p (rtk_role k) \<and> policydb_type_isvalid p (rtk_type k) \<and>
        policydb_class_isvalid p (rtk_tclass k) \<and> policydb_role_isvalid p new_role) \<and>
     (\<forall>ra \<in> set (p_role_allow p). policydb_role_isvalid p (ra_role ra) \<and> policydb_role_isvalid p (ra_new_role ra))"

definition labels_ok :: "policydb \<Rightarrow> bool" where
  "labels_ok p \<longleftrightarrow>
     (\<forall>i. \<forall>c \<in> set (ocontexts p i). policydb_context_isvalid p (oc_context0 c) \<and>
        (i = OCON_FS \<or> i = OCON_NETIF \<longrightarrow> policydb_context_isvalid p (oc_context1 c))) \<and>
     (\<forall>g \<in> set (p_genfs p). \<forall>c \<in> set (gf_head g). policydb_context_isvalid p (oc_context0 c))"

definition range_rules_ok :: "policydb \<Rightarrow> bool" where
  "range_rules_ok p \<longleftrightarrow> (\<forall>(k, r) \<in> set (hashtab_nodes (range_tr p)). policydb_type_isvalid p (rt_source_type k) \<and>
     policydb_type_isvalid p (rt_target_type k) \<and> policydb_class_isvalid p (rt_target_class k) \<and> mls_range_isvalid p r)"

text \<open>Every type has its attributes, and is one of them.\<close>

definition attr_map_ok :: "policydb \<Rightarrow> bool" where
  "attr_map_ok p \<longleftrightarrow> length (type_attr_map_array p) = unat (st_nprim (p_types p)) \<and>
     (\<forall>i < length (type_attr_map_array p). ebitmap_wf (type_attr_map_array p ! i) \<and> ebitmap_get_bit (type_attr_map_array p ! i) i)"

text \<open>The expressions of the constraints of a class leave one value on the stack of the evaluation.\<close>

definition cons_ok :: "class_datum \<Rightarrow> bool" where
  "cons_ok d \<longleftrightarrow> (\<forall>cn \<in> set (cla_constraints d). read_cons_check False (cn_expr cn) = OK) \<and>
     (\<forall>cn \<in> set (cla_validatetrans d). read_cons_check True (cn_expr cn) = OK)"

definition classes_ok :: "class_datum symtab \<Rightarrow> bool" where
  "classes_ok s \<longleftrightarrow> (\<forall>(k, d) \<in> set (hashtab_nodes (st_table s)). cons_ok d)"

text \<open>A policy into which no object, or nothing but symbols, has been read yet.\<close>

definition no_objects :: "policydb \<Rightarrow> bool" where
  "no_objects p \<longleftrightarrow> ocontexts p = (\<lambda>_. []) \<and> p_genfs p = [] \<and> hashtab_nodes (range_tr p) = []"

definition fresh :: "policydb \<Rightarrow> bool" where
  "fresh p \<longleftrightarrow> te_avtab p = avtab_init \<and> te_cond_avtab p = avtab_init \<and> cond_list p = [] \<and> p_role_allow p = [] \<and> no_objects p \<and> classes_ok (p_classes p)"

definition rules_ok :: "policydb \<Rightarrow> bool" where
  "rules_ok p \<longleftrightarrow> avtab_sound p (te_avtab p) \<and> cond_wf p [] \<and> role_rules_ok p \<and> classes_ok (p_classes p)"

section \<open>The header and the symbols\<close>

lemma read_cons_depth_snoc:
  "read_cons_depth ax (es @ [e]) depth = (case read_cons_depth ax es depth of None \<Rightarrow> None | Some d \<Rightarrow> read_cons_node ax e d)"
  by (induction ax es depth rule: read_cons_depth.induct) (auto split: option.splits)

lemma read_cons_check_OK: "read_cons_check ax es = OK \<longleftrightarrow> read_cons_depth ax es 0 = Some 1"
  by (simp add: read_cons_check_def)

lemma cons_helper_ok: "delivers (read_cons_helper p n ax) (\<lambda>cs. \<forall>cn \<in> set cs. read_cons_check ax (cn_expr cn) = OK)"
proof -
  let ?I = "\<lambda>(es, depth). read_cons_depth ax es 0 = Some depth"
  have expr: "delivers (read_cons_expr p ax x) ?I" if "?I x" for x
    using that unfolding read_cons_expr_def Let_def
    by (auto simp: read_cons_depth_snoc split: option.splits intro!: delivers_any delivers_fail delivers_return) (simp_all add: read_cons_node_def)
  have exprs: "delivers (rd_times k (read_cons_expr p ax) ([], 0)) ?I" for k
    by (rule delivers_times [OF _ expr]) simp_all
  show ?thesis
    unfolding read_cons_helper_def
  proof (intro delivers_times delivers_any [of _ _ rd_alloc] delivers_any [of _ _ "next_le32s 2"] delivers_bind [OF exprs])
    fix cs :: "constraint_node list" and buf x
    assume "\<forall>cn \<in> set cs. read_cons_check ax (cn_expr cn) = OK" "?I x"
    then show "delivers (case x of (es, depth) \<Rightarrow> rd_bind (rd_check (depth = 1) EINVAL) (\<lambda>_. rd_return (cs @ [\<lparr>cn_permissions = buf ! 0, cn_expr = es\<rparr>])))
        (\<lambda>cs. \<forall>cn \<in> set cs. read_cons_check ax (cn_expr cn) = OK)"
      by (cases x) (auto simp: read_cons_check_OK intro!: delivers_check delivers_return)
  qed simp
qed

lemma symtab_insert_nodes:
  assumes "symtab_insert s key d m = (OK, s', m')"
  shows "set (hashtab_nodes (st_table s')) \<subseteq> insert (key, d) (set (hashtab_nodes (st_table s)))"
  using assms hashtab_insert_nodes [of symhash symcmp "st_table s" key d m] by (auto simp: symtab_insert_def split: prod.splits)

lemma symtab_init_nodes: "symtab_init g n nel m = (OK, s, m') \<Longrightarrow> hashtab_nodes (st_table s) = []"
  by (auto simp: symtab_init_def dest!: hashtab_init_nodes split: prod.splits)

lemma class_read_ok: "classes_ok s \<Longrightarrow> delivers (class_read env p s) classes_ok"
proof -
  assume s: "classes_ok s"
  have ins: "delivers (rd_step (symtab_insert s key d)) classes_ok" if "cons_ok d" for key d
  proof (rule delivers_step)
    fix m s' m'
    assume "symtab_insert s key d m = (OK, s', m')"
    then show "classes_ok s'" using s that symtab_insert_nodes [of s key d m s' m'] by (fastforce simp: classes_ok_def)
  qed
  have vt: "delivers (if b then rd_bind next_le32 (\<lambda>ncons. read_cons_helper p ncons True) else rd_return [])
      (\<lambda>cs. \<forall>cn \<in> set cs. read_cons_check True (cn_expr cn) = OK)" for b
    by (intro delivers_if delivers_any [of _ _ next_le32] cons_helper_ok delivers_return) simp
  show ?thesis
    unfolding class_read_def
    by (intro delivers_any [of _ _ rd_alloc] delivers_any [of _ _ "next_le32s 6"] delivers_any [of _ _ "new_symtab a b" for a b]
        delivers_any [of _ _ "str_read a" for a] delivers_any [of _ _ "if b then rd_bind (str_read x) g else q" for b x g q], unfold case_prod_beta)
      (intro delivers_any [of _ _ "rd_times a b c" for a b c] delivers_bind [OF cons_helper_ok] delivers_bind [OF vt]
        delivers_any [of _ _ "if b then next_le32s 3 else q" for b q] delivers_any [of _ _ "if b then next_le32 else q" for b q] ins, simp add: cons_ok_def)
qed

lemma class_table_ok: "delivers (read_table env rd_return (class_read env p)) classes_ok"
  unfolding read_table_def
proof (intro delivers_any [of _ _ "next_le32s 2"] delivers_bind [of "new_symtab env n" "\<lambda>s. hashtab_nodes (st_table s) = []" for n])
  show "delivers (new_symtab env n) (\<lambda>s. hashtab_nodes (st_table s) = [])" for n
    unfolding new_symtab_def by (rule delivers_step) (rule symtab_init_nodes)
  fix buf and s0 :: "class_datum symtab"
  assume "hashtab_nodes (st_table s0) = []"
  then have "delivers (rd_return s0) classes_ok" by (intro delivers_return) (simp add: classes_ok_def)
  then show "delivers (rd_bind (rd_return s0) (\<lambda>s. rd_bind (rd_times (unat (buf ! 1)) (class_read env p) s) (\<lambda>s. rd_return (s\<lparr>st_nprim := buf ! 0\<rparr>)))) classes_ok"
    by (rule delivers_bind) (intro delivers_bind [OF delivers_times [where P = classes_ok]] class_read_ok delivers_return, simp_all add: classes_ok_def)
qed


lemma header_fresh: "delivers (policydb_read_header env) (\<lambda>(p, _, _). fresh p)"
  unfolding policydb_read_header_def Let_def
  by (intro delivers_any) (auto simp: fresh_def no_objects_def classes_ok_def symtab_zero_def policydb_init_def hashtab_nodes_def
      intro!: delivers_any delivers_return delivers_fail split: option.splits)

lemma symtab_fresh:
  assumes "fresh p"
  shows "delivers (read_symtab env p i) fresh"
proof (cases "i = SYM_CLASSES")
  case True
  show ?thesis
    unfolding True read_symtab.simps by (rule delivers_bind [OF class_table_ok]) (use assms in \<open>auto simp: fresh_def no_objects_def intro: delivers_return\<close>)
qed (use assms in \<open>cases i; auto simp: fresh_def no_objects_def intro!: delivers_any delivers_return\<close>)

lemma symtabs_fresh: "fresh p \<Longrightarrow> delivers (read_symtabs env is p) fresh"
  by (induction env "is" p rule: read_symtabs.induct) (auto intro: delivers_return delivers_bind symtab_fresh)

section \<open>The rules\<close>

text \<open>The checks of rules depend on the version and the symbols only.\<close>

definition core :: "policydb \<Rightarrow> u32 \<times> type_datum symtab \<times> class_datum symtab \<times> role_datum symtab \<times> cond_bool_datum symtab" where
  "core p = (policyvers p, p_types p, p_classes p, p_roles p, p_bools p)"

lemma core_cong:
  assumes "core p = core q"
  shows "policyvers p = policyvers q" "policydb_type_isvalid p = policydb_type_isvalid q" "policydb_class_isvalid p = policydb_class_isvalid q"
    "policydb_role_isvalid p = policydb_role_isvalid q" "rule_ok p = rule_ok q" "avtab_sound p = avtab_sound q"
    "expr_node_isvalid p = expr_node_isvalid q"
proof -
  show eq: "policyvers p = policyvers q" "policydb_type_isvalid p = policydb_type_isvalid q" "policydb_class_isvalid p = policydb_class_isvalid q"
    "policydb_role_isvalid p = policydb_role_isvalid q" "expr_node_isvalid p = expr_node_isvalid q"
    using assms by (auto simp: core_def fun_eq_iff policydb_type_isvalid_def policydb_class_isvalid_def policydb_role_isvalid_def expr_node_isvalid_def)
  show r: "rule_ok p = rule_ok q" unfolding rule_ok_def [abs_def] eq by simp
  show "avtab_sound p = avtab_sound q" unfolding avtab_sound_def [abs_def] r eq by simp
qed

lemma rules_ok_cong:
  assumes "core p = core q" "te_avtab p = te_avtab q" "te_cond_avtab p = te_cond_avtab q" "cond_list p = cond_list q"
    and "role_tr p = role_tr q" "p_role_allow p = p_role_allow q"
  shows "rules_ok p = rules_ok q"
proof -
  have "p_classes p = p_classes q" using assms(1) by (simp add: core_def)
  then show ?thesis
    unfolding rules_ok_def role_rules_ok_def cond_wf_def cond_list_addrs_def core_cong [OF assms(1)] assms(2-) by simp
qed

lemma cond_frame_const:
  assumes "cond_frame p q" "\<And>a b. f (q\<lparr>te_cond_avtab := a, cond_list := b\<rparr>) = f q"
  shows "f q = f p"
  using assms unfolding cond_frame_def by metis

lemma cond_frame_others:
  assumes "cond_frame p q"
  shows "core q = core p" "te_avtab q = te_avtab p" "p_role_allow q = p_role_allow p" "no_objects q = no_objects p"
  by (rule cond_frame_const [OF assms], simp add: core_def no_objects_def)+

lemma role_trans_item_ok:
  assumes "rules_ok p \<and> no_objects p"
  shows "delivers (role_trans_read_item p) (\<lambda>p. rules_ok p \<and> no_objects p)"
proof -
  have "rules_ok (p\<lparr>role_tr := t\<rparr>) \<and> no_objects (p\<lparr>role_tr := t\<rparr>)"
    if t: "hashtab_insert role_trans_hash role_trans_cmp (role_tr p) k new_role m = (OK, t, m')"
      and ok: "policydb_role_isvalid p (rtk_role k) \<and> policydb_type_isvalid p (rtk_type k) \<and> policydb_class_isvalid p (rtk_tclass k) \<and> policydb_role_isvalid p new_role"
    for t k new_role m m'
  proof -
    have c: "core (p\<lparr>role_tr := t\<rparr>) = core p" by (simp add: core_def)
    show ?thesis
      using assms ok hashtab_insert_nodes [OF t] unfolding rules_ok_def role_rules_ok_def cond_wf_def cond_list_addrs_def core_cong [OF c]
      by (fastforce simp: no_objects_def)
  qed
  then show ?thesis
    unfolding role_trans_read_item_def Let_def
    by (intro delivers_any [of _ _ rd_alloc] delivers_any [of _ _ "next_le32s 3"] delivers_any [of _ _ "if b then r else q" for b r q] delivers_check
        delivers_bind [OF delivers_step [where P = "\<lambda>t. rules_ok (p\<lparr>role_tr := t\<rparr>) \<and> no_objects (p\<lparr>role_tr := t\<rparr>)"]] delivers_return) auto
qed

lemma role_allow_item_ok:
  assumes "rules_ok p \<and> no_objects p"
  shows "delivers (role_allow_read_item p) (\<lambda>p. rules_ok p \<and> no_objects p)"
proof -
  have "rules_ok (p\<lparr>p_role_allow := p_role_allow p @ [ra]\<rparr>) \<and> no_objects (p\<lparr>p_role_allow := p_role_allow p @ [ra]\<rparr>)"
    if ok: "policydb_role_isvalid p (ra_role ra) \<and> policydb_role_isvalid p (ra_new_role ra)" for ra
  proof -
    have c: "core (p\<lparr>p_role_allow := p_role_allow p @ [ra]\<rparr>) = core p" by (simp add: core_def)
    show ?thesis
      using assms ok unfolding rules_ok_def role_rules_ok_def cond_wf_def cond_list_addrs_def core_cong [OF c] by (auto simp: no_objects_def)
  qed
  then show ?thesis
    unfolding role_allow_read_item_def Let_def
    by (intro delivers_any [of _ _ rd_alloc] delivers_any [of _ _ "next_le32s 2"] delivers_check delivers_return)
qed

text \<open>Name transitions touch nothing else.\<close>

definition ftrans_kept :: "policydb \<Rightarrow> policydb \<Rightarrow> bool" where
  "ftrans_kept p q \<longleftrightarrow> core q = core p \<and> te_avtab q = te_avtab p \<and> te_cond_avtab q = te_cond_avtab p \<and> cond_list q = cond_list p \<and>
     role_tr q = role_tr p \<and> p_role_allow q = p_role_allow p \<and> no_objects q = no_objects p"

lemma ftrans_kept_rules: "ftrans_kept p q \<Longrightarrow> rules_ok q = rules_ok p" "ftrans_kept p q \<Longrightarrow> no_objects q = no_objects p"
  by (rule rules_ok_cong) (simp_all add: ftrans_kept_def)

lemma ftrans_kept_simps [simp]:
  "ftrans_kept p p" "ftrans_kept p (q\<lparr>filename_trans := t\<rparr>) = ftrans_kept p q" "ftrans_kept p (q\<lparr>filename_trans_ttypes := e\<rparr>) = ftrans_kept p q"
  "ftrans_kept p (q\<lparr>compat_filename_trans_count := n\<rparr>) = ftrans_kept p q"
  by (simp_all add: ftrans_kept_def core_def no_objects_def)

lemma set_stype_kept: "ftrans_kept p q \<Longrightarrow> delivers (filenametr_set_stype env key stype ds i q) (ftrans_kept p)"
  unfolding filenametr_set_stype_def filenametr_assign_def by (intro delivers_any delivers_return) simp

lemma ftrans_helper_kept:
  "ftrans_kept p q \<Longrightarrow> delivers (filename_trans_read_helper_compat env q) (ftrans_kept p)"
  "ftrans_kept p q \<Longrightarrow> delivers (filename_trans_read_helper env q) (ftrans_kept p)"
  unfolding filename_trans_read_helper_compat_def filename_trans_read_helper_def Let_def
  by (auto intro!: delivers_any delivers_return set_stype_kept split: ftrans_walk.splits)

lemma filename_trans_kept: "delivers (filename_trans_read env p) (ftrans_kept p)"
  unfolding filename_trans_read_def
  by (intro delivers_if delivers_return delivers_any [of _ _ next_le32] delivers_any [of _ _ "rd_step f" for f] delivers_times ftrans_helper_kept) simp_all

text \<open>Indexing touches the index arrays only, and the entries for types and classes are those of the tables.\<close>

definition entries_from :: "'d option list \<Rightarrow> 'd symtab \<Rightarrow> bool" where
  "entries_from xs s \<longleftrightarrow> (\<forall>d. Some d \<in> set xs \<longrightarrow> d \<in> snd ` set (hashtab_nodes (st_table s)))"

definition structs_from :: "policydb \<Rightarrow> bool" where
  "structs_from p \<longleftrightarrow> entries_from (type_val_to_struct p) (p_types p) \<and> entries_from (class_val_to_struct p) (p_classes p)"

definition index_kept :: "policydb \<Rightarrow> policydb \<Rightarrow> bool" where
  "index_kept p q \<longleftrightarrow> ftrans_kept p q \<and> structs_from q \<and> p_commons q = p_commons p \<and> p_users q = p_users p \<and> p_levels q = p_levels p \<and> p_cats q = p_cats p"

lemma set_val_set: "Some d \<in> set (set_val xs v x) \<Longrightarrow> Some d \<in> set xs \<or> d = x"
  unfolding set_val_def using set_update_subset_insert by fastforce

lemma entries_from_set_val:
  assumes "entries_from xs s" "(key, d) \<in> set (hashtab_nodes (st_table s))"
  shows "entries_from (set_val xs v d) s"
  using assms set_val_set [of _ xs v d] by (force simp: entries_from_def)

lemma entries_from_replicate [simp]: "entries_from (replicate n None) s"
  by (simp add: entries_from_def)

lemma index_kept_simps [simp]:
  "index_kept p (q\<lparr>sym_val_to_name := a\<rparr>) = index_kept p q" "index_kept p (q\<lparr>role_val_to_struct := c\<rparr>) = index_kept p q"
  "index_kept p (q\<lparr>user_val_to_struct := d\<rparr>) = index_kept p q" "index_kept p (q\<lparr>bool_val_to_struct := e\<rparr>) = index_kept p q"
  unfolding index_kept_def ftrans_kept_def core_def no_objects_def structs_from_def by simp_all

lemma index_kept_structs:
  "index_kept p q \<Longrightarrow> entries_from xs (p_types q) \<Longrightarrow> index_kept p (q\<lparr>type_val_to_struct := xs\<rparr>)"
  "index_kept p q \<Longrightarrow> entries_from ys (p_classes q) \<Longrightarrow> index_kept p (q\<lparr>class_val_to_struct := ys\<rparr>)"
  unfolding index_kept_def ftrans_kept_def core_def no_objects_def structs_from_def by (elim conjE; simp)+

lemma index_funs_kept:
  "common_index key cd p = (OK, q) \<Longrightarrow> index_kept p0 p \<Longrightarrow> index_kept p0 q"
  "role_index key rd p = (OK, q) \<Longrightarrow> index_kept p0 p \<Longrightarrow> index_kept p0 q"
  "user_index key ud p = (OK, q) \<Longrightarrow> index_kept p0 p \<Longrightarrow> index_kept p0 q"
  "cond_index_bool key bd p = (OK, q) \<Longrightarrow> index_kept p0 p \<Longrightarrow> index_kept p0 q"
  "sens_index key ld p = (OK, q) \<Longrightarrow> index_kept p0 p \<Longrightarrow> index_kept p0 q"
  "cat_index key ct p = (OK, q) \<Longrightarrow> index_kept p0 p \<Longrightarrow> index_kept p0 q"
  by (auto simp: common_index_def role_index_def user_index_def cond_index_bool_def sens_index_def cat_index_def set_name_def split: if_splits)

lemma struct_index_kept:
  "(key, td) \<in> set (hashtab_nodes (st_table (p_types p))) \<Longrightarrow> type_index key td p = (OK, q) \<Longrightarrow> index_kept p0 p \<Longrightarrow> index_kept p0 q"
  "(key, cl) \<in> set (hashtab_nodes (st_table (p_classes p))) \<Longrightarrow> class_index key cl p = (OK, q) \<Longrightarrow> index_kept p0 p \<Longrightarrow> index_kept p0 q"
  by (auto simp: type_index_def class_index_def set_name_def split: if_splits intro!: index_kept_structs entries_from_set_val)
    (simp_all add: index_kept_def structs_from_def)

lemma index_table_kept:
  assumes "index_table s tab f p m = (OK, q, m')" "index_kept p0 p"
    and step: "\<And>key d p q. (key, d) \<in> set (hashtab_nodes (st_table (tab p))) \<Longrightarrow> f key d p = (OK, q) \<Longrightarrow> index_kept p0 p \<Longrightarrow> index_kept p0 q"
    and tab: "\<And>p q. index_kept p0 p \<Longrightarrow> index_kept p0 q \<Longrightarrow> tab p = tab q"
  shows "index_kept p0 q"
proof -
  define p1 where "p1 = p\<lparr>sym_val_to_name := (sym_val_to_name p)(s := replicate (unat (st_nprim (tab p))) None)\<rparr>"
  have m: "hashtab_map_nodes f (hashtab_nodes (st_table (tab p1))) p1 = (OK, q)"
    using assms(1) by (auto simp: index_table_def hashtab_map_def p1_def split: prod.splits elim!: then_ok_OK_E dest!: alloc_array_OK)
  have p1: "index_kept p0 p1"
    using assms(2) by (simp add: p1_def)
  show ?thesis by (rule hashtab_map_nodes_inv [where I = "index_kept p0", OF m p1]) (metis step tab p1)
qed

lemma index_kept_start:
  "index_kept p (p\<lparr>class_val_to_struct := replicate k None, role_val_to_struct := b, user_val_to_struct := c, type_val_to_struct := replicate n None\<rparr>)"
  unfolding index_kept_def ftrans_kept_def core_def no_objects_def structs_from_def by simp

lemma policydb_index_kept:
  assumes "policydb_index p m = (OK, p', m')"
  shows "index_kept p p'"
proof -
  have start: "index_kept p q" if "cond_init_bool_indexes (p\<lparr>class_val_to_struct := replicate k None, role_val_to_struct := b, user_val_to_struct := c,
      type_val_to_struct := replicate n None\<rparr>) m = (OK, q, m')" for k b c n m q m'
    using that by (auto simp: cond_init_bool_indexes_def index_kept_start split: prod.splits bool.splits)
  obtain q m0 q1 m1 q2 m2 q3 m3 q4 m4 q5 m5 q6 m6 q7 m7 where
      i1: "index_table SYM_COMMONS p_commons common_index q m0 = (OK, q1, m1)"
    and i2: "index_table SYM_CLASSES p_classes class_index q1 m1 = (OK, q2, m2)"
    and i3: "index_table SYM_ROLES p_roles role_index q2 m2 = (OK, q3, m3)"
    and i4: "index_table SYM_TYPES p_types type_index q3 m3 = (OK, q4, m4)"
    and i5: "index_table SYM_USERS p_users user_index q4 m4 = (OK, q5, m5)"
    and i6: "index_table SYM_BOOLS p_bools cond_index_bool q5 m5 = (OK, q6, m6)"
    and i7: "index_table SYM_LEVELS p_levels sens_index q6 m6 = (OK, q7, m7)"
    and i8: "index_table SYM_CATS p_cats cat_index q7 m7 = (OK, p', m')"
    and i0: "index_kept p q"
    using assms unfolding policydb_index_def by (auto elim!: then_ok_OK_E dest!: alloc_array_OK start)
  note kept = index_kept_def ftrans_kept_def core_def
  have "index_kept p q1" by (rule index_table_kept [OF i1 i0]) (use index_funs_kept(1) in blast, simp add: kept)
  then have "index_kept p q2" by (rule index_table_kept [OF i2]) (use struct_index_kept(2) in blast, simp add: kept)
  then have "index_kept p q3" by (rule index_table_kept [OF i3]) (use index_funs_kept(2) in blast, simp add: kept)
  then have "index_kept p q4" by (rule index_table_kept [OF i4]) (use struct_index_kept(1) in blast, simp add: kept)
  then have "index_kept p q5" by (rule index_table_kept [OF i5]) (use index_funs_kept(3) in blast, simp add: kept)
  then have "index_kept p q6" by (rule index_table_kept [OF i6]) (use index_funs_kept(4) in blast, simp add: kept)
  then have "index_kept p q7" by (rule index_table_kept [OF i7]) (use index_funs_kept(5) in blast, simp add: kept)
  then show ?thesis by (rule index_table_kept [OF i8]) (use index_funs_kept(6) in blast, simp add: kept)
qed

text \<open>The policy after its rules were read and it was indexed.\<close>

definition indexed_ok :: "policydb \<Rightarrow> bool" where
  "indexed_ok p \<longleftrightarrow> rules_ok p \<and> no_objects p \<and> structs_ok p \<and> (\<forall>s. names_ok p s) \<and> structs_from p"

lemma cond_phase_ok:
  assumes "fresh p" "avtab_sound p t"
  shows "delivers (if policyvers (p\<lparr>te_avtab := t\<rparr>) \<ge> POLICYDB_VERSION_BOOL then cond_read_list stack (p\<lparr>te_avtab := t\<rparr>) else rd_return (p\<lparr>te_avtab := t\<rparr>))
    (\<lambda>q. avtab_sound q (te_avtab q) \<and> cond_wf q [] \<and> p_role_allow q = [] \<and> no_objects q \<and> classes_ok (p_classes q))"
proof -
  let ?p = "p\<lparr>te_avtab := t\<rparr>"
  have c: "core ?p = core p" by (simp add: core_def)
  have p: "te_cond_avtab ?p = avtab_init" "avtab_sound ?p (te_avtab ?p)" "p_role_allow ?p = []" "no_objects ?p" "classes_ok (p_classes ?p)"
    using assms core_cong(6) [OF c] by (simp_all add: fresh_def no_objects_def)
  have "delivers (cond_read_list stack ?p) (\<lambda>q. avtab_sound q (te_avtab q) \<and> cond_wf q [] \<and> p_role_allow q = [] \<and> no_objects q \<and> classes_ok (p_classes q))"
  proof (rule delivers_mono [OF cond_read_list_ok [OF p(1)]])
    fix q
    assume "cond_sound ?p q"
    then have "cond_frame ?p q" "cond_wf q []" by (simp_all add: cond_sound_def)
    then show "avtab_sound q (te_avtab q) \<and> cond_wf q [] \<and> p_role_allow q = [] \<and> no_objects q \<and> classes_ok (p_classes q)"
      using cond_frame_others [OF \<open>cond_frame ?p q\<close>] core_cong(6) p(2-) cond_frame_fields(3) [OF \<open>cond_frame ?p q\<close>] by metis
  qed
  moreover have "cond_wf ?p []"
    using assms(1) by (simp add: cond_wf_def fresh_def avtab_init_def avtab_wf_def avtab_nodes_def avtab_rules_def cond_list_addrs_def)
  ultimately show ?thesis using p by (intro delivers_if delivers_return) auto
qed

lemma role_tr_start:
  assumes "avtab_sound q (te_avtab q) \<and> cond_wf q [] \<and> p_role_allow q = [] \<and> no_objects q \<and> classes_ok (p_classes q)" "hashtab_nodes t = []"
  shows "rules_ok (q\<lparr>role_tr := t\<rparr>) \<and> no_objects (q\<lparr>role_tr := t\<rparr>)"
proof -
  have c: "core (q\<lparr>role_tr := t\<rparr>) = core q" by (simp add: core_def)
  show ?thesis
    using assms unfolding rules_ok_def role_rules_ok_def cond_wf_def cond_list_addrs_def core_cong [OF c] by (simp add: no_objects_def)
qed

lemma index_phase_ok:
  assumes "rules_ok p \<and> no_objects p" "ftrans_kept p q" "policydb_index q m = (OK, q', m')"
  shows "indexed_ok q'"
proof -
  have "rules_ok q" "no_objects q" using assms(1) ftrans_kept_rules [OF assms(2)] by simp_all
  moreover have "index_kept q q'" by (rule policydb_index_kept [OF assms(3)])
  moreover have "index_inv q UNIV q'" by (rule policydb_index_inv [OF assms(3)])
  ultimately show ?thesis
    using ftrans_kept_rules [of q q'] by (simp add: indexed_ok_def index_kept_def index_inv_def)
qed

lemma read_rules_ok:
  assumes "fresh p"
  shows "delivers (policydb_read_rules env n p) indexed_ok"
proof -
  have sound: "delivers (avtab_read stack (q\<lparr>process_class := c\<rparr>) (te_avtab (q\<lparr>process_class := c\<rparr>))) (avtab_sound (q\<lparr>process_class := c\<rparr>))"
    if "fresh q" for q c stack using avtab_read_sound that by (simp add: fresh_def)
  have proc: "fresh (q\<lparr>process_class := c\<rparr>)" if "fresh q" for q c using that by (simp add: fresh_def no_objects_def)
  show ?thesis
    unfolding policydb_read_rules_def Let_def
    by (intro delivers_bind [OF symtabs_fresh [OF assms]] delivers_check delivers_bind [OF sound] delivers_bind [OF cond_phase_ok]
        delivers_any [of _ _ next_le32] delivers_bind [OF delivers_step [where P = "\<lambda>t. hashtab_nodes t = []"]]
        delivers_bind [OF delivers_times [where P = "\<lambda>p. rules_ok p \<and> no_objects p"]] delivers_bind [OF filename_trans_kept] delivers_step
        role_tr_start role_trans_item_ok role_allow_item_ok)
      (auto intro: proc hashtab_init_nodes index_phase_ok)
qed

section \<open>The labels\<close>

text \<open>The validity of contexts and ranges does not depend on what the rest of the image fills in.\<close>

lemma isvalid_update [simp]:
  "mls_level_isvalid (p\<lparr>ocontexts := a\<rparr>) = mls_level_isvalid p" "mls_level_isvalid (p\<lparr>p_genfs := b\<rparr>) = mls_level_isvalid p"
  "mls_level_isvalid (p\<lparr>range_tr := c\<rparr>) = mls_level_isvalid p" "mls_level_isvalid (p\<lparr>type_attr_map_array := d\<rparr>) = mls_level_isvalid p"
  "mls_level_isvalid (p\<lparr>process_trans_perms := e\<rparr>) = mls_level_isvalid p"
  by (simp_all add: fun_eq_iff mls_level_isvalid_def sym_name_def cong: option.case_cong)

lemma range_isvalid_update [simp]:
  "mls_range_isvalid (p\<lparr>ocontexts := a\<rparr>) = mls_range_isvalid p" "mls_range_isvalid (p\<lparr>p_genfs := b\<rparr>) = mls_range_isvalid p"
  "mls_range_isvalid (p\<lparr>range_tr := c\<rparr>) = mls_range_isvalid p" "mls_range_isvalid (p\<lparr>type_attr_map_array := d\<rparr>) = mls_range_isvalid p"
  "mls_range_isvalid (p\<lparr>process_trans_perms := e\<rparr>) = mls_range_isvalid p"
  by (simp_all add: fun_eq_iff mls_range_isvalid_def)

lemma context_isvalid_update [simp]:
  "policydb_context_isvalid (p\<lparr>ocontexts := a\<rparr>) = policydb_context_isvalid p" "policydb_context_isvalid (p\<lparr>p_genfs := b\<rparr>) = policydb_context_isvalid p"
  "policydb_context_isvalid (p\<lparr>range_tr := c\<rparr>) = policydb_context_isvalid p"
  "policydb_context_isvalid (p\<lparr>type_attr_map_array := d\<rparr>) = policydb_context_isvalid p"
  "policydb_context_isvalid (p\<lparr>process_trans_perms := e\<rparr>) = policydb_context_isvalid p"
  by (simp_all add: fun_eq_iff policydb_context_isvalid_def mls_context_isvalid_def Let_def cong: option.case_cong)

definition loaded_ok :: "policydb \<Rightarrow> bool" where
  "loaded_ok p \<longleftrightarrow> rules_ok p \<and> structs_ok p \<and> (\<forall>s. names_ok p s) \<and> structs_from p \<and> labels_ok p \<and> range_rules_ok p"

lemma loaded_static:
  "rules_ok (p\<lparr>ocontexts := a\<rparr>) = rules_ok p" "rules_ok (p\<lparr>p_genfs := b\<rparr>) = rules_ok p" "rules_ok (p\<lparr>range_tr := c\<rparr>) = rules_ok p"
  "rules_ok (p\<lparr>type_attr_map_array := d\<rparr>) = rules_ok p" "rules_ok (p\<lparr>process_trans_perms := e\<rparr>) = rules_ok p"
  by (rule rules_ok_cong, simp_all add: core_def)+

lemma names_static:
  "names_ok (p\<lparr>ocontexts := a\<rparr>) s = names_ok p s" "names_ok (p\<lparr>p_genfs := b\<rparr>) s = names_ok p s" "names_ok (p\<lparr>range_tr := c\<rparr>) s = names_ok p s"
  "names_ok (p\<lparr>type_attr_map_array := d\<rparr>) s = names_ok p s" "names_ok (p\<lparr>process_trans_perms := e\<rparr>) s = names_ok p s"
  by (cases s; simp)+

lemmas loaded_simps = loaded_ok_def loaded_static names_static structs_ok_def structs_from_def

lemma context_read_valid: "delivers (context_read_and_validate p) (policydb_context_isvalid p)"
  unfolding context_read_and_validate_def Let_def
  by (intro delivers_any [of _ _ "next_le32s 3"] delivers_any [of _ _ "if b then r else q" for b r q] delivers_check delivers_return)

lemma ocontext_item_ok:
  "delivers (ocontext_read_item p i) (\<lambda>c. policydb_context_isvalid p (oc_context0 c) \<and>
    (i = OCON_FS \<or> i = OCON_NETIF \<longrightarrow> policydb_context_isvalid p (oc_context1 c)))"
  by (cases i; hypsubst; unfold ocontext_read_item.simps ocontext_read_named_def;
      intro delivers_bind [OF context_read_valid] delivers_any delivers_return; simp)

lemma ocontext_kinds_ok: "loaded_ok p \<Longrightarrow> delivers (ocontext_read_kinds kinds p) loaded_ok"
proof (induction kinds p rule: ocontext_read_kinds.induct)
  case (1 p)
  then show ?case by (simp add: delivers_return)
next
  case (2 i kinds p)
  let ?ok = "\<lambda>c. policydb_context_isvalid p (oc_context0 c) \<and> (i = OCON_FS \<or> i = OCON_NETIF \<longrightarrow> policydb_context_isvalid p (oc_context1 c))"
  have items: "delivers (rd_times n (\<lambda>cs. rd_bind rd_alloc (\<lambda>_. rd_bind (ocontext_read_item p i) (\<lambda>c. rd_return (cs @ [c])))) []) (\<lambda>cs. \<forall>c \<in> set cs. ?ok c)" for n
    by (intro delivers_times delivers_any [of _ _ rd_alloc] delivers_bind [OF ocontext_item_ok] delivers_return) auto
  have "loaded_ok (p\<lparr>ocontexts := (ocontexts p)(i := cs)\<rparr>)" if "\<forall>c \<in> set cs. ?ok c" for cs
    using "2.prems" that by (auto simp: loaded_simps labels_ok_def range_rules_ok_def policydb_type_isvalid_def policydb_class_isvalid_def)
  then show ?case using "2.IH" by (auto intro!: delivers_any [of _ _ next_le32] delivers_bind [OF items])
qed

lemma genfs_item_ok:
  assumes "loaded_ok p"
  shows "delivers (genfs_read_item p) loaded_ok"
proof -
  let ?ok = "\<lambda>cs. \<forall>c \<in> set cs. policydb_context_isvalid p (oc_context0 c)"
  have link: "set (list_link i x xs) \<subseteq> insert x (set xs)" for i x and xs :: "'a list"
    unfolding list_link_def using set_take_subset [of i xs] set_drop_subset [of i xs] by auto
  have entry: "delivers (genfs_read_entry p cs) ?ok" if "?ok cs" for cs
    unfolding genfs_read_entry_def
    by (intro delivers_any [of _ _ next_le32] delivers_any [of _ _ rd_alloc] delivers_any [of _ _ "str_read n" for n] delivers_bind [OF context_read_valid])
      (use that link in \<open>fastforce split: option.splits intro: delivers_fail delivers_return\<close>)
  have "loaded_ok (p\<lparr>p_genfs := list_link i \<lparr>gf_fstype = f, gf_head = cs\<rparr> (p_genfs p)\<rparr>)" if "?ok cs" for i f cs
    using assms that link [of i "\<lparr>gf_fstype = f, gf_head = cs\<rparr>" "p_genfs p"]
    by (fastforce simp: loaded_simps labels_ok_def range_rules_ok_def policydb_type_isvalid_def policydb_class_isvalid_def)
  then show ?thesis
    unfolding genfs_read_item_def
    by (intro delivers_any [of _ _ next_le32] delivers_any [of _ _ rd_alloc] delivers_any [of _ _ "str_read n" for n])
      (auto split: option.splits intro!: delivers_fail delivers_any [of _ _ next_le32] delivers_bind [OF delivers_times [of ?ok, OF _ entry]] delivers_return)
qed

lemma range_item_ok:
  assumes "loaded_ok p"
  shows "delivers (range_read_item p) loaded_ok"
proof -
  have "loaded_ok (p\<lparr>range_tr := t\<rparr>)" if t: "hashtab_insert rangetr_hash rangetr_cmp (range_tr p) k r m = (OK, t, m')"
      "policydb_type_isvalid p (rt_source_type k) \<and> policydb_type_isvalid p (rt_target_type k) \<and> policydb_class_isvalid p (rt_target_class k)"
      "mls_range_isvalid p r" for t k r m m'
    using assms t(2,3) hashtab_insert_nodes [OF t(1)]
    by (fastforce simp: loaded_simps labels_ok_def range_rules_ok_def policydb_type_isvalid_def policydb_class_isvalid_def)
  then show ?thesis
    unfolding range_read_item_def Let_def
    by (intro delivers_any [of _ _ rd_alloc] delivers_any [of _ _ "next_le32s 2"] delivers_any [of _ _ "if b then r else q" for b r q]
        delivers_any [of _ _ mls_read_range_helper] delivers_check delivers_bind [OF delivers_step [where P = "\<lambda>t. loaded_ok (p\<lparr>range_tr := t\<rparr>)"]] delivers_return) auto
qed

section \<open>The whole policy\<close>

lemma attr_items_ok:
  assumes "n \<le> 2 ^ 31"
  shows "delivers (rd_times n (type_attr_read_item p) []) (\<lambda>es. length es = n \<and> (\<forall>i < n. ebitmap_wf (es ! i) \<and> ebitmap_get_bit (es ! i) i))"
proof (rule delivers_times_nat [where P = "\<lambda>k es. length es = k \<and> (\<forall>i < k. ebitmap_wf (es ! i) \<and> ebitmap_get_bit (es ! i) i)"])
  fix k es
  assume k: "k < n" and es: "length es = k \<and> (\<forall>i < k. ebitmap_wf (es ! i) \<and> ebitmap_get_bit (es ! i) i)"
  have pos: "ebitmap_pos (length es)" using k es assms by (intro ebitmap_pos_small) simp
  have wf: "delivers (if policyvers p \<ge> POLICYDB_VERSION_AVTAB then ebitmap_read else rd_return ebitmap_init) ebitmap_wf"
    by (intro delivers_if ebitmap_read_wf delivers_return) (simp add: ebitmap_init_def ebitmap_wf_def nodes_wf_def nodes_end_def)
  show "delivers (type_attr_read_item p es) (\<lambda>es. length es = Suc k \<and> (\<forall>i < Suc k. ebitmap_wf (es ! i) \<and> ebitmap_get_bit (es ! i) i))"
    unfolding type_attr_read_item_def
  proof (intro delivers_bind [OF wf] delivers_bind [OF delivers_step [where P = "\<lambda>e. ebitmap_wf e \<and> ebitmap_get_bit e (length es)"]] delivers_return)
    fix e m e' m'
    assume "ebitmap_wf e" "ebitmap_set_bit e (length es) True m = (OK, e', m')"
    then show "ebitmap_wf e' \<and> ebitmap_get_bit e' (length es)" using ebitmap_set_bit_ok [of e "length es" True m e' m'] pos by (simp add: ebitmap_get_bit_iff)
  qed (use es in \<open>auto simp: nth_append less_Suc_eq\<close>)
qed simp

lemma read_objects_ok:
  assumes "indexed_ok p" "policydb_read_objects env n p s = Inr (q, s')" "unat (st_nprim (p_types q)) \<le> 2 ^ 31"
  shows "loaded_ok q \<and> attr_map_ok q"
proof -
  have start: "loaded_ok (p\<lparr>process_trans_perms := w\<rparr>)" for w
    using assms(1) by (simp add: indexed_ok_def loaded_simps labels_ok_def range_rules_ok_def no_objects_def)
  have range0: "loaded_ok (p\<lparr>range_tr := t\<rparr>)" if "loaded_ok p" "hashtab_nodes t = []" for p t
    using that by (simp add: loaded_simps labels_ok_def range_rules_ok_def)
  have range: "delivers (range_read env p) loaded_ok" if "loaded_ok p" for p
    unfolding range_read_def
    by (intro delivers_if delivers_return delivers_any [of _ _ next_le32] delivers_bind [OF delivers_step [where P = "\<lambda>t. hashtab_nodes t = []"]] delivers_times range_item_ok)
      (use that range0 hashtab_init_nodes in blast)+
  have genfs: "delivers (genfs_read p) loaded_ok" if "loaded_ok p" for p
    unfolding genfs_read_def using that by (intro delivers_any [of _ _ next_le32] delivers_times genfs_item_ok)
  have oc: "delivers (ocontext_read n p) loaded_ok" if "loaded_ok p" for p
    unfolding ocontext_read_def using that by (rule ocontext_kinds_ok)
  have map: "delivers (rd_bind (rd_times (unat (st_nprim (p_types p))) (type_attr_read_item p) []) (\<lambda>es. rd_return (p\<lparr>type_attr_map_array := es\<rparr>)))
      (\<lambda>q. unat (st_nprim (p_types q)) \<le> 2 ^ 31 \<longrightarrow> loaded_ok q \<and> attr_map_ok q)" if p: "loaded_ok p" for p
  proof (cases "unat (st_nprim (p_types p)) \<le> 2 ^ 31")
    case True
    show ?thesis
      by (rule delivers_bind [OF attr_items_ok [OF True]])
        (use p in \<open>auto simp: attr_map_ok_def loaded_simps labels_ok_def range_rules_ok_def policydb_type_isvalid_def policydb_class_isvalid_def intro!: delivers_return\<close>)
  qed (auto intro!: delivers_any delivers_return)
  have "delivers (policydb_read_objects env n p) (\<lambda>q. unat (st_nprim (p_types q)) \<le> 2 ^ 31 \<longrightarrow> loaded_ok q \<and> attr_map_ok q)"
    unfolding policydb_read_objects_def Let_def
    by (intro delivers_check delivers_bind [OF oc [OF start]] delivers_bind [OF genfs] delivers_bind [OF range] delivers_any [of _ _ rd_alloc] map)
  then show ?thesis using assms(2,3) by (blast dest: deliversD)
qed

lemma policydb_read_phases:
  assumes "policydb_read env s = Some (Inr (p, s'))"
  obtains q n s1 where "indexed_ok q" "policydb_read_objects env n q s1 = Inr (p, s')" "policydb_bounds_sanity_check p = (OK, False)"
proof -
  let ?r = "rd_bind (policydb_read_header env) (\<lambda>(p, sym_num, ocon_num). rd_bind (policydb_read_rules env sym_num p) (\<lambda>p. rd_return (p, ocon_num)))"
  obtain q n s1 where q: "?r s = Inr ((q, n), s1)" "policydb_read_objects env n q s1 = Inr (p, s')" "policydb_bounds_sanity_check p = (OK, False)"
    using assms unfolding policydb_read_def by (auto split: sum.splits prod.splits if_splits option.splits bool.splits)
  have "delivers ?r (\<lambda>(q, _). indexed_ok q)"
    by (rule delivers_bind [OF header_fresh]) (auto intro!: delivers_bind [OF read_rules_ok] delivers_return)
  then have "indexed_ok q" using q(1) by (auto dest: deliversD)
  then show ?thesis using q(2,3) that by blast
qed

section \<open>A small image\<close>

text \<open>
  A policy with one class, one type, one role and one rule. Its image is split at the places where the
  reader asks for the next bytes, so that simplification reads it.
\<close>

definition str_bytes :: "string \<Rightarrow> u8 list" where
  "str_bytes s = map of_char s"

definition sample_env :: image_env where
  "sample_env = \<lparr>env_stack = (\<lambda>_. []), env_get_order = (\<lambda>_. 0), env_MAX_ORDER = 10, env_partial_name_hash = (\<lambda>_ h. h), env_MAGIC = 0xf97cff8c\<rparr>"

definition sample_symbols :: "u8 list" where
  "sample_symbols =
     le32s_bytes [0, 0] @
     le32s_bytes [1, 1] @ le32s_bytes [7, 0, 1, 2, 2, 0] @ str_bytes ''process'' @ le32s_bytes [10, 1] @ str_bytes ''transition'' @
       le32s_bytes [13, 2] @ str_bytes ''dyntransition'' @ le32s_bytes [0] @ le32s_bytes [0, 0, 0] @ le32s_bytes [0] @
     le32s_bytes [1, 1] @ le32s_bytes [8, 1, 0] @ str_bytes ''object_r'' @ le32s_bytes [64, 0, 0] @ le32s_bytes [64, 0, 0] @
     le32s_bytes [1, 1] @ le32s_bytes [1, 1, 1, 0] @ str_bytes ''t'' @
     le32s_bytes [0, 0] @ le32s_bytes [0, 0] @ le32s_bytes [0, 0] @ le32s_bytes [0, 0]"

definition sample_image :: "u8 list" where
  "sample_image =
     le32s_bytes [0xf97cff8c, 8] @ str_bytes ''SE Linux'' @ le32s_bytes [33, 4, 8, 9] @ le32s_bytes [64, 0, 0] @ le32s_bytes [64, 0, 0] @
     sample_symbols @
     le32s_bytes [1] @ le16s_bytes [1, 1, 1, 1] @ le32s_bytes [3] @ le32s_bytes [0] @ le32s_bytes [0] @ le32s_bytes [0] @ le32s_bytes [0] @
     le32s_bytes [0] @ le32s_bytes [0] @ le32s_bytes [0] @ le32s_bytes [0] @ le32s_bytes [0] @ le32s_bytes [0] @ le32s_bytes [0] @
     le32s_bytes [0] @ le32s_bytes [0] @ le32s_bytes [0] @ le32s_bytes [0] @ le32s_bytes [64, 0, 0] @ []"

definition one_entry :: "string \<Rightarrow> 'd \<Rightarrow> 'd symtab" where
  "one_entry k d = \<lparr>st_table = \<lparr>ht_htable = [[(k, d)]], ht_size = 1, ht_nel = 1\<rparr>, st_nprim = 1\<rparr>"

definition sample_process :: class_datum where
  "sample_process =
     \<lparr>cla_value = 1, cla_comkey = None, cla_comdatum = None,
      cla_permissions = \<lparr>st_table = \<lparr>ht_htable = [[(''dyntransition'', \<lparr>perm_value = 2\<rparr>), (''transition'', \<lparr>perm_value = 1\<rparr>)], []],
        ht_size = 2, ht_nel = 2\<rparr>, st_nprim = 2\<rparr>,
      cla_constraints = [], cla_validatetrans = [], default_user = 0, default_role = 0, default_type = 0, default_range = 0\<rparr>"

definition sample_role :: role_datum where
  "sample_role = \<lparr>role_value = 1, role_bounds = 0, role_dominates = ebitmap_init, role_types = ebitmap_init\<rparr>"

definition sample_te :: avtab where
  "sample_te =
     \<lparr>av_htable = [[\<lparr>an_key = \<lparr>source_type = 1, target_type = 1, target_class = 1, specified = 1\<rparr>, an_datum = Data 3, an_addr = 0\<rparr>], []],
      av_nel = 1, av_nslot = 2, av_mask = 1\<rparr>"

definition sample_start :: policydb where
  "sample_start = policydb_init\<lparr>policyvers := 33, allow_unknown := True\<rparr>"

definition sample_rules :: policydb where
  "sample_rules = sample_start\<lparr>p_classes := one_entry ''process'' sample_process, p_roles := one_entry ''object_r'' sample_role,
     p_types := one_entry ''t'' (sample_type 1 0), process_class := 1, te_avtab := sample_te,
     te_cond_avtab := \<lparr>av_htable = [[], []], av_nel = 0, av_nslot = 2, av_mask = 1\<rparr>\<rparr>"

definition sample_indexed :: policydb where
  "sample_indexed = sample_rules\<lparr>sym_val_to_name := (\<lambda>_. [])(SYM_CLASSES := [Some ''process''], SYM_ROLES := [Some ''object_r''], SYM_TYPES := [Some ''t'']),
     class_val_to_struct := [Some sample_process], role_val_to_struct := [Some sample_role], type_val_to_struct := [Some (sample_type 1 0)]\<rparr>"

definition sample_policy :: policydb where
  "sample_policy = sample_indexed\<lparr>process_trans_perms := 3, type_attr_map_array := [ebitmap_single 0]\<rparr>"

text \<open>Congruences that keep the simplifier out of what runs later.\<close>

lemma rd_bind_later: "rd_bind r f s = rd_bind r f s" ..

lemma rd_times_later: "n = n' \<Longrightarrow> rd_times n f x = rd_times n' f x"
  by simp

lemma then_ok_later: "a = a' \<Longrightarrow> then_ok a f = then_ok a' f"
  by simp

text \<open>The next bytes of an image in pieces.\<close>

lemma le32s_next: "length ws = n \<Longrightarrow> next_le32s n (le32s_bytes ws @ rest, m) = Inr (ws, rest, m)"
proof -
  assume n: "length ws = n"
  have "length (concat (map (le_bytes 4) ws)) = 4 * n" unfolding n [symmetric] by (induction ws) simp_all
  then show ?thesis using split_bytes_concat [of ws] n by (simp add: next_le32s_def le32s_bytes_def rd_bind_def next_entry_def rd_return_def)
qed

lemma le16s_next: "length ws = n \<Longrightarrow> next_le16s n (le16s_bytes ws @ rest, m) = Inr (ws, rest, m)"
proof -
  assume n: "length ws = n"
  have "length (concat (map (le_bytes 2) ws)) = 2 * n" unfolding n [symmetric] by (induction ws) simp_all
  then show ?thesis using split_bytes_concat16 [of ws] n by (simp add: next_le16s_def le16s_bytes_def rd_bind_def next_entry_def rd_return_def)
qed

lemma le32_next: "next_le32 (le32s_bytes [w] @ rest, m) = Inr (w, rest, m)"
  by (simp add: next_le32_def le32s_bytes_def rd_bind_def next_entry_def rd_return_def)

lemma entry_next: "length s = n \<Longrightarrow> next_entry n (str_bytes s @ rest, m) = Inr (str_bytes s, rest, m)"
  by (simp add: next_entry_def str_bytes_def)

lemma c_string_bytes: "CHR 0x00 \<notin> set s \<Longrightarrow> c_string (str_bytes s) = s"
proof (induction s)
  case (Cons c s)
  have "unat (of_char c :: u8) = (of_char c :: nat)"
    using unsigned_of_nat [of "of_char c :: nat", where ?'b = 8 and ?'a = nat] nat_of_char_less_256 [of c] by (simp add: of_nat_of_char take_bit_nat_eq_self)
  then have c: "char_of (unat (of_char c :: u8)) = c" by simp
  moreover have "(of_char c :: u8) \<noteq> 0" using Cons.prems c by (auto simp: char_of_def)
  ultimately show ?case using Cons by (simp add: c_string_def str_bytes_def)
qed (simp add: c_string_def str_bytes_def)

lemma str_next:
  "unat len = length s \<Longrightarrow> len \<noteq> 0 \<Longrightarrow> len \<noteq> 0xffffffff \<Longrightarrow> CHR 0x00 \<notin> set s \<Longrightarrow> str_read len (str_bytes s @ rest, []) = Inr (s, rest, [])"
  by (simp add: str_read_def rd_bind_def rd_alloc_def rd_step_def entry_next c_string_bytes rd_return_def)

lemma ebitmap_next: "ebitmap_read (le32s_bytes [64, 0, 0] @ rest, m) = Inr (ebitmap_init, rest, m)"
  by (simp add: ebitmap_read_def rd_bind_def le32s_next rd_check_def rd_return_def ebitmap_init_def)

lemma rd_bind_return: "rd_bind r rd_return = r"
  by (auto simp: fun_eq_iff rd_bind_def rd_return_def split: sum.split)

lemma rd_bind_ok: "r s = Inr (x, s') \<Longrightarrow> rd_bind r f s = f x s'"
  by (simp add: rd_bind_def)

lemma rd_times_num: "rd_times 1 f x = f x" "rd_times 2 f x = rd_bind (f x) f"
proof -
  have one: "rd_times (Suc 0) f = f" for f :: "'a \<Rightarrow> 'a reader"
  proof
    fix x
    have "rd_times 0 f = rd_return" by (simp add: fun_eq_iff)
    then show "rd_times (Suc 0) f x = f x" by (simp only: rd_times.simps(2) rd_bind_return)
  qed
  show "rd_times 1 f x = f x" "rd_times 2 f x = rd_bind (f x) f" by (simp_all add: one numeral_2_eq_2)
qed

lemma replicate_2: "replicate 2 x = [x, x]"
  by (simp add: numeral_2_eq_2)

lemma new_table:
  "new_symtab sample_env 0 s = Inr (symtab_zero, s)"
  "new_symtab sample_env 1 (bs, []) = Inr (\<lparr>st_table = \<lparr>ht_htable = [[]], ht_size = 1, ht_nel = 0\<rparr>, st_nprim = 0\<rparr>, bs, [])"
  "new_symtab sample_env 2 (bs, []) = Inr (\<lparr>st_table = \<lparr>ht_htable = [[], []], ht_size = 2, ht_nel = 0\<rparr>, st_nprim = 0\<rparr>, bs, [])"
  by (cases s) (simp_all add: new_symtab_def symtab_init_def hashtab_init_def hashtab_compute_size_def roundup_pow_of_two_def Let_def upt_rec
      is_order_out_of_range_def sample_env_def symtab_zero_def rd_step_def replicate_2)

lemma sample_hashes:
  "symhash ''transition'' AND 1 = 0" "symhash ''dyntransition'' AND 1 = 0"
  "avtab_hash \<lparr>source_type = 1, target_type = 1, target_class = 1, specified = 1\<rparr> 1 = 0"
  by code_simp+

lemmas image_next = le32s_next le16s_next le32_next str_next ebitmap_next entry_next c_string_bytes rd_times_num
lemmas image_eval = rd_bind_def rd_check_def rd_return_def rd_fail_def rd_step_def rd_alloc_def Let_def
lemmas table_eval = new_table symtab_insert_def hashtab_insert_def HASHTAB_MAX_NODES_def hashtab_link_def symcmp_def sample_hashes one_entry_def

lemma sample_header:
  "policydb_read_header sample_env (le32s_bytes [0xf97cff8c, 8] @ str_bytes ''SE Linux'' @ le32s_bytes [33, 4, 8, 9] @
     le32s_bytes [64, 0, 0] @ le32s_bytes [64, 0, 0] @ rest, []) = Inr ((sample_start, 8, 9), rest, [])"
  by (simp add: policydb_read_header_def image_next image_eval sample_env_def policydb_lookup_compat_def policydb_compat_def sample_start_def
      policydb_init_def cong: rd_bind_later rd_times_later)

lemma sample_classes:
  assumes "policyvers p = 33"
  shows "read_table sample_env rd_return (class_read sample_env p) (le32s_bytes [1, 1] @ le32s_bytes [7, 0, 1, 2, 2, 0] @ str_bytes ''process'' @
      le32s_bytes [10, 1] @ str_bytes ''transition'' @ le32s_bytes [13, 2] @ str_bytes ''dyntransition'' @ le32s_bytes [0] @ le32s_bytes [0, 0, 0] @
      le32s_bytes [0] @ rest, []) = Inr (one_entry ''process'' sample_process, rest, [])"
  using assms by (simp add: read_table_def class_read_def perm_read_def read_cons_helper_def image_next image_eval table_eval default_char_def
      sample_process_def cong: rd_bind_later rd_times_later)

lemma sample_roles:
  assumes "policyvers p = 33"
  shows "read_table sample_env roles_init (role_read p) (le32s_bytes [1, 1] @ le32s_bytes [8, 1, 0] @ str_bytes ''object_r'' @ le32s_bytes [64, 0, 0] @
      le32s_bytes [64, 0, 0] @ rest, []) = Inr (one_entry ''object_r'' sample_role, rest, [])"
  using assms by (simp add: read_table_def roles_init_def role_read_def image_next image_eval table_eval sample_role_def cong: rd_bind_later rd_times_later)

lemma sample_types:
  assumes "policyvers p = 33"
  shows "read_table sample_env rd_return (type_read p) (le32s_bytes [1, 1] @ le32s_bytes [1, 1, 1, 0] @ str_bytes ''t'' @ rest, []) =
      Inr (one_entry ''t'' (sample_type 1 0), rest, [])"
  using assms by (simp add: read_table_def type_read_def image_next image_eval table_eval sample_type_def cong: rd_bind_later rd_times_later)

lemma sample_no_entries: "read_table sample_env rd_return f (le32s_bytes [0, 0] @ rest, []) = Inr (symtab_zero, rest, [])"
  by (simp add: read_table_def image_next image_eval table_eval symtab_zero_def cong: rd_bind_later rd_times_later)

lemma sample_avtab:
  assumes "policyvers p = 33" "p_types p = one_entry ''t'' (sample_type 1 0)" "p_classes p = one_entry ''process'' sample_process"
  shows "avtab_read stack p avtab_init (le32s_bytes [1] @ le16s_bytes [1, 1, 1, 1] @ le32s_bytes [3] @ rest, []) = Inr (sample_te, rest, [])"
  using assms by (simp add: avtab_read_def avtab_read_item_def image_next image_eval policydb_type_isvalid_def policydb_class_isvalid_def table_eval spec_order_def
      avtab_alloc_def avtab_alloc_common_def avtab_shift.simps avtab_init_def replicate_2 avtab_insertf_def avtab_insert_def avtab_insert_node_def
      avtab_link_def sample_te_def cong: rd_bind_later rd_times_later)

lemma sample_index: "policydb_index sample_rules [] = (OK, sample_indexed, [])"
  by (simp add: policydb_index_def alloc_array_def cond_init_bool_indexes_def index_table_def hashtab_map_def hashtab_nodes_def class_index_def
      role_index_def type_index_def set_name_def set_val_def sample_indexed_def sample_rules_def sample_start_def one_entry_def policydb_init_def
      symtab_zero_def sample_process_def sample_role_def sample_type_def fun_upd_def fun_eq_iff cong: then_ok_later)

lemma sample_read_symbols:
  "read_symtabs sample_env sym_order sample_start (sample_symbols @ rest, []) =
     Inr (sample_start\<lparr>p_classes := one_entry ''process'' sample_process, p_roles := one_entry ''object_r'' sample_role, p_types := one_entry ''t'' (sample_type 1 0)\<rparr>, rest, [])"
  by (simp add: sym_order_def sample_symbols_def sample_classes sample_roles sample_types sample_no_entries sample_start_def policydb_init_def image_eval
      cong: rd_bind_later)

lemma sample_class_of: "symtab_search (one_entry k d) k = Some d"
  by (simp add: symtab_search_def hashtab_search_def one_entry_def symcmp_def strcmp_zero Let_def)

lemma no_table: "hashtab_init g n 0 m = (OK, \<lparr>ht_htable = [], ht_size = 0, ht_nel = 0\<rparr>, m)"
  by (simp add: hashtab_init_def hashtab_compute_size_def)

lemma sample_read_rules:
  "policydb_read_rules sample_env 8 sample_start (sample_symbols @ le32s_bytes [1] @ le16s_bytes [1, 1, 1, 1] @ le32s_bytes [3] @ le32s_bytes [0] @
     le32s_bytes [0] @ le32s_bytes [0] @ le32s_bytes [0] @ rest, []) = Inr (sample_indexed, rest, [])"
proof -
  let ?zero = "\<lparr>ht_htable = [], ht_size = 0, ht_nel = 0\<rparr>"
  let ?cond = "\<lparr>av_htable = [[], []], av_nel = 0, av_nslot = 2, av_mask = 1\<rparr> :: avtab"
  let ?p = "sample_start\<lparr>p_classes := one_entry ''process'' sample_process, p_roles := one_entry ''object_r'' sample_role,
     p_types := one_entry ''t'' (sample_type 1 0), process_class := 1, te_avtab := sample_te, te_cond_avtab := ?cond, cond_list := []\<rparr>"
  have take: "take 8 sym_order = sym_order" by (simp add: sym_order_def)
  have cls: "cla_value sample_process = 1" by (simp add: sample_process_def)
  have start: "policyvers sample_start = 33" "te_avtab sample_start = avtab_init" "te_cond_avtab sample_start = avtab_init"
    by (simp_all add: sample_start_def policydb_init_def)
  have cond: "avtab_alloc avtab_init (av_nel sample_te) [] = (OK, ?cond, [])"
    by (simp add: sample_te_def avtab_alloc_def avtab_alloc_common_def avtab_shift.simps avtab_init_def replicate_2)
  have rules: "?p\<lparr>role_tr := ?zero, filename_trans := ?zero\<rparr> = sample_rules"
    by (simp add: sample_rules_def sample_start_def policydb_init_def)
  show ?thesis
    unfolding policydb_read_rules_def take
    by (subst rd_bind_ok, rule sample_read_symbols)
      (simp add: sample_class_of cls string_to_security_class_def sample_avtab cond_read_list_def start cond no_table
        filename_trans_read_def image_next image_eval sample_index rules cong: rd_bind_later rd_times_later)
qed

lemma sample_perms:
  "string_to_av_perm sample_indexed 1 ''transition'' = 1" "string_to_av_perm sample_indexed 1 ''dyntransition'' = 2"
  by (simp_all add: string_to_av_perm_def sample_indexed_def sample_rules_def one_entry_def val_to_struct_def sample_process_def symtab_search_def
      hashtab_search_def sample_hashes symcmp_def strcmp_zero Let_def)

lemma sample_fields:
  "policyvers sample_indexed = 33" "process_class sample_indexed = 1" "ocontexts sample_indexed = (\<lambda>_. [])" "p_types sample_indexed = one_entry ''t'' (sample_type 1 0)"
  "range_tr sample_indexed = \<lparr>ht_htable = [], ht_size = 0, ht_nel = 0\<rparr>" "p_genfs sample_indexed = []"
  by (simp_all add: sample_indexed_def sample_rules_def sample_start_def policydb_init_def)

lemma sample_read_objects:
  "policydb_read_objects sample_env 9 sample_indexed (le32s_bytes [0] @ le32s_bytes [0] @ le32s_bytes [0] @ le32s_bytes [0] @ le32s_bytes [0] @
     le32s_bytes [0] @ le32s_bytes [0] @ le32s_bytes [0] @ le32s_bytes [0] @ le32s_bytes [0] @ le32s_bytes [0] @ le32s_bytes [64, 0, 0] @ rest, []) =
     Inr (sample_policy, rest, [])"
proof -
  let ?oc = "(\<lambda>_. [] :: ocontext list)(OCON_ISID := [], OCON_FS := [], OCON_PORT := [], OCON_NETIF := [], OCON_NODE := [], OCON_FSUSE := [], OCON_NODE6 := [],
      OCON_IBPKEY := [], OCON_IBENDPORT := [])"
  have same: "sample_indexed\<lparr>process_trans_perms := w, ocontexts := ?oc, range_tr := \<lparr>ht_htable = [], ht_size = 0, ht_nel = 0\<rparr>, type_attr_map_array := es\<rparr> =
      sample_indexed\<lparr>process_trans_perms := w, type_attr_map_array := es\<rparr>" for w es
    by (simp add: sample_indexed_def sample_rules_def sample_start_def policydb_init_def) (rule ext, simp add: fun_upd_def)
  show ?thesis
    by (simp add: policydb_read_objects_def sample_fields sample_perms ocontext_read_def ocon_order_def same genfs_read_def range_read_def no_table
        one_entry_def type_attr_read_item_def set_bit_single sample_policy_def image_next image_eval cong: rd_bind_later rd_times_later)
qed

lemma sample_bounds: "policydb_bounds_sanity_check sample_policy = (OK, False)"
proof -
  have "role_chain sample_policy sample_role sample_role []" "type_chain sample_policy (sample_type 1 0) []"
    by (simp_all add: sample_role_def sample_type_def)
  moreover have "policyvers sample_policy = 33" "p_users sample_policy = symtab_zero" "p_roles sample_policy = one_entry ''object_r'' sample_role"
      "p_types sample_policy = one_entry ''t'' (sample_type 1 0)"
    by (simp_all add: sample_policy_def sample_indexed_def sample_rules_def sample_start_def policydb_init_def)
  ultimately show ?thesis
    by (subst bounds_check_iff) (auto simp: one_entry_def symtab_zero_def hashtab_nodes_def intro: exI [of _ "[]"])
qed

lemma sample_image_read: "policydb_read sample_env (sample_image, []) = Some (Inr (sample_policy, [], []))"
proof -
  have "\<not> (ucast (process_class sample_indexed) \<le> st_nprim (p_classes sample_indexed) \<and>
      val_to_struct (class_val_to_struct sample_indexed) (ucast (process_class sample_indexed)) = None)"
    by (simp add: sample_fields val_to_struct_def) (simp add: sample_indexed_def)
  moreover have "rd_bind (policydb_read_header sample_env) (\<lambda>(p, sym_num, ocon_num).
      rd_bind (policydb_read_rules sample_env sym_num p) (\<lambda>p. rd_return (p, ocon_num))) (sample_image, []) =
    Inr ((sample_indexed, 9), le32s_bytes [0] @ le32s_bytes [0] @ le32s_bytes [0] @ le32s_bytes [0] @ le32s_bytes [0] @
     le32s_bytes [0] @ le32s_bytes [0] @ le32s_bytes [0] @ le32s_bytes [0] @ le32s_bytes [0] @ le32s_bytes [0] @ le32s_bytes [64, 0, 0] @ [], [])"
    unfolding sample_image_def by (simp add: rd_bind_def sample_header sample_read_rules rd_return_def)
  ultimately show ?thesis
    by (simp add: policydb_read_def sample_read_objects [of "[]", simplified] sample_bounds)
qed

section \<open>Properties\<close>





end
