(* ===== verification/Policy_Write.thy ===== *)
theory Policy_Write
  imports Policy_Read
begin

text \<open>
  The writer of a binary policy (\<open>policydb_write\<close> of \<open>ss/policydb.c\<close> and the functions it calls), and what
  the reader makes of its bytes: a relation between writers and readers that follows their structure, the
  symbol tables, the rules about roles and the labels of objects.

  Strings are written without an end, at the length that precedes them. Flags that the code keeps in a byte
  and reads as truth values are written as 0 or 1.
\<close>

section \<open>Levels, contexts and rules about roles\<close>

definition mls_write_level :: "mls_level \<Rightarrow> writer" where
  "mls_write_level l = wr_seq (put_le32s [lvl_sens l]) (ebitmap_write (lvl_cat l))"

definition mls_write_range_helper :: "mls_range \<Rightarrow> writer" where
  "mls_write_range_helper r =
     (let eq = mls_level_eq (level1 r) (level0 r) in
      wr_seq (put_le32s (if eq then [1, lvl_sens (level0 r)] else [2, lvl_sens (level0 r), lvl_sens (level1 r)]))
      (wr_seq (ebitmap_write (lvl_cat (level0 r)))
        (if eq then wr_skip else ebitmap_write (lvl_cat (level1 r)))))"

definition sens_write :: "string \<Rightarrow> level_datum \<Rightarrow> writer" where
  "sens_write key levdatum =
     wr_seq (put_le32s [of_nat (length key), of_bool (lev_isalias levdatum)])
     (wr_seq (put_string key) (mls_write_level (lev_level levdatum)))"

definition cat_write :: "string \<Rightarrow> cat_datum \<Rightarrow> writer" where
  "cat_write key catdatum =
     wr_seq (put_le32s [of_nat (length key), cat_value catdatum, of_bool (cat_isalias catdatum)]) (put_string key)"

definition role_trans_write_one :: "policydb \<Rightarrow> role_trans_key \<Rightarrow> u32 \<Rightarrow> writer" where
  "role_trans_write_one p rtk new_role =
     wr_seq (put_le32s [rtk_role rtk, rtk_type rtk, new_role])
       (if policyvers p \<ge> POLICYDB_VERSION_ROLETRANS then put_le32s [rtk_tclass rtk] else wr_skip)"

definition role_trans_write :: "policydb \<Rightarrow> writer" where
  "role_trans_write p = wr_seq (put_le32s [ht_nel (role_tr p)]) (hashtab_map (role_tr p) (role_trans_write_one p))"

definition role_allow_write :: "role_allow list \<Rightarrow> writer" where
  "role_allow_write r =
     wr_seq (put_le32s [of_nat (length r)]) (wr_each (\<lambda>ra. put_le32s [ra_role ra, ra_new_role ra]) r)"

definition context_write :: "context \<Rightarrow> writer" where
  "context_write c = wr_seq (put_le32s [ctx_user c, ctx_role c, ctx_type c]) (mls_write_range_helper (ctx_range c))"

section \<open>Symbols\<close>

definition perm_write :: "string \<Rightarrow> perm_datum \<Rightarrow> writer" where
  "perm_write key perdatum = wr_seq (put_le32s [of_nat (length key), perm_value perdatum]) (put_string key)"

definition common_write :: "string \<Rightarrow> common_datum \<Rightarrow> writer" where
  "common_write key comdatum =
     wr_seq (put_le32s [of_nat (length key), com_value comdatum, st_nprim (com_permissions comdatum), ht_nel (st_table (com_permissions comdatum))])
     (wr_seq (put_string key) (hashtab_map (st_table (com_permissions comdatum)) perm_write))"

text \<open>Every error in a set of type names becomes \<open>EINVAL\<close>.\<close>

definition wr_einval :: "writer \<Rightarrow> writer" where
  "wr_einval w s = (case w s of (OK, s) \<Rightarrow> (OK, s) | (Err _, s) \<Rightarrow> (Err EINVAL, s))"

definition type_set_write :: "type_set \<Rightarrow> writer" where
  "type_set_write t =
     wr_seq (wr_einval (ebitmap_write (ts_types t)))
     (wr_seq (wr_einval (ebitmap_write (ts_negset t))) (wr_einval (put_le32s [ts_flags t])))"

text \<open>The reader gives every node with names its set of type names, in the versions that have them.\<close>

definition write_cons_expr :: "policydb \<Rightarrow> constraint_expr \<Rightarrow> writer" where
  "write_cons_expr p e =
     wr_seq (put_le32s [ce_expr_type e, ce_attr e, ce_op e])
       (if ce_expr_type e = CEXPR_NAMES
        then wr_seq (ebitmap_write (ce_names e))
               (if policyvers p \<ge> POLICYDB_VERSION_CONSTRAINT_NAMES
                then case ce_type_names e of Some t \<Rightarrow> type_set_write t | None \<Rightarrow> wr_skip
                else wr_skip)
        else wr_skip)"

definition write_cons_helper :: "policydb \<Rightarrow> constraint_node list \<Rightarrow> writer" where
  "write_cons_helper p node =
     wr_each (\<lambda>c. wr_seq (put_le32s [cn_permissions c, of_nat (length (cn_expr c))]) (wr_each (write_cons_expr p) (cn_expr c))) node"

definition class_write :: "policydb \<Rightarrow> string \<Rightarrow> class_datum \<Rightarrow> writer" where
  "class_write p key cladatum =
     (let len2 = (case cla_comkey cladatum of Some comkey \<Rightarrow> length comkey | None \<Rightarrow> 0) in
      wr_seq (put_le32s [of_nat (length key), of_nat len2, cla_value cladatum, st_nprim (cla_permissions cladatum),
        ht_nel (st_table (cla_permissions cladatum)), of_nat (length (cla_constraints cladatum))])
      (wr_seq (put_string key)
      (wr_seq (case cla_comkey cladatum of Some comkey \<Rightarrow> put_string comkey | None \<Rightarrow> wr_skip)
      (wr_seq (hashtab_map (st_table (cla_permissions cladatum)) perm_write)
      (wr_seq (write_cons_helper p (cla_constraints cladatum))
      (wr_seq (put_le32s [of_nat (length (cla_validatetrans cladatum))])
      (wr_seq (write_cons_helper p (cla_validatetrans cladatum))
      (wr_seq
        (if policyvers p \<ge> POLICYDB_VERSION_NEW_OBJECT_DEFAULTS
         then put_le32s [of_nat (default_user cladatum), of_nat (default_role cladatum), of_nat (default_range cladatum)] else wr_skip)
        (if policyvers p \<ge> POLICYDB_VERSION_DEFAULT_TYPE then put_le32s [of_nat (default_type cladatum)] else wr_skip)))))))))"

definition role_write :: "policydb \<Rightarrow> string \<Rightarrow> role_datum \<Rightarrow> writer" where
  "role_write p key role =
     wr_seq (put_le32s ([of_nat (length key), role_value role] @ (if policyvers p \<ge> POLICYDB_VERSION_BOUNDARY then [role_bounds role] else [])))
     (wr_seq (put_string key) (wr_seq (ebitmap_write (role_dominates role)) (ebitmap_write (role_types role))))"

definition type_properties :: "type_datum \<Rightarrow> u32" where
  "type_properties typdatum =
     (if type_primary typdatum then TYPEDATUM_PROPERTY_PRIMARY else 0) OR (if type_attribute typdatum then TYPEDATUM_PROPERTY_ATTRIBUTE else 0)"

definition type_write :: "policydb \<Rightarrow> string \<Rightarrow> type_datum \<Rightarrow> writer" where
  "type_write p key typdatum =
     wr_seq (put_le32s ([of_nat (length key), type_value typdatum] @
       (if policyvers p \<ge> POLICYDB_VERSION_BOUNDARY then [type_properties typdatum, type_bounds typdatum] else [of_bool (type_primary typdatum)])))
     (put_string key)"

definition user_write :: "policydb \<Rightarrow> string \<Rightarrow> user_datum \<Rightarrow> writer" where
  "user_write p key usrdatum =
     wr_seq (put_le32s ([of_nat (length key), user_value usrdatum] @ (if policyvers p \<ge> POLICYDB_VERSION_BOUNDARY then [user_bounds usrdatum] else [])))
     (wr_seq (put_string key)
     (wr_seq (ebitmap_write (user_roles usrdatum))
     (wr_seq (mls_write_range_helper (user_range usrdatum)) (mls_write_level (user_dfltlevel usrdatum)))))"

text \<open>One round of the loop over the symbol tables, with the function of the table from \<open>write_f\<close>.\<close>

definition write_table :: "(string \<Rightarrow> 'd \<Rightarrow> writer) \<Rightarrow> 'd symtab \<Rightarrow> writer" where
  "write_table write_f s = wr_seq (put_le32s [st_nprim s, ht_nel (st_table s)]) (hashtab_map (st_table s) write_f)"

fun write_symtab :: "policydb \<Rightarrow> sym \<Rightarrow> writer" where
  "write_symtab p SYM_COMMONS = write_table common_write (p_commons p)"
| "write_symtab p SYM_CLASSES = write_table (class_write p) (p_classes p)"
| "write_symtab p SYM_ROLES = write_table (role_write p) (p_roles p)"
| "write_symtab p SYM_TYPES = write_table (type_write p) (p_types p)"
| "write_symtab p SYM_USERS = write_table (user_write p) (p_users p)"
| "write_symtab p SYM_BOOLS = write_table cond_write_bool (p_bools p)"
| "write_symtab p SYM_LEVELS = write_table sens_write (p_levels p)"
| "write_symtab p SYM_CATS = write_table cat_write (p_cats p)"

section \<open>Labels of objects\<close>

definition be_bytes :: "nat \<Rightarrow> 'a :: len word \<Rightarrow> u8 list" where
  "be_bytes n w = rev (le_bytes n w)"

text \<open>
  The data of an object context fits its kind; what the code would take from the union for another kind is
  not represented.
\<close>

fun ocontext_write_item :: "ocon \<Rightarrow> ocontext \<Rightarrow> writer" where
  "ocontext_write_item OCON_ISID c = wr_seq (put_le32s [oc_sid0 c]) (context_write (oc_context0 c))"
| "ocontext_write_item OCON_FS c =
     wr_seq (put_le32s [of_nat (length (oc_name c))]) (wr_seq (put_string (oc_name c))
     (wr_seq (context_write (oc_context0 c)) (context_write (oc_context1 c))))"
| "ocontext_write_item OCON_NETIF c =
     wr_seq (put_le32s [of_nat (length (oc_name c))]) (wr_seq (put_string (oc_name c))
     (wr_seq (context_write (oc_context0 c)) (context_write (oc_context1 c))))"
| "ocontext_write_item OCON_PORT c =
     (case oc_u c of
        OPort protocol low high \<Rightarrow> wr_seq (put_le32s [ucast protocol, ucast low, ucast high]) (context_write (oc_context0 c))
      | _ \<Rightarrow> wr_skip)"
| "ocontext_write_item OCON_NODE c =
     (case oc_u c of ONode addr nmask \<Rightarrow> wr_seq (put_le32s [addr, nmask]) (context_write (oc_context0 c)) | _ \<Rightarrow> wr_skip)"
| "ocontext_write_item OCON_FSUSE c =
     wr_seq (put_le32s [oc_v c, of_nat (length (oc_name c))]) (wr_seq (put_string (oc_name c)) (context_write (oc_context0 c)))"
| "ocontext_write_item OCON_NODE6 c =
     (case oc_u c of ONode6 addr nmask \<Rightarrow> wr_seq (put_le32s (addr @ nmask)) (context_write (oc_context0 c)) | _ \<Rightarrow> wr_skip)"
| "ocontext_write_item OCON_IBPKEY c =
     (case oc_u c of
        OIbpkey prefix low high \<Rightarrow>
          wr_seq (put_entry (be_bytes 8 prefix)) (wr_seq (put_le32s [ucast low, ucast high]) (context_write (oc_context0 c)))
      | _ \<Rightarrow> wr_skip)"
| "ocontext_write_item OCON_IBENDPORT c =
     (case oc_u c of
        OIbendport dev_name port \<Rightarrow>
          wr_seq (put_le32s [of_nat (length dev_name), ucast port]) (wr_seq (put_string dev_name) (context_write (oc_context0 c)))
      | _ \<Rightarrow> wr_skip)"

definition ocontext_write :: "nat \<Rightarrow> policydb \<Rightarrow> writer" where
  "ocontext_write ocon_num p =
     wr_each (\<lambda>i. wr_seq (put_le32s [of_nat (length (ocontexts p i))]) (wr_each (ocontext_write_item i) (ocontexts p i))) (take ocon_num ocon_order)"

definition genfs_write_entry :: "ocontext \<Rightarrow> writer" where
  "genfs_write_entry c =
     wr_seq (put_le32s [of_nat (length (oc_name c))]) (wr_seq (put_string (oc_name c))
     (wr_seq (put_le32s [oc_v c]) (context_write (oc_context0 c))))"

definition genfs_write :: "policydb \<Rightarrow> writer" where
  "genfs_write p =
     wr_seq (put_le32s [of_nat (length (p_genfs p))])
       (wr_each (\<lambda>g. wr_seq (put_le32s [of_nat (length (gf_fstype g))]) (wr_seq (put_string (gf_fstype g))
          (wr_seq (put_le32s [of_nat (length (gf_head g))]) (wr_each genfs_write_entry (gf_head g))))) (p_genfs p))"

section \<open>Rules about ranges and names\<close>

definition range_write_helper :: "policydb \<Rightarrow> range_trans \<Rightarrow> mls_range \<Rightarrow> writer" where
  "range_write_helper p rt r =
     wr_seq (put_le32s [rt_source_type rt, rt_target_type rt])
     (wr_seq (if policyvers p \<ge> POLICYDB_VERSION_RANGETRANS then put_le32s [rt_target_class rt] else wr_skip)
       (mls_write_range_helper r))"

definition range_write :: "policydb \<Rightarrow> writer" where
  "range_write p = wr_seq (put_le32s [ht_nel (range_tr p)]) (hashtab_map (range_tr p) (range_write_helper p))"

definition filename_write_helper_compat :: "filename_trans_key \<Rightarrow> filename_trans_datum list \<Rightarrow> writer" where
  "filename_write_helper_compat ft ds =
     wr_each (\<lambda>datum. wr_each (\<lambda>bit.
         wr_seq (put_le32s [of_nat (length (ftk_name ft))]) (wr_seq (put_string (ftk_name ft))
           (put_le32s [bit + 1, ftk_ttype ft, ucast (ftk_tclass ft), ft_otype datum])))
       (ebitmap_positive_bits (ft_stypes datum))) ds"

definition filename_write_helper :: "filename_trans_key \<Rightarrow> filename_trans_datum list \<Rightarrow> writer" where
  "filename_write_helper ft ds =
     wr_seq (put_le32s [of_nat (length (ftk_name ft))]) (wr_seq (put_string (ftk_name ft))
     (wr_seq (put_le32s [ftk_ttype ft, ucast (ftk_tclass ft), of_nat (length ds)])
       (wr_each (\<lambda>datum. wr_seq (ebitmap_write (ft_stypes datum)) (put_le32s [ft_otype datum])) ds)))"

definition filename_trans_write :: "policydb \<Rightarrow> writer" where
  "filename_trans_write p =
     (if policyvers p < POLICYDB_VERSION_FILENAME_TRANS then wr_skip
      else if policyvers p < POLICYDB_VERSION_COMP_FTRANS
      then wr_seq (put_le32s [compat_filename_trans_count p]) (hashtab_map (filename_trans p) filename_write_helper_compat)
      else wr_seq (put_le32s [ht_nel (filename_trans p)]) (hashtab_map (filename_trans p) filename_write_helper))"

section \<open>The whole image\<close>

definition wr_fail :: "errno \<Rightarrow> writer" where
  "wr_fail e s = (Err e, s)"

definition write_config :: "policydb \<Rightarrow> u32" where
  "write_config p =
     (if mls_enabled p then POLICYDB_CONFIG_MLS else 0) OR (if reject_unknown p then REJECT_UNKNOWN else 0) OR
     (if allow_unknown p then ALLOW_UNKNOWN else 0)"

definition policydb_write_header :: "policydb \<Rightarrow> nat \<times> nat \<Rightarrow> writer" where
  "policydb_write_header p info =
     wr_seq (put_le32s [policyvers p, write_config p, of_nat (fst info), of_nat (snd info)])
     (wr_seq (if policyvers p \<ge> POLICYDB_VERSION_POLCAP then ebitmap_write (policycaps p) else wr_skip)
       (if policyvers p \<ge> POLICYDB_VERSION_PERMISSIVE then ebitmap_write (permissive_map p) else wr_skip))"

definition policydb_write :: "image_env \<Rightarrow> policydb \<Rightarrow> writer" where
  "policydb_write env p =
     (if policyvers p < POLICYDB_VERSION_AVTAB then wr_fail EINVAL
      else
        wr_seq (put_le32s [env_MAGIC env, of_nat (length POLICYDB_STRING)])
        (wr_seq (put_string POLICYDB_STRING)
        (case policydb_lookup_compat (policyvers p) of
           None \<Rightarrow> wr_fail EINVAL
         | Some info \<Rightarrow>
             wr_seq (policydb_write_header p info)
             (wr_seq (wr_each (write_symtab p) (take (fst info) sym_order))
             (wr_seq (avtab_write (te_avtab p))
             (wr_seq (cond_write_list p)
             (wr_seq (role_trans_write p)
             (wr_seq (role_allow_write (p_role_allow p))
             (wr_seq (filename_trans_write p)
             (wr_seq (ocontext_write (snd info) p)
             (wr_seq (genfs_write p)
             (wr_seq (range_write p)
               (wr_each (\<lambda>i. ebitmap_write (type_attr_map_array p ! i)) [0..<unat (st_nprim (p_types p))])))))))))))))"

section \<open>What is written and read back\<close>

text \<open>A reader gives a value from whatever a writer wrote. The rules follow writers and readers in step.\<close>

definition stores :: "writer \<Rightarrow> 'a reader \<Rightarrow> 'a \<Rightarrow> bool" where
  "stores w r x \<longleftrightarrow> (\<exists>bs. writes w bs \<and> accepts r bs x)"

named_theorems stores_items \<open>items that are read back as they were written\<close>

lemma storesI: "writes w bs \<Longrightarrow> accepts r bs x \<Longrightarrow> stores w r x"
  unfolding stores_def by blast

lemma storesE:
  assumes "stores w r x"
  obtains bs where "writes w bs" "accepts r bs x"
  using assms unfolding stores_def by blast

lemma stores_skip: "stores wr_skip (rd_return x) x"
  by (rule storesI [OF writes_skip accepts_return])

lemma stores_seq: "stores w r x \<Longrightarrow> stores v (f x) y \<Longrightarrow> stores (wr_seq w v) (rd_bind r f) y"
  by (elim storesE) (rule storesI [OF writes_seq accepts_bind])

lemma stores_tail: "stores w r x \<Longrightarrow> accepts (f x) [] y \<Longrightarrow> stores w (rd_bind r f) y"
  by (elim storesE) (rule storesI [OF _ accepts_tail])

lemma stores_map: "stores w r x \<Longrightarrow> f x = y \<Longrightarrow> stores w (rd_bind r (\<lambda>x. rd_return (f x))) y"
  by (elim storesE) (rule storesI [OF _ accepts_map])

lemma stores_alloc: "stores w (f ()) y \<Longrightarrow> stores w (rd_bind rd_alloc f) y"
  by (elim storesE) (rule storesI [OF _ accepts_alloc])

lemma stores_check: "b \<Longrightarrow> stores w (f ()) y \<Longrightarrow> stores w (rd_bind (rd_check b e) f) y"
  by (elim storesE) (rule storesI [OF _ accepts_check])

lemma stores_pure: "stores w (f x) y \<Longrightarrow> stores w (rd_bind (rd_return x) f) y"
proof -
  have "rd_bind (rd_return x) f = f x" by (simp add: fun_eq_iff rd_bind_def rd_return_def)
  then show "stores w (f x) y \<Longrightarrow> stores w (rd_bind (rd_return x) f) y" by simp
qed

lemma stores_step: "(\<And>m. ample m \<Longrightarrow> \<exists>m'. ample m' \<and> g m = (OK, x, m')) \<Longrightarrow> stores w (f x) y \<Longrightarrow> stores w (rd_bind (rd_step g) f) y"
  using accepts_bind [OF accepts_step, of g x f] by (elim storesE) (auto intro: storesI)

lemma stores_end: "(\<And>m. ample m \<Longrightarrow> \<exists>m'. ample m' \<and> g m = (OK, x, m')) \<Longrightarrow> stores wr_skip (rd_step g) x"
  by (rule storesI [OF writes_skip accepts_step])

lemma stores_if: "(b \<Longrightarrow> stores w r x) \<Longrightarrow> (\<not> b \<Longrightarrow> stores v q x) \<Longrightarrow> stores (if b then w else v) (if b then r else q) x"
  by simp

lemma stores_32s: "length ws = n \<Longrightarrow> stores (put_le32s ws) (next_le32s n) ws"
  by (rule storesI [OF writes_32s accepts_32s])

lemma stores_32 [stores_items]: "stores (put_le32s [w]) next_le32 w"
  by (rule storesI [OF writes_32s]) (simp add: le32s_bytes_def accepts_le32)

lemma stores_each:
  assumes "\<And>x ys. x \<in> set xs \<Longrightarrow> stores (w x) (f ys) (ys @ [g x])"
  shows "stores (wr_each w xs) (rd_times (length xs) f ys) (ys @ map g xs)"
  using assms
proof (induction xs arbitrary: ys)
  case (Cons x xs)
  have "stores (wr_each w xs) (rd_times (length xs) f (ys @ [g x])) ((ys @ [g x]) @ map g xs)"
    by (rule Cons.IH) (use Cons.prems in simp)
  then show ?case using stores_seq [OF Cons.prems [of x ys], of "wr_each w xs"] by simp
qed (simp add: stores_skip)

text \<open>The writer and the reader group the same steps in different ways.\<close>

lemma wr_seq_assoc: "wr_seq (wr_seq u v) w = wr_seq u (wr_seq v w)"
  by (auto simp: fun_eq_iff wr_seq_def split: prod.split option.split)

lemma wr_skip_left [simp]: "wr_seq wr_skip w = w"
  by (simp add: fun_eq_iff wr_seq_def wr_skip_def)

lemma wr_skip_right [simp]: "wr_seq w wr_skip = w"
  by (auto simp: fun_eq_iff wr_seq_def wr_skip_def split: prod.split option.split)

lemma rd_bind_assoc: "rd_bind (rd_bind r f) g = rd_bind r (\<lambda>x. rd_bind (f x) g)"
  by (auto simp: fun_eq_iff rd_bind_def split: sum.split)

section \<open>Strings, bitmaps, levels and contexts\<close>

definition name_fits :: "string \<Rightarrow> bool" where
  "name_fits s \<longleftrightarrow> s \<noteq> [] \<and> length s < 2 ^ 32 - 1 \<and> CHR 0x00 \<notin> set s"

definition bitmap_fits :: "ebitmap \<Rightarrow> bool" where
  "bitmap_fits e \<longleftrightarrow> ebitmap_canon e \<and> unat (eb_highbit e) \<le> 2 ^ 31"

definition level_fits :: "mls_level \<Rightarrow> bool" where
  "level_fits l \<longleftrightarrow> bitmap_fits (lvl_cat l)"

definition range_fits :: "mls_range \<Rightarrow> bool" where
  "range_fits r \<longleftrightarrow> level_fits (level0 r) \<and> level_fits (level1 r)"

lemma char_byte: "char_of (unat (of_char c :: u8)) = c" "(of_char c :: u8) = 0 \<longleftrightarrow> c = CHR 0x00"
proof -
  have "unat (of_char c :: u8) = (of_char c :: nat)"
    using unsigned_of_nat [of "of_char c :: nat", where ?'b = 8 and ?'a = nat] nat_of_char_less_256 [of c] by (simp add: of_nat_of_char take_bit_nat_eq_self)
  then show c: "char_of (unat (of_char c :: u8)) = c" by simp
  show "(of_char c :: u8) = 0 \<longleftrightarrow> c = CHR 0x00" using c by (auto simp: char_of_def)
qed

lemma c_string_of: "CHR 0x00 \<notin> set s \<Longrightarrow> c_string (map of_char s) = s"
  by (induction s) (auto simp: c_string_def char_byte)

lemma unat_length: "length xs < 2 ^ 32 \<Longrightarrow> unat (of_nat (length xs) :: u32) = length xs"
  by (simp add: unat_of_nat)

lemma name_length:
  assumes "name_fits s"
  shows "unat (of_nat (length s) :: u32) = length s" "of_nat (length s) \<noteq> (0 :: u32)" "of_nat (length s) \<noteq> (0xffffffff :: u32)"
proof -
  show len: "unat (of_nat (length s) :: u32) = length s" using assms by (simp add: name_fits_def unat_length)
  show "of_nat (length s) \<noteq> (0 :: u32)" using len assms by (metis length_0_conv name_fits_def unat_0)
  show "of_nat (length s) \<noteq> (0xffffffff :: u32)"
  proof
    assume "of_nat (length s) = (0xffffffff :: u32)"
    then have "length s = unat (0xffffffff :: u32)" using len by simp
    then show False using assms by (simp add: name_fits_def)
  qed
qed

lemma stores_string [stores_items]:
  assumes "name_fits s"
  shows "stores (put_string s) (str_read (of_nat (length s))) s"
proof -
  have "str_read (of_nat (length s)) = rd_bind rd_alloc (\<lambda>_. rd_bind (next_entry (length (map of_char s :: u8 list))) (\<lambda>bs. rd_return (c_string bs)))"
    using name_length [OF assms] by (simp add: str_read_def)
  moreover have "accepts (rd_bind rd_alloc (\<lambda>_. rd_bind (next_entry (length (map of_char s :: u8 list))) (\<lambda>bs. rd_return (c_string bs)))) (map of_char s) s"
    by (intro accepts_alloc accepts_map [OF accepts_entry] c_string_of) (use assms in \<open>simp add: name_fits_def\<close>)
  ultimately show ?thesis unfolding stores_def put_string_def using writes_put by auto
qed

lemma stores_bitmap [stores_items]: "bitmap_fits e \<Longrightarrow> stores (ebitmap_write e) ebitmap_read e"
  unfolding stores_def bitmap_fits_def using accepts_ebitmap_write by blast

lemma stores_level [stores_items]: "level_fits l \<Longrightarrow> stores (mls_write_level l) mls_read_level l"
  unfolding mls_write_level_def mls_read_level_def level_fits_def by (intro stores_seq [OF stores_32] stores_map [OF stores_bitmap]) simp_all

lemma le32s_bytes_Cons: "le32s_bytes (w # ws) = le32s_bytes [w] @ le32s_bytes ws"
  by (simp add: le32s_bytes_def)

lemma accepts_word: "accepts next_le32 (le32s_bytes [w]) w"
  by (simp add: le32s_bytes_def accepts_le32)

lemma stores_range [stores_items]:
  assumes "range_fits r"
  shows "stores (mls_write_range_helper r) mls_read_range_helper r"
proof -
  have fits: "bitmap_fits (lvl_cat (level0 r))" "bitmap_fits (lvl_cat (level1 r))" using assms by (simp_all add: range_fits_def level_fits_def)
  obtain b0 b1 where b: "writes (ebitmap_write (lvl_cat (level0 r))) b0" "accepts ebitmap_read b0 (lvl_cat (level0 r))"
      "writes (ebitmap_write (lvl_cat (level1 r))) b1" "accepts ebitmap_read b1 (lvl_cat (level1 r))"
    using stores_bitmap [OF fits(1)] stores_bitmap [OF fits(2)] by (elim storesE)
  show ?thesis
  proof (cases "level1 r = level0 r")
    case True
    then have eq: "\<lparr>level0 = level0 r, level1 = level0 r\<rparr> = r" by (cases r) simp
    have "accepts (rd_step (ebitmap_cpy (lvl_cat (level0 r)))) [] (lvl_cat (level0 r))"
      using ebitmap_cpy_ample by (intro accepts_step) blast
    then have cpy: "accepts (if (1 :: u32) > 1 then ebitmap_read else rd_step (ebitmap_cpy (lvl_cat (level0 r)))) [] (lvl_cat (level0 r))" by simp
    have "accepts mls_read_range_helper (le32s_bytes [1] @ le32s_bytes [lvl_sens (level0 r)] @ b0 @ []) r"
      unfolding mls_read_range_helper_def Let_def
      by (intro accepts_bind [OF accepts_word] accepts_check accepts_bind [OF accepts_32s] accepts_bind [OF b(2)] accepts_map [OF cpy])
        (simp_all add: eq)
    moreover have "writes (mls_write_range_helper r) (le32s_bytes [1, lvl_sens (level0 r)] @ b0 @ [])"
      using writes_seq [OF writes_32s writes_seq [OF b(1) writes_skip]] True by (simp add: mls_write_range_helper_def mls_level_eq_iff)
    ultimately show ?thesis unfolding le32s_bytes_Cons [of 1 "[lvl_sens (level0 r)]"] append_assoc by (intro storesI)
  next
    case False
    have sec: "accepts (if (2 :: u32) > 1 then ebitmap_read else rd_step (ebitmap_cpy (lvl_cat (level0 r)))) b1 (lvl_cat (level1 r))" using b(4) by simp
    have "accepts mls_read_range_helper (le32s_bytes [2] @ le32s_bytes [lvl_sens (level0 r), lvl_sens (level1 r)] @ b0 @ b1) r"
      unfolding mls_read_range_helper_def Let_def
      by (intro accepts_bind [OF accepts_word] accepts_check accepts_bind [OF accepts_32s] accepts_bind [OF b(2)] accepts_map [OF sec]) simp_all
    moreover have "writes (mls_write_range_helper r) (le32s_bytes [2, lvl_sens (level0 r), lvl_sens (level1 r)] @ b0 @ b1)"
      using writes_seq [OF writes_32s writes_seq [OF b(1,3)]] False by (simp add: mls_write_range_helper_def mls_level_eq_iff)
    ultimately show ?thesis unfolding le32s_bytes_Cons [of 2 "[lvl_sens (level0 r), lvl_sens (level1 r)]"] append_assoc by (intro storesI)
  qed
qed

lemma stores_context [stores_items]:
  assumes "range_fits (ctx_range c)" "policydb_context_isvalid p c" "POLICYDB_VERSION_MLS \<le> policyvers p" "ctx_len c = 0" "ctx_str c = None"
  shows "stores (context_write c) (context_read_and_validate p) c"
proof -
  have c: "context_init\<lparr>ctx_user := ctx_user c, ctx_role := ctx_role c, ctx_type := ctx_type c, ctx_range := ctx_range c\<rparr> = c"
    using assms(4,5) by (simp add: context_init_def)
  have "accepts (rd_bind (rd_check (policydb_context_isvalid p c) EINVAL) (\<lambda>_. rd_return c)) [] c"
    by (rule accepts_check [OF assms(2) accepts_return])
  then show ?thesis
    unfolding context_write_def context_read_and_validate_def Let_def if_P [OF assms(3)]
    by (intro stores_seq [OF stores_32s] stores_tail [OF stores_range [OF assms(1)]]) (simp_all add: c)
qed

section \<open>Tables are determined by their maps\<close>

lemma insert_chain_ample: "ample m \<Longrightarrow> hashtab_insert_chain cmp key datum chain m = (rc, chain', m') \<Longrightarrow> ample m'"
proof (induction chain arbitrary: rc chain' m')
  case Nil
  then show ?case using ample_kalloc [of m] by (auto simp: hashtab_link_def split: prod.splits bool.splits)
next
  case (Cons p ps)
  then show ?case using ample_kalloc [of m] by (auto simp: hashtab_link_def Let_def split: prod.splits bool.splits if_splits)
qed

lemma insert_ample_left: "ample m \<Longrightarrow> hashtab_insert hash cmp h key datum m = (rc, h', m') \<Longrightarrow> ample m'"
  by (auto simp: hashtab_insert_def Let_def split: if_splits prod.splits option.splits dest: insert_chain_ample)

context hashtab_keys
begin

lemma chain_unique: "chain_inv xs \<Longrightarrow> chain_inv ys \<Longrightarrow> set xs = set ys \<Longrightarrow> xs = ys"
proof (induction xs arbitrary: ys)
  case (Cons x xs)
  obtain y ys' where ys: "ys = y # ys'" using Cons.prems(3) by (cases ys) auto
  have xs: "ok (fst x)" "\<forall>q \<in> set xs. cmp (fst x) (fst q) < 0" "chain_inv xs" using Cons.prems(1) by (simp_all add: chain_inv_Cons)
  have y: "ok (fst y)" "\<forall>q \<in> set ys'. cmp (fst y) (fst q) < 0" "chain_inv ys'" using Cons.prems(2) by (simp_all add: ys chain_inv_Cons)
  have "x = y"
  proof (rule ccontr)
    assume "x \<noteq> y"
    then have "x \<in> set ys'" "y \<in> set xs" using Cons.prems(3) unfolding ys by auto
    then show False using xs(1,2) y(1,2) cmp_flip [OF xs(1) y(1)] by force
  qed
  moreover have "x \<notin> set xs" "x \<notin> set ys'" using xs(1,2) y(2) cmp_zero [OF xs(1) xs(1)] \<open>x = y\<close> by force+
  ultimately have "set xs = set ys'" using Cons.prems(3) unfolding ys by auto
  then show ?case using Cons.IH [OF xs(3) y(3)] \<open>x = y\<close> ys by simp
qed simp

lemma chain_map_of: "chain_inv xs \<Longrightarrow> map_of xs k = Some d \<longleftrightarrow> (k, d) \<in> set xs"
proof (induction xs)
  case (Cons x xs)
  have "\<forall>q \<in> set xs. fst q \<noteq> fst x" using Cons.prems cmp_zero by (force simp: chain_inv_Cons)
  then show ?case using Cons by (cases x) (auto simp: chain_inv_Cons)
qed simp

lemma slot_table:
  assumes "inv g" "i < length (ht_htable g)"
  shows "(k, d) \<in> set (ht_htable g ! i) \<longleftrightarrow> unat (hash k AND (ht_size g - 1)) = i \<and> table g k = Some d"
proof -
  have "ht_size g \<noteq> 0" using assms by (auto simp: inv_def)
  then show ?thesis using assms chain_map_of [of "ht_htable g ! i" k d] by (force simp: inv_def table_def)
qed

lemma inv_unique:
  assumes "inv h" "inv h'" "table h = table h'" "ht_size h = ht_size h'"
  shows "h = h'"
proof -
  have "ht_htable h = ht_htable h'"
  proof (rule nth_equalityI)
    show len: "length (ht_htable h) = length (ht_htable h')" using assms by (simp add: inv_def)
    fix i assume i: "i < length (ht_htable h)"
    have "set (ht_htable h ! i) = set (ht_htable h' ! i)"
      using slot_table [OF assms(1) i] slot_table [OF assms(2) i [unfolded len]] assms(3,4) by auto
    then show "ht_htable h ! i = ht_htable h' ! i" using assms(1,2) i len by (intro chain_unique) (simp_all add: inv_def)
  qed
  moreover have "ht_nel h = ht_nel h'" using calculation assms(1,2) by (simp add: inv_def word_unat_eq_iff)
  ultimately show ?thesis using assms(4) by simp
qed

lemma insert_ample:
  assumes "inv h" "ok key" "table h key = None" "ht_size h \<noteq> 0" "ht_nel h \<noteq> HASHTAB_MAX_NODES"
  shows "\<exists>h'. (\<forall>m. ample m \<longrightarrow> (\<exists>m'. ample m' \<and> hashtab_insert hash cmp h key datum m = (OK, h', m'))) \<and>
    inv h' \<and> table h' = (table h)(key \<mapsto> datum) \<and> unat (ht_nel h') = unat (ht_nel h) + 1 \<and> ht_size h' = ht_size h"
proof -
  obtain h' m0 where h0: "hashtab_insert hash cmp h key datum [] = (OK, h', m0)" "inv h'" "table h' = (table h)(key \<mapsto> datum)"
      "unat (ht_nel h') = unat (ht_nel h) + 1" "ht_size h' = ht_size h"
    using insert_new [OF assms, of datum "[]"] by (metis ample_Nil ample_kalloc fst_conv prod_cases3)
  have "\<exists>m'. ample m' \<and> hashtab_insert hash cmp h key datum m = (OK, h', m')" if m: "ample m" for m
  proof -
    obtain rc h1 m1 where h1: "hashtab_insert hash cmp h key datum m = (rc, h1, m1)" by (metis prod_cases3)
    have "rc = OK \<and> h1 = h'" using insert_new [OF assms h1] h0(2,3,5) inv_unique [of h1 h'] ample_kalloc [OF m] by auto
    moreover have "ample m1" using insert_ample_left [OF m h1] .
    ultimately show ?thesis using h1 by blast
  qed
  then show ?thesis using h0 by blast
qed

end

section \<open>Labels of objects are read back\<close>

text \<open>
  What the writer needs of the labels of a policy, all of it true of labels that come from an image:
  contexts are valid and have canonical categories, names fit, and every label has the data of its kind.
\<close>

definition label_fits :: "policydb \<Rightarrow> context \<Rightarrow> bool" where
  "label_fits p c \<longleftrightarrow> range_fits (ctx_range c) \<and> policydb_context_isvalid p c \<and> ctx_len c = 0 \<and> ctx_str c = None"

definition one_label :: "ocontext \<Rightarrow> bool" where
  "one_label c \<longleftrightarrow> oc_v c = 0 \<and> oc_context1 c = context_init"

fun ocontext_fits :: "policydb \<Rightarrow> ocon \<Rightarrow> ocontext \<Rightarrow> bool" where
  "ocontext_fits p OCON_ISID c \<longleftrightarrow> oc_u c = OName [] \<and> one_label c"
| "ocontext_fits p OCON_FS c \<longleftrightarrow> (\<exists>n. oc_u c = OName n \<and> name_fits n) \<and> oc_v c = 0 \<and> label_fits p (oc_context1 c)"
| "ocontext_fits p OCON_NETIF c \<longleftrightarrow> (\<exists>n. oc_u c = OName n \<and> name_fits n) \<and> oc_v c = 0 \<and> label_fits p (oc_context1 c)"
| "ocontext_fits p OCON_PORT c \<longleftrightarrow> (\<exists>protocol low high. oc_u c = OPort protocol low high) \<and> one_label c"
| "ocontext_fits p OCON_NODE c \<longleftrightarrow> (\<exists>addr nmask. oc_u c = ONode addr nmask) \<and> one_label c"
| "ocontext_fits p OCON_FSUSE c \<longleftrightarrow> (\<exists>n. oc_u c = OName n \<and> name_fits n) \<and> oc_v c \<noteq> SECURITY_FS_USE_MNTPOINT \<and>
     oc_v c \<le> SECURITY_FS_USE_MAX \<and> oc_context1 c = context_init"
| "ocontext_fits p OCON_NODE6 c \<longleftrightarrow> (\<exists>addr nmask. oc_u c = ONode6 addr nmask \<and> length addr = 4 \<and> length nmask = 4) \<and> one_label c"
| "ocontext_fits p OCON_IBPKEY c \<longleftrightarrow> (\<exists>prefix low high. oc_u c = OIbpkey prefix low high) \<and> one_label c"
| "ocontext_fits p OCON_IBENDPORT c \<longleftrightarrow> (\<exists>n port. oc_u c = OIbendport n port \<and> name_fits n \<and> port \<noteq> 0) \<and> one_label c"

text \<open>The SIDs that a lookup stored with a label are not written; an initial SID is.\<close>

definition forget_sids :: "ocon \<Rightarrow> ocontext \<Rightarrow> ocontext" where
  "forget_sids i c = c\<lparr>oc_sid0 := (if i = OCON_ISID then oc_sid0 c else 0), oc_sid1 := 0\<rparr>"

lemma stores_label: "label_fits p c \<Longrightarrow> POLICYDB_VERSION_MLS \<le> policyvers p \<Longrightarrow> stores (context_write c) (context_read_and_validate p) c"
  by (simp add: label_fits_def stores_context)

lemma be_word_bytes: "be_word (be_bytes 8 w) = (w :: u64)"
  by (simp add: be_word_def be_bytes_def)

lemma ucast_word:
  "ucast (ucast (a :: u8) :: u32) = a" "ucast (ucast (b :: u16) :: u32) = b" "\<not> (ucast b :: u32) > 0xffff" "\<not> (ucast a :: u32) > 0xff"
  "(ucast a :: u32) = 0 \<longleftrightarrow> a = 0"
proof -
  show a: "ucast (ucast a :: u32) = a" by (rule bit_word_eqI) (simp add: bit_simps)
  show "ucast (ucast b :: u32) = b" by (rule bit_word_eqI) (simp add: bit_simps)
  have bounds: "unat b < 2 ^ 16" "unat a < 2 ^ 8" using unsigned_less [of b, where ?'a = nat] unsigned_less [of a, where ?'a = nat] by simp_all
  have "unat a < Suc 255" using bounds(2) by simp
  then have le: "unat a \<le> 255" by (rule less_Suc_eq_le [THEN iffD1])
  have "unat b < 2 ^ LENGTH(32)" using bounds(1) by (rule order.strict_trans2) simp
  moreover have "unat a < 2 ^ LENGTH(32)" using bounds(2) by (rule order.strict_trans2) simp
  ultimately have "unat (ucast b :: u32) = unat b" "unat (ucast a :: u32) = unat a" by (simp_all only: unsigned_ucast_eq take_bit_nat_eq_self)
  then show "\<not> (ucast b :: u32) > 0xffff" "\<not> (ucast a :: u32) > 0xff"
    using bounds(1) le by (simp_all add: word_less_nat_alt)
  show "(ucast a :: u32) = 0 \<longleftrightarrow> a = 0" using a by (metis unsigned_0)
qed

lemma stores_bytes: "length bs = n \<Longrightarrow> stores (put_entry bs) (next_entry n) bs"
  using storesI [OF writes_put accepts_entry] by blast

lemma stores_ocontext:
  assumes "ocontext_fits p i c" "label_fits p (oc_context0 c)" "POLICYDB_VERSION_MLS \<le> policyvers p"
  shows "stores (ocontext_write_item i c) (ocontext_read_item p i) (forget_sids i c)"
proof -
  note label = stores_label [OF _ assms(3)]
  have one: "forget_sids i c = ocontext_zero\<lparr>oc_u := oc_u c, oc_context0 := oc_context0 c\<rparr>" if "i \<noteq> OCON_ISID" "one_label c"
    using that by (cases c) (simp add: forget_sids_def ocontext_zero_def one_label_def)
  have name: "forget_sids i c = ocontext_zero\<lparr>oc_u := OName n, oc_v := oc_v c, oc_context0 := oc_context0 c, oc_context1 := oc_context1 c\<rparr>"
    if "i \<noteq> OCON_ISID" "oc_u c = OName n" for n
    using that by (cases c) (simp add: forget_sids_def ocontext_zero_def)
  have named: "stores (wr_seq (put_le32s [of_nat (length (oc_name c))]) (wr_seq (put_string (oc_name c))
      (wr_seq (context_write (oc_context0 c)) (context_write (oc_context1 c))))) (ocontext_read_named p) (forget_sids i c)"
    if "i \<noteq> OCON_ISID" "oc_u c = OName n" "name_fits n" "oc_v c = 0" "label_fits p (oc_context1 c)" for n
  proof -
    have n: "oc_name c = n" using that(2) by simp
    show ?thesis
      unfolding ocontext_read_named_def n
      by (intro stores_seq [OF stores_32] stores_seq [OF stores_string [OF that(3)]] stores_seq [OF label [OF assms(2)]] stores_map [OF label [OF that(5)]])
        (simp add: name [OF that(1,2)] that(4) ocontext_zero_def)
  qed
  show ?thesis
  proof (cases i)
    case OCON_ISID
    have "forget_sids OCON_ISID c = ocontext_zero\<lparr>oc_sid0 := oc_sid0 c, oc_context0 := oc_context0 c\<rparr>"
      using assms(1) OCON_ISID by (cases c) (simp add: forget_sids_def ocontext_zero_def one_label_def)
    then show ?thesis
      unfolding OCON_ISID ocontext_write_item.simps ocontext_read_item.simps
      by (intro stores_seq [OF stores_32] stores_map [OF label [OF assms(2)]]) simp
  next
    case OCON_FS
    then show ?thesis using named assms(1) by auto
  next
    case OCON_NETIF
    then show ?thesis using named assms(1) by auto
  next
    case OCON_PORT
    then obtain a b d where u: "oc_u c = OPort a b d" "one_label c" using assms(1) by auto
    show ?thesis
      unfolding OCON_PORT ocontext_write_item.simps ocontext_read_item.simps u(1) ocontext_u.case
      by (intro stores_seq [OF stores_32s] stores_map [OF label [OF assms(2)]]) (simp_all add: one [unfolded OCON_PORT] u ucast_word)
  next
    case OCON_NODE
    then obtain a b where u: "oc_u c = ONode a b" "one_label c" using assms(1) by auto
    show ?thesis
      unfolding OCON_NODE ocontext_write_item.simps ocontext_read_item.simps u(1) ocontext_u.case
      by (intro stores_seq [OF stores_32s] stores_map [OF label [OF assms(2)]]) (simp_all add: one [unfolded OCON_NODE] u)
  next
    case OCON_FSUSE
    then obtain n where u: "oc_u c = OName n" "name_fits n" "oc_v c \<noteq> SECURITY_FS_USE_MNTPOINT" "oc_v c \<le> SECURITY_FS_USE_MAX" "oc_context1 c = context_init"
      using assms(1) by auto
    have n: "oc_name c = n" "[oc_v c, of_nat (length n)] ! 1 = of_nat (length n)" "[oc_v c, of_nat (length n)] ! 0 = oc_v c" using u(1) by simp_all
    show ?thesis
      unfolding OCON_FSUSE ocontext_write_item.simps ocontext_read_item.simps n(1)
      by (rule stores_seq [OF stores_32s], simp, unfold n(2,3))
        (intro stores_check stores_seq [OF stores_string [OF u(2)]] stores_map [OF label [OF assms(2)]],
         use u in \<open>auto simp: name [unfolded OCON_FSUSE] ocontext_zero_def\<close>)
  next
    case OCON_NODE6
    then obtain a b where u: "oc_u c = ONode6 a b" "length a = 4" "length b = 4" "one_label c" using assms(1) by auto
    show ?thesis
      unfolding OCON_NODE6 ocontext_write_item.simps ocontext_read_item.simps u(1) ocontext_u.case
      by (intro stores_seq [OF stores_32s] stores_map [OF label [OF assms(2)]]) (simp_all add: one [unfolded OCON_NODE6] u)
  next
    case OCON_IBPKEY
    then obtain prefix low high where u: "oc_u c = OIbpkey prefix low high" "one_label c" using assms(1) by auto
    show ?thesis
      unfolding OCON_IBPKEY ocontext_write_item.simps ocontext_read_item.simps u(1) ocontext_u.case
      by (intro stores_seq [OF stores_bytes] stores_seq [OF stores_32s] stores_check stores_map [OF label [OF assms(2)]])
        (simp_all add: one [unfolded OCON_IBPKEY] u ucast_word be_word_bytes, simp add: be_bytes_def)
  next
    case OCON_IBENDPORT
    then obtain n port where u: "oc_u c = OIbendport n port" "name_fits n" "port \<noteq> 0" "one_label c" using assms(1) by auto
    have n: "[of_nat (length n), ucast port] ! 0 = (of_nat (length n) :: u32)" "[of_nat (length n), ucast port] ! 1 = (ucast port :: u32)" by simp_all
    show ?thesis
      unfolding OCON_IBENDPORT ocontext_write_item.simps ocontext_read_item.simps u(1) ocontext_u.case
      by (rule stores_seq [OF stores_32s], simp, unfold n)
        (intro stores_seq [OF stores_string [OF u(2)]] stores_check stores_map [OF label [OF assms(2)]],
         simp_all add: one [unfolded OCON_IBENDPORT] u ucast_word)
  qed
qed

lemma labels_keep_valid [simp]:
  "policydb_context_isvalid (p\<lparr>ocontexts := oc\<rparr>) = policydb_context_isvalid p" "policydb_context_isvalid (p\<lparr>p_genfs := gs\<rparr>) = policydb_context_isvalid p"
proof -
  have name: "sym_name (p\<lparr>ocontexts := oc\<rparr>) = sym_name p" "sym_name (p\<lparr>p_genfs := gs\<rparr>) = sym_name p" by (simp_all add: fun_eq_iff sym_name_def)
  have "mls_level_isvalid (p\<lparr>ocontexts := oc\<rparr>) = mls_level_isvalid p" "mls_level_isvalid (p\<lparr>p_genfs := gs\<rparr>) = mls_level_isvalid p"
    by (simp_all add: fun_eq_iff mls_level_isvalid_def name cong: option.case_cong)
  then show "policydb_context_isvalid (p\<lparr>ocontexts := oc\<rparr>) = policydb_context_isvalid p" "policydb_context_isvalid (p\<lparr>p_genfs := gs\<rparr>) = policydb_context_isvalid p"
    by (simp_all add: fun_eq_iff policydb_context_isvalid_def mls_context_isvalid_def mls_range_isvalid_def cong: option.case_cong)
qed

lemma fits_keeps [simp]:
  "label_fits (p\<lparr>ocontexts := oc\<rparr>) = label_fits p" "label_fits (p\<lparr>p_genfs := gs\<rparr>) = label_fits p"
  "ocontext_fits (p\<lparr>ocontexts := oc\<rparr>) i c = ocontext_fits p i c" "ocontext_fits (p\<lparr>p_genfs := gs\<rparr>) i c = ocontext_fits p i c"
  by (cases i; simp add: fun_eq_iff label_fits_def)+

definition kind_fits :: "policydb \<Rightarrow> ocon \<Rightarrow> bool" where
  "kind_fits p i \<longleftrightarrow> length (ocontexts p i) < 2 ^ 32 \<and> (\<forall>c \<in> set (ocontexts p i). ocontext_fits p i c \<and> label_fits p (oc_context0 c))"

lemma stores_kinds:
  assumes "POLICYDB_VERSION_MLS \<le> policyvers p" "\<forall>i \<in> set is. kind_fits p i"
  shows "stores (wr_each (\<lambda>i. wr_seq (put_le32s [of_nat (length (ocontexts p i))]) (wr_each (ocontext_write_item i) (ocontexts p i))) is)
    (ocontext_read_kinds is (p\<lparr>ocontexts := oc\<rparr>))
    (p\<lparr>ocontexts := (\<lambda>i. if i \<in> set is then map (forget_sids i) (ocontexts p i) else oc i)\<rparr>)"
  using assms(2)
proof (induction "is" arbitrary: oc)
  case Nil
  then show ?case by (simp add: stores_skip)
next
  case (Cons i "is")
  let ?q = "p\<lparr>ocontexts := oc\<rparr>" and ?cs = "map (forget_sids i) (ocontexts p i)"
  have fits: "kind_fits p i" using Cons.prems by simp
  then have len: "unat (of_nat (length (ocontexts p i)) :: u32) = length (ocontexts p i)" by (simp add: kind_fits_def unat_length)
  have item: "stores (ocontext_write_item i c) (rd_bind rd_alloc (\<lambda>_. rd_bind (ocontext_read_item ?q i) (\<lambda>c. rd_return (cs @ [c])))) (cs @ [forget_sids i c])"
    if "c \<in> set (ocontexts p i)" for c cs
    using that fits assms(1) by (intro stores_alloc stores_map [OF stores_ocontext]) (auto simp: kind_fits_def)
  have "stores (wr_each (ocontext_write_item i) (ocontexts p i))
      (rd_times (length (ocontexts p i)) (\<lambda>cs. rd_bind rd_alloc (\<lambda>_. rd_bind (ocontext_read_item ?q i) (\<lambda>c. rd_return (cs @ [c])))) []) ?cs"
    using stores_each [where ys = "[]", OF item] by simp
  moreover have "(\<lambda>j. if j \<in> set (i # is) then map (forget_sids j) (ocontexts p j) else oc j) =
      (\<lambda>j. if j \<in> set is then map (forget_sids j) (ocontexts p j) else (oc(i := ?cs)) j)" by (auto simp: fun_eq_iff)
  then have "stores (wr_each (\<lambda>i. wr_seq (put_le32s [of_nat (length (ocontexts p i))]) (wr_each (ocontext_write_item i) (ocontexts p i))) is)
      (ocontext_read_kinds is (?q\<lparr>ocontexts := (ocontexts ?q)(i := ?cs)\<rparr>))
      (p\<lparr>ocontexts := (\<lambda>j. if j \<in> set (i # is) then map (forget_sids j) (ocontexts p j) else oc j)\<rparr>)"
    using Cons.IH [of "oc(i := ?cs)"] Cons.prems by (simp del: fun_upd_apply)
  ultimately show ?case
    unfolding wr_each.simps ocontext_read_kinds.simps wr_seq_assoc
    by (intro stores_seq [OF stores_32] stores_seq) (simp_all only: len)
qed

text \<open>File systems are in the order of their names and their paths from long to short, as the lookup needs it.\<close>

definition entry_fits :: "policydb \<Rightarrow> ocontext \<Rightarrow> bool" where
  "entry_fits p c \<longleftrightarrow> (\<exists>n. oc_u c = OName n \<and> name_fits n) \<and> oc_context1 c = context_init \<and> label_fits p (oc_context0 c)"

definition genfs_fits :: "policydb \<Rightarrow> genfs \<Rightarrow> bool" where
  "genfs_fits p g \<longleftrightarrow> name_fits (gf_fstype g) \<and> length (gf_head g) < 2 ^ 32 \<and> (\<forall>c \<in> set (gf_head g). entry_fits p c) \<and>
     sorted_wrt (\<lambda>c c'. length (oc_name c') \<le> length (oc_name c) \<and>
       \<not> (oc_name c' = oc_name c \<and> (oc_v c = 0 \<or> oc_v c' = 0 \<or> oc_v c' = oc_v c))) (gf_head g)"

definition genfs_list_fits :: "policydb \<Rightarrow> bool" where
  "genfs_list_fits p \<longleftrightarrow> length (p_genfs p) < 2 ^ 32 \<and> (\<forall>g \<in> set (p_genfs p). genfs_fits p g) \<and>
     sorted_wrt (\<lambda>g g'. strcmp (gf_fstype g') (gf_fstype g) > 0) (p_genfs p)"

definition forget_genfs :: "genfs \<Rightarrow> genfs" where
  "forget_genfs g = g\<lparr>gf_head := map (forget_sids OCON_FSUSE) (gf_head g)\<rparr>"

lemma forget_genfs_eq: "forget_genfs g = \<lparr>gf_fstype = gf_fstype g, gf_head = map (forget_sids OCON_FSUSE) (gf_head g)\<rparr>"
  by (cases g) (simp add: forget_genfs_def)

lemma oc_name_forget [simp]: "oc_name (forget_sids i c) = oc_name c" "oc_v (forget_sids i c) = oc_v c"
  by (simp_all add: forget_sids_def)

lemma entry_place_end:
  assumes "\<forall>c \<in> set cs. length name \<le> length (oc_name c) \<and> \<not> (name = oc_name c \<and> (oc_v c = 0 \<or> v = 0 \<or> v = oc_v c))"
  shows "genfs_entry_place name v cs = Some (length cs)"
  using assms by (induction cs) (auto simp: strcmp_zero not_less)

lemma genfs_place_end: "\<forall>g \<in> set gs. strcmp fstype (gf_fstype g) > 0 \<Longrightarrow> genfs_place fstype gs = Some (length gs)"
  by (induction gs) auto

lemma list_link_end [simp]: "list_link (length xs) x xs = xs @ [x]"
  by (simp add: list_link_def)

text \<open>A loop whose items are accepted after those before them.\<close>

lemma stores_each_after:
  assumes "\<And>ys x zs. xs = ys @ x # zs \<Longrightarrow> stores (w x) (f (put (map g ys))) (put (map g ys @ [g x]))"
  shows "stores (wr_each w xs) (rd_times (length xs) f (put [])) (put (map g xs))"
proof -
  have "stores (wr_each w zs) (rd_times (length zs) f (put (map g ys))) (put (map g (ys @ zs)))" if "xs = ys @ zs" for ys zs
    using that
  proof (induction zs arbitrary: ys)
    case (Cons z zs)
    have "stores (wr_each w zs) (rd_times (length zs) f (put (map g (ys @ [z])))) (put (map g ((ys @ [z]) @ zs)))"
      by (rule Cons.IH) (use Cons.prems in simp)
    then show ?case using stores_seq [OF assms [OF Cons.prems], of "wr_each w zs"] by simp
  qed (simp add: stores_skip)
  from this [of "[]" xs] show ?thesis by simp
qed

lemma stores_entries:
  assumes "POLICYDB_VERSION_MLS \<le> policyvers p" "genfs_fits p g"
  shows "stores (wr_each genfs_write_entry (gf_head g)) (rd_times (length (gf_head g)) (genfs_read_entry p) []) (map (forget_sids OCON_FSUSE) (gf_head g))"
proof (rule stores_each_after [where put = "\<lambda>cs. cs", simplified])
  fix ys c zs assume split: "gf_head g = ys @ c # zs"
  obtain n where c: "oc_u c = OName n" "name_fits n" "oc_context1 c = context_init" "label_fits p (oc_context0 c)"
    using assms(2) split by (auto simp: genfs_fits_def entry_fits_def)
  have n: "oc_name c = n" using c(1) by simp
  have "genfs_entry_place n (oc_v c) (map (forget_sids OCON_FSUSE) ys) = Some (length ys)"
    using entry_place_end [of "map (forget_sids OCON_FSUSE) ys" n "oc_v c"] assms(2) n unfolding genfs_fits_def split
    by (auto simp: sorted_wrt_append simp del: oc_name.simps)
  moreover have "forget_sids OCON_FSUSE c = ocontext_zero\<lparr>oc_u := OName n, oc_v := oc_v c, oc_context0 := oc_context0 c\<rparr>"
    using c(1,3) by (cases c) (simp add: forget_sids_def ocontext_zero_def)
  ultimately have place: "accepts (case genfs_entry_place n (oc_v c) (map (forget_sids OCON_FSUSE) ys) of None \<Rightarrow> rd_fail EINVAL
      | Some i \<Rightarrow> rd_return (list_link i (ocontext_zero\<lparr>oc_u := OName n, oc_v := oc_v c, oc_context0 := oc_context0 c\<rparr>) (map (forget_sids OCON_FSUSE) ys))) []
      (map (forget_sids OCON_FSUSE) ys @ [forget_sids OCON_FSUSE c])"
    using list_link_end [of "map (forget_sids OCON_FSUSE) ys"] by (simp add: accepts_return)
  show "stores (genfs_write_entry c) (genfs_read_entry p (map (forget_sids OCON_FSUSE) ys)) (map (forget_sids OCON_FSUSE) ys @ [forget_sids OCON_FSUSE c])"
    unfolding genfs_write_entry_def genfs_read_entry_def n
    by (intro stores_seq [OF stores_32] stores_alloc stores_seq [OF stores_string [OF c(2)]] stores_tail [OF stores_label [OF c(4) assms(1)]] place)
qed

lemma stores_genfs:
  assumes "POLICYDB_VERSION_MLS \<le> policyvers p" "genfs_list_fits p"
  shows "stores (genfs_write p) (genfs_read (p\<lparr>p_genfs := []\<rparr>)) (p\<lparr>p_genfs := map forget_genfs (p_genfs p)\<rparr>)"
proof -
  have len: "unat (of_nat (length (p_genfs p)) :: u32) = length (p_genfs p)" using assms(2) by (simp add: genfs_list_fits_def unat_length)
  have "stores (wr_each (\<lambda>g. wr_seq (put_le32s [of_nat (length (gf_fstype g))]) (wr_seq (put_string (gf_fstype g))
      (wr_seq (put_le32s [of_nat (length (gf_head g))]) (wr_each genfs_write_entry (gf_head g))))) (p_genfs p))
    (rd_times (length (p_genfs p)) genfs_read_item (p\<lparr>p_genfs := []\<rparr>)) (p\<lparr>p_genfs := map forget_genfs (p_genfs p)\<rparr>)"
  proof (rule stores_each_after [where put = "\<lambda>gs. p\<lparr>p_genfs := gs\<rparr>"])
    fix ys g zs assume split: "p_genfs p = ys @ g # zs"
    let ?p = "p\<lparr>p_genfs := map forget_genfs ys\<rparr>"
    have g: "genfs_fits p g" using assms(2) split by (simp add: genfs_list_fits_def)
    then have fits: "name_fits (gf_fstype g)" "unat (of_nat (length (gf_head g)) :: u32) = length (gf_head g)"
      by (simp_all add: genfs_fits_def unat_length)
    have "genfs_place (gf_fstype g) (map forget_genfs ys) = Some (length ys)"
      using genfs_place_end [of "map forget_genfs ys" "gf_fstype g"] assms(2) unfolding genfs_list_fits_def split
      by (auto simp: sorted_wrt_append forget_genfs_def)
    moreover have "stores (wr_each genfs_write_entry (gf_head g)) (rd_times (length (gf_head g)) (genfs_read_entry ?p) []) (map (forget_sids OCON_FSUSE) (gf_head g))"
      using assms(1) g by (intro stores_entries) (simp_all add: genfs_fits_def entry_fits_def)
    ultimately show "stores (wr_seq (put_le32s [of_nat (length (gf_fstype g))]) (wr_seq (put_string (gf_fstype g))
        (wr_seq (put_le32s [of_nat (length (gf_head g))]) (wr_each genfs_write_entry (gf_head g))))) (genfs_read_item ?p) (p\<lparr>p_genfs := map forget_genfs ys @ [forget_genfs g]\<rparr>)"
      unfolding genfs_read_item_def using list_link_end [of "map forget_genfs ys"]
      by (intro stores_seq [OF stores_32] stores_alloc stores_seq [OF stores_string [OF fits(1)]])
        (simp, intro stores_seq [OF stores_32] stores_map, simp_all add: fits(2) forget_genfs_eq)
  qed
  then show ?thesis unfolding genfs_write_def genfs_read_def by (intro stores_seq [OF stores_32]) (simp only: len)
qed

section \<open>A policy with labels\<close>

definition sample_label :: "context" where
  "sample_label = context_init\<lparr>ctx_user := 1, ctx_role := 1, ctx_type := 1\<rparr>"

definition sample_ocontext :: "ocontext_u \<Rightarrow> ocontext" where
  "sample_ocontext u = ocontext_zero\<lparr>oc_u := u, oc_context0 := sample_label, oc_sid0 := 77\<rparr>"

definition sample_labels :: policydb where
  "sample_labels = policydb_init\<lparr>policyvers := 33, p_users := symtab_zero\<lparr>st_nprim := 1\<rparr>, p_roles := symtab_zero\<lparr>st_nprim := 1\<rparr>,
     p_types := symtab_zero\<lparr>st_nprim := 1\<rparr>, type_val_to_struct := [Some (sample_type 1 0)],
     ocontexts := (\<lambda>_. [])(OCON_PORT := [sample_ocontext (OPort 6 80 90)]),
     p_genfs := [\<lparr>gf_fstype = ''proc'', gf_head = [sample_ocontext (OName ''/net''), sample_ocontext (OName ''/'')]\<rparr>]\<rparr>"

lemma sample_label_fits: "label_fits sample_labels sample_label"
  by (simp add: label_fits_def sample_label_def context_init_def range_fits_def level_fits_def level_init_def bitmap_fits_def ebitmap_init_def ebitmap_canon_def nodes_end_def
      policydb_context_isvalid_def sample_labels_def policydb_init_def mls_context_isvalid_def val_to_struct_def sample_type_def)

lemma sample_labels_fit: "kind_fits sample_labels i" "genfs_list_fits sample_labels"
proof -
  have label: "oc_context0 (sample_ocontext u) = sample_label" "oc_context1 (sample_ocontext u) = context_init" "oc_u (sample_ocontext u) = u" "oc_v (sample_ocontext u) = 0" for u
    by (simp_all add: sample_ocontext_def ocontext_zero_def)
  have oc: "ocontexts sample_labels = (\<lambda>_. [])(OCON_PORT := [sample_ocontext (OPort 6 80 90)])"
    and gf: "p_genfs sample_labels = [\<lparr>gf_fstype = ''proc'', gf_head = [sample_ocontext (OName ''/net''), sample_ocontext (OName ''/'')]\<rparr>]"
    by (simp_all add: sample_labels_def)
  show "kind_fits sample_labels i" by (simp add: kind_fits_def oc label one_label_def sample_label_fits)
  show "genfs_list_fits sample_labels"
    by (simp add: genfs_list_fits_def gf genfs_fits_def entry_fits_def label name_fits_def sample_label_fits)
qed

section \<open>Properties\<close>

text \<open>
  C38. The labels of objects survive in an image: the object contexts and the labels of file systems that are
  written are read back, into the policy with its labels taken out, as they were, each list in its order;
  only the SIDs that lookups stored with the labels are gone, except for the initial SIDs.
\<close>

theorem labels_write_read:
  assumes "POLICYDB_VERSION_AVTAB \<le> policyvers p" "\<forall>i \<in> set (take ocon_num ocon_order). kind_fits p i" "genfs_list_fits p"
  shows "\<exists>bs. (\<forall>out len. length bs \<le> len \<longrightarrow> wr_seq (ocontext_write ocon_num p) (genfs_write p) (out, len) = (OK, out @ bs, len - length bs)) \<and>
    (\<forall>rest m. ample m \<longrightarrow> (\<exists>m'. rd_bind (ocontext_read ocon_num (p\<lparr>ocontexts := (\<lambda>_. []), p_genfs := []\<rparr>)) genfs_read (bs @ rest, m) =
       Inr (p\<lparr>ocontexts := (\<lambda>i. if i \<in> set (take ocon_num ocon_order) then map (forget_sids i) (ocontexts p i) else []),
             p_genfs := map forget_genfs (p_genfs p)\<rparr>, rest, m')))"
proof -
  let ?X = "\<lambda>i. if i \<in> set (take ocon_num ocon_order) then map (forget_sids i) (ocontexts p i) else []"
  let ?p = "p\<lparr>p_genfs := []\<rparr>" and ?P = "p\<lparr>ocontexts := ?X\<rparr>"
  have v: "POLICYDB_VERSION_MLS \<le> policyvers p" using assms(1) by (rule order_trans [rotated]) simp
  have "\<forall>i \<in> set (take ocon_num ocon_order). kind_fits ?p i" using assms(2) by (simp add: kind_fits_def)
  then have "stores (ocontext_write ocon_num p) (ocontext_read ocon_num (?p\<lparr>ocontexts := (\<lambda>_. [])\<rparr>)) (?p\<lparr>ocontexts := ?X\<rparr>)"
    using stores_kinds [of ?p "take ocon_num ocon_order" "\<lambda>_. []"] v unfolding ocontext_write_def ocontext_read_def by (simp cong: if_cong)
  moreover have "stores (genfs_write p) (genfs_read (?P\<lparr>p_genfs := []\<rparr>)) (?P\<lparr>p_genfs := map forget_genfs (p_genfs p)\<rparr>)"
    using stores_genfs [of ?P] v assms(3) by (simp add: genfs_list_fits_def genfs_fits_def entry_fits_def genfs_write_def)
  moreover have swap: "?p\<lparr>ocontexts := oc\<rparr> = p\<lparr>ocontexts := oc, p_genfs := []\<rparr>" for oc by (cases p) simp
  ultimately have "stores (wr_seq (ocontext_write ocon_num p) (genfs_write p)) (rd_bind (ocontext_read ocon_num (p\<lparr>ocontexts := (\<lambda>_. []), p_genfs := []\<rparr>)) genfs_read)
      (p\<lparr>ocontexts := ?X, p_genfs := map forget_genfs (p_genfs p)\<rparr>)"
    using stores_seq [of "ocontext_write ocon_num p" "ocontext_read ocon_num (?p\<lparr>ocontexts := (\<lambda>_. [])\<rparr>)" "?p\<lparr>ocontexts := ?X\<rparr>" "genfs_write p" genfs_read]
    by (simp add: swap)
  then show ?thesis unfolding stores_def writes_def accepts_def by blast
qed

theorem labels_write_read_witness:
  "\<exists>bs m'. wr_seq (ocontext_write 9 sample_labels) (genfs_write sample_labels) ([], length bs) = (OK, bs, 0) \<and>
    rd_bind (ocontext_read 9 (sample_labels\<lparr>ocontexts := (\<lambda>_. []), p_genfs := []\<rparr>)) genfs_read (bs, []) =
      Inr (sample_labels\<lparr>ocontexts := (\<lambda>i. if i \<in> set ocon_order then map (forget_sids i) (ocontexts sample_labels i) else []),
             p_genfs := map forget_genfs (p_genfs sample_labels)\<rparr>, [], m')"
proof -
  have v: "POLICYDB_VERSION_AVTAB \<le> policyvers sample_labels" by (simp add: sample_labels_def)
  have n: "take 9 ocon_order = ocon_order" by (simp add: ocon_order_def)
  obtain bs where bs: "\<forall>out len. length bs \<le> len \<longrightarrow> wr_seq (ocontext_write 9 sample_labels) (genfs_write sample_labels) (out, len) = (OK, out @ bs, len - length bs)"
      "\<forall>rest m. ample m \<longrightarrow> (\<exists>m'. rd_bind (ocontext_read 9 (sample_labels\<lparr>ocontexts := (\<lambda>_. []), p_genfs := []\<rparr>)) genfs_read (bs @ rest, m) =
         Inr (sample_labels\<lparr>ocontexts := (\<lambda>i. if i \<in> set ocon_order then map (forget_sids i) (ocontexts sample_labels i) else []),
             p_genfs := map forget_genfs (p_genfs sample_labels)\<rparr>, rest, m'))"
    using labels_write_read [OF v, of 9] sample_labels_fit unfolding n by blast
  show ?thesis using bs(1) [rule_format, of "length bs" "[]"] bs(2) [rule_format, of "[]" "[]"] by (intro exI [of _ bs]) auto
qed

end
