(* ===== verification/Symbol_Image.thy ===== *)
theory Symbol_Image
  imports Policy_Write
begin

text \<open>
  Symbol tables in the binary policy: what the writers of \<open>ss/policydb.c\<close> and \<open>ss/conditional.c\<close> write for
  classes, roles, types, users, booleans, levels and categories is read back as the same tables, slot by
  slot, since a chain is in the order of its keys and the number of slots follows from the number of entries.
\<close>

section \<open>Tables that are written entry by entry\<close>

definition empty_table :: "u32 \<Rightarrow> ('k, 'd) hashtab" where
  "empty_table sz = \<lparr>ht_htable = replicate (unat sz) [], ht_size = sz, ht_nel = 0\<rparr>"

lemma map_as_each: "hashtab_map h w = wr_each (\<lambda>(k, d). w k d) (hashtab_nodes h)"
proof -
  have "hashtab_map_nodes w ns = wr_each (\<lambda>(k, d). w k d) ns" for ns
    by (induction ns) (auto simp: fun_eq_iff wr_skip_def wr_seq_def split: prod.split option.split)
  then show ?thesis by (simp add: fun_eq_iff hashtab_map_def)
qed

lemma in_concat: "p \<in> set (concat xss) \<longleftrightarrow> (\<exists>i < length xss. p \<in> set (xss ! i))"
  by (auto simp: set_concat) (metis in_set_conv_nth)

lemma distinct_slots:
  assumes "\<forall>i < length xss. distinct (map fst (xss ! i)) \<and> (\<forall>p \<in> set (xss ! i). slot (fst p) = n + i)"
  shows "distinct (map fst (concat xss))"
  using assms
proof (induction xss arbitrary: n)
  case (Cons xs xss)
  have head: "distinct (map fst xs)" "\<forall>p \<in> set xs. slot (fst p) = n" using Cons.prems [rule_format, of 0] by simp_all
  have tail: "\<forall>i < length xss. distinct (map fst (xss ! i)) \<and> (\<forall>p \<in> set (xss ! i). slot (fst p) = Suc n + i)"
    using Cons.prems by (metis add_Suc add_Suc_right length_Cons nat_less_le not_less_eq nth_Cons_Suc)
  have "\<forall>p \<in> set (concat xss). slot (fst p) > n" 
  proof
    fix p assume "p \<in> set (concat xss)"
    then obtain i where "i < length xss" "p \<in> set (xss ! i)" unfolding in_concat by blast
    then show "slot (fst p) > n" using tail by force
  qed
  then have "fst ` set xs \<inter> fst ` set (concat xss) = {}" using head(2) by fastforce
  then show ?case using head(1) Cons.IH [OF tail] by simp
qed simp

context hashtab_keys
begin

lemma empty_inv: "inv (empty_table sz)" "table (empty_table sz) k = None"
  using slot_less [of "empty_table sz"] by (auto simp: inv_def empty_table_def chain_inv_def table_def)

lemma nodes_concat: "inv h \<Longrightarrow> hashtab_nodes h = concat (ht_htable h)"
  unfolding hashtab_nodes_def inv_def by (metis map_nth)

lemma chain_distinct: "chain_inv xs \<Longrightarrow> distinct (map fst xs)"
proof (induction xs)
  case (Cons x xs)
  then show ?case using cmp_zero by (force simp: chain_inv_Cons)
qed simp

lemma inv_nodes:
  assumes "inv h"
  shows "length (hashtab_nodes h) = unat (ht_nel h)" "distinct (map fst (hashtab_nodes h))" "\<forall>n \<in> set (hashtab_nodes h). ok (fst n)"
    "map_of (hashtab_nodes h) = table h"
proof -
  note nodes = nodes_concat [OF assms]
  show "length (hashtab_nodes h) = unat (ht_nel h)" using assms unfolding nodes by (simp add: inv_def)
  have "\<forall>i < length (ht_htable h). distinct (map fst (ht_htable h ! i)) \<and> (\<forall>p \<in> set (ht_htable h ! i). unat (hash (fst p) AND (ht_size h - 1)) = 0 + i)"
    using assms by (auto simp: inv_def intro: chain_distinct)
  then show d: "distinct (map fst (hashtab_nodes h))" unfolding nodes by (rule distinct_slots)
  show "\<forall>n \<in> set (hashtab_nodes h). ok (fst n)"
    using assms unfolding nodes inv_def Ball_def in_concat by (blast intro: chain_inv_ok)
  have "map_of (hashtab_nodes h) k = Some d \<longleftrightarrow> table h k = Some d" for k d
  proof -
    have "(k, d) \<in> set (hashtab_nodes h) \<longleftrightarrow> (\<exists>i < length (ht_htable h). (k, d) \<in> set (ht_htable h ! i))"
      unfolding nodes by (rule in_concat)
    also have "\<dots> \<longleftrightarrow> table h k = Some d"
      using slot_table [OF assms] slot_less [of h "hash k"] assms by (auto simp: inv_def table_def split: if_splits)
    finally show ?thesis using d by simp
  qed
  then show "map_of (hashtab_nodes h) = table h" by (metis ext not_None_eq)
qed

lemma card_table:
  assumes "inv h"
  shows "card (dom (table h)) = unat (ht_nel h)" "finite (dom (table h))"
proof -
  have "dom (table h) = fst ` set (hashtab_nodes h)" using inv_nodes(4) [OF assms] by (metis dom_map_of_conv_image_fst)
  then show "card (dom (table h)) = unat (ht_nel h)" "finite (dom (table h))"
    using inv_nodes(1,2) [OF assms] distinct_card [of "map fst (hashtab_nodes h)"] by simp_all
qed

lemma room_left:
  assumes "inv h" "inv g" "table g \<subseteq>\<^sub>m table h" "table h k = Some d" "table g k = None"
  shows "ht_nel g \<noteq> HASHTAB_MAX_NODES"
proof -
  have "dom (table g) \<subset> dom (table h)" using assms(3-5) map_le_implies_dom_le by blast
  then have "unat (ht_nel g) < unat (ht_nel h)" using card_table [OF assms(1)] card_table(1) [OF assms(2)] by (metis psubset_card_mono)
  moreover have "unat (ht_nel h) < Suc 4294967295" using unat_u32_bound [of "ht_nel h"] by simp
  then have "unat (ht_nel h) \<le> 4294967295" by (rule less_Suc_eq_le [THEN iffD1])
  ultimately show ?thesis by (auto simp: HASHTAB_MAX_NODES_def)
qed

text \<open>
  The entries of a table, inserted one after the other into one of the same size that has some of them,
  give the table. The reader inserts an entry, or leaves alone an entry that is there.
\<close>

lemma stores_inserts_from:
  assumes "inv h"
    and new: "\<And>k d g g'. (k, d) \<in> set (hashtab_nodes h) \<Longrightarrow> table g0 k = None \<Longrightarrow>
      (\<And>m. ample m \<Longrightarrow> \<exists>m'. ample m' \<and> hashtab_insert hash cmp g k d m = (OK, g', m')) \<Longrightarrow> stores (w k d) (f (put g)) (put g')"
    and old: "\<And>k d g. (k, d) \<in> set (hashtab_nodes h) \<Longrightarrow> table g0 k = Some d \<Longrightarrow> stores (w k d) (f (put g)) (put g)"
    and "set ns \<subseteq> set (hashtab_nodes h)" "distinct (map fst ns)" "inv g" "ht_size g = ht_size h" "table g \<subseteq>\<^sub>m table h"
    and "\<forall>k \<in> fst ` set ns. table g k = table g0 k"
  shows "\<exists>g'. stores (wr_each (\<lambda>(k, d). w k d) ns) (rd_times (length ns) f (put g)) (put g') \<and> inv g' \<and> ht_size g' = ht_size h \<and>
    table g' = table g ++ map_of ns"
  using assms(4-)
proof (induction ns arbitrary: g)
  case Nil
  then show ?case by (auto intro: stores_skip)
next
  case (Cons n ns)
  obtain k d where n: "n = (k, d)" by fastforce
  have kd: "(k, d) \<in> set (hashtab_nodes h)" using Cons.prems(1) n by simp
  then have h: "table h k = Some d" "ok k" using inv_nodes(2,4) [OF assms(1)] inv_nodes(3) [OF assms(1)] by (metis map_of_eq_Some_iff, metis fst_conv)
  have "\<exists>g1. stores (w k d) (f (put g)) (put g1) \<and> inv g1 \<and> ht_size g1 = ht_size h \<and> table g1 = (table g)(k \<mapsto> d)"
  proof (cases "table g k")
    case None
    have size: "ht_size g \<noteq> 0" using h(1) Cons.prems(4) by (auto simp: table_def)
    obtain g1 where "\<forall>m. ample m \<longrightarrow> (\<exists>m'. ample m' \<and> hashtab_insert hash cmp g k d m = (OK, g1, m'))" "inv g1"
        "table g1 = (table g)(k \<mapsto> d)" "ht_size g1 = ht_size g"
      using insert_ample [OF Cons.prems(3) h(2) None size room_left [OF assms(1) Cons.prems(3,5) h(1) None]] by blast
    then show ?thesis using new [OF kd, of g g1] None Cons.prems(4,6) n by auto
  next
    case (Some d')
    then have "d' = d" using Cons.prems(5) h(1) by (metis domI map_le_def option.inject)
    then show ?thesis using old [OF kd, of g] Some Cons.prems(3,4,6) n by (intro exI [of _ g]) (auto simp: fun_upd_idem)
  qed
  then obtain g1 where g1: "stores (w k d) (f (put g)) (put g1)" "inv g1" "ht_size g1 = ht_size h" "table g1 = (table g)(k \<mapsto> d)" by blast
  have "table g1 \<subseteq>\<^sub>m table h" using Cons.prems(5) h(1) g1(4) by (auto simp: map_le_def)
  moreover have "\<forall>k' \<in> fst ` set ns. table g1 k' = table g0 k'" using Cons.prems(2,6) n g1(4) by auto
  ultimately obtain g' where g': "stores (wr_each (\<lambda>(k, d). w k d) ns) (rd_times (length ns) f (put g1)) (put g')" "inv g'" "ht_size g' = ht_size h"
      "table g' = table g1 ++ map_of ns"
    using Cons.IH [of g1] Cons.prems(1,2) g1(2,3) by auto
  have "k \<notin> dom (map_of ns)" using Cons.prems(2) n by (simp add: dom_map_of_conv_image_fst)
  then have "table g' = table g ++ map_of (n # ns)" using g'(4) g1(4) n by (auto simp: fun_eq_iff map_add_def split: option.splits)
  moreover have "stores (wr_each (\<lambda>(k, d). w k d) (n # ns)) (rd_times (length (n # ns)) f (put g)) (put g')"
    using stores_seq [where f = "rd_times (length ns) f", OF g1(1) g'(1)] n by simp
  ultimately show ?case using g'(2,3) by blast
qed

lemma stores_inserts:
  assumes "inv h" "inv g0" "ht_size g0 = ht_size h" "table g0 \<subseteq>\<^sub>m table h"
    and "\<And>k d g g'. (k, d) \<in> set (hashtab_nodes h) \<Longrightarrow> table g0 k = None \<Longrightarrow>
      (\<And>m. ample m \<Longrightarrow> \<exists>m'. ample m' \<and> hashtab_insert hash cmp g k d m = (OK, g', m')) \<Longrightarrow> stores (w k d) (f (put g)) (put g')"
    and "\<And>k d g. (k, d) \<in> set (hashtab_nodes h) \<Longrightarrow> table g0 k = Some d \<Longrightarrow> stores (w k d) (f (put g)) (put g)"
  shows "stores (hashtab_map h w) (rd_times (unat (ht_nel h)) f (put g0)) (put h)"
proof -
  obtain g' where g': "stores (wr_each (\<lambda>(k, d). w k d) (hashtab_nodes h)) (rd_times (length (hashtab_nodes h)) f (put g0)) (put g')"
      "inv g'" "ht_size g' = ht_size h" "table g' = table g0 ++ table h"
    using stores_inserts_from [of h g0 w f put "hashtab_nodes h" g0] assms inv_nodes(2,4) [OF assms(1)] by auto
  moreover have "table g0 ++ table h = table h"
    using assms(4) by (force simp: fun_eq_iff map_add_def map_le_def dom_def split: option.splits)
  ultimately have "g' = h" using inv_unique [OF g'(2) assms(1)] by simp
  then show ?thesis using g'(1) inv_nodes(1) [OF assms(1)] by (simp add: map_as_each)
qed

end

section \<open>Symbol tables\<close>

definition table_fits :: "image_env \<Rightarrow> 'd symtab \<Rightarrow> bool" where
  "table_fits env s \<longleftrightarrow> symtab_ok s \<and> ht_size (st_table s) = hashtab_compute_size (ht_nel (st_table s)) \<and>
     \<not> is_order_out_of_range (env_get_order env) (env_MAX_ORDER env) (ht_size (st_table s))"

definition inserts :: "'d symtab \<Rightarrow> string \<Rightarrow> 'd \<Rightarrow> 'd symtab \<Rightarrow> bool" where
  "inserts t k d t' \<longleftrightarrow> (\<forall>m. ample m \<longrightarrow> (\<exists>m'. ample m' \<and> symtab_insert t k d m = (OK, t', m')))"

lemma inserts_step: "inserts t k d t' \<Longrightarrow> accepts (rd_step (symtab_insert t k d)) [] t'"
  unfolding inserts_def by (intro accepts_step) blast

lemma stores_new_symtab:
  assumes "table_fits env s" "stores w (f \<lparr>st_table = empty_table (ht_size (st_table s)), st_nprim = 0\<rparr>) y"
  shows "stores w (rd_bind (new_symtab env (ht_nel (st_table s))) f) y"
  unfolding new_symtab_def
proof (rule stores_step [where f = f, OF _ assms(2)])
  fix m assume m: "ample m"
  show "\<exists>m'. ample m' \<and> symtab_init (env_get_order env) (env_MAX_ORDER env) (ht_nel (st_table s)) m =
      (OK, \<lparr>st_table = empty_table (ht_size (st_table s)), st_nprim = 0\<rparr>, m')"
    using assms(1) ample_kalloc [OF m] m by (auto simp: table_fits_def symtab_init_def hashtab_init_def Let_def empty_table_def)
qed

lemma stores_symbols:
  assumes "symtab_ok s" "\<And>k d t t'. (k, d) \<in> set (hashtab_nodes (st_table s)) \<Longrightarrow> inserts t k d t' \<Longrightarrow> stores (w k d) (f t) t'"
  shows "stores (hashtab_map (st_table s) w) (rd_times (unat (ht_nel (st_table s))) f \<lparr>st_table = empty_table (ht_size (st_table s)), st_nprim = n\<rparr>)
    \<lparr>st_table = st_table s, st_nprim = n\<rparr>"
proof (rule sym.stores_inserts [where put = "\<lambda>g. \<lparr>st_table = g, st_nprim = n\<rparr>"])
  show "sym.inv (st_table s)" using assms(1) by (simp add: symtab_ok_def)
  show "sym.inv (empty_table (ht_size (st_table s)))" by (rule sym.empty_inv)
  show "sym.table (empty_table (ht_size (st_table s))) \<subseteq>\<^sub>m sym.table (st_table s)" by (simp add: map_le_def dom_def sym.empty_inv)
  fix k d g g'
  assume kd: "(k, d) \<in> set (hashtab_nodes (st_table s))" and ins: "\<And>m. ample m \<Longrightarrow> \<exists>m'. ample m' \<and> hashtab_insert symhash symcmp g k d m = (OK, g', m')"
  have "inserts \<lparr>st_table = g, st_nprim = n\<rparr> k d \<lparr>st_table = g', st_nprim = n\<rparr>"
    unfolding inserts_def symtab_insert_def using ins by fastforce
  then show "stores (w k d) (f \<lparr>st_table = g, st_nprim = n\<rparr>) \<lparr>st_table = g', st_nprim = n\<rparr>" by (rule assms(2) [OF kd])
qed (simp add: empty_table_def, simp add: sym.empty_inv)

lemma stores_table:
  assumes "table_fits env s" "\<And>k d t t'. (k, d) \<in> set (hashtab_nodes (st_table s)) \<Longrightarrow> inserts t k d t' \<Longrightarrow> stores (w k d) (f t) t'"
  shows "stores (write_table w s) (read_table env rd_return f) s"
proof -
  have ok: "symtab_ok s" using assms(1) by (simp add: table_fits_def)
  have nth: "[st_nprim s, ht_nel (st_table s)] ! 0 = st_nprim s" "[st_nprim s, ht_nel (st_table s)] ! 1 = ht_nel (st_table s)" by simp_all
  show ?thesis
    unfolding write_table_def read_table_def
    by (rule stores_seq [OF stores_32s], simp, unfold nth)
      (intro stores_new_symtab [OF assms(1)] stores_pure stores_map [OF stores_symbols [OF ok assms(2)]], simp_all)
qed

section \<open>Symbols\<close>

lemma rd_return_bind: "rd_bind (rd_return x) f = f x"
  by (simp add: fun_eq_iff rd_bind_def rd_return_def)

lemma stores_insert:
  assumes "name_fits k" "inserts t k d t'" "len = of_nat (length k)" "d' = d"
  shows "stores (put_string k) (rd_bind (str_read len) (\<lambda>key. rd_step (symtab_insert t key d'))) t'"
  unfolding assms(3,4)
  by (rule stores_tail [where f = "\<lambda>key. rd_step (symtab_insert t key d)", OF stores_string [OF assms(1)] inserts_step [OF assms(2)]])

lemma stores_perm:
  assumes "name_fits k" "inserts t k d t'"
  shows "stores (perm_write k d) (perm_read t) t'"
  unfolding perm_write_def perm_read_def
  by (intro stores_alloc stores_seq [OF stores_32s] stores_insert [OF assms]) simp_all

definition names_fit :: "'d symtab \<Rightarrow> bool" where
  "names_fit s \<longleftrightarrow> (\<forall>n \<in> set (hashtab_nodes (st_table s)). name_fits (fst n))"

lemma stores_perms:
  assumes "table_fits env s" "names_fit s"
  shows "stores (hashtab_map (st_table s) perm_write)
    (rd_times (unat (ht_nel (st_table s))) perm_read \<lparr>st_table = empty_table (ht_size (st_table s)), st_nprim = st_nprim s\<rparr>) s"
proof -
  have ok: "symtab_ok s" using assms(1) by (simp add: table_fits_def)
  have eta: "\<lparr>st_table = st_table s, st_nprim = st_nprim s\<rparr> = s" by (cases s) simp
  show ?thesis
    by (subst (4) eta [symmetric], rule stores_symbols [OF ok stores_perm]) (use assms(2) in \<open>auto simp: names_fit_def\<close>)
qed

lemma stores_common:
  assumes "name_fits k" "inserts t k d t'" "table_fits env (com_permissions d)" "names_fit (com_permissions d)"
  shows "stores (common_write k d) (common_read env t) t'"
proof -
  let ?s = "com_permissions d"
  let ?buf = "[of_nat (length k), com_value d, st_nprim ?s, ht_nel (st_table ?s)]"
  have nth: "?buf ! 0 = of_nat (length k)" "?buf ! 1 = com_value d" "?buf ! 2 = st_nprim ?s" "?buf ! 3 = ht_nel (st_table ?s)" by simp_all
  have "stores (hashtab_map (st_table ?s) perm_write) (rd_bind (rd_times (unat (ht_nel (st_table ?s))) perm_read
      (\<lparr>st_table = empty_table (ht_size (st_table ?s)), st_nprim = 0\<rparr>\<lparr>st_nprim := st_nprim ?s\<rparr>))
      (\<lambda>perms. rd_step (symtab_insert t k \<lparr>com_value = com_value d, com_permissions = perms\<rparr>))) t'"
    using stores_tail [OF stores_perms [OF assms(3,4)], of "\<lambda>perms. rd_step (symtab_insert t k \<lparr>com_value = com_value d, com_permissions = perms\<rparr>)" t']
      inserts_step [OF assms(2)] by (cases d) simp
  then show ?thesis
    unfolding common_write_def common_read_def
    by (intro stores_alloc) (rule stores_seq [OF stores_32s], simp, unfold nth, intro stores_new_symtab [OF assms(3)] stores_seq [OF stores_string [OF assms(1)]])
qed

lemma flag_word: "(ucast (of_bool b :: u32) :: u8) \<noteq> 0 \<longleftrightarrow> b"
  by (cases b) simp_all

lemma stores_cat:
  assumes "name_fits k" "inserts t k d t'"
  shows "stores (cat_write k d) (cat_read t) t'"
  unfolding cat_write_def cat_read_def
  by (intro stores_alloc stores_seq [OF stores_32s] stores_insert [OF assms]) (simp_all only: length_Cons list.size nth_Cons_0 flag_word, simp_all add: flag_word)

lemma stores_sens:
  assumes "name_fits k" "inserts t k d t'" "level_fits (lev_level d)"
  shows "stores (sens_write k d) (sens_read t) t'"
proof -
  let ?buf = "[of_nat (length k), of_bool (lev_isalias d)] :: u32 list"
  have nth: "?buf ! 0 = of_nat (length k)" "(ucast (?buf ! 1) :: u8) \<noteq> 0 \<longleftrightarrow> lev_isalias d" using flag_word by simp_all
  have d: "\<lparr>lev_level = lev_level d, lev_isalias = lev_isalias d\<rparr> = d" by (cases d) simp
  have "stores (mls_write_level (lev_level d)) (rd_bind mls_read_level (\<lambda>l. rd_step (symtab_insert t k \<lparr>lev_level = l, lev_isalias = lev_isalias d\<rparr>))) t'"
    using stores_tail [OF stores_level [OF assms(3)], of "\<lambda>l. rd_step (symtab_insert t k \<lparr>lev_level = l, lev_isalias = lev_isalias d\<rparr>)" t'] inserts_step [OF assms(2)]
    by (simp add: d)
  then show ?thesis
    unfolding sens_write_def sens_read_def
    by (intro stores_alloc) (rule stores_seq [OF stores_32s], simp, unfold nth, intro stores_seq [OF stores_string [OF assms(1)]] stores_alloc)
qed

lemma type_flags:
  "type_properties d AND TYPEDATUM_PROPERTY_PRIMARY \<noteq> 0 \<longleftrightarrow> type_primary d" "type_properties d AND TYPEDATUM_PROPERTY_ATTRIBUTE \<noteq> 0 \<longleftrightarrow> type_attribute d"
  by (simp_all add: type_properties_def)

lemma stores_type:
  assumes "name_fits k" "inserts t k d t'" "POLICYDB_VERSION_BOUNDARY \<le> policyvers p"
  shows "stores (type_write p k d) (type_read p t) t'"
  unfolding type_write_def type_read_def Let_def if_P [OF assms(3)]
  by (intro stores_alloc stores_seq [OF stores_32s] stores_insert [OF assms(1,2)])
    (simp_all add: assms(3) type_flags)

lemma stores_role_data:
  assumes "name_fits k" "POLICYDB_VERSION_BOUNDARY \<le> policyvers p" "bitmap_fits (role_dominates d)" "bitmap_fits (role_types d)"
    and "accepts (if strcmp k OBJECT_R = 0 then rd_bind (rd_check (role_value d = OBJECT_R_VAL) EINVAL) (\<lambda>_. rd_return t) else rd_step (symtab_insert t k d)) [] t'"
  shows "stores (role_write p k d) (role_read p t) t'"
proof -
  let ?buf = "[of_nat (length k), role_value d] @ [role_bounds d]"
  have nth: "?buf ! 0 = of_nat (length k)" "?buf ! 1 = role_value d" "?buf ! 2 = role_bounds d" by simp_all
  have d: "\<lparr>role_value = role_value d, role_bounds = role_bounds d, role_dominates = role_dominates d, role_types = role_types d\<rparr> = d" by (cases d) simp
  have "stores (ebitmap_write (role_types d)) (rd_bind ebitmap_read (\<lambda>types.
      if strcmp k OBJECT_R = 0 then rd_bind (rd_check (role_value \<lparr>role_value = role_value d, role_bounds = role_bounds d, role_dominates = role_dominates d, role_types = types\<rparr> = OBJECT_R_VAL) EINVAL) (\<lambda>_. rd_return t)
      else rd_step (symtab_insert t k \<lparr>role_value = role_value d, role_bounds = role_bounds d, role_dominates = role_dominates d, role_types = types\<rparr>))) t'"
    by (rule stores_tail [OF stores_bitmap [OF assms(4)]]) (unfold d, rule assms(5))
  then show ?thesis
    unfolding role_write_def role_read_def Let_def if_P [OF assms(2)]
    by (intro stores_alloc) (rule stores_seq [OF stores_32s], simp, unfold nth,
      intro stores_seq [OF stores_string [OF assms(1)]] stores_seq [OF stores_bitmap [OF assms(3)]])
qed

lemma stores_role:
  assumes "name_fits k" "POLICYDB_VERSION_BOUNDARY \<le> policyvers p" "bitmap_fits (role_dominates d)" "bitmap_fits (role_types d)"
  shows "inserts t k d t' \<Longrightarrow> k \<noteq> OBJECT_R \<Longrightarrow> stores (role_write p k d) (role_read p t) t'"
    "k = OBJECT_R \<Longrightarrow> role_value d = OBJECT_R_VAL \<Longrightarrow> stores (role_write p k d) (role_read p t) t"
proof -
  show "stores (role_write p k d) (role_read p t) t'" if "inserts t k d t'" "k \<noteq> OBJECT_R"
    using that inserts_step by (intro stores_role_data [OF assms]) (simp add: strcmp_zero)
  show "stores (role_write p k d) (role_read p t) t" if "k = OBJECT_R" "role_value d = OBJECT_R_VAL"
  proof (rule stores_role_data [OF assms])
    have "accepts (rd_bind (rd_check (role_value d = OBJECT_R_VAL) EINVAL) (\<lambda>_. rd_return t)) [] t" by (rule accepts_check [OF that(2) accepts_return])
    then show "accepts (if strcmp k OBJECT_R = 0 then rd_bind (rd_check (role_value d = OBJECT_R_VAL) EINVAL) (\<lambda>_. rd_return t) else rd_step (symtab_insert t k d)) [] t"
      using that(1) by (simp add: strcmp_zero)
  qed
qed

lemma stores_user:
  assumes "name_fits k" "inserts t k d t'" "POLICYDB_VERSION_BOUNDARY \<le> policyvers p" "bitmap_fits (user_roles d)" "range_fits (user_range d)" "level_fits (user_dfltlevel d)"
  shows "stores (user_write p k d) (user_read p t) t'"
proof -
  have mls: "POLICYDB_VERSION_MLS \<le> policyvers p" using assms(3) by (rule order_trans [rotated]) simp
  let ?buf = "[of_nat (length k), user_value d] @ [user_bounds d]"
  have nth: "?buf ! 0 = of_nat (length k)" "?buf ! 1 = user_value d" "?buf ! 2 = user_bounds d" by simp_all
  have d: "\<lparr>user_value = user_value d, user_bounds = user_bounds d, user_roles = user_roles d, user_range = user_range d, user_dfltlevel = user_dfltlevel d\<rparr> = d"
    by (cases d) simp
  have "stores (mls_write_level (user_dfltlevel d)) (rd_bind mls_read_level (\<lambda>l. rd_step (symtab_insert t k
      \<lparr>user_value = user_value d, user_bounds = user_bounds d, user_roles = user_roles d, user_range = user_range d, user_dfltlevel = l\<rparr>))) t'"
    by (rule stores_tail [OF stores_level [OF assms(6)]]) (unfold d, rule inserts_step [OF assms(2)])
  then show ?thesis
    unfolding user_write_def user_read_def if_P [OF assms(3)] if_P [OF mls] rd_bind_assoc rd_return_bind prod.case
    by (intro stores_alloc) (rule stores_seq [OF stores_32s], simp, unfold nth,
      intro stores_seq [OF stores_string [OF assms(1)]] stores_seq [OF stores_bitmap [OF assms(4)]] stores_seq [OF stores_range [OF assms(5)]])
qed

lemma stores_bool:
  assumes "name_fits k" "inserts t k d t'" "bool_isvalid d"
  shows "stores (cond_write_bool k d) (cond_read_bool t) t'"
proof -
  let ?buf = "[bool_value d, word_of_int (bool_state d), of_nat (length k)] :: u32 list"
  have nth: "?buf ! 0 = bool_value d" "sint (?buf ! 1) = bool_state d" "?buf ! 2 = of_nat (length k)" using assms(3) by (auto simp: bool_isvalid_def)
  have d: "\<lparr>bool_value = bool_value d, bool_state = bool_state d\<rparr> = d" by (cases d) simp
  have key: "c_string (map of_char k) = k" using assms(1) by (simp add: name_fits_def c_string_of)
  have "stores (put_string k) (next_entry (length k)) (map of_char k)"
    unfolding put_string_def by (rule stores_bytes) simp
  then have "stores (put_string k) (rd_bind (next_entry (length k)) (\<lambda>key. rd_step (symtab_insert t (c_string key) d))) t'"
    by (rule stores_tail) (unfold key, rule inserts_step [OF assms(2)])
  then show ?thesis
    unfolding cond_write_bool_def cond_read_bool_def Let_def
    by (intro stores_alloc) (rule stores_seq [OF stores_32s], simp, unfold nth d name_length(1) [OF assms(1)],
      intro stores_check stores_alloc, use assms(3) name_length [OF assms(1)] in auto)
qed

section \<open>Constraints\<close>

definition type_set_fits :: "type_set \<Rightarrow> bool" where
  "type_set_fits t \<longleftrightarrow> bitmap_fits (ts_types t) \<and> bitmap_fits (ts_negset t)"

definition expr_fits :: "constraint_expr \<Rightarrow> bool" where
  "expr_fits e \<longleftrightarrow>
     (if ce_expr_type e = CEXPR_NAMES then bitmap_fits (ce_names e) \<and> (case ce_type_names e of Some t \<Rightarrow> type_set_fits t | None \<Rightarrow> False)
      else ce_names e = ebitmap_init \<and> ce_type_names e = None)"

definition cons_fits :: "bool \<Rightarrow> constraint_node \<Rightarrow> bool" where
  "cons_fits ax c \<longleftrightarrow> length (cn_expr c) < 2 ^ 32 \<and> (\<forall>e \<in> set (cn_expr c). expr_fits e) \<and> read_cons_check ax (cn_expr c) = OK"

lemma stores_einval: "stores w r x \<Longrightarrow> stores (wr_einval w) (rd_einval r) x"
proof (elim storesE, rule storesI)
  fix bs assume w: "writes w bs" "accepts r bs x"
  show "writes (wr_einval w) bs" using w(1) by (simp add: writes_def wr_einval_def)
  show "accepts (rd_einval r) bs x" unfolding accepts_def rd_einval_def
  proof (intro allI impI)
    fix rest m assume "ample m"
    then obtain m' where "ample m'" "r (bs @ rest, m) = Inr (x, rest, m')" using acceptsD [OF w(2)] by blast
    then show "\<exists>m'. ample m' \<and> (case r (bs @ rest, m) of Inl _ \<Rightarrow> Inl EINVAL | Inr y \<Rightarrow> Inr y) = Inr (x, rest, m')" by simp
  qed
qed

lemma stores_type_set: "type_set_fits t \<Longrightarrow> stores (type_set_write t) type_set_read t"
  unfolding type_set_write_def type_set_read_def type_set_fits_def
  by (intro stores_seq [OF stores_einval [OF stores_bitmap]] stores_map [OF stores_einval [OF stores_32]]) simp_all

lemma stores_cons_expr:
  assumes "expr_fits e" "read_cons_node ax e depth = Some d" "POLICYDB_VERSION_CONSTRAINT_NAMES \<le> policyvers p"
  shows "stores (write_cons_expr p e) (read_cons_expr p ax (es, depth)) (es @ [e], d)"
proof -
  let ?buf = "[ce_expr_type e, ce_attr e, ce_op e]"
  let ?e = "\<lparr>ce_expr_type = ?buf ! 0, ce_attr = ?buf ! 1, ce_op = ?buf ! 2, ce_names = ebitmap_init, ce_type_names = None\<rparr>"
  have sel: "ce_expr_type ?e = ce_expr_type e" "ce_attr ?e = ce_attr e" by simp_all
  have node: "read_cons_node ax ?e depth = Some d" using assms(2) unfolding read_cons_node_def sel .
  show ?thesis
  proof (cases "ce_expr_type e = CEXPR_NAMES")
    case True
    then obtain t where t: "ce_type_names e = Some t" "type_set_fits t" "bitmap_fits (ce_names e)" using assms(1) by (auto simp: expr_fits_def split: option.splits)
    have e: "?e\<lparr>ce_names := ce_names e, ce_type_names := Some t\<rparr> = e" using t(1) by (cases e) simp
    have "stores (type_set_write t) (rd_bind type_set_read (\<lambda>t. rd_return (es @ [?e\<lparr>ce_names := ce_names e, ce_type_names := Some t\<rparr>], d))) (es @ [e], d)"
      by (rule stores_map [OF stores_type_set [OF t(2)]]) (simp only: e)
    then show ?thesis
      unfolding write_cons_expr_def read_cons_expr_def prod.case if_P [OF True] if_P [OF assms(3)] t(1) option.case
      by (intro stores_alloc) (rule stores_seq [OF stores_32s], simp, unfold Let_def node option.case,
        subst if_P, simp add: True, intro stores_seq [OF stores_bitmap [OF t(3)]], unfold rd_bind_assoc rd_return_bind, intro stores_alloc)
  next
    case False
    have e: "?e = e" using False assms(1) by (cases e) (simp add: expr_fits_def)
    show ?thesis
      unfolding write_cons_expr_def read_cons_expr_def prod.case if_not_P [OF False] wr_skip_right
      by (intro stores_alloc) (rule stores_tail [OF stores_32s], simp, unfold Let_def e assms(2) option.case if_not_P [OF False], rule accepts_return)
  qed
qed

lemma stores_cons_exprs:
  assumes "\<forall>e \<in> set es. expr_fits e" "read_cons_depth ax es depth = Some d" "POLICYDB_VERSION_CONSTRAINT_NAMES \<le> policyvers p"
  shows "stores (wr_each (write_cons_expr p) es) (rd_times (length es) (read_cons_expr p ax) (es0, depth)) (es0 @ es, d)"
  using assms(1,2)
proof (induction es arbitrary: es0 depth)
  case (Cons e es)
  obtain d1 where d1: "read_cons_node ax e depth = Some d1" "read_cons_depth ax es d1 = Some d" using Cons.prems(2) by (auto split: option.splits)
  have "stores (wr_each (write_cons_expr p) es) (rd_times (length es) (read_cons_expr p ax) (es0 @ [e], d1)) ((es0 @ [e]) @ es, d)"
    using Cons.IH [of d1 "es0 @ [e]"] Cons.prems(1) d1(2) by simp
  then show ?case
    using stores_seq [where f = "rd_times (length es) (read_cons_expr p ax)", OF stores_cons_expr [OF _ d1(1) assms(3), of es0]] Cons.prems(1) by simp
qed (simp add: stores_skip)

lemma stores_cons:
  assumes "\<forall>c \<in> set cs. cons_fits ax c" "length cs < 2 ^ 32" "POLICYDB_VERSION_CONSTRAINT_NAMES \<le> policyvers p"
  shows "stores (write_cons_helper p cs) (read_cons_helper p (of_nat (length cs)) ax) cs"
proof -
  have "stores (wr_seq (put_le32s [cn_permissions c, of_nat (length (cn_expr c))]) (wr_each (write_cons_expr p) (cn_expr c)))
      (rd_bind rd_alloc (\<lambda>_. rd_bind (next_le32s 2) (\<lambda>buf.
       rd_bind (rd_times (unat (buf ! 1)) (read_cons_expr p ax) ([], 0)) (\<lambda>(es, depth).
       rd_bind (rd_check (depth = 1) EINVAL) (\<lambda>_.
       rd_return (cs' @ [\<lparr>cn_permissions = buf ! 0, cn_expr = es\<rparr>])))))) (cs' @ [c])" if "c \<in> set cs" for c cs'
  proof -
    let ?buf = "[cn_permissions c, of_nat (length (cn_expr c))]"
    have c: "length (cn_expr c) < 2 ^ 32" "\<forall>e \<in> set (cn_expr c). expr_fits e" "read_cons_depth ax (cn_expr c) 0 = Some 1"
      using assms(1) that by (auto simp: cons_fits_def read_cons_check_def split: if_splits)
    have nth: "?buf ! 0 = cn_permissions c" "unat (?buf ! 1) = length (cn_expr c)" using unat_length [OF c(1)] by simp_all
    have e: "\<lparr>cn_permissions = cn_permissions c, cn_expr = cn_expr c\<rparr> = c" by (cases c) simp
    have "stores (wr_each (write_cons_expr p) (cn_expr c)) (rd_times (length (cn_expr c)) (read_cons_expr p ax) ([], 0)) (cn_expr c, 1)"
      using stores_cons_exprs [OF c(2,3) assms(3), of "[]"] by simp
    then have "stores (wr_each (write_cons_expr p) (cn_expr c)) (rd_bind (rd_times (length (cn_expr c)) (read_cons_expr p ax) ([], 0)) (\<lambda>(es, depth).
       rd_bind (rd_check (depth = 1) EINVAL) (\<lambda>_. rd_return (cs' @ [\<lparr>cn_permissions = cn_permissions c, cn_expr = es\<rparr>])))) (cs' @ [c])"
      by (rule stores_tail) (unfold prod.case e, rule accepts_check [OF refl accepts_return])
    then show ?thesis by (intro stores_alloc) (rule stores_seq [OF stores_32s], simp, unfold nth)
  qed
  then show ?thesis
    unfolding write_cons_helper_def read_cons_helper_def unat_length [OF assms(2)] using stores_each [where g = "\<lambda>c. c" and ys = "[]" and xs = cs] by simp
qed

definition class_fits :: "image_env \<Rightarrow> policydb \<Rightarrow> class_datum \<Rightarrow> bool" where
  "class_fits env p d \<longleftrightarrow> table_fits env (cla_permissions d) \<and> names_fit (cla_permissions d) \<and>
     (case cla_comkey d of None \<Rightarrow> cla_comdatum d = None
      | Some k \<Rightarrow> name_fits k \<and> cla_comdatum d \<noteq> None \<and> cla_comdatum d = symtab_search (p_commons p) k) \<and>
     length (cla_constraints d) < 2 ^ 32 \<and> (\<forall>c \<in> set (cla_constraints d). cons_fits False c) \<and>
     length (cla_validatetrans d) < 2 ^ 32 \<and> (\<forall>c \<in> set (cla_validatetrans d). cons_fits True c) \<and>
     default_user d < 256 \<and> default_role d < 256 \<and> default_type d < 256 \<and> default_range d < 256"

lemma default_back: "n < 256 \<Longrightarrow> default_char (of_nat n) = n"
  by (simp add: default_char_def unsigned_ucast_eq unat_of_nat take_bit_nat_eq_self)

lemma write_cons_version:
  assumes "policyvers q = policyvers p"
  shows "write_cons_helper p = write_cons_helper q"
  unfolding fun_eq_iff write_cons_helper_def write_cons_expr_def [abs_def] assms by simp

lemma stores_comkey:
  assumes "class_fits env q d"
  defines "len2 \<equiv> (case cla_comkey d of Some comkey \<Rightarrow> length comkey | None \<Rightarrow> 0)"
  shows "stores (case cla_comkey d of Some comkey \<Rightarrow> put_string comkey | None \<Rightarrow> wr_skip)
    (if of_nat len2 \<noteq> (0 :: u32)
     then rd_bind (str_read (of_nat len2)) (\<lambda>comkey. case symtab_search (p_commons q) comkey of None \<Rightarrow> rd_fail EINVAL | Some comdatum \<Rightarrow> rd_return (Some comkey, Some comdatum))
     else rd_return (None, None)) (cla_comkey d, cla_comdatum d)"
proof (cases "cla_comkey d")
  case None
  then show ?thesis using assms(1) by (simp add: len2_def class_fits_def stores_skip)
next
  case (Some ck)
  then obtain cd where ck: "name_fits ck" "cla_comdatum d = Some cd" "symtab_search (p_commons q) ck = Some cd" using assms(1) by (auto simp: class_fits_def)
  have "stores (put_string ck) (rd_bind (str_read (of_nat (length ck))) (\<lambda>comkey. case symtab_search (p_commons q) comkey of None \<Rightarrow> rd_fail EINVAL
      | Some comdatum \<Rightarrow> rd_return (Some comkey, Some comdatum))) (Some ck, Some cd)"
    by (rule stores_tail [OF stores_string [OF ck(1)]]) (simp add: ck(3) accepts_return)
  then show ?thesis using name_length(2) [OF ck(1)] by (simp add: Some len2_def ck(2))
qed

lemma stores_class:
  assumes "name_fits k" "inserts t k d t'" "class_fits env q d" "POLICYDB_VERSION_CONSTRAINT_NAMES \<le> policyvers q" "policyvers q = policyvers p"
  shows "stores (class_write p k d) (class_read env q t) t'"
proof -
  have vers: "POLICYDB_VERSION_VALIDATETRANS \<le> policyvers q" "POLICYDB_VERSION_NEW_OBJECT_DEFAULTS \<le> policyvers q" "POLICYDB_VERSION_DEFAULT_TYPE \<le> policyvers q"
      "POLICYDB_VERSION_NEW_OBJECT_DEFAULTS \<le> policyvers p" "POLICYDB_VERSION_DEFAULT_TYPE \<le> policyvers p"
    using assms(4,5) by (auto intro: order_trans [rotated])
  have fits: "table_fits env (cla_permissions d)" "names_fit (cla_permissions d)" "length (cla_constraints d) < 2 ^ 32" "\<forall>c \<in> set (cla_constraints d). cons_fits False c"
      "length (cla_validatetrans d) < 2 ^ 32" "\<forall>c \<in> set (cla_validatetrans d). cons_fits True c"
      "default_char (of_nat (default_user d)) = default_user d" "default_char (of_nat (default_role d)) = default_role d"
      "default_char (of_nat (default_type d)) = default_type d" "default_char (of_nat (default_range d)) = default_range d"
    using assms(3) by (simp_all add: class_fits_def default_back)
  let ?len2 = "case cla_comkey d of Some comkey \<Rightarrow> length comkey | None \<Rightarrow> 0" and ?s = "cla_permissions d"
  let ?buf = "[of_nat (length k), of_nat ?len2, cla_value d, st_nprim ?s, ht_nel (st_table ?s), of_nat (length (cla_constraints d))] :: u32 list"
  let ?defs = "[of_nat (default_user d), of_nat (default_role d), of_nat (default_range d)] :: u32 list"
  have nth: "?buf ! 0 = of_nat (length k)" "?buf ! 1 = of_nat ?len2" "?buf ! 2 = cla_value d" "?buf ! 3 = st_nprim ?s" "?buf ! 4 = ht_nel (st_table ?s)"
      "?buf ! 5 = of_nat (length (cla_constraints d))" "?defs ! 0 = of_nat (default_user d)" "?defs ! 1 = of_nat (default_role d)" "?defs ! 2 = of_nat (default_range d)"
    by simp_all
  have d: "\<lparr>cla_value = cla_value d, cla_comkey = cla_comkey d, cla_comdatum = cla_comdatum d, cla_permissions = ?s,
        cla_constraints = cla_constraints d, cla_validatetrans = cla_validatetrans d, default_user = default_user d,
        default_role = default_role d, default_type = default_type d, default_range = default_range d\<rparr> = d" by (cases d) simp
  have perms: "stores (hashtab_map (st_table ?s) perm_write) (rd_times (unat (ht_nel (st_table ?s))) perm_read
      (\<lparr>st_table = empty_table (ht_size (st_table ?s)), st_nprim = 0\<rparr>\<lparr>st_nprim := st_nprim ?s\<rparr>)) ?s"
    using stores_perms [OF fits(1,2)] by simp
  have "stores (put_le32s [of_nat (default_type d)]) (rd_bind next_le32 (\<lambda>deftype. rd_step (symtab_insert t k
       \<lparr>cla_value = cla_value d, cla_comkey = cla_comkey d, cla_comdatum = cla_comdatum d, cla_permissions = ?s,
        cla_constraints = cla_constraints d, cla_validatetrans = cla_validatetrans d, default_user = default_user d,
        default_role = default_role d, default_type = default_char deftype, default_range = default_range d\<rparr>))) t'"
    by (rule stores_tail [OF stores_32]) (unfold fits(9) d, rule inserts_step [OF assms(2)])
  then show ?thesis
    unfolding class_write_def class_read_def Let_def if_P [OF vers(1)] if_P [OF vers(2)] if_P [OF vers(3)] if_P [OF vers(4)] if_P [OF vers(5)]
      rd_bind_assoc write_cons_version [OF assms(5)]
    by (intro stores_alloc)
      (rule stores_seq [OF stores_32s], simp, unfold nth,
       rule stores_new_symtab [OF fits(1)], rule stores_seq [OF stores_string [OF assms(1)]], rule stores_seq [OF stores_comkey [OF assms(3)]],
       unfold prod.case, rule stores_seq [OF perms], rule stores_seq [OF stores_cons [OF fits(4,3) assms(4)]], rule stores_seq [OF stores_32],
       rule stores_seq [OF stores_cons [OF fits(6,5) assms(4)]], rule stores_seq [OF stores_32s], simp, unfold nth fits(7,8,10))
qed

section \<open>All symbol tables\<close>

definition object_role :: role_datum where
  "object_role = \<lparr>role_value = OBJECT_R_VAL, role_bounds = 0, role_dominates = ebitmap_init, role_types = ebitmap_init\<rparr>"

definition role_fits :: "role_datum \<Rightarrow> bool" where
  "role_fits d \<longleftrightarrow> bitmap_fits (role_dominates d) \<and> bitmap_fits (role_types d)"

definition user_fits :: "user_datum \<Rightarrow> bool" where
  "user_fits d \<longleftrightarrow> bitmap_fits (user_roles d) \<and> range_fits (user_range d) \<and> level_fits (user_dfltlevel d)"

definition all_data :: "('d \<Rightarrow> bool) \<Rightarrow> 'd symtab \<Rightarrow> bool" where
  "all_data P s \<longleftrightarrow> (\<forall>n \<in> set (hashtab_nodes (st_table s)). P (snd n))"

text \<open>What the writer needs of the symbols of a policy, all of it true of symbols that come from an image that has the role \<open>object_r\<close>.\<close>

definition symbols_fit :: "image_env \<Rightarrow> policydb \<Rightarrow> bool" where
  "symbols_fit env p \<longleftrightarrow>
     table_fits env (p_commons p) \<and> names_fit (p_commons p) \<and> all_data (\<lambda>d. table_fits env (com_permissions d) \<and> names_fit (com_permissions d)) (p_commons p) \<and>
     table_fits env (p_classes p) \<and> names_fit (p_classes p) \<and> all_data (class_fits env p) (p_classes p) \<and>
     table_fits env (p_roles p) \<and> names_fit (p_roles p) \<and> all_data role_fits (p_roles p) \<and> symtab_map (p_roles p) OBJECT_R = Some object_role \<and>
     table_fits env (p_types p) \<and> names_fit (p_types p) \<and>
     table_fits env (p_users p) \<and> names_fit (p_users p) \<and> all_data user_fits (p_users p) \<and>
     table_fits env (p_bools p) \<and> names_fit (p_bools p) \<and> all_data bool_isvalid (p_bools p) \<and>
     table_fits env (p_levels p) \<and> names_fit (p_levels p) \<and> all_data (\<lambda>d. level_fits (lev_level d)) (p_levels p) \<and>
     table_fits env (p_cats p) \<and> names_fit (p_cats p)"

lemma stores_table_of:
  assumes "table_fits env s" "names_fit s" "all_data P s"
    and "\<And>k d t t'. name_fits k \<Longrightarrow> P d \<Longrightarrow> inserts t k d t' \<Longrightarrow> stores (w k d) (f t) t'"
  shows "stores (write_table w s) (read_table env rd_return f) s"
  using assms(2,3) by (intro stores_table [OF assms(1)] assms(4)) (auto simp: names_fit_def all_data_def)

lemma stores_roles:
  assumes "table_fits env s" "names_fit s" "all_data role_fits s" "symtab_map s OBJECT_R = Some object_role" "POLICYDB_VERSION_BOUNDARY \<le> policyvers p"
  shows "stores (write_table (role_write p) s) (read_table env roles_init (role_read p)) s"
proof -
  let ?h = "st_table s" and ?e = "empty_table (ht_size (st_table s)) :: (string, role_datum) hashtab"
  let ?put = "\<lambda>g. \<lparr>st_table = g, st_nprim = 1\<rparr> :: role_datum symtab"
  have inv: "sym.inv ?h" using assms(1) by (simp add: table_fits_def symtab_ok_def)
  have obj: "sym.table ?h OBJECT_R = Some object_role" using assms(4) by (simp add: symtab_map_def)
  have size: "ht_size ?e \<noteq> 0" using obj by (auto simp: empty_table_def sym.table_def split: if_splits)
  have nel: "ht_nel ?e \<noteq> HASHTAB_MAX_NODES" by (simp add: empty_table_def HASHTAB_MAX_NODES_def)
  obtain g0 where g0: "\<forall>m. ample m \<longrightarrow> (\<exists>m'. ample m' \<and> hashtab_insert symhash symcmp ?e OBJECT_R object_role m = (OK, g0, m'))"
      "sym.inv g0" "sym.table g0 = (sym.table ?e)(OBJECT_R \<mapsto> object_role)" "ht_size g0 = ht_size ?e"
    using sym.insert_ample [OF sym.empty_inv(1) TrueI sym.empty_inv(2) size nel] by blast
  have t0: "sym.table g0 = [OBJECT_R \<mapsto> object_role]" using g0(3) by (simp add: fun_eq_iff sym.empty_inv)
  have data: "name_fits k" "role_fits d" if "(k, d) \<in> set (hashtab_nodes ?h)" for k d
    using that assms(2,3) by (auto simp: names_fit_def all_data_def)
  have loop: "stores (hashtab_map ?h (role_write p)) (rd_times (unat (ht_nel ?h)) (role_read p) (?put g0)) (?put ?h)"
  proof (rule sym.stores_inserts [where put = ?put, OF inv g0(2)])
    show "ht_size g0 = ht_size ?h" using g0(4) by (simp add: empty_table_def)
    show "sym.table g0 \<subseteq>\<^sub>m sym.table ?h" using obj by (simp add: t0 map_le_def)
    show "stores (role_write p k d) (role_read p (?put g)) (?put g')" if "(k, d) \<in> set (hashtab_nodes ?h)" "sym.table g0 k = None"
      "\<And>m. ample m \<Longrightarrow> \<exists>m'. ample m' \<and> hashtab_insert symhash symcmp g k d m = (OK, g', m')" for k d g g'
    proof -
      have "inserts (?put g) k d (?put g')" unfolding inserts_def symtab_insert_def using that(3) by fastforce
      moreover have "k \<noteq> OBJECT_R" using that(2) by (auto simp: t0)
      ultimately show ?thesis using data [OF that(1)] assms(5) by (intro stores_role(1)) (simp_all add: role_fits_def)
    qed
    show "stores (role_write p k d) (role_read p (?put g)) (?put g)" if "(k, d) \<in> set (hashtab_nodes ?h)" "sym.table g0 k = Some d" for k d g
      using that data [OF that(1)] assms(5) by (intro stores_role(2)) (auto simp: t0 role_fits_def object_role_def split: if_splits)
  qed
  have ins: "\<exists>m'. ample m' \<and> symtab_insert \<lparr>st_table = ?e, st_nprim = 1\<rparr> OBJECT_R object_role m = (OK, ?put g0, m')" if "ample m" for m
    using g0(1) that unfolding symtab_insert_def by fastforce
  have same: "(?put ?h)\<lparr>st_nprim := st_nprim s\<rparr> = s" by (cases s) simp
  have init: "roles_init \<lparr>st_table = ?e, st_nprim = 0\<rparr> = rd_bind rd_alloc (\<lambda>_. rd_bind (rd_check True EINVAL) (\<lambda>_. rd_bind rd_alloc (\<lambda>_.
      rd_step (symtab_insert \<lparr>st_table = ?e, st_nprim = 1\<rparr> OBJECT_R object_role))))" by (simp add: roles_init_def object_role_def)
  let ?buf = "[st_nprim s, ht_nel ?h]"
  have nth: "?buf ! 0 = st_nprim s" "?buf ! 1 = ht_nel ?h" by simp_all
  have "stores (hashtab_map ?h (role_write p)) (rd_bind (roles_init \<lparr>st_table = ?e, st_nprim = 0\<rparr>) (\<lambda>s'. rd_bind (rd_times (unat (ht_nel ?h)) (role_read p) s')
      (\<lambda>s'. rd_return (s'\<lparr>st_nprim := st_nprim s\<rparr>)))) s"
    unfolding init rd_bind_assoc
    by (intro stores_alloc stores_check TrueI) (rule stores_step [OF ins], assumption, rule stores_map [OF loop], rule same)
  then show ?thesis
    unfolding write_table_def read_table_def
    by (intro stores_seq [OF stores_32s]) (simp, unfold nth, rule stores_new_symtab [OF assms(1)])
qed

lemma writer_version:
  assumes "policyvers q = policyvers p"
  shows "role_write p = role_write q" "type_write p = type_write q" "user_write p = user_write q"
  by (simp_all add: fun_eq_iff role_write_def type_write_def user_write_def assms)

lemma stores_symtabs:
  assumes "symbols_fit env p" "POLICYDB_VERSION_CONSTRAINT_NAMES \<le> policyvers p" "policyvers q = policyvers p"
  shows "stores (write_symtab p SYM_COMMONS) (read_symtab env q SYM_COMMONS) (q\<lparr>p_commons := p_commons p\<rparr>)"
    "p_commons q = p_commons p \<Longrightarrow> stores (write_symtab p SYM_CLASSES) (read_symtab env q SYM_CLASSES) (q\<lparr>p_classes := p_classes p\<rparr>)"
    "stores (write_symtab p SYM_ROLES) (read_symtab env q SYM_ROLES) (q\<lparr>p_roles := p_roles p\<rparr>)"
    "stores (write_symtab p SYM_TYPES) (read_symtab env q SYM_TYPES) (q\<lparr>p_types := p_types p\<rparr>)"
    "stores (write_symtab p SYM_USERS) (read_symtab env q SYM_USERS) (q\<lparr>p_users := p_users p\<rparr>)"
    "stores (write_symtab p SYM_BOOLS) (read_symtab env q SYM_BOOLS) (q\<lparr>p_bools := p_bools p\<rparr>)"
    "stores (write_symtab p SYM_LEVELS) (read_symtab env q SYM_LEVELS) (q\<lparr>p_levels := p_levels p\<rparr>)"
    "stores (write_symtab p SYM_CATS) (read_symtab env q SYM_CATS) (q\<lparr>p_cats := p_cats p\<rparr>)"
proof -
  note fit = assms(1) [unfolded symbols_fit_def]
  have names: "POLICYDB_VERSION_CONSTRAINT_NAMES \<le> policyvers q" using assms(2,3) by simp
  then have vers: "POLICYDB_VERSION_BOUNDARY \<le> policyvers q" by (rule order_trans [rotated]) simp
  have any: "all_data (\<lambda>_. True) s" for s :: "'x symtab" by (simp add: all_data_def)
  show "stores (write_symtab p SYM_COMMONS) (read_symtab env q SYM_COMMONS) (q\<lparr>p_commons := p_commons p\<rparr>)"
    unfolding write_symtab.simps read_symtab.simps
    by (intro stores_map [OF stores_table_of [where P = "\<lambda>d. table_fits env (com_permissions d) \<and> names_fit (com_permissions d)"] refl] stores_common)
      (use fit in auto)
  show "stores (write_symtab p SYM_CLASSES) (read_symtab env q SYM_CLASSES) (q\<lparr>p_classes := p_classes p\<rparr>)" if "p_commons q = p_commons p"
  proof -
    have "class_fits env q = class_fits env p" unfolding class_fits_def [abs_def] that ..
    then have "all_data (class_fits env q) (p_classes p)" using fit by simp
    then show ?thesis unfolding write_symtab.simps read_symtab.simps
      by (intro stores_map [OF stores_table_of [where P = "class_fits env q"] refl] stores_class names assms(3)) (use fit in auto)
  qed
  show "stores (write_symtab p SYM_ROLES) (read_symtab env q SYM_ROLES) (q\<lparr>p_roles := p_roles p\<rparr>)"
    unfolding write_symtab.simps read_symtab.simps writer_version [OF assms(3)]
    by (intro stores_map [OF stores_roles refl] vers) (use fit in auto)
  show "stores (write_symtab p SYM_TYPES) (read_symtab env q SYM_TYPES) (q\<lparr>p_types := p_types p\<rparr>)"
    unfolding write_symtab.simps read_symtab.simps writer_version [OF assms(3)]
    by (intro stores_map [OF stores_table_of [where P = "\<lambda>_. True"] refl] any stores_type vers) (use fit in auto)
  show "stores (write_symtab p SYM_USERS) (read_symtab env q SYM_USERS) (q\<lparr>p_users := p_users p\<rparr>)"
    unfolding write_symtab.simps read_symtab.simps writer_version [OF assms(3)]
    by (intro stores_map [OF stores_table_of [where P = user_fits] refl] stores_user vers) (use fit in \<open>auto simp: user_fits_def\<close>)
  show "stores (write_symtab p SYM_BOOLS) (read_symtab env q SYM_BOOLS) (q\<lparr>p_bools := p_bools p\<rparr>)"
    unfolding write_symtab.simps read_symtab.simps
    by (intro stores_map [OF stores_table_of [where P = bool_isvalid] refl] stores_bool) (use fit in auto)
  show "stores (write_symtab p SYM_LEVELS) (read_symtab env q SYM_LEVELS) (q\<lparr>p_levels := p_levels p\<rparr>)"
    unfolding write_symtab.simps read_symtab.simps
    by (intro stores_map [OF stores_table_of [where P = "\<lambda>d. level_fits (lev_level d)"] refl] stores_sens) (use fit in auto)
  show "stores (write_symtab p SYM_CATS) (read_symtab env q SYM_CATS) (q\<lparr>p_cats := p_cats p\<rparr>)"
    unfolding write_symtab.simps read_symtab.simps
    by (intro stores_map [OF stores_table_of [where P = "\<lambda>_. True"] refl] any stores_cat) (use fit in auto)
qed

section \<open>A policy with symbols\<close>

definition one_symbol :: "string \<Rightarrow> 'd \<Rightarrow> 'd symtab" where
  "one_symbol k d = \<lparr>st_table = \<lparr>ht_htable = [[(k, d)]], ht_size = 1, ht_nel = 1\<rparr>, st_nprim = 1\<rparr>"

definition sample_image_env :: image_env where
  "sample_image_env = \<lparr>env_stack = (\<lambda>_. []), env_get_order = (\<lambda>_. 0), env_MAX_ORDER = 10, env_partial_name_hash = (\<lambda>_ h. h), env_MAGIC = 0xf97cff8c\<rparr>"

definition sample_perm_table :: "perm_datum symtab" where
  "sample_perm_table = one_symbol ''read'' \<lparr>perm_value = 1\<rparr>"

definition sample_common :: common_datum where
  "sample_common = \<lparr>com_value = 1, com_permissions = sample_perm_table\<rparr>"

definition sample_user_equal :: constraint_node where
  "sample_user_equal = \<lparr>cn_permissions = 1,
     cn_expr = [\<lparr>ce_expr_type = CEXPR_ATTR, ce_attr = CEXPR_USER, ce_op = CEXPR_EQ, ce_names = ebitmap_init, ce_type_names = None\<rparr>]\<rparr>"

definition sample_symbol_class :: class_datum where
  "sample_symbol_class = \<lparr>cla_value = 1, cla_comkey = Some ''file'', cla_comdatum = Some sample_common, cla_permissions = sample_perm_table,
     cla_constraints = [sample_user_equal], cla_validatetrans = [], default_user = 1, default_role = 2, default_type = 0, default_range = 3\<rparr>"

definition sample_named :: policydb where
  "sample_named = policydb_init\<lparr>policyvers := 33, p_commons := one_symbol ''file'' sample_common, p_classes := one_symbol ''dir'' sample_symbol_class,
     p_roles := one_symbol OBJECT_R object_role, p_bools := one_symbol ''debug'' \<lparr>bool_value = 1, bool_state = 1\<rparr>,
     p_cats := one_symbol ''c0'' \<lparr>cat_value = 1, cat_isalias = False\<rparr>\<rparr>"

lemma table_fits_one: "table_fits sample_image_env (one_symbol k d)"
  by (simp add: table_fits_def one_symbol_def symtab_ok_def sym.inv_def sym.chain_inv_def hashtab_compute_size_def roundup_pow_of_two_def
      is_order_out_of_range_def sample_image_env_def upt_rec [of 0 33])

lemma table_fits_zero: "table_fits sample_image_env symtab_zero"
  by (simp add: table_fits_def symtab_zero_def symtab_ok_def sym.inv_def hashtab_compute_size_def is_order_out_of_range_def sample_image_env_def)

lemma one_symbol_simps:
  "names_fit (one_symbol k d) \<longleftrightarrow> name_fits k" "all_data P (one_symbol k d) \<longleftrightarrow> P d" "symtab_map (one_symbol k d) k = Some d"
  "names_fit (symtab_zero :: 'd symtab)" "all_data Q (symtab_zero :: 'd symtab)"
  by (simp_all add: one_symbol_def symtab_zero_def names_fit_def all_data_def hashtab_nodes_def symtab_map_def sym.table_def)

lemma sample_named_fit: "symbols_fit sample_image_env sample_named"
proof -
  note one = table_fits_one table_fits_zero one_symbol_simps name_fits_def
  have bitmap: "bitmap_fits ebitmap_init" by (simp add: bitmap_fits_def ebitmap_init_def ebitmap_canon_def nodes_end_def)
  have role: "role_fits object_role" by (simp add: role_fits_def object_role_def bitmap)
  have perms: "table_fits sample_image_env sample_perm_table" "names_fit sample_perm_table" by (simp_all add: sample_perm_table_def one)
  have "symtab_ok (one_symbol k d)" for k and d :: common_datum using table_fits_one [of k d] by (simp add: table_fits_def)
  then have search: "symtab_search (one_symbol ''file'' sample_common) ''file'' = Some sample_common" by (simp add: symtab_search_map one_symbol_simps)
  have cons: "cons_fits False sample_user_equal"
    by (simp add: cons_fits_def sample_user_equal_def expr_fits_def read_cons_check_def read_cons_node_def)
  have tabs: "p_commons sample_named = one_symbol ''file'' sample_common" "p_classes sample_named = one_symbol ''dir'' sample_symbol_class"
    "p_roles sample_named = one_symbol OBJECT_R object_role" "p_bools sample_named = one_symbol ''debug'' \<lparr>bool_value = 1, bool_state = 1\<rparr>"
    "p_cats sample_named = one_symbol ''c0'' \<lparr>cat_value = 1, cat_isalias = False\<rparr>" "p_types sample_named = symtab_zero"
    "p_users sample_named = symtab_zero" "p_levels sample_named = symtab_zero"
    by (simp_all add: sample_named_def policydb_init_def)
  have "class_fits sample_image_env sample_named sample_symbol_class"
    by (simp add: class_fits_def sample_symbol_class_def perms cons tabs search name_fits_def)
  then show ?thesis
    by (simp add: symbols_fit_def tabs one role sample_common_def perms bool_isvalid_def)
qed

section \<open>Properties\<close>

text \<open>
  C37. The symbols of a policy survive in an image: in the versions with names in constraints, the eight
  symbol tables that are written are read back as the same tables, with every class, its permissions and
  constraints, every role, type, user, boolean, level and category in its slot.
\<close>

theorem symbols_write_read:
  assumes "symbols_fit env p" "POLICYDB_VERSION_CONSTRAINT_NAMES \<le> policyvers p" "policyvers q = policyvers p"
  shows "\<exists>bs. (\<forall>out len. length bs \<le> len \<longrightarrow> wr_each (write_symtab p) sym_order (out, len) = (OK, out @ bs, len - length bs)) \<and>
    (\<forall>rest m. ample m \<longrightarrow> (\<exists>m'. read_symtabs env sym_order q (bs @ rest, m) =
       Inr (q\<lparr>p_commons := p_commons p, p_classes := p_classes p, p_roles := p_roles p, p_types := p_types p, p_users := p_users p,
              p_bools := p_bools p, p_levels := p_levels p, p_cats := p_cats p\<rparr>, rest, m')))"
proof -
  note parts = stores_symtabs [OF assms(1,2)]
  have "stores (wr_each (write_symtab p) sym_order) (read_symtabs env sym_order q)
      (q\<lparr>p_commons := p_commons p, p_classes := p_classes p, p_roles := p_roles p, p_types := p_types p, p_users := p_users p,
         p_bools := p_bools p, p_levels := p_levels p, p_cats := p_cats p\<rparr>)"
    unfolding sym_order_def wr_each.simps read_symtabs.simps
    by (rule stores_seq [OF parts(1)] stores_seq [OF parts(2)] stores_seq [OF parts(3)] stores_seq [OF parts(4)] stores_seq [OF parts(5)]
        stores_seq [OF parts(6)] stores_seq [OF parts(7)] stores_seq [OF parts(8)] stores_skip | simp add: assms(3))+
  then show ?thesis unfolding stores_def writes_def accepts_def by blast
qed

theorem symbols_write_read_witness:
  "\<exists>bs m'. wr_each (write_symtab sample_named) sym_order ([], length bs) = (OK, bs, 0) \<and>
    read_symtabs sample_image_env sym_order (policydb_init\<lparr>policyvers := 33\<rparr>) (bs, []) = Inr (sample_named, [], m')"
proof -
  have v: "POLICYDB_VERSION_CONSTRAINT_NAMES \<le> policyvers sample_named" "policyvers (policydb_init\<lparr>policyvers := 33\<rparr>) = policyvers sample_named"
    by (simp_all add: sample_named_def)
  let ?p = "policydb_init\<lparr>policyvers := 33, p_commons := p_commons sample_named, p_classes := p_classes sample_named, p_roles := p_roles sample_named,
      p_types := p_types sample_named, p_users := p_users sample_named, p_bools := p_bools sample_named, p_levels := p_levels sample_named,
      p_cats := p_cats sample_named\<rparr>"
  have p: "?p = sample_named" by (simp add: sample_named_def policydb_init_def)
  obtain bs where bs: "\<forall>out len. length bs \<le> len \<longrightarrow> wr_each (write_symtab sample_named) sym_order (out, len) = (OK, out @ bs, len - length bs)"
      "\<forall>rest m. ample m \<longrightarrow> (\<exists>m'. read_symtabs sample_image_env sym_order (policydb_init\<lparr>policyvers := 33\<rparr>) (bs @ rest, m) = Inr (?p, rest, m'))"
    using symbols_write_read [OF sample_named_fit v] by blast
  show ?thesis
    using bs(1) [rule_format, of "length bs" "[]"] bs(2) [unfolded p, rule_format, of "[]" "[]"] by (intro exI [of _ bs]) auto
qed

end
