(* ===== verification/Spec2Isabelle.thy ===== *)
theory Spec2Isabelle
  imports Policy_Load Landlock_Run Policy_Accepted Symbol_Image
begin

text \<open>
  Mandatory access control in the kernel: a verification library for the two security modules whose
  sources the repository holds, SELinux (\<open>src/admin-guide/LSM/selinux/src/security/selinux\<close>) and Landlock
  (\<open>src/admin-guide/LSM/landlock/src\<close>).

  \<^bold>\<open>SELinux.\<close> The security server (\<open>ss/\<close>) reads a policy image, keeps the policy in hash tables and index
  arrays, gives every security context a number (SID) and answers two questions about SIDs: which
  permissions a source has on a target, and which label a new object gets. The access vector cache (\<open>avc.c\<close>)
  stands between the hooks of the kernel and the server and keeps the answers. A policy may be replaced
  and its booleans may be switched while the kernel runs; the SIDs that are in use survive.

  \<^bold>\<open>Landlock.\<close> An unprivileged process collects rules on files in a ruleset and restricts itself with it. The
  ruleset becomes a layer of the domain in the credentials of the process, and every access to a path is
  checked by walking from the file up to the root against every layer.

  \<^bold>\<open>Theories.\<close> Each theory opens with what it holds; operations keep the names of the code.

  \<^item> \<open>Kernel_Prelude\<close>: widths of integers, error numbers, the allocator, facts on lists, options and words,
    and the locale \<open>lossy_cache\<close>, the contract of a cache that may forget but never invents.
  \<^item> \<open>Hashtab\<close> (\<open>ss/hashtab.c\<close>, \<open>ss/symtab.c\<close>): chained hash tables. The locale \<open>hashtab_keys\<close> proves, from the
    laws of a hash and a comparison, that a table is a finite map; it is interpreted for names here and for
    the keys of the three rule tables in \<open>Policydb\<close>.
  \<^item> \<open>Ebitmap\<close> (\<open>ss/ebitmap.c\<close>, \<open>ss/ebitmap.h\<close>): sparse bitmaps as sets, and the iteration over their members.
  \<^item> \<open>Context\<close> (\<open>ss/mls_types.h\<close>, \<open>ss/context.c\<close>, \<open>ss/context.h\<close>): levels, ranges and contexts; the locale
    \<open>mls_order\<close> gives dominance of levels as a partial order, interpreted on bitmaps.
  \<^item> \<open>Avtab\<close> (\<open>ss/avtab.c\<close>): the table of type enforcement rules.
  \<^item> \<open>Policydb\<close> (\<open>ss/policydb.h\<close>, \<open>ss/policydb.c\<close>): the data of a policy, its index arrays and the check of
    bounds. \<open>Constraint\<close>, \<open>Conditional\<close> (\<open>ss/conditional.c\<close>), \<open>Mls\<close> and \<open>Mls_Roundtrip\<close> (\<open>ss/mls.c\<close>),
    \<open>Av_Decision\<close> and \<open>Class_Map\<close> add constraints, booleans with the rules they switch, the security
    levels with their text form, decisions, and the classes of the kernel against those of the policy.
  \<^item> \<open>Sidtab\<close> (\<open>ss/sidtab.c\<close>): SIDs and the conversion to a new policy while lookups go on.
  \<^item> \<open>Services\<close>, \<open>Compute_Sid\<close>, \<open>Context_Strings\<close>, \<open>Object_Contexts\<close>, \<open>Policy_Load\<close> (\<open>ss/services.c\<close>): access
    decisions, labelling decisions, labels as strings, labels of ports, hosts and files, and the change of
    the policy and its booleans.
  \<^item> \<open>Avc\<close> (\<open>avc.c\<close>): the cache, its interpretation of \<open>lossy_cache\<close>, and a step relation in which policy changes
    and insertions interleave.
  \<^item> \<open>Policy_File\<close>, \<open>Ebitmap_Image\<close>, \<open>Avtab_Image\<close>, \<open>Cond_Image\<close>, \<open>Policy_Read\<close> (\<open>next_entry\<close>, \<open>put_entry\<close> and
    the readers of \<open>ss/ebitmap.c\<close>, \<open>ss/avtab.c\<close>, \<open>ss/conditional.c\<close>, \<open>ss/policydb.c\<close>): the policy image. A
    reader consumes bytes and allocations and returns a value or an error; a writer appends to a buffer of
    limited length. \<open>Policy_Write\<close> holds the writer of \<open>ss/policydb.c\<close>, the relation \<open>stores\<close> between a writer
    and the reader of what it wrote, and the round trip of object labels; \<open>Symbol_Image\<close> follows the symbol
    tables through an image. \<open>Policy_Accepted\<close> says what holds of every policy an image can give, and joins the
    reader with the decisions of \<open>Services\<close>.
  \<^item> \<open>Landlock_Object\<close>, \<open>Landlock_Ruleset\<close>, \<open>Landlock_Fs\<close>, \<open>Landlock_Syscalls\<close> (\<open>object.c\<close>, \<open>ruleset.c\<close>, \<open>fs.c\<close>,
    \<open>syscalls.c\<close>, \<open>cred.c\<close>, \<open>ptrace.c\<close>, \<open>setup.c\<close>): objects tied to inodes, rulesets and domains in an explicit
    heap, the walk over paths and the hooks, and the system calls. The locale \<open>refcount\<close> is interpreted for the
    three kinds of counted structures.
  \<^item> \<open>Landlock_System\<close>, \<open>Landlock_Run\<close>: all of Landlock as a transition system, the invariant that every
    counter is the number of references, and what it gives for every order of the operations.

  \<^bold>\<open>What is shown.\<close> Data structures: the bitmap, hash table and rule table agree with sets, maps and
  multisets, and survive writing and reading, as do symbol tables and the labels of objects. The reader: whatever bytes an image has, an accepted policy is
  consistent, and under it the access vector computation returns and grants exactly what rules, constraints,
  roles and bounds grant. Decisions: bounded types gain nothing, unknown SIDs and classes fail closed, computed
  labels are valid, ranges stay within what users are authorized for. Names: contexts, levels and SIDs survive
  printing and parsing. The cache: it never changes a decision, stays bounded, and holds no decision of an
  older policy when the change is announced before the flush. Policy changes: SIDs keep their meaning, booleans
  change nothing but the rules they guard. Landlock: the check of a path allows an access exactly when every
  layer has a rule for it on the way to the root, links and renames give no new rights, a process that
  restricts itself never gets an access back, and no sequence of operations follows a freed pointer.

  \<^bold>\<open>How effects are modelled.\<close> A status is an \<open>errno option\<close>, \<open>OK\<close> or \<open>Err e\<close>. Allocations are answered by a
  schedule, a list of booleans that grants everything when it is used up; Landlock has the schedule in its heap.
  An allocation of zero bytes may fail in the model, which it does not in the kernel. The outer \<open>None\<close> of an
  operation stands for a null pointer that is followed, a \<open>BUG\<close>, or a walk without end; the properties show
  that it does not happen or say when it does. Retries after a switch of the policy take the list of the states
  they meet; an atomic call has none. Locks and RCU sections are not represented: what runs under one lock is
  one step.

  \<^bold>\<open>Bounds.\<close> Integers keep their width where they may wrap. The recursion of \<open>context_struct_compute_av\<close> into
  bounding types has the fuel \<open>POLICYDB_BOUNDS_MAXDEPTH\<close>, more than the depth that the check of bounds
  accepts, and the decision theorems show that it is enough. The walks over
  paths, over the hierarchy of domains and over bounds are partial functions whose \<open>None\<close> includes that they
  do not end; that they return is shown for every well-formed tree, heap and chain.

  \<^bold>\<open>Parameters.\<close> Code outside the repository is an argument with named laws: the hash functions of contexts and
  names, the pages an order of allocation covers and what the stack held (\<open>image_env\<close>), the dentries and mounts
  (\<open>vfs\<close>), the rights of \<open>uapi/linux/landlock.h\<close>, the calls on credentials and user memory, and the rebalancing of
  red-black trees. Witnesses instantiate them.

  \<^bold>\<open>Not modelled.\<close> The hooks (\<open>hooks.c\<close>) and the file system of the administrator (\<open>selinuxfs.c\<close>) apply the
  decisions to structures of the kernel that are not in the repository. The tables of network interfaces,
  hosts, ports and InfiniBand keys are caches with locks and RCU in front of the object contexts; NetLabel, XFRM,
  netlink and IMA hand labels to other subsystems. Of the security server, the release of memory, statistics for the log and the category maps of NetLabel are left out. The text of audit
  records is left out. The other programs of the repository are examples and notes.
\<close>

end
